(* ===== verification/BB_Prelude.thy ===== *)
theory BB_Prelude
  imports Main "HOL-Library.Word"
begin

text \<open>
  Shared vocabulary of the development: the result codes of \<^verbatim>\<open>bb_core.h\<close>, C strings held in
  fixed-size character arrays, flat byte buffers, bounded scans, and the abstract
  interface of a keyed table that several components implement and rely on.
\<close>

section \<open>Collections of facts\<close>

named_theorems bb_err_simps \<open>case distinctions on result codes\<close>
named_theorems inv_intros \<open>operations keep the invariant of their component\<close>
named_theorems frame_simps \<open>fields an operation leaves alone\<close>

section \<open>Machine types\<close>

type_synonym u8 = "8 word"
type_synonym u16 = "16 word"
type_synonym u32 = "32 word"
type_synonym u64 = "64 word"

lemma unat_ucast_32_64: "unat (ucast (w :: u32) :: u64) = unat w"
proof -
  have "unat w < 2 ^ 64" using unsigned_less [of w, where ?'a = nat] by simp
  then show ?thesis by (simp add: unsigned_ucast_eq take_bit_nat_eq_self)
qed

lemma u32_max: "(w :: u32) \<le> 0xFFFFFFFF"
proof -
  have "unat w < 2 ^ 32" using unsigned_less [of w, where ?'a = nat] by simp
  then show ?thesis by (simp add: word_le_nat_alt)
qed

section \<open>Result codes\<close>

text \<open>The host numbering of \<^verbatim>\<open>bb_err_t\<close>; on ESP-IDF the first group aliases \<^verbatim>\<open>esp_err_t\<close>
  values and \<^verbatim>\<open>BB_ERR_NO_SPACE\<close> and \<^verbatim>\<open>BB_ERR_NO_MEM\<close> coincide.\<close>

datatype bb_err_t =
    BB_OK
  | BB_ERR_INVALID_ARG
  | BB_ERR_NOT_FOUND
  | BB_ERR_NOT_INITIALIZED
  | BB_ERR_NO_SPACE
  | BB_ERR_INVALID_STATE
  | BB_ERR_UNSUPPORTED
  | BB_ERR_VALIDATION
  | BB_ERR_TIMEOUT
  | BB_ERR_CONFLICT
  | BB_ERR_NO_MEM
  | BB_ERR_UNAUTHORIZED
  | BB_ERR_PARSE_GRAMMAR
  | BB_ERR_PARSE_INCOMPLETE

section \<open>C strings and buffers\<close>

text \<open>The terminating character, and the C string a character array holds.\<close>

abbreviation NUL :: char where "NUL \<equiv> CHR 0x00"

definition cstr :: "char list \<Rightarrow> string" where
  "cstr a = takeWhile (\<lambda>c. c \<noteq> NUL) a"

text \<open>Overwriting a run of cells of an array (\<^verbatim>\<open>memcpy\<close> into \<^verbatim>\<open>xs + off\<close>).\<close>

definition blit :: "'a list \<Rightarrow> nat \<Rightarrow> 'a list \<Rightarrow> 'a list" where
  "blit xs off ys = take off xs @ ys @ drop (off + length ys) xs"

text \<open>Reading a run of cells.\<close>

definition slice :: "nat \<Rightarrow> nat \<Rightarrow> 'a list \<Rightarrow> 'a list" where
  "slice off n xs = take n (drop off xs)"

lemma length_blit [simp]: "off + length ys \<le> length xs \<Longrightarrow> length (blit xs off ys) = length xs"
  by (simp add: blit_def)

lemma slice_blit_same: "off + length ys \<le> length xs \<Longrightarrow> slice off (length ys) (blit xs off ys) = ys"
  by (simp add: slice_def blit_def)

lemma nth_blit:
  "off + length ys \<le> length xs \<Longrightarrow> i < length xs \<Longrightarrow>
   blit xs off ys ! i = (if off \<le> i \<and> i < off + length ys then ys ! (i - off) else xs ! i)"
  by (auto simp: blit_def nth_append)

lemma slice_nth_eqI:
  assumes "length xs = length ys" and "\<And>i. off \<le> i \<Longrightarrow> i < off + n \<Longrightarrow> i < length xs \<Longrightarrow> xs ! i = ys ! i"
  shows "slice off n xs = slice off n ys"
  by (rule nth_equalityI) (auto simp: slice_def assms)

lemma slice_blit_other:
  assumes "off + length ys \<le> length xs" and "a + n \<le> off \<or> off + length ys \<le> a"
  shows "slice a n (blit xs off ys) = slice a n xs"
  by (rule slice_nth_eqI) (use assms in \<open>auto simp: nth_blit\<close>)

lemma length_slice: "off + n \<le> length xs \<Longrightarrow> length (slice off n xs) = n"
  by (simp add: slice_def)

lemma cstr_no_nul: "NUL \<notin> set (cstr a)"
  by (auto simp: cstr_def dest: set_takeWhileD)

lemma cstr_id: "NUL \<notin> set s \<Longrightarrow> cstr (s @ NUL # t) = s"
  unfolding cstr_def by (subst takeWhile_append2) auto

lemma cstr_cstr [simp]: "NUL \<notin> set s \<Longrightarrow> cstr s = s"
  by (auto simp: cstr_def takeWhile_eq_all_conv)

text \<open>An optional array, empty when the pointer is NULL.\<close>

definition the_default :: "'a \<Rightarrow> 'a option \<Rightarrow> 'a" where
  "the_default d x = (case x of None \<Rightarrow> d | Some y \<Rightarrow> y)"

section \<open>Bounded scans\<close>

text \<open>The index of the first element that satisfies a test, the shape of every table scan
  \<^verbatim>\<open>for (i = 0; i < n; i++) if (p(i)) return i;\<close>.\<close>

fun find_idx :: "('a \<Rightarrow> bool) \<Rightarrow> 'a list \<Rightarrow> nat option" where
  "find_idx p [] = None"
| "find_idx p (x # xs) = (if p x then Some 0 else map_option Suc (find_idx p xs))"

lemma find_idx_None: "find_idx p xs = None \<longleftrightarrow> (\<forall>x\<in>set xs. \<not> p x)"
  by (induction xs) auto

lemma find_idx_Some:
  "find_idx p xs = Some i \<longleftrightarrow> i < length xs \<and> p (xs ! i) \<and> (\<forall>j<i. \<not> p (xs ! j))"
proof (induction xs arbitrary: i)
  case Nil
  then show ?case by simp
next
  case (Cons x xs)
  show ?case
    by (cases i) (auto simp: Cons.IH less_Suc_eq_0_disj nth_Cons split: nat.splits)
qed

lemma find_idx_SomeD:
  "find_idx p xs = Some i \<Longrightarrow> i < length xs" "find_idx p xs = Some i \<Longrightarrow> p (xs ! i)"
  by (simp_all add: find_idx_Some)

lemma find_idx_cong: "(\<And>x. x \<in> set xs \<Longrightarrow> p x = q x) \<Longrightarrow> find_idx p xs = find_idx q xs"
  by (induction xs) auto

section \<open>Lists with one element removed\<close>

definition remove_nth :: "nat \<Rightarrow> 'a list \<Rightarrow> 'a list" where
  "remove_nth i xs = take i xs @ drop (Suc i) xs"

lemma length_remove_nth: "i < length xs \<Longrightarrow> length (remove_nth i xs) = length xs - 1"
  by (simp add: remove_nth_def)

lemma map_remove_nth: "map f (remove_nth i xs) = remove_nth i (map f xs)"
  by (simp add: remove_nth_def take_map drop_map)

lemma set_remove_nth: "set (remove_nth i xs) \<subseteq> set xs"
  by (auto simp: remove_nth_def dest: in_set_takeD in_set_dropD)

lemma distinct_remove_nth: "distinct xs \<Longrightarrow> distinct (remove_nth i xs)"
  unfolding remove_nth_def
  by (auto simp: distinct_append set_take_disj_set_drop_if_distinct)

lemma filter_key_neq_nth:
  assumes dist: "distinct (map f xs)" and i: "i < length xs"
  shows "filter (\<lambda>x. f x \<noteq> f (xs ! i)) xs = remove_nth i xs"
proof -
  let ?a = "take i xs" and ?b = "drop (Suc i) xs"
  have xs: "xs = ?a @ xs ! i # ?b" using i by (rule id_take_nth_drop)
  have "distinct (map f (?a @ xs ! i # ?b))" using dist xs by metis
  then have "f (xs ! i) \<notin> f ` set ?a" "f (xs ! i) \<notin> f ` set ?b" by auto
  then have "\<forall>x\<in>set ?a. f x \<noteq> f (xs ! i)" "\<forall>x\<in>set ?b. f x \<noteq> f (xs ! i)" by (metis imageI)+
  then have "filter (\<lambda>x. f x \<noteq> f (xs ! i)) (?a @ xs ! i # ?b) = ?a @ ?b"
    by (simp add: filter_id_conv)
  then show ?thesis by (simp only: remove_nth_def xs [symmetric])
qed

lemma take_Suc_update: "n < length xs \<Longrightarrow> take (Suc n) (xs[n := x]) = take n xs @ [x]"
  by (simp add: take_Suc_conv_app_nth)

text \<open>Association lists: appending a binding, removing one by position.\<close>

lemma map_of_snoc:
  assumes "k \<notin> fst ` set xs"
  shows "map_of (xs @ [(k, v)]) = (map_of xs)(k \<mapsto> v)"
proof -
  have "map_of xs k = None" using assms by (simp add: map_of_eq_None_iff)
  then show ?thesis by (auto simp: map_add_def fun_eq_iff split: option.splits)
qed

lemma map_of_remove_nth:
  assumes dist: "distinct (map fst xs)" and i: "i < length xs"
  shows "map_of (remove_nth i xs) = (map_of xs)(fst (xs ! i) := None)"
proof -
  let ?a = "take i xs" and ?b = "drop (Suc i) xs" and ?x = "xs ! i"
  have xs: "xs = ?a @ ?x # ?b" using i by (rule id_take_nth_drop)
  have "distinct (map fst (?a @ ?x # ?b))" using dist xs by metis
  then have notin: "fst ?x \<notin> fst ` set ?a" "fst ?x \<notin> fst ` set ?b" by auto
  then have none: "map_of ?a (fst ?x) = None" "map_of ?b (fst ?x) = None"
    by (simp_all add: map_of_eq_None_iff)
  have "map_of xs = (map_of ?b)(fst ?x \<mapsto> snd ?x) ++ map_of ?a"
    using arg_cong [OF xs, of map_of] by simp
  then show ?thesis using none by (auto simp: remove_nth_def fun_eq_iff map_add_def split: option.splits)
qed

section \<open>The interface of a keyed table\<close>

text \<open>
  Registries and stores of the code base share one contract: an insertion or removal
  either succeeds and changes exactly the named binding, or reports an error and changes
  no binding. \<^verbatim>\<open>ident\<close> is what the component compares when it looks for a key.
\<close>

datatype ('k, 'v) table_op = Put 'k 'v | Del 'k

fun table_step ::
  "('k \<Rightarrow> 'v \<Rightarrow> 's \<Rightarrow> bb_err_t \<times> 's) \<Rightarrow> ('k \<Rightarrow> 's \<Rightarrow> bb_err_t \<times> 's) \<Rightarrow> 's \<Rightarrow> ('k, 'v) table_op \<Rightarrow> bb_err_t \<times> 's"
where
  "table_step ins del s (Put k v) = ins k v s"
| "table_step ins del s (Del k) = del k s"

fun table_run ::
  "('k \<Rightarrow> 'v \<Rightarrow> 's \<Rightarrow> bb_err_t \<times> 's) \<Rightarrow> ('k \<Rightarrow> 's \<Rightarrow> bb_err_t \<times> 's) \<Rightarrow> 's \<Rightarrow> ('k, 'v) table_op list \<Rightarrow> 's"
where
  "table_run ins del s [] = s"
| "table_run ins del s (x # xs) = table_run ins del (snd (table_step ins del s x)) xs"

text \<open>The specification: a finite map on which only the operations that report success act.\<close>

fun spec_step :: "('k \<Rightarrow> 'i) \<Rightarrow> ('i \<rightharpoonup> 'v) \<Rightarrow> bb_err_t \<Rightarrow> ('k, 'v) table_op \<Rightarrow> ('i \<rightharpoonup> 'v)" where
  "spec_step ident m e (Put k v) = (if e = BB_OK then m(ident k \<mapsto> v) else m)"
| "spec_step ident m e (Del k) = (if e = BB_OK then m(ident k := None) else m)"

fun spec_run ::
  "('k \<Rightarrow> 'i) \<Rightarrow> ('k \<Rightarrow> 'v \<Rightarrow> 's \<Rightarrow> bb_err_t \<times> 's) \<Rightarrow> ('k \<Rightarrow> 's \<Rightarrow> bb_err_t \<times> 's) \<Rightarrow> 's \<Rightarrow> ('i \<rightharpoonup> 'v)
    \<Rightarrow> ('k, 'v) table_op list \<Rightarrow> ('i \<rightharpoonup> 'v)"
where
  "spec_run ident ins del s m [] = m"
| "spec_run ident ins del s m (x # xs) =
     (case table_step ins del s x of (e, s') \<Rightarrow>
        spec_run ident ins del s' (spec_step ident m e x) xs)"

locale keyed_table =
  fixes inv :: "'s \<Rightarrow> bool"
    and amap :: "'s \<Rightarrow> ('i \<rightharpoonup> 'v)"
    and ident :: "'k \<Rightarrow> 'i"
    and ins :: "'k \<Rightarrow> 'v \<Rightarrow> 's \<Rightarrow> bb_err_t \<times> 's"
    and del :: "'k \<Rightarrow> 's \<Rightarrow> bb_err_t \<times> 's"
  assumes ins_inv: "inv s \<Longrightarrow> inv (snd (ins k v s))"
    and del_inv: "inv s \<Longrightarrow> inv (snd (del k s))"
    and ins_map: "inv s \<Longrightarrow> amap (snd (ins k v s)) =
          (if fst (ins k v s) = BB_OK then (amap s)(ident k \<mapsto> v) else amap s)"
    and del_map: "inv s \<Longrightarrow> amap (snd (del k s)) =
          (if fst (del k s) = BB_OK then (amap s)(ident k := None) else amap s)"
begin

lemma step_inv: "inv s \<Longrightarrow> inv (snd (table_step ins del s x))"
  by (cases x) (auto intro: ins_inv del_inv)

lemma run_inv: "inv s \<Longrightarrow> inv (table_run ins del s xs)"
  by (induction xs arbitrary: s) (auto intro: step_inv)

lemma step_map:
  "inv s \<Longrightarrow> amap (snd (table_step ins del s x)) =
     spec_step ident (amap s) (fst (table_step ins del s x)) x"
  by (cases x) (auto simp: ins_map del_map)

lemma run_map: "inv s \<Longrightarrow> amap (table_run ins del s xs) = spec_run ident ins del s (amap s) xs"
proof (induction xs arbitrary: s)
  case Nil
  then show ?case by simp
next
  case (Cons x xs)
  let ?r = "table_step ins del s x"
  have "inv (snd ?r)" using Cons.prems by (rule step_inv)
  then have "amap (table_run ins del (snd ?r) xs) = spec_run ident ins del (snd ?r) (amap (snd ?r)) xs"
    by (rule Cons.IH)
  then show ?case using Cons.prems by (simp add: step_map split: prod.splits)
qed

lemma put_then_get:
  "inv s \<Longrightarrow> fst (ins k v s) = BB_OK \<Longrightarrow> amap (snd (ins k v s)) (ident k) = Some v"
  by (simp add: ins_map)

lemma other_key_kept:
  "inv s \<Longrightarrow> ident k' \<noteq> ident k \<Longrightarrow> amap (snd (ins k v s)) (ident k') = amap s (ident k')"
  "inv s \<Longrightarrow> ident k' \<noteq> ident k \<Longrightarrow> amap (snd (del k s)) (ident k') = amap s (ident k')"
  by (simp_all add: ins_map del_map)

lemma failed_op_keeps_map:
  "inv s \<Longrightarrow> fst (table_step ins del s x) \<noteq> BB_OK \<Longrightarrow> amap (snd (table_step ins del s x)) = amap s"
  by (cases x) (auto simp: ins_map del_map)

end

end
