(* ===== verification/BB_Registry.thy ===== *)
theory BB_Registry
  imports BB_Prelude
begin

text \<open>
  \<^verbatim>\<open>bb_registry\<close> (\<^verbatim>\<open>platform/host/bb_registry/bb_registry.c\<close>): a fixed-capacity map from a name
  or an identity pointer to a value, kept as an array of entries with a live count. The
  theory models every operation of the file on the array itself, and shows that a
  registry implements the keyed-table interface of the prelude in both of its keying
  modes.
\<close>

section \<open>Data\<close>

text \<open>
  A key argument is a \<^verbatim>\<open>const char *\<close>: an address and the characters found there. The
  name-keyed family compares the characters (\<^verbatim>\<open>strcmp\<close>), the pointer-keyed family the
  address. A slot of the zero-initialised entry array has NULL fields.
\<close>

record bb_key =
  key_addr :: nat
  key_text :: string

record 'v bb_registry_entry_t =
  reg_name :: "bb_key option"
  reg_value :: "'v option"

text \<open>\<^verbatim>\<open>capacity\<close> and \<^verbatim>\<open>count\<close> are \<^verbatim>\<open>uint16_t\<close>; the one subtraction on them that can wrap is
  written out in \<open>registry_register_common\<close>. The lock of the struct is represented by
  the result of \<^verbatim>\<open>registry_ensure_lock\<close>, an argument of every operation.\<close>

record 'v bb_registry_t =
  reg_entries :: "'v bb_registry_entry_t list"
  reg_capacity :: nat
  reg_count :: nat
  reg_frozen :: bool
  reg_hwm_warned :: bool

definition BB_REGISTRY_SNAPSHOT_MAX :: nat where
  "BB_REGISTRY_SNAPSHOT_MAX = 64"

text \<open>\<^verbatim>\<open>BB_REGISTRY_DEFINE\<close>: a zeroed entry array of \<open>cap\<close> slots; the static assertion of the
  macro refuses a larger capacity at compile time.\<close>

definition BB_REGISTRY_DEFINE :: "nat \<Rightarrow> 'v bb_registry_t option" where
  "BB_REGISTRY_DEFINE cap =
     (if cap \<le> BB_REGISTRY_SNAPSHOT_MAX
      then Some \<lparr>reg_entries = replicate cap \<lparr>reg_name = None, reg_value = None\<rparr>, reg_capacity = cap, reg_count = 0,
                 reg_frozen = False, reg_hwm_warned = False\<rparr>
      else None)"

section \<open>Operations\<close>

definition key_match :: "bool \<Rightarrow> bb_key \<Rightarrow> 'v bb_registry_entry_t \<Rightarrow> bool" where
  "key_match by_ptr key e =
     (case reg_name e of
        None \<Rightarrow> False
      | Some k \<Rightarrow> if by_ptr then key_addr k = key_addr key else key_text k = key_text key)"

definition registry_find_index :: "'v bb_registry_t \<Rightarrow> bb_key \<Rightarrow> bool \<Rightarrow> nat option" where
  "registry_find_index r key by_ptr = find_idx (key_match by_ptr key) (take (reg_count r) (reg_entries r))"

definition registry_register_common ::
  "bb_err_t \<Rightarrow> 'v bb_registry_t \<Rightarrow> bb_key \<Rightarrow> 'v \<Rightarrow> bool \<Rightarrow> bb_err_t \<times> 'v bb_registry_t"
where
  "registry_register_common lock_rc r key v by_ptr =
     (if lock_rc \<noteq> BB_OK then (lock_rc, r)
      else if reg_frozen r then (BB_ERR_INVALID_STATE, r)
      else if registry_find_index r key by_ptr \<noteq> None then (BB_ERR_INVALID_STATE, r)
      else if reg_capacity r \<le> reg_count r then (BB_ERR_NO_SPACE, r)
      else
        (let r1 = r\<lparr>reg_entries := (reg_entries r)[reg_count r := \<lparr>reg_name = Some key, reg_value = Some v\<rparr>],
                   reg_count := reg_count r + 1\<rparr>
         in (BB_OK,
             if \<not> reg_hwm_warned r1 \<and> reg_count r1 = (reg_capacity r1 + 65535) mod 65536
             then r1\<lparr>reg_hwm_warned := True\<rparr> else r1)))"

text \<open>The compaction loop \<^verbatim>\<open>for (j = idx; j < tail; j++) entries[j] = entries[j + 1]\<close>.\<close>

function reg_compact :: "nat \<Rightarrow> nat \<Rightarrow> 'a list \<Rightarrow> 'a list" where
  "reg_compact j tail es = (if j < tail then reg_compact (Suc j) tail (es[j := es ! Suc j]) else es)"
  by pat_completeness auto
termination
  by (relation "measure (\<lambda>(j, tail, es). tail - j)") auto

declare reg_compact.simps [simp del]

definition registry_deregister_common ::
  "bb_err_t \<Rightarrow> 'v bb_registry_t \<Rightarrow> bb_key \<Rightarrow> bool \<Rightarrow> bb_err_t \<times> 'v bb_registry_t"
where
  "registry_deregister_common lock_rc r key by_ptr =
     (if lock_rc \<noteq> BB_OK then (lock_rc, r)
      else if reg_frozen r then (BB_ERR_INVALID_STATE, r)
      else (case registry_find_index r key by_ptr of
              None \<Rightarrow> (BB_ERR_NOT_FOUND, r)
            | Some idx \<Rightarrow>
                (let tail = reg_count r - 1
                 in (BB_OK, r\<lparr>reg_entries := reg_compact idx tail (reg_entries r), reg_count := tail\<rparr>))))"

definition registry_lookup_common ::
  "bb_err_t \<Rightarrow> 'v bb_registry_t \<Rightarrow> bb_key \<Rightarrow> bool \<Rightarrow> 'v option"
where
  "registry_lookup_common lock_rc r key by_ptr =
     (if lock_rc \<noteq> BB_OK then None
      else (case registry_find_index r key by_ptr of
              None \<Rightarrow> None
            | Some idx \<Rightarrow> reg_value (reg_entries r ! idx)))"

definition bb_registry_register ::
  "bb_err_t \<Rightarrow> 'v bb_registry_t \<Rightarrow> bb_key option \<Rightarrow> 'v option \<Rightarrow> bb_err_t \<times> 'v bb_registry_t"
where
  "bb_registry_register lock_rc r nm v =
     (case (nm, v) of
        (Some k, Some w) \<Rightarrow> registry_register_common lock_rc r k w False
      | _ \<Rightarrow> (BB_ERR_INVALID_ARG, r))"

definition bb_registry_deregister ::
  "bb_err_t \<Rightarrow> 'v bb_registry_t \<Rightarrow> bb_key option \<Rightarrow> bb_err_t \<times> 'v bb_registry_t"
where
  "bb_registry_deregister lock_rc r nm =
     (case nm of None \<Rightarrow> (BB_ERR_INVALID_ARG, r)
      | Some k \<Rightarrow> registry_deregister_common lock_rc r k False)"

definition bb_registry_freeze :: "bb_err_t \<Rightarrow> 'v bb_registry_t \<Rightarrow> 'v bb_registry_t" where
  "bb_registry_freeze lock_rc r = (if lock_rc \<noteq> BB_OK then r else r\<lparr>reg_frozen := True\<rparr>)"

definition registry_snapshot :: "bb_err_t \<Rightarrow> 'v bb_registry_t \<Rightarrow> 'v bb_registry_entry_t list" where
  "registry_snapshot lock_rc r = (if lock_rc \<noteq> BB_OK then [] else take (reg_count r) (reg_entries r))"

text \<open>A callback acts on the caller's context; the loop runs it on each snapshot entry.\<close>

definition bb_registry_foreach ::
  "bb_err_t \<Rightarrow> 'v bb_registry_t \<Rightarrow> (bb_key option \<Rightarrow> 'v option \<Rightarrow> 'c \<Rightarrow> 'c) option \<Rightarrow> 'c \<Rightarrow> 'c"
where
  "bb_registry_foreach lock_rc r cb ctx =
     (case cb of None \<Rightarrow> ctx
      | Some f \<Rightarrow> fold (\<lambda>e c. f (reg_name e) (reg_value e) c) (registry_snapshot lock_rc r) ctx)"

definition bb_registry_foreach_ptr ::
  "bb_err_t \<Rightarrow> 'v bb_registry_t \<Rightarrow> (nat option \<Rightarrow> 'v option \<Rightarrow> 'c \<Rightarrow> 'c) option \<Rightarrow> 'c \<Rightarrow> 'c"
where
  "bb_registry_foreach_ptr lock_rc r cb ctx =
     (case cb of None \<Rightarrow> ctx
      | Some f \<Rightarrow> fold (\<lambda>e c. f (map_option key_addr (reg_name e)) (reg_value e) c) (registry_snapshot lock_rc r) ctx)"

definition bb_registry_count :: "bb_err_t \<Rightarrow> 'v bb_registry_t \<Rightarrow> nat" where
  "bb_registry_count lock_rc r = (if lock_rc \<noteq> BB_OK then 0 else reg_count r)"

text \<open>\<open>out\<close> is whether the caller passed a destination.\<close>

definition bb_registry_get_by_index ::
  "bb_err_t \<Rightarrow> 'v bb_registry_t \<Rightarrow> nat \<Rightarrow> bool \<Rightarrow> bb_err_t \<times> 'v bb_registry_entry_t option"
where
  "bb_registry_get_by_index lock_rc r idx out =
     (if \<not> out then (BB_ERR_INVALID_ARG, None)
      else if lock_rc \<noteq> BB_OK then (lock_rc, None)
      else if reg_count r \<le> idx then (BB_ERR_NOT_FOUND, None)
      else (BB_OK, Some (reg_entries r ! idx)))"

definition bb_registry_lookup :: "bb_err_t \<Rightarrow> 'v bb_registry_t \<Rightarrow> bb_key option \<Rightarrow> 'v option" where
  "bb_registry_lookup lock_rc r nm =
     (case nm of None \<Rightarrow> None | Some k \<Rightarrow> registry_lookup_common lock_rc r k False)"

definition bb_registry_register_ptr ::
  "bb_err_t \<Rightarrow> 'v bb_registry_t \<Rightarrow> bb_key option \<Rightarrow> 'v option \<Rightarrow> bb_err_t \<times> 'v bb_registry_t"
where
  "bb_registry_register_ptr lock_rc r key v =
     (case (key, v) of
        (Some k, Some w) \<Rightarrow> registry_register_common lock_rc r k w True
      | _ \<Rightarrow> (BB_ERR_INVALID_ARG, r))"

definition bb_registry_deregister_ptr ::
  "bb_err_t \<Rightarrow> 'v bb_registry_t \<Rightarrow> bb_key option \<Rightarrow> bb_err_t \<times> 'v bb_registry_t"
where
  "bb_registry_deregister_ptr lock_rc r key =
     (case key of None \<Rightarrow> (BB_ERR_INVALID_ARG, r)
      | Some k \<Rightarrow> registry_deregister_common lock_rc r k True)"

definition bb_registry_lookup_ptr :: "bb_err_t \<Rightarrow> 'v bb_registry_t \<Rightarrow> bb_key option \<Rightarrow> 'v option" where
  "bb_registry_lookup_ptr lock_rc r key =
     (case key of None \<Rightarrow> None | Some k \<Rightarrow> registry_lookup_common lock_rc r k True)"

section \<open>Abstraction and invariant\<close>

text \<open>What the operations compare of a key, the live entries, and the finite map they denote.\<close>

definition key_id :: "bool \<Rightarrow> bb_key \<Rightarrow> nat + string" where
  "key_id by_ptr k = (if by_ptr then Inl (key_addr k) else Inr (key_text k))"

definition reg_live :: "'v bb_registry_t \<Rightarrow> 'v bb_registry_entry_t list" where
  "reg_live r = take (reg_count r) (reg_entries r)"

definition entry_id :: "bool \<Rightarrow> 'v bb_registry_entry_t \<Rightarrow> nat + string" where
  "entry_id by_ptr e = key_id by_ptr (the (reg_name e))"

definition reg_map :: "bool \<Rightarrow> 'v bb_registry_t \<Rightarrow> (nat + string) \<rightharpoonup> 'v" where
  "reg_map by_ptr r = map_of (map (\<lambda>e. (entry_id by_ptr e, the (reg_value e))) (reg_live r))"

definition reg_inv :: "bool \<Rightarrow> 'v bb_registry_t \<Rightarrow> bool" where
  "reg_inv by_ptr r \<longleftrightarrow>
     length (reg_entries r) = reg_capacity r \<and> reg_capacity r \<le> BB_REGISTRY_SNAPSHOT_MAX \<and>
     reg_count r \<le> reg_capacity r \<and>
     (\<forall>e\<in>set (reg_live r). reg_name e \<noteq> None \<and> reg_value e \<noteq> None) \<and>
     distinct (map (entry_id by_ptr) (reg_live r))"

section \<open>Library lemmas\<close>

lemma length_reg_compact [simp]: "length (reg_compact j tail es) = length es"
  by (induction j tail es rule: reg_compact.induct) (subst reg_compact.simps, simp)

lemma nth_reg_compact:
  "tail < length es \<Longrightarrow> i < length es \<Longrightarrow>
   reg_compact j tail es ! i = (if j \<le> i \<and> i < tail then es ! Suc i else es ! i)"
proof (induction j tail es rule: reg_compact.induct)
  case (1 j tail es)
  show ?case
  proof (cases "j < tail")
    case True
    with 1 have "reg_compact (Suc j) tail (es[j := es ! Suc j]) ! i =
        (if Suc j \<le> i \<and> i < tail then es[j := es ! Suc j] ! Suc i else es[j := es ! Suc j] ! i)"
      by simp
    with True 1 show ?thesis
      by (subst reg_compact.simps) (auto simp: nth_list_update Suc_le_eq)
  next
    case False
    then show ?thesis by (subst reg_compact.simps) auto
  qed
qed

lemma take_reg_compact:
  assumes "j \<le> tail" and "tail < length es"
  shows "take tail (reg_compact j tail es) = remove_nth j (take (Suc tail) es)"
  by (rule nth_equalityI) (use assms in \<open>auto simp: nth_reg_compact remove_nth_def nth_append min_def\<close>)

lemma key_match_iff: "reg_name e \<noteq> None \<Longrightarrow> key_match by_ptr k e \<longleftrightarrow> entry_id by_ptr e = key_id by_ptr k"
  by (auto simp: key_match_def entry_id_def key_id_def)

lemma reg_invD:
  assumes "reg_inv by_ptr r"
  shows "length (reg_entries r) = reg_capacity r" "reg_count r \<le> reg_capacity r"
    "length (reg_live r) = reg_count r"
    "\<And>e. e \<in> set (reg_live r) \<Longrightarrow> reg_name e \<noteq> None"
    "distinct (map (entry_id by_ptr) (reg_live r))"
  using assms by (auto simp: reg_inv_def reg_live_def)

lemma find_index_live:
  "registry_find_index r k by_ptr = find_idx (key_match by_ptr k) (reg_live r)"
  by (simp add: registry_find_index_def reg_live_def)

lemma find_index_None:
  assumes "reg_inv by_ptr r"
  shows "registry_find_index r k by_ptr = None \<longleftrightarrow> key_id by_ptr k \<notin> entry_id by_ptr ` set (reg_live r)"
  using reg_invD(4) [OF assms] by (force simp: find_index_live find_idx_None key_match_iff)

lemma find_index_Some:
  assumes "reg_inv by_ptr r" and "registry_find_index r k by_ptr = Some i"
  shows "i < reg_count r" "entry_id by_ptr (reg_live r ! i) = key_id by_ptr k"
    "reg_entries r ! i = reg_live r ! i"
proof -
  have *: "i < length (reg_live r)" "key_match by_ptr k (reg_live r ! i)"
    using assms(2) by (auto simp: find_index_live dest: find_idx_SomeD)
  show "i < reg_count r" using * reg_invD(3) [OF assms(1)] by simp
  show "entry_id by_ptr (reg_live r ! i) = key_id by_ptr k"
    using * reg_invD(4) [OF assms(1)] by (simp add: key_match_iff)
  show "reg_entries r ! i = reg_live r ! i" using * by (simp add: reg_live_def)
qed

lemma dom_reg_map: "dom (reg_map by_ptr r) = entry_id by_ptr ` set (reg_live r)"
  by (auto simp: reg_map_def dom_map_of_conv_image_fst image_image)

lemma lookup_common_reg_map:
  assumes inv: "reg_inv by_ptr r"
  shows "registry_lookup_common BB_OK r k by_ptr = reg_map by_ptr r (key_id by_ptr k)"
proof (cases "registry_find_index r k by_ptr")
  case None
  then have "reg_map by_ptr r (key_id by_ptr k) = None"
    using find_index_None [OF inv] dom_reg_map by (metis domIff)
  with None show ?thesis by (simp add: registry_lookup_common_def)
next
  case (Some i)
  note f = find_index_Some [OF inv Some]
  let ?xs = "map (\<lambda>e. (entry_id by_ptr e, the (reg_value e))) (reg_live r)"
  have i: "i < length (reg_live r)" using f(1) reg_invD(3) [OF inv] by simp
  have dist: "distinct (map fst ?xs)" using reg_invD(5) [OF inv] by (simp add: comp_def)
  have mem: "?xs ! i \<in> set ?xs" using i by simp
  have val: "reg_value (reg_live r ! i) \<noteq> None" using inv i by (auto simp: reg_inv_def)
  have "reg_map by_ptr r (key_id by_ptr k) = Some (the (reg_value (reg_live r ! i)))"
    unfolding reg_map_def using map_of_is_SomeI [OF dist] mem i f(2) by auto
  with Some f(3) val show ?thesis by (simp add: registry_lookup_common_def)
qed

text \<open>A successful registration appends an entry; a successful removal drops one.\<close>

lemma register_live:
  assumes inv: "reg_inv by_ptr r" and ok: "fst (registry_register_common lock_rc r k v by_ptr) = BB_OK"
  shows "reg_live (snd (registry_register_common lock_rc r k v by_ptr)) =
           reg_live r @ [\<lparr>reg_name = Some k, reg_value = Some v\<rparr>]"
    and "key_id by_ptr k \<notin> entry_id by_ptr ` set (reg_live r)"
    and "reg_count r < reg_capacity r"
proof -
  have g: "lock_rc = BB_OK" "\<not> reg_frozen r" "registry_find_index r k by_ptr = None" "reg_count r < reg_capacity r"
    using ok by (auto simp: registry_register_common_def split: if_splits)
  then show "reg_count r < reg_capacity r" and "key_id by_ptr k \<notin> entry_id by_ptr ` set (reg_live r)"
    using find_index_None [OF inv] by simp_all
  have "reg_count r < length (reg_entries r)" using g reg_invD(1) [OF inv] by simp
  moreover have "reg_count (snd (registry_register_common lock_rc r k v by_ptr)) = Suc (reg_count r)"
    "reg_entries (snd (registry_register_common lock_rc r k v by_ptr)) =
      (reg_entries r)[reg_count r := \<lparr>reg_name = Some k, reg_value = Some v\<rparr>]"
    using g by (simp_all add: registry_register_common_def Let_def)
  ultimately show "reg_live (snd (registry_register_common lock_rc r k v by_ptr)) =
           reg_live r @ [\<lparr>reg_name = Some k, reg_value = Some v\<rparr>]"
    by (simp add: reg_live_def take_Suc_update)
qed

lemma register_err_same:
  "fst (registry_register_common lock_rc r k v by_ptr) \<noteq> BB_OK \<Longrightarrow> snd (registry_register_common lock_rc r k v by_ptr) = r"
  by (auto simp: registry_register_common_def Let_def)

lemma deregister_err_same:
  "fst (registry_deregister_common lock_rc r k by_ptr) \<noteq> BB_OK \<Longrightarrow> snd (registry_deregister_common lock_rc r k by_ptr) = r"
  by (auto simp: registry_deregister_common_def Let_def split: option.splits)

lemma deregister_live:
  assumes inv: "reg_inv by_ptr r" and ok: "fst (registry_deregister_common lock_rc r k by_ptr) = BB_OK"
  obtains i where "i < length (reg_live r)" "entry_id by_ptr (reg_live r ! i) = key_id by_ptr k"
    "reg_live (snd (registry_deregister_common lock_rc r k by_ptr)) = remove_nth i (reg_live r)"
    "snd (registry_deregister_common lock_rc r k by_ptr) =
       r\<lparr>reg_entries := reg_compact i (reg_count r - 1) (reg_entries r), reg_count := reg_count r - 1\<rparr>"
proof -
  have g: "lock_rc = BB_OK" "\<not> reg_frozen r" "registry_find_index r k by_ptr \<noteq> None"
    using ok by (auto simp: registry_deregister_common_def split: if_splits option.splits)
  then obtain i where i: "registry_find_index r k by_ptr = Some i" by auto
  note f = find_index_Some [OF inv i]
  have eq: "snd (registry_deregister_common lock_rc r k by_ptr) =
       r\<lparr>reg_entries := reg_compact i (reg_count r - 1) (reg_entries r), reg_count := reg_count r - 1\<rparr>"
    using g i by (simp add: registry_deregister_common_def Let_def)
  have "i \<le> reg_count r - 1" "reg_count r - 1 < length (reg_entries r)" "Suc (reg_count r - 1) = reg_count r"
    using f(1) reg_invD(1,2) [OF inv] by auto
  then have "take (reg_count r - 1) (reg_compact i (reg_count r - 1) (reg_entries r)) = remove_nth i (reg_live r)"
    by (simp add: take_reg_compact reg_live_def)
  with eq have "reg_live (snd (registry_deregister_common lock_rc r k by_ptr)) = remove_nth i (reg_live r)"
    by (simp add: reg_live_def)
  with that f eq reg_invD(3) [OF inv] show ?thesis by simp
qed

lemma reg_define_inv: "BB_REGISTRY_DEFINE cap = Some r \<Longrightarrow> reg_inv by_ptr r"
  by (auto simp: BB_REGISTRY_DEFINE_def reg_inv_def reg_live_def split: if_splits)

lemma register_common_inv [inv_intros]:
  assumes inv: "reg_inv by_ptr r"
  shows "reg_inv by_ptr (snd (registry_register_common lock_rc r k v by_ptr))"
proof (cases "fst (registry_register_common lock_rc r k v by_ptr) = BB_OK")
  case True
  note l = register_live [OF inv True]
  let ?r' = "snd (registry_register_common lock_rc r k v by_ptr)"
  have "reg_capacity ?r' = reg_capacity r" "length (reg_entries ?r') = length (reg_entries r)"
    "reg_count ?r' = Suc (reg_count r)"
    using True by (auto simp: registry_register_common_def Let_def split: if_splits)
  with inv l show ?thesis by (auto simp: reg_inv_def entry_id_def)
next
  case False
  with inv show ?thesis by (simp add: register_err_same)
qed

lemma deregister_common_inv [inv_intros]:
  assumes inv: "reg_inv by_ptr r"
  shows "reg_inv by_ptr (snd (registry_deregister_common lock_rc r k by_ptr))"
proof (cases "fst (registry_deregister_common lock_rc r k by_ptr) = BB_OK")
  case True
  then obtain i where i: "i < length (reg_live r)"
    "reg_live (snd (registry_deregister_common lock_rc r k by_ptr)) = remove_nth i (reg_live r)"
    "snd (registry_deregister_common lock_rc r k by_ptr) =
       r\<lparr>reg_entries := reg_compact i (reg_count r - 1) (reg_entries r), reg_count := reg_count r - 1\<rparr>"
    using deregister_live [OF inv True] by metis
  have "distinct (map (entry_id by_ptr) (remove_nth i (reg_live r)))"
    using inv by (simp add: reg_inv_def map_remove_nth distinct_remove_nth)
  with inv i set_remove_nth [of i "reg_live r"] show ?thesis by (auto simp: reg_inv_def)
next
  case False
  with inv show ?thesis by (simp add: deregister_err_same)
qed

lemma register_common_map:
  assumes inv: "reg_inv by_ptr r"
  shows "reg_map by_ptr (snd (registry_register_common lock_rc r k v by_ptr)) =
    (if fst (registry_register_common lock_rc r k v by_ptr) = BB_OK
     then (reg_map by_ptr r)(key_id by_ptr k \<mapsto> v) else reg_map by_ptr r)"
proof (cases "fst (registry_register_common lock_rc r k v by_ptr) = BB_OK")
  case True
  note l = register_live [OF inv True]
  have "entry_id by_ptr \<lparr>reg_name = Some k, reg_value = Some v\<rparr> = key_id by_ptr k"
    by (simp add: entry_id_def)
  with True l show ?thesis by (simp add: reg_map_def map_of_snoc image_image del: map_of_append)
next
  case False
  then show ?thesis by (simp add: register_err_same)
qed

lemma deregister_common_map:
  assumes inv: "reg_inv by_ptr r"
  shows "reg_map by_ptr (snd (registry_deregister_common lock_rc r k by_ptr)) =
    (if fst (registry_deregister_common lock_rc r k by_ptr) = BB_OK
     then (reg_map by_ptr r)(key_id by_ptr k := None) else reg_map by_ptr r)"
proof (cases "fst (registry_deregister_common lock_rc r k by_ptr) = BB_OK")
  case True
  let ?f = "\<lambda>e. (entry_id by_ptr e, the (reg_value e))"
  obtain i where i: "i < length (reg_live r)" "entry_id by_ptr (reg_live r ! i) = key_id by_ptr k"
    "reg_live (snd (registry_deregister_common lock_rc r k by_ptr)) = remove_nth i (reg_live r)"
    using deregister_live [OF inv True] by metis
  have "distinct (map fst (map ?f (reg_live r)))" using reg_invD(5) [OF inv] by (simp add: comp_def)
  from map_of_remove_nth [OF this, of i] i True show ?thesis
    by (simp add: reg_map_def map_remove_nth)
next
  case False
  then show ?thesis by (simp add: deregister_err_same)
qed

section \<open>A registry is a keyed table\<close>

interpretation reg_table: keyed_table "reg_inv by_ptr" "reg_map by_ptr" "key_id by_ptr"
  "\<lambda>k v r. registry_register_common lock_rc r k v by_ptr"
  "\<lambda>k r. registry_deregister_common lock_rc r k by_ptr" for by_ptr lock_rc
  by unfold_locales (auto intro: inv_intros simp: register_common_map deregister_common_map)

section \<open>Properties\<close>

lemma lookup_after:
  assumes "reg_inv False r"
  shows "bb_registry_lookup BB_OK r (Some k) = reg_map False r (Inr (key_text k))"
  using lookup_common_reg_map [OF assms, of k] by (simp add: bb_registry_lookup_def key_id_def)

lemma register_public_OK:
  "fst (bb_registry_register rc r (Some k) (Some v)) = BB_OK \<longleftrightarrow>
     rc = BB_OK \<and> \<not> reg_frozen r \<and> registry_find_index r k False = None \<and> reg_count r < reg_capacity r"
  by (auto simp: bb_registry_register_def registry_register_common_def Let_def)

lemma find_index_lookup:
  assumes "reg_inv False r"
  shows "registry_find_index r k False = None \<longleftrightarrow> bb_registry_lookup BB_OK r (Some k) = None"
proof -
  have "registry_find_index r k False = None \<longleftrightarrow> key_id False k \<notin> dom (reg_map False r)"
    by (simp add: find_index_None [OF assms] dom_reg_map)
  then show ?thesis by (simp add: lookup_after [OF assms] key_id_def domIff)
qed

text \<open>C1: for either keying mode and any result of the lock, running any sequence of
  registrations and removals on a well-formed registry acts on its contents exactly as
  the finite-map specification does (an operation that reports an error changes nothing,
  one that succeeds changes exactly its key's binding), and keeps it well-formed.\<close>

theorem registry_run_refines_map:
  assumes "reg_inv by_ptr r"
  shows "reg_map by_ptr (table_run (\<lambda>k v r. registry_register_common rc r k v by_ptr)
             (\<lambda>k r. registry_deregister_common rc r k by_ptr) r ops) =
           spec_run (key_id by_ptr) (\<lambda>k v r. registry_register_common rc r k v by_ptr)
             (\<lambda>k r. registry_deregister_common rc r k by_ptr) r (reg_map by_ptr r) ops \<and>
         reg_inv by_ptr (table_run (\<lambda>k v r. registry_register_common rc r k v by_ptr)
             (\<lambda>k r. registry_deregister_common rc r k by_ptr) r ops)"
  using reg_table.run_map [OF assms] reg_table.run_inv [OF assms] by blast

definition reg_demo :: "nat bb_registry_t" where
  "reg_demo = the (BB_REGISTRY_DEFINE 2)"

lemma reg_demo_inv: "reg_inv by_ptr reg_demo"
  by (rule reg_define_inv [of 2]) (simp add: reg_demo_def BB_REGISTRY_DEFINE_def BB_REGISTRY_SNAPSHOT_MAX_def)

lemma reg_demo_val:
  "reg_demo = \<lparr>reg_entries = [\<lparr>reg_name = None, reg_value = None\<rparr>, \<lparr>reg_name = None, reg_value = None\<rparr>],
     reg_capacity = 2, reg_count = 0, reg_frozen = False, reg_hwm_warned = False\<rparr>"
  by (simp add: reg_demo_def BB_REGISTRY_DEFINE_def BB_REGISTRY_SNAPSHOT_MAX_def numeral_2_eq_2)

theorem registry_run_refines_map_witness:
  "reg_inv False reg_demo \<and>
   reg_map False (table_run (\<lambda>k v r. registry_register_common BB_OK r k v False)
       (\<lambda>k r. registry_deregister_common BB_OK r k False) reg_demo
       [Put \<lparr>key_addr = 4, key_text = ''a''\<rparr> 7, Put \<lparr>key_addr = 2, key_text = ''b''\<rparr> 8,
        Del \<lparr>key_addr = 3, key_text = ''a''\<rparr>]) (Inr ''b'') = Some 8"
proof -
  let ?k1 = "\<lparr>key_addr = 4, key_text = ''a''\<rparr>" and ?k2 = "\<lparr>key_addr = 2, key_text = ''b''\<rparr>"
    and ?k3 = "\<lparr>key_addr = 3, key_text = ''a''\<rparr>"
  have "spec_run (key_id False) (\<lambda>k v r. registry_register_common BB_OK r k v False)
     (\<lambda>k r. registry_deregister_common BB_OK r k False) reg_demo (reg_map False reg_demo)
     [Put ?k1 7, Put ?k2 8, Del ?k3] (Inr ''b'') = Some 8"
    by (simp add: reg_demo_val registry_register_common_def registry_deregister_common_def
        registry_find_index_def key_match_def key_id_def Let_def)
  then show ?thesis
    using registry_run_refines_map [OF reg_demo_inv, of False BB_OK "[Put ?k1 7, Put ?k2 8, Del ?k3]"]
    by (simp add: reg_demo_inv)
qed

text \<open>On a well-formed registry, registering a name succeeds exactly when the lock is
  available, the registry is not frozen, the name is not bound and a slot is free; the
  name then looks up to the new value and every other name to what it was bound to before,
  and otherwise nothing changes at all.\<close>

theorem register_then_lookup:
  assumes "reg_inv False r"
  shows "(fst (bb_registry_register rc r (Some k) (Some v)) = BB_OK \<longleftrightarrow>
            rc = BB_OK \<and> \<not> reg_frozen r \<and> bb_registry_lookup BB_OK r (Some k) = None \<and>
            reg_count r < reg_capacity r) \<and>
         (fst (bb_registry_register rc r (Some k) (Some v)) = BB_OK \<longrightarrow>
            bb_registry_lookup BB_OK (snd (bb_registry_register rc r (Some k) (Some v))) (Some k') =
              (if key_text k' = key_text k then Some v else bb_registry_lookup BB_OK r (Some k'))) \<and>
         (fst (bb_registry_register rc r (Some k) (Some v)) \<noteq> BB_OK \<longrightarrow>
            snd (bb_registry_register rc r (Some k) (Some v)) = r)"
proof -
  have reg: "bb_registry_register rc r (Some k) (Some v) = registry_register_common rc r k v False" for rc
    by (simp add: bb_registry_register_def)
  have inv': "reg_inv False (snd (registry_register_common rc r k v False))" for rc
    by (rule inv_intros [OF assms])
  show ?thesis
    using register_public_OK [of rc r k v] find_index_lookup [OF assms, of k]
      register_common_map [OF assms, of rc k v] register_err_same [of rc r k v False]
    by (auto simp: reg lookup_after [OF assms] lookup_after [OF inv'] key_id_def)
qed

theorem register_then_lookup_witness:
  "reg_inv False reg_demo \<and>
   bb_registry_lookup BB_OK (snd (bb_registry_register BB_OK reg_demo
      (Some \<lparr>key_addr = 4, key_text = ''a''\<rparr>) (Some 7))) (Some \<lparr>key_addr = 9, key_text = ''a''\<rparr>) = Some 7"
proof -
  let ?k = "\<lparr>key_addr = 4, key_text = ''a''\<rparr>"
  have "bb_registry_lookup BB_OK reg_demo (Some ?k) = None" "\<not> reg_frozen reg_demo" "reg_count reg_demo < reg_capacity reg_demo"
    by (simp_all add: reg_demo_val bb_registry_lookup_def registry_lookup_common_def registry_find_index_def)
  then show ?thesis
    using register_then_lookup [OF reg_demo_inv, of BB_OK ?k 7 "\<lparr>key_addr = 9, key_text = ''a''\<rparr>"]
    by (simp add: reg_demo_inv)
qed

text \<open>A removal that reports success keeps the other entries, in their registration
  order: what an iteration over the registry visits afterwards is what it visited before
  with the removed name left out.\<close>

theorem deregister_keeps_order:
  assumes "reg_inv False r" and "fst (bb_registry_deregister rc r (Some k)) = BB_OK"
  shows "registry_snapshot BB_OK (snd (bb_registry_deregister rc r (Some k))) =
           filter (\<lambda>e. map_option key_text (reg_name e) \<noteq> Some (key_text k)) (registry_snapshot BB_OK r)"
proof -
  let ?r' = "snd (registry_deregister_common rc r k False)"
  have ok: "fst (registry_deregister_common rc r k False) = BB_OK" using assms(2) by (simp add: bb_registry_deregister_def)
  obtain i where i: "i < length (reg_live r)" "entry_id False (reg_live r ! i) = key_id False k"
    "reg_live ?r' = remove_nth i (reg_live r)"
    using deregister_live [OF assms(1) ok] by metis
  let ?p = "\<lambda>e. map_option key_text (reg_name e) \<noteq> Some (key_text k)"
  have p: "?p e \<longleftrightarrow> entry_id False e \<noteq> entry_id False (reg_live r ! i)" if "e \<in> set (reg_live r)" for e
    using reg_invD(4) [OF assms(1) that] i(2) by (auto simp: entry_id_def key_id_def)
  have "filter ?p (reg_live r) = filter (\<lambda>e. entry_id False e \<noteq> entry_id False (reg_live r ! i)) (reg_live r)"
    using p by (rule filter_cong [OF refl])
  also have "\<dots> = remove_nth i (reg_live r)"
    using reg_invD(5) [OF assms(1)] i(1) by (rule filter_key_neq_nth)
  finally have "filter ?p (reg_live r) = remove_nth i (reg_live r)" .
  then show ?thesis using i(3)
    by (simp add: registry_snapshot_def bb_registry_deregister_def reg_live_def)
qed

theorem deregister_keeps_order_witness:
  "registry_snapshot BB_OK (snd (bb_registry_deregister BB_OK
      (snd (bb_registry_register BB_OK reg_demo (Some \<lparr>key_addr = 4, key_text = ''a''\<rparr>) (Some 7)))
      (Some \<lparr>key_addr = 5, key_text = ''a''\<rparr>))) = []"
proof -
  let ?k = "\<lparr>key_addr = 4, key_text = ''a''\<rparr>"
  let ?r = "snd (bb_registry_register BB_OK reg_demo (Some ?k) (Some 7))"
  have inv: "reg_inv False ?r"
    using register_common_inv [OF reg_demo_inv] by (simp add: bb_registry_register_def)
  have r: "?r = \<lparr>reg_entries = [\<lparr>reg_name = Some ?k, reg_value = Some 7\<rparr>, \<lparr>reg_name = None, reg_value = None\<rparr>],
      reg_capacity = 2, reg_count = 1, reg_frozen = False, reg_hwm_warned = True\<rparr>"
    by (simp add: reg_demo_val bb_registry_register_def registry_register_common_def registry_find_index_def Let_def)
  have "fst (bb_registry_deregister BB_OK ?r (Some \<lparr>key_addr = 5, key_text = ''a''\<rparr>)) = BB_OK"
    by (simp add: r bb_registry_deregister_def registry_deregister_common_def registry_find_index_def key_match_def Let_def)
  from deregister_keeps_order [OF inv this] show ?thesis
    by (simp add: r registry_snapshot_def)
qed

text \<open>Once a registry has been frozen, no sequence of registrations and removals, by
  name or by pointer, changes it in any way, and each of them reports an error.\<close>

theorem frozen_registry_is_immutable:
  "table_run (\<lambda>k v r. registry_register_common rc r k v by_ptr)
     (\<lambda>k r. registry_deregister_common rc r k by_ptr) (bb_registry_freeze BB_OK r) ops = bb_registry_freeze BB_OK r \<and>
   fst (registry_register_common rc (bb_registry_freeze BB_OK r) k v by_ptr) \<noteq> BB_OK \<and>
   fst (registry_deregister_common rc (bb_registry_freeze BB_OK r) k by_ptr) \<noteq> BB_OK"
proof -
  have step: "registry_register_common rc (bb_registry_freeze BB_OK r) k v by_ptr =
      (if rc \<noteq> BB_OK then rc else BB_ERR_INVALID_STATE, bb_registry_freeze BB_OK r)"
    "registry_deregister_common rc (bb_registry_freeze BB_OK r) k by_ptr =
      (if rc \<noteq> BB_OK then rc else BB_ERR_INVALID_STATE, bb_registry_freeze BB_OK r)" for k v
    by (simp_all add: registry_register_common_def registry_deregister_common_def bb_registry_freeze_def)
  have "table_run (\<lambda>k v r. registry_register_common rc r k v by_ptr)
     (\<lambda>k r. registry_deregister_common rc r k by_ptr) (bb_registry_freeze BB_OK r) ops = bb_registry_freeze BB_OK r"
  proof (induction ops)
    case (Cons x xs)
    then show ?case by (cases x) (simp_all add: step)
  qed simp
  then show ?thesis by (simp add: step)
qed

end
