(* ===== verification/BB_Ring.thy ===== *)
theory BB_Ring
  imports BB_Prelude "HOL-Library.Sublist"
begin

text \<open>
  Circular buffers: the contents of a ring of slots read from its oldest entry, what a
  removal at the tail and a write at the head do to them, and the interface of a bounded
  FIFO that the ring-based queues of the code base provide.
\<close>

section \<open>Slots of a ring\<close>

definition ring_list :: "(nat \<Rightarrow> 'a) \<Rightarrow> nat \<Rightarrow> nat \<Rightarrow> nat \<Rightarrow> 'a list" where
  "ring_list f cap tail n = map (\<lambda>i. f ((tail + i) mod cap)) [0..<n]"

lemma length_ring_list [simp]: "length (ring_list f cap tail n) = n"
  by (simp add: ring_list_def)

lemma nth_ring_list: "i < n \<Longrightarrow> ring_list f cap tail n ! i = f ((tail + i) mod cap)"
  by (simp add: ring_list_def)

lemma ring_list_0 [simp]: "ring_list f cap tail 0 = []"
  by (simp add: ring_list_def)

lemma ring_list_Nil_iff [simp]: "ring_list f cap tail n = [] \<longleftrightarrow> n = 0"
  by (simp add: ring_list_def)

lemma ring_slot_inj:
  assumes "i < cap" and "j < cap" and "(t + i) mod cap = (t + j) mod (cap::nat)"
  shows "i = j"
proof -
  have "i mod cap = j mod cap" using assms(3) by (simp add: nat_mod_eq_iff)
  with assms show ?thesis by simp
qed

lemma ring_list_pop:
  assumes "0 < n"
  shows "ring_list f cap ((tail + 1) mod cap) (n - 1) = tl (ring_list f cap tail n)"
proof (rule nth_equalityI)
  fix i
  assume "i < length (ring_list f cap ((tail + 1) mod cap) (n - 1))"
  then have "i < n - 1" by simp
  then show "ring_list f cap ((tail + 1) mod cap) (n - 1) ! i = tl (ring_list f cap tail n) ! i"
    using assms by (simp add: nth_ring_list nth_tl mod_simps)
qed simp

lemma ring_list_push:
  assumes "n < cap" and "\<And>s. s < cap \<Longrightarrow> s \<noteq> (tail + n) mod cap \<Longrightarrow> f' s = f s"
  shows "ring_list f' cap tail (n + 1) = ring_list f cap tail n @ [f' ((tail + n) mod cap)]"
proof (rule nth_equalityI)
  fix i
  assume "i < length (ring_list f' cap tail (n + 1))"
  then consider "i = n" | "i < n" by fastforce
  then show "ring_list f' cap tail (n + 1) ! i = (ring_list f cap tail n @ [f' ((tail + n) mod cap)]) ! i"
  proof cases
    case 1
    then show ?thesis by (simp add: nth_ring_list nth_append)
  next
    case 2
    then have "(tail + i) mod cap \<noteq> (tail + n) mod cap" "(tail + i) mod cap < cap"
      using assms(1) ring_slot_inj [of i cap n tail] by auto
    then show ?thesis using 2 assms(2) by (simp add: nth_ring_list nth_append)
  qed
qed simp

lemma ring_list_cong:
  assumes "0 < cap" and "\<And>s. s < cap \<Longrightarrow> f' s = f s"
  shows "ring_list f' cap tail n = ring_list f cap tail n"
  using assms by (simp add: ring_list_def)

lemma hd_ring_list: "0 < n \<Longrightarrow> tail < cap \<Longrightarrow> hd (ring_list f cap tail n) = f tail"
  by (simp add: hd_conv_nth nth_ring_list)

section \<open>The interface of a bounded FIFO\<close>

text \<open>
  A client of a queue relies on three facts: a push that reports success leaves some
  suffix of the old contents with the new item at the end, a push that reports an error
  adds nothing, and a pop removes exactly the oldest item. \<^verbatim>\<open>lossless\<close> describes the states
  in which a push gives nothing up.
\<close>

locale bounded_fifo =
  fixes inv :: "'q \<Rightarrow> bool"
    and items :: "'q \<Rightarrow> 'a list"
    and push :: "'a \<Rightarrow> 'q \<Rightarrow> bb_err_t \<times> 'q"
    and pop :: "'q \<Rightarrow> bb_err_t \<times> 'q"
    and fits :: "'a \<Rightarrow> 'q \<Rightarrow> bool"
    and cap :: "'q \<Rightarrow> nat"
  assumes push_inv: "inv q \<Longrightarrow> inv (snd (push x q))"
    and pop_inv: "inv q \<Longrightarrow> inv (snd (pop q))"
    and push_OK: "inv q \<Longrightarrow> fst (push x q) = BB_OK \<Longrightarrow> \<exists>k. items (snd (push x q)) = drop k (items q) @ [x]"
    and push_fits: "inv q \<Longrightarrow> fits x q \<Longrightarrow> push x q = (BB_OK, snd (push x q)) \<and> items (snd (push x q)) = items q @ [x]"
    and push_err: "inv q \<Longrightarrow> fst (push x q) \<noteq> BB_OK \<Longrightarrow> \<exists>k. items (snd (push x q)) = drop k (items q)"
    and pop_items: "inv q \<Longrightarrow> items (snd (pop q)) = tl (items q)"
    and pop_OK: "inv q \<Longrightarrow> fst (pop q) = BB_OK \<longleftrightarrow> items q \<noteq> []"
    and push_cap: "inv q \<Longrightarrow> cap (snd (push x q)) = cap q"
    and bounded: "inv q \<Longrightarrow> length (items q) \<le> cap q"
begin

text \<open>Everything a sequence of pushes leaves in the queue is, in order, a sublist of what was
  there followed by what was pushed; in particular nothing is reordered or duplicated.\<close>

lemma pushes_suffix_order:
  assumes "inv q"
  shows "subseq (items (fold (\<lambda>x q. snd (push x q)) xs q)) (items q @ xs)"
  using assms
proof (induction xs arbitrary: q)
  case Nil
  then show ?case by simp
next
  case (Cons x xs)
  let ?q' = "snd (push x q)"
  have sub: "subseq (items ?q') (items q @ [x])"
  proof (cases "fst (push x q) = BB_OK")
    case True
    then obtain k where "items ?q' = drop k (items q) @ [x]" using push_OK [OF Cons.prems] by blast
    then show ?thesis by (simp add: subseq_append suffix_drop suffix_imp_subseq)
  next
    case False
    then obtain k where "items ?q' = drop k (items q)" using push_err [OF Cons.prems] by blast
    then show ?thesis
      by (simp add: subseq_order.trans [OF suffix_imp_subseq [OF suffix_drop] list_emb_append_mono [of _ _ _ "[]", simplified]])
  qed
  have "subseq (items (fold (\<lambda>x q. snd (push x q)) xs ?q')) (items ?q' @ xs)"
    by (rule Cons.IH [OF push_inv [OF Cons.prems]])
  moreover have "subseq (items ?q' @ xs) ((items q @ [x]) @ xs)"
    using sub by (rule list_emb_append_mono) simp
  ultimately have "subseq (items (fold (\<lambda>x q. snd (push x q)) xs ?q')) ((items q @ [x]) @ xs)"
    by (rule subseq_order.trans)
  then show ?case by simp
qed

lemma drain_empties:
  assumes "inv q"
  shows "items (((\<lambda>q. snd (pop q)) ^^ length (items q)) q) = [] \<and> inv (((\<lambda>q. snd (pop q)) ^^ length (items q)) q)"
  using assms
proof (induction "length (items q)" arbitrary: q)
  case 0
  then show ?case by simp
next
  case (Suc n)
  have "length (items (snd (pop q))) = n" using Suc.hyps(2) Suc.prems by (simp add: pop_items)
  then show ?case
    using Suc.hyps(1) [of "snd (pop q)"] pop_inv [OF Suc.prems] Suc.hyps(2)
    by (simp add: funpow_Suc_right del: funpow.simps flip: Suc.hyps(2))
qed

end

end
