(* ===== verification/BB_Queue.thy ===== *)
theory BB_Queue
  imports BB_Ring BB_Registry
begin

text \<open>
  \<^verbatim>\<open>bb_queue\<close> (\<^verbatim>\<open>platform/host/bb_queue/bb_queue.c\<close>), the ring of variable-length entries with
  a byte budget, an age budget and two full policies; \<^verbatim>\<open>bb_age\<close>, the classifier it uses;
  and \<^verbatim>\<open>bb_queue_registry\<close>, which lists the live rings through a \<^verbatim>\<open>bb_registry\<close>. Sizes are
  natural numbers: every sum the code forms is bounded by memory the ring has allocated.
  Time stamps are integers.
\<close>

section \<open>Age classes\<close>

datatype bb_age_state_t = BB_AGE_FRESH | BB_AGE_STALE | BB_AGE_EVICT

definition bb_age_classify :: "nat \<Rightarrow> nat \<Rightarrow> nat \<Rightarrow> bb_age_state_t" where
  "bb_age_classify age_ms stale_age_ms evict_age_ms =
     (if evict_age_ms \<le> age_ms then BB_AGE_EVICT
      else if stale_age_ms = 0 then BB_AGE_FRESH
      else if stale_age_ms \<le> age_ms then BB_AGE_STALE
      else BB_AGE_FRESH)"

section \<open>Data\<close>

record bb_queue_entry_t =
  qe_id :: u32
  qe_ts :: int
  qe_len :: nat

text \<open>A configuration may carry a policy value outside the enumeration.\<close>

datatype bb_queue_full_policy_t = BB_QUEUE_EVICT_OLDEST | BB_QUEUE_REJECT_NEW | bb_queue_policy_other int

record bb_queue_cfg_t =
  capacity_entries :: nat
  max_entry_bytes :: nat
  cfg_policy :: bb_queue_full_policy_t
  cfg_name :: "string option"
  cfg_max_bytes :: nat
  cfg_max_age :: nat

definition BB_QUEUE_NAME_MAX :: nat where
  "BB_QUEUE_NAME_MAX = 24"

record bb_queue =
  q_capacity :: nat
  q_max_entry :: nat
  q_entries :: "bb_queue_entry_t list"
  q_payload :: "u8 list"
  q_head :: nat
  q_tail :: nat
  q_count :: nat
  q_bytes_used :: nat
  q_dropped :: nat
  q_truncated :: nat
  q_max_bytes :: nat
  q_max_age :: nat
  q_policy :: bb_queue_full_policy_t
  q_name :: string

section \<open>The ring registry\<close>

text \<open>Rings are registered by name; the registered value is the ring's handle.\<close>

definition BB_QUEUE_REGISTRY_MAX :: nat where
  "BB_QUEUE_REGISTRY_MAX = 16"

definition s_ring_registry :: "nat bb_registry_t" where
  "s_ring_registry = the (BB_REGISTRY_DEFINE BB_QUEUE_REGISTRY_MAX)"

definition bb_queue_registry_register ::
  "bb_err_t \<Rightarrow> nat bb_registry_t \<Rightarrow> bb_key option \<Rightarrow> nat option \<Rightarrow> bb_err_t \<times> nat bb_registry_t"
where
  "bb_queue_registry_register rc reg nm r =
     (case (nm, r) of
        (Some _, Some _) \<Rightarrow> bb_registry_register rc reg nm r
      | _ \<Rightarrow> (BB_ERR_INVALID_ARG, reg))"

text \<open>The scan callback: keep the first name whose value is the target.\<close>

definition find_by_value_cb ::
  "nat \<Rightarrow> bb_key option \<Rightarrow> nat option \<Rightarrow> bb_key option \<Rightarrow> bb_key option"
where
  "find_by_value_cb target nm v found = (if found = None \<and> v = Some target then nm else found)"

definition bb_queue_registry_deregister ::
  "bb_err_t \<Rightarrow> nat bb_registry_t \<Rightarrow> nat option \<Rightarrow> bb_err_t \<times> nat bb_registry_t"
where
  "bb_queue_registry_deregister rc reg r =
     (case r of
        None \<Rightarrow> (BB_ERR_INVALID_ARG, reg)
      | Some h \<Rightarrow>
          (case bb_registry_foreach rc reg (Some (find_by_value_cb h)) None of
             None \<Rightarrow> (BB_ERR_NOT_FOUND, reg)
           | Some nm \<Rightarrow> bb_registry_deregister rc reg (Some nm)))"

definition bb_queue_registry_count :: "bb_err_t \<Rightarrow> nat bb_registry_t \<Rightarrow> nat" where
  "bb_queue_registry_count rc reg = bb_registry_count rc reg"

definition bb_queue_registry_foreach ::
  "bb_err_t \<Rightarrow> nat bb_registry_t \<Rightarrow> (bb_key option \<Rightarrow> nat option \<Rightarrow> 'c \<Rightarrow> 'c) option \<Rightarrow> 'c \<Rightarrow> 'c"
where
  "bb_queue_registry_foreach rc reg cb ctx =
     (case cb of None \<Rightarrow> ctx | Some f \<Rightarrow> bb_registry_foreach rc reg (Some f) ctx)"

section \<open>Lifecycle of a ring\<close>

text \<open>
  The allocator is outside the code: the handle the struct allocation returns (or none)
  and whether the two array allocations succeed are arguments. A created ring registers
  itself and ignores the outcome.
\<close>

definition bb_queue_create ::
  "nat option \<Rightarrow> bool \<Rightarrow> bool \<Rightarrow> bb_err_t \<Rightarrow> nat bb_registry_t \<Rightarrow> bb_queue_cfg_t option \<Rightarrow> bool
    \<Rightarrow> bb_err_t \<times> bb_queue option \<times> nat bb_registry_t"
where
  "bb_queue_create h entries_ok payload_ok rc reg cfg out =
     (case cfg of
        None \<Rightarrow> (BB_ERR_INVALID_ARG, None, reg)
      | Some c \<Rightarrow>
          if capacity_entries c = 0 \<or> max_entry_bytes c = 0 \<or> \<not> out then (BB_ERR_INVALID_ARG, None, reg)
          else if cfg_policy c \<noteq> BB_QUEUE_EVICT_OLDEST \<and> cfg_policy c \<noteq> BB_QUEUE_REJECT_NEW
          then (BB_ERR_INVALID_ARG, None, reg)
          else if 0 < cfg_max_bytes c \<and> cfg_max_bytes c < max_entry_bytes c
          then (BB_ERR_INVALID_ARG, None, reg)
          else (case h of
             None \<Rightarrow> (BB_ERR_NO_SPACE, None, reg)
           | Some handle \<Rightarrow>
               if \<not> entries_ok then (BB_ERR_NO_SPACE, None, reg)
               else if \<not> payload_ok then (BB_ERR_NO_SPACE, None, reg)
               else
                 (let nm = (case cfg_name c of None \<Rightarrow> [] | Some s \<Rightarrow> take (BB_QUEUE_NAME_MAX - 1) s);
                      r = \<lparr>q_capacity = capacity_entries c, q_max_entry = max_entry_bytes c,
                           q_entries = replicate (capacity_entries c) \<lparr>qe_id = 0, qe_ts = 0, qe_len = 0\<rparr>,
                           q_payload = replicate (capacity_entries c * max_entry_bytes c) 0,
                           q_head = 0, q_tail = 0, q_count = 0, q_bytes_used = 0, q_dropped = 0,
                           q_truncated = 0, q_max_bytes = cfg_max_bytes c, q_max_age = cfg_max_age c,
                           q_policy = cfg_policy c, q_name = nm\<rparr>;
                      (_, reg') = bb_queue_registry_register rc reg
                                    (Some \<lparr>key_addr = handle, key_text = nm\<rparr>) (Some handle)
                  in (BB_OK, Some r, reg'))))"

text \<open>Destroying a ring removes it from the registry before its memory is freed.\<close>

definition bb_queue_destroy :: "bb_err_t \<Rightarrow> nat bb_registry_t \<Rightarrow> nat option \<Rightarrow> nat bb_registry_t" where
  "bb_queue_destroy rc reg r =
     (case r of None \<Rightarrow> reg | Some h \<Rightarrow> snd (bb_queue_registry_deregister rc reg (Some h)))"

definition bb_queue_name :: "bb_queue option \<Rightarrow> string" where
  "bb_queue_name r = (case r of None \<Rightarrow> [] | Some q \<Rightarrow> q_name q)"

section \<open>Eviction\<close>

definition bb_queue_bytes_used_sub :: "nat \<Rightarrow> nat \<Rightarrow> nat" where
  "bb_queue_bytes_used_sub bytes_used len = (if len \<le> bytes_used then bytes_used - len else 0)"

text \<open>The four statements every eviction shares: account the tail entry's bytes, advance the
  tail, and count the drop.\<close>

definition drop_tail :: "bb_queue \<Rightarrow> bb_queue" where
  "drop_tail r =
     r\<lparr>q_bytes_used := bb_queue_bytes_used_sub (q_bytes_used r) (qe_len (q_entries r ! q_tail r)),
       q_tail := (q_tail r + 1) mod q_capacity r,
       q_count := q_count r - 1,
       q_dropped := q_dropped r + 1\<rparr>"

definition tail_expired :: "bb_queue \<Rightarrow> int \<Rightarrow> bool" where
  "tail_expired r now =
     (let delta = now - qe_ts (q_entries r ! q_tail r);
          age = (if delta > 0 then nat delta else 0)
      in bb_age_classify age 0 (q_max_age r) = BB_AGE_EVICT)"

function evict_aged_loop :: "bb_queue \<Rightarrow> int \<Rightarrow> nat \<Rightarrow> bb_queue \<times> nat" where
  "evict_aged_loop r now evicted =
     (if q_count r > 0
      then if tail_expired r now then evict_aged_loop (drop_tail r) now (evicted + 1) else (r, evicted)
      else (r, evicted))"
  by pat_completeness auto
termination
  by (relation "measure (\<lambda>(r, now, evicted). q_count r)") (auto simp: drop_tail_def)

declare evict_aged_loop.simps [simp del]

definition bb_queue_evict_aged :: "bb_queue \<Rightarrow> int \<Rightarrow> bb_queue \<times> nat" where
  "bb_queue_evict_aged r now = (if q_max_age r = 0 then (r, 0) else evict_aged_loop r now 0)"

definition bb_queue_evict_expired :: "bb_queue option \<Rightarrow> int \<Rightarrow> nat \<times> bb_queue option" where
  "bb_queue_evict_expired r now =
     (case r of None \<Rightarrow> (0, None)
      | Some q \<Rightarrow> (case bb_queue_evict_aged q now of (q', n) \<Rightarrow> (n, Some q')))"

section \<open>Writing\<close>

definition over_budget :: "bb_queue \<Rightarrow> nat \<Rightarrow> bool" where
  "over_budget r len \<longleftrightarrow> q_count r = q_capacity r \<or> (0 < q_max_bytes r \<and> q_max_bytes r < q_bytes_used r + len)"

function evict_until_fits :: "bb_queue \<Rightarrow> nat \<Rightarrow> bb_queue" where
  "evict_until_fits r len =
     (if 0 < q_count r \<and> over_budget r len then evict_until_fits (drop_tail r) len else r)"
  by pat_completeness auto
termination
  by (relation "measure (\<lambda>(r, len). q_count r)") (auto simp: drop_tail_def)

declare evict_until_fits.simps [simp del]

definition write_entry :: "bb_queue \<Rightarrow> nat \<Rightarrow> u8 list \<Rightarrow> nat \<Rightarrow> int \<Rightarrow> u32 \<Rightarrow> bb_queue" where
  "write_entry r write_idx data len ts eid =
     (let r1 = r\<lparr>q_count := q_count r + 1,
                q_entries := (q_entries r)[write_idx := \<lparr>qe_id = eid, qe_ts = ts, qe_len = len\<rparr>]\<rparr>;
          r2 = (if len > 0 then r1\<lparr>q_payload := blit (q_payload r1) (write_idx * q_max_entry r1) (take len data)\<rparr>
                else r1)
      in r2\<lparr>q_bytes_used := q_bytes_used r2 + len, q_head := (q_head r2 + 1) mod q_capacity r2\<rparr>)"

definition bb_queue_push ::
  "bb_queue option \<Rightarrow> u8 list option \<Rightarrow> nat \<Rightarrow> int \<Rightarrow> u32 \<Rightarrow> bb_err_t \<times> bb_queue option"
where
  "bb_queue_push rq data len ts eid =
     (case rq of
        None \<Rightarrow> (BB_ERR_INVALID_ARG, None)
      | Some r \<Rightarrow>
          if len > 0 \<and> data = None then (BB_ERR_INVALID_ARG, Some r)
          else if len > q_max_entry r then (BB_ERR_INVALID_ARG, Some (r\<lparr>q_truncated := q_truncated r + 1\<rparr>))
          else
            (let r = (if q_max_age r > 0 then fst (bb_queue_evict_aged r ts) else r);
                 write_idx = q_head r
             in if over_budget r len \<and> q_policy r = BB_QUEUE_REJECT_NEW
                then (BB_ERR_NO_SPACE, Some (r\<lparr>q_dropped := q_dropped r + 1\<rparr>))
                else
                  (let r = (if over_budget r len then evict_until_fits r len else r)
                   in (BB_OK, Some (write_entry r write_idx (case data of None \<Rightarrow> [] | Some d \<Rightarrow> d) len ts eid)))))"

section \<open>Reading\<close>

text \<open>A read yields the entry's length, time stamp and id and the bytes copied into a caller
  buffer of \<open>buf_cap\<close> bytes (\<open>None\<close>: no buffer); \<open>outs\<close> is whether every output pointer
  was given.\<close>

type_synonym read_result = "bb_err_t \<times> (nat \<times> int \<times> u32 \<times> u8 list) option"

definition read_slot :: "bb_queue \<Rightarrow> nat \<Rightarrow> nat option \<Rightarrow> nat \<times> int \<times> u32 \<times> u8 list" where
  "read_slot r slot buf =
     (let e = q_entries r ! slot
      in (qe_len e, qe_ts e, qe_id e,
          case buf of
            None \<Rightarrow> []
          | Some buf_cap \<Rightarrow>
              if buf_cap > 0 \<and> qe_len e > 0
              then slice (slot * q_max_entry r) (if qe_len e < buf_cap then qe_len e else buf_cap) (q_payload r)
              else []))"

definition bb_queue_peek_oldest :: "bb_queue option \<Rightarrow> nat option \<Rightarrow> bool \<Rightarrow> read_result" where
  "bb_queue_peek_oldest rq buf outs =
     (case rq of
        None \<Rightarrow> (BB_ERR_INVALID_ARG, None)
      | Some r \<Rightarrow>
          if \<not> outs then (BB_ERR_INVALID_ARG, None)
          else if q_count r = 0 then (BB_ERR_NOT_FOUND, None)
          else (BB_OK, Some (read_slot r (q_tail r) buf)))"

definition bb_queue_pop_oldest :: "bb_queue option \<Rightarrow> bb_err_t \<times> bb_queue option" where
  "bb_queue_pop_oldest rq =
     (case rq of
        None \<Rightarrow> (BB_ERR_INVALID_ARG, None)
      | Some r \<Rightarrow>
          if q_count r = 0 then (BB_ERR_NOT_FOUND, Some r)
          else (BB_OK, Some (r\<lparr>q_bytes_used := bb_queue_bytes_used_sub (q_bytes_used r) (qe_len (q_entries r ! q_tail r)),
                            q_tail := (q_tail r + 1) mod q_capacity r,
                            q_count := q_count r - 1\<rparr>)))"

definition bb_queue_peek_at :: "bb_queue option \<Rightarrow> nat \<Rightarrow> nat option \<Rightarrow> bool \<Rightarrow> read_result" where
  "bb_queue_peek_at rq index buf outs =
     (case rq of
        None \<Rightarrow> (BB_ERR_INVALID_ARG, None)
      | Some r \<Rightarrow>
          if \<not> outs then (BB_ERR_INVALID_ARG, None)
          else if q_count r = 0 \<or> q_count r \<le> index then (BB_ERR_NOT_FOUND, None)
          else (BB_OK, Some (read_slot r ((q_tail r + index) mod q_capacity r) buf)))"

definition bb_queue_count :: "bb_queue option \<Rightarrow> nat" where
  "bb_queue_count r = (case r of None \<Rightarrow> 0 | Some q \<Rightarrow> q_count q)"

definition bb_queue_capacity :: "bb_queue option \<Rightarrow> nat" where
  "bb_queue_capacity r = (case r of None \<Rightarrow> 0 | Some q \<Rightarrow> q_capacity q)"

definition bb_queue_bytes_used :: "bb_queue option \<Rightarrow> nat" where
  "bb_queue_bytes_used r = (case r of None \<Rightarrow> 0 | Some q \<Rightarrow> q_bytes_used q)"

definition bb_queue_dropped :: "bb_queue option \<Rightarrow> nat" where
  "bb_queue_dropped r = (case r of None \<Rightarrow> 0 | Some q \<Rightarrow> q_dropped q)"

definition bb_queue_truncated :: "bb_queue option \<Rightarrow> nat" where
  "bb_queue_truncated r = (case r of None \<Rightarrow> 0 | Some q \<Rightarrow> q_truncated q)"

definition bb_queue_clear :: "bb_queue option \<Rightarrow> bb_queue option" where
  "bb_queue_clear r =
     (case r of None \<Rightarrow> None
      | Some q \<Rightarrow> Some (q\<lparr>q_head := 0, q_tail := 0, q_count := 0, q_bytes_used := 0\<rparr>))"

section \<open>Abstraction and invariant\<close>

text \<open>What a ring holds, oldest first: each entry's id, time stamp and payload bytes.\<close>

type_synonym item = "u32 \<times> int \<times> u8 list"

definition slot_item :: "bb_queue \<Rightarrow> nat \<Rightarrow> item" where
  "slot_item r s = (qe_id (q_entries r ! s), qe_ts (q_entries r ! s),
                    slice (s * q_max_entry r) (qe_len (q_entries r ! s)) (q_payload r))"

definition q_items :: "bb_queue \<Rightarrow> item list" where
  "q_items r = ring_list (slot_item r) (q_capacity r) (q_tail r) (q_count r)"

definition item_bytes :: "item \<Rightarrow> nat" where
  "item_bytes x = length (snd (snd x))"

definition total_bytes :: "item list \<Rightarrow> nat" where
  "total_bytes xs = sum_list (map item_bytes xs)"

definition q_inv :: "bb_queue \<Rightarrow> bool" where
  "q_inv r \<longleftrightarrow>
     0 < q_capacity r \<and> 0 < q_max_entry r \<and>
     length (q_entries r) = q_capacity r \<and> length (q_payload r) = q_capacity r * q_max_entry r \<and>
     q_tail r < q_capacity r \<and> q_count r \<le> q_capacity r \<and>
     q_head r = (q_tail r + q_count r) mod q_capacity r \<and>
     (\<forall>e\<in>set (q_entries r). qe_len e \<le> q_max_entry r) \<and>
     q_bytes_used r = total_bytes (q_items r) \<and>
     (0 < q_max_bytes r \<longrightarrow> q_max_entry r \<le> q_max_bytes r \<and> q_bytes_used r \<le> q_max_bytes r) \<and>
     (q_policy r = BB_QUEUE_EVICT_OLDEST \<or> q_policy r = BB_QUEUE_REJECT_NEW)"

lemma slot_room: "s < cap \<Longrightarrow> n \<le> me \<Longrightarrow> s * me + n \<le> cap * (me::nat)"
  by (metis Suc_leI add_le_mono le_refl le_trans mult_Suc mult_le_mono1 add.commute)

lemma q_invD:
  assumes "q_inv r"
  shows "0 < q_capacity r" "length (q_entries r) = q_capacity r" "q_tail r < q_capacity r"
    "q_count r \<le> q_capacity r" "q_head r = (q_tail r + q_count r) mod q_capacity r" "q_head r < q_capacity r"
    "q_bytes_used r = total_bytes (q_items r)"
    "s < q_capacity r \<Longrightarrow> qe_len (q_entries r ! s) \<le> q_max_entry r"
    "s < q_capacity r \<Longrightarrow> item_bytes (slot_item r s) = qe_len (q_entries r ! s)"
proof -
  show "s < q_capacity r \<Longrightarrow> item_bytes (slot_item r s) = qe_len (q_entries r ! s)"
    using assms slot_room [of s "q_capacity r" "qe_len (q_entries r ! s)" "q_max_entry r"]
    by (auto simp: q_inv_def item_bytes_def slot_item_def length_slice)
qed (use assms in \<open>auto simp: q_inv_def\<close>)

lemma length_q_items [simp]: "length (q_items r) = q_count r"
  by (simp add: q_items_def)

lemma q_items_Nil: "q_items r = [] \<longleftrightarrow> q_count r = 0"
  by (simp add: q_items_def)

lemma q_items_empty [simp]: "q_count r = 0 \<Longrightarrow> q_items r = []"
  by (simp add: q_items_def)

lemma q_items_nonempty [simp]: "0 < q_count r \<Longrightarrow> q_items r \<noteq> []"
  by (simp add: q_items_def)

lemma hd_q_items: "q_inv r \<Longrightarrow> 0 < q_count r \<Longrightarrow> hd (q_items r) = slot_item r (q_tail r)"
  by (simp add: q_items_def hd_ring_list q_invD(3))

lemma total_bytes_simps [simp]:
  "total_bytes [] = 0" "total_bytes (x # xs) = item_bytes x + total_bytes xs"
  "total_bytes (xs @ ys) = total_bytes xs + total_bytes ys"
  by (simp_all add: total_bytes_def)

lemma total_bytes_hd_tl: "xs \<noteq> [] \<Longrightarrow> total_bytes xs = item_bytes (hd xs) + total_bytes (tl xs)"
  by (cases xs) simp_all

section \<open>What each step does to the contents\<close>

lemma slot_item_update [simp]:
  "slot_item (q_tail_update f r) = slot_item r" "slot_item (q_count_update g r) = slot_item r"
  "slot_item (q_dropped_update g r) = slot_item r" "slot_item (q_bytes_used_update g r) = slot_item r"
  "slot_item (q_truncated_update g r) = slot_item r" "slot_item (q_head_update g r) = slot_item r"
  by (simp_all add: slot_item_def fun_eq_iff)

text \<open>The common effect of an eviction and a pop.\<close>

lemma advance_tail:
  assumes inv: "q_inv r" and pos: "0 < q_count r"
  defines "r' \<equiv> r\<lparr>q_bytes_used := bb_queue_bytes_used_sub (q_bytes_used r) (qe_len (q_entries r ! q_tail r)),
                  q_tail := (q_tail r + 1) mod q_capacity r, q_count := q_count r - 1\<rparr>"
  shows "q_items r' = tl (q_items r)" and "q_inv r'"
proof -
  show items: "q_items r' = tl (q_items r)"
    using ring_list_pop [OF pos] by (simp add: q_items_def r'_def)
  have "total_bytes (q_items r) = qe_len (q_entries r ! q_tail r) + total_bytes (tl (q_items r))"
    using total_bytes_hd_tl [of "q_items r"] pos hd_q_items [OF inv pos] q_invD(3,9) [OF inv] by simp
  then have bytes: "q_bytes_used r' = total_bytes (tl (q_items r))" "q_bytes_used r' \<le> q_bytes_used r"
    using q_invD(7) [OF inv] by (simp_all add: r'_def bb_queue_bytes_used_sub_def)
  have slot: "(q_tail r + q_count r) mod q_capacity r = ((q_tail r + 1) mod q_capacity r + (q_count r - 1)) mod q_capacity r"
    using pos by (cases "q_count r") (simp_all add: mod_simps)
  have cap: "0 < q_capacity r" using q_invD(1) [OF inv] .
  show "q_inv r'"
    using inv bytes slot cap unfolding q_inv_def items by (auto simp: r'_def)
qed

lemma drop_tail_eq:
  "drop_tail r = (r\<lparr>q_bytes_used := bb_queue_bytes_used_sub (q_bytes_used r) (qe_len (q_entries r ! q_tail r)),
                  q_tail := (q_tail r + 1) mod q_capacity r, q_count := q_count r - 1\<rparr>)\<lparr>q_dropped := q_dropped r + 1\<rparr>"
  by (simp add: drop_tail_def)

lemma q_dropped_frame [simp]:
  "q_items (r\<lparr>q_dropped := n\<rparr>) = q_items r" "q_inv (r\<lparr>q_dropped := n\<rparr>) = q_inv r"
  "q_items (r\<lparr>q_truncated := n\<rparr>) = q_items r" "q_inv (r\<lparr>q_truncated := n\<rparr>) = q_inv r"
  by (simp_all add: q_items_def q_inv_def)

lemma drop_tail_items:
  assumes "q_inv r" and "0 < q_count r"
  shows "q_items (drop_tail r) = tl (q_items r)" "q_inv (drop_tail r)"
  using advance_tail [OF assms] by (simp_all add: drop_tail_eq)

lemma drop_tail_frame [frame_simps]:
  "q_capacity (drop_tail r) = q_capacity r" "q_max_entry (drop_tail r) = q_max_entry r"
  "q_head (drop_tail r) = q_head r" "q_max_bytes (drop_tail r) = q_max_bytes r"
  "q_max_age (drop_tail r) = q_max_age r" "q_policy (drop_tail r) = q_policy r"
  "q_truncated (drop_tail r) = q_truncated r" "q_count (drop_tail r) = q_count r - 1"
  "q_dropped (drop_tail r) = q_dropped r + 1"
  by (simp_all add: drop_tail_def)

text \<open>Whether an item has outlived the age budget at time \<open>now\<close>; a time stamp in the future
  counts as age zero.\<close>

definition item_expired :: "nat \<Rightarrow> int \<Rightarrow> item \<Rightarrow> bool" where
  "item_expired max_age now x \<longleftrightarrow> int max_age \<le> max 0 (now - fst (snd x))"

lemma tail_expired_hd:
  "q_inv r \<Longrightarrow> 0 < q_count r \<Longrightarrow> tail_expired r now \<longleftrightarrow> item_expired (q_max_age r) now (hd (q_items r))"
  by (auto simp: hd_q_items tail_expired_def item_expired_def bb_age_classify_def slot_item_def Let_def)

text \<open>Facts both eviction loops share: they only drop from the front and count every drop.\<close>

definition evicts :: "bb_queue \<Rightarrow> bb_queue \<Rightarrow> bool" where
  "evicts r r' \<longleftrightarrow>
     q_inv r' \<and> (\<exists>k \<le> q_count r. q_items r' = drop k (q_items r) \<and> q_dropped r' = q_dropped r + k) \<and>
     q_capacity r' = q_capacity r \<and> q_max_entry r' = q_max_entry r \<and> q_head r' = q_head r \<and>
     q_max_bytes r' = q_max_bytes r \<and> q_max_age r' = q_max_age r \<and> q_policy r' = q_policy r \<and>
     q_truncated r' = q_truncated r"

lemma evicts_refl: "q_inv r \<Longrightarrow> evicts r r"
  by (auto simp: evicts_def intro: exI [of _ 0])

lemma evictsD:
  assumes "evicts r r'"
  shows "q_inv r'" "q_capacity r' = q_capacity r" "q_max_entry r' = q_max_entry r" "q_head r' = q_head r"
    "q_max_bytes r' = q_max_bytes r" "q_policy r' = q_policy r" "q_truncated r' = q_truncated r"
    "q_dropped r' + q_count r' = q_dropped r + q_count r"
proof -
  obtain k where k: "k \<le> q_count r" "q_items r' = drop k (q_items r)" "q_dropped r' = q_dropped r + k"
    using assms by (auto simp: evicts_def)
  have "length (q_items r') = length (drop k (q_items r))" using k(2) by (rule arg_cong)
  then have "q_count r' = q_count r - k" by simp
  with k show "q_dropped r' + q_count r' = q_dropped r + q_count r" by simp
qed (use assms in \<open>auto simp: evicts_def\<close>)

lemma evicts_drop_tail:
  assumes "q_inv r" and "0 < q_count r" and "evicts (drop_tail r) r'"
  shows "evicts r r'"
proof -
  obtain k where k: "k \<le> q_count r - 1" "q_items r' = drop k (tl (q_items r))" "q_dropped r' = q_dropped r + 1 + k"
    using assms(3) drop_tail_items [OF assms(1,2)] by (auto simp: evicts_def frame_simps)
  then have "Suc k \<le> q_count r" "q_items r' = drop (Suc k) (q_items r)" "q_dropped r' = q_dropped r + Suc k"
    using assms(2) by (auto simp: drop_Suc)
  then show ?thesis using assms(3) unfolding evicts_def by (auto simp: frame_simps intro: exI [of _ "Suc k"])
qed

lemma evict_aged_loop_spec:
  "q_inv r \<Longrightarrow> evict_aged_loop r now n = (r', m) \<Longrightarrow>
     evicts r r' \<and> q_items r' = dropWhile (item_expired (q_max_age r) now) (q_items r) \<and>
     m = n + (q_count r - q_count r')"
proof (induction r now n arbitrary: r' m rule: evict_aged_loop.induct)
  case (1 r now n)
  show ?case
  proof (cases "0 < q_count r \<and> tail_expired r now")
    case True
    then have pos: "0 < q_count r" and ex: "tail_expired r now" by simp_all
    note d = drop_tail_items [OF "1.prems"(1) pos]
    have loop: "evict_aged_loop (drop_tail r) now (n + 1) = (r', m)"
      using "1.prems"(2) True by (subst (asm) evict_aged_loop.simps) simp
    have IH: "evicts (drop_tail r) r' \<and> q_items r' = dropWhile (item_expired (q_max_age r) now) (tl (q_items r)) \<and>
        m = n + 1 + (q_count (drop_tail r) - q_count r')"
      using "1.IH" [OF pos ex d(2) loop] d(1) by (simp add: frame_simps)
    have "item_expired (q_max_age r) now (hd (q_items r))"
      using ex tail_expired_hd [OF "1.prems"(1) pos] by simp
    moreover have "q_items r = hd (q_items r) # tl (q_items r)" using pos by simp
    ultimately have "dropWhile (item_expired (q_max_age r) now) (q_items r) =
        dropWhile (item_expired (q_max_age r) now) (tl (q_items r))" by (metis dropWhile.simps(2))
    moreover have "q_count r' \<le> q_count r - 1"
      using IH d(1) length_dropWhile_le [of "item_expired (q_max_age r) now" "tl (q_items r)"]
      by (metis length_q_items length_tl)
    ultimately show ?thesis
      using IH evicts_drop_tail [OF "1.prems"(1) pos] pos by (auto simp: frame_simps)
  next
    case False
    then have eq: "r' = r" "m = n" using "1.prems"(2) by (subst (asm) evict_aged_loop.simps, auto split: if_splits)+
    have "dropWhile (item_expired (q_max_age r) now) (q_items r) = q_items r"
      using False tail_expired_hd [OF "1.prems"(1)] by (cases "q_count r = 0") (simp_all add: dropWhile_eq_self_iff)
    then show ?thesis using eq evicts_refl [OF "1.prems"(1)] by simp
  qed
qed

lemma evict_aged_spec:
  assumes "q_inv r"
  shows "evicts r (fst (bb_queue_evict_aged r now))"
    and "q_items (fst (bb_queue_evict_aged r now)) =
           (if q_max_age r = 0 then q_items r else dropWhile (item_expired (q_max_age r) now) (q_items r))"
    and "snd (bb_queue_evict_aged r now) = q_count r - q_count (fst (bb_queue_evict_aged r now))"
  using evict_aged_loop_spec [OF assms, of now 0 "fst (evict_aged_loop r now 0)" "snd (evict_aged_loop r now 0)"]
    evicts_refl [OF assms]
  by (auto simp: bb_queue_evict_aged_def)

text \<open>When a list of items leaves no room for \<open>n\<close> more bytes, and the longest suffix that does.\<close>

definition full :: "nat \<Rightarrow> nat \<Rightarrow> nat \<Rightarrow> item list \<Rightarrow> bool" where
  "full cap mb n xs \<longleftrightarrow> length xs = cap \<or> (0 < mb \<and> mb < total_bytes xs + n)"

fun fit :: "nat \<Rightarrow> nat \<Rightarrow> nat \<Rightarrow> item list \<Rightarrow> item list" where
  "fit cap mb n [] = []"
| "fit cap mb n (x # xs) = (if full cap mb n (x # xs) then fit cap mb n xs else x # xs)"

lemma fit_suffix: "\<exists>k. fit cap mb n xs = drop k xs"
proof (induction xs)
  case (Cons x xs)
  then obtain k where "fit cap mb n xs = drop k xs" by blast
  then show ?case by (cases "full cap mb n (x # xs)") (auto intro: exI [of _ "Suc k"] exI [of _ 0])
qed simp

lemma fit_not_full: "\<not> full cap mb n xs \<Longrightarrow> fit cap mb n xs = xs"
  by (cases xs) auto

lemma over_budget_full: "q_inv r \<Longrightarrow> over_budget r len \<longleftrightarrow> full (q_capacity r) (q_max_bytes r) len (q_items r)"
  by (simp add: over_budget_def full_def q_invD(7))

lemma evict_until_fits_spec:
  "q_inv r \<Longrightarrow> len \<le> q_max_entry r \<Longrightarrow>
     evicts r (evict_until_fits r len) \<and> \<not> over_budget (evict_until_fits r len) len \<and>
     q_items (evict_until_fits r len) = fit (q_capacity r) (q_max_bytes r) len (q_items r)"
proof (induction r len rule: evict_until_fits.induct)
  case (1 r len)
  show ?case
  proof (cases "0 < q_count r \<and> over_budget r len")
    case True
    then have pos: "0 < q_count r" by simp
    note d = drop_tail_items [OF "1.prems"(1) pos]
    have IH: "evicts (drop_tail r) (evict_until_fits (drop_tail r) len) \<and> \<not> over_budget (evict_until_fits (drop_tail r) len) len \<and>
        q_items (evict_until_fits (drop_tail r) len) = fit (q_capacity r) (q_max_bytes r) len (tl (q_items r))"
      using "1.IH" [OF True d(2)] "1.prems"(2) d(1) by (simp add: frame_simps)
    have step: "evict_until_fits r len = evict_until_fits (drop_tail r) len"
      using True by (subst evict_until_fits.simps) simp
    have "full (q_capacity r) (q_max_bytes r) len (hd (q_items r) # tl (q_items r))"
      using True over_budget_full [OF "1.prems"(1)] pos by simp
    then have "fit (q_capacity r) (q_max_bytes r) len (hd (q_items r) # tl (q_items r)) =
        fit (q_capacity r) (q_max_bytes r) len (tl (q_items r))" by simp
    then show ?thesis using IH step pos evicts_drop_tail [OF "1.prems"(1) pos] by simp
  next
    case False
    then have "evict_until_fits r len = r" by (subst evict_until_fits.simps) auto
    moreover have "\<not> over_budget r len"
    proof (cases "q_count r = 0")
      case True
      then have "q_bytes_used r = 0" using q_invD(7) [OF "1.prems"(1)] by (simp add: q_items_def)
      then show ?thesis using "1.prems" True by (auto simp: over_budget_def q_inv_def)
    next
      case False
      with \<open>\<not> (0 < q_count r \<and> over_budget r len)\<close> show ?thesis by simp
    qed
    moreover have "fit (q_capacity r) (q_max_bytes r) len (q_items r) = q_items r"
      using \<open>\<not> over_budget r len\<close> over_budget_full [OF "1.prems"(1)] by (simp add: fit_not_full)
    ultimately show ?thesis using evicts_refl [OF "1.prems"(1)] by simp
  qed
qed

lemma write_entry_spec:
  fixes ts :: int and eid :: u32
  assumes inv: "q_inv r" and fits: "\<not> over_budget r len" and len: "len \<le> q_max_entry r" "len \<le> length data"
  defines "r' \<equiv> write_entry r (q_head r) data len ts eid"
  shows "q_items r' = q_items r @ [(eid, ts, take len data)]" and "q_inv r'"
    and "q_dropped r' = q_dropped r" and "q_truncated r' = q_truncated r"
proof -
  let ?h = "q_head r" and ?me = "q_max_entry r" and ?cap = "q_capacity r"
  have cnt: "q_count r < ?cap" using fits q_invD(4) [OF inv] by (auto simp: over_budget_def)
  have h: "?h < ?cap" and h_eq: "?h = (q_tail r + q_count r) mod ?cap" using q_invD [OF inv] by simp_all
  have lens: "length (q_entries r) = ?cap" "length (q_payload r) = ?cap * ?me" using inv by (simp_all add: q_inv_def)
  have room: "s < ?cap \<Longrightarrow> n \<le> ?me \<Longrightarrow> s * ?me + n \<le> length (q_payload r)" for s n
    using slot_room [of s ?cap n ?me] lens by simp
  have f: "q_capacity r' = ?cap" "q_max_entry r' = ?me" "q_tail r' = q_tail r" "q_count r' = q_count r + 1"
    "q_entries r' = (q_entries r)[?h := \<lparr>qe_id = eid, qe_ts = ts, qe_len = len\<rparr>]"
    "q_payload r' = (if 0 < len then blit (q_payload r) (?h * ?me) (take len data) else q_payload r)"
    "q_bytes_used r' = q_bytes_used r + len" "q_head r' = (?h + 1) mod ?cap" "q_max_bytes r' = q_max_bytes r"
    "q_policy r' = q_policy r" "q_dropped r' = q_dropped r" "q_truncated r' = q_truncated r"
    by (simp_all add: r'_def write_entry_def Let_def)
  show "q_dropped r' = q_dropped r" "q_truncated r' = q_truncated r" by (fact f)+
  have new: "slot_item r' ?h = (eid, ts, take len data)"
  proof (cases "len = 0")
    case True
    then show ?thesis using h lens by (simp add: slot_item_def f slice_def)
  next
    case False
    then show ?thesis
      using h lens len room [OF h len(1)] slice_blit_same [of "?h * ?me" "take len data" "q_payload r"]
      by (simp add: slot_item_def f min_absorb2)
  qed
  have old: "slot_item r' s = slot_item r s" if s: "s < ?cap" "s \<noteq> ?h" for s
  proof -
    have le: "qe_len (q_entries r ! s) \<le> ?me" by (rule q_invD(8) [OF inv s(1)])
    have "s * ?me + qe_len (q_entries r ! s) \<le> ?h * ?me \<or> ?h * ?me + len \<le> s * ?me"
      using s(2) slot_room [of s ?h "qe_len (q_entries r ! s)" ?me] slot_room [of ?h s len ?me] le len(1)
      by (cases "s < ?h") (auto simp: not_less)
    then have "slice (s * ?me) (qe_len (q_entries r ! s)) (q_payload r') = slice (s * ?me) (qe_len (q_entries r ! s)) (q_payload r)"
      using slice_blit_other [of "?h * ?me" "take len data" "q_payload r"] room [OF h len(1)] len(2)
      by (auto simp: f min_absorb2)
    then show ?thesis using s by (simp add: slot_item_def f)
  qed
  show items: "q_items r' = q_items r @ [(eid, ts, take len data)]"
    unfolding q_items_def f(1,3,4)
    using ring_list_push [OF cnt, of "q_tail r" "slot_item r'" "slot_item r"] old new h_eq by simp
  have "item_bytes (eid, ts, take len data) = len" using len by (simp add: item_bytes_def)
  moreover have "q_head r' = (q_tail r' + q_count r') mod ?cap"
    using h_eq by (simp add: f mod_simps)
  moreover have "e \<in> set (q_entries r') \<Longrightarrow> qe_len e \<le> ?me" for e
    using set_update_subset_insert [of "q_entries r" ?h "\<lparr>qe_id = eid, qe_ts = ts, qe_len = len\<rparr>"] inv len(1)
    by (auto simp: f q_inv_def)
  moreover have "length (q_payload r') = ?cap * ?me"
    using room [OF h len(1)] len lens by (simp add: f min_absorb2)
  moreover have "0 < q_max_bytes r \<longrightarrow> q_bytes_used r' \<le> q_max_bytes r"
    using fits by (auto simp: f over_budget_def)
  ultimately show "q_inv r'"
    using inv cnt unfolding q_inv_def items by (auto simp: f lens)
qed

section \<open>The abstract queue\<close>

text \<open>Pushing as an operation on lists of items: refuse what is too large, let the expired
  prefix go, then refuse or make room according to the policy.\<close>

definition push_spec ::
  "nat \<Rightarrow> nat \<Rightarrow> nat \<Rightarrow> nat \<Rightarrow> bb_queue_full_policy_t \<Rightarrow> item \<Rightarrow> item list \<Rightarrow> bb_err_t \<times> item list"
where
  "push_spec cap me mb ma pol x xs =
     (if me < item_bytes x then (BB_ERR_INVALID_ARG, xs)
      else (let ys = (if ma = 0 then xs else dropWhile (item_expired ma (fst (snd x))) xs)
            in if full cap mb (item_bytes x) ys \<and> pol = BB_QUEUE_REJECT_NEW then (BB_ERR_NO_SPACE, ys)
               else (BB_OK, fit cap mb (item_bytes x) ys @ [x])))"

lemma push_refines_aux:
  fixes ts :: int and eid :: u32
  assumes inv: "q_inv r" and data: "len \<le> length data"
  defines "spec \<equiv> push_spec (q_capacity r) (q_max_entry r) (q_max_bytes r) (q_max_age r) (q_policy r)
                      (eid, ts, take len data) (q_items r)"
  shows "\<exists>r'. bb_queue_push (Some r) (Some data) len ts eid = (fst spec, Some r') \<and>
              q_items r' = snd spec \<and> q_inv r' \<and> q_capacity r' = q_capacity r \<and>
              q_truncated r' = q_truncated r + (if q_max_entry r < len then 1 else 0) \<and>
              q_dropped r' + q_count r' = q_dropped r + q_count r + (if q_max_entry r < len then 0 else 1)"
proof -
  have ib: "item_bytes (eid, ts, take len data) = len" using data by (simp add: item_bytes_def)
  show ?thesis
  proof (cases "q_max_entry r < len")
    case True
    then show ?thesis using inv by (simp add: bb_queue_push_def spec_def push_spec_def ib)
  next
    case small: False
    define r1 where "r1 = (if q_max_age r > 0 then fst (bb_queue_evict_aged r ts) else r)"
    have ev1: "evicts r r1" and it1: "q_items r1 = (if q_max_age r = 0 then q_items r else dropWhile (item_expired (q_max_age r) ts) (q_items r))"
      using evict_aged_spec [OF inv, of ts] evicts_refl [OF inv] by (auto simp: r1_def)
    note r1 = evictsD [OF ev1]
    have ob: "over_budget r1 len \<longleftrightarrow> full (q_capacity r) (q_max_bytes r) len (q_items r1)"
      using over_budget_full [OF r1(1)] r1 by simp
    have spec: "spec = (if full (q_capacity r) (q_max_bytes r) len (q_items r1) \<and> q_policy r = BB_QUEUE_REJECT_NEW
        then (BB_ERR_NO_SPACE, q_items r1)
        else (BB_OK, fit (q_capacity r) (q_max_bytes r) len (q_items r1) @ [(eid, ts, take len data)]))"
      unfolding spec_def push_spec_def ib using small by (simp add: it1 Let_def)
    show ?thesis
    proof (cases "over_budget r1 len \<and> q_policy r = BB_QUEUE_REJECT_NEW")
      case True
      then show ?thesis
        using small ob r1 spec by (auto simp: bb_queue_push_def r1_def [symmetric] Let_def)
    next
      case False
      define r2 where "r2 = (if over_budget r1 len then evict_until_fits r1 len else r1)"
      have ev2: "evicts r1 r2" and fits: "\<not> over_budget r2 len"
        and it2: "q_items r2 = fit (q_capacity r) (q_max_bytes r) len (q_items r1)"
        using evict_until_fits_spec [OF r1(1), of len] small r1 evicts_refl [OF r1(1)] ob
        by (auto simp: r2_def fit_not_full)
      note r2 = evictsD [OF ev2]
      let ?r' = "write_entry r2 (q_head r2) data len ts eid"
      have w: "q_items ?r' = q_items r2 @ [(eid, ts, take len data)]" "q_inv ?r'" "q_dropped ?r' = q_dropped r2" "q_truncated ?r' = q_truncated r2"
        using write_entry_spec [OF r2(1) fits _ data] small r1 r2 by auto
      have c: "q_count ?r' = q_count r2 + 1" "q_capacity ?r' = q_capacity r2"
        by (simp_all add: write_entry_def Let_def)
      have "bb_queue_push (Some r) (Some data) len ts eid = (BB_OK, Some ?r')"
        using small False r1 r2 by (auto simp: bb_queue_push_def r1_def [symmetric] r2_def [symmetric] Let_def)
      then show ?thesis
        using small False w c it2 ob r1 r2 spec by auto
    qed
  qed
qed

lemma pop_spec:
  assumes "q_inv r"
  shows "\<exists>r'. bb_queue_pop_oldest (Some r) = (if q_items r = [] then BB_ERR_NOT_FOUND else BB_OK, Some r') \<and>
              q_items r' = tl (q_items r) \<and> q_inv r' \<and> q_capacity r' = q_capacity r"
proof (cases "q_count r = 0")
  case True
  then have "q_items r = []" by simp
  then show ?thesis using assms True by (simp add: bb_queue_pop_oldest_def)
next
  case False
  then show ?thesis using advance_tail [OF assms] by (simp add: bb_queue_pop_oldest_def)
qed

text \<open>A ring with a fixed clock-free interface, as its clients use it.\<close>

definition push_item :: "item \<Rightarrow> bb_queue \<Rightarrow> bb_err_t \<times> bb_queue" where
  "push_item x r =
     (let p = bb_queue_push (Some r) (Some (snd (snd x))) (length (snd (snd x))) (fst (snd x)) (fst x)
      in (fst p, the (snd p)))"

definition pop_item :: "bb_queue \<Rightarrow> bb_err_t \<times> bb_queue" where
  "pop_item r = (let p = bb_queue_pop_oldest (Some r) in (fst p, the (snd p)))"

definition item_fits :: "item \<Rightarrow> bb_queue \<Rightarrow> bool" where
  "item_fits x r \<longleftrightarrow>
     item_bytes x \<le> q_max_entry r \<and> \<not> full (q_capacity r) (q_max_bytes r) (item_bytes x) (q_items r) \<and>
     (q_max_age r = 0 \<or> q_items r = [] \<or> \<not> item_expired (q_max_age r) (fst (snd x)) (hd (q_items r)))"

definition q_spec :: "bb_queue \<Rightarrow> item \<Rightarrow> bb_err_t \<times> item list" where
  "q_spec r x = push_spec (q_capacity r) (q_max_entry r) (q_max_bytes r) (q_max_age r) (q_policy r) x (q_items r)"

lemma push_item_spec:
  assumes "q_inv r"
  shows "fst (push_item x r) = fst (q_spec r x)" "q_items (snd (push_item x r)) = snd (q_spec r x)"
    "q_inv (snd (push_item x r))" "q_capacity (snd (push_item x r)) = q_capacity r"
  using push_refines_aux [OF assms, of "length (snd (snd x))" "snd (snd x)" "fst (snd x)" "fst x"]
  by (auto simp: push_item_def q_spec_def)

lemma push_spec_shape:
  "(fst (push_spec cap me mb ma pol x xs) = BB_OK \<longrightarrow> (\<exists>k. snd (push_spec cap me mb ma pol x xs) = drop k xs @ [x])) \<and>
   (fst (push_spec cap me mb ma pol x xs) \<noteq> BB_OK \<longrightarrow> (\<exists>k. snd (push_spec cap me mb ma pol x xs) = drop k xs))"
proof -
  have age: "\<exists>k. (if ma = 0 then xs else dropWhile p xs) = drop k xs" for p :: "item \<Rightarrow> bool"
    by (metis drop0 dropWhile_eq_drop)
  have fitd: "\<exists>k. fit cap mb n (drop j xs) = drop k xs" for n j
    using fit_suffix [of cap mb n "drop j xs"] by auto
  have same: "\<exists>k. xs = drop k xs" by (rule exI [of _ 0]) simp
  show ?thesis
    using age [of "item_expired ma (fst (snd x))"] fitd fit_suffix [of cap mb _ xs] same by (auto simp: push_spec_def Let_def)
qed

interpretation queue_fifo: bounded_fifo q_inv q_items push_item pop_item item_fits q_capacity
proof
  fix q x
  assume inv: "q_inv q"
  show "q_inv (snd (push_item x q))" "q_capacity (snd (push_item x q)) = q_capacity q"
    using push_item_spec [OF inv] by simp_all
  show "fst (push_item x q) = BB_OK \<Longrightarrow> \<exists>k. q_items (snd (push_item x q)) = drop k (q_items q) @ [x]"
    "fst (push_item x q) \<noteq> BB_OK \<Longrightarrow> \<exists>k. q_items (snd (push_item x q)) = drop k (q_items q)"
    using push_item_spec [OF inv] push_spec_shape by (simp_all add: q_spec_def)
  show "length (q_items q) \<le> q_capacity q" using q_invD(4) [OF inv] by simp
  show "item_fits x q \<Longrightarrow> push_item x q = (BB_OK, snd (push_item x q)) \<and> q_items (snd (push_item x q)) = q_items q @ [x]"
  proof -
    assume f: "item_fits x q"
    have "dropWhile (item_expired (q_max_age q) (fst (snd x))) (q_items q) = q_items q" if "q_max_age q \<noteq> 0"
      using f that by (cases "q_items q") (auto simp: item_fits_def dropWhile_eq_self_iff)
    then have "q_spec q x = (BB_OK, q_items q @ [x])"
      using f by (auto simp: item_fits_def q_spec_def push_spec_def Let_def fit_not_full)
    then show ?thesis using push_item_spec [OF inv, of x] by (metis fst_conv snd_conv prod.collapse)
  qed
next
  fix q
  assume inv: "q_inv q"
  show "q_inv (snd (pop_item q))" "q_items (snd (pop_item q)) = tl (q_items q)" "fst (pop_item q) = BB_OK \<longleftrightarrow> q_items q \<noteq> []"
    using pop_spec [OF inv] by (auto simp: pop_item_def Let_def split: if_splits)
qed

section \<open>Runs of a ring\<close>

datatype queue_op = Q_Push "u8 list" nat int u32 | Q_Pop | Q_Evict int | Q_Clear

fun queue_step :: "bb_queue \<Rightarrow> queue_op \<Rightarrow> bb_queue" where
  "queue_step r (Q_Push d len ts i) = the (snd (bb_queue_push (Some r) (Some d) len ts i))"
| "queue_step r Q_Pop = the (snd (bb_queue_pop_oldest (Some r)))"
| "queue_step r (Q_Evict now) = the (snd (bb_queue_evict_expired (Some r) now))"
| "queue_step r Q_Clear = the (bb_queue_clear (Some r))"

text \<open>Callers pass at least \<open>len\<close> readable bytes.\<close>

fun op_ok :: "queue_op \<Rightarrow> bool" where
  "op_ok (Q_Push d len ts i) = (len \<le> length d)"
| "op_ok _ = True"

lemma clear_inv: "q_inv r \<Longrightarrow> q_inv (r\<lparr>q_head := 0, q_tail := 0, q_count := 0, q_bytes_used := 0\<rparr>)"
  by (simp add: q_inv_def q_items_def)

lemma queue_step_inv [inv_intros]:
  assumes "q_inv r" and "op_ok x"
  shows "q_inv (queue_step r x)"
proof (cases x)
  case (Q_Push d len ts i)
  then show ?thesis using push_refines_aux [OF assms(1), of len d ts i] assms(2) by auto
next
  case Q_Pop
  then show ?thesis using pop_spec [OF assms(1)] by auto
next
  case (Q_Evict now)
  then show ?thesis using evict_aged_spec(1) [OF assms(1), of now]
    by (auto simp: bb_queue_evict_expired_def evictsD split: prod.splits)
next
  case Q_Clear
  then show ?thesis using clear_inv [OF assms(1)] by (simp add: bb_queue_clear_def)
qed

lemma create_inv:
  assumes "bb_queue_create h eok pok rc reg (Some c) True = (BB_OK, Some r, reg')"
  shows "q_inv r"
  using assms
  by (auto simp: bb_queue_create_def q_inv_def q_items_def Let_def split: if_splits option.splits prod.splits)

section \<open>Properties\<close>

text \<open>C2: pushing an entry onto a well-formed ring, given at least \<open>len\<close> readable bytes, does
  what the list specification says: an oversized entry is refused and counted, expired
  entries leave first, then the push is refused (reject-new) or the shortest prefix that
  makes room is evicted (evict-oldest) and the entry is appended with exactly its bytes.
  Every entry that ever left is accounted for: drops plus live entries grow by one per
  accepted-size push.\<close>

theorem push_refines_list_queue:
  fixes r :: bb_queue
  assumes "q_inv r" and "len \<le> length data"
  shows "\<exists>r'. bb_queue_push (Some r) (Some data) len ts eid = (fst (q_spec r (eid, ts, take len data)), Some r') \<and>
              q_items r' = snd (q_spec r (eid, ts, take len data)) \<and> q_inv r' \<and>
              q_truncated r' = q_truncated r + (if q_max_entry r < len then 1 else 0) \<and>
              q_dropped r' + q_count r' = q_dropped r + q_count r + (if q_max_entry r < len then 0 else 1)"
  using push_refines_aux [OF assms, of ts eid] by (auto simp: q_spec_def)

definition q_demo :: bb_queue where
  "q_demo = \<lparr>q_capacity = 2, q_max_entry = 2, q_entries = [\<lparr>qe_id = 0, qe_ts = 0, qe_len = 0\<rparr>, \<lparr>qe_id = 0, qe_ts = 0, qe_len = 0\<rparr>],
     q_payload = [0, 0, 0, 0], q_head = 0, q_tail = 0, q_count = 0, q_bytes_used = 0, q_dropped = 0, q_truncated = 0,
     q_max_bytes = 3, q_max_age = 0, q_policy = BB_QUEUE_EVICT_OLDEST, q_name = ''demo''\<rparr>"

lemma q_demo_inv: "q_inv q_demo"
  by (simp add: q_demo_def q_inv_def q_items_def)

theorem push_refines_list_queue_witness:
  "\<exists>r'. bb_queue_push (Some q_demo) (Some [7, 8, 9]) 2 5 1 = (BB_OK, Some r') \<and> q_items r' = [(1, 5, [7, 8])] \<and> q_inv r'"
proof -
  have "q_spec q_demo (1, 5, take 2 [7, 8, 9]) = (BB_OK, [(1, 5, [7, 8])])"
    by (simp add: q_spec_def q_demo_def push_spec_def q_items_def full_def item_bytes_def)
  then show ?thesis using push_refines_list_queue [OF q_demo_inv, of 2 "[7, 8, 9]" 5 1] by auto
qed

text \<open>C3: whatever sequence of pushes, pops, age sweeps and clears runs on a freshly created
  ring, the entry count never passes the capacity, the byte counter is exactly the sum of
  the stored entry lengths, and it never passes a configured byte budget.\<close>

theorem queue_bounds_always_hold:
  assumes "bb_queue_create h eok pok rc reg (Some c) True = (BB_OK, Some r, reg')"
    and "list_all op_ok ops"
  shows "(let r' = fold (\<lambda>x r. queue_step r x) ops r
          in q_count r' \<le> q_capacity r' \<and> q_bytes_used r' = total_bytes (q_items r') \<and>
             (0 < q_max_bytes r' \<longrightarrow> q_bytes_used r' \<le> q_max_bytes r'))"
proof -
  have "q_inv r \<Longrightarrow> list_all op_ok ops \<Longrightarrow> q_inv (fold (\<lambda>x r. queue_step r x) ops r)" for r
    by (induction ops arbitrary: r) (auto intro: inv_intros)
  from this [OF create_inv [OF assms(1)] assms(2)] show ?thesis by (auto simp: q_inv_def Let_def)
qed

definition cfg_demo :: bb_queue_cfg_t where
  "cfg_demo = \<lparr>capacity_entries = 2, max_entry_bytes = 2, cfg_policy = BB_QUEUE_EVICT_OLDEST,
     cfg_name = Some ''demo'', cfg_max_bytes = 3, cfg_max_age = 0\<rparr>"

theorem queue_bounds_always_hold_witness:
  "(let r' = fold (\<lambda>x r. queue_step r x) [Q_Push [1, 2] 2 0 1, Q_Push [3, 4] 2 1 2, Q_Pop]
               (the (fst (snd (bb_queue_create (Some 100) True True BB_OK s_ring_registry (Some cfg_demo) True))))
    in q_count r' \<le> q_capacity r' \<and> q_bytes_used r' = total_bytes (q_items r') \<and>
       (0 < q_max_bytes r' \<longrightarrow> q_bytes_used r' \<le> q_max_bytes r'))"
proof -
  obtain r reg' where c: "bb_queue_create (Some 100) True True BB_OK s_ring_registry (Some cfg_demo) True = (BB_OK, Some r, reg')"
    by (simp add: bb_queue_create_def cfg_demo_def Let_def case_prod_beta)
  have ok: "list_all op_ok [Q_Push [1, 2] 2 0 1, Q_Push [3, 4] 2 1 2, Q_Pop]" by simp
  show ?thesis using queue_bounds_always_hold [OF c ok] c by simp
qed

text \<open>Reading the entry at a logical index of a well-formed ring returns that entry's
  length, time stamp and id and, into a buffer of \<open>n\<close> bytes, the first \<open>n\<close> bytes of its
  payload; an index at or past the count is refused.\<close>

theorem peek_at_reads_item:
  assumes "q_inv r"
  shows "bb_queue_peek_at (Some r) i (Some n) True =
     (if i < q_count r
      then (BB_OK, Some (item_bytes (q_items r ! i), fst (snd (q_items r ! i)), fst (q_items r ! i),
                         take n (snd (snd (q_items r ! i)))))
      else (BB_ERR_NOT_FOUND, None))"
proof (cases "i < q_count r")
  case True
  let ?s = "(q_tail r + i) mod q_capacity r"
  have s: "?s < q_capacity r" using q_invD(1) [OF assms] by simp
  have it: "q_items r ! i = slot_item r ?s" using True by (simp add: q_items_def nth_ring_list)
  have len: "item_bytes (slot_item r ?s) = qe_len (q_entries r ! ?s)" by (rule q_invD(9) [OF assms s])
  have "take n (slice a m xs) = slice a (if m < n then m else n) xs" for a m and xs :: "u8 list"
    by (simp add: slice_def min_def)
  then show ?thesis
    using True it len by (auto simp: bb_queue_peek_at_def read_slot_def slot_item_def slice_def Let_def)
next
  case False
  then show ?thesis by (auto simp: bb_queue_peek_at_def)
qed

theorem peek_at_reads_item_witness:
  "q_inv q_demo \<and> bb_queue_peek_at (Some q_demo) 0 (Some 4) True = (BB_ERR_NOT_FOUND, None)"
  using peek_at_reads_item [OF q_demo_inv, of 0 4] q_demo_inv by (simp add: q_demo_def)

text \<open>Pushing any items one after another onto a well-formed ring leaves, in order, a
  subsequence of what it held followed by what was pushed: losing entries is the only
  thing a full ring can do, never reordering, duplicating or altering them.\<close>

theorem queue_keeps_fifo_order:
  assumes "q_inv r"
  shows "subseq (q_items (fold (\<lambda>x r. snd (push_item x r)) xs r)) (q_items r @ xs)"
  by (rule queue_fifo.pushes_suffix_order [OF assms])

theorem queue_keeps_fifo_order_witness:
  "q_inv q_demo \<and> subseq (q_items (fold (\<lambda>x r. snd (push_item x r)) [(1, 0, [1]), (2, 0, [2]), (3, 0, [3])] q_demo))
     [(1, 0, [1]), (2, 0, [2]), (3, 0, [3])]"
proof -
  have "q_items q_demo = []" by (simp add: q_demo_def q_items_def)
  then show ?thesis
    using queue_keeps_fifo_order [OF q_demo_inv, of "[(1, 0, [1]), (2, 0, [2]), (3, 0, [3])]"] q_demo_inv
    by simp
qed

lemma fold_find_by_value:
  assumes "\<forall>e\<in>set es. reg_name e \<noteq> None"
  shows "fold (\<lambda>e c. find_by_value_cb h (reg_name e) (reg_value e) c) es acc =
    (case acc of Some k \<Rightarrow> Some k
     | None \<Rightarrow> (case find_idx (\<lambda>e. reg_value e = Some h) es of None \<Rightarrow> None | Some i \<Rightarrow> reg_name (es ! i)))"
  using assms
proof (induction es arbitrary: acc)
  case Nil
  then show ?case by (simp split: option.splits)
next
  case (Cons e es)
  from Cons.prems have "reg_name e \<noteq> None" and rest: "\<forall>e\<in>set es. reg_name e \<noteq> None" by auto
  then show ?case
    using Cons.IH [OF rest] by (auto simp: find_by_value_cb_def split: option.splits)
qed

lemma deregister_by_value:
  assumes inv: "reg_inv False reg" and nf: "\<not> reg_frozen reg"
    and i: "find_idx (\<lambda>e. reg_value e = Some h) (reg_live reg) = Some i"
  shows "reg_live (snd (bb_queue_registry_deregister BB_OK reg (Some h))) = remove_nth i (reg_live reg)"
proof -
  let ?L = "reg_live reg"
  have names: "\<forall>e\<in>set ?L. reg_name e \<noteq> None" using reg_invD(4) [OF inv] by blast
  have il: "i < length ?L" using i by (rule find_idx_SomeD)
  then obtain nm where nm: "reg_name (?L ! i) = Some nm" using names by (meson nth_mem not_None_eq)
  have "bb_registry_foreach BB_OK reg (Some (find_by_value_cb h)) None = Some nm"
    using fold_find_by_value [OF names, of h None] i nm
    by (simp add: bb_registry_foreach_def registry_snapshot_def reg_live_def [symmetric])
  then have eq: "bb_queue_registry_deregister BB_OK reg (Some h) = registry_deregister_common BB_OK reg nm False"
    by (simp add: bb_queue_registry_deregister_def bb_registry_deregister_def)
  have id: "entry_id False (?L ! i) = key_id False nm" using nm by (simp add: entry_id_def)
  then have "registry_find_index reg nm False \<noteq> None"
    using find_index_None [OF inv, of nm] il by (metis image_eqI nth_mem)
  then have ok: "fst (registry_deregister_common BB_OK reg nm False) = BB_OK"
    using nf by (auto simp: registry_deregister_common_def Let_def)
  obtain j where j: "j < length ?L" "entry_id False (?L ! j) = key_id False nm"
    "reg_live (snd (registry_deregister_common BB_OK reg nm False)) = remove_nth j ?L"
    using deregister_live [OF inv ok] by metis
  have "j = i"
    using reg_invD(5) [OF inv] j(1,2) il id by (metis distinct_conv_nth length_map nth_map)
  with j(3) eq show ?thesis by simp
qed

text \<open>Destroying a ring that is registered at most once leaves no registry entry that
  refers to it, so the diagnostic iteration over the live rings can no longer reach it by
  the time its memory is freed.\<close>

theorem destroy_unlists_ring:
  assumes "reg_inv False reg" and "\<not> reg_frozen reg"
    and "length (filter (\<lambda>e. reg_value e = Some h) (reg_live reg)) \<le> 1"
  shows "\<forall>e\<in>set (registry_snapshot BB_OK (bb_queue_destroy BB_OK reg (Some h))). reg_value e \<noteq> Some h"
proof (cases "find_idx (\<lambda>e. reg_value e = Some h) (reg_live reg)")
  case None
  then have none: "\<forall>e\<in>set (reg_live reg). reg_value e \<noteq> Some h" by (simp add: find_idx_None)
  have names: "\<forall>e\<in>set (reg_live reg). reg_name e \<noteq> None" using reg_invD(4) [OF assms(1)] by blast
  have "bb_registry_foreach BB_OK reg (Some (find_by_value_cb h)) None = None"
    using fold_find_by_value [OF names, of h None] None
    by (simp add: bb_registry_foreach_def registry_snapshot_def reg_live_def [symmetric])
  then show ?thesis using none
    by (simp add: bb_queue_destroy_def bb_queue_registry_deregister_def registry_snapshot_def reg_live_def [symmetric])
next
  case (Some i)
  let ?L = "reg_live reg" and ?P = "\<lambda>e. reg_value e = Some h"
  have i: "i < length ?L" "?P (?L ! i)" using Some by (auto dest: find_idx_SomeD)
  have "length (filter ?P ?L) = length (filter ?P (take i ?L)) + 1 + length (filter ?P (drop (Suc i) ?L))"
    using i by (subst id_take_nth_drop [OF i(1)]) (simp del: append_take_drop_id)
  then have "filter ?P (take i ?L) = []" "filter ?P (drop (Suc i) ?L) = []" using assms(3) by simp_all
  then have "\<forall>e\<in>set (remove_nth i ?L). \<not> ?P e" by (auto simp: remove_nth_def filter_empty_conv)
  then show ?thesis using deregister_by_value [OF assms(1,2) Some]
    by (simp add: bb_queue_destroy_def registry_snapshot_def reg_live_def)
qed

theorem destroy_unlists_ring_witness:
  "\<not> reg_frozen reg_demo \<and>
   Some 100 \<notin> reg_value ` set (registry_snapshot BB_OK (bb_queue_destroy BB_OK
        (snd (bb_registry_register BB_OK reg_demo (Some \<lparr>key_addr = 4, key_text = ''a''\<rparr>) (Some 100))) (Some 100)))"
proof -
  let ?k = "\<lparr>key_addr = 4, key_text = ''a''\<rparr>"
  let ?r = "snd (bb_registry_register BB_OK reg_demo (Some ?k) (Some 100))"
  have inv: "reg_inv False ?r"
    using register_common_inv [OF reg_demo_inv] by (simp add: bb_registry_register_def)
  have r: "?r = \<lparr>reg_entries = [\<lparr>reg_name = Some ?k, reg_value = Some 100\<rparr>, \<lparr>reg_name = None, reg_value = None\<rparr>],
      reg_capacity = 2, reg_count = 1, reg_frozen = False, reg_hwm_warned = True\<rparr>"
    by (simp add: reg_demo_val bb_registry_register_def registry_register_common_def registry_find_index_def Let_def)
  have "\<not> reg_frozen ?r" "length (filter (\<lambda>e. reg_value e = Some 100) (reg_live ?r)) \<le> 1"
    unfolding r by (simp_all add: reg_live_def)
  from destroy_unlists_ring [OF inv this] show ?thesis by (auto simp: reg_demo_val)
qed

end
