(* ===== verification/BB_Bqueue.thy ===== *)
theory BB_Bqueue
  imports BB_Ring
begin

text \<open>
  \<^verbatim>\<open>bb_bqueue\<close>, the blocking queue: the shared pure helpers
  (\<^verbatim>\<open>components/bb_bqueue/src/bb_bqueue_common.c\<close>) and the host backend
  (\<^verbatim>\<open>platform/host/bb_bqueue/bb_bqueue.c\<close>), a mailbox when the capacity is 1 and a bounded
  multi-producer ring otherwise. A handle is an index into the static pool. A blocking call
  releases the lock inside \<^verbatim>\<open>bb_lock_cond_wait\<close>, where other threads change the
  instance: the calls take the list of wake-ups they experience as an argument, and the section on
  threads composes their critical sections into a step relation.
\<close>

unbundle bit_operations_syntax

section \<open>Configuration and deadlines\<close>

definition BB_BQUEUE_WAIT_FOREVER :: u32 where "BB_BQUEUE_WAIT_FOREVER = 0xFFFFFFFF"
definition BB_BQUEUE_MAX_INSTANCES :: nat where "BB_BQUEUE_MAX_INSTANCES = 2"
definition BB_BQUEUE_MAX_CAPACITY :: nat where "BB_BQUEUE_MAX_CAPACITY = 16"
definition BB_BQUEUE_MAX_ITEM_BYTES :: nat where "BB_BQUEUE_MAX_ITEM_BYTES = 64"

record bb_bqueue_cfg_t =
  bqc_capacity :: nat
  bqc_item_bytes :: nat

definition bb_bqueue_validate_cfg :: "bb_bqueue_cfg_t option \<Rightarrow> bb_err_t" where
  "bb_bqueue_validate_cfg co =
     (case co of
        None \<Rightarrow> BB_ERR_INVALID_ARG
      | Some cfg \<Rightarrow>
          if bqc_capacity cfg = 0 \<or> bqc_capacity cfg > BB_BQUEUE_MAX_CAPACITY then BB_ERR_INVALID_ARG
          else if bqc_item_bytes cfg = 0 \<or> bqc_item_bytes cfg > BB_BQUEUE_MAX_ITEM_BYTES then BB_ERR_INVALID_ARG
          else BB_OK)"

definition bb_bqueue_deadline_compute :: "u64 \<Rightarrow> u32 \<Rightarrow> u64" where
  "bb_bqueue_deadline_compute now_us timeout_ms = now_us + ucast timeout_ms * 1000"

definition bb_bqueue_deadline_remaining_ms :: "u64 \<Rightarrow> u64 \<Rightarrow> u32 option" where
  "bb_bqueue_deadline_remaining_ms deadline_us now_us =
     (if now_us \<ge> deadline_us then None else Some (ucast ((deadline_us - now_us) div 1000)))"

section \<open>Instances and the pool\<close>

record bb_bqueue_inst_t =
  bq_in_use :: bool
  bq_capacity :: nat
  bq_item_bytes :: nat
  bq_storage :: "u8 list list"
  bq_head :: nat
  bq_count :: nat
  bq_dropped :: nat

type_synonym bb_bqueue_t = "nat option"
type_synonym bq_pool = "bb_bqueue_inst_t list"

definition bq_zero :: bb_bqueue_inst_t where
  "bq_zero = \<lparr>bq_in_use = False, bq_capacity = 0, bq_item_bytes = 0,
     bq_storage = replicate BB_BQUEUE_MAX_CAPACITY (replicate BB_BQUEUE_MAX_ITEM_BYTES 0),
     bq_head = 0, bq_count = 0, bq_dropped = 0\<rparr>"

definition inst_from_handle :: "bq_pool \<Rightarrow> bb_bqueue_t \<Rightarrow> nat option" where
  "inst_from_handle pool q =
     (case q of None \<Rightarrow> None | Some i \<Rightarrow> if i < length pool \<and> bq_in_use (pool ! i) then Some i else None)"

definition bb_bqueue_create :: "bq_pool \<Rightarrow> bb_bqueue_cfg_t option \<Rightarrow> bool \<Rightarrow> bb_err_t \<times> bb_bqueue_t \<times> bq_pool" where
  "bb_bqueue_create pool co out_given =
     (if \<not> out_given then (BB_ERR_INVALID_ARG, None, pool)
      else if bb_bqueue_validate_cfg co \<noteq> BB_OK then (bb_bqueue_validate_cfg co, None, pool)
      else (case find_idx (\<lambda>i. \<not> bq_in_use i) (take BB_BQUEUE_MAX_INSTANCES pool) of
              None \<Rightarrow> (BB_ERR_NO_SPACE, None, pool)
            | Some idx \<Rightarrow>
                (BB_OK, Some idx,
                 pool[idx := bq_zero\<lparr>bq_capacity := bqc_capacity (the co), bq_item_bytes := bqc_item_bytes (the co),
                                     bq_in_use := True\<rparr>])))"

definition bb_bqueue_destroy :: "bq_pool \<Rightarrow> bb_bqueue_t \<Rightarrow> bq_pool" where
  "bb_bqueue_destroy pool q = (case inst_from_handle pool q of None \<Rightarrow> pool | Some i \<Rightarrow> pool[i := bq_zero])"

section \<open>Waiting\<close>

text \<open>A stretch of \<^verbatim>\<open>bb_bqueue_wait_until\<close> that runs with the lock held either returns or parks
  the thread in \<^verbatim>\<open>bb_lock_cond_wait\<close> with the given timeout, keeping its absolute deadline
  (\<^verbatim>\<open>None\<close> for an unlimited wait).\<close>

datatype wait_res = WReturn bb_err_t | WPark "u64 option" u32

definition wait_loop :: "nat \<Rightarrow> nat \<Rightarrow> u64 option \<Rightarrow> u64 \<Rightarrow> wait_res" where
  "wait_loop cnt blocked_at dl now_us =
     (if cnt \<noteq> blocked_at then WReturn BB_OK
      else (case dl of
              None \<Rightarrow> WPark None BB_BQUEUE_WAIT_FOREVER
            | Some d \<Rightarrow> (case bb_bqueue_deadline_remaining_ms d now_us of
                           None \<Rightarrow> WReturn BB_ERR_TIMEOUT
                         | Some r \<Rightarrow> WPark (Some d) r)))"

definition wait_entry :: "nat \<Rightarrow> nat \<Rightarrow> u32 \<Rightarrow> bb_err_t \<Rightarrow> u64 \<Rightarrow> u64 \<Rightarrow> wait_res" where
  "wait_entry cnt blocked_at timeout_ms immediate_err now1 now2 =
     (if cnt \<noteq> blocked_at then WReturn BB_OK
      else if timeout_ms = 0 then WReturn immediate_err
      else if timeout_ms = BB_BQUEUE_WAIT_FOREVER then wait_loop cnt blocked_at None now2
      else wait_loop cnt blocked_at (Some (bb_bqueue_deadline_compute now1 timeout_ms)) now2)"

text \<open>After \<^verbatim>\<open>bb_lock_cond_wait\<close> returned: only the bounded loop looks at its result.\<close>

definition wait_resume :: "nat \<Rightarrow> nat \<Rightarrow> u64 option \<Rightarrow> bb_err_t \<Rightarrow> u64 \<Rightarrow> wait_res" where
  "wait_resume cnt blocked_at dl wrc now_us =
     (if dl \<noteq> None \<and> wrc = BB_ERR_TIMEOUT then WReturn BB_ERR_TIMEOUT
      else wait_loop cnt blocked_at dl now_us)"

text \<open>The whole function, over the wake-ups it experiences: the result of the wait, the instance
  as the other threads left it, and the clock. \<^verbatim>\<open>None\<close> means that the call is still blocked
  when the list ends.\<close>

fun wait_rounds ::
  "wait_res \<Rightarrow> bb_bqueue_inst_t \<Rightarrow> nat \<Rightarrow> (bb_err_t \<times> bb_bqueue_inst_t \<times> u64) list \<Rightarrow> (bb_err_t \<times> bb_bqueue_inst_t) option"
where
  "wait_rounds (WReturn e) inst blocked_at wakes = Some (e, inst)"
| "wait_rounds (WPark dl r) inst blocked_at [] = None"
| "wait_rounds (WPark dl r) inst blocked_at ((wrc, inst', now') # wakes) =
     wait_rounds (wait_resume (bq_count inst') blocked_at dl wrc now') inst' blocked_at wakes"

definition bb_bqueue_wait_until ::
  "bb_bqueue_inst_t \<Rightarrow> nat \<Rightarrow> u32 \<Rightarrow> bb_err_t \<Rightarrow> u64 \<Rightarrow> u64 \<Rightarrow> (bb_err_t \<times> bb_bqueue_inst_t \<times> u64) list
    \<Rightarrow> (bb_err_t \<times> bb_bqueue_inst_t) option"
where
  "bb_bqueue_wait_until inst blocked_at timeout_ms immediate_err now1 now2 wakes =
     wait_rounds (wait_entry (bq_count inst) blocked_at timeout_ms immediate_err now1 now2) inst blocked_at wakes"

section \<open>Operations on an instance\<close>

text \<open>Every call begins with \<^verbatim>\<open>inst_from_handle\<close>; the calls below take its result \<open>io\<close>.
  Copies between a caller's buffer and a slot move \<^verbatim>\<open>item_bytes\<close> bytes.\<close>

definition slot_write :: "bb_bqueue_inst_t \<Rightarrow> nat \<Rightarrow> u8 list \<Rightarrow> u8 list list" where
  "slot_write inst i item = (bq_storage inst)[i := blit (bq_storage inst ! i) 0 (take (bq_item_bytes inst) item)]"

definition slot_read :: "bb_bqueue_inst_t \<Rightarrow> nat \<Rightarrow> u8 list" where
  "slot_read inst i = take (bq_item_bytes inst) (bq_storage inst ! i)"

datatype bq_op = OpSend "u8 list" | OpPeek | OpReceive
datatype bq_cond = Not_empty | Not_full

fun op_cond :: "bq_op \<Rightarrow> bq_cond" where
  "op_cond (OpSend item) = Not_full"
| "op_cond OpPeek = Not_empty"
| "op_cond OpReceive = Not_empty"

fun op_blocked_at :: "bb_bqueue_inst_t \<Rightarrow> bq_op \<Rightarrow> nat" where
  "op_blocked_at inst (OpSend item) = bq_capacity inst"
| "op_blocked_at inst OpPeek = 0"
| "op_blocked_at inst OpReceive = 0"

fun op_immediate :: "bq_op \<Rightarrow> bb_err_t" where
  "op_immediate (OpSend item) = BB_ERR_NO_SPACE"
| "op_immediate OpPeek = BB_ERR_NOT_FOUND"
| "op_immediate OpReceive = BB_ERR_NOT_FOUND"

text \<open>What each call does once \<^verbatim>\<open>bb_bqueue_wait_until\<close> has returned \<open>rc\<close>, up to the unlock: the bytes
  handed to the caller, the instance, and the condition it broadcasts.\<close>

fun op_finish :: "bq_op \<Rightarrow> bb_err_t \<Rightarrow> bb_bqueue_inst_t \<Rightarrow> u8 list option \<times> bb_bqueue_inst_t \<times> bq_cond option" where
  "op_finish (OpSend item) rc inst =
     (if rc \<noteq> BB_OK then (None, inst\<lparr>bq_dropped := bq_dropped inst + 1\<rparr>, None)
      else (let tail = (bq_head inst + bq_count inst) mod bq_capacity inst
            in (None, inst\<lparr>bq_storage := slot_write inst tail item, bq_count := bq_count inst + 1\<rparr>, Some Not_empty)))"
| "op_finish OpPeek rc inst =
     (if rc \<noteq> BB_OK then (None, inst, None) else (Some (slot_read inst (bq_head inst)), inst, None))"
| "op_finish OpReceive rc inst =
     (if rc \<noteq> BB_OK then (None, inst, None)
      else if bq_capacity inst = 1 then (Some (slot_read inst (bq_head inst)), inst\<lparr>bq_count := 0\<rparr>, None)
      else (Some (slot_read inst (bq_head inst)),
            inst\<lparr>bq_head := (bq_head inst + 1) mod bq_capacity inst, bq_count := bq_count inst - 1\<rparr>, Some Not_full))"

text \<open>A blocking call from lock to unlock.\<close>

definition blocking_call ::
  "bq_op \<Rightarrow> bb_bqueue_inst_t \<Rightarrow> u32 \<Rightarrow> u64 \<Rightarrow> u64 \<Rightarrow> (bb_err_t \<times> bb_bqueue_inst_t \<times> u64) list
    \<Rightarrow> (bb_err_t \<times> u8 list option \<times> bb_bqueue_inst_t) option"
where
  "blocking_call opr inst timeout_ms now1 now2 wakes =
     (case bb_bqueue_wait_until inst (op_blocked_at inst opr) timeout_ms (op_immediate opr) now1 now2 wakes of
        None \<Rightarrow> None
      | Some (rc, inst1) \<Rightarrow> (case op_finish opr rc inst1 of (out, inst2, bc) \<Rightarrow> Some (rc, out, inst2)))"

definition bb_bqueue_overwrite :: "bb_bqueue_inst_t option \<Rightarrow> u8 list option \<Rightarrow> bb_err_t \<times> bb_bqueue_inst_t option" where
  "bb_bqueue_overwrite io item =
     (case (io, item) of
        (Some inst, Some x) \<Rightarrow>
          if bq_capacity inst \<noteq> 1 then (BB_ERR_INVALID_STATE, io)
          else (BB_OK, Some (inst\<lparr>bq_storage := slot_write inst 0 x, bq_count := 1\<rparr>))
      | _ \<Rightarrow> (BB_ERR_INVALID_ARG, io))"

definition bb_bqueue_reset :: "bb_bqueue_inst_t option \<Rightarrow> bb_err_t \<times> bb_bqueue_inst_t option" where
  "bb_bqueue_reset io =
     (case io of
        None \<Rightarrow> (BB_ERR_INVALID_ARG, None)
      | Some inst \<Rightarrow> if bq_capacity inst \<noteq> 1 then (BB_ERR_INVALID_STATE, io) else (BB_OK, Some (inst\<lparr>bq_count := 0\<rparr>)))"

definition bb_bqueue_send ::
  "bb_bqueue_inst_t option \<Rightarrow> u8 list option \<Rightarrow> u32 \<Rightarrow> u64 \<Rightarrow> u64 \<Rightarrow> (bb_err_t \<times> bb_bqueue_inst_t \<times> u64) list
    \<Rightarrow> (bb_err_t \<times> bb_bqueue_inst_t option) option"
where
  "bb_bqueue_send io item timeout_ms now1 now2 wakes =
     (case (io, item) of
        (Some inst, Some x) \<Rightarrow>
          if bq_capacity inst = 1 then Some (BB_ERR_INVALID_STATE, io)
          else (case blocking_call (OpSend x) inst timeout_ms now1 now2 wakes of
                  None \<Rightarrow> None | Some (rc, out, inst') \<Rightarrow> Some (rc, Some inst'))
      | _ \<Rightarrow> Some (BB_ERR_INVALID_ARG, io))"

definition bb_bqueue_dropped :: "bb_bqueue_inst_t option \<Rightarrow> bool \<Rightarrow> bb_err_t \<times> nat option" where
  "bb_bqueue_dropped io out_given =
     (case io of
        None \<Rightarrow> (BB_ERR_INVALID_ARG, None)
      | Some inst \<Rightarrow>
          if \<not> out_given then (BB_ERR_INVALID_ARG, None)
          else if bq_capacity inst = 1 then (BB_ERR_INVALID_STATE, None) else (BB_OK, Some (bq_dropped inst)))"

definition bb_bqueue_peek ::
  "bb_bqueue_inst_t option \<Rightarrow> bool \<Rightarrow> u32 \<Rightarrow> u64 \<Rightarrow> u64 \<Rightarrow> (bb_err_t \<times> bb_bqueue_inst_t \<times> u64) list
    \<Rightarrow> (bb_err_t \<times> u8 list option \<times> bb_bqueue_inst_t option) option"
where
  "bb_bqueue_peek io out_given timeout_ms now1 now2 wakes =
     (case io of
        None \<Rightarrow> Some (BB_ERR_INVALID_ARG, None, None)
      | Some inst \<Rightarrow>
          if \<not> out_given then Some (BB_ERR_INVALID_ARG, None, io)
          else (case blocking_call OpPeek inst timeout_ms now1 now2 wakes of
                  None \<Rightarrow> None | Some (rc, out, inst') \<Rightarrow> Some (rc, out, Some inst')))"

definition bb_bqueue_receive ::
  "bb_bqueue_inst_t option \<Rightarrow> bool \<Rightarrow> u32 \<Rightarrow> u64 \<Rightarrow> u64 \<Rightarrow> (bb_err_t \<times> bb_bqueue_inst_t \<times> u64) list
    \<Rightarrow> (bb_err_t \<times> u8 list option \<times> bb_bqueue_inst_t option) option"
where
  "bb_bqueue_receive io out_given timeout_ms now1 now2 wakes =
     (case io of
        None \<Rightarrow> Some (BB_ERR_INVALID_ARG, None, None)
      | Some inst \<Rightarrow>
          if \<not> out_given then Some (BB_ERR_INVALID_ARG, None, io)
          else (case blocking_call OpReceive inst timeout_ms now1 now2 wakes of
                  None \<Rightarrow> None | Some (rc, out, inst') \<Rightarrow> Some (rc, out, Some inst')))"

definition bb_bqueue_count :: "bb_bqueue_inst_t option \<Rightarrow> nat" where
  "bb_bqueue_count io = (case io of None \<Rightarrow> 0 | Some inst \<Rightarrow> bq_count inst)"

definition bb_bqueue_capacity :: "bb_bqueue_inst_t option \<Rightarrow> nat" where
  "bb_bqueue_capacity io = (case io of None \<Rightarrow> 0 | Some inst \<Rightarrow> bq_capacity inst)"

section \<open>Contents and invariant\<close>

definition bq_items :: "bb_bqueue_inst_t \<Rightarrow> u8 list list" where
  "bq_items inst = ring_list (slot_read inst) (bq_capacity inst) (bq_head inst) (bq_count inst)"

definition bq_inv :: "bb_bqueue_inst_t \<Rightarrow> bool" where
  "bq_inv inst \<longleftrightarrow> bq_in_use inst \<and> 0 < bq_capacity inst \<and> bq_capacity inst \<le> BB_BQUEUE_MAX_CAPACITY \<and>
     0 < bq_item_bytes inst \<and> bq_item_bytes inst \<le> BB_BQUEUE_MAX_ITEM_BYTES \<and>
     length (bq_storage inst) = BB_BQUEUE_MAX_CAPACITY \<and>
     (\<forall>row\<in>set (bq_storage inst). length row = BB_BQUEUE_MAX_ITEM_BYTES) \<and>
     bq_head inst < bq_capacity inst \<and> bq_count inst \<le> bq_capacity inst"

definition pool_inv :: "bq_pool \<Rightarrow> bool" where
  "pool_inv pool \<longleftrightarrow> length pool = BB_BQUEUE_MAX_INSTANCES \<and> (\<forall>inst\<in>set pool. bq_in_use inst \<longrightarrow> bq_inv inst)"

lemma row_length: "bq_inv inst \<Longrightarrow> i < bq_capacity inst \<Longrightarrow> length (bq_storage inst ! i) = BB_BQUEUE_MAX_ITEM_BYTES"
  by (auto simp: bq_inv_def)

lemma slot_write_rows:
  assumes "bq_inv inst" "i < bq_capacity inst"
  shows "length (slot_write inst i item) = BB_BQUEUE_MAX_CAPACITY"
    "\<forall>row\<in>set (slot_write inst i item). length row = BB_BQUEUE_MAX_ITEM_BYTES"
proof -
  have "length (blit (bq_storage inst ! i) 0 (take (bq_item_bytes inst) item)) = BB_BQUEUE_MAX_ITEM_BYTES"
    using row_length [OF assms] assms(1) by (subst length_blit) (auto simp: bq_inv_def)
  then show "length (slot_write inst i item) = BB_BQUEUE_MAX_CAPACITY"
    "\<forall>row\<in>set (slot_write inst i item). length row = BB_BQUEUE_MAX_ITEM_BYTES"
    using assms(1) by (auto simp: slot_write_def bq_inv_def dest: set_update_subset_insert [THEN subsetD])
qed

lemma slot_read_write:
  assumes inv: "bq_inv inst" and i: "i < bq_capacity inst" and item: "length item = bq_item_bytes inst"
    and st: "bq_storage inst' = slot_write inst i item" "bq_item_bytes inst' = bq_item_bytes inst"
    and j: "j < bq_capacity inst"
  shows "slot_read inst' j = (if j = i then item else slot_read inst j)"
proof -
  have "i < length (bq_storage inst)" "j < length (bq_storage inst)" using inv i j by (auto simp: bq_inv_def)
  moreover have "take (bq_item_bytes inst) (blit (bq_storage inst ! i) 0 item) = item"
    using item by (simp add: blit_def)
  ultimately show ?thesis using st item by (simp add: slot_read_def slot_write_def nth_list_update)
qed

lemma bq_items_send:
  assumes inv: "bq_inv inst" and room: "bq_count inst < bq_capacity inst" and item: "length item = bq_item_bytes inst"
    and fin: "op_finish (OpSend item) BB_OK inst = (out, inst', bc)"
  shows "bq_items inst' = bq_items inst @ [item]"
proof -
  let ?tail = "(bq_head inst + bq_count inst) mod bq_capacity inst"
  have tail: "?tail < bq_capacity inst" using inv by (simp add: bq_inv_def)
  have i': "inst' = inst\<lparr>bq_storage := slot_write inst ?tail item, bq_count := bq_count inst + 1\<rparr>"
    using fin by (simp add: Let_def)
  have rd: "slot_read inst' j = (if j = ?tail then item else slot_read inst j)" if "j < bq_capacity inst" for j
    using slot_read_write [OF inv tail item, of inst' j] that by (simp add: i')
  have "bq_items inst' = ring_list (slot_read inst') (bq_capacity inst) (bq_head inst) (bq_count inst + 1)"
    by (simp add: bq_items_def i')
  also have "\<dots> = bq_items inst @ [slot_read inst' ?tail]"
    unfolding bq_items_def by (rule ring_list_push [OF room]) (simp add: rd)
  finally show ?thesis using rd [OF tail] by simp
qed

lemma op_finish_inv:
  assumes inv: "bq_inv inst"
    and ready: "rc = BB_OK \<Longrightarrow> bq_count inst \<noteq> op_blocked_at inst opr"
    and fin: "op_finish opr rc inst = (out, inst', bc)"
  shows "bq_inv inst'" "bq_capacity inst' = bq_capacity inst" "bq_item_bytes inst' = bq_item_bytes inst"
proof -
  have "bq_inv inst' \<and> bq_capacity inst' = bq_capacity inst \<and> bq_item_bytes inst' = bq_item_bytes inst"
  proof (cases opr)
    case (OpSend item)
    let ?tail = "(bq_head inst + bq_count inst) mod bq_capacity inst"
    have tail: "?tail < bq_capacity inst" using inv by (simp add: bq_inv_def)
    show ?thesis
      using inv ready fin OpSend slot_write_rows [OF inv tail, of item]
      by (auto simp: bq_inv_def Let_def split: if_splits)
  next
    case OpPeek
    then show ?thesis using inv fin by (auto split: if_splits)
  next
    case OpReceive
    then show ?thesis using inv fin by (auto simp: bq_inv_def split: if_splits)
  qed
  then show "bq_inv inst'" "bq_capacity inst' = bq_capacity inst" "bq_item_bytes inst' = bq_item_bytes inst" by auto
qed

lemma bq_items_receive:
  assumes inv: "bq_inv inst" and some: "bq_count inst \<noteq> 0"
    and fin: "op_finish OpReceive BB_OK inst = (out, inst', bc)"
  shows "out = Some (hd (bq_items inst))" "bq_items inst' = tl (bq_items inst)"
proof -
  have hd: "hd (bq_items inst) = slot_read inst (bq_head inst)"
    unfolding bq_items_def by (rule hd_ring_list) (use inv some in \<open>auto simp: bq_inv_def\<close>)
  show "out = Some (hd (bq_items inst))" using fin unfolding hd by (auto split: if_splits)
  show "bq_items inst' = tl (bq_items inst)"
  proof (cases "bq_capacity inst = 1")
    case True
    then have "bq_count inst = 1" using inv some by (auto simp: bq_inv_def)
    then show ?thesis using fin True by (auto simp: bq_items_def ring_list_def)
  next
    case False
    then have "inst' = inst\<lparr>bq_head := (bq_head inst + 1) mod bq_capacity inst, bq_count := bq_count inst - 1\<rparr>"
      using fin by simp
    then have "slot_read inst' = slot_read inst" "bq_items inst' =
        ring_list (slot_read inst') (bq_capacity inst) ((bq_head inst + 1) mod bq_capacity inst) (bq_count inst - 1)"
      by (auto simp: slot_read_def bq_items_def)
    then show ?thesis unfolding bq_items_def using some by (simp only: ring_list_pop [OF some [unfolded neq0_conv]])
  qed
qed

lemma bq_items_peek: "bq_inv inst \<Longrightarrow> bq_count inst \<noteq> 0 \<Longrightarrow>
    op_finish OpPeek BB_OK inst = (Some (hd (bq_items inst)), inst, None)"
  by (auto simp: bq_items_def bq_inv_def hd_ring_list)

lemma length_bq_items [simp]: "length (bq_items inst) = bq_count inst"
  by (simp add: bq_items_def)

lemma bq_items_Nil [simp]: "bq_items inst = [] \<longleftrightarrow> bq_count inst = 0"
  by (simp add: bq_items_def)

section \<open>Non-blocking calls as a bounded FIFO\<close>

text \<open>With a zero timeout a call never parks, so no other thread acts inside it.\<close>

lemma try_call:
  "blocking_call opr inst 0 now1 now2 wakes =
     (let rc = (if bq_count inst \<noteq> op_blocked_at inst opr then BB_OK else op_immediate opr)
      in case op_finish opr rc inst of (out, inst', bc) \<Rightarrow> Some (rc, out, inst'))"
  by (simp add: blocking_call_def bb_bqueue_wait_until_def wait_entry_def Let_def)

definition try_send :: "u8 list \<Rightarrow> bb_bqueue_inst_t \<Rightarrow> bb_err_t \<times> bb_bqueue_inst_t" where
  "try_send x inst = (case bb_bqueue_send (Some inst) (Some x) 0 0 0 [] of
     Some (rc, Some inst') \<Rightarrow> (rc, inst') | _ \<Rightarrow> (BB_ERR_INVALID_STATE, inst))"

definition try_receive :: "bb_bqueue_inst_t \<Rightarrow> bb_err_t \<times> u8 list option \<times> bb_bqueue_inst_t" where
  "try_receive inst = (case bb_bqueue_receive (Some inst) True 0 0 0 [] of
     Some (rc, out, Some inst') \<Rightarrow> (rc, out, inst') | _ \<Rightarrow> (BB_ERR_INVALID_STATE, None, inst))"

text \<open>A queue in ring mode.\<close>

definition bq_ring :: "bb_bqueue_inst_t \<Rightarrow> bool" where
  "bq_ring inst \<longleftrightarrow> bq_inv inst \<and> bq_capacity inst \<noteq> 1"

lemma try_send_spec:
  assumes "bq_ring inst" and x: "length x = bq_item_bytes inst"
  shows "try_send x inst = (if bq_count inst < bq_capacity inst then BB_OK else BB_ERR_NO_SPACE, snd (try_send x inst))"
    "bq_items (snd (try_send x inst)) = (if bq_count inst < bq_capacity inst then bq_items inst @ [x] else bq_items inst)"
    "bq_dropped (snd (try_send x inst)) = bq_dropped inst + (if bq_count inst < bq_capacity inst then 0 else 1)"
    "bq_ring (snd (try_send x inst))" "bq_capacity (snd (try_send x inst)) = bq_capacity inst"
proof -
  have inv: "bq_inv inst" and c: "bq_capacity inst \<noteq> 1" "bq_count inst \<le> bq_capacity inst"
    using assms by (auto simp: bq_ring_def bq_inv_def)
  define rc where "rc = (if bq_count inst < bq_capacity inst then BB_OK else BB_ERR_NO_SPACE)"
  obtain out inst' bc where fin: "op_finish (OpSend x) rc inst = (out, inst', bc)" by (metis prod_cases3)
  have ts: "try_send x inst = (rc, inst')"
    using fin c by (auto simp: try_send_def bb_bqueue_send_def try_call rc_def Let_def split: if_splits)
  have keep: "bq_inv inst'" "bq_capacity inst' = bq_capacity inst" "bq_item_bytes inst' = bq_item_bytes inst"
    by (rule op_finish_inv [OF inv _ fin]; simp add: rc_def split: if_splits)+
  show "try_send x inst = (if bq_count inst < bq_capacity inst then BB_OK else BB_ERR_NO_SPACE, snd (try_send x inst))"
    using ts by (simp add: rc_def)
  show "bq_ring (snd (try_send x inst))" "bq_capacity (snd (try_send x inst)) = bq_capacity inst"
    using ts keep c by (auto simp: bq_ring_def)
  show "bq_items (snd (try_send x inst)) = (if bq_count inst < bq_capacity inst then bq_items inst @ [x] else bq_items inst)"
  proof (cases "bq_count inst < bq_capacity inst")
    case True
    then have "op_finish (OpSend x) BB_OK inst = (out, inst', bc)" using fin by (simp only: rc_def if_True)
    then show ?thesis using bq_items_send [OF inv True x] ts True by (simp only: snd_conv if_True)
  next
    case False
    then have "inst' = inst\<lparr>bq_dropped := bq_dropped inst + 1\<rparr>" using fin by (simp add: rc_def)
    moreover from this have "slot_read inst' = slot_read inst" by (auto simp: slot_read_def)
    ultimately show ?thesis using ts False by (simp add: bq_items_def)
  qed
  show "bq_dropped (snd (try_send x inst)) = bq_dropped inst + (if bq_count inst < bq_capacity inst then 0 else 1)"
    using ts fin by (auto simp: rc_def Let_def split: if_splits)
qed

lemma try_receive_spec:
  assumes inv: "bq_inv inst"
  shows "fst (try_receive inst) = (if bq_items inst = [] then BB_ERR_NOT_FOUND else BB_OK)"
    "fst (snd (try_receive inst)) = (if bq_items inst = [] then None else Some (hd (bq_items inst)))"
    "bq_items (snd (snd (try_receive inst))) = tl (bq_items inst)"
    "bq_inv (snd (snd (try_receive inst)))"
    "bq_capacity (snd (snd (try_receive inst))) = bq_capacity inst"
    "bq_item_bytes (snd (snd (try_receive inst))) = bq_item_bytes inst"
    "bq_dropped (snd (snd (try_receive inst))) = bq_dropped inst"
proof -
  define rc where "rc = (if bq_count inst \<noteq> 0 then BB_OK else BB_ERR_NOT_FOUND)"
  obtain out inst' bc where fin: "op_finish OpReceive rc inst = (out, inst', bc)" by (metis prod_cases3)
  have tr: "try_receive inst = (rc, out, inst')"
    using fin by (simp add: try_receive_def bb_bqueue_receive_def try_call rc_def Let_def split: if_splits)
  show "fst (try_receive inst) = (if bq_items inst = [] then BB_ERR_NOT_FOUND else BB_OK)"
    by (simp add: tr rc_def)
  show "bq_inv (snd (snd (try_receive inst)))" "bq_capacity (snd (snd (try_receive inst))) = bq_capacity inst"
    "bq_item_bytes (snd (snd (try_receive inst))) = bq_item_bytes inst"
    unfolding tr fst_conv snd_conv by (rule op_finish_inv [OF inv _ fin]; simp add: rc_def split: if_splits)+
  show "bq_dropped (snd (snd (try_receive inst))) = bq_dropped inst" using fin tr by (auto split: if_splits)
  have empty: "bq_items inst = [] \<Longrightarrow> out = None \<and> inst' = inst" using fin by (auto simp: rc_def)
  show "fst (snd (try_receive inst)) = (if bq_items inst = [] then None else Some (hd (bq_items inst)))"
    "bq_items (snd (snd (try_receive inst))) = tl (bq_items inst)"
  proof -
    have "out = Some (hd (bq_items inst)) \<and> bq_items inst' = tl (bq_items inst)" if "bq_items inst \<noteq> []"
    proof -
      have cnt: "bq_count inst \<noteq> 0" using that by simp
      then have "op_finish OpReceive BB_OK inst = (out, inst', bc)" using fin by (simp only: rc_def if_True simp_thms)
      then show ?thesis using bq_items_receive [OF inv cnt] by metis
    qed
    then show "fst (snd (try_receive inst)) = (if bq_items inst = [] then None else Some (hd (bq_items inst)))"
      "bq_items (snd (snd (try_receive inst))) = tl (bq_items inst)"
      using empty by (cases "bq_items inst = []"; simp add: tr del: bq_items_Nil)+
  qed
qed

text \<open>The contract of \<^verbatim>\<open>send\<close> is that the caller's buffer has \<^verbatim>\<open>item_bytes\<close> bytes.\<close>

definition typed_send :: "u8 list \<Rightarrow> bb_bqueue_inst_t \<Rightarrow> bb_err_t \<times> bb_bqueue_inst_t" where
  "typed_send x inst = (if length x = bq_item_bytes inst then try_send x inst else (BB_ERR_INVALID_ARG, inst))"

definition typed_pop :: "bb_bqueue_inst_t \<Rightarrow> bb_err_t \<times> bb_bqueue_inst_t" where
  "typed_pop inst = (fst (try_receive inst), snd (snd (try_receive inst)))"

interpretation bq_fifo: bounded_fifo bq_ring bq_items typed_send typed_pop
  "\<lambda>x inst. length x = bq_item_bytes inst \<and> bq_count inst < bq_capacity inst" bq_capacity
proof
  fix q :: bb_bqueue_inst_t and x :: "u8 list"
  assume ring: "bq_ring q"
  then have inv: "bq_inv q" by (simp add: bq_ring_def)
  note send = try_send_spec [OF ring, of x] and rcv = try_receive_spec [OF inv]
  show "bq_ring (snd (typed_send x q))" using ring send(4) by (simp add: typed_send_def)
  show "bq_ring (snd (typed_pop q))" using ring rcv(4,5) by (simp add: typed_pop_def bq_ring_def)
  show "\<exists>k. bq_items (snd (typed_send x q)) = drop k (bq_items q) @ [x]" if "fst (typed_send x q) = BB_OK"
    using that send(1,2) by (intro exI [of _ 0]) (auto simp: typed_send_def split: if_splits dest: arg_cong [of _ _ fst])
  show "typed_send x q = (BB_OK, snd (typed_send x q)) \<and> bq_items (snd (typed_send x q)) = bq_items q @ [x]"
    if "length x = bq_item_bytes q \<and> bq_count q < bq_capacity q"
    using that send(1,2) by (simp add: typed_send_def)
  show "\<exists>k. bq_items (snd (typed_send x q)) = drop k (bq_items q)" if "fst (typed_send x q) \<noteq> BB_OK"
    using that send(1,2) by (intro exI [of _ 0]) (auto simp: typed_send_def split: if_splits dest: arg_cong [of _ _ fst])
  show "bq_items (snd (typed_pop q)) = tl (bq_items q)" using rcv(3) by (simp add: typed_pop_def)
  show "fst (typed_pop q) = BB_OK \<longleftrightarrow> bq_items q \<noteq> []" using rcv(1) by (simp add: typed_pop_def)
  show "bq_capacity (snd (typed_send x q)) = bq_capacity q" using send(5) by (simp add: typed_send_def)
  show "length (bq_items q) \<le> bq_capacity q" using inv by (simp add: bq_inv_def)
qed

section \<open>Threads\<close>

text \<open>
  A queue shared by any number of threads. A thread is outside the queue, parked in
  \<^verbatim>\<open>bb_lock_cond_wait\<close>, or woken and about to take the lock again. Each step is one critical
  section: the lock makes it atomic, and parking releases the lock atomically with it.
  A broadcast wakes every thread parked on the condition; a wait may also end spuriously or
  by its timeout.
\<close>

datatype thread = Outside | Parked bq_op "u64 option" | Woken bq_op "u64 option"

record bq_world =
  w_inst :: bb_bqueue_inst_t
  w_thr :: "nat \<Rightarrow> thread"

definition broadcast :: "bq_cond option \<Rightarrow> (nat \<Rightarrow> thread) \<Rightarrow> nat \<Rightarrow> thread" where
  "broadcast bc thr t =
     (case thr t of
        Parked opr dl \<Rightarrow> if bc = Some (op_cond opr) then Woken opr dl else Parked opr dl
      | s \<Rightarrow> s)"

fun op_allowed :: "bb_bqueue_inst_t \<Rightarrow> bq_op \<Rightarrow> bool" where
  "op_allowed inst (OpSend item) = (bq_capacity inst \<noteq> 1)"
| "op_allowed inst OpPeek = True"
| "op_allowed inst OpReceive = True"

text \<open>The end of a critical section of thread \<open>t\<close>: it leaves with a result, or parks.\<close>

definition settle :: "nat \<Rightarrow> bq_op \<Rightarrow> wait_res \<Rightarrow> bq_world \<Rightarrow> bq_world" where
  "settle t opr r w =
     (case r of
        WReturn rc \<Rightarrow>
          (case op_finish opr rc (w_inst w) of (out, inst', bc) \<Rightarrow>
             \<lparr>w_inst = inst', w_thr = broadcast bc ((w_thr w)(t := Outside))\<rparr>)
      | WPark dl rem \<Rightarrow> w\<lparr>w_thr := (w_thr w)(t := Parked opr dl)\<rparr>)"

inductive bq_step :: "bq_world \<Rightarrow> bq_world \<Rightarrow> bool" where
  call: "w_thr w t = Outside \<Longrightarrow> op_allowed (w_inst w) opr \<Longrightarrow>
    bq_step w (settle t opr (wait_entry (bq_count (w_inst w)) (op_blocked_at (w_inst w) opr) timeout_ms (op_immediate opr) now1 now2) w)"
| resume: "w_thr w t = Woken opr dl \<Longrightarrow> wrc \<noteq> BB_ERR_TIMEOUT \<Longrightarrow>
    bq_step w (settle t opr (wait_resume (bq_count (w_inst w)) (op_blocked_at (w_inst w) opr) dl wrc now_us) w)"
| timeout: "w_thr w t = Parked opr (Some d) \<or> w_thr w t = Woken opr (Some d) \<Longrightarrow>
    bq_step w (settle t opr (wait_resume (bq_count (w_inst w)) (op_blocked_at (w_inst w) opr) (Some d) BB_ERR_TIMEOUT now_us) w)"
| spurious: "w_thr w t = Parked opr dl \<Longrightarrow> bq_step w (w\<lparr>w_thr := (w_thr w)(t := Woken opr dl)\<rparr>)"
| overwrite: "w_thr w t = Outside \<Longrightarrow> bb_bqueue_overwrite (Some (w_inst w)) (Some item) = (BB_OK, Some inst') \<Longrightarrow>
    bq_step w \<lparr>w_inst = inst', w_thr = broadcast (Some Not_empty) (w_thr w)\<rparr>"
| reset: "w_thr w t = Outside \<Longrightarrow> bb_bqueue_reset (Some (w_inst w)) = (BB_OK, Some inst') \<Longrightarrow>
    bq_step w (w\<lparr>w_inst := inst'\<rparr>)"

definition no_lost_wakeup :: "bq_world \<Rightarrow> bool" where
  "no_lost_wakeup w \<longleftrightarrow>
     (\<forall>t opr dl. w_thr w t = Parked opr dl \<longrightarrow> bq_count (w_inst w) = op_blocked_at (w_inst w) opr) \<and>
     (\<forall>t opr dl. w_thr w t = Parked opr dl \<or> w_thr w t = Woken opr dl \<longrightarrow> op_allowed (w_inst w) opr)"

definition world_inv :: "bq_world \<Rightarrow> bool" where
  "world_inv w \<longleftrightarrow> bq_inv (w_inst w) \<and> no_lost_wakeup w"

lemma wait_loop_OK: "wait_loop cnt b dl now_us = WReturn BB_OK \<longleftrightarrow> cnt \<noteq> b"
  by (auto simp: wait_loop_def split: option.splits)

lemma wait_loop_Park: "wait_loop cnt b dl now_us = WPark dl' r \<Longrightarrow> cnt = b"
  by (auto simp: wait_loop_def split: if_splits)

lemma wait_entry_OK: "i \<noteq> BB_OK \<Longrightarrow> wait_entry cnt b tmo i now1 now2 = WReturn BB_OK \<Longrightarrow> cnt \<noteq> b"
  by (auto simp: wait_entry_def wait_loop_OK split: if_splits)

lemma wait_entry_Park: "wait_entry cnt b tmo i now1 now2 = WPark dl r \<Longrightarrow> cnt = b"
  by (auto simp: wait_entry_def split: if_splits)

lemma wait_resume_OK: "wait_resume cnt b dl wrc now_us = WReturn BB_OK \<Longrightarrow> cnt \<noteq> b"
  by (auto simp: wait_resume_def wait_loop_OK split: if_splits)

lemma wait_resume_Park: "wait_resume cnt b dl wrc now_us = WPark dl' r \<Longrightarrow> cnt = b"
  by (auto simp: wait_resume_def dest: wait_loop_Park split: if_splits)

lemma op_immediate_not_OK [simp]: "op_immediate opr \<noteq> BB_OK"
  by (cases opr) auto

lemma op_blocked_cong: "bq_capacity inst' = bq_capacity inst \<Longrightarrow> op_blocked_at inst' opr = op_blocked_at inst opr"
  "bq_capacity inst' = bq_capacity inst \<Longrightarrow> op_allowed inst' opr = op_allowed inst opr"
  by (cases opr; simp)+

text \<open>A finished operation broadcasts whenever it makes some parked thread's condition true.\<close>

lemma finish_wakes:
  assumes inv: "bq_inv inst" and ready: "rc = BB_OK \<Longrightarrow> bq_count inst \<noteq> op_blocked_at inst opr"
    and fin: "op_finish opr rc inst = (out, inst', bc)"
    and blocked: "bq_count inst = op_blocked_at inst other" "op_allowed inst other"
    and allowed: "op_allowed inst opr"
    and quiet: "bc \<noteq> Some (op_cond other)"
  shows "bq_count inst' = op_blocked_at inst' other"
  using assms by (cases opr; cases other) (auto simp: bq_inv_def Let_def split: if_splits)

lemma settle_inv:
  assumes inv: "world_inv w" and allowed: "op_allowed (w_inst w) opr"
    and ok: "r = WReturn BB_OK \<Longrightarrow> bq_count (w_inst w) \<noteq> op_blocked_at (w_inst w) opr"
    and park: "\<And>dl rem. r = WPark dl rem \<Longrightarrow> bq_count (w_inst w) = op_blocked_at (w_inst w) opr"
  shows "world_inv (settle t opr r w)"
proof (cases r)
  case (WPark dl rem)
  then show ?thesis using inv allowed park [OF WPark] by (auto simp: settle_def world_inv_def no_lost_wakeup_def)
next
  case (WReturn rc)
  obtain out inst' bc where fin: "op_finish opr rc (w_inst w) = (out, inst', bc)" by (metis prod_cases3)
  have ready: "rc = BB_OK \<Longrightarrow> bq_count (w_inst w) \<noteq> op_blocked_at (w_inst w) opr" using ok WReturn by simp
  have bq: "bq_inv (w_inst w)" using inv by (simp add: world_inv_def)
  note keep = op_finish_inv [OF bq ready fin]
  have w': "settle t opr r w = \<lparr>w_inst = inst', w_thr = broadcast bc ((w_thr w)(t := Outside))\<rparr>"
    by (simp add: settle_def WReturn fin)
  have parked: "bq_count inst' = op_blocked_at inst' o2"
    if "broadcast bc ((w_thr w)(t := Outside)) u = Parked o2 dl" for u o2 dl
  proof -
    have p: "w_thr w u = Parked o2 dl" and q: "bc \<noteq> Some (op_cond o2)"
      using that by (auto simp: broadcast_def split: thread.splits if_splits)
    show ?thesis
      by (rule finish_wakes [OF bq ready fin _ _ allowed q])
        (use inv p in \<open>auto simp: world_inv_def no_lost_wakeup_def\<close>)
  qed
  have allowed': "op_allowed inst' o2"
    if "broadcast bc ((w_thr w)(t := Outside)) u = Parked o2 dl \<or> broadcast bc ((w_thr w)(t := Outside)) u = Woken o2 dl" for u o2 dl
  proof -
    have "w_thr w u = Parked o2 dl \<or> w_thr w u = Woken o2 dl"
      using that by (auto simp: broadcast_def split: thread.splits if_splits)
    then show ?thesis using inv op_blocked_cong(2) [OF keep(2)] by (auto simp: world_inv_def no_lost_wakeup_def)
  qed
  show ?thesis using keep(1) parked allowed' unfolding w' world_inv_def no_lost_wakeup_def by auto
qed

lemma bq_step_inv:
  assumes "bq_step w w'" and "world_inv w"
  shows "world_inv w'"
  using assms
proof (induction rule: bq_step.induct)
  case (call w t opr timeout_ms now1 now2)
  then show ?case by (intro settle_inv) (auto dest: wait_entry_OK [rotated] wait_entry_Park)
next
  case (resume w t opr dl wrc now_us)
  then show ?case
    by (intro settle_inv) (auto dest: wait_resume_OK wait_resume_Park simp: world_inv_def no_lost_wakeup_def)
next
  case (timeout w t opr d now_us)
  then show ?case
    by (intro settle_inv) (auto simp: wait_resume_def world_inv_def no_lost_wakeup_def)
next
  case (spurious w t opr dl)
  then show ?case by (auto simp: world_inv_def no_lost_wakeup_def)
next
  case (overwrite w t item inst')
  have cap: "bq_capacity (w_inst w) = 1" and i': "inst' = (w_inst w)\<lparr>bq_storage := slot_write (w_inst w) 0 item, bq_count := 1\<rparr>"
    using overwrite(2) by (auto simp: bb_bqueue_overwrite_def split: if_splits)
  have bq: "bq_inv (w_inst w)" using overwrite by (simp add: world_inv_def)
  then have "bq_inv inst'" using slot_write_rows [of "w_inst w" 0 item] cap by (auto simp: bq_inv_def i')
  moreover have "\<not> (broadcast (Some Not_empty) (w_thr w) u = Parked opr dl)" for u opr dl
  proof -
    have "w_thr w u = Parked opr dl \<Longrightarrow> op_allowed (w_inst w) opr"
      using overwrite(3) by (auto simp: world_inv_def no_lost_wakeup_def)
    then show ?thesis using cap by (cases opr) (auto simp: broadcast_def split: thread.splits if_splits)
  qed
  moreover have "op_allowed inst' opr" if "broadcast (Some Not_empty) (w_thr w) u = Woken opr dl" for u opr dl
    using overwrite(3) that op_blocked_cong(2) [of inst' "w_inst w" opr]
    by (auto simp: i' broadcast_def world_inv_def no_lost_wakeup_def split: thread.splits if_splits)
  ultimately show ?case by (auto simp: world_inv_def no_lost_wakeup_def)
next
  case (reset w t inst')
  have cap: "bq_capacity (w_inst w) = 1" and i': "inst' = (w_inst w)\<lparr>bq_count := 0\<rparr>"
    using reset(2) by (auto simp: bb_bqueue_reset_def split: if_splits)
  have al: "op_allowed (w_inst w) opr" if "w_thr w u = Parked opr dl \<or> w_thr w u = Woken opr dl" for u opr dl
    using reset(3) that by (auto simp: world_inv_def no_lost_wakeup_def)
  have "op_blocked_at inst' opr = 0" "op_allowed inst' opr"
    if "w_thr w u = Parked opr dl \<or> w_thr w u = Woken opr dl" for u opr dl
    using al [OF that] cap by (cases opr; simp add: i')+
  moreover have "bq_inv inst'" "bq_count inst' = 0" using reset(3) by (simp_all add: world_inv_def bq_inv_def i')
  ultimately show ?case unfolding world_inv_def no_lost_wakeup_def by fastforce
qed

lemma bq_steps_inv: "bq_step\<^sup>*\<^sup>* w w' \<Longrightarrow> world_inv w \<Longrightarrow> world_inv w'"
  by (induction rule: rtranclp_induct) (auto intro: bq_step_inv)

lemma created_inst:
  assumes "bb_bqueue_create pool co out_given = (BB_OK, Some i, pool')" and "length pool = BB_BQUEUE_MAX_INSTANCES"
  shows "bq_inv (pool' ! i)" "bq_items (pool' ! i) = []" "inst_from_handle pool' (Some i) = Some i"
    "inst_from_handle pool (Some i) = None"
proof -
  obtain cfg where co: "co = Some cfg" using assms(1)
    by (cases co) (auto simp: bb_bqueue_create_def bb_bqueue_validate_cfg_def split: if_splits)
  have v: "0 < bqc_capacity cfg" "bqc_capacity cfg \<le> BB_BQUEUE_MAX_CAPACITY"
    "0 < bqc_item_bytes cfg" "bqc_item_bytes cfg \<le> BB_BQUEUE_MAX_ITEM_BYTES"
    using assms(1) co by (auto simp: bb_bqueue_create_def bb_bqueue_validate_cfg_def split: if_splits)
  have i: "i < length pool" "\<not> bq_in_use (pool ! i)"
    and p: "pool' = pool[i := bq_zero\<lparr>bq_capacity := bqc_capacity cfg, bq_item_bytes := bqc_item_bytes cfg, bq_in_use := True\<rparr>]"
    using assms co by (auto simp: bb_bqueue_create_def split: if_splits option.splits dest: find_idx_SomeD)
  show "bq_inv (pool' ! i)" using v i by (auto simp: p bq_inv_def bq_zero_def)
  show "bq_items (pool' ! i) = []" "inst_from_handle pool' (Some i) = Some i" "inst_from_handle pool (Some i) = None"
    using i by (auto simp: p bq_items_def bq_zero_def inst_from_handle_def)
qed

section \<open>Properties\<close>

text \<open>C8: in ring mode the non-blocking calls implement a bounded FIFO of byte items. A send appends
  the caller's bytes, or, when the ring is full, reports no-space and counts one more drop with
  the contents unchanged; a receive returns the oldest item and removes it; a peek returns
  it and changes nothing; both report not-found on an empty ring.\<close>

theorem bqueue_ring_is_fifo:
  assumes inv: "bq_inv inst" and mode: "bq_capacity inst \<noteq> 1" and x: "length x = bq_item_bytes inst"
  shows "\<exists>s r. bb_bqueue_send (Some inst) (Some x) 0 now1 now2 wakes =
       Some (if bq_count inst < bq_capacity inst then BB_OK else BB_ERR_NO_SPACE, Some s) \<and>
     bq_items s = (if bq_count inst < bq_capacity inst then bq_items inst @ [x] else bq_items inst) \<and>
     bq_dropped s = bq_dropped inst + (if bq_count inst < bq_capacity inst then 0 else 1) \<and> bq_inv s \<and>
     bb_bqueue_receive (Some inst) True 0 now1 now2 wakes =
       Some (if bq_items inst = [] then (BB_ERR_NOT_FOUND, None, Some r) else (BB_OK, Some (hd (bq_items inst)), Some r)) \<and>
     bq_items r = tl (bq_items inst) \<and> bq_dropped r = bq_dropped inst \<and> bq_inv r \<and>
     bb_bqueue_peek (Some inst) True 0 now1 now2 wakes =
       Some (if bq_items inst = [] then (BB_ERR_NOT_FOUND, None, Some inst) else (BB_OK, Some (hd (bq_items inst)), Some inst))"
proof -
  have ring: "bq_ring inst" using inv mode by (simp add: bq_ring_def)
  have s: "bb_bqueue_send (Some inst) (Some x) 0 now1 now2 wakes = Some (fst (try_send x inst), Some (snd (try_send x inst)))"
    using mode by (simp add: try_send_def bb_bqueue_send_def try_call Let_def split: prod.splits)
  have r: "bb_bqueue_receive (Some inst) True 0 now1 now2 wakes =
      Some (fst (try_receive inst), fst (snd (try_receive inst)), Some (snd (snd (try_receive inst))))"
    by (simp add: try_receive_def bb_bqueue_receive_def try_call Let_def split: prod.splits)
  have p: "bb_bqueue_peek (Some inst) True 0 now1 now2 wakes =
      Some (if bq_items inst = [] then (BB_ERR_NOT_FOUND, None, Some inst) else (BB_OK, Some (hd (bq_items inst)), Some inst))"
    using bq_items_peek [OF inv] by (simp add: bb_bqueue_peek_def try_call Let_def)
  have fs: "fst (try_send x inst) = (if bq_count inst < bq_capacity inst then BB_OK else BB_ERR_NO_SPACE)"
    using arg_cong [OF try_send_spec(1) [OF ring x], of fst] by simp
  show ?thesis
    by (rule exI [of _ "snd (try_send x inst)"], rule exI [of _ "snd (snd (try_receive inst))"])
      (use s r p fs try_send_spec(2-4) [OF ring x] try_receive_spec [OF inv] in \<open>auto simp: bq_ring_def\<close>)
qed

definition bq_demo :: bb_bqueue_inst_t where
  "bq_demo = bq_zero\<lparr>bq_in_use := True, bq_capacity := 2, bq_item_bytes := 2, bq_head := 1, bq_count := 2\<rparr>"

lemma bq_demo_inv: "bq_inv bq_demo" "bq_capacity bq_demo \<noteq> 1" "bq_item_bytes bq_demo = 2"
  by (simp_all add: bq_demo_def bq_inv_def bq_zero_def BB_BQUEUE_MAX_CAPACITY_def BB_BQUEUE_MAX_ITEM_BYTES_def)

theorem bqueue_ring_is_fifo_witness:
  "\<exists>s r. bb_bqueue_send (Some bq_demo) (Some [7, 9]) 0 0 0 [] = Some (BB_ERR_NO_SPACE, Some s) \<and>
     bq_items s = bq_items bq_demo \<and> bq_dropped s = Suc (bq_dropped bq_demo) \<and>
     bb_bqueue_receive (Some bq_demo) True 0 0 0 [] = Some (BB_OK, Some [0, 0], Some r)"
proof -
  have "bq_items bq_demo = [[0, 0], [0, 0]]"
    by (simp add: bq_demo_def bq_zero_def bq_items_def ring_list_def slot_read_def numeral_2_eq_2
        BB_BQUEUE_MAX_CAPACITY_def BB_BQUEUE_MAX_ITEM_BYTES_def)
  moreover have "bq_count bq_demo = 2" "bq_capacity bq_demo = 2" by (simp_all add: bq_demo_def)
  ultimately show ?thesis
    using bqueue_ring_is_fifo [OF bq_demo_inv(1,2), of "[7, 9]" 0 0 "[]"] bq_demo_inv(3) by auto
qed

text \<open>C6: no wake-up is ever lost. Whatever the threads that share a freshly created queue do, in
  any interleaving, with spurious wake-ups and timeouts, a thread that is parked and has not been
  woken is parked for a reason: readers only while the queue is empty, senders only while
  it is full. The queue itself stays well-formed.\<close>

theorem bqueue_no_lost_wakeup:
  assumes create: "bb_bqueue_create pool co True = (BB_OK, Some i, pool')" and pool: "length pool = BB_BQUEUE_MAX_INSTANCES"
    and run: "bq_step\<^sup>*\<^sup>* \<lparr>w_inst = pool' ! i, w_thr = (\<lambda>t. Outside)\<rparr> w"
  shows "bq_count (w_inst w) \<le> bq_capacity (w_inst w) \<and> bq_head (w_inst w) < bq_capacity (w_inst w) \<and>
    (\<forall>t opr dl. w_thr w t = Parked opr dl \<longrightarrow>
       (case opr of OpSend item \<Rightarrow> length (bq_items (w_inst w)) = bq_capacity (w_inst w) | _ \<Rightarrow> bq_items (w_inst w) = []))"
proof -
  have "world_inv \<lparr>w_inst = pool' ! i, w_thr = (\<lambda>t. Outside)\<rparr>"
    using created_inst(1) [OF create pool] by (simp add: world_inv_def no_lost_wakeup_def)
  then have "world_inv w" using bq_steps_inv [OF run] by simp
  then show ?thesis
    by (auto simp: world_inv_def no_lost_wakeup_def bq_inv_def split: bq_op.splits)
qed

definition bq_pool0 :: bq_pool where "bq_pool0 = [bq_zero, bq_zero]"
definition bq_cfg2 :: bb_bqueue_cfg_t where "bq_cfg2 = \<lparr>bqc_capacity = 2, bqc_item_bytes = 2\<rparr>"
definition bq_inst2 :: bb_bqueue_inst_t where
  "bq_inst2 = bq_zero\<lparr>bq_capacity := 2, bq_item_bytes := 2, bq_in_use := True\<rparr>"

lemma bq_create2: "bb_bqueue_create bq_pool0 (Some bq_cfg2) True = (BB_OK, Some 0, [bq_inst2, bq_zero])"
  "length bq_pool0 = BB_BQUEUE_MAX_INSTANCES"
  by (simp_all add: bb_bqueue_create_def bb_bqueue_validate_cfg_def bq_pool0_def bq_cfg2_def bq_inst2_def bq_zero_def
      BB_BQUEUE_MAX_CAPACITY_def BB_BQUEUE_MAX_ITEM_BYTES_def BB_BQUEUE_MAX_INSTANCES_def numeral_2_eq_2)

theorem bqueue_no_lost_wakeup_witness:
  "\<exists>w. bq_step\<^sup>*\<^sup>* \<lparr>w_inst = bq_inst2, w_thr = (\<lambda>t. Outside)\<rparr> w \<and> w_thr w 0 = Parked OpReceive None \<and>
     bq_items (w_inst w) = []"
proof -
  let ?w0 = "\<lparr>w_inst = bq_inst2, w_thr = (\<lambda>t. Outside)\<rparr>"
  let ?r = "wait_entry (bq_count (w_inst ?w0)) (op_blocked_at (w_inst ?w0) OpReceive) BB_BQUEUE_WAIT_FOREVER (op_immediate OpReceive) 0 0"
  have "?r = WPark None BB_BQUEUE_WAIT_FOREVER"
    by (simp add: wait_entry_def wait_loop_def bq_inst2_def bq_zero_def BB_BQUEUE_WAIT_FOREVER_def)
  then have p: "w_thr (settle 0 OpReceive ?r ?w0) 0 = Parked OpReceive None" by (simp add: settle_def)
  have "bq_step ?w0 (settle 0 OpReceive ?r ?w0)" by (rule bq_step.call) simp_all
  then have run: "bq_step\<^sup>*\<^sup>* ?w0 (settle 0 OpReceive ?r ?w0)" by simp
  have i0: "[bq_inst2, bq_zero] ! 0 = bq_inst2" by simp
  have "bq_items (w_inst (settle 0 OpReceive ?r ?w0)) = []"
    using bqueue_no_lost_wakeup [OF bq_create2, unfolded i0, OF run] p by fastforce
  then show ?thesis using run p by blast
qed








end
