(* ===== verification/BB_Lifecycle.thy ===== *)
theory BB_Lifecycle
  imports BB_Prelude
begin

text \<open>
  \<^verbatim>\<open>bb_lifecycle\<close> (\<^verbatim>\<open>components/bb_lifecycle/bb_lifecycle.c\<close>), the authority on the run state of named
  services: the service table, the intern table of pause reasons (one bit per distinct
  reason, shared by all services), the derived state STOPPED / PAUSED / RUNNING, and the
  notification of observers and of the emit sink. Each operation is one critical section of
  the component's lock followed by the notifications; the argument \<open>lock_rc\<close> is the result of
  \<^verbatim>\<open>ensure_lock\<close>. Deliveries are returned as a list in the order the code makes them.
\<close>

unbundle bit_operations_syntax

section \<open>Constants and data\<close>

definition CONFIG_BB_LIFECYCLE_MAX_SERVICES :: nat where "CONFIG_BB_LIFECYCLE_MAX_SERVICES = 8"
definition CONFIG_BB_LIFECYCLE_MAX_OBSERVERS :: nat where "CONFIG_BB_LIFECYCLE_MAX_OBSERVERS = 8"
definition CONFIG_BB_LIFECYCLE_NAME_MAX :: nat where "CONFIG_BB_LIFECYCLE_NAME_MAX = 24"
definition CONFIG_BB_LIFECYCLE_REASON_MAX :: nat where "CONFIG_BB_LIFECYCLE_REASON_MAX = 24"
definition CONFIG_BB_LIFECYCLE_MAX_REASONS :: nat where "CONFIG_BB_LIFECYCLE_MAX_REASONS = 32"
definition BB_LIFECYCLE_INHIBIT_WORDS :: nat where
  "BB_LIFECYCLE_INHIBIT_WORDS = (CONFIG_BB_LIFECYCLE_MAX_REASONS + 31) div 32"
definition BB_LIFECYCLE_REASON_NONE :: nat where "BB_LIFECYCLE_REASON_NONE = 0xFF"

datatype bb_lifecycle_state_t = BB_LIFECYCLE_STOPPED | BB_LIFECYCLE_PAUSED | BB_LIFECYCLE_RUNNING

datatype bb_lifecycle_action_t = BB_LIFECYCLE_ACTION_NONE | BB_LIFECYCLE_ACTION_START | BB_LIFECYCLE_ACTION_STOP

type_synonym bb_lifecycle_svc_t = int

record bb_lifecycle_service_t =
  sv_name :: string
  sv_started :: bool
  sv_inhibits :: "u32 list"
  sv_version :: u32

record bb_lifecycle_event_t =
  ev_svc :: bb_lifecycle_svc_t
  ev_inhibits :: u32
  ev_version :: u32
  ev_old_state :: bb_lifecycle_state_t
  ev_new_state :: bb_lifecycle_state_t
  ev_reason :: nat

record bb_lifecycle_observer_slot_t =
  ob_cb :: nat
  ob_user :: nat
  ob_async :: bool

text \<open>The tables hold their occupied prefix; \<^verbatim>\<open>s_service_count\<close>, \<^verbatim>\<open>s_reason_count\<close> and
  \<^verbatim>\<open>s_observer_count\<close> are the lengths. \<^verbatim>\<open>lc_emit\<close> is the registered emit sink.\<close>

record lifecycle =
  lc_services :: "bb_lifecycle_service_t list"
  lc_reasons :: "string list"
  lc_observers :: "bb_lifecycle_observer_slot_t list"
  lc_emit :: "nat option"

datatype delivery =
    Callback nat nat bb_lifecycle_event_t
  | Async_notify bb_lifecycle_event_t
  | Emit nat int bb_lifecycle_event_t

section \<open>Bit sets in words\<close>

definition word_set :: "u32 list \<Rightarrow> nat \<Rightarrow> nat \<Rightarrow> u32 list" where
  "word_set words nwords b =
     (let idx = b div 32 in if idx \<ge> nwords then words else words[idx := words ! idx OR push_bit (b mod 32) 1])"

definition word_clear :: "u32 list \<Rightarrow> nat \<Rightarrow> nat \<Rightarrow> u32 list" where
  "word_clear words nwords b =
     (let idx = b div 32 in if idx \<ge> nwords then words else words[idx := words ! idx AND NOT (push_bit (b mod 32) 1)])"

definition word_test :: "u32 list \<Rightarrow> nat \<Rightarrow> nat \<Rightarrow> bool" where
  "word_test words nwords b =
     (let idx = b div 32 in if idx \<ge> nwords then False else words ! idx AND push_bit (b mod 32) 1 \<noteq> 0)"

definition words_any_set :: "u32 list \<Rightarrow> nat \<Rightarrow> bool" where
  "words_any_set words nwords = (find_idx (\<lambda>w. w \<noteq> 0) (take nwords words) \<noteq> None)"

definition compute_state :: "bool \<Rightarrow> u32 list \<Rightarrow> nat \<Rightarrow> bb_lifecycle_state_t" where
  "compute_state started words nwords =
     (if \<not> started then BB_LIFECYCLE_STOPPED
      else if words_any_set words nwords then BB_LIFECYCLE_PAUSED else BB_LIFECYCLE_RUNNING)"

definition copy_truncated :: "nat \<Rightarrow> string \<Rightarrow> string" where
  "copy_truncated dstsize src = take (dstsize - 1) src"

section \<open>The reason intern table\<close>

definition reason_lookup_locked :: "lifecycle \<Rightarrow> string \<Rightarrow> nat option" where
  "reason_lookup_locked lc truncated = map_option (\<lambda>i. i mod 256) (find_idx (\<lambda>r. r = truncated) (lc_reasons lc))"

definition reason_intern_locked :: "lifecycle \<Rightarrow> string \<Rightarrow> (bb_err_t + nat) \<times> lifecycle" where
  "reason_intern_locked lc reason =
     (let truncated = copy_truncated CONFIG_BB_LIFECYCLE_REASON_MAX reason in
      case reason_lookup_locked lc truncated of
        Some b \<Rightarrow> (Inr b, lc)
      | None \<Rightarrow>
          if length (lc_reasons lc) \<ge> CONFIG_BB_LIFECYCLE_MAX_REASONS then (Inl BB_ERR_NO_SPACE, lc)
          else (Inr (length (lc_reasons lc) mod 256),
                lc\<lparr>lc_reasons := lc_reasons lc @ [copy_truncated CONFIG_BB_LIFECYCLE_REASON_MAX truncated]\<rparr>))"

section \<open>Notification\<close>

definition svc_valid :: "lifecycle \<Rightarrow> bb_lifecycle_svc_t \<Rightarrow> bool" where
  "svc_valid lc svc \<longleftrightarrow> \<not> svc < 0 \<and> nat svc < length (lc_services lc)"

definition notify_all :: "lifecycle \<Rightarrow> bb_lifecycle_event_t \<Rightarrow> delivery list" where
  "notify_all lc evt =
     map (\<lambda>o'. Callback (ob_cb o') (ob_user o') evt) (filter (\<lambda>o'. \<not> ob_async o') (lc_observers lc)) @
     (if \<exists>o'\<in>set (lc_observers lc). ob_async o' then [Async_notify evt] else []) @
     (case lc_emit lc of None \<Rightarrow> [] | Some sink \<Rightarrow> [Emit sink (ev_svc evt) evt])"

definition bb_lifecycle_priv_invoke_async_slots :: "lifecycle \<Rightarrow> bb_lifecycle_event_t \<Rightarrow> delivery list" where
  "bb_lifecycle_priv_invoke_async_slots lc evt =
     map (\<lambda>o'. Callback (ob_cb o') (ob_user o') evt) (filter ob_async (lc_observers lc))"

definition commit_and_snapshot ::
  "bb_lifecycle_svc_t \<Rightarrow> bb_lifecycle_service_t \<Rightarrow> bb_lifecycle_state_t \<Rightarrow> nat \<Rightarrow> bb_lifecycle_service_t \<times> bb_lifecycle_event_t"
where
  "commit_and_snapshot svc s old_eff reason =
     (let new_eff = compute_state (sv_started s) (sv_inhibits s) BB_LIFECYCLE_INHIBIT_WORDS;
          new_version = sv_version s + 1
      in (s\<lparr>sv_version := new_version\<rparr>,
          \<lparr>ev_svc = svc, ev_inhibits = sv_inhibits s ! 0, ev_version = new_version,
           ev_old_state = old_eff, ev_new_state = new_eff, ev_reason = reason\<rparr>))"

text \<open>Committing the changed service \<open>s\<close> and notifying, the tail of every mutator.\<close>

definition commit_notify ::
  "lifecycle \<Rightarrow> bb_lifecycle_svc_t \<Rightarrow> bb_lifecycle_service_t \<Rightarrow> bb_lifecycle_state_t \<Rightarrow> nat
    \<Rightarrow> bb_err_t \<times> lifecycle \<times> delivery list"
where
  "commit_notify lc svc s old_eff reason =
     (let (s', evt) = commit_and_snapshot svc s old_eff reason;
          lc' = lc\<lparr>lc_services := (lc_services lc)[nat svc := s']\<rparr>
      in (BB_OK, lc', notify_all lc' evt))"

section \<open>Public operations\<close>

definition bb_lifecycle_autoinit :: "bb_err_t \<Rightarrow> bb_err_t" where
  "bb_lifecycle_autoinit lock_rc = lock_rc"

definition bb_lifecycle_register :: "lifecycle \<Rightarrow> bb_err_t \<Rightarrow> string option \<Rightarrow> bool \<Rightarrow> bb_err_t \<times> lifecycle \<times> bb_lifecycle_svc_t option" where
  "bb_lifecycle_register lc lock_rc cfg_name out_given =
     (case cfg_name of
        None \<Rightarrow> (BB_ERR_INVALID_ARG, lc, None)
      | Some nm \<Rightarrow>
          if \<not> out_given then (BB_ERR_INVALID_ARG, lc, None)
          else (let name = copy_truncated CONFIG_BB_LIFECYCLE_NAME_MAX nm; cnt = length (lc_services lc) in
            if lock_rc \<noteq> BB_OK then (lock_rc, lc, None)
            else if find_idx (\<lambda>s. sv_name s = name) (lc_services lc) \<noteq> None then (BB_ERR_CONFLICT, lc, None)
            else if cnt \<ge> CONFIG_BB_LIFECYCLE_MAX_SERVICES then (BB_ERR_NO_SPACE, lc, None)
            else (BB_OK,
                  lc\<lparr>lc_services := lc_services lc @
                     [\<lparr>sv_name = copy_truncated CONFIG_BB_LIFECYCLE_NAME_MAX name, sv_started = False,
                       sv_inhibits = replicate BB_LIFECYCLE_INHIBIT_WORDS 0, sv_version = 0\<rparr>]\<rparr>,
                  Some (int cnt))))"

definition bb_lifecycle_find :: "lifecycle \<Rightarrow> bb_err_t \<Rightarrow> string option \<Rightarrow> bool \<Rightarrow> bb_err_t \<times> bb_lifecycle_svc_t option" where
  "bb_lifecycle_find lc lock_rc nm out_given =
     (case nm of
        None \<Rightarrow> (BB_ERR_INVALID_ARG, None)
      | Some name \<Rightarrow>
          if \<not> out_given then (BB_ERR_INVALID_ARG, None)
          else (let truncated = copy_truncated CONFIG_BB_LIFECYCLE_NAME_MAX name in
            if lock_rc \<noteq> BB_OK then (lock_rc, None)
            else (case find_idx (\<lambda>s. sv_name s = truncated) (lc_services lc) of
                    None \<Rightarrow> (BB_ERR_NOT_FOUND, None) | Some i \<Rightarrow> (BB_OK, Some (int i)))))"

definition bb_lifecycle_name :: "lifecycle \<Rightarrow> bb_err_t \<Rightarrow> bb_lifecycle_svc_t \<Rightarrow> string" where
  "bb_lifecycle_name lc lock_rc svc =
     (if lock_rc \<noteq> BB_OK then [] else if svc_valid lc svc then sv_name (lc_services lc ! nat svc) else [])"

definition effective :: "bb_lifecycle_service_t \<Rightarrow> bb_lifecycle_state_t" where
  "effective s = compute_state (sv_started s) (sv_inhibits s) BB_LIFECYCLE_INHIBIT_WORDS"

definition bb_lifecycle_start :: "lifecycle \<Rightarrow> bb_err_t \<Rightarrow> bb_lifecycle_svc_t \<Rightarrow> bb_err_t \<times> lifecycle \<times> delivery list" where
  "bb_lifecycle_start lc lock_rc svc =
     (if lock_rc \<noteq> BB_OK then (lock_rc, lc, [])
      else if \<not> svc_valid lc svc then (BB_ERR_NOT_FOUND, lc, [])
      else (let s = lc_services lc ! nat svc; old_eff = effective s in
        if sv_started s then (BB_OK, lc, [])
        else commit_notify lc svc (s\<lparr>sv_started := True\<rparr>) old_eff BB_LIFECYCLE_REASON_NONE))"

definition bb_lifecycle_stop :: "lifecycle \<Rightarrow> bb_err_t \<Rightarrow> bb_lifecycle_svc_t \<Rightarrow> bb_err_t \<times> lifecycle \<times> delivery list" where
  "bb_lifecycle_stop lc lock_rc svc =
     (if lock_rc \<noteq> BB_OK then (lock_rc, lc, [])
      else if \<not> svc_valid lc svc then (BB_ERR_NOT_FOUND, lc, [])
      else (let s = lc_services lc ! nat svc; old_eff = effective s in
        if \<not> sv_started s then (BB_OK, lc, [])
        else commit_notify lc svc
               (s\<lparr>sv_started := False, sv_inhibits := replicate (length (sv_inhibits s)) 0\<rparr>) old_eff BB_LIFECYCLE_REASON_NONE))"

definition bb_lifecycle_pause_assert ::
  "lifecycle \<Rightarrow> bb_err_t \<Rightarrow> bb_lifecycle_svc_t \<Rightarrow> string option \<Rightarrow> bb_err_t \<times> lifecycle \<times> delivery list" where
  "bb_lifecycle_pause_assert lc lock_rc svc ro =
     (case ro of
        None \<Rightarrow> (BB_ERR_INVALID_ARG, lc, [])
      | Some reason \<Rightarrow>
          if lock_rc \<noteq> BB_OK then (lock_rc, lc, [])
          else if \<not> svc_valid lc svc then (BB_ERR_NOT_FOUND, lc, [])
          else (let s = lc_services lc ! nat svc; old_eff = effective s in
            case reason_intern_locked lc reason of
              (Inl err, lc1) \<Rightarrow> (err, lc1, [])
            | (Inr b, lc1) \<Rightarrow>
                if word_test (sv_inhibits s) BB_LIFECYCLE_INHIBIT_WORDS b then (BB_OK, lc1, [])
                else commit_notify lc1 svc
                       (s\<lparr>sv_inhibits := word_set (sv_inhibits s) BB_LIFECYCLE_INHIBIT_WORDS b\<rparr>) old_eff b))"

definition bb_lifecycle_pause_clear ::
  "lifecycle \<Rightarrow> bb_err_t \<Rightarrow> bb_lifecycle_svc_t \<Rightarrow> string option \<Rightarrow> bb_err_t \<times> lifecycle \<times> delivery list" where
  "bb_lifecycle_pause_clear lc lock_rc svc ro =
     (case ro of
        None \<Rightarrow> (BB_ERR_INVALID_ARG, lc, [])
      | Some reason \<Rightarrow>
          if lock_rc \<noteq> BB_OK then (lock_rc, lc, [])
          else if \<not> svc_valid lc svc then (BB_ERR_NOT_FOUND, lc, [])
          else (let s = lc_services lc ! nat svc; old_eff = effective s in
            case reason_lookup_locked lc (copy_truncated CONFIG_BB_LIFECYCLE_REASON_MAX reason) of
              None \<Rightarrow> (BB_OK, lc, [])
            | Some b \<Rightarrow>
                if \<not> word_test (sv_inhibits s) BB_LIFECYCLE_INHIBIT_WORDS b then (BB_OK, lc, [])
                else commit_notify lc svc
                       (s\<lparr>sv_inhibits := word_clear (sv_inhibits s) BB_LIFECYCLE_INHIBIT_WORDS b\<rparr>) old_eff b))"

definition bb_lifecycle_is_paused :: "lifecycle \<Rightarrow> bb_err_t \<Rightarrow> bb_lifecycle_svc_t \<Rightarrow> bool" where
  "bb_lifecycle_is_paused lc lock_rc svc =
     (if lock_rc \<noteq> BB_OK then False
      else if svc_valid lc svc then effective (lc_services lc ! nat svc) = BB_LIFECYCLE_PAUSED else False)"

definition bb_lifecycle_state :: "lifecycle \<Rightarrow> bb_err_t \<Rightarrow> bb_lifecycle_svc_t \<Rightarrow> bb_lifecycle_state_t" where
  "bb_lifecycle_state lc lock_rc svc =
     (if lock_rc \<noteq> BB_OK then BB_LIFECYCLE_STOPPED
      else if svc_valid lc svc then effective (lc_services lc ! nat svc) else BB_LIFECYCLE_STOPPED)"

definition bb_lifecycle_version :: "lifecycle \<Rightarrow> bb_lifecycle_svc_t \<Rightarrow> u32" where
  "bb_lifecycle_version lc svc = (if \<not> svc_valid lc svc then 0 else sv_version (lc_services lc ! nat svc))"

definition bb_lifecycle_count :: "lifecycle \<Rightarrow> nat" where
  "bb_lifecycle_count lc = length (lc_services lc)"

definition bb_lifecycle_inhibit_words :: "lifecycle \<Rightarrow> bb_err_t \<Rightarrow> bb_lifecycle_svc_t \<Rightarrow> bool \<Rightarrow> nat \<Rightarrow> u32 list" where
  "bb_lifecycle_inhibit_words lc lock_rc svc out_given max_words =
     (if \<not> out_given \<or> max_words = 0 \<or> \<not> svc_valid lc svc then []
      else if lock_rc \<noteq> BB_OK then []
      else take (if max_words < BB_LIFECYCLE_INHIBIT_WORDS then max_words else BB_LIFECYCLE_INHIBIT_WORDS)
             (sv_inhibits (lc_services lc ! nat svc)))"

definition bb_lifecycle_reason_name :: "lifecycle \<Rightarrow> bb_err_t \<Rightarrow> nat \<Rightarrow> string" where
  "bb_lifecycle_reason_name lc lock_rc b =
     (if b \<ge> CONFIG_BB_LIFECYCLE_MAX_REASONS then []
      else if lock_rc \<noteq> BB_OK then []
      else if b < length (lc_reasons lc) then lc_reasons lc ! b else [])"

definition bb_lifecycle_priv_observe_slot :: "lifecycle \<Rightarrow> bb_err_t \<Rightarrow> nat option \<Rightarrow> nat \<Rightarrow> bool \<Rightarrow> bb_err_t \<times> lifecycle" where
  "bb_lifecycle_priv_observe_slot lc lock_rc cbo user is_async =
     (case cbo of
        None \<Rightarrow> (BB_ERR_INVALID_ARG, lc)
      | Some cb \<Rightarrow>
          if lock_rc \<noteq> BB_OK then (lock_rc, lc)
          else if length (lc_observers lc) \<ge> CONFIG_BB_LIFECYCLE_MAX_OBSERVERS then (BB_ERR_NO_SPACE, lc)
          else (BB_OK, lc\<lparr>lc_observers := lc_observers lc @ [\<lparr>ob_cb = cb, ob_user = user, ob_async = is_async\<rparr>]\<rparr>))"

definition bb_lifecycle_observe :: "lifecycle \<Rightarrow> bb_err_t \<Rightarrow> nat option \<Rightarrow> nat \<Rightarrow> bb_err_t \<times> lifecycle" where
  "bb_lifecycle_observe lc lock_rc cbo user = bb_lifecycle_priv_observe_slot lc lock_rc cbo user False"

definition bb_lifecycle_set_emit :: "lifecycle \<Rightarrow> nat option \<Rightarrow> lifecycle" where
  "bb_lifecycle_set_emit lc sink = lc\<lparr>lc_emit := sink\<rparr>"

section \<open>Driving a service from a producer's emit seam\<close>

record 'p bb_lifecycle_binding_t =
  bi_svc :: bb_lifecycle_svc_t
  bi_classify :: "(u32 \<Rightarrow> 'p \<Rightarrow> nat \<Rightarrow> bb_lifecycle_action_t) option"

definition bb_lifecycle_emit_binding_init ::
  "lifecycle \<Rightarrow> 'p bb_lifecycle_binding_t option \<Rightarrow> bb_lifecycle_svc_t \<Rightarrow> (u32 \<Rightarrow> 'p \<Rightarrow> nat \<Rightarrow> bb_lifecycle_action_t) option
    \<Rightarrow> bb_err_t \<times> 'p bb_lifecycle_binding_t option"
where
  "bb_lifecycle_emit_binding_init lc out svc classify =
     (if out = None \<or> classify = None \<or> \<not> svc_valid lc svc then (BB_ERR_INVALID_ARG, out)
      else (BB_OK, Some ((the out)\<lparr>bi_svc := svc, bi_classify := classify\<rparr>)))"

definition bb_lifecycle_emit_trampoline ::
  "'p bb_lifecycle_binding_t option \<Rightarrow> lifecycle \<Rightarrow> bb_err_t \<Rightarrow> int \<Rightarrow> 'p \<Rightarrow> nat \<Rightarrow> lifecycle \<times> delivery list"
where
  "bb_lifecycle_emit_trampoline ctx lc lock_rc evid payload sz =
     (case ctx of
        None \<Rightarrow> (lc, [])
      | Some binding \<Rightarrow>
          (case bi_classify binding of
             None \<Rightarrow> (lc, [])
           | Some classify \<Rightarrow>
               (case classify (word_of_int evid) payload sz of
                  BB_LIFECYCLE_ACTION_START \<Rightarrow> snd (bb_lifecycle_start lc lock_rc (bi_svc binding))
                | BB_LIFECYCLE_ACTION_STOP \<Rightarrow> snd (bb_lifecycle_stop lc lock_rc (bi_svc binding))
                | BB_LIFECYCLE_ACTION_NONE \<Rightarrow> (lc, []))))"

section \<open>Bit sets: what the word operations compute\<close>

lemma word_test_bit: "word_test words n b \<longleftrightarrow> b div 32 < n \<and> bit (words ! (b div 32)) (b mod 32)"
  by (simp add: word_test_def Let_def bit_iff_and_push_bit_not_eq_0 not_le)

lemma same_bit: "b div 32 = c div 32 \<Longrightarrow> b mod 32 = c mod 32 \<Longrightarrow> b = (c :: nat)"
  by (metis div_mult_mod_eq)

lemma word_test_set:
  assumes "length words = n" and "b div 32 < n"
  shows "word_test (word_set words n b) n c \<longleftrightarrow> c = b \<or> word_test words n c"
proof -
  have lt: "b mod 32 < 32" "c mod 32 < 32" by simp_all
  show ?thesis
    using assms lt same_bit [of c b]
    by (auto simp: word_test_bit word_set_def Let_def nth_list_update bit_or_iff bit_exp_iff not_le)
qed

lemma word_test_clear:
  assumes "length words = n" and "b div 32 < n"
  shows "word_test (word_clear words n b) n c \<longleftrightarrow> c \<noteq> b \<and> word_test words n c"
proof -
  have lt: "b mod 32 < 32" "c mod 32 < 32" by simp_all
  show ?thesis
    using assms lt same_bit [of c b]
    by (auto simp: word_test_bit word_clear_def Let_def nth_list_update bit_and_iff bit_not_iff bit_exp_iff not_le)
qed

lemma length_word_ops [simp]: "length (word_set words n b) = length words" "length (word_clear words n b) = length words"
  by (simp_all add: word_set_def word_clear_def Let_def)

lemma word_test_zero [simp]: "\<not> word_test (replicate n 0) n b"
  by (simp add: word_test_bit)

lemma words_any_set_test:
  assumes "length words = n"
  shows "words_any_set words n \<longleftrightarrow> (\<exists>b. word_test words n b)"
proof
  assume "words_any_set words n"
  then obtain i where i: "i < n" "words ! i \<noteq> 0"
    using assms by (auto simp: words_any_set_def find_idx_None in_set_conv_nth)
  then obtain k where k: "bit (words ! i) k" by (auto simp: bit_eq_iff)
  then have "k < 32" using bit_imp_le_length [OF k] by simp
  then have "(32 * i + k) div 32 = i" "(32 * i + k) mod 32 = k" by simp_all
  then have "word_test words n (32 * i + k)" using i k by (simp add: word_test_bit)
  then show "\<exists>b. word_test words n b" ..
next
  assume "\<exists>b. word_test words n b"
  then obtain b where "b div 32 < n" "bit (words ! (b div 32)) (b mod 32)" by (auto simp: word_test_bit)
  then have "words ! (b div 32) \<in> set words" "words ! (b div 32) \<noteq> 0" using assms by auto
  then show "words_any_set words n" using assms by (auto simp: words_any_set_def find_idx_None)
qed

section \<open>Invariant and abstract view\<close>

definition svc_ok :: "lifecycle \<Rightarrow> bb_lifecycle_service_t \<Rightarrow> bool" where
  "svc_ok lc s \<longleftrightarrow> length (sv_inhibits s) = BB_LIFECYCLE_INHIBIT_WORDS \<and>
     (\<forall>b. word_test (sv_inhibits s) BB_LIFECYCLE_INHIBIT_WORDS b \<longrightarrow> b < length (lc_reasons lc)) \<and>
     length (sv_name s) < CONFIG_BB_LIFECYCLE_NAME_MAX"

definition lc_inv :: "lifecycle \<Rightarrow> bool" where
  "lc_inv lc \<longleftrightarrow> length (lc_services lc) \<le> CONFIG_BB_LIFECYCLE_MAX_SERVICES \<and>
     length (lc_reasons lc) \<le> CONFIG_BB_LIFECYCLE_MAX_REASONS \<and>
     length (lc_observers lc) \<le> CONFIG_BB_LIFECYCLE_MAX_OBSERVERS \<and>
     distinct (lc_reasons lc) \<and> distinct (map sv_name (lc_services lc)) \<and>
     (\<forall>r\<in>set (lc_reasons lc). length r < CONFIG_BB_LIFECYCLE_REASON_MAX) \<and>
     (\<forall>s\<in>set (lc_services lc). svc_ok lc s)"

text \<open>What a service is to its users: started or not, and the set of reasons that hold it.\<close>

type_synonym abs_svc = "bool \<times> string set"

definition held_by :: "string list \<Rightarrow> u32 list \<Rightarrow> string set" where
  "held_by reasons words = {reasons ! b | b. b < length reasons \<and> word_test words BB_LIFECYCLE_INHIBIT_WORDS b}"

definition svc_abs :: "lifecycle \<Rightarrow> bb_lifecycle_svc_t \<Rightarrow> abs_svc" where
  "svc_abs lc svc = (let s = lc_services lc ! nat svc in (sv_started s, held_by (lc_reasons lc) (sv_inhibits s)))"

datatype lc_op = Start | Stop | Assert string | Clear string

fun lc_apply :: "lifecycle \<Rightarrow> bb_lifecycle_svc_t \<Rightarrow> lc_op \<Rightarrow> bb_err_t \<times> lifecycle \<times> delivery list" where
  "lc_apply lc svc Start = bb_lifecycle_start lc BB_OK svc"
| "lc_apply lc svc Stop = bb_lifecycle_stop lc BB_OK svc"
| "lc_apply lc svc (Assert r) = bb_lifecycle_pause_assert lc BB_OK svc (Some r)"
| "lc_apply lc svc (Clear r) = bb_lifecycle_pause_clear lc BB_OK svc (Some r)"

definition reason_key :: "string \<Rightarrow> string" where
  "reason_key r = copy_truncated CONFIG_BB_LIFECYCLE_REASON_MAX r"

fun spec_apply :: "lc_op \<Rightarrow> abs_svc \<Rightarrow> abs_svc" where
  "spec_apply Start (st, P) = (True, P)"
| "spec_apply Stop (st, P) = (False, if st then {} else P)"
| "spec_apply (Assert r) (st, P) = (st, insert (reason_key r) P)"
| "spec_apply (Clear r) (st, P) = (st, P - {reason_key r})"

fun spec_state :: "abs_svc \<Rightarrow> bb_lifecycle_state_t" where
  "spec_state (st, P) = (if \<not> st then BB_LIFECYCLE_STOPPED else if P \<noteq> {} then BB_LIFECYCLE_PAUSED else BB_LIFECYCLE_RUNNING)"

lemma reason_bits_fit: "b < CONFIG_BB_LIFECYCLE_MAX_REASONS \<Longrightarrow> b div 32 < BB_LIFECYCLE_INHIBIT_WORDS \<and> b mod 256 = b"
  by (simp add: CONFIG_BB_LIFECYCLE_MAX_REASONS_def BB_LIFECYCLE_INHIBIT_WORDS_def)

lemma reason_key_key [simp]: "copy_truncated CONFIG_BB_LIFECYCLE_REASON_MAX (reason_key r) = reason_key r"
  by (simp add: reason_key_def copy_truncated_def)

lemma length_reason_key: "length (reason_key r) < CONFIG_BB_LIFECYCLE_REASON_MAX"
  by (simp add: reason_key_def copy_truncated_def CONFIG_BB_LIFECYCLE_REASON_MAX_def)

lemma reason_lookup_SomeD:
  assumes "lc_inv lc" and "reason_lookup_locked lc k = Some b"
  shows "b < length (lc_reasons lc)" "lc_reasons lc ! b = k"
proof -
  obtain i where "i < length (lc_reasons lc)" "lc_reasons lc ! i = k" "b = i mod 256"
    using assms(2) by (auto simp: reason_lookup_locked_def dest: find_idx_SomeD)
  moreover from this have "i mod 256 = i" using assms(1) reason_bits_fit [of i] by (simp add: lc_inv_def)
  ultimately show "b < length (lc_reasons lc)" "lc_reasons lc ! b = k" by simp_all
qed

lemma reason_lookup_None: "reason_lookup_locked lc k = None \<longleftrightarrow> k \<notin> set (lc_reasons lc)"
  by (auto simp: reason_lookup_locked_def find_idx_None)

lemma held_by_extend:
  assumes "\<And>b. word_test words BB_LIFECYCLE_INHIBIT_WORDS b \<Longrightarrow> b < length rs"
  shows "held_by (rs @ extra) words = held_by rs words"
proof -
  have "b < length (rs @ extra) \<and> word_test words BB_LIFECYCLE_INHIBIT_WORDS b \<longleftrightarrow>
      b < length rs \<and> word_test words BB_LIFECYCLE_INHIBIT_WORDS b" for b
    using assms [of b] by auto
  then have "held_by (rs @ extra) words = {(rs @ extra) ! b | b. b < length rs \<and> word_test words BB_LIFECYCLE_INHIBIT_WORDS b}"
    unfolding held_by_def by simp
  then show ?thesis unfolding held_by_def by (auto simp: nth_append)
qed

lemma held_by_set:
  assumes "b < length rs" "length words = BB_LIFECYCLE_INHIBIT_WORDS" "b div 32 < BB_LIFECYCLE_INHIBIT_WORDS"
  shows "held_by rs (word_set words BB_LIFECYCLE_INHIBIT_WORDS b) = insert (rs ! b) (held_by rs words)"
  using assms by (auto simp: held_by_def word_test_set)

lemma held_by_clear:
  assumes "distinct rs" "b < length rs" "length words = BB_LIFECYCLE_INHIBIT_WORDS" "b div 32 < BB_LIFECYCLE_INHIBIT_WORDS"
  shows "held_by rs (word_clear words BB_LIFECYCLE_INHIBIT_WORDS b) = held_by rs words - {rs ! b}"
  using assms by (auto simp: held_by_def word_test_clear nth_eq_iff_index_eq)

lemma held_by_mem:
  assumes "distinct rs" "b < length rs"
  shows "rs ! b \<in> held_by rs words \<longleftrightarrow> word_test words BB_LIFECYCLE_INHIBIT_WORDS b"
  using assms by (auto simp: held_by_def nth_eq_iff_index_eq)

lemma effective_abs:
  assumes "svc_ok lc s"
  shows "effective s = spec_state (sv_started s, held_by (lc_reasons lc) (sv_inhibits s))"
proof -
  have "words_any_set (sv_inhibits s) BB_LIFECYCLE_INHIBIT_WORDS \<longleftrightarrow> held_by (lc_reasons lc) (sv_inhibits s) \<noteq> {}"
    using assms by (auto simp: svc_ok_def words_any_set_test held_by_def)
  then show ?thesis by (simp add: effective_def compute_state_def)
qed

lemma state_abs: "lc_inv lc \<Longrightarrow> svc_valid lc svc \<Longrightarrow> bb_lifecycle_state lc BB_OK svc = spec_state (svc_abs lc svc)"
  using effective_abs [of lc "lc_services lc ! nat svc"]
  by (simp add: bb_lifecycle_state_def svc_abs_def Let_def lc_inv_def svc_valid_def)

section \<open>The outcomes of a mutator\<close>

lemma svc_ok_extend:
  assumes "svc_ok lc s" and "lc_reasons lc1 = lc_reasons lc @ extra"
  shows "svc_ok lc1 s" "held_by (lc_reasons lc1) (sv_inhibits s) = held_by (lc_reasons lc) (sv_inhibits s)"
proof -
  show "svc_ok lc1 s" using assms unfolding svc_ok_def by (auto intro: less_le_trans)
  show "held_by (lc_reasons lc1) (sv_inhibits s) = held_by (lc_reasons lc) (sv_inhibits s)"
    using assms held_by_extend [of "sv_inhibits s" "lc_reasons lc" extra] by (simp add: svc_ok_def)
qed

lemma intern_OK:
  assumes inv: "lc_inv lc" and i: "reason_intern_locked lc r = (Inr b, lc1)"
  shows "lc_inv lc1" "b < length (lc_reasons lc1)" "lc_reasons lc1 ! b = reason_key r"
    "\<exists>extra. lc1 = lc\<lparr>lc_reasons := lc_reasons lc @ extra\<rparr>"
proof -
  have key: "copy_truncated CONFIG_BB_LIFECYCLE_REASON_MAX r = reason_key r" by (simp add: reason_key_def)
  have "lc_inv lc1 \<and> b < length (lc_reasons lc1) \<and> lc_reasons lc1 ! b = reason_key r \<and>
        (\<exists>extra. lc1 = lc\<lparr>lc_reasons := lc_reasons lc @ extra\<rparr>)"
  proof (cases "reason_lookup_locked lc (reason_key r)")
    case (Some b')
    then have "b' = b" "lc1 = lc" using i by (auto simp: reason_intern_locked_def key Let_def)
    then show ?thesis
      using inv reason_lookup_SomeD [OF inv Some] by (auto intro: exI [of _ "[]"])
  next
    case None
    then have lt: "length (lc_reasons lc) < CONFIG_BB_LIFECYCLE_MAX_REASONS"
      and lc1: "lc1 = lc\<lparr>lc_reasons := lc_reasons lc @ [reason_key r]\<rparr>" and b: "b = length (lc_reasons lc) mod 256"
      using i by (auto simp: reason_intern_locked_def key Let_def split: if_splits)
    have "b = length (lc_reasons lc)" using b reason_bits_fit [OF lt] by simp
    moreover have "lc_inv lc1"
      using inv lt None length_reason_key [of r] svc_ok_extend(1) [of lc _ lc1 "[reason_key r]"]
      unfolding lc_inv_def lc1 by (auto simp: reason_lookup_None)
    ultimately show ?thesis
      by (auto simp: lc1)
  qed
  then show "lc_inv lc1" "b < length (lc_reasons lc1)" "lc_reasons lc1 ! b = reason_key r"
    "\<exists>extra. lc1 = lc\<lparr>lc_reasons := lc_reasons lc @ extra\<rparr>" by auto
qed

lemma intern_full:
  assumes "reason_intern_locked lc r = (Inl e, lc1)"
  shows "e = BB_ERR_NO_SPACE \<and> lc1 = lc \<and> reason_key r \<notin> set (lc_reasons lc) \<and>
    CONFIG_BB_LIFECYCLE_MAX_REASONS \<le> length (lc_reasons lc)"
  using assms
  by (auto simp: reason_intern_locked_def Let_def reason_lookup_None simp flip: reason_key_def
      split: option.splits if_splits)

text \<open>A mutator on a valid handle does nothing observable, is refused because the reason table is
  full, or commits one changed service record.\<close>

definition lc_quiet :: "lifecycle \<Rightarrow> bb_lifecycle_svc_t \<Rightarrow> lc_op \<Rightarrow> bool" where
  "lc_quiet lc svc opr \<longleftrightarrow> (\<exists>extra. lc_apply lc svc opr = (BB_OK, lc\<lparr>lc_reasons := lc_reasons lc @ extra\<rparr>, []) \<and>
     lc_inv (lc\<lparr>lc_reasons := lc_reasons lc @ extra\<rparr>) \<and> spec_apply opr (svc_abs lc svc) = svc_abs lc svc)"

definition lc_refused :: "lifecycle \<Rightarrow> bb_lifecycle_svc_t \<Rightarrow> lc_op \<Rightarrow> bool" where
  "lc_refused lc svc opr \<longleftrightarrow> lc_apply lc svc opr = (BB_ERR_NO_SPACE, lc, []) \<and>
     (\<exists>r. opr = Assert r \<and> reason_key r \<notin> set (lc_reasons lc)) \<and> CONFIG_BB_LIFECYCLE_MAX_REASONS \<le> length (lc_reasons lc)"

definition lc_commits :: "lifecycle \<Rightarrow> bb_lifecycle_svc_t \<Rightarrow> lc_op \<Rightarrow> lifecycle \<Rightarrow> bb_lifecycle_service_t \<Rightarrow> nat \<Rightarrow> bool" where
  "lc_commits lc svc opr lc1 s' b \<longleftrightarrow>
     (let s = lc_services lc ! nat svc in
      lc_apply lc svc opr = commit_notify lc1 svc s' (effective s) b \<and>
      (\<exists>extra. lc1 = lc\<lparr>lc_reasons := lc_reasons lc @ extra\<rparr>) \<and> lc_inv lc1 \<and> svc_ok lc1 s' \<and>
      sv_name s' = sv_name s \<and> sv_version s' = sv_version s \<and>
      (sv_started s', held_by (lc_reasons lc1) (sv_inhibits s')) = spec_apply opr (svc_abs lc svc) \<and>
      spec_apply opr (svc_abs lc svc) \<noteq> svc_abs lc svc)"

definition lc_outcome :: "lifecycle \<Rightarrow> bb_lifecycle_svc_t \<Rightarrow> lc_op \<Rightarrow> bool" where
  "lc_outcome lc svc opr \<longleftrightarrow>
     lc_quiet lc svc opr \<or> lc_refused lc svc opr \<or> (\<exists>lc1 s' b. lc_commits lc svc opr lc1 s' b)"

lemma valid_svc_ok: "lc_inv lc \<Longrightarrow> svc_valid lc svc \<Longrightarrow> svc_ok lc (lc_services lc ! nat svc)"
  by (simp add: lc_inv_def svc_valid_def)

lemma same_lc: "lc\<lparr>lc_reasons := lc_reasons lc @ []\<rparr> = lc"
  by simp

lemma outcome_start:
  assumes "lc_inv lc" and "svc_valid lc svc"
  shows "lc_outcome lc svc Start"
proof (cases "sv_started (lc_services lc ! nat svc)")
  case True
  then have "lc_quiet lc svc Start"
    using assms by (auto simp: lc_quiet_def bb_lifecycle_start_def svc_abs_def Let_def intro: exI [of _ "[]"])
  then show ?thesis by (simp add: lc_outcome_def)
next
  case False
  then have "lc_commits lc svc Start lc ((lc_services lc ! nat svc)\<lparr>sv_started := True\<rparr>) BB_LIFECYCLE_REASON_NONE"
    using assms valid_svc_ok [OF assms]
    by (auto simp: lc_commits_def bb_lifecycle_start_def svc_abs_def svc_ok_def Let_def intro: exI [of _ "[]"])
  then show ?thesis by (auto simp: lc_outcome_def)
qed

lemma outcome_stop:
  assumes "lc_inv lc" and "svc_valid lc svc"
  shows "lc_outcome lc svc Stop"
proof (cases "sv_started (lc_services lc ! nat svc)")
  case False
  then have "lc_quiet lc svc Stop"
    using assms by (auto simp: lc_quiet_def bb_lifecycle_stop_def svc_abs_def Let_def intro: exI [of _ "[]"])
  then show ?thesis by (simp add: lc_outcome_def)
next
  case True
  let ?s = "lc_services lc ! nat svc"
  let ?s' = "?s\<lparr>sv_started := False, sv_inhibits := replicate (length (sv_inhibits ?s)) 0\<rparr>"
  have ok: "svc_ok lc ?s" using valid_svc_ok [OF assms] .
  then have "held_by (lc_reasons lc) (sv_inhibits ?s') = {}" by (simp add: svc_ok_def held_by_def)
  then have "lc_commits lc svc Stop lc ?s' BB_LIFECYCLE_REASON_NONE"
    using assms True ok
    by (auto simp: lc_commits_def bb_lifecycle_stop_def svc_abs_def svc_ok_def Let_def intro: exI [of _ "[]"])
  then show ?thesis by (auto simp: lc_outcome_def)
qed

lemma outcome_assert:
  assumes inv: "lc_inv lc" and valid: "svc_valid lc svc"
  shows "lc_outcome lc svc (Assert r)"
proof (cases "reason_intern_locked lc r")
  case (Pair res lc1)
  let ?s = "lc_services lc ! nat svc"
  show ?thesis
  proof (cases res)
    case (Inl e)
    then show ?thesis
      using Pair intern_full [of lc r e lc1] valid
      by (simp add: lc_outcome_def lc_refused_def bb_lifecycle_pause_assert_def Let_def)
  next
    case (Inr b)
    note i = intern_OK [OF inv Pair [unfolded Inr]]
    obtain extra where lc1: "lc1 = lc\<lparr>lc_reasons := lc_reasons lc @ extra\<rparr>" using i(4) by blast
    have rs1: "lc_reasons lc1 = lc_reasons lc @ extra" by (simp add: lc1)
    note ext = svc_ok_extend [OF valid_svc_ok [OF inv valid] rs1]
    have d: "distinct (lc_reasons lc1)" and fit: "b div 32 < BB_LIFECYCLE_INHIBIT_WORDS"
      using i(1,2) reason_bits_fit [of b] by (auto simp: lc_inv_def)
    have len: "length (sv_inhibits ?s) = BB_LIFECYCLE_INHIBIT_WORDS" using ext(1) by (simp add: svc_ok_def)
    have mem: "reason_key r \<in> held_by (lc_reasons lc) (sv_inhibits ?s) \<longleftrightarrow> word_test (sv_inhibits ?s) BB_LIFECYCLE_INHIBIT_WORDS b"
      unfolding ext(2) [symmetric] using held_by_mem [OF d i(2)] i(3) by simp
    show ?thesis
    proof (cases "word_test (sv_inhibits ?s) BB_LIFECYCLE_INHIBIT_WORDS b")
      case True
      then have "lc_quiet lc svc (Assert r)"
        using valid Pair Inr lc1 i(1) mem
        by (auto simp: lc_quiet_def bb_lifecycle_pause_assert_def svc_abs_def Let_def insert_absorb intro!: exI [of _ extra])
      then show ?thesis by (simp add: lc_outcome_def)
    next
      case False
      let ?s' = "?s\<lparr>sv_inhibits := word_set (sv_inhibits ?s) BB_LIFECYCLE_INHIBIT_WORDS b\<rparr>"
      have held: "held_by (lc_reasons lc1) (sv_inhibits ?s') = insert (reason_key r) (held_by (lc_reasons lc) (sv_inhibits ?s))"
        using held_by_set [OF i(2) len fit] i(3) ext(2) by simp
      have ok': "svc_ok lc1 ?s'" using ext(1) i(2) fit by (auto simp: svc_ok_def word_test_set)
      have "lc_apply lc svc (Assert r) = commit_notify lc1 svc ?s' (effective ?s) b"
        using valid Pair Inr False by (simp add: bb_lifecycle_pause_assert_def Let_def)
      then have "lc_commits lc svc (Assert r) lc1 ?s' b"
        unfolding lc_commits_def Let_def using i(1,4) ok' held False mem by (auto simp: svc_abs_def Let_def)
      then show ?thesis by (auto simp: lc_outcome_def)
    qed
  qed
qed

lemma outcome_clear:
  assumes inv: "lc_inv lc" and valid: "svc_valid lc svc"
  shows "lc_outcome lc svc (Clear r)"
proof (cases "reason_lookup_locked lc (reason_key r)")
  case None
  then have "reason_key r \<notin> held_by (lc_reasons lc) (sv_inhibits (lc_services lc ! nat svc))"
    by (auto simp: reason_lookup_None held_by_def)
  then have "lc_quiet lc svc (Clear r)"
    using inv valid None
    by (auto simp: lc_quiet_def bb_lifecycle_pause_clear_def svc_abs_def Let_def reason_key_def intro!: exI [of _ "[]"])
  then show ?thesis by (simp add: lc_outcome_def)
next
  case (Some b)
  let ?s = "lc_services lc ! nat svc"
  note l = reason_lookup_SomeD [OF inv Some]
  have d: "distinct (lc_reasons lc)" and fit: "b div 32 < BB_LIFECYCLE_INHIBIT_WORDS"
    using inv l(1) reason_bits_fit [of b] by (auto simp: lc_inv_def)
  have ok: "svc_ok lc ?s" using valid_svc_ok [OF inv valid] .
  then have len: "length (sv_inhibits ?s) = BB_LIFECYCLE_INHIBIT_WORDS" by (simp add: svc_ok_def)
  have mem: "reason_key r \<in> held_by (lc_reasons lc) (sv_inhibits ?s) \<longleftrightarrow> word_test (sv_inhibits ?s) BB_LIFECYCLE_INHIBIT_WORDS b"
    using held_by_mem [OF d l(1)] l(2) by simp
  show ?thesis
  proof (cases "word_test (sv_inhibits ?s) BB_LIFECYCLE_INHIBIT_WORDS b")
    case False
    then have "lc_quiet lc svc (Clear r)"
      using inv valid Some mem
      by (auto simp: lc_quiet_def bb_lifecycle_pause_clear_def svc_abs_def Let_def reason_key_def intro!: exI [of _ "[]"])
    then show ?thesis by (simp add: lc_outcome_def)
  next
    case True
    let ?s' = "?s\<lparr>sv_inhibits := word_clear (sv_inhibits ?s) BB_LIFECYCLE_INHIBIT_WORDS b\<rparr>"
    have held: "held_by (lc_reasons lc) (sv_inhibits ?s') = held_by (lc_reasons lc) (sv_inhibits ?s) - {reason_key r}"
      using held_by_clear [OF d l(1) len fit] l(2) by simp
    have ok': "svc_ok lc ?s'" using ok fit by (auto simp: svc_ok_def word_test_clear)
    have "lc_apply lc svc (Clear r) = commit_notify lc svc ?s' (effective ?s) b"
      using valid Some True by (simp add: bb_lifecycle_pause_clear_def Let_def reason_key_def)
    moreover have "\<exists>extra. lc = lc\<lparr>lc_reasons := lc_reasons lc @ extra\<rparr>" by (rule exI [of _ "[]"]) simp
    ultimately have "lc_commits lc svc (Clear r) lc ?s' b"
      unfolding lc_commits_def Let_def using inv ok' held True mem by (auto simp: svc_abs_def Let_def)
    then show ?thesis by (auto simp: lc_outcome_def)
  qed
qed

lemma lc_apply_outcome: "lc_inv lc \<Longrightarrow> svc_valid lc svc \<Longrightarrow> lc_outcome lc svc opr"
  by (cases opr) (simp_all add: outcome_start outcome_stop outcome_assert outcome_clear)

lemma commit_notify_spec:
  assumes inv: "lc_inv lc1" and valid: "svc_valid lc1 svc" and ok: "svc_ok lc1 s'"
    and name: "sv_name s' = sv_name (lc_services lc1 ! nat svc)"
  obtains lc' evt where "commit_notify lc1 svc s' old_eff b = (BB_OK, lc', notify_all lc' evt)"
    and "lc' = lc1\<lparr>lc_services := (lc_services lc1)[nat svc := s'\<lparr>sv_version := sv_version s' + 1\<rparr>]\<rparr>"
    and "lc_inv lc'" and "svc_valid lc' svc"
    and "svc_abs lc' svc = (sv_started s', held_by (lc_reasons lc1) (sv_inhibits s'))"
    and "evt = \<lparr>ev_svc = svc, ev_inhibits = sv_inhibits s' ! 0, ev_version = bb_lifecycle_version lc' svc,
            ev_old_state = old_eff, ev_new_state = bb_lifecycle_state lc' BB_OK svc, ev_reason = b\<rparr>"
    and "bb_lifecycle_version lc' svc = sv_version s' + 1"
proof -
  let ?s2 = "s'\<lparr>sv_version := sv_version s' + 1\<rparr>"
  let ?lc' = "lc1\<lparr>lc_services := (lc_services lc1)[nat svc := ?s2]\<rparr>"
  let ?evt = "\<lparr>ev_svc = svc, ev_inhibits = sv_inhibits s' ! 0, ev_version = sv_version s' + 1,
            ev_old_state = old_eff, ev_new_state = effective s', ev_reason = b\<rparr>"
  have i: "nat svc < length (lc_services lc1)" "0 \<le> svc" using valid by (auto simp: svc_valid_def)
  have names: "map sv_name ((lc_services lc1)[nat svc := ?s2]) = map sv_name (lc_services lc1)"
    using i name by (simp add: map_update) (metis list_update_id map_update nth_map)
  have ok2: "svc_ok lc' s = svc_ok lc1 s" if "lc_reasons lc' = lc_reasons lc1" for lc' s
    using that by (simp add: svc_ok_def)
  have "svc_ok lc1 ?s2" using ok by (simp add: svc_ok_def)
  then have "\<forall>s\<in>set ((lc_services lc1)[nat svc := ?s2]). svc_ok lc1 s"
    using inv by (auto simp: lc_inv_def dest!: set_update_subset_insert [THEN subsetD])
  then have inv': "lc_inv ?lc'"
    using inv names ok2 [of ?lc'] by (simp add: lc_inv_def)
  have st: "bb_lifecycle_state ?lc' BB_OK svc = effective s'" "bb_lifecycle_version ?lc' svc = sv_version s' + 1"
    "svc_valid ?lc' svc" "svc_abs ?lc' svc = (sv_started s', held_by (lc_reasons lc1) (sv_inhibits s'))"
    using i by (auto simp: bb_lifecycle_state_def bb_lifecycle_version_def svc_valid_def svc_abs_def effective_def Let_def)
  have c: "commit_notify lc1 svc s' old_eff b = (BB_OK, ?lc', notify_all ?lc' ?evt)"
    by (simp add: commit_notify_def commit_and_snapshot_def effective_def Let_def)
  show thesis by (rule that [OF c refl inv' st(3,4)]) (use st in simp_all)
qed

text \<open>Another service's view is untouched by a commit.\<close>

lemma svc_abs_other:
  assumes inv: "lc_inv lc" and o: "svc_valid lc other"
    and lc1: "lc1 = lc\<lparr>lc_reasons := lc_reasons lc @ extra\<rparr>"
    and same: "lc_reasons lc' = lc_reasons lc1" "lc_services lc' ! nat other = lc_services lc ! nat other"
  shows "svc_abs lc' other = svc_abs lc other"
  using svc_ok_extend(2) [OF valid_svc_ok [OF inv o], of lc1 extra] lc1 same by (simp add: svc_abs_def Let_def)

section \<open>Histories\<close>

text \<open>Every call that can change the component, with any arguments and any lock outcome.\<close>

inductive lc_step :: "lifecycle \<Rightarrow> lifecycle \<Rightarrow> bool" where
  step_register: "bb_lifecycle_register lc rc nm og = (e, lc', h) \<Longrightarrow> lc_step lc lc'"
| step_start: "bb_lifecycle_start lc rc svc = (e, lc', out) \<Longrightarrow> lc_step lc lc'"
| step_stop: "bb_lifecycle_stop lc rc svc = (e, lc', out) \<Longrightarrow> lc_step lc lc'"
| step_assert: "bb_lifecycle_pause_assert lc rc svc r = (e, lc', out) \<Longrightarrow> lc_step lc lc'"
| step_clear: "bb_lifecycle_pause_clear lc rc svc r = (e, lc', out) \<Longrightarrow> lc_step lc lc'"
| step_observe: "bb_lifecycle_priv_observe_slot lc rc cb user asy = (e, lc') \<Longrightarrow> lc_step lc lc'"
| step_set_emit: "lc_step lc (bb_lifecycle_set_emit lc sink)"
| step_emit: "bb_lifecycle_emit_trampoline (ctx :: nat bb_lifecycle_binding_t option) lc rc evid payload sz = (lc', out) \<Longrightarrow> lc_step lc lc'"

text \<open>Tables only grow: names keep their handles and reasons their bits.\<close>

definition lc_extends :: "lifecycle \<Rightarrow> lifecycle \<Rightarrow> bool" where
  "lc_extends lc lc' \<longleftrightarrow> (\<exists>ns rs os. map sv_name (lc_services lc') = map sv_name (lc_services lc) @ ns \<and>
     lc_reasons lc' = lc_reasons lc @ rs \<and> lc_observers lc' = lc_observers lc @ os)"

lemma lc_extends_refl [simp]: "lc_extends lc lc"
  by (simp add: lc_extends_def)

lemma lc_extends_trans: "lc_extends a b \<Longrightarrow> lc_extends b c \<Longrightarrow> lc_extends a c"
  by (auto simp: lc_extends_def)

lemma lc_apply_extends:
  assumes inv: "lc_inv lc" and valid: "svc_valid lc svc" and app: "lc_apply lc svc opr = (e, lc', out)"
  shows "lc_inv lc' \<and> lc_extends lc lc'"
proof -
  consider "lc_quiet lc svc opr" | "lc_refused lc svc opr" | lc1 s' b where "lc_commits lc svc opr lc1 s' b"
    using lc_apply_outcome [OF inv valid, of opr] by (auto simp: lc_outcome_def)
  then show ?thesis
  proof cases
    case 1
    then show ?thesis using app by (auto simp: lc_quiet_def lc_extends_def)
  next
    case 2
    then show ?thesis using app inv by (auto simp: lc_refused_def)
  next
    case 3
    obtain extra where lc1: "lc1 = lc\<lparr>lc_reasons := lc_reasons lc @ extra\<rparr>" using 3 by (auto simp: lc_commits_def Let_def)
    have valid1: "svc_valid lc1 svc" using valid by (simp add: lc1 svc_valid_def)
    have inv1: "lc_inv lc1" and ok: "svc_ok lc1 s'" and name: "sv_name s' = sv_name (lc_services lc1 ! nat svc)"
      using 3 by (auto simp: lc_commits_def Let_def lc1)
    obtain lc2 evt where "commit_notify lc1 svc s' (effective (lc_services lc ! nat svc)) b = (BB_OK, lc2, notify_all lc2 evt)"
      and lc2: "lc2 = lc1\<lparr>lc_services := (lc_services lc1)[nat svc := s'\<lparr>sv_version := sv_version s' + 1\<rparr>]\<rparr>" "lc_inv lc2"
      by (rule commit_notify_spec [OF inv1 valid1 ok name])
    then have "lc' = lc2" using app 3 by (auto simp: lc_commits_def Let_def)
    moreover have "map sv_name (lc_services lc2) = map sv_name (lc_services lc)"
      using valid name by (simp add: lc2(1) lc1 svc_valid_def map_update) (metis list_update_id map_update nth_map)
    ultimately show ?thesis using lc2 by (auto simp: lc_extends_def lc1)
  qed
qed

lemma mutator_extends:
  assumes inv: "lc_inv lc"
  shows "bb_lifecycle_start lc rc svc = (e, lc', out) \<Longrightarrow> lc_inv lc' \<and> lc_extends lc lc'"
    "bb_lifecycle_stop lc rc svc = (e, lc', out) \<Longrightarrow> lc_inv lc' \<and> lc_extends lc lc'"
    "bb_lifecycle_pause_assert lc rc svc r = (e, lc', out) \<Longrightarrow> lc_inv lc' \<and> lc_extends lc lc'"
    "bb_lifecycle_pause_clear lc rc svc r = (e, lc', out) \<Longrightarrow> lc_inv lc' \<and> lc_extends lc lc'"
proof -
  have *: "lc_inv lc' \<and> lc_extends lc lc'"
    if "rc \<noteq> BB_OK \<or> \<not> svc_valid lc svc \<Longrightarrow> lc' = lc" "rc = BB_OK \<Longrightarrow> lc_apply lc svc opr = (e, lc', out)" for opr
    using that lc_apply_extends [OF inv, of svc opr e lc' out] inv by (cases "rc = BB_OK \<and> svc_valid lc svc") auto
  show "bb_lifecycle_start lc rc svc = (e, lc', out) \<Longrightarrow> lc_inv lc' \<and> lc_extends lc lc'"
    by (rule * [of Start]) (auto simp: bb_lifecycle_start_def split: if_splits)
  show "bb_lifecycle_stop lc rc svc = (e, lc', out) \<Longrightarrow> lc_inv lc' \<and> lc_extends lc lc'"
    by (rule * [of Stop]) (auto simp: bb_lifecycle_stop_def split: if_splits)
  show "bb_lifecycle_pause_assert lc rc svc r = (e, lc', out) \<Longrightarrow> lc_inv lc' \<and> lc_extends lc lc'"
  proof (cases r)
    case (Some r')
    then show "bb_lifecycle_pause_assert lc rc svc r = (e, lc', out) \<Longrightarrow> lc_inv lc' \<and> lc_extends lc lc'"
      by (intro * [of "Assert r'"]) (auto simp: bb_lifecycle_pause_assert_def split: if_splits)
  qed (use inv in \<open>simp add: bb_lifecycle_pause_assert_def\<close>)
  show "bb_lifecycle_pause_clear lc rc svc r = (e, lc', out) \<Longrightarrow> lc_inv lc' \<and> lc_extends lc lc'"
  proof (cases r)
    case (Some r')
    then show "bb_lifecycle_pause_clear lc rc svc r = (e, lc', out) \<Longrightarrow> lc_inv lc' \<and> lc_extends lc lc'"
      by (intro * [of "Clear r'"]) (auto simp: bb_lifecycle_pause_clear_def split: if_splits)
  qed (use inv in \<open>simp add: bb_lifecycle_pause_clear_def\<close>)
qed

lemma register_extends:
  assumes inv: "lc_inv lc" and reg: "bb_lifecycle_register lc rc nm og = (e, lc', h)"
  shows "lc_inv lc' \<and> lc_extends lc lc'"
proof (cases "e = BB_OK")
  case False
  then have "lc' = lc" using reg by (auto simp: bb_lifecycle_register_def Let_def split: option.splits if_splits)
  then show ?thesis using inv by simp
next
  case True
  show ?thesis
  proof (cases "lc' = lc")
    case changed: False
    let ?key = "copy_truncated CONFIG_BB_LIFECYCLE_NAME_MAX (the nm)"
    let ?s = "\<lparr>sv_name = ?key, sv_started = False, sv_inhibits = replicate BB_LIFECYCLE_INHIBIT_WORDS 0, sv_version = 0\<rparr>"
    have key: "copy_truncated CONFIG_BB_LIFECYCLE_NAME_MAX ?key = ?key" "length ?key < CONFIG_BB_LIFECYCLE_NAME_MAX"
      by (simp_all add: copy_truncated_def CONFIG_BB_LIFECYCLE_NAME_MAX_def)
    have lc': "lc' = lc\<lparr>lc_services := lc_services lc @ [?s]\<rparr>"
      and lt: "length (lc_services lc) < CONFIG_BB_LIFECYCLE_MAX_SERVICES"
      and fresh: "?key \<notin> sv_name ` set (lc_services lc)"
      using reg True changed key(1)
      by (auto simp: bb_lifecycle_register_def Let_def find_idx_None split: option.splits if_splits)
    have "svc_ok lc ?s" using key(2) by (simp add: svc_ok_def)
    then have "\<forall>s\<in>set (lc_services lc'). svc_ok lc' s" using inv by (auto simp: lc' lc_inv_def svc_ok_def)
    then show ?thesis using inv lt fresh by (auto simp: lc' lc_inv_def lc_extends_def)
  qed (use inv in simp)
qed

lemma lc_step_extends:
  assumes "lc_step lc lc'" and inv: "lc_inv lc"
  shows "lc_inv lc' \<and> lc_extends lc lc'"
  using assms(1)
proof cases
  case (step_observe rc cb user asy e)
  show ?thesis
  proof (cases "lc' = lc")
    case False
    then obtain ob where "lc' = lc\<lparr>lc_observers := lc_observers lc @ [ob]\<rparr>"
      "length (lc_observers lc) < CONFIG_BB_LIFECYCLE_MAX_OBSERVERS"
      using step_observe by (auto simp: bb_lifecycle_priv_observe_slot_def split: option.splits if_splits)
    then show ?thesis using inv by (auto simp: lc_inv_def lc_extends_def svc_ok_def)
  qed (use inv in simp)
next
  case (step_set_emit sink)
  then show ?thesis using inv by (auto simp: bb_lifecycle_set_emit_def lc_inv_def lc_extends_def svc_ok_def)
next
  case (step_emit ctx rc evid payload sz out)
  then consider "lc' = lc" | svc where "snd (bb_lifecycle_start lc rc svc) = (lc', out)" | svc where "snd (bb_lifecycle_stop lc rc svc) = (lc', out)"
    by (auto simp: bb_lifecycle_emit_trampoline_def split: option.splits bb_lifecycle_action_t.splits)
  then show ?thesis using inv mutator_extends(1,2) [OF inv] by cases (simp, (metis prod.collapse snd_conv)+)
qed (erule register_extends [OF inv] mutator_extends [OF inv])+

lemma lc_steps_extends: "lc_step\<^sup>*\<^sup>* lc lc' \<Longrightarrow> lc_inv lc \<Longrightarrow> lc_inv lc' \<and> lc_extends lc lc'"
proof (induction rule: rtranclp_induct)
  case (step y z)
  then show ?case using lc_step_extends [of y z] lc_extends_trans [of lc y z] by blast
qed simp

definition lc_empty :: lifecycle where
  "lc_empty = \<lparr>lc_services = [], lc_reasons = [], lc_observers = [], lc_emit = None\<rparr>"

lemma lc_empty_inv: "lc_inv lc_empty"
  by (simp add: lc_inv_def lc_empty_def)

lemma find_name_prefix:
  assumes "distinct (map sv_name ss)" and "k < length ss" and "map sv_name ss' = map sv_name ss @ ns"
  shows "find_idx (\<lambda>s. sv_name s = sv_name (ss ! k)) ss' = Some k"
proof -
  have nth: "sv_name (ss' ! j) = sv_name (ss ! j)" "j < length ss'" if "j < length ss" for j
    using that assms(3) by (metis length_append length_map nth_append nth_map trans_less_add1, metis length_append length_map trans_less_add1)
  show ?thesis unfolding find_idx_Some
    using assms(1,2) nth by (auto simp: distinct_conv_nth)
qed

section \<open>Properties\<close>

text \<open>C10: the bit sets and tables implement the plain view of a service, a started flag and
  the set of reasons that hold it. On a valid handle every mutator that reports success
  changes that view as specified (start, stop with the reasons dropped, add a reason, remove a
  reason, names compared after truncation) and no other service's; the only refusal is a new
  reason with the intern table full, and then nothing changes. The reported state is STOPPED when
  not started, PAUSED when some reason holds, else RUNNING.\<close>

theorem lifecycle_refines_spec:
  assumes inv: "lc_inv lc" and valid: "svc_valid lc svc" and app: "lc_apply lc svc opr = (e, lc', out)"
  shows "lc_inv lc' \<and> svc_valid lc' svc \<and>
    (e = BB_OK \<and> svc_abs lc' svc = spec_apply opr (svc_abs lc svc) \<or>
     e = BB_ERR_NO_SPACE \<and> lc' = lc \<and> (\<exists>r. opr = Assert r \<and> reason_key r \<notin> set (lc_reasons lc)) \<and>
       CONFIG_BB_LIFECYCLE_MAX_REASONS \<le> length (lc_reasons lc)) \<and>
    (\<forall>other. svc_valid lc other \<and> other \<noteq> svc \<longrightarrow> svc_abs lc' other = svc_abs lc other) \<and>
    bb_lifecycle_state lc' BB_OK svc = spec_state (svc_abs lc' svc)"
proof -
  consider "lc_quiet lc svc opr" | "lc_refused lc svc opr" | lc1 s' b where "lc_commits lc svc opr lc1 s' b"
    using lc_apply_outcome [OF inv valid, of opr] by (auto simp: lc_outcome_def)
  then show ?thesis
  proof cases
    case 1
    then obtain extra where lc': "lc' = lc\<lparr>lc_reasons := lc_reasons lc @ extra\<rparr>" and e: "e = BB_OK" and inv': "lc_inv lc'"
      and same: "spec_apply opr (svc_abs lc svc) = svc_abs lc svc" using app by (auto simp: lc_quiet_def)
    have "svc_abs lc' o' = svc_abs lc o'" if "svc_valid lc o'" for o'
      by (rule svc_abs_other [OF inv that lc']) (simp_all add: lc')
    moreover have "svc_valid lc' svc" using valid by (simp add: lc' svc_valid_def)
    ultimately show ?thesis using e inv' same valid state_abs [of lc' svc] by auto
  next
    case 2
    then show ?thesis using app inv valid state_abs [OF inv valid] by (auto simp: lc_refused_def)
  next
    case 3
    let ?s = "lc_services lc ! nat svc"
    obtain extra where lc1: "lc1 = lc\<lparr>lc_reasons := lc_reasons lc @ extra\<rparr>" using 3 by (auto simp: lc_commits_def Let_def)
    have valid1: "svc_valid lc1 svc" using valid by (simp add: lc1 svc_valid_def)
    have inv1: "lc_inv lc1" and ok: "svc_ok lc1 s'" and name: "sv_name s' = sv_name (lc_services lc1 ! nat svc)"
      using 3 by (auto simp: lc_commits_def Let_def lc1)
    obtain lc2 evt where c: "commit_notify lc1 svc s' (effective ?s) b = (BB_OK, lc2, notify_all lc2 evt)"
      and lc2: "lc2 = lc1\<lparr>lc_services := (lc_services lc1)[nat svc := s'\<lparr>sv_version := sv_version s' + 1\<rparr>]\<rparr>"
      and inv2: "lc_inv lc2" "svc_valid lc2 svc" and abs2: "svc_abs lc2 svc = (sv_started s', held_by (lc_reasons lc1) (sv_inhibits s'))"
      by (rule commit_notify_spec [OF inv1 valid1 ok name])
    have l: "lc' = lc2" "e = BB_OK" using app c 3 by (auto simp: lc_commits_def Let_def)
    have "svc_abs lc2 o' = svc_abs lc o'" if "svc_valid lc o'" "o' \<noteq> svc" for o'
      by (rule svc_abs_other [OF inv that(1) lc1]) (use that valid in \<open>auto simp: lc2 lc1 svc_valid_def\<close>)
    moreover have "svc_abs lc2 svc = spec_apply opr (svc_abs lc svc)" using abs2 3 by (simp add: lc_commits_def Let_def)
    ultimately show ?thesis using l inv2 state_abs [OF inv2] by auto
  qed
qed

definition lc_demo :: lifecycle where
  "lc_demo = \<lparr>lc_services =
      [\<lparr>sv_name = ''net'', sv_started = True, sv_inhibits = [2], sv_version = 5\<rparr>,
       \<lparr>sv_name = ''fan'', sv_started = False, sv_inhibits = [0], sv_version = 0\<rparr>],
     lc_reasons = [''ota'', ''heat''], lc_observers =
      [\<lparr>ob_cb = 3, ob_user = 0, ob_async = False\<rparr>, \<lparr>ob_cb = 4, ob_user = 0, ob_async = True\<rparr>], lc_emit = Some 7\<rparr>"

lemma lc_words: "BB_LIFECYCLE_INHIBIT_WORDS = 1"
  by (simp add: BB_LIFECYCLE_INHIBIT_WORDS_def CONFIG_BB_LIFECYCLE_MAX_REASONS_def)

lemma lc_demo_bits: "word_test [2] BB_LIFECYCLE_INHIBIT_WORDS b \<longleftrightarrow> b = 1" "\<not> word_test [0] BB_LIFECYCLE_INHIBIT_WORDS b"
proof -
  have "b div 32 < 1 \<Longrightarrow> b mod 32 = b" by simp
  then show "word_test [2] BB_LIFECYCLE_INHIBIT_WORDS b \<longleftrightarrow> b = 1" "\<not> word_test [0] BB_LIFECYCLE_INHIBIT_WORDS b"
    unfolding word_test_bit lc_words by (auto simp: bit_2_iff)
qed

lemma lc_demo_inv: "lc_inv lc_demo" "svc_valid lc_demo 0" "svc_valid lc_demo 1"
proof -
  have "\<forall>s\<in>set (lc_services lc_demo). svc_ok lc_demo s"
    unfolding svc_ok_def by (simp add: lc_demo_def lc_demo_bits CONFIG_BB_LIFECYCLE_NAME_MAX_def) (simp add: lc_words)
  then show "lc_inv lc_demo" "svc_valid lc_demo 0" "svc_valid lc_demo 1"
    by (simp_all add: lc_inv_def) (simp_all add: lc_demo_def svc_valid_def CONFIG_BB_LIFECYCLE_MAX_SERVICES_def
      CONFIG_BB_LIFECYCLE_MAX_REASONS_def CONFIG_BB_LIFECYCLE_MAX_OBSERVERS_def CONFIG_BB_LIFECYCLE_REASON_MAX_def)
qed

lemma lc_demo_abs: "svc_abs lc_demo 0 = (True, {''heat''})" "svc_abs lc_demo 1 = (False, {})"
  by (auto simp: svc_abs_def lc_demo_def held_by_def lc_demo_bits Let_def)

theorem lifecycle_refines_spec_witness:
  "\<exists>lc' out. lc_apply lc_demo 0 (Clear ''heat'') = (BB_OK, lc', out) \<and>
     bb_lifecycle_state lc_demo BB_OK 0 = BB_LIFECYCLE_PAUSED \<and> bb_lifecycle_state lc' BB_OK 0 = BB_LIFECYCLE_RUNNING \<and>
     svc_abs lc' 1 = (False, {})"
proof -
  obtain e lc' out where r: "lc_apply lc_demo 0 (Clear ''heat'') = (e, lc', out)" by (metis prod_cases3)
  have key: "reason_key ''heat'' = ''heat''"
    by (simp add: reason_key_def copy_truncated_def CONFIG_BB_LIFECYCLE_REASON_MAX_def)
  have "bb_lifecycle_state lc_demo BB_OK 0 = BB_LIFECYCLE_PAUSED"
    using state_abs [OF lc_demo_inv(1,2)] by (simp add: lc_demo_abs)
  then show ?thesis
    using lifecycle_refines_spec [OF lc_demo_inv(1,2) r] r lc_demo_inv(3) by (auto simp: lc_demo_abs key)
qed



text \<open>Handles and bits are stable. Starting from the zeroed tables and whatever calls are made, in
  any order, the tables stay within their capacities with no name and no reason twice; a
  registration that succeeded returned a handle under which the service is found, by its
  truncated name, ever after, and a reason that has a bit keeps it.\<close>

theorem lifecycle_handles_are_stable:
  assumes before: "lc_step\<^sup>*\<^sup>* lc_empty lc" and reg: "bb_lifecycle_register lc BB_OK (Some nm) True = (BB_OK, lc1, Some h)"
    and after: "lc_step\<^sup>*\<^sup>* lc1 lc2"
  shows "bb_lifecycle_find lc2 BB_OK (Some nm) True = (BB_OK, Some h) \<and>
    bb_lifecycle_name lc2 BB_OK h = take 23 nm \<and>
    bb_lifecycle_count lc2 \<le> CONFIG_BB_LIFECYCLE_MAX_SERVICES \<and> distinct (map sv_name (lc_services lc2)) \<and>
    length (lc_reasons lc2) \<le> CONFIG_BB_LIFECYCLE_MAX_REASONS \<and> distinct (lc_reasons lc2) \<and>
    (\<forall>b<length (lc_reasons lc1). bb_lifecycle_reason_name lc2 BB_OK b = bb_lifecycle_reason_name lc1 BB_OK b)"
proof -
  let ?key = "copy_truncated CONFIG_BB_LIFECYCLE_NAME_MAX nm"
  have key: "copy_truncated CONFIG_BB_LIFECYCLE_NAME_MAX ?key = ?key" "?key = take 23 nm"
    by (simp_all add: copy_truncated_def CONFIG_BB_LIFECYCLE_NAME_MAX_def)
  have inv: "lc_inv lc" using lc_steps_extends [OF before lc_empty_inv] ..
  have inv1: "lc_inv lc1" using register_extends [OF inv reg] ..
  have inv2: "lc_inv lc2" and ext: "lc_extends lc1 lc2" using lc_steps_extends [OF after inv1] by auto
  define k where "k = length (lc_services lc)"
  have k: "k < length (lc_services lc1)" "sv_name (lc_services lc1 ! k) = ?key" "h = int k"
    using reg key(1) by (auto simp: bb_lifecycle_register_def k_def Let_def split: if_splits)
  obtain ns rs where ns: "map sv_name (lc_services lc2) = map sv_name (lc_services lc1) @ ns" "lc_reasons lc2 = lc_reasons lc1 @ rs"
    using ext by (auto simp: lc_extends_def)
  have f: "find_idx (\<lambda>s. sv_name s = ?key) (lc_services lc2) = Some k"
    using find_name_prefix [OF _ k(1) ns(1)] k(2) inv1 by (simp add: lc_inv_def)
  have "bb_lifecycle_find lc2 BB_OK (Some nm) True = (BB_OK, Some h)" using f k(3) by (simp add: bb_lifecycle_find_def Let_def)
  moreover have "bb_lifecycle_name lc2 BB_OK h = take 23 nm"
    using find_idx_SomeD [OF f] k(3) key(2) by (simp add: bb_lifecycle_name_def svc_valid_def)
  moreover have "\<forall>b<length (lc_reasons lc1). bb_lifecycle_reason_name lc2 BB_OK b = bb_lifecycle_reason_name lc1 BB_OK b"
    using ns(2) by (auto simp: bb_lifecycle_reason_name_def nth_append)
  ultimately show ?thesis using inv2 by (simp add: lc_inv_def bb_lifecycle_count_def)
qed

theorem lifecycle_handles_are_stable_witness:
  "\<exists>lc1 lc2 out. bb_lifecycle_register lc_empty BB_OK (Some ''net'') True = (BB_OK, lc1, Some 0) \<and>
     bb_lifecycle_start lc1 BB_OK 0 = (BB_OK, lc2, out) \<and> bb_lifecycle_find lc2 BB_OK (Some ''net'') True = (BB_OK, Some 0)"
proof -
  obtain lc1 where r: "bb_lifecycle_register lc_empty BB_OK (Some ''net'') True = (BB_OK, lc1, Some 0)"
    by (simp add: bb_lifecycle_register_def lc_empty_def CONFIG_BB_LIFECYCLE_MAX_SERVICES_def Let_def)
  obtain lc2 out where s: "bb_lifecycle_start lc1 BB_OK 0 = (BB_OK, lc2, out)"
    using r by (auto simp: bb_lifecycle_register_def lc_empty_def Let_def bb_lifecycle_start_def svc_valid_def
        commit_notify_def commit_and_snapshot_def split: if_splits)
  have "lc_step\<^sup>*\<^sup>* lc1 lc2" using step_start [OF s] by blast
  then show ?thesis using lifecycle_handles_are_stable [OF rtranclp.rtrancl_refl r] r s by blast
qed

end
