(* ===== verification/BB_Lifecycle_Async.thy ===== *)
theory BB_Lifecycle_Async
  imports BB_Lifecycle BB_Bqueue
begin

text \<open>
  Asynchronous observers of \<^verbatim>\<open>bb_lifecycle\<close> (\<^verbatim>\<open>components/bb_lifecycle/bb_lifecycle_async.c\<close>): the shared
  blocking queue and drain task, created lazily and retried after a failure, the non-blocking
  enqueue of an event with its rate-limited drop report, and the drain step that hands an event to the
  asynchronous observers. The queue is a \<^verbatim>\<open>bb_bqueue\<close> instance of its static pool and carries
  the bytes of the event structure. The outcome of \<^verbatim>\<open>bb_task_create\<close> is an argument.
\<close>

unbundle bit_operations_syntax

section \<open>The event structure in memory\<close>

definition u32_bytes :: "u32 \<Rightarrow> u8 list" where
  "u32_bytes w = [ucast w, ucast (drop_bit 8 w), ucast (drop_bit 16 w), ucast (drop_bit 24 w)]"

definition bytes_u32 :: "u8 list \<Rightarrow> u32" where
  "bytes_u32 bs = ucast (bs ! 0) OR push_bit 8 (ucast (bs ! 1)) OR push_bit 16 (ucast (bs ! 2)) OR push_bit 24 (ucast (bs ! 3))"

fun state_byte :: "bb_lifecycle_state_t \<Rightarrow> u8" where
  "state_byte BB_LIFECYCLE_STOPPED = 0"
| "state_byte BB_LIFECYCLE_PAUSED = 1"
| "state_byte BB_LIFECYCLE_RUNNING = 2"

definition byte_state :: "u8 \<Rightarrow> bb_lifecycle_state_t" where
  "byte_state b = (if b = 0 then BB_LIFECYCLE_STOPPED else if b = 1 then BB_LIFECYCLE_PAUSED else BB_LIFECYCLE_RUNNING)"

definition EVENT_BYTES :: nat where "EVENT_BYTES = 16"

definition event_bytes :: "bb_lifecycle_event_t \<Rightarrow> u8 list" where
  "event_bytes e = u32_bytes (word_of_int (ev_svc e)) @ u32_bytes (ev_inhibits e) @ u32_bytes (ev_version e) @
     [state_byte (ev_old_state e), state_byte (ev_new_state e), of_nat (ev_reason e), 0]"


section \<open>State and operations\<close>

definition CONFIG_BB_LIFECYCLE_ASYNC_QUEUE_DEPTH :: nat where "CONFIG_BB_LIFECYCLE_ASYNC_QUEUE_DEPTH = 8"

record lc_async =
  as_pool :: bq_pool
  as_ready :: bool
  as_q :: bb_bqueue_t
  as_init_err :: bb_err_t
  as_drop_log_last_ms :: int

definition async_init :: "lc_async \<Rightarrow> bb_err_t \<Rightarrow> lc_async" where
  "async_init a task_rc =
     (case bb_bqueue_create (as_pool a)
             (Some \<lparr>bqc_capacity = CONFIG_BB_LIFECYCLE_ASYNC_QUEUE_DEPTH, bqc_item_bytes = EVENT_BYTES\<rparr>) True of
        (err, q, pool') \<Rightarrow>
          if err \<noteq> BB_OK then a\<lparr>as_init_err := err\<rparr>
          else (let a1 = a\<lparr>as_pool := pool', as_q := q\<rparr> in
            if task_rc \<noteq> BB_OK
            then a1\<lparr>as_pool := bb_bqueue_destroy (as_pool a1) (as_q a1), as_q := None, as_init_err := task_rc\<rparr>
            else a1\<lparr>as_init_err := BB_OK\<rparr>))"

definition ensure_async_started :: "lc_async \<Rightarrow> bb_err_t \<Rightarrow> bb_err_t \<Rightarrow> bb_err_t \<times> lc_async" where
  "ensure_async_started a lock_rc task_rc =
     (if lock_rc \<noteq> BB_OK then (lock_rc, a)
      else if as_ready a then (BB_OK, a)
      else (let a1 = async_init a task_rc; err = as_init_err a1
            in (err, if err = BB_OK then a1\<lparr>as_ready := True\<rparr> else a1)))"

definition bb_lifecycle_observe_async ::
  "lifecycle \<Rightarrow> lc_async \<Rightarrow> bb_err_t \<Rightarrow> bb_err_t \<Rightarrow> bb_err_t \<Rightarrow> nat option \<Rightarrow> nat \<Rightarrow> bb_err_t \<times> lifecycle \<times> lc_async"
where
  "bb_lifecycle_observe_async lc a async_lock_rc task_rc lock_rc cb user =
     (if cb = None then (BB_ERR_INVALID_ARG, lc, a)
      else (case ensure_async_started a async_lock_rc task_rc of
              (err, a1) \<Rightarrow>
                if err \<noteq> BB_OK then (err, lc, a1)
                else (case bb_lifecycle_priv_observe_slot lc lock_rc cb user True of (e, lc') \<Rightarrow> (e, lc', a1))))"

text \<open>The handle resolved in the pool, and the pool with a changed instance.\<close>

definition q_inst :: "lc_async \<Rightarrow> bb_bqueue_inst_t option" where
  "q_inst a = map_option ((!) (as_pool a)) (inst_from_handle (as_pool a) (as_q a))"




section \<open>Round trip of the event bytes\<close>

lemma length_u32_bytes [simp]: "length (u32_bytes w) = 4"
  by (simp add: u32_bytes_def)

lemma length_event_bytes [simp]: "length (event_bytes e) = EVENT_BYTES"
  by (simp add: event_bytes_def EVENT_BYTES_def)

lemma bytes_u32_bytes [simp]: "bytes_u32 (u32_bytes w) = w"
proof (rule bit_eqI)
  fix n
  assume "possible_bit TYPE(32 word) n"
  then have n: "n < 32" by simp
  have "bit (bytes_u32 (u32_bytes w)) n \<longleftrightarrow>
      (n < 8 \<and> bit w n) \<or> (8 \<le> n \<and> n < 16 \<and> bit w n) \<or> (16 \<le> n \<and> n < 24 \<and> bit w n) \<or> (24 \<le> n \<and> bit w n)"
    using n by (auto simp: bytes_u32_def u32_bytes_def bit_or_iff bit_push_bit_iff bit_ucast_iff bit_drop_bit_eq)
  then show "bit (bytes_u32 (u32_bytes w)) n \<longleftrightarrow> bit w n" by auto
qed

lemma byte_state_byte [simp]: "byte_state (state_byte s) = s"
  by (cases s) (simp_all add: byte_state_def)



section \<open>The queue seen from here\<close>

definition as_ok :: "lc_async \<Rightarrow> bool" where
  "as_ok a \<longleftrightarrow> (case as_q a of None \<Rightarrow> False
     | Some i \<Rightarrow> i < length (as_pool a) \<and> bq_ring (as_pool a ! i) \<and> bq_item_bytes (as_pool a ! i) = EVENT_BYTES)"

definition queued :: "lc_async \<Rightarrow> u8 list list" where
  "queued a = bq_items (the (q_inst a))"

definition drops :: "lc_async \<Rightarrow> nat" where
  "drops a = bq_dropped (the (q_inst a))"






section \<open>Producers and the drain task\<close>






section \<open>Properties\<close>


definition as_fresh :: lc_async where
  "as_fresh = \<lparr>as_pool = bq_pool0, as_ready = False, as_q = None, as_init_err = BB_OK, as_drop_log_last_ms = -1\<rparr>"


lemmas as_simps = ensure_async_started_def async_init_def bb_bqueue_create_def
  bb_bqueue_validate_cfg_def bq_pool0_def bq_zero_def BB_BQUEUE_MAX_CAPACITY_def BB_BQUEUE_MAX_ITEM_BYTES_def
  BB_BQUEUE_MAX_INSTANCES_def EVENT_BYTES_def CONFIG_BB_LIFECYCLE_ASYNC_QUEUE_DEPTH_def




text \<open>Starting the asynchronous substrate is retryable and does not leak. When it is not ready,
  an attempt either succeeds, with an empty queue ready for events, or reports the error of the
  queue pool or of the task creation, stays not ready and leaves the same pool instances in
  use as before; and it succeeds whenever the pool has a free instance and the task can be
  created, whatever failed before.\<close>

theorem async_start_is_retryable:
  assumes pool: "length (as_pool a) = BB_BQUEUE_MAX_INSTANCES" and not_ready: "\<not> as_ready a"
    and start: "ensure_async_started a BB_OK task_rc = (err, a')"
  shows "(if err = BB_OK then as_ready a' \<and> as_ok a' \<and> queued a' = [] \<and> drops a' = 0
     else \<not> as_ready a' \<and> map bq_in_use (as_pool a') = map bq_in_use (as_pool a) \<and> (err = BB_ERR_NO_SPACE \<or> err = task_rc)) \<and>
    (err = BB_OK \<longleftrightarrow> task_rc = BB_OK \<and> (\<exists>inst\<in>set (as_pool a). \<not> bq_in_use inst))"
proof -
  let ?cfg = "\<lparr>bqc_capacity = CONFIG_BB_LIFECYCLE_ASYNC_QUEUE_DEPTH, bqc_item_bytes = EVENT_BYTES\<rparr>"
  have cfg: "bb_bqueue_validate_cfg (Some ?cfg) = BB_OK" by (simp add: as_simps)
  have tk: "take BB_BQUEUE_MAX_INSTANCES (as_pool a) = as_pool a" using pool by simp
  show ?thesis
  proof (cases "find_idx (\<lambda>i. \<not> bq_in_use i) (as_pool a)")
    case None
    then have "bb_bqueue_create (as_pool a) (Some ?cfg) True = (BB_ERR_NO_SPACE, None, as_pool a)"
      using cfg tk by (simp add: bb_bqueue_create_def)
    then have "err = BB_ERR_NO_SPACE" "a' = a\<lparr>as_init_err := BB_ERR_NO_SPACE\<rparr>"
      using start not_ready by (auto simp: ensure_async_started_def async_init_def Let_def)
    then show ?thesis using None not_ready by (auto simp: find_idx_None)
  next
    case (Some idx)
    then have idx: "idx < length (as_pool a)" "\<not> bq_in_use (as_pool a ! idx)" by (auto dest: find_idx_SomeD)
    define inst where "inst = bq_zero\<lparr>bq_capacity := CONFIG_BB_LIFECYCLE_ASYNC_QUEUE_DEPTH, bq_item_bytes := EVENT_BYTES, bq_in_use := True\<rparr>"
    have c: "bb_bqueue_create (as_pool a) (Some ?cfg) True = (BB_OK, Some idx, (as_pool a)[idx := inst])"
      using cfg tk Some by (simp add: bb_bqueue_create_def inst_def)
    have free: "\<exists>inst\<in>set (as_pool a). \<not> bq_in_use inst" using idx by (metis nth_mem)
    show ?thesis
    proof (cases "task_rc = BB_OK")
      case True
      then have e: "err = BB_OK" and a': "a' = a\<lparr>as_pool := (as_pool a)[idx := inst], as_q := Some idx, as_init_err := BB_OK, as_ready := True\<rparr>"
        using start not_ready c by (auto simp: ensure_async_started_def async_init_def Let_def)
      have nth: "(as_pool a)[idx := inst] ! idx = inst" using idx by simp
      have inv: "bq_inv inst" "bq_items inst = []" using created_inst(1,2) [OF c pool] unfolding nth by auto
      moreover have "bq_capacity inst = 8" "bq_item_bytes inst = EVENT_BYTES" "bq_dropped inst = 0" "bq_in_use inst"
        by (simp_all add: inst_def bq_zero_def CONFIG_BB_LIFECYCLE_ASYNC_QUEUE_DEPTH_def)
      ultimately show ?thesis
        using e a' idx True free by (simp add: as_ok_def queued_def drops_def q_inst_def inst_from_handle_def bq_ring_def)
    next
      case False
      have h: "inst_from_handle ((as_pool a)[idx := inst]) (Some idx) = Some idx" using idx by (simp add: inst_from_handle_def inst_def)
      have e: "err = task_rc" and a': "as_pool a' = (as_pool a)[idx := bq_zero]" "\<not> as_ready a'"
        using start not_ready c False h by (auto simp: ensure_async_started_def async_init_def bb_bqueue_destroy_def Let_def)
      have "map bq_in_use (as_pool a') = map bq_in_use (as_pool a)"
        unfolding a'(1) map_update using idx by (simp add: bq_zero_def list_update_same_conv)
      then show ?thesis using e a'(2) False by simp
    qed
  qed
qed

theorem async_start_is_retryable_witness:
  "fst (ensure_async_started as_fresh BB_OK BB_ERR_NO_MEM) = BB_ERR_NO_MEM \<and>
   fst (ensure_async_started (snd (ensure_async_started as_fresh BB_OK BB_ERR_NO_MEM)) BB_OK BB_OK) = BB_OK"
proof -
  obtain e1 a1 where s1: "ensure_async_started as_fresh BB_OK BB_ERR_NO_MEM = (e1, a1)" by fastforce
  obtain e2 a2 where s2: "ensure_async_started a1 BB_OK BB_OK = (e2, a2)" by fastforce
  have p: "length (as_pool as_fresh) = BB_BQUEUE_MAX_INSTANCES" "\<not> as_ready as_fresh" "as_pool as_fresh = [bq_zero, bq_zero]"
    by (simp_all add: as_fresh_def bq_pool0_def BB_BQUEUE_MAX_INSTANCES_def)
  note c1 = async_start_is_retryable [OF p(1,2) s1]
  have in1: "map bq_in_use (as_pool a1) = [False, False]" "\<not> as_ready a1" "e1 \<noteq> BB_OK"
    using c1 p(3) by (auto simp: bq_zero_def split: if_splits)
  then have "length (as_pool a1) = BB_BQUEUE_MAX_INSTANCES" "\<exists>inst\<in>set (as_pool a1). \<not> bq_in_use inst"
    by (auto simp: BB_BQUEUE_MAX_INSTANCES_def map_eq_Cons_conv)
  then have "e2 = BB_OK" using async_start_is_retryable [OF _ in1(2) s2] by simp
  moreover have "e1 = BB_ERR_NO_MEM"
    using s1 by (simp add: as_fresh_def as_simps numeral_2_eq_2 Let_def inst_from_handle_def bb_bqueue_destroy_def)
  ultimately show ?thesis using s1 s2 by simp
qed

end
