(* ===== verification/BB_Fsm.thy ===== *)
theory BB_Fsm
  imports BB_Prelude
begin

text \<open>
  \<^verbatim>\<open>bb_fsm\<close> (\<^verbatim>\<open>components/bb_fsm/bb_fsm.c\<close>), the table-driven state machine: transition rows
  with guards and actions, per-state entry and exit hooks, a terminal latch, and the fixed
  array of armed timers. The consumer's context \<^verbatim>\<open>ctx\<close> is a value of type \<open>'c\<close> that actions
  and hooks transform; an action or hook also receives the machine and returns it, since it
  may arm and disarm timers on it.
\<close>

section \<open>Data\<close>

text \<open>State and event ids are \<^verbatim>\<open>int16_t\<close>; the engine only compares and copies them.\<close>

type_synonym bb_fsm_state_t = int
type_synonym bb_fsm_event_t = int

definition BB_FSM_STATE_ANY :: bb_fsm_state_t where "BB_FSM_STATE_ANY = -1"
definition BB_FSM_STATE_SAME :: bb_fsm_state_t where "BB_FSM_STATE_SAME = -2"
definition BB_FSM_STATE_TERMINAL :: bb_fsm_state_t where "BB_FSM_STATE_TERMINAL = -3"

record bb_fsm_timer =
  tm_event :: bb_fsm_event_t
  tm_ms :: nat
  tm_armed :: bool

text \<open>\<^verbatim>\<open>fsm_desc\<close> is whether the description pointer of the struct is set; the description itself
  is constant data and is passed beside the machine.\<close>

record bb_fsm =
  fsm_desc :: bool
  fsm_current :: bb_fsm_state_t
  fsm_terminal :: bool
  fsm_timers :: "bb_fsm_timer list"

type_synonym ('c, 'd) bb_fsm_guard_fn = "'c \<Rightarrow> bb_fsm_event_t \<Rightarrow> 'd \<Rightarrow> bool"
type_synonym ('c, 'd) bb_fsm_action_fn = "bb_fsm \<Rightarrow> 'c \<Rightarrow> bb_fsm_event_t \<Rightarrow> 'd \<Rightarrow> bb_fsm \<times> 'c"
type_synonym 'c bb_fsm_hook_fn = "bb_fsm \<Rightarrow> 'c \<Rightarrow> bb_fsm_state_t \<Rightarrow> bb_fsm \<times> 'c"

record ('c, 'd) bb_fsm_row_t =
  row_state :: bb_fsm_state_t
  row_event :: bb_fsm_event_t
  row_guard :: "('c, 'd) bb_fsm_guard_fn option"
  row_action :: "('c, 'd) bb_fsm_action_fn option"
  row_next :: bb_fsm_state_t

record 'c bb_fsm_state_desc_t =
  sd_state :: bb_fsm_state_t
  on_entry :: "'c bb_fsm_hook_fn option"
  on_exit :: "'c bb_fsm_hook_fn option"

record ('c, 'd) bb_fsm_desc_t =
  rows :: "('c, 'd) bb_fsm_row_t list option"
  row_count :: nat
  states :: "'c bb_fsm_state_desc_t list option"
  state_count :: nat
  initial :: bb_fsm_state_t

section \<open>The engine\<close>

definition find_state_desc :: "('c, 'd) bb_fsm_desc_t \<Rightarrow> bb_fsm_state_t \<Rightarrow> 'c bb_fsm_state_desc_t option" where
  "find_state_desc desc st =
     find (\<lambda>sd. sd_state sd = st) (take (state_count desc) (case states desc of None \<Rightarrow> [] | Some ss \<Rightarrow> ss))"

definition run_entry :: "('c, 'd) bb_fsm_desc_t \<Rightarrow> bb_fsm \<Rightarrow> 'c \<Rightarrow> bb_fsm_state_t \<Rightarrow> bb_fsm \<times> 'c" where
  "run_entry desc fsm ctx st =
     (if states desc = None then (fsm, ctx)
      else (case find_state_desc desc st of
              None \<Rightarrow> (fsm, ctx)
            | Some sd \<Rightarrow> (case on_entry sd of None \<Rightarrow> (fsm, ctx) | Some h \<Rightarrow> h fsm ctx st)))"

definition run_exit :: "('c, 'd) bb_fsm_desc_t \<Rightarrow> bb_fsm \<Rightarrow> 'c \<Rightarrow> bb_fsm_state_t \<Rightarrow> bb_fsm \<times> 'c" where
  "run_exit desc fsm ctx st =
     (if states desc = None then (fsm, ctx)
      else (case find_state_desc desc st of
              None \<Rightarrow> (fsm, ctx)
            | Some sd \<Rightarrow> (case on_exit sd of None \<Rightarrow> (fsm, ctx) | Some h \<Rightarrow> h fsm ctx st)))"

definition clear_timers :: "bb_fsm \<Rightarrow> bb_fsm" where
  "clear_timers fsm = fsm\<lparr>fsm_timers := map (\<lambda>t. t\<lparr>tm_armed := False\<rparr>) (fsm_timers fsm)\<rparr>"

definition row_matches ::
  "bb_fsm_state_t \<Rightarrow> bb_fsm_event_t \<Rightarrow> 'c \<Rightarrow> 'd \<Rightarrow> ('c, 'd) bb_fsm_row_t \<Rightarrow> bool"
where
  "row_matches current event ctx evt_data row \<longleftrightarrow>
     (row_state row = current \<or> row_state row = BB_FSM_STATE_ANY) \<and> row_event row = event \<and>
     (case row_guard row of None \<Rightarrow> True | Some g \<Rightarrow> g ctx event evt_data)"

definition find_row ::
  "('c, 'd) bb_fsm_desc_t \<Rightarrow> 'c \<Rightarrow> bb_fsm_state_t \<Rightarrow> bb_fsm_event_t \<Rightarrow> 'd \<Rightarrow> ('c, 'd) bb_fsm_row_t option"
where
  "find_row desc ctx current event evt_data =
     find (row_matches current event ctx evt_data)
       (take (row_count desc) (case rows desc of None \<Rightarrow> [] | Some rs \<Rightarrow> rs))"

definition bb_fsm_init ::
  "bb_fsm option \<Rightarrow> ('c, 'd) bb_fsm_desc_t option \<Rightarrow> 'c \<Rightarrow> bb_err_t \<times> bb_fsm option \<times> 'c"
where
  "bb_fsm_init fo do ctx =
     (case (fo, do) of
        (Some fsm, Some desc) \<Rightarrow>
          if rows desc = None \<and> row_count desc > 0 then (BB_ERR_INVALID_ARG, fo, ctx)
          else if states desc = None \<and> state_count desc > 0 then (BB_ERR_INVALID_ARG, fo, ctx)
          else
            (let fsm1 = clear_timers (fsm\<lparr>fsm_desc := True, fsm_current := initial desc, fsm_terminal := False\<rparr>);
                 (fsm2, ctx2) = run_entry desc fsm1 ctx (fsm_current fsm1)
             in (BB_OK, Some fsm2, ctx2))
      | _ \<Rightarrow> (BB_ERR_INVALID_ARG, fo, ctx))"

definition bb_fsm_step ::
  "('c, 'd) bb_fsm_desc_t \<Rightarrow> bb_fsm option \<Rightarrow> 'c \<Rightarrow> bb_fsm_event_t \<Rightarrow> 'd \<Rightarrow> bb_err_t \<times> bb_fsm option \<times> 'c"
where
  "bb_fsm_step desc fo ctx event evt_data =
     (case fo of
        None \<Rightarrow> (BB_ERR_INVALID_ARG, None, ctx)
      | Some fsm \<Rightarrow>
          if \<not> fsm_desc fsm then (BB_ERR_INVALID_STATE, fo, ctx)
          else if fsm_terminal fsm then (BB_ERR_INVALID_STATE, fo, ctx)
          else (case find_row desc ctx (fsm_current fsm) event evt_data of
             None \<Rightarrow> (BB_ERR_NOT_FOUND, fo, ctx)
           | Some row \<Rightarrow>
               (let (fsm1, ctx1) = (case row_action row of None \<Rightarrow> (fsm, ctx) | Some a \<Rightarrow> a fsm ctx event evt_data)
                in if row_next row = BB_FSM_STATE_SAME then (BB_OK, Some fsm1, ctx1)
                   else if row_next row = BB_FSM_STATE_TERMINAL
                   then (BB_OK, Some (clear_timers (fsm1\<lparr>fsm_terminal := True\<rparr>)), ctx1)
                   else
                     (let (fsm2, ctx2) = run_exit desc fsm1 ctx1 (fsm_current fsm1);
                          fsm3 = (clear_timers fsm2)\<lparr>fsm_current := row_next row\<rparr>;
                          (fsm4, ctx4) = run_entry desc fsm3 ctx2 (fsm_current fsm3)
                      in (BB_OK, Some fsm4, ctx4)))))"

definition bb_fsm_state :: "bb_fsm option \<Rightarrow> bb_fsm_state_t" where
  "bb_fsm_state fo = (case fo of None \<Rightarrow> BB_FSM_STATE_ANY | Some fsm \<Rightarrow> fsm_current fsm)"

definition bb_fsm_is_terminal :: "bb_fsm option \<Rightarrow> bool" where
  "bb_fsm_is_terminal fo = (case fo of None \<Rightarrow> False | Some fsm \<Rightarrow> fsm_terminal fsm)"

section \<open>Timers\<close>

text \<open>The scan of \<^verbatim>\<open>bb_fsm_arm_timer\<close>: it stops at the slot armed for the event, and
  remembers the first free slot it passes.\<close>

fun arm_scan :: "bb_fsm_event_t \<Rightarrow> nat \<Rightarrow> nat option \<Rightarrow> bb_fsm_timer list \<Rightarrow> nat + nat option" where
  "arm_scan ev i free [] = Inr free"
| "arm_scan ev i free (t # ts) =
     (if tm_armed t \<and> tm_event t = ev then Inl i
      else arm_scan ev (Suc i) (if \<not> tm_armed t \<and> free = None then Some i else free) ts)"

definition bb_fsm_arm_timer :: "bb_fsm option \<Rightarrow> bb_fsm_event_t \<Rightarrow> nat \<Rightarrow> bb_err_t \<times> bb_fsm option" where
  "bb_fsm_arm_timer fo ev ms =
     (case fo of
        None \<Rightarrow> (BB_ERR_INVALID_ARG, None)
      | Some fsm \<Rightarrow>
          if \<not> fsm_desc fsm then (BB_ERR_INVALID_STATE, fo)
          else (let ts = fsm_timers fsm in
            case arm_scan ev 0 None ts of
              Inl i \<Rightarrow>
                (BB_OK, Some (fsm\<lparr>fsm_timers :=
                   ts[i := if ms = 0 then (ts ! i)\<lparr>tm_armed := False\<rparr> else (ts ! i)\<lparr>tm_ms := ms\<rparr>]\<rparr>))
            | Inr free \<Rightarrow>
                if ms = 0 then (BB_OK, fo)
                else (case free of
                        None \<Rightarrow> (BB_ERR_NO_SPACE, fo)
                      | Some j \<Rightarrow>
                          (BB_OK, Some (fsm\<lparr>fsm_timers :=
                             ts[j := \<lparr>tm_event = ev, tm_ms = ms, tm_armed = True\<rparr>]\<rparr>)))))"

definition bb_fsm_disarm_timer :: "bb_fsm option \<Rightarrow> bb_fsm_event_t \<Rightarrow> bb_fsm option" where
  "bb_fsm_disarm_timer fo ev =
     (case fo of
        None \<Rightarrow> None
      | Some fsm \<Rightarrow>
          (case find_idx (\<lambda>t. tm_armed t \<and> tm_event t = ev) (fsm_timers fsm) of
             None \<Rightarrow> Some fsm
           | Some i \<Rightarrow> Some (fsm\<lparr>fsm_timers := (fsm_timers fsm)[i := (fsm_timers fsm ! i)\<lparr>tm_armed := False\<rparr>]\<rparr>)))"

definition bb_fsm_timer_count :: "bb_fsm option \<Rightarrow> nat" where
  "bb_fsm_timer_count fo = (case fo of None \<Rightarrow> 0 | Some fsm \<Rightarrow> length (filter tm_armed (fsm_timers fsm)))"

text \<open>The loop of \<^verbatim>\<open>bb_fsm_timer_at\<close>: skip the slots that are not armed, stop at the \<open>i\<close>th armed one.\<close>

fun timer_at_scan :: "nat \<Rightarrow> nat \<Rightarrow> bb_fsm_timer list \<Rightarrow> (bb_fsm_event_t \<times> nat) option" where
  "timer_at_scan i seen [] = None"
| "timer_at_scan i seen (t # ts) =
     (if \<not> tm_armed t then timer_at_scan i seen ts
      else if seen = i then Some (tm_event t, tm_ms t)
      else timer_at_scan i (Suc seen) ts)"

definition bb_fsm_timer_at :: "bb_fsm option \<Rightarrow> nat \<Rightarrow> (bb_fsm_event_t \<times> nat) option" where
  "bb_fsm_timer_at fo i = (case fo of None \<Rightarrow> None | Some fsm \<Rightarrow> timer_at_scan i 0 (fsm_timers fsm))"

section \<open>The armed timers as a map\<close>

definition armed :: "bb_fsm_timer list \<Rightarrow> bb_fsm_timer list" where
  "armed ts = filter tm_armed ts"

definition timer_map :: "bb_fsm \<Rightarrow> bb_fsm_event_t \<rightharpoonup> nat" where
  "timer_map fsm = map_of (map (\<lambda>t. (tm_event t, tm_ms t)) (armed (fsm_timers fsm)))"

definition timers_inv :: "bb_fsm \<Rightarrow> bool" where
  "timers_inv fsm \<longleftrightarrow> distinct (map tm_event (armed (fsm_timers fsm)))"

lemma plus_Suc_fun: "(+) (Suc i) = (\<lambda>x. Suc (i + x))"
  by auto

lemma arm_scan_spec:
  "arm_scan ev i free ts =
     (case find_idx (\<lambda>t. tm_armed t \<and> tm_event t = ev) ts of
        Some j \<Rightarrow> Inl (i + j)
      | None \<Rightarrow> Inr (case free of Some f \<Rightarrow> Some f
                     | None \<Rightarrow> map_option (\<lambda>j. i + j) (find_idx (\<lambda>t. \<not> tm_armed t) ts)))"
  by (induction ts arbitrary: i free) (auto split: option.splits simp: option.map_comp comp_def plus_Suc_fun)

lemma timer_at_scan_armed:
  "seen \<le> i \<Longrightarrow> timer_at_scan i seen ts =
     (if i - seen < length (armed ts)
      then Some (tm_event (armed ts ! (i - seen)), tm_ms (armed ts ! (i - seen))) else None)"
proof (induction ts arbitrary: seen)
  case Nil
  then show ?case by (simp add: armed_def)
next
  case (Cons t ts)
  show ?case
  proof (cases "tm_armed t \<and> seen \<noteq> i")
    case True
    then obtain d where d: "i - seen = Suc d" "i - Suc seen = d" using Cons.prems by (cases "i - seen") auto
    have "timer_at_scan i (Suc seen) ts =
        (if d < length (armed ts) then Some (tm_event (armed ts ! d), tm_ms (armed ts ! d)) else None)"
      using Cons.IH [of "Suc seen"] Cons.prems True d by auto
    then show ?thesis using True d by (simp add: armed_def)
  next
    case False
    then show ?thesis using Cons by (auto simp: armed_def)
  qed
qed

text \<open>Replacing one slot of the array, seen through the armed timers.\<close>

lemma armed_split:
  assumes "i < length ts"
  shows "armed ts = armed (take i ts) @ (if tm_armed (ts ! i) then [ts ! i] else []) @ armed (drop (Suc i) ts)"
    and "armed (ts[i := t]) = armed (take i ts) @ (if tm_armed t then [t] else []) @ armed (drop (Suc i) ts)"
proof -
  show "armed ts = armed (take i ts) @ (if tm_armed (ts ! i) then [ts ! i] else []) @ armed (drop (Suc i) ts)"
    using arg_cong [OF id_take_nth_drop [OF assms], of armed] by (simp add: armed_def)
  show "armed (ts[i := t]) = armed (take i ts) @ (if tm_armed t then [t] else []) @ armed (drop (Suc i) ts)"
    using assms by (simp add: armed_def upd_conv_take_nth_drop)
qed

lemma map_of_mid:
  assumes "k \<notin> fst ` set xs"
  shows "map_of (xs @ (k, v) # ys) = (map_of (xs @ ys))(k \<mapsto> v)"
proof -
  have "map_of xs k = None" using assms by (simp add: map_of_eq_None_iff)
  then show ?thesis by (auto simp: fun_eq_iff map_add_def split: option.splits)
qed

lemma map_of_absent: "k \<notin> fst ` set xs \<Longrightarrow> (map_of xs)(k := None) = map_of xs"
  by (metis fun_upd_idem_iff map_of_eq_None_iff)

text \<open>Slot \<open>i\<close> is free or carries event \<open>ev\<close>, and no other armed slot does.\<close>

lemma timer_slot_update:
  fixes fsm :: bb_fsm and i :: nat and ev :: int
  defines "ts \<equiv> fsm_timers fsm"
  assumes inv: "timers_inv fsm" and i: "i < length ts"
    and other: "\<And>j. j < length ts \<Longrightarrow> j \<noteq> i \<Longrightarrow> \<not> (tm_armed (ts ! j) \<and> tm_event (ts ! j) = ev)"
    and here: "tm_armed (ts ! i) \<Longrightarrow> tm_event (ts ! i) = ev"
  shows "tm_armed t \<Longrightarrow> tm_event t = ev \<Longrightarrow>
           timer_map (fsm\<lparr>fsm_timers := ts[i := t]\<rparr>) = (timer_map fsm)(ev \<mapsto> tm_ms t)"
    and "\<not> tm_armed t \<Longrightarrow> timer_map (fsm\<lparr>fsm_timers := ts[i := t]\<rparr>) = (timer_map fsm)(ev := None)"
    and "\<not> tm_armed t \<or> tm_event t = ev \<Longrightarrow> timers_inv (fsm\<lparr>fsm_timers := ts[i := t]\<rparr>)"
proof -
  let ?f = "\<lambda>t. (tm_event t, tm_ms t)"
  let ?A = "armed (take i ts)" and ?B = "armed (drop (Suc i) ts)"
  have no: "ev \<notin> tm_event ` set ?A" "ev \<notin> tm_event ` set ?B"
  proof -
    show "ev \<notin> tm_event ` set ?A"
    proof
      assume "ev \<in> tm_event ` set ?A"
      then obtain j where "j < i" "tm_armed (ts ! j)" "tm_event (ts ! j) = ev"
        using i by (auto simp: armed_def in_set_conv_nth)
      then show False using other [of j] i by simp
    qed
    show "ev \<notin> tm_event ` set ?B"
    proof
      assume "ev \<in> tm_event ` set ?B"
      then obtain j where "Suc i + j < length ts" "tm_armed (ts ! (Suc i + j))" "tm_event (ts ! (Suc i + j)) = ev"
        by (fastforce simp: armed_def in_set_conv_nth less_diff_conv add.commute)
      then show False using other [of "Suc i + j"] by simp
    qed
  qed
  then have noA: "ev \<notin> fst ` set (map ?f ?A)" and noAB: "ev \<notin> fst ` set (map ?f (?A @ ?B))"
    by (auto simp: image_image)
  have old: "(timer_map fsm)(ev := None) = map_of (map ?f (?A @ ?B))"
    using here map_of_mid [OF noA] map_of_absent [OF noAB] armed_split(1) [OF i]
    by (auto simp: timer_map_def ts_def [symmetric] simp del: map_of_append)
  have new: "timer_map (fsm\<lparr>fsm_timers := ts[i := t]\<rparr>) = map_of (map ?f (?A @ (if tm_armed t then [t] else []) @ ?B))"
    using armed_split(2) [OF i] by (simp add: timer_map_def)
  show "\<not> tm_armed t \<Longrightarrow> timer_map (fsm\<lparr>fsm_timers := ts[i := t]\<rparr>) = (timer_map fsm)(ev := None)"
    using new old by simp
  show "timer_map (fsm\<lparr>fsm_timers := ts[i := t]\<rparr>) = (timer_map fsm)(ev \<mapsto> tm_ms t)"
    if "tm_armed t" and "tm_event t = ev"
  proof -
    have "timer_map (fsm\<lparr>fsm_timers := ts[i := t]\<rparr>) = (map_of (map ?f (?A @ ?B)))(ev \<mapsto> tm_ms t)"
      using new that map_of_mid [OF noA, of "tm_ms t" "map ?f ?B"] by (simp del: map_of_append)
    then show ?thesis unfolding old [symmetric] by simp
  qed
  have "distinct (map tm_event (?A @ ?B))"
    using inv armed_split(1) [OF i] by (auto simp: timers_inv_def ts_def [symmetric])
  then show "\<not> tm_armed t \<or> tm_event t = ev \<Longrightarrow> timers_inv (fsm\<lparr>fsm_timers := ts[i := t]\<rparr>)"
    using no armed_split(2) [OF i] by (auto simp: timers_inv_def)
qed

lemma find_armed_unique:
  assumes inv: "timers_inv fsm" and i: "i < length (fsm_timers fsm)" "tm_armed (fsm_timers fsm ! i)"
    and j: "j < length (fsm_timers fsm)" "tm_armed (fsm_timers fsm ! j)"
    and eq: "tm_event (fsm_timers fsm ! i) = tm_event (fsm_timers fsm ! j)"
  shows "i = j"
proof (rule ccontr)
  assume "i \<noteq> j"
  have aux: False if ij: "i < j" "j < length ts" "tm_armed (ts ! i)" "tm_armed (ts ! j)" "tm_event (ts ! i) = tm_event (ts ! j)"
    "distinct (map tm_event (armed ts))" for i j and ts :: "bb_fsm_timer list"
  proof -
    have "ts ! j \<in> set (armed (drop (Suc i) ts))"
      using ij by (auto simp: armed_def in_set_conv_nth intro!: exI [of _ "j - Suc i"])
    moreover have "distinct (map tm_event (armed (take i ts) @ [ts ! i] @ armed (drop (Suc i) ts)))"
      using ij armed_split(1) [of i ts] by simp
    ultimately show False using ij(5) by auto
  qed
  from \<open>i \<noteq> j\<close> consider "i < j" | "j < i" by linarith
  then show False
    using aux [of i j "fsm_timers fsm"] aux [of j i "fsm_timers fsm"] assms
    by cases (auto simp: timers_inv_def)
qed

lemma arm_timer_spec:
  assumes inv: "timers_inv fsm" and d: "fsm_desc fsm"
  shows "\<exists>fsm'. bb_fsm_arm_timer (Some fsm) ev ms =
     (if ms \<noteq> 0 \<and> timer_map fsm ev = None \<and> length (armed (fsm_timers fsm)) = length (fsm_timers fsm)
      then BB_ERR_NO_SPACE else BB_OK, Some fsm') \<and> timers_inv fsm' \<and>
     timer_map fsm' =
       (if ms = 0 then (timer_map fsm)(ev := None)
        else if timer_map fsm ev = None \<and> length (armed (fsm_timers fsm)) = length (fsm_timers fsm)
        then timer_map fsm else (timer_map fsm)(ev \<mapsto> ms)) \<and>
     fsm' = fsm\<lparr>fsm_timers := fsm_timers fsm'\<rparr>"
proof -
  let ?ts = "fsm_timers fsm" and ?P = "\<lambda>t. tm_armed t \<and> tm_event t = ev"
  have absent: "timer_map fsm ev = None \<longleftrightarrow> find_idx ?P ?ts = None"
    by (auto simp: timer_map_def map_of_eq_None_iff find_idx_None armed_def image_image)
  have full: "length (armed ?ts) = length ?ts \<longleftrightarrow> find_idx (\<lambda>t. \<not> tm_armed t) ?ts = None"
    unfolding find_idx_None armed_def
    by (metis filter_True length_filter_less nat_neq_iff)
  show ?thesis
  proof (cases "find_idx ?P ?ts")
    case (Some i)
    have i: "i < length ?ts" "tm_armed (?ts ! i)" "tm_event (?ts ! i) = ev" using Some by (auto dest: find_idx_SomeD)
    have other: "\<not> ?P (?ts ! j)" if "j < length ?ts" "j \<noteq> i" for j
      using find_armed_unique [OF inv i(1,2) that(1)] i(3) that(2) by auto
    note upd = timer_slot_update [OF inv i(1) other i(3)]
    show ?thesis
      using Some d i absent upd [of "(?ts ! i)\<lparr>tm_armed := False\<rparr>"] upd [of "(?ts ! i)\<lparr>tm_ms := ms\<rparr>"]
      by (auto simp: bb_fsm_arm_timer_def arm_scan_spec Let_def)
  next
    case None
    then have no: "\<not> ?P (?ts ! j)" if "j < length ?ts" for j using that by (auto simp: find_idx_None)
    show ?thesis
    proof (cases "find_idx (\<lambda>t. \<not> tm_armed t) ?ts")
      case none: None
      have "(timer_map fsm)(ev := None) = timer_map fsm" using absent None by (metis fun_upd_idem_iff)
      then show ?thesis using None none d inv absent full by (simp add: bb_fsm_arm_timer_def arm_scan_spec Let_def)
    next
      case (Some j)
      have j: "j < length ?ts" "\<not> tm_armed (?ts ! j)" using Some by (auto dest: find_idx_SomeD)
      have "(timer_map fsm)(ev := None) = timer_map fsm" using absent None by (metis fun_upd_idem_iff)
      then show ?thesis
        using None Some d inv absent full j no
          timer_slot_update [OF inv j(1), of ev "\<lparr>tm_event = ev, tm_ms = ms, tm_armed = True\<rparr>"]
        by (auto simp: bb_fsm_arm_timer_def arm_scan_spec Let_def)
    qed
  qed
qed

lemma disarm_timer_spec:
  assumes inv: "timers_inv fsm"
  shows "\<exists>fsm'. bb_fsm_disarm_timer (Some fsm) ev = Some fsm' \<and> timers_inv fsm' \<and>
     timer_map fsm' = (timer_map fsm)(ev := None) \<and> fsm' = fsm\<lparr>fsm_timers := fsm_timers fsm'\<rparr>"
proof -
  let ?ts = "fsm_timers fsm" and ?P = "\<lambda>t. tm_armed t \<and> tm_event t = ev"
  show ?thesis
  proof (cases "find_idx ?P ?ts")
    case None
    then have "timer_map fsm ev = None"
      by (auto simp: timer_map_def map_of_eq_None_iff find_idx_None armed_def image_image)
    then have "(timer_map fsm)(ev := None) = timer_map fsm" by (metis fun_upd_idem_iff)
    then show ?thesis using None inv by (simp add: bb_fsm_disarm_timer_def)
  next
    case (Some i)
    have i: "i < length ?ts" "tm_armed (?ts ! i)" "tm_event (?ts ! i) = ev" using Some by (auto dest: find_idx_SomeD)
    have other: "\<not> ?P (?ts ! j)" if "j < length ?ts" "j \<noteq> i" for j
      using find_armed_unique [OF inv i(1,2) that(1)] i(3) that(2) by auto
    show ?thesis
      using Some timer_slot_update [OF inv i(1) other i(3), of "(?ts ! i)\<lparr>tm_armed := False\<rparr>"]
      by (simp add: bb_fsm_disarm_timer_def)
  qed
qed

section \<open>What actions and hooks may do\<close>

text \<open>The header's contract for actions and hooks: the machine handle they receive is for
  arming and disarming timers; nothing else of the machine is written.\<close>

inductive timer_calls :: "bb_fsm \<Rightarrow> bb_fsm \<Rightarrow> bool" where
  tc_none: "timer_calls fsm fsm"
| tc_arm: "timer_calls fsm fsm1 \<Longrightarrow> bb_fsm_arm_timer (Some fsm1) ev ms = (e, Some fsm2) \<Longrightarrow> timer_calls fsm fsm2"
| tc_disarm: "timer_calls fsm fsm1 \<Longrightarrow> bb_fsm_disarm_timer (Some fsm1) ev = Some fsm2 \<Longrightarrow> timer_calls fsm fsm2"

definition only_timers :: "bb_fsm \<Rightarrow> bb_fsm \<Rightarrow> bool" where
  "only_timers fsm fsm' \<longleftrightarrow> (\<exists>ts. fsm' = fsm\<lparr>fsm_timers := ts\<rparr> \<and> length ts = length (fsm_timers fsm)) \<and>
     (timers_inv fsm \<longrightarrow> timers_inv fsm')"

definition well_behaved :: "('c, 'd) bb_fsm_desc_t \<Rightarrow> bool" where
  "well_behaved D \<longleftrightarrow>
     (\<forall>row\<in>set (case rows D of None \<Rightarrow> [] | Some rs \<Rightarrow> rs). \<forall>a. row_action row = Some a \<longrightarrow>
        (\<forall>fsm ctx ev d. timer_calls fsm (fst (a fsm ctx ev d)))) \<and>
     (\<forall>sd\<in>set (case states D of None \<Rightarrow> [] | Some ss \<Rightarrow> ss).
        (\<forall>h. on_entry sd = Some h \<or> on_exit sd = Some h \<longrightarrow> (\<forall>fsm ctx st. timer_calls fsm (fst (h fsm ctx st)))))"

lemma arm_timer_length:
  "bb_fsm_arm_timer (Some fsm) ev ms = (e, Some fsm') \<Longrightarrow>
     \<exists>ts. fsm' = fsm\<lparr>fsm_timers := ts\<rparr> \<and> length ts = length (fsm_timers fsm)"
  by (auto simp: bb_fsm_arm_timer_def Let_def split: if_splits sum.splits option.splits
      intro: exI [of _ "fsm_timers fsm"])

lemma disarm_timer_length:
  "bb_fsm_disarm_timer (Some fsm) ev = Some fsm' \<Longrightarrow>
     \<exists>ts. fsm' = fsm\<lparr>fsm_timers := ts\<rparr> \<and> length ts = length (fsm_timers fsm)"
  by (auto simp: bb_fsm_disarm_timer_def split: option.splits intro: exI [of _ "fsm_timers fsm"])

lemma timer_calls_only_timers: "timer_calls fsm fsm' \<Longrightarrow> only_timers fsm fsm'"
proof (induction rule: timer_calls.induct)
  case (tc_none fsm)
  show ?case by (auto simp: only_timers_def intro: exI [of _ "fsm_timers fsm"])
next
  case (tc_arm fsm fsm1 ev ms e fsm2)
  have "timers_inv fsm1 \<longrightarrow> timers_inv fsm2"
  proof (cases "fsm_desc fsm1")
    case True
    then show ?thesis using tc_arm(2) arm_timer_spec [of fsm1 ev ms] by auto
  next
    case False
    then show ?thesis using tc_arm(2) by (simp add: bb_fsm_arm_timer_def)
  qed
  then show ?case using tc_arm.IH arm_timer_length [OF tc_arm(2)] by (auto simp: only_timers_def)
next
  case (tc_disarm fsm fsm1 ev fsm2)
  then show ?case
    using disarm_timer_spec [of fsm1 ev] disarm_timer_length [OF tc_disarm(2)] by (auto simp: only_timers_def)
qed

lemma only_timersD:
  "only_timers fsm fsm' \<Longrightarrow> fsm_current fsm' = fsm_current fsm" "only_timers fsm fsm' \<Longrightarrow> fsm_terminal fsm' = fsm_terminal fsm"
  "only_timers fsm fsm' \<Longrightarrow> fsm_desc fsm' = fsm_desc fsm"
  "only_timers fsm fsm' \<Longrightarrow> length (fsm_timers fsm') = length (fsm_timers fsm)" "only_timers fsm fsm' \<Longrightarrow> timers_inv fsm \<Longrightarrow> timers_inv fsm'"
  by (auto simp: only_timers_def)

lemma only_timers_refl [simp]: "only_timers fsm fsm"
  by (rule timer_calls_only_timers) (rule tc_none)

lemma clear_timers_simps [simp]:
  "fsm_current (clear_timers f) = fsm_current f" "fsm_terminal (clear_timers f) = fsm_terminal f"
  "fsm_desc (clear_timers f) = fsm_desc f" "length (fsm_timers (clear_timers f)) = length (fsm_timers f)"
  "armed (fsm_timers (clear_timers f)) = []"
  by (simp_all add: clear_timers_def armed_def filter_empty_conv)

lemma find_SomeD:
  assumes "find P xs = Some x"
  shows "x \<in> set xs" "P x"
  using assms by (auto simp: find_Some_iff)

lemma run_hooks_only_timers:
  assumes "well_behaved D"
  shows "only_timers fsm (fst (run_entry D fsm ctx st))" "only_timers fsm (fst (run_exit D fsm ctx st))"
  using assms
  by (auto simp: run_entry_def run_exit_def find_state_desc_def well_behaved_def split: option.splits
      dest!: find_SomeD(1) in_set_takeD intro!: timer_calls_only_timers)

lemma action_only_timers:
  assumes "well_behaved D" and "find_row D ctx st ev d = Some row"
  shows "only_timers fsm (fst (case row_action row of None \<Rightarrow> (fsm, ctx) | Some a \<Rightarrow> a fsm ctx ev d))"
  using assms
  by (auto simp: find_row_def well_behaved_def split: option.splits dest!: find_SomeD(1) in_set_takeD intro!: timer_calls_only_timers)

definition concrete_targets :: "('c, 'd) bb_fsm_desc_t \<Rightarrow> bb_fsm_state_t set" where
  "concrete_targets D = {row_next r | r. r \<in> set (take (row_count D) (the_default [] (rows D))) \<and>
     row_next r \<noteq> BB_FSM_STATE_SAME \<and> row_next r \<noteq> BB_FSM_STATE_TERMINAL}"

lemma fsm_step_row:
  assumes wb: "well_behaved D" and live: "fsm_desc fsm" "\<not> fsm_terminal fsm"
    and Some: "find_row D ctx (fsm_current fsm) ev d = Some row"
  obtains fsm' ctx' where "bb_fsm_step D (Some fsm) ctx ev d = (BB_OK, Some fsm', ctx')"
    and "fsm_desc fsm'" and "length (fsm_timers fsm') = length (fsm_timers fsm)"
    and "timers_inv fsm \<Longrightarrow> timers_inv fsm'"
    and "if row_next row = BB_FSM_STATE_SAME then fsm_current fsm' = fsm_current fsm \<and> \<not> fsm_terminal fsm'
         else if row_next row = BB_FSM_STATE_TERMINAL
         then fsm_current fsm' = fsm_current fsm \<and> fsm_terminal fsm' \<and> bb_fsm_timer_count (Some fsm') = 0
         else fsm_current fsm' = row_next row \<and> \<not> fsm_terminal fsm' \<and>
              (\<exists>fsm3 ctx2. bb_fsm_timer_count (Some fsm3) = 0 \<and> fsm_current fsm3 = row_next row \<and>
                 (fsm', ctx') = run_entry D fsm3 ctx2 (row_next row))"
proof -
  obtain fsm1 ctx1 where a: "(case row_action row of None \<Rightarrow> (fsm, ctx) | Some a \<Rightarrow> a fsm ctx ev d) = (fsm1, ctx1)"
    by fastforce
  have o1: "only_timers fsm fsm1" using action_only_timers [OF wb Some, of fsm] a by simp
  note f1 = only_timersD [OF o1]
  obtain fsm2 ctx2 where x: "run_exit D fsm1 ctx1 (fsm_current fsm1) = (fsm2, ctx2)" by fastforce
  have o2: "only_timers fsm1 fsm2" using run_hooks_only_timers(2) [OF wb, of fsm1 ctx1 "fsm_current fsm1"] x by simp
  note f2 = only_timersD [OF o2]
  define fsm3 where "fsm3 = (clear_timers fsm2)\<lparr>fsm_current := row_next row\<rparr>"
  obtain fsm4 ctx4 where e: "run_entry D fsm3 ctx2 (row_next row) = (fsm4, ctx4)" by fastforce
  have o4: "only_timers fsm3 fsm4" using run_hooks_only_timers(1) [OF wb, of fsm3 ctx2 "row_next row"] e by simp
  note f4 = only_timersD [OF o4]
  have cnt: "bb_fsm_timer_count (Some fsm3) = 0" "bb_fsm_timer_count (Some (clear_timers (fsm1\<lparr>fsm_terminal := True\<rparr>))) = 0"
    by (simp_all add: fsm3_def bb_fsm_timer_count_def clear_timers_def)
  have f3: "fsm_current fsm3 = row_next row" "fsm_terminal fsm3 = fsm_terminal fsm" "fsm_desc fsm3 = fsm_desc fsm"
    "length (fsm_timers fsm3) = length (fsm_timers fsm)" "timers_inv fsm3"
    "timers_inv (clear_timers (fsm1\<lparr>fsm_terminal := True\<rparr>))"
    using f1 f2 by (simp_all add: fsm3_def timers_inv_def)
  have step: "bb_fsm_step D (Some fsm) ctx ev d =
      (if row_next row = BB_FSM_STATE_SAME then (BB_OK, Some fsm1, ctx1)
       else if row_next row = BB_FSM_STATE_TERMINAL then (BB_OK, Some (clear_timers (fsm1\<lparr>fsm_terminal := True\<rparr>)), ctx1)
       else (BB_OK, Some fsm4, ctx4))"
    using live Some a x e by (simp add: bb_fsm_step_def Let_def fsm3_def)
  have entered: "\<exists>fsm3 ctx2. bb_fsm_timer_count (Some fsm3) = 0 \<and> fsm_current fsm3 = row_next row \<and>
      (fsm4, ctx4) = run_entry D fsm3 ctx2 (row_next row)"
    using cnt(1) f3(1) e by metis
  consider "row_next row = BB_FSM_STATE_SAME"
    | "row_next row \<noteq> BB_FSM_STATE_SAME" "row_next row = BB_FSM_STATE_TERMINAL"
    | "row_next row \<noteq> BB_FSM_STATE_SAME" "row_next row \<noteq> BB_FSM_STATE_TERMINAL" by blast
  then show thesis
    by cases (rule that [of fsm1 ctx1] that [of "clear_timers (fsm1\<lparr>fsm_terminal := True\<rparr>)" ctx1] that [of fsm4 ctx4],
        use step f1 f3 f4 cnt(2) entered live in \<open>simp_all\<close>)+
qed

lemma fsm_init_OK:
  assumes wb: "well_behaved D" and init: "bb_fsm_init (Some f0) (Some D) ctx = (BB_OK, Some f, ctx')"
  shows "fsm_desc f" "fsm_current f = initial D" "\<not> fsm_terminal f" "timers_inv f"
    "length (fsm_timers f) = length (fsm_timers f0)"
proof -
  define g where "g = clear_timers (f0\<lparr>fsm_desc := True, fsm_current := initial D, fsm_terminal := False\<rparr>)"
  have "run_entry D g ctx (initial D) = (f, ctx')"
    using init by (auto simp: bb_fsm_init_def Let_def g_def split: if_splits prod.splits)
  then have "only_timers g f" using run_hooks_only_timers(1) [OF wb, of g ctx "initial D"] by simp
  note this [THEN only_timersD(1)] this [THEN only_timersD(2)] this [THEN only_timersD(3)]
    this [THEN only_timersD(4)] this [THEN only_timersD(5)]
  then show "fsm_desc f" "fsm_current f = initial D" "\<not> fsm_terminal f" "timers_inv f"
    "length (fsm_timers f) = length (fsm_timers f0)"
    by (simp_all add: g_def timers_inv_def)
qed

section \<open>Runs\<close>

text \<open>What a consumer does with a machine after \<^verbatim>\<open>bb_fsm_init\<close>: steps, and timer calls of its own.\<close>

inductive fsm_run :: "('c, 'd) bb_fsm_desc_t \<Rightarrow> bb_fsm \<times> 'c \<Rightarrow> bb_fsm \<times> 'c \<Rightarrow> bool" for D where
  run_refl: "fsm_run D s s"
| run_step: "fsm_run D s (fsm, ctx) \<Longrightarrow> bb_fsm_step D (Some fsm) ctx ev d = (e, Some fsm', ctx') \<Longrightarrow> fsm_run D s (fsm', ctx')"
| run_timers: "fsm_run D s (fsm, ctx) \<Longrightarrow> timer_calls fsm fsm' \<Longrightarrow> fsm_run D s (fsm', ctx)"

definition fsm_inv :: "('c, 'd) bb_fsm_desc_t \<Rightarrow> nat \<Rightarrow> bb_fsm \<Rightarrow> bool" where
  "fsm_inv D n fsm \<longleftrightarrow> fsm_desc fsm \<and> length (fsm_timers fsm) = n \<and> timers_inv fsm \<and>
     fsm_current fsm \<in> insert (initial D) (concrete_targets D)"

lemma find_row_in: "find_row D ctx st ev d = Some row \<Longrightarrow> row \<in> set (take (row_count D) (the_default [] (rows D)))"
  by (auto simp: find_row_def the_default_def dest!: find_SomeD(1) split: option.splits)

lemma fsm_step_idle:
  assumes "fsm_desc fsm" and "fsm_terminal fsm \<or> find_row D ctx (fsm_current fsm) ev d = None"
  shows "bb_fsm_step D (Some fsm) ctx ev d =
     (if fsm_terminal fsm then BB_ERR_INVALID_STATE else BB_ERR_NOT_FOUND, Some fsm, ctx)"
  using assms by (cases "fsm_terminal fsm") (simp_all add: bb_fsm_step_def)

lemma fsm_inv_step:
  assumes wb: "well_behaved D" and inv: "fsm_inv D n fsm"
    and step: "bb_fsm_step D (Some fsm) ctx ev d = (e, Some fsm', ctx')"
  shows "fsm_inv D n fsm'"
proof (cases "fsm_terminal fsm \<or> find_row D ctx (fsm_current fsm) ev d = None")
  case True
  then have "fsm' = fsm" using step inv fsm_step_idle [of fsm D ctx ev d] by (simp add: fsm_inv_def)
  then show ?thesis using inv by simp
next
  case False
  then obtain row where live: "\<not> fsm_terminal fsm" and row: "find_row D ctx (fsm_current fsm) ev d = Some row" by auto
  have d: "fsm_desc fsm" using inv by (simp add: fsm_inv_def)
  obtain f c where f: "bb_fsm_step D (Some fsm) ctx ev d = (BB_OK, Some f, c)" "fsm_desc f"
    "length (fsm_timers f) = length (fsm_timers fsm)" "timers_inv fsm \<Longrightarrow> timers_inv f"
    "fsm_current f = fsm_current fsm \<or> fsm_current f = row_next row \<and> row_next row \<noteq> BB_FSM_STATE_SAME \<and> row_next row \<noteq> BB_FSM_STATE_TERMINAL"
    by (rule fsm_step_row [OF wb d live row]) (metis (full_types))
  moreover have "fsm' = f" using step f(1) by simp
  ultimately show ?thesis using inv find_row_in [OF row] by (auto simp: fsm_inv_def concrete_targets_def)
qed

lemma fsm_inv_run:
  assumes wb: "well_behaved D" and run: "fsm_run D s t"
  shows "fsm_inv D n (fst s) \<Longrightarrow> fsm_inv D n (fst t)"
  using run
proof (induction rule: fsm_run.induct)
  case (run_step s fsm ctx ev d e fsm' ctx')
  then show ?case using fsm_inv_step [OF wb, of n fsm] by auto
next
  case (run_timers s fsm ctx fsm')
  then show ?case using only_timersD [OF timer_calls_only_timers [OF run_timers(2)]] by (auto simp: fsm_inv_def)
qed simp

section \<open>Properties\<close>


text \<open>A two-state machine: event 1 moves from state 0 to state 4 (an action arms a timeout for
  event 7, the entry hook of state 4 one for event 9), event 2 ends the machine anywhere.\<close>

definition demo_arm :: "int \<Rightarrow> nat \<Rightarrow> bb_fsm \<Rightarrow> bb_fsm" where
  "demo_arm ev ms fsm = the (snd (bb_fsm_arm_timer (Some fsm) ev ms))"

definition demo_desc :: "(nat, unit) bb_fsm_desc_t" where
  "demo_desc = \<lparr>rows = Some
     [\<lparr>row_state = 0, row_event = 1, row_guard = Some (\<lambda>ctx ev d. ctx < 5),
       row_action = Some (\<lambda>fsm ctx ev d. (demo_arm 7 100 fsm, Suc ctx)), row_next = 4\<rparr>,
      \<lparr>row_state = BB_FSM_STATE_ANY, row_event = 2, row_guard = None, row_action = None,
       row_next = BB_FSM_STATE_TERMINAL\<rparr>],
     row_count = 2,
     states = Some [\<lparr>sd_state = 4, on_entry = Some (\<lambda>fsm ctx st. (demo_arm 9 50 fsm, ctx)), on_exit = None\<rparr>],
     state_count = 1, initial = 0\<rparr>"

definition demo_fsm :: bb_fsm where
  "demo_fsm = \<lparr>fsm_desc = True, fsm_current = 0, fsm_terminal = False,
     fsm_timers = replicate 2 \<lparr>tm_event = 0, tm_ms = 0, tm_armed = False\<rparr>\<rparr>"

lemma demo_arm_calls: "timer_calls fsm (demo_arm ev ms fsm)"
proof -
  obtain e fsm' where "bb_fsm_arm_timer (Some fsm) ev ms = (e, Some fsm')"
    by (cases "bb_fsm_arm_timer (Some fsm) ev ms")
      (auto simp: bb_fsm_arm_timer_def Let_def split: if_splits sum.splits option.splits)
  then show ?thesis using tc_arm [OF tc_none] by (simp add: demo_arm_def)
qed

lemma demo_well_behaved: "well_behaved demo_desc"
  by (auto simp: well_behaved_def demo_desc_def intro: demo_arm_calls)

lemmas demo_simps = demo_desc_def demo_fsm_def demo_arm_def find_row_def row_matches_def BB_FSM_STATE_ANY_def
  BB_FSM_STATE_SAME_def BB_FSM_STATE_TERMINAL_def bb_fsm_step_def bb_fsm_init_def run_entry_def run_exit_def find_state_desc_def
  clear_timers_def bb_fsm_arm_timer_def numeral_2_eq_2


text \<open>C5: whatever a consumer does with a machine it initialised (steps in any order, timer calls
  in between), the current state is the initial one or the concrete target of some row (never
  one of the SAME, TERMINAL or wildcard markers unless the table itself names it), the timer array
  keeps its size, and no event is armed twice.\<close>

theorem fsm_reachable_states:
  assumes wb: "well_behaved D" and init: "bb_fsm_init (Some f0) (Some D) ctx = (BB_OK, Some f, ctx')"
    and run: "fsm_run D (f, ctx') (f', ctx'')"
  shows "bb_fsm_state (Some f') \<in> insert (initial D) (concrete_targets D) \<and>
    bb_fsm_timer_count (Some f') \<le> length (fsm_timers f0) \<and>
    distinct (map tm_event (armed (fsm_timers f')))"
proof -
  have "fsm_inv D (length (fsm_timers f0)) f" using fsm_init_OK [OF wb init] by (simp add: fsm_inv_def)
  then have "fsm_inv D (length (fsm_timers f0)) f'" using fsm_inv_run [OF wb run] by simp
  moreover have "length (filter tm_armed (fsm_timers f')) \<le> length (fsm_timers f')" by (rule length_filter_le)
  ultimately show ?thesis
    by (simp add: fsm_inv_def bb_fsm_state_def bb_fsm_timer_count_def timers_inv_def)
qed

lemma demo_init: "bb_fsm_init (Some demo_fsm) (Some demo_desc) 3 = (BB_OK, Some demo_fsm, 3)"
  by (simp add: demo_simps)

definition demo_ended :: bb_fsm where "demo_ended = demo_fsm\<lparr>fsm_terminal := True\<rparr>"

lemma demo_end: "bb_fsm_step demo_desc (Some demo_fsm) 3 2 () = (BB_OK, Some demo_ended, 3)"
  by (simp add: demo_simps demo_ended_def)

theorem fsm_reachable_states_witness:
  "fsm_run demo_desc (demo_fsm, 3) (demo_ended, 3) \<and> bb_fsm_state (Some demo_ended) \<in> {0, 4}"
proof -
  have run: "fsm_run demo_desc (demo_fsm, 3) (demo_ended, 3)" by (rule run_step [OF run_refl demo_end])
  have "insert (initial demo_desc) (concrete_targets demo_desc) \<subseteq> {0, 4}"
    by (auto simp: concrete_targets_def demo_desc_def the_default_def)
  then show ?thesis using fsm_reachable_states [OF demo_well_behaved demo_init run] run by blast
qed

text \<open>The terminal latch is final. Once a machine is terminal, no sequence of steps and timer
  calls changes its state, its context or the latch, and every step is refused.\<close>

theorem fsm_terminal_is_final:
  assumes "fsm_desc f" and "fsm_terminal f" and run: "fsm_run D (f, ctx) (f', ctx')"
  shows "bb_fsm_is_terminal (Some f') \<and> bb_fsm_state (Some f') = bb_fsm_state (Some f) \<and> ctx' = ctx \<and>
    bb_fsm_step D (Some f') ctx' ev d = (BB_ERR_INVALID_STATE, Some f', ctx')"
proof -
  have "fsm_desc f' \<and> fsm_terminal f' \<and> fsm_current f' = fsm_current f \<and> ctx' = ctx"
    using run assms(1,2)
  proof (induction "(f, ctx)" "(f', ctx')" arbitrary: f' ctx' rule: fsm_run.induct)
    case (run_step fsm c ev d e fsm' c')
    then show ?case using fsm_step_idle [of fsm D c ev d] by auto
  next
    case (run_timers fsm c fsm')
    then show ?case using only_timersD(1-3) [OF timer_calls_only_timers] by metis
  qed simp
  then show ?thesis
    using fsm_step_idle [of f' D ctx' ev d] by (simp add: bb_fsm_is_terminal_def bb_fsm_state_def)
qed

theorem fsm_terminal_is_final_witness:
  "bb_fsm_step demo_desc (Some demo_fsm) 3 2 () = (BB_OK, Some demo_ended, 3) \<and>
   bb_fsm_step demo_desc (Some demo_ended) 3 1 () = (BB_ERR_INVALID_STATE, Some demo_ended, 3)"
  using fsm_terminal_is_final [of demo_ended demo_desc 3 demo_ended 3 1 "()", OF _ _ run_refl] demo_end
  by (simp add: demo_ended_def demo_fsm_def)

text \<open>On an initialised machine the timer array behaves as a bounded map from events to
  milliseconds. Arming sets the event's entry (a duration of 0 removes it) and is refused, with
  the map unchanged, exactly when the event is not armed and every slot is; disarming
  removes the entry; nothing else of the machine changes; and the enumeration by index lists
  each armed timer once.\<close>

theorem fsm_timers_are_a_map:
  assumes inv: "timers_inv fsm" and d: "fsm_desc fsm"
  shows "\<exists>fa fd. bb_fsm_arm_timer (Some fsm) ev ms =
       (if ms \<noteq> 0 \<and> timer_map fsm ev = None \<and> bb_fsm_timer_count (Some fsm) = length (fsm_timers fsm)
        then BB_ERR_NO_SPACE else BB_OK, Some fa) \<and>
     bb_fsm_disarm_timer (Some fsm) ev = Some fd \<and>
     timer_map fd = (timer_map fsm)(ev := None) \<and> timers_inv fd \<and> timers_inv fa \<and>
     timer_map fa =
       (if ms = 0 then (timer_map fsm)(ev := None)
        else if timer_map fsm ev = None \<and> bb_fsm_timer_count (Some fsm) = length (fsm_timers fsm)
        then timer_map fsm else (timer_map fsm)(ev \<mapsto> ms)) \<and>
     map (bb_fsm_timer_at (Some fa)) [0..<bb_fsm_timer_count (Some fa)] =
       map (\<lambda>t. Some (tm_event t, tm_ms t)) (filter tm_armed (fsm_timers fa)) \<and>
     (\<forall>i\<ge>bb_fsm_timer_count (Some fa). bb_fsm_timer_at (Some fa) i = None) \<and>
     fa = fsm\<lparr>fsm_timers := fsm_timers fa\<rparr> \<and> fd = fsm\<lparr>fsm_timers := fsm_timers fd\<rparr>"
proof -
  have list: "map (bb_fsm_timer_at (Some g)) [0..<bb_fsm_timer_count (Some g)] =
       map (\<lambda>t. Some (tm_event t, tm_ms t)) (filter tm_armed (fsm_timers g))"
    and past: "\<forall>i\<ge>bb_fsm_timer_count (Some g). bb_fsm_timer_at (Some g) i = None" for g
    by (auto simp: bb_fsm_timer_at_def bb_fsm_timer_count_def timer_at_scan_armed armed_def intro!: nth_equalityI)
  have cnt: "length (armed (fsm_timers fsm)) = bb_fsm_timer_count (Some fsm)"
    by (simp add: bb_fsm_timer_count_def armed_def)
  obtain fa fd where "bb_fsm_disarm_timer (Some fsm) ev = Some fd" "timers_inv fd"
    "timer_map fd = (timer_map fsm)(ev := None)" "fd = fsm\<lparr>fsm_timers := fsm_timers fd\<rparr>"
    and a: "bb_fsm_arm_timer (Some fsm) ev ms =
       (if ms \<noteq> 0 \<and> timer_map fsm ev = None \<and> bb_fsm_timer_count (Some fsm) = length (fsm_timers fsm)
        then BB_ERR_NO_SPACE else BB_OK, Some fa) \<and> timers_inv fa \<and>
     timer_map fa =
       (if ms = 0 then (timer_map fsm)(ev := None)
        else if timer_map fsm ev = None \<and> bb_fsm_timer_count (Some fsm) = length (fsm_timers fsm)
        then timer_map fsm else (timer_map fsm)(ev \<mapsto> ms)) \<and> fa = fsm\<lparr>fsm_timers := fsm_timers fa\<rparr>"
    using arm_timer_spec [OF inv d, of ev ms] disarm_timer_spec [OF inv, of ev] unfolding cnt by metis
  then show ?thesis using list [of fa] past [of fa] by (intro exI [of _ fa] exI [of _ fd]) (intro conjI; simp only:)
qed

definition demo_full :: bb_fsm where
  "demo_full = demo_arm 9 50 (demo_arm 7 100 demo_fsm)"

theorem fsm_timers_are_a_map_witness:
  "fst (bb_fsm_arm_timer (Some demo_full) 8 10) = BB_ERR_NO_SPACE \<and>
   timer_map demo_full 9 = Some 50 \<and>
   timer_map (demo_arm 9 75 demo_full) 9 = Some 75"
proof -
  have full: "demo_full = demo_fsm\<lparr>fsm_timers := [\<lparr>tm_event = 7, tm_ms = 100, tm_armed = True\<rparr>, \<lparr>tm_event = 9, tm_ms = 50, tm_armed = True\<rparr>]\<rparr>"
    by (simp add: demo_full_def demo_simps)
  have inv: "timers_inv demo_full" and d: "fsm_desc demo_full"
    by (simp_all add: full timers_inv_def armed_def demo_fsm_def)
  have m: "timer_map demo_full 9 = Some 50" "timer_map demo_full 8 = None"
    "bb_fsm_timer_count (Some demo_full) = length (fsm_timers demo_full)"
    by (simp_all add: full timer_map_def armed_def bb_fsm_timer_count_def)
  show ?thesis
    using fsm_timers_are_a_map [OF inv d, of 8 10] fsm_timers_are_a_map [OF inv d, of 9 75] m
    by (auto simp: demo_arm_def)
qed

end
