(* ===== verification/BB_Wifi.thy ===== *)
theory BB_Wifi
  imports BB_Fsm BB_Lifecycle
begin

text \<open>
  The Wi-Fi reconnect manager: the pure helpers of \<^verbatim>\<open>platform/host/bb_wifi/bb_wifi_emit.c\<close>, the
  backoff policy and the transition table of \<^verbatim>\<open>components/bb_wifi/wifi_reconn_policy.c\<close>, a client of
  \<^verbatim>\<open>bb_fsm\<close>. Calls through the adapter are appended to a log in the context. What the adapter
  returns during one step (the clock at each of the places that read it, and the reboot permission) travels
  with the event, since guard and action each read the clock on their own.
\<close>

section \<open>Disconnect reasons and network events\<close>

datatype bb_wifi_disc_reason_t =
    BB_WIFI_DISC_UNKNOWN | BB_WIFI_DISC_AUTH_FAIL | BB_WIFI_DISC_ASSOC_FAIL | BB_WIFI_DISC_HANDSHAKE_TIMEOUT
  | BB_WIFI_DISC_CONNECTION_LOST | BB_WIFI_DISC_NO_AP_FOUND | BB_WIFI_DISC_INACTIVITY | BB_WIFI_DISC_DEAUTH
  | BB_WIFI_DISC_BEACON_TIMEOUT | BB_WIFI_DISC_BB_LOST_IP | BB_WIFI_DISC_BB_EGRESS_DEAD
  | BB_WIFI_DISC_BB_NO_IP_WATCHDOG | BB_WIFI_DISC_ASSOC_LEAVE

definition disc_reasons :: "bb_wifi_disc_reason_t list" where
  "disc_reasons = [BB_WIFI_DISC_UNKNOWN, BB_WIFI_DISC_AUTH_FAIL, BB_WIFI_DISC_ASSOC_FAIL, BB_WIFI_DISC_HANDSHAKE_TIMEOUT,
     BB_WIFI_DISC_CONNECTION_LOST, BB_WIFI_DISC_NO_AP_FOUND, BB_WIFI_DISC_INACTIVITY, BB_WIFI_DISC_DEAUTH,
     BB_WIFI_DISC_BEACON_TIMEOUT, BB_WIFI_DISC_BB_LOST_IP, BB_WIFI_DISC_BB_EGRESS_DEAD,
     BB_WIFI_DISC_BB_NO_IP_WATCHDOG, BB_WIFI_DISC_ASSOC_LEAVE]"

definition BB_WIFI_DISC_COUNT :: nat where "BB_WIFI_DISC_COUNT = 13"

fun disc_ord :: "bb_wifi_disc_reason_t \<Rightarrow> nat" where
  "disc_ord BB_WIFI_DISC_UNKNOWN = 0"
| "disc_ord BB_WIFI_DISC_AUTH_FAIL = 1"
| "disc_ord BB_WIFI_DISC_ASSOC_FAIL = 2"
| "disc_ord BB_WIFI_DISC_HANDSHAKE_TIMEOUT = 3"
| "disc_ord BB_WIFI_DISC_CONNECTION_LOST = 4"
| "disc_ord BB_WIFI_DISC_NO_AP_FOUND = 5"
| "disc_ord BB_WIFI_DISC_INACTIVITY = 6"
| "disc_ord BB_WIFI_DISC_DEAUTH = 7"
| "disc_ord BB_WIFI_DISC_BEACON_TIMEOUT = 8"
| "disc_ord BB_WIFI_DISC_BB_LOST_IP = 9"
| "disc_ord BB_WIFI_DISC_BB_EGRESS_DEAD = 10"
| "disc_ord BB_WIFI_DISC_BB_NO_IP_WATCHDOG = 11"
| "disc_ord BB_WIFI_DISC_ASSOC_LEAVE = 12"

datatype bb_wifi_net_event_t =
    BB_WIFI_NET_EVT_GOT_IP | BB_WIFI_NET_EVT_DISCONNECT | BB_WIFI_NET_EVT_LOST_IP
  | BB_WIFI_NET_EVT_REBOOT_DENIED | BB_WIFI_NET_EVT_RECONNECT_PARKED

definition bb_wifi_disc_reason_str :: "bb_wifi_disc_reason_t \<Rightarrow> string" where
  "bb_wifi_disc_reason_str reason =
     (case reason of
        BB_WIFI_DISC_UNKNOWN \<Rightarrow> ''unknown''
      | BB_WIFI_DISC_AUTH_FAIL \<Rightarrow> ''auth_fail''
      | BB_WIFI_DISC_ASSOC_FAIL \<Rightarrow> ''assoc_fail''
      | BB_WIFI_DISC_HANDSHAKE_TIMEOUT \<Rightarrow> ''handshake_timeout''
      | BB_WIFI_DISC_CONNECTION_LOST \<Rightarrow> ''connection_lost''
      | BB_WIFI_DISC_NO_AP_FOUND \<Rightarrow> ''no_ap_found''
      | BB_WIFI_DISC_INACTIVITY \<Rightarrow> ''inactivity''
      | BB_WIFI_DISC_DEAUTH \<Rightarrow> ''deauth''
      | BB_WIFI_DISC_BEACON_TIMEOUT \<Rightarrow> ''beacon_timeout''
      | BB_WIFI_DISC_BB_LOST_IP \<Rightarrow> ''bb_lost_ip''
      | BB_WIFI_DISC_BB_EGRESS_DEAD \<Rightarrow> ''bb_egress_dead''
      | BB_WIFI_DISC_BB_NO_IP_WATCHDOG \<Rightarrow> ''bb_no_ip_watchdog''
      | BB_WIFI_DISC_ASSOC_LEAVE \<Rightarrow> ''assoc_leave'')"

definition bb_wifi_map_esp_reason :: "nat \<Rightarrow> bb_wifi_disc_reason_t" where
  "bb_wifi_map_esp_reason esp_code =
     (if esp_code = 2 then BB_WIFI_DISC_AUTH_FAIL
      else if esp_code = 3 then BB_WIFI_DISC_DEAUTH
      else if esp_code = 4 then BB_WIFI_DISC_INACTIVITY
      else if esp_code = 8 then BB_WIFI_DISC_ASSOC_LEAVE
      else if esp_code = 15 then BB_WIFI_DISC_HANDSHAKE_TIMEOUT
      else if esp_code = 23 then BB_WIFI_DISC_AUTH_FAIL
      else if esp_code = 200 then BB_WIFI_DISC_BEACON_TIMEOUT
      else if esp_code = 201 then BB_WIFI_DISC_NO_AP_FOUND
      else if esp_code = 202 then BB_WIFI_DISC_AUTH_FAIL
      else if esp_code = 203 then BB_WIFI_DISC_ASSOC_FAIL
      else if esp_code = 204 then BB_WIFI_DISC_HANDSHAKE_TIMEOUT
      else if esp_code = 205 then BB_WIFI_DISC_CONNECTION_LOST
      else if esp_code = 210 then BB_WIFI_DISC_NO_AP_FOUND
      else if esp_code = 211 then BB_WIFI_DISC_NO_AP_FOUND
      else if esp_code = 212 then BB_WIFI_DISC_NO_AP_FOUND
      else BB_WIFI_DISC_UNKNOWN)"

definition bb_wifi_map_wl_status :: "int \<Rightarrow> bb_wifi_disc_reason_t" where
  "bb_wifi_map_wl_status wl_status =
     (if wl_status = 5 then BB_WIFI_DISC_CONNECTION_LOST
      else if wl_status = 4 then BB_WIFI_DISC_ASSOC_FAIL
      else if wl_status = 1 then BB_WIFI_DISC_NO_AP_FOUND
      else BB_WIFI_DISC_UNKNOWN)"

text \<open>The ordinal of a network event is its id on the bus.\<close>

definition bb_wifi_classify_lifecycle :: "u32 \<Rightarrow> 'p \<Rightarrow> nat \<Rightarrow> bb_lifecycle_action_t" where
  "bb_wifi_classify_lifecycle evid payload sz =
     (if evid = 0 then BB_LIFECYCLE_ACTION_START
      else if evid = 1 \<or> evid = 2 \<or> evid = 4 then BB_LIFECYCLE_ACTION_STOP
      else BB_LIFECYCLE_ACTION_NONE)"

fun histogram_scan :: "nat list \<Rightarrow> bb_wifi_disc_reason_t list \<Rightarrow> nat \<Rightarrow> bb_wifi_disc_reason_t \<Rightarrow> bb_wifi_disc_reason_t \<times> nat" where
  "histogram_scan hist [] top_count top_code = (top_code, top_count)"
| "histogram_scan hist (i # is) top_count top_code =
     (if i = BB_WIFI_DISC_BB_LOST_IP \<or> i = BB_WIFI_DISC_BB_EGRESS_DEAD \<or> i = BB_WIFI_DISC_BB_NO_IP_WATCHDOG
      then histogram_scan hist is top_count top_code
      else if hist ! disc_ord i > top_count then histogram_scan hist is (hist ! disc_ord i) i
      else histogram_scan hist is top_count top_code)"

definition bb_wifi_reason_histogram_top :: "nat list option \<Rightarrow> bb_wifi_disc_reason_t \<times> nat" where
  "bb_wifi_reason_histogram_top ho =
     (case ho of None \<Rightarrow> (BB_WIFI_DISC_UNKNOWN, 0) | Some hist \<Rightarrow> histogram_scan hist disc_reasons 0 BB_WIFI_DISC_UNKNOWN)"

definition bb_wifi_is_roam :: "u8 list option \<Rightarrow> u8 list option \<Rightarrow> bool" where
  "bb_wifi_is_roam prior_bssid new_bssid =
     (case (prior_bssid, new_bssid) of
        (Some p, Some n) \<Rightarrow> if take 6 p = replicate 6 0 then False else take 6 p \<noteq> take 6 n
      | _ \<Rightarrow> False)"

record bb_wifi_event_payload_t =
  pl_ip :: string
  pl_reason :: bb_wifi_disc_reason_t

definition bb_wifi_event_payload_build ::
  "bb_wifi_net_event_t \<Rightarrow> bb_wifi_disc_reason_t \<Rightarrow> string option \<Rightarrow> bb_wifi_event_payload_t" where
  "bb_wifi_event_payload_build evt reason ip =
     \<lparr>pl_ip = (if evt = BB_WIFI_NET_EVT_GOT_IP then (case ip of None \<Rightarrow> [] | Some s \<Rightarrow> take 15 s) else []),
      pl_reason = reason\<rparr>"

fun net_event_ord :: "bb_wifi_net_event_t \<Rightarrow> int" where
  "net_event_ord BB_WIFI_NET_EVT_GOT_IP = 0"
| "net_event_ord BB_WIFI_NET_EVT_DISCONNECT = 1"
| "net_event_ord BB_WIFI_NET_EVT_LOST_IP = 2"
| "net_event_ord BB_WIFI_NET_EVT_REBOOT_DENIED = 3"
| "net_event_ord BB_WIFI_NET_EVT_RECONNECT_PARKED = 4"

text \<open>\<open>ip_rc\<close> and \<open>ip_str\<close> are the outcome of \<^verbatim>\<open>bb_wifi_get_ip_str\<close>, the result what goes to the emit slot.\<close>

definition bb_wifi_publish_net_event ::
  "bb_wifi_net_event_t \<Rightarrow> bb_wifi_disc_reason_t \<Rightarrow> bb_err_t \<Rightarrow> string \<Rightarrow> int \<times> bb_wifi_event_payload_t" where
  "bb_wifi_publish_net_event evt reason ip_rc ip_str =
     (let ip = (if evt = BB_WIFI_NET_EVT_GOT_IP then (if ip_rc \<noteq> BB_OK then [] else ip_str) else [])
      in (net_event_ord evt, bb_wifi_event_payload_build evt reason (if ip \<noteq> [] then Some ip else None)))"

record bb_wifi_got_ip_persist_t =
  gp_promote :: bool
  gp_mark_connected :: bool
  gp_clear_boot_count :: bool

definition bb_wifi_got_ip_persist_decide :: "bool \<Rightarrow> bool \<Rightarrow> bb_wifi_got_ip_persist_t" where
  "bb_wifi_got_ip_persist_decide pending_try boot_count_already_cleared =
     \<lparr>gp_promote = pending_try, gp_mark_connected = \<not> pending_try, gp_clear_boot_count = \<not> boot_count_already_cleared\<rparr>"

section \<open>The backoff policy\<close>

definition WIFI_RECONN_HANDSHAKE_BACKOFF_TIER2_MS :: nat where "WIFI_RECONN_HANDSHAKE_BACKOFF_TIER2_MS = 10000"
definition WIFI_RECONN_HANDSHAKE_BACKOFF_TIER3_MS :: nat where "WIFI_RECONN_HANDSHAKE_BACKOFF_TIER3_MS = 30000"
definition WIFI_RECONN_GENERIC_BACKOFF_PAUSE_MS :: nat where "WIFI_RECONN_GENERIC_BACKOFF_PAUSE_MS = 5000"
definition WIFI_RECONN_GENERIC_FAST_RETRY_LIMIT :: int where "WIFI_RECONN_GENERIC_FAST_RETRY_LIMIT = 10"
definition WIFI_RECONN_SLOW_TIER1_LIMIT :: int where "WIFI_RECONN_SLOW_TIER1_LIMIT = 3"
definition WIFI_RECONN_SLOW_BACKOFF_TIER1_MS :: nat where "WIFI_RECONN_SLOW_BACKOFF_TIER1_MS = 30000"
definition WIFI_RECONN_SLOW_BACKOFF_TIER2_MS :: nat where "WIFI_RECONN_SLOW_BACKOFF_TIER2_MS = 120000"
definition WIFI_RECONN_HANDSHAKE_FAST_RETRY_LIMIT :: int where "WIFI_RECONN_HANDSHAKE_FAST_RETRY_LIMIT = 3"
definition WIFI_RECONN_HANDSHAKE_TIER2_LIMIT :: int where "WIFI_RECONN_HANDSHAKE_TIER2_LIMIT = 6"
definition WIFI_RECONN_PERSISTENT_FAIL_WINDOW_US :: int where "WIFI_RECONN_PERSISTENT_FAIL_WINDOW_US = 300 * 1000000"
definition WIFI_RECONN_CONNECTING_TIMEOUT_MS :: nat where "WIFI_RECONN_CONNECTING_TIMEOUT_MS = 30000"

lemmas wifi_consts = WIFI_RECONN_HANDSHAKE_BACKOFF_TIER2_MS_def WIFI_RECONN_HANDSHAKE_BACKOFF_TIER3_MS_def
  WIFI_RECONN_GENERIC_BACKOFF_PAUSE_MS_def WIFI_RECONN_SLOW_BACKOFF_TIER1_MS_def WIFI_RECONN_SLOW_BACKOFF_TIER2_MS_def
  WIFI_RECONN_CONNECTING_TIMEOUT_MS_def

record wifi_reconn_state_t =
  handshake_fail_count :: int
  generic_fail_count :: int
  slow_fail_count :: int
  first_fail_us :: int
  retry_count :: int
  last_reason :: bb_wifi_disc_reason_t
  last_disconnect_us :: int
  reason_histogram :: "nat list"
  lost_ip_count :: nat
  last_lost_ip_us :: int

datatype wifi_reconn_action_t =
    WIFI_RECONN_ACTION_NONE | WIFI_RECONN_ACTION_RECONNECT_NOW | WIFI_RECONN_ACTION_SCHEDULE_BACKOFF | WIFI_RECONN_ACTION_REBOOT

definition wifi_reconn_state_reset :: "wifi_reconn_state_t \<Rightarrow> wifi_reconn_state_t" where
  "wifi_reconn_state_reset st =
     \<lparr>handshake_fail_count = 0, generic_fail_count = 0, slow_fail_count = 0, first_fail_us = 0, retry_count = 0,
      last_reason = BB_WIFI_DISC_UNKNOWN, last_disconnect_us = 0,
      reason_histogram = map (\<lambda>_. 0) (reason_histogram st), lost_ip_count = 0, last_lost_ip_us = 0\<rparr>"

definition compute_backoff_ms :: "wifi_reconn_state_t \<Rightarrow> bb_wifi_disc_reason_t \<Rightarrow> nat" where
  "compute_backoff_ms st reason =
     (if reason = BB_WIFI_DISC_HANDSHAKE_TIMEOUT then
        (if handshake_fail_count st \<le> WIFI_RECONN_HANDSHAKE_FAST_RETRY_LIMIT then 0
         else if handshake_fail_count st \<le> WIFI_RECONN_HANDSHAKE_TIER2_LIMIT then WIFI_RECONN_HANDSHAKE_BACKOFF_TIER2_MS
         else WIFI_RECONN_HANDSHAKE_BACKOFF_TIER3_MS)
      else if reason = BB_WIFI_DISC_AUTH_FAIL \<or> reason = BB_WIFI_DISC_NO_AP_FOUND then
        (if slow_fail_count st \<le> WIFI_RECONN_SLOW_TIER1_LIMIT then WIFI_RECONN_SLOW_BACKOFF_TIER1_MS
         else WIFI_RECONN_SLOW_BACKOFF_TIER2_MS)
      else if generic_fail_count st \<le> WIFI_RECONN_GENERIC_FAST_RETRY_LIMIT then 0
      else WIFI_RECONN_GENERIC_BACKOFF_PAUSE_MS)"

definition hist_bump :: "nat \<Rightarrow> nat list \<Rightarrow> nat list" where
  "hist_bump i h = (if h ! i < 65535 then h[i := h ! i + 1] else h)"

text \<open>The counter of the reason's bucket, as the code's three-way choice bumps it.\<close>

definition bump_bucket :: "bb_wifi_disc_reason_t \<Rightarrow> wifi_reconn_state_t \<Rightarrow> wifi_reconn_state_t" where
  "bump_bucket reason st =
     (if reason = BB_WIFI_DISC_HANDSHAKE_TIMEOUT then st\<lparr>handshake_fail_count := handshake_fail_count st + 1\<rparr>
      else if reason = BB_WIFI_DISC_AUTH_FAIL \<or> reason = BB_WIFI_DISC_NO_AP_FOUND
      then st\<lparr>slow_fail_count := slow_fail_count st + 1\<rparr>
      else st\<lparr>generic_fail_count := generic_fail_count st + 1\<rparr>)"

text \<open>The body behind the NULL checks. The result is the action, the policy state and \<^verbatim>\<open>*backoff_ms_out\<close>, which keeps the value
  \<open>backoff0\<close> it had before the call on the paths that do not write it.\<close>

definition on_disconnect_body ::
  "wifi_reconn_state_t \<Rightarrow> int \<Rightarrow> bb_wifi_disc_reason_t \<Rightarrow> nat \<Rightarrow> wifi_reconn_action_t \<times> wifi_reconn_state_t \<times> nat"
where
  "on_disconnect_body st now reason backoff0 =
     (let st1 = st\<lparr>last_reason := reason, last_disconnect_us := now,
                   reason_histogram := hist_bump (disc_ord reason) (reason_histogram st),
                   retry_count := retry_count st + 1,
                   first_fail_us := if first_fail_us st = 0 then now else first_fail_us st\<rparr>;
          st2 = bump_bucket reason st1
      in if now - first_fail_us st2 > WIFI_RECONN_PERSISTENT_FAIL_WINDOW_US
         then (WIFI_RECONN_ACTION_REBOOT, st2, backoff0)
         else (let b = compute_backoff_ms st2 reason
               in (if b = 0 then WIFI_RECONN_ACTION_RECONNECT_NOW else WIFI_RECONN_ACTION_SCHEDULE_BACKOFF, st2, b)))"

definition wifi_reconn_policy_on_disconnect ::
  "wifi_reconn_state_t option \<Rightarrow> int option \<Rightarrow> bb_wifi_disc_reason_t \<Rightarrow> nat option
    \<Rightarrow> wifi_reconn_action_t \<times> wifi_reconn_state_t option \<times> nat option"
where
  "wifi_reconn_policy_on_disconnect sto adapter reason out =
     (case (sto, adapter, out) of
        (Some st, Some now, Some backoff0) \<Rightarrow>
          (case on_disconnect_body st now reason backoff0 of (act, st', b) \<Rightarrow> (act, Some st', Some b))
      | _ \<Rightarrow> (WIFI_RECONN_ACTION_NONE, sto, out))"

definition wifi_reconn_policy_on_got_ip :: "wifi_reconn_state_t \<Rightarrow> wifi_reconn_state_t" where
  "wifi_reconn_policy_on_got_ip st =
     st\<lparr>handshake_fail_count := 0, generic_fail_count := 0, slow_fail_count := 0, first_fail_us := 0, retry_count := 0\<rparr>"

definition wifi_reconn_policy_on_lost_ip :: "wifi_reconn_state_t \<Rightarrow> int \<Rightarrow> wifi_reconn_state_t" where
  "wifi_reconn_policy_on_lost_ip st now =
     st\<lparr>lost_ip_count := (lost_ip_count st + 1) mod 2 ^ 32, last_lost_ip_us := now,
        reason_histogram := hist_bump (disc_ord BB_WIFI_DISC_BB_LOST_IP) (reason_histogram st)\<rparr>"

definition on_connect_timeout_body ::
  "wifi_reconn_state_t \<Rightarrow> int \<Rightarrow> nat \<Rightarrow> wifi_reconn_action_t \<times> wifi_reconn_state_t \<times> nat"
where
  "on_connect_timeout_body st now backoff0 =
     (let st1 = st\<lparr>last_disconnect_us := now, retry_count := retry_count st + 1,
                   generic_fail_count := generic_fail_count st + 1,
                   first_fail_us := if first_fail_us st = 0 then now else first_fail_us st\<rparr>
      in if now - first_fail_us st1 > WIFI_RECONN_PERSISTENT_FAIL_WINDOW_US
         then (WIFI_RECONN_ACTION_REBOOT, st1, backoff0)
         else (let b = compute_backoff_ms st1 BB_WIFI_DISC_UNKNOWN
               in (if b = 0 then WIFI_RECONN_ACTION_RECONNECT_NOW else WIFI_RECONN_ACTION_SCHEDULE_BACKOFF, st1, b)))"

definition wifi_reconn_policy_on_connect_timeout ::
  "wifi_reconn_state_t option \<Rightarrow> int option \<Rightarrow> nat option \<Rightarrow> wifi_reconn_action_t \<times> wifi_reconn_state_t option \<times> nat option"
where
  "wifi_reconn_policy_on_connect_timeout sto adapter out =
     (case (sto, adapter, out) of
        (Some st, Some now, Some backoff0) \<Rightarrow>
          (case on_connect_timeout_body st now backoff0 of (act, st', b) \<Rightarrow> (act, Some st', Some b))
      | _ \<Rightarrow> (WIFI_RECONN_ACTION_NONE, sto, out))"

section \<open>The transition table\<close>

definition WR_NO_CREDS :: bb_fsm_state_t where "WR_NO_CREDS = 0"
definition WR_CONNECTING :: bb_fsm_state_t where "WR_CONNECTING = 1"
definition WR_CONNECTED :: bb_fsm_state_t where "WR_CONNECTED = 2"
definition WR_BACKOFF :: bb_fsm_state_t where "WR_BACKOFF = 3"
definition WR_ESCALATE_REBOOT :: bb_fsm_state_t where "WR_ESCALATE_REBOOT = 4"
definition WR_LEFT :: bb_fsm_state_t where "WR_LEFT = 5"

definition EV_GOT_IP :: bb_fsm_event_t where "EV_GOT_IP = 0"
definition EV_STA_DISCONNECTED :: bb_fsm_event_t where "EV_STA_DISCONNECTED = 1"
definition EV_CONNECTING_TIMEOUT :: bb_fsm_event_t where "EV_CONNECTING_TIMEOUT = 2"
definition EV_BACKOFF_TIMEOUT :: bb_fsm_event_t where "EV_BACKOFF_TIMEOUT = 3"
definition EV_CREDS_ARRIVED :: bb_fsm_event_t where "EV_CREDS_ARRIVED = 4"
definition EV_RECONNECT_REQUESTED :: bb_fsm_event_t where "EV_RECONNECT_REQUESTED = 5"

lemmas wr_ids = WR_NO_CREDS_def WR_CONNECTING_def WR_CONNECTED_def WR_BACKOFF_def WR_ESCALATE_REBOOT_def WR_LEFT_def
  EV_GOT_IP_def EV_STA_DISCONNECTED_def EV_CONNECTING_TIMEOUT_def EV_BACKOFF_TIMEOUT_def EV_CREDS_ARRIVED_def
  EV_RECONNECT_REQUESTED_def

text \<open>Calls through the adapter.\<close>

datatype wr_effect =
    Connect | Connect_fresh | Disconnect | Reboot string | Emit_net bb_wifi_net_event_t bb_wifi_disc_reason_t

record wifi_reconn_ctx_t =
  wc_policy :: wifi_reconn_state_t
  wc_pending_backoff_ms :: nat
  wc_self_disconnect :: bool
  wc_log :: "wr_effect list"

text \<open>What one step sees: the reason byte \<^verbatim>\<open>evt_data\<close> points to, the clock as the escalate-allowed
  guard, the escalate-denied guard and the action read it, and the answer of \<^verbatim>\<open>reboot_allowed_fn\<close>.\<close>

record wr_input =
  in_reason :: "nat option"
  in_now_allowed :: int
  in_now_denied :: int
  in_now_act :: int
  in_reboot_allowed :: bool

definition wr_evt_reason :: "wr_input \<Rightarrow> nat" where
  "wr_evt_reason d = (case in_reason d of None \<Rightarrow> 0 | Some r \<Rightarrow> r)"

definition wr_reason :: "wr_input \<Rightarrow> bb_wifi_disc_reason_t" where
  "wr_reason d = bb_wifi_map_esp_reason (wr_evt_reason d)"

definition wr_would_escalate :: "wifi_reconn_state_t \<Rightarrow> int \<Rightarrow> bool" where
  "wr_would_escalate st now =
     (let first_fail = (if first_fail_us st \<noteq> 0 then first_fail_us st else now)
      in now - first_fail > WIFI_RECONN_PERSISTENT_FAIL_WINDOW_US)"

definition wr_disconnect_would_reconnect_now :: "wifi_reconn_state_t \<Rightarrow> bb_wifi_disc_reason_t \<Rightarrow> bool" where
  "wr_disconnect_would_reconnect_now st reason = (compute_backoff_ms (bump_bucket reason st) reason = 0)"

type_synonym wr_guard = "(wifi_reconn_ctx_t, wr_input) bb_fsm_guard_fn"
type_synonym wr_action = "(wifi_reconn_ctx_t, wr_input) bb_fsm_action_fn"

definition guard_disc_escalate_allowed :: wr_guard where
  "guard_disc_escalate_allowed ctx event d =
     (if \<not> wr_would_escalate (wc_policy ctx) (in_now_allowed d) then False else in_reboot_allowed d)"

definition guard_disc_escalate_denied :: wr_guard where
  "guard_disc_escalate_denied ctx event d = wr_would_escalate (wc_policy ctx) (in_now_denied d)"

definition guard_disc_reconnect_now :: wr_guard where
  "guard_disc_reconnect_now ctx event d = wr_disconnect_would_reconnect_now (wc_policy ctx) (wr_reason d)"

definition guard_timeout_escalate_allowed :: wr_guard where
  "guard_timeout_escalate_allowed ctx event d =
     (if \<not> wr_would_escalate (wc_policy ctx) (in_now_allowed d) then False else in_reboot_allowed d)"

definition guard_timeout_escalate_denied :: wr_guard where
  "guard_timeout_escalate_denied ctx event d = wr_would_escalate (wc_policy ctx) (in_now_denied d)"

definition guard_disc_is_assoc_leave :: wr_guard where
  "guard_disc_is_assoc_leave ctx event d = (wr_reason d = BB_WIFI_DISC_ASSOC_LEAVE)"

definition wr_call :: "wr_effect \<Rightarrow> wifi_reconn_ctx_t \<Rightarrow> wifi_reconn_ctx_t" where
  "wr_call e ctx = ctx\<lparr>wc_log := wc_log ctx @ [e]\<rparr>"

definition wr_arm :: "bb_fsm_event_t \<Rightarrow> nat \<Rightarrow> bb_fsm \<Rightarrow> bb_fsm" where
  "wr_arm ev ms fsm = the (snd (bb_fsm_arm_timer (Some fsm) ev ms))"

definition act_reset_state :: wr_action where
  "act_reset_state fsm ctx event d =
     (fsm, wr_call Connect (ctx\<lparr>wc_policy := wifi_reconn_state_reset (wc_policy ctx), wc_self_disconnect := False\<rparr>))"

definition act_creds_arrived_connect :: wr_action where
  "act_creds_arrived_connect fsm ctx event d =
     (fsm, wr_call Connect_fresh (ctx\<lparr>wc_policy := wifi_reconn_state_reset (wc_policy ctx), wc_self_disconnect := False\<rparr>))"

definition act_on_got_ip :: wr_action where
  "act_on_got_ip fsm ctx event d =
     (fsm, ctx\<lparr>wc_policy := wifi_reconn_policy_on_got_ip (wc_policy ctx), wc_pending_backoff_ms := 0\<rparr>)"

definition act_note_disconnect :: wr_action where
  "act_note_disconnect fsm ctx event d =
     (case on_disconnect_body (wc_policy ctx) (in_now_act d) (wr_reason d) 0 of (a, st, b) \<Rightarrow> (fsm, ctx\<lparr>wc_policy := st\<rparr>))"

definition act_disconnect_denied :: wr_action where
  "act_disconnect_denied fsm ctx event d =
     (case on_disconnect_body (wc_policy ctx) (in_now_act d) (wr_reason d) 0 of (a, st, b) \<Rightarrow>
        (fsm, wr_call (Emit_net BB_WIFI_NET_EVT_REBOOT_DENIED (wr_reason d))
                (ctx\<lparr>wc_policy := st, wc_pending_backoff_ms := WIFI_RECONN_GENERIC_BACKOFF_PAUSE_MS\<rparr>)))"

definition act_disconnect_park_no_reconnect :: wr_action where
  "act_disconnect_park_no_reconnect fsm ctx event d =
     (case on_disconnect_body (wc_policy ctx) (in_now_act d) (wr_reason d) 0 of (a, st, b) \<Rightarrow>
        (fsm, wr_call (Emit_net BB_WIFI_NET_EVT_RECONNECT_PARKED (wr_reason d)) (ctx\<lparr>wc_policy := st\<rparr>)))"

definition act_disconnect_reconnect_now :: wr_action where
  "act_disconnect_reconnect_now fsm ctx event d =
     (case on_disconnect_body (wc_policy ctx) (in_now_act d) (wr_reason d) 0 of (a, st, b) \<Rightarrow>
        (wr_arm EV_CONNECTING_TIMEOUT WIFI_RECONN_CONNECTING_TIMEOUT_MS fsm, wr_call Connect (ctx\<lparr>wc_policy := st\<rparr>)))"

definition act_disconnect_backoff :: wr_action where
  "act_disconnect_backoff fsm ctx event d =
     (case on_disconnect_body (wc_policy ctx) (in_now_act d) (wr_reason d) 0 of (a, st, b) \<Rightarrow>
        (fsm, ctx\<lparr>wc_policy := st, wc_pending_backoff_ms := b\<rparr>))"

definition act_note_timeout :: wr_action where
  "act_note_timeout fsm ctx event d =
     (case on_connect_timeout_body (wc_policy ctx) (in_now_act d) 0 of (a, st, b) \<Rightarrow> (fsm, ctx\<lparr>wc_policy := st\<rparr>))"

definition act_timeout_denied :: wr_action where
  "act_timeout_denied fsm ctx event d =
     (case on_connect_timeout_body (wc_policy ctx) (in_now_act d) 0 of (a, st, b) \<Rightarrow>
        (fsm, wr_call (Emit_net BB_WIFI_NET_EVT_REBOOT_DENIED BB_WIFI_DISC_UNKNOWN)
                (ctx\<lparr>wc_policy := st, wc_pending_backoff_ms := WIFI_RECONN_GENERIC_BACKOFF_PAUSE_MS\<rparr>)))"

definition act_timeout_reattempt :: wr_action where
  "act_timeout_reattempt fsm ctx event d =
     (case on_connect_timeout_body (wc_policy ctx) (in_now_act d) 0 of (a, st, b) \<Rightarrow>
        (wr_arm EV_CONNECTING_TIMEOUT WIFI_RECONN_CONNECTING_TIMEOUT_MS fsm,
         wr_call Connect (wr_call Disconnect (ctx\<lparr>wc_policy := st, wc_self_disconnect := True\<rparr>))))"

definition act_backoff_elapsed :: wr_action where
  "act_backoff_elapsed fsm ctx event d = (fsm, wr_call Connect ctx)"

definition wr_connecting_on_entry :: "wifi_reconn_ctx_t bb_fsm_hook_fn" where
  "wr_connecting_on_entry fsm ctx st = (wr_arm EV_CONNECTING_TIMEOUT WIFI_RECONN_CONNECTING_TIMEOUT_MS fsm, ctx)"

definition wr_backoff_on_entry :: "wifi_reconn_ctx_t bb_fsm_hook_fn" where
  "wr_backoff_on_entry fsm ctx st = (wr_arm EV_BACKOFF_TIMEOUT (wc_pending_backoff_ms ctx) fsm, ctx)"

definition wr_escalate_on_entry :: "wifi_reconn_ctx_t bb_fsm_hook_fn" where
  "wr_escalate_on_entry fsm ctx st = (fsm, wr_call (Reboot ''persistent disconnect'') ctx)"

definition wr_row :: "bb_fsm_state_t \<Rightarrow> bb_fsm_event_t \<Rightarrow> wr_guard option \<Rightarrow> wr_action option \<Rightarrow> bb_fsm_state_t
    \<Rightarrow> (wifi_reconn_ctx_t, wr_input) bb_fsm_row_t" where
  "wr_row s e g a n = \<lparr>row_state = s, row_event = e, row_guard = g, row_action = a, row_next = n\<rparr>"

definition wr_rows :: "(wifi_reconn_ctx_t, wr_input) bb_fsm_row_t list" where
  "wr_rows =
    [wr_row WR_NO_CREDS EV_CREDS_ARRIVED None (Some act_creds_arrived_connect) WR_CONNECTING,
     wr_row WR_CONNECTING EV_GOT_IP None (Some act_on_got_ip) WR_CONNECTED,
     wr_row WR_CONNECTING EV_STA_DISCONNECTED (Some guard_disc_is_assoc_leave) (Some act_disconnect_park_no_reconnect) WR_LEFT,
     wr_row WR_CONNECTING EV_STA_DISCONNECTED (Some guard_disc_escalate_allowed) (Some act_note_disconnect) WR_ESCALATE_REBOOT,
     wr_row WR_CONNECTING EV_STA_DISCONNECTED (Some guard_disc_escalate_denied) (Some act_disconnect_denied) WR_BACKOFF,
     wr_row WR_CONNECTING EV_STA_DISCONNECTED (Some guard_disc_reconnect_now) (Some act_disconnect_reconnect_now) BB_FSM_STATE_SAME,
     wr_row WR_CONNECTING EV_STA_DISCONNECTED None (Some act_disconnect_backoff) WR_BACKOFF,
     wr_row WR_CONNECTING EV_CONNECTING_TIMEOUT (Some guard_timeout_escalate_allowed) (Some act_note_timeout) WR_ESCALATE_REBOOT,
     wr_row WR_CONNECTING EV_CONNECTING_TIMEOUT (Some guard_timeout_escalate_denied) (Some act_timeout_denied) WR_BACKOFF,
     wr_row WR_CONNECTING EV_CONNECTING_TIMEOUT None (Some act_timeout_reattempt) BB_FSM_STATE_SAME,
     wr_row WR_CONNECTED EV_STA_DISCONNECTED (Some guard_disc_is_assoc_leave) (Some act_disconnect_park_no_reconnect) WR_LEFT,
     wr_row WR_CONNECTED EV_STA_DISCONNECTED (Some guard_disc_reconnect_now) (Some act_disconnect_reconnect_now) WR_CONNECTING,
     wr_row WR_CONNECTED EV_STA_DISCONNECTED None (Some act_disconnect_backoff) WR_BACKOFF,
     wr_row WR_BACKOFF EV_BACKOFF_TIMEOUT None (Some act_backoff_elapsed) WR_CONNECTING,
     wr_row WR_BACKOFF EV_STA_DISCONNECTED None None BB_FSM_STATE_SAME,
     wr_row WR_LEFT EV_RECONNECT_REQUESTED None (Some act_reset_state) WR_CONNECTING]"

definition wr_states :: "wifi_reconn_ctx_t bb_fsm_state_desc_t list" where
  "wr_states =
    [\<lparr>sd_state = WR_CONNECTING, on_entry = Some wr_connecting_on_entry, on_exit = None\<rparr>,
     \<lparr>sd_state = WR_BACKOFF, on_entry = Some wr_backoff_on_entry, on_exit = None\<rparr>,
     \<lparr>sd_state = WR_ESCALATE_REBOOT, on_entry = Some wr_escalate_on_entry, on_exit = None\<rparr>]"

definition wr_desc :: "bb_fsm_state_t \<Rightarrow> (wifi_reconn_ctx_t, wr_input) bb_fsm_desc_t" where
  "wr_desc ini = \<lparr>rows = Some wr_rows, row_count = length wr_rows, states = Some wr_states, state_count = length wr_states,
     initial = ini\<rparr>"


section \<open>How the policy computes\<close>

lemma compute_backoff_cong:
  assumes "handshake_fail_count s = handshake_fail_count t" "generic_fail_count s = generic_fail_count t"
    "slow_fail_count s = slow_fail_count t"
  shows "compute_backoff_ms s reason = compute_backoff_ms t reason"
  using assms by (simp add: compute_backoff_ms_def)

lemma bump_bucket_counts:
  "handshake_fail_count (bump_bucket r s) = handshake_fail_count s + (if r = BB_WIFI_DISC_HANDSHAKE_TIMEOUT then 1 else 0)"
  "slow_fail_count (bump_bucket r s) = slow_fail_count s + (if r = BB_WIFI_DISC_AUTH_FAIL \<or> r = BB_WIFI_DISC_NO_AP_FOUND then 1 else 0)"
  "generic_fail_count (bump_bucket r s) = generic_fail_count s +
     (if r = BB_WIFI_DISC_HANDSHAKE_TIMEOUT \<or> r = BB_WIFI_DISC_AUTH_FAIL \<or> r = BB_WIFI_DISC_NO_AP_FOUND then 0 else 1)"
  "first_fail_us (bump_bucket r s) = first_fail_us s"
  by (auto simp: bump_bucket_def)

text \<open>The mutating call agrees with the peeking guards, when both see the same side of the window.\<close>

lemma on_disconnect_body_spec:
  fixes st :: wifi_reconn_state_t
  shows "snd (snd (on_disconnect_body st now reason b0)) =
     (if wr_would_escalate st now then b0 else compute_backoff_ms (bump_bucket reason st) reason)"
    "fst (on_disconnect_body st now reason b0) =
     (if wr_would_escalate st now then WIFI_RECONN_ACTION_REBOOT
      else if wr_disconnect_would_reconnect_now st reason then WIFI_RECONN_ACTION_RECONNECT_NOW
      else WIFI_RECONN_ACTION_SCHEDULE_BACKOFF)"
proof -
  let ?st1 = "st\<lparr>last_reason := reason, last_disconnect_us := now,
                   reason_histogram := hist_bump (disc_ord reason) (reason_histogram st),
                   retry_count := retry_count st + 1,
                   first_fail_us := if first_fail_us st = 0 then now else first_fail_us st\<rparr>"
  have c: "compute_backoff_ms (bump_bucket reason ?st1) reason = compute_backoff_ms (bump_bucket reason st) reason"
    by (rule compute_backoff_cong) (simp_all add: bump_bucket_counts)
  have w: "now - first_fail_us (bump_bucket reason ?st1) > WIFI_RECONN_PERSISTENT_FAIL_WINDOW_US \<longleftrightarrow> wr_would_escalate st now"
    by (simp add: bump_bucket_counts wr_would_escalate_def)
  show "snd (snd (on_disconnect_body st now reason b0)) =
     (if wr_would_escalate st now then b0 else compute_backoff_ms (bump_bucket reason st) reason)"
    "fst (on_disconnect_body st now reason b0) =
     (if wr_would_escalate st now then WIFI_RECONN_ACTION_REBOOT
      else if wr_disconnect_would_reconnect_now st reason then WIFI_RECONN_ACTION_RECONNECT_NOW
      else WIFI_RECONN_ACTION_SCHEDULE_BACKOFF)"
    unfolding on_disconnect_body_def Let_def w c by (simp_all add: wr_disconnect_would_reconnect_now_def)
qed

lemma fresh_never_escalates: "first_fail_us st = 0 \<Longrightarrow> \<not> wr_would_escalate st now"
  by (simp add: wr_would_escalate_def WIFI_RECONN_PERSISTENT_FAIL_WINDOW_US_def)

section \<open>The table, row by row\<close>

lemmas fsm_marks = BB_FSM_STATE_ANY_def BB_FSM_STATE_SAME_def BB_FSM_STATE_TERMINAL_def
lemmas wr_table = find_row_def wr_desc_def wr_rows_def wr_row_def row_matches_def

lemma wr_find_no_creds:
  "find_row (wr_desc i) ctx WR_NO_CREDS ev d =
     (if ev = EV_CREDS_ARRIVED then Some (wr_row WR_NO_CREDS EV_CREDS_ARRIVED None (Some act_creds_arrived_connect) WR_CONNECTING) else None)"
  by (simp add: wr_table wr_ids fsm_marks)

lemma wr_find_connecting:
  "find_row (wr_desc i) ctx WR_CONNECTING ev d =
     (if ev = EV_GOT_IP then Some (wr_row WR_CONNECTING EV_GOT_IP None (Some act_on_got_ip) WR_CONNECTED)
      else if ev = EV_STA_DISCONNECTED then Some
        (if guard_disc_is_assoc_leave ctx ev d
         then wr_row WR_CONNECTING EV_STA_DISCONNECTED (Some guard_disc_is_assoc_leave) (Some act_disconnect_park_no_reconnect) WR_LEFT
         else if guard_disc_escalate_allowed ctx ev d
         then wr_row WR_CONNECTING EV_STA_DISCONNECTED (Some guard_disc_escalate_allowed) (Some act_note_disconnect) WR_ESCALATE_REBOOT
         else if guard_disc_escalate_denied ctx ev d
         then wr_row WR_CONNECTING EV_STA_DISCONNECTED (Some guard_disc_escalate_denied) (Some act_disconnect_denied) WR_BACKOFF
         else if guard_disc_reconnect_now ctx ev d
         then wr_row WR_CONNECTING EV_STA_DISCONNECTED (Some guard_disc_reconnect_now) (Some act_disconnect_reconnect_now) BB_FSM_STATE_SAME
         else wr_row WR_CONNECTING EV_STA_DISCONNECTED None (Some act_disconnect_backoff) WR_BACKOFF)
      else if ev = EV_CONNECTING_TIMEOUT then Some
        (if guard_timeout_escalate_allowed ctx ev d
         then wr_row WR_CONNECTING EV_CONNECTING_TIMEOUT (Some guard_timeout_escalate_allowed) (Some act_note_timeout) WR_ESCALATE_REBOOT
         else if guard_timeout_escalate_denied ctx ev d
         then wr_row WR_CONNECTING EV_CONNECTING_TIMEOUT (Some guard_timeout_escalate_denied) (Some act_timeout_denied) WR_BACKOFF
         else wr_row WR_CONNECTING EV_CONNECTING_TIMEOUT None (Some act_timeout_reattempt) BB_FSM_STATE_SAME)
      else None)"
  by (simp add: wr_table wr_ids fsm_marks)

lemma wr_find_connected:
  "find_row (wr_desc i) ctx WR_CONNECTED ev d =
     (if ev = EV_STA_DISCONNECTED then Some
        (if guard_disc_is_assoc_leave ctx ev d
         then wr_row WR_CONNECTED EV_STA_DISCONNECTED (Some guard_disc_is_assoc_leave) (Some act_disconnect_park_no_reconnect) WR_LEFT
         else if guard_disc_reconnect_now ctx ev d
         then wr_row WR_CONNECTED EV_STA_DISCONNECTED (Some guard_disc_reconnect_now) (Some act_disconnect_reconnect_now) WR_CONNECTING
         else wr_row WR_CONNECTED EV_STA_DISCONNECTED None (Some act_disconnect_backoff) WR_BACKOFF)
      else None)"
  by (simp add: wr_table wr_ids fsm_marks)

lemma wr_find_backoff:
  "find_row (wr_desc i) ctx WR_BACKOFF ev d =
     (if ev = EV_BACKOFF_TIMEOUT then Some (wr_row WR_BACKOFF EV_BACKOFF_TIMEOUT None (Some act_backoff_elapsed) WR_CONNECTING)
      else if ev = EV_STA_DISCONNECTED then Some (wr_row WR_BACKOFF EV_STA_DISCONNECTED None None BB_FSM_STATE_SAME) else None)"
  by (simp add: wr_table wr_ids fsm_marks)

lemma wr_find_left:
  "find_row (wr_desc i) ctx WR_LEFT ev d =
     (if ev = EV_RECONNECT_REQUESTED then Some (wr_row WR_LEFT EV_RECONNECT_REQUESTED None (Some act_reset_state) WR_CONNECTING) else None)"
  by (simp add: wr_table wr_ids fsm_marks)

lemma wr_find_escalate: "find_row (wr_desc i) ctx WR_ESCALATE_REBOOT ev d = None"
  by (simp add: wr_table wr_ids fsm_marks)

lemmas wr_find = wr_find_no_creds wr_find_connecting wr_find_connected wr_find_backoff wr_find_left wr_find_escalate

lemma wr_run_exit [simp]: "run_exit (wr_desc i) fsm ctx st = (fsm, ctx)"
  by (auto simp: run_exit_def find_state_desc_def wr_desc_def wr_states_def split: option.splits dest!: find_SomeD(1))

lemma wr_run_entry:
  "run_entry (wr_desc i) fsm ctx st =
     (if st = WR_CONNECTING then wr_connecting_on_entry fsm ctx st
      else if st = WR_BACKOFF then wr_backoff_on_entry fsm ctx st
      else if st = WR_ESCALATE_REBOOT then wr_escalate_on_entry fsm ctx st else (fsm, ctx))"
  by (simp add: run_entry_def find_state_desc_def wr_desc_def wr_states_def)

lemma wr_arm_one:
  assumes "fsm_desc fsm" "fsm_timers fsm = [t]" "\<not> tm_armed t \<or> tm_event t = ev" "ms \<noteq> 0"
  shows "wr_arm ev ms fsm = fsm\<lparr>fsm_timers := [\<lparr>tm_event = ev, tm_ms = ms, tm_armed = True\<rparr>]\<rparr>"
  using assms by (auto simp: wr_arm_def bb_fsm_arm_timer_def Let_def intro: bb_fsm_timer.equality)

lemma wr_arm_zero:
  assumes "fsm_desc fsm" "fsm_timers fsm = [t]" "\<not> tm_armed t"
  shows "wr_arm ev 0 fsm = fsm"
  using assms by (auto simp: wr_arm_def bb_fsm_arm_timer_def Let_def)

text \<open>A transition of the table, once its row is known.\<close>

lemma wr_step_same:
  assumes "fsm_desc fsm" "\<not> fsm_terminal fsm" "find_row (wr_desc i) ctx (fsm_current fsm) ev d = Some row"
    "row_next row = BB_FSM_STATE_SAME"
  shows "bb_fsm_step (wr_desc i) (Some fsm) ctx ev d =
     (let (f1, c1) = (case row_action row of None \<Rightarrow> (fsm, ctx) | Some a \<Rightarrow> a fsm ctx ev d) in (BB_OK, Some f1, c1))"
  using assms by (simp add: bb_fsm_step_def Let_def)

lemma wr_step_to:
  assumes "fsm_desc fsm" "\<not> fsm_terminal fsm" "find_row (wr_desc i) ctx (fsm_current fsm) ev d = Some row"
    "row_next row = st" "st \<noteq> BB_FSM_STATE_SAME" "st \<noteq> BB_FSM_STATE_TERMINAL"
    "row_action row = Some a" "a fsm ctx ev d = (f1, c1)"
  shows "bb_fsm_step (wr_desc i) (Some fsm) ctx ev d =
     (case run_entry (wr_desc i) ((clear_timers f1)\<lparr>fsm_current := st\<rparr>) c1 st of (f4, c4) \<Rightarrow> (BB_OK, Some f4, c4))"
  using assms by (simp add: bb_fsm_step_def Let_def)

lemma wr_enter:
  assumes "fsm_desc f" and "fsm_timers f = [t]"
  shows "run_entry (wr_desc i) ((clear_timers f)\<lparr>fsm_current := st\<rparr>) c st =
     (if st = WR_CONNECTING
      then (f\<lparr>fsm_current := st, fsm_timers := [\<lparr>tm_event = EV_CONNECTING_TIMEOUT, tm_ms = WIFI_RECONN_CONNECTING_TIMEOUT_MS, tm_armed = True\<rparr>]\<rparr>, c)
      else if st = WR_BACKOFF
      then (f\<lparr>fsm_current := st, fsm_timers :=
              [if wc_pending_backoff_ms c = 0 then t\<lparr>tm_armed := False\<rparr>
               else \<lparr>tm_event = EV_BACKOFF_TIMEOUT, tm_ms = wc_pending_backoff_ms c, tm_armed = True\<rparr>]\<rparr>, c)
      else if st = WR_ESCALATE_REBOOT
      then (f\<lparr>fsm_current := st, fsm_timers := [t\<lparr>tm_armed := False\<rparr>]\<rparr>, wr_call (Reboot ''persistent disconnect'') c)
      else (f\<lparr>fsm_current := st, fsm_timers := [t\<lparr>tm_armed := False\<rparr>]\<rparr>, c))"
proof -
  define g where "g = (clear_timers f)\<lparr>fsm_current := st\<rparr>"
  have g: "g = f\<lparr>fsm_current := st, fsm_timers := [t\<lparr>tm_armed := False\<rparr>]\<rparr>" "fsm_desc g" "fsm_timers g = [t\<lparr>tm_armed := False\<rparr>]"
    using assms by (simp_all add: g_def clear_timers_def)
  have arm: "wr_arm ev ms g = (if ms = 0 then g else g\<lparr>fsm_timers := [\<lparr>tm_event = ev, tm_ms = ms, tm_armed = True\<rparr>]\<rparr>)" for ev ms
    using wr_arm_one [OF g(2,3)] wr_arm_zero [OF g(2,3)] by simp
  show ?thesis
    unfolding g_def [symmetric] wr_run_entry wr_connecting_on_entry_def wr_backoff_on_entry_def wr_escalate_on_entry_def arm
    using g(1) by (simp add: WIFI_RECONN_CONNECTING_TIMEOUT_MS_def)
qed

section \<open>Invariant of a driven machine\<close>

text \<open>Which timer each state keeps armed; \<^verbatim>\<open>BB_FSM_MAX_TIMERS\<close> is 1.\<close>

definition wr_timer_ok :: "bb_fsm_state_t \<Rightarrow> bb_fsm_timer \<Rightarrow> bool" where
  "wr_timer_ok st t \<longleftrightarrow>
     (if st = WR_CONNECTING
      then tm_armed t \<and> tm_event t = EV_CONNECTING_TIMEOUT \<and> tm_ms t = WIFI_RECONN_CONNECTING_TIMEOUT_MS
      else if st = WR_BACKOFF then tm_armed t \<and> tm_event t = EV_BACKOFF_TIMEOUT \<and> 0 < tm_ms t
      else \<not> tm_armed t)"

definition wr_inv :: "bb_fsm \<Rightarrow> wifi_reconn_ctx_t \<Rightarrow> bool" where
  "wr_inv f ctx \<longleftrightarrow> fsm_desc f \<and> \<not> fsm_terminal f \<and> (\<exists>t. fsm_timers f = [t] \<and> wr_timer_ok (fsm_current f) t) \<and>
     fsm_current f \<in> {WR_NO_CREDS, WR_CONNECTING, WR_CONNECTED, WR_BACKOFF, WR_ESCALATE_REBOOT, WR_LEFT} \<and>
     (fsm_current f = WR_CONNECTED \<longrightarrow> first_fail_us (wc_policy ctx) = 0)"


lemma backoff_stashed:
  assumes "\<not> wr_would_escalate (wc_policy ctx) (in_now_act d)" and "\<not> guard_disc_reconnect_now ctx ev d"
    and "act_disconnect_backoff f ctx ev d = (f1, c1)"
  shows "f1 = f" "0 < wc_pending_backoff_ms c1"
    "wc_pending_backoff_ms c1 = compute_backoff_ms (bump_bucket (wr_reason d) (wc_policy ctx)) (wr_reason d)"
proof -
  obtain a st b where b: "on_disconnect_body (wc_policy ctx) (in_now_act d) (wr_reason d) 0 = (a, st, b)"
    by (metis prod_cases3)
  then have "b = compute_backoff_ms (bump_bucket (wr_reason d) (wc_policy ctx)) (wr_reason d)"
    using on_disconnect_body_spec(1) [of "wc_policy ctx" "in_now_act d" "wr_reason d" 0] assms(1) by simp
  then show "f1 = f" "0 < wc_pending_backoff_ms c1"
    "wc_pending_backoff_ms c1 = compute_backoff_ms (bump_bucket (wr_reason d) (wc_policy ctx)) (wr_reason d)"
    using assms(2,3) b
    by (auto simp: act_disconnect_backoff_def guard_disc_reconnect_now_def wr_disconnect_would_reconnect_now_def)
qed


text \<open>What the actions do to the machine and to the stash.\<close>

lemma wr_actions_fst:
  "fst (act_reset_state f ctx ev d) = f" "fst (act_creds_arrived_connect f ctx ev d) = f" "fst (act_on_got_ip f ctx ev d) = f"
  "fst (act_note_disconnect f ctx ev d) = f" "fst (act_disconnect_denied f ctx ev d) = f"
  "fst (act_disconnect_park_no_reconnect f ctx ev d) = f" "fst (act_disconnect_backoff f ctx ev d) = f"
  "fst (act_note_timeout f ctx ev d) = f" "fst (act_timeout_denied f ctx ev d) = f" "fst (act_backoff_elapsed f ctx ev d) = f"
  "fst (act_disconnect_reconnect_now f ctx ev d) = wr_arm EV_CONNECTING_TIMEOUT WIFI_RECONN_CONNECTING_TIMEOUT_MS f"
  "fst (act_timeout_reattempt f ctx ev d) = wr_arm EV_CONNECTING_TIMEOUT WIFI_RECONN_CONNECTING_TIMEOUT_MS f"
  by (simp_all add: act_reset_state_def act_creds_arrived_connect_def act_on_got_ip_def act_note_disconnect_def
      act_disconnect_denied_def act_disconnect_park_no_reconnect_def act_disconnect_backoff_def act_note_timeout_def
      act_timeout_denied_def act_backoff_elapsed_def act_disconnect_reconnect_now_def act_timeout_reattempt_def split: prod.splits)



lemma wr_rearm_inv:
  assumes inv: "wr_inv f ctx" and cur: "fsm_current f = WR_CONNECTING \<or> fsm_current f = WR_CONNECTED"
  shows "wr_arm EV_CONNECTING_TIMEOUT WIFI_RECONN_CONNECTING_TIMEOUT_MS f =
      f\<lparr>fsm_timers := [\<lparr>tm_event = EV_CONNECTING_TIMEOUT, tm_ms = WIFI_RECONN_CONNECTING_TIMEOUT_MS, tm_armed = True\<rparr>]\<rparr>"
proof -
  obtain t where t: "fsm_timers f = [t]" "wr_timer_ok (fsm_current f) t" "fsm_desc f" using inv by (auto simp: wr_inv_def)
  have "\<not> tm_armed t \<or> tm_event t = EV_CONNECTING_TIMEOUT" using t(2) cur by (auto simp: wr_timer_ok_def wr_ids)
  then show ?thesis by (rule wr_arm_one [OF t(3,1)]) (simp add: WIFI_RECONN_CONNECTING_TIMEOUT_MS_def)
qed










text \<open>Effects of the actions on the log.\<close>

lemma wr_action_logs:
  "wc_log (snd (act_reset_state f ctx ev d)) = wc_log ctx @ [Connect]"
  "wc_log (snd (act_creds_arrived_connect f ctx ev d)) = wc_log ctx @ [Connect_fresh]"
  "wc_log (snd (act_on_got_ip f ctx ev d)) = wc_log ctx"
  "wc_log (snd (act_note_disconnect f ctx ev d)) = wc_log ctx"
  "wc_log (snd (act_disconnect_denied f ctx ev d)) = wc_log ctx @ [Emit_net BB_WIFI_NET_EVT_REBOOT_DENIED (wr_reason d)]"
  "wc_log (snd (act_disconnect_park_no_reconnect f ctx ev d)) = wc_log ctx @ [Emit_net BB_WIFI_NET_EVT_RECONNECT_PARKED (wr_reason d)]"
  "wc_log (snd (act_disconnect_reconnect_now f ctx ev d)) = wc_log ctx @ [Connect]"
  "wc_log (snd (act_disconnect_backoff f ctx ev d)) = wc_log ctx"
  "wc_log (snd (act_note_timeout f ctx ev d)) = wc_log ctx"
  "wc_log (snd (act_timeout_denied f ctx ev d)) = wc_log ctx @ [Emit_net BB_WIFI_NET_EVT_REBOOT_DENIED BB_WIFI_DISC_UNKNOWN]"
  "wc_log (snd (act_timeout_reattempt f ctx ev d)) = wc_log ctx @ [Disconnect, Connect]"
  "wc_log (snd (act_backoff_elapsed f ctx ev d)) = wc_log ctx @ [Connect]"
  by (simp_all add: act_reset_state_def act_creds_arrived_connect_def act_on_got_ip_def act_note_disconnect_def
      act_disconnect_denied_def act_disconnect_park_no_reconnect_def act_disconnect_backoff_def act_note_timeout_def
      act_timeout_denied_def act_backoff_elapsed_def act_disconnect_reconnect_now_def act_timeout_reattempt_def wr_call_def
      split: prod.splits)

lemma wr_entry_log:
  "wc_log (snd (run_entry (wr_desc i) g c st)) =
     wc_log c @ (if st = WR_ESCALATE_REBOOT then [Reboot ''persistent disconnect''] else [])"
  by (simp add: wr_run_entry wr_connecting_on_entry_def wr_backoff_on_entry_def wr_escalate_on_entry_def wr_call_def wr_ids)

lemma wr_step_log:
  assumes "bb_fsm_step (wr_desc i) (Some f) ctx ev d = (er, Some f', ctx')"
    and "find_row (wr_desc i) ctx (fsm_current f) ev d = Some row" and "fsm_desc f" and "\<not> fsm_terminal f"
    and "row_next row \<noteq> BB_FSM_STATE_TERMINAL"
  shows "wc_log ctx' = wc_log (case row_action row of None \<Rightarrow> ctx | Some a \<Rightarrow> snd (a f ctx ev d)) @
     (if row_next row = WR_ESCALATE_REBOOT then [Reboot ''persistent disconnect''] else [])"
proof -
  obtain f1 c1 where a: "(case row_action row of None \<Rightarrow> (f, ctx) | Some a \<Rightarrow> a f ctx ev d) = (f1, c1)" by fastforce
  then have c1: "c1 = (case row_action row of None \<Rightarrow> ctx | Some a \<Rightarrow> snd (a f ctx ev d))" by (auto split: option.splits)
  show ?thesis
  proof (cases "row_next row = BB_FSM_STATE_SAME")
    case True
    then have "row_next row \<noteq> WR_ESCALATE_REBOOT" by (simp add: wr_ids fsm_marks)
    then show ?thesis using assms a True c1 by (simp add: bb_fsm_step_def)
  next
    case False
    then have "snd (run_entry (wr_desc i) ((clear_timers f1)\<lparr>fsm_current := row_next row\<rparr>) c1 (row_next row)) = ctx'"
      using assms a by (auto simp: bb_fsm_step_def Let_def split: prod.splits)
    then show ?thesis unfolding c1 [symmetric] using wr_entry_log by metis
  qed
qed

section \<open>Properties\<close>


definition wr_policy0 :: wifi_reconn_state_t where
  "wr_policy0 = \<lparr>handshake_fail_count = 0, generic_fail_count = 0, slow_fail_count = 0, first_fail_us = 0, retry_count = 0,
     last_reason = BB_WIFI_DISC_UNKNOWN, last_disconnect_us = 0, reason_histogram = replicate 13 0, lost_ip_count = 0,
     last_lost_ip_us = 0\<rparr>"

definition wr_ctx0 :: wifi_reconn_ctx_t where
  "wr_ctx0 = \<lparr>wc_policy = wr_policy0, wc_pending_backoff_ms = 0, wc_self_disconnect = False, wc_log = []\<rparr>"


definition wr_at :: "int \<Rightarrow> nat \<Rightarrow> wr_input" where
  "wr_at now reason = \<lparr>in_reason = Some reason, in_now_allowed = now, in_now_denied = now, in_now_act = now, in_reboot_allowed = True\<rparr>"

definition wr_started :: bb_fsm where
  "wr_started = \<lparr>fsm_desc = True, fsm_current = WR_CONNECTING, fsm_terminal = False,
     fsm_timers = [\<lparr>tm_event = EV_CONNECTING_TIMEOUT, tm_ms = 30000, tm_armed = True\<rparr>]\<rparr>"



text \<open>C14: a reboot needs both the exceeded window and the permission. Whatever the state of the machine
  and the event, the calls a step makes are appended to the log, and they contain a reboot only if the machine was
  connecting, the failures have lasted longer than the window, and the reboot safeguard allowed
  it in that very step.\<close>

theorem wifi_reboot_needs_permission:
  assumes step: "bb_fsm_step (wr_desc i) (Some f) ctx ev d = (er, Some f', ctx')"
  shows "\<exists>es. wc_log ctx' = wc_log ctx @ es \<and>
    (\<forall>why. Reboot why \<in> set es \<longrightarrow>
       fsm_current f = WR_CONNECTING \<and> ev \<in> {EV_STA_DISCONNECTED, EV_CONNECTING_TIMEOUT} \<and>
       in_reboot_allowed d \<and> wr_would_escalate (wc_policy ctx) (in_now_allowed d))"
proof (cases "\<not> fsm_desc f \<or> fsm_terminal f \<or> find_row (wr_desc i) ctx (fsm_current f) ev d = None")
  case True
  then have "ctx' = ctx" using step by (auto simp: bb_fsm_step_def split: if_splits)
  then show ?thesis by simp
next
  case False
  then obtain row where row: "find_row (wr_desc i) ctx (fsm_current f) ev d = Some row" and fd: "fsm_desc f" "\<not> fsm_terminal f" by auto
  have mem: "row \<in> set wr_rows" and m: "row_matches (fsm_current f) ev ctx d row"
    using row by (auto simp: find_row_def wr_desc_def dest: find_SomeD)
  have nt: "row_next row \<noteq> BB_FSM_STATE_TERMINAL" using mem by (auto simp: wr_rows_def wr_row_def wr_ids fsm_marks)
  define c1 where "c1 = (case row_action row of None \<Rightarrow> ctx | Some a \<Rightarrow> snd (a f ctx ev d))"
  have log: "wc_log ctx' = wc_log c1 @ (if row_next row = WR_ESCALATE_REBOOT then [Reboot ''persistent disconnect''] else [])"
    using wr_step_log [OF step row fd nt] by (simp add: c1_def)
  have own: "\<exists>es. wc_log c1 = wc_log ctx @ es \<and> (\<forall>why. Reboot why \<notin> set es)"
    using mem by (auto simp: c1_def wr_rows_def wr_row_def wr_action_logs)
  have esc: "fsm_current f = WR_CONNECTING \<and> ev \<in> {EV_STA_DISCONNECTED, EV_CONNECTING_TIMEOUT} \<and>
       in_reboot_allowed d \<and> wr_would_escalate (wc_policy ctx) (in_now_allowed d)"
    if "row_next row = WR_ESCALATE_REBOOT"
    using mem m that
    by (auto simp: wr_rows_def wr_row_def row_matches_def guard_disc_escalate_allowed_def guard_timeout_escalate_allowed_def
        wr_ids fsm_marks split: if_splits)
  obtain es where es: "wc_log c1 = wc_log ctx @ es" "\<forall>why. Reboot why \<notin> set es" using own by blast
  show ?thesis
    by (rule exI [of _ "es @ (if row_next row = WR_ESCALATE_REBOOT then [Reboot ''persistent disconnect''] else [])"])
      (use log es esc in auto)
qed

definition wr_old_ctx :: wifi_reconn_ctx_t where
  "wr_old_ctx = wr_ctx0\<lparr>wc_policy := wr_policy0\<lparr>first_fail_us := 5\<rparr>\<rparr>"

theorem wifi_reboot_needs_permission_witness:
  "\<exists>f' ctx'. bb_fsm_step (wr_desc WR_CONNECTING) (Some wr_started) wr_old_ctx EV_CONNECTING_TIMEOUT (wr_at 300000006 0) = (BB_OK, Some f', ctx') \<and>
     wc_log ctx' = [Reboot ''persistent disconnect''] \<and> wr_would_escalate (wc_policy wr_old_ctx) 300000006"
proof -
  let ?d = "wr_at 300000006 0"
  have g: "guard_timeout_escalate_allowed wr_old_ctx EV_CONNECTING_TIMEOUT ?d"
    by (simp add: guard_timeout_escalate_allowed_def wr_would_escalate_def wr_old_ctx_def wr_policy0_def wr_at_def
        WIFI_RECONN_PERSISTENT_FAIL_WINDOW_US_def)
  have cur: "fsm_current wr_started = WR_CONNECTING" and fd: "fsm_desc wr_started" "\<not> fsm_terminal wr_started"
    by (simp_all add: wr_started_def)
  have row: "find_row (wr_desc WR_CONNECTING) wr_old_ctx (fsm_current wr_started) EV_CONNECTING_TIMEOUT ?d =
      Some (wr_row WR_CONNECTING EV_CONNECTING_TIMEOUT (Some guard_timeout_escalate_allowed) (Some act_note_timeout) WR_ESCALATE_REBOOT)"
    unfolding cur wr_find_connecting using g by (simp add: wr_ids)
  have ne: "WR_ESCALATE_REBOOT \<noteq> BB_FSM_STATE_SAME" "WR_ESCALATE_REBOOT \<noteq> BB_FSM_STATE_TERMINAL" by (simp_all add: wr_ids fsm_marks)
  obtain f1 c1 where ac: "act_note_timeout wr_started wr_old_ctx EV_CONNECTING_TIMEOUT ?d = (f1, c1)" by fastforce
  obtain f' ctx' where s: "bb_fsm_step (wr_desc WR_CONNECTING) (Some wr_started) wr_old_ctx EV_CONNECTING_TIMEOUT ?d = (BB_OK, Some f', ctx')"
    using wr_step_to [OF fd row, of WR_ESCALATE_REBOOT act_note_timeout f1 c1] ne ac by (simp add: wr_row_def split: prod.splits)
  have l: "wc_log ctx' = [Reboot ''persistent disconnect'']"
    using wr_step_log [OF s row fd] ne by (simp add: wr_row_def wr_action_logs wr_old_ctx_def wr_ctx0_def)
  have "wr_would_escalate (wc_policy wr_old_ctx) (in_now_allowed ?d)"
    using wifi_reboot_needs_permission [OF s] l by (auto simp: wr_old_ctx_def wr_ctx0_def)
  then show ?thesis using s l by (auto simp: wr_at_def)
qed

definition ladder_ms :: "bb_wifi_disc_reason_t \<Rightarrow> wifi_reconn_state_t \<Rightarrow> nat" where
  "ladder_ms r st =
     (if r \<in> {BB_WIFI_DISC_AUTH_FAIL, BB_WIFI_DISC_NO_AP_FOUND} then (if slow_fail_count st < 3 then 30000 else 120000)
      else if r = BB_WIFI_DISC_HANDSHAKE_TIMEOUT
      then (if handshake_fail_count st < 3 then 0 else if handshake_fail_count st < 6 then 10000 else 30000)
      else if generic_fail_count st < 10 then 0 else 5000)"

lemma ladder_compute: "compute_backoff_ms (bump_bucket r st) r = ladder_ms r st"
  by (auto simp: compute_backoff_ms_def bump_bucket_counts ladder_ms_def wifi_consts WIFI_RECONN_HANDSHAKE_FAST_RETRY_LIMIT_def
      WIFI_RECONN_HANDSHAKE_TIER2_LIMIT_def WIFI_RECONN_SLOW_TIER1_LIMIT_def WIFI_RECONN_GENERIC_FAST_RETRY_LIMIT_def)

text \<open>The backoff ladder. A real disconnect of a connecting or connected machine, with a reason other than
  association-leave and inside the failure window, reconnects at once or waits, as the reason's own counter says: wrong
  credentials and absent access points never retry at once (30 s, after the third 120 s), handshake
  timeouts three times at once, then 10 s and from the seventh 30 s, all others ten times at once, then 5 s.\<close>
theorem wifi_backoff_ladder:
  assumes inv: "wr_inv f ctx" and cur: "fsm_current f = WR_CONNECTING \<or> fsm_current f = WR_CONNECTED"
    and r: "wr_reason d \<noteq> BB_WIFI_DISC_ASSOC_LEAVE"
    and window: "\<not> wr_would_escalate (wc_policy ctx) (in_now_allowed d)" "\<not> wr_would_escalate (wc_policy ctx) (in_now_denied d)"
      "\<not> wr_would_escalate (wc_policy ctx) (in_now_act d)"
    and step: "bb_fsm_step (wr_desc i) (Some f) ctx EV_STA_DISCONNECTED d = (er, Some f', ctx')"
  shows "er = BB_OK \<and>
    (let ms = ladder_ms (wr_reason d) (wc_policy ctx) in
     if ms = 0 then fsm_current f' = WR_CONNECTING \<and> wc_log ctx' = wc_log ctx @ [Connect] \<and>
       bb_fsm_timer_at (Some f') 0 = Some (EV_CONNECTING_TIMEOUT, 30000)
     else fsm_current f' = WR_BACKOFF \<and> wc_log ctx' = wc_log ctx \<and>
       bb_fsm_timer_at (Some f') 0 = Some (EV_BACKOFF_TIMEOUT, ms))"
proof -
  let ?ms = "ladder_ms (wr_reason d) (wc_policy ctx)" and ?ev = "EV_STA_DISCONNECTED"
  obtain t where t: "fsm_timers f = [t]" and fd: "fsm_desc f" "\<not> fsm_terminal f" using inv by (auto simp: wr_inv_def)
  have gu: "\<not> guard_disc_is_assoc_leave ctx ?ev d" "\<not> guard_disc_escalate_allowed ctx ?ev d" "\<not> guard_disc_escalate_denied ctx ?ev d"
    "guard_disc_reconnect_now ctx ?ev d \<longleftrightarrow> ?ms = 0"
    using r window by (simp_all add: guard_disc_is_assoc_leave_def guard_disc_escalate_allowed_def guard_disc_escalate_denied_def
        guard_disc_reconnect_now_def wr_disconnect_would_reconnect_now_def ladder_compute)
  have ev: "?ev \<noteq> EV_GOT_IP" and two: "WR_CONNECTED \<noteq> WR_CONNECTING" by (simp_all add: wr_ids)
  show ?thesis
  proof (cases "?ms = 0")
    case True
    have row: "\<exists>st. find_row (wr_desc i) ctx (fsm_current f) ?ev d =
        Some (wr_row (fsm_current f) ?ev (Some guard_disc_reconnect_now) (Some act_disconnect_reconnect_now) st) \<and>
        (if fsm_current f = WR_CONNECTING then st = BB_FSM_STATE_SAME else st = WR_CONNECTING)"
      using cur gu ev two True by (auto simp: wr_find_connecting wr_find_connected)
    then obtain st where row: "find_row (wr_desc i) ctx (fsm_current f) ?ev d =
        Some (wr_row (fsm_current f) ?ev (Some guard_disc_reconnect_now) (Some act_disconnect_reconnect_now) st)"
      and st: "if fsm_current f = WR_CONNECTING then st = BB_FSM_STATE_SAME else st = WR_CONNECTING" by blast
    obtain f1 c1 where ac: "act_disconnect_reconnect_now f ctx ?ev d = (f1, c1)" by fastforce
    have f1: "f1 = f\<lparr>fsm_timers := [\<lparr>tm_event = EV_CONNECTING_TIMEOUT, tm_ms = WIFI_RECONN_CONNECTING_TIMEOUT_MS, tm_armed = True\<rparr>]\<rparr>"
      using ac wr_actions_fst(11) [of f ctx ?ev d] wr_rearm_inv [OF inv cur] by simp
    have c1: "wc_log c1 = wc_log ctx @ [Connect]" using ac wr_action_logs(7) [of f ctx ?ev d] by simp
    have f1d: "fsm_desc f1" "fsm_timers f1 = [\<lparr>tm_event = EV_CONNECTING_TIMEOUT, tm_ms = WIFI_RECONN_CONNECTING_TIMEOUT_MS, tm_armed = True\<rparr>]"
      using f1 fd by simp_all
    have ne: "WR_CONNECTING \<noteq> BB_FSM_STATE_SAME" "WR_CONNECTING \<noteq> BB_FSM_STATE_TERMINAL" by (simp_all add: wr_ids fsm_marks)
    have "er = BB_OK \<and> fsm_current f' = WR_CONNECTING \<and> ctx' = c1 \<and>
        fsm_timers f' = [\<lparr>tm_event = EV_CONNECTING_TIMEOUT, tm_ms = WIFI_RECONN_CONNECTING_TIMEOUT_MS, tm_armed = True\<rparr>]"
    proof (cases "fsm_current f = WR_CONNECTING")
      case c: True
      then show ?thesis using step wr_step_same [OF fd row] st ac f1 by (auto simp: wr_row_def)
    next
      case False
      then show ?thesis
        using step wr_step_to [OF fd row, of WR_CONNECTING act_disconnect_reconnect_now f1 c1] st ne ac wr_enter [OF f1d, of i WR_CONNECTING c1]
        by (auto simp: wr_row_def)
    qed
    then show ?thesis using True c1 by (simp add: bb_fsm_timer_at_def WIFI_RECONN_CONNECTING_TIMEOUT_MS_def)
  next
    case False
    have row: "find_row (wr_desc i) ctx (fsm_current f) ?ev d =
        Some (wr_row (fsm_current f) ?ev None (Some act_disconnect_backoff) WR_BACKOFF)"
      using cur gu ev False by (auto simp: wr_find_connecting wr_find_connected)
    obtain f1 c1 where ac: "act_disconnect_backoff f ctx ?ev d = (f1, c1)" by fastforce
    have nr: "\<not> guard_disc_reconnect_now ctx ?ev d" using gu False by simp
    have f1: "f1 = f" "wc_pending_backoff_ms c1 = ?ms" using backoff_stashed [OF window(3) nr ac] by (simp_all add: ladder_compute)
    have c1: "wc_log c1 = wc_log ctx" using ac wr_action_logs(8) [of f ctx ?ev d] by simp
    have ne: "WR_BACKOFF \<noteq> BB_FSM_STATE_SAME" "WR_BACKOFF \<noteq> BB_FSM_STATE_TERMINAL" "WR_BACKOFF \<noteq> WR_CONNECTING"
      by (simp_all add: wr_ids fsm_marks)
    have "er = BB_OK \<and> ctx' = c1 \<and> fsm_current f' = WR_BACKOFF \<and>
        fsm_timers f' = [\<lparr>tm_event = EV_BACKOFF_TIMEOUT, tm_ms = ?ms, tm_armed = True\<rparr>]"
      using step wr_step_to [OF fd row, of WR_BACKOFF act_disconnect_backoff f1 c1] ne ac f1 False wr_enter [OF fd(1) t, of i WR_BACKOFF c1]
      by (auto simp: wr_row_def)
    then show ?thesis using False c1 by (simp add: bb_fsm_timer_at_def Let_def)
  qed
qed

lemma wr_started_inv: "wr_inv wr_started ctx"
  by (simp add: wr_inv_def wr_timer_ok_def wr_started_def wr_ids WIFI_RECONN_CONNECTING_TIMEOUT_MS_def)

theorem wifi_backoff_ladder_witness:
  "\<exists>f' ctx'. bb_fsm_step (wr_desc WR_CONNECTING) (Some wr_started) wr_ctx0 EV_STA_DISCONNECTED (wr_at 7 201) = (BB_OK, Some f', ctx') \<and>
     bb_fsm_timer_at (Some f') 0 = Some (EV_BACKOFF_TIMEOUT, 30000)"
proof -
  let ?d = "wr_at 7 201"
  obtain er fo ctx' where s: "bb_fsm_step (wr_desc WR_CONNECTING) (Some wr_started) wr_ctx0 EV_STA_DISCONNECTED ?d = (er, fo, ctx')"
    by (metis prod_cases3)
  then obtain f' where fo: "fo = Some f'"
    by (auto simp: bb_fsm_step_def Let_def split: if_splits option.splits prod.splits)
  have r: "wr_reason ?d = BB_WIFI_DISC_NO_AP_FOUND"
    by (simp add: wr_reason_def wr_evt_reason_def wr_at_def bb_wifi_map_esp_reason_def)
  have w: "\<not> wr_would_escalate (wc_policy wr_ctx0) t" for t
    by (rule fresh_never_escalates) (simp add: wr_ctx0_def wr_policy0_def)
  have cur: "fsm_current wr_started = WR_CONNECTING \<or> fsm_current wr_started = WR_CONNECTED" by (simp add: wr_started_def)
  have ms: "ladder_ms BB_WIFI_DISC_NO_AP_FOUND (wc_policy wr_ctx0) = 30000" by (simp add: ladder_ms_def wr_ctx0_def wr_policy0_def)
  show ?thesis
    using wifi_backoff_ladder [OF wr_started_inv cur _ w w w s [unfolded fo]] s fo by (simp add: r ms)
qed

fun wr_feed :: "bb_fsm_state_t \<Rightarrow> bb_fsm \<times> wifi_reconn_ctx_t \<Rightarrow> (bb_fsm_event_t \<times> wr_input) list \<Rightarrow> bb_fsm \<times> wifi_reconn_ctx_t" where
  "wr_feed i s [] = s"
| "wr_feed i (f, c) ((ev, d) # xs) =
     (case bb_fsm_step (wr_desc i) (Some f) c ev d of (e, Some f', c') \<Rightarrow> wr_feed i (f', c') xs | _ \<Rightarrow> (f, c))"

lemma wr_parked_step:
  assumes "fsm_desc f" "\<not> fsm_terminal f"
    and "fsm_current f = WR_NO_CREDS \<and> ev \<noteq> EV_CREDS_ARRIVED \<or> fsm_current f = WR_LEFT \<and> ev \<noteq> EV_RECONNECT_REQUESTED"
  shows "bb_fsm_step (wr_desc i) (Some f) c ev d = (BB_ERR_NOT_FOUND, Some f, c)"
proof -
  have "find_row (wr_desc i) c (fsm_current f) ev d = None"
    using assms(3) by (auto simp: wr_find_no_creds wr_find_left)
  then show ?thesis using assms(1,2) fsm_step_idle [of f "wr_desc i" c ev d] by simp
qed

text \<open>Parked machines stay parked. Without credentials, or after an association-leave, no sequence of events other than
  the one that resumes it changes the machine, its counters, or makes any call through the adapter.\<close>

theorem wifi_parked_stays_parked:
  assumes inv: "wr_inv f c"
    and evs: "fsm_current f = WR_NO_CREDS \<and> EV_CREDS_ARRIVED \<notin> fst ` set xs \<or>
              fsm_current f = WR_LEFT \<and> EV_RECONNECT_REQUESTED \<notin> fst ` set xs"
  shows "wr_feed i (f, c) xs = (f, c)"
  using evs
proof (induction xs)
  case (Cons x xs)
  have "bb_fsm_step (wr_desc i) (Some f) c (fst x) (snd x) = (BB_ERR_NOT_FOUND, Some f, c)"
    using Cons.prems inv by (intro wr_parked_step) (auto simp: wr_inv_def)
  then show ?case using Cons by (cases x) auto
qed simp

theorem wifi_parked_stays_parked_witness:
  "wr_feed WR_NO_CREDS (wr_started\<lparr>fsm_current := WR_LEFT, fsm_timers := [\<lparr>tm_event = 0, tm_ms = 0, tm_armed = False\<rparr>]\<rparr>, wr_ctx0)
     [(EV_STA_DISCONNECTED, wr_at 7 8), (EV_GOT_IP, wr_at 9 0)] =
   (wr_started\<lparr>fsm_current := WR_LEFT, fsm_timers := [\<lparr>tm_event = 0, tm_ms = 0, tm_armed = False\<rparr>]\<rparr>, wr_ctx0)"
  by (rule wifi_parked_stays_parked) (simp_all add: wr_inv_def wr_timer_ok_def wr_started_def wr_ids)

section \<open>The window boundary between guard and action\<close>

text \<open>C15: the window boundary between guard and action. Without \<open>steady\<close> the timer guarantee fails: the guards read the clock just inside the persistent-failure window and
  the action just outside it. The policy then returns its reboot verdict before it computes a backoff, the action
  stashes 0, the entry hook of WR_BACKOFF arms a timer of length 0, which disarms it, and the machine waits in WR_BACKOFF
  for a timeout nobody will post: every other event leaves it there.\<close>
theorem window_race_strands_backoff:
  assumes inv: "wr_inv f ctx" and cur: "fsm_current f = WR_CONNECTING"
    and r: "wr_reason d \<noteq> BB_WIFI_DISC_ASSOC_LEAVE" "ladder_ms (wr_reason d) (wc_policy ctx) \<noteq> 0"
    and before: "\<not> wr_would_escalate (wc_policy ctx) (in_now_allowed d)" "\<not> wr_would_escalate (wc_policy ctx) (in_now_denied d)"
    and after: "wr_would_escalate (wc_policy ctx) (in_now_act d)"
  shows "\<exists>f' ctx'. bb_fsm_step (wr_desc i) (Some f) ctx EV_STA_DISCONNECTED d = (BB_OK, Some f', ctx') \<and>
    fsm_current f' = WR_BACKOFF \<and> bb_fsm_timer_count (Some f') = 0 \<and>
    (\<forall>ev d'. ev \<noteq> EV_BACKOFF_TIMEOUT \<longrightarrow> snd (bb_fsm_step (wr_desc i) (Some f') ctx' ev d') = (Some f', ctx'))"
proof -
  let ?ev = "EV_STA_DISCONNECTED"
  obtain t where t: "fsm_timers f = [t]" and fd: "fsm_desc f" "\<not> fsm_terminal f" using inv by (auto simp: wr_inv_def)
  have gu: "\<not> guard_disc_is_assoc_leave ctx ?ev d" "\<not> guard_disc_escalate_allowed ctx ?ev d" "\<not> guard_disc_escalate_denied ctx ?ev d"
    "\<not> guard_disc_reconnect_now ctx ?ev d"
    using r before by (simp_all add: guard_disc_is_assoc_leave_def guard_disc_escalate_allowed_def guard_disc_escalate_denied_def
        guard_disc_reconnect_now_def wr_disconnect_would_reconnect_now_def ladder_compute)
  have ev: "?ev \<noteq> EV_GOT_IP" by (simp add: wr_ids)
  have row: "find_row (wr_desc i) ctx (fsm_current f) ?ev d =
        Some (wr_row WR_CONNECTING ?ev None (Some act_disconnect_backoff) WR_BACKOFF)"
    unfolding cur wr_find_connecting using gu ev by simp
  obtain f1 c1 where ac: "act_disconnect_backoff f ctx ?ev d = (f1, c1)" by fastforce
  have f1: "f1 = f" "wc_pending_backoff_ms c1 = 0"
    using ac after on_disconnect_body_spec(1) [of "wc_policy ctx" "in_now_act d" "wr_reason d" 0]
    by (auto simp: act_disconnect_backoff_def split: prod.splits)
  have ne: "WR_BACKOFF \<noteq> BB_FSM_STATE_SAME" "WR_BACKOFF \<noteq> BB_FSM_STATE_TERMINAL" "WR_BACKOFF \<noteq> WR_CONNECTING"
    by (simp_all add: wr_ids fsm_marks)
  define f' where "f' = f\<lparr>fsm_current := WR_BACKOFF, fsm_timers := [t\<lparr>tm_armed := False\<rparr>]\<rparr>"
  have step: "bb_fsm_step (wr_desc i) (Some f) ctx ?ev d = (BB_OK, Some f', c1)"
    using wr_step_to [OF fd row, of WR_BACKOFF act_disconnect_backoff f1 c1] ne ac f1 wr_enter [OF fd(1) t, of i WR_BACKOFF c1]
    by (simp add: wr_row_def f'_def)
  have f'd: "fsm_desc f'" "\<not> fsm_terminal f'" "fsm_current f' = WR_BACKOFF" using fd by (simp_all add: f'_def)
  have stuck: "snd (bb_fsm_step (wr_desc i) (Some f') c1 ev d') = (Some f', c1)" if "ev \<noteq> EV_BACKOFF_TIMEOUT" for ev d'
  proof (cases "ev = EV_STA_DISCONNECTED")
    case True
    have "find_row (wr_desc i) c1 (fsm_current f') ev d' = Some (wr_row WR_BACKOFF EV_STA_DISCONNECTED None None BB_FSM_STATE_SAME)"
      unfolding f'd(3) wr_find_backoff using that True by simp
    then show ?thesis using wr_step_same [OF f'd(1,2)] by (simp add: wr_row_def)
  next
    case False
    then have "find_row (wr_desc i) c1 (fsm_current f') ev d' = None" unfolding f'd(3) wr_find_backoff using that by simp
    then show ?thesis using fsm_step_idle [of f' "wr_desc i" c1 ev d'] f'd by simp
  qed
  have "bb_fsm_timer_count (Some f') = 0" by (simp add: f'_def bb_fsm_timer_count_def)
  then show ?thesis using step f'd(3) stuck by blast
qed

theorem window_race_strands_backoff_witness:
  "\<exists>f' ctx'. bb_fsm_step (wr_desc WR_CONNECTING) (Some wr_started) (wr_ctx0\<lparr>wc_policy := wr_policy0\<lparr>first_fail_us := 5, slow_fail_count := 2\<rparr>\<rparr>)
     EV_STA_DISCONNECTED ((wr_at 300000005 202)\<lparr>in_now_act := 300000006\<rparr>) = (BB_OK, Some f', ctx') \<and>
   fsm_current f' = WR_BACKOFF \<and> bb_fsm_timer_count (Some f') = 0"
proof -
  have cur: "fsm_current wr_started = WR_CONNECTING" by (simp add: wr_started_def)
  show ?thesis
    using window_race_strands_backoff [OF wr_started_inv cur, of "(wr_at 300000005 202)\<lparr>in_now_act := 300000006\<rparr>"
        "wr_ctx0\<lparr>wc_policy := wr_policy0\<lparr>first_fail_us := 5, slow_fail_count := 2\<rparr>\<rparr>" WR_CONNECTING]
    by (auto simp: wr_reason_def wr_evt_reason_def wr_at_def bb_wifi_map_esp_reason_def ladder_ms_def wr_would_escalate_def
        wr_ctx0_def wr_policy0_def WIFI_RECONN_PERSISTENT_FAIL_WINDOW_US_def)
qed

end
