(* ===== verification/BB_Str.thy ===== *)
theory BB_Str
  imports BB_Prelude
begin

unbundle bit_operations_syntax

text \<open>
  The string helpers of \<^verbatim>\<open>platform/host/bb_str/bb_str.c\<close>. A C string argument is the list of its characters
  up to the terminator (\<^verbatim>\<open>cstr\<close> of a longer memory); a destination array is a list of cells that keeps its length. A
  pointer into a payload is its offset, and a callback is the list of the calls made to it.
\<close>

section \<open>Copies\<close>

definition bb_strlcpy :: "char list \<Rightarrow> char list \<Rightarrow> nat \<Rightarrow> nat \<times> char list" where
  "bb_strlcpy dst src dstsize =
     (let src_len = length (cstr src) in
      if dstsize = 0 then (src_len, dst)
      else let copy_len = (if src_len \<ge> dstsize then dstsize - 1 else src_len) in
        (src_len, (blit dst 0 (take copy_len src))[copy_len := NUL]))"

definition bb_str_field :: "char list \<Rightarrow> char list \<Rightarrow> nat \<Rightarrow> nat \<times> char list" where
  "bb_str_field dst src dstsize =
     (let src_len = length (cstr src) in
      if dstsize = 0 then (src_len, dst)
      else let copy_len = (if src_len > dstsize then dstsize else src_len) in
        (src_len, blit (blit dst 0 (take copy_len src)) copy_len (replicate (dstsize - copy_len) NUL)))"

section \<open>Key-value lists\<close>

definition bb_str_kv_is_space :: "char \<Rightarrow> bool" where
  "bb_str_kv_is_space c \<longleftrightarrow> c = CHR '' '' \<or> c = CHR 0x09"

text \<open>The two loops that move the ends of a slice inwards over blanks.\<close>

definition kv_trim :: "string \<Rightarrow> string" where
  "kv_trim s = rev (dropWhile bb_str_kv_is_space (rev (dropWhile bb_str_kv_is_space s)))"

definition kv_entry :: "string \<Rightarrow> (string \<times> string) list" where
  "kv_entry entry =
     (if CHR ''='' \<in> set entry
      then let key = kv_trim (takeWhile (\<lambda>c. c \<noteq> CHR ''='') entry);
               val = kv_trim (tl (dropWhile (\<lambda>c. c \<noteq> CHR ''='') entry))
           in if key \<noteq> [] then [(key, val)] else []
      else [])"

function kv_loop :: "string \<Rightarrow> (string \<times> string) list" where
  "kv_loop p =
     (if p = [] then []
      else let entry = takeWhile (\<lambda>c. c \<noteq> CHR '','') p; rest = dropWhile (\<lambda>c. c \<noteq> CHR '','') p in
        if rest = [] then kv_entry entry else kv_entry entry @ kv_loop (tl rest))"
  by pat_completeness auto

termination kv_loop
proof (relation "measure length")
  fix p entry rest :: string
  assume "p \<noteq> []" "rest = dropWhile (\<lambda>c. c \<noteq> CHR '','') p" "rest \<noteq> []"
  then have "length rest \<le> length p" "length (tl rest) < length rest" by (simp_all add: length_dropWhile_le)
  then show "(tl rest, p) \<in> measure length" by simp
qed simp

declare kv_loop.simps [simp del]

definition bb_str_kv_parse :: "string option \<Rightarrow> bool \<Rightarrow> (string \<times> string) list" where
  "bb_str_kv_parse s cb = (case s of None \<Rightarrow> [] | Some p \<Rightarrow> if \<not> cb then [] else kv_loop (cstr p))"

section \<open>Hexadecimal\<close>

text \<open>The numeric value of a character; those above 127 are neither digits nor letters, signed or not.\<close>

abbreviation chr_val :: "char \<Rightarrow> int" where "chr_val \<equiv> of_char"

definition bb_str_hex_nibble :: "char \<Rightarrow> int" where
  "bb_str_hex_nibble c =
     (if chr_val c \<ge> chr_val CHR ''0'' \<and> chr_val c \<le> chr_val CHR ''9'' then chr_val c - chr_val CHR ''0''
      else if chr_val c \<ge> chr_val CHR ''a'' \<and> chr_val c \<le> chr_val CHR ''f'' then chr_val c - chr_val CHR ''a'' + 10
      else if chr_val c \<ge> chr_val CHR ''A'' \<and> chr_val c \<le> chr_val CHR ''F'' then chr_val c - chr_val CHR ''A'' + 10
      else -1)"

text \<open>The loop, by the room left; a string that ends reads its terminator, which is no digit.\<close>

fun hex_loop :: "string \<Rightarrow> nat \<Rightarrow> u8 list" where
  "hex_loop hex 0 = []"
| "hex_loop (h # l # rest) (Suc room) =
     (if bb_str_hex_nibble h < 0 then []
      else if bb_str_hex_nibble l < 0 then []
      else (push_bit 4 (word_of_int (bb_str_hex_nibble h)) OR word_of_int (bb_str_hex_nibble l)) # hex_loop rest room)"
| "hex_loop hex (Suc room) = []"

definition bb_str_hex_to_bytes :: "string option \<Rightarrow> u8 list \<Rightarrow> nat \<Rightarrow> nat \<times> u8 list" where
  "bb_str_hex_to_bytes hex out max_out =
     (case hex of
        None \<Rightarrow> (0, out)
      | Some h \<Rightarrow> let bs = hex_loop (cstr h) max_out in (length bs, blit out 0 bs))"

definition bb_str_hex_digit :: "u8 \<Rightarrow> char" where
  "bb_str_hex_digit nibble = ''0123456789abcdef'' ! unat (nibble AND 0x0f)"

definition hex_pair :: "u8 \<Rightarrow> string" where
  "hex_pair b = [bb_str_hex_digit (drop_bit 4 b), bb_str_hex_digit (b AND 0x0f)]"

definition bb_str_bytes_to_hex :: "u8 list \<Rightarrow> nat \<Rightarrow> char list \<Rightarrow> nat \<Rightarrow> nat \<times> char list" where
  "bb_str_bytes_to_hex data n_data hex hex_cap =
     (if hex_cap = 0 then (0, hex)
      else let max_pairs = (hex_cap - 1) div 2; n = (if n_data < max_pairs then n_data else max_pairs) in
        (n, (blit hex 0 (concat (map hex_pair (take n data))))[n * 2 := NUL]))"

section \<open>The event envelope\<close>

definition is_ws :: "char \<Rightarrow> bool" where
  "is_ws c \<longleftrightarrow> c = CHR '' '' \<or> c = CHR 0x09 \<or> c = CHR 0x0A \<or> c = CHR 0x0D"

definition is_dec :: "char \<Rightarrow> bool" where
  "is_dec c \<longleftrightarrow> chr_val c \<ge> chr_val CHR ''0'' \<and> chr_val c \<le> chr_val CHR ''9''"

definition bb_str_envelope_find_key_value :: "char list \<Rightarrow> string \<Rightarrow> nat option" where
  "bb_str_envelope_find_key_value payload key =
     (let key_len = length key in
      case find_idx (\<lambda>q. slice q key_len payload = key) [0..<length payload + 1 - key_len] of
        None \<Rightarrow> None
      | Some q \<Rightarrow> Some (q + key_len + length (takeWhile is_ws (drop (q + key_len) payload))))"

text \<open>The loop over the object: the remaining bytes, the depth, whether inside a string, the position.\<close>

function data_scan :: "char list \<Rightarrow> int \<Rightarrow> bool \<Rightarrow> nat \<Rightarrow> int \<times> nat" where
  "data_scan [] depth in_str p = (depth, p)"
| "data_scan (c # cs) depth in_str p =
     (if in_str then
        if c = CHR 0x5C then data_scan (drop 1 cs) depth True (p + 2)
        else if c = CHR 0x22 then data_scan cs depth False (p + 1)
        else data_scan cs depth True (p + 1)
      else if c = CHR 0x22 then data_scan cs depth True (p + 1)
      else if c = CHR ''{'' then data_scan cs (depth + 1) False (p + 1)
      else if c = CHR ''}'' then
        if depth - 1 = 0 then (depth - 1, p + 1) else data_scan cs (depth - 1) False (p + 1)
      else data_scan cs depth False (p + 1))"
  by pat_completeness auto

termination data_scan by (relation "measure (\<lambda>(cs, _, _, _). length cs)") auto

text \<open>The end of the number that starts at \<^verbatim>\<open>ts_v\<close>, and the end of the object that starts at \<^verbatim>\<open>data_v\<close>.\<close>

definition ts_extent :: "char list \<Rightarrow> nat \<Rightarrow> nat option" where
  "ts_extent s ts_v =
     (let after_sign = (if ts_v < length s \<and> s ! ts_v = CHR ''-'' then ts_v + 1 else ts_v);
          ts_end = after_sign + length (takeWhile is_dec (drop after_sign s)) in
      if ts_end = ts_v \<or> (ts_end = ts_v + 1 \<and> s ! ts_v = CHR ''-'') then None else Some ts_end)"

definition data_extent :: "char list \<Rightarrow> nat \<Rightarrow> nat option" where
  "data_extent s data_v =
     (if data_v \<ge> length s \<or> s ! data_v \<noteq> CHR ''{'' then None
      else case data_scan (drop data_v s) 0 False data_v of
        (depth, p) \<Rightarrow> if depth \<noteq> 0 then None else Some p)"

text \<open>\<^verbatim>\<open>None\<close> is false; the answer is the offset and length of the timestamp and of the data object. The
  flag stands for the four out pointers, none of which may be NULL.\<close>

definition bb_str_envelope_split :: "char list option \<Rightarrow> bool \<Rightarrow> ((nat \<times> nat) \<times> (nat \<times> nat)) option" where
  "bb_str_envelope_split payload outs =
     (case payload of
        None \<Rightarrow> None
      | Some s \<Rightarrow>
          if length s = 0 \<or> \<not> outs then None
          else (case bb_str_envelope_find_key_value s ''\"ts_ms\":'' of
            None \<Rightarrow> None
          | Some ts_v \<Rightarrow>
             (case ts_extent s ts_v of
                None \<Rightarrow> None
              | Some ts_end \<Rightarrow>
                 (case bb_str_envelope_find_key_value s ''\"data\":'' of
                    None \<Rightarrow> None
                  | Some data_v \<Rightarrow>
                     (case data_extent s data_v of
                        None \<Rightarrow> None
                      | Some p \<Rightarrow> Some ((ts_v, ts_end - ts_v), (data_v, p - data_v)))))))"

section \<open>Hashing\<close>

definition BB_STR_FNV1A_OFFSET_BASIS :: u32 where "BB_STR_FNV1A_OFFSET_BASIS = 2166136261"
definition BB_STR_FNV1A_PRIME :: u32 where "BB_STR_FNV1A_PRIME = 16777619"

definition bb_str_hash32 :: "string option \<Rightarrow> u32" where
  "bb_str_hash32 s =
     (case s of
        None \<Rightarrow> 0
      | Some p \<Rightarrow> foldl (\<lambda>h c. (h XOR of_char c) * BB_STR_FNV1A_PRIME) BB_STR_FNV1A_OFFSET_BASIS (cstr p))"

section \<open>Copies stay in bounds and terminate\<close>

lemma cstr_take_NUL: "NUL \<notin> set s \<Longrightarrow> n \<le> length s \<Longrightarrow> cstr (take n s @ NUL # t) = take n s"
  by (rule cstr_id) (auto dest: in_set_takeD)

lemma take_cstr: "n \<le> length (cstr src) \<Longrightarrow> take n src = take n (cstr src)"
  by (metis cstr_def takeWhile_dropWhile_id take_append take_all_iff take0 append_Nil2 diff_is_0_eq)

lemma blit0_update:
  "length ys < length dst \<Longrightarrow> (blit dst 0 ys)[length ys := x] = ys @ x # drop (Suc (length ys)) dst"
  by (simp add: blit_def list_update_append Cons_nth_drop_Suc [symmetric] del: Cons_nth_drop_Suc)

text \<open>String copies. \<^verbatim>\<open>bb_strlcpy\<close> returns the length of the source, leaves in the destination the
  source cut to one less than its size as a terminated string, and touches no cell behind the size
  given. \<^verbatim>\<open>bb_str_field\<close> fills the whole field: the source cut to the field's size, then zeros, and nothing
  behind it.\<close>
theorem str_copies_fit:
  assumes "0 < n" and "n \<le> length dst"
  shows "(case bb_strlcpy dst src n of (r, d) \<Rightarrow>
      r = length (cstr src) \<and> length d = length dst \<and> cstr d = take (n - 1) (cstr src) \<and> drop n d = drop n dst) \<and>
    (case bb_str_field dst src n of (r, d) \<Rightarrow>
      r = length (cstr src) \<and> length d = length dst \<and>
      take n d = take n (cstr src) @ replicate (n - length (cstr src)) NUL \<and> drop n d = drop n dst)"
proof -
  let ?s = "cstr src" and ?l = "length (cstr src)"
  define k where "k = (if ?l \<ge> n then n - 1 else ?l)"
  have k: "k < n" "k \<le> ?l" "take k ?s = take (n - 1) ?s" using assms by (auto simp: k_def)
  have tk: "take k src = take k ?s" using k(2) by (rule take_cstr)
  have lk: "length (take k ?s) = k" using k(2) by simp
  have "bb_strlcpy dst src n = (?l, (blit dst 0 (take k ?s))[k := NUL])"
    using assms(1) by (simp add: bb_strlcpy_def Let_def tk flip: k_def)
  also have "(blit dst 0 (take k ?s))[k := NUL] = take k ?s @ NUL # drop (Suc k) dst"
    using blit0_update [of "take k ?s" dst NUL] assms k unfolding lk by simp
  finally have d: "bb_strlcpy dst src n = (?l, take k ?s @ NUL # drop (Suc k) dst)" .
  define m where "m = (if ?l > n then n else ?l)"
  have m: "m \<le> n" "m \<le> ?l" "take m ?s = take n ?s" using assms by (auto simp: m_def)
  have tm: "take m src = take m ?s" using m(2) by (rule take_cstr)
  have lm: "length (take m ?s) = m" using m(2) by simp
  have "bb_str_field dst src n = (?l, blit (blit dst 0 (take m ?s)) m (replicate (n - m) NUL))"
    unfolding bb_str_field_def Let_def tm [symmetric] using assms(1) by (simp add: m_def)
  also have "blit (blit dst 0 (take m ?s)) m (replicate (n - m) NUL) = take m ?s @ replicate (n - m) NUL @ drop n dst"
    using assms m(1) by (simp add: blit_def lm del: length_take)
  finally have e: "bb_str_field dst src n = (?l, take m ?s @ replicate (n - m) NUL @ drop n dst)" .
  define dk where "dk = take k ?s @ NUL # drop (Suc k) dst"
  define dm where "dm = take m ?s @ replicate (n - m) NUL @ drop n dst"
  have D: "length dk = length dst" "drop n dk = drop n dst"
    using k(1) assms(2) by (simp_all add: dk_def lk drop_Cons' del: length_take)
  have C: "cstr dk = take (n - 1) ?s"
    unfolding dk_def k(3) [symmetric] by (rule cstr_take_NUL [OF cstr_no_nul k(2)])
  have F: "length dm = length dst" "drop n dm = drop n dst" "take n dm = take m ?s @ replicate (n - m) NUL"
    using m(1) assms(2) by (simp_all add: dm_def lm del: length_take)
  have "n - m = n - ?l" by (simp add: m_def)
  then have G: "take n dm = take n ?s @ replicate (n - ?l) NUL" using F(3) m(3) by simp
  show ?thesis by (simp add: d e D C F(1,2) G flip: dk_def dm_def)
qed

theorem str_copies_fit_witness:
  "bb_strlcpy (replicate 6 CHR ''x'') ''abcdef'' 4 = (6, ''abc'' @ [NUL] @ ''xx'') \<and>
   cstr (snd (bb_strlcpy (replicate 6 CHR ''x'') ''abcdef'' 4)) = ''abc''"
proof -
  have e: "bb_strlcpy (replicate 6 CHR ''x'') ''abcdef'' 4 = (6, ''abc'' @ [NUL] @ ''xx'')" by code_simp
  show ?thesis using str_copies_fit [of 4 "replicate 6 CHR ''x''" "''abcdef''"] unfolding e by (simp add: cstr_def)
qed

section \<open>Hexadecimal round trip\<close>

lemma nibble_digit: "n < 16 \<Longrightarrow> bb_str_hex_nibble (''0123456789abcdef'' ! n) = int n"
proof -
  assume "n < 16"
  moreover have "\<forall>n\<in>set [0..<16]. bb_str_hex_nibble (''0123456789abcdef'' ! n) = int n" by code_simp
  ultimately show ?thesis by simp
qed

lemma unat_low_nibble: "unat (b AND 0x0f :: u8) < 16"
proof -
  have "b AND 0x0f \<le> (0x0f :: u8)" by (rule word_and_le1)
  then show ?thesis by (simp add: word_le_nat_alt)
qed

lemma hex_digit_nibble: "bb_str_hex_nibble (bb_str_hex_digit b) = uint (b AND 0x0f)"
  by (simp add: bb_str_hex_digit_def nibble_digit unat_low_nibble)

lemma hex_digit_no_nul: "bb_str_hex_digit b \<noteq> NUL"
proof
  assume "bb_str_hex_digit b = NUL"
  then have "uint (b AND 0x0f) = -1" using hex_digit_nibble [of b] by (simp add: bb_str_hex_nibble_def)
  moreover have "0 \<le> uint (b AND 0x0f)" by (rule unsigned_greater_eq)
  ultimately show False by linarith
qed

lemma byte_recombine: "push_bit 4 (drop_bit 4 b) AND 240 OR b AND 15 = (b :: u8)"
proof -
  have f: "(15 :: u8) = mask 4" "(240 :: u8) = push_bit 4 (mask 4)" by (simp_all add: mask_eq_exp_minus_1 push_bit_eq_mult)
  show ?thesis unfolding f by (rule bit_word_eqI) (auto simp: bit_simps)
qed

lemma hex_loop_pairs: "hex_loop (concat (map hex_pair bs)) (length bs + k) = bs"
proof (induction bs)
  case Nil
  then show ?case by (cases k) auto
next
  case (Cons b bs)
  then show ?case by (simp add: hex_pair_def hex_digit_nibble byte_recombine not_less)
qed

lemma length_hex_pairs: "length (concat (map hex_pair bs)) = 2 * length bs"
  by (induction bs) (simp_all add: hex_pair_def)

text \<open>Hexadecimal round trip. Encoding bytes into a buffer of \<^verbatim>\<open>cap\<close> characters writes whole pairs only, as many as
  fit with the terminator, and keeps to the buffer; decoding the string gives exactly these bytes back.\<close>
theorem hex_roundtrip:
  assumes "0 < cap" and "cap \<le> length hex" and "length data \<le> max_out" and "max_out \<le> length out"
  shows "case bb_str_bytes_to_hex data (length data) hex cap of (n, hex') \<Rightarrow>
    n = min (length data) ((cap - 1) div 2) \<and> length hex' = length hex \<and> drop cap hex' = drop cap hex \<and>
    (case bb_str_hex_to_bytes (Some hex') out max_out of (n', out') \<Rightarrow> n' = n \<and> take n' out' = take n data)"
proof -
  define n where "n = (if length data < (cap - 1) div 2 then length data else (cap - 1) div 2)"
  let ?h = "concat (map hex_pair (take n data))"
  have n: "n = min (length data) ((cap - 1) div 2)" by (simp add: n_def)
  have ln: "length ?h = n * 2" using length_hex_pairs [of "take n data"] n by simp
  have fit: "n * 2 < cap" using assms(1) n by (auto simp: min_def)
  have "bb_str_bytes_to_hex data (length data) hex cap = (n, (blit hex 0 ?h)[n * 2 := NUL])"
    unfolding bb_str_bytes_to_hex_def Let_def n_def using assms(1) by simp
  also have "(blit hex 0 ?h)[n * 2 := NUL] = ?h @ NUL # drop (Suc (n * 2)) hex"
    using blit0_update [of ?h hex NUL] assms fit unfolding ln by simp
  finally have e: "bb_str_bytes_to_hex data (length data) hex cap = (n, ?h @ NUL # drop (Suc (n * 2)) hex)" .
  have "NUL \<notin> set ?h" using hex_digit_no_nul by (auto simp: hex_pair_def) (metis hex_digit_no_nul)+
  then have c: "cstr (?h @ NUL # drop (Suc (n * 2)) hex) = ?h" by (rule cstr_id)
  have lt: "length (take n data) = n" using n by simp
  have "hex_loop ?h max_out = take n data"
    using hex_loop_pairs [of "take n data" "max_out - n"] assms(3) n unfolding lt by simp
  then have d: "bb_str_hex_to_bytes (Some (?h @ NUL # drop (Suc (n * 2)) hex)) out max_out = (n, blit out 0 (take n data))"
    by (simp add: bb_str_hex_to_bytes_def c lt Let_def del: length_take)
  define hex' where "hex' = ?h @ NUL # drop (Suc (n * 2)) hex"
  have "drop cap (NUL # drop (Suc (n * 2)) hex) = drop cap hex" if "n * 2 = 0" using that fit by (cases cap) auto
  moreover have "cap - n * 2 = Suc (cap - Suc (n * 2))" using fit by linarith
  ultimately have D: "drop cap hex' = drop cap hex" using fit by (simp add: hex'_def ln)
  have L: "length hex' = length hex" using fit assms(2) ln by (simp add: hex'_def)
  have T: "take n (blit out 0 (take n data)) = take n data" using lt by (simp add: blit_def del: length_take)
  show ?thesis unfolding e d [folded hex'_def] hex'_def [symmetric] using n D L T d [folded hex'_def] by simp
qed

theorem hex_roundtrip_witness:
  "bb_str_bytes_to_hex [0xA5, 0x0F, 0x77] 3 (replicate 6 NUL) 6 = (2, ''a50f'' @ [NUL, NUL]) \<and>
   take 2 (snd (bb_str_hex_to_bytes (Some (snd (bb_str_bytes_to_hex [0xA5, 0x0F, 0x77] 3 (replicate 6 NUL) 6))) [1, 2, 3] 3)) = [0xA5, 0x0F]"
proof -
  have e: "bb_str_bytes_to_hex [0xA5, 0x0F, 0x77] 3 (replicate 6 NUL) 6 = (2, ''a50f'' @ [NUL, NUL])"
    by code_simp
  have e': "bb_str_bytes_to_hex [0xA5, 0x0F, 0x77] (length [0xA5, 0x0F, 0x77 :: u8]) (replicate 6 NUL) 6 = (2, ''a50f'' @ [NUL, NUL])"
    by code_simp
  have d: "bb_str_hex_to_bytes (Some (''a50f'' @ [NUL, NUL])) [1, 2, 3] 3 = (2, [0xA5, 0x0F, 3])" by code_simp
  have "take 2 (snd (bb_str_hex_to_bytes (Some (''a50f'' @ [NUL, NUL])) [1, 2, 3] 3)) = take 2 [0xA5, 0x0F, 0x77]"
    using hex_roundtrip [of 6 "replicate 6 NUL" "[0xA5, 0x0F, 0x77]" 3 "[1, 2, 3]"]
    unfolding e' d by simp
  then show ?thesis unfolding e by simp
qed

section \<open>Key-value lists read back\<close>

definition blanks :: "string \<Rightarrow> bool" where "blanks s \<longleftrightarrow> (\<forall>c\<in>set s. bb_str_kv_is_space c)"

text \<open>A token has no blank at its ends.\<close>

definition token :: "string \<Rightarrow> bool" where
  "token s \<longleftrightarrow> s = [] \<or> \<not> bb_str_kv_is_space (hd s) \<and> \<not> bb_str_kv_is_space (last s)"

lemma dropWhile_blanks: "blanks a \<Longrightarrow> dropWhile bb_str_kv_is_space (a @ s) = dropWhile bb_str_kv_is_space s"
  by (induction a) (auto simp: blanks_def)

lemma blanks_rev: "blanks (rev a) = blanks a"
  by (simp add: blanks_def)

lemma kv_trim_pad: "blanks a \<Longrightarrow> blanks b \<Longrightarrow> token s \<Longrightarrow> kv_trim (a @ s @ b) = s"
proof (cases "s = []")
  case True
  assume "blanks a" "blanks b"
  then show ?thesis using True by (auto simp: kv_trim_def dropWhile_blanks blanks_def dest!: set_dropWhileD)
next
  case False
  assume a: "blanks a" and b: "blanks b" and "token s"
  then have h: "\<not> bb_str_kv_is_space (hd s)" "\<not> bb_str_kv_is_space (hd (rev s))" using False by (auto simp: token_def hd_rev)
  have f: "dropWhile bb_str_kv_is_space (t @ r) = t @ r" if "t \<noteq> []" "\<not> bb_str_kv_is_space (hd t)" for t r
    using that by (cases t) auto
  have "dropWhile bb_str_kv_is_space (a @ s @ b) = s @ b" using f [OF False h(1)] by (simp add: dropWhile_blanks [OF a])
  moreover have "dropWhile bb_str_kv_is_space (rev b @ rev s) = rev s"
    using f [of "rev s" "[]"] False h(2) b by (simp add: dropWhile_blanks blanks_rev)
  ultimately show ?thesis by (simp add: kv_trim_def)
qed

text \<open>A key and a value with blanks around each.\<close>

record kv_item =
  kv_key :: string
  kv_val :: string
  kv_a :: string
  kv_b :: string
  kv_c :: string
  kv_d :: string

definition kv_text :: "kv_item \<Rightarrow> string" where
  "kv_text i = kv_a i @ kv_key i @ kv_b i @ ''='' @ kv_c i @ kv_val i @ kv_d i"

definition kv_item_ok :: "kv_item \<Rightarrow> bool" where
  "kv_item_ok i \<longleftrightarrow> blanks (kv_a i) \<and> blanks (kv_b i) \<and> blanks (kv_c i) \<and> blanks (kv_d i) \<and>
     kv_key i \<noteq> [] \<and> token (kv_key i) \<and> token (kv_val i) \<and>
     {CHR ''='', CHR '','', NUL} \<inter> set (kv_key i) = {} \<and> {CHR '','', NUL} \<inter> set (kv_val i) = {}"

fun kv_render :: "kv_item list \<Rightarrow> string" where
  "kv_render [] = []"
| "kv_render [i] = kv_text i"
| "kv_render (i # is) = kv_text i @ '','' @ kv_render is"

lemma blanks_plain: "blanks a \<Longrightarrow> CHR ''='' \<notin> set a \<and> CHR '','' \<notin> set a \<and> NUL \<notin> set a"
proof -
  have "\<not> bb_str_kv_is_space CHR ''=''" "\<not> bb_str_kv_is_space CHR '',''" "\<not> bb_str_kv_is_space NUL"
    by (simp_all add: bb_str_kv_is_space_def)
  then show "blanks a \<Longrightarrow> ?thesis" unfolding blanks_def by blast
qed

lemma kv_text_plain:
  assumes "kv_item_ok i"
  shows "CHR '','' \<notin> set (kv_text i) \<and> NUL \<notin> set (kv_text i) \<and> kv_text i \<noteq> []"
proof -
  have "CHR '','' \<notin> set x \<and> NUL \<notin> set x" if "x \<in> {kv_a i, kv_b i, kv_c i, kv_d i, kv_key i, kv_val i}" for x
    using assms that blanks_plain [of x] unfolding kv_item_ok_def by blast
  then show ?thesis by (simp add: kv_text_def)
qed

lemma kv_entry_text:
  assumes "kv_item_ok i"
  shows "kv_entry (kv_text i) = [(kv_key i, kv_val i)]"
proof -
  let ?l = "kv_a i @ kv_key i @ kv_b i" and ?r = "kv_c i @ kv_val i @ kv_d i"
  have "CHR ''='' \<notin> set (kv_a i)" "CHR ''='' \<notin> set (kv_b i)" "CHR ''='' \<notin> set (kv_key i)"
    using assms blanks_plain [of "kv_a i"] blanks_plain [of "kv_b i"] by (simp_all add: kv_item_ok_def)
  then have l: "CHR ''='' \<notin> set ?l" by simp
  have t: "kv_text i = ?l @ CHR ''='' # ?r" by (simp add: kv_text_def)
  have tw: "takeWhile (\<lambda>c. c \<noteq> CHR ''='') (kv_text i) = ?l"
    unfolding t by (subst takeWhile_append2) (use l in auto)
  have dw: "dropWhile (\<lambda>c. c \<noteq> CHR ''='') (kv_text i) = CHR ''='' # ?r"
    unfolding t by (subst dropWhile_append2) (use l in auto)
  have "kv_trim ?l = kv_key i" "kv_trim ?r = kv_val i" "kv_key i \<noteq> []"
    using assms kv_trim_pad by (simp_all add: kv_item_ok_def)
  moreover have "CHR ''='' \<in> set (kv_text i)" by (simp add: t)
  ultimately show ?thesis unfolding kv_entry_def tw dw Let_def by simp
qed

lemma kv_loop_render: "\<forall>i\<in>set is. kv_item_ok i \<Longrightarrow> kv_loop (kv_render is) = map (\<lambda>i. (kv_key i, kv_val i)) is"
proof (induction "is" rule: kv_render.induct)
  case 1
  then show ?case by (simp add: kv_loop.simps)
next
  case (2 i)
  then have p: "CHR '','' \<notin> set (kv_text i)" "kv_text i \<noteq> []" using kv_text_plain by auto
  have w: "takeWhile (\<lambda>c. c \<noteq> CHR '','') (kv_text i) = kv_text i" "dropWhile (\<lambda>c. c \<noteq> CHR '','') (kv_text i) = []"
    using p(1) by (auto simp: takeWhile_eq_all_conv dropWhile_eq_Nil_conv)
  show ?case unfolding kv_render.simps kv_loop.simps [of "kv_text i"] w Let_def using p 2 by (simp add: kv_entry_text)
next
  case (3 i j js)
  then have p: "CHR '','' \<notin> set (kv_text i)" "kv_text i \<noteq> []" using kv_text_plain by auto
  let ?p = "kv_text i @ '','' @ kv_render (j # js)"
  have "takeWhile (\<lambda>c. c \<noteq> CHR '','') ?p = kv_text i" "dropWhile (\<lambda>c. c \<noteq> CHR '','') ?p = '','' @ kv_render (j # js)"
    using p by (auto simp: takeWhile_append dropWhile_append takeWhile_eq_all_conv)
  then have "kv_loop ?p = kv_entry (kv_text i) @ kv_loop (kv_render (j # js))"
    using p by (subst kv_loop.simps) (simp add: Let_def)
  then show ?case using 3 by (simp add: kv_entry_text)
qed

lemma kv_render_no_nul: "\<forall>i\<in>set is. kv_item_ok i \<Longrightarrow> NUL \<notin> set (kv_render is)"
  by (induction "is" rule: kv_render.induct) (use kv_text_plain in auto)

text \<open>Key-value lists read back. Entries joined by commas, each a non-empty key, an equals sign and a value, with any
  blanks around either, are parsed into exactly these pairs in their order, the blanks
  removed; a value may contain equals signs and inner blanks.\<close>
theorem kv_roundtrip:
  assumes "\<forall>i\<in>set is. kv_item_ok i"
  shows "bb_str_kv_parse (Some (kv_render is)) True = map (\<lambda>i. (kv_key i, kv_val i)) is"
  using kv_loop_render [OF assms] kv_render_no_nul [OF assms] by (simp add: bb_str_kv_parse_def)

theorem kv_roundtrip_witness:
  "bb_str_kv_parse (Some ''host = a b=c ,port=80'') True = [(''host'', ''a b=c''), (''port'', ''80'')]"
proof -
  let ?is = "[\<lparr> kv_key = ''host'', kv_val = ''a b=c'', kv_a = [], kv_b = '' '', kv_c = '' '', kv_d = '' '' \<rparr>,
    \<lparr> kv_key = ''port'', kv_val = ''80'', kv_a = [], kv_b = [], kv_c = [], kv_d = [] \<rparr>]"
  have "\<forall>i\<in>set ?is. kv_item_ok i" by (simp add: kv_item_ok_def blanks_def token_def bb_str_kv_is_space_def)
  from kv_roundtrip [OF this] show ?thesis by (simp add: kv_text_def)
qed

section \<open>The envelope\<close>


lemma data_scan_closes:
  "data_scan cs d s p = (0, q) \<Longrightarrow> 1 \<le> d \<Longrightarrow> p < q \<and> q \<le> p + length cs \<and> cs ! (q - 1 - p) = CHR ''}''"
proof (induction cs d s p rule: data_scan.induct)
  case (2 c cs d s p)
  have skip: "(c # cs) ! (q - 1 - p) = cs ! (q - 1 - (p + 1))" if "p + 1 < q" using that
    by (simp add: nth_Cons' numeral_2_eq_2)
  show ?case
  proof (cases "s \<and> c = CHR 0x5C")
    case True
    then have r: "data_scan (drop 1 cs) d True (p + 2) = (0, q)" using 2(8) by simp
    have ih: "p + 2 < q \<and> q \<le> p + 2 + length (drop 1 cs) \<and> drop 1 cs ! (q - 1 - (p + 2)) = CHR ''}''"
      using 2(1) [OF _ _ r 2(9)] True by simp
    then have "drop 1 cs \<noteq> []" by auto
    then show ?thesis using ih by (cases cs) (auto simp: nth_Cons' numeral_2_eq_2 numeral_3_eq_3)
  next
    case False
    then show ?thesis using 2(2-9) skip by (auto split: if_splits)
  qed
qed simp

lemma find_key_bound: "bb_str_envelope_find_key_value s key = Some v \<Longrightarrow> v \<le> length s"
proof -
  assume "bb_str_envelope_find_key_value s key = Some v"
  then obtain q where q: "find_idx (\<lambda>q. slice q (length key) s = key) [0..<length s + 1 - length key] = Some q"
    and v: "v = q + length key + length (takeWhile is_ws (drop (q + length key) s))"
    by (auto simp: bb_str_envelope_find_key_value_def Let_def split: option.splits)
  have "q + length key \<le> length s" using find_idx_SomeD(1) [OF q] by simp
  moreover have "length (takeWhile is_ws (drop (q + length key) s)) \<le> length (drop (q + length key) s)"
    by (rule length_takeWhile_le)
  ultimately show ?thesis using v by simp
qed


text \<open>A split envelope stays inside its payload. Whatever bytes arrive, when \<^verbatim>\<open>bb_str_envelope_split\<close> accepts
  them the timestamp is a non-empty run of digits with at most a minus sign before it, the data is a
  slice that starts with an opening and ends with a closing brace, and both lie inside the payload.\<close>
theorem envelope_slices_in_bounds:
  assumes "bb_str_envelope_split (Some s) outs = Some ((a, m), (b, n))"
  shows "a + m \<le> length s \<and> b + n \<le> length s \<and> 2 \<le> n \<and> s ! b = CHR ''{'' \<and> s ! (b + n - 1) = CHR ''}'' \<and>
    (\<exists>k \<le> 1. k < m \<and> (k = 1 \<longrightarrow> s ! a = CHR ''-'') \<and> (\<forall>c\<in>set (slice (a + k) (m - k) s). is_dec c))"
proof -
  define k where "k = (if a < length s \<and> s ! a = CHR ''-'' then 1 else 0::nat)"
  define l where "l = length (takeWhile is_dec (drop (a + k) s))"
  obtain e q where A: "bb_str_envelope_find_key_value s ''\"ts_ms\":'' = Some a"
    and B: "bb_str_envelope_find_key_value s ''\"data\":'' = Some b"
    and te: "ts_extent s a = Some e" and m0: "m = e - a" and de: "data_extent s b = Some q" and n: "n = q - b"
    using assms by (auto simp: bb_str_envelope_split_def split: option.splits if_splits)
  have sign: "(if a < length s \<and> s ! a = CHR ''-'' then a + 1 else a) = a + k" by (simp add: k_def)
  have ne: "\<not> (k + l = 0 \<or> k + l = 1 \<and> s ! a = CHR ''-'')" and m: "m = k + l"
    using te m0 unfolding ts_extent_def sign Let_def l_def [symmetric] by (auto split: if_splits)
  have b: "b < length s" "s ! b = CHR ''{''" and sc: "data_scan (drop b s) 0 False b = (0, q)"
    using de by (auto simp: data_extent_def split: if_splits prod.splits)
  have al: "a \<le> length s" using A by (rule find_key_bound)
  have ks: "a + k \<le> length s" using al by (simp add: k_def)
  have lb: "l \<le> length s - (a + k)" unfolding l_def using length_takeWhile_le [of is_dec "drop (a + k) s"] by simp
  have km: "k < m" using ne m by (auto simp: k_def split: if_splits)
  have "slice (a + k) (m - k) s = takeWhile is_dec (drop (a + k) s)"
    by (simp add: slice_def m l_def takeWhile_eq_take [symmetric])
  then have digs: "\<forall>c\<in>set (slice (a + k) (m - k) s). is_dec c" by (auto dest: set_takeWhileD)
  obtain cs where cs: "drop b s = CHR ''{'' # cs" "cs = drop (Suc b) s" using b by (metis Cons_nth_drop_Suc)
  then have "data_scan cs 1 False (b + 1) = (0, q)" using sc by simp
  from data_scan_closes [OF this] have c: "b + 1 < q" "q \<le> b + 1 + length cs" "cs ! (q - 1 - (b + 1)) = CHR ''}''" by auto
  have lc: "length cs = length s - Suc b" by (simp add: cs(2))
  have bn: "b + n = q" using n c(1) by simp
  have "s ! (b + n - 1) = CHR ''}''"
  proof -
    have "Suc b + (q - 1 - (b + 1)) = q - 1" using c(1) by linarith
    then show ?thesis using c b(1) unfolding bn cs(2) by (simp del: One_nat_def)
  qed
  moreover have "b + n \<le> length s" using c(2) b(1) lc by (simp add: bn)
  moreover have "2 \<le> n" using n c(1) by simp
  moreover have "a + m \<le> length s" using ks lb m by simp
  moreover have "k \<le> 1" "k = 1 \<longrightarrow> s ! a = CHR ''-''" by (simp_all add: k_def)
  ultimately show ?thesis using b(2) km digs by blast
qed




definition envelope :: "string \<Rightarrow> string \<Rightarrow> string \<Rightarrow> string" where
  "envelope ts obj rest = ''{\"ts_ms\":'' @ ts @ '',\"data\":'' @ obj @ rest"






theorem envelope_slices_in_bounds_witness:
  "\<exists>a m b n. bb_str_envelope_split (Some (envelope ''7'' ''{}'' [])) True = Some ((a, m), (b, n)) \<and>
    b + n \<le> length (envelope ''7'' ''{}'' []) \<and> envelope ''7'' ''{}'' [] ! b = CHR ''{''"
proof -
  have e: "bb_str_envelope_split (Some (envelope ''7'' ''{}'' [])) True = Some ((9, 1), (18, 2))" by code_simp
  show ?thesis using envelope_slices_in_bounds [OF e] e by blast
qed

end
