(* ===== verification/BB_Mem_Arena.thy ===== *)
theory BB_Mem_Arena
  imports BB_Prelude
begin

unbundle bit_operations_syntax

text \<open>
  The bump allocator of \<^verbatim>\<open>platform/host/bb_mem_arena/bb_mem_arena.c\<close>: an arena struct at the head of a block, a
  data region behind it, an offset that only grows until a reset. Sizes are natural numbers below
  \<^verbatim>\<open>SIZE_MAX + 1\<close> and every arithmetic step of the code is written with its wrap-around; addresses are
  natural numbers. The constants are those of an LP64 build (\<^verbatim>\<open>max_align_t\<close> of 16 bytes, pointers
  and \<^verbatim>\<open>size_t\<close> of 8). The block that \<^verbatim>\<open>bb_calloc_prefer_spiram\<close> returns is an argument of the operations that
  call it, and a freed block is part of the result of those that free one.
\<close>

section \<open>\<^verbatim>\<open>size_t\<close> arithmetic\<close>

definition SIZE_MOD :: nat where "SIZE_MOD = 2 ^ 64"
definition SIZE_MAX :: nat where "SIZE_MAX = 2 ^ 64 - 1"

definition sz_add :: "nat \<Rightarrow> nat \<Rightarrow> nat" where "sz_add a b = (a + b) mod SIZE_MOD"
definition sz_sub :: "nat \<Rightarrow> nat \<Rightarrow> nat" where "sz_sub a b = (a + (SIZE_MOD - b)) mod SIZE_MOD"
definition sz_mul :: "nat \<Rightarrow> nat \<Rightarrow> nat" where "sz_mul a b = (a * b) mod SIZE_MOD"
definition sz_not :: "nat \<Rightarrow> nat" where "sz_not a = SIZE_MAX - a"

lemma size_bounds: "a < SIZE_MOD \<longleftrightarrow> a \<le> SIZE_MAX" "SIZE_MAX < SIZE_MOD" "0 < SIZE_MOD" "(0::nat) < SIZE_MAX"
  by (auto simp: SIZE_MOD_def SIZE_MAX_def)

lemma sz_add_exact: "a + b \<le> SIZE_MAX \<Longrightarrow> sz_add a b = a + b"
  by (simp add: sz_add_def SIZE_MOD_def SIZE_MAX_def)

lemma sz_sub_exact: "b \<le> a \<Longrightarrow> a \<le> SIZE_MAX \<Longrightarrow> sz_sub a b = a - b"
proof -
  assume "b \<le> a" "a \<le> SIZE_MAX"
  then have "a + (SIZE_MOD - b) = SIZE_MOD + (a - b)" "a - b < SIZE_MOD" by (auto simp: SIZE_MOD_def SIZE_MAX_def)
  then show ?thesis by (simp add: sz_sub_def)
qed

lemma sz_mul_exact: "a * b \<le> SIZE_MAX \<Longrightarrow> sz_mul a b = a * b"
  by (simp add: sz_mul_def SIZE_MOD_def SIZE_MAX_def)

section \<open>Alignment\<close>

definition BB_MEM_ARENA_ALIGN :: nat where "BB_MEM_ARENA_ALIGN = 16"

text \<open>\<^verbatim>\<open>n & ~(ALIGN - 1)\<close> and \<^verbatim>\<open>(n + (ALIGN - 1)) & ~(ALIGN - 1)\<close>, the addition wrapping.\<close>

definition align_mask :: "nat \<Rightarrow> nat" where
  "align_mask n = n AND sz_not (BB_MEM_ARENA_ALIGN - 1)"

definition align_wrap :: "nat \<Rightarrow> nat" where
  "align_wrap n = align_mask (sz_add n (BB_MEM_ARENA_ALIGN - 1))"

definition SIZEOF_ARENA :: nat where "SIZEOF_ARENA = 64"
definition BB_MEM_ARENA_HDR_SZ :: nat where "BB_MEM_ARENA_HDR_SZ = align_wrap SIZEOF_ARENA"

text \<open>The rounding the mask performs, and its mathematical counterpart upwards.\<close>

definition round16 :: "nat \<Rightarrow> nat" where "round16 n = (n + 15) div 16 * 16"

lemma align_mask_eq: "n \<le> SIZE_MAX \<Longrightarrow> align_mask n = n div 16 * 16"
proof -
  assume n: "n \<le> SIZE_MAX"
  have m: "sz_not (BB_MEM_ARENA_ALIGN - 1) = push_bit 4 (mask 60)"
    unfolding sz_not_def SIZE_MAX_def BB_MEM_ARENA_ALIGN_def by (simp add: push_bit_eq_mult mask_eq_exp_minus_1)
  have "n AND push_bit 4 (mask 60) = push_bit 4 (drop_bit 4 n AND mask 60)"
    by (rule bit_eqI) (auto simp: bit_simps)
  also have "drop_bit 4 n AND mask 60 = take_bit 60 (drop_bit 4 n)" by (simp add: take_bit_eq_mask)
  also have "\<dots> = drop_bit 4 n"
    using n by (simp add: take_bit_nat_eq_self_iff drop_bit_eq_div SIZE_MAX_def)
  finally show ?thesis unfolding align_mask_def m by (simp only: push_bit_eq_mult drop_bit_eq_div) simp
qed

lemma align_wrap_eq: "n + 15 \<le> SIZE_MAX \<Longrightarrow> align_wrap n = round16 n"
  by (simp add: align_wrap_def BB_MEM_ARENA_ALIGN_def sz_add_exact align_mask_eq round16_def)

lemma align_wrap_big: "n \<le> SIZE_MAX \<Longrightarrow> SIZE_MAX < n + 15 \<Longrightarrow> align_wrap n = 0"
proof -
  assume "n \<le> SIZE_MAX" "SIZE_MAX < n + 15"
  then have "sz_add n 15 = n + 15 - SIZE_MOD" "n + 15 - SIZE_MOD < 16"
    by (auto simp: sz_add_def SIZE_MAX_def SIZE_MOD_def mod_if)
  then show ?thesis by (simp add: align_wrap_def BB_MEM_ARENA_ALIGN_def align_mask_eq SIZE_MAX_def)
qed

lemma hdr_sz [simp]: "BB_MEM_ARENA_HDR_SZ = 64"
  by (simp add: BB_MEM_ARENA_HDR_SZ_def SIZEOF_ARENA_def align_wrap_eq SIZE_MAX_def round16_def)

lemma round16_bounds: "n \<le> round16 n" "round16 n < n + 16" "16 dvd round16 n"
  by (auto simp: round16_def)

lemma round16_pos: "0 < n \<Longrightarrow> 0 < round16 n"
  using round16_bounds(1) [of n] by linarith

lemma round16_id: "16 dvd n \<Longrightarrow> round16 n = n"
  by (auto simp: round16_def elim!: dvdE)

lemma round16_mono: "a \<le> b \<Longrightarrow> round16 a \<le> round16 b"
  by (simp add: round16_def div_le_mono)

section \<open>The arena\<close>

record bb_mem_arena_stats_t =
  st_alloc_count :: nat
  st_free_count :: nat
  st_alloc_failed :: nat
  st_peak_offset :: nat

record bb_mem_arena =
  ma_buf :: nat
  ma_size :: nat
  ma_offset :: nat
  ma_stats :: bb_mem_arena_stats_t
  ma_owned_block :: "nat option"

definition stats0 :: bb_mem_arena_stats_t where
  "stats0 = \<lparr> st_alloc_count = 0, st_free_count = 0, st_alloc_failed = 0, st_peak_offset = 0 \<rparr>"

definition bb_mem_arena_carve :: "bool \<Rightarrow> nat option \<Rightarrow> nat \<Rightarrow> bb_err_t \<times> bb_mem_arena option" where
  "bb_mem_arena_carve out block block_size =
     (case block of
        None \<Rightarrow> (BB_ERR_INVALID_ARG, None)
      | Some b \<Rightarrow>
          if \<not> out \<or> block_size < BB_MEM_ARENA_HDR_SZ + BB_MEM_ARENA_ALIGN then (BB_ERR_INVALID_ARG, None)
          else (BB_OK, Some \<lparr> ma_buf = b + BB_MEM_ARENA_HDR_SZ, ma_size = sz_sub block_size BB_MEM_ARENA_HDR_SZ,
                              ma_offset = 0, ma_stats = stats0, ma_owned_block = None \<rparr>))"

definition bb_mem_arena_init :: "bool \<Rightarrow> nat option \<Rightarrow> nat \<Rightarrow> bb_err_t \<times> bb_mem_arena option" where
  "bb_mem_arena_init out buf n = bb_mem_arena_carve out buf n"

text \<open>\<^verbatim>\<open>calloc_rc\<close> is what \<^verbatim>\<open>bb_calloc_prefer_spiram(1, total)\<close> returns; the third result lists the blocks
  given back to \<^verbatim>\<open>bb_mem_free\<close>.\<close>

definition bb_mem_arena_init_from_bb_mem ::
  "bool \<Rightarrow> nat \<Rightarrow> (nat \<Rightarrow> nat option) \<Rightarrow> bb_err_t \<times> bb_mem_arena option \<times> nat list"
where
  "bb_mem_arena_init_from_bb_mem out sz calloc_rc =
     (if \<not> out \<or> sz = 0 then (BB_ERR_INVALID_ARG, None, [])
      else if sz_sub SIZE_MAX BB_MEM_ARENA_HDR_SZ < sz then (BB_ERR_INVALID_ARG, None, [])
      else let total = sz_add BB_MEM_ARENA_HDR_SZ sz in
        case calloc_rc total of
          None \<Rightarrow> (BB_ERR_NO_MEM, None, [])
        | Some block \<Rightarrow>
            (case bb_mem_arena_carve out (Some block) total of
               (err, a) \<Rightarrow>
                 if err \<noteq> BB_OK then (err, a, [block])
                 else (BB_OK, map_option (\<lambda>a. a\<lparr>ma_owned_block := Some block\<rparr>) a, [])))"

definition bb_mem_arena_init_heap ::
  "bool \<Rightarrow> nat \<Rightarrow> (nat \<Rightarrow> nat option) \<Rightarrow> bb_err_t \<times> bb_mem_arena option \<times> nat list" where
  "bb_mem_arena_init_heap out sz calloc_rc = bb_mem_arena_init_from_bb_mem out sz calloc_rc"

definition bb_mem_arena_init_spiram ::
  "bool \<Rightarrow> nat \<Rightarrow> (nat \<Rightarrow> nat option) \<Rightarrow> bb_err_t \<times> bb_mem_arena option \<times> nat list" where
  "bb_mem_arena_init_spiram out sz calloc_rc = bb_mem_arena_init_from_bb_mem out sz calloc_rc"

text \<open>The failure statistic, and the bump with its statistics that both allocators share.\<close>

definition note_failed :: "bb_mem_arena \<Rightarrow> bb_mem_arena" where
  "note_failed a = a\<lparr>ma_stats := (ma_stats a)\<lparr>st_alloc_failed := sz_add (st_alloc_failed (ma_stats a)) 1\<rparr>\<rparr>"

definition bump :: "nat \<Rightarrow> bb_mem_arena \<Rightarrow> bb_mem_arena" where
  "bump n a =
     (let off = sz_add (ma_offset a) n; st = ma_stats a;
          st = st\<lparr>st_alloc_count := sz_add (st_alloc_count st) 1\<rparr>;
          st = (if off > st_peak_offset st then st\<lparr>st_peak_offset := off\<rparr> else st)
      in a\<lparr>ma_offset := off, ma_stats := st\<rparr>)"

definition bb_mem_arena_alloc :: "bb_mem_arena option \<Rightarrow> nat \<Rightarrow> nat option \<times> bb_mem_arena option" where
  "bb_mem_arena_alloc h bytes =
     (case h of
        None \<Rightarrow> (None, None)
      | Some a \<Rightarrow>
          if bytes = 0 then (None, Some (note_failed a))
          else let remaining = sz_sub (ma_size a) (ma_offset a) in
            if bytes > remaining then (None, Some (note_failed a))
            else let aligned = align_wrap bytes in
              if aligned < bytes \<or> aligned > remaining then (None, Some (note_failed a))
              else (Some (ma_buf a + ma_offset a), Some (bump aligned a)))"

text \<open>The second result is what is stored through \<^verbatim>\<open>out_size\<close> when it is not NULL.\<close>

definition bb_mem_arena_alloc_rest :: "bb_mem_arena option \<Rightarrow> nat option \<times> nat \<times> bb_mem_arena option" where
  "bb_mem_arena_alloc_rest h =
     (case h of
        None \<Rightarrow> (None, 0, None)
      | Some a \<Rightarrow>
          let remaining = sz_sub (ma_size a) (ma_offset a); aligned_down = align_mask remaining in
          if aligned_down = 0 then (None, 0, Some (note_failed a))
          else (Some (ma_buf a + ma_offset a), aligned_down, Some (bump aligned_down a)))"

definition bb_mem_arena_owns :: "bb_mem_arena option \<Rightarrow> nat option \<Rightarrow> bool" where
  "bb_mem_arena_owns h ptr =
     (case (h, ptr) of
        (Some a, Some p) \<Rightarrow> p \<ge> ma_buf a \<and> p < ma_buf a + ma_size a
      | _ \<Rightarrow> False)"

text \<open>\<^verbatim>\<open>None\<close> is the failed assertion of a pointer the arena does not own.\<close>

definition bb_mem_arena_free :: "bb_mem_arena option \<Rightarrow> nat option \<Rightarrow> bb_mem_arena option option" where
  "bb_mem_arena_free h ptr =
     (case (h, ptr) of
        (Some a, Some p) \<Rightarrow>
          if bb_mem_arena_owns h ptr
          then Some (Some (a\<lparr>ma_stats := (ma_stats a)\<lparr>st_free_count := sz_add (st_free_count (ma_stats a)) 1\<rparr>\<rparr>))
          else None
      | _ \<Rightarrow> Some h)"

definition bb_mem_arena_reset :: "bb_mem_arena option \<Rightarrow> bb_mem_arena option" where
  "bb_mem_arena_reset h = map_option (\<lambda>a. a\<lparr>ma_offset := 0\<rparr>) h"

definition bb_mem_arena_free_bytes :: "bb_mem_arena option \<Rightarrow> nat" where
  "bb_mem_arena_free_bytes h = (case h of None \<Rightarrow> 0 | Some a \<Rightarrow> sz_sub (ma_size a) (ma_offset a))"

definition bb_mem_arena_size :: "bb_mem_arena option \<Rightarrow> nat" where
  "bb_mem_arena_size h = (case h of None \<Rightarrow> 0 | Some a \<Rightarrow> ma_size a)"

text \<open>\<^verbatim>\<open>out\<close> keeps its old contents when the arena is NULL.\<close>

definition bb_mem_arena_get_stats :: "bb_mem_arena option \<Rightarrow> bb_mem_arena_stats_t \<Rightarrow> bb_mem_arena_stats_t" where
  "bb_mem_arena_get_stats h out = (case h of None \<Rightarrow> out | Some a \<Rightarrow> ma_stats a)"

text \<open>The block returned to \<^verbatim>\<open>bb_mem_free\<close>, if any.\<close>

definition bb_mem_arena_destroy :: "bb_mem_arena option \<Rightarrow> nat option" where
  "bb_mem_arena_destroy h = (case h of None \<Rightarrow> None | Some a \<Rightarrow> ma_owned_block a)"

section \<open>The invariant\<close>

definition ma_inv :: "bb_mem_arena \<Rightarrow> bool" where
  "ma_inv a \<longleftrightarrow> ma_offset a \<le> ma_size a \<and> ma_size a \<le> SIZE_MAX \<and> 16 dvd ma_offset a \<and>
     ma_offset a \<le> st_peak_offset (ma_stats a) \<and> st_peak_offset (ma_stats a) \<le> ma_size a"

abbreviation ma_free :: "bb_mem_arena \<Rightarrow> nat" where "ma_free a \<equiv> ma_size a - ma_offset a"

lemma ma_free_bytes: "ma_inv a \<Longrightarrow> bb_mem_arena_free_bytes (Some a) = ma_free a"
  by (simp add: bb_mem_arena_free_bytes_def ma_inv_def sz_sub_exact)

lemma note_failed_frame [simp, frame_simps]:
  "ma_buf (note_failed a) = ma_buf a" "ma_size (note_failed a) = ma_size a"
  "ma_offset (note_failed a) = ma_offset a" "ma_owned_block (note_failed a) = ma_owned_block a"
  "st_peak_offset (ma_stats (note_failed a)) = st_peak_offset (ma_stats a)"
  by (simp_all add: note_failed_def)

lemma bump_frame [simp, frame_simps]:
  "ma_buf (bump n a) = ma_buf a" "ma_size (bump n a) = ma_size a" "ma_owned_block (bump n a) = ma_owned_block a"
  by (simp_all add: bump_def Let_def)

lemma note_failed_inv [inv_intros]: "ma_inv a \<Longrightarrow> ma_inv (note_failed a)"
  by (simp add: ma_inv_def)

lemma bump_sum: "ma_inv a \<Longrightarrow> n \<le> ma_free a \<Longrightarrow> sz_add (ma_offset a) n = ma_offset a + n"
  by (rule sz_add_exact) (auto simp: ma_inv_def)

lemma bump_offset: "ma_inv a \<Longrightarrow> n \<le> ma_free a \<Longrightarrow> ma_offset (bump n a) = ma_offset a + n"
  by (simp add: bump_def Let_def bump_sum)

lemma bump_peak: "ma_inv a \<Longrightarrow> n \<le> ma_free a \<Longrightarrow>
  st_peak_offset (ma_stats (bump n a)) = max (st_peak_offset (ma_stats a)) (ma_offset a + n)"
  by (auto simp: bump_def Let_def bump_sum)

lemma bump_inv [inv_intros]: "ma_inv a \<Longrightarrow> n \<le> ma_free a \<Longrightarrow> 16 dvd n \<Longrightarrow> ma_inv (bump n a)"
  unfolding ma_inv_def [of "bump n a"] by (simp add: bump_offset bump_peak) (auto simp: ma_inv_def)

lemma carve_OK:
  assumes "bb_mem_arena_carve out block n = (BB_OK, h)" and "n \<le> SIZE_MAX"
  shows "\<exists>b a. block = Some b \<and> h = Some a \<and> ma_inv a \<and> ma_buf a = b + 64 \<and> ma_size a = n - 64 \<and> ma_offset a = 0 \<and>
    ma_owned_block a = None \<and> 16 \<le> ma_size a"
  using assms
  by (auto simp: bb_mem_arena_carve_def BB_MEM_ARENA_ALIGN_def ma_inv_def stats0_def sz_sub_exact
      split: option.splits if_splits)

text \<open>Allocation, in one equation: it succeeds exactly when the rounded size fits.\<close>

lemma alloc_eq:
  assumes "ma_inv a"
  shows "bb_mem_arena_alloc (Some a) n =
    (if 0 < n \<and> round16 n \<le> ma_free a then (Some (ma_buf a + ma_offset a), Some (bump (round16 n) a))
     else (None, Some (note_failed a)))"
proof -
  have r: "sz_sub (ma_size a) (ma_offset a) = ma_free a" and sm: "ma_free a \<le> SIZE_MAX"
    using assms by (auto simp: ma_inv_def sz_sub_exact)
  show ?thesis
  proof (cases "n + 15 \<le> SIZE_MAX")
    case True
    then show ?thesis
      using round16_bounds(1) [of n]
      by (auto simp: bb_mem_arena_alloc_def Let_def r align_wrap_eq)
  next
    case False
    have no: "\<not> round16 n \<le> ma_free a \<or> n \<le> ma_free a" using round16_bounds(1) [of n] by linarith
    have big: "SIZE_MAX < round16 n"
    proof -
      have "SIZE_MAX - 15 < n" using False by (simp add: SIZE_MAX_def)
      then have "(SIZE_MAX - 15) + 1 \<le> n" by simp
      then have "round16 (SIZE_MAX - 15 + 1) \<le> round16 n" by (rule round16_mono)
      then show ?thesis by (simp add: SIZE_MAX_def round16_def)
    qed
    show ?thesis
    proof (cases "n \<le> ma_free a")
      case True
      then have "align_wrap n = 0" using False sm by (intro align_wrap_big) linarith+
      then show ?thesis using big sm True by (simp add: bb_mem_arena_alloc_def Let_def r)
    next
      case f: False
      then show ?thesis using big sm by (simp add: bb_mem_arena_alloc_def Let_def r)
    qed
  qed
qed

lemma alloc_rest_eq:
  assumes "ma_inv a"
  shows "bb_mem_arena_alloc_rest (Some a) =
    (let n = ma_free a div 16 * 16 in
     if n = 0 then (None, 0, Some (note_failed a))
     else (Some (ma_buf a + ma_offset a), n, Some (bump n a)))"
proof -
  have r: "sz_sub (ma_size a) (ma_offset a) = ma_free a" and sm: "ma_free a \<le> SIZE_MAX"
    using assms by (auto simp: ma_inv_def sz_sub_exact)
  then show ?thesis by (simp add: bb_mem_arena_alloc_rest_def Let_def r align_mask_eq)
qed

section \<open>What a user of the arena sees\<close>

text \<open>A client's calls, and the blocks it holds: what it asked for and was given since the last reset.\<close>

datatype ma_op = Alloc nat | AllocRest | Free nat | Reset

fun ma_step :: "bb_mem_arena \<times> (nat \<times> nat) list \<Rightarrow> ma_op \<Rightarrow> bb_mem_arena \<times> (nat \<times> nat) list" where
  "ma_step (a, live) (Alloc n) =
     (case bb_mem_arena_alloc (Some a) n of
        (Some p, Some a') \<Rightarrow> (a', live @ [(p, n)])
      | (_, h) \<Rightarrow> (the_default a h, live))"
| "ma_step (a, live) AllocRest =
     (case bb_mem_arena_alloc_rest (Some a) of
        (Some p, n, Some a') \<Rightarrow> (a', live @ [(p, n)])
      | (_, _, h) \<Rightarrow> (the_default a h, live))"
| "ma_step (a, live) (Free p) =
     (case bb_mem_arena_free (Some a) (Some p) of Some h \<Rightarrow> (the_default a h, live) | None \<Rightarrow> (a, live))"
| "ma_step (a, live) Reset = (the_default a (bb_mem_arena_reset (Some a)), [])"

definition ma_run :: "bb_mem_arena \<Rightarrow> ma_op list \<Rightarrow> bb_mem_arena \<times> (nat \<times> nat) list" where
  "ma_run a ops = foldl ma_step (a, []) ops"

text \<open>Blocks laid out in order, each after the end of the one before, from \<^verbatim>\<open>lo\<close> up to \<^verbatim>\<open>hi\<close>.\<close>

fun laid_out :: "nat \<Rightarrow> nat \<Rightarrow> (nat \<times> nat) list \<Rightarrow> bool" where
  "laid_out lo hi [] \<longleftrightarrow> lo \<le> hi"
| "laid_out lo hi ((p, n) # bs) \<longleftrightarrow> lo \<le> p \<and> 0 < n \<and> laid_out (p + n) hi bs"

lemma laid_out_le: "laid_out lo hi bs \<Longrightarrow> lo \<le> hi"
  by (induction lo hi bs rule: laid_out.induct) auto

lemma laid_out_snoc: "laid_out lo hi bs \<Longrightarrow> hi \<le> p \<Longrightarrow> 0 < n \<Longrightarrow> p + n \<le> hi' \<Longrightarrow> laid_out lo hi' (bs @ [(p, n)])"
  by (induction lo hi bs rule: laid_out.induct) auto

lemma laid_out_inside: "laid_out lo hi bs \<Longrightarrow> (p, n) \<in> set bs \<Longrightarrow> lo \<le> p \<and> p + n \<le> hi \<and> 0 < n"
  by (induction lo hi bs rule: laid_out.induct) (auto dest: laid_out_le)

lemma laid_out_weaken: "laid_out lo hi bs \<Longrightarrow> lo' \<le> lo \<Longrightarrow> laid_out lo' hi bs"
  by (cases bs) auto

lemma laid_out_disjoint:
  "laid_out lo hi bs \<Longrightarrow> i < j \<Longrightarrow> j < length bs \<Longrightarrow> fst (bs ! i) + snd (bs ! i) \<le> fst (bs ! j)"
proof (induction lo hi bs arbitrary: i j rule: laid_out.induct)
  case (2 lo hi p n bs)
  show ?case
  proof (cases i)
    case 0
    obtain k where k: "j = Suc k" using 2 by (cases j) auto
    have "(fst (bs ! k), snd (bs ! k)) \<in> set bs" using k 2(4) by simp
    moreover have "laid_out (p + n) hi bs" using 2(2) by simp
    ultimately have "p + n \<le> fst (bs ! k)" by (blast dest: laid_out_inside)
    then show ?thesis by (simp add: 0 k)
  next
    case (Suc i')
    obtain k where k: "j = Suc k" using Suc 2(3) by (cases j) auto
    show ?thesis using 2(1) [of i' k] 2(2-4) by (simp add: Suc k)
  qed
qed simp

definition ma_ok :: "nat \<Rightarrow> nat \<Rightarrow> bb_mem_arena \<times> (nat \<times> nat) list \<Rightarrow> bool" where
  "ma_ok buf n x \<longleftrightarrow> ma_inv (fst x) \<and> ma_buf (fst x) = buf \<and> ma_size (fst x) = n \<and>
     laid_out buf (buf + ma_offset (fst x)) (snd x) \<and> (\<forall>b\<in>set (snd x). 16 dvd fst b - buf)"

lemma ma_step_ok: "ma_ok buf n x \<Longrightarrow> ma_ok buf n (ma_step x op)"
proof -
  assume ok: "ma_ok buf n x"
  obtain a live where x: "x = (a, live)" by (cases x)
  have inv: "ma_inv a" and b: "ma_buf a = buf" "ma_size a = n" and l: "laid_out buf (buf + ma_offset a) live"
    and d: "\<forall>b\<in>set live. 16 dvd fst b - buf"
    using ok by (simp_all add: ma_ok_def x)
  have o16: "16 dvd ma_offset a" using inv by (simp add: ma_inv_def)
  show ?thesis
  proof (cases op)
    case (Alloc m)
    show ?thesis
    proof (cases "0 < m \<and> round16 m \<le> ma_free a")
      case True
      have "laid_out buf (buf + ma_offset (bump (round16 m) a)) (live @ [(buf + ma_offset a, m)])"
        using True inv round16_bounds(1) [of m] by (intro laid_out_snoc [OF l]) (auto simp: bump_offset)
      then show ?thesis using True inv d o16 b round16_bounds(3) [of m]
        by (simp add: Alloc x ma_ok_def alloc_eq bump_inv del: dvd_imp_mod_0)
    next
      case False
      then show ?thesis using inv d b l
        by (simp only: Alloc x ma_ok_def alloc_eq if_False ma_step.simps)
          (simp add: the_default_def note_failed_inv)
    qed
  next
    case AllocRest
    let ?m = "ma_free a div 16 * 16"
    have m: "?m \<le> ma_free a" by simp
    show ?thesis
    proof (cases "?m = 0")
      case True
      then show ?thesis using inv d b l by (simp add: AllocRest x ma_ok_def alloc_rest_eq the_default_def note_failed_inv)
    next
      case False
      have "laid_out buf (buf + ma_offset (bump ?m a)) (live @ [(buf + ma_offset a, ?m)])"
        using False inv m by (intro laid_out_snoc [OF l]) (auto simp: bump_offset)
      moreover have "ma_inv (bump ?m a)" using inv m by (rule bump_inv) simp
      ultimately show ?thesis using False inv d o16 b by (simp add: AllocRest x ma_ok_def alloc_rest_eq Let_def)
    qed
  next
    case (Free p)
    then show ?thesis using inv d b l
      by (auto simp: x ma_ok_def bb_mem_arena_free_def the_default_def ma_inv_def split: option.splits)
  next
    case Reset
    then show ?thesis using inv b by (simp add: x ma_ok_def bb_mem_arena_reset_def the_default_def ma_inv_def)
  qed
qed

lemma ma_run_ok: "ma_inv a \<Longrightarrow> ma_ok (ma_buf a) (ma_size a) (ma_run a ops)"
proof -
  assume a: "ma_inv a"
  have "ma_ok (ma_buf a) (ma_size a) x \<Longrightarrow> ma_ok (ma_buf a) (ma_size a) (foldl ma_step x ops)" for x
    by (induction ops arbitrary: x) (simp_all add: ma_step_ok)
  moreover have "ma_ok (ma_buf a) (ma_size a) (a, [])" using a by (simp add: ma_ok_def)
  ultimately show ?thesis by (simp add: ma_run_def)
qed

text \<open>C16: allocations never overlap. Over any sequence of allocations, frees and resets on an arena carved
  from a block of \<^verbatim>\<open>n\<close> bytes, the blocks handed out since the last reset (with the sizes asked
  for, or granted by \<^verbatim>\<open>alloc_rest\<close>) are pairwise disjoint, non-empty, inside the block and behind its header, and
  aligned to 16 bytes when the block is.\<close>
theorem arena_blocks_disjoint:
  assumes init: "bb_mem_arena_init True (Some b) n = (BB_OK, Some a)" and n: "n \<le> SIZE_MAX"
    and run: "ma_run a ops = (a', live)"
  shows "(\<forall>i j. i < j \<and> j < length live \<longrightarrow> fst (live ! i) + snd (live ! i) \<le> fst (live ! j)) \<and>
    (\<forall>(p, m)\<in>set live. b + 64 \<le> p \<and> p + m \<le> b + n \<and> 0 < m \<and> (16 dvd b \<longrightarrow> 16 dvd p))"
proof -
  have a: "ma_inv a" "ma_buf a = b + 64" "ma_size a = n - 64" "16 \<le> ma_size a"
    using carve_OK init n by (auto simp: bb_mem_arena_init_def)
  then have ok: "ma_ok (b + 64) (n - 64) (a', live)" using ma_run_ok [of a ops] run by simp
  then have l: "laid_out (b + 64) (b + 64 + ma_offset a') live" and inv: "ma_inv a'" "ma_size a' = n - 64"
    and d: "\<forall>x\<in>set live. 16 dvd fst x - (b + 64)"
    by (simp_all add: ma_ok_def)
  have dis: "\<forall>i j. i < j \<and> j < length live \<longrightarrow> fst (live ! i) + snd (live ! i) \<le> fst (live ! j)"
    using laid_out_disjoint [OF l] by blast
  have off: "b + 64 + ma_offset a' \<le> b + n" using inv a(3,4) by (auto simp: ma_inv_def)
  have "b + 64 \<le> p \<and> p + m \<le> b + n \<and> 0 < m \<and> (16 dvd b \<longrightarrow> 16 dvd p)" if pm: "(p, m) \<in> set live" for p m
  proof -
    have i: "b + 64 \<le> p" "p + m \<le> b + 64 + ma_offset a'" "0 < m" using laid_out_inside [OF l pm] by auto
    have dp: "16 dvd p - (b + 64)" using d pm by auto
    have "16 dvd p" if "16 dvd b"
    proof -
      have "16 dvd b + 64" using that by simp
      then have "16 dvd (p - (b + 64)) + (b + 64)" using dp by (simp only: dvd_add)
      then show ?thesis using i(1) by simp
    qed
    then show ?thesis using i off by simp
  qed
  then have "\<forall>(p, m)\<in>set live. b + 64 \<le> p \<and> p + m \<le> b + n \<and> 0 < m \<and> (16 dvd b \<longrightarrow> 16 dvd p)" by blast
  with dis show ?thesis by blast
qed

theorem arena_blocks_disjoint_witness:
  "\<exists>a a' live. bb_mem_arena_init True (Some 4096) 1024 = (BB_OK, Some a) \<and>
     ma_run a [Alloc 5, Alloc 2000, Alloc 40] = (a', live) \<and> live = [(4160, 5), (4176, 40)] \<and>
     fst (live ! 0) + snd (live ! 0) \<le> fst (live ! 1) \<and> fst (live ! 1) + snd (live ! 1) \<le> 4096 + 1024"
proof -
  obtain a where a: "bb_mem_arena_init True (Some 4096) 1024 = (BB_OK, Some a)" and inv: "ma_inv a" and f: "ma_buf a = 4160" "ma_size a = 960" "ma_offset a = 0"
  proof -
    have "fst (bb_mem_arena_init True (Some 4096) 1024) = BB_OK"
      by (simp add: bb_mem_arena_init_def bb_mem_arena_carve_def BB_MEM_ARENA_ALIGN_def)
    then obtain h where h: "bb_mem_arena_init True (Some 4096) 1024 = (BB_OK, h)" by (cases "bb_mem_arena_init True (Some 4096) 1024") simp
    then have c: "bb_mem_arena_carve True (Some 4096) 1024 = (BB_OK, h)" by (simp add: bb_mem_arena_init_def)
    show ?thesis using carve_OK [OF c] h that by (auto simp: SIZE_MAX_def)
  qed
  let ?a1 = "bump 16 a" and ?a2 = "note_failed (bump 16 a)"
  have r: "round16 5 = 16" "round16 2000 = 2000" "round16 40 = 48" by (simp_all add: round16_def)
  have 1: "ma_inv ?a1" "ma_offset ?a1 = 16" using inv f by (simp_all add: bump_inv bump_offset)
  have 2: "ma_inv ?a2" "ma_offset ?a2 = 16" using 1 by (simp_all add: note_failed_inv)
  have run: "ma_run a [Alloc 5, Alloc 2000, Alloc 40] = (bump 48 ?a2, [(4160, 5), (4176, 40)])"
    using 1 2 inv f by (simp add: ma_run_def alloc_eq r the_default_def)
  show ?thesis using arena_blocks_disjoint [OF a _ run] a run by (simp add: SIZE_MAX_def)
qed

text \<open>Allocation never wraps. For every request up to \<^verbatim>\<open>SIZE_MAX\<close>, an allocation of a well-formed arena
  succeeds exactly when it is not empty and its size, rounded up over the unbounded integers, fits in the
  free bytes; then it returns the current end of the used region and takes exactly the rounded size. A refused
  one changes no byte of the accounting but the failure count.\<close>
theorem arena_alloc_exact:
  assumes "ma_inv a" and "n \<le> SIZE_MAX" and "bb_mem_arena_alloc (Some a) n = (r, Some a')"
  shows "(r \<noteq> None \<longleftrightarrow> 0 < n \<and> int ((n + 15) div 16 * 16) \<le> int (bb_mem_arena_free_bytes (Some a))) \<and>
    (r \<noteq> None \<longrightarrow> r = Some (ma_buf a + ma_offset a) \<and>
       bb_mem_arena_free_bytes (Some a') = bb_mem_arena_free_bytes (Some a) - (n + 15) div 16 * 16) \<and>
    (r = None \<longrightarrow> a' = a\<lparr>ma_stats := (ma_stats a)\<lparr>st_alloc_failed := (st_alloc_failed (ma_stats a) + 1) mod 2 ^ 64\<rparr>\<rparr>) \<and>
    ma_inv a'"
proof (cases "0 < n \<and> round16 n \<le> ma_free a")
  case True
  then have e: "r = Some (ma_buf a + ma_offset a)" "a' = bump (round16 n) a" using assms by (simp_all add: alloc_eq)
  have i: "ma_inv a'" unfolding e(2) using assms(1) True by (intro bump_inv) (auto simp: round16_bounds)
  have f: "bb_mem_arena_free_bytes (Some a) = ma_free a" "bb_mem_arena_free_bytes (Some a') = ma_free a'"
    using assms(1) i by (simp_all only: ma_free_bytes)
  show ?thesis using True i assms(1) unfolding f round16_def [symmetric] by (simp add: e bump_offset)
next
  case False
  then have e: "r = None" "a' = note_failed a" using assms by (auto simp: alloc_eq simp del: de_Morgan_conj)
  show ?thesis using False note_failed_inv [OF assms(1)]
    unfolding ma_free_bytes [OF assms(1)] round16_def [symmetric] of_nat_le_iff
    by (simp add: e note_failed_def sz_add_def SIZE_MOD_def)
qed

text \<open>A small arena of 32 free bytes.\<close>

definition arena32 :: bb_mem_arena where
  "arena32 = \<lparr> ma_buf = 4160, ma_size = 48, ma_offset = 16,
     ma_stats = \<lparr> st_alloc_count = 3, st_free_count = 0, st_alloc_failed = 0, st_peak_offset = 32 \<rparr>, ma_owned_block = None \<rparr>"

lemma arena32_inv: "ma_inv arena32"
  by (simp add: arena32_def ma_inv_def SIZE_MAX_def)

theorem arena_alloc_exact_witness:
  "\<exists>r a'. bb_mem_arena_alloc (Some arena32) SIZE_MAX = (r, Some a') \<and> r = None \<and> ma_inv a'"
proof -
  have f: "bb_mem_arena_free_bytes (Some arena32) = 32" by (simp add: ma_free_bytes arena32_inv) (simp add: arena32_def)
  obtain r h where e: "bb_mem_arena_alloc (Some arena32) SIZE_MAX = (r, h)" by fastforce
  then obtain a' where h: "h = Some a'" by (auto simp: alloc_eq [OF arena32_inv] split: if_splits)
  show ?thesis using arena_alloc_exact [OF arena32_inv _ e [unfolded h]] e h
    unfolding f by (auto simp: SIZE_MAX_def)
qed

text \<open>The offsets an arena goes through.\<close>

definition ma_offsets :: "bb_mem_arena \<Rightarrow> ma_op list \<Rightarrow> nat list" where
  "ma_offsets a ops = map (\<lambda>k. ma_offset (fst (ma_run a (take k ops)))) [0..<Suc (length ops)]"

lemma ma_step_peak:
  assumes "ma_inv (fst x)"
  shows "st_peak_offset (ma_stats (fst (ma_step x op))) = max (st_peak_offset (ma_stats (fst x))) (ma_offset (fst (ma_step x op)))"
proof -
  obtain a live where x: "x = (a, live)" by (cases x)
  have inv: "ma_inv a" and le: "ma_offset a \<le> st_peak_offset (ma_stats a)" using assms by (simp_all add: x ma_inv_def)
  show ?thesis
  proof (cases op)
    case (Alloc m)
    then show ?thesis using inv le by (simp add: x alloc_eq the_default_def bump_peak bump_offset max_def)
  next
    case AllocRest
    have "ma_free a div 16 * 16 \<le> ma_free a" by simp
    then show ?thesis using AllocRest inv le
      by (simp add: x alloc_rest_eq the_default_def bump_peak bump_offset max_def Let_def)
  next
    case (Free p)
    then show ?thesis using le by (simp add: x bb_mem_arena_free_def the_default_def max_def split: option.splits)
  next
    case Reset
    then show ?thesis by (simp add: x bb_mem_arena_reset_def the_default_def)
  qed
qed

lemma ma_run_snoc: "ma_run a (ops @ [op]) = ma_step (ma_run a ops) op"
  by (simp add: ma_run_def)

lemma ma_offsets_snoc: "ma_offsets a (ops @ [op]) = ma_offsets a ops @ [ma_offset (fst (ma_run a (ops @ [op])))]"
  by (simp add: ma_offsets_def del: upt_Suc) (simp add: upt_Suc_append)

text \<open>The high-water mark is exact. After any sequence of calls the peak statistic of a fresh arena is the largest
  offset that the arena ever had, resets included.\<close>
theorem arena_peak_is_max:
  assumes init: "bb_mem_arena_init True (Some b) n = (BB_OK, Some a)" and n: "n \<le> SIZE_MAX"
  shows "st_peak_offset (ma_stats (fst (ma_run a ops))) = Max (set (ma_offsets a ops))"
proof -
  have a: "ma_inv a" using carve_OK init n by (auto simp: bb_mem_arena_init_def)
  have z: "ma_offset a = 0" "st_peak_offset (ma_stats a) = 0"
    using init by (auto simp: bb_mem_arena_init_def bb_mem_arena_carve_def stats0_def split: if_splits)
  show ?thesis
  proof (induction ops rule: rev_induct)
    case Nil
    then show ?case using z by (simp add: ma_offsets_def ma_run_def)
  next
    case (snoc op ops)
    have i: "ma_inv (fst (ma_run a ops))" using ma_run_ok [OF a, of ops] by (simp add: ma_ok_def)
    have ne: "ma_offsets a ops \<noteq> []" by (simp add: ma_offsets_def)
    show ?case using ma_step_peak [OF i, of op] snoc.IH ne
      by (simp add: ma_offsets_snoc ma_run_snoc max.commute)
  qed
qed

theorem arena_peak_is_max_witness:
  "\<exists>a. bb_mem_arena_init True (Some 4096) 1024 = (BB_OK, Some a) \<and>
     st_peak_offset (ma_stats (fst (ma_run a [Alloc 5, Reset]))) = Max (set (ma_offsets a [Alloc 5, Reset]))"
proof -
  have "\<exists>a. bb_mem_arena_init True (Some 4096) 1024 = (BB_OK, Some a)"
    by (simp add: bb_mem_arena_init_def bb_mem_arena_carve_def BB_MEM_ARENA_ALIGN_def)
  then obtain a where a: "bb_mem_arena_init True (Some 4096) 1024 = (BB_OK, Some a)" ..
  show ?thesis using arena_peak_is_max [OF a, of "[Alloc 5, Reset]"] a by (simp add: SIZE_MAX_def)
qed

text \<open>The check after the rounding is not dead code: a block of 81 bytes gives a region of 17, and a request of 17
  passes the first check and is refused by the second.\<close>

lemma arena_second_check_reached:
  "\<exists>a. bb_mem_arena_init True (Some 4096) 81 = (BB_OK, Some a) \<and> \<not> 17 > bb_mem_arena_free_bytes (Some a) \<and>
     align_wrap 17 > bb_mem_arena_free_bytes (Some a) \<and> fst (bb_mem_arena_alloc (Some a) 17) = None"
  by (simp add: bb_mem_arena_init_def bb_mem_arena_carve_def BB_MEM_ARENA_ALIGN_def sz_sub_exact SIZE_MAX_def
      bb_mem_arena_free_bytes_def align_wrap_eq round16_def bb_mem_arena_alloc_def Let_def)

end
