(* ===== verification/BB_Pool.thy ===== *)
theory BB_Pool
  imports BB_Mem_Arena BB_Ring BB_Str "HOL-Library.Monad_Syntax"
begin

text \<open>
  The object pools of \<^verbatim>\<open>platform/host/bb_pool/bb_pool.c\<close>, carved from a bump arena: retained slots, a ring of
  entries, a transient bump region, and slots on loan with a free list and two bitmaps. The arena is a
  separate argument and result of the operations that touch it, since a caller may share it. Slot
  storage, free list and bitmaps are at the addresses the arena gives out; what callers keep in a slot is theirs and
  not modelled. The optional callbacks of a configuration are flags, the calls made to them a list in
  order, and the answers of \<^verbatim>\<open>slot_reusable\<close> during a call are a function argument, since each call
  asks for a slot at most once.
\<close>

section \<open>Configuration\<close>

text \<open>The last constructor stands for a value of the C type outside its enumerators.\<close>

datatype bb_pool_mode_t =
    BB_POOL_MODE_RETAINED
  | BB_POOL_MODE_FIFO
  | BB_POOL_MODE_TRANSIENT
  | BB_POOL_MODE_SLOTS
  | BB_POOL_MODE_OTHER nat

datatype bb_pool_full_policy_t = BB_POOL_FULL_EVICT_OLDEST | BB_POOL_FULL_REJECT_NEW

datatype bb_pool_backing_t = BB_POOL_BACKING_HEAP | BB_POOL_BACKING_SPIRAM

record bb_pool_cfg_t =
  cf_mode :: bb_pool_mode_t
  cf_capacity :: nat
  cf_max_slot_bytes :: nat
  cf_full_policy :: bb_pool_full_policy_t
  cf_name :: "string option"
  cf_transient_reserve_bytes :: nat
  cf_cb_ctx :: nat
  cf_on_acquire :: bool
  cf_on_release :: bool
  cf_slot_reusable :: bool
  cf_slot_reap :: bool
  cf_on_destroy :: bool

section \<open>Sizes\<close>

text \<open>\<^verbatim>\<open>sizeof\<close> on an LP64 build.\<close>

definition SIZEOF_BB_POOL :: nat where "SIZEOF_BB_POOL = 232"
definition SIZEOF_RETAINED_SLOT :: nat where "SIZEOF_RETAINED_SLOT = 24"
definition SIZEOF_FIFO_HDR :: nat where "SIZEOF_FIFO_HDR = 24"
definition SIZEOF_PTR :: nat where "SIZEOF_PTR = 8"
definition BB_POOL_NAME_MAX :: nat where "BB_POOL_NAME_MAX = 24"
definition BB_POOL_ALIGN :: nat where "BB_POOL_ALIGN = 16"

definition align_up :: "nat \<Rightarrow> nat" where
  "align_up n =
     (if n > SIZE_MAX - (BB_POOL_ALIGN - 1) then SIZE_MAX
      else sz_sub (sz_add n BB_POOL_ALIGN) 1 AND sz_not (BB_POOL_ALIGN - 1))"

text \<open>\<^verbatim>\<open>None\<close> is the true answer of the code's overflow checks.\<close>

definition add_ovf :: "nat \<Rightarrow> nat \<Rightarrow> nat option" where
  "add_ovf a b = (if a > SIZE_MAX - b then None else Some (sz_add a b))"

definition mul_ovf :: "nat \<Rightarrow> nat \<Rightarrow> nat option" where
  "mul_ovf a b = (if a \<noteq> 0 \<and> b > SIZE_MAX div a then None else Some (sz_mul a b))"

definition bitmap_bytes_for :: "nat \<Rightarrow> nat" where
  "bitmap_bytes_for capacity = (case add_ovf capacity 7 of None \<Rightarrow> SIZE_MAX | Some b \<Rightarrow> b div 8)"

text \<open>Every early return of the function returns 0.\<close>

definition bb_pool_arena_size_needed :: "bb_pool_cfg_t option \<Rightarrow> nat" where
  "bb_pool_arena_size_needed cfg =
     (case cfg of
        None \<Rightarrow> 0
      | Some c \<Rightarrow>
         (let total = align_up SIZEOF_BB_POOL; cap = cf_capacity c; max = cf_max_slot_bytes c in
          case cf_mode c of
            BB_POOL_MODE_TRANSIENT \<Rightarrow>
              if cf_transient_reserve_bytes c = 0 then total
              else the_default 0 (add_ovf total (cf_transient_reserve_bytes c))
          | BB_POOL_MODE_RETAINED \<Rightarrow>
              if cap = 0 \<or> max = 0 then 0
              else the_default 0 (do {
                slot_array_bytes \<leftarrow> mul_ovf cap SIZEOF_RETAINED_SLOT;
                total \<leftarrow> add_ovf total (align_up slot_array_bytes);
                data_bytes \<leftarrow> mul_ovf cap (align_up max);
                add_ovf total data_bytes })
          | BB_POOL_MODE_FIFO \<Rightarrow>
              if cap = 0 \<or> max = 0 then 0
              else the_default 0 (do {
                hdr_payload \<leftarrow> add_ovf SIZEOF_FIFO_HDR max;
                ring_bytes \<leftarrow> mul_ovf cap (align_up hdr_payload);
                add_ovf total ring_bytes })
          | BB_POOL_MODE_SLOTS \<Rightarrow>
              if cap = 0 \<or> max = 0 then 0
              else the_default 0 (do {
                storage_bytes \<leftarrow> mul_ovf cap (align_up max);
                total \<leftarrow> add_ovf total storage_bytes;
                free_list_bytes \<leftarrow> mul_ovf cap SIZEOF_PTR;
                total \<leftarrow> add_ovf total (align_up free_list_bytes);
                bitmap_bytes \<leftarrow> (if bitmap_bytes_for cap = SIZE_MAX then None else Some (align_up (bitmap_bytes_for cap)));
                total \<leftarrow> add_ovf total bitmap_bytes;
                add_ovf total bitmap_bytes })
          | BB_POOL_MODE_OTHER _ \<Rightarrow> 0))"

section \<open>Bitmaps\<close>

definition bitmap_test :: "u8 list \<Rightarrow> nat \<Rightarrow> bool" where
  "bitmap_test bm idx \<longleftrightarrow> (bm ! (idx div 8)) AND push_bit (idx mod 8) 1 \<noteq> 0"

definition bitmap_set :: "u8 list \<Rightarrow> nat \<Rightarrow> u8 list" where
  "bitmap_set bm idx = bm[idx div 8 := (bm ! (idx div 8)) OR push_bit (idx mod 8) 1]"

definition bitmap_clear :: "u8 list \<Rightarrow> nat \<Rightarrow> u8 list" where
  "bitmap_clear bm idx = bm[idx div 8 := (bm ! (idx div 8)) AND NOT (push_bit (idx mod 8) 1)]"

section \<open>The pool\<close>

text \<open>A data buffer is its address and its bytes; a ring entry is its header and its payload bytes.\<close>

record bb_pool_retained_slot_t =
  rs_data :: nat
  rs_bytes :: "u8 list"
  rs_len :: nat
  rs_valid :: bool

record bb_pool_fifo_hdr_t =
  hd_len :: nat
  hd_ts :: int
  hd_id :: u32

record bb_pool_fifo_t =
  ff_entries_at :: nat
  ff_entries :: "(bb_pool_fifo_hdr_t \<times> u8 list) list"
  ff_entry_stride :: nat
  ff_head :: nat
  ff_count :: nat
  ff_dropped :: nat

record bb_pool_slots_t =
  sl_storage :: nat
  sl_slot_stride :: nat
  sl_free_list :: "nat list"
  sl_free_top :: nat
  sl_acquired_bitmap :: "u8 list"
  sl_pending_bitmap :: "u8 list"

record bb_pool =
  pl_self :: nat
  pl_cfg :: bb_pool_cfg_t
  pl_owns_arena :: bool
  pl_name :: "char list"
  pl_retained_slots :: "bb_pool_retained_slot_t list"
  pl_fifo :: bb_pool_fifo_t
  pl_slots :: bb_pool_slots_t

definition fifo0 :: bb_pool_fifo_t where
  "fifo0 = \<lparr> ff_entries_at = 0, ff_entries = [], ff_entry_stride = 0, ff_head = 0, ff_count = 0, ff_dropped = 0 \<rparr>"

definition slots0 :: bb_pool_slots_t where
  "slots0 = \<lparr> sl_storage = 0, sl_slot_stride = 0, sl_free_list = [], sl_free_top = 0, sl_acquired_bitmap = [], sl_pending_bitmap = [] \<rparr>"

text \<open>The callbacks and their calls: which one, its context, the slot.\<close>

datatype pool_cb = ON_ACQUIRE | ON_RELEASE | SLOT_REUSABLE | SLOT_REAP | ON_DESTROY

type_synonym pool_call = "pool_cb \<times> nat \<times> nat"

section \<open>Creation\<close>

text \<open>The loop that carves \<^verbatim>\<open>k\<close> data buffers; \<^verbatim>\<open>None\<close> when the arena is exhausted on the way.\<close>

fun retained_bufs :: "bb_mem_arena option \<Rightarrow> nat \<Rightarrow> nat \<Rightarrow> nat list option \<times> bb_mem_arena option" where
  "retained_bufs h bytes 0 = (Some [], h)"
| "retained_bufs h bytes (Suc k) =
     (case bb_mem_arena_alloc h bytes of
        (None, h) \<Rightarrow> (None, h)
      | (Some p, h) \<Rightarrow>
          (case retained_bufs h bytes k of
             (None, h) \<Rightarrow> (None, h)
           | (Some ps, h) \<Rightarrow> (Some (p # ps), h)))"

text \<open>\<^verbatim>\<open>raw\<close> gives the bytes found in fresh arena memory (buffer number, byte number).\<close>

definition pool_fresh :: "bb_pool_cfg_t \<Rightarrow> nat \<Rightarrow> bb_pool" where
  "pool_fresh c p =
     \<lparr> pl_self = p, pl_cfg = c, pl_owns_arena = False,
       pl_name = (case cf_name c of None \<Rightarrow> replicate BB_POOL_NAME_MAX NUL
                  | Some n \<Rightarrow> snd (bb_strlcpy (replicate BB_POOL_NAME_MAX NUL) n BB_POOL_NAME_MAX)),
       pl_retained_slots = [], pl_fifo = fifo0, pl_slots = slots0 \<rparr>"

definition create_retained ::
  "(nat \<Rightarrow> nat \<Rightarrow> u8) \<Rightarrow> bb_pool \<Rightarrow> bb_mem_arena option \<Rightarrow> bb_err_t \<times> bb_mem_arena option \<times> bb_pool option" where
  "create_retained raw pool h =
     (let cap = cf_capacity (pl_cfg pool); max = cf_max_slot_bytes (pl_cfg pool) in
      case bb_mem_arena_alloc h (sz_mul cap SIZEOF_RETAINED_SLOT) of
        (None, h) \<Rightarrow> (BB_ERR_NO_SPACE, h, None)
      | (Some _, h) \<Rightarrow>
         (case retained_bufs h max cap of
            (None, h) \<Rightarrow> (BB_ERR_NO_SPACE, h, None)
          | (Some ps, h) \<Rightarrow>
             (BB_OK, h, Some (pool\<lparr>pl_retained_slots :=
                map (\<lambda>i. \<lparr> rs_data = ps ! i, rs_bytes = map (raw i) [0..<max], rs_len = 0, rs_valid = False \<rparr>) [0..<cap]\<rparr>))))"

definition create_fifo ::
  "(nat \<Rightarrow> nat \<Rightarrow> u8) \<Rightarrow> bb_pool \<Rightarrow> bb_mem_arena option \<Rightarrow> bb_err_t \<times> bb_mem_arena option \<times> bb_pool option" where
  "create_fifo raw pool h =
     (let cap = cf_capacity (pl_cfg pool); max = cf_max_slot_bytes (pl_cfg pool);
          entry_stride = align_up (sz_add SIZEOF_FIFO_HDR max); ring_bytes = sz_mul cap entry_stride in
      case bb_mem_arena_alloc h ring_bytes of
        (None, h) \<Rightarrow> (BB_ERR_NO_SPACE, h, None)
      | (Some p, h) \<Rightarrow>
          (BB_OK, h, Some (pool\<lparr>pl_fifo := \<lparr> ff_entries_at = p,
             ff_entries = map (\<lambda>i. (\<lparr> hd_len = 0, hd_ts = 0, hd_id = 0 \<rparr>, map (raw i) [0..<max])) [0..<cap],
             ff_entry_stride = entry_stride, ff_head = 0, ff_count = 0, ff_dropped = 0 \<rparr>\<rparr>)))"

definition create_slots ::
  "bb_pool \<Rightarrow> bb_mem_arena option \<Rightarrow> bb_err_t \<times> bb_mem_arena option \<times> bb_pool option" where
  "create_slots pool h =
     (let cap = cf_capacity (pl_cfg pool); slot_stride = align_up (cf_max_slot_bytes (pl_cfg pool));
          storage_bytes = sz_mul cap slot_stride; bitmap_bytes = align_up (bitmap_bytes_for cap) in
      case bb_mem_arena_alloc h storage_bytes of
        (None, h) \<Rightarrow> (BB_ERR_NO_SPACE, h, None)
      | (Some storage, h) \<Rightarrow>
         (case bb_mem_arena_alloc h (sz_mul cap SIZEOF_PTR) of
            (None, h) \<Rightarrow> (BB_ERR_NO_SPACE, h, None)
          | (Some _, h) \<Rightarrow>
             (case bb_mem_arena_alloc h bitmap_bytes of
                (None, h) \<Rightarrow> (BB_ERR_NO_SPACE, h, None)
              | (Some _, h) \<Rightarrow>
                 (case bb_mem_arena_alloc h bitmap_bytes of
                    (None, h) \<Rightarrow> (BB_ERR_NO_SPACE, h, None)
                  | (Some _, h) \<Rightarrow>
                     (BB_OK, h, Some (pool\<lparr>pl_slots := \<lparr> sl_storage = storage, sl_slot_stride = slot_stride,
                        sl_free_list = map (\<lambda>i. storage + i * slot_stride) [0..<cap], sl_free_top = cap,
                        sl_acquired_bitmap = replicate bitmap_bytes 0, sl_pending_bitmap = replicate bitmap_bytes 0 \<rparr>\<rparr>))))))"

text \<open>The result, the arena after the call (also on the paths that fail half-way) and the pool.\<close>

definition bb_pool_create ::
  "(nat \<Rightarrow> nat \<Rightarrow> u8) \<Rightarrow> bb_pool_cfg_t option \<Rightarrow> bb_mem_arena option \<Rightarrow> bool \<Rightarrow>
     bb_err_t \<times> bb_mem_arena option \<times> bb_pool option"
where
  "bb_pool_create raw cfg arena out =
     (case (cfg, arena) of
        (Some c, Some a) \<Rightarrow>
          if \<not> out then (BB_ERR_INVALID_ARG, arena, None)
          else if cf_mode c \<in> {BB_POOL_MODE_RETAINED, BB_POOL_MODE_FIFO, BB_POOL_MODE_SLOTS} \<and>
                  (cf_capacity c = 0 \<or> cf_max_slot_bytes c = 0) then (BB_ERR_INVALID_ARG, arena, None)
          else if (case cf_mode c of BB_POOL_MODE_OTHER _ \<Rightarrow> True | _ \<Rightarrow> False) then (BB_ERR_INVALID_ARG, arena, None)
          else let need = bb_pool_arena_size_needed cfg in
            if need = 0 then (BB_ERR_INVALID_ARG, arena, None)
            else if bb_mem_arena_free_bytes arena < need then (BB_ERR_NO_SPACE, arena, None)
            else (case bb_mem_arena_alloc arena SIZEOF_BB_POOL of
                    (None, h) \<Rightarrow> (BB_ERR_NO_SPACE, h, None)
                  | (Some p, h) \<Rightarrow>
                      (case cf_mode c of
                         BB_POOL_MODE_RETAINED \<Rightarrow> create_retained raw (pool_fresh c p) h
                       | BB_POOL_MODE_FIFO \<Rightarrow> create_fifo raw (pool_fresh c p) h
                       | BB_POOL_MODE_SLOTS \<Rightarrow> create_slots (pool_fresh c p) h
                       | _ \<Rightarrow> (BB_OK, h, Some (pool_fresh c p))))
      | _ \<Rightarrow> (BB_ERR_INVALID_ARG, arena, None))"

text \<open>\<^verbatim>\<open>calloc_rc\<close> is the allocator behind the arena; the last result lists the blocks given back to it.\<close>

definition bb_pool_create_owned ::
  "(nat \<Rightarrow> nat \<Rightarrow> u8) \<Rightarrow> bb_pool_cfg_t option \<Rightarrow> bb_pool_backing_t \<Rightarrow> bool \<Rightarrow> (nat \<Rightarrow> nat option) \<Rightarrow>
     bb_err_t \<times> bb_mem_arena option \<times> bb_pool option \<times> nat list"
where
  "bb_pool_create_owned raw cfg backing out calloc_rc =
     (if cfg = None \<or> \<not> out then (BB_ERR_INVALID_ARG, None, None, [])
      else let need = bb_pool_arena_size_needed cfg in
        if need = 0 then (BB_ERR_INVALID_ARG, None, None, [])
        else (case (if backing = BB_POOL_BACKING_SPIRAM then bb_mem_arena_init_spiram True need calloc_rc
                    else bb_mem_arena_init_heap True need calloc_rc) of
                (rc, arena, freed) \<Rightarrow>
                  if rc \<noteq> BB_OK then (rc, None, None, freed)
                  else (case bb_pool_create raw cfg arena True of
                          (rc, arena, p) \<Rightarrow>
                            if rc \<noteq> BB_OK
                            then (rc, None, None, freed @ (case bb_mem_arena_destroy arena of None \<Rightarrow> [] | Some b \<Rightarrow> [b]))
                            else (BB_OK, arena, map_option (\<lambda>p. p\<lparr>pl_owns_arena := True\<rparr>) p, freed))))"

section \<open>Slots on loan\<close>

abbreviation pl_capacity :: "bb_pool \<Rightarrow> nat" where "pl_capacity p \<equiv> cf_capacity (pl_cfg p)"

definition slots_index_of :: "bb_pool \<Rightarrow> nat \<Rightarrow> nat option" where
  "slots_index_of pool p =
     (let base = sl_storage (pl_slots pool); stride = sl_slot_stride (pl_slots pool) in
      if p < base then None
      else let offset = p - base in
        if offset mod stride \<noteq> 0 then None
        else let idx = offset div stride in
          if idx \<ge> pl_capacity pool then None else Some idx)"

definition slots_ptr_at :: "bb_pool \<Rightarrow> nat \<Rightarrow> nat" where
  "slots_ptr_at pool idx = sl_storage (pl_slots pool) + idx * sl_slot_stride (pl_slots pool)"

definition call :: "bool \<Rightarrow> pool_cb \<Rightarrow> bb_pool \<Rightarrow> nat \<Rightarrow> pool_call list" where
  "call configured cb pool slot = (if configured then [(cb, cf_cb_ctx (pl_cfg pool), slot)] else [])"

definition set_pending :: "u8 list \<Rightarrow> bb_pool \<Rightarrow> bb_pool" where
  "set_pending bm p = p\<lparr>pl_slots := (pl_slots p)\<lparr>sl_pending_bitmap := bm\<rparr>\<rparr>"

definition set_acquired :: "u8 list \<Rightarrow> bb_pool \<Rightarrow> bb_pool" where
  "set_acquired bm p = p\<lparr>pl_slots := (pl_slots p)\<lparr>sl_acquired_bitmap := bm\<rparr>\<rparr>"

definition push_free :: "nat \<Rightarrow> bb_pool \<Rightarrow> bb_pool" where
  "push_free ptr p =
     p\<lparr>pl_slots := (pl_slots p)\<lparr>sl_free_list := (sl_free_list (pl_slots p))[sl_free_top (pl_slots p) := ptr],
                              sl_free_top := sz_add (sl_free_top (pl_slots p)) 1\<rparr>\<rparr>"

text \<open>The pass of an acquire over the pending slots: the first reusable one is reaped and taken.\<close>

fun reap_first :: "(nat \<Rightarrow> bool) \<Rightarrow> bb_pool \<Rightarrow> nat list \<Rightarrow> nat option \<times> bb_pool \<times> pool_call list" where
  "reap_first reusable p [] = (None, p, [])"
| "reap_first reusable p (idx # rest) =
     (if \<not> bitmap_test (sl_pending_bitmap (pl_slots p)) idx then reap_first reusable p rest
      else let cand = slots_ptr_at p idx in
        if reusable cand
        then (Some cand, set_pending (bitmap_clear (sl_pending_bitmap (pl_slots p)) idx) p,
              call True SLOT_REUSABLE p cand @ call (cf_slot_reap (pl_cfg p)) SLOT_REAP p cand)
        else (case reap_first reusable p rest of
                (r, p', log) \<Rightarrow> (r, p', call True SLOT_REUSABLE p cand @ log)))"

definition bb_pool_acquire :: "(nat \<Rightarrow> bool) \<Rightarrow> bb_pool option \<Rightarrow> nat option \<times> bb_pool option \<times> pool_call list" where
  "bb_pool_acquire reusable pool =
     (case pool of
        None \<Rightarrow> (None, None, [])
      | Some p \<Rightarrow>
          if cf_mode (pl_cfg p) \<noteq> BB_POOL_MODE_SLOTS then (None, pool, [])
          else (case (if sl_free_top (pl_slots p) > 0
                      then let top = sl_free_top (pl_slots p) - 1 in
                        (Some (sl_free_list (pl_slots p) ! top), p\<lparr>pl_slots := (pl_slots p)\<lparr>sl_free_top := top\<rparr>\<rparr>, [])
                      else if cf_slot_reusable (pl_cfg p) then reap_first reusable p [0..<pl_capacity p]
                      else (None, p, [])) of
                  (None, p, log) \<Rightarrow> (None, Some p, log)
                | (Some ptr, p, log) \<Rightarrow>
                    let p = (case slots_index_of p ptr of
                               None \<Rightarrow> p
                             | Some idx \<Rightarrow> set_acquired (bitmap_set (sl_acquired_bitmap (pl_slots p)) idx) p)
                    in (Some ptr, Some p, log @ call (cf_on_acquire (pl_cfg p)) ON_ACQUIRE p ptr)))"

definition bb_pool_release :: "bb_pool option \<Rightarrow> nat option \<Rightarrow> bb_err_t \<times> bb_pool option \<times> pool_call list" where
  "bb_pool_release pool ptr =
     (case (pool, ptr) of
        (Some p, Some a) \<Rightarrow>
          if cf_mode (pl_cfg p) \<noteq> BB_POOL_MODE_SLOTS then (BB_ERR_INVALID_STATE, pool, [])
          else (case slots_index_of p a of
                  None \<Rightarrow> (BB_ERR_INVALID_ARG, pool, [])
                | Some idx \<Rightarrow>
                    if \<not> bitmap_test (sl_acquired_bitmap (pl_slots p)) idx then (BB_ERR_INVALID_STATE, pool, [])
                    else if \<not> cf_slot_reusable (pl_cfg p) \<and> sl_free_top (pl_slots p) \<ge> pl_capacity p
                    then (BB_ERR_INVALID_STATE, pool, [])
                    else let p = set_acquired (bitmap_clear (sl_acquired_bitmap (pl_slots p)) idx) p;
                             log = call (cf_on_release (pl_cfg p)) ON_RELEASE p a in
                      if cf_slot_reusable (pl_cfg p)
                      then (BB_OK, Some (set_pending (bitmap_set (sl_pending_bitmap (pl_slots p)) idx) p), log)
                      else (BB_OK, Some (push_free a p), log))
      | _ \<Rightarrow> (BB_ERR_INVALID_ARG, pool, []))"

fun reap_all :: "(nat \<Rightarrow> bool) \<Rightarrow> bb_pool \<Rightarrow> nat list \<Rightarrow> nat \<times> bb_pool \<times> pool_call list" where
  "reap_all reusable p [] = (0, p, [])"
| "reap_all reusable p (idx # rest) =
     (if \<not> bitmap_test (sl_pending_bitmap (pl_slots p)) idx then reap_all reusable p rest
      else let cand = slots_ptr_at p idx in
        if \<not> reusable cand
        then (case reap_all reusable p rest of (n, p', log) \<Rightarrow> (n, p', call True SLOT_REUSABLE p cand @ log))
        else let p1 = push_free cand (set_pending (bitmap_clear (sl_pending_bitmap (pl_slots p)) idx) p) in
          (case reap_all reusable p1 rest of
             (n, p', log) \<Rightarrow> (n + 1, p', call True SLOT_REUSABLE p cand @ call (cf_slot_reap (pl_cfg p)) SLOT_REAP p cand @ log)))"

definition bb_pool_slots_reap_ready :: "(nat \<Rightarrow> bool) \<Rightarrow> bb_pool option \<Rightarrow> nat \<times> bb_pool option \<times> pool_call list" where
  "bb_pool_slots_reap_ready reusable pool =
     (case pool of
        None \<Rightarrow> (0, None, [])
      | Some p \<Rightarrow>
          if cf_mode (pl_cfg p) \<noteq> BB_POOL_MODE_SLOTS \<or> \<not> cf_slot_reusable (pl_cfg p) then (0, pool, [])
          else (case reap_all reusable p [0..<pl_capacity p] of (n, p', log) \<Rightarrow> (n, Some p', log)))"

definition bb_pool_slots_pending_count :: "bb_pool option \<Rightarrow> nat" where
  "bb_pool_slots_pending_count pool =
     (case pool of
        None \<Rightarrow> 0
      | Some p \<Rightarrow> if cf_mode (pl_cfg p) \<noteq> BB_POOL_MODE_SLOTS then 0
          else length (filter (bitmap_test (sl_pending_bitmap (pl_slots p))) [0..<pl_capacity p]))"

definition bb_pool_slots_acquired_count :: "bb_pool option \<Rightarrow> nat" where
  "bb_pool_slots_acquired_count pool =
     (case pool of
        None \<Rightarrow> 0
      | Some p \<Rightarrow> if cf_mode (pl_cfg p) \<noteq> BB_POOL_MODE_SLOTS then 0
          else length (filter (bitmap_test (sl_acquired_bitmap (pl_slots p))) [0..<pl_capacity p]))"

section \<open>Destruction and the transient region\<close>

definition bb_pool_destroy :: "bb_pool option \<Rightarrow> bb_mem_arena option \<Rightarrow> nat option \<times> pool_call list" where
  "bb_pool_destroy pool arena =
     (case pool of
        None \<Rightarrow> (None, [])
      | Some p \<Rightarrow>
          let log = (if cf_mode (pl_cfg p) = BB_POOL_MODE_SLOTS \<and> cf_on_destroy (pl_cfg p)
                     then concat (map (\<lambda>idx. call True ON_DESTROY p (slots_ptr_at p idx)) [0..<pl_capacity p]) else [])
          in (if pl_owns_arena p then bb_mem_arena_destroy arena else None, log))"

definition bb_pool_get_stats :: "bb_pool option \<Rightarrow> bb_mem_arena option \<Rightarrow> bb_mem_arena_stats_t \<Rightarrow> bb_mem_arena_stats_t" where
  "bb_pool_get_stats pool arena out = (case pool of None \<Rightarrow> out | Some _ \<Rightarrow> bb_mem_arena_get_stats arena out)"

definition bb_pool_alloc :: "bb_pool option \<Rightarrow> bb_mem_arena option \<Rightarrow> nat \<Rightarrow> nat option \<times> bb_mem_arena option" where
  "bb_pool_alloc pool arena bytes = (case pool of None \<Rightarrow> (None, arena) | Some _ \<Rightarrow> bb_mem_arena_alloc arena bytes)"

definition bb_pool_free :: "bb_pool option \<Rightarrow> bb_mem_arena option \<Rightarrow> nat option \<Rightarrow> bb_mem_arena option option" where
  "bb_pool_free pool arena ptr = (case pool of None \<Rightarrow> Some arena | Some _ \<Rightarrow> bb_mem_arena_free arena ptr)"

definition bb_pool_reset :: "bb_pool option \<Rightarrow> bb_mem_arena option \<Rightarrow> bb_mem_arena option" where
  "bb_pool_reset pool arena = (case pool of None \<Rightarrow> arena | Some _ \<Rightarrow> bb_mem_arena_reset arena)"

section \<open>Retained slots\<close>

definition bb_pool_retained_update :: "bb_pool option \<Rightarrow> nat \<Rightarrow> u8 list option \<Rightarrow> nat \<Rightarrow> bb_err_t \<times> bb_pool option" where
  "bb_pool_retained_update pool slot_idx data len =
     (case pool of
        None \<Rightarrow> (BB_ERR_INVALID_ARG, None)
      | Some p \<Rightarrow>
          if cf_mode (pl_cfg p) \<noteq> BB_POOL_MODE_RETAINED then (BB_ERR_INVALID_STATE, pool)
          else if slot_idx \<ge> pl_capacity p then (BB_ERR_INVALID_ARG, pool)
          else if len > cf_max_slot_bytes (pl_cfg p) then (BB_ERR_INVALID_ARG, pool)
          else if data = None \<and> len > 0 then (BB_ERR_INVALID_ARG, pool)
          else let s = pl_retained_slots p ! slot_idx;
                   s = s\<lparr>rs_bytes := blit (rs_bytes s) 0 (take len (the_default [] data)), rs_len := len, rs_valid := True\<rparr>
               in (BB_OK, Some (p\<lparr>pl_retained_slots := (pl_retained_slots p)[slot_idx := s]\<rparr>)))"

text \<open>The answer is the pointer, the length, and the bytes readable there; the flag stands for the out pointers.\<close>

definition bb_pool_retained_get :: "bb_pool option \<Rightarrow> nat \<Rightarrow> bool \<Rightarrow> bb_err_t \<times> (nat \<times> nat \<times> u8 list) option" where
  "bb_pool_retained_get pool slot_idx outs =
     (case pool of
        None \<Rightarrow> (BB_ERR_INVALID_ARG, None)
      | Some p \<Rightarrow>
          if \<not> outs then (BB_ERR_INVALID_ARG, None)
          else if cf_mode (pl_cfg p) \<noteq> BB_POOL_MODE_RETAINED then (BB_ERR_INVALID_STATE, None)
          else if slot_idx \<ge> pl_capacity p then (BB_ERR_INVALID_ARG, None)
          else let s = pl_retained_slots p ! slot_idx in
            if \<not> rs_valid s then (BB_ERR_NOT_FOUND, None)
            else (BB_OK, Some (rs_data s, rs_len s, take (rs_len s) (rs_bytes s))))"

section \<open>The ring\<close>

definition fifo_entry_at :: "bb_pool \<Rightarrow> nat \<Rightarrow> nat" where
  "fifo_entry_at p logical_idx = sz_add (ff_head (pl_fifo p)) logical_idx mod pl_capacity p"

definition bb_pool_push :: "bb_pool option \<Rightarrow> u8 list option \<Rightarrow> nat \<Rightarrow> int \<Rightarrow> u32 \<Rightarrow> bb_err_t \<times> bb_pool option" where
  "bb_pool_push pool data len ts i =
     (case pool of
        None \<Rightarrow> (BB_ERR_INVALID_ARG, None)
      | Some p \<Rightarrow>
          if cf_mode (pl_cfg p) \<noteq> BB_POOL_MODE_FIFO then (BB_ERR_INVALID_STATE, pool)
          else if len > cf_max_slot_bytes (pl_cfg p) then (BB_ERR_INVALID_ARG, pool)
          else if data = None \<and> len > 0 then (BB_ERR_INVALID_ARG, pool)
          else let f = pl_fifo p; cap = pl_capacity p in
            if ff_count f = cap \<and> cf_full_policy (pl_cfg p) = BB_POOL_FULL_REJECT_NEW
            then (BB_ERR_NO_SPACE, Some (p\<lparr>pl_fifo := f\<lparr>ff_dropped := sz_add (ff_dropped f) 1\<rparr>\<rparr>))
            else let f = (if ff_count f = cap
                          then f\<lparr>ff_head := sz_add (ff_head f) 1 mod cap, ff_count := sz_sub (ff_count f) 1,
                                 ff_dropped := sz_add (ff_dropped f) 1\<rparr>
                          else f);
                     tail_idx = sz_add (ff_head f) (ff_count f) mod cap;
                     hdr = \<lparr> hd_len = len, hd_ts = ts, hd_id = i \<rparr>;
                     e = (hdr, blit (snd (ff_entries f ! tail_idx)) 0 (take len (the_default [] data)))
                 in (BB_OK, Some (p\<lparr>pl_fifo := f\<lparr>ff_entries := (ff_entries f)[tail_idx := e], ff_count := sz_add (ff_count f) 1\<rparr>\<rparr>)))"

text \<open>\<^verbatim>\<open>buf\<close> is None for NULL; the answer holds the length, time stamp and id, and the buffer afterwards.\<close>

definition bb_pool_peek_oldest ::
  "bb_pool option \<Rightarrow> u8 list option \<Rightarrow> nat \<Rightarrow> bool \<Rightarrow> bb_err_t \<times> (nat \<times> int \<times> u32) option \<times> u8 list option" where
  "bb_pool_peek_oldest pool buf buf_cap outs =
     (case pool of
        None \<Rightarrow> (BB_ERR_INVALID_ARG, None, buf)
      | Some p \<Rightarrow>
          if \<not> outs then (BB_ERR_INVALID_ARG, None, buf)
          else if cf_mode (pl_cfg p) \<noteq> BB_POOL_MODE_FIFO then (BB_ERR_INVALID_STATE, None, buf)
          else if ff_count (pl_fifo p) = 0 then (BB_ERR_NOT_FOUND, None, buf)
          else case ff_entries (pl_fifo p) ! fifo_entry_at p 0 of
            (hdr, payload) \<Rightarrow>
              (BB_OK, Some (hd_len hdr, hd_ts hdr, hd_id hdr),
               (case buf of
                  None \<Rightarrow> None
                | Some b \<Rightarrow>
                    if buf_cap > 0 \<and> hd_len hdr > 0
                    then let n = (if buf_cap < hd_len hdr then buf_cap else hd_len hdr) in Some (blit b 0 (take n payload))
                    else buf)))"

definition bb_pool_pop_oldest :: "bb_pool option \<Rightarrow> bb_err_t \<times> bb_pool option" where
  "bb_pool_pop_oldest pool =
     (case pool of
        None \<Rightarrow> (BB_ERR_INVALID_ARG, None)
      | Some p \<Rightarrow>
          if cf_mode (pl_cfg p) \<noteq> BB_POOL_MODE_FIFO then (BB_ERR_INVALID_STATE, pool)
          else if ff_count (pl_fifo p) = 0 then (BB_ERR_NOT_FOUND, pool)
          else let f = pl_fifo p in
            (BB_OK, Some (p\<lparr>pl_fifo := f\<lparr>ff_head := sz_add (ff_head f) 1 mod pl_capacity p, ff_count := sz_sub (ff_count f) 1\<rparr>\<rparr>)))"

definition bb_pool_count :: "bb_pool option \<Rightarrow> nat" where
  "bb_pool_count pool =
     (case pool of None \<Rightarrow> 0 | Some p \<Rightarrow> if cf_mode (pl_cfg p) \<noteq> BB_POOL_MODE_FIFO then 0 else ff_count (pl_fifo p))"

definition bb_pool_dropped :: "bb_pool option \<Rightarrow> nat" where
  "bb_pool_dropped pool =
     (case pool of None \<Rightarrow> 0 | Some p \<Rightarrow> if cf_mode (pl_cfg p) \<noteq> BB_POOL_MODE_FIFO then 0 else ff_dropped (pl_fifo p))"

section \<open>Sizing is exact\<close>

lemma align_up_eq:
  assumes "n \<le> SIZE_MAX"
  shows "align_up n = (if n + 15 \<le> SIZE_MAX then round16 n else SIZE_MAX)"
proof (cases "n + 15 \<le> SIZE_MAX")
  case True
  have "sz_sub (sz_add n 16) 1 = n + 15"
  proof (cases "n + 16 \<le> SIZE_MAX")
    case True
    then show ?thesis by (simp add: sz_add_exact sz_sub_exact)
  next
    case False
    then have "n + 16 = SIZE_MOD" using True by (simp add: SIZE_MAX_def SIZE_MOD_def)
    then have "sz_add n 16 = 0" "n + 15 = SIZE_MOD - 1" by (simp_all add: sz_add_def)
    then show ?thesis by (simp add: sz_sub_def SIZE_MOD_def)
  qed
  moreover have "(n + 15) AND sz_not (16 - 1) = round16 n"
    using align_mask_eq [OF True] by (simp add: align_mask_def BB_MEM_ARENA_ALIGN_def round16_def)
  moreover have "\<not> n > SIZE_MAX - 15" using True by linarith
  ultimately show ?thesis using True by (simp add: align_up_def BB_POOL_ALIGN_def)
next
  case False
  then have "n > SIZE_MAX - 15" using assms by (simp add: SIZE_MAX_def)
  then show ?thesis using False by (simp add: align_up_def BB_POOL_ALIGN_def)
qed

lemma add_ovf_eq: "b \<le> SIZE_MAX \<Longrightarrow> add_ovf a b = (if a + b \<le> SIZE_MAX then Some (a + b) else None)"
  by (auto simp: add_ovf_def sz_add_exact)

lemma mul_ovf_eq: "mul_ovf a b = (if a * b \<le> SIZE_MAX then Some (a * b) else None)"
proof -
  have "a \<noteq> 0 \<Longrightarrow> b \<le> SIZE_MAX div a \<longleftrightarrow> a * b \<le> SIZE_MAX"
    by (simp add: less_eq_div_iff_mult_less_eq mult.commute)
  then show ?thesis by (cases "a = 0") (auto simp: mul_ovf_def sz_mul_exact not_le)
qed

text \<open>What a pool takes, over the unbounded integers.\<close>

definition pool_bytes :: "bb_pool_cfg_t \<Rightarrow> nat" where
  "pool_bytes c =
     (let cap = cf_capacity c; max = cf_max_slot_bytes c in
      case cf_mode c of
        BB_POOL_MODE_TRANSIENT \<Rightarrow> 240 + cf_transient_reserve_bytes c
      | BB_POOL_MODE_RETAINED \<Rightarrow> 240 + round16 (cap * 24) + cap * round16 max
      | BB_POOL_MODE_FIFO \<Rightarrow> 240 + cap * round16 (24 + max)
      | BB_POOL_MODE_SLOTS \<Rightarrow> 240 + cap * round16 max + round16 (cap * 8) + 2 * round16 ((cap + 7) div 8)
      | BB_POOL_MODE_OTHER _ \<Rightarrow> 0)"

definition cfg_valid :: "bb_pool_cfg_t \<Rightarrow> bool" where
  "cfg_valid c \<longleftrightarrow>
     (case cf_mode c of BB_POOL_MODE_TRANSIENT \<Rightarrow> True | BB_POOL_MODE_OTHER _ \<Rightarrow> False
      | _ \<Rightarrow> 0 < cf_capacity c \<and> 0 < cf_max_slot_bytes c)"

definition cfg_sized :: "bb_pool_cfg_t \<Rightarrow> bool" where
  "cfg_sized c \<longleftrightarrow> cf_capacity c \<le> SIZE_MAX \<and> cf_max_slot_bytes c \<le> SIZE_MAX \<and> cf_transient_reserve_bytes c \<le> SIZE_MAX"

lemma align_cases:
  assumes "n \<le> SIZE_MAX"
  obtains "n + 15 \<le> SIZE_MAX" "align_up n = round16 n" "round16 n \<le> SIZE_MAX"
  | "align_up n = SIZE_MAX" "SIZE_MAX < 15 + n" "n \<le> round16 n"
  using align_up_eq [OF assms] round16_bounds(1,2) [of n] assms
  by (cases "n + 15 \<le> SIZE_MAX") (auto simp: round16_def)

lemma ge_mult: "0 < (c::nat) \<Longrightarrow> x \<le> c * x" by simp

lemma sizeof_pool: "align_up SIZEOF_BB_POOL = 240"
  by (subst align_up_eq) (simp_all add: SIZEOF_BB_POOL_def SIZE_MAX_def round16_def)

lemma size_needed_fifo:
  assumes c: "cfg_sized c" "0 < cf_capacity c" "0 < cf_max_slot_bytes c" and m: "cf_mode c = BB_POOL_MODE_FIFO"
  shows "bb_pool_arena_size_needed (Some c) = (if pool_bytes c \<le> SIZE_MAX then pool_bytes c else 0)"
proof -
  let ?cap = "cf_capacity c" and ?max = "cf_max_slot_bytes c"
  have e: "bb_pool_arena_size_needed (Some c) = the_default 0 (Option.bind (add_ovf 24 ?max)
      (\<lambda>h. Option.bind (mul_ovf ?cap (align_up h)) (add_ovf 240)))"
    using c m by (simp add: bb_pool_arena_size_needed_def sizeof_pool SIZEOF_FIFO_HDR_def Let_def)
  have p: "pool_bytes c = 240 + ?cap * round16 (24 + ?max)" using m by (simp add: pool_bytes_def)
  have ge: "24 + ?max \<le> round16 (24 + ?max)" "round16 (24 + ?max) \<le> ?cap * round16 (24 + ?max)"
    using c by (simp_all add: round16_bounds)
  show ?thesis
  proof (cases "24 + ?max \<le> SIZE_MAX")
    case False
    then have "\<not> pool_bytes c \<le> SIZE_MAX" using ge unfolding p by linarith
    then show ?thesis using c False by (simp add: e add_ovf_eq cfg_sized_def the_default_def)
  next
    case True
    then have h: "add_ovf 24 ?max = Some (24 + ?max)" using c by (simp add: add_ovf_eq cfg_sized_def)
    show ?thesis using True
    proof (cases rule: align_cases)
      case 1
      then show ?thesis by (simp add: e h p mul_ovf_eq add_ovf_eq the_default_def)
    next
      case 2
      have "SIZE_MAX \<le> ?cap * SIZE_MAX" using c(2) by (rule ge_mult)
      then have "Option.bind (mul_ovf ?cap SIZE_MAX) (add_ovf 240) = None" by (auto simp: mul_ovf_eq add_ovf_eq)
      moreover have "\<not> pool_bytes c \<le> SIZE_MAX" using 2 ge unfolding p by linarith
      ultimately show ?thesis using 2 by (simp add: e h the_default_def)
    qed
  qed
qed

lemma size_needed_retained:
  assumes c: "cfg_sized c" "0 < cf_capacity c" "0 < cf_max_slot_bytes c" and m: "cf_mode c = BB_POOL_MODE_RETAINED"
  shows "bb_pool_arena_size_needed (Some c) = (if pool_bytes c \<le> SIZE_MAX then pool_bytes c else 0)"
proof -
  let ?cap = "cf_capacity c" and ?max = "cf_max_slot_bytes c"
  have e: "bb_pool_arena_size_needed (Some c) = the_default 0 (Option.bind (mul_ovf ?cap 24)
      (\<lambda>s. Option.bind (add_ovf 240 (align_up s)) (\<lambda>t. Option.bind (mul_ovf ?cap (align_up ?max)) (add_ovf t))))"
    using c m by (simp add: bb_pool_arena_size_needed_def sizeof_pool SIZEOF_RETAINED_SLOT_def Let_def)
  have p: "pool_bytes c = 240 + round16 (?cap * 24) + ?cap * round16 ?max" using m by (simp add: pool_bytes_def Let_def)
  have ge: "?cap * 24 \<le> round16 (?cap * 24)" "?max \<le> round16 ?max" "round16 ?max \<le> ?cap * round16 ?max" "SIZE_MAX \<le> ?cap * SIZE_MAX"
    using c by (simp_all add: round16_bounds)
  have mx: "?max \<le> SIZE_MAX" using c by (simp add: cfg_sized_def)
  show ?thesis
  proof (cases "?cap * 24 \<le> SIZE_MAX")
    case False
    then show ?thesis using ge by (simp add: e p mul_ovf_eq the_default_def)
  next
    case True
    then have h: "mul_ovf ?cap 24 = Some (?cap * 24)" by (simp add: mul_ovf_eq)
    show ?thesis using True
    proof (cases rule: align_cases)
      case a: 1
      show ?thesis using mx
      proof (cases rule: align_cases)
        case 1
        then show ?thesis using a by (auto simp: e h p mul_ovf_eq add_ovf_eq the_default_def)
      next
        case 2
        have no: "\<not> pool_bytes c \<le> SIZE_MAX" using 2 ge unfolding p by linarith
        have o: "\<not> 240 + round16 (?cap * 24) + ?cap * SIZE_MAX \<le> SIZE_MAX" using ge(4) by linarith
        show ?thesis using a 2(1) o no by (auto simp: e h mul_ovf_eq add_ovf_eq the_default_def)
      qed
    next
      case 2
      have "\<not> pool_bytes c \<le> SIZE_MAX" using 2 ge unfolding p by linarith
      then show ?thesis using 2(1) by (simp add: e h add_ovf_eq the_default_def)
    qed
  qed
qed

lemma size_needed_slots:
  assumes c: "cfg_sized c" "0 < cf_capacity c" "0 < cf_max_slot_bytes c" and m: "cf_mode c = BB_POOL_MODE_SLOTS"
  shows "bb_pool_arena_size_needed (Some c) = (if pool_bytes c \<le> SIZE_MAX then pool_bytes c else 0)"
proof -
  let ?cap = "cf_capacity c" and ?max = "cf_max_slot_bytes c" and ?bm = "bitmap_bytes_for (cf_capacity c)"
  have e: "bb_pool_arena_size_needed (Some c) = the_default 0 (Option.bind (mul_ovf ?cap (align_up ?max))
      (\<lambda>s. Option.bind (add_ovf 240 s) (\<lambda>t. Option.bind (mul_ovf ?cap 8) (\<lambda>f. Option.bind (add_ovf t (align_up f))
      (\<lambda>t. Option.bind (if ?bm = SIZE_MAX then None else Some (align_up ?bm)) (\<lambda>b. Option.bind (add_ovf t b) (\<lambda>t. add_ovf t b)))))))"
    using c m by (simp add: bb_pool_arena_size_needed_def sizeof_pool SIZEOF_PTR_def Let_def)
  let ?b = "round16 ((?cap + 7) div 8)"
  have p: "pool_bytes c = 240 + ?cap * round16 ?max + round16 (?cap * 8) + 2 * ?b" using m by (simp add: pool_bytes_def Let_def)
  have ge: "?cap * 8 \<le> round16 (?cap * 8)" "?max \<le> round16 ?max" "round16 ?max \<le> ?cap * round16 ?max" "SIZE_MAX \<le> ?cap * SIZE_MAX"
    using c by (simp_all add: round16_bounds)
  have mx: "?max \<le> SIZE_MAX" using c by (simp add: cfg_sized_def)
  show ?thesis using mx
  proof (cases rule: align_cases)
    case 2
    have no: "\<not> pool_bytes c \<le> SIZE_MAX" using 2 ge unfolding p by linarith
    show ?thesis
    proof (cases "mul_ovf ?cap (align_up ?max)")
      case None
      then show ?thesis using no by (simp add: e the_default_def)
    next
      case (Some s)
      then have "SIZE_MAX \<le> s" "s \<le> SIZE_MAX" using ge(4) 2(1) by (auto simp: mul_ovf_eq split: if_splits)
      then have "add_ovf 240 s = None" by (simp add: add_ovf_eq)
      then show ?thesis using no Some by (simp add: e the_default_def)
    qed
  next
    case a: 1
    show ?thesis
    proof (cases "240 + ?cap * round16 ?max \<le> SIZE_MAX \<and> ?cap * 8 \<le> SIZE_MAX")
      case False
      have no: "\<not> pool_bytes c \<le> SIZE_MAX" using False ge unfolding p by linarith
      have "bb_pool_arena_size_needed (Some c) = 0"
      proof (cases "240 + ?cap * round16 ?max \<le> SIZE_MAX")
        case True
        then have "mul_ovf ?cap 8 = None" using False by (simp add: mul_ovf_eq)
        then show ?thesis by (cases "mul_ovf ?cap (align_up ?max)"; cases "add_ovf 240 (the (mul_ovf ?cap (align_up ?max)))")
          (simp_all add: e the_default_def)
      next
        case f: False
        then have "mul_ovf ?cap (align_up ?max) = None \<or> add_ovf 240 (the (mul_ovf ?cap (align_up ?max))) = None"
          using a by (auto simp: mul_ovf_eq add_ovf_eq)
        then show ?thesis by (cases "mul_ovf ?cap (align_up ?max)") (auto simp: e the_default_def)
      qed
      then show ?thesis using no by simp
    next
      case True
      then have s: "mul_ovf ?cap (round16 ?max) = Some (?cap * round16 ?max)" "add_ovf 240 (?cap * round16 ?max) = Some (240 + ?cap * round16 ?max)"
        "mul_ovf ?cap 8 = Some (?cap * 8)" by (simp_all add: mul_ovf_eq add_ovf_eq)
      have cap7: "?cap + 7 \<le> SIZE_MAX" using True by (simp add: SIZE_MAX_def)
      then have bm: "?bm = (?cap + 7) div 8" "?bm \<noteq> SIZE_MAX" "?bm + 15 \<le> SIZE_MAX"
        by (auto simp: bitmap_bytes_for_def add_ovf_eq SIZE_MAX_def)
      have bb: "align_up ?bm = ?b" "?b \<le> SIZE_MAX"
        using bm align_up_eq [of ?bm] by (auto simp: round16_def)
      show ?thesis using conjunct2 [OF True]
      proof (cases rule: align_cases)
        case 1
        then show ?thesis using a bb by (auto simp: e p s bm(2) add_ovf_eq the_default_def)
      next
        case 2
        have "\<not> pool_bytes c \<le> SIZE_MAX" using 2 ge unfolding p by linarith
        then show ?thesis using a 2(1) by (simp add: e s add_ovf_eq the_default_def)
      qed
    qed
  qed
qed

lemma size_needed_eq:
  assumes "cfg_sized c"
  shows "bb_pool_arena_size_needed (Some c) = (if cfg_valid c \<and> pool_bytes c \<le> SIZE_MAX then pool_bytes c else 0)"
proof (cases "cf_mode c")
  case BB_POOL_MODE_RETAINED
  then show ?thesis using assms size_needed_retained [of c]
    by (cases "cf_capacity c = 0 \<or> cf_max_slot_bytes c = 0") (auto simp: cfg_valid_def bb_pool_arena_size_needed_def Let_def)
next
  case BB_POOL_MODE_FIFO
  then show ?thesis using assms size_needed_fifo [of c]
    by (cases "cf_capacity c = 0 \<or> cf_max_slot_bytes c = 0") (auto simp: cfg_valid_def bb_pool_arena_size_needed_def Let_def)
next
  case BB_POOL_MODE_TRANSIENT
  then show ?thesis using assms
    by (simp add: bb_pool_arena_size_needed_def sizeof_pool cfg_valid_def pool_bytes_def add_ovf_eq cfg_sized_def the_default_def)
      (simp add: SIZE_MAX_def)
next
  case BB_POOL_MODE_SLOTS
  then show ?thesis using assms size_needed_slots [of c]
    by (cases "cf_capacity c = 0 \<or> cf_max_slot_bytes c = 0") (auto simp: cfg_valid_def bb_pool_arena_size_needed_def Let_def)
next
  case (BB_POOL_MODE_OTHER n)
  then show ?thesis by (simp add: bb_pool_arena_size_needed_def cfg_valid_def)
qed

section \<open>Creation is all or nothing\<close>

text \<open>\<^verbatim>\<open>a'\<close> is \<^verbatim>\<open>a\<close> with \<^verbatim>\<open>n\<close> more bytes used.\<close>

definition took :: "nat \<Rightarrow> bb_mem_arena \<Rightarrow> bb_mem_arena \<Rightarrow> bool" where
  "took n a a' \<longleftrightarrow> ma_inv a' \<and> ma_offset a' = ma_offset a + n \<and> ma_buf a' = ma_buf a \<and> ma_size a' = ma_size a \<and>
     ma_owned_block a' = ma_owned_block a"

lemma alloc_took:
  assumes "ma_inv a" and "0 < n" and "round16 n \<le> ma_free a"
  obtains a' where "bb_mem_arena_alloc (Some a) n = (Some (ma_buf a + ma_offset a), Some a')" "took (round16 n) a a'"
  using assms by (auto simp: alloc_eq took_def bump_offset bump_inv round16_bounds intro!: that)

lemma took_trans: "took m a b \<Longrightarrow> took n b c \<Longrightarrow> took (m + n) a c"
  by (simp add: took_def)

lemma took_free: "took n a a' \<Longrightarrow> ma_free a' = ma_free a - n"
  by (simp add: took_def)

lemma tookD: "took n a a' \<Longrightarrow> ma_inv a'"
  by (simp add: took_def)

lemma retained_bufs_took:
  assumes "ma_inv a" and "0 < n" and "k * round16 n \<le> ma_free a"
  shows "\<exists>a'. retained_bufs (Some a) n k = (Some (map (\<lambda>i. ma_buf a + ma_offset a + i * round16 n) [0..<k]), Some a') \<and>
    took (k * round16 n) a a'"
  using assms
proof (induction k arbitrary: a)
  case 0
  then show ?case by (simp add: took_def)
next
  case (Suc k)
  then have "round16 n \<le> ma_free a" by simp
  then obtain b where b: "bb_mem_arena_alloc (Some a) n = (Some (ma_buf a + ma_offset a), Some b)" "took (round16 n) a b"
    using alloc_took Suc.prems by blast
  have "k * round16 n \<le> ma_free b" using Suc.prems(3) took_free [OF b(2)] by simp
  then obtain a' where r: "retained_bufs (Some b) n k = (Some (map (\<lambda>i. ma_buf b + ma_offset b + i * round16 n) [0..<k]), Some a')"
    and t: "took (k * round16 n) b a'" using Suc.IH [OF tookD [OF b(2)] Suc.prems(2)] by blast
  have "map (\<lambda>i. ma_buf a + ma_offset a + i * round16 n) [0..<Suc k] =
      (ma_buf a + ma_offset a) # map (\<lambda>i. ma_buf b + ma_offset b + i * round16 n) [0..<k]"
    using b(2) by (simp add: took_def map_upt_Suc add.assoc del: upt_Suc)
  then show ?case using took_trans [OF b(2) t] by (simp add: b(1) r del: upt_Suc)
qed

text \<open>What the three carving functions find when the arena has the room: sizes that do not wrap.\<close>

lemma stride_exact:
  assumes "0 < c" and "c * round16 n \<le> SIZE_MAX - 100"
  shows "align_up n = round16 n" "sz_mul c (round16 n) = c * round16 n" "n + 15 \<le> SIZE_MAX"
proof -
  have "round16 n \<le> c * round16 n" using assms(1) by (rule ge_mult)
  then have r: "round16 n \<le> SIZE_MAX - 100" using assms(2) by linarith
  then show n: "n + 15 \<le> SIZE_MAX" using round16_bounds(1) [of n] by (simp add: SIZE_MAX_def)
  then show "align_up n = round16 n" by (subst align_up_eq) auto
  show "sz_mul c (round16 n) = c * round16 n" using assms(2) by (intro sz_mul_exact) simp
qed

lemma round16_mult: "round16 (c * round16 n) = c * round16 n"
  by (rule round16_id) (simp add: round16_bounds)

lemma create_retained_ok:
  assumes a: "ma_inv a" and c: "pl_cfg pool = c" "0 < cf_capacity c" "0 < cf_max_slot_bytes c"
    and room: "round16 (cf_capacity c * 24) + cf_capacity c * round16 (cf_max_slot_bytes c) \<le> ma_free a"
  shows "\<exists>a' p'. create_retained raw pool (Some a) = (BB_OK, Some a', Some p') \<and>
    took (round16 (cf_capacity c * 24) + cf_capacity c * round16 (cf_max_slot_bytes c)) a a' \<and> pl_cfg p' = c \<and>
    length (pl_retained_slots p') = cf_capacity c \<and> pl_self p' = pl_self pool"
proof -
  let ?cap = "cf_capacity c" and ?max = "cf_max_slot_bytes c"
  have sm: "ma_free a \<le> SIZE_MAX" using a by (auto simp: ma_inv_def)
  have m: "sz_mul ?cap SIZEOF_RETAINED_SLOT = ?cap * 24"
    unfolding SIZEOF_RETAINED_SLOT_def using room sm round16_bounds(1) [of "?cap * 24"] by (intro sz_mul_exact) linarith
  obtain b where b: "bb_mem_arena_alloc (Some a) (?cap * 24) = (Some (ma_buf a + ma_offset a), Some b)" "took (round16 (?cap * 24)) a b"
    using alloc_took [OF a, of "?cap * 24"] c(2) room by auto
  have "?cap * round16 ?max \<le> ma_free b" using room took_free [OF b(2)] by simp
  then obtain a' where r: "retained_bufs (Some b) ?max ?cap = (Some (map (\<lambda>i. ma_buf b + ma_offset b + i * round16 ?max) [0..<?cap]), Some a')"
    and t: "took (?cap * round16 ?max) b a'" using retained_bufs_took [OF tookD [OF b(2)] c(3)] by blast
  show ?thesis using took_trans [OF b(2) t]
    by (simp add: create_retained_def Let_def c(1) m b(1) r)
qed

lemma create_fifo_ok:
  assumes a: "ma_inv a" "ma_free a \<le> SIZE_MAX - 100" and c: "pl_cfg pool = c" "0 < cf_capacity c" "0 < cf_max_slot_bytes c"
    and room: "cf_capacity c * round16 (24 + cf_max_slot_bytes c) \<le> ma_free a"
  shows "\<exists>a'. create_fifo raw pool (Some a) = (BB_OK, Some a', Some (pool\<lparr>pl_fifo := \<lparr> ff_entries_at = ma_buf a + ma_offset a,
             ff_entries = map (\<lambda>i. (\<lparr> hd_len = 0, hd_ts = 0, hd_id = 0 \<rparr>, map (raw i) [0..<cf_max_slot_bytes c])) [0..<cf_capacity c],
             ff_entry_stride = round16 (24 + cf_max_slot_bytes c), ff_head = 0, ff_count = 0, ff_dropped = 0 \<rparr>\<rparr>)) \<and>
    took (cf_capacity c * round16 (24 + cf_max_slot_bytes c)) a a'"
proof -
  let ?cap = "cf_capacity c" and ?max = "cf_max_slot_bytes c"
  have sm: "?cap * round16 (24 + ?max) \<le> SIZE_MAX - 100" using room a(2) by linarith
  note s = stride_exact [OF c(2) sm]
  have h: "sz_add SIZEOF_FIFO_HDR ?max = 24 + ?max" unfolding SIZEOF_FIFO_HDR_def using s(3) by (intro sz_add_exact) simp
  have "0 < ?cap * round16 (24 + ?max)" using c(2) by (simp add: round16_pos)
  then obtain b where b: "bb_mem_arena_alloc (Some a) (?cap * round16 (24 + ?max)) = (Some (ma_buf a + ma_offset a), Some b)"
      "took (?cap * round16 (24 + ?max)) a b"
    using alloc_took [OF a(1), of "?cap * round16 (24 + ?max)"] room by (auto simp: round16_mult)
  then show ?thesis by (simp add: create_fifo_def Let_def c(1) h s b(1))
qed

lemma create_slots_ok:
  assumes a: "ma_inv a" "ma_free a \<le> SIZE_MAX - 100" and c: "pl_cfg pool = c" "0 < cf_capacity c" "0 < cf_max_slot_bytes c"
    and room: "cf_capacity c * round16 (cf_max_slot_bytes c) + round16 (cf_capacity c * 8) +
        2 * round16 ((cf_capacity c + 7) div 8) \<le> ma_free a"
  shows "\<exists>a'. create_slots pool (Some a) = (BB_OK, Some a', Some (pool\<lparr>pl_slots :=
        (let bb = round16 ((cf_capacity c + 7) div 8) in
        \<lparr> sl_storage = ma_buf a + ma_offset a, sl_slot_stride = round16 (cf_max_slot_bytes c),
          sl_free_list = map (\<lambda>i. ma_buf a + ma_offset a + i * round16 (cf_max_slot_bytes c)) [0..<cf_capacity c],
          sl_free_top = cf_capacity c, sl_acquired_bitmap = replicate bb 0, sl_pending_bitmap = replicate bb 0 \<rparr>)\<rparr>)) \<and>
    took (cf_capacity c * round16 (cf_max_slot_bytes c) + round16 (cf_capacity c * 8) +
        2 * round16 ((cf_capacity c + 7) div 8)) a a'"
proof -
  let ?cap = "cf_capacity c" and ?max = "cf_max_slot_bytes c"
  let ?bm = "(?cap + 7) div 8"
  have sm: "?cap * round16 ?max \<le> SIZE_MAX - 100" using room a(2) by linarith
  note s = stride_exact [OF c(2) sm]
  have c8: "?cap * 8 \<le> SIZE_MAX - 100" using room a(2) round16_bounds(1) [of "?cap * 8"] by linarith
  then have m: "sz_mul ?cap SIZEOF_PTR = ?cap * 8" unfolding SIZEOF_PTR_def by (intro sz_mul_exact) simp
  have c7: "?cap + 7 \<le> SIZE_MAX" using c8 by (simp add: SIZE_MAX_def)
  then have bm: "bitmap_bytes_for ?cap = ?bm" "?bm + 15 \<le> SIZE_MAX"
    by (auto simp: bitmap_bytes_for_def add_ovf_eq SIZE_MAX_def)
  then have bb: "align_up ?bm = round16 ?bm" by (subst align_up_eq) auto
  have bp: "0 < ?bm" using c(2) by simp
  have pos: "0 < ?cap * round16 ?max" "0 < ?cap * 8" "0 < round16 ?bm" using c round16_pos [OF bp] by (simp_all add: round16_pos)
  have rr: "round16 (round16 n) = round16 n" for n by (rule round16_id) (rule round16_bounds)
  obtain a1 where 1: "bb_mem_arena_alloc (Some a) (?cap * round16 ?max) = (Some (ma_buf a + ma_offset a), Some a1)" "took (?cap * round16 ?max) a a1"
    using alloc_took [OF a(1) pos(1)] room by (auto simp: round16_mult)
  note f1 = took_free [OF 1(2)] and i1 = tookD [OF 1(2)]
  have r2: "round16 (?cap * 8) \<le> ma_free a1" unfolding f1 using room by linarith
  obtain a2 where 2: "bb_mem_arena_alloc (Some a1) (?cap * 8) = (Some (ma_buf a1 + ma_offset a1), Some a2)" "took (round16 (?cap * 8)) a1 a2"
    using alloc_took [OF i1 pos(2) r2] by blast
  note f2 = took_free [OF 2(2)] and i2 = tookD [OF 2(2)]
  have r3: "round16 (round16 ?bm) \<le> ma_free a2" unfolding rr using room f1 f2 by linarith
  obtain a3 where 3: "bb_mem_arena_alloc (Some a2) (round16 ?bm) = (Some (ma_buf a2 + ma_offset a2), Some a3)" "took (round16 ?bm) a2 a3"
    using alloc_took [OF i2 pos(3) r3] unfolding rr by blast
  note f3 = took_free [OF 3(2)] and i3 = tookD [OF 3(2)]
  have r4: "round16 (round16 ?bm) \<le> ma_free a3" unfolding rr using room f1 f2 f3 by linarith
  obtain a4 where 4: "bb_mem_arena_alloc (Some a3) (round16 ?bm) = (Some (ma_buf a3 + ma_offset a3), Some a4)" "took (round16 ?bm) a3 a4"
    using alloc_took [OF i3 pos(3) r4] unfolding rr by blast
  have "took (?cap * round16 ?max + round16 (?cap * 8) + round16 ?bm + round16 ?bm) a a4"
    by (intro took_trans [OF _ 4(2)] took_trans [OF _ 3(2)] took_trans [OF _ 2(2)] 1(2))
  then have t: "took (?cap * round16 ?max + round16 (?cap * 8) + 2 * round16 ?bm) a a4" by (simp add: mult_2 add.assoc)
  show ?thesis using t by (simp add: create_slots_def Let_def c(1) s m bm bb 1(1) 2(1) 3(1) 4(1))
qed

lemma SIZEOF_round: "round16 SIZEOF_BB_POOL = 240"
  by (simp add: SIZEOF_BB_POOL_def round16_def)

text \<open>The pool that a successful creation for slots or for a ring yields.\<close>

lemma pool_create_ok:
  assumes a: "ma_inv a" and sz: "cfg_sized c" and v: "cfg_valid c" "pool_bytes c \<le> SIZE_MAX" and room: "pool_bytes c \<le> ma_free a"
  shows "\<exists>a' p. bb_pool_create raw (Some c) (Some a) True = (BB_OK, Some a', Some p) \<and>
    took (if cf_mode c = BB_POOL_MODE_TRANSIENT then 240 else pool_bytes c) a a' \<and>
    pl_self p = ma_buf a + ma_offset a"
proof -
  let ?cap = "cf_capacity c" and ?max = "cf_max_slot_bytes c"
  have n: "bb_pool_arena_size_needed (Some c) = pool_bytes c" using size_needed_eq [OF sz] v by simp
  have b: "240 \<le> pool_bytes c" using v(1) by (auto simp: pool_bytes_def Let_def cfg_valid_def split: bb_pool_mode_t.splits)
  have fb: "bb_mem_arena_free_bytes (Some a) = ma_free a" using a by (rule ma_free_bytes)
  have r: "round16 SIZEOF_BB_POOL \<le> ma_free a" unfolding SIZEOF_round using b room by linarith
  have pos: "0 < SIZEOF_BB_POOL" by (simp add: SIZEOF_BB_POOL_def)
  obtain a1 where 1: "bb_mem_arena_alloc (Some a) SIZEOF_BB_POOL = (Some (ma_buf a + ma_offset a), Some a1)" "took 240 a a1"
    using alloc_took [OF a pos r] unfolding SIZEOF_round by blast
  let ?p = "pool_fresh c (ma_buf a + ma_offset a)"
  note f1 = took_free [OF 1(2)] and i1 = tookD [OF 1(2)]
  have sm: "ma_free a1 \<le> SIZE_MAX - 100" using a unfolding f1 by (auto simp: ma_inv_def)
  have pc: "pl_cfg ?p = c" "pl_self ?p = ma_buf a + ma_offset a" by (simp_all add: pool_fresh_def)
  have cr: "bb_pool_create raw (Some c) (Some a) True =
      (case cf_mode c of BB_POOL_MODE_RETAINED \<Rightarrow> create_retained raw ?p (Some a1) | BB_POOL_MODE_FIFO \<Rightarrow> create_fifo raw ?p (Some a1)
       | BB_POOL_MODE_SLOTS \<Rightarrow> create_slots ?p (Some a1) | _ \<Rightarrow> (BB_OK, Some a1, Some ?p))"
    using v(1) b room unfolding bb_pool_create_def option.case prod.case n fb Let_def
    by (auto simp: 1(1) cfg_valid_def split: bb_pool_mode_t.splits)
  show ?thesis
  proof (cases "cf_mode c")
    case BB_POOL_MODE_TRANSIENT
    then show ?thesis using 1(2) pc by (simp add: cr)
  next
    case (BB_POOL_MODE_OTHER k)
    then show ?thesis using v(1) by (simp add: cfg_valid_def)
  next
    case m: BB_POOL_MODE_RETAINED
    then have pos: "0 < ?cap" "0 < ?max" and pb: "pool_bytes c = 240 + (round16 (?cap * 24) + ?cap * round16 ?max)"
      using v(1) by (simp_all add: cfg_valid_def pool_bytes_def Let_def)
    have "round16 (?cap * 24) + ?cap * round16 ?max \<le> ma_free a1" using room unfolding pb f1 by linarith
    from create_retained_ok [OF i1 pc(1) pos this, of raw] show ?thesis
      using took_trans [OF 1(2)] unfolding cr m pb by (auto simp: pool_fresh_def)
  next
    case m: BB_POOL_MODE_FIFO
    then have pos: "0 < ?cap" "0 < ?max" and pb: "pool_bytes c = 240 + ?cap * round16 (24 + ?max)"
      using v(1) by (simp_all add: cfg_valid_def pool_bytes_def Let_def)
    have "?cap * round16 (24 + ?max) \<le> ma_free a1" using room unfolding pb f1 by linarith
    from create_fifo_ok [OF i1 sm pc(1) pos this, of raw] show ?thesis
      using took_trans [OF 1(2)] unfolding cr m pb by (auto simp: pool_fresh_def)
  next
    case m: BB_POOL_MODE_SLOTS
    then have pos: "0 < ?cap" "0 < ?max" and pb: "pool_bytes c =
        240 + (?cap * round16 ?max + round16 (?cap * 8) + 2 * round16 ((?cap + 7) div 8))"
      using v(1) by (simp_all add: cfg_valid_def pool_bytes_def Let_def)
    have "?cap * round16 ?max + round16 (?cap * 8) + 2 * round16 ((?cap + 7) div 8) \<le> ma_free a1"
      using room unfolding pb f1 by linarith
    from create_slots_ok [OF i1 sm pc(1) pos this] show ?thesis
      using took_trans [OF 1(2)] unfolding cr m pb by (auto simp: pool_fresh_def)
  qed
qed

text \<open>C18: pool creation is sized exactly and is all or nothing. \<^verbatim>\<open>bb_pool_arena_size_needed\<close> never wraps: it is the
  sum of the aligned parts over the unbounded integers, or 0 when that exceeds \<^verbatim>\<open>SIZE_MAX\<close> or the
  configuration is invalid. \<^verbatim>\<open>bb_pool_create\<close> succeeds exactly when this is positive and the arena has as
  many bytes free, and then takes exactly these bytes (a transient pool only its own struct); otherwise the arena is as
  before, so the error returns between the carving steps are never taken.\<close>
theorem pool_create_all_or_nothing:
  assumes a: "ma_inv a" and sz: "cfg_sized c" and cr: "bb_pool_create raw (Some c) (Some a) True = (e, Some a', r)"
  shows "(let need = bb_pool_arena_size_needed (Some c); free = bb_mem_arena_free_bytes (Some a) in
    need = (if cfg_valid c \<and> pool_bytes c \<le> SIZE_MAX then pool_bytes c else 0) \<and>
    e = (if need = 0 then BB_ERR_INVALID_ARG else if free < need then BB_ERR_NO_SPACE else BB_OK) \<and>
    (e = BB_OK \<longrightarrow> r \<noteq> None \<and>
       bb_mem_arena_free_bytes (Some a') = free - (if cf_mode c = BB_POOL_MODE_TRANSIENT then 240 else need)) \<and>
    (e \<noteq> BB_OK \<longrightarrow> r = None \<and> a' = a))"
proof -
  have n: "bb_pool_arena_size_needed (Some c) = (if cfg_valid c \<and> pool_bytes c \<le> SIZE_MAX then pool_bytes c else 0)"
    using sz by (rule size_needed_eq)
  have fb: "bb_mem_arena_free_bytes (Some a) = ma_free a" using a by (rule ma_free_bytes)
  have pos: "0 < pool_bytes c" if "cfg_valid c" using that by (auto simp: pool_bytes_def Let_def cfg_valid_def split: bb_pool_mode_t.splits)
  show ?thesis
  proof (cases "cfg_valid c \<and> pool_bytes c \<le> SIZE_MAX")
    case False
    then have "e = BB_ERR_INVALID_ARG" "a' = a" "r = None"
      using cr unfolding bb_pool_create_def option.case prod.case n by (auto simp: Let_def split: if_splits)
    then show ?thesis using False by (auto simp: n Let_def)
  next
    case True
    show ?thesis
    proof (cases "ma_free a < pool_bytes c")
      case small: True
      then have "e = BB_ERR_NO_SPACE" "a' = a" "r = None"
        using cr True pos unfolding bb_pool_create_def option.case prod.case n fb
        by (auto simp: Let_def cfg_valid_def split: if_splits bb_pool_mode_t.splits)
      then show ?thesis using True small pos by (simp add: n fb Let_def)
    next
      case False
      then obtain p where "e = BB_OK" "r = Some p" and t: "took (if cf_mode c = BB_POOL_MODE_TRANSIENT then 240 else pool_bytes c) a a'"
        using pool_create_ok [OF a sz, of raw] True cr by auto
      moreover have "bb_mem_arena_free_bytes (Some a') = ma_free a'" using tookD [OF t] by (rule ma_free_bytes)
      ultimately show ?thesis using True False pos took_free [OF t] by (simp add: n fb Let_def)
    qed
  qed
qed

text \<open>An arena of 512 free bytes, and a configuration of two slots of five bytes with every callback.\<close>

definition arena512 :: bb_mem_arena where
  "arena512 = \<lparr> ma_buf = 4160, ma_size = 512, ma_offset = 0, ma_stats = stats0, ma_owned_block = None \<rparr>"

definition cfg_two :: bb_pool_cfg_t where
  "cfg_two = \<lparr> cf_mode = BB_POOL_MODE_SLOTS, cf_capacity = 2, cf_max_slot_bytes = 5, cf_full_policy = BB_POOL_FULL_REJECT_NEW,
     cf_name = None, cf_transient_reserve_bytes = 0, cf_cb_ctx = 7, cf_on_acquire = True, cf_on_release = True,
     cf_slot_reusable = True, cf_slot_reap = True, cf_on_destroy = True \<rparr>"

lemma arena512_inv: "ma_inv arena512"
  by (simp add: arena512_def ma_inv_def SIZE_MAX_def stats0_def)

lemma arena512_free: "ma_free arena512 = 512"
  by (simp add: arena512_def)

lemma cfg_two_ok: "cfg_sized cfg_two" "cfg_valid cfg_two" "pool_bytes cfg_two = 320"
  by (simp_all add: cfg_two_def cfg_sized_def SIZE_MAX_def cfg_valid_def pool_bytes_def round16_def)

theorem pool_create_all_or_nothing_witness:
  "\<exists>a' p. bb_pool_create (\<lambda>_ _. 0) (Some cfg_two) (Some arena512) True = (BB_OK, Some a', Some p) \<and>
     bb_mem_arena_free_bytes (Some a') = 192"
proof -
  have le: "pool_bytes cfg_two \<le> SIZE_MAX" "pool_bytes cfg_two \<le> ma_free arena512"
    by (simp_all add: cfg_two_ok arena512_free SIZE_MAX_def)
  obtain a' p where c: "bb_pool_create (\<lambda>_ _. 0) (Some cfg_two) (Some arena512) True = (BB_OK, Some a', Some p)"
    using pool_create_ok [OF arena512_inv cfg_two_ok(1,2) le] by blast
  have m: "cf_mode cfg_two \<noteq> BB_POOL_MODE_TRANSIENT" by (simp add: cfg_two_def)
  show ?thesis using pool_create_all_or_nothing [OF arena512_inv cfg_two_ok(1) c] c m le
    by (simp add: Let_def cfg_two_ok ma_free_bytes arena512_inv arena512_free)
qed

section \<open>Resetting a transient pool gives its own struct away\<close>

text \<open>C20: a reset gives the pool away. The pool struct is the first block of an owned arena, and a reset rewinds the arena over it: the next
  allocation returns the address of the pool itself, and writing to that block overwrites the pool.\<close>
theorem transient_reset_hands_out_the_pool:
  assumes a: "ma_inv a" "ma_offset a = 0" and sz: "cfg_sized c" and m: "cf_mode c = BB_POOL_MODE_TRANSIENT"
    and room: "pool_bytes c \<le> ma_free a" and n: "0 < n" "round16 n \<le> ma_size a"
  shows "\<exists>a' p. bb_pool_create raw (Some c) (Some a) True = (BB_OK, Some a', Some p) \<and>
    fst (bb_pool_alloc (Some p) (bb_pool_reset (Some p) (Some a')) n) = Some (pl_self p)"
proof -
  have v: "cfg_valid c" "pool_bytes c \<le> SIZE_MAX" using m room a by (auto simp: cfg_valid_def ma_inv_def)
  obtain a' p where c: "bb_pool_create raw (Some c) (Some a) True = (BB_OK, Some a', Some p)"
    and t: "took 240 a a'" and s: "pl_self p = ma_buf a"
    using pool_create_ok [OF a(1) sz v room, of raw] m a(2) by auto
  have i: "ma_inv (a'\<lparr>ma_offset := 0\<rparr>)" using tookD [OF t] by (simp add: ma_inv_def)
  have "fst (bb_mem_arena_alloc (Some (a'\<lparr>ma_offset := 0\<rparr>)) n) = Some (ma_buf a)"
    using t n unfolding alloc_eq [OF i] by (simp add: took_def)
  then show ?thesis using c s by (simp add: bb_pool_alloc_def bb_pool_reset_def bb_mem_arena_reset_def)
qed

theorem transient_reset_hands_out_the_pool_witness:
  "\<exists>a' p. bb_pool_create (\<lambda>_ _. 0) (Some (cfg_two\<lparr>cf_mode := BB_POOL_MODE_TRANSIENT, cf_transient_reserve_bytes := 64\<rparr>)) (Some arena512) True =
      (BB_OK, Some a', Some p) \<and>
     fst (bb_pool_alloc (Some p) (bb_pool_reset (Some p) (Some a')) 32) = Some (pl_self p)"
  by (rule transient_reset_hands_out_the_pool [OF arena512_inv])
    (simp_all add: arena512_def cfg_two_def cfg_sized_def SIZE_MAX_def pool_bytes_def round16_def)

end
