(* ===== verification/BB_Pool_Slots.thy ===== *)
theory BB_Pool_Slots
  imports BB_Pool
begin

unbundle bit_operations_syntax

text \<open>
  Slots on loan: the bitmaps as sets, the invariant that keeps every slot in exactly one of three places (free
  list, loan, pending), the elementary moves between them, and what a client of a pool can rely on over
  any sequence of acquires, releases and reaping passes.
\<close>

section \<open>Bitmaps\<close>

lemma bitmap_test_bit: "bitmap_test bm i = bit (bm ! (i div 8)) (i mod 8)"
proof -
  have "(push_bit (i mod 8) 1 :: u8) = 2 ^ (i mod 8)" by (simp add: push_bit_eq_mult)
  then show ?thesis by (simp add: bitmap_test_def and_exp_eq_0_iff_not_bit)
qed

lemma bitmap_set_test:
  assumes "i < 8 * length bm"
  shows "bitmap_test (bitmap_set bm i) j = (j = i \<or> bitmap_test bm j)"
proof -
  have l: "i div 8 < length bm" using assms by simp
  have e: "j = i \<longleftrightarrow> j div 8 = i div 8 \<and> j mod 8 = i mod 8" by (metis div_mult_mod_eq)
  have "i mod 8 < 8" by simp
  then have m: "bit (2 ^ (i mod 8) :: u8) (j mod 8) = (j mod 8 = i mod 8)"
    by (auto simp: bit_exp_iff)
  show ?thesis using l unfolding e
    by (cases "j div 8 = i div 8") (auto simp: bitmap_test_bit bitmap_set_def bit_or_iff m)
qed

lemma bitmap_clear_test:
  assumes "i < 8 * length bm"
  shows "bitmap_test (bitmap_clear bm i) j = (j \<noteq> i \<and> bitmap_test bm j)"
proof -
  have l: "i div 8 < length bm" using assms by simp
  have e: "j = i \<longleftrightarrow> j div 8 = i div 8 \<and> j mod 8 = i mod 8" by (metis div_mult_mod_eq)
  have "i mod 8 < 8" "j mod 8 < 8" by simp_all
  then have m: "bit (NOT (2 ^ (i mod 8)) :: u8) (j mod 8) = (j mod 8 \<noteq> i mod 8)"
    by (auto simp: bit_not_iff bit_exp_iff)
  show ?thesis using l unfolding e
    by (cases "j div 8 = i div 8") (auto simp: bitmap_test_bit bitmap_clear_def bit_and_iff m)
qed

lemma length_bitmap [simp]: "length (bitmap_set bm i) = length bm" "length (bitmap_clear bm i) = length bm"
  by (simp_all add: bitmap_set_def bitmap_clear_def)

lemma bitmap_zero: "i < 8 * n \<Longrightarrow> \<not> bitmap_test (replicate n 0) i"
  by (simp add: bitmap_test_bit less_mult_imp_div_less mult.commute)

section \<open>The three places of a slot\<close>

abbreviation acq :: "bb_pool \<Rightarrow> nat \<Rightarrow> bool" where "acq p \<equiv> bitmap_test (sl_acquired_bitmap (pl_slots p))"
abbreviation pend :: "bb_pool \<Rightarrow> nat \<Rightarrow> bool" where "pend p \<equiv> bitmap_test (sl_pending_bitmap (pl_slots p))"

definition free_slots :: "bb_pool \<Rightarrow> nat list" where
  "free_slots p = take (sl_free_top (pl_slots p)) (sl_free_list (pl_slots p))"

text \<open>A slot is on the free list, on loan or pending, and in one place only; the slots of \<^verbatim>\<open>L\<close> are in none, on
  their way from one to another.\<close>

definition limbo_inv :: "nat set \<Rightarrow> bb_pool \<Rightarrow> bool" where
  "limbo_inv L p \<longleftrightarrow>
     cf_mode (pl_cfg p) = BB_POOL_MODE_SLOTS \<and> 0 < pl_capacity p \<and> pl_capacity p < SIZE_MAX \<and> 0 < sl_slot_stride (pl_slots p) \<and>
     length (sl_free_list (pl_slots p)) = pl_capacity p \<and> sl_free_top (pl_slots p) \<le> pl_capacity p \<and>
     pl_capacity p \<le> 8 * length (sl_acquired_bitmap (pl_slots p)) \<and> pl_capacity p \<le> 8 * length (sl_pending_bitmap (pl_slots p)) \<and>
     distinct (free_slots p) \<and>
     set (free_slots p) = slots_ptr_at p ` {i. i < pl_capacity p \<and> \<not> acq p i \<and> \<not> pend p i \<and> i \<notin> L} \<and>
     (\<forall>i < pl_capacity p. \<not> (acq p i \<and> pend p i)) \<and> (\<forall>i\<in>L. i < pl_capacity p \<and> \<not> acq p i \<and> \<not> pend p i) \<and>
     (\<not> cf_slot_reusable (pl_cfg p) \<longrightarrow> (\<forall>i < pl_capacity p. \<not> pend p i))"

abbreviation slots_inv :: "bb_pool \<Rightarrow> bool" where "slots_inv \<equiv> limbo_inv {}"

definition same_pool :: "bb_pool \<Rightarrow> bb_pool \<Rightarrow> bool" where
  "same_pool p p' \<longleftrightarrow> pl_cfg p' = pl_cfg p \<and> sl_storage (pl_slots p') = sl_storage (pl_slots p) \<and>
     sl_slot_stride (pl_slots p') = sl_slot_stride (pl_slots p)"

lemma same_pool_ptr: "same_pool p p' \<Longrightarrow> slots_ptr_at p' = slots_ptr_at p"
  by (simp add: same_pool_def slots_ptr_at_def fun_eq_iff)

lemmas same_pool_fields = same_pool_def [THEN iffD1, THEN conjunct1] same_pool_ptr

lemma same_pool_refl [simp]: "same_pool p p" and same_pool_trans: "same_pool p q \<Longrightarrow> same_pool q r \<Longrightarrow> same_pool p r"
  by (simp_all add: same_pool_def)

lemma ptr_inj: "limbo_inv L p \<Longrightarrow> slots_ptr_at p i = slots_ptr_at p j \<longleftrightarrow> i = j"
  by (auto simp: limbo_inv_def slots_ptr_at_def)

lemma index_of_Some:
  assumes "limbo_inv L p"
  shows "slots_index_of p a = Some i \<longleftrightarrow> i < pl_capacity p \<and> a = slots_ptr_at p i"
proof -
  let ?b = "sl_storage (pl_slots p)" and ?s = "sl_slot_stride (pl_slots p)"
  have s: "0 < ?s" using assms by (simp add: limbo_inv_def)
  show ?thesis
  proof
    assume "slots_index_of p a = Some i"
    then have h: "?b \<le> a" "(a - ?b) mod ?s = 0" "i = (a - ?b) div ?s" "i < pl_capacity p"
      by (auto simp: slots_index_of_def Let_def split: if_splits)
    then have "a - ?b = i * ?s" by (simp add: mod_0_imp_dvd)
    then show "i < pl_capacity p \<and> a = slots_ptr_at p i" using h by (simp add: slots_ptr_at_def)
  next
    assume "i < pl_capacity p \<and> a = slots_ptr_at p i"
    then show "slots_index_of p a = Some i" using s by (simp add: slots_index_of_def slots_ptr_at_def Let_def)
  qed
qed

lemma index_of_None: "limbo_inv L p \<Longrightarrow> slots_index_of p a = None \<longleftrightarrow> (\<forall>i < pl_capacity p. a \<noteq> slots_ptr_at p i)"
  using index_of_Some [of L p a] by (cases "slots_index_of p a") auto

lemma free_count:
  assumes "limbo_inv L p"
  shows "sl_free_top (pl_slots p) = card {i. i < pl_capacity p \<and> \<not> acq p i \<and> \<not> pend p i \<and> i \<notin> L}"
proof -
  have "length (free_slots p) = card (set (free_slots p))" using assms unfolding limbo_inv_def by (metis distinct_card)
  also have "\<dots> = card {i. i < pl_capacity p \<and> \<not> acq p i \<and> \<not> pend p i \<and> i \<notin> L}"
    using assms ptr_inj [OF assms] by (simp add: limbo_inv_def card_image inj_on_def)
  finally show ?thesis using assms by (simp add: limbo_inv_def free_slots_def)
qed

lemma room_for_acquired:
  assumes "limbo_inv L p" and "i < pl_capacity p" and "acq p i \<or> pend p i \<or> i \<in> L"
  shows "sl_free_top (pl_slots p) < pl_capacity p"
proof -
  have "card {i. i < pl_capacity p \<and> \<not> acq p i \<and> \<not> pend p i \<and> i \<notin> L} < card {..<pl_capacity p}"
    by (rule psubset_card_mono) (use assms(2,3) in auto)
  then show ?thesis using free_count [OF assms(1)] by simp
qed

text \<open>The elementary moves: each takes a slot into limbo or out of it.\<close>

lemma limbo_simps:
  "limbo_inv L p \<Longrightarrow> cf_mode (pl_cfg p) = BB_POOL_MODE_SLOTS" "limbo_inv L p \<Longrightarrow> i \<in> L \<Longrightarrow> i < pl_capacity p"
  "limbo_inv L p \<Longrightarrow> i \<in> L \<Longrightarrow> \<not> acq p i" "limbo_inv L p \<Longrightarrow> i \<in> L \<Longrightarrow> \<not> pend p i"
  "limbo_inv L p \<Longrightarrow> i < pl_capacity p \<Longrightarrow> i < 8 * length (sl_acquired_bitmap (pl_slots p))"
  "limbo_inv L p \<Longrightarrow> i < pl_capacity p \<Longrightarrow> i < 8 * length (sl_pending_bitmap (pl_slots p))"
  by (auto simp: limbo_inv_def)

lemma slots_frame [simp, frame_simps]:
  "same_pool p (set_acquired bm p)" "same_pool p (set_pending bm p)" "same_pool p (push_free a p)"
  "free_slots (set_acquired bm p) = free_slots p" "free_slots (set_pending bm p) = free_slots p"
  "sl_acquired_bitmap (pl_slots (set_acquired bm p)) = bm" "sl_acquired_bitmap (pl_slots (set_pending bm p)) = sl_acquired_bitmap (pl_slots p)"
  "sl_pending_bitmap (pl_slots (set_pending bm p)) = bm" "sl_pending_bitmap (pl_slots (set_acquired bm p)) = sl_pending_bitmap (pl_slots p)"
  "sl_acquired_bitmap (pl_slots (push_free a p)) = sl_acquired_bitmap (pl_slots p)"
  "sl_pending_bitmap (pl_slots (push_free a p)) = sl_pending_bitmap (pl_slots p)"
  "pl_cfg (set_acquired bm p) = pl_cfg p" "pl_cfg (set_pending bm p) = pl_cfg p" "pl_cfg (push_free a p) = pl_cfg p"
  "slots_ptr_at (set_acquired bm p) = slots_ptr_at p" "slots_ptr_at (set_pending bm p) = slots_ptr_at p"
  "slots_ptr_at (push_free a p) = slots_ptr_at p"
  "sl_free_list (pl_slots (set_acquired bm p)) = sl_free_list (pl_slots p)" "sl_free_list (pl_slots (set_pending bm p)) = sl_free_list (pl_slots p)"
  "sl_free_top (pl_slots (set_acquired bm p)) = sl_free_top (pl_slots p)" "sl_free_top (pl_slots (set_pending bm p)) = sl_free_top (pl_slots p)"
  "sl_slot_stride (pl_slots (set_acquired bm p)) = sl_slot_stride (pl_slots p)"
  "sl_slot_stride (pl_slots (set_pending bm p)) = sl_slot_stride (pl_slots p)"
  by (simp_all add: same_pool_def set_acquired_def set_pending_def push_free_def free_slots_def slots_ptr_at_def fun_eq_iff)

lemma move_set_acq:
  assumes "limbo_inv L p" and "i \<in> L"
  shows "limbo_inv (L - {i}) (set_acquired (bitmap_set (sl_acquired_bitmap (pl_slots p)) i) p)"
proof -
  have b: "i < 8 * length (sl_acquired_bitmap (pl_slots p))" using assms by (auto simp: limbo_inv_def)
  have "{j. j < pl_capacity p \<and> \<not> (j = i \<or> acq p j) \<and> \<not> pend p j \<and> j \<notin> L - {i}} =
      {j. j < pl_capacity p \<and> \<not> acq p j \<and> \<not> pend p j \<and> j \<notin> L}" using assms(2) by auto
  then show ?thesis using assms unfolding limbo_inv_def by (simp add: bitmap_set_test [OF b]) auto
qed

lemma move_clear_acq:
  assumes "limbo_inv L p" and "i < pl_capacity p" and "acq p i"
  shows "limbo_inv (insert i L) (set_acquired (bitmap_clear (sl_acquired_bitmap (pl_slots p)) i) p)"
proof -
  have b: "i < 8 * length (sl_acquired_bitmap (pl_slots p))" using assms by (auto simp: limbo_inv_def)
  have "{j. j < pl_capacity p \<and> \<not> (j \<noteq> i \<and> acq p j) \<and> \<not> pend p j \<and> j \<notin> insert i L} =
      {j. j < pl_capacity p \<and> \<not> acq p j \<and> \<not> pend p j \<and> j \<notin> L}" using assms(3) by auto
  then show ?thesis using assms unfolding limbo_inv_def by (simp add: bitmap_clear_test [OF b])
qed

lemma move_set_pend:
  assumes "limbo_inv L p" and "i \<in> L" and "cf_slot_reusable (pl_cfg p)"
  shows "limbo_inv (L - {i}) (set_pending (bitmap_set (sl_pending_bitmap (pl_slots p)) i) p)"
proof -
  have b: "i < 8 * length (sl_pending_bitmap (pl_slots p))" using assms by (auto simp: limbo_inv_def)
  have "{j. j < pl_capacity p \<and> \<not> acq p j \<and> \<not> (j = i \<or> pend p j) \<and> j \<notin> L - {i}} =
      {j. j < pl_capacity p \<and> \<not> acq p j \<and> \<not> pend p j \<and> j \<notin> L}" using assms(2) by auto
  then show ?thesis using assms unfolding limbo_inv_def by (simp add: bitmap_set_test [OF b]) auto
qed

lemma move_clear_pend:
  assumes "limbo_inv L p" and "i < pl_capacity p" and "pend p i"
  shows "limbo_inv (insert i L) (set_pending (bitmap_clear (sl_pending_bitmap (pl_slots p)) i) p)"
proof -
  have b: "i < 8 * length (sl_pending_bitmap (pl_slots p))" using assms by (auto simp: limbo_inv_def)
  have "{j. j < pl_capacity p \<and> \<not> acq p j \<and> \<not> (j \<noteq> i \<and> pend p j) \<and> j \<notin> insert i L} =
      {j. j < pl_capacity p \<and> \<not> acq p j \<and> \<not> pend p j \<and> j \<notin> L}" using assms(3) by auto
  then show ?thesis using assms unfolding limbo_inv_def by (simp add: bitmap_clear_test [OF b]) auto
qed

lemma push_free_slots:
  assumes "limbo_inv L p" and "i \<in> L"
  shows "free_slots (push_free a p) = free_slots p @ [a]" "sl_free_top (pl_slots (push_free a p)) = sl_free_top (pl_slots p) + 1"
proof -
  have "sl_free_top (pl_slots p) < pl_capacity p" using room_for_acquired [OF assms(1), of i] limbo_simps(2) [OF assms] assms(2) by blast
  then have t: "sl_free_top (pl_slots p) < length (sl_free_list (pl_slots p))" "sl_free_top (pl_slots p) + 1 \<le> SIZE_MAX"
    using assms(1) by (auto simp: limbo_inv_def)
  then show "sl_free_top (pl_slots (push_free a p)) = sl_free_top (pl_slots p) + 1"
    by (simp add: push_free_def sz_add_exact)
  show "free_slots (push_free a p) = free_slots p @ [a]"
    using t by (simp add: push_free_def free_slots_def sz_add_exact take_Suc_update)
qed

lemma move_push_free:
  assumes "limbo_inv L p" and "i \<in> L"
  shows "limbo_inv (L - {i}) (push_free (slots_ptr_at p i) p)"
proof -
  note f = push_free_slots [OF assms]
  have i: "i < pl_capacity p" "\<not> acq p i" "\<not> pend p i" using assms by (auto simp: limbo_inv_def)
  have t: "sl_free_top (pl_slots p) + 1 \<le> pl_capacity p" using room_for_acquired [OF assms(1) i(1)] assms by simp
  have st: "sl_slot_stride (pl_slots (push_free (slots_ptr_at p i) p)) = sl_slot_stride (pl_slots p)"
    "length (sl_free_list (pl_slots (push_free (slots_ptr_at p i) p))) = length (sl_free_list (pl_slots p))"
    by (simp_all add: push_free_def)
  have new: "slots_ptr_at p i \<notin> set (free_slots p)" using assms ptr_inj [OF assms(1)] by (auto simp: limbo_inv_def)
  have "{j. j < pl_capacity p \<and> \<not> acq p j \<and> \<not> pend p j \<and> j \<notin> L - {i}} =
      insert i {j. j < pl_capacity p \<and> \<not> acq p j \<and> \<not> pend p j \<and> j \<notin> L}" using i by auto
  then show ?thesis using assms(1) t new unfolding limbo_inv_def by (simp add: f st)
qed

text \<open>Taking the top of the free list.\<close>

lemma move_pop_free:
  assumes "limbo_inv L p" and "0 < sl_free_top (pl_slots p)"
  defines "a \<equiv> sl_free_list (pl_slots p) ! (sl_free_top (pl_slots p) - 1)"
    and "q \<equiv> p\<lparr>pl_slots := (pl_slots p)\<lparr>sl_free_top := sl_free_top (pl_slots p) - 1\<rparr>\<rparr>"
  shows "\<exists>i. a = slots_ptr_at p i \<and> i < pl_capacity p \<and> \<not> acq p i \<and> \<not> pend p i \<and> limbo_inv (insert i L) q"
proof -
  obtain n where n: "sl_free_top (pl_slots p) = Suc n" using assms(2) by (cases "sl_free_top (pl_slots p)") auto
  have l: "n < length (sl_free_list (pl_slots p))" using assms(1) n by (auto simp: limbo_inv_def)
  have fs: "free_slots p = free_slots q @ [a]" using l by (simp add: free_slots_def q_def a_def n take_Suc_conv_app_nth)
  have S: "set (free_slots p) = slots_ptr_at p ` {i. i < pl_capacity p \<and> \<not> acq p i \<and> \<not> pend p i \<and> i \<notin> L}" "distinct (free_slots p)"
    using assms(1) by (simp_all add: limbo_inv_def)
  then obtain i where i: "a = slots_ptr_at p i" "i < pl_capacity p" "\<not> acq p i" "\<not> pend p i" "i \<notin> L" using fs by auto
  have fq: "pl_cfg q = pl_cfg p" "slots_ptr_at q = slots_ptr_at p" "sl_acquired_bitmap (pl_slots q) = sl_acquired_bitmap (pl_slots p)"
    "sl_pending_bitmap (pl_slots q) = sl_pending_bitmap (pl_slots p)" "sl_slot_stride (pl_slots q) = sl_slot_stride (pl_slots p)"
    "sl_free_list (pl_slots q) = sl_free_list (pl_slots p)" "sl_free_top (pl_slots q) = n"
    by (simp_all add: q_def slots_ptr_at_def fun_eq_iff n)
  have "set (free_slots q) = set (free_slots p) - {a}" using S(2) unfolding fs by auto
  also have "\<dots> = slots_ptr_at p ` {j. j < pl_capacity p \<and> \<not> acq p j \<and> \<not> pend p j \<and> j \<notin> insert i L}"
    using ptr_inj [OF assms(1)] unfolding S i(1) by auto
  finally have "limbo_inv (insert i L) q" using assms(1) i S(2) n unfolding limbo_inv_def fs by (simp add: fq)
  then show ?thesis using i by blast
qed

section \<open>The operations on slots\<close>

text \<open>How often a callback was called for a slot.\<close>

definition calls_of :: "pool_cb \<Rightarrow> nat \<Rightarrow> pool_call list \<Rightarrow> nat" where
  "calls_of cb a log = length (filter (\<lambda>c. fst c = cb \<and> snd (snd c) = a) log)"

lemma calls_of_simps [simp]:
  "calls_of cb a [] = 0" "calls_of cb a (xs @ ys) = calls_of cb a xs + calls_of cb a ys"
  "calls_of cb a (call b cb' p s) = (if b \<and> cb' = cb \<and> s = a then 1 else 0)"
  by (simp_all add: calls_of_def call_def)

lemma reap_first_None:
  "reap_first reusable p is = (None, p', log) \<Longrightarrow>
   p' = p \<and> (\<forall>i\<in>set is. pend p i \<longrightarrow> \<not> reusable (slots_ptr_at p i)) \<and> (\<forall>cb a. cb \<noteq> SLOT_REUSABLE \<longrightarrow> calls_of cb a log = 0)"
proof (induction "is" arbitrary: log)
  case (Cons i js)
  then show ?case by (auto simp: Let_def split: if_splits prod.splits)
qed simp

lemma reap_first_Some:
  "reap_first reusable p is = (Some c, p', log) \<Longrightarrow>
   \<exists>i\<in>set is. c = slots_ptr_at p i \<and> pend p i \<and> reusable c \<and>
     p' = set_pending (bitmap_clear (sl_pending_bitmap (pl_slots p)) i) p \<and>
     (\<forall>cb a. cb \<noteq> SLOT_REUSABLE \<longrightarrow> calls_of cb a log = (if cb = SLOT_REAP \<and> cf_slot_reap (pl_cfg p) \<and> a = c then 1 else 0))"
proof (induction "is" arbitrary: log)
  case (Cons i js)
  show ?case
  proof (cases "pend p i \<and> reusable (slots_ptr_at p i)")
    case True
    then show ?thesis using Cons.prems by (intro bexI [of _ i]) (auto simp: Let_def)
  next
    case False
    then obtain log' where "reap_first reusable p js = (Some c, p', log')"
      and "\<forall>cb a. cb \<noteq> SLOT_REUSABLE \<longrightarrow> calls_of cb a log = calls_of cb a log'"
      using Cons.prems by (auto simp: Let_def split: if_splits prod.splits)
    then show ?thesis using Cons.IH [of log'] by auto
  qed
qed simp

lemma acquire_None:
  assumes "slots_inv p" and "bb_pool_acquire reusable (Some p) = (None, p', log)"
  shows "p' = Some p \<and> sl_free_top (pl_slots p) = 0 \<and>
    (\<forall>i < pl_capacity p. pend p i \<longrightarrow> \<not> reusable (slots_ptr_at p i)) \<and> (\<forall>cb a. cb \<noteq> SLOT_REUSABLE \<longrightarrow> calls_of cb a log = 0)"
proof -
  note m = limbo_simps(1) [OF assms(1)]
  have t: "sl_free_top (pl_slots p) = 0"
    using assms(2) m by (auto simp: bb_pool_acquire_def Let_def split: if_splits)
  show ?thesis
  proof (cases "cf_slot_reusable (pl_cfg p)")
    case False
    then show ?thesis using assms m t by (auto simp: bb_pool_acquire_def limbo_inv_def)
  next
    case True
    then obtain q where "reap_first reusable p [0..<pl_capacity p] = (None, q, log)" "p' = Some q"
      using assms(2) m t by (auto simp: bb_pool_acquire_def Let_def split: prod.splits option.splits)
    then show ?thesis using reap_first_None [of reusable p _ q log] t by auto
  qed
qed

text \<open>Marking the slot on its way as acquired, the common end of both ways to find one.\<close>

lemma acquire_finish:
  assumes "limbo_inv {i} q" and "a = slots_ptr_at q i"
  shows "slots_index_of q a = Some i" "slots_inv (set_acquired (bitmap_set (sl_acquired_bitmap (pl_slots q)) i) q)"
    "acq (set_acquired (bitmap_set (sl_acquired_bitmap (pl_slots q)) i) q) j = (j = i \<or> acq q j)"
proof -
  have i: "i < pl_capacity q" using assms(1) by (simp add: limbo_inv_def)
  show "slots_index_of q a = Some i" using index_of_Some [OF assms(1)] i assms(2) by simp
  show "slots_inv (set_acquired (bitmap_set (sl_acquired_bitmap (pl_slots q)) i) q)" using move_set_acq [OF assms(1), of i] by simp
  show "acq (set_acquired (bitmap_set (sl_acquired_bitmap (pl_slots q)) i) q) j = (j = i \<or> acq q j)"
    using bitmap_set_test [OF limbo_simps(5) [OF assms(1) i]] by simp
qed

lemma acquire_Some:
  assumes "slots_inv p" and "bb_pool_acquire reusable (Some p) = (Some a, h, log)"
  shows "\<exists>i p'. h = Some p' \<and> i < pl_capacity p \<and> a = slots_ptr_at p i \<and> \<not> acq p i \<and> slots_inv p' \<and> same_pool p p' \<and>
    (\<forall>j. acq p' j = (j = i \<or> acq p j)) \<and> (\<forall>j < pl_capacity p. pend p' j = (j \<noteq> i \<and> pend p j)) \<and>
    (pend p i \<longrightarrow> sl_free_top (pl_slots p) = 0 \<and> reusable a) \<and>
    (\<forall>cb b. cb \<noteq> SLOT_REUSABLE \<longrightarrow> calls_of cb b log =
       (if b = a \<and> (cb = ON_ACQUIRE \<and> cf_on_acquire (pl_cfg p) \<or> cb = SLOT_REAP \<and> cf_slot_reap (pl_cfg p) \<and> pend p i) then 1 else 0))"
proof (cases "0 < sl_free_top (pl_slots p)")
  case True
  note m = limbo_simps(1) [OF assms(1)]
  define q where "q = p\<lparr>pl_slots := (pl_slots p)\<lparr>sl_free_top := sl_free_top (pl_slots p) - 1\<rparr>\<rparr>"
  obtain i where i: "sl_free_list (pl_slots p) ! (sl_free_top (pl_slots p) - 1) = slots_ptr_at p i" "i < pl_capacity p"
      "\<not> acq p i" "\<not> pend p i" "limbo_inv {i} q"
    using move_pop_free [OF assms(1) True] unfolding q_def by blast
  have q: "slots_ptr_at q = slots_ptr_at p" "pl_cfg q = pl_cfg p" "sl_acquired_bitmap (pl_slots q) = sl_acquired_bitmap (pl_slots p)"
    "sl_pending_bitmap (pl_slots q) = sl_pending_bitmap (pl_slots p)" "same_pool p q"
    by (simp_all add: q_def slots_ptr_at_def fun_eq_iff same_pool_def)
  let ?p' = "set_acquired (bitmap_set (sl_acquired_bitmap (pl_slots q)) i) q"
  have f: "slots_index_of q (slots_ptr_at p i) = Some i" "slots_inv ?p'" "\<And>j. acq ?p' j = (j = i \<or> acq q j)"
    using acquire_finish [OF i(5)] q(1) by auto
  have e: "bb_pool_acquire reusable (Some p) = (Some (slots_ptr_at p i), Some ?p', call (cf_on_acquire (pl_cfg p)) ON_ACQUIRE ?p' (slots_ptr_at p i))"
    using True m f(1) by (simp add: bb_pool_acquire_def Let_def i(1) q(2) del: One_nat_def flip: q_def)
  have "same_pool p ?p'" by (rule same_pool_trans [OF q(5)]) simp
  then show ?thesis using assms(2) i(2-4) f(2,3) unfolding e by (intro exI [of _ i] exI [of _ ?p']) (auto simp: q)
next
  case False
  note m = limbo_simps(1) [OF assms(1)]
  then have r: "cf_slot_reusable (pl_cfg p)" using False assms(2) by (auto simp: bb_pool_acquire_def split: if_splits)
  obtain q log1 where rf: "reap_first reusable p [0..<pl_capacity p] = (Some a, q, log1)"
    and h: "h = Some (case slots_index_of q a of None \<Rightarrow> q | Some idx \<Rightarrow> set_acquired (bitmap_set (sl_acquired_bitmap (pl_slots q)) idx) q)"
    and l: "\<And>cb b. calls_of cb b log = calls_of cb b log1 + (if cf_on_acquire (pl_cfg q) \<and> ON_ACQUIRE = cb \<and> a = b then 1 else 0)"
    using assms(2) False m r
    by (auto simp: bb_pool_acquire_def Let_def split: prod.splits option.splits)
  then obtain i where i: "i < pl_capacity p" "a = slots_ptr_at p i" "pend p i" "reusable a"
      "q = set_pending (bitmap_clear (sl_pending_bitmap (pl_slots p)) i) p"
    and l1: "\<forall>cb b. cb \<noteq> SLOT_REUSABLE \<longrightarrow> calls_of cb b log1 = (if cb = SLOT_REAP \<and> cf_slot_reap (pl_cfg p) \<and> b = a then 1 else 0)"
    using reap_first_Some [OF rf] by auto
  have na: "\<not> acq p i" using assms(1) i(1,3) by (auto simp: limbo_inv_def)
  have lq: "limbo_inv {i} q" using move_clear_pend [OF assms(1) i(1,3)] i(5) by simp
  let ?p' = "set_acquired (bitmap_set (sl_acquired_bitmap (pl_slots q)) i) q"
  have f: "slots_index_of q a = Some i" "slots_inv ?p'" "\<And>j. acq ?p' j = (j = i \<or> acq q j)"
    using acquire_finish [OF lq] i(2,5) by auto
  have "same_pool p ?p'" by (rule same_pool_trans [of p q]) (simp_all add: i(5))
  moreover have "pend ?p' j = (j \<noteq> i \<and> pend p j)" for j
    using bitmap_clear_test [OF limbo_simps(6) [OF assms(1) i(1)]] by (simp add: i(5))
  moreover have "acq q j = acq p j" for j by (simp add: i(5))
  moreover have "pl_cfg q = pl_cfg p" by (simp add: i(5))
  ultimately show ?thesis using h f i(1-4) na False l l1 by (intro exI [of _ i] exI [of _ ?p']) auto
qed

text \<open>The outcomes of a release.\<close>

lemma release_cases:
  assumes inv: "slots_inv p" and e: "bb_pool_release (Some p) (Some a) = (e, h, log)"
  shows "(\<exists>i p'. i < pl_capacity p \<and> a = slots_ptr_at p i \<and> acq p i \<and> e = BB_OK \<and> h = Some p' \<and> slots_inv p' \<and> same_pool p p' \<and>
      (\<forall>j. acq p' j = (j \<noteq> i \<and> acq p j)) \<and> (\<forall>j. pend p' j = (cf_slot_reusable (pl_cfg p) \<and> j = i \<or> pend p j)) \<and>
      (\<forall>cb b. calls_of cb b log = (if cb = ON_RELEASE \<and> cf_on_release (pl_cfg p) \<and> b = a then 1 else 0))) \<or>
    (\<forall>i < pl_capacity p. a = slots_ptr_at p i \<longrightarrow> \<not> acq p i) \<and> h = Some p \<and> log = [] \<and>
      e = (if \<exists>i < pl_capacity p. a = slots_ptr_at p i then BB_ERR_INVALID_STATE else BB_ERR_INVALID_ARG)"
proof (cases "slots_index_of p a")
  case None
  then show ?thesis using e limbo_simps(1) [OF inv] index_of_None [OF inv, of a] by (auto simp: bb_pool_release_def)
next
  case (Some i)
  then have i: "i < pl_capacity p" "a = slots_ptr_at p i" using index_of_Some [OF inv] by auto
  show ?thesis
  proof (cases "acq p i")
    case False
    then show ?thesis using e limbo_simps(1) [OF inv] Some i ptr_inj [OF inv] by (auto simp: bb_pool_release_def)
  next
    case True
    define q where "q = set_acquired (bitmap_clear (sl_acquired_bitmap (pl_slots p)) i) p"
    have lq: "limbo_inv {i} q" using move_clear_acq [OF inv i(1) True] by (simp add: q_def)
    have aq: "acq q j = (j \<noteq> i \<and> acq p j)" for j
      using bitmap_clear_test [OF limbo_simps(5) [OF inv i(1)]] by (simp add: q_def)
    have fq: "pl_cfg q = pl_cfg p" "sl_pending_bitmap (pl_slots q) = sl_pending_bitmap (pl_slots p)" "slots_ptr_at q = slots_ptr_at p" "same_pool p q"
      by (simp_all add: q_def)
    have room: "\<not> sl_free_top (pl_slots p) \<ge> pl_capacity p" using room_for_acquired [OF inv i(1)] True by simp
    show ?thesis
    proof (cases "cf_slot_reusable (pl_cfg p)")
      case r: True
      let ?p' = "set_pending (bitmap_set (sl_pending_bitmap (pl_slots q)) i) q"
      have "slots_inv ?p'" using move_set_pend [OF lq, of i] r fq by simp
      moreover have "pend ?p' j = (j = i \<or> pend p j)" for j
        using bitmap_set_test [OF limbo_simps(6) [OF inv i(1)]] by (simp add: fq)
      moreover have "same_pool p ?p'" by (rule same_pool_trans [OF fq(4)]) simp
      moreover have "bb_pool_release (Some p) (Some a) = (BB_OK, Some ?p', call (cf_on_release (pl_cfg p)) ON_RELEASE q a)"
        using limbo_simps(1) [OF inv] Some True r by (simp add: bb_pool_release_def fq Let_def flip: q_def)
      ultimately have "h = Some ?p'" "e = BB_OK" "log = call (cf_on_release (pl_cfg p)) ON_RELEASE q a" "slots_inv ?p'" "same_pool p ?p'"
        "\<forall>j. pend ?p' j = (cf_slot_reusable (pl_cfg p) \<and> j = i \<or> pend p j)" "\<forall>j. acq ?p' j = (j \<noteq> i \<and> acq p j)"
        using e r aq by simp_all
      then show ?thesis using i True by (intro disjI1 exI [of _ i] exI [of _ ?p']) simp
    next
      case r: False
      let ?p' = "push_free (slots_ptr_at p i) q"
      have "slots_inv ?p'" using move_push_free [OF lq, of i] fq by simp
      moreover have "same_pool p ?p'" by (rule same_pool_trans [OF fq(4)]) simp
      moreover have "bb_pool_release (Some p) (Some a) = (BB_OK, Some ?p', call (cf_on_release (pl_cfg p)) ON_RELEASE q a)"
        using limbo_simps(1) [OF inv] Some True r room i(2) by (simp add: bb_pool_release_def fq Let_def flip: q_def)
      ultimately have "h = Some ?p'" "e = BB_OK" "log = call (cf_on_release (pl_cfg p)) ON_RELEASE q a" "slots_inv ?p'" "same_pool p ?p'"
        "\<forall>j. pend ?p' j = (cf_slot_reusable (pl_cfg p) \<and> j = i \<or> pend p j)" "\<forall>j. acq ?p' j = (j \<noteq> i \<and> acq p j)"
        using e r aq fq by simp_all
      then show ?thesis using i True by (intro disjI1 exI [of _ i] exI [of _ ?p']) simp
    qed
  qed
qed

text \<open>A reaping pass over some slots.\<close>

lemma reap_all_effect:
  assumes "slots_inv p" and "distinct is" and "set is \<subseteq> {..<pl_capacity p}" and "reap_all reusable p is = (n, p', log)"
  shows "slots_inv p' \<and> same_pool p p' \<and> (\<forall>j. acq p' j = acq p j) \<and>
    (\<forall>j < pl_capacity p. pend p' j = (pend p j \<and> \<not> (j \<in> set is \<and> reusable (slots_ptr_at p j)))) \<and>
    (\<forall>j < pl_capacity p. \<forall>cb. cb \<noteq> SLOT_REUSABLE \<longrightarrow> calls_of cb (slots_ptr_at p j) log =
       (if cb = SLOT_REAP \<and> cf_slot_reap (pl_cfg p) \<and> j \<in> set is \<and> pend p j \<and> reusable (slots_ptr_at p j) then 1 else 0)) \<and>
    n = length (filter (\<lambda>j. pend p j \<and> reusable (slots_ptr_at p j)) is)"
  using assms
proof (induction "is" arbitrary: p n p' log)
  case (Cons i js)
  note inv = Cons.prems(1)
  have i: "i < pl_capacity p" "i \<notin> set js" and js: "distinct js" "set js \<subseteq> {..<pl_capacity p}" using Cons.prems(2,3) by auto
  show ?case
  proof (cases "pend p i \<and> reusable (slots_ptr_at p i)")
    case False
    then obtain log' where r: "reap_all reusable p js = (n, p', log')"
      and l: "\<forall>cb a. cb \<noteq> SLOT_REUSABLE \<longrightarrow> calls_of cb a log = calls_of cb a log'"
      using Cons.prems(4) by (auto simp: Let_def split: if_splits prod.splits)
    show ?thesis using Cons.IH [OF inv js r] l False i(2) by auto
  next
    case True
    define q where "q = set_pending (bitmap_clear (sl_pending_bitmap (pl_slots p)) i) p"
    define p1 where "p1 = push_free (slots_ptr_at p i) q"
    have lq: "limbo_inv {i} q" using move_clear_pend [OF inv i(1)] True by (simp add: q_def)
    have fq: "slots_ptr_at q = slots_ptr_at p" "pl_cfg q = pl_cfg p" by (simp_all add: q_def)
    have inv1: "slots_inv p1" using move_push_free [OF lq, of i] fq by (simp add: p1_def)
    have f1: "same_pool p p1" "pl_cfg p1 = pl_cfg p" "slots_ptr_at p1 = slots_ptr_at p" "\<And>j. acq p1 j = acq p j"
      by (simp_all add: p1_def q_def) (simp add: same_pool_def set_pending_def push_free_def)
    have pd: "pend p1 j = (j \<noteq> i \<and> pend p j)" for j
      using bitmap_clear_test [OF limbo_simps(6) [OF inv i(1)]] by (simp add: p1_def q_def)
    obtain n' log' where r: "reap_all reusable p1 js = (n', p', log')"
      and l: "n = n' + 1" "log = call True SLOT_REUSABLE p (slots_ptr_at p i) @ call (cf_slot_reap (pl_cfg p)) SLOT_REAP p (slots_ptr_at p i) @ log'"
      using Cons.prems(4) True by (auto simp: Let_def p1_def q_def split: prod.splits)
    have js1: "set js \<subseteq> {..<pl_capacity p1}" using js(2) by (simp add: f1(2))
    note ih = Cons.IH [OF inv1 js(1) js1 r, unfolded f1(2-4) pd]
    have "filter (\<lambda>j. (j \<noteq> i \<and> pend p j) \<and> reusable (slots_ptr_at p j)) js = filter (\<lambda>j. pend p j \<and> reusable (slots_ptr_at p j)) js"
      using i(2) by (intro filter_cong) auto
    then have n: "n = length (filter (\<lambda>j. pend p j \<and> reusable (slots_ptr_at p j)) (i # js))" using ih l(1) True by simp
    have s: "same_pool p p'" using same_pool_trans [OF f1(1)] ih by blast
    have c: "calls_of cb (slots_ptr_at p j) log = (if cb = SLOT_REAP \<and> cf_slot_reap (pl_cfg p) \<and> j \<in> set (i # js) \<and> pend p j \<and>
        reusable (slots_ptr_at p j) then 1 else 0)" if "j < pl_capacity p" "cb \<noteq> SLOT_REUSABLE" for j cb
    proof -
      have "calls_of cb (slots_ptr_at p j) log' = (if cb = SLOT_REAP \<and> cf_slot_reap (pl_cfg p) \<and> j \<in> set js \<and> (j \<noteq> i \<and> pend p j) \<and>
        reusable (slots_ptr_at p j) then 1 else 0)" using ih that by blast
      then show ?thesis using True i(2) that(2) ptr_inj [OF inv] by (cases "j = i") (auto simp: l(2))
    qed
    have "pend p' j = (pend p j \<and> \<not> (j \<in> set (i # js) \<and> reusable (slots_ptr_at p j)))" if "j < pl_capacity p" for j
      using ih that True by (cases "j = i") auto
    then show ?thesis using ih s c n by simp
  qed
qed simp

section \<open>A pool in use\<close>

text \<open>A client of a pool: what it holds (every pointer an acquire returned and no release accepted), and all callback calls.\<close>

datatype pool_op = Acquire "nat \<Rightarrow> bool" | Release nat | ReapReady "nat \<Rightarrow> bool"

fun pool_step :: "bb_pool \<times> nat list \<times> pool_call list \<Rightarrow> pool_op \<Rightarrow> bb_pool \<times> nat list \<times> pool_call list" where
  "pool_step (p, out, log) (Acquire reusable) =
     (case bb_pool_acquire reusable (Some p) of
        (r, h, l) \<Rightarrow> (the_default p h, (case r of None \<Rightarrow> out | Some a \<Rightarrow> out @ [a]), log @ l))"
| "pool_step (p, out, log) (Release a) =
     (case bb_pool_release (Some p) (Some a) of
        (e, h, l) \<Rightarrow> (the_default p h, (if e = BB_OK then remove1 a out else out), log @ l))"
| "pool_step (p, out, log) (ReapReady reusable) =
     (case bb_pool_slots_reap_ready reusable (Some p) of (_, h, l) \<Rightarrow> (the_default p h, out, log @ l))"

definition pool_run :: "bb_pool \<Rightarrow> pool_op list \<Rightarrow> bb_pool \<times> nat list \<times> pool_call list" where
  "pool_run p ops = foldl pool_step (p, [], []) ops"

definition b2n :: "bool \<Rightarrow> nat" where "b2n b = (if b then 1 else 0)"

definition balanced :: "bb_pool \<Rightarrow> pool_call list \<Rightarrow> bool" where
  "balanced p log \<longleftrightarrow> (\<forall>i < pl_capacity p.
     (cf_on_acquire (pl_cfg p) \<and> cf_on_release (pl_cfg p) \<longrightarrow>
        calls_of ON_ACQUIRE (slots_ptr_at p i) log = calls_of ON_RELEASE (slots_ptr_at p i) log + b2n (acq p i)) \<and>
     (cf_on_release (pl_cfg p) \<and> cf_slot_reusable (pl_cfg p) \<and> cf_slot_reap (pl_cfg p) \<longrightarrow>
        calls_of ON_RELEASE (slots_ptr_at p i) log = calls_of SLOT_REAP (slots_ptr_at p i) log + b2n (pend p i)))"

definition in_use :: "bb_pool \<Rightarrow> bb_pool \<times> nat list \<times> pool_call list \<Rightarrow> bool" where
  "in_use p0 x \<longleftrightarrow> (case x of (p, out, log) \<Rightarrow> slots_inv p \<and> same_pool p0 p \<and> distinct out \<and>
     set out = slots_ptr_at p ` {i. i < pl_capacity p \<and> acq p i} \<and> balanced p log)"

text \<open>A step keeps the balance when, slot by slot, its calls account for the change of place.\<close>

lemma balanced_step:
  assumes "balanced p log" and "same_pool p p'"
    and "\<And>i. i < pl_capacity p \<Longrightarrow> cf_on_acquire (pl_cfg p) \<Longrightarrow> cf_on_release (pl_cfg p) \<Longrightarrow>
      calls_of ON_ACQUIRE (slots_ptr_at p i) l + b2n (acq p i) = calls_of ON_RELEASE (slots_ptr_at p i) l + b2n (acq p' i)"
    and "\<And>i. i < pl_capacity p \<Longrightarrow> cf_on_release (pl_cfg p) \<Longrightarrow> cf_slot_reusable (pl_cfg p) \<Longrightarrow> cf_slot_reap (pl_cfg p) \<Longrightarrow>
      calls_of ON_RELEASE (slots_ptr_at p i) l + b2n (pend p i) = calls_of SLOT_REAP (slots_ptr_at p i) l + b2n (pend p' i)"
  shows "balanced p' (log @ l)"
proof -
  have f: "pl_cfg p' = pl_cfg p" "slots_ptr_at p' = slots_ptr_at p" by (rule same_pool_fields [OF assms(2)])+
  show ?thesis unfolding balanced_def f calls_of_simps
  proof (intro allI impI conjI)
    fix i assume "i < pl_capacity p" "cf_on_acquire (pl_cfg p) \<and> cf_on_release (pl_cfg p)"
    then have "calls_of ON_ACQUIRE (slots_ptr_at p i) log = calls_of ON_RELEASE (slots_ptr_at p i) log + b2n (acq p i)"
      "calls_of ON_ACQUIRE (slots_ptr_at p i) l + b2n (acq p i) = calls_of ON_RELEASE (slots_ptr_at p i) l + b2n (acq p' i)"
      using assms(1,3) by (auto simp: balanced_def)
    then show "calls_of ON_ACQUIRE (slots_ptr_at p i) log + calls_of ON_ACQUIRE (slots_ptr_at p i) l =
        calls_of ON_RELEASE (slots_ptr_at p i) log + calls_of ON_RELEASE (slots_ptr_at p i) l + b2n (acq p' i)" by linarith
  next
    fix i assume "i < pl_capacity p" "cf_on_release (pl_cfg p) \<and> cf_slot_reusable (pl_cfg p) \<and> cf_slot_reap (pl_cfg p)"
    then have "calls_of ON_RELEASE (slots_ptr_at p i) log = calls_of SLOT_REAP (slots_ptr_at p i) log + b2n (pend p i)"
      "calls_of ON_RELEASE (slots_ptr_at p i) l + b2n (pend p i) = calls_of SLOT_REAP (slots_ptr_at p i) l + b2n (pend p' i)"
      using assms(1,4) by (auto simp: balanced_def)
    then show "calls_of ON_RELEASE (slots_ptr_at p i) log + calls_of ON_RELEASE (slots_ptr_at p i) l =
        calls_of SLOT_REAP (slots_ptr_at p i) log + calls_of SLOT_REAP (slots_ptr_at p i) l + b2n (pend p' i)" by linarith
  qed
qed

lemma acquire_in_use: "in_use p0 x \<Longrightarrow> in_use p0 (pool_step x (Acquire reusable))"
proof -
  assume u: "in_use p0 x"
  obtain p out log where x: "x = (p, out, log)" by (cases x)
  have inv: "slots_inv p" and s0: "same_pool p0 p" and d: "distinct out"
    and so: "set out = slots_ptr_at p ` {i. i < pl_capacity p \<and> acq p i}" and b: "balanced p log"
    using u by (simp_all add: in_use_def x)
  obtain r h l where a: "bb_pool_acquire reusable (Some p) = (r, h, l)" by (cases "bb_pool_acquire reusable (Some p)")
  show ?thesis
  proof (cases r)
    case None
    note n = acquire_None [OF inv a [unfolded None]]
    then have "balanced p (log @ l)" using b by (simp add: balanced_def)
    then show ?thesis using n inv s0 d so by (simp add: x a None in_use_def the_default_def)
  next
    case (Some c)
    obtain i p' where h: "h = Some p'" and i: "i < pl_capacity p" "c = slots_ptr_at p i" "\<not> acq p i"
      and p': "slots_inv p'" "same_pool p p'" and aq: "\<forall>j. acq p' j = (j = i \<or> acq p j)"
      and pd: "\<forall>j < pl_capacity p. pend p' j = (j \<noteq> i \<and> pend p j)"
      and cl: "\<forall>cb b. cb \<noteq> SLOT_REUSABLE \<longrightarrow> calls_of cb b l = (if b = c \<and> (cb = ON_ACQUIRE \<and> cf_on_acquire (pl_cfg p) \<or>
          cb = SLOT_REAP \<and> cf_slot_reap (pl_cfg p) \<and> pend p i) then 1 else 0)"
      using acquire_Some [OF inv a [unfolded Some]] by blast
    have f: "pl_cfg p' = pl_cfg p" "slots_ptr_at p' = slots_ptr_at p" by (rule same_pool_fields [OF p'(2)])+
    have new: "c \<notin> set out" using i ptr_inj [OF inv] by (auto simp: so)
    have so': "set (out @ [c]) = slots_ptr_at p' ` {j. j < pl_capacity p' \<and> acq p' j}" using aq i(1) by (auto simp: so f i(2))
    have "balanced p' (log @ l)"
      by (rule balanced_step [OF b p'(2)]) (use i(3) aq pd in \<open>auto simp: cl b2n_def i(2) ptr_inj [OF inv]\<close>)
    then show ?thesis using p' so' new d same_pool_trans [OF s0 p'(2)] by (simp add: x a Some h in_use_def the_default_def)
  qed
qed

lemma release_in_use: "in_use p0 x \<Longrightarrow> in_use p0 (pool_step x (Release a))"
proof -
  assume u: "in_use p0 x"
  obtain p out log where x: "x = (p, out, log)" by (cases x)
  have inv: "slots_inv p" and s0: "same_pool p0 p" and d: "distinct out"
    and so: "set out = slots_ptr_at p ` {i. i < pl_capacity p \<and> acq p i}" and b: "balanced p log"
    using u by (simp_all add: in_use_def x)
  obtain e h l where r: "bb_pool_release (Some p) (Some a) = (e, h, l)" by (cases "bb_pool_release (Some p) (Some a)")
  from release_cases [OF inv r] show ?thesis
  proof (elim disjE exE conjE)
    fix i p'
    assume i: "i < pl_capacity p" "a = slots_ptr_at p i" "acq p i" and e: "e = BB_OK" "h = Some p'"
      and p': "slots_inv p'" "same_pool p p'" and aq: "\<forall>j. acq p' j = (j \<noteq> i \<and> acq p j)"
      and pd: "\<forall>j. pend p' j = (cf_slot_reusable (pl_cfg p) \<and> j = i \<or> pend p j)"
      and cl: "\<forall>cb b. calls_of cb b l = (if cb = ON_RELEASE \<and> cf_on_release (pl_cfg p) \<and> b = a then 1 else 0)"
    have f: "pl_cfg p' = pl_cfg p" "slots_ptr_at p' = slots_ptr_at p" by (rule same_pool_fields [OF p'(2)])+
    have np: "\<not> pend p i" using inv i by (auto simp: limbo_inv_def)
    have so': "set (remove1 a out) = slots_ptr_at p' ` {j. j < pl_capacity p' \<and> acq p' j}"
      using aq ptr_inj [OF inv] d by (auto simp: so f i(2))
    have "balanced p' (log @ l)"
      by (rule balanced_step [OF b p'(2)]) (use i(3) aq pd np in \<open>auto simp: cl b2n_def i(2) ptr_inj [OF inv]\<close>)
    then show ?thesis using p' so' d same_pool_trans [OF s0 p'(2)] by (simp add: x r e in_use_def the_default_def)
  next
    assume h: "h = Some p" "l = []" and e: "e = (if \<exists>i < pl_capacity p. a = slots_ptr_at p i then BB_ERR_INVALID_STATE else BB_ERR_INVALID_ARG)"
    then have "e \<noteq> BB_OK" by auto
    then show ?thesis using u by (simp add: x r h in_use_def the_default_def)
  qed
qed

lemma reap_in_use: "in_use p0 x \<Longrightarrow> in_use p0 (pool_step x (ReapReady reusable))"
proof -
  assume u: "in_use p0 x"
  obtain p out log where x: "x = (p, out, log)" by (cases x)
  have inv: "slots_inv p" and s0: "same_pool p0 p" and d: "distinct out"
    and so: "set out = slots_ptr_at p ` {i. i < pl_capacity p \<and> acq p i}" and b: "balanced p log"
    using u by (simp_all add: in_use_def x)
  show ?thesis
  proof (cases "cf_slot_reusable (pl_cfg p)")
    case False
    then show ?thesis using u by (simp add: x bb_pool_slots_reap_ready_def the_default_def)
  next
    case True
    obtain n p' l where r: "reap_all reusable p [0..<pl_capacity p] = (n, p', l)" by (cases "reap_all reusable p [0..<pl_capacity p]")
    have sub: "set [0..<pl_capacity p] \<subseteq> {..<pl_capacity p}" by auto
    note e = reap_all_effect [OF inv distinct_upt sub r]
    then have p': "slots_inv p'" "same_pool p p'" "\<forall>j. acq p' j = acq p j" by simp_all
    have f: "pl_cfg p' = pl_cfg p" "slots_ptr_at p' = slots_ptr_at p" by (rule same_pool_fields [OF p'(2)])+
    have "balanced p' (log @ l)" by (rule balanced_step [OF b p'(2)]) (use e in \<open>auto simp: b2n_def\<close>)
    then show ?thesis using p' so d same_pool_trans [OF s0 p'(2)] True limbo_simps(1) [OF inv]
      by (simp add: x r in_use_def the_default_def bb_pool_slots_reap_ready_def f)
  qed
qed

lemma run_in_use: "in_use p0 x \<Longrightarrow> in_use p0 (foldl pool_step x ops)"
proof (induction ops arbitrary: x)
  case (Cons op ops)
  then show ?case using acquire_in_use release_in_use reap_in_use by (cases op) auto
qed simp

text \<open>A freshly created pool: every slot free.\<close>

lemma pool_create_slots:
  assumes sz: "cfg_sized c" and m: "cf_mode c = BB_POOL_MODE_SLOTS"
    and cr: "bb_pool_create raw (Some c) (Some a) True = (BB_OK, h, Some p)"
  shows "slots_inv p \<and> pl_cfg p = c \<and> sl_slot_stride (pl_slots p) = round16 (cf_max_slot_bytes c) \<and> (\<forall>i < cf_capacity c. \<not> acq p i \<and> \<not> pend p i)"
proof -
  let ?cap = "cf_capacity c" and ?max = "cf_max_slot_bytes c"
  have pos: "0 < ?cap" "0 < ?max" and need: "bb_pool_arena_size_needed (Some c) \<noteq> 0"
    using cr m by (auto simp: bb_pool_create_def Let_def split: if_splits)
  then have pb: "pool_bytes c \<le> SIZE_MAX" using size_needed_eq [OF sz] by (simp split: if_splits)
  then have "?cap * round16 ?max \<le> SIZE_MAX - 100" "?cap * 8 \<le> SIZE_MAX - 100"
    using round16_bounds(1) [of "?cap * 8"] m by (auto simp: pool_bytes_def Let_def)
  note s = stride_exact [OF pos(1) this(1)] and c8 = this(2)
  have c7: "?cap + 7 \<le> SIZE_MAX" using c8 by (simp add: SIZE_MAX_def)
  have bm: "?cap \<le> 8 * align_up (bitmap_bytes_for ?cap)"
  proof -
    have "bitmap_bytes_for ?cap = (?cap + 7) div 8" "(?cap + 7) div 8 + 15 \<le> SIZE_MAX"
      using c7 by (auto simp: bitmap_bytes_for_def add_ovf_eq SIZE_MAX_def)
    then have "align_up (bitmap_bytes_for ?cap) = round16 ((?cap + 7) div 8)" by (simp add: align_up_eq)
    then show ?thesis using round16_bounds(1) [of "(?cap + 7) div 8"] by linarith
  qed
  obtain q h1 where cs: "create_slots (pool_fresh c q) h1 = (BB_OK, h, Some p)"
    using cr m pos by (auto simp: bb_pool_create_def Let_def split: if_splits prod.splits option.splits)
  define p0 where "p0 = pool_fresh c q"
  have p0: "pl_cfg p0 = c" by (simp add: p0_def pool_fresh_def)
  note cs = cs [folded p0_def]
  obtain st where p: "p = p0\<lparr>pl_slots := \<lparr> sl_storage = st, sl_slot_stride = round16 ?max,
      sl_free_list = map (\<lambda>i. st + i * round16 ?max) [0..<?cap], sl_free_top = ?cap,
      sl_acquired_bitmap = replicate (align_up (bitmap_bytes_for ?cap)) 0,
      sl_pending_bitmap = replicate (align_up (bitmap_bytes_for ?cap)) 0 \<rparr>\<rparr>"
    using cs by (auto simp: create_slots_def Let_def p0 s split: prod.splits option.splits)
  have z: "\<not> acq p i" "\<not> pend p i" if "i < ?cap" for i using that bm by (simp_all add: p bitmap_zero)
  have fs: "free_slots p = map (\<lambda>i. st + i * round16 ?max) [0..<?cap]" by (simp add: free_slots_def p)
  have sp: "slots_ptr_at p = (\<lambda>i. st + i * round16 ?max)" by (rule ext) (simp add: slots_ptr_at_def p)
  have "set (free_slots p) = slots_ptr_at p ` {i. i < ?cap \<and> \<not> acq p i \<and> \<not> pend p i \<and> i \<notin> {}}"
    using z unfolding fs sp by auto
  moreover have "distinct (free_slots p)" using round16_pos [OF pos(2)] by (simp add: fs distinct_map inj_on_def)
  ultimately have "slots_inv p" using z pos bm m c8 round16_pos [OF pos(2)]
    unfolding limbo_inv_def by (simp add: p p0 SIZE_MAX_def)
  then show ?thesis using z by (simp add: p p0)
qed

lemma created_in_use:
  assumes "cfg_sized c" and "cf_mode c = BB_POOL_MODE_SLOTS" and "bb_pool_create raw (Some c) (Some a) True = (BB_OK, h, Some p)"
  shows "in_use p (pool_run p ops)"
proof -
  have "in_use p (p, [], [])" using pool_create_slots [OF assms] by (auto simp: in_use_def balanced_def b2n_def)
  then show ?thesis unfolding pool_run_def by (rule run_in_use)
qed

lemma in_use_counts:
  assumes "in_use p0 (p, out, log)"
  shows "sl_free_top (pl_slots p) + bb_pool_slots_pending_count (Some p) + bb_pool_slots_acquired_count (Some p) = pl_capacity p"
    and "length out = bb_pool_slots_acquired_count (Some p)"
proof -
  have inv: "slots_inv p" and d: "distinct out" and so: "set out = slots_ptr_at p ` {i. i < pl_capacity p \<and> acq p i}"
    using assms by (simp_all add: in_use_def)
  let ?F = "{i. i < pl_capacity p \<and> \<not> acq p i \<and> \<not> pend p i}" and ?A = "{i. i < pl_capacity p \<and> acq p i}" and ?P = "{i. i < pl_capacity p \<and> pend p i}"
  have cnt: "length (filter Q [0..<n]) = card {i. i < n \<and> Q i}" for Q and n :: nat
    using distinct_card [of "filter Q [0..<n]"] by (simp add: conj_commute)
  have a: "bb_pool_slots_acquired_count (Some p) = card ?A" "bb_pool_slots_pending_count (Some p) = card ?P"
    using limbo_simps(1) [OF inv] by (simp_all add: bb_pool_slots_acquired_count_def bb_pool_slots_pending_count_def cnt)
  have dj: "?F \<inter> ?P = {}" "(?F \<union> ?P) \<inter> ?A = {}" using inv by (auto simp: limbo_inv_def)
  have "card (?F \<union> ?P \<union> ?A) = card ?F + card ?P + card ?A"
    using card_Un_disjoint [OF _ _ dj(2)] card_Un_disjoint [OF _ _ dj(1)] by simp
  moreover have "?F \<union> ?P \<union> ?A = {..<pl_capacity p}" by auto
  ultimately show "sl_free_top (pl_slots p) + bb_pool_slots_pending_count (Some p) + bb_pool_slots_acquired_count (Some p) = pl_capacity p"
    using free_count [OF inv] a by simp
  have "length out = card (set out)" using distinct_card [OF d] by simp
  also have "\<dots> = card ?A" unfolding so using ptr_inj [OF inv] by (intro card_image) (simp add: inj_on_def)
  finally show "length out = bb_pool_slots_acquired_count (Some p)" using a by simp
qed

text \<open>C17: no slot is lent twice and none is lost. After any sequence of acquires, releases (of any pointer) and
  reaping passes on a created pool, the pointers its callers hold are pairwise different slots of the pool,
  the free, pending and acquired slots add up to the capacity, and the next acquire returns a slot nobody holds; it
  returns NULL exactly when no slot is free and no pending slot is reusable.\<close>
theorem pool_lends_each_slot_once:
  assumes "cfg_sized c" and "cf_mode c = BB_POOL_MODE_SLOTS" and "bb_pool_create raw (Some c) (Some a) True = (BB_OK, h, Some p0)"
    and run: "pool_run p0 ops = (p, out, log)" and acquire: "bb_pool_acquire reusable (Some p) = (r, h', log')"
  shows "distinct out \<and>
    (\<forall>x\<in>set out. \<exists>i < cf_capacity c. x = sl_storage (pl_slots p0) + i * round16 (cf_max_slot_bytes c)) \<and>
    sl_free_top (pl_slots p) + bb_pool_slots_pending_count (Some p) + bb_pool_slots_acquired_count (Some p) = cf_capacity c \<and>
    length out = bb_pool_slots_acquired_count (Some p) \<and>
    (r = None \<longleftrightarrow> sl_free_top (pl_slots p) = 0 \<and> (\<forall>i < cf_capacity c. pend p i \<longrightarrow> \<not> reusable (slots_ptr_at p i))) \<and>
    (\<forall>x. r = Some x \<longrightarrow> x \<notin> set out \<and> (\<exists>i < cf_capacity c. x = sl_storage (pl_slots p0) + i * round16 (cf_max_slot_bytes c)))"
proof -
  have u: "in_use p0 (p, out, log)" using created_in_use [OF assms(1-3), of ops] run by simp
  then have inv: "slots_inv p" and s: "same_pool p0 p" and d: "distinct out" and so: "set out = slots_ptr_at p ` {i. i < pl_capacity p \<and> acq p i}"
    by (simp_all add: in_use_def)
  have c: "pl_cfg p0 = c" "sl_slot_stride (pl_slots p0) = round16 (cf_max_slot_bytes c)" using pool_create_slots [OF assms(1-3)] by simp_all
  have f: "pl_cfg p = c" "slots_ptr_at p = (\<lambda>i. sl_storage (pl_slots p0) + i * round16 (cf_max_slot_bytes c))"
    using s c by (simp_all add: same_pool_def slots_ptr_at_def fun_eq_iff)
  have slots: "\<forall>x\<in>set out. \<exists>i < cf_capacity c. x = sl_storage (pl_slots p0) + i * round16 (cf_max_slot_bytes c)"
    unfolding so f by auto
  note counts = in_use_counts [OF u, unfolded f(1)]
  show ?thesis
  proof (cases r)
    case None
    from acquire_None [OF inv acquire [unfolded None]] show ?thesis using d slots counts None f(1) by simp
  next
    case (Some x)
    from acquire_Some [OF inv acquire [unfolded Some]] obtain i where i: "i < cf_capacity c" "x = slots_ptr_at p i" "\<not> acq p i"
      "pend p i \<longrightarrow> sl_free_top (pl_slots p) = 0 \<and> reusable x" by (auto simp: f(1))
    have "x \<notin> set out" using i ptr_inj [OF inv] by (auto simp: so)
    moreover have "\<not> (sl_free_top (pl_slots p) = 0 \<and> (\<forall>j < cf_capacity c. pend p j \<longrightarrow> \<not> reusable (slots_ptr_at p j)))"
    proof
      assume z: "sl_free_top (pl_slots p) = 0 \<and> (\<forall>j < cf_capacity c. pend p j \<longrightarrow> \<not> reusable (slots_ptr_at p j))"
      then have "\<not> pend p i" using i by auto
      then have "i \<in> {j. j < pl_capacity p \<and> \<not> acq p j \<and> \<not> pend p j \<and> j \<notin> {}}" using i by (simp add: f(1))
      then have "0 < card {j. j < pl_capacity p \<and> \<not> acq p j \<and> \<not> pend p j \<and> j \<notin> {}}" by (subst card_gt_0_iff) auto
      then show False using free_count [OF inv] conjunct1 [OF z] by linarith
    qed
    ultimately show ?thesis using d slots counts Some i(1,2) by (auto simp: f(2))
  qed
qed

text \<open>Only what is on loan can be released. In any reachable state a release succeeds exactly for a pointer its
  caller holds. A second release of the same pointer, a pointer into the middle of a slot or from elsewhere is
  refused, with the error the header documents, no callback and no change of the pool; the guard against a corrupt free
  list is never what refuses it.\<close>
theorem pool_release_only_loans:
  assumes "cfg_sized c" and "cf_mode c = BB_POOL_MODE_SLOTS" and "bb_pool_create raw (Some c) (Some a) True = (BB_OK, h, Some p0)"
    and run: "pool_run p0 ops = (p, out, log)" and release: "bb_pool_release (Some p) (Some x) = (e, h', log')"
  shows "(e = BB_OK \<longleftrightarrow> x \<in> set out) \<and>
    (x \<notin> set out \<longrightarrow> h' = Some p \<and> log' = [] \<and>
       e = (if \<exists>i < cf_capacity c. x = slots_ptr_at p i then BB_ERR_INVALID_STATE else BB_ERR_INVALID_ARG)) \<and>
    (x \<in> set out \<longrightarrow> (\<exists>p'. h' = Some p' \<and> fst (bb_pool_release (Some p') (Some x)) = BB_ERR_INVALID_STATE))"
proof -
  have u: "in_use p0 (p, out, log)" using created_in_use [OF assms(1-3), of ops] run by simp
  then have inv: "slots_inv p" and s: "same_pool p0 p" and so: "set out = slots_ptr_at p ` {i. i < pl_capacity p \<and> acq p i}"
    by (simp_all add: in_use_def)
  have c: "pl_cfg p = c" using s pool_create_slots [OF assms(1-3)] by (simp add: same_pool_def)
  from release_cases [OF inv release] show ?thesis
  proof (elim disjE exE conjE)
    fix i p'
    assume i: "i < pl_capacity p" "x = slots_ptr_at p i" "acq p i" "e = BB_OK" "h' = Some p'"
      and p': "slots_inv p'" "same_pool p p'" "\<forall>j. acq p' j = (j \<noteq> i \<and> acq p j)"
    obtain e2 h2 l2 where r2: "bb_pool_release (Some p') (Some x) = (e2, h2, l2)" by (cases "bb_pool_release (Some p') (Some x)")
    have f: "pl_cfg p' = pl_cfg p" "slots_ptr_at p' = slots_ptr_at p" by (rule same_pool_fields [OF p'(2)])+
    have "e2 = BB_ERR_INVALID_STATE"
      using release_cases [OF p'(1) r2] p'(3) i ptr_inj [OF inv] by (auto simp: f split: if_splits)
    moreover have "x \<in> set out" using i by (auto simp: so)
    ultimately show ?thesis using i(4,5) r2 by simp
  next
    assume n: "\<forall>i < pl_capacity p. x = slots_ptr_at p i \<longrightarrow> \<not> acq p i" and h: "h' = Some p" "log' = []"
      and e: "e = (if \<exists>i < pl_capacity p. x = slots_ptr_at p i then BB_ERR_INVALID_STATE else BB_ERR_INVALID_ARG)"
    then have "x \<notin> set out" by (auto simp: so)
    moreover have "e \<noteq> BB_OK" using e by simp
    ultimately show ?thesis using h e by (simp add: c)
  qed
qed

text \<open>The callbacks of a slot are balanced. At every moment a slot has been handed to \<^verbatim>\<open>on_acquire\<close> once more
  than to \<^verbatim>\<open>on_release\<close> if it is on loan and equally often otherwise, and \<^verbatim>\<open>slot_reap\<close> has run exactly
  once for each of its releases except the last one while it is still pending.\<close>
theorem pool_callbacks_balanced:
  assumes "cfg_sized c" and "cf_mode c = BB_POOL_MODE_SLOTS" and "bb_pool_create raw (Some c) (Some a) True = (BB_OK, h, Some p0)"
    and run: "pool_run p0 ops = (p, out, log)" and i: "i < cf_capacity c"
  shows "(cf_on_acquire c \<and> cf_on_release c \<longrightarrow> calls_of ON_ACQUIRE (slots_ptr_at p i) log =
      calls_of ON_RELEASE (slots_ptr_at p i) log + (if slots_ptr_at p i \<in> set out then 1 else 0)) \<and>
    (cf_on_release c \<and> cf_slot_reusable c \<and> cf_slot_reap c \<longrightarrow> calls_of ON_RELEASE (slots_ptr_at p i) log =
      calls_of SLOT_REAP (slots_ptr_at p i) log + (if bitmap_test (sl_pending_bitmap (pl_slots p)) i then 1 else 0))"
proof -
  have u: "in_use p0 (p, out, log)" using created_in_use [OF assms(1-3), of ops] run by simp
  then have inv: "slots_inv p" and s: "same_pool p0 p" and so: "set out = slots_ptr_at p ` {i. i < pl_capacity p \<and> acq p i}" and b: "balanced p log"
    by (simp_all add: in_use_def)
  have c: "pl_cfg p = c" using s pool_create_slots [OF assms(1-3)] by (simp add: same_pool_def)
  have "slots_ptr_at p i \<in> set out \<longleftrightarrow> acq p i" using i ptr_inj [OF inv] by (auto simp: so c)
  then show ?thesis using b i by (simp add: balanced_def c b2n_def)
qed

section \<open>A pool of two slots\<close>

text \<open>A created pool on which the properties are instantiated: the slots are at 4400 and 4416.\<close>

lemma two_created:
  obtains a' p where "bb_pool_create (\<lambda>_ _. 0) (Some cfg_two) (Some arena512) True = (BB_OK, Some a', Some p)"
proof -
  have le: "pool_bytes cfg_two \<le> SIZE_MAX" "pool_bytes cfg_two \<le> ma_free arena512"
    by (simp_all add: cfg_two_ok arena512_free SIZE_MAX_def)
  show ?thesis using pool_create_ok [OF arena512_inv cfg_two_ok(1,2) le, of "\<lambda>_ _. 0"] that by blast
qed

lemma cfg_two_mode: "cf_mode cfg_two = BB_POOL_MODE_SLOTS"
  by (simp add: cfg_two_def)

text \<open>A run that acquires both slots, releases one twice and another pointer, and leaves one pending.\<close>

definition ops_two :: "nat \<Rightarrow> pool_op list" where
  "ops_two b = [Acquire (\<lambda>_. False), Acquire (\<lambda>_. False), Release b, Release b, Release (b + 3), Acquire (\<lambda>_. False)]"

theorem pool_lends_each_slot_once_witness:
  "\<exists>h p0 p out log. bb_pool_create (\<lambda>_ _. 0) (Some cfg_two) (Some arena512) True = (BB_OK, h, Some p0) \<and>
     pool_run p0 (ops_two (sl_storage (pl_slots p0))) = (p, out, log) \<and> distinct out \<and>
     length out = bb_pool_slots_acquired_count (Some p)"
proof -
  obtain a' p0 where c: "bb_pool_create (\<lambda>_ _. 0) (Some cfg_two) (Some arena512) True = (BB_OK, Some a', Some p0)"
    by (rule two_created)
  obtain p out log where r: "pool_run p0 (ops_two (sl_storage (pl_slots p0))) = (p, out, log)"
    by (cases "pool_run p0 (ops_two (sl_storage (pl_slots p0)))")
  obtain x h l where q: "bb_pool_acquire (\<lambda>_. False) (Some p) = (x, h, l)" by (cases "bb_pool_acquire (\<lambda>_. False) (Some p)")
  show ?thesis using pool_lends_each_slot_once [OF cfg_two_ok(1) cfg_two_mode c r q] c r by blast
qed

theorem pool_release_only_loans_witness:
  "\<exists>h p0 p out log. bb_pool_create (\<lambda>_ _. 0) (Some cfg_two) (Some arena512) True = (BB_OK, h, Some p0) \<and>
     pool_run p0 (ops_two (sl_storage (pl_slots p0))) = (p, out, log) \<and>
     (fst (bb_pool_release (Some p) (Some 3)) = BB_OK \<longleftrightarrow> 3 \<in> set out)"
proof -
  obtain a' p0 where c: "bb_pool_create (\<lambda>_ _. 0) (Some cfg_two) (Some arena512) True = (BB_OK, Some a', Some p0)"
    by (rule two_created)
  obtain p out log where r: "pool_run p0 (ops_two (sl_storage (pl_slots p0))) = (p, out, log)"
    by (cases "pool_run p0 (ops_two (sl_storage (pl_slots p0)))")
  obtain e h l where q: "bb_pool_release (Some p) (Some 3) = (e, h, l)" by (cases "bb_pool_release (Some p) (Some 3)")
  show ?thesis using pool_release_only_loans [OF cfg_two_ok(1) cfg_two_mode c r q] c r q by auto
qed

theorem pool_callbacks_balanced_witness:
  "\<exists>h p0 p out log. bb_pool_create (\<lambda>_ _. 0) (Some cfg_two) (Some arena512) True = (BB_OK, h, Some p0) \<and>
     pool_run p0 (ops_two (sl_storage (pl_slots p0))) = (p, out, log) \<and>
     calls_of ON_RELEASE (slots_ptr_at p 0) log =
       calls_of SLOT_REAP (slots_ptr_at p 0) log + (if bitmap_test (sl_pending_bitmap (pl_slots p)) 0 then 1 else 0)"
proof -
  obtain a' p0 where c: "bb_pool_create (\<lambda>_ _. 0) (Some cfg_two) (Some arena512) True = (BB_OK, Some a', Some p0)"
    by (rule two_created)
  obtain p out log where r: "pool_run p0 (ops_two (sl_storage (pl_slots p0))) = (p, out, log)"
    by (cases "pool_run p0 (ops_two (sl_storage (pl_slots p0)))")
  show ?thesis using pool_callbacks_balanced [OF cfg_two_ok(1) cfg_two_mode c r, of 0] c r by (auto simp: cfg_two_def)
qed

end
