(* ===== verification/BB_Pool_Ring.thy ===== *)
theory BB_Pool_Ring
  imports BB_Pool
begin

text \<open>
  The ring mode of a pool as a bounded queue: the interpretation of the queue interface on it, and the refinement of a
  list with a drop counter by any run of pushes and pops.
\<close>

section \<open>The ring is a bounded queue\<close>

type_synonym pool_item = "u8 list \<times> int \<times> u32"

definition entry_item :: "bb_pool_fifo_hdr_t \<times> u8 list \<Rightarrow> pool_item" where
  "entry_item e = (take (hd_len (fst e)) (snd e), hd_ts (fst e), hd_id (fst e))"

definition pool_items :: "bb_pool \<Rightarrow> pool_item list" where
  "pool_items p = ring_list (\<lambda>s. entry_item (ff_entries (pl_fifo p) ! s)) (pl_capacity p) (ff_head (pl_fifo p)) (ff_count (pl_fifo p))"

definition ring_inv :: "bb_pool \<Rightarrow> bool" where
  "ring_inv p \<longleftrightarrow> cf_mode (pl_cfg p) = BB_POOL_MODE_FIFO \<and> 0 < pl_capacity p \<and> 2 * pl_capacity p \<le> SIZE_MAX \<and>
     ff_head (pl_fifo p) < pl_capacity p \<and> ff_count (pl_fifo p) \<le> pl_capacity p \<and>
     length (ff_entries (pl_fifo p)) = pl_capacity p \<and>
     (\<forall>e\<in>set (ff_entries (pl_fifo p)). length (snd e) = cf_max_slot_bytes (pl_cfg p) \<and> hd_len (fst e) \<le> cf_max_slot_bytes (pl_cfg p))"

text \<open>The calls of a client that passes real buffers and pointers.\<close>

definition ring_push :: "pool_item \<Rightarrow> bb_pool \<Rightarrow> bb_err_t \<times> bb_pool" where
  "ring_push x p = (case x of (bs, ts, i) \<Rightarrow>
     (case bb_pool_push (Some p) (Some bs) (length bs) ts i of (e, h) \<Rightarrow> (e, the_default p h)))"

definition ring_pop :: "bb_pool \<Rightarrow> bb_err_t \<times> bb_pool" where
  "ring_pop p = (case bb_pool_pop_oldest (Some p) of (e, h) \<Rightarrow> (e, the_default p h))"

lemma ring_bounds:
  assumes "ring_inv p"
  shows "sz_add (ff_head (pl_fifo p)) 1 = ff_head (pl_fifo p) + 1"
    and "sz_add (ff_head (pl_fifo p)) (ff_count (pl_fifo p)) = ff_head (pl_fifo p) + ff_count (pl_fifo p)"
    and "0 < ff_count (pl_fifo p) \<Longrightarrow> sz_sub (ff_count (pl_fifo p)) 1 = ff_count (pl_fifo p) - 1"
    and "ff_count (pl_fifo p) < pl_capacity p \<Longrightarrow> sz_add (ff_count (pl_fifo p)) 1 = ff_count (pl_fifo p) + 1"
proof -
  have b: "0 < pl_capacity p" "2 * pl_capacity p \<le> SIZE_MAX" "ff_head (pl_fifo p) < pl_capacity p" "ff_count (pl_fifo p) \<le> pl_capacity p"
    using assms by (auto simp: ring_inv_def)
  show "sz_add (ff_head (pl_fifo p)) 1 = ff_head (pl_fifo p) + 1" by (rule sz_add_exact) (use b in linarith)
  show "sz_add (ff_head (pl_fifo p)) (ff_count (pl_fifo p)) = ff_head (pl_fifo p) + ff_count (pl_fifo p)"
    by (rule sz_add_exact) (use b in linarith)
  show "sz_sub (ff_count (pl_fifo p)) 1 = ff_count (pl_fifo p) - 1" if "0 < ff_count (pl_fifo p)"
    by (rule sz_sub_exact) (use b that in linarith)+
  show "sz_add (ff_count (pl_fifo p)) 1 = ff_count (pl_fifo p) + 1" if "ff_count (pl_fifo p) < pl_capacity p"
    by (rule sz_add_exact) (use b that in linarith)
qed

text \<open>Dropping the oldest entry, and writing one behind the newest.\<close>

definition ring_drop :: "bb_pool \<Rightarrow> bb_pool" where
  "ring_drop p = p\<lparr>pl_fifo := (pl_fifo p)\<lparr>ff_head := (ff_head (pl_fifo p) + 1) mod pl_capacity p, ff_count := ff_count (pl_fifo p) - 1\<rparr>\<rparr>"

definition ring_put :: "pool_item \<Rightarrow> bb_pool \<Rightarrow> bb_pool" where
  "ring_put x p = (case x of (bs, ts, i) \<Rightarrow>
     (let f = pl_fifo p; t = (ff_head f + ff_count f) mod pl_capacity p in
      p\<lparr>pl_fifo := f\<lparr>ff_entries := (ff_entries f)[t := (\<lparr> hd_len = length bs, hd_ts = ts, hd_id = i \<rparr>, blit (snd (ff_entries f ! t)) 0 bs)],
                    ff_count := ff_count f + 1\<rparr>\<rparr>))"

definition add_dropped :: "nat \<Rightarrow> bb_pool \<Rightarrow> bb_pool" where
  "add_dropped n p = p\<lparr>pl_fifo := (pl_fifo p)\<lparr>ff_dropped := sz_add (ff_dropped (pl_fifo p)) n\<rparr>\<rparr>"

lemma ring_drop_inv: "ring_inv p \<Longrightarrow> ring_inv (ring_drop p)"
  by (auto simp: ring_inv_def ring_drop_def)

lemma ring_drop_items: "ring_inv p \<Longrightarrow> 0 < ff_count (pl_fifo p) \<Longrightarrow> pool_items (ring_drop p) = tl (pool_items p)"
  using ring_list_pop [of "ff_count (pl_fifo p)"] by (simp add: pool_items_def ring_drop_def)

lemma add_dropped_frame [simp]:
  "ring_inv (add_dropped n p) = ring_inv p" "pool_items (add_dropped n p) = pool_items p" "pl_cfg (add_dropped n p) = pl_cfg p"
  "ff_count (pl_fifo (add_dropped n p)) = ff_count (pl_fifo p)"
  by (simp_all add: ring_inv_def pool_items_def add_dropped_def)

lemma ring_put_effect:
  assumes inv: "ring_inv p" and room: "ff_count (pl_fifo p) < pl_capacity p" and fit: "length (fst x) \<le> cf_max_slot_bytes (pl_cfg p)"
  shows "ring_inv (ring_put x p)" and "pool_items (ring_put x p) = pool_items p @ [x]"
proof -
  obtain bs ts i where x: "x = (bs, ts, i)" by (cases x)
  let ?f = "pl_fifo p" and ?cap = "pl_capacity p"
  define t where "t = (ff_head ?f + ff_count ?f) mod ?cap"
  have t: "t < length (ff_entries ?f)" using inv by (simp add: ring_inv_def t_def)
  have lt: "length (snd (ff_entries ?f ! t)) = cf_max_slot_bytes (pl_cfg p)" using inv nth_mem [OF t] by (auto simp: ring_inv_def)
  let ?e = "(\<lparr> hd_len = length bs, hd_ts = ts, hd_id = i \<rparr>, blit (snd (ff_entries ?f ! t)) 0 bs)"
  have put: "ring_put x p = p\<lparr>pl_fifo := ?f\<lparr>ff_entries := (ff_entries ?f)[t := ?e], ff_count := ff_count ?f + 1\<rparr>\<rparr>"
    by (simp add: ring_put_def x t_def Let_def)
  have fit': "length bs \<le> cf_max_slot_bytes (pl_cfg p)" using fit by (simp add: x)
  have le: "length (snd ?e) = cf_max_slot_bytes (pl_cfg p)" "hd_len (fst ?e) \<le> cf_max_slot_bytes (pl_cfg p)" using fit' lt by simp_all
  show "ring_inv (ring_put x p)" using inv room le by (auto simp: ring_inv_def put dest!: set_update_subset_insert [THEN subsetD])
  have "entry_item ?e = x" using fit' lt by (simp add: entry_item_def x blit_def)
  then have at: "entry_item ((ff_entries ?f)[t := ?e] ! t) = x" using t by simp
  have "pool_items (ring_put x p) = ring_list (\<lambda>s. entry_item ((ff_entries ?f)[t := ?e] ! s)) ?cap (ff_head ?f) (ff_count ?f + 1)"
    by (simp add: pool_items_def put)
  also have "\<dots> = ring_list (\<lambda>s. entry_item (ff_entries ?f ! s)) ?cap (ff_head ?f) (ff_count ?f) @
      [entry_item ((ff_entries ?f)[t := ?e] ! ((ff_head ?f + ff_count ?f) mod ?cap))]"
    by (rule ring_list_push [OF room]) (simp add: t_def)
  finally show "pool_items (ring_put x p) = pool_items p @ [x]" using at by (simp add: pool_items_def flip: t_def)
qed

lemma ring_push_eq:
  assumes inv: "ring_inv p"
  shows "ring_push x p =
    (if cf_max_slot_bytes (pl_cfg p) < length (fst x) then (BB_ERR_INVALID_ARG, p)
     else if ff_count (pl_fifo p) < pl_capacity p then (BB_OK, ring_put x p)
     else if cf_full_policy (pl_cfg p) = BB_POOL_FULL_REJECT_NEW then (BB_ERR_NO_SPACE, add_dropped 1 p)
     else (BB_OK, ring_put x (add_dropped 1 (ring_drop p))))"
proof -
  obtain bs ts i where x: "x = (bs, ts, i)" by (cases x)
  have m: "cf_mode (pl_cfg p) = BB_POOL_MODE_FIFO" "0 < pl_capacity p" "ff_count (pl_fifo p) \<le> pl_capacity p" using inv by (auto simp: ring_inv_def)
  let ?q = "ring_drop p"
  have q: "ring_inv ?q" using inv by (rule ring_drop_inv)
  consider (big) "cf_max_slot_bytes (pl_cfg p) < length bs" | (room) "length bs \<le> cf_max_slot_bytes (pl_cfg p)" "ff_count (pl_fifo p) < pl_capacity p"
    | (full) "length bs \<le> cf_max_slot_bytes (pl_cfg p)" "ff_count (pl_fifo p) = pl_capacity p" using m(3) by linarith
  then show ?thesis
  proof cases
    case big
    then show ?thesis using m by (simp add: ring_push_def x bb_pool_push_def the_default_def)
  next
    case room
    then show ?thesis using m ring_bounds(2,4) [OF inv]
      by (simp add: ring_push_def x bb_pool_push_def the_default_def ring_put_def Let_def not_less)
  next
    case full
    show ?thesis
    proof (cases "cf_full_policy (pl_cfg p) = BB_POOL_FULL_REJECT_NEW")
      case True
      then show ?thesis using full m by (simp add: ring_push_def x bb_pool_push_def the_default_def add_dropped_def Let_def not_less)
    next
      case False
      have "ff_count (pl_fifo p) - 1 < pl_capacity p" using full m by simp
      then have a: "sz_add (ff_count (pl_fifo p) - 1) 1 = ff_count (pl_fifo p) - 1 + 1"
        "sz_add ((ff_head (pl_fifo p) + 1) mod pl_capacity p) (ff_count (pl_fifo p) - 1) = (ff_head (pl_fifo p) + 1) mod pl_capacity p + (ff_count (pl_fifo p) - 1)"
        using ring_bounds(4,2) [OF q] by (simp_all add: ring_drop_def)
      have c: "sz_sub (ff_count (pl_fifo p)) 1 = ff_count (pl_fifo p) - 1" using ring_bounds(3) [OF inv] full m by simp
      show ?thesis using full False m
        by (simp add: ring_push_def x bb_pool_push_def the_default_def ring_put_def ring_drop_def add_dropped_def Let_def not_less
            ring_bounds(1) [OF inv] c [unfolded full(2)] a [unfolded full(2)] del: One_nat_def)
    qed
  qed
qed

lemma ring_pop_eq:
  assumes "ring_inv p"
  shows "ring_pop p = (if ff_count (pl_fifo p) = 0 then (BB_ERR_NOT_FOUND, p) else (BB_OK, ring_drop p))"
  using assms ring_bounds(1,3) [OF assms]
  by (auto simp: ring_pop_def bb_pool_pop_oldest_def ring_inv_def the_default_def ring_drop_def Let_def)

interpretation pool_fifo: bounded_fifo
  "\<lambda>p. ring_inv p" pool_items ring_push ring_pop
  "\<lambda>x p. length (fst x) \<le> cf_max_slot_bytes (pl_cfg p) \<and> ff_count (pl_fifo p) < pl_capacity p" "\<lambda>p. pl_capacity p"
proof
  fix p x assume inv: "ring_inv p"
  have m: "0 < pl_capacity p" "ff_count (pl_fifo p) \<le> pl_capacity p" using inv by (auto simp: ring_inv_def)
  let ?q = "add_dropped 1 (ring_drop p)"
  have q: "ring_inv ?q" "pool_items ?q = pool_items (ring_drop p)" "pl_cfg ?q = pl_cfg p" "ff_count (pl_fifo ?q) = ff_count (pl_fifo p) - 1"
    using ring_drop_inv [OF inv] by simp_all (simp_all add: ring_drop_def)
  have put: "ring_inv (ring_put x p)" "pool_items (ring_put x p) = pool_items p @ [x]"
    if "ff_count (pl_fifo p) < pl_capacity p" "length (fst x) \<le> cf_max_slot_bytes (pl_cfg p)"
    using ring_put_effect [OF inv that] by auto
  have evict: "ring_inv (ring_put x ?q)" "pool_items (ring_put x ?q) = drop 1 (pool_items p) @ [x]"
    if "\<not> ff_count (pl_fifo p) < pl_capacity p" "length (fst x) \<le> cf_max_slot_bytes (pl_cfg p)"
  proof -
    have n: "0 < ff_count (pl_fifo p)" "ff_count (pl_fifo ?q) < pl_capacity ?q" using that(1) m unfolding q(3,4) by linarith+
    show "ring_inv (ring_put x ?q)" "pool_items (ring_put x ?q) = drop 1 (pool_items p) @ [x]"
      using ring_put_effect [OF q(1) n(2)] that(2) ring_drop_items [OF inv n(1)] unfolding q(2,3) by (simp_all add: drop_Suc)
  qed
  show "ring_inv (snd (ring_push x p))" using put(1) evict(1) inv by (auto simp: ring_push_eq [OF inv])
  show "ring_inv (snd (ring_pop p))" using inv ring_drop_inv by (simp add: ring_pop_eq)
  show "\<exists>k. pool_items (snd (ring_push x p)) = drop k (pool_items p) @ [x]" if "fst (ring_push x p) = BB_OK"
    using that put(2) evict(2) unfolding ring_push_eq [OF inv]
    by (auto split: if_splits intro: exI [of _ 0] exI [of _ 1])
  show "\<exists>k. pool_items (snd (ring_push x p)) = drop k (pool_items p)" if "fst (ring_push x p) \<noteq> BB_OK"
    using that unfolding ring_push_eq [OF inv] by (intro exI [of _ 0]) (auto split: if_splits)
  show "ring_push x p = (BB_OK, snd (ring_push x p)) \<and> pool_items (snd (ring_push x p)) = pool_items p @ [x]"
    if "length (fst x) \<le> cf_max_slot_bytes (pl_cfg p) \<and> ff_count (pl_fifo p) < pl_capacity p"
    using that put(2) by (auto simp: ring_push_eq [OF inv])
  show "pool_items (snd (ring_pop p)) = tl (pool_items p)"
    using ring_drop_items [OF inv] by (auto simp: ring_pop_eq [OF inv] pool_items_def)
  show "(fst (ring_pop p) = BB_OK) = (pool_items p \<noteq> [])" by (simp add: ring_pop_eq [OF inv] pool_items_def)
  show "pl_capacity (snd (ring_push x p)) = pl_capacity p"
    by (cases x) (auto simp: ring_push_eq [OF inv] ring_put_def Let_def ring_drop_def add_dropped_def)
  show "length (pool_items p) \<le> pl_capacity p" using m by (simp add: pool_items_def)
qed

text \<open>The specification: a list, and the number of entries dropped, which is a \<^verbatim>\<open>size_t\<close>.\<close>

datatype fifo_op = Push pool_item | PopOldest

fun fifo_spec :: "bb_pool_cfg_t \<Rightarrow> pool_item list \<times> nat \<Rightarrow> fifo_op \<Rightarrow> bb_err_t \<times> (pool_item list \<times> nat)" where
  "fifo_spec c (l, d) (Push x) =
     (if cf_max_slot_bytes c < length (fst x) then (BB_ERR_INVALID_ARG, l, d)
      else if length l < cf_capacity c then (BB_OK, l @ [x], d)
      else if cf_full_policy c = BB_POOL_FULL_REJECT_NEW then (BB_ERR_NO_SPACE, l, (d + 1) mod 2 ^ 64)
      else (BB_OK, tl l @ [x], (d + 1) mod 2 ^ 64))"
| "fifo_spec c (l, d) PopOldest = (if l = [] then (BB_ERR_NOT_FOUND, l, d) else (BB_OK, tl l, d))"

fun fifo_step :: "bb_pool \<Rightarrow> fifo_op \<Rightarrow> bb_err_t \<times> bb_pool" where
  "fifo_step p (Push x) = ring_push x p"
| "fifo_step p PopOldest = ring_pop p"

text \<open>A run: the result codes in order and the final state.\<close>

fun fifo_run :: "('s \<Rightarrow> fifo_op \<Rightarrow> bb_err_t \<times> 's) \<Rightarrow> 's \<Rightarrow> fifo_op list \<Rightarrow> bb_err_t list \<times> 's" where
  "fifo_run step s [] = ([], s)"
| "fifo_run step s (x # xs) = (case step s x of (e, s') \<Rightarrow> (case fifo_run step s' xs of (es, s'') \<Rightarrow> (e # es, s'')))"

definition fifo_abs :: "bb_pool \<Rightarrow> pool_item list \<times> nat" where
  "fifo_abs p = (pool_items p, bb_pool_dropped (Some p))"

lemma fifo_step_refines:
  assumes inv: "ring_inv p"
  shows "(case fifo_step p x of (e, p') \<Rightarrow> ring_inv p' \<and> pl_cfg p' = pl_cfg p \<and> fifo_spec (pl_cfg p) (fifo_abs p) x = (e, fifo_abs p'))"
proof -
  have md: "cf_mode (pl_cfg p) = BB_POOL_MODE_FIFO" and m: "0 < pl_capacity p" "ff_count (pl_fifo p) \<le> pl_capacity p" using inv by (auto simp: ring_inv_def)
  have drop0: "ff_dropped (pl_fifo (ring_put y q)) = ff_dropped (pl_fifo q)" "pl_cfg (ring_put y q) = pl_cfg q" for y q
    by (cases y, simp add: ring_put_def Let_def)+
  have drop1: "ff_dropped (pl_fifo (ring_drop p)) = ff_dropped (pl_fifo p)" "pl_cfg (ring_drop p) = pl_cfg p"
    "ff_dropped (pl_fifo (add_dropped 1 q)) = (ff_dropped (pl_fifo q) + 1) mod 2 ^ 64" for q
    by (simp_all add: ring_drop_def add_dropped_def sz_add_def SIZE_MOD_def)
  show ?thesis
  proof (cases x)
    case (Push y)
    let ?q = "add_dropped 1 (ring_drop p)"
    consider (big) "cf_max_slot_bytes (pl_cfg p) < length (fst y)"
      | (room) "length (fst y) \<le> cf_max_slot_bytes (pl_cfg p)" "ff_count (pl_fifo p) < pl_capacity p"
      | (full) "length (fst y) \<le> cf_max_slot_bytes (pl_cfg p)" "ff_count (pl_fifo p) = pl_capacity p" using m(2) by linarith
    then show ?thesis
    proof cases
      case big
      then show ?thesis using inv by (simp add: Push ring_push_eq fifo_abs_def)
    next
      case room
      then show ?thesis using ring_put_effect [OF inv room(2,1)] md
        by (simp add: Push ring_push_eq [OF inv] fifo_abs_def bb_pool_dropped_def drop0 pool_items_def [of p])
    next
      case full
      have q: "ring_inv ?q" using ring_drop_inv [OF inv] by simp
      have cq: "ff_count (pl_fifo ?q) < pl_capacity ?q" "0 < ff_count (pl_fifo p)" using full m by (simp_all add: drop1) (simp add: ring_drop_def)
      have fq: "length (fst y) \<le> cf_max_slot_bytes (pl_cfg ?q)" using full by (simp add: drop1)
      have iq: "pool_items ?q = tl (pool_items p)" using ring_drop_items [OF inv cq(2)] by simp
      have lp: "length (pool_items p) = pl_capacity p" using full by (simp add: pool_items_def)
      note e = ring_put_effect [OF q cq(1) fq, unfolded iq]
      have ab: "fifo_abs (ring_put y ?q) = (tl (pool_items p) @ [y], (ff_dropped (pl_fifo p) + 1) mod 2 ^ 64)"
        "fifo_abs (add_dropped 1 p) = (pool_items p, (ff_dropped (pl_fifo p) + 1) mod 2 ^ 64)"
        "fifo_abs p = (pool_items p, ff_dropped (pl_fifo p))"
        using md e(2) by (simp_all add: fifo_abs_def bb_pool_dropped_def drop0 drop1 del: One_nat_def)
      show ?thesis using full e(1) inv
        by (simp add: Push ring_push_eq [OF inv] ab lp drop0 drop1 del: One_nat_def)
    qed
  next
    case PopOldest
    then show ?thesis using inv ring_drop_inv [OF inv] ring_drop_items [OF inv] md
      by (auto simp: ring_pop_eq fifo_abs_def bb_pool_dropped_def drop1 pool_items_def [of p])
  qed
qed

lemma fifo_run_refines:
  "ring_inv p \<Longrightarrow> (case fifo_run fifo_step p ops of (es, p') \<Rightarrow> ring_inv p' \<and> pl_cfg p' = pl_cfg p \<and>
     fifo_run (fifo_spec (pl_cfg p)) (fifo_abs p) ops = (es, fifo_abs p'))"
proof (induction ops arbitrary: p)
  case (Cons x xs)
  obtain e p1 where s: "fifo_step p x = (e, p1)" by (cases "fifo_step p x")
  then have 1: "ring_inv p1" "pl_cfg p1 = pl_cfg p" "fifo_spec (pl_cfg p) (fifo_abs p) x = (e, fifo_abs p1)"
    using fifo_step_refines [OF Cons.prems, of x] by auto
  then show ?case using Cons.IH [OF 1(1)] by (auto simp: s 1(2,3) split: prod.splits)
qed simp

lemma pool_create_ring:
  assumes sz: "cfg_sized c" and m: "cf_mode c = BB_POOL_MODE_FIFO"
    and cr: "bb_pool_create raw (Some c) (Some a) True = (BB_OK, h, Some p)"
  shows "ring_inv p \<and> pl_cfg p = c \<and> fifo_abs p = ([], 0)"
proof -
  let ?cap = "cf_capacity c" and ?max = "cf_max_slot_bytes c"
  have pos: "0 < ?cap" "0 < ?max" and need: "bb_pool_arena_size_needed (Some c) \<noteq> 0"
    using cr m by (auto simp: bb_pool_create_def Let_def split: if_splits)
  then have pb: "pool_bytes c \<le> SIZE_MAX" using size_needed_eq [OF sz] by (simp split: if_splits)
  have "?cap * 2 \<le> ?cap * round16 (24 + ?max)" using round16_bounds(1) [of "24 + ?max"] by (intro mult_le_mono) linarith+
  moreover have "240 + ?cap * round16 (24 + ?max) \<le> SIZE_MAX" using pb m by (simp add: pool_bytes_def Let_def)
  ultimately have c2: "2 * ?cap \<le> SIZE_MAX" by linarith
  obtain q h1 where cf: "create_fifo raw (pool_fresh c q) h1 = (BB_OK, h, Some p)"
    using cr m pos by (auto simp: bb_pool_create_def Let_def split: if_splits prod.splits option.splits)
  define p0 where "p0 = pool_fresh c q"
  have p0: "pl_cfg p0 = c" by (simp add: p0_def pool_fresh_def)
  obtain st sd where p: "p = p0\<lparr>pl_fifo := \<lparr> ff_entries_at = st,
             ff_entries = map (\<lambda>i. (\<lparr> hd_len = 0, hd_ts = 0, hd_id = 0 \<rparr>, map (raw i) [0..<?max])) [0..<?cap],
             ff_entry_stride = sd, ff_head = 0, ff_count = 0, ff_dropped = 0 \<rparr>\<rparr>"
    using cf [folded p0_def] by (auto simp: create_fifo_def Let_def p0 split: prod.splits option.splits)
  show ?thesis using pos c2 m by (auto simp: ring_inv_def p p0 fifo_abs_def pool_items_def bb_pool_dropped_def)
qed

lemma peek_head:
  assumes "ring_inv p"
  shows "bb_pool_peek_oldest (Some p) (Some b) (length b) True =
    (case pool_items p of [] \<Rightarrow> (BB_ERR_NOT_FOUND, None, Some b)
     | (bs, ts, i) # _ \<Rightarrow> (BB_OK, Some (length bs, ts, i), Some (blit b 0 (take (length b) bs))))"
proof (cases "ff_count (pl_fifo p) = 0")
  case True
  then show ?thesis using assms by (simp add: bb_pool_peek_oldest_def ring_inv_def pool_items_def)
next
  case False
  let ?h = "ff_head (pl_fifo p)" and ?m = "cf_max_slot_bytes (pl_cfg p)"
  have b: "?h < pl_capacity p" "2 * pl_capacity p \<le> SIZE_MAX" "?h < length (ff_entries (pl_fifo p))" using assms by (auto simp: ring_inv_def)
  obtain hdr pay where e: "ff_entries (pl_fifo p) ! ?h = (hdr, pay)" by (cases "ff_entries (pl_fifo p) ! ?h")
  have l: "length pay = ?m" "hd_len hdr \<le> ?m" using assms nth_mem [OF b(3)] e by (auto simp: ring_inv_def)
  have "hd (pool_items p) = entry_item (hdr, pay)" using False b by (simp add: pool_items_def e hd_ring_list)
  moreover have "pool_items p \<noteq> []" using False by (simp add: pool_items_def)
  ultimately obtain rest where it: "pool_items p = (take (hd_len hdr) pay, hd_ts hdr, hd_id hdr) # rest"
    by (cases "pool_items p") (auto simp: entry_item_def)
  have at: "fifo_entry_at p 0 = ?h" using b by (simp add: fifo_entry_at_def sz_add_exact)
  have "take (if length b < hd_len hdr then length b else hd_len hdr) pay = take (length b) (take (hd_len hdr) pay)"
    by (simp add: min_def)
  then show ?thesis using False assms l e
    by (auto simp: bb_pool_peek_oldest_def ring_inv_def at it Let_def blit_def)
qed

text \<open>C19: a ring pool is a bounded list. From creation on, any sequence of pushes and pops returns exactly the result
  codes of the list specification (entries too long refused, a full ring rejects the new or evicts the
  oldest entry as configured, each such loss counted), holds the same entries in the same order, and a peek reads the oldest
  one, its payload cut to the caller's buffer.\<close>
theorem pool_ring_refines_list:
  assumes "cfg_sized c" and "cf_mode c = BB_POOL_MODE_FIFO" and "bb_pool_create raw (Some c) (Some a) True = (BB_OK, h, Some p0)"
    and "fifo_run fifo_step p0 ops = (es, p)"
  shows "(case fifo_run (fifo_spec c) ([], 0) ops of (es', l, d) \<Rightarrow>
     es = es' \<and> pool_items p = l \<and> bb_pool_count (Some p) = length l \<and> bb_pool_dropped (Some p) = d \<and> length l \<le> cf_capacity c \<and>
     bb_pool_peek_oldest (Some p) (Some b) (length b) True =
       (case l of [] \<Rightarrow> (BB_ERR_NOT_FOUND, None, Some b)
        | (bs, ts, i) # _ \<Rightarrow> (BB_OK, Some (length bs, ts, i), Some (blit b 0 (take (length b) bs)))))"
proof -
  have p0: "ring_inv p0" "pl_cfg p0 = c" "fifo_abs p0 = ([], 0)" using pool_create_ring [OF assms(1-3)] by simp_all
  have r: "ring_inv p" "pl_cfg p = c" "fifo_run (fifo_spec c) ([], 0) ops = (es, fifo_abs p)"
    using fifo_run_refines [OF p0(1), of ops] assms(4) p0(2,3) by simp_all
  have "length (pool_items p) \<le> cf_capacity c" using pool_fifo.bounded [OF r(1)] r(2) by simp
  moreover have "bb_pool_count (Some p) = length (pool_items p)" using r(1) by (simp add: bb_pool_count_def pool_items_def ring_inv_def)
  ultimately show ?thesis by (simp add: r(3) fifo_abs_def peek_head [OF r(1)])
qed

definition cfg_ring :: bb_pool_cfg_t where
  "cfg_ring = cfg_two\<lparr>cf_mode := BB_POOL_MODE_FIFO, cf_full_policy := BB_POOL_FULL_EVICT_OLDEST\<rparr>"

theorem pool_ring_refines_list_witness:
  "\<exists>h p0 p es. bb_pool_create (\<lambda>_ _. 0) (Some cfg_ring) (Some arena512) True = (BB_OK, h, Some p0) \<and>
     fifo_run fifo_step p0 [Push ([1], 5, 0), Push ([2], 6, 0), Push ([3], 7, 0), Push ([1, 2, 3, 4, 5, 6], 8, 0), PopOldest] = (es, p) \<and>
     es = [BB_OK, BB_OK, BB_OK, BB_ERR_INVALID_ARG, BB_OK] \<and> pool_items p = [([3], 7, 0)]"
proof -
  have ok: "cfg_sized cfg_ring" "cfg_valid cfg_ring" "pool_bytes cfg_ring = 304" "cf_mode cfg_ring = BB_POOL_MODE_FIFO"
    by (simp_all add: cfg_ring_def cfg_two_def cfg_sized_def SIZE_MAX_def cfg_valid_def pool_bytes_def round16_def)
  have le: "pool_bytes cfg_ring \<le> SIZE_MAX" "pool_bytes cfg_ring \<le> ma_free arena512" by (simp_all add: ok arena512_free SIZE_MAX_def)
  obtain a' p0 where c: "bb_pool_create (\<lambda>_ _. 0) (Some cfg_ring) (Some arena512) True = (BB_OK, Some a', Some p0)"
    using pool_create_ok [OF arena512_inv ok(1,2) le, of "\<lambda>_ _. 0"] by blast
  let ?ops = "[Push ([1], 5, 0), Push ([2], 6, 0), Push ([3], 7, 0), Push ([1, 2, 3, 4, 5, 6], 8, 0), PopOldest]"
  obtain es p where r: "fifo_run fifo_step p0 ?ops = (es, p)" by (cases "fifo_run fifo_step p0 ?ops")
  have "fifo_run (fifo_spec cfg_ring) ([], 0) ?ops = ([BB_OK, BB_OK, BB_OK, BB_ERR_INVALID_ARG, BB_OK], [([3], 7, 0)], 1)"
    by (simp add: cfg_ring_def cfg_two_def)
  then show ?thesis using pool_ring_refines_list [OF ok(1,4) c r, of "[]"] c r by simp
qed

end
