(* ===== verification/BB_Table.thy ===== *)
theory BB_Table
  imports BB_Prelude
begin

text \<open>
  Fixed arrays of slots read as finite maps: the shape of the RAM store's table and of a
  transaction's staging area. \<^verbatim>\<open>view\<close> gives the binding a slot holds, or none when it is free.
\<close>

section \<open>The map a table of slots stands for\<close>

fun tab_map :: "('a \<Rightarrow> ('k \<times> 'v) option) \<Rightarrow> 'a list \<Rightarrow> ('k \<rightharpoonup> 'v)" where
  "tab_map view [] = Map.empty"
| "tab_map view (x # xs) = (case view x of None \<Rightarrow> tab_map view xs | Some (k, v) \<Rightarrow> (tab_map view xs)(k \<mapsto> v))"

text \<open>Whether a slot holds a binding of the key, and that no key is held twice.\<close>

definition holds :: "('a \<Rightarrow> ('k \<times> 'v) option) \<Rightarrow> 'k \<Rightarrow> 'a \<Rightarrow> bool" where
  "holds view k x \<longleftrightarrow> (case view x of None \<Rightarrow> False | Some (k', v) \<Rightarrow> k' = k)"

definition tab_ok :: "('a \<Rightarrow> ('k \<times> 'v) option) \<Rightarrow> 'a list \<Rightarrow> bool" where
  "tab_ok view xs \<longleftrightarrow> (\<forall>i<length xs. \<forall>j<length xs. \<forall>k. holds view k (xs ! i) \<and> holds view k (xs ! j) \<longrightarrow> i = j)"

lemma holdsD: "holds view k x \<Longrightarrow> \<exists>v. view x = Some (k, v)"
  by (auto simp: holds_def split: option.splits)

lemma holdsI [intro]: "view x = Some (k, v) \<Longrightarrow> holds view k x"
  by (simp add: holds_def)

lemma not_holds_free: "view x = None \<Longrightarrow> \<not> holds view k x"
  by (simp add: holds_def)

lemma tab_map_None: "tab_map view xs k = None \<longleftrightarrow> (\<forall>x\<in>set xs. \<not> holds view k x)"
  by (induction xs) (auto simp: holds_def split: option.splits prod.splits)

lemma tab_map_find:
  "find_idx (holds view k) xs = Some i \<Longrightarrow> view (xs ! i) = Some (k, v) \<Longrightarrow> tab_map view xs k = Some v"
proof (induction xs arbitrary: i)
  case Nil
  then show ?case by simp
next
  case (Cons x xs)
  show ?case
  proof (cases "holds view k x")
    case True
    then show ?thesis using Cons.prems by (auto dest: holdsD)
  next
    case False
    then obtain j where "find_idx (holds view k) xs = Some j" "i = Suc j" using Cons.prems by auto
    then have "tab_map view xs k = Some v" using Cons.IH Cons.prems by simp
    then show ?thesis using False by (auto simp: holds_def split: option.splits)
  qed
qed

lemma find_holds_None: "find_idx (holds view k) xs = None \<longleftrightarrow> tab_map view xs k = None"
  by (simp add: find_idx_None tab_map_None)

text \<open>The scan and the map agree.\<close>

lemma find_holds_cases:
  obtains (absent) "find_idx (holds view k) xs = None" "tab_map view xs k = None"
  | (present) i v where "find_idx (holds view k) xs = Some i" "i < length xs" "view (xs ! i) = Some (k, v)"
      "tab_map view xs k = Some v"
proof (cases "find_idx (holds view k) xs")
  case None
  then have "tab_map view xs k = None" by (simp only: find_holds_None)
  then show ?thesis by (rule absent [OF None])
next
  case (Some i)
  then obtain v where v: "view (xs ! i) = Some (k, v)" using find_idx_SomeD(2) holdsD by metis
  show ?thesis by (rule present [OF Some find_idx_SomeD(1) [OF Some] v tab_map_find [OF Some v]])
qed

lemma tab_ok_Cons: "tab_ok view (x # xs) \<Longrightarrow> tab_ok view xs"
  unfolding tab_ok_def by (metis Suc_inject Suc_less_eq length_Cons nth_Cons_Suc)

lemma tab_ok_Cons_head: "tab_ok view (x # xs) \<Longrightarrow> holds view k x \<Longrightarrow> tab_map view xs k = None"
  unfolding tab_ok_def tab_map_None
  by (metis Suc_less_eq in_set_conv_nth length_Cons nat.distinct(1) nth_Cons_0 nth_Cons_Suc zero_less_Suc)

section \<open>Writing and freeing one slot\<close>

lemma tab_map_write:
  assumes "i < length xs" and "\<forall>j<length xs. j \<noteq> i \<longrightarrow> \<not> holds view k (xs ! j)"
    and "view (xs ! i) = None \<or> holds view k (xs ! i)" and "view x = Some (k, v)"
  shows "tab_map view (xs[i := x]) = (tab_map view xs)(k \<mapsto> v)"
  using assms
proof (induction xs arbitrary: i)
  case Nil
  then show ?case by simp
next
  case (Cons y xs)
  show ?case
  proof (cases i)
    case 0
    then show ?thesis using Cons.prems by (auto simp: holds_def split: option.splits)
  next
    case (Suc j)
    have "\<forall>l<length xs. l \<noteq> j \<longrightarrow> \<not> holds view k (xs ! l)"
      using Cons.prems(2) Suc by (metis Suc_inject Suc_less_eq length_Cons nth_Cons_Suc)
    then have ih: "tab_map view (xs[j := x]) = (tab_map view xs)(k \<mapsto> v)"
      by (rule Cons.IH [rotated]) (use Cons.prems Suc in simp_all)
    have "\<not> holds view k y" using Cons.prems(2) Suc by (metis length_Cons nat.distinct(1) nth_Cons_0 zero_less_Suc)
    then show ?thesis using Suc ih by (auto simp: holds_def fun_eq_iff split: option.splits)
  qed
qed

lemma tab_ok_write:
  assumes "tab_ok view xs" and "\<forall>j<length xs. j \<noteq> i \<longrightarrow> \<not> holds view k (xs ! j)" and "view x = Some (k, v)"
  shows "tab_ok view (xs[i := x])"
proof -
  have "holds view k' x \<longleftrightarrow> k' = k" for k' using assms(3) by (auto simp: holds_def)
  then show ?thesis using assms(1,2) unfolding tab_ok_def
    by (metis length_list_update nth_list_update_eq nth_list_update_neq)
qed

lemma tab_free:
  assumes "i < length xs" and "tab_ok view xs" and "view (xs ! i) = Some (k, v)" and "view x = None"
  shows "tab_map view (xs[i := x]) = (tab_map view xs)(k := None)"
  using assms
proof (induction xs arbitrary: i)
  case Nil
  then show ?case by simp
next
  case (Cons y xs)
  show ?case
  proof (cases i)
    case 0
    then have "tab_map view xs k = None" using tab_ok_Cons_head [OF Cons.prems(2)] Cons.prems(3) by auto
    then show ?thesis using Cons.prems 0 by (auto simp: fun_eq_iff)
  next
    case (Suc j)
    then have ih: "tab_map view (xs[j := x]) = (tab_map view xs)(k := None)"
      by (intro Cons.IH) (use Cons.prems tab_ok_Cons in auto)
    have "xs ! j \<in> set xs" using Cons.prems(1) Suc by simp
    then have "tab_map view xs k \<noteq> None" unfolding tab_map_None using Cons.prems(3) Suc by auto
    then have "\<not> holds view k y" using tab_ok_Cons_head [OF Cons.prems(2)] by auto
    then show ?thesis using Suc ih by (auto simp: holds_def fun_eq_iff split: option.splits)
  qed
qed

lemma tab_ok_free: "tab_ok view xs \<Longrightarrow> view x = None \<Longrightarrow> tab_ok view (xs[i := x])"
  unfolding tab_ok_def by (metis length_list_update not_holds_free nth_list_update_eq nth_list_update_neq)

text \<open>The slot a scan finds, or a free one when the scan finds none, may be written.\<close>

lemma found_unique:
  "tab_ok view xs \<Longrightarrow> find_idx (holds view k) xs = Some i \<Longrightarrow> \<forall>j<length xs. j \<noteq> i \<longrightarrow> \<not> holds view k (xs ! j)"
  unfolding tab_ok_def by (metis find_idx_SomeD)

lemma absent_unique:
  "find_idx (holds view k) xs = None \<Longrightarrow> \<forall>j<length xs. j \<noteq> i \<longrightarrow> \<not> holds view k (xs ! j)"
  by (auto simp: find_idx_None)

section \<open>Occupancy\<close>

definition free_slots :: "('a \<Rightarrow> ('k \<times> 'v) option) \<Rightarrow> 'a list \<Rightarrow> nat" where
  "free_slots view xs = length (filter (\<lambda>x. view x = None) xs)"

lemma finite_dom_tab_map [simp]: "finite (dom (tab_map view xs))"
proof (induction xs)
  case Nil
  then show ?case by simp
next
  case (Cons x xs)
  then show ?case by (cases "view x") (auto split: prod.splits)
qed

lemma occupancy: "tab_ok view xs \<Longrightarrow> card (dom (tab_map view xs)) + free_slots view xs = length xs"
proof (induction xs)
  case Nil
  then show ?case by (simp add: free_slots_def)
next
  case (Cons x xs)
  have ih: "card (dom (tab_map view xs)) + free_slots view xs = length xs"
    by (rule Cons.IH [OF tab_ok_Cons [OF Cons.prems]])
  show ?case
  proof (cases "view x")
    case None
    then show ?thesis using ih by (simp add: free_slots_def)
  next
    case (Some kv)
    obtain k v where kv: "view x = Some (k, v)" using Some by (cases kv) simp
    then have "tab_map view xs k = None" using tab_ok_Cons_head [OF Cons.prems] by auto
    then have "k \<notin> dom (tab_map view xs)" by auto
    then have "card (dom ((tab_map view xs)(k \<mapsto> v))) = Suc (card (dom (tab_map view xs)))"
      by (simp only: dom_fun_upd) simp
    then show ?thesis using ih kv by (simp add: free_slots_def del: fun_upd_apply)
  qed
qed

lemma free_slot_exists:
  "find_idx (\<lambda>x. view x = None) xs = None \<longleftrightarrow> free_slots view xs = 0"
  by (auto simp: find_idx_None free_slots_def filter_empty_conv)

lemma tab_full: "tab_ok view xs \<Longrightarrow>
  find_idx (\<lambda>x. view x = None) xs = None \<longleftrightarrow> card (dom (tab_map view xs)) = length xs"
  using occupancy [of view xs] by (auto simp: free_slot_exists)

lemma tab_ok_all_free: "\<forall>x\<in>set xs. view x = None \<Longrightarrow> tab_ok view xs"
  unfolding tab_ok_def by (auto dest: not_holds_free)

lemma tab_map_all_free: "\<forall>x\<in>set xs. view x = None \<Longrightarrow> tab_map view xs = Map.empty"
  by (induction xs) auto

end
