(* ===== verification/BB_Storage.thy ===== *)
theory BB_Storage
  imports BB_Str BB_Table
begin

text \<open>
  The storage facade of \<^verbatim>\<open>platform/host/bb_storage/bb_storage.c\<close> with the types of \<^verbatim>\<open>bb_storage.h\<close>:
  the registry of back ends, the dispatch through their tables of function pointers, and multi-key
  transactions. \<^verbatim>\<open>'w\<close> is the static memory of the back ends. A computation that would call or
  dereference NULL has no result (\<^verbatim>\<open>None\<close>); a C string is the list of its characters.
\<close>

section \<open>Computations over the static memory of the back ends\<close>

type_synonym ('w, 'a) io = "'w \<Rightarrow> ('a \<times> 'w) option"
type_synonym ptr = "nat option"
type_synonym bytes = "u8 list option"

definition ret :: "'a \<Rightarrow> ('w, 'a) io" where "ret x = (\<lambda>w. Some (x, w))"

text \<open>The call of a function pointer that may be NULL.\<close>

definition call :: "'f option \<Rightarrow> ('f \<Rightarrow> ('w, 'a) io) \<Rightarrow> ('w, 'a) io" where
  "call f k = (case f of None \<Rightarrow> (\<lambda>w. None) | Some g \<Rightarrow> k g)"

text \<open>Use of the result of a call.\<close>

definition then_ret :: "('w, 'a) io \<Rightarrow> ('a \<Rightarrow> 'b) \<Rightarrow> ('w, 'b) io" where
  "then_ret m f = (\<lambda>w. map_option (\<lambda>(x, w'). (f x, w')) (m w))"

lemma call_simps [simp]: "call (Some g) k = k g" "call None k w = None"
  by (simp_all add: call_def)

lemma ret_app [simp]: "ret x w = Some (x, w)"
  by (simp add: ret_def)

lemma then_ret_app: "m w = Some (x, w') \<Longrightarrow> then_ret m f w = Some (f x, w')"
  by (simp add: then_ret_def)

lemma then_ret_None [simp]: "then_ret m f w = None \<longleftrightarrow> m w = None"
  by (simp add: then_ret_def)

section \<open>Types\<close>

definition BB_STORAGE_MAX_BACKENDS :: nat where "BB_STORAGE_MAX_BACKENDS = 4"
definition BB_STORAGE_TXN_VALUE_MAX_BYTES :: nat where "BB_STORAGE_TXN_VALUE_MAX_BYTES = 64"
definition BB_STORAGE_TXN_KEY_MAX_BYTES :: nat where "BB_STORAGE_TXN_KEY_MAX_BYTES = 32"

record bb_storage_addr_t =
  ad_backend :: "string option"
  ad_ns_or_dir :: "string option"
  ad_key :: "string option"

datatype bb_storage_enc_t =
    BB_STORAGE_ENC_BLOB
  | BB_STORAGE_ENC_STR
  | BB_STORAGE_ENC_U8
  | BB_STORAGE_ENC_U16
  | BB_STORAGE_ENC_U32
  | BB_STORAGE_ENC_I32

record bb_storage_entry_t =
  en_ns_or_dir :: "char list"
  en_key :: "char list"
  en_enc :: bb_storage_enc_t
  en_len :: nat

record bb_storage_stats_t =
  st_used_bytes :: nat
  st_free_bytes :: nat
  st_total_bytes :: nat
  st_namespace_count :: nat

record bb_storage_txn_slot_t =
  ts_used :: bool
  ts_key :: "char list"
  ts_value :: "u8 list"
  ts_len :: nat
  ts_enc :: bb_storage_enc_t

text \<open>The fields of a transaction that back ends read and write, and the handle: those and the
  function pointers captured when the transaction began.\<close>

record bb_storage_txn_fields =
  tx_err :: bb_err_t
  tx_open :: bool
  tx_handle :: nat
  tx_slots :: "bb_storage_txn_slot_t list"
  tx_cap :: nat

type_synonym 'w txn_set_fn =
  "ptr \<Rightarrow> bb_storage_txn_fields \<Rightarrow> string \<Rightarrow> bb_storage_enc_t \<Rightarrow> bytes \<Rightarrow> nat \<Rightarrow> ('w, bb_err_t \<times> bb_storage_txn_fields) io"
type_synonym 'w txn_end_fn = "ptr \<Rightarrow> bb_storage_txn_fields \<Rightarrow> ('w, bb_err_t \<times> bb_storage_txn_fields) io"

record 'w bb_storage_txn_t =
  tx_txn_set :: "'w txn_set_fn option"
  tx_txn_commit :: "'w txn_end_fn option"
  tx_txn_abort :: "'w txn_end_fn option"
  tx_impl :: ptr
  tx_fields :: bb_storage_txn_fields

text \<open>A read returns the result code, the buffer and the length it reports.\<close>

type_synonym 'w get_fn = "ptr \<Rightarrow> bb_storage_addr_t \<Rightarrow> bytes \<Rightarrow> nat \<Rightarrow> nat \<Rightarrow> ('w, bb_err_t \<times> bytes \<times> nat) io"

record 'w bb_storage_vtable_t =
  vt_get :: "'w get_fn option"
  vt_set :: "(ptr \<Rightarrow> bb_storage_addr_t \<Rightarrow> bytes \<Rightarrow> nat \<Rightarrow> ('w, bb_err_t) io) option"
  vt_erase :: "(ptr \<Rightarrow> bb_storage_addr_t \<Rightarrow> ('w, bb_err_t) io) option"
  vt_exists :: "(ptr \<Rightarrow> bb_storage_addr_t \<Rightarrow> ('w, bool) io) option"
  vt_erase_namespace :: "(ptr \<Rightarrow> string \<Rightarrow> ('w, bb_err_t) io) option"
  vt_erase_all :: "(ptr \<Rightarrow> ('w, bb_err_t) io) option"
  vt_get_typed :: "(bb_storage_enc_t \<Rightarrow> 'w get_fn) option"
  vt_set_typed :: "(ptr \<Rightarrow> bb_storage_addr_t \<Rightarrow> bb_storage_enc_t \<Rightarrow> bytes \<Rightarrow> nat \<Rightarrow> ('w, bb_err_t) io) option"
  vt_txn_begin :: "(ptr \<Rightarrow> bb_storage_txn_fields \<Rightarrow> string \<Rightarrow> ('w, bb_err_t \<times> bb_storage_txn_fields) io) option"
  vt_txn_set :: "'w txn_set_fn option"
  vt_txn_commit :: "'w txn_end_fn option"
  vt_txn_abort :: "'w txn_end_fn option"
  vt_list_entries :: "(ptr \<Rightarrow> string option \<Rightarrow> bb_storage_entry_t list \<Rightarrow> nat \<Rightarrow> nat
                        \<Rightarrow> ('w, bb_err_t \<times> bb_storage_entry_t list \<times> nat) io) option"
  vt_get_stats :: "(ptr \<Rightarrow> bb_storage_stats_t \<Rightarrow> ('w, bb_err_t \<times> bb_storage_stats_t) io) option"

record 'w bb_storage_backend_entry_t =
  be_name :: "string option"
  be_vt :: "'w bb_storage_vtable_t"
  be_impl :: ptr

text \<open>The file-scope state: the array of entries and how many are in use.\<close>

record 'w bb_storage_registry =
  s_backends :: "'w bb_storage_backend_entry_t list"
  s_count :: nat

definition vtable_zero :: "'w bb_storage_vtable_t" where
  "vtable_zero = \<lparr>vt_get = None, vt_set = None, vt_erase = None, vt_exists = None, vt_erase_namespace = None,
     vt_erase_all = None, vt_get_typed = None, vt_set_typed = None, vt_txn_begin = None, vt_txn_set = None,
     vt_txn_commit = None, vt_txn_abort = None, vt_list_entries = None, vt_get_stats = None\<rparr>"

definition slot_zero :: bb_storage_txn_slot_t where
  "slot_zero = \<lparr>ts_used = False, ts_key = replicate BB_STORAGE_TXN_KEY_MAX_BYTES NUL,
     ts_value = replicate BB_STORAGE_TXN_VALUE_MAX_BYTES 0, ts_len = 0, ts_enc = BB_STORAGE_ENC_BLOB\<rparr>"

definition txn_fields_zero :: bb_storage_txn_fields where
  "txn_fields_zero = \<lparr>tx_err = BB_OK, tx_open = False, tx_handle = 0, tx_slots = [], tx_cap = 0\<rparr>"

definition txn_zero :: "'w bb_storage_txn_t" where
  "txn_zero = \<lparr>tx_txn_set = None, tx_txn_commit = None, tx_txn_abort = None, tx_impl = None,
     tx_fields = txn_fields_zero\<rparr>"

section \<open>The registry of back ends\<close>

definition bb_storage_test_reset :: "'w bb_storage_registry" where
  "bb_storage_test_reset = \<lparr>s_backends = replicate BB_STORAGE_MAX_BACKENDS
     \<lparr>be_name = None, be_vt = vtable_zero, be_impl = None\<rparr>, s_count = 0\<rparr>"

definition entry_named :: "string \<Rightarrow> 'w bb_storage_backend_entry_t \<Rightarrow> bool" where
  "entry_named name e \<longleftrightarrow> be_name e = Some name"

text \<open>How many of the four transaction members are set.\<close>

definition txn_set_count :: "'w bb_storage_vtable_t \<Rightarrow> nat" where
  "txn_set_count vt = of_bool (vt_txn_begin vt \<noteq> None) + of_bool (vt_txn_set vt \<noteq> None) +
     of_bool (vt_txn_commit vt \<noteq> None) + of_bool (vt_txn_abort vt \<noteq> None)"

definition bb_storage_register_backend ::
  "'w bb_storage_registry \<Rightarrow> string option \<Rightarrow> 'w bb_storage_vtable_t option \<Rightarrow> ptr \<Rightarrow> bb_err_t \<times> 'w bb_storage_registry"
where
  "bb_storage_register_backend r name vt impl =
     (case (name, vt) of
        (Some n, Some v) \<Rightarrow>
          (if vt_get v = None \<or> vt_set v = None \<or> vt_erase v = None \<or> vt_exists v = None
             then (BB_ERR_INVALID_ARG, r)
           else if (vt_get_typed v = None) \<noteq> (vt_set_typed v = None) then (BB_ERR_INVALID_ARG, r)
           else if txn_set_count v \<noteq> 0 \<and> txn_set_count v \<noteq> 4 then (BB_ERR_INVALID_ARG, r)
           else if (vt_list_entries v = None) \<noteq> (vt_get_stats v = None) then (BB_ERR_INVALID_ARG, r)
           else if find_idx (entry_named n) (take (s_count r) (s_backends r)) \<noteq> None
             then (BB_ERR_INVALID_STATE, r)
           else if s_count r \<ge> BB_STORAGE_MAX_BACKENDS then (BB_ERR_NO_SPACE, r)
           else (BB_OK, r\<lparr>s_backends := (s_backends r)[s_count r := \<lparr>be_name = Some n, be_vt = v, be_impl = impl\<rparr>],
                          s_count := s_count r + 1\<rparr>))
      | _ \<Rightarrow> (BB_ERR_INVALID_ARG, r))"

definition find_backend :: "'w bb_storage_registry \<Rightarrow> string \<Rightarrow> 'w bb_storage_backend_entry_t option" where
  "find_backend r name =
     map_option (\<lambda>i. s_backends r ! i) (find_idx (entry_named name) (take (s_count r) (s_backends r)))"

section \<open>Dispatch\<close>

text \<open>Whether a buffer of a positive length is missing.\<close>

abbreviation no_buf :: "nat \<Rightarrow> 'a option \<Rightarrow> bool" where
  "no_buf n b \<equiv> 0 < n \<and> b = None"

definition bb_storage_get ::
  "'w bb_storage_registry \<Rightarrow> bb_storage_addr_t option \<Rightarrow> bytes \<Rightarrow> nat \<Rightarrow> nat option \<Rightarrow> ('w, bb_err_t \<times> bytes \<times> nat option) io"
where
  "bb_storage_get r addr buf cap out_len =
     (case (addr, out_len) of
        (Some a, Some ol) \<Rightarrow>
          (case ad_backend a of
             None \<Rightarrow> ret (BB_ERR_INVALID_ARG, buf, out_len)
           | Some b \<Rightarrow>
               if no_buf cap buf then ret (BB_ERR_INVALID_ARG, buf, out_len)
               else (case find_backend r b of
                       None \<Rightarrow> ret (BB_ERR_NOT_FOUND, buf, out_len)
                     | Some e \<Rightarrow> call (vt_get (be_vt e))
                         (\<lambda>f. then_ret (f (be_impl e) a buf cap ol) (\<lambda>(err, bf, l). (err, bf, Some l)))))
      | _ \<Rightarrow> ret (BB_ERR_INVALID_ARG, buf, out_len))"

definition bb_storage_set ::
  "'w bb_storage_registry \<Rightarrow> bb_storage_addr_t option \<Rightarrow> bytes \<Rightarrow> nat \<Rightarrow> ('w, bb_err_t) io"
where
  "bb_storage_set r addr buf len =
     (case addr of
        None \<Rightarrow> ret BB_ERR_INVALID_ARG
      | Some a \<Rightarrow>
          (case ad_backend a of
             None \<Rightarrow> ret BB_ERR_INVALID_ARG
           | Some b \<Rightarrow>
               if no_buf len buf then ret BB_ERR_INVALID_ARG
               else (case find_backend r b of
                       None \<Rightarrow> ret BB_ERR_NOT_FOUND
                     | Some e \<Rightarrow> call (vt_set (be_vt e)) (\<lambda>f. f (be_impl e) a buf len))))"

definition bb_storage_erase :: "'w bb_storage_registry \<Rightarrow> bb_storage_addr_t option \<Rightarrow> ('w, bb_err_t) io" where
  "bb_storage_erase r addr =
     (case addr of
        None \<Rightarrow> ret BB_ERR_INVALID_ARG
      | Some a \<Rightarrow>
          (case ad_backend a of
             None \<Rightarrow> ret BB_ERR_INVALID_ARG
           | Some b \<Rightarrow>
               (case find_backend r b of
                  None \<Rightarrow> ret BB_ERR_NOT_FOUND
                | Some e \<Rightarrow> call (vt_erase (be_vt e)) (\<lambda>f. f (be_impl e) a))))"

definition bb_storage_erase_namespace ::
  "'w bb_storage_registry \<Rightarrow> string option \<Rightarrow> string option \<Rightarrow> ('w, bb_err_t) io"
where
  "bb_storage_erase_namespace r backend ns =
     (case (backend, ns) of
        (Some b, Some n) \<Rightarrow>
          (case find_backend r b of
             None \<Rightarrow> ret BB_ERR_NOT_FOUND
           | Some e \<Rightarrow> if vt_erase_namespace (be_vt e) = None then ret BB_ERR_UNSUPPORTED
                       else call (vt_erase_namespace (be_vt e)) (\<lambda>f. f (be_impl e) n))
      | _ \<Rightarrow> ret BB_ERR_INVALID_ARG)"

definition bb_storage_erase_all :: "'w bb_storage_registry \<Rightarrow> string option \<Rightarrow> ('w, bb_err_t) io" where
  "bb_storage_erase_all r backend =
     (case backend of
        None \<Rightarrow> ret BB_ERR_INVALID_ARG
      | Some b \<Rightarrow>
          (case find_backend r b of
             None \<Rightarrow> ret BB_ERR_NOT_FOUND
           | Some e \<Rightarrow> if vt_erase_all (be_vt e) = None then ret BB_ERR_UNSUPPORTED
                       else call (vt_erase_all (be_vt e)) (\<lambda>f. f (be_impl e))))"

definition bb_storage_exists :: "'w bb_storage_registry \<Rightarrow> bb_storage_addr_t option \<Rightarrow> ('w, bool) io" where
  "bb_storage_exists r addr =
     (case addr of
        None \<Rightarrow> ret False
      | Some a \<Rightarrow>
          (case ad_backend a of
             None \<Rightarrow> ret False
           | Some b \<Rightarrow>
               (case find_backend r b of
                  None \<Rightarrow> ret False
                | Some e \<Rightarrow> call (vt_exists (be_vt e)) (\<lambda>f. f (be_impl e) a))))"

definition bb_storage_get_typed ::
  "'w bb_storage_registry \<Rightarrow> bb_storage_addr_t option \<Rightarrow> bb_storage_enc_t \<Rightarrow> bytes \<Rightarrow> nat \<Rightarrow> nat option
     \<Rightarrow> ('w, bb_err_t \<times> bytes \<times> nat option) io"
where
  "bb_storage_get_typed r addr enc buf cap out_len =
     (case (addr, out_len) of
        (Some a, Some ol) \<Rightarrow>
          (case ad_backend a of
             None \<Rightarrow> ret (BB_ERR_INVALID_ARG, buf, out_len)
           | Some b \<Rightarrow>
               if no_buf cap buf then ret (BB_ERR_INVALID_ARG, buf, out_len)
               else (case find_backend r b of
                       None \<Rightarrow> ret (BB_ERR_NOT_FOUND, buf, out_len)
                     | Some e \<Rightarrow>
                         (if vt_get_typed (be_vt e) \<noteq> None
                          then call (vt_get_typed (be_vt e))
                            (\<lambda>f. then_ret (f enc (be_impl e) a buf cap ol) (\<lambda>(err, bf, l). (err, bf, Some l)))
                          else call (vt_get (be_vt e))
                            (\<lambda>f. then_ret (f (be_impl e) a buf cap ol) (\<lambda>(err, bf, l). (err, bf, Some l))))))
      | _ \<Rightarrow> ret (BB_ERR_INVALID_ARG, buf, out_len))"

definition bb_storage_set_typed ::
  "'w bb_storage_registry \<Rightarrow> bb_storage_addr_t option \<Rightarrow> bb_storage_enc_t \<Rightarrow> bytes \<Rightarrow> nat \<Rightarrow> ('w, bb_err_t) io"
where
  "bb_storage_set_typed r addr enc buf len =
     (case addr of
        None \<Rightarrow> ret BB_ERR_INVALID_ARG
      | Some a \<Rightarrow>
          (case ad_backend a of
             None \<Rightarrow> ret BB_ERR_INVALID_ARG
           | Some b \<Rightarrow>
               if no_buf len buf then ret BB_ERR_INVALID_ARG
               else (case find_backend r b of
                       None \<Rightarrow> ret BB_ERR_NOT_FOUND
                     | Some e \<Rightarrow>
                         (if vt_set_typed (be_vt e) \<noteq> None
                          then call (vt_set_typed (be_vt e)) (\<lambda>f. f (be_impl e) a enc buf len)
                          else call (vt_set (be_vt e)) (\<lambda>f. f (be_impl e) a buf len)))))"

section \<open>Transactions\<close>

text \<open>The array of slots is the caller's; the handle holds it from the moment it is wired.\<close>

definition bb_storage_txn_begin ::
  "'w bb_storage_registry \<Rightarrow> string option \<Rightarrow> string option \<Rightarrow> 'w bb_storage_txn_t option
     \<Rightarrow> bb_storage_txn_slot_t list option \<Rightarrow> nat \<Rightarrow> ('w, bb_err_t \<times> 'w bb_storage_txn_t option) io"
where
  "bb_storage_txn_begin r backend ns txn slots cap =
     (case (backend, ns, txn) of
        (Some b, Some n, Some t) \<Rightarrow>
          (if no_buf cap slots then ret (BB_ERR_INVALID_ARG, txn)
           else if tx_open (tx_fields t) then ret (BB_ERR_INVALID_STATE, txn)
           else (case find_backend r b of
                   None \<Rightarrow> ret (BB_ERR_NOT_FOUND, txn)
                 | Some e \<Rightarrow>
                     if vt_txn_begin (be_vt e) = None then ret (BB_ERR_UNSUPPORTED, txn)
                     else
                       let sl = the_default [] slots;
                           sl0 = (if 0 < cap then replicate cap slot_zero @ drop cap sl else sl);
                           t0 = \<lparr>tx_txn_set = vt_txn_set (be_vt e), tx_txn_commit = vt_txn_commit (be_vt e),
                                 tx_txn_abort = vt_txn_abort (be_vt e), tx_impl = be_impl e,
                                 tx_fields = txn_fields_zero\<lparr>tx_slots := sl0, tx_cap := cap\<rparr>\<rparr>
                       in call (vt_txn_begin (be_vt e))
                            (\<lambda>f. then_ret (f (be_impl e) (tx_fields t0) n)
                                   (\<lambda>(err, d). (err, Some (t0\<lparr>tx_fields := d\<rparr>))))))
      | _ \<Rightarrow> ret (BB_ERR_INVALID_ARG, txn))"

definition poison :: "bb_err_t \<Rightarrow> bb_storage_txn_fields \<Rightarrow> bb_storage_txn_fields" where
  "poison err d = (if err \<noteq> BB_OK then d\<lparr>tx_err := err\<rparr> else d)"

definition bb_storage_txn_set ::
  "'w bb_storage_txn_t option \<Rightarrow> string option \<Rightarrow> bb_storage_enc_t \<Rightarrow> bytes \<Rightarrow> nat
     \<Rightarrow> ('w, bb_err_t \<times> 'w bb_storage_txn_t option) io"
where
  "bb_storage_txn_set txn key enc buf len =
     (case (txn, key) of
        (Some t, Some k) \<Rightarrow>
          (if \<not> tx_open (tx_fields t) then ret (BB_ERR_INVALID_STATE, txn)
           else if tx_err (tx_fields t) \<noteq> BB_OK then ret (tx_err (tx_fields t), txn)
           else call (tx_txn_set t) (\<lambda>f. then_ret (f (tx_impl t) (tx_fields t) k enc buf len)
                  (\<lambda>(err, d). (err, Some (t\<lparr>tx_fields := poison err d\<rparr>)))))
      | _ \<Rightarrow> ret (BB_ERR_INVALID_ARG, txn))"

definition bb_storage_txn_commit :: "'w bb_storage_txn_t option \<Rightarrow> ('w, bb_err_t \<times> 'w bb_storage_txn_t option) io" where
  "bb_storage_txn_commit txn =
     (case txn of
        None \<Rightarrow> ret (BB_ERR_INVALID_ARG, txn)
      | Some t \<Rightarrow>
          (if \<not> tx_open (tx_fields t) then ret (BB_ERR_INVALID_STATE, txn)
           else call (tx_txn_commit t) (\<lambda>f. then_ret (f (tx_impl t) (tx_fields t))
                  (\<lambda>(err, d). (err, Some (t\<lparr>tx_fields := (if err \<noteq> BB_OK \<and> tx_err d = BB_OK then d\<lparr>tx_err := err\<rparr> else d)\<rparr>))))))"

definition bb_storage_txn_abort :: "'w bb_storage_txn_t option \<Rightarrow> ('w, bb_err_t \<times> 'w bb_storage_txn_t option) io" where
  "bb_storage_txn_abort txn =
     (case txn of
        None \<Rightarrow> ret (BB_ERR_INVALID_ARG, txn)
      | Some t \<Rightarrow>
          (if \<not> tx_open (tx_fields t) then ret (BB_OK, txn)
           else call (tx_txn_abort t) (\<lambda>f. then_ret (f (tx_impl t) (tx_fields t))
                  (\<lambda>(err, d). (err, Some (t\<lparr>tx_fields := d\<rparr>))))))"

definition slot_for :: "string \<Rightarrow> bb_storage_txn_slot_t \<Rightarrow> bool" where
  "slot_for key s \<longleftrightarrow> ts_used s \<and> cstr (ts_key s) = key"

text \<open>The two scans: a slot already staged for the key, else a free one.\<close>

definition stage_idx :: "bb_storage_txn_fields \<Rightarrow> string \<Rightarrow> nat option" where
  "stage_idx d key =
     (case find_idx (slot_for key) (take (tx_cap d) (tx_slots d)) of
        Some i \<Rightarrow> Some i
      | None \<Rightarrow> find_idx (\<lambda>s. \<not> ts_used s) (take (tx_cap d) (tx_slots d)))"

text \<open>Copying from NULL a positive number of bytes has no result.\<close>

definition bb_storage_txn_slot_stage ::
  "bb_storage_txn_fields option \<Rightarrow> string option \<Rightarrow> bb_storage_enc_t \<Rightarrow> bytes \<Rightarrow> nat
     \<Rightarrow> (bb_err_t \<times> bb_storage_txn_fields option) option"
where
  "bb_storage_txn_slot_stage txn key enc buf len =
     (case (txn, key) of
        (Some d, Some k) \<Rightarrow>
          (if len > BB_STORAGE_TXN_VALUE_MAX_BYTES then Some (BB_ERR_NO_SPACE, txn)
           else if length k \<ge> BB_STORAGE_TXN_KEY_MAX_BYTES then Some (BB_ERR_INVALID_ARG, txn)
           else (case stage_idx d k of
                   None \<Rightarrow> Some (BB_ERR_NO_SPACE, txn)
                 | Some i \<Rightarrow>
                     if no_buf len buf then None
                     else let s = tx_slots d ! i in
                       Some (BB_OK, Some (d\<lparr>tx_slots := (tx_slots d)[i :=
                         \<lparr>ts_used = True, ts_key = snd (bb_strlcpy (ts_key s) k BB_STORAGE_TXN_KEY_MAX_BYTES),
                          ts_value = blit (ts_value s) 0 (take len (the_default [] buf)),
                          ts_len = len, ts_enc = enc\<rparr>]\<rparr>))))
      | _ \<Rightarrow> Some (BB_ERR_INVALID_ARG, txn))"

section \<open>Enumeration and statistics\<close>

definition bb_storage_list_entries ::
  "'w bb_storage_registry \<Rightarrow> string option \<Rightarrow> string option \<Rightarrow> bb_storage_entry_t list option \<Rightarrow> nat \<Rightarrow> nat option
     \<Rightarrow> ('w, bb_err_t \<times> bb_storage_entry_t list option \<times> nat option) io"
where
  "bb_storage_list_entries r backend ns out cap cnt =
     (case (backend, cnt) of
        (Some b, Some c) \<Rightarrow>
          (if no_buf cap out then ret (BB_ERR_INVALID_ARG, out, cnt)
           else (case find_backend r b of
                   None \<Rightarrow> ret (BB_ERR_NOT_FOUND, out, cnt)
                 | Some e \<Rightarrow>
                     if vt_list_entries (be_vt e) = None then ret (BB_ERR_UNSUPPORTED, out, cnt)
                     else call (vt_list_entries (be_vt e))
                       (\<lambda>f. then_ret (f (be_impl e) ns (the_default [] out) cap c)
                              (\<lambda>(err, es, c'). (err, map_option (\<lambda>_. es) out, Some c')))))
      | _ \<Rightarrow> ret (BB_ERR_INVALID_ARG, out, cnt))"

definition bb_storage_get_stats ::
  "'w bb_storage_registry \<Rightarrow> string option \<Rightarrow> bb_storage_stats_t option \<Rightarrow> ('w, bb_err_t \<times> bb_storage_stats_t option) io"
where
  "bb_storage_get_stats r backend out =
     (case (backend, out) of
        (Some b, Some st) \<Rightarrow>
          (case find_backend r b of
             None \<Rightarrow> ret (BB_ERR_NOT_FOUND, out)
           | Some e \<Rightarrow>
               if vt_get_stats (be_vt e) = None then ret (BB_ERR_UNSUPPORTED, out)
               else call (vt_get_stats (be_vt e))
                 (\<lambda>f. then_ret (f (be_impl e) st) (\<lambda>(err, st'). (err, Some st'))))
      | _ \<Rightarrow> ret (BB_ERR_INVALID_ARG, out))"

section \<open>Registered tables are complete\<close>

definition vt_complete :: "'w bb_storage_vtable_t \<Rightarrow> bool" where
  "vt_complete v \<longleftrightarrow> vt_get v \<noteq> None \<and> vt_set v \<noteq> None \<and> vt_erase v \<noteq> None \<and> vt_exists v \<noteq> None \<and>
     (vt_get_typed v = None) = (vt_set_typed v = None) \<and> (txn_set_count v = 0 \<or> txn_set_count v = 4) \<and>
     (vt_list_entries v = None) = (vt_get_stats v = None)"

definition storage_inv :: "'w bb_storage_vtable_t set \<Rightarrow> 'w bb_storage_registry \<Rightarrow> bool" where
  "storage_inv V r \<longleftrightarrow> length (s_backends r) = BB_STORAGE_MAX_BACKENDS \<and> s_count r \<le> BB_STORAGE_MAX_BACKENDS \<and>
     (\<forall>e\<in>set (take (s_count r) (s_backends r)). be_name e \<noteq> None \<and> be_vt e \<in> V \<and> vt_complete (be_vt e)) \<and>
     distinct (map be_name (take (s_count r) (s_backends r)))"

lemma storage_inv_reset: "storage_inv V bb_storage_test_reset"
  by (simp add: storage_inv_def bb_storage_test_reset_def)

lemma txn_group:
  assumes "vt_complete v" and "vt_txn_begin v \<noteq> None"
  shows "vt_txn_set v \<noteq> None" "vt_txn_commit v \<noteq> None" "vt_txn_abort v \<noteq> None"
  using assms by (auto simp: vt_complete_def txn_set_count_def of_bool_def split: if_splits)

text \<open>A registration that succeeds was of a complete table under a new name, in a free place.\<close>

lemma register_ok:
  assumes "bb_storage_register_backend r name vt impl = (BB_OK, r')"
  obtains n v where "name = Some n" "vt = Some v" "vt_complete v"
    "find_idx (entry_named n) (take (s_count r) (s_backends r)) = None" "s_count r < BB_STORAGE_MAX_BACKENDS"
    "r' = r\<lparr>s_backends := (s_backends r)[s_count r := \<lparr>be_name = Some n, be_vt = v, be_impl = impl\<rparr>],
            s_count := s_count r + 1\<rparr>"
  using assms unfolding bb_storage_register_backend_def vt_complete_def
  by (auto split: option.splits if_splits)

lemma register_fails: "bb_storage_register_backend r name vt impl = (e, r') \<Longrightarrow> e \<noteq> BB_OK \<Longrightarrow> r' = r"
  unfolding bb_storage_register_backend_def by (auto split: option.splits if_splits)

lemma storage_inv_register:
  assumes inv: "storage_inv V r" and v: "\<And>v. vt = Some v \<Longrightarrow> v \<in> V"
  shows "storage_inv V (snd (bb_storage_register_backend r name vt impl))"
proof (cases "bb_storage_register_backend r name vt impl")
  case (Pair e r')
  show ?thesis
  proof (cases "e = BB_OK")
    case False
    then show ?thesis using register_fails [OF Pair] inv Pair by simp
  next
    case True
    then obtain n v where nv: "vt = Some v" "vt_complete v"
      "find_idx (entry_named n) (take (s_count r) (s_backends r)) = None" "s_count r < BB_STORAGE_MAX_BACKENDS"
      and r': "r' = r\<lparr>s_backends := (s_backends r)[s_count r := \<lparr>be_name = Some n, be_vt = v, be_impl = impl\<rparr>],
                      s_count := s_count r + 1\<rparr>"
      using Pair by (auto elim: register_ok)
    have len: "length (s_backends r) = BB_STORAGE_MAX_BACKENDS" using inv by (simp add: storage_inv_def)
    have tk: "take (s_count r') (s_backends r') =
        take (s_count r) (s_backends r) @ [\<lparr>be_name = Some n, be_vt = v, be_impl = impl\<rparr>]"
      using nv(4) len by (simp add: r' take_Suc_update)
    have "Some n \<notin> set (map be_name (take (s_count r) (s_backends r)))"
      using nv(3) by (auto simp: find_idx_None entry_named_def)
    moreover have "v \<in> V" using nv(1) by (rule v)
    ultimately have "storage_inv V r'" using inv nv(2,4) len unfolding storage_inv_def tk by (auto simp: r')
    then show ?thesis by (simp add: Pair)
  qed
qed

lemma find_backend_SomeD:
  assumes "storage_inv V r" and "find_backend r b = Some e"
  shows "be_vt e \<in> V" "vt_complete (be_vt e)" "be_name e = Some b"
proof -
  obtain i where i: "find_idx (entry_named b) (take (s_count r) (s_backends r)) = Some i" "e = s_backends r ! i"
    using assms(2) by (auto simp: find_backend_def)
  have lt: "i < length (take (s_count r) (s_backends r))" using i(1) by (rule find_idx_SomeD)
  then have e: "e = take (s_count r) (s_backends r) ! i" using i(2) by simp
  then have "e \<in> set (take (s_count r) (s_backends r))" using lt nth_mem by metis
  then show "be_vt e \<in> V" "vt_complete (be_vt e)" using assms(1) by (auto simp: storage_inv_def)
  show "be_name e = Some b" using find_idx_SomeD(2) [OF i(1)] e by (simp add: entry_named_def)
qed

text \<open>The first registration of a name wins: it is what the name resolves to from then on.\<close>

lemma find_after_register:
  assumes inv: "storage_inv V r"
    and reg: "bb_storage_register_backend r (Some n) (Some v) impl = (BB_OK, r')"
  shows "find_backend r' b = (if b = n then Some \<lparr>be_name = Some n, be_vt = v, be_impl = impl\<rparr> else find_backend r b)"
proof -
  let ?e = "\<lparr>be_name = Some n, be_vt = v, be_impl = impl\<rparr>" and ?xs = "take (s_count r) (s_backends r)"
  from reg have new: "find_idx (entry_named n) ?xs = None" and room: "s_count r < BB_STORAGE_MAX_BACKENDS"
    and r': "r' = r\<lparr>s_backends := (s_backends r)[s_count r := ?e], s_count := s_count r + 1\<rparr>"
    by (auto elim: register_ok)
  have len: "length (s_backends r) = BB_STORAGE_MAX_BACKENDS" using inv by (simp add: storage_inv_def)
  then have tk: "take (s_count r') (s_backends r') = ?xs @ [?e]" using room by (simp add: r' take_Suc_update)
  have app: "find_idx p (ys @ [y]) = (case find_idx p ys of Some i \<Rightarrow> Some i | None \<Rightarrow> if p y then Some (length ys) else None)"
    for p and ys :: "'a bb_storage_backend_entry_t list" and y
    by (induction ys) (auto split: option.splits)
  have nth: "s_backends r' ! i = (if i < s_count r then s_backends r ! i else s_backends r' ! i)" for i
    by (simp add: r')
  have lx: "length ?xs = s_count r" using len room by simp
  show ?thesis
  proof (cases "find_idx (entry_named b) ?xs")
    case None
    then show ?thesis using lx len room unfolding find_backend_def tk app by (auto simp: entry_named_def r')
  next
    case (Some i)
    then have "i < s_count r" using find_idx_SomeD(1) lx by metis
    moreover have "b \<noteq> n" using Some new by auto
    ultimately show ?thesis using Some unfolding find_backend_def tk app by (simp add: r')
  qed
qed

end
