(* ===== verification/BB_Storage_Laws.thy ===== *)
theory BB_Storage_Laws
  imports BB_Storage
begin

text \<open>
  What the storage facade relies on and what it gives: the staging area of a transaction as a finite
  map, and the contracts between the facade and its back ends as locales, with the facade's own guarantees
  proved once inside each.
\<close>

section \<open>The staging area\<close>

abbreviation c_string :: "string \<Rightarrow> bool" where "c_string s \<equiv> NUL \<notin> set s"

lemma strlcpy_key:
  assumes "c_string k" and "length k < n" and "length d = n"
  shows "length (snd (bb_strlcpy d k n)) = n" "cstr (snd (bb_strlcpy d k n)) = k"
proof -
  have "blit d 0 k = k @ drop (length k) d" by (simp add: blit_def)
  then have e: "snd (bb_strlcpy d k n) = k @ NUL # drop (Suc (length k)) d"
    using assms by (cases "drop (length k) d")
      (auto simp: bb_strlcpy_def Let_def list_update_append drop_Suc tl_drop [symmetric])
  show "length (snd (bb_strlcpy d k n)) = n" using assms by (simp add: e)
  show "cstr (snd (bb_strlcpy d k n)) = k" using assms(1) by (simp add: e cstr_id)
qed

definition slot_view :: "bb_storage_txn_slot_t \<Rightarrow> (string \<times> u8 list) option" where
  "slot_view s = (if ts_used s then Some (cstr (ts_key s), take (ts_len s) (ts_value s)) else None)"

definition wired :: "bb_storage_txn_fields \<Rightarrow> bb_storage_txn_slot_t list" where
  "wired d = take (tx_cap d) (tx_slots d)"

definition staged :: "bb_storage_txn_fields \<Rightarrow> (string \<rightharpoonup> u8 list)" where
  "staged d = tab_map slot_view (wired d)"

definition slot_wf :: "bb_storage_txn_slot_t \<Rightarrow> bool" where
  "slot_wf s \<longleftrightarrow> length (ts_key s) = BB_STORAGE_TXN_KEY_MAX_BYTES \<and>
     length (ts_value s) = BB_STORAGE_TXN_VALUE_MAX_BYTES \<and> ts_len s \<le> BB_STORAGE_TXN_VALUE_MAX_BYTES \<and>
     (ts_used s \<longrightarrow> length (cstr (ts_key s)) < BB_STORAGE_TXN_KEY_MAX_BYTES)"

definition txn_wf :: "bb_storage_txn_fields \<Rightarrow> bool" where
  "txn_wf d \<longleftrightarrow> tx_cap d \<le> length (tx_slots d) \<and> (\<forall>s\<in>set (wired d). slot_wf s) \<and> tab_ok slot_view (wired d)"

lemma holds_slot [simp]: "holds slot_view k = slot_for k"
  by (auto simp: fun_eq_iff holds_def slot_view_def slot_for_def)

lemma slot_view_None [simp]: "slot_view s = None \<longleftrightarrow> \<not> ts_used s"
  by (simp add: slot_view_def)

lemma slot_view_free [simp]: "\<not> ts_used s \<Longrightarrow> slot_view s = None"
  by simp

lemma slot_zero_wf: "slot_wf slot_zero" "slot_view slot_zero = None"
  by (simp_all add: slot_wf_def slot_zero_def slot_view_def)

lemma wired_fresh: "tx_slots d = replicate (tx_cap d) slot_zero @ xs \<Longrightarrow> txn_wf d \<and> staged d = Map.empty"
  by (auto simp: txn_wf_def staged_def wired_def slot_zero_wf intro: tab_ok_all_free tab_map_all_free)

lemma staged_open [simp]: "staged (d\<lparr>tx_open := b\<rparr>) = staged d" "staged (d\<lparr>tx_err := e\<rparr>) = staged d"
  "txn_wf (d\<lparr>tx_open := b\<rparr>) = txn_wf d" "txn_wf (d\<lparr>tx_err := e\<rparr>) = txn_wf d"
  by (simp_all add: staged_def txn_wf_def wired_def)

text \<open>The slot chosen is inside the array and is the only one that holds the key, or free.\<close>

lemma stage_idxD:
  assumes "txn_wf d" and "stage_idx d k = Some i"
  shows "i < length (wired d)" "\<forall>j<length (wired d). j \<noteq> i \<longrightarrow> \<not> slot_for k (wired d ! j)"
    "\<not> ts_used (wired d ! i) \<or> slot_for k (wired d ! i)"
proof -
  have ok: "tab_ok slot_view (wired d)" using assms(1) by (simp add: txn_wf_def)
  have "i < length (wired d) \<and> (\<forall>j<length (wired d). j \<noteq> i \<longrightarrow> \<not> slot_for k (wired d ! j)) \<and>
     (\<not> ts_used (wired d ! i) \<or> slot_for k (wired d ! i))"
  proof (cases "find_idx (slot_for k) (wired d)")
    case (Some j)
    then have "j = i" using assms(2) by (simp add: stage_idx_def wired_def)
    then show ?thesis using Some found_unique [OF ok, of k] find_idx_SomeD [OF Some] by auto
  next
    case None
    then have f: "find_idx (\<lambda>s. \<not> ts_used s) (wired d) = Some i" using assms(2) by (simp add: stage_idx_def wired_def)
    show ?thesis using find_idx_SomeD [OF f] None by (auto simp: find_idx_None)
  qed
  then show "i < length (wired d)" "\<forall>j<length (wired d). j \<noteq> i \<longrightarrow> \<not> slot_for k (wired d ! j)"
    "\<not> ts_used (wired d ! i) \<or> slot_for k (wired d ! i)" by auto
qed

text \<open>Staging binds the key, whatever was staged for it before, and touches nothing else.\<close>

lemma slot_stage_ok:
  assumes wf: "txn_wf d" and k: "c_string k" and b: "len \<le> length b"
    and st: "bb_storage_txn_slot_stage (Some d) (Some k) enc (Some b) len = Some (BB_OK, x)"
  obtains d' where "x = Some d'" "txn_wf d'" "staged d' = (staged d)(k \<mapsto> take len b)"
    "tx_open d' = tx_open d" "tx_err d' = tx_err d" "tx_cap d' = tx_cap d"
proof -
  obtain i where i: "stage_idx d k = Some i" and len: "len \<le> BB_STORAGE_TXN_VALUE_MAX_BYTES"
    and key: "length k < BB_STORAGE_TXN_KEY_MAX_BYTES"
    and x: "x = Some (d\<lparr>tx_slots := (tx_slots d)[i :=
       \<lparr>ts_used = True, ts_key = snd (bb_strlcpy (ts_key (tx_slots d ! i)) k BB_STORAGE_TXN_KEY_MAX_BYTES),
        ts_value = blit (ts_value (tx_slots d ! i)) 0 (take len b), ts_len = len, ts_enc = enc\<rparr>]\<rparr>)"
    using st by (auto simp: bb_storage_txn_slot_stage_def the_default_def Let_def split: if_splits option.splits)
  define s where "s = \<lparr>ts_used = True, ts_key = snd (bb_strlcpy (ts_key (tx_slots d ! i)) k BB_STORAGE_TXN_KEY_MAX_BYTES),
        ts_value = blit (ts_value (tx_slots d ! i)) 0 (take len b), ts_len = len, ts_enc = enc\<rparr>"
  let ?d = "d\<lparr>tx_slots := (tx_slots d)[i := s]\<rparr>"
  note ix = stage_idxD [OF wf i]
  have sl: "wired d ! i = tx_slots d ! i" using ix(1) by (simp add: wired_def)
  then have "slot_wf (tx_slots d ! i)" using wf ix(1) nth_mem by (fastforce simp: txn_wf_def)
  then have kl: "length (ts_key (tx_slots d ! i)) = BB_STORAGE_TXN_KEY_MAX_BYTES"
    and vl: "length (ts_value (tx_slots d ! i)) = BB_STORAGE_TXN_VALUE_MAX_BYTES" by (simp_all add: slot_wf_def)
  have sk: "length (ts_key s) = BB_STORAGE_TXN_KEY_MAX_BYTES" "cstr (ts_key s) = k"
    using strlcpy_key [OF k key kl] by (simp_all add: s_def)
  have sv: "take len (ts_value s) = take len b" "length (ts_value s) = BB_STORAGE_TXN_VALUE_MAX_BYTES"
    using b len vl by (simp_all add: s_def blit_def)
  have view: "slot_view s = Some (k, take len b)" using sk sv by (simp add: slot_view_def s_def)
  have w: "wired ?d = (wired d)[i := s]" by (simp add: wired_def take_update_swap)
  have "slot_wf s" using sk sv len key by (simp add: slot_wf_def) (simp add: s_def)
  then have "\<forall>s'\<in>set (wired ?d). slot_wf s'"
    using wf set_update_subset_insert [of "wired d" i s] unfolding w txn_wf_def by blast
  moreover have "tab_ok slot_view (wired ?d)" unfolding w
    by (rule tab_ok_write [where k = k]) (use wf ix view in \<open>auto simp: txn_wf_def\<close>)
  ultimately have "txn_wf ?d" using wf by (simp add: txn_wf_def)
  moreover have "staged ?d = (staged d)(k \<mapsto> take len b)" unfolding staged_def w
    by (rule tab_map_write) (use ix view in auto)
  ultimately show thesis using that [of ?d] x by (simp add: s_def)
qed

lemma slot_stage_error:
  "bb_storage_txn_slot_stage (Some d) (Some k) enc (Some b) len = Some (e, x) \<Longrightarrow> e \<noteq> BB_OK \<Longrightarrow> x = Some d"
  by (auto simp: bb_storage_txn_slot_stage_def Let_def split: if_splits option.splits)

lemma slot_stage_total:
  "\<not> no_buf len buf \<Longrightarrow> \<exists>e d'. bb_storage_txn_slot_stage (Some d) (Some k) enc buf len = Some (e, Some d')"
  by (auto simp: bb_storage_txn_slot_stage_def Let_def split: if_splits option.splits)

section \<open>Contract 1: back ends that never touch NULL\<close>

text \<open>\<^verbatim>\<open>runs I Q m w\<close>: the computation has a result that satisfies \<^verbatim>\<open>Q\<close>, and keeps \<^verbatim>\<open>I\<close>.\<close>

definition runs :: "('w \<Rightarrow> bool) \<Rightarrow> ('a \<Rightarrow> bool) \<Rightarrow> ('w, 'a) io \<Rightarrow> 'w \<Rightarrow> bool" where
  "runs I Q m w \<longleftrightarrow> (case m w of None \<Rightarrow> False | Some (x, w') \<Rightarrow> I w' \<and> Q x)"

abbreviation anything :: "'a \<Rightarrow> bool" where "anything \<equiv> (\<lambda>x. True)"

lemma runs_ret [simp]: "runs I Q (ret x) w \<longleftrightarrow> I w \<and> Q x"
  by (simp add: runs_def)

lemma runs_then_ret [simp]: "runs I Q (then_ret m f) w = runs I (\<lambda>x. Q (f x)) m w"
  by (auto simp: runs_def then_ret_def split: option.splits)

lemma runs_mono: "runs I Q m w \<Longrightarrow> (\<And>x. Q x \<Longrightarrow> R x) \<Longrightarrow> runs I R m w"
  by (auto simp: runs_def split: option.splits)

lemma runsE:
  assumes "runs I Q m w" obtains x w' where "m w = Some (x, w')" "I w'" "Q x"
  using assms by (auto simp: runs_def split: option.splits)

lemma runsI: "m w = Some (x, w') \<Longrightarrow> I w' \<Longrightarrow> Q x \<Longrightarrow> runs I Q m w"
  by (simp add: runs_def)

text \<open>What C leaves to the caller: strings are terminated, a buffer has the length given with it.\<close>

definition key_ok :: "string option \<Rightarrow> bool" where
  "key_ok k \<longleftrightarrow> (case k of None \<Rightarrow> True | Some s \<Rightarrow> c_string s)"

definition buf_ok :: "nat \<Rightarrow> 'a list option \<Rightarrow> bool" where
  "buf_ok n buf \<longleftrightarrow> (case buf of None \<Rightarrow> n = 0 | Some b \<Rightarrow> n \<le> length b)"

lemma slot_stage_none:
  "bb_storage_txn_slot_stage t k enc None 0 = bb_storage_txn_slot_stage t k enc (Some []) 0"
  by (auto simp: bb_storage_txn_slot_stage_def the_default_def split: option.splits)

lemma slot_stage_wf:
  assumes wf: "txn_wf d" and b: "buf_ok n buf" and k: "c_string k"
  shows "\<exists>e d'. bb_storage_txn_slot_stage (Some d) (Some k) enc buf n = Some (e, Some d') \<and> txn_wf d' \<and>
    (staged d' = staged d \<or> staged d' = (staged d)(k \<mapsto> take n (the_default [] buf)))"
proof -
  obtain b' where b': "n \<le> length b'" "take n (the_default [] buf) = take n b'"
    and eq: "bb_storage_txn_slot_stage (Some d) (Some k) enc buf n = bb_storage_txn_slot_stage (Some d) (Some k) enc (Some b') n"
    using b by (cases buf) (auto simp: buf_ok_def slot_stage_none the_default_def)
  obtain e d' where st: "bb_storage_txn_slot_stage (Some d) (Some k) enc (Some b') n = Some (e, Some d')"
    using slot_stage_total [of n "Some b'" d k enc] by auto
  show ?thesis
  proof (cases "e = BB_OK")
    case True
    then show ?thesis using slot_stage_ok [OF wf k b'(1) st [unfolded True]] eq st b'(2) by auto
  next
    case False
    then show ?thesis using slot_stage_error [OF st] wf eq st by auto
  qed
qed

text \<open>A back end comes with the predicate its staging areas satisfy.\<close>

locale safe_backends =
  fixes I :: "'w \<Rightarrow> bool" and V :: "('w bb_storage_vtable_t \<times> (bb_storage_txn_fields \<Rightarrow> bool)) set"
  assumes safe_get: "(v, D) \<in> V \<Longrightarrow> vt_get v = Some f1 \<Longrightarrow> I w \<Longrightarrow> buf_ok cap buf \<Longrightarrow>
          runs I anything (f1 p a buf cap ol) w"
    and safe_set: "(v, D) \<in> V \<Longrightarrow> vt_set v = Some f2 \<Longrightarrow> I w \<Longrightarrow> buf_ok n buf \<Longrightarrow> key_ok (ad_key a) \<Longrightarrow>
          runs I anything (f2 p a buf n) w"
    and safe_erase: "(v, D) \<in> V \<Longrightarrow> vt_erase v = Some f3 \<Longrightarrow> I w \<Longrightarrow> runs I anything (f3 p a) w"
    and safe_exists: "(v, D) \<in> V \<Longrightarrow> vt_exists v = Some f4 \<Longrightarrow> I w \<Longrightarrow> runs I anything (f4 p a) w"
    and safe_erase_ns: "(v, D) \<in> V \<Longrightarrow> vt_erase_namespace v = Some f5 \<Longrightarrow> I w \<Longrightarrow> runs I anything (f5 p ns) w"
    and safe_erase_all: "(v, D) \<in> V \<Longrightarrow> vt_erase_all v = Some f6 \<Longrightarrow> I w \<Longrightarrow> runs I anything (f6 p) w"
    and safe_get_typed: "(v, D) \<in> V \<Longrightarrow> vt_get_typed v = Some f7 \<Longrightarrow> I w \<Longrightarrow> buf_ok cap buf \<Longrightarrow>
          runs I anything (f7 enc p a buf cap ol) w"
    and safe_set_typed: "(v, D) \<in> V \<Longrightarrow> vt_set_typed v = Some f8 \<Longrightarrow> I w \<Longrightarrow> buf_ok n buf \<Longrightarrow> key_ok (ad_key a) \<Longrightarrow>
          runs I anything (f8 p a enc buf n) w"
    and safe_begin: "(v, D) \<in> V \<Longrightarrow> vt_txn_begin v = Some f9 \<Longrightarrow> I w \<Longrightarrow> txn_wf d \<Longrightarrow> staged d = Map.empty \<Longrightarrow>
          runs I (\<lambda>x. D (snd x)) (f9 p d nd) w"
    and safe_txn_set: "(v, D) \<in> V \<Longrightarrow> vt_txn_set v = Some f10 \<Longrightarrow> I w \<Longrightarrow> D d \<Longrightarrow> buf_ok n buf \<Longrightarrow> c_string k \<Longrightarrow>
          runs I (\<lambda>x. D (snd x)) (f10 p d k enc buf n) w"
    and safe_err: "(v, D) \<in> V \<Longrightarrow> D d \<Longrightarrow> D (d\<lparr>tx_err := err\<rparr>)"
    and safe_commit: "(v, D) \<in> V \<Longrightarrow> vt_txn_commit v = Some f11 \<Longrightarrow> I w \<Longrightarrow> D d \<Longrightarrow> runs I (\<lambda>x. D (snd x)) (f11 p d) w"
    and safe_abort: "(v, D) \<in> V \<Longrightarrow> vt_txn_abort v = Some f12 \<Longrightarrow> I w \<Longrightarrow> D d \<Longrightarrow> runs I (\<lambda>x. D (snd x)) (f12 p d) w"
    and safe_list: "(v, D) \<in> V \<Longrightarrow> vt_list_entries v = Some f13 \<Longrightarrow> I w \<Longrightarrow> runs I anything (f13 p nd' es cap c) w"
    and safe_stats: "(v, D) \<in> V \<Longrightarrow> vt_get_stats v = Some f14 \<Longrightarrow> I w \<Longrightarrow> runs I anything (f14 p st) w"

text \<open>Back ends that keep the same invariant can be registered side by side.\<close>

lemma safe_backends_Un:
  assumes A: "safe_backends I V" and B: "safe_backends I W"
  shows "safe_backends I (V \<union> W)"
proof (rule safe_backends.intro, goal_cases)
  case 1
  then show ?case by (elim UnE) (rule safe_backends.safe_get [OF A], assumption+, rule safe_backends.safe_get [OF B], assumption+)
next
  case 2
  then show ?case by (elim UnE) (rule safe_backends.safe_set [OF A], assumption+, rule safe_backends.safe_set [OF B], assumption+)
next
  case 3
  then show ?case by (elim UnE) (rule safe_backends.safe_erase [OF A], assumption+, rule safe_backends.safe_erase [OF B], assumption+)
next
  case 4
  then show ?case by (elim UnE) (rule safe_backends.safe_exists [OF A], assumption+, rule safe_backends.safe_exists [OF B], assumption+)
next
  case 5
  then show ?case by (elim UnE) (rule safe_backends.safe_erase_ns [OF A], assumption+, rule safe_backends.safe_erase_ns [OF B], assumption+)
next
  case 6
  then show ?case by (elim UnE) (rule safe_backends.safe_erase_all [OF A], assumption+, rule safe_backends.safe_erase_all [OF B], assumption+)
next
  case 7
  then show ?case by (elim UnE) (rule safe_backends.safe_get_typed [OF A], assumption+, rule safe_backends.safe_get_typed [OF B], assumption+)
next
  case 8
  then show ?case by (elim UnE) (rule safe_backends.safe_set_typed [OF A], assumption+, rule safe_backends.safe_set_typed [OF B], assumption+)
next
  case 9
  then show ?case by (elim UnE) (rule safe_backends.safe_begin [OF A], assumption+, rule safe_backends.safe_begin [OF B], assumption+)
next
  case 10
  then show ?case by (elim UnE) (rule safe_backends.safe_txn_set [OF A], assumption+, rule safe_backends.safe_txn_set [OF B], assumption+)
next
  case 11
  then show ?case by (elim UnE) (rule safe_backends.safe_err [OF A], assumption+, rule safe_backends.safe_err [OF B], assumption+)
next
  case 12
  then show ?case by (elim UnE) (rule safe_backends.safe_commit [OF A], assumption+, rule safe_backends.safe_commit [OF B], assumption+)
next
  case 13
  then show ?case by (elim UnE) (rule safe_backends.safe_abort [OF A], assumption+, rule safe_backends.safe_abort [OF B], assumption+)
next
  case 14
  then show ?case by (elim UnE) (rule safe_backends.safe_list [OF A], assumption+, rule safe_backends.safe_list [OF B], assumption+)
next
  case 15
  then show ?case by (elim UnE) (rule safe_backends.safe_stats [OF A], assumption+, rule safe_backends.safe_stats [OF B], assumption+)
qed

text \<open>The calls an application can make, and one run of them over a single handle.\<close>

datatype storage_call =
    Get "bb_storage_addr_t option" bytes nat "nat option"
  | Set "bb_storage_addr_t option" bytes nat
  | Erase "bb_storage_addr_t option"
  | Exists "bb_storage_addr_t option"
  | EraseNamespace "string option" "string option"
  | EraseAll "string option"
  | GetTyped "bb_storage_addr_t option" bb_storage_enc_t bytes nat "nat option"
  | SetTyped "bb_storage_addr_t option" bb_storage_enc_t bytes nat
  | TxnBegin "string option" "string option" "bb_storage_txn_slot_t list option" nat
  | TxnSet "string option" bb_storage_enc_t bytes nat
  | TxnCommit
  | TxnAbort
  | ListEntries "string option" "string option" "bb_storage_entry_t list option" nat "nat option"
  | GetStats "string option" "bb_storage_stats_t option"

fun storage_do ::
  "'w bb_storage_registry \<Rightarrow> 'w bb_storage_txn_t option \<Rightarrow> storage_call \<Rightarrow> ('w, 'w bb_storage_txn_t option) io"
where
  "storage_do r t (Get a b c ol) = then_ret (bb_storage_get r a b c ol) (\<lambda>_. t)"
| "storage_do r t (Set a b n) = then_ret (bb_storage_set r a b n) (\<lambda>_. t)"
| "storage_do r t (Erase a) = then_ret (bb_storage_erase r a) (\<lambda>_. t)"
| "storage_do r t (Exists a) = then_ret (bb_storage_exists r a) (\<lambda>_. t)"
| "storage_do r t (EraseNamespace b ns) = then_ret (bb_storage_erase_namespace r b ns) (\<lambda>_. t)"
| "storage_do r t (EraseAll b) = then_ret (bb_storage_erase_all r b) (\<lambda>_. t)"
| "storage_do r t (GetTyped a e b c ol) = then_ret (bb_storage_get_typed r a e b c ol) (\<lambda>_. t)"
| "storage_do r t (SetTyped a e b n) = then_ret (bb_storage_set_typed r a e b n) (\<lambda>_. t)"
| "storage_do r t (TxnBegin b ns sl c) = then_ret (bb_storage_txn_begin r b ns t sl c) snd"
| "storage_do r t (TxnSet k e b n) = then_ret (bb_storage_txn_set t k e b n) snd"
| "storage_do r t TxnCommit = then_ret (bb_storage_txn_commit t) snd"
| "storage_do r t TxnAbort = then_ret (bb_storage_txn_abort t) snd"
| "storage_do r t (ListEntries b ns es c n) = then_ret (bb_storage_list_entries r b ns es c n) (\<lambda>_. t)"
| "storage_do r t (GetStats b st) = then_ret (bb_storage_get_stats r b st) (\<lambda>_. t)"

fun storage_run ::
  "'w bb_storage_registry \<Rightarrow> storage_call list \<Rightarrow> 'w bb_storage_txn_t option \<times> 'w \<Rightarrow> ('w bb_storage_txn_t option \<times> 'w) option"
where
  "storage_run r [] s = Some s"
| "storage_run r (c # cs) (t, w) = (case storage_do r t c w of None \<Rightarrow> None | Some s \<Rightarrow> storage_run r cs s)"

text \<open>The obligations of the caller. A NULL buffer is tested by every call but a staged write, whose caller
  must bring the bytes.\<close>

definition addr_ok :: "bb_storage_addr_t option \<Rightarrow> bool" where
  "addr_ok a \<longleftrightarrow> (case a of None \<Rightarrow> True | Some x \<Rightarrow> key_ok (ad_key x))"

fun call_ok :: "storage_call \<Rightarrow> bool" where
  "call_ok (Get a b c ol) = (b = None \<or> buf_ok c b)"
| "call_ok (Set a b n) = (addr_ok a \<and> (b = None \<or> buf_ok n b))"
| "call_ok (GetTyped a e b c ol) = (b = None \<or> buf_ok c b)"
| "call_ok (SetTyped a e b n) = (addr_ok a \<and> (b = None \<or> buf_ok n b))"
| "call_ok (TxnBegin bk ns sl c) = (sl = None \<or> buf_ok c sl)"
| "call_ok (TxnSet k e b n) = (key_ok k \<and> buf_ok n b)"
| "call_ok c = True"

context safe_backends
begin

text \<open>An open handle carries the pointers of a complete table and a sound staging area.\<close>

definition handle_ok :: "'w bb_storage_txn_t option \<Rightarrow> bool" where
  "handle_ok t \<longleftrightarrow> (case t of None \<Rightarrow> True | Some h \<Rightarrow> tx_open (tx_fields h) \<longrightarrow>
     (\<exists>(v, D)\<in>V. D (tx_fields h) \<and> vt_complete v \<and> vt_txn_begin v \<noteq> None \<and> tx_txn_set h = vt_txn_set v \<and>
        tx_txn_commit h = vt_txn_commit v \<and> tx_txn_abort h = vt_txn_abort v))"

lemma handle_ok_zero: "handle_ok None" "handle_ok (Some txn_zero)"
  by (simp_all add: handle_ok_def txn_zero_def txn_fields_zero_def)

lemma buf_given: "\<not> no_buf n b \<Longrightarrow> b = None \<or> buf_ok n b \<Longrightarrow> buf_ok n b"
  by (auto simp: buf_ok_def)

lemma plain_calls:
  assumes r: "storage_inv (fst ` V) r" and w: "I w"
  shows "runs I anything (bb_storage_erase r a) w" "runs I anything (bb_storage_exists r a) w"
    "runs I anything (bb_storage_erase_namespace r bk ns) w" "runs I anything (bb_storage_erase_all r bk) w"
    "runs I anything (bb_storage_list_entries r bk ns es c cn) w" "runs I anything (bb_storage_get_stats r bk st) w"
proof -
  have fD: "(\<exists>D. (be_vt e, D) \<in> V) \<and> vt_erase (be_vt e) \<noteq> None \<and> vt_exists (be_vt e) \<noteq> None" if "find_backend r x = Some e" for x e
    using find_backend_SomeD [OF r that] by (force simp: vt_complete_def)
  show "runs I anything (bb_storage_erase r a) w"
    by (auto simp: bb_storage_erase_def w dest!: fD intro!: safe_erase split: option.splits)
  show "runs I anything (bb_storage_exists r a) w"
    by (auto simp: bb_storage_exists_def w dest!: fD intro!: safe_exists split: option.splits)
  show "runs I anything (bb_storage_erase_namespace r bk ns) w"
    by (auto simp: bb_storage_erase_namespace_def w dest!: fD intro!: safe_erase_ns split: option.splits)
  show "runs I anything (bb_storage_erase_all r bk) w"
    by (auto simp: bb_storage_erase_all_def w dest!: fD intro!: safe_erase_all split: option.splits)
  show "runs I anything (bb_storage_list_entries r bk ns es c cn) w"
    by (auto simp: bb_storage_list_entries_def w dest!: fD intro!: safe_list split: option.splits)
  show "runs I anything (bb_storage_get_stats r bk st) w"
    by (auto simp: bb_storage_get_stats_def w dest!: fD intro!: safe_stats split: option.splits)
qed

lemma buffer_reads:
  assumes r: "storage_inv (fst ` V) r" and w: "I w" and b: "b = None \<or> buf_ok n b"
  shows "runs I anything (bb_storage_get r a b n ol) w" "runs I anything (bb_storage_get_typed r a enc b n ol) w"
proof -
  have fD: "(\<exists>D. (be_vt e, D) \<in> V) \<and> vt_get (be_vt e) \<noteq> None" if "find_backend r x = Some e" for x e
    using find_backend_SomeD [OF r that] by (force simp: vt_complete_def)
  have g: "runs I anything (call (vt_get (be_vt e)) (\<lambda>f. then_ret (f p x c m l) h)) w"
    if "find_backend r y = Some e" "buf_ok m c" for x y e p l c m and h :: "_ \<Rightarrow> 'c"
    using fD [OF that(1)] by (auto intro: safe_get [OF _ _ w that(2)])
  have gt: "runs I anything (f enc p x c m l) w"
    if "vt_get_typed (be_vt e) = Some f" "find_backend r y = Some e" "buf_ok m c" for x y e f p l c m
    using fD [OF that(2)] by (auto intro: safe_get_typed [OF _ that(1) w that(3)])
  show "runs I anything (bb_storage_get r a b n ol) w" "runs I anything (bb_storage_get_typed r a enc b n ol) w"
    using b by (auto simp: bb_storage_get_def bb_storage_get_typed_def w intro!: g split: option.splits)
      (auto simp: buf_ok_def intro: gt split: option.splits)
qed

lemma buffer_writes:
  assumes r: "storage_inv (fst ` V) r" and w: "I w" and b: "b = None \<or> buf_ok n b" and a: "addr_ok a"
  shows "runs I anything (bb_storage_set r a b n) w" "runs I anything (bb_storage_set_typed r a enc b n) w"
proof -
  have fD: "(\<exists>D. (be_vt e, D) \<in> V) \<and> vt_set (be_vt e) \<noteq> None" if "find_backend r x = Some e" for x e
    using find_backend_SomeD [OF r that] by (force simp: vt_complete_def)
  have g: "runs I anything (call (vt_set (be_vt e)) (\<lambda>f. f p x c m)) w"
    if "find_backend r y = Some e" "buf_ok m c" "key_ok (ad_key x)" for x y e p c m
    using fD [OF that(1)] by (auto intro: safe_set [OF _ _ w that(2,3)])
  have gt: "runs I anything (f p x enc c m) w"
    if "vt_set_typed (be_vt e) = Some f" "find_backend r y = Some e" "buf_ok m c" "key_ok (ad_key x)" for x y e f p c m
    using fD [OF that(2)] by (auto intro: safe_set_typed [OF _ that(1) w that(3,4)])
  show "runs I anything (bb_storage_set r a b n) w" "runs I anything (bb_storage_set_typed r a enc b n) w"
    using b a by (auto simp: bb_storage_set_def bb_storage_set_typed_def addr_ok_def w intro!: g split: option.splits)
      (auto simp: buf_ok_def intro: gt split: option.splits)
qed

text \<open>A transaction call also leaves a sound handle behind.\<close>

abbreviation ok_handle :: "bb_err_t \<times> 'w bb_storage_txn_t option \<Rightarrow> bool" where
  "ok_handle x \<equiv> handle_ok (snd x)"

lemma txn_begin_runs:
  assumes r: "storage_inv (fst ` V) r" and w: "I w" and t: "handle_ok t" and s: "sl = None \<or> buf_ok c sl"
  shows "runs I ok_handle (bb_storage_txn_begin r b ns t sl c) w"
proof -
  have fD: "(\<exists>D. (be_vt e, D) \<in> V) \<and> vt_complete (be_vt e)" if "find_backend r x = Some e" for x e
    using find_backend_SomeD [OF r that] by force
  have go: "runs I (\<lambda>x. ok_handle (case x of (err, d) \<Rightarrow> (err, Some \<lparr>tx_txn_set = vt_txn_set (be_vt e),
      tx_txn_commit = vt_txn_commit (be_vt e), tx_txn_abort = vt_txn_abort (be_vt e), tx_impl = p, tx_fields = d\<rparr>)))
      (f p d n) w"
    if e: "find_backend r x = Some e" and f: "vt_txn_begin (be_vt e) = Some f" and d: "txn_wf d \<and> staged d = Map.empty"
    for x e f p d n
  proof -
    obtain D where D: "(be_vt e, D) \<in> V" using fD [OF e] by blast
    have "txn_wf d" "staged d = Map.empty" using d by simp_all
    then show ?thesis
      by (rule runs_mono [OF safe_begin [OF D f w]])
        (use fD [OF e] f D in \<open>auto simp: handle_ok_def intro!: bexI [of _ "(be_vt e, D)"]\<close>)
  qed
  have wf0: "txn_wf (txn_fields_zero\<lparr>tx_slots := x, tx_cap := 0\<rparr>) \<and>
      staged (txn_fields_zero\<lparr>tx_slots := x, tx_cap := 0\<rparr>) = Map.empty" for x
    by (rule wired_fresh [where xs = x]) simp
  have wfc: "txn_wf (txn_fields_zero\<lparr>tx_slots := replicate c slot_zero @ x, tx_cap := c\<rparr>) \<and>
      staged (txn_fields_zero\<lparr>tx_slots := replicate c slot_zero @ x, tx_cap := c\<rparr>) = Map.empty" for x
    by (rule wired_fresh [where xs = x]) simp
  show ?thesis using t unfolding bb_storage_txn_begin_def Let_def
    by (auto simp: w intro!: go wf0 wfc split: option.splits)
qed

lemma open_handle:
  assumes "handle_ok (Some h)" and "tx_open (tx_fields h)"
  obtains v D f g k where "(v, D) \<in> V" "vt_txn_set v = Some f" "vt_txn_commit v = Some g" "vt_txn_abort v = Some k"
    "tx_txn_set h = Some f" "tx_txn_commit h = Some g" "tx_txn_abort h = Some k" "D (tx_fields h)"
    "\<And>d. D d \<Longrightarrow> handle_ok (Some (h\<lparr>tx_fields := d\<rparr>))"
proof -
  obtain v D where v: "(v, D) \<in> V" "vt_complete v" "vt_txn_begin v \<noteq> None" "tx_txn_set h = vt_txn_set v"
    "tx_txn_commit h = vt_txn_commit v" "tx_txn_abort h = vt_txn_abort v" "D (tx_fields h)"
    using assms by (auto simp: handle_ok_def)
  have "handle_ok (Some (h\<lparr>tx_fields := d\<rparr>))" if "D d" for d
    using v that by (auto simp: handle_ok_def intro!: bexI [of _ "(v, D)"])
  then show thesis using that v txn_group [OF v(2,3)] by (metis option.exhaust)
qed

lemma txn_set_runs:
  assumes w: "I w" and t: "handle_ok t" and b: "buf_ok n b" and k: "key_ok k"
  shows "runs I ok_handle (bb_storage_txn_set t k enc b n) w"
proof (cases "\<exists>h x. t = Some h \<and> k = Some x \<and> tx_open (tx_fields h) \<and> tx_err (tx_fields h) = BB_OK")
  case True
  then obtain h x where h: "t = Some h" "k = Some x" "tx_open (tx_fields h)" "tx_err (tx_fields h) = BB_OK" by blast
  have ho: "handle_ok (Some h)" using t h(1) by simp
  obtain v D f where v: "(v, D) \<in> V" "vt_txn_set v = Some f" "tx_txn_set h = Some f" "D (tx_fields h)"
    and keep: "\<And>d. D d \<Longrightarrow> handle_ok (Some (h\<lparr>tx_fields := d\<rparr>))" by (rule open_handle [OF ho h(3)]) blast
  have "c_string x" using k h(2) by (simp add: key_ok_def)
  then have "runs I (\<lambda>x. D (snd x)) (f (tx_impl h) (tx_fields h) x enc b n) w" by (rule safe_txn_set [OF v(1,2) w v(4) b])
  then show ?thesis unfolding bb_storage_txn_set_def
    by (auto simp: h v poison_def elim!: runs_mono intro!: keep safe_err [OF v(1)])
next
  case False
  then show ?thesis using w t by (auto simp: bb_storage_txn_set_def split: option.splits)
qed

lemma txn_commit_runs:
  assumes w: "I w" and t: "handle_ok t"
  shows "runs I ok_handle (bb_storage_txn_commit t) w"
proof (cases "\<exists>h. t = Some h \<and> tx_open (tx_fields h)")
  case True
  then obtain h where h: "t = Some h" "tx_open (tx_fields h)" by blast
  have ho: "handle_ok (Some h)" using t h(1) by simp
  obtain v D f where v: "(v, D) \<in> V" "vt_txn_commit v = Some f" "tx_txn_commit h = Some f" "D (tx_fields h)"
    and keep: "\<And>d. D d \<Longrightarrow> handle_ok (Some (h\<lparr>tx_fields := d\<rparr>))" by (rule open_handle [OF ho h(2)]) blast
  show ?thesis using safe_commit [OF v(1,2) w v(4), of "tx_impl h"] unfolding bb_storage_txn_commit_def
    by (auto simp: h v elim!: runs_mono intro!: keep safe_err [OF v(1)])
next
  case False
  then show ?thesis using w t by (auto simp: bb_storage_txn_commit_def split: option.splits)
qed

lemma txn_abort_runs:
  assumes w: "I w" and t: "handle_ok t"
  shows "runs I ok_handle (bb_storage_txn_abort t) w"
proof (cases "\<exists>h. t = Some h \<and> tx_open (tx_fields h)")
  case True
  then obtain h where h: "t = Some h" "tx_open (tx_fields h)" by blast
  have ho: "handle_ok (Some h)" using t h(1) by simp
  obtain v D f where v: "(v, D) \<in> V" "vt_txn_abort v = Some f" "tx_txn_abort h = Some f" "D (tx_fields h)"
    and keep: "\<And>d. D d \<Longrightarrow> handle_ok (Some (h\<lparr>tx_fields := d\<rparr>))" by (rule open_handle [OF ho h(2)]) blast
  show ?thesis using safe_abort [OF v(1,2) w v(4), of "tx_impl h"] unfolding bb_storage_txn_abort_def
    by (auto simp: h v elim!: runs_mono intro!: keep)
next
  case False
  then show ?thesis using w t by (auto simp: bb_storage_txn_abort_def split: option.splits)
qed

text \<open>One call, and any run of calls.\<close>

lemma do_runs:
  assumes r: "storage_inv (fst ` V) r" and w: "I w" and t: "handle_ok t" and c: "call_ok c"
  shows "runs I handle_ok (storage_do r t c) w"
  using t c by (cases c) (simp_all add: plain_calls [OF r w] buffer_reads [OF r w] buffer_writes [OF r w]
      txn_begin_runs [OF r w] txn_set_runs [OF w] txn_commit_runs [OF w] txn_abort_runs [OF w])

lemma run_runs:
  "storage_inv (fst ` V) r \<Longrightarrow> I w \<Longrightarrow> handle_ok t \<Longrightarrow> list_all call_ok cs \<Longrightarrow>
   \<exists>t' w'. storage_run r cs (t, w) = Some (t', w') \<and> handle_ok t' \<and> I w'"
proof (induction cs arbitrary: t w)
  case Nil
  then show ?case by simp
next
  case (Cons c cs)
  then have "runs I handle_ok (storage_do r t c) w" by (simp add: do_runs)
  then obtain t' w' where s: "storage_do r t c w = Some (t', w')" "handle_ok t'" "I w'" by (rule runsE)
  then have "\<exists>t'' w''. storage_run r cs (t', w') = Some (t'', w'') \<and> handle_ok t'' \<and> I w''"
    using Cons.IH Cons.prems by simp
  then show ?case using s(1) by simp
qed

end

section \<open>Contract 2: what was written is read back\<close>

text \<open>
  \<^verbatim>\<open>lookup\<close> is the content of the store, \<^verbatim>\<open>gate w k v\<close> says that the back end takes the value \<^verbatim>\<open>v\<close> under
  the key \<^verbatim>\<open>k\<close>, \<^verbatim>\<open>plain k v\<close> that it gives it back unchanged. Nothing is said of other keys: a store may keep several in one record.
\<close>

locale readback_backend =
  fixes vt :: "'w bb_storage_vtable_t" and inv :: "'w \<Rightarrow> bool"
    and lookup :: "'w \<Rightarrow> string \<Rightarrow> u8 list option" and gate :: "'w \<Rightarrow> string \<Rightarrow> u8 list \<Rightarrow> bool"
    and plain :: "string \<Rightarrow> u8 list \<Rightarrow> bool"
  assumes get_found: "inv w \<Longrightarrow> ad_key a = Some k \<Longrightarrow> lookup w k = Some v \<Longrightarrow> length v < cap \<Longrightarrow> cap \<le> length b \<Longrightarrow>
        \<exists>b'. length b' = length b - length v \<and>
          call (vt_get vt) (\<lambda>f. f p a (Some b) cap ol) w = Some ((BB_OK, Some (v @ b'), length v), w)"
    and get_absent: "inv w \<Longrightarrow> ad_key a = Some k \<Longrightarrow> lookup w k = None \<Longrightarrow>
        call (vt_get vt) (\<lambda>f. f p a buf cap ol) w = Some ((BB_ERR_NOT_FOUND, buf, ol), w)"
    and set_law: "inv w \<Longrightarrow> ad_key a = Some k \<Longrightarrow> c_string k \<Longrightarrow> n \<le> length b \<Longrightarrow>
        \<exists>e w'. call (vt_set vt) (\<lambda>f. f p a (Some b) n) w = Some (e, w') \<and> inv w' \<and>
          (e = BB_OK \<longleftrightarrow> gate w k (take n b)) \<and> (e = BB_OK \<longrightarrow> plain k (take n b) \<longrightarrow> lookup w' k = Some (take n b)) \<and>
          (e \<noteq> BB_OK \<longrightarrow> lookup w' = lookup w)"
begin

text \<open>Through the facade, under whatever name the back end was registered.\<close>

lemma facade_set:
  assumes e: "find_backend r bk = Some e" "be_vt e = vt" and a: "ad_backend a = Some bk" "ad_key a = Some k"
    and w: "inv w" and k: "c_string k" and n: "n \<le> length b"
  obtains err w' where "bb_storage_set r (Some a) (Some b) n w = Some (err, w')" "inv w'"
    "err = BB_OK \<longleftrightarrow> gate w k (take n b)" "err = BB_OK \<longrightarrow> plain k (take n b) \<longrightarrow> lookup w' k = Some (take n b)"
    "err \<noteq> BB_OK \<longrightarrow> lookup w' = lookup w"
proof -
  have "bb_storage_set r (Some a) (Some b) n = call (vt_set vt) (\<lambda>f. f (be_impl e) a (Some b) n)"
    by (simp add: bb_storage_set_def a e)
  then show thesis using that set_law [OF w a(2) k n, of "be_impl e"] by auto
qed

lemma facade_get:
  assumes e: "find_backend r bk = Some e" "be_vt e = vt" and a: "ad_backend a = Some bk" "ad_key a = Some k"
    and w: "inv w" and v: "lookup w k = Some v" "length v < cap" "cap \<le> length b"
  obtains b' where "length b' = length b - length v"
    "bb_storage_get r (Some a) (Some b) cap (Some ol) w = Some ((BB_OK, Some (v @ b'), Some (length v)), w)"
proof -
  have g: "bb_storage_get r (Some a) (Some b) cap (Some ol) =
      call (vt_get vt) (\<lambda>f. then_ret (f (be_impl e) a (Some b) cap ol) (\<lambda>(err, bf, l). (err, bf, Some l)))"
    by (simp add: bb_storage_get_def a e)
  obtain b' where b': "length b' = length b - length v"
    "call (vt_get vt) (\<lambda>f. f (be_impl e) a (Some b) cap ol) w = Some ((BB_OK, Some (v @ b'), length v), w)"
    using get_found [OF w a(2) v, of "be_impl e" ol] by blast
  show thesis by (rule that [OF b'(1)]) (use b'(2) in \<open>cases "vt_get vt"; simp add: g then_ret_def\<close>)
qed

lemma facade_get_absent:
  assumes e: "find_backend r bk = Some e" "be_vt e = vt" and a: "ad_backend a = Some bk" "ad_key a = Some k"
    and w: "inv w" and v: "lookup w k = None"
  shows "bb_storage_get r (Some a) (Some b) cap (Some ol) w = Some ((BB_ERR_NOT_FOUND, Some b, Some ol), w)"
  using get_absent [OF w a(2) v, of "be_impl e" "Some b" cap ol]
  by (cases "vt_get vt") (simp_all add: bb_storage_get_def a e then_ret_def)

end

section \<open>Contract 3: a finite map\<close>

locale kv_backend = readback_backend vt inv lookup gate "\<lambda>k v. True"
  for vt :: "'w bb_storage_vtable_t" and inv and lookup and gate +
  assumes set_frame: "inv w \<Longrightarrow> ad_key a = Some k \<Longrightarrow> c_string k \<Longrightarrow> n \<le> length b \<Longrightarrow>
        call (vt_set vt) (\<lambda>f. f p a (Some b) n) w = Some (BB_OK, w') \<Longrightarrow> k' \<noteq> k \<Longrightarrow> lookup w' k' = lookup w k'"
    and erase_law: "inv w \<Longrightarrow> ad_key a = Some k \<Longrightarrow>
        \<exists>w'. call (vt_erase vt) (\<lambda>f. f p a) w = Some (BB_OK, w') \<and> inv w' \<and> lookup w' = (lookup w)(k := None)"
    and exists_law: "inv w \<Longrightarrow> ad_key a = Some k \<Longrightarrow>
        call (vt_exists vt) (\<lambda>f. f p a) w = Some (lookup w k \<noteq> None, w)"
begin

lemma facade_set_map:
  assumes e: "find_backend r bk = Some e" "be_vt e = vt" and a: "ad_backend a = Some bk" "ad_key a = Some k"
    and w: "inv w" and k: "c_string k" and n: "n \<le> length b"
  obtains err w' where "bb_storage_set r (Some a) (Some b) n w = Some (err, w')" "inv w'"
    "err = BB_OK \<longleftrightarrow> gate w k (take n b)"
    "lookup w' = (if err = BB_OK then (lookup w)(k \<mapsto> take n b) else lookup w)"
proof -
  obtain err w' where s: "bb_storage_set r (Some a) (Some b) n w = Some (err, w')" "inv w'"
    "err = BB_OK \<longleftrightarrow> gate w k (take n b)" "err = BB_OK \<longrightarrow> lookup w' k = Some (take n b)"
    "err \<noteq> BB_OK \<longrightarrow> lookup w' = lookup w"
    by (rule facade_set [OF e a w k n]) auto
  have "bb_storage_set r (Some a) (Some b) n = call (vt_set vt) (\<lambda>f. f (be_impl e) a (Some b) n)"
    by (simp add: bb_storage_set_def a e)
  then have "err = BB_OK \<Longrightarrow> lookup w' k' = ((lookup w)(k \<mapsto> take n b)) k'" for k'
    using s(1,4) set_frame [OF w a(2) k n, of "be_impl e" w' k'] by simp
  then have "lookup w' = (if err = BB_OK then (lookup w)(k \<mapsto> take n b) else lookup w)"
    using s(5) by auto
  then show thesis by (rule that [OF s(1-3)])
qed

lemma facade_erase_map:
  assumes e: "find_backend r bk = Some e" "be_vt e = vt" and a: "ad_backend a = Some bk" "ad_key a = Some k"
    and w: "inv w"
  obtains w' where "bb_storage_erase r (Some a) w = Some (BB_OK, w')" "inv w'" "lookup w' = (lookup w)(k := None)"
  using erase_law [OF w a(2), of "be_impl e"] by (auto simp: bb_storage_erase_def a e)

lemma facade_exists:
  assumes e: "find_backend r bk = Some e" "be_vt e = vt" and a: "ad_backend a = Some bk" "ad_key a = Some k"
    and w: "inv w"
  shows "bb_storage_exists r (Some a) w = Some (lookup w k \<noteq> None, w)"
  using exists_law [OF w a(2), of "be_impl e"] by (simp add: bb_storage_exists_def a e)

end

section \<open>Contract 4: staged transactions\<close>

text \<open>When staging takes a write, given the keys staged so far and the number of slots.\<close>

definition stage_takes :: "nat \<Rightarrow> (string \<rightharpoonup> u8 list) \<Rightarrow> string \<Rightarrow> u8 list \<Rightarrow> bool" where
  "stage_takes cap m k v \<longleftrightarrow> length v \<le> BB_STORAGE_TXN_VALUE_MAX_BYTES \<and> length k < BB_STORAGE_TXN_KEY_MAX_BYTES \<and>
     (m k \<noteq> None \<or> card (dom m) < cap)"

lemma slot_stage_takes:
  assumes wf: "txn_wf d" and b: "len \<le> length b"
    and st: "bb_storage_txn_slot_stage (Some d) (Some k) enc (Some b) len = Some (e, x)"
  shows "e = BB_OK \<longleftrightarrow> stage_takes (tx_cap d) (staged d) k (take len b)"
proof -
  have ok: "tab_ok slot_view (wired d)" and l: "length (wired d) = tx_cap d" using wf by (simp_all add: txn_wf_def wired_def)
  have "card (dom (staged d)) \<le> tx_cap d" using occupancy [OF ok] l by (simp add: staged_def)
  moreover have "find_idx (\<lambda>s. \<not> ts_used s) (wired d) = None \<longleftrightarrow> card (dom (staged d)) = tx_cap d"
    using tab_full [OF ok] l by (simp add: staged_def)
  moreover have "find_idx (slot_for k) (wired d) = None \<longleftrightarrow> staged d k = None"
    using find_holds_None [of slot_view k "wired d"] by (simp add: staged_def)
  ultimately have "stage_idx d k = None \<longleftrightarrow> \<not> (staged d k \<noteq> None \<or> card (dom (staged d)) < tx_cap d)"
    by (auto simp: stage_idx_def wired_def [symmetric] split: option.splits)
  then show ?thesis using st b
    by (auto simp: bb_storage_txn_slot_stage_def Let_def stage_takes_def split: if_splits option.splits)
qed

type_synonym txn_write = "string \<times> bb_storage_enc_t \<times> u8 list"

text \<open>The map the writes of a transaction make, when each of them is taken.\<close>

fun writes_map :: "(string \<Rightarrow> u8 list \<Rightarrow> bool) \<Rightarrow> nat \<Rightarrow> (string \<rightharpoonup> u8 list) \<Rightarrow> txn_write list \<Rightarrow> (string \<rightharpoonup> u8 list) option" where
  "writes_map g cap m [] = Some m"
| "writes_map g cap m ((k, enc, v) # ws) =
     (if g k v \<and> stage_takes cap m k v then writes_map g cap (m(k \<mapsto> v)) ws else None)"

text \<open>A client that begins, makes its writes without looking at their results, and ends.\<close>

fun txn_writes :: "'w bb_storage_txn_t option \<Rightarrow> txn_write list \<Rightarrow> ('w, 'w bb_storage_txn_t option) io" where
  "txn_writes t [] = ret t"
| "txn_writes t ((k, enc, v) # ws) =
     (\<lambda>w. case bb_storage_txn_set t (Some k) enc (Some v) (length v) w of
            None \<Rightarrow> None | Some ((e, t'), w') \<Rightarrow> txn_writes t' ws w')"

definition txn_session ::
  "'w bb_storage_registry \<Rightarrow> string \<Rightarrow> string \<Rightarrow> 'w bb_storage_txn_t \<Rightarrow> bb_storage_txn_slot_t list \<Rightarrow> txn_write list
     \<Rightarrow> ('w bb_storage_txn_t option \<Rightarrow> ('w, bb_err_t \<times> 'w bb_storage_txn_t option) io)
     \<Rightarrow> ('w, bb_err_t \<times> 'w bb_storage_txn_t option) io"
where
  "txn_session r bk ns t slots ws finish =
     (\<lambda>w. case bb_storage_txn_begin r (Some bk) (Some ns) (Some t) (Some slots) (length slots) w of
            None \<Rightarrow> None
          | Some ((e, t'), w') \<Rightarrow>
              if e \<noteq> BB_OK then Some ((e, t'), w')
              else (case txn_writes t' ws w' of None \<Rightarrow> None | Some (t'', w'') \<Rightarrow> finish t'' w''))"

locale staging_backend =
  fixes vt :: "'w bb_storage_vtable_t" and inv :: "'w \<Rightarrow> bool"
    and applied :: "(string \<rightharpoonup> u8 list) \<Rightarrow> 'w \<Rightarrow> 'w \<Rightarrow> bool" and room :: "(string \<rightharpoonup> u8 list) \<Rightarrow> 'w \<Rightarrow> bool"
    and key_gate :: "string \<Rightarrow> u8 list \<Rightarrow> bool"
  assumes begin_law: "inv w \<Longrightarrow> txn_wf d \<Longrightarrow> staged d = Map.empty \<Longrightarrow> tx_err d = BB_OK \<Longrightarrow>
        \<exists>d'. call (vt_txn_begin vt) (\<lambda>f. f p d nd) w = Some ((BB_OK, d'), w) \<and> txn_wf d' \<and>
          staged d' = Map.empty \<and> tx_open d' \<and> tx_err d' = BB_OK \<and> tx_cap d' = tx_cap d"
    and txn_set_law: "inv w \<Longrightarrow> txn_wf d \<Longrightarrow> tx_open d \<Longrightarrow> tx_err d = BB_OK \<Longrightarrow> c_string k \<Longrightarrow> n \<le> length b \<Longrightarrow>
        \<exists>e d'. call (vt_txn_set vt) (\<lambda>f. f p d k enc (Some b) n) w = Some ((e, d'), w) \<and> tx_open d' \<and>
          (e = BB_OK \<longleftrightarrow> key_gate k (take n b) \<and> stage_takes (tx_cap d) (staged d) k (take n b)) \<and>
          (e = BB_OK \<longrightarrow> txn_wf d' \<and> tx_err d' = BB_OK \<and> tx_cap d' = tx_cap d \<and> staged d' = (staged d)(k \<mapsto> take n b))"
    and commit_poisoned: "inv w \<Longrightarrow> tx_open d \<Longrightarrow> tx_err d \<noteq> BB_OK \<Longrightarrow>
        call (vt_txn_commit vt) (\<lambda>f. f p d) w = Some ((tx_err d, d\<lparr>tx_open := False\<rparr>), w)"
    and commit_law: "inv w \<Longrightarrow> txn_wf d \<Longrightarrow> tx_open d \<Longrightarrow> tx_err d = BB_OK \<Longrightarrow>
        (\<And>k v. staged d k = Some v \<Longrightarrow> key_gate k v) \<Longrightarrow>
        \<exists>e d' w'. call (vt_txn_commit vt) (\<lambda>f. f p d) w = Some ((e, d'), w') \<and> inv w' \<and> \<not> tx_open d' \<and>
          (e = BB_OK \<longleftrightarrow> room (staged d) w) \<and> (e = BB_OK \<longrightarrow> applied (staged d) w w') \<and> (e \<noteq> BB_OK \<longrightarrow> w' = w)"
    and abort_law: "inv w \<Longrightarrow> tx_open d \<Longrightarrow> \<exists>d'. call (vt_txn_abort vt) (\<lambda>f. f p d) w = Some ((BB_OK, d'), w) \<and> \<not> tx_open d'"
begin

text \<open>A handle opened on this back end.\<close>

definition opened :: "'w bb_storage_txn_t \<Rightarrow> bool" where
  "opened h \<longleftrightarrow> tx_open (tx_fields h) \<and> tx_txn_set h = vt_txn_set vt \<and> tx_txn_commit h = vt_txn_commit vt \<and>
     tx_txn_abort h = vt_txn_abort vt"

definition progress :: "(string \<rightharpoonup> u8 list) option \<Rightarrow> nat \<Rightarrow> 'w bb_storage_txn_t \<Rightarrow> bool" where
  "progress m cap h \<longleftrightarrow> opened h \<and> (case m of
     None \<Rightarrow> tx_err (tx_fields h) \<noteq> BB_OK
   | Some s \<Rightarrow> tx_err (tx_fields h) = BB_OK \<and> txn_wf (tx_fields h) \<and> staged (tx_fields h) = s \<and> tx_cap (tx_fields h) = cap)"

lemma begin_progress:
  assumes e: "find_backend r bk = Some e" "be_vt e = vt" and w: "inv w" and t: "\<not> tx_open (tx_fields t)"
    and b: "vt_txn_begin vt \<noteq> None"
  obtains h where "bb_storage_txn_begin r (Some bk) (Some ns) (Some t) (Some slots) (length slots) w = Some ((BB_OK, Some h), w)"
    "progress (Some Map.empty) (length slots) h"
proof -
  let ?d = "txn_fields_zero\<lparr>tx_slots := replicate (length slots) slot_zero, tx_cap := length slots\<rparr>"
  have wf: "txn_wf ?d \<and> staged ?d = Map.empty" by (rule wired_fresh [where xs = "[]"]) simp
  obtain f where f: "vt_txn_begin vt = Some f" using b by blast
  obtain d' where d': "f (be_impl e) ?d ns w = Some ((BB_OK, d'), w)" "txn_wf d'" "staged d' = Map.empty" "tx_open d'"
    "tx_err d' = BB_OK" "tx_cap d' = length slots"
    using begin_law [OF w, of ?d "be_impl e" ns] wf f by (auto simp: txn_fields_zero_def)
  have sl: "(if 0 < length slots then replicate (length slots) slot_zero @ drop (length slots) slots else slots)
      = replicate (length slots) slot_zero" by simp
  show thesis
    by (rule that [of "\<lparr>tx_txn_set = vt_txn_set vt, tx_txn_commit = vt_txn_commit vt, tx_txn_abort = vt_txn_abort vt,
          tx_impl = be_impl e, tx_fields = d'\<rparr>"])
      (use d' t f sl in \<open>simp_all add: bb_storage_txn_begin_def Let_def the_default_def e then_ret_def progress_def opened_def\<close>)
qed

lemma set_progress:
  assumes h: "progress m cap h" and w: "inv w" and k: "c_string k"
  obtains err h' where "bb_storage_txn_set (Some h) (Some k) enc (Some v) (length v) w = Some ((err, Some h'), w)"
    "progress (case m of None \<Rightarrow> None | Some s \<Rightarrow> if key_gate k v \<and> stage_takes cap s k v then Some (s(k \<mapsto> v)) else None) cap h'"
proof (cases m)
  case None
  then have "bb_storage_txn_set (Some h) (Some k) enc (Some v) (length v) w = Some ((tx_err (tx_fields h), Some h), w)"
    using h by (simp add: progress_def opened_def bb_storage_txn_set_def)
  then show thesis by (rule that) (use h None in simp)
next
  case (Some s)
  then have d: "opened h" "tx_err (tx_fields h) = BB_OK" "txn_wf (tx_fields h)" "staged (tx_fields h) = s" "tx_cap (tx_fields h) = cap"
    using h by (simp_all add: progress_def)
  then have op: "tx_open (tx_fields h)" "tx_txn_set h = vt_txn_set vt" by (simp_all add: opened_def)
  obtain e d' where c: "call (vt_txn_set vt) (\<lambda>f. f (tx_impl h) (tx_fields h) k enc (Some v) (length v)) w = Some ((e, d'), w)"
    and o': "tx_open d'" and e: "e = BB_OK \<longleftrightarrow> key_gate k v \<and> stage_takes cap s k v"
    and ok: "e = BB_OK \<longrightarrow> txn_wf d' \<and> tx_err d' = BB_OK \<and> tx_cap d' = cap \<and> staged d' = s(k \<mapsto> v)"
    using txn_set_law [OF w d(3) op(1) d(2) k order_refl, of "tx_impl h" enc v] d by auto
  have call: "bb_storage_txn_set (Some h) (Some k) enc (Some v) (length v) w =
      Some ((e, Some (h\<lparr>tx_fields := poison e d'\<rparr>)), w)"
    using c op d(2) by (cases "vt_txn_set vt") (simp_all add: bb_storage_txn_set_def then_ret_def)
  have "progress (if key_gate k v \<and> stage_takes cap s k v then Some (s(k \<mapsto> v)) else None) cap (h\<lparr>tx_fields := poison e d'\<rparr>)"
    using o' e ok d(1) by (auto simp: progress_def opened_def poison_def)
  then show thesis using that [OF call] Some by simp
qed

lemma writes_progress:
  assumes "inv w" and "list_all (\<lambda>(k, enc, v). c_string k) ws" and "progress m cap h"
  shows "\<exists>h'. txn_writes (Some h) ws w = Some (Some h', w) \<and>
     progress (case m of None \<Rightarrow> None | Some s \<Rightarrow> writes_map key_gate cap s ws) cap h'"
  using assms
proof (induction ws arbitrary: m h)
  case Nil
  then show ?case by (cases m) auto
next
  case (Cons x ws)
  obtain k enc v where x: "x = (k, enc, v)" by (cases x) auto
  then have k: "c_string k" using Cons.prems by simp
  let ?m = "case m of None \<Rightarrow> None | Some s \<Rightarrow> if key_gate k v \<and> stage_takes cap s k v then Some (s(k \<mapsto> v)) else None"
  obtain err h' where s: "bb_storage_txn_set (Some h) (Some k) enc (Some v) (length v) w = Some ((err, Some h'), w)"
    and p: "progress ?m cap h'" by (rule set_progress [OF Cons.prems(3,1) k])
  have "\<exists>h''. txn_writes (Some h') ws w = Some (Some h'', w) \<and>
     progress (case ?m of None \<Rightarrow> None | Some s \<Rightarrow> writes_map key_gate cap s ws) cap h''"
    by (rule Cons.IH [OF Cons.prems(1) _ p]) (use Cons.prems(2) in simp)
  moreover have "(case ?m of None \<Rightarrow> None | Some s \<Rightarrow> writes_map key_gate cap s ws) =
      (case m of None \<Rightarrow> None | Some s \<Rightarrow> writes_map key_gate cap s (x # ws))"
    by (simp add: x split: option.splits)
  ultimately show ?case using s by (simp add: x)
qed

lemma writes_gated: "writes_map key_gate cap m ws = Some s \<Longrightarrow> (\<And>k v. m k = Some v \<Longrightarrow> key_gate k v) \<Longrightarrow> s k = Some v \<Longrightarrow> key_gate k v"
proof (induction ws arbitrary: m)
  case Nil
  then show ?case by simp
next
  case (Cons x ws)
  obtain k' enc v' where x: "x = (k', enc, v')" by (cases x) auto
  then have g: "key_gate k' v'" "writes_map key_gate cap (m(k' \<mapsto> v')) ws = Some s" using Cons.prems(1) by (auto split: if_splits)
  show ?case by (rule Cons.IH [OF g(2) _ Cons.prems(3)]) (use g(1) Cons.prems(2) in \<open>auto split: if_splits\<close>)
qed

lemma commit_progress:
  assumes h: "progress m cap h" and w: "inv w" and g: "\<And>s k v. m = Some s \<Longrightarrow> s k = Some v \<Longrightarrow> key_gate k v"
  shows "\<exists>err h' w'. bb_storage_txn_commit (Some h) w = Some ((err, Some h'), w') \<and> inv w' \<and> \<not> tx_open (tx_fields h') \<and>
     (err = BB_OK \<longleftrightarrow> (\<exists>s. m = Some s \<and> room s w)) \<and> (err = BB_OK \<longrightarrow> applied (the m) w w') \<and> (err \<noteq> BB_OK \<longrightarrow> w' = w)"
proof (cases m)
  case None
  then have "tx_open (tx_fields h)" "tx_err (tx_fields h) \<noteq> BB_OK" "tx_txn_commit h = vt_txn_commit vt"
    using h by (simp_all add: progress_def opened_def)
  moreover from this(1,2) have "call (vt_txn_commit vt) (\<lambda>f. f (tx_impl h) (tx_fields h)) w =
      Some ((tx_err (tx_fields h), (tx_fields h)\<lparr>tx_open := False\<rparr>), w)" by (rule commit_poisoned [OF w])
  ultimately show ?thesis using w None
    by (cases "vt_txn_commit vt") (simp_all add: bb_storage_txn_commit_def then_ret_def)
next
  case (Some s)
  then have d: "tx_open (tx_fields h)" "tx_err (tx_fields h) = BB_OK" "txn_wf (tx_fields h)" "staged (tx_fields h) = s"
    "tx_txn_commit h = vt_txn_commit vt"
    using h by (simp_all add: progress_def opened_def)
  obtain e d' w' where c: "call (vt_txn_commit vt) (\<lambda>f. f (tx_impl h) (tx_fields h)) w = Some ((e, d'), w')" "inv w'"
    "\<not> tx_open d'" "e = BB_OK \<longleftrightarrow> room s w" "e = BB_OK \<longrightarrow> applied s w w'" "e \<noteq> BB_OK \<longrightarrow> w' = w"
    using commit_law [OF w d(3,1,2), of "tx_impl h"] g [OF Some] d(4) by auto
  then show ?thesis using d Some
    by (cases "vt_txn_commit vt") (auto simp: bb_storage_txn_commit_def then_ret_def)
qed

text \<open>A transaction applies all of its writes or none, and says which; one that is abandoned or aborted
  leaves the store as it was.\<close>

lemma session_atomic:
  assumes e: "find_backend r bk = Some e" "be_vt e = vt" and w: "inv w" and t: "\<not> tx_open (tx_fields t)"
    and b: "vt_txn_begin vt \<noteq> None" and k: "list_all (\<lambda>(k, enc, v). c_string k) ws"
  shows "\<exists>err h w'. txn_session r bk ns t slots ws bb_storage_txn_commit w = Some ((err, Some h), w') \<and>
     inv w' \<and> \<not> tx_open (tx_fields h) \<and>
     (err = BB_OK \<longleftrightarrow> (\<exists>m. writes_map key_gate (length slots) Map.empty ws = Some m \<and> room m w)) \<and>
     (err = BB_OK \<longrightarrow> applied (the (writes_map key_gate (length slots) Map.empty ws)) w w') \<and> (err \<noteq> BB_OK \<longrightarrow> w' = w)"
proof -
  obtain h where h: "bb_storage_txn_begin r (Some bk) (Some ns) (Some t) (Some slots) (length slots) w = Some ((BB_OK, Some h), w)"
    "progress (Some Map.empty) (length slots) h" by (rule begin_progress [OF e w t b])
  obtain h' where h': "txn_writes (Some h) ws w = Some (Some h', w)"
    "progress (writes_map key_gate (length slots) Map.empty ws) (length slots) h'"
    using writes_progress [OF w k h(2)] by auto
  have g: "key_gate k v" if "writes_map key_gate (length slots) Map.empty ws = Some s" "s k = Some v" for s k v
    by (rule writes_gated [OF that(1) _ that(2)]) simp
  show ?thesis using commit_progress [OF h'(2) w g] h(1) h'(1) by (simp add: txn_session_def)
qed

lemma session_aborted:
  assumes e: "find_backend r bk = Some e" "be_vt e = vt" and w: "inv w" and t: "\<not> tx_open (tx_fields t)"
    and b: "vt_txn_begin vt \<noteq> None" and k: "list_all (\<lambda>(k, enc, v). c_string k) ws"
  shows "\<exists>h. txn_session r bk ns t slots ws bb_storage_txn_abort w = Some ((BB_OK, Some h), w) \<and> \<not> tx_open (tx_fields h)"
    and "\<exists>h. txn_session r bk ns t slots ws (\<lambda>t. ret (BB_OK, t)) w = Some ((BB_OK, h), w)"
proof -
  obtain h where h: "bb_storage_txn_begin r (Some bk) (Some ns) (Some t) (Some slots) (length slots) w = Some ((BB_OK, Some h), w)"
    "progress (Some Map.empty) (length slots) h" by (rule begin_progress [OF e w t b])
  obtain h' where h': "txn_writes (Some h) ws w = Some (Some h', w)"
    "progress (writes_map key_gate (length slots) Map.empty ws) (length slots) h'"
    using writes_progress [OF w k h(2)] by auto
  have op: "tx_open (tx_fields h')" "tx_txn_abort h' = vt_txn_abort vt" using h'(2) by (simp_all add: progress_def opened_def)
  obtain d' where "call (vt_txn_abort vt) (\<lambda>f. f (tx_impl h') (tx_fields h')) w = Some ((BB_OK, d'), w)" "\<not> tx_open d'"
    using abort_law [OF w op(1)] by blast
  then have "bb_storage_txn_abort (Some h') w = Some ((BB_OK, Some (h'\<lparr>tx_fields := d'\<rparr>)), w) \<and> \<not> tx_open d'"
    using op by (cases "vt_txn_abort vt") (simp_all add: bb_storage_txn_abort_def then_ret_def)
  then show "\<exists>h. txn_session r bk ns t slots ws bb_storage_txn_abort w = Some ((BB_OK, Some h), w) \<and> \<not> tx_open (tx_fields h)"
    using h(1) h'(1) by (simp add: txn_session_def)
  show "\<exists>h. txn_session r bk ns t slots ws (\<lambda>t. ret (BB_OK, t)) w = Some ((BB_OK, h), w)"
    using h(1) h'(1) by (simp add: txn_session_def)
qed

end

end
