(* ===== verification/BB_Storage_RAM.thy ===== *)
theory BB_Storage_RAM
  imports BB_Storage_Laws
begin

text \<open>
  The in-memory back end of \<^verbatim>\<open>platform/host/bb_storage_ram/bb_storage_ram.c\<close>: a fixed table
  of entries, scanned linearly. It meets every contract of the facade; seen through the facade it is
  a bounded finite map, and its transactions apply all of their writes or none.
\<close>

section \<open>The table\<close>

definition BB_STORAGE_RAM_MAX_ENTRIES :: nat where "BB_STORAGE_RAM_MAX_ENTRIES = 32"
definition BB_STORAGE_RAM_MAX_VALUE_BYTES :: nat where "BB_STORAGE_RAM_MAX_VALUE_BYTES = 256"
definition BB_STORAGE_RAM_MAX_KEY_BYTES :: nat where "BB_STORAGE_RAM_MAX_KEY_BYTES = 64"

record bb_storage_ram_entry_t =
  re_used :: bool
  re_key :: "char list"
  re_len :: nat
  re_value :: "u8 list"

text \<open>The static memory of the back ends; the table is the part of it that this one owns.\<close>

record bb_statics =
  s_entries :: "bb_storage_ram_entry_t list"

definition ram_entry_zero :: bb_storage_ram_entry_t where
  "ram_entry_zero = \<lparr>re_used = False, re_key = replicate BB_STORAGE_RAM_MAX_KEY_BYTES NUL, re_len = 0,
     re_value = replicate BB_STORAGE_RAM_MAX_VALUE_BYTES 0\<rparr>"

definition bb_storage_ram_test_reset :: "('a bb_statics_scheme, unit) io" where
  "bb_storage_ram_test_reset = (\<lambda>w. Some ((), w\<lparr>s_entries := replicate BB_STORAGE_RAM_MAX_ENTRIES ram_entry_zero\<rparr>))"

definition entry_for :: "string \<Rightarrow> bb_storage_ram_entry_t \<Rightarrow> bool" where
  "entry_for key e \<longleftrightarrow> re_used e \<and> cstr (re_key e) = key"

definition find_entry :: "bb_storage_ram_entry_t list \<Rightarrow> string option \<Rightarrow> nat option" where
  "find_entry es key = (case key of None \<Rightarrow> None | Some k \<Rightarrow> find_idx (entry_for k) es)"

definition find_free_slot :: "bb_storage_ram_entry_t list \<Rightarrow> nat option" where
  "find_free_slot es = find_idx (\<lambda>e. \<not> re_used e) es"

section \<open>Single keys\<close>

definition ram_get :: "'a bb_statics_scheme get_fn" where
  "ram_get impl addr buf cap out_len =
     (\<lambda>w. case find_entry (s_entries w) (ad_key addr) of
            None \<Rightarrow> Some ((BB_ERR_NOT_FOUND, buf, out_len), w)
          | Some i \<Rightarrow>
              let e = s_entries w ! i; copy_len = (if re_len e < cap then re_len e else cap) in
              if cap = 0 then Some ((BB_OK, buf, re_len e), w)
              else (case buf of None \<Rightarrow> None
                    | Some b \<Rightarrow> Some ((BB_OK, Some (blit b 0 (take copy_len (re_value e))), re_len e), w)))"

text \<open>The entry a write makes of the one it found, and of a free one.\<close>

definition put_value :: "u8 list \<Rightarrow> nat \<Rightarrow> bb_storage_ram_entry_t \<Rightarrow> bb_storage_ram_entry_t" where
  "put_value buf len e = e\<lparr>re_value := blit (re_value e) 0 (take len buf), re_len := len\<rparr>"

definition put_key :: "string \<Rightarrow> bb_storage_ram_entry_t \<Rightarrow> bb_storage_ram_entry_t" where
  "put_key key e = e\<lparr>re_key := snd (bb_strlcpy (re_key e) key BB_STORAGE_RAM_MAX_KEY_BYTES), re_used := True\<rparr>"

definition ram_set :: "ptr \<Rightarrow> bb_storage_addr_t \<Rightarrow> bytes \<Rightarrow> nat \<Rightarrow> ('a bb_statics_scheme, bb_err_t) io" where
  "ram_set impl addr buf len =
     (\<lambda>w. case ad_key addr of
            None \<Rightarrow> Some (BB_ERR_INVALID_ARG, w)
          | Some k \<Rightarrow>
              if length k \<ge> BB_STORAGE_RAM_MAX_KEY_BYTES then Some (BB_ERR_INVALID_ARG, w)
              else if len > BB_STORAGE_RAM_MAX_VALUE_BYTES then Some (BB_ERR_NO_SPACE, w)
              else
                let es = s_entries w in
                case (case find_entry es (Some k) of Some i \<Rightarrow> Some (i, es ! i)
                      | None \<Rightarrow> map_option (\<lambda>i. (i, put_key k (es ! i))) (find_free_slot es)) of
                  None \<Rightarrow> Some (BB_ERR_NO_SPACE, w)
                | Some (i, e) \<Rightarrow>
                    if no_buf len buf then None
                    else Some (BB_OK, w\<lparr>s_entries := es[i := put_value (the_default [] buf) len e]\<rparr>))"

definition ram_erase :: "ptr \<Rightarrow> bb_storage_addr_t \<Rightarrow> ('a bb_statics_scheme, bb_err_t) io" where
  "ram_erase impl addr =
     (\<lambda>w. case find_entry (s_entries w) (ad_key addr) of
            None \<Rightarrow> Some (BB_OK, w)
          | Some i \<Rightarrow> Some (BB_OK, w\<lparr>s_entries := (s_entries w)[i := ram_entry_zero]\<rparr>))"

definition ram_exists :: "ptr \<Rightarrow> bb_storage_addr_t \<Rightarrow> ('a bb_statics_scheme, bool) io" where
  "ram_exists impl addr = (\<lambda>w. Some (find_entry (s_entries w) (ad_key addr) \<noteq> None, w))"

section \<open>Transactions\<close>

definition ram_txn_begin ::
  "ptr \<Rightarrow> bb_storage_txn_fields \<Rightarrow> string \<Rightarrow> ('a bb_statics_scheme, bb_err_t \<times> bb_storage_txn_fields) io"
where
  "ram_txn_begin impl txn ns_or_dir =
     ret (BB_OK, txn\<lparr>tx_slots := replicate (tx_cap txn) slot_zero @ drop (tx_cap txn) (tx_slots txn),
                     tx_open := True, tx_err := BB_OK\<rparr>)"

definition ram_txn_set :: "'a bb_statics_scheme txn_set_fn" where
  "ram_txn_set impl txn key enc buf len =
     (\<lambda>w. case bb_storage_txn_slot_stage (Some txn) (Some key) enc buf len of
            None \<Rightarrow> None | Some (e, t) \<Rightarrow> Some ((e, the_default txn t), w))"

text \<open>Keys the commit would add, free entries, and the loop that applies the staged writes. It uses a free
  entry without testing that there is one.\<close>

definition new_keys_needed :: "bb_storage_ram_entry_t list \<Rightarrow> bb_storage_txn_slot_t list \<Rightarrow> nat" where
  "new_keys_needed es slots = length (filter (\<lambda>s. ts_used s \<and> find_entry es (Some (cstr (ts_key s))) = None) slots)"

definition free_count :: "bb_storage_ram_entry_t list \<Rightarrow> nat" where
  "free_count es = length (filter (\<lambda>e. \<not> re_used e) es)"

fun ram_apply :: "bb_storage_ram_entry_t list \<Rightarrow> bb_storage_txn_slot_t list \<Rightarrow> bb_storage_ram_entry_t list option" where
  "ram_apply es [] = Some es"
| "ram_apply es (s # ss) =
     (if \<not> ts_used s then ram_apply es ss
      else (case find_entry es (Some (cstr (ts_key s))) of
              Some i \<Rightarrow> ram_apply (es[i := put_value (ts_value s) (ts_len s) (es ! i)]) ss
            | None \<Rightarrow>
                (case find_free_slot es of
                   None \<Rightarrow> None
                 | Some i \<Rightarrow> ram_apply
                     (es[i := put_value (ts_value s) (ts_len s) (put_key (cstr (ts_key s)) (es ! i))]) ss)))"

definition ram_txn_commit :: "'a bb_statics_scheme txn_end_fn" where
  "ram_txn_commit impl txn =
     (\<lambda>w. if tx_err txn \<noteq> BB_OK then Some ((tx_err txn, txn\<lparr>tx_open := False\<rparr>), w)
          else
            let slots = take (tx_cap txn) (tx_slots txn) in
            if new_keys_needed (s_entries w) slots > free_count (s_entries w)
              then Some ((BB_ERR_NO_SPACE, txn\<lparr>tx_open := False\<rparr>), w)
            else (case ram_apply (s_entries w) slots of
                    None \<Rightarrow> None
                  | Some es \<Rightarrow> Some ((BB_OK, txn\<lparr>tx_open := False\<rparr>), w\<lparr>s_entries := es\<rparr>)))"

definition ram_txn_abort :: "'a bb_statics_scheme txn_end_fn" where
  "ram_txn_abort impl txn = ret (BB_OK, txn\<lparr>tx_open := False\<rparr>)"

definition s_ram_vtable :: "'a bb_statics_scheme bb_storage_vtable_t" where
  "s_ram_vtable = vtable_zero\<lparr>vt_get := Some ram_get, vt_set := Some ram_set, vt_erase := Some ram_erase,
     vt_exists := Some ram_exists, vt_txn_begin := Some ram_txn_begin, vt_txn_set := Some ram_txn_set,
     vt_txn_commit := Some ram_txn_commit, vt_txn_abort := Some ram_txn_abort\<rparr>"

definition bb_storage_ram_register ::
  "'a bb_statics_scheme bb_storage_registry \<Rightarrow> bb_err_t \<times> 'a bb_statics_scheme bb_storage_registry"
where
  "bb_storage_ram_register r = bb_storage_register_backend r (Some ''ram'') (Some s_ram_vtable) None"

section \<open>The table as a map\<close>

definition ram_view :: "bb_storage_ram_entry_t \<Rightarrow> (string \<times> u8 list) option" where
  "ram_view e = (if re_used e then Some (cstr (re_key e), take (re_len e) (re_value e)) else None)"

definition ram_entry_wf :: "bb_storage_ram_entry_t \<Rightarrow> bool" where
  "ram_entry_wf e \<longleftrightarrow> length (re_key e) = BB_STORAGE_RAM_MAX_KEY_BYTES \<and>
     length (re_value e) = BB_STORAGE_RAM_MAX_VALUE_BYTES \<and> re_len e \<le> BB_STORAGE_RAM_MAX_VALUE_BYTES"

definition table_inv :: "bb_storage_ram_entry_t list \<Rightarrow> bool" where
  "table_inv es \<longleftrightarrow> length es = BB_STORAGE_RAM_MAX_ENTRIES \<and> (\<forall>e\<in>set es. ram_entry_wf e) \<and> tab_ok ram_view es"

abbreviation ram_inv :: "'a bb_statics_scheme \<Rightarrow> bool" where "ram_inv w \<equiv> table_inv (s_entries w)"

definition ram_map :: "'a bb_statics_scheme \<Rightarrow> (string \<rightharpoonup> u8 list)" where
  "ram_map w = tab_map ram_view (s_entries w)"

lemma holds_entry [simp]: "holds ram_view k = entry_for k"
  by (auto simp: fun_eq_iff holds_def ram_view_def entry_for_def)

lemma ram_view_None [simp]: "ram_view e = None \<longleftrightarrow> \<not> re_used e"
  by (simp add: ram_view_def)

lemma ram_entry_zero_wf: "ram_entry_wf ram_entry_zero" "\<not> re_used ram_entry_zero"
  by (simp_all add: ram_entry_wf_def ram_entry_zero_def)

lemma table_inv_reset: "table_inv (replicate BB_STORAGE_RAM_MAX_ENTRIES ram_entry_zero)"
  by (auto simp: table_inv_def ram_entry_zero_wf intro: tab_ok_all_free)

lemma find_entry_cases:
  obtains (absent) "find_entry es (Some k) = None" "tab_map ram_view es k = None"
  | (present) i v where "find_entry es (Some k) = Some i" "i < length es" "ram_view (es ! i) = Some (k, v)"
      "tab_map ram_view es k = Some v"
  by (rule find_holds_cases [of ram_view k es]) (simp_all add: find_entry_def)

lemma put_value_view:
  assumes "ram_entry_wf e" and "len \<le> length buf" and "len \<le> BB_STORAGE_RAM_MAX_VALUE_BYTES"
  shows "ram_entry_wf (put_value buf len e)"
    "ram_view (put_value buf len e) = (if re_used e then Some (cstr (re_key e), take len buf) else None)"
proof -
  have l: "length (re_value e) = BB_STORAGE_RAM_MAX_VALUE_BYTES" using assms(1) by (simp add: ram_entry_wf_def)
  have "take len (blit (re_value e) 0 (take len buf)) = take len buf" using assms(2) by (simp add: blit_def)
  then show "ram_view (put_value buf len e) = (if re_used e then Some (cstr (re_key e), take len buf) else None)"
    by (simp add: ram_view_def put_value_def)
  show "ram_entry_wf (put_value buf len e)" using assms l by (simp add: ram_entry_wf_def put_value_def)
qed

lemma put_key_wf:
  assumes "ram_entry_wf e" and "c_string k" and "length k < BB_STORAGE_RAM_MAX_KEY_BYTES"
  shows "ram_entry_wf (put_key k e)" "re_used (put_key k e)" "cstr (re_key (put_key k e)) = k"
proof -
  have l: "length (re_key e) = BB_STORAGE_RAM_MAX_KEY_BYTES" using assms(1) by (simp add: ram_entry_wf_def)
  show "ram_entry_wf (put_key k e)" "re_used (put_key k e)" "cstr (re_key (put_key k e)) = k"
    using strlcpy_key [OF assms(2,3) l] assms(1) by (simp_all add: put_key_def ram_entry_wf_def)
qed

text \<open>Writing the entry the scan found, or a free one: the table binds the key to the bytes.\<close>

definition place :: "bb_storage_ram_entry_t list \<Rightarrow> string \<Rightarrow> (nat \<times> bb_storage_ram_entry_t) option" where
  "place es k = (case find_entry es (Some k) of Some i \<Rightarrow> Some (i, es ! i)
     | None \<Rightarrow> map_option (\<lambda>i. (i, put_key k (es ! i))) (find_free_slot es))"

lemma place_write:
  assumes inv: "table_inv es" and k: "c_string k" "length k < BB_STORAGE_RAM_MAX_KEY_BYTES"
    and b: "len \<le> length buf" "len \<le> BB_STORAGE_RAM_MAX_VALUE_BYTES" and p: "place es k = Some (i, e)"
  shows "table_inv (es[i := put_value buf len e])"
    "tab_map ram_view (es[i := put_value buf len e]) = (tab_map ram_view es)(k \<mapsto> take len buf)"
proof -
  have ok: "tab_ok ram_view es" and wf: "\<And>j. j < length es \<Longrightarrow> ram_entry_wf (es ! j)"
    using inv by (simp_all add: table_inv_def)
  have "i < length es \<and> ram_entry_wf e \<and> re_used e \<and> cstr (re_key e) = k \<and>
     (\<forall>j<length es. j \<noteq> i \<longrightarrow> \<not> entry_for k (es ! j)) \<and> (\<not> re_used (es ! i) \<or> entry_for k (es ! i))"
  proof (cases "find_entry es (Some k)")
    case None
    then have n: "find_idx (entry_for k) es = None" by (simp add: find_entry_def)
    from None p have f: "find_idx (\<lambda>e. \<not> re_used e) es = Some i" and e: "e = put_key k (es ! i)"
      by (auto simp: place_def find_free_slot_def)
    show ?thesis
      using find_idx_SomeD [OF f] n put_key_wf [OF wf k, of i] e by (auto simp: find_idx_None)
  next
    case (Some j)
    then have j: "find_idx (entry_for k) es = Some j" and e: "i = j" "e = es ! j"
      using p by (auto simp: find_entry_def place_def)
    have "entry_for k (es ! j)" "j < length es" using find_idx_SomeD [OF j] by auto
    then show ?thesis using found_unique [OF ok, of k] j e wf by (simp add: entry_for_def)
  qed
  then have i: "i < length es" and e: "ram_entry_wf e" "re_used e" "cstr (re_key e) = k"
    and u: "\<forall>j<length es. j \<noteq> i \<longrightarrow> \<not> holds ram_view k (es ! j)"
    and o': "ram_view (es ! i) = None \<or> holds ram_view k (es ! i)" by auto
  have v: "ram_view (put_value buf len e) = Some (k, take len buf)" using put_value_view(2) [OF e(1) b] e by simp
  show "tab_map ram_view (es[i := put_value buf len e]) = (tab_map ram_view es)(k \<mapsto> take len buf)"
    by (rule tab_map_write [OF i u o' v])
  show "table_inv (es[i := put_value buf len e])"
    using inv tab_ok_write [OF ok u v] put_value_view(1) [OF e(1) b] set_update_subset_insert [of es i]
    unfolding table_inv_def by auto
qed

lemma place_None: "table_inv es \<Longrightarrow> place es k = None \<longleftrightarrow>
  tab_map ram_view es k = None \<and> card (dom (tab_map ram_view es)) = BB_STORAGE_RAM_MAX_ENTRIES"
  using tab_full [of ram_view es]
  by (cases rule: find_entry_cases [of es k]) (auto simp: place_def find_free_slot_def table_inv_def)

lemma table_erase:
  assumes inv: "table_inv es" and f: "find_entry es (Some k) = Some i"
  shows "table_inv (es[i := ram_entry_zero])"
    "tab_map ram_view (es[i := ram_entry_zero]) = (tab_map ram_view es)(k := None)"
proof -
  have ok: "tab_ok ram_view es" using inv by (simp add: table_inv_def)
  obtain v where i: "i < length es" "ram_view (es ! i) = Some (k, v)"
    using f by (cases rule: find_entry_cases [of es k]) auto
  have z: "ram_view ram_entry_zero = None" by (simp add: ram_entry_zero_wf)
  show "tab_map ram_view (es[i := ram_entry_zero]) = (tab_map ram_view es)(k := None)" by (rule tab_free [OF i(1) ok i(2) z])
  show "table_inv (es[i := ram_entry_zero])"
    using inv tab_ok_free [OF ok z, of i] ram_entry_zero_wf set_update_subset_insert [of es i]
    unfolding table_inv_def by auto
qed

section \<open>The contract of a map\<close>

lemma ram_set_place:
  assumes "ad_key a = Some k"
  shows "ram_set p a (Some b) n w =
     (if length k \<ge> BB_STORAGE_RAM_MAX_KEY_BYTES then Some (BB_ERR_INVALID_ARG, w)
      else if n > BB_STORAGE_RAM_MAX_VALUE_BYTES then Some (BB_ERR_NO_SPACE, w)
      else (case place (s_entries w) k of None \<Rightarrow> Some (BB_ERR_NO_SPACE, w)
            | Some (i, e) \<Rightarrow> Some (BB_OK, w\<lparr>s_entries := (s_entries w)[i := put_value b n e]\<rparr>)))"
  by (auto simp: ram_set_def assms place_def Let_def the_default_def split: option.splits)

definition ram_gate :: "'a bb_statics_scheme \<Rightarrow> string \<Rightarrow> u8 list \<Rightarrow> bool" where
  "ram_gate w k v \<longleftrightarrow> length k < BB_STORAGE_RAM_MAX_KEY_BYTES \<and> length v \<le> BB_STORAGE_RAM_MAX_VALUE_BYTES \<and>
     (ram_map w k \<noteq> None \<or> card (dom (ram_map w)) < BB_STORAGE_RAM_MAX_ENTRIES)"

lemma ram_gate_place:
  assumes "ram_inv w" and "length k < BB_STORAGE_RAM_MAX_KEY_BYTES" and "length v \<le> BB_STORAGE_RAM_MAX_VALUE_BYTES"
  shows "ram_gate w k v \<longleftrightarrow> place (s_entries w) k \<noteq> None"
proof -
  have "card (dom (ram_map w)) \<le> BB_STORAGE_RAM_MAX_ENTRIES"
    using occupancy [of ram_view "s_entries w"] assms(1) by (simp add: ram_map_def table_inv_def)
  then show ?thesis using place_None [OF assms(1), of k] assms(2,3) by (auto simp: ram_gate_def ram_map_def)
qed

lemma ram_set_result:
  assumes inv: "ram_inv w" and a: "ad_key a = Some k" and k: "c_string k" and n: "n \<le> length b"
  obtains e w' where "ram_set p a (Some b) n w = Some (e, w')" "ram_inv w'" "bb_statics.more w' = bb_statics.more w"
    "e = BB_OK \<longleftrightarrow> ram_gate w k (take n b)"
    "ram_map w' = (if e = BB_OK then (ram_map w)(k \<mapsto> take n b) else ram_map w)"
proof (cases "length k < BB_STORAGE_RAM_MAX_KEY_BYTES \<and> n \<le> BB_STORAGE_RAM_MAX_VALUE_BYTES")
  case False
  then have "\<exists>e. ram_set p a (Some b) n w = Some (e, w) \<and> e \<noteq> BB_OK" by (auto simp: ram_set_place [OF a])
  moreover have "\<not> ram_gate w k (take n b)" using False n by (auto simp: ram_gate_def)
  ultimately show thesis using that inv by auto
next
  case True
  then have g: "ram_gate w k (take n b) \<longleftrightarrow> place (s_entries w) k \<noteq> None" using ram_gate_place [OF inv] n by simp
  show thesis
  proof (cases "place (s_entries w) k")
    case None
    then have "ram_set p a (Some b) n w = Some (BB_ERR_NO_SPACE, w)" using True by (simp add: ram_set_place [OF a])
    then show thesis using that inv g None by simp
  next
    case (Some ie)
    obtain i e where ie: "place (s_entries w) k = Some (i, e)" using Some by (cases ie) simp
    let ?w = "w\<lparr>s_entries := (s_entries w)[i := put_value b n e]\<rparr>"
    have "ram_set p a (Some b) n w = Some (BB_OK, ?w)" using True ie by (simp add: ram_set_place [OF a])
    moreover have "ram_inv ?w" "ram_map ?w = (ram_map w)(k \<mapsto> take n b)"
      using place_write [OF inv k _ n _ ie] True by (simp_all add: ram_map_def)
    ultimately show thesis using that [of BB_OK ?w] g ie by simp
  qed
qed

lemma ram_vt [simp]: "vt_get s_ram_vtable = Some ram_get" "vt_set s_ram_vtable = Some ram_set"
  "vt_erase s_ram_vtable = Some ram_erase" "vt_exists s_ram_vtable = Some ram_exists"
  "vt_txn_begin s_ram_vtable = Some ram_txn_begin" "vt_txn_set s_ram_vtable = Some ram_txn_set"
  "vt_txn_commit s_ram_vtable = Some ram_txn_commit" "vt_txn_abort s_ram_vtable = Some ram_txn_abort"
  "vt_erase_namespace s_ram_vtable = None" "vt_erase_all s_ram_vtable = None" "vt_get_typed s_ram_vtable = None"
  "vt_set_typed s_ram_vtable = None" "vt_list_entries s_ram_vtable = None" "vt_get_stats s_ram_vtable = None"
  by (simp_all add: s_ram_vtable_def vtable_zero_def)

lemma ram_map_wf:
  assumes "ram_inv w" and "find_entry (s_entries w) (Some k) = Some i"
  shows "i < length (s_entries w)" "ram_entry_wf (s_entries w ! i)"
    "ram_map w k = Some (take (re_len (s_entries w ! i)) (re_value (s_entries w ! i)))"
  using assms by (cases rule: find_entry_cases [of "s_entries w" k];
      auto simp: table_inv_def ram_map_def ram_view_def split: if_splits)+

lemma ram_get_result:
  assumes inv: "ram_inv w" and a: "ad_key a = Some k" and b: "cap \<le> length b"
  shows "ram_get p a (Some b) cap ol w = Some ((case ram_map w k of
     None \<Rightarrow> (BB_ERR_NOT_FOUND, Some b, ol) | Some v \<Rightarrow> (BB_OK, Some (blit b 0 (take cap v)), length v)), w)"
proof (cases "find_entry (s_entries w) (Some k)")
  case None
  then have "ram_map w k = None" by (cases rule: find_entry_cases [of "s_entries w" k]) (simp_all add: ram_map_def)
  then show ?thesis using None by (simp add: ram_get_def a)
next
  case (Some i)
  let ?e = "s_entries w ! i"
  have v: "ram_map w k = Some (take (re_len ?e) (re_value ?e))" by (rule ram_map_wf [OF inv Some])
  have l: "re_len ?e \<le> length (re_value ?e)" using ram_map_wf(2) [OF inv Some] by (simp add: ram_entry_wf_def)
  have "take (if re_len ?e < cap then re_len ?e else cap) (re_value ?e) = take cap (take (re_len ?e) (re_value ?e))"
    by (simp add: min_def)
  then show ?thesis using Some v l by (cases "cap = 0") (simp_all add: ram_get_def a Let_def blit_def)
qed

interpretation ram_kv: kv_backend "s_ram_vtable :: 'a bb_statics_scheme bb_storage_vtable_t" ram_inv ram_map ram_gate
proof (unfold_locales, goal_cases)
  case (1 w a k v cap b p ol)
  then show ?case by (auto simp: ram_get_result blit_def intro!: exI [of _ "drop (length v) b"])
next
  case (2 w a k p buf cap ol)
  then have "find_entry (s_entries w) (ad_key a) = None"
    by (cases rule: find_entry_cases [of "s_entries w" k]) (auto simp: ram_map_def)
  then show ?case by (simp add: ram_get_def)
next
  case (3 w a k n b p)
  then show ?case by (auto elim: ram_set_result [of w a k n b p])
next
  case (4 w a k n b p w' k')
  then show ?case by (auto elim: ram_set_result [of w a k n b p])
next
  case (5 w a k p)
  show ?case
  proof (cases "find_entry (s_entries w) (Some k)")
    case None
    then have "ram_map w k = None" by (cases rule: find_entry_cases [of "s_entries w" k]) (simp_all add: ram_map_def)
    then show ?thesis using 5 None by (auto simp: ram_erase_def fun_eq_iff)
  next
    case (Some i)
    then show ?thesis using 5 table_erase [of "s_entries w" k i] by (simp add: ram_erase_def ram_map_def)
  qed
next
  case (6 w a k p)
  then show ?case
    by (cases rule: find_entry_cases [of "s_entries w" k]) (simp_all add: ram_exists_def ram_map_def)
qed

section \<open>The contract of a staged transaction\<close>

lemma find_entry_None: "find_entry es (Some k) = None \<longleftrightarrow> tab_map ram_view es k = None"
  by (cases rule: find_entry_cases [of es k]) auto

text \<open>Enough free entries for the keys the loop will add.\<close>

lemma new_keys_step:
  assumes "tab_map ram_view es' = (tab_map ram_view es)(k \<mapsto> v)"
  shows "new_keys_needed es' ss \<le> new_keys_needed es ss"
  by (induction ss) (use assms in \<open>auto simp: new_keys_needed_def find_entry_None\<close>)

lemma new_keys_card:
  assumes "tab_ok slot_view ss"
  shows "new_keys_needed es ss = card (dom (tab_map slot_view ss) - dom (tab_map ram_view es))"
  using assms
proof (induction ss)
  case Nil
  then show ?case by (simp add: new_keys_needed_def)
next
  case (Cons s ss)
  have ih: "new_keys_needed es ss = card (dom (tab_map slot_view ss) - dom (tab_map ram_view es))"
    by (rule Cons.IH [OF tab_ok_Cons [OF Cons.prems]])
  show ?case
  proof (cases "ts_used s")
    case False
    then show ?thesis using ih by (simp add: new_keys_needed_def)
  next
    case True
    let ?k = "cstr (ts_key s)"
    have v: "slot_view s = Some (?k, take (ts_len s) (ts_value s))" using True by (simp add: slot_view_def)
    then have "tab_map slot_view ss ?k = None" using tab_ok_Cons_head [OF Cons.prems] by blast
    then have n: "?k \<notin> dom (tab_map slot_view ss)" by auto
    have d: "dom (tab_map slot_view (s # ss)) = insert ?k (dom (tab_map slot_view ss))" using v by simp
    show ?thesis
      using ih n True unfolding d
      by (cases "?k \<in> dom (tab_map ram_view es)")
        (auto simp: new_keys_needed_def find_entry_None insert_Diff_if domIff)
  qed
qed

lemma free_count_eq: "table_inv es \<Longrightarrow> card (dom (tab_map ram_view es)) + free_count es = BB_STORAGE_RAM_MAX_ENTRIES"
  using occupancy [of ram_view es] by (simp add: free_count_def free_slots_def table_inv_def)

lemma ram_apply_place:
  "ts_used s \<Longrightarrow> ram_apply es (s # ss) = (case place es (cstr (ts_key s)) of None \<Rightarrow> None
     | Some (i, e) \<Rightarrow> ram_apply (es[i := put_value (ts_value s) (ts_len s) e]) ss)"
  by (auto simp: place_def split: option.splits)

lemma slot_wfD:
  assumes "slot_wf s" and "ts_used s"
  shows "c_string (cstr (ts_key s))" "length (cstr (ts_key s)) < BB_STORAGE_RAM_MAX_KEY_BYTES"
    "ts_len s \<le> length (ts_value s)" "ts_len s \<le> BB_STORAGE_RAM_MAX_VALUE_BYTES"
  using assms by (simp_all add: slot_wf_def cstr_no_nul BB_STORAGE_RAM_MAX_KEY_BYTES_def BB_STORAGE_TXN_KEY_MAX_BYTES_def
      BB_STORAGE_RAM_MAX_VALUE_BYTES_def BB_STORAGE_TXN_VALUE_MAX_BYTES_def)

lemma ram_apply_ok:
  assumes "table_inv es" and "\<forall>s\<in>set ss. slot_wf s" and "tab_ok slot_view ss" and "new_keys_needed es ss \<le> free_count es"
  shows "\<exists>es'. ram_apply es ss = Some es' \<and> table_inv es' \<and> tab_map ram_view es' = tab_map ram_view es ++ tab_map slot_view ss"
  using assms
proof (induction ss arbitrary: es)
  case Nil
  then show ?case by simp
next
  case (Cons s ss)
  note ok = tab_ok_Cons [OF Cons.prems(3)] and wf = Cons.prems(2)
  show ?case
  proof (cases "ts_used s")
    case False
    then have "new_keys_needed es (s # ss) = new_keys_needed es ss" by (simp add: new_keys_needed_def)
    then show ?thesis using Cons.IH [OF Cons.prems(1) _ ok] Cons.prems(4) wf False by simp
  next
    case True
    let ?k = "cstr (ts_key s)" and ?v = "take (ts_len s) (ts_value s)" and ?m = "tab_map ram_view es"
    have sw: "slot_wf s" using wf by simp
    note sD = slot_wfD [OF sw True]
    have v: "slot_view s = Some (?k, ?v)" using True by (simp add: slot_view_def)
    then have n: "tab_map slot_view ss ?k = None" using tab_ok_Cons_head [OF Cons.prems(3)] by blast
    have need: "new_keys_needed es (s # ss) = (if ?m ?k = None then 1 else 0) + new_keys_needed es ss"
      using True by (simp add: new_keys_needed_def find_entry_None)
    have "place es ?k \<noteq> None"
      using place_None [OF Cons.prems(1), of ?k] free_count_eq [OF Cons.prems(1)] need Cons.prems(4) by (auto split: if_splits)
    then obtain i e where p: "place es ?k = Some (i, e)" by auto
    let ?es = "es[i := put_value (ts_value s) (ts_len s) e]"
    note w = place_write [OF Cons.prems(1) sD(1,2,3,4) p]
    have "card (dom (tab_map ram_view ?es)) = (if ?m ?k = None then 1 else 0) + card (dom ?m)"
      unfolding w(2) by (auto simp: domIff card_insert_if insert_absorb simp del: fun_upd_apply)
    then have "free_count ?es + (if ?m ?k = None then 1 else 0) = free_count es"
      using free_count_eq [OF w(1)] free_count_eq [OF Cons.prems(1)] by linarith
    then have "new_keys_needed ?es ss \<le> free_count ?es"
      using new_keys_step [OF w(2), of ss] need Cons.prems(4) by linarith
    then obtain es' where "ram_apply ?es ss = Some es'" "table_inv es'"
      "tab_map ram_view es' = tab_map ram_view ?es ++ tab_map slot_view ss"
      using Cons.IH [OF w(1) _ ok] wf by auto
    moreover have "?m(?k \<mapsto> ?v) ++ tab_map slot_view ss = ?m ++ tab_map slot_view (s # ss)"
      using n v by (auto simp: fun_eq_iff map_add_def split: option.splits)
    ultimately show ?thesis using ram_apply_place [OF True, of es ss] p w(2) by simp
  qed
qed

definition ram_room :: "(string \<rightharpoonup> u8 list) \<Rightarrow> 'a bb_statics_scheme \<Rightarrow> bool" where
  "ram_room m w \<longleftrightarrow> card (dom (ram_map w)) + card (dom m - dom (ram_map w)) \<le> BB_STORAGE_RAM_MAX_ENTRIES"

definition ram_applied :: "(string \<rightharpoonup> u8 list) \<Rightarrow> 'a bb_statics_scheme \<Rightarrow> 'a bb_statics_scheme \<Rightarrow> bool" where
  "ram_applied m w w' \<longleftrightarrow> ram_map w' = ram_map w ++ m \<and> bb_statics.more w' = bb_statics.more w"

lemma ram_commit_result:
  assumes inv: "ram_inv w" and wf: "txn_wf d" and ok: "tx_err d = BB_OK"
  obtains e w' where "ram_txn_commit p d w = Some ((e, d\<lparr>tx_open := False\<rparr>), w')" "ram_inv w'"
    "e = BB_OK \<longleftrightarrow> ram_room (staged d) w" "e = BB_OK \<longrightarrow> ram_applied (staged d) w w'" "e \<noteq> BB_OK \<longrightarrow> w' = w"
proof -
  have sl: "take (tx_cap d) (tx_slots d) = wired d" by (simp add: wired_def)
  have wd: "\<forall>s\<in>set (wired d). slot_wf s" "tab_ok slot_view (wired d)" using wf by (simp_all add: txn_wf_def)
  have room: "new_keys_needed (s_entries w) (wired d) \<le> free_count (s_entries w) \<longleftrightarrow> ram_room (staged d) w"
    using free_count_eq [OF inv] new_keys_card [OF wd(2), of "s_entries w"] by (auto simp: ram_room_def ram_map_def staged_def)
  show thesis
  proof (cases "ram_room (staged d) w")
    case True
    then obtain es where es: "ram_apply (s_entries w) (wired d) = Some es" "table_inv es"
      "tab_map ram_view es = tab_map ram_view (s_entries w) ++ tab_map slot_view (wired d)"
      using ram_apply_ok [OF inv wd] room by blast
    have "ram_txn_commit p d w = Some ((BB_OK, d\<lparr>tx_open := False\<rparr>), w\<lparr>s_entries := es\<rparr>)"
      using True room es(1) ok by (simp add: ram_txn_commit_def Let_def sl not_less)
    moreover have "ram_applied (staged d) w (w\<lparr>s_entries := es\<rparr>)" by (simp add: ram_applied_def ram_map_def staged_def es(3))
    ultimately show thesis using that es(2) True by simp
  next
    case False
    then have "ram_txn_commit p d w = Some ((BB_ERR_NO_SPACE, d\<lparr>tx_open := False\<rparr>), w)"
      using room ok by (simp add: ram_txn_commit_def Let_def sl not_less [symmetric])
    then show thesis using that inv False by simp
  qed
qed

lemma ram_begin_wf:
  assumes "txn_wf d"
  shows "txn_wf (d\<lparr>tx_slots := replicate (tx_cap d) slot_zero @ drop (tx_cap d) (tx_slots d), tx_open := b, tx_err := e\<rparr>)"
    "staged (d\<lparr>tx_slots := replicate (tx_cap d) slot_zero @ drop (tx_cap d) (tx_slots d), tx_open := b, tx_err := e\<rparr>) = Map.empty"
  using wired_fresh [of "d\<lparr>tx_slots := replicate (tx_cap d) slot_zero @ drop (tx_cap d) (tx_slots d), tx_open := b, tx_err := e\<rparr>"]
  by simp_all

interpretation ram_txn: staging_backend "s_ram_vtable :: 'a bb_statics_scheme bb_storage_vtable_t" ram_inv
  ram_applied ram_room "\<lambda>k v. True"
proof (unfold_locales, goal_cases)
  case (1 w d p nd)
  then show ?case using ram_begin_wf [of d] by (simp add: ram_txn_begin_def)
next
  case (2 w d k n b p enc)
  obtain e x where st: "bb_storage_txn_slot_stage (Some d) (Some k) enc (Some b) n = Some (e, x)"
    using slot_stage_total [of n "Some b" d k enc] by auto
  have ev: "ram_txn_set p d k enc (Some b) n w = Some ((e, the_default d x), w)" by (simp add: ram_txn_set_def st)
  note tk = slot_stage_takes [OF 2(2,6) st]
  show ?case
  proof (cases "e = BB_OK")
    case True
    then obtain d' where "x = Some d'" "txn_wf d'" "staged d' = (staged d)(k \<mapsto> take n b)"
      "tx_open d' = tx_open d" "tx_err d' = tx_err d" "tx_cap d' = tx_cap d"
      using slot_stage_ok [OF 2(2,5,6)] st by metis
    then show ?thesis using ev tk True 2 by (simp add: the_default_def)
  next
    case False
    then have "x = Some d" using slot_stage_error st by blast
    then show ?thesis using ev tk False 2 by (simp add: the_default_def)
  qed
next
  case (3 w d p)
  then show ?case by (simp add: ram_txn_commit_def)
next
  case (4 w d p)
  show ?case
    by (rule ram_commit_result [OF 4(1,2,4), of p]) auto
next
  case (5 w d p)
  then show ?case by (simp add: ram_txn_abort_def)
qed

section \<open>The contract of a back end that never touches NULL\<close>

text \<open>Whatever holds of the rest of the static memory keeps holding.\<close>

lemma ram_safe: "safe_backends (\<lambda>w. ram_inv w \<and> P (bb_statics.more w)) {(s_ram_vtable, txn_wf)}"
proof (unfold_locales, goal_cases)
  case (1 v D f w cap buf p a ol)
  then show ?case by (auto simp: ram_get_def runs_def buf_ok_def Let_def split: option.splits)
next
  case (2 v D f w n buf a p)
  then have f: "f = ram_set" by simp
  show ?case
  proof (cases "ad_key a")
    case None
    then show ?thesis using 2 by (simp add: f ram_set_def runs_def)
  next
    case (Some k)
    show ?thesis
    proof (cases buf)
      case None
      then have n0: "n = 0" using 2(4) by (simp add: buf_ok_def)
      have "ram_set p a None 0 w = ram_set p a (Some []) 0 w"
        by (auto simp: ram_set_def the_default_def Let_def split: option.splits)
      then show ?thesis using 2 Some None n0
        by (auto simp: f key_ok_def elim!: ram_set_result [of w a k 0 "[]" p] intro: runsI)
    next
      case (Some b)
      then show ?thesis using 2 \<open>ad_key a = Some k\<close>
        by (auto simp: f key_ok_def buf_ok_def elim!: ram_set_result [of w a k n b p] intro: runsI)
    qed
  qed
next
  case (3 v D f w p a)
  then show ?case
    by (cases "ad_key a"; cases "find_entry (s_entries w) (ad_key a)")
      (auto simp: ram_erase_def runs_def find_entry_def table_erase)
next
  case (4 v D f w p a)
  then show ?case by (simp add: ram_exists_def runs_def)
next
  case (9 v D f w d p nd)
  then show ?case using ram_begin_wf [of d] by (simp add: ram_txn_begin_def)
next
  case (10 v D f w d n buf k p enc)
  then have f: "f = ram_txn_set" by simp
  show ?case using slot_stage_wf [of d n buf k enc] 10 by (auto simp: f ram_txn_set_def runs_def the_default_def)
next
  case (12 v D f w d p)
  then have f: "f = ram_txn_commit" and w: "ram_inv w" "txn_wf d" by simp_all
  show ?case
  proof (cases "tx_err d = BB_OK")
    case False
    then show ?thesis using 12 by (simp add: f ram_txn_commit_def runs_def)
  next
    case True
    obtain e w' where c: "ram_txn_commit p d w = Some ((e, d\<lparr>tx_open := False\<rparr>), w')" "ram_inv w'"
      "e = BB_OK \<longrightarrow> ram_applied (staged d) w w'" "e \<noteq> BB_OK \<longrightarrow> w' = w"
      by (rule ram_commit_result [OF w True])
    then have "bb_statics.more w' = bb_statics.more w" by (auto simp: ram_applied_def)
    then show ?thesis using c 12 by (simp add: f runs_def)
  qed
next
  case (13 v D f w d p)
  then show ?case by (simp add: ram_txn_abort_def)
qed simp_all

interpretation ram_only: safe_backends "\<lambda>w :: bb_statics. ram_inv w \<and> (\<lambda>u. True) (bb_statics.more w)" "{(s_ram_vtable, txn_wf)}"
  by (rule ram_safe)

section \<open>The store seen through the facade\<close>

datatype kv_op = KGet string nat | KSet string "u8 list" | KErase string | KExists string

datatype kv_reply = RGet bb_err_t "u8 list" nat | RErr bb_err_t | RBool bool

definition ram_addr :: "string \<Rightarrow> bb_storage_addr_t" where
  "ram_addr k = \<lparr>ad_backend = Some ''ram'', ad_ns_or_dir = None, ad_key = Some k\<rparr>"

fun kv_do :: "'w bb_storage_registry \<Rightarrow> kv_op \<Rightarrow> ('w, kv_reply) io" where
  "kv_do r (KGet k cap) = then_ret (bb_storage_get r (Some (ram_addr k)) (Some (replicate cap 0)) cap (Some 0))
     (\<lambda>(e, b, l). RGet e (the_default [] b) (the_default 0 l))"
| "kv_do r (KSet k v) = then_ret (bb_storage_set r (Some (ram_addr k)) (Some v) (length v)) RErr"
| "kv_do r (KErase k) = then_ret (bb_storage_erase r (Some (ram_addr k))) RErr"
| "kv_do r (KExists k) = then_ret (bb_storage_exists r (Some (ram_addr k))) RBool"

fun kv_run :: "'w bb_storage_registry \<Rightarrow> kv_op list \<Rightarrow> ('w, kv_reply list) io" where
  "kv_run r [] = ret []"
| "kv_run r (x # xs) = (\<lambda>w. case kv_do r x w of None \<Rightarrow> None | Some (y, w') \<Rightarrow> then_ret (kv_run r xs) (\<lambda>ys. y # ys) w')"

text \<open>The specification: a finite map of at most 32 keys.\<close>

fun kv_spec :: "kv_op \<Rightarrow> (string \<rightharpoonup> u8 list) \<Rightarrow> kv_reply \<times> (string \<rightharpoonup> u8 list)" where
  "kv_spec (KGet k cap) m = ((case m k of None \<Rightarrow> RGet BB_ERR_NOT_FOUND (replicate cap 0) 0
     | Some v \<Rightarrow> RGet BB_OK (take cap v @ replicate (cap - length v) 0) (length v)), m)"
| "kv_spec (KSet k v) m =
     (if length k \<ge> 64 then (RErr BB_ERR_INVALID_ARG, m)
      else if length v > 256 then (RErr BB_ERR_NO_SPACE, m)
      else if m k = None \<and> card (dom m) = 32 then (RErr BB_ERR_NO_SPACE, m)
      else (RErr BB_OK, m(k \<mapsto> v)))"
| "kv_spec (KErase k) m = (RErr BB_OK, m(k := None))"
| "kv_spec (KExists k) m = (RBool (m k \<noteq> None), m)"

fun kv_spec_run :: "kv_op list \<Rightarrow> (string \<rightharpoonup> u8 list) \<Rightarrow> kv_reply list \<times> (string \<rightharpoonup> u8 list)" where
  "kv_spec_run [] m = ([], m)"
| "kv_spec_run (x # xs) m = (case kv_spec x m of (y, m') \<Rightarrow> case kv_spec_run xs m' of (ys, m'') \<Rightarrow> (y # ys, m''))"

fun kv_key :: "kv_op \<Rightarrow> string" where
  "kv_key (KGet k cap) = k" | "kv_key (KSet k v) = k" | "kv_key (KErase k) = k" | "kv_key (KExists k) = k"

lemma ram_addr_simps [simp]: "ad_backend (ram_addr k) = Some ''ram''" "ad_key (ram_addr k) = Some k"
  by (simp_all add: ram_addr_def)

lemma kv_do_refines:
  assumes e: "find_backend r ''ram'' = Some e" "be_vt e = s_ram_vtable" and w: "ram_inv w" and k: "c_string (kv_key x)"
  shows "\<exists>w'. kv_do r x w = Some (fst (kv_spec x (ram_map w)), w') \<and> ram_inv w' \<and> ram_map w' = snd (kv_spec x (ram_map w))"
proof (cases x)
  case (KGet k cap)
  have "bb_storage_get r (Some (ram_addr k)) (Some (replicate cap 0)) cap (Some 0) =
      then_ret (ram_get (be_impl e) (ram_addr k) (Some (replicate cap 0)) cap 0) (\<lambda>(err, bf, l). (err, bf, Some l))"
    by (simp add: bb_storage_get_def e)
  then show ?thesis using w ram_get_result [OF w, of "ram_addr k" k cap "replicate cap 0" "be_impl e" 0] KGet
    by (auto simp: then_ret_def the_default_def blit_def split: option.splits)
next
  case (KSet k v)
  obtain err w' where s: "ram_set (be_impl e) (ram_addr k) (Some v) (length v) w = Some (err, w')" "ram_inv w'"
    "err = BB_OK \<longleftrightarrow> ram_gate w k (take (length v) v)"
    "ram_map w' = (if err = BB_OK then (ram_map w)(k \<mapsto> take (length v) v) else ram_map w)"
    by (rule ram_set_result [OF w, of "ram_addr k" k "length v" v "be_impl e"]) (use k KSet in simp_all)
  have st: "bb_storage_set r (Some (ram_addr k)) (Some v) (length v) = ram_set (be_impl e) (ram_addr k) (Some v) (length v)"
    by (simp add: bb_storage_set_def e)
  have "card (dom (ram_map w)) \<le> 32"
    using occupancy [of ram_view "s_entries w"] w by (simp add: ram_map_def table_inv_def BB_STORAGE_RAM_MAX_ENTRIES_def)
  moreover have "err \<noteq> BB_OK \<Longrightarrow> err = (if length k \<ge> 64 then BB_ERR_INVALID_ARG else BB_ERR_NO_SPACE)"
    using s(1) by (auto simp: ram_set_place BB_STORAGE_RAM_MAX_KEY_BYTES_def split: if_splits option.splits)
  ultimately have "RErr err = fst (kv_spec (KSet k v) (ram_map w)) \<and> ram_map w' = snd (kv_spec (KSet k v) (ram_map w))"
    using s(3,4) by (auto simp: ram_gate_def BB_STORAGE_RAM_MAX_KEY_BYTES_def BB_STORAGE_RAM_MAX_VALUE_BYTES_def
        BB_STORAGE_RAM_MAX_ENTRIES_def)
  then show ?thesis using s(1,2) st KSet by (auto simp: then_ret_def)
next
  case (KErase k)
  then show ?thesis using ram_kv.facade_erase_map [OF e, of "ram_addr k" k w] w by (auto simp: then_ret_def)
next
  case (KExists k)
  then show ?thesis using ram_kv.facade_exists [OF e, of "ram_addr k" k w] w by (auto simp: then_ret_def)
qed

text \<open>C23: seen through the facade, the RAM store is a finite map of at most 32 keys: every sequence of
  reads (into a buffer of any size), writes, erasures and tests for existence gives the replies, error codes
  included, that the map gives, and leaves the content the map has.\<close>

theorem ram_store_refines_map:
  assumes "find_backend r ''ram'' = Some e" and "be_vt e = s_ram_vtable" and "ram_inv w"
    and "list_all (\<lambda>x. c_string (kv_key x)) xs"
  shows "\<exists>w'. kv_run r xs w = Some (fst (kv_spec_run xs (ram_map w)), w') \<and> ram_inv w' \<and>
    ram_map w' = snd (kv_spec_run xs (ram_map w))"
  using assms(3,4)
proof (induction xs arbitrary: w)
  case Nil
  then show ?case by simp
next
  case (Cons x xs)
  obtain w' where x: "kv_do r x w = Some (fst (kv_spec x (ram_map w)), w')" "ram_inv w'"
    "ram_map w' = snd (kv_spec x (ram_map w))"
    using kv_do_refines [OF assms(1,2) Cons.prems(1), of x] Cons.prems(2) by auto
  then show ?case using Cons.IH [OF x(2)] Cons.prems(2) by (auto simp: then_ret_def split: prod.splits)
qed

text \<open>The registry of a host build that registers this back end, and the cleared table.\<close>

definition ram_registry :: "'a bb_statics_scheme bb_storage_registry" where
  "ram_registry = snd (bb_storage_ram_register bb_storage_test_reset)"

definition ram_cleared :: bb_statics where
  "ram_cleared = \<lparr>s_entries = replicate BB_STORAGE_RAM_MAX_ENTRIES ram_entry_zero\<rparr>"

lemma ram_complete: "vt_complete s_ram_vtable"
  by (simp add: vt_complete_def txn_set_count_def)

lemma ram_register_fresh:
  "bb_storage_ram_register bb_storage_test_reset = (BB_OK, (bb_storage_test_reset)
     \<lparr>s_backends := (s_backends bb_storage_test_reset)[0 := \<lparr>be_name = Some ''ram'', be_vt = s_ram_vtable, be_impl = None\<rparr>],
      s_count := 1\<rparr>)"
  by (simp add: bb_storage_ram_register_def bb_storage_register_backend_def bb_storage_test_reset_def txn_set_count_def
      BB_STORAGE_MAX_BACKENDS_def)

lemma ram_registered: "find_backend ram_registry ''ram'' = Some \<lparr>be_name = Some ''ram'', be_vt = s_ram_vtable, be_impl = None\<rparr>"
proof -
  have "bb_storage_register_backend bb_storage_test_reset (Some ''ram'') (Some s_ram_vtable) None = (BB_OK, ram_registry)"
    by (simp add: ram_registry_def bb_storage_ram_register_def ram_register_fresh [unfolded bb_storage_ram_register_def])
  then show ?thesis using find_after_register [OF storage_inv_reset] by metis
qed

lemma ram_cleared_inv: "ram_inv ram_cleared" "ram_map ram_cleared = Map.empty"
  by (simp_all add: ram_cleared_def table_inv_reset ram_map_def tab_map_all_free ram_entry_zero_wf)

theorem ram_store_refines_map_witness:
  "\<exists>w'. kv_run ram_registry [KSet ''ssid'' [1, 2, 3], KGet ''ssid'' 2, KErase ''ssid'', KExists ''ssid''] ram_cleared =
     Some ([RErr BB_OK, RGet BB_OK [1, 2] 3, RErr BB_OK, RBool False], w') \<and> ram_map w' = Map.empty"
  using ram_store_refines_map [OF ram_registered _ ram_cleared_inv(1),
      of "[KSet ''ssid'' [1, 2, 3], KGet ''ssid'' 2, KErase ''ssid'', KExists ''ssid'']"]
  by (simp add: ram_cleared_inv(2)) (auto simp: fun_eq_iff)

text \<open>C24: transactions on the RAM store are all or nothing. A transaction that begins, makes its writes
  and commits succeeds exactly when every write can be staged and the table has room for the new keys; then the
  store holds all of them, the last write of a key winning; otherwise the store is untouched. Either way the
  transaction is closed. One that is aborted, or abandoned by a crash before its commit, leaves the store untouched.\<close>

theorem ram_txn_all_or_nothing:
  assumes "find_backend r ''ram'' = Some e" and "be_vt e = s_ram_vtable" and "ram_inv w"
    and "\<not> tx_open (tx_fields t)" and "list_all (\<lambda>(k, enc, v). c_string k) ws"
  shows "(\<exists>err h w'. txn_session r ''ram'' ns t slots ws bb_storage_txn_commit w = Some ((err, Some h), w') \<and>
       \<not> tx_open (tx_fields h) \<and> ram_inv w' \<and>
       (err = BB_OK \<longleftrightarrow> (\<exists>m. writes_map (\<lambda>k v. True) (length slots) Map.empty ws = Some m \<and>
           card (dom (ram_map w)) + card (dom m - dom (ram_map w)) \<le> BB_STORAGE_RAM_MAX_ENTRIES)) \<and>
       ram_map w' = (if err = BB_OK then ram_map w ++ the (writes_map (\<lambda>k v. True) (length slots) Map.empty ws) else ram_map w)) \<and>
    (\<exists>h. txn_session r ''ram'' ns t slots ws bb_storage_txn_abort w = Some ((BB_OK, Some h), w) \<and> \<not> tx_open (tx_fields h)) \<and>
    (\<exists>h. txn_session r ''ram'' ns t slots ws (\<lambda>t. ret (BB_OK, t)) w = Some ((BB_OK, h), w))"
proof (intro conjI)
  have b: "vt_txn_begin s_ram_vtable \<noteq> None" by simp
  show "\<exists>err h w'. txn_session r ''ram'' ns t slots ws bb_storage_txn_commit w = Some ((err, Some h), w') \<and>
       \<not> tx_open (tx_fields h) \<and> ram_inv w' \<and>
       (err = BB_OK \<longleftrightarrow> (\<exists>m. writes_map (\<lambda>k v. True) (length slots) Map.empty ws = Some m \<and>
           card (dom (ram_map w)) + card (dom m - dom (ram_map w)) \<le> BB_STORAGE_RAM_MAX_ENTRIES)) \<and>
       ram_map w' = (if err = BB_OK then ram_map w ++ the (writes_map (\<lambda>k v. True) (length slots) Map.empty ws) else ram_map w)"
    using ram_txn.session_atomic [OF assms(1-4) b assms(5), of ns slots]
    unfolding ram_room_def ram_applied_def by metis
  show "\<exists>h. txn_session r ''ram'' ns t slots ws bb_storage_txn_abort w = Some ((BB_OK, Some h), w) \<and> \<not> tx_open (tx_fields h)"
    "\<exists>h. txn_session r ''ram'' ns t slots ws (\<lambda>t. ret (BB_OK, t)) w = Some ((BB_OK, h), w)"
    by (rule ram_txn.session_aborted [OF assms(1-4) b assms(5)])+
qed

theorem ram_txn_all_or_nothing_witness:
  "(\<exists>h w'. txn_session ram_registry ''ram'' ''wifi'' txn_zero (replicate 2 slot_zero)
      [(''ssid'', BB_STORAGE_ENC_STR, [1]), (''pass'', BB_STORAGE_ENC_STR, [2]), (''ssid'', BB_STORAGE_ENC_STR, [3])]
      bb_storage_txn_commit ram_cleared = Some ((BB_OK, Some h), w') \<and> ram_map w' = [''pass'' \<mapsto> [2], ''ssid'' \<mapsto> [3]])"
proof -
  let ?ws = "[(''ssid'', BB_STORAGE_ENC_STR, [1]), (''pass'', BB_STORAGE_ENC_STR, [2]), (''ssid'', BB_STORAGE_ENC_STR, [3])]"
  have m: "writes_map (\<lambda>k v. True) 2 Map.empty ?ws = Some [''pass'' \<mapsto> [2 :: u8], ''ssid'' \<mapsto> [3]]"
    by (simp add: stage_takes_def BB_STORAGE_TXN_VALUE_MAX_BYTES_def BB_STORAGE_TXN_KEY_MAX_BYTES_def)
  have z: "\<not> tx_open (tx_fields txn_zero)" by (simp add: txn_zero_def txn_fields_zero_def)
  have k: "list_all (\<lambda>(k, enc, v). c_string k) ?ws" by simp
  have c: "card (dom [''pass'' \<mapsto> [2 :: u8], ''ssid'' \<mapsto> [3]]) = 2" by simp
  show ?thesis
  proof -
    obtain err h w' where s: "txn_session ram_registry ''ram'' ''wifi'' txn_zero (replicate 2 slot_zero) ?ws
        bb_storage_txn_commit ram_cleared = Some ((err, Some h), w')"
      and e: "err = BB_OK \<longleftrightarrow> (\<exists>m. writes_map (\<lambda>k v. True) 2 Map.empty ?ws = Some m \<and> card (dom m) \<le> BB_STORAGE_RAM_MAX_ENTRIES)"
      and r: "ram_map w' = (if err = BB_OK then Map.empty ++ the (writes_map (\<lambda>k v. True) 2 Map.empty ?ws) else Map.empty)"
      using conjunct1 [OF ram_txn_all_or_nothing [OF ram_registered _ ram_cleared_inv(1) z k, of "''wifi''" "replicate 2 slot_zero"]]
      unfolding length_replicate ram_cleared_inv(2) by auto
    have "err = BB_OK" using e c unfolding m by (auto simp: BB_STORAGE_RAM_MAX_ENTRIES_def)
    then show ?thesis using s r unfolding m by auto
  qed
qed

end
