(* ===== verification/BB_RTC_Region.thy ===== *)
theory BB_RTC_Region
  imports BB_Prelude
begin

unbundle bit_operations_syntax

text \<open>
  The credentials region of \<^verbatim>\<open>components/storage/bb_storage_rtc/bb_storage_rtc_region.c\<close>: its layout
  in memory (little-endian, no padding beyond \<^verbatim>\<open>_pad\<close>), its CRC-32, packing and validation. Character
  arrays are their bytes. The main result: no change of a single byte of a valid region goes unnoticed.
\<close>

section \<open>CRC-32\<close>

definition crc32_step :: "u32 \<Rightarrow> u32" where
  "crc32_step crc = drop_bit 1 crc XOR (0xEDB88320 AND - (crc AND 1))"

definition crc32_byte :: "u32 \<Rightarrow> u8 \<Rightarrow> u32" where
  "crc32_byte crc b = (crc32_step ^^ 8) (crc XOR ucast b)"

definition crc32_buf :: "u8 list \<Rightarrow> u32" where
  "crc32_buf buf = foldl crc32_byte 0xFFFFFFFF buf XOR 0xFFFFFFFF"

section \<open>The region\<close>

definition BB_STORAGE_RTC_REGION_MAGIC :: u32 where "BB_STORAGE_RTC_REGION_MAGIC = 0x42424E43"
definition BB_STORAGE_RTC_REGION_VERSION :: u16 where "BB_STORAGE_RTC_REGION_VERSION = 1"

definition SSID_SIZE :: nat where "SSID_SIZE = 32"
definition PASS_SIZE :: nat where "PASS_SIZE = 64"

record bb_storage_rtc_region_t =
  rg_magic :: u32
  rg_version :: u16
  rg_provisioned :: u8
  rg_pad :: u8
  rg_ssid :: "u8 list"
  rg_pass :: "u8 list"
  rg_crc :: u32

definition region_zero :: bb_storage_rtc_region_t where
  "region_zero = \<lparr>rg_magic = 0, rg_version = 0, rg_provisioned = 0, rg_pad = 0, rg_ssid = replicate SSID_SIZE 0,
     rg_pass = replicate PASS_SIZE 0, rg_crc = 0\<rparr>"

definition le32 :: "u32 \<Rightarrow> u8 list" where
  "le32 w = [ucast w, ucast (drop_bit 8 w), ucast (drop_bit 16 w), ucast (drop_bit 24 w)]"

definition le16 :: "u16 \<Rightarrow> u8 list" where
  "le16 w = [ucast w, ucast (drop_bit 8 w)]"

text \<open>The bytes before the \<^verbatim>\<open>crc\<close> field, in memory order.\<close>

definition region_bytes :: "bb_storage_rtc_region_t \<Rightarrow> u8 list" where
  "region_bytes r = le32 (rg_magic r) @ le16 (rg_version r) @ [rg_provisioned r, rg_pad r] @ rg_ssid r @ rg_pass r"

definition bb_storage_rtc_region_crc :: "bb_storage_rtc_region_t \<Rightarrow> u32" where
  "bb_storage_rtc_region_crc r = crc32_buf (region_bytes r)"

text \<open>The loop of the bounded copy, by the room left before the terminator.\<close>

fun copy_prefix :: "nat \<Rightarrow> u8 list \<Rightarrow> u8 list" where
  "copy_prefix 0 src = []"
| "copy_prefix (Suc n) [] = []"
| "copy_prefix (Suc n) (c # src) = (if c = 0 then [] else c # copy_prefix n src)"

definition bounded_copy :: "u8 list \<Rightarrow> u8 list option \<Rightarrow> nat \<Rightarrow> u8 list" where
  "bounded_copy dst src dst_cap =
     (case src of None \<Rightarrow> dst[0 := 0]
      | Some s \<Rightarrow> let p = copy_prefix (dst_cap - 1) s in (blit dst 0 p)[length p := 0])"

definition bb_storage_rtc_region_pack :: "u8 list option \<Rightarrow> u8 list option \<Rightarrow> u8 \<Rightarrow> bb_storage_rtc_region_t" where
  "bb_storage_rtc_region_pack ssid pass provisioned =
     (let out = region_zero\<lparr>rg_magic := BB_STORAGE_RTC_REGION_MAGIC, rg_version := BB_STORAGE_RTC_REGION_VERSION,
                rg_provisioned := provisioned\<rparr>;
          out = out\<lparr>rg_ssid := bounded_copy (rg_ssid out) ssid SSID_SIZE, rg_pass := bounded_copy (rg_pass out) pass PASS_SIZE\<rparr>
      in out\<lparr>rg_crc := bb_storage_rtc_region_crc out\<rparr>)"

definition bb_storage_rtc_region_valid :: "bb_storage_rtc_region_t option \<Rightarrow> bool" where
  "bb_storage_rtc_region_valid r =
     (case r of None \<Rightarrow> False
      | Some g \<Rightarrow> if rg_magic g \<noteq> BB_STORAGE_RTC_REGION_MAGIC then False
                  else if rg_version g \<noteq> BB_STORAGE_RTC_REGION_VERSION then False
                  else bb_storage_rtc_region_crc g = rg_crc g)"

section \<open>The CRC tells apart what differs in one byte\<close>

text \<open>The top bit of a step's result is the bit shifted out, so that a step can be undone.\<close>

lemma xor_cancel: "x XOR y = x XOR z \<longleftrightarrow> y = (z :: 'a :: len word)"
  by (metis xor.assoc xor.left_neutral xor_self_eq)

lemma xor_cancel_right: "y XOR x = z XOR x \<longleftrightarrow> y = (z :: 'a :: len word)"
  by (metis xor.commute xor_cancel)

lemma crc32_step_inj: "crc32_step a = crc32_step b \<Longrightarrow> a = b"
proof -
  assume eq: "crc32_step a = crc32_step b"
  have low: "c AND 1 = (if bit c 0 then 1 else 0)" for c :: u32
    by (rule bit_word_eqI) (auto simp: bit_and_iff bit_1_iff intro!: gr0I)
  have out: "\<not> bit c 32" for c :: u32 using bit_imp_le_length [of c 32] by auto
  have top: "bit (crc32_step c) 31 \<longleftrightarrow> bit c 0" for c
    unfolding crc32_step_def low by (simp add: bit_xor_iff bit_and_iff bit_drop_bit_eq out)
  have same: "bit a 0 \<longleftrightarrow> bit b 0" using eq top by metis
  then have m: "a AND 1 = b AND 1" by (simp add: low)
  have "drop_bit 1 a = drop_bit 1 b" using eq unfolding crc32_step_def m xor_cancel_right .
  then have "bit (drop_bit 1 a) n = bit (drop_bit 1 b) n" for n by simp
  then have "bit a (Suc n) = bit b (Suc n)" for n by (simp add: bit_drop_bit_eq)
  then show "a = b" using same by (metis bit_word_eqI not0_implies_Suc)
qed

lemma crc32_steps_inj: "(crc32_step ^^ n) a = (crc32_step ^^ n) b \<Longrightarrow> a = b"
  by (induction n) (auto dest: crc32_step_inj)

lemma ucast_inj_u8: "(ucast (x :: u8) :: u32) = ucast y \<Longrightarrow> x = y"
proof (rule bit_word_eqI)
  fix n assume e: "(ucast x :: u32) = ucast y" and n: "n < LENGTH(8)"
  have "bit (ucast x :: u32) n = bit (ucast y :: u32) n" using e by simp
  then show "bit x n = bit y n" using n by (simp add: bit_ucast_iff)
qed

lemma crc32_byte_inj: "crc32_byte a x = crc32_byte b x \<Longrightarrow> a = b" "crc32_byte a x = crc32_byte a y \<Longrightarrow> x = y"
  unfolding crc32_byte_def
  by (metis crc32_steps_inj xor.commute xor_cancel) (metis crc32_steps_inj xor_cancel ucast_inj_u8)

lemma crc32_fold_inj: "foldl crc32_byte a bs = foldl crc32_byte b bs \<Longrightarrow> a = b"
  by (induction bs arbitrary: a b) (auto dest: crc32_byte_inj(1))

text \<open>Two byte strings that differ in exactly one place have different checksums.\<close>

lemma crc32_one_byte:
  assumes "i < length bs" and "x \<noteq> bs ! i"
  shows "crc32_buf (bs[i := x]) \<noteq> crc32_buf bs"
proof
  assume "crc32_buf (bs[i := x]) = crc32_buf bs"
  then have e: "foldl crc32_byte 0xFFFFFFFF (bs[i := x]) = foldl crc32_byte 0xFFFFFFFF bs"
    unfolding crc32_buf_def xor_cancel_right .
  let ?s = "foldl crc32_byte 0xFFFFFFFF (take i bs)"
  have "bs = take i bs @ bs ! i # drop (Suc i) bs" "bs[i := x] = take i bs @ x # drop (Suc i) bs"
    using assms(1) by (simp_all add: id_take_nth_drop upd_conv_take_nth_drop)
  then have "foldl crc32_byte 0xFFFFFFFF bs = foldl crc32_byte (crc32_byte ?s (bs ! i)) (drop (Suc i) bs)"
    "foldl crc32_byte 0xFFFFFFFF (bs[i := x]) = foldl crc32_byte (crc32_byte ?s x) (drop (Suc i) bs)"
    by (metis foldl_append foldl_Cons)+
  then have "crc32_byte ?s x = crc32_byte ?s (bs ! i)" using e crc32_fold_inj by metis
  then show False using assms(2) crc32_byte_inj(2) by blast
qed

section \<open>Validity\<close>

text \<open>The region as it lies in memory, and its parts.\<close>

definition region_image :: "bb_storage_rtc_region_t \<Rightarrow> u8 list" where
  "region_image r = le32 (rg_magic r) @ le16 (rg_version r) @ [rg_provisioned r, rg_pad r] @ rg_ssid r @ rg_pass r @
     le32 (rg_crc r)"

lemma region_image_split: "region_image r = region_bytes r @ le32 (rg_crc r)"
  by (simp add: region_image_def region_bytes_def)

lemma length_le: "length (le32 w) = 4" "length (le16 v) = 2"
  by (simp_all add: le32_def le16_def)

lemma le32_inj: "le32 a = le32 b \<Longrightarrow> a = b"
proof -
  assume "le32 a = le32 b"
  then have e: "(ucast a :: u8) = ucast b" "(ucast (drop_bit 8 a) :: u8) = ucast (drop_bit 8 b)"
    "(ucast (drop_bit 16 a) :: u8) = ucast (drop_bit 16 b)" "(ucast (drop_bit 24 a) :: u8) = ucast (drop_bit 24 b)"
    by (simp_all add: le32_def)
  have b: "bit a (k + n) = bit b (k + n)" if "(ucast (drop_bit k a) :: u8) = ucast (drop_bit k b)" "n < 8" for k n
  proof -
    have "bit (ucast (drop_bit k a) :: u8) n = bit (ucast (drop_bit k b) :: u8) n" using that(1) by simp
    then show ?thesis using that(2) by (simp add: bit_ucast_iff bit_drop_bit_eq)
  qed
  show "a = b"
  proof (rule bit_word_eqI)
    fix n assume "n < LENGTH(32)"
    then consider "n < 8" | "8 \<le> n" "n < 16" | "16 \<le> n" "n < 24" | "24 \<le> n" "n < 32" by fastforce
    then show "bit a n = bit b n"
    proof cases
      case 1 then show ?thesis using b [of 0 n] e(1) by simp
    next
      case 2 then show ?thesis using b [of 8 "n - 8"] e(2) by simp
    next
      case 3 then show ?thesis using b [of 16 "n - 16"] e(3) by simp
    next
      case 4 then show ?thesis using b [of 24 "n - 24"] e(4) by simp
    qed
  qed
qed

lemma pack_valid: "bb_storage_rtc_region_valid (Some (bb_storage_rtc_region_pack s p v))"
proof -
  have "region_bytes (r\<lparr>rg_crc := c\<rparr>) = region_bytes r" for r c by (simp add: region_bytes_def)
  then show ?thesis
    by (simp add: bb_storage_rtc_region_valid_def bb_storage_rtc_region_pack_def Let_def bb_storage_rtc_region_crc_def)
qed

text \<open>C25: corruption of the credentials region is caught. When a single byte of the memory image of a
  valid region changes, whichever byte it is (the magic number, a credential, the padding or the checksum itself),
  the region is no longer valid.\<close>

theorem rtc_single_byte_corruption:
  assumes "bb_storage_rtc_region_valid (Some r)" and "i < length (region_image r)" and "x \<noteq> region_image r ! i"
    and "region_image r' = (region_image r)[i := x]"
    and "length (rg_ssid r') = length (rg_ssid r)" and "length (rg_pass r') = length (rg_pass r)"
  shows "\<not> bb_storage_rtc_region_valid (Some r')"
proof
  assume v: "bb_storage_rtc_region_valid (Some r')"
  have crc: "crc32_buf (region_bytes r) = rg_crc r" "crc32_buf (region_bytes r') = rg_crc r'"
    using v assms(1) by (auto simp: bb_storage_rtc_region_valid_def bb_storage_rtc_region_crc_def split: if_splits)
  have len: "length (region_bytes r') = length (region_bytes r)"
    using assms(5,6) by (simp add: region_bytes_def length_le)
  show False
  proof (cases "i < length (region_bytes r)")
    case True
    then have "region_bytes r' @ le32 (rg_crc r') = (region_bytes r)[i := x] @ le32 (rg_crc r)"
      using assms(4) by (simp add: region_image_split list_update_append)
    then have "region_bytes r' = (region_bytes r)[i := x]" "le32 (rg_crc r') = le32 (rg_crc r)" using len by simp_all
    moreover have "x \<noteq> region_bytes r ! i" using assms(3) True by (simp add: region_image_split nth_append)
    ultimately show False using crc32_one_byte [OF True] crc le32_inj by metis
  next
    case False
    then have "region_bytes r' @ le32 (rg_crc r') = region_bytes r @ (le32 (rg_crc r))[i - length (region_bytes r) := x]"
      using assms(4) by (simp add: region_image_split list_update_append)
    then have "region_bytes r' = region_bytes r"
      and c: "le32 (rg_crc r') = (le32 (rg_crc r))[i - length (region_bytes r) := x]" using len by simp_all
    then have "rg_crc r' = rg_crc r" using crc by simp
    then have "(le32 (rg_crc r))[i - length (region_bytes r) := x] = le32 (rg_crc r)" using c by simp
    moreover have "i - length (region_bytes r) < length (le32 (rg_crc r))"
      using assms(2) False by (simp add: region_image_split)
    ultimately have "le32 (rg_crc r) ! (i - length (region_bytes r)) = x" by (metis nth_list_update_eq)
    then show False using assms(3) False by (simp add: region_image_split nth_append)
  qed
qed

theorem rtc_single_byte_corruption_witness:
  "\<not> bb_storage_rtc_region_valid (Some ((bb_storage_rtc_region_pack (Some [97, 98]) (Some [99]) 1)\<lparr>rg_provisioned := 0\<rparr>))"
proof (rule rtc_single_byte_corruption [OF pack_valid [of "Some [97, 98]" "Some [99]" 1], of 6 0])
  let ?r = "bb_storage_rtc_region_pack (Some [97, 98]) (Some [99]) 1"
  have p: "rg_provisioned ?r = 1" by (simp add: bb_storage_rtc_region_pack_def Let_def)
  show "6 < length (region_image ?r)" by (simp add: region_image_def region_bytes_def length_le)
  show "0 \<noteq> region_image ?r ! 6" by (simp add: region_image_def region_bytes_def le32_def le16_def p)
  show "region_image (?r\<lparr>rg_provisioned := 0\<rparr>) = (region_image ?r)[6 := 0]"
    by (simp add: region_image_def region_bytes_def le32_def le16_def)
qed simp_all

end
