(* ===== verification/BB_Storage_RTC.thy ===== *)
theory BB_Storage_RTC
  imports BB_Storage_RAM BB_RTC_Region
begin

text \<open>
  The back end of \<^verbatim>\<open>platform/host/bb_storage_rtc/bb_storage_rtc.c\<close>: three fixed keys kept in one
  checksummed region of memory that survives a warm reset. The ESP-IDF file has the same code over
  \<^verbatim>\<open>RTC_NOINIT\<close> memory, whose content after power-up is arbitrary; so are the initial regions here.
\<close>

section \<open>The back end\<close>

record bb_statics_rtc = bb_statics +
  s_region :: bb_storage_rtc_region_t

abbreviation upd_region :: "(bb_storage_rtc_region_t \<Rightarrow> bb_storage_rtc_region_t) \<Rightarrow> 'a bb_statics_rtc_scheme \<Rightarrow> 'a bb_statics_rtc_scheme" where
  "upd_region f w \<equiv> w\<lparr>s_region := f (s_region w)\<rparr>"

abbreviation region_ok :: "bb_storage_rtc_region_t \<Rightarrow> bool" where
  "region_ok g \<equiv> bb_storage_rtc_region_valid (Some g)"

definition bb_storage_rtc_test_reset :: "('a bb_statics_rtc_scheme, unit) io" where
  "bb_storage_rtc_test_reset = (\<lambda>w. Some ((), w\<lparr>s_region := region_zero\<rparr>))"

text \<open>The bytes of a character array up to its terminator (\<^verbatim>\<open>strlen\<close> and what it measures).\<close>

definition text_of :: "u8 list \<Rightarrow> u8 list" where
  "text_of bs = takeWhile (\<lambda>b. b \<noteq> 0) bs"

text \<open>Reading a text field: truncation leaves room for the terminator.\<close>

definition get_text :: "u8 list \<Rightarrow> bytes \<Rightarrow> nat \<Rightarrow> (bb_err_t \<times> bytes \<times> nat) option" where
  "get_text field buf cap =
     (let len = length (text_of field) in
      if cap > 0
      then (case buf of None \<Rightarrow> None
            | Some b \<Rightarrow> let n = (if len < cap then len else cap - 1) in
                Some (BB_OK, Some ((blit b 0 (take n field))[n := 0]), len))
      else Some (BB_OK, buf, len))"

definition rtc_get :: "'a bb_statics_rtc_scheme get_fn" where
  "rtc_get impl addr buf cap out_len =
     (\<lambda>w. let g = s_region w in
          case ad_key addr of
            None \<Rightarrow> Some ((BB_ERR_INVALID_ARG, buf, out_len), w)
          | Some k \<Rightarrow>
              if \<not> region_ok g then Some ((BB_ERR_NOT_FOUND, buf, out_len), w)
              else if k = ''ssid'' then map_option (\<lambda>x. (x, w)) (get_text (rg_ssid g) buf cap)
              else if k = ''pass'' then map_option (\<lambda>x. (x, w)) (get_text (rg_pass g) buf cap)
              else if k = ''provisioned'' then
                (if cap > 0
                 then (case buf of None \<Rightarrow> None
                       | Some b \<Rightarrow> Some ((BB_OK, Some (blit b 0 (take (if cap < 1 then cap else 1) [rg_provisioned g])), 1), w))
                 else Some ((BB_OK, buf, 1), w))
              else Some ((BB_ERR_NOT_FOUND, buf, out_len), w))"

definition put_text :: "u8 list \<Rightarrow> u8 list \<Rightarrow> nat \<Rightarrow> u8 list" where
  "put_text field buf len = (blit field 0 (take len buf))[len := 0]"

text \<open>The tail of a write: the whole region is stamped again.\<close>

definition stamp :: "bb_storage_rtc_region_t \<Rightarrow> bb_storage_rtc_region_t" where
  "stamp g = (let h = g\<lparr>rg_magic := BB_STORAGE_RTC_REGION_MAGIC, rg_version := BB_STORAGE_RTC_REGION_VERSION\<rparr>
              in h\<lparr>rg_crc := bb_storage_rtc_region_crc h\<rparr>)"

definition rtc_set :: "ptr \<Rightarrow> bb_storage_addr_t \<Rightarrow> bytes \<Rightarrow> nat \<Rightarrow> ('a bb_statics_rtc_scheme, bb_err_t) io" where
  "rtc_set impl addr buf len =
     (\<lambda>w. case ad_key addr of
            None \<Rightarrow> Some (BB_ERR_INVALID_ARG, w)
          | Some k \<Rightarrow>
              let g = (if \<not> region_ok (s_region w) then region_zero else s_region w);
                  w0 = w\<lparr>s_region := g\<rparr>; b = the_default [] buf in
              if k = ''ssid'' then
                (if len > SSID_SIZE - 1 then Some (BB_ERR_NO_SPACE, w0)
                 else if no_buf len buf then None
                 else Some (BB_OK, w0\<lparr>s_region := stamp (g\<lparr>rg_ssid := put_text (rg_ssid g) b len\<rparr>)\<rparr>))
              else if k = ''pass'' then
                (if len > PASS_SIZE - 1 then Some (BB_ERR_NO_SPACE, w0)
                 else if no_buf len buf then None
                 else Some (BB_OK, w0\<lparr>s_region := stamp (g\<lparr>rg_pass := put_text (rg_pass g) b len\<rparr>)\<rparr>))
              else if k = ''provisioned'' then
                (if len \<noteq> 1 then Some (BB_ERR_INVALID_ARG, w0)
                 else if no_buf len buf then None
                 else Some (BB_OK, w0\<lparr>s_region := stamp (g\<lparr>rg_provisioned := b ! 0\<rparr>)\<rparr>))
              else Some (BB_ERR_INVALID_ARG, w0))"

definition rtc_key :: "string \<Rightarrow> bool" where
  "rtc_key k \<longleftrightarrow> k = ''ssid'' \<or> k = ''pass'' \<or> k = ''provisioned''"

definition rtc_erase :: "ptr \<Rightarrow> bb_storage_addr_t \<Rightarrow> ('a bb_statics_rtc_scheme, bb_err_t) io" where
  "rtc_erase impl addr =
     (\<lambda>w. case ad_key addr of
            None \<Rightarrow> Some (BB_ERR_INVALID_ARG, w)
          | Some k \<Rightarrow> if \<not> rtc_key k then Some (BB_ERR_INVALID_ARG, w)
                      else Some (BB_OK, w\<lparr>s_region := region_zero\<rparr>))"

definition rtc_exists :: "ptr \<Rightarrow> bb_storage_addr_t \<Rightarrow> ('a bb_statics_rtc_scheme, bool) io" where
  "rtc_exists impl addr =
     (\<lambda>w. Some ((case ad_key addr of
            None \<Rightarrow> False
          | Some k \<Rightarrow>
              if \<not> region_ok (s_region w) then False
              else if k = ''ssid'' then rg_ssid (s_region w) ! 0 \<noteq> 0
              else if k = ''pass'' then rg_pass (s_region w) ! 0 \<noteq> 0
              else k = ''provisioned''), w))"

section \<open>Transactions\<close>

definition rtc_txn_classify :: "string option \<Rightarrow> nat \<Rightarrow> bb_err_t" where
  "rtc_txn_classify key len =
     (case key of
        None \<Rightarrow> BB_ERR_INVALID_ARG
      | Some k \<Rightarrow>
          if k = ''ssid'' then (if len > SSID_SIZE - 1 then BB_ERR_NO_SPACE else BB_OK)
          else if k = ''pass'' then (if len > PASS_SIZE - 1 then BB_ERR_NO_SPACE else BB_OK)
          else if k = ''provisioned'' then (if len \<noteq> 1 then BB_ERR_INVALID_ARG else BB_OK)
          else BB_ERR_INVALID_ARG)"

definition rtc_txn_begin ::
  "ptr \<Rightarrow> bb_storage_txn_fields \<Rightarrow> string \<Rightarrow> ('a bb_statics_rtc_scheme, bb_err_t \<times> bb_storage_txn_fields) io"
where
  "rtc_txn_begin impl txn ns_or_dir = ret (BB_OK, txn\<lparr>tx_open := True, tx_err := BB_OK\<rparr>)"

definition rtc_txn_set :: "'a bb_statics_rtc_scheme txn_set_fn" where
  "rtc_txn_set impl txn key enc buf len =
     (\<lambda>w. if \<not> tx_open txn then Some ((BB_ERR_INVALID_STATE, txn), w)
          else if tx_err txn \<noteq> BB_OK then Some ((tx_err txn, txn), w)
          else let err = rtc_txn_classify (Some key) len in
            if err \<noteq> BB_OK then Some ((err, txn\<lparr>tx_err := err\<rparr>), w)
            else (case bb_storage_txn_slot_stage (Some txn) (Some key) enc buf len of
                    None \<Rightarrow> None
                  | Some (e, t) \<Rightarrow> Some ((e, poison e (the_default txn t)), w)))"

definition rtc_apply_slot :: "bb_storage_txn_slot_t \<Rightarrow> bb_storage_rtc_region_t \<Rightarrow> bb_storage_rtc_region_t" where
  "rtc_apply_slot s g =
     (if \<not> ts_used s then g
      else let key = cstr (ts_key s) in
        if key = ''ssid'' then g\<lparr>rg_ssid := put_text (rg_ssid g) (ts_value s) (ts_len s)\<rparr>
        else if key = ''pass'' then g\<lparr>rg_pass := put_text (rg_pass g) (ts_value s) (ts_len s)\<rparr>
        else if key = ''provisioned'' then g\<lparr>rg_provisioned := ts_value s ! 0\<rparr>
        else g)"

definition rtc_txn_commit :: "'a bb_statics_rtc_scheme txn_end_fn" where
  "rtc_txn_commit impl txn =
     (\<lambda>w. if \<not> tx_open txn then Some ((BB_ERR_INVALID_STATE, txn), w)
          else if tx_err txn \<noteq> BB_OK then Some ((tx_err txn, txn\<lparr>tx_open := False\<rparr>), w)
          else
            let tmp = (if region_ok (s_region w) then s_region w else region_zero);
                tmp = fold rtc_apply_slot (take (tx_cap txn) (tx_slots txn)) tmp
            in Some ((BB_OK, txn\<lparr>tx_open := False\<rparr>), w\<lparr>s_region := stamp tmp\<rparr>))"

definition rtc_txn_abort :: "'a bb_statics_rtc_scheme txn_end_fn" where
  "rtc_txn_abort impl txn =
     (if \<not> tx_open txn then ret (BB_OK, txn)
      else ret (BB_OK, txn\<lparr>tx_slots := replicate (tx_cap txn) slot_zero @ drop (tx_cap txn) (tx_slots txn), tx_open := False\<rparr>))"

definition s_rtc_vtable :: "'a bb_statics_rtc_scheme bb_storage_vtable_t" where
  "s_rtc_vtable = vtable_zero\<lparr>vt_get := Some rtc_get, vt_set := Some rtc_set, vt_erase := Some rtc_erase,
     vt_exists := Some rtc_exists, vt_txn_begin := Some rtc_txn_begin, vt_txn_set := Some rtc_txn_set,
     vt_txn_commit := Some rtc_txn_commit, vt_txn_abort := Some rtc_txn_abort\<rparr>"

definition bb_storage_rtc_register ::
  "'a bb_statics_rtc_scheme bb_storage_registry \<Rightarrow> bb_err_t \<times> 'a bb_statics_rtc_scheme bb_storage_registry"
where
  "bb_storage_rtc_register r = bb_storage_register_backend r (Some ''rtc'') (Some s_rtc_vtable) None"

section \<open>The region as three values\<close>

definition rtc_inv :: "bb_storage_rtc_region_t \<Rightarrow> bool" where
  "rtc_inv g \<longleftrightarrow> length (rg_ssid g) = SSID_SIZE \<and> length (rg_pass g) = PASS_SIZE \<and>
     (region_ok g \<longrightarrow> 0 \<in> set (rg_ssid g) \<and> 0 \<in> set (rg_pass g))"

definition rtc_fields :: "bb_storage_rtc_region_t \<Rightarrow> (string \<rightharpoonup> u8 list)" where
  "rtc_fields g = [''ssid'' \<mapsto> text_of (rg_ssid g), ''pass'' \<mapsto> text_of (rg_pass g), ''provisioned'' \<mapsto> [rg_provisioned g]]"

definition rtc_lookup :: "'a bb_statics_rtc_scheme \<Rightarrow> (string \<rightharpoonup> u8 list)" where
  "rtc_lookup w = (if region_ok (s_region w) then rtc_fields (s_region w) else Map.empty)"

text \<open>What a stored value reads back as: a text ends at its first zero byte.\<close>

definition rtc_reads :: "string \<Rightarrow> u8 list \<Rightarrow> u8 list" where
  "rtc_reads k v = (if k = ''provisioned'' then v else text_of v)"

lemma region_zero_invalid [simp]: "\<not> region_ok region_zero"
  by (simp add: bb_storage_rtc_region_valid_def region_zero_def BB_STORAGE_RTC_REGION_MAGIC_def)

lemma stamp_simps [simp]: "rg_ssid (stamp g) = rg_ssid g" "rg_pass (stamp g) = rg_pass g"
  "rg_provisioned (stamp g) = rg_provisioned g"
  by (simp_all add: stamp_def Let_def)

lemma stamp_valid [simp]: "region_ok (stamp g)"
proof -
  have "region_bytes (r\<lparr>rg_crc := c\<rparr>) = region_bytes r" for r c by (simp add: region_bytes_def)
  then show ?thesis by (simp add: stamp_def Let_def bb_storage_rtc_region_valid_def bb_storage_rtc_region_crc_def)
qed

lemma rtc_inv_zero: "rtc_inv region_zero"
  by (simp add: rtc_inv_def) (simp add: region_zero_def)

lemma takeWhile_tail: "\<not> P x \<Longrightarrow> takeWhile P (xs @ x # ys) = takeWhile P xs"
  by (induction xs) auto

lemma put_text:
  assumes "len < length field" and "len \<le> length buf"
  shows "length (put_text field buf len) = length field" "0 \<in> set (put_text field buf len)"
    "text_of (put_text field buf len) = text_of (take len buf)"
proof -
  have e: "put_text field buf len = take len buf @ 0 # drop (Suc len) field"
    using assms by (cases "drop len field")
      (auto simp: put_text_def blit_def list_update_append drop_Suc tl_drop [symmetric])
  show "length (put_text field buf len) = length field" "0 \<in> set (put_text field buf len)" using assms by (simp_all add: e)
  show "text_of (put_text field buf len) = text_of (take len buf)"
    unfolding e text_of_def by (rule takeWhile_tail) simp
qed

section \<open>What was written is read back\<close>

abbreviation region_inv :: "'a bb_statics_rtc_scheme \<Rightarrow> bool" where "region_inv w \<equiv> rtc_inv (s_region w)"

definition rtc_gate :: "'a bb_statics_rtc_scheme \<Rightarrow> string \<Rightarrow> u8 list \<Rightarrow> bool" where
  "rtc_gate w k v \<longleftrightarrow> rtc_txn_classify (Some k) (length v) = BB_OK"

definition rtc_plain :: "string \<Rightarrow> u8 list \<Rightarrow> bool" where
  "rtc_plain k v \<longleftrightarrow> k = ''provisioned'' \<or> 0 \<notin> set v"

text \<open>A region whose fields are in order, valid or not.\<close>

definition sound :: "bb_storage_rtc_region_t \<Rightarrow> bool" where
  "sound g \<longleftrightarrow> length (rg_ssid g) = SSID_SIZE \<and> length (rg_pass g) = PASS_SIZE \<and> 0 \<in> set (rg_ssid g) \<and> 0 \<in> set (rg_pass g)"

definition rtc_base :: "bb_storage_rtc_region_t \<Rightarrow> bb_storage_rtc_region_t" where
  "rtc_base g = (if region_ok g then g else region_zero)"

lemma rtc_base_sound: "rtc_inv g \<Longrightarrow> sound (rtc_base g)"
  by (simp add: rtc_base_def rtc_inv_def sound_def) (simp add: region_zero_def SSID_SIZE_def PASS_SIZE_def)

lemma stamp_inv: "sound g \<Longrightarrow> rtc_inv (stamp g)"
  by (simp add: sound_def rtc_inv_def)

lemma sound_fields:
  assumes "sound g"
  shows "rtc_txn_classify (Some ''ssid'') len = BB_OK \<Longrightarrow> len \<le> length b \<Longrightarrow>
      sound (g\<lparr>rg_ssid := put_text (rg_ssid g) b len\<rparr>) \<and>
      rtc_fields (g\<lparr>rg_ssid := put_text (rg_ssid g) b len\<rparr>) = (rtc_fields g)(''ssid'' \<mapsto> text_of (take len b))"
    "rtc_txn_classify (Some ''pass'') len = BB_OK \<Longrightarrow> len \<le> length b \<Longrightarrow>
      sound (g\<lparr>rg_pass := put_text (rg_pass g) b len\<rparr>) \<and>
      rtc_fields (g\<lparr>rg_pass := put_text (rg_pass g) b len\<rparr>) = (rtc_fields g)(''pass'' \<mapsto> text_of (take len b))"
    "sound (g\<lparr>rg_provisioned := x\<rparr>) \<and> rtc_fields (g\<lparr>rg_provisioned := x\<rparr>) = (rtc_fields g)(''provisioned'' \<mapsto> [x])"
  using assms put_text [of len "rg_ssid g" b] put_text [of len "rg_pass g" b]
  by (auto simp: sound_def rtc_fields_def rtc_txn_classify_def SSID_SIZE_def PASS_SIZE_def fun_eq_iff split: if_splits)

lemma rtc_lookup_stamp [simp]: "rtc_lookup (w\<lparr>s_region := stamp g\<rparr>) = rtc_fields g"
  by (simp add: rtc_lookup_def rtc_fields_def)

text \<open>A successful write leaves a stamped region that has the value and the other fields as they were,
  empty after a cold start.\<close>

lemma rtc_set_result:
  assumes inv: "region_inv w" and a: "ad_key a = Some k" and n: "n \<le> length b"
  obtains e w' where "rtc_set p a (Some b) n w = Some (e, w')" "region_inv w'" "bb_statics.truncate w' = bb_statics.truncate w"
    "e = BB_OK \<longleftrightarrow> rtc_txn_classify (Some k) n = BB_OK" "e \<noteq> BB_OK \<longrightarrow> rtc_lookup w' = rtc_lookup w"
    "e = BB_OK \<longrightarrow> rtc_lookup w' = (rtc_fields (rtc_base (s_region w)))(k \<mapsto> rtc_reads k (take n b))"
proof -
  let ?g = "rtc_base (s_region w)"
  have g: "(if \<not> region_ok (s_region w) then region_zero else s_region w) = ?g" by (simp add: rtc_base_def)
  note s = rtc_base_sound [OF inv]
  have fail: "region_inv (w\<lparr>s_region := ?g\<rparr>)" "rtc_lookup (w\<lparr>s_region := ?g\<rparr>) = rtc_lookup w"
    using inv rtc_inv_zero by (auto simp: rtc_base_def rtc_lookup_def)
  show thesis
  proof (cases "rtc_txn_classify (Some k) n = BB_OK")
    case False
    then have "\<exists>e. rtc_set p a (Some b) n w = Some (e, w\<lparr>s_region := ?g\<rparr>) \<and> e \<noteq> BB_OK"
      unfolding rtc_set_def a g rtc_txn_classify_def Let_def option.case
      by (simp add: SSID_SIZE_def PASS_SIZE_def split: if_splits)
    then show thesis using that fail False by (auto simp: bb_statics.truncate_def)
  next
    case True
    then consider (s) "k = ''ssid''" | (p) "k = ''pass''" | (v) "k = ''provisioned''" "n = 1"
      by (auto simp: rtc_txn_classify_def split: if_splits)
    then show thesis
    proof cases
      case s
      let ?h = "?g\<lparr>rg_ssid := put_text (rg_ssid ?g) b n\<rparr>"
      have "rtc_set p a (Some b) n w = Some (BB_OK, w\<lparr>s_region := stamp ?h\<rparr>)"
        using True s by (simp add: rtc_set_def a g rtc_txn_classify_def Let_def the_default_def split: if_splits)
      moreover have "sound ?h \<and> rtc_fields ?h = (rtc_fields ?g)(''ssid'' \<mapsto> text_of (take n b))"
        using sound_fields(1) [OF \<open>sound ?g\<close> _ n] True s by simp
      ultimately show thesis using that True s stamp_inv by (auto simp: bb_statics.truncate_def rtc_reads_def)
    next
      case p
      let ?h = "?g\<lparr>rg_pass := put_text (rg_pass ?g) b n\<rparr>"
      have "rtc_set p a (Some b) n w = Some (BB_OK, w\<lparr>s_region := stamp ?h\<rparr>)"
        using True p by (simp add: rtc_set_def a g rtc_txn_classify_def Let_def the_default_def split: if_splits)
      moreover have "sound ?h \<and> rtc_fields ?h = (rtc_fields ?g)(''pass'' \<mapsto> text_of (take n b))"
        using sound_fields(2) [OF \<open>sound ?g\<close> _ n] True p by simp
      ultimately show thesis using that True p stamp_inv by (auto simp: bb_statics.truncate_def rtc_reads_def)
    next
      case v
      let ?h = "?g\<lparr>rg_provisioned := b ! 0\<rparr>"
      have "rtc_set p a (Some b) n w = Some (BB_OK, w\<lparr>s_region := stamp ?h\<rparr>)"
        using v by (simp add: rtc_set_def a g Let_def the_default_def)
      moreover have "sound ?h \<and> rtc_fields ?h = (rtc_fields ?g)(''provisioned'' \<mapsto> [b ! 0])"
        by (rule sound_fields(3) [OF \<open>sound ?g\<close>])
      moreover have "take 1 b = [b ! 0]" using n v by (cases b) simp_all
      ultimately show thesis using that True v stamp_inv by (auto simp: bb_statics.truncate_def rtc_reads_def)
    qed
  qed
qed

lemma get_text_law:
  assumes "length (text_of f) < cap" and "cap \<le> length b"
  shows "\<exists>b'. length b' = length b - length (text_of f) \<and> get_text f (Some b) cap = Some (BB_OK, Some (text_of f @ b'), length (text_of f))"
proof -
  let ?t = "text_of f"
  have t: "take (length ?t) f = ?t" unfolding text_of_def by (metis takeWhile_eq_take)
  have "(blit b 0 ?t)[length ?t := 0] = ?t @ 0 # drop (Suc (length ?t)) b"
    using assms by (cases "drop (length ?t) b") (auto simp: blit_def list_update_append drop_Suc tl_drop [symmetric])
  then show ?thesis using assms t by (simp add: get_text_def Let_def)
qed

interpretation rtc_rb: readback_backend "s_rtc_vtable :: 'a bb_statics_rtc_scheme bb_storage_vtable_t" region_inv
  rtc_lookup rtc_gate rtc_plain
proof (unfold_locales, goal_cases)
  case (1 w a k v cap b p ol)
  have ok: "region_ok (s_region w)" and f: "rtc_fields (s_region w) k = Some v"
    using 1(3) by (simp_all add: rtc_lookup_def split: if_splits)
  from f consider (s) "k = ''ssid''" "v = text_of (rg_ssid (s_region w))" | (p) "k = ''pass''" "v = text_of (rg_pass (s_region w))"
    | (v) "k = ''provisioned''" "v = [rg_provisioned (s_region w)]"
    by (auto simp: rtc_fields_def split: if_splits)
  then show ?case
  proof cases
    case s
    then show ?thesis using 1 ok get_text_law [of "rg_ssid (s_region w)" cap b] by (auto simp: s_rtc_vtable_def rtc_get_def Let_def)
  next
    case p
    then show ?thesis using 1 ok get_text_law [of "rg_pass (s_region w)" cap b] by (auto simp: s_rtc_vtable_def rtc_get_def Let_def)
  next
    case v
    then show ?thesis using 1 ok
      by (auto simp: s_rtc_vtable_def rtc_get_def Let_def blit_def intro!: exI [of _ "drop 1 b"])
  qed
next
  case (2 w a k p buf cap ol)
  then show ?case
    by (auto simp: s_rtc_vtable_def rtc_get_def Let_def rtc_lookup_def rtc_fields_def split: if_splits)
next
  case (3 w a k n b p)
  obtain e w' where r: "rtc_set p a (Some b) n w = Some (e, w')" "region_inv w'"
    "e = BB_OK \<longleftrightarrow> rtc_txn_classify (Some k) n = BB_OK" "e \<noteq> BB_OK \<longrightarrow> rtc_lookup w' = rtc_lookup w"
    "e = BB_OK \<longrightarrow> rtc_lookup w' = (rtc_fields (rtc_base (s_region w)))(k \<mapsto> rtc_reads k (take n b))"
    by (rule rtc_set_result [OF 3(1,2,4), of p])
  have "rtc_plain k v \<Longrightarrow> rtc_reads k v = v" for v
    by (auto simp: rtc_plain_def rtc_reads_def text_of_def takeWhile_eq_all_conv)
  then show ?case using r 3(4) by (auto simp: s_rtc_vtable_def rtc_gate_def)
qed

section \<open>A transaction publishes in one step\<close>

definition rtc_key_gate :: "string \<Rightarrow> u8 list \<Rightarrow> bool" where
  "rtc_key_gate k v \<longleftrightarrow> rtc_txn_classify (Some k) (length v) = BB_OK"

definition rtc_published :: "(string \<rightharpoonup> u8 list) \<Rightarrow> (string \<rightharpoonup> u8 list)" where
  "rtc_published m = (\<lambda>k. map_option (rtc_reads k) (m k))"

definition rtc_applied :: "(string \<rightharpoonup> u8 list) \<Rightarrow> 'a bb_statics_rtc_scheme \<Rightarrow> 'a bb_statics_rtc_scheme \<Rightarrow> bool" where
  "rtc_applied m w w' \<longleftrightarrow> rtc_lookup w' = rtc_fields (rtc_base (s_region w)) ++ rtc_published m \<and>
     s_entries w' = s_entries w \<and> bb_statics_rtc.more w' = bb_statics_rtc.more w"

lemma rtc_apply_slot_fields:
  assumes "sound g" and "slot_wf s" and "slot_view s = Some (k, v)" and "rtc_key_gate k v"
  shows "sound (rtc_apply_slot s g) \<and> rtc_fields (rtc_apply_slot s g) = (rtc_fields g)(k \<mapsto> rtc_reads k v)"
proof -
  have u: "ts_used s" and k: "k = cstr (ts_key s)" and v: "v = take (ts_len s) (ts_value s)"
    using assms(3) by (auto simp: slot_view_def split: if_splits)
  have l: "ts_len s \<le> length (ts_value s)" using assms(2) by (simp add: slot_wf_def)
  then have lv: "length v = ts_len s" by (simp add: v)
  from assms(4) lv consider (s) "k = ''ssid''" "rtc_txn_classify (Some ''ssid'') (ts_len s) = BB_OK"
    | (p) "k = ''pass''" "rtc_txn_classify (Some ''pass'') (ts_len s) = BB_OK"
    | (v) "k = ''provisioned''" "ts_len s = 1"
    by (auto simp: rtc_key_gate_def rtc_txn_classify_def split: if_splits)
  then show ?thesis
  proof cases
    case s
    then show ?thesis using sound_fields(1) [OF assms(1) s(2) l] u k v by (simp add: rtc_apply_slot_def rtc_reads_def)
  next
    case p
    then show ?thesis using sound_fields(2) [OF assms(1) p(2) l] u k v by (simp add: rtc_apply_slot_def rtc_reads_def)
  next
    case v': v
    have "v = [ts_value s ! 0]" using l v v' by (cases "ts_value s") simp_all
    moreover have "rtc_apply_slot s g = g\<lparr>rg_provisioned := ts_value s ! 0\<rparr>"
      using u k v'(1) unfolding rtc_apply_slot_def Let_def k [symmetric] v'(1) by simp
    ultimately show ?thesis using sound_fields(3) [OF assms(1), of "ts_value s ! 0"] v'(1) by (simp add: rtc_reads_def)
  qed
qed

lemma rtc_fold_fields:
  assumes "sound g" and "\<forall>s\<in>set ss. slot_wf s" and "tab_ok slot_view ss"
    and "\<And>k v. tab_map slot_view ss k = Some v \<Longrightarrow> rtc_key_gate k v"
  shows "sound (fold rtc_apply_slot ss g) \<and> rtc_fields (fold rtc_apply_slot ss g) = rtc_fields g ++ rtc_published (tab_map slot_view ss)"
  using assms
proof (induction ss arbitrary: g)
  case Nil
  then show ?case by (simp add: rtc_published_def map_add_def)
next
  case (Cons s ss)
  note ok = tab_ok_Cons [OF Cons.prems(3)]
  show ?case
  proof (cases "slot_view s")
    case None
    then have "rtc_apply_slot s g = g" by (simp add: rtc_apply_slot_def)
    then show ?thesis using Cons.IH [OF Cons.prems(1) _ ok] Cons.prems(2,4) None by (simp add: rtc_apply_slot_def)
  next
    case (Some kv)
    obtain k v where kv: "slot_view s = Some (k, v)" using Some by (cases kv) simp
    then have n: "tab_map slot_view ss k = None" using tab_ok_Cons_head [OF Cons.prems(3)] by blast
    have m: "tab_map slot_view (s # ss) = (tab_map slot_view ss)(k \<mapsto> v)" using kv by simp
    have gate: "rtc_key_gate k v" using Cons.prems(4) [of k v] m by simp
    have wf: "slot_wf s" "\<forall>s\<in>set ss. slot_wf s" using Cons.prems(2) by simp_all
    have rest: "rtc_key_gate k' v'" if "tab_map slot_view ss k' = Some v'" for k' v'
      by (rule Cons.prems(4)) (use that n m in auto)
    note g1 = rtc_apply_slot_fields [OF Cons.prems(1) wf(1) kv gate]
    have ih: "sound (fold rtc_apply_slot ss (rtc_apply_slot s g)) \<and> rtc_fields (fold rtc_apply_slot ss (rtc_apply_slot s g)) =
        rtc_fields (rtc_apply_slot s g) ++ rtc_published (tab_map slot_view ss)"
      by (rule Cons.IH [OF conjunct1 [OF g1] wf(2) ok rest])
    have "(rtc_fields g)(k \<mapsto> rtc_reads k v) ++ rtc_published (tab_map slot_view ss) =
        rtc_fields g ++ rtc_published ((tab_map slot_view ss)(k \<mapsto> v))"
      using n by (auto simp: fun_eq_iff map_add_def rtc_published_def split: option.splits)
    then show ?thesis using ih g1 unfolding m fold_simps by metis
  qed
qed

lemma rtc_commit_result:
  assumes inv: "region_inv w" and wf: "txn_wf d" and op: "tx_open d" "tx_err d = BB_OK"
    and g: "\<And>k v. staged d k = Some v \<Longrightarrow> rtc_key_gate k v"
  obtains w' where "rtc_txn_commit p d w = Some ((BB_OK, d\<lparr>tx_open := False\<rparr>), w')" "region_inv w'"
    "rtc_applied (staged d) w w'"
proof -
  let ?h = "fold rtc_apply_slot (wired d) (rtc_base (s_region w))"
  have h: "sound ?h \<and> rtc_fields ?h = rtc_fields (rtc_base (s_region w)) ++ rtc_published (staged d)"
    unfolding staged_def
    by (rule rtc_fold_fields [OF rtc_base_sound [OF inv]]) (use wf g in \<open>auto simp: txn_wf_def staged_def\<close>)
  have "rtc_txn_commit p d w = Some ((BB_OK, d\<lparr>tx_open := False\<rparr>), w\<lparr>s_region := stamp ?h\<rparr>)"
    using op by (simp add: rtc_txn_commit_def Let_def wired_def rtc_base_def)
  then show thesis by (rule that) (use h stamp_inv in \<open>simp_all add: rtc_applied_def\<close>)
qed

lemma rtc_stage_result:
  assumes wf: "txn_wf d" and op: "tx_open d" "tx_err d = BB_OK" and k: "c_string k" and n: "n \<le> length b"
  obtains e d' where "rtc_txn_set p d k enc (Some b) n w = Some ((e, d'), w)" "tx_open d'"
    "e = BB_OK \<longleftrightarrow> rtc_key_gate k (take n b) \<and> stage_takes (tx_cap d) (staged d) k (take n b)"
    "e = BB_OK \<Longrightarrow> txn_wf d' \<and> tx_err d' = BB_OK \<and> tx_cap d' = tx_cap d \<and> staged d' = (staged d)(k \<mapsto> take n b)"
    "e \<noteq> BB_OK \<Longrightarrow> d' = d\<lparr>tx_err := e\<rparr>"
proof (cases "rtc_txn_classify (Some k) n = BB_OK")
  case False
  then have "rtc_txn_set p d k enc (Some b) n w = Some ((rtc_txn_classify (Some k) n, d\<lparr>tx_err := rtc_txn_classify (Some k) n\<rparr>), w)"
    using op by (simp add: rtc_txn_set_def Let_def)
  then show thesis by (rule that) (use op False n in \<open>simp_all add: rtc_key_gate_def\<close>)
next
  case True
  obtain e x where st: "bb_storage_txn_slot_stage (Some d) (Some k) enc (Some b) n = Some (e, x)"
    using slot_stage_total [of n "Some b" d k enc] by auto
  have ev: "rtc_txn_set p d k enc (Some b) n w = Some ((e, poison e (the_default d x)), w)"
    using True op st by (simp add: rtc_txn_set_def Let_def)
  note tk = slot_stage_takes [OF wf n st]
  show thesis
  proof (cases "e = BB_OK")
    case e: True
    then obtain d' where "x = Some d'" "txn_wf d'" "staged d' = (staged d)(k \<mapsto> take n b)"
      "tx_open d' = tx_open d" "tx_err d' = tx_err d" "tx_cap d' = tx_cap d"
      using slot_stage_ok [OF wf k n] st by metis
    then show thesis using that [OF ev] e tk True op n by (simp add: the_default_def poison_def rtc_key_gate_def)
  next
    case False
    then have "x = Some d" using slot_stage_error st by blast
    then show thesis using that [OF ev] False tk op by (simp add: the_default_def poison_def)
  qed
qed

interpretation rtc_txn: staging_backend "s_rtc_vtable :: 'a bb_statics_rtc_scheme bb_storage_vtable_t" region_inv
  rtc_applied "\<lambda>m w. True" rtc_key_gate
proof (unfold_locales, goal_cases)
  case (1 w d p nd)
  then show ?case by (simp add: s_rtc_vtable_def rtc_txn_begin_def)
next
  case (2 w d k n b p enc)
  show ?case by (rule rtc_stage_result [OF 2(2-6), of p enc w]) (auto simp: s_rtc_vtable_def)
next
  case (3 w d p)
  then show ?case by (simp add: s_rtc_vtable_def rtc_txn_commit_def)
next
  case (4 w d p)
  obtain w' where "rtc_txn_commit p d w = Some ((BB_OK, d\<lparr>tx_open := False\<rparr>), w')" "region_inv w'" "rtc_applied (staged d) w w'"
    by (rule rtc_commit_result [OF 4(1-4) 4(5)])
  then show ?case by (auto simp: s_rtc_vtable_def)
next
  case (5 w d p)
  then show ?case by (simp add: s_rtc_vtable_def rtc_txn_abort_def)
qed

section \<open>Neither back end touches NULL\<close>


abbreviation stores_inv :: "'a bb_statics_rtc_scheme \<Rightarrow> bool" where
  "stores_inv w \<equiv> ram_inv w \<and> region_inv w"

lemma rtc_vt: "vt_get s_rtc_vtable = Some rtc_get" "vt_set s_rtc_vtable = Some rtc_set"
  "vt_erase s_rtc_vtable = Some rtc_erase" "vt_exists s_rtc_vtable = Some rtc_exists"
  "vt_txn_begin s_rtc_vtable = Some rtc_txn_begin" "vt_txn_set s_rtc_vtable = Some rtc_txn_set"
  "vt_txn_commit s_rtc_vtable = Some rtc_txn_commit" "vt_txn_abort s_rtc_vtable = Some rtc_txn_abort"
  "vt_erase_namespace s_rtc_vtable = None" "vt_erase_all s_rtc_vtable = None" "vt_get_typed s_rtc_vtable = None"
  "vt_set_typed s_rtc_vtable = None" "vt_list_entries s_rtc_vtable = None" "vt_get_stats s_rtc_vtable = None"
  by (simp_all add: s_rtc_vtable_def vtable_zero_def)










section \<open>The two stores side by side\<close>

definition register_all ::
  "(string option \<times> 'w bb_storage_vtable_t option \<times> ptr) list \<Rightarrow> 'w bb_storage_registry"
where
  "register_all xs = fold (\<lambda>(n, v, p) r. snd (bb_storage_register_backend r n v p)) xs bb_storage_test_reset"



definition statics_cleared :: bb_statics_rtc where
  "statics_cleared = \<lparr>s_entries = replicate BB_STORAGE_RAM_MAX_ENTRIES ram_entry_zero, s_region = region_zero\<rparr>"

lemma statics_cleared_inv: "stores_inv statics_cleared"
  by (simp add: statics_cleared_def table_inv_reset rtc_inv_zero)


text \<open>A transaction on the credentials region publishes all of its writes in one step or none. It succeeds exactly
  when every write is for one of the three keys with a length its field takes; then the region is valid and holds the written
  values, texts up to their first zero byte, over the values it had before (empty ones after a cold start or
  corruption). Otherwise nothing changes. The RAM store is never touched, and an aborted or abandoned transaction
  changes nothing.\<close>

theorem rtc_txn_publishes:
  assumes "find_backend r ''rtc'' = Some e" and "be_vt e = s_rtc_vtable" and "region_inv w"
    and "\<not> tx_open (tx_fields t)" and "list_all (\<lambda>(k, enc, v). c_string k) ws"
  shows "(\<exists>err h w'. txn_session r ''rtc'' ns t slots ws bb_storage_txn_commit w = Some ((err, Some h), w') \<and>
       \<not> tx_open (tx_fields h) \<and> region_inv w' \<and> s_entries w' = s_entries w \<and>
       (err = BB_OK \<longleftrightarrow> writes_map rtc_key_gate (length slots) Map.empty ws \<noteq> None) \<and>
       (err = BB_OK \<longrightarrow> rtc_lookup w' =
          rtc_fields (rtc_base (s_region w)) ++ rtc_published (the (writes_map rtc_key_gate (length slots) Map.empty ws))) \<and>
       (err \<noteq> BB_OK \<longrightarrow> w' = w)) \<and>
    (\<exists>h. txn_session r ''rtc'' ns t slots ws bb_storage_txn_abort w = Some ((BB_OK, Some h), w) \<and> \<not> tx_open (tx_fields h)) \<and>
    (\<exists>h. txn_session r ''rtc'' ns t slots ws (\<lambda>t. ret (BB_OK, t)) w = Some ((BB_OK, h), w))"
proof (intro conjI)
  have b: "vt_txn_begin s_rtc_vtable \<noteq> None" by (simp add: rtc_vt)
  obtain err h w' where s: "txn_session r ''rtc'' ns t slots ws bb_storage_txn_commit w = Some ((err, Some h), w')"
    "region_inv w'" "\<not> tx_open (tx_fields h)"
    "err = BB_OK \<longleftrightarrow> (\<exists>m. writes_map rtc_key_gate (length slots) Map.empty ws = Some m \<and> True)"
    "err = BB_OK \<longrightarrow> rtc_applied (the (writes_map rtc_key_gate (length slots) Map.empty ws)) w w'" "err \<noteq> BB_OK \<longrightarrow> w' = w"
    using rtc_txn.session_atomic [OF assms(1-4) b assms(5), of ns slots] by blast
  have "s_entries w' = s_entries w" using s(5,6) by (cases "err = BB_OK") (simp_all add: rtc_applied_def)
  then show "\<exists>err h w'. txn_session r ''rtc'' ns t slots ws bb_storage_txn_commit w = Some ((err, Some h), w') \<and>
       \<not> tx_open (tx_fields h) \<and> region_inv w' \<and> s_entries w' = s_entries w \<and>
       (err = BB_OK \<longleftrightarrow> writes_map rtc_key_gate (length slots) Map.empty ws \<noteq> None) \<and>
       (err = BB_OK \<longrightarrow> rtc_lookup w' =
          rtc_fields (rtc_base (s_region w)) ++ rtc_published (the (writes_map rtc_key_gate (length slots) Map.empty ws))) \<and>
       (err \<noteq> BB_OK \<longrightarrow> w' = w)"
    using s unfolding rtc_applied_def by (intro exI [of _ err] exI [of _ h] exI [of _ w']) auto
  show "\<exists>h. txn_session r ''rtc'' ns t slots ws bb_storage_txn_abort w = Some ((BB_OK, Some h), w) \<and> \<not> tx_open (tx_fields h)"
    "\<exists>h. txn_session r ''rtc'' ns t slots ws (\<lambda>t. ret (BB_OK, t)) w = Some ((BB_OK, h), w)"
    by (rule rtc_txn.session_aborted [OF assms(1-4) b assms(5)])+
qed

lemma rtc_registered:
  "find_backend (register_all [(Some ''rtc'', Some s_rtc_vtable, None)]) ''rtc'' =
     Some \<lparr>be_name = Some ''rtc'', be_vt = s_rtc_vtable, be_impl = None\<rparr>"
  by (simp add: register_all_def bb_storage_register_backend_def bb_storage_test_reset_def rtc_vt txn_set_count_def
      BB_STORAGE_MAX_BACKENDS_def find_backend_def entry_named_def numeral_eq_Suc)

theorem rtc_txn_publishes_witness:
  "\<exists>h w'. txn_session (register_all [(Some ''rtc'', Some s_rtc_vtable, None)]) ''rtc'' ''wifi'' txn_zero (replicate 2 slot_zero)
      [(''ssid'', BB_STORAGE_ENC_STR, [97]), (''provisioned'', BB_STORAGE_ENC_U8, [1])]
      bb_storage_txn_commit statics_cleared = Some ((BB_OK, Some h), w') \<and>
    rtc_lookup w' ''ssid'' = Some [97] \<and> rtc_lookup w' ''pass'' = Some [] \<and> rtc_lookup w' ''provisioned'' = Some [1]"
proof -
  let ?ws = "[(''ssid'', BB_STORAGE_ENC_STR, [97]), (''provisioned'', BB_STORAGE_ENC_U8, [1])]"
  have m: "writes_map rtc_key_gate 2 Map.empty ?ws = Some [''ssid'' \<mapsto> [97], ''provisioned'' \<mapsto> [1 :: u8]]"
    by (simp add: stage_takes_def rtc_key_gate_def rtc_txn_classify_def SSID_SIZE_def BB_STORAGE_TXN_VALUE_MAX_BYTES_def
        BB_STORAGE_TXN_KEY_MAX_BYTES_def)
  have z: "\<not> tx_open (tx_fields txn_zero)" by (simp add: txn_zero_def txn_fields_zero_def)
  have k: "list_all (\<lambda>(k, enc, v). c_string k) ?ws" by simp
  have g: "rtc_base (s_region statics_cleared) = region_zero" by (simp add: rtc_base_def statics_cleared_def)
  obtain err h w' where s: "txn_session (register_all [(Some ''rtc'', Some s_rtc_vtable, None)]) ''rtc'' ''wifi'' txn_zero
        (replicate 2 slot_zero) ?ws bb_storage_txn_commit statics_cleared = Some ((err, Some h), w')"
    and e: "err = BB_OK \<longleftrightarrow> writes_map rtc_key_gate 2 Map.empty ?ws \<noteq> None"
    and l: "err = BB_OK \<longrightarrow> rtc_lookup w' = rtc_fields region_zero ++ rtc_published (the (writes_map rtc_key_gate 2 Map.empty ?ws))"
    using conjunct1 [OF rtc_txn_publishes [OF rtc_registered _ conjunct2 [OF statics_cleared_inv] z k, of "''wifi''" "replicate 2 slot_zero"]]
    unfolding length_replicate g by auto
  have "err = BB_OK" using e unfolding m by simp
  moreover have "rtc_lookup w' = rtc_fields region_zero ++ rtc_published [''ssid'' \<mapsto> [97], ''provisioned'' \<mapsto> [1 :: u8]]"
    using l \<open>err = BB_OK\<close> unfolding m by simp
  ultimately show ?thesis using s
    by (auto simp: map_add_def rtc_published_def rtc_reads_def text_of_def rtc_fields_def)
      (simp_all add: region_zero_def PASS_SIZE_def)
qed

end
