(* ===== verification/BB_Reboot_Budget.thy ===== *)
theory BB_Reboot_Budget
  imports BB_Storage_RAM
begin

text \<open>
  The reboot budget of \<^verbatim>\<open>components/bb_system/src/bb_system_reboot_budget.c\<close>: the decision core (cooldown
  and daily cap over a ring of past reboots), the string it persists, and the per-cause cache over the storage
  facade. \<^verbatim>\<open>scan_ovf\<close> is what \<^verbatim>\<open>sscanf\<close> stores for a number that does not fit, which the C standard
  leaves open; \<^verbatim>\<open>junk\<close> is what an uninitialised local buffer holds.
\<close>

section \<open>Decision core\<close>

definition BB_SYSTEM_REBOOT_BUDGET_MIN_INTERVAL_S :: u32 where "BB_SYSTEM_REBOOT_BUDGET_MIN_INTERVAL_S = 1800"
definition BB_SYSTEM_REBOOT_BUDGET_DAILY_CAP :: u32 where "BB_SYSTEM_REBOOT_BUDGET_DAILY_CAP = 4"
definition BB_SYSTEM_REBOOT_BUDGET_CAP_MAX :: nat where "BB_SYSTEM_REBOOT_BUDGET_CAP_MAX = 10"
definition BB_SYSTEM_REBOOT_BUDGET_STATE_STR_MAX :: nat where "BB_SYSTEM_REBOOT_BUDGET_STATE_STR_MAX = 192"

record bb_system_reboot_budget_state_t =
  last_reboot_s :: u32
  reboot_s_ring :: "u32 list"
  ring_head :: u8
  ring_count :: u8

definition budget_zero :: bb_system_reboot_budget_state_t where
  "budget_zero = \<lparr>last_reboot_s = 0, reboot_s_ring = replicate BB_SYSTEM_REBOOT_BUDGET_CAP_MAX 0,
     ring_head = 0, ring_count = 0\<rparr>"

definition bb_system_elapsed_epoch_s :: "u32 \<Rightarrow> u32 \<Rightarrow> u32" where
  "bb_system_elapsed_epoch_s now_s since_s = (if now_s \<ge> since_s then now_s - since_s else 0)"

text \<open>The scan of the ring for reboots of the last 24 hours; later timestamps are skipped.\<close>

fun count24h :: "u32 \<Rightarrow> u32 list \<Rightarrow> u32 \<Rightarrow> u32" where
  "count24h now_s [] acc = acc"
| "count24h now_s (ts # tss) acc =
     (if now_s < ts then count24h now_s tss acc
      else count24h now_s tss (if now_s - ts < 86400 then acc + 1 else acc))"

definition bb_system_reboot_budget_should_allow ::
  "u32 \<Rightarrow> u32 \<Rightarrow> u32 \<Rightarrow> bb_system_reboot_budget_state_t option \<Rightarrow> bool"
where
  "bb_system_reboot_budget_should_allow now_s min_interval_s daily_cap st =
     (case st of
        None \<Rightarrow> False
      | Some s \<Rightarrow>
          if last_reboot_s s \<noteq> 0 \<and> bb_system_elapsed_epoch_s now_s (last_reboot_s s) < min_interval_s then False
          else
            let n = (if unat (ring_count s) > BB_SYSTEM_REBOOT_BUDGET_CAP_MAX then BB_SYSTEM_REBOOT_BUDGET_CAP_MAX
                     else unat (ring_count s))
            in \<not> (count24h now_s (take n (reboot_s_ring s)) 0 \<ge> daily_cap))"

definition bb_system_reboot_budget_state_record ::
  "bb_system_reboot_budget_state_t \<Rightarrow> u32 \<Rightarrow> bb_system_reboot_budget_state_t"
where
  "bb_system_reboot_budget_state_record st now_s =
     st\<lparr>reboot_s_ring := (reboot_s_ring st)[unat (ring_head st) := now_s],
        ring_head := of_nat ((unat (ring_head st) + 1) mod BB_SYSTEM_REBOOT_BUDGET_CAP_MAX),
        ring_count := (if unat (ring_count st) < BB_SYSTEM_REBOOT_BUDGET_CAP_MAX then ring_count st + 1 else ring_count st),
        last_reboot_s := now_s\<rparr>"

section \<open>Decimal text\<close>

text \<open>What \<^verbatim>\<open>printf\<close> makes of an unsigned number.\<close>

fun dec :: "nat \<Rightarrow> string" where
  "dec n = (if n < 10 then [char_of (48 + n)] else dec (n div 10) @ [char_of (48 + n mod 10)])"

declare dec.simps [simp del]

definition dec_u32 :: "u32 \<Rightarrow> string" where "dec_u32 w = dec (unat w)"
definition dec_u8 :: "u8 \<Rightarrow> string" where "dec_u8 w = dec (unat w)"

definition is_dec_digit :: "char \<Rightarrow> bool" where
  "is_dec_digit c \<longleftrightarrow> 48 \<le> (of_char c :: nat) \<and> (of_char c :: nat) \<le> 57"

definition c_isspace :: "char \<Rightarrow> bool" where
  "c_isspace c \<longleftrightarrow> c = CHR '' '' \<or> (9 \<le> (of_char c :: nat) \<and> (of_char c :: nat) \<le> 13)"

definition dec_value :: "string \<Rightarrow> nat" where
  "dec_value ds = foldl (\<lambda>v c. 10 * v + (of_char c - 48)) 0 ds"

text \<open>The conversion \<^verbatim>\<open>%u\<close>: blanks, a sign, digits. The result is the number and the rest of the input.\<close>

definition scan_u :: "(bool \<Rightarrow> nat \<Rightarrow> u32) \<Rightarrow> string \<Rightarrow> (u32 \<times> string) option" where
  "scan_u scan_ovf s =
     (let s = dropWhile c_isspace s;
          neg = (s \<noteq> [] \<and> hd s = CHR ''-'');
          s = (if s \<noteq> [] \<and> (hd s = CHR ''-'' \<or> hd s = CHR ''+'') then tl s else s);
          ds = takeWhile is_dec_digit s; v = dec_value ds
      in if ds = [] then None
         else Some (if v < 2 ^ 32 \<and> (\<not> neg \<or> v = 0) then of_nat v else scan_ovf neg v, dropWhile is_dec_digit s))"

text \<open>A literal character of the format.\<close>

definition scan_lit :: "char \<Rightarrow> string \<Rightarrow> string option" where
  "scan_lit c s = (case s of [] \<Rightarrow> None | d # s' \<Rightarrow> if d = c then Some s' else None)"

text \<open>\<^verbatim>\<open>sscanf(str, "%u|%u|%u|%n", ...)\<close>: three numbers and the rest after the last bar; none when fewer
  are converted or the last bar is missing.\<close>

definition scan_head :: "(bool \<Rightarrow> nat \<Rightarrow> u32) \<Rightarrow> string \<Rightarrow> (u32 \<times> u32 \<times> u32 \<times> string) option" where
  "scan_head scan_ovf s =
     Option.bind (scan_u scan_ovf s) (\<lambda>(a, s). Option.bind (scan_lit CHR ''|'' s) (\<lambda>s.
     Option.bind (scan_u scan_ovf s) (\<lambda>(b, s). Option.bind (scan_lit CHR ''|'' s) (\<lambda>s.
     Option.bind (scan_u scan_ovf s) (\<lambda>(c, s). Option.bind (scan_lit CHR ''|'' s) (\<lambda>s.
     Some (a, b, c, s)))))))"

section \<open>The persisted string\<close>

text \<open>\<^verbatim>\<open>snprintf(buf + off, avail, ...)\<close>: the length of the text, and the buffer with as much of it as fits
  and its terminator.\<close>

definition snprintf_at :: "char list \<Rightarrow> nat \<Rightarrow> nat \<Rightarrow> string \<Rightarrow> nat \<times> char list" where
  "snprintf_at buf off avail s =
     (length s, if avail = 0 then buf else blit buf off (take (avail - 1) s @ [NUL]))"

fun put_times :: "char list \<Rightarrow> nat \<Rightarrow> nat \<Rightarrow> bool \<Rightarrow> u32 list \<Rightarrow> bool \<times> char list" where
  "put_times buf buf_len off first [] = (True, buf)"
| "put_times buf buf_len off first (t # ts) =
     (case snprintf_at buf off (buf_len - off) ((if first then ''|'' else '','') @ dec_u32 t) of
        (n, buf') \<Rightarrow> if n \<ge> buf_len - off then (False, buf')
                    else put_times buf' buf_len (off + n) False ts)"

definition bb_system_reboot_budget_state_encode ::
  "bb_system_reboot_budget_state_t option \<Rightarrow> char list option \<Rightarrow> nat \<Rightarrow> bool \<times> char list option"
where
  "bb_system_reboot_budget_state_encode st buf buf_len =
     (case (st, buf) of
        (Some s, Some b) \<Rightarrow>
          (if buf_len = 0 then (False, buf)
           else (case snprintf_at b 0 buf_len
                   (dec_u32 (last_reboot_s s) @ ''|'' @ dec_u8 (ring_head s) @ ''|'' @ dec_u8 (ring_count s)) of
             (off, b') \<Rightarrow>
               if off \<ge> buf_len then (False, Some b')
               else (case put_times b' buf_len off True (take BB_SYSTEM_REBOOT_BUDGET_CAP_MAX (reboot_s_ring s)) of
                       (ok, b'') \<Rightarrow> (ok, Some b''))))
      | _ \<Rightarrow> (False, buf))"

text \<open>The loop over the timestamps: a comma after each but the last. What follows the last is not looked at.\<close>

fun scan_times :: "(bool \<Rightarrow> nat \<Rightarrow> u32) \<Rightarrow> nat \<Rightarrow> string \<Rightarrow> u32 list option" where
  "scan_times scan_ovf 0 p = Some []"
| "scan_times scan_ovf (Suc n) p =
     (case scan_u scan_ovf p of
        None \<Rightarrow> None
      | Some (ts, p) \<Rightarrow>
          if n > 0 then (case scan_lit CHR '','' p of None \<Rightarrow> None | Some p \<Rightarrow> map_option (\<lambda>tss. ts # tss) (scan_times scan_ovf n p))
          else Some [ts])"

definition bb_system_reboot_budget_state_decode ::
  "(bool \<Rightarrow> nat \<Rightarrow> u32) \<Rightarrow> string option \<Rightarrow> bb_system_reboot_budget_state_t option \<Rightarrow> bool \<times> bb_system_reboot_budget_state_t option"
where
  "bb_system_reboot_budget_state_decode scan_ovf str out =
     (case (str, out) of
        (Some s, Some _) \<Rightarrow>
          (case scan_head scan_ovf (cstr s) of
             None \<Rightarrow> (False, out)
           | Some (last_f, head_f, count_f, p) \<Rightarrow>
               if unat head_f \<ge> BB_SYSTEM_REBOOT_BUDGET_CAP_MAX \<or> unat count_f > BB_SYSTEM_REBOOT_BUDGET_CAP_MAX then (False, out)
               else (case scan_times scan_ovf BB_SYSTEM_REBOOT_BUDGET_CAP_MAX p of
                       None \<Rightarrow> (False, out)
                     | Some ts \<Rightarrow> (True, Some \<lparr>last_reboot_s = last_f, reboot_s_ring = ts, ring_head = ucast head_f,
                                               ring_count = ucast count_f\<rparr>)))
      | _ \<Rightarrow> (False, out))"

section \<open>Persistence and the per-cause cache\<close>

definition BB_SYSTEM_REBOOT_BUDGET_BACKEND :: string where "BB_SYSTEM_REBOOT_BUDGET_BACKEND = ''ram''"
definition BB_SYSTEM_REBOOT_BUDGET_NVS_NS :: string where "BB_SYSTEM_REBOOT_BUDGET_NVS_NS = ''bb_reboot''"

type_synonym bb_reboot_cause_t = nat

definition BB_REBOOT_CAUSE_WIFI_SAFEGUARD :: bb_reboot_cause_t where "BB_REBOOT_CAUSE_WIFI_SAFEGUARD = 0"
definition BB_REBOOT_CAUSE_EGRESS_TIER3 :: bb_reboot_cause_t where "BB_REBOOT_CAUSE_EGRESS_TIER3 = 1"
definition BB_REBOOT_CAUSE_COUNT :: nat where "BB_REBOOT_CAUSE_COUNT = 2"

definition cause_key :: "bb_reboot_cause_t \<Rightarrow> string option" where
  "cause_key cause =
     (if cause = BB_REBOOT_CAUSE_WIFI_SAFEGUARD then Some ''budget_wifi''
      else if cause = BB_REBOOT_CAUSE_EGRESS_TIER3 then Some ''budget_egress''
      else None)"

definition budget_addr :: "string \<Rightarrow> bb_storage_addr_t" where
  "budget_addr key = \<lparr>ad_backend = Some BB_SYSTEM_REBOOT_BUDGET_BACKEND, ad_ns_or_dir = Some BB_SYSTEM_REBOOT_BUDGET_NVS_NS,
     ad_key = Some key\<rparr>"

definition chars_of :: "u8 list \<Rightarrow> char list" where "chars_of bs = map (\<lambda>b. char_of (unat b)) bs"
definition bytes_of :: "char list \<Rightarrow> u8 list" where "bytes_of cs = map of_char cs"

definition reboot_budget_load ::
  "(bool \<Rightarrow> nat \<Rightarrow> u32) \<Rightarrow> 'w bb_storage_registry \<Rightarrow> u8 list \<Rightarrow> bb_reboot_cause_t \<Rightarrow> ('w, bb_system_reboot_budget_state_t) io"
where
  "reboot_budget_load scan_ovf r junk cause =
     (case cause_key cause of
        None \<Rightarrow> ret budget_zero
      | Some key \<Rightarrow>
          then_ret (bb_storage_get r (Some (budget_addr key)) (Some junk) BB_SYSTEM_REBOOT_BUDGET_STATE_STR_MAX (Some 0))
            (\<lambda>(err, buf, out_len).
               if err \<noteq> BB_OK \<or> the_default 0 out_len = 0 \<or>
                  the_default 0 out_len > BB_SYSTEM_REBOOT_BUDGET_STATE_STR_MAX then budget_zero
               else
                 let b = (chars_of (the_default [] buf))[BB_SYSTEM_REBOOT_BUDGET_STATE_STR_MAX - 1 := NUL]
                 in (case bb_system_reboot_budget_state_decode scan_ovf (Some b) (Some budget_zero) of
                       (ok, out) \<Rightarrow> if \<not> ok then budget_zero else the_default budget_zero out)))"

definition reboot_budget_save ::
  "'w bb_storage_registry \<Rightarrow> u8 list \<Rightarrow> bb_reboot_cause_t \<Rightarrow> bb_system_reboot_budget_state_t \<Rightarrow> ('w, unit) io"
where
  "reboot_budget_save r junk cause st =
     (case cause_key cause of
        None \<Rightarrow> ret ()
      | Some key \<Rightarrow>
          (case bb_system_reboot_budget_state_encode (Some st) (Some (chars_of junk)) BB_SYSTEM_REBOOT_BUDGET_STATE_STR_MAX of
             (ok, buf) \<Rightarrow>
               if \<not> ok then ret ()
               else let b = the_default [] buf in
                 then_ret (bb_storage_set r (Some (budget_addr key)) (Some (bytes_of b)) (length (cstr b) + 1)) (\<lambda>_. ())))"

text \<open>The static memory of this file, lost in a reboot.\<close>

record budget_cache =
  s_cache :: "bb_system_reboot_budget_state_t list"
  s_loaded :: "bool list"

definition bb_system_reboot_budget_reset_for_test :: budget_cache where
  "bb_system_reboot_budget_reset_for_test =
     \<lparr>s_cache = replicate BB_REBOOT_CAUSE_COUNT budget_zero, s_loaded = replicate BB_REBOOT_CAUSE_COUNT False\<rparr>"

definition cause_valid :: "bb_reboot_cause_t \<Rightarrow> bool" where
  "cause_valid cause \<longleftrightarrow> cause_key cause \<noteq> None"

text \<open>The cache slot of a cause (its index), loaded on first access.\<close>

definition cache_get ::
  "(bool \<Rightarrow> nat \<Rightarrow> u32) \<Rightarrow> 'w bb_storage_registry \<Rightarrow> u8 list \<Rightarrow> budget_cache \<Rightarrow> bb_reboot_cause_t \<Rightarrow> ('w, nat option \<times> budget_cache) io"
where
  "cache_get scan_ovf r junk c cause =
     (if \<not> cause_valid cause then ret (None, c)
      else if \<not> s_loaded c ! cause then
        then_ret (reboot_budget_load scan_ovf r junk cause)
          (\<lambda>st. (Some cause, c\<lparr>s_cache := (s_cache c)[cause := st], s_loaded := (s_loaded c)[cause := True]\<rparr>))
      else ret (Some cause, c))"

definition bb_system_reboot_budget_allows_at ::
  "(bool \<Rightarrow> nat \<Rightarrow> u32) \<Rightarrow> 'w bb_storage_registry \<Rightarrow> u8 list \<Rightarrow> budget_cache \<Rightarrow> bb_reboot_cause_t \<Rightarrow> bool \<Rightarrow> u32
     \<Rightarrow> ('w, bool \<times> budget_cache) io"
where
  "bb_system_reboot_budget_allows_at scan_ovf r junk c cause synced now_s =
     (if \<not> synced then ret (True, c)
      else then_ret (cache_get scan_ovf r junk c cause)
        (\<lambda>(st, c'). (bb_system_reboot_budget_should_allow now_s BB_SYSTEM_REBOOT_BUDGET_MIN_INTERVAL_S
             BB_SYSTEM_REBOOT_BUDGET_DAILY_CAP
             (Some (case st of None \<Rightarrow> budget_zero | Some i \<Rightarrow> s_cache c' ! i)), c')))"

definition bb_system_reboot_budget_record_at ::
  "(bool \<Rightarrow> nat \<Rightarrow> u32) \<Rightarrow> 'w bb_storage_registry \<Rightarrow> u8 list \<Rightarrow> budget_cache \<Rightarrow> bb_reboot_cause_t \<Rightarrow> bool \<Rightarrow> u32
     \<Rightarrow> ('w, budget_cache) io"
where
  "bb_system_reboot_budget_record_at scan_ovf r junk c cause synced now_s =
     (if \<not> synced then ret c
      else (\<lambda>w. case cache_get scan_ovf r junk c cause w of
              None \<Rightarrow> None
            | Some ((st, c'), w') \<Rightarrow>
                (case st of
                   None \<Rightarrow> Some (c', w')
                 | Some i \<Rightarrow>
                     let s' = bb_system_reboot_budget_state_record (s_cache c' ! i) now_s
                     in then_ret (reboot_budget_save r junk cause s') (\<lambda>_. c'\<lparr>s_cache := (s_cache c')[i := s']\<rparr>) w')))"

end
