(* ===== verification/BB_Budget_Laws.thy ===== *)
theory BB_Budget_Laws
  imports BB_Reboot_Budget
begin

text \<open>
  Properties of the reboot budget: the ring decides as the whole history would, the persisted string reads
  back, and the limits hold across reboots, whatever the clock shows.
\<close>

section \<open>The ring and the history\<close>

text \<open>The state after a sequence of recorded reboots, oldest first.\<close>

definition recorded :: "u32 list \<Rightarrow> bb_system_reboot_budget_state_t" where
  "recorded acc = foldl bb_system_reboot_budget_state_record budget_zero acc"

lemma recorded_snoc: "recorded (acc @ [t]) = bb_system_reboot_budget_state_record (recorded acc) t"
  by (simp add: recorded_def)

lemma unat_small: "n < 256 \<Longrightarrow> unat (of_nat n :: u8) = n"
  by (simp add: unat_of_nat take_bit_nat_eq_self)

lemma ring_repr:
  "length (reboot_s_ring (recorded acc)) = 10 \<and> unat (ring_count (recorded acc)) = min 10 (length acc) \<and>
   unat (ring_head (recorded acc)) = length acc mod 10 \<and>
   last_reboot_s (recorded acc) = (if acc = [] then 0 else last acc) \<and>
   (\<forall>j<length acc. length acc \<le> j + 10 \<longrightarrow> reboot_s_ring (recorded acc) ! (j mod 10) = acc ! j)"
proof (induction acc rule: rev_induct)
  case Nil
  then show ?case by (simp add: recorded_def budget_zero_def BB_SYSTEM_REBOOT_BUDGET_CAP_MAX_def)
next
  case (snoc t acc)
  let ?s = "recorded acc" and ?n = "length acc"
  have len: "length (reboot_s_ring ?s) = 10" and cnt: "unat (ring_count ?s) = min 10 ?n" and hd: "unat (ring_head ?s) = ?n mod 10"
    and old: "\<And>j. j < ?n \<Longrightarrow> ?n \<le> j + 10 \<Longrightarrow> reboot_s_ring ?s ! (j mod 10) = acc ! j"
    using snoc by simp_all
  note r = recorded_snoc bb_system_reboot_budget_state_record_def BB_SYSTEM_REBOOT_BUDGET_CAP_MAX_def
  have c: "unat (ring_count (recorded (acc @ [t]))) = min 10 (length (acc @ [t]))"
  proof (cases "?n < 10")
    case True
    then have "unat (ring_count ?s + 1) = ?n + 1" using cnt by (simp add: unat_word_ariths)
    then show ?thesis using True cnt by (simp add: r)
  next
    case False
    then show ?thesis using cnt by (simp add: r)
  qed
  have h: "unat (ring_head (recorded (acc @ [t]))) = length (acc @ [t]) mod 10"
    using hd by (simp add: r unat_small mod_Suc_eq)
  have x: "reboot_s_ring (recorded (acc @ [t])) ! (j mod 10) = (acc @ [t]) ! j"
    if "j < length (acc @ [t])" "length (acc @ [t]) \<le> j + 10" for j
  proof (cases "j = ?n")
    case True
    then show ?thesis using len hd by (simp add: r)
  next
    case False
    then have j: "j < ?n" "?n < j + 10" using that by simp_all
    have "j mod 10 \<noteq> ?n mod 10"
    proof
      assume "j mod 10 = ?n mod 10"
      then have "10 dvd ?n - j" using j(1) mod_eq_dvd_iff_nat [of j ?n 10] by simp
      then show False using j by (auto dest: dvd_imp_le)
    qed
    then show ?thesis using old [of j] j hd by (simp add: r nth_append)
  qed
  show ?case using c h x len by (simp add: r)
qed

lemma filter_rotate: "length (filter P (rotate n xs)) = length (filter P xs)"
proof -
  have one: "length (filter P (rotate1 ys)) = length (filter P ys)" for ys by (cases ys) simp_all
  show ?thesis by (induction n) (simp_all add: one)
qed

text \<open>What the scan sees are the last ten reboots.\<close>

lemma ring_scan:
  "length (filter P (take (unat (ring_count (recorded acc))) (reboot_s_ring (recorded acc)))) =
   length (filter P (drop (length acc - 10) acc))"
proof -
  let ?r = "reboot_s_ring (recorded acc)" and ?n = "length acc"
  have len: "length ?r = 10" and cnt: "unat (ring_count (recorded acc)) = min 10 ?n"
    and nth: "\<And>j. j < ?n \<Longrightarrow> ?n \<le> j + 10 \<Longrightarrow> ?r ! (j mod 10) = acc ! j"
    using ring_repr [of acc] by simp_all
  show ?thesis
  proof (cases "?n \<le> 10")
    case True
    have "take ?n ?r = acc"
      by (rule nth_equalityI) (use True len nth in \<open>auto simp: min_def\<close>)
    then show ?thesis using True cnt by (simp add: min_def)
  next
    case False
    have "drop (?n - 10) acc = rotate ?n ?r"
    proof (rule nth_equalityI)
      show "length (drop (?n - 10) acc) = length (rotate ?n ?r)" using False len by simp
      fix i assume "i < length (drop (?n - 10) acc)"
      then have i: "i < 10" "?n - 10 + i < ?n" using False by simp_all
      have "(?n - 10 + i) mod 10 = (?n - 10 + i + 10) mod 10" by simp
      also have "?n - 10 + i + 10 = i + ?n" using False by simp
      finally have "(?n - 10 + i) mod 10 = (i + ?n) mod 10" .
      then show "drop (?n - 10) acc ! i = rotate ?n ?r ! i"
        using nth [of "?n - 10 + i"] i False len by (simp add: nth_rotate add.commute)
    qed
    then show ?thesis using False cnt len by (simp add: filter_rotate)
  qed
qed

definition recent :: "u32 \<Rightarrow> u32 \<Rightarrow> bool" where
  "recent now t \<longleftrightarrow> t \<le> now \<and> now - t < 86400"

lemma count24h_filter:
  "unat acc + length ts < 2 ^ 32 \<Longrightarrow> unat (count24h now ts acc) = unat acc + length (filter (recent now) ts)"
proof (induction ts arbitrary: acc)
  case Nil
  then show ?case by simp
next
  case (Cons t ts)
  have "unat (acc + 1) = unat acc + 1" using Cons.prems by (simp add: unat_word_ariths)
  then show ?case using Cons by (auto simp: recent_def not_le)
qed

lemma should_allow_recorded:
  "bb_system_reboot_budget_should_allow now mi cap (Some (recorded acc)) \<longleftrightarrow>
   \<not> (acc \<noteq> [] \<and> last acc \<noteq> 0 \<and> bb_system_elapsed_epoch_s now (last acc) < mi) \<and>
   length (filter (recent now) (drop (length acc - 10) acc)) < unat cap"
proof -
  let ?s = "recorded acc"
  have cnt: "unat (ring_count ?s) = min 10 (length acc)" and lst: "last_reboot_s ?s = (if acc = [] then 0 else last acc)"
    and len: "length (reboot_s_ring ?s) = 10"
    using ring_repr [of acc] by simp_all
  let ?c = "count24h now (take (unat (ring_count ?s)) (reboot_s_ring ?s)) 0"
  have "unat ?c = length (filter (recent now) (drop (length acc - 10) acc))"
    using count24h_filter [of 0 "take (unat (ring_count ?s)) (reboot_s_ring ?s)" now] len ring_scan [of "recent now" acc] by simp
  then have m: "cap \<le> ?c \<longleftrightarrow> unat cap \<le> length (filter (recent now) (drop (length acc - 10) acc))"
    by (simp add: word_le_nat_alt)
  have "\<not> unat (ring_count ?s) > 10" using cnt by simp
  then have "bb_system_reboot_budget_should_allow now mi cap (Some ?s) \<longleftrightarrow>
      \<not> (last_reboot_s ?s \<noteq> 0 \<and> bb_system_elapsed_epoch_s now (last_reboot_s ?s) < mi) \<and> \<not> cap \<le> ?c"
    by (simp add: bb_system_reboot_budget_should_allow_def BB_SYSTEM_REBOOT_BUDGET_CAP_MAX_def Let_def)
  then show ?thesis unfolding m lst by auto
qed

lemma sorted_le_last: "sorted xs \<Longrightarrow> x \<in> set xs \<Longrightarrow> x \<le> last (xs :: 'a :: linorder list)"
  by (cases xs rule: rev_cases) (auto simp: sorted_append)

lemma recent_mono:
  assumes "recent now t" and "t \<le> u" and "u \<le> now"
  shows "recent now u"
proof -
  have "unat (now - u) = unat now - unat u" "unat (now - t) = unat now - unat t"
    using assms by (simp_all add: unat_sub recent_def)
  then show ?thesis using assms by (auto simp: recent_def word_less_nat_alt word_le_nat_alt)
qed

text \<open>C27: the ten-entry ring decides as the whole history of recorded reboots would. For any history in time order, any
  clock reading, any positive cooldown and any cap the ring can hold, a reboot is allowed exactly when the cooldown since the
  last one is over (a clock that runs behind the last reboot counts as no time elapsed) and fewer than the cap
  happened in the last 24 hours.\<close>

theorem budget_decides_on_history:
  assumes "sorted acc" and "0 < mi" and "unat cap \<le> BB_SYSTEM_REBOOT_BUDGET_CAP_MAX"
  shows "bb_system_reboot_budget_should_allow now mi cap (Some (foldl bb_system_reboot_budget_state_record budget_zero acc)) \<longleftrightarrow>
    (acc = [] \<or> last acc = 0 \<or> (last acc \<le> now \<and> mi \<le> now - last acc)) \<and>
    length (filter (\<lambda>t. t \<le> now \<and> now - t < 86400) acc) < unat cap"
proof (cases "acc \<noteq> [] \<and> last acc \<noteq> 0 \<and> bb_system_elapsed_epoch_s now (last acc) < mi")
  case True
  then show ?thesis using should_allow_recorded [of now mi cap acc] assms(2)
    by (auto simp: recorded_def bb_system_elapsed_epoch_s_def split: if_splits)
next
  case False
  let ?old = "take (length acc - 10) acc" and ?new = "drop (length acc - 10) acc"
  have cool: "acc = [] \<or> last acc = 0 \<or> (last acc \<le> now \<and> mi \<le> now - last acc)"
    using False assms(2) by (auto simp: bb_system_elapsed_epoch_s_def not_less split: if_splits)
  have le: "t \<le> now" if "t \<in> set acc" for t
    using sorted_le_last [OF assms(1) that] cool that by auto
  have split: "length (filter (recent now) acc) = length (filter (recent now) ?old) + length (filter (recent now) ?new)"
    by (metis append_take_drop_id filter_append length_append)
  have "length (filter (recent now) ?new) < unat cap \<longleftrightarrow> length (filter (recent now) acc) < unat cap"
  proof (cases "filter (recent now) ?old = []")
    case True
    then show ?thesis using split by simp
  next
    case False
    then obtain t where t: "t \<in> set ?old" "recent now t" by (auto simp: filter_empty_conv)
    have big: "length acc > 10" using t(1) by (cases "length acc > 10") auto
    have "recent now u" if u: "u \<in> set ?new" for u
    proof -
      have "sorted (?old @ ?new)" using assms(1) by simp
      then have "t \<le> u" using t(1) u unfolding sorted_append by blast
      moreover have "u \<le> now" using le u by (meson in_set_dropD)
      ultimately show ?thesis by (rule recent_mono [OF t(2)])
    qed
    then have "filter (recent now) ?new = ?new" by (simp add: filter_id_conv)
    then have "length (filter (recent now) ?new) = 10" using big by simp
    then show ?thesis using assms(3) split by (simp add: BB_SYSTEM_REBOOT_BUDGET_CAP_MAX_def)
  qed
  then show ?thesis using should_allow_recorded [of now mi cap acc] False cool
    by (simp add: recorded_def recent_def [abs_def])
qed

theorem budget_decides_on_history_witness:
  "\<not> bb_system_reboot_budget_should_allow 90000 1800 2 (Some (foldl bb_system_reboot_budget_state_record budget_zero [1, 4000, 88000]))"
proof -
  have s: "sorted [1, 4000, 88000 :: u32]" by simp
  have c: "unat (2 :: u32) \<le> BB_SYSTEM_REBOOT_BUDGET_CAP_MAX" by (simp add: BB_SYSTEM_REBOOT_BUDGET_CAP_MAX_def)
  have m: "0 < (1800 :: u32)" by simp
  have "\<not> length (filter (\<lambda>t. t \<le> 90000 \<and> 90000 - t < 86400) [1, 4000, 88000 :: u32]) < unat (2 :: u32)" by simp
  then show ?thesis unfolding budget_decides_on_history [OF s m c] by blast
qed

section \<open>The persisted string reads back\<close>

lemma of_char_dec: "n < 10 \<Longrightarrow> (of_char (char_of (48 + n)) :: nat) = 48 + n"
  by simp

lemma dec_digits: "dec n \<noteq> [] \<and> list_all is_dec_digit (dec n) \<and> dec_value (dec n) = n"
proof (induction n rule: dec.induct)
  case (1 n)
  show ?case
  proof (cases "n < 10")
    case True
    then show ?thesis by (simp add: dec.simps [of n] is_dec_digit_def dec_value_def)
  next
    case False
    then have ih: "list_all is_dec_digit (dec (n div 10))" "dec_value (dec (n div 10)) = n div 10" using 1 by simp_all
    have "n mod 10 < 10" by simp
    then have d: "is_dec_digit (char_of (48 + n mod 10))" "(of_char (char_of (48 + n mod 10)) :: nat) = 48 + n mod 10"
      by (simp_all add: is_dec_digit_def)
    show ?thesis using ih False d(1) by (simp add: dec.simps [of n]) (simp add: dec_value_def d(2))
  qed
qed

lemma dec_length: "n < 10 ^ k \<Longrightarrow> 0 < k \<Longrightarrow> length (dec n) \<le> k"
proof (induction k arbitrary: n)
  case 0
  then show ?case by simp
next
  case (Suc k)
  show ?case
  proof (cases "n < 10")
    case True
    then show ?thesis by (simp add: dec.simps [of n])
  next
    case False
    then have "n div 10 < 10 ^ k" "0 < k" using Suc.prems by (auto simp: div_less_iff_less_mult gr0I) (cases k; simp)
    then show ?thesis using Suc.IH [of "n div 10"] False by (simp add: dec.simps [of n])
  qed
qed

definition stops :: "string \<Rightarrow> bool" where
  "stops s \<longleftrightarrow> s = [] \<or> \<not> is_dec_digit (hd s)"

lemma digit_not_space: "is_dec_digit c \<Longrightarrow> \<not> c_isspace c \<and> c \<noteq> CHR ''-'' \<and> c \<noteq> CHR ''+'' \<and> c \<noteq> NUL"
  by (auto simp: is_dec_digit_def c_isspace_def)

lemma scan_dec:
  assumes "n < 2 ^ 32" and "stops rest"
  shows "scan_u scan_ovf (dec n @ rest) = Some (of_nat n, rest)"
proof -
  obtain c ds where d: "dec n = c # ds" using dec_digits [of n] by (cases "dec n") auto
  have ad: "list_all is_dec_digit (dec n)" and v: "dec_value (dec n) = n" using dec_digits [of n] by simp_all
  then have c: "\<not> c_isspace c \<and> c \<noteq> CHR ''-'' \<and> c \<noteq> CHR ''+''" using d digit_not_space by simp
  have tw: "takeWhile is_dec_digit (dec n @ rest) = dec n" "dropWhile is_dec_digit (dec n @ rest) = rest"
    using ad assms(2) by (auto simp: list_all_iff stops_def takeWhile_append dropWhile_append takeWhile_eq_Nil_iff
        dropWhile_eq_self_iff)
  have "dropWhile c_isspace (dec n @ rest) = dec n @ rest" "hd (dec n @ rest) = c" using d c by simp_all
  then show ?thesis using tw v c d assms(1) by (simp add: scan_u_def Let_def)
qed

lemma stops_simps [simp]: "stops []" "stops (CHR ''|'' # s)" "stops (CHR '','' # s)"
  by (simp_all add: stops_def is_dec_digit_def)

lemma unat_u32: "unat (w :: u32) < 2 ^ 32"
  using unsigned_less [of w, where ?'a = nat] by simp

lemma scan_u32: "stops rest \<Longrightarrow> scan_u scan_ovf (dec_u32 w @ rest) = Some (w, rest)"
  using scan_dec [OF unat_u32 [of w]] by (simp add: dec_u32_def)

lemma unat_ucast_8_32: "unat (ucast (w :: u8) :: u32) = unat w"
proof -
  have "unat w < 2 ^ 8" using unsigned_less [of w, where ?'a = nat] by simp
  then show ?thesis by (simp add: unsigned_ucast_eq take_bit_nat_eq_self)
qed

lemma ucast_8_32_8: "ucast (ucast (w :: u8) :: u32) = w"
  by (rule bit_word_eqI) (simp add: bit_ucast_iff)

lemma scan_u8: "stops rest \<Longrightarrow> scan_u scan_ovf (dec_u8 w @ rest) = Some (ucast w, rest)"
proof -
  have "unat w < 2 ^ 8" using unsigned_less [of w, where ?'a = nat] by simp
  then have "unat w < 2 ^ 32" by simp
  moreover have "of_nat (unat w) = (ucast w :: u32)" by simp
  ultimately show "stops rest \<Longrightarrow> scan_u scan_ovf (dec_u8 w @ rest) = Some (ucast w, rest)"
    using scan_dec [of "unat w"] by (simp add: dec_u8_def)
qed

fun times_text :: "bool \<Rightarrow> u32 list \<Rightarrow> string" where
  "times_text first [] = []"
| "times_text first (t # ts) = (if first then ''|'' else '','') @ dec_u32 t @ times_text False ts"

lemma scan_times_text:
  "scan_times scan_ovf (length (t # ts)) (dec_u32 t @ times_text False ts) = Some (t # ts)"
proof (induction ts arbitrary: t)
  case Nil
  then show ?case using scan_u32 [of "[]" scan_ovf t] by simp
next
  case (Cons u ts)
  have "scan_u scan_ovf (dec_u32 t @ times_text False (u # ts)) = Some (t, times_text False (u # ts))"
    by (rule scan_u32) simp
  then show ?case using Cons.IH [of u] by (simp add: scan_lit_def)
qed

definition budget_wf :: "bb_system_reboot_budget_state_t \<Rightarrow> bool" where
  "budget_wf st \<longleftrightarrow> length (reboot_s_ring st) = BB_SYSTEM_REBOOT_BUDGET_CAP_MAX \<and>
     unat (ring_head st) < BB_SYSTEM_REBOOT_BUDGET_CAP_MAX \<and> unat (ring_count st) \<le> BB_SYSTEM_REBOOT_BUDGET_CAP_MAX"

definition budget_head :: "bb_system_reboot_budget_state_t \<Rightarrow> string" where
  "budget_head st = dec_u32 (last_reboot_s st) @ ''|'' @ dec_u8 (ring_head st) @ ''|'' @ dec_u8 (ring_count st)"

definition budget_text :: "bb_system_reboot_budget_state_t \<Rightarrow> string" where
  "budget_text st = budget_head st @ times_text True (reboot_s_ring st)"

lemma decode_text:
  assumes "budget_wf st" and "cstr buf = budget_text st"
  shows "bb_system_reboot_budget_state_decode scan_ovf (Some buf) (Some o0) = (True, Some st)"
proof -
  obtain t ts where r: "reboot_s_ring st = t # ts" "length (t # ts) = 10"
    using assms(1) by (cases "reboot_s_ring st") (auto simp: budget_wf_def BB_SYSTEM_REBOOT_BUDGET_CAP_MAX_def)
  have "scan_head scan_ovf (budget_text st) = Some (last_reboot_s st, ucast (ring_head st), ucast (ring_count st), dec_u32 t @ times_text False ts)"
    by (simp add: scan_head_def budget_text_def budget_head_def r scan_u32 scan_u8 scan_lit_def)
  then show ?thesis using assms scan_times_text [of scan_ovf t ts] r
    by (simp add: bb_system_reboot_budget_state_decode_def budget_wf_def BB_SYSTEM_REBOOT_BUDGET_CAP_MAX_def unat_ucast_8_32 ucast_8_32_8)
qed

lemma put_times_text:
  assumes "buf_len \<le> length buf" and "off + length (times_text first ts) < buf_len" and "buf ! off = NUL"
  shows "\<exists>b'. put_times buf buf_len off first ts = (True, b') \<and> length b' = length buf \<and>
     take (off + length (times_text first ts)) b' = take off buf @ times_text first ts \<and>
     b' ! (off + length (times_text first ts)) = NUL"
  using assms
proof (induction ts arbitrary: buf off first)
  case Nil
  then show ?case by simp
next
  case (Cons t ts)
  let ?p = "(if first then ''|'' else '','') @ dec_u32 t" and ?rest = "times_text False ts"
  let ?b = "take off buf @ ?p @ NUL # drop (Suc (off + length ?p)) buf"
  have tx: "times_text first (t # ts) = ?p @ ?rest" by simp
  have room: "off + length ?p + length ?rest < buf_len" using Cons.prems(2) by (simp add: tx)
  have sn: "snprintf_at buf off (buf_len - off) ?p = (length ?p, ?b)"
    using room Cons.prems(1) by (simp add: snprintf_at_def blit_def)
  have lb: "length ?b = length buf" using room Cons.prems(1) by simp
  have at: "?b ! (off + length ?p) = NUL" using room Cons.prems(1) by (simp add: nth_append)
  obtain b' where b': "put_times ?b buf_len (off + length ?p) False ts = (True, b')" "length b' = length ?b"
    "take (off + length ?p + length ?rest) b' = take (off + length ?p) ?b @ ?rest"
    "b' ! (off + length ?p + length ?rest) = NUL"
    using Cons.IH [of ?b "off + length ?p" False] Cons.prems(1) room lb at by auto
  have "put_times buf buf_len off first (t # ts) = (True, b')"
    using sn room b'(1) by simp
  moreover have "take (off + length ?p) ?b = take off buf @ ?p" using room Cons.prems(1) by simp
  moreover have "off + length (times_text first (t # ts)) = off + length ?p + length ?rest" by (simp add: tx)
  ultimately show ?case using b' lb unfolding tx by (metis append.assoc)
qed

lemma dec_lengths: "length (dec_u32 w) \<le> 10" "length (dec_u8 b) \<le> 3"
proof -
  have "unat w < 10 ^ 10" using unat_u32 [of w] by simp
  then show "length (dec_u32 w) \<le> 10" unfolding dec_u32_def by (rule dec_length) simp
  have "unat b < 2 ^ 8" using unsigned_less [of b, where ?'a = nat] by simp
  then have "unat b < 10 ^ 3" by simp
  then show "length (dec_u8 b) \<le> 3" unfolding dec_u8_def by (rule dec_length) simp
qed

lemma times_text_length: "length (times_text first ts) \<le> 11 * length ts"
proof (induction ts arbitrary: first)
  case Nil
  then show ?case by simp
next
  case (Cons t ts)
  have "length (times_text first (t # ts)) = 1 + length (dec_u32 t) + length (times_text False ts)" by simp
  moreover have "length (t # ts) = 1 + length ts" by simp
  ultimately show ?case using dec_lengths(1) [of t] Cons.IH [of False] by linarith
qed

text \<open>The longest text has 128 characters, and none of them ends it.\<close>

lemma budget_text_length: "budget_wf st \<Longrightarrow> length (budget_text st) \<le> 128"
  using dec_lengths(1) [of "last_reboot_s st"] dec_lengths(2) [of "ring_head st"] dec_lengths(2) [of "ring_count st"]
    times_text_length [of True "reboot_s_ring st"]
  by (simp add: budget_text_def budget_head_def budget_wf_def BB_SYSTEM_REBOOT_BUDGET_CAP_MAX_def)

lemma dec_no_nul: "NUL \<notin> set (dec n)"
  using dec_digits [of n] digit_not_space by (auto simp: list_all_iff)

lemma times_no_nul: "NUL \<notin> set (times_text first ts)"
  by (induction ts arbitrary: first) (auto simp: dec_u32_def dec_no_nul)

lemma budget_text_no_nul: "NUL \<notin> set (budget_text st)"
  by (simp add: budget_text_def budget_head_def dec_u32_def dec_u8_def dec_no_nul times_no_nul)

lemma encode_text:
  assumes wf: "budget_wf st" and b: "buf_len \<le> length b" "129 \<le> buf_len"
  obtains b' where "bb_system_reboot_budget_state_encode (Some st) (Some b) buf_len = (True, Some b')"
    "length b' = length b" "cstr b' = budget_text st" "take (length (budget_text st) + 1) b' = budget_text st @ [NUL]"
proof -
  let ?h = "budget_head st"
  let ?t = "times_text True (reboot_s_ring st)"
  have all: "budget_text st = ?h @ ?t" by (simp only: budget_text_def)
  have lt: "length ?h + length ?t < buf_len" using budget_text_length [OF wf] b(2) unfolding all by simp
  have len10: "take BB_SYSTEM_REBOOT_BUDGET_CAP_MAX (reboot_s_ring st) = reboot_s_ring st"
    using wf by (simp add: budget_wf_def)
  let ?b = "?h @ NUL # drop (Suc (length ?h)) b"
  have sn: "snprintf_at b 0 buf_len ?h = (length ?h, ?b)"
    using lt b(1) by (simp add: snprintf_at_def blit_def)
  have lb: "length ?b = length b" using lt b(1) by simp
  have nb: "?b ! length ?h = NUL" by (simp only: nth_append_length)
  obtain b' where b': "put_times ?b buf_len (length ?h) True (reboot_s_ring st) = (True, b')" "length b' = length ?b"
    "take (length ?h + length ?t) b' = take (length ?h) ?b @ ?t" "b' ! (length ?h + length ?t) = NUL"
    using put_times_text [OF _ lt nb] lb b(1) by (metis (no_types, lifting))
  have enc: "bb_system_reboot_budget_state_encode (Some st) (Some b) buf_len = (True, Some b')"
    using sn b'(1) lt unfolding bb_system_reboot_budget_state_encode_def budget_head_def [symmetric] by (simp add: len10)
  have n: "length ?h + length ?t < length b'" using lt b(1) b'(2) lb by simp
  have tk: "take (length ?h + length ?t) b' = budget_text st" using b'(3) unfolding all by simp
  have "take (Suc (length ?h + length ?t)) b' = budget_text st @ [NUL]"
    using take_Suc_conv_app_nth [OF n] tk b'(4) by simp
  then have full: "take (length (budget_text st) + 1) b' = budget_text st @ [NUL]" unfolding all by simp
  have "b' = (budget_text st @ [NUL]) @ drop (length (budget_text st) + 1) b'"
    using full append_take_drop_id by metis
  then have "b' = budget_text st @ NUL # drop (length (budget_text st) + 1) b'" by simp
  then have "cstr b' = budget_text st" using cstr_id [OF budget_text_no_nul] by metis
  then show thesis using that [OF enc] b'(2) lb full by simp
qed

text \<open>The persisted budget reads back. Any state the module can hold is encoded, into any buffer of at least
  129 bytes, as a terminated text of at most 128 characters, and decoding that text gives the state back, whatever was
  in the output before and whatever \<^verbatim>\<open>sscanf\<close> does with numbers that do not fit.\<close>

theorem budget_state_roundtrip:
  assumes "length (reboot_s_ring st) = BB_SYSTEM_REBOOT_BUDGET_CAP_MAX"
    and "unat (ring_head st) < BB_SYSTEM_REBOOT_BUDGET_CAP_MAX" and "unat (ring_count st) \<le> BB_SYSTEM_REBOOT_BUDGET_CAP_MAX"
    and "129 \<le> buf_len" and "buf_len \<le> length b"
  shows "\<exists>b'. bb_system_reboot_budget_state_encode (Some st) (Some b) buf_len = (True, Some b') \<and>
    length b' = length b \<and> length (cstr b') \<le> 128 \<and>
    bb_system_reboot_budget_state_decode scan_ovf (Some b') (Some out) = (True, Some st)"
proof -
  have wf: "budget_wf st" using assms(1-3) by (simp add: budget_wf_def)
  obtain b' where "bb_system_reboot_budget_state_encode (Some st) (Some b) buf_len = (True, Some b')"
    "length b' = length b" "cstr b' = budget_text st" by (rule encode_text [OF wf assms(5,4)])
  then show ?thesis using decode_text [OF wf] budget_text_length [OF wf] by simp
qed

theorem budget_state_roundtrip_witness:
  "\<exists>b'. bb_system_reboot_budget_state_encode (Some budget_zero) (Some (replicate 192 CHR ''x'')) 192 = (True, Some b') \<and>
    bb_system_reboot_budget_state_decode (\<lambda>_ _. 7) (Some b') (Some budget_zero) = (True, Some budget_zero)"
  using budget_state_roundtrip [of budget_zero 192 "replicate 192 CHR ''x''" "\<lambda>_ _. 7" budget_zero]
  by (simp add: budget_zero_def BB_SYSTEM_REBOOT_BUDGET_CAP_MAX_def) blast

section \<open>The limits hold across reboots\<close>

text \<open>\<^verbatim>\<open>spaced g k xs\<close>: each reboot comes at least \<^verbatim>\<open>g\<close> seconds after the \<^verbatim>\<open>k\<close>-th before it.\<close>

definition spaced :: "nat \<Rightarrow> nat \<Rightarrow> u32 list \<Rightarrow> bool" where
  "spaced g k xs \<longleftrightarrow> (\<forall>i. i + k < length xs \<longrightarrow> unat (xs ! i) + g \<le> unat (xs ! (i + k)))"

definition limited :: "u32 list \<Rightarrow> bool" where
  "limited acc \<longleftrightarrow> 0 \<notin> set acc \<and> sorted acc \<and> spaced 1800 1 acc \<and> spaced 86400 4 acc"

lemma spaced_snoc:
  assumes "spaced g k xs" and "0 < k" and "k \<le> length xs \<Longrightarrow> unat (xs ! (length xs - k)) + g \<le> unat t"
  shows "spaced g k (xs @ [t])"
  unfolding spaced_def
proof (intro allI impI)
  fix i assume i: "i + k < length (xs @ [t])"
  show "unat ((xs @ [t]) ! i) + g \<le> unat ((xs @ [t]) ! (i + k))"
  proof (cases "i + k < length xs")
    case True
    then show ?thesis using assms(1) by (simp add: spaced_def nth_append)
  next
    case False
    then have e: "i = length xs - k" "k \<le> length xs" using i by simp_all
    then have "i < length xs" using assms(2) by simp
    then show ?thesis using assms(3) e by (simp add: nth_append)
  qed
qed

text \<open>A reboot that is allowed keeps the limits, whatever the clock reads.\<close>

lemma allowed_limited:
  assumes lim: "limited acc" and now: "now \<noteq> 0"
    and ok: "bb_system_reboot_budget_should_allow now BB_SYSTEM_REBOOT_BUDGET_MIN_INTERVAL_S BB_SYSTEM_REBOOT_BUDGET_DAILY_CAP
       (Some (recorded acc))"
  shows "limited (acc @ [now])"
proof -
  have srt: "sorted acc" using lim by (simp add: limited_def)
  note h = budget_decides_on_history [OF srt, of BB_SYSTEM_REBOOT_BUDGET_MIN_INTERVAL_S BB_SYSTEM_REBOOT_BUDGET_DAILY_CAP now]
  have cool: "acc = [] \<or> last acc = 0 \<or> (last acc \<le> now \<and> 1800 \<le> now - last acc)"
    and few: "length (filter (recent now) acc) < 4"
    using ok h by (auto simp: recorded_def BB_SYSTEM_REBOOT_BUDGET_MIN_INTERVAL_S_def BB_SYSTEM_REBOOT_BUDGET_DAILY_CAP_def
        BB_SYSTEM_REBOOT_BUDGET_CAP_MAX_def recent_def [abs_def])
  have last0: "acc \<noteq> [] \<Longrightarrow> last acc \<noteq> 0" using lim last_in_set by (fastforce simp: limited_def)
  have le: "t \<le> now" if "t \<in> set acc" for t
    using sorted_le_last [OF srt that] cool last0 that by (metis empty_iff empty_set order_trans)
  have one: "unat (acc ! (length acc - 1)) + 1800 \<le> unat now" if "1 \<le> length acc"
  proof -
    have ne: "acc \<noteq> []" using that by auto
    then have l: "last acc \<le> now" "1800 \<le> now - last acc" using cool last0 by auto
    have "unat (now - last acc) = unat now - unat (last acc)" using l(1) by (rule unat_sub)
    then have "1800 \<le> unat now - unat (last acc)" using l(2) by (simp add: word_le_nat_alt)
    then show ?thesis using ne by (simp add: last_conv_nth)
  qed
  have four: "unat (acc ! (length acc - 4)) + 86400 \<le> unat now" if n: "4 \<le> length acc"
  proof (rule ccontr)
    let ?t = "acc ! (length acc - 4)"
    assume neg: "\<not> ?thesis"
    have tn: "?t \<le> now" using le n by simp
    have "unat (now - ?t) = unat now - unat ?t" using tn by (rule unat_sub)
    then have r: "recent now ?t" using neg tn by (simp add: recent_def word_less_nat_alt)
    have "recent now u" if u: "u \<in> set (drop (length acc - 4) acc)" for u
    proof -
      obtain j where j: "j < 4" "u = acc ! (length acc - 4 + j)" using u n by (auto simp: in_set_conv_nth)
      then have "?t \<le> u" using srt n by (simp add: sorted_nth_mono)
      then show ?thesis using recent_mono [OF r] le u by (meson in_set_dropD)
    qed
    then have "filter (recent now) (drop (length acc - 4) acc) = drop (length acc - 4) acc" by (simp add: filter_id_conv)
    then have "length (filter (recent now) (drop (length acc - 4) acc)) = 4" using n by simp
    moreover have "length (filter (recent now) acc) =
        length (filter (recent now) (take (length acc - 4) acc)) + length (filter (recent now) (drop (length acc - 4) acc))"
      by (metis append_take_drop_id filter_append length_append)
    ultimately show False using few by simp
  qed
  show ?thesis using lim now le spaced_snoc [OF _ _ one] spaced_snoc [OF _ _ four]
    by (auto simp: limited_def sorted_append)
qed

text \<open>What consumers do: ask, and reboot when allowed after recording it; the clock value and the stack content
  differ from call to call. A restart loses the cache and keeps the store.\<close>

datatype budget_event =
    Ask bb_reboot_cause_t bool u32 "u8 list"
  | Attempt bb_reboot_cause_t bool u32 "u8 list"
  | Restart

fun budget_step ::
  "(bool \<Rightarrow> nat \<Rightarrow> u32) \<Rightarrow> 'w bb_storage_registry \<Rightarrow> budget_event \<Rightarrow> budget_cache \<Rightarrow> ('w, budget_cache \<times> (bb_reboot_cause_t \<times> u32) list) io"
where
  "budget_step scan_ovf r (Ask cause synced now junk) c =
     then_ret (bb_system_reboot_budget_allows_at scan_ovf r junk c cause synced now) (\<lambda>(_, c'). (c', []))"
| "budget_step scan_ovf r (Attempt cause synced now junk) c =
     (\<lambda>w. case bb_system_reboot_budget_allows_at scan_ovf r junk c cause synced now w of
            None \<Rightarrow> None
          | Some ((ok, c'), w') \<Rightarrow>
              if \<not> ok then Some ((c', []), w')
              else then_ret (bb_system_reboot_budget_record_at scan_ovf r junk c' cause synced now)
                     (\<lambda>c''. (c'', if synced then [(cause, now)] else [])) w')"
| "budget_step scan_ovf r Restart c = ret (bb_system_reboot_budget_reset_for_test, [])"

fun budget_run ::
  "(bool \<Rightarrow> nat \<Rightarrow> u32) \<Rightarrow> 'w bb_storage_registry \<Rightarrow> budget_event list \<Rightarrow> budget_cache \<Rightarrow> ('w, budget_cache \<times> (bb_reboot_cause_t \<times> u32) list) io"
where
  "budget_run scan_ovf r [] c = ret (c, [])"
| "budget_run scan_ovf r (x # xs) c =
     (\<lambda>w. case budget_step scan_ovf r x c w of
            None \<Rightarrow> None
          | Some ((c', l), w') \<Rightarrow> then_ret (budget_run scan_ovf r xs c') (\<lambda>(c'', l'). (c'', l @ l')) w')"

text \<open>The reboots of a cause in a log.\<close>

definition reboots_of :: "bb_reboot_cause_t \<Rightarrow> (bb_reboot_cause_t \<times> u32) list \<Rightarrow> u32 list" where
  "reboots_of cause l = map snd (filter (\<lambda>(x, t). x = cause) l)"

text \<open>The log by the rules alone: no cache, no store, no restarts. An unknown cause is never limited.\<close>

definition budget_allowed :: "(bb_reboot_cause_t \<times> u32) list \<Rightarrow> bb_reboot_cause_t \<Rightarrow> u32 \<Rightarrow> bool" where
  "budget_allowed l cause now = bb_system_reboot_budget_should_allow now BB_SYSTEM_REBOOT_BUDGET_MIN_INTERVAL_S
     BB_SYSTEM_REBOOT_BUDGET_DAILY_CAP (Some (if cause_valid cause then recorded (reboots_of cause l) else budget_zero))"

fun budget_rules :: "budget_event list \<Rightarrow> (bb_reboot_cause_t \<times> u32) list \<Rightarrow> (bb_reboot_cause_t \<times> u32) list" where
  "budget_rules [] l = l"
| "budget_rules (Attempt cause synced now junk # xs) l =
     budget_rules xs (if synced \<and> budget_allowed l cause now then l @ [(cause, now)] else l)"
| "budget_rules (x # xs) l = budget_rules xs l"

fun event_ok :: "budget_event \<Rightarrow> bool" where
  "event_ok (Ask cause synced now junk) = (length junk = 192)"
| "event_ok (Attempt cause synced now junk) = (length junk = 192 \<and> now \<noteq> 0)"
| "event_ok Restart = True"

lemma reboots_of_append [simp]: "reboots_of c (a @ b) = reboots_of c a @ reboots_of c b" "reboots_of c [] = []"
  "reboots_of c [(x, t)] = (if x = c then [t] else [])"
  by (simp_all add: reboots_of_def)

lemma chars_bytes [simp]: "chars_of (bytes_of cs) = cs" "chars_of (a @ b) = chars_of a @ chars_of b"
  "length (chars_of bs) = length bs" "length (bytes_of cs) = length cs" "chars_of (0 # bs) = NUL # chars_of bs"
proof -
  have "char_of (unat (of_char c :: u8)) = c" for c
  proof -
    have "(of_char c :: nat) < 256" by (rule nat_of_char_less_256)
    then have "unat (of_nat (of_char c) :: u8) = of_char c" by (rule unat_small)
    then show ?thesis by (metis of_nat_of_char char_of_char)
  qed
  then show "chars_of (bytes_of cs) = cs" by (simp add: chars_of_def bytes_of_def comp_def)
qed (simp_all add: chars_of_def bytes_of_def, simp add: char_of_def)

text \<open>Any store that is a map and has room for the two keys will do.\<close>

locale budget_store = kv_backend vt inv lookup gate
  for vt :: "'w bb_storage_vtable_t" and inv and lookup and gate +
  fixes room :: "'w \<Rightarrow> bool"
  assumes room_gate: "inv w \<Longrightarrow> room w \<Longrightarrow> cause_key c = Some k \<Longrightarrow> length v \<le> 129 \<Longrightarrow> gate w k v"
    and room_keep: "inv w \<Longrightarrow> inv w' \<Longrightarrow> room w \<Longrightarrow> cause_key c = Some k \<Longrightarrow> lookup w' = (lookup w)(k \<mapsto> v) \<Longrightarrow> room w'"
begin

text \<open>The store holds the state, or nothing when it is the initial one.\<close>

definition stored :: "'w \<Rightarrow> string \<Rightarrow> bb_system_reboot_budget_state_t \<Rightarrow> bool" where
  "stored w k st \<longleftrightarrow> (lookup w k = None \<and> st = budget_zero) \<or> lookup w k = Some (bytes_of (budget_text st) @ [0])"

definition tracks :: "'w \<Rightarrow> budget_cache \<Rightarrow> (bb_reboot_cause_t \<times> u32) list \<Rightarrow> bool" where
  "tracks w c l \<longleftrightarrow> inv w \<and> room w \<and> length (s_cache c) = 2 \<and> length (s_loaded c) = 2 \<and>
     (\<forall>cause k. cause_key cause = Some k \<longrightarrow> stored w k (recorded (reboots_of cause l)) \<and> limited (reboots_of cause l) \<and>
        (s_loaded c ! cause \<longrightarrow> s_cache c ! cause = recorded (reboots_of cause l)))"

lemma recorded_wf: "budget_wf (recorded acc)"
  using ring_repr [of acc] by (simp add: budget_wf_def BB_SYSTEM_REBOOT_BUDGET_CAP_MAX_def)

lemma cause_keyD: "cause_key cause = Some k \<Longrightarrow> cause < 2 \<and> c_string k"
  by (auto simp: cause_key_def BB_REBOOT_CAUSE_WIFI_SAFEGUARD_def BB_REBOOT_CAUSE_EGRESS_TIER3_def split: if_splits)

lemma cause_key_inj: "cause_key a = Some k \<Longrightarrow> cause_key b = Some k \<Longrightarrow> a = b"
  by (auto simp: cause_key_def split: if_splits)

lemma addr: "ad_backend (budget_addr k) = Some ''ram''" "ad_key (budget_addr k) = Some k"
  by (simp_all add: budget_addr_def BB_SYSTEM_REBOOT_BUDGET_BACKEND_def)

lemma load_stored:
  assumes e: "find_backend r ''ram'' = Some e" "be_vt e = vt" and w: "inv w" and k: "cause_key cause = Some k"
    and j: "length junk = 192" and st: "stored w k st" and wf: "budget_wf st"
  shows "reboot_budget_load scan_ovf r junk cause w = Some (st, w)"
proof (cases "lookup w k")
  case None
  then have "st = budget_zero" using st by (simp add: stored_def)
  then show ?thesis
    using facade_get_absent [OF e addr w None, of junk BB_SYSTEM_REBOOT_BUDGET_STATE_STR_MAX 0]
    by (simp add: reboot_budget_load_def k then_ret_def)
next
  case (Some v)
  then have v: "v = bytes_of (budget_text st) @ [0]" using st by (simp add: stored_def)
  have l: "length v \<le> 129" using budget_text_length [OF wf] by (simp add: v)
  then have lv: "length v < BB_SYSTEM_REBOOT_BUDGET_STATE_STR_MAX" "BB_SYSTEM_REBOOT_BUDGET_STATE_STR_MAX \<le> length junk"
    using j by (simp_all add: BB_SYSTEM_REBOOT_BUDGET_STATE_STR_MAX_def)
  obtain b' where b': "bb_storage_get r (Some (budget_addr k)) (Some junk) BB_SYSTEM_REBOOT_BUDGET_STATE_STR_MAX (Some 0) w =
      Some ((BB_OK, Some (v @ b'), Some (length v)), w)"
    by (rule facade_get [OF e addr w Some lv])
  have "191 - length (budget_text st) = Suc (190 - length (budget_text st))" using budget_text_length [OF wf] by simp
  then have "(chars_of (v @ b'))[191 := NUL] = budget_text st @ NUL # (chars_of b')[191 - length v := NUL]"
    using l by (simp add: v list_update_append)
  then have "cstr ((chars_of (v @ b'))[191 := NUL]) = budget_text st" using cstr_id [OF budget_text_no_nul] by metis
  then have "bb_system_reboot_budget_state_decode scan_ovf (Some ((chars_of (v @ b'))[191 := NUL])) (Some budget_zero) = (True, Some st)"
    by (rule decode_text [OF wf])
  moreover have "length v \<noteq> 0" by (simp add: v)
  ultimately show ?thesis using b' lv(1)
    by (simp add: reboot_budget_load_def k then_ret_def the_default_def BB_SYSTEM_REBOOT_BUDGET_STATE_STR_MAX_def)
qed

lemma save_stores:
  assumes e: "find_backend r ''ram'' = Some e" "be_vt e = vt" and w: "inv w" "room w" and k: "cause_key cause = Some k"
    and j: "length junk = 192" and wf: "budget_wf st"
  obtains w' where "reboot_budget_save r junk cause st w = Some ((), w')" "inv w'" "room w'"
    "lookup w' = (lookup w)(k \<mapsto> bytes_of (budget_text st) @ [0])"
proof -
  obtain b' where b': "bb_system_reboot_budget_state_encode (Some st) (Some (chars_of junk)) 192 = (True, Some b')"
    "length b' = length (chars_of junk)" "cstr b' = budget_text st" "take (length (budget_text st) + 1) b' = budget_text st @ [NUL]"
    by (rule encode_text [OF wf, of 192 "chars_of junk"]) (use j in simp_all)
  let ?n = "length (cstr b') + 1"
  have n: "?n \<le> length (bytes_of b')" using b'(2,3) j budget_text_length [OF wf] by simp
  have v: "take ?n (bytes_of b') = bytes_of (budget_text st) @ [0]"
    using b'(3,4) by (simp add: bytes_of_def take_map)
  obtain err w' where s: "bb_storage_set r (Some (budget_addr k)) (Some (bytes_of b')) ?n w = Some (err, w')" "inv w'"
    "err = BB_OK \<longleftrightarrow> gate w k (take ?n (bytes_of b'))"
    "lookup w' = (if err = BB_OK then (lookup w)(k \<mapsto> take ?n (bytes_of b')) else lookup w)"
    by (rule facade_set_map [OF e addr w(1) conjunct2 [OF cause_keyD [OF k]] n])
  have "gate w k (take ?n (bytes_of b'))"
    unfolding v by (rule room_gate [OF w k]) (use budget_text_length [OF wf] in simp)
  then have lk: "lookup w' = (lookup w)(k \<mapsto> bytes_of (budget_text st) @ [0])" using s(3,4) v by simp
  have "reboot_budget_save r junk cause st w = Some ((), w')"
    using s(1) b'(1) by (simp add: reboot_budget_save_def k BB_SYSTEM_REBOOT_BUDGET_STATE_STR_MAX_def the_default_def then_ret_def)
  then show thesis by (rule that [OF _ s(2) room_keep [OF w(1) s(2) w(2) k lk] lk])
qed

text \<open>The cache slot handed out is the state recorded so far.\<close>

lemma cache_get_tracks:
  assumes e: "find_backend r ''ram'' = Some e" "be_vt e = vt" and t: "tracks w c l" and j: "length junk = 192"
  obtains c' where "cache_get scan_ovf r junk c cause w = Some ((if cause_valid cause then Some cause else None, c'), w)"
    "tracks w c' l" "cause_valid cause \<Longrightarrow> s_cache c' ! cause = recorded (reboots_of cause l)"
    "cause_valid cause \<Longrightarrow> s_loaded c' ! cause"
proof (cases "cause_key cause")
  case None
  then show thesis using that [of c] t by (simp add: cache_get_def cause_valid_def)
next
  case (Some k)
  then have v: "cause_valid cause" and lt: "cause < 2" by (simp_all add: cause_valid_def cause_keyD)
  note tD = t [unfolded tracks_def]
  show thesis
  proof (cases "s_loaded c ! cause")
    case True
    then show thesis using that [of c] t tD v Some by (simp add: cache_get_def)
  next
    case False
    let ?s = "recorded (reboots_of cause l)"
    let ?c = "c\<lparr>s_cache := (s_cache c)[cause := ?s], s_loaded := (s_loaded c)[cause := True]\<rparr>"
    have ld: "reboot_budget_load scan_ovf r junk cause w = Some (?s, w)"
      by (rule load_stored [OF e _ Some j _ recorded_wf]) (use tD Some in auto)
    have cs: "s_cache ?c ! x = (if x = cause then ?s else s_cache c ! x)" "s_loaded ?c ! x = (x = cause \<or> s_loaded c ! x)" for x
      using tD lt by (auto simp: nth_list_update)
    have "tracks w ?c l"
      using tD cs unfolding tracks_def by auto
    then show thesis using that [of ?c] ld False v lt tD by (simp add: cache_get_def then_ret_def)
  qed
qed

lemma allows_tracks:
  assumes e: "find_backend r ''ram'' = Some e" "be_vt e = vt" and t: "tracks w c l" and j: "length junk = 192"
  obtains c' ok where "bb_system_reboot_budget_allows_at scan_ovf r junk c cause synced now w = Some ((ok, c'), w)"
    "tracks w c' l" "synced \<Longrightarrow> ok \<longleftrightarrow> budget_allowed l cause now"
proof (cases synced)
  case False
  then show thesis using that [of True c] t by (simp add: bb_system_reboot_budget_allows_at_def)
next
  case True
  obtain c' where c': "cache_get scan_ovf r junk c cause w = Some ((if cause_valid cause then Some cause else None, c'), w)"
    "tracks w c' l" "cause_valid cause \<Longrightarrow> s_cache c' ! cause = recorded (reboots_of cause l)"
    by (rule cache_get_tracks [OF e t j, where scan_ovf = scan_ovf and cause = cause]) blast
  show thesis
    by (rule that [of "budget_allowed l cause now" c', OF _ c'(2)])
      (use c' True in \<open>auto simp: bb_system_reboot_budget_allows_at_def then_ret_def budget_allowed_def\<close>)
qed

lemma record_tracks:
  assumes e: "find_backend r ''ram'' = Some e" "be_vt e = vt" and t: "tracks w c l" and j: "length junk = 192"
    and lim: "cause_valid cause \<Longrightarrow> limited (reboots_of cause l @ [now])"
  obtains c' w' where "bb_system_reboot_budget_record_at scan_ovf r junk c cause True now w = Some (c', w')"
    "tracks w' c' (l @ [(cause, now)])"
proof -
  obtain c1 where c1: "cache_get scan_ovf r junk c cause w = Some ((if cause_valid cause then Some cause else None, c1), w)"
    "tracks w c1 l" "cause_valid cause \<Longrightarrow> s_cache c1 ! cause = recorded (reboots_of cause l)"
    "cause_valid cause \<Longrightarrow> s_loaded c1 ! cause"
    by (rule cache_get_tracks [OF e t j, where scan_ovf = scan_ovf and cause = cause]) blast
  note tD = c1(2) [unfolded tracks_def]
  show thesis
  proof (cases "cause_key cause")
    case None
    then have nv: "\<not> cause_valid cause" by (simp add: cause_valid_def)
    have "tracks w c1 (l @ [(cause, now)])" using tD None unfolding tracks_def by (auto simp: cause_key_def split: if_splits)
    then show thesis using that [of c1 w] c1(1) nv by (simp add: bb_system_reboot_budget_record_at_def)
  next
    case (Some k)
    then have v: "cause_valid cause" and lt: "cause < 2" by (simp_all add: cause_valid_def cause_keyD)
    let ?s = "recorded (reboots_of cause l @ [now])"
    have rs: "bb_system_reboot_budget_state_record (s_cache c1 ! cause) now = ?s" using c1(3) [OF v] by (simp add: recorded_snoc)
    obtain w' where s: "reboot_budget_save r junk cause ?s w = Some ((), w')" "inv w'" "room w'"
      "lookup w' = (lookup w)(k \<mapsto> bytes_of (budget_text ?s) @ [0])"
      by (rule save_stores [OF e _ _ Some j recorded_wf]) (use tD in auto)
    let ?c = "c1\<lparr>s_cache := (s_cache c1)[cause := ?s]\<rparr>"
    have cs: "s_cache ?c ! x = (if x = cause then ?s else s_cache c1 ! x)" for x using tD lt by (auto simp: nth_list_update)
    have "stored w' k' (recorded (reboots_of x (l @ [(cause, now)]))) \<and> limited (reboots_of x (l @ [(cause, now)])) \<and>
        (s_loaded ?c ! x \<longrightarrow> s_cache ?c ! x = recorded (reboots_of x (l @ [(cause, now)])))" if x: "cause_key x = Some k'" for x k'
    proof (cases "x = cause")
      case True
      then show ?thesis using x Some s(4) lim [OF v] cs [of x] by (simp add: stored_def)
    next
      case False
      then have "k' \<noteq> k" using cause_key_inj x Some by blast
      then show ?thesis using False tD x s(4) cs [of x] by (auto simp: stored_def)
    qed
    then have "tracks w' ?c (l @ [(cause, now)])" using tD s(2,3) unfolding tracks_def by simp
    moreover have "bb_system_reboot_budget_record_at scan_ovf r junk c cause True now w = Some (?c, w')"
      using c1(1) v s(1) by (simp add: bb_system_reboot_budget_record_at_def Let_def rs then_ret_def)
    ultimately show thesis using that by blast
  qed
qed

lemma restart_tracks: "tracks w c l \<Longrightarrow> tracks w bb_system_reboot_budget_reset_for_test l"
  by (auto simp: tracks_def bb_system_reboot_budget_reset_for_test_def BB_REBOOT_CAUSE_COUNT_def dest: cause_keyD)

lemma step_tracks:
  assumes e: "find_backend r ''ram'' = Some e" "be_vt e = vt" and t: "tracks w c l" and x: "event_ok x"
  obtains c' l' w' where "budget_step scan_ovf r x c w = Some ((c', l'), w')" "tracks w' c' (l @ l')"
    "\<And>xs. budget_rules (x # xs) l = budget_rules xs (l @ l')"
proof (cases x)
  case (Ask cause synced now junk)
  obtain ok c' where "bb_system_reboot_budget_allows_at scan_ovf r junk c cause synced now w = Some ((ok, c'), w)" "tracks w c' l"
    by (rule allows_tracks [OF e t, of junk scan_ovf cause synced now]) (use x Ask in auto)
  then show thesis using that [of c' "[]" w] Ask by (simp add: then_ret_def)
next
  case (Attempt cause synced now junk)
  then have j: "length junk = 192" and nz: "now \<noteq> 0" using x by simp_all
  obtain ok c' where a: "bb_system_reboot_budget_allows_at scan_ovf r junk c cause synced now w = Some ((ok, c'), w)" "tracks w c' l"
    "synced \<Longrightarrow> ok \<longleftrightarrow> budget_allowed l cause now"
    by (rule allows_tracks [OF e t j, of scan_ovf cause synced now]) auto
  show thesis
  proof (cases "ok \<and> synced")
    case False
    then have n: "\<not> (synced \<and> budget_allowed l cause now)" using a(3) by auto
    show thesis using that [of c' "[]" w] a(1,2) Attempt False n
      by (cases ok) (simp_all add: bb_system_reboot_budget_record_at_def then_ret_def)
  next
    case True
    have "limited (reboots_of cause l @ [now])" if v: "cause_valid cause"
    proof -
      obtain k where "cause_key cause = Some k" using v by (auto simp: cause_valid_def)
      then have "limited (reboots_of cause l)" using t by (simp add: tracks_def)
      then show ?thesis by (rule allowed_limited [OF _ nz]) (use a(3) v True in \<open>simp add: budget_allowed_def\<close>)
    qed
    then obtain c'' w' where "bb_system_reboot_budget_record_at scan_ovf r junk c' cause True now w = Some (c'', w')"
      "tracks w' c'' (l @ [(cause, now)])"
      by (rule record_tracks [OF e a(2) j, of cause now scan_ovf])
    then show thesis using that [of c'' "[(cause, now)]" w'] a Attempt True by (simp add: then_ret_def)
  qed
next
  case Restart
  then show thesis using that [of bb_system_reboot_budget_reset_for_test "[]" w] restart_tracks [OF t] by simp
qed

lemma run_tracks:
  assumes e: "find_backend r ''ram'' = Some e" "be_vt e = vt"
  shows "tracks w c l \<Longrightarrow> list_all event_ok xs \<Longrightarrow>
    \<exists>c' l' w'. budget_run scan_ovf r xs c w = Some ((c', l'), w') \<and> tracks w' c' (l @ l') \<and> l @ l' = budget_rules xs l"
proof (induction xs arbitrary: w c l)
  case Nil
  then show ?case by simp
next
  case (Cons x xs)
  obtain c1 l1 w1 where s: "budget_step scan_ovf r x c w = Some ((c1, l1), w1)" "tracks w1 c1 (l @ l1)"
    and rl: "\<And>xs. budget_rules (x # xs) l = budget_rules xs (l @ l1)"
    by (rule step_tracks [OF e Cons.prems(1)]) (use Cons.prems(2) in auto)
  obtain c2 l2 w2 where "budget_run scan_ovf r xs c1 w1 = Some ((c2, l2), w2)" "tracks w2 c2 ((l @ l1) @ l2)"
    "(l @ l1) @ l2 = budget_rules xs (l @ l1)"
    using Cons.IH [OF s(2)] Cons.prems(2) by auto
  then show ?case using s(1) rl by (auto simp: then_ret_def)
qed

end

section \<open>On the RAM store of a host build\<close>

definition budget_room :: "'a bb_statics_scheme \<Rightarrow> bool" where
  "budget_room w \<longleftrightarrow> card (dom (ram_map w) \<union> {''budget_wifi'', ''budget_egress''}) \<le> BB_STORAGE_RAM_MAX_ENTRIES"

lemma finite_ram_dom [simp]: "finite (dom (ram_map w))"
  by (simp add: ram_map_def)

interpretation ram_budget: budget_store "s_ram_vtable :: 'a bb_statics_scheme bb_storage_vtable_t" ram_inv ram_map ram_gate budget_room
proof (unfold_locales, goal_cases)
  case (1 w c k v)
  then have k: "k = ''budget_wifi'' \<or> k = ''budget_egress''" by (auto simp: cause_key_def split: if_splits)
  have "card (dom (ram_map w)) < BB_STORAGE_RAM_MAX_ENTRIES" if "ram_map w k = None"
  proof -
    have "dom (ram_map w) \<subset> dom (ram_map w) \<union> {''budget_wifi'', ''budget_egress''}" using that k by blast
    then have "card (dom (ram_map w)) < card (dom (ram_map w) \<union> {''budget_wifi'', ''budget_egress''})"
      by (intro psubset_card_mono) simp_all
    then show ?thesis using 1(2) by (simp add: budget_room_def)
  qed
  then show ?case using k 1(4) by (auto simp: ram_gate_def BB_STORAGE_RAM_MAX_KEY_BYTES_def BB_STORAGE_RAM_MAX_VALUE_BYTES_def)
next
  case (2 w w' c k v)
  then have "k = ''budget_wifi'' \<or> k = ''budget_egress''" by (auto simp: cause_key_def split: if_splits)
  then have "dom (ram_map w') \<union> {''budget_wifi'', ''budget_egress''} = dom (ram_map w) \<union> {''budget_wifi'', ''budget_egress''}"
    using 2(5) by auto
  then show ?case using 2(3) by (simp add: budget_room_def)
qed

text \<open>C26: the reboot limits hold across reboots. Start with no persisted budget, and let consumers ask and
  attempt in any order, each attempt rebooting (after recording it) when it is allowed, with restarts that lose the cache at any
  point and whatever the clock reads, forwards or backwards. No call fails; the reboots made while the clock was set are
  the ones the rules alone give, so that cache, persistence and restarts do not show; and for each of the two
  causes each comes at least 1800 seconds after the one before it and at least 24 hours after the fourth before
  it: never more than four in a day. The only needs are a nonzero clock and two places in the store.\<close>

theorem reboot_limits_hold:
  assumes "find_backend r ''ram'' = Some e" and "be_vt e = s_ram_vtable" and "ram_inv w" and "budget_room w"
    and "ram_map w ''budget_wifi'' = None" and "ram_map w ''budget_egress'' = None"
    and "list_all event_ok xs" and "cause \<in> {BB_REBOOT_CAUSE_WIFI_SAFEGUARD, BB_REBOOT_CAUSE_EGRESS_TIER3}"
  shows "\<exists>c w'. budget_run scan_ovf r xs bb_system_reboot_budget_reset_for_test w = Some ((c, budget_rules xs []), w') \<and>
    spaced 1800 1 (reboots_of cause (budget_rules xs [])) \<and> spaced 86400 4 (reboots_of cause (budget_rules xs []))"
proof -
  have "ram_budget.tracks w bb_system_reboot_budget_reset_for_test []"
    using assms(3-6) by (auto simp: ram_budget.tracks_def ram_budget.stored_def bb_system_reboot_budget_reset_for_test_def
        BB_REBOOT_CAUSE_COUNT_def recorded_def limited_def spaced_def cause_key_def BB_REBOOT_CAUSE_WIFI_SAFEGUARD_def
        BB_REBOOT_CAUSE_EGRESS_TIER3_def split: if_splits)
  from ram_budget.run_tracks [OF assms(1,2) this assms(7), of scan_ovf]
  obtain c l w' where "budget_run scan_ovf r xs bb_system_reboot_budget_reset_for_test w = Some ((c, l), w')"
    "ram_budget.tracks w' c l" "l = budget_rules xs []" by auto
  then show ?thesis using assms(8)
    by (auto simp: ram_budget.tracks_def limited_def cause_key_def BB_REBOOT_CAUSE_WIFI_SAFEGUARD_def BB_REBOOT_CAUSE_EGRESS_TIER3_def)
qed

theorem reboot_limits_hold_witness:
  "\<exists>c w'. budget_run (\<lambda>_ _. 0) ram_registry [Attempt 0 True 100000 (replicate 192 7), Restart,
       Attempt 0 True 100500 (replicate 192 7), Attempt 0 True 102000 (replicate 192 7)]
     bb_system_reboot_budget_reset_for_test ram_cleared = Some ((c, [(0, 100000), (0, 102000)]), w')"
proof -
  let ?xs = "[Attempt 0 True 100000 (replicate 192 7), Restart, Attempt 0 True 100500 (replicate 192 7),
     Attempt 0 True 102000 (replicate 192 7)]"
  have rl: "budget_rules ?xs [] = [(0, 100000), (0, 102000)]" by code_simp
  have ev: "list_all event_ok ?xs" by simp
  have rm: "budget_room ram_cleared"
    by (simp add: budget_room_def ram_cleared_inv BB_STORAGE_RAM_MAX_ENTRIES_def)
  have v: "be_vt \<lparr>be_name = Some ''ram'', be_vt = s_ram_vtable, be_impl = None\<rparr> = s_ram_vtable" by simp
  have none: "ram_map ram_cleared ''budget_wifi'' = None" "ram_map ram_cleared ''budget_egress'' = None"
    by (simp_all add: ram_cleared_inv)
  show ?thesis
    using reboot_limits_hold [OF ram_registered v ram_cleared_inv(1) rm none ev, of BB_REBOOT_CAUSE_WIFI_SAFEGUARD "\<lambda>_ _. 0"]
    unfolding rl by blast
qed

end
