(* ===== verification/BB_JSON_Scan.thy ===== *)
theory BB_JSON_Scan
  imports BB_Prelude
begin

unbundle bit_operations_syntax

text \<open>
  The JSON event scanner of \<^verbatim>\<open>components/bb_serialize_json/src/bb_serialize_json_scan.c\<close>, fed a document whole or
  in chunks. The sink is a record of callbacks on a state of its own, kept in the scanner state; a key is \<^verbatim>\<open>None\<close> where
  C passes NULL. The bytes still to be read of a chunk are a list, and the offset of a span in its chunk is the
  length of the chunk less what is left. Of the scratch buffer only the used part is kept. A span handed out is
  its bytes with that offset, or none when it lies in the scanner's own frame.
\<close>

section \<open>Types\<close>

definition BB_SERIALIZE_MAX_DEPTH :: nat where "BB_SERIALIZE_MAX_DEPTH = 8"
definition BB_SERIALIZE_JSON_SCRATCH_MAX_BYTES :: nat where "BB_SERIALIZE_JSON_SCRATCH_MAX_BYTES = 64"

datatype bb_serialize_json_span_t = SPAN_CALLER_STABLE | SPAN_CALLER_FEED_SCOPED | SPAN_SCANNER_SCRATCH

type_synonym json_key = "string option"
type_synonym span_ptr = "nat option"

record 'k bb_serialize_json_ingest_t =
  in_begin_obj :: "'k \<Rightarrow> json_key \<Rightarrow> bb_err_t \<times> 'k"
  in_end_obj :: "'k \<Rightarrow> bb_err_t \<times> 'k"
  in_begin_arr :: "'k \<Rightarrow> json_key \<Rightarrow> bb_err_t \<times> 'k"
  in_end_arr :: "'k \<Rightarrow> bb_err_t \<times> 'k"
  in_value_num :: "'k \<Rightarrow> json_key \<Rightarrow> string \<Rightarrow> bb_err_t \<times> 'k"
  in_value_bool :: "'k \<Rightarrow> json_key \<Rightarrow> bool \<Rightarrow> bb_err_t \<times> 'k"
  in_value_null :: "'k \<Rightarrow> json_key \<Rightarrow> bb_err_t \<times> 'k"
  in_value_str_chunk :: "'k \<Rightarrow> json_key \<Rightarrow> span_ptr \<Rightarrow> string \<Rightarrow> bool \<Rightarrow> bb_serialize_json_span_t \<Rightarrow> bb_err_t \<times> 'k"

datatype phase_t =
    PH_ROOT | PH_AFTER_ROOT | PH_OBJ_KEY_OR_CLOSE | PH_OBJ_KEY_ONLY | PH_KEY_STR | PH_OBJ_COLON | PH_OBJ_VALUE
  | PH_OBJ_AFTER_VALUE | PH_ARR_ELEM_OR_CLOSE | PH_ARR_ELEM_ONLY | PH_ARR_AFTER_VALUE | PH_VAL_STR | PH_VAL_NUM | PH_VAL_LIT

datatype num_phase_t =
    NUM_START | NUM_INT_DIGITS | NUM_FRAC_START | NUM_FRAC_DIGITS | NUM_EXP_START | NUM_EXP_SIGN | NUM_EXP_DIGITS

datatype lit_kind_t = LIT_TRUE | LIT_FALSE | LIT_NULL

datatype esc_phase_t =
    ESC_NONE | ESC_BACKSLASH | ESC_U1 | ESC_U2 | ESC_U3 | ESC_U4 | ESC_LOW_BACKSLASH | ESC_LOW_U
  | ESC_LOW_U1 | ESC_LOW_U2 | ESC_LOW_U3 | ESC_LOW_U4

record 'k scan_state_t =
  sc_ctx :: 'k
  sc_phase :: phase_t
  sc_err :: bb_err_t
  sc_bounded_mode :: bool
  sc_obj_stack :: "bool list"
  sc_depth :: nat
  sc_scratch :: string
  sc_key_len :: nat
  sc_num_phase :: num_phase_t
  sc_lit_kind :: lit_kind_t
  sc_lit_matched :: nat
  sc_esc_phase :: esc_phase_t
  sc_esc_code_unit :: u16
  sc_esc_high_surrogate :: u16

section \<open>Small helpers\<close>

definition is_ws_json :: "char \<Rightarrow> bool" where
  "is_ws_json c \<longleftrightarrow> c = CHR '' '' \<or> c = CHR 0x09 \<or> c = CHR 0x0A \<or> c = CHR 0x0D"

definition skip_ws :: "string \<Rightarrow> string" where
  "skip_ws cs = dropWhile is_ws_json cs"

definition hex_val :: "char \<Rightarrow> nat option" where
  "hex_val c =
     (let n = of_char c :: nat in
      if 48 \<le> n \<and> n \<le> 57 then Some (n - 48)
      else if 97 \<le> n \<and> n \<le> 102 then Some (n - 97 + 10)
      else if 65 \<le> n \<and> n \<le> 70 then Some (n - 65 + 10)
      else None)"

definition byte :: "u32 \<Rightarrow> char" where
  "byte w = char_of (unat w)"

definition utf8_encode :: "u32 \<Rightarrow> string" where
  "utf8_encode cp =
     (if cp \<le> 0x7F then [byte cp]
      else if cp \<le> 0x7FF then [byte (0xC0 OR drop_bit 6 cp), byte (0x80 OR (cp AND 0x3F))]
      else if cp \<le> 0xFFFF then
        [byte (0xE0 OR drop_bit 12 cp), byte (0x80 OR (drop_bit 6 cp AND 0x3F)), byte (0x80 OR (cp AND 0x3F))]
      else
        [byte (0xF0 OR drop_bit 18 cp), byte (0x80 OR (drop_bit 12 cp AND 0x3F)),
         byte (0x80 OR (drop_bit 6 cp AND 0x3F)), byte (0x80 OR (cp AND 0x3F))])"

definition cur_key :: "'k scan_state_t \<Rightarrow> json_key" where
  "cur_key s = (if sc_key_len s \<noteq> 0 then Some (take (sc_key_len s) (sc_scratch s)) else None)"

definition after_value_phase :: "'k scan_state_t \<Rightarrow> phase_t" where
  "after_value_phase s =
     (if sc_depth s = 0 then PH_AFTER_ROOT
      else if sc_obj_stack s ! (sc_depth s - 1) then PH_ARR_AFTER_VALUE else PH_OBJ_AFTER_VALUE)"

definition scratch_append :: "'k scan_state_t \<Rightarrow> string \<Rightarrow> bb_err_t \<times> 'k scan_state_t" where
  "scratch_append s d =
     (if length (sc_scratch s) + length d > BB_SERIALIZE_JSON_SCRATCH_MAX_BYTES then (BB_ERR_NO_SPACE, s)
      else (BB_OK, s\<lparr>sc_scratch := sc_scratch s @ d\<rparr>))"

definition direct_span_provenance :: "'k scan_state_t \<Rightarrow> bb_serialize_json_span_t" where
  "direct_span_provenance s = (if sc_bounded_mode s then SPAN_CALLER_STABLE else SPAN_CALLER_FEED_SCOPED)"

text \<open>Running a callback on the sink's state.\<close>

definition sink_call :: "('k \<Rightarrow> bb_err_t \<times> 'k) \<Rightarrow> 'k scan_state_t \<Rightarrow> bb_err_t \<times> 'k scan_state_t" where
  "sink_call f s = (case f (sc_ctx s) of (rc, k) \<Rightarrow> (rc, s\<lparr>sc_ctx := k\<rparr>))"

definition emit_str_bytes ::
  "'k bb_serialize_json_ingest_t \<Rightarrow> 'k scan_state_t \<Rightarrow> span_ptr \<Rightarrow> string \<Rightarrow> bool \<Rightarrow> bool \<Rightarrow> bb_serialize_json_span_t
     \<Rightarrow> bb_err_t \<times> 'k scan_state_t"
where
  "emit_str_bytes sk s p d is_final is_key prov =
     (if is_key then scratch_append s d
      else sink_call (\<lambda>k. in_value_str_chunk sk k (cur_key s) p d is_final prov) s)"

section \<open>Strings\<close>

text \<open>One byte of an escape sequence: an error, or the state after it and the bytes decoded (none while the
  sequence goes on).\<close>

definition simple_escape :: "char \<Rightarrow> char option" where
  "simple_escape c =
     (if c = CHR 0x22 then Some (CHR 0x22)
      else if c = CHR 0x5C then Some (CHR 0x5C)
      else if c = CHR ''/'' then Some (CHR ''/'')
      else if c = CHR ''b'' then Some (CHR 0x08)
      else if c = CHR ''f'' then Some (CHR 0x0C)
      else if c = CHR ''n'' then Some (CHR 0x0A)
      else if c = CHR ''r'' then Some (CHR 0x0D)
      else if c = CHR ''t'' then Some (CHR 0x09)
      else None)"

fun next_hex_phase :: "esc_phase_t \<Rightarrow> esc_phase_t" where
  "next_hex_phase ESC_U1 = ESC_U2"
| "next_hex_phase ESC_U2 = ESC_U3"
| "next_hex_phase ESC_U3 = ESC_U4"
| "next_hex_phase ESC_LOW_U1 = ESC_LOW_U2"
| "next_hex_phase ESC_LOW_U2 = ESC_LOW_U3"
| "next_hex_phase ESC_LOW_U3 = ESC_LOW_U4"
| "next_hex_phase p = p"

definition push_nibble :: "u16 \<Rightarrow> nat \<Rightarrow> u16" where
  "push_nibble w hv = push_bit 4 w OR of_nat hv"

definition scan_escape_byte :: "'k scan_state_t \<Rightarrow> char \<Rightarrow> bb_err_t \<times> 'k scan_state_t \<times> string" where
  "scan_escape_byte s c =
     (case sc_esc_phase s of
        ESC_NONE \<Rightarrow> (BB_ERR_PARSE_GRAMMAR, s, [])
      | ESC_BACKSLASH \<Rightarrow>
          (case simple_escape c of
             Some d \<Rightarrow> (BB_OK, s\<lparr>sc_esc_phase := ESC_NONE\<rparr>, [d])
           | None \<Rightarrow>
               if c = CHR ''u'' then (BB_OK, s\<lparr>sc_esc_phase := ESC_U1, sc_esc_code_unit := 0\<rparr>, [])
               else (BB_ERR_PARSE_GRAMMAR, s, []))
      | ESC_LOW_BACKSLASH \<Rightarrow>
          if c \<noteq> CHR 0x5C then (BB_ERR_PARSE_GRAMMAR, s, []) else (BB_OK, s\<lparr>sc_esc_phase := ESC_LOW_U\<rparr>, [])
      | ESC_LOW_U \<Rightarrow>
          if c \<noteq> CHR ''u'' then (BB_ERR_PARSE_GRAMMAR, s, [])
          else (BB_OK, s\<lparr>sc_esc_phase := ESC_LOW_U1, sc_esc_code_unit := 0\<rparr>, [])
      | ph \<Rightarrow>
          (case hex_val c of
             None \<Rightarrow> (BB_ERR_PARSE_GRAMMAR, s, [])
           | Some hv \<Rightarrow>
               let u = push_nibble (sc_esc_code_unit s) hv;
                   s = s\<lparr>sc_esc_code_unit := u\<rparr>
               in if ph \<noteq> ESC_U4 \<and> ph \<noteq> ESC_LOW_U4 then (BB_OK, s\<lparr>sc_esc_phase := next_hex_phase ph\<rparr>, [])
                  else if ph = ESC_U4 then
                    (if 0xD800 \<le> u \<and> u \<le> 0xDBFF then
                       (BB_OK, s\<lparr>sc_esc_high_surrogate := u, sc_esc_phase := ESC_LOW_BACKSLASH\<rparr>, [])
                     else if 0xDC00 \<le> u \<and> u \<le> 0xDFFF then (BB_ERR_PARSE_GRAMMAR, s, [])
                     else (BB_OK, s\<lparr>sc_esc_phase := ESC_NONE\<rparr>, utf8_encode (ucast u)))
                  else
                    (if u < 0xDC00 \<or> u > 0xDFFF then (BB_ERR_PARSE_GRAMMAR, s, [])
                     else (BB_OK, s\<lparr>sc_esc_phase := ESC_NONE\<rparr>,
                           utf8_encode (0x10000 + push_bit 10 (ucast (sc_esc_high_surrogate s) - 0xD800) + (ucast u - 0xDC00))))))"

text \<open>The run of plain bytes at the front: \<^verbatim>\<open>None\<close> when a control character ends it.\<close>

fun scan_run :: "string \<Rightarrow> (string \<times> string) option" where
  "scan_run [] = Some ([], [])"
| "scan_run (c # cs) =
     (if c = CHR 0x22 \<or> c = CHR 0x5C then Some ([], c # cs)
      else if (of_char c :: nat) < 0x20 then None
      else map_option (\<lambda>(r, cs'). (c # r, cs')) (scan_run cs))"

lemma scan_run_split: "scan_run cs = Some (r, cs') \<Longrightarrow> cs = r @ cs'"
  by (induction cs arbitrary: r) (auto split: if_splits)

lemma scan_run_shorter: "scan_run cs = Some (r, q # cs') \<Longrightarrow> length cs' < length cs"
  by (drule scan_run_split) simp

text \<open>Result: the code, the state, the bytes left, and whether the closing quote was consumed.\<close>

type_synonym 'k scan_result = "bb_err_t \<times> 'k scan_state_t \<times> string \<times> bool"

function scan_string ::
  "'k bb_serialize_json_ingest_t \<Rightarrow> nat \<Rightarrow> bool \<Rightarrow> 'k scan_state_t \<Rightarrow> string \<Rightarrow> 'k scan_result"
where
  "scan_string sk len is_key s cs =
     (case cs of
        [] \<Rightarrow> (BB_OK, s, [], False)
      | c # rest \<Rightarrow>
          if sc_esc_phase s \<noteq> ESC_NONE then
            (case scan_escape_byte s c of
               (rc, s1, decoded) \<Rightarrow>
                 if rc \<noteq> BB_OK then (rc, s1, cs, False)
                 else if decoded = [] then scan_string sk len is_key s1 rest
                 else if rest \<noteq> [] \<and> hd rest = CHR 0x22 then
                   (case emit_str_bytes sk s1 None decoded True is_key SPAN_SCANNER_SCRATCH of
                      (rc, s2) \<Rightarrow> if rc \<noteq> BB_OK then (rc, s2, tl rest, False) else (BB_OK, s2, tl rest, True))
                 else
                   (case emit_str_bytes sk s1 None decoded False is_key SPAN_SCANNER_SCRATCH of
                      (rc, s2) \<Rightarrow> if rc \<noteq> BB_OK then (rc, s2, rest, False) else scan_string sk len is_key s2 rest))
          else
            (case scan_run cs of
               None \<Rightarrow> (BB_ERR_PARSE_GRAMMAR, s, cs, False)
             | Some (run, cs') \<Rightarrow>
                 let p = Some (len - length cs) in
                 (case cs' of
                    [] \<Rightarrow>
                      if run \<noteq> [] then
                        (case emit_str_bytes sk s p run False is_key (direct_span_provenance s) of
                           (rc, s1) \<Rightarrow> (rc, s1, [], False))
                      else (BB_OK, s, [], False)
                  | q # cs'' \<Rightarrow>
                      if q = CHR 0x22 then
                        (case emit_str_bytes sk s p run True is_key (direct_span_provenance s) of
                           (rc, s1) \<Rightarrow> if rc \<noteq> BB_OK then (rc, s1, cs'', False) else (BB_OK, s1, cs'', True))
                      else if run \<noteq> [] then
                        (case emit_str_bytes sk s p run False is_key (direct_span_provenance s) of
                           (rc, s1) \<Rightarrow> if rc \<noteq> BB_OK then (rc, s1, cs', False)
                                       else scan_string sk len is_key (s1\<lparr>sc_esc_phase := ESC_BACKSLASH\<rparr>) cs'')
                      else scan_string sk len is_key (s\<lparr>sc_esc_phase := ESC_BACKSLASH\<rparr>) cs'')))"
  by pat_completeness auto
termination
  by (relation "measure (\<lambda>(sk, len, is_key, s, cs). length cs)") (auto simp del: scan_run.simps dest!: scan_run_shorter)

declare scan_string.simps [simp del]

section \<open>Numbers\<close>

definition is_digit :: "char \<Rightarrow> bool" where
  "is_digit c \<longleftrightarrow> 48 \<le> (of_char c :: nat) \<and> (of_char c :: nat) \<le> 57"

text \<open>The phase table: malformed, a byte that ends the number and is left to the caller, or the phase
  after consuming the byte.\<close>

datatype num_step = Num_error | Num_end | Num_to num_phase_t

fun num_next :: "num_phase_t \<Rightarrow> char \<Rightarrow> num_step" where
  "num_next NUM_START c = (if \<not> is_digit c then Num_error else Num_to NUM_INT_DIGITS)"
| "num_next NUM_INT_DIGITS c =
     (if is_digit c then Num_to NUM_INT_DIGITS
      else if c = CHR ''.'' then Num_to NUM_FRAC_START
      else if c = CHR ''e'' \<or> c = CHR ''E'' then Num_to NUM_EXP_START
      else Num_end)"
| "num_next NUM_FRAC_START c = (if \<not> is_digit c then Num_error else Num_to NUM_FRAC_DIGITS)"
| "num_next NUM_FRAC_DIGITS c =
     (if is_digit c then Num_to NUM_FRAC_DIGITS
      else if c = CHR ''e'' \<or> c = CHR ''E'' then Num_to NUM_EXP_START
      else Num_end)"
| "num_next NUM_EXP_START c =
     (if c = CHR ''+'' \<or> c = CHR ''-'' then Num_to NUM_EXP_SIGN
      else if is_digit c then Num_to NUM_EXP_DIGITS
      else Num_error)"
| "num_next NUM_EXP_SIGN c = (if \<not> is_digit c then Num_error else Num_to NUM_EXP_DIGITS)"
| "num_next NUM_EXP_DIGITS c = (if is_digit c then Num_to NUM_EXP_DIGITS else Num_end)"

fun scan_number :: "'k scan_state_t \<Rightarrow> string \<Rightarrow> 'k scan_result" where
  "scan_number s [] = (BB_OK, s, [], False)"
| "scan_number s (c # cs) =
     (case num_next (sc_num_phase s) c of
        Num_error \<Rightarrow> (BB_ERR_PARSE_GRAMMAR, s, c # cs, False)
      | Num_end \<Rightarrow> (BB_OK, s, c # cs, True)
      | Num_to p \<Rightarrow>
          (case scratch_append s [c] of
             (rc, s1) \<Rightarrow> if rc \<noteq> BB_OK then (rc, s1, c # cs, False) else scan_number (s1\<lparr>sc_num_phase := p\<rparr>) cs))"

definition num_phase_is_terminal :: "num_phase_t \<Rightarrow> bool" where
  "num_phase_is_terminal p \<longleftrightarrow> p = NUM_INT_DIGITS \<or> p = NUM_FRAC_DIGITS \<or> p = NUM_EXP_DIGITS"

definition finalize_number :: "'k bb_serialize_json_ingest_t \<Rightarrow> 'k scan_state_t \<Rightarrow> bb_err_t \<times> 'k scan_state_t" where
  "finalize_number sk s =
     (case sink_call (\<lambda>k. in_value_num sk k (cur_key s) (drop (sc_key_len s) (sc_scratch s))) s of
        (rc, s1) \<Rightarrow> if rc \<noteq> BB_OK then (rc, s1) else (BB_OK, s1\<lparr>sc_phase := after_value_phase s1\<rparr>))"

section \<open>Literals\<close>

fun lit_text :: "lit_kind_t \<Rightarrow> string" where
  "lit_text LIT_TRUE = ''true''"
| "lit_text LIT_FALSE = ''false''"
| "lit_text LIT_NULL = ''null''"

fun scan_literal :: "'k scan_state_t \<Rightarrow> string \<Rightarrow> 'k scan_result" where
  "scan_literal s [] = (BB_OK, s, [], False)"
| "scan_literal s (c # cs) =
     (if c \<noteq> lit_text (sc_lit_kind s) ! sc_lit_matched s then (BB_ERR_PARSE_GRAMMAR, s, c # cs, False)
      else
        let s1 = s\<lparr>sc_lit_matched := sc_lit_matched s + 1\<rparr> in
        if sc_lit_matched s1 = length (lit_text (sc_lit_kind s)) then (BB_OK, s1, cs, True)
        else scan_literal s1 cs)"

definition emit_literal :: "'k bb_serialize_json_ingest_t \<Rightarrow> 'k scan_state_t \<Rightarrow> bb_err_t \<times> 'k scan_state_t" where
  "emit_literal sk s =
     (if sc_lit_kind s = LIT_NULL then sink_call (\<lambda>k. in_value_null sk k (cur_key s)) s
      else sink_call (\<lambda>k. in_value_bool sk k (cur_key s) (sc_lit_kind s = LIT_TRUE)) s)"

section \<open>Containers and the start of a value\<close>

definition close_container :: "'k bb_serialize_json_ingest_t \<Rightarrow> 'k scan_state_t \<Rightarrow> bb_err_t \<times> 'k scan_state_t" where
  "close_container sk s =
     (let is_arr = sc_obj_stack s ! (sc_depth s - 1);
          s = s\<lparr>sc_depth := sc_depth s - 1\<rparr>
      in case sink_call (if is_arr then in_end_arr sk else in_end_obj sk) s of
           (rc, s1) \<Rightarrow> if rc \<noteq> BB_OK then (rc, s1) else (BB_OK, s1\<lparr>sc_phase := after_value_phase s1\<rparr>))"

definition open_container ::
  "('k \<Rightarrow> json_key \<Rightarrow> bb_err_t \<times> 'k) \<Rightarrow> bool \<Rightarrow> phase_t \<Rightarrow> 'k scan_state_t \<Rightarrow> bb_err_t \<times> 'k scan_state_t"
where
  "open_container begin_fn is_arr ph s =
     (if sc_depth s \<ge> BB_SERIALIZE_MAX_DEPTH then (BB_ERR_NO_SPACE, s)
      else case sink_call (\<lambda>k. begin_fn k (cur_key s)) s of
             (rc, s1) \<Rightarrow>
               if rc \<noteq> BB_OK then (rc, s1)
               else (BB_OK, s1\<lparr>sc_obj_stack := (sc_obj_stack s1)[sc_depth s1 := is_arr], sc_depth := sc_depth s1 + 1,
                               sc_phase := ph\<rparr>))"

definition start_number :: "num_phase_t \<Rightarrow> char \<Rightarrow> 'k scan_state_t \<Rightarrow> bb_err_t \<times> 'k scan_state_t" where
  "start_number np c s =
     (case scratch_append s [c] of
        (rc, s1) \<Rightarrow> if rc \<noteq> BB_OK then (rc, s1) else (BB_OK, s1\<lparr>sc_num_phase := np, sc_phase := PH_VAL_NUM\<rparr>))"

definition start_literal :: "lit_kind_t \<Rightarrow> 'k scan_state_t \<Rightarrow> bb_err_t \<times> 'k scan_state_t" where
  "start_literal k s = (BB_OK, s\<lparr>sc_lit_kind := k, sc_lit_matched := 1, sc_phase := PH_VAL_LIT\<rparr>)"

text \<open>The first byte of a value; it is consumed unless the result is an error.\<close>

definition dispatch_value_start ::
  "'k bb_serialize_json_ingest_t \<Rightarrow> 'k scan_state_t \<Rightarrow> char \<Rightarrow> bool \<Rightarrow> bb_err_t \<times> 'k scan_state_t"
where
  "dispatch_value_start sk s c keyed =
     (let s = (if \<not> keyed then s\<lparr>sc_key_len := 0, sc_scratch := []\<rparr> else s) in
      if c = CHR 0x22 then (BB_OK, s\<lparr>sc_esc_phase := ESC_NONE, sc_phase := PH_VAL_STR\<rparr>)
      else if c = CHR ''{'' then open_container (in_begin_obj sk) False PH_OBJ_KEY_OR_CLOSE s
      else if c = CHR ''['' then open_container (in_begin_arr sk) True PH_ARR_ELEM_OR_CLOSE s
      else if c = CHR ''-'' then start_number NUM_START c s
      else if is_digit c then start_number NUM_INT_DIGITS c s
      else if c = CHR ''t'' then start_literal LIT_TRUE s
      else if c = CHR ''f'' then start_literal LIT_FALSE s
      else if c = CHR ''n'' then start_literal LIT_NULL s
      else (BB_ERR_PARSE_GRAMMAR, s))"

section \<open>The main loop\<close>

text \<open>One turn of the loop: it ends, or goes on with a state and what is left of the chunk.\<close>

datatype 'k drive_turn = Stop bb_err_t "'k scan_state_t" | Next "'k scan_state_t" string

definition go :: "bb_err_t \<times> 'k scan_state_t \<Rightarrow> string \<Rightarrow> 'k drive_turn" where
  "go r cs = (case r of (rc, s) \<Rightarrow> if rc \<noteq> BB_OK then Stop rc s else Next s cs)"

definition after_ws :: "'k scan_state_t \<Rightarrow> string \<Rightarrow> (char \<Rightarrow> string \<Rightarrow> 'k drive_turn) \<Rightarrow> 'k drive_turn" where
  "after_ws s cs f = (case skip_ws cs of [] \<Rightarrow> Stop BB_OK s | c # rest \<Rightarrow> f c rest)"

definition begin_key :: "'k scan_state_t \<Rightarrow> 'k scan_state_t" where
  "begin_key s = s\<lparr>sc_scratch := [], sc_key_len := 0, sc_esc_phase := ESC_NONE, sc_phase := PH_KEY_STR\<rparr>"

definition drive_body :: "'k bb_serialize_json_ingest_t \<Rightarrow> nat \<Rightarrow> 'k scan_state_t \<Rightarrow> string \<Rightarrow> 'k drive_turn" where
  "drive_body sk len s cs =
     (case sc_phase s of
        PH_ROOT \<Rightarrow> after_ws s cs (\<lambda>c rest. go (dispatch_value_start sk s c False) rest)
      | PH_AFTER_ROOT \<Rightarrow> after_ws s cs (\<lambda>c rest. Stop BB_ERR_PARSE_GRAMMAR s)
      | PH_OBJ_KEY_OR_CLOSE \<Rightarrow> after_ws s cs (\<lambda>c rest.
          if c = CHR ''}'' then go (close_container sk s) rest
          else if c \<noteq> CHR 0x22 then Stop BB_ERR_PARSE_GRAMMAR s else Next (begin_key s) rest)
      | PH_OBJ_KEY_ONLY \<Rightarrow> after_ws s cs (\<lambda>c rest.
          if c \<noteq> CHR 0x22 then Stop BB_ERR_PARSE_GRAMMAR s else Next (begin_key s) rest)
      | PH_KEY_STR \<Rightarrow>
          (case scan_string sk len True s cs of
             (rc, s1, rest, closed) \<Rightarrow>
               if rc \<noteq> BB_OK then Stop rc s1
               else if \<not> closed then Stop BB_OK s1
               else Next (s1\<lparr>sc_key_len := length (sc_scratch s1), sc_phase := PH_OBJ_COLON\<rparr>) rest)
      | PH_OBJ_COLON \<Rightarrow> after_ws s cs (\<lambda>c rest.
          if c \<noteq> CHR '':'' then Stop BB_ERR_PARSE_GRAMMAR s else Next (s\<lparr>sc_phase := PH_OBJ_VALUE\<rparr>) rest)
      | PH_OBJ_VALUE \<Rightarrow> after_ws s cs (\<lambda>c rest. go (dispatch_value_start sk s c True) rest)
      | PH_OBJ_AFTER_VALUE \<Rightarrow> after_ws s cs (\<lambda>c rest.
          if c = CHR '','' then Next (s\<lparr>sc_phase := PH_OBJ_KEY_ONLY\<rparr>) rest
          else if c = CHR ''}'' then go (close_container sk s) rest
          else Stop BB_ERR_PARSE_GRAMMAR s)
      | PH_ARR_ELEM_OR_CLOSE \<Rightarrow> after_ws s cs (\<lambda>c rest.
          if c = CHR '']'' then go (close_container sk s) rest
          else go (dispatch_value_start sk s c False) rest)
      | PH_ARR_ELEM_ONLY \<Rightarrow> after_ws s cs (\<lambda>c rest. go (dispatch_value_start sk s c False) rest)
      | PH_ARR_AFTER_VALUE \<Rightarrow> after_ws s cs (\<lambda>c rest.
          if c = CHR '','' then Next (s\<lparr>sc_phase := PH_ARR_ELEM_ONLY\<rparr>) rest
          else if c = CHR '']'' then go (close_container sk s) rest
          else Stop BB_ERR_PARSE_GRAMMAR s)
      | PH_VAL_STR \<Rightarrow>
          (case scan_string sk len False s cs of
             (rc, s1, rest, closed) \<Rightarrow>
               if rc \<noteq> BB_OK then Stop rc s1
               else if \<not> closed then Stop BB_OK s1
               else Next (s1\<lparr>sc_phase := after_value_phase s1\<rparr>) rest)
      | PH_VAL_NUM \<Rightarrow>
          (case scan_number s cs of
             (rc, s1, rest, finished) \<Rightarrow>
               if rc \<noteq> BB_OK then Stop rc s1
               else if \<not> finished then Stop BB_OK s1
               else go (finalize_number sk s1) rest)
      | PH_VAL_LIT \<Rightarrow>
          (case scan_literal s cs of
             (rc, s1, rest, finished) \<Rightarrow>
               if rc \<noteq> BB_OK then Stop rc s1
               else if \<not> finished then Stop BB_OK s1
               else (case emit_literal sk s1 of
                       (rc, s2) \<Rightarrow> if rc \<noteq> BB_OK then Stop rc s2 else Next (s2\<lparr>sc_phase := after_value_phase s2\<rparr>) rest)))"

text \<open>Every turn that goes on has consumed a byte, or has ended a number.\<close>

lemma skip_ws_length: "skip_ws cs = c # rest \<Longrightarrow> length rest < length cs"
  unfolding skip_ws_def by (metis Suc_le_lessD length_Cons length_dropWhile_le)

lemma scan_string_shorter: "scan_string sk len is_key s cs = (BB_OK, s', rest, True) \<Longrightarrow> length rest < length cs"
proof (induction sk len is_key s cs arbitrary: s' rest rule: scan_string.induct)
  case (1 sk len is_key s cs)
  show ?case
  proof (cases cs)
    case Nil
    then show ?thesis using "1.prems" by (simp add: scan_string.simps)
  next
    case (Cons c cs1)
    show ?thesis
    proof (cases "sc_esc_phase s \<noteq> ESC_NONE")
      case True
      then show ?thesis using "1.prems" "1.IH"(1,2) Cons
        by (subst (asm) scan_string.simps) (fastforce split: prod.splits if_splits simp: neq_Nil_conv)
    next
      case False
      then show ?thesis using "1.prems" "1.IH"(3,4) Cons
        by (subst (asm) scan_string.simps)
          (fastforce split: prod.splits if_splits option.splits list.splits dest: scan_run_shorter simp del: scan_run.simps simp: Let_def)
    qed
  qed
qed

lemma scan_number_length: "scan_number s cs = (rc, s', rest, fin) \<Longrightarrow> length rest \<le> length cs"
  by (induction s cs arbitrary: s' rest rule: scan_number.induct)
    (fastforce split: num_step.splits prod.splits if_splits)+

lemma scan_literal_shorter: "scan_literal s cs = (BB_OK, s', rest, True) \<Longrightarrow> length rest < length cs"
  by (induction s cs arbitrary: s' rest rule: scan_literal.induct) (fastforce simp: Let_def split: if_splits)+

lemma after_value_not_num: "after_value_phase s \<noteq> PH_VAL_NUM"
  by (simp add: after_value_phase_def)

definition drive_rank :: "'k scan_state_t \<Rightarrow> string \<Rightarrow> nat" where
  "drive_rank s cs = 2 * length cs + (if sc_phase s = PH_VAL_NUM then 1 else 0)"

lemma rank_less: "length rest < length cs \<Longrightarrow> drive_rank s' rest < drive_rank s cs"
  by (simp add: drive_rank_def)

lemma rank_number: "length rest \<le> length cs \<Longrightarrow> sc_phase s' \<noteq> PH_VAL_NUM \<Longrightarrow> sc_phase s = PH_VAL_NUM \<Longrightarrow>
  drive_rank s' rest < drive_rank s cs"
  by (simp add: drive_rank_def)

lemma go_Next: "go r cs = Next s' cs' \<longleftrightarrow> r = (BB_OK, s') \<and> cs' = cs"
  by (auto simp: go_def split: prod.splits)

lemma after_ws_Next: "after_ws s cs f = Next s' cs' \<longleftrightarrow> (\<exists>c rest. skip_ws cs = c # rest \<and> f c rest = Next s' cs')"
  by (auto simp: after_ws_def split: list.splits)

lemma drive_body_decreases: "drive_body sk len s cs = Next s' cs' \<Longrightarrow> drive_rank s' cs' < drive_rank s cs"
proof (cases "sc_phase s")
  case PH_VAL_NUM
  assume "drive_body sk len s cs = Next s' cs'"
  then obtain s1 where n: "scan_number s cs = (BB_OK, s1, cs', True)" and f: "finalize_number sk s1 = (BB_OK, s')"
    using PH_VAL_NUM by (auto simp: drive_body_def go_Next split: prod.splits if_splits)
  have "sc_phase s' = after_value_phase s'"
    using f by (auto simp: finalize_number_def after_value_phase_def split: prod.splits if_splits)
  then show ?thesis using rank_number [OF scan_number_length [OF n]] after_value_not_num PH_VAL_NUM by metis
qed (auto simp: drive_body_def go_Next after_ws_Next emit_literal_def intro!: rank_less
    dest: skip_ws_length scan_string_shorter scan_literal_shorter split: prod.splits if_splits)

function drive :: "'k bb_serialize_json_ingest_t \<Rightarrow> nat \<Rightarrow> 'k scan_state_t \<Rightarrow> string \<Rightarrow> bb_err_t \<times> 'k scan_state_t" where
  "drive sk len s cs =
     (case cs of
        [] \<Rightarrow> (BB_OK, s)
      | c # rest \<Rightarrow>
          (case drive_body sk len s cs of
             Stop rc s' \<Rightarrow> (rc, s')
           | Next s' cs' \<Rightarrow> drive sk len s' cs'))"
  by pat_completeness auto
termination
  by (relation "measure (\<lambda>(sk, len, s, cs). drive_rank s cs)") (auto intro: drive_body_decreases)

declare drive.simps [simp del]

section \<open>Public functions\<close>

text \<open>\<^verbatim>\<open>memset\<close> to zero.\<close>

definition scan_zero :: "'k \<Rightarrow> bool \<Rightarrow> 'k scan_state_t" where
  "scan_zero ctx bounded =
     \<lparr>sc_ctx = ctx, sc_phase = PH_ROOT, sc_err = BB_OK, sc_bounded_mode = bounded,
      sc_obj_stack = replicate BB_SERIALIZE_MAX_DEPTH False, sc_depth = 0, sc_scratch = [], sc_key_len = 0,
      sc_num_phase = NUM_START, sc_lit_kind = LIT_TRUE, sc_lit_matched = 0, sc_esc_phase = ESC_NONE,
      sc_esc_code_unit = 0, sc_esc_high_surrogate = 0\<rparr>"

definition scan_begin_internal :: "'k \<Rightarrow> bool \<Rightarrow> bb_err_t \<times> 'k scan_state_t" where
  "scan_begin_internal ctx bounded = (BB_OK, scan_zero ctx bounded)"

definition bb_serialize_json_scan_begin :: "'k \<Rightarrow> bb_err_t \<times> 'k scan_state_t" where
  "bb_serialize_json_scan_begin ctx = scan_begin_internal ctx False"

definition bb_serialize_json_scan_feed ::
  "'k bb_serialize_json_ingest_t \<Rightarrow> 'k scan_state_t \<Rightarrow> string \<Rightarrow> bb_err_t \<times> 'k scan_state_t"
where
  "bb_serialize_json_scan_feed sk s chunk =
     (if sc_err s \<noteq> BB_OK then (sc_err s, s)
      else (case drive sk (length chunk) s chunk of
              (rc, s1) \<Rightarrow> if rc \<noteq> BB_OK then (rc, s1\<lparr>sc_err := rc\<rparr>) else (rc, s1)))"

definition bb_serialize_json_scan_end :: "'k bb_serialize_json_ingest_t \<Rightarrow> 'k scan_state_t \<Rightarrow> bb_err_t \<times> 'k scan_state_t" where
  "bb_serialize_json_scan_end sk s =
     (if sc_err s \<noteq> BB_OK then (sc_err s, s)
      else
        (case (if sc_phase s = PH_VAL_NUM then
                 (if \<not> num_phase_is_terminal (sc_num_phase s) then (BB_ERR_PARSE_INCOMPLETE, s) else finalize_number sk s)
               else (BB_OK, s)) of
           (rc, s1) \<Rightarrow>
             if rc \<noteq> BB_OK then (rc, s1\<lparr>sc_err := rc\<rparr>)
             else if sc_phase s1 \<noteq> PH_AFTER_ROOT then (BB_ERR_PARSE_INCOMPLETE, s1\<lparr>sc_err := BB_ERR_PARSE_INCOMPLETE\<rparr>)
             else (BB_OK, s1)))"

definition bb_serialize_json_scan_bounded ::
  "'k bb_serialize_json_ingest_t \<Rightarrow> 'k \<Rightarrow> string \<Rightarrow> bb_err_t \<times> 'k"
where
  "bb_serialize_json_scan_bounded sk ctx buf =
     (case scan_begin_internal ctx True of
        (rc, s) \<Rightarrow>
          if rc \<noteq> BB_OK then (rc, ctx)
          else (case bb_serialize_json_scan_feed sk s buf of
                  (rc, s1) \<Rightarrow>
                    if rc \<noteq> BB_OK then (rc, sc_ctx s1)
                    else (case bb_serialize_json_scan_end sk s1 of (rc, s2) \<Rightarrow> (rc, sc_ctx s2))))"

end
