(* ===== verification/BB_JSON_Chunks.thy ===== *)
theory BB_JSON_Chunks
  imports BB_JSON_Scan
begin

text \<open>
  Chunk boundaries do not matter to the scanner: for a sink that takes a string in any pieces, feeding a document
  chunk by chunk is feeding it byte by byte, and the bounded entry point is one more way of cutting it. Results are
  compared up to the kind of a hard error: a longer span may be refused as a whole where its first bytes were taken.
\<close>

section \<open>Results\<close>

definition and_then :: "bb_err_t \<times> 'a \<Rightarrow> ('a \<Rightarrow> bb_err_t \<times> 'a) \<Rightarrow> bb_err_t \<times> 'a" where
  "and_then r f = (case r of (rc, x) \<Rightarrow> if rc \<noteq> BB_OK then (rc, x) else f x)"

definition same :: "(bb_err_t \<Rightarrow> bool) \<Rightarrow> bb_err_t \<times> 'a \<Rightarrow> bb_err_t \<times> 'a \<Rightarrow> bool" where
  "same hard r q \<longleftrightarrow> r = q \<or> (hard (fst r) \<and> hard (fst q))"

lemma and_then_simps [simp]:
  "and_then (BB_OK, x) f = f x"
  "rc \<noteq> BB_OK \<Longrightarrow> and_then (rc, x) f = (rc, x)"
  by (simp_all add: and_then_def)

lemma and_then_if: "and_then (rc, x) f = (if rc \<noteq> BB_OK then (rc, x) else f x)"
  by (simp add: and_then_def)

lemma and_then_assoc: "and_then (and_then r f) g = and_then r (\<lambda>x. and_then (f x) g)"
  by (simp add: and_then_def split: prod.splits)

lemma and_then_ok: "and_then r (\<lambda>x. (BB_OK, x)) = r"
  by (cases r) (simp add: and_then_def)

lemma same_refl [simp, intro]: "same hard r r"
  by (simp add: same_def)

lemma same_sym: "same hard r q \<Longrightarrow> same hard q r"
  by (auto simp: same_def)

lemma same_trans [trans]: "same hard r q \<Longrightarrow> same hard q t \<Longrightarrow> same hard r t"
  by (auto simp: same_def)

lemma same_ok: "same hard r (BB_OK, x) \<Longrightarrow> \<not> hard BB_OK \<Longrightarrow> r = (BB_OK, x)"
  by (auto simp: same_def)

lemma same_and_then:
  assumes "same hard r q" and "\<And>x. r = (BB_OK, x) \<Longrightarrow> same hard (f x) (g x)" and "\<not> hard BB_OK"
  shows "same hard (and_then r f) (and_then q g)"
  using assms by (cases r; cases q) (auto simp: same_def and_then_if)

section \<open>The loop, phase by phase\<close>

text \<open>In the phases that skip blanks, one byte decides.\<close>

definition token_phase :: "phase_t \<Rightarrow> bool" where
  "token_phase p \<longleftrightarrow> p \<notin> {PH_KEY_STR, PH_VAL_STR, PH_VAL_NUM, PH_VAL_LIT}"

definition token_step :: "'k bb_serialize_json_ingest_t \<Rightarrow> 'k scan_state_t \<Rightarrow> char \<Rightarrow> bb_err_t \<times> 'k scan_state_t" where
  "token_step sk s c =
     (case sc_phase s of
        PH_AFTER_ROOT \<Rightarrow> (BB_ERR_PARSE_GRAMMAR, s)
      | PH_OBJ_KEY_OR_CLOSE \<Rightarrow>
          if c = CHR ''}'' then close_container sk s
          else if c \<noteq> CHR 0x22 then (BB_ERR_PARSE_GRAMMAR, s) else (BB_OK, begin_key s)
      | PH_OBJ_KEY_ONLY \<Rightarrow> if c \<noteq> CHR 0x22 then (BB_ERR_PARSE_GRAMMAR, s) else (BB_OK, begin_key s)
      | PH_OBJ_COLON \<Rightarrow>
          if c \<noteq> CHR '':'' then (BB_ERR_PARSE_GRAMMAR, s) else (BB_OK, s\<lparr>sc_phase := PH_OBJ_VALUE\<rparr>)
      | PH_OBJ_VALUE \<Rightarrow> dispatch_value_start sk s c True
      | PH_OBJ_AFTER_VALUE \<Rightarrow>
          if c = CHR '','' then (BB_OK, s\<lparr>sc_phase := PH_OBJ_KEY_ONLY\<rparr>)
          else if c = CHR ''}'' then close_container sk s else (BB_ERR_PARSE_GRAMMAR, s)
      | PH_ARR_ELEM_OR_CLOSE \<Rightarrow> if c = CHR '']'' then close_container sk s else dispatch_value_start sk s c False
      | PH_ARR_AFTER_VALUE \<Rightarrow>
          if c = CHR '','' then (BB_OK, s\<lparr>sc_phase := PH_ARR_ELEM_ONLY\<rparr>)
          else if c = CHR '']'' then close_container sk s else (BB_ERR_PARSE_GRAMMAR, s)
      | _ \<Rightarrow> dispatch_value_start sk s c False)"

lemma go_case: "(case go r cs of Stop rc s' \<Rightarrow> (rc, s') | Next s' cs' \<Rightarrow> drive sk len s' cs') = and_then r (\<lambda>s'. drive sk len s' cs)"
  by (simp add: go_def and_then_def split: prod.splits)

lemma drive_body_token:
  "token_phase (sc_phase s) \<Longrightarrow> drive_body sk len s cs = after_ws s cs (\<lambda>c rest. go (token_step sk s c) rest)"
  by (cases "sc_phase s")
    (auto simp: token_phase_def drive_body_def token_step_def after_ws_def go_def split: list.splits prod.splits)

lemma drive_token:
  assumes "token_phase (sc_phase s)"
  shows "drive sk len s cs =
    (case skip_ws cs of [] \<Rightarrow> (BB_OK, s) | c # rest \<Rightarrow> and_then (token_step sk s c) (\<lambda>s'. drive sk len s' rest))"
proof (cases cs)
  case Nil
  then show ?thesis by (simp add: drive.simps skip_ws_def)
next
  case (Cons c cs1)
  then show ?thesis
    by (subst drive.simps) (simp add: drive_body_token [OF assms] after_ws_def go_case split: list.splits)
qed

lemma drive_nil: "drive sk len s [] = (BB_OK, s)"
  by (simp add: drive.simps)

lemma drive_num:
  assumes "sc_phase s = PH_VAL_NUM"
  shows "drive sk len s (c # cs) =
    (case num_next (sc_num_phase s) c of
       Num_error \<Rightarrow> (BB_ERR_PARSE_GRAMMAR, s)
     | Num_end \<Rightarrow> and_then (finalize_number sk s) (\<lambda>s'. drive sk len s' (c # cs))
     | Num_to p \<Rightarrow> and_then (scratch_append s [c]) (\<lambda>s1. drive sk len (s1\<lparr>sc_num_phase := p\<rparr>) cs))"
proof -
  have all: "drive sk len s' ds = (case scan_number s' ds of (rc, s1, rest, fin) \<Rightarrow>
      if rc \<noteq> BB_OK then (rc, s1) else if \<not> fin then (BB_OK, s1)
      else and_then (finalize_number sk s1) (\<lambda>s2. drive sk len s2 rest))"
    if "sc_phase s' = PH_VAL_NUM" for s' ds
    using that by (cases ds) (simp_all add: drive.simps [of sk len s'] drive_body_def go_case split: prod.splits)
  have ph: "sc_phase (s1\<lparr>sc_num_phase := p\<rparr>) = PH_VAL_NUM" if "scratch_append s [c] = (rc, s1)" for rc s1 p
    using that assms by (auto simp: scratch_append_def split: if_splits)
  show ?thesis unfolding all [OF assms]
    by (auto simp: and_then_if all [OF ph] split: num_step.splits prod.splits)
qed

lemma drive_lit:
  assumes "sc_phase s = PH_VAL_LIT"
  shows "drive sk len s (c # cs) =
    (if c \<noteq> lit_text (sc_lit_kind s) ! sc_lit_matched s then (BB_ERR_PARSE_GRAMMAR, s)
     else let s1 = s\<lparr>sc_lit_matched := sc_lit_matched s + 1\<rparr> in
       if sc_lit_matched s1 = length (lit_text (sc_lit_kind s)) then
         and_then (emit_literal sk s1) (\<lambda>s2. drive sk len (s2\<lparr>sc_phase := after_value_phase s2\<rparr>) cs)
       else drive sk len s1 cs)"
proof -
  have all: "drive sk len s' ds = (case scan_literal s' ds of (rc, s1, rest, fin) \<Rightarrow>
      if rc \<noteq> BB_OK then (rc, s1) else if \<not> fin then (BB_OK, s1)
      else and_then (emit_literal sk s1) (\<lambda>s2. drive sk len (s2\<lparr>sc_phase := after_value_phase s2\<rparr>) rest))"
    if "sc_phase s' = PH_VAL_LIT" for s' ds
    using that by (cases ds) (simp_all add: drive.simps [of sk len s'] drive_body_def and_then_def split: prod.splits)
  have ph: "sc_phase (s\<lparr>sc_lit_matched := n\<rparr>) = PH_VAL_LIT" for n using assms by simp
  show ?thesis unfolding all [OF assms] by (simp add: Let_def all [OF ph])
qed

section \<open>What the loop carries along\<close>

text \<open>The mode of the entry point and the sticky error are not changed by the loop, and show only in the
  provenance of spans.\<close>

type_synonym carried = "bool \<times> bb_err_t"

definition set_mode :: "carried \<Rightarrow> 'k scan_state_t \<Rightarrow> 'k scan_state_t" where
  "set_mode b s = s\<lparr>sc_bounded_mode := fst b, sc_err := snd b\<rparr>"

definition in_mode :: "carried \<Rightarrow> bb_err_t \<times> 'k scan_state_t \<Rightarrow> bb_err_t \<times> 'k scan_state_t" where
  "in_mode b r = (fst r, set_mode b (snd r))"

lemma in_mode_and_then:
  "(\<And>x. r = (BB_OK, x) \<Longrightarrow> f (set_mode b x) = in_mode b (g x)) \<Longrightarrow> and_then (in_mode b r) f = in_mode b (and_then r g)"
  by (cases r) (auto simp: in_mode_def and_then_if)

lemma set_mode_fields [simp]:
  "sc_ctx (set_mode b s) = sc_ctx s" "sc_phase (set_mode b s) = sc_phase s"
  "sc_obj_stack (set_mode b s) = sc_obj_stack s" "sc_depth (set_mode b s) = sc_depth s"
  "sc_scratch (set_mode b s) = sc_scratch s" "sc_key_len (set_mode b s) = sc_key_len s"
  "sc_num_phase (set_mode b s) = sc_num_phase s" "sc_lit_kind (set_mode b s) = sc_lit_kind s"
  "sc_lit_matched (set_mode b s) = sc_lit_matched s" "sc_esc_phase (set_mode b s) = sc_esc_phase s"
  "sc_esc_code_unit (set_mode b s) = sc_esc_code_unit s"
  "sc_esc_high_surrogate (set_mode b s) = sc_esc_high_surrogate s"
  "after_value_phase (set_mode b s) = after_value_phase s" "cur_key (set_mode b s) = cur_key s"
  by (simp_all add: set_mode_def after_value_phase_def cur_key_def)

lemma set_mode_updates [simp]:
  "(set_mode b s)\<lparr>sc_ctx := x1\<rparr> = set_mode b (s\<lparr>sc_ctx := x1\<rparr>)"
  "(set_mode b s)\<lparr>sc_phase := x2\<rparr> = set_mode b (s\<lparr>sc_phase := x2\<rparr>)"
  "(set_mode b s)\<lparr>sc_obj_stack := x4\<rparr> = set_mode b (s\<lparr>sc_obj_stack := x4\<rparr>)"
  "(set_mode b s)\<lparr>sc_depth := x5\<rparr> = set_mode b (s\<lparr>sc_depth := x5\<rparr>)"
  "(set_mode b s)\<lparr>sc_scratch := x6\<rparr> = set_mode b (s\<lparr>sc_scratch := x6\<rparr>)"
  "(set_mode b s)\<lparr>sc_key_len := x7\<rparr> = set_mode b (s\<lparr>sc_key_len := x7\<rparr>)"
  "(set_mode b s)\<lparr>sc_num_phase := x8\<rparr> = set_mode b (s\<lparr>sc_num_phase := x8\<rparr>)"
  "(set_mode b s)\<lparr>sc_lit_kind := x9\<rparr> = set_mode b (s\<lparr>sc_lit_kind := x9\<rparr>)"
  "(set_mode b s)\<lparr>sc_lit_matched := x10\<rparr> = set_mode b (s\<lparr>sc_lit_matched := x10\<rparr>)"
  "(set_mode b s)\<lparr>sc_esc_phase := x11\<rparr> = set_mode b (s\<lparr>sc_esc_phase := x11\<rparr>)"
  "(set_mode b s)\<lparr>sc_esc_code_unit := x12\<rparr> = set_mode b (s\<lparr>sc_esc_code_unit := x12\<rparr>)"
  "(set_mode b s)\<lparr>sc_esc_high_surrogate := x13\<rparr> = set_mode b (s\<lparr>sc_esc_high_surrogate := x13\<rparr>)"
  by (simp_all add: set_mode_def)

lemma in_mode_pair [simp]: "in_mode b (rc, s) = (rc, set_mode b s)"
  by (simp add: in_mode_def)

lemma in_mode_if [simp]: "in_mode b (if P then r else q) = (if P then in_mode b r else in_mode b q)"
  by simp

lemma sink_call_mode [simp]: "sink_call f (set_mode b s) = in_mode b (sink_call f s)"
  by (simp add: sink_call_def split: prod.splits)

lemma scratch_append_mode [simp]: "scratch_append (set_mode b s) d = in_mode b (scratch_append s d)"
  by (simp add: scratch_append_def)

lemma scan_escape_byte_mode:
  "scan_escape_byte (set_mode b s) c = (case scan_escape_byte s c of (rc, s', d) \<Rightarrow> (rc, set_mode b s', d))"
  by (cases "sc_esc_phase s") (simp_all add: scan_escape_byte_def Let_def split: option.splits)

lemma finalize_number_mode: "finalize_number sk (set_mode b s) = in_mode b (finalize_number sk s)"
  by (simp add: finalize_number_def split: prod.splits)

lemma emit_literal_mode: "emit_literal sk (set_mode b s) = in_mode b (emit_literal sk s)"
  by (simp add: emit_literal_def)

lemma close_container_mode: "close_container sk (set_mode b s) = in_mode b (close_container sk s)"
  by (simp add: close_container_def Let_def split: prod.splits)

lemma open_container_mode: "open_container f is_arr ph (set_mode b s) = in_mode b (open_container f is_arr ph s)"
  by (simp add: open_container_def split: prod.splits)

lemma start_number_mode: "start_number np c (set_mode b s) = in_mode b (start_number np c s)"
  by (simp add: start_number_def split: prod.splits)

lemma dispatch_mode: "dispatch_value_start sk (set_mode b s) c keyed = in_mode b (dispatch_value_start sk s c keyed)"
  by (simp add: dispatch_value_start_def Let_def open_container_mode start_number_mode start_literal_def)

lemma begin_key_mode: "begin_key (set_mode b s) = set_mode b (begin_key s)"
  by (simp add: begin_key_def)

lemma token_step_mode: "token_step sk (set_mode b s) c = in_mode b (token_step sk s c)"
  by (cases "sc_phase s") (simp_all add: token_step_def close_container_mode dispatch_mode begin_key_mode)

section \<open>Sinks that take a string in any pieces\<close>

locale span_sink =
  fixes sk :: "'k bb_serialize_json_ingest_t" and hard :: "bb_err_t \<Rightarrow> bool"
  assumes place_free: "in_value_str_chunk sk k key p d fin prov = in_value_str_chunk sk k key None d fin SPAN_SCANNER_SCRATCH"
    and hard_codes: "\<not> hard BB_OK" "hard BB_ERR_PARSE_GRAMMAR" "hard BB_ERR_NO_SPACE"
    and open_chunk: "in_value_str_chunk sk k key p d False prov = (rc, k') \<Longrightarrow> rc = BB_OK \<or> hard rc"
    and split_chunk: "same hard (in_value_str_chunk sk k key p (a @ b) fin prov)
      (and_then (in_value_str_chunk sk k key p a False prov) (\<lambda>k'. in_value_str_chunk sk k' key p b fin prov))"
begin

definition emit :: "bool \<Rightarrow> 'k scan_state_t \<Rightarrow> string \<Rightarrow> bool \<Rightarrow> bb_err_t \<times> 'k scan_state_t" where
  "emit is_key s d fin = emit_str_bytes sk s None d fin is_key SPAN_SCANNER_SCRATCH"

lemma emit_any: "emit_str_bytes sk s p d fin is_key prov = emit is_key s d fin"
  using place_free [of "sc_ctx s" "cur_key s" p d fin prov] by (simp add: emit_def emit_str_bytes_def sink_call_def)

lemma emit_frame:
  assumes "emit is_key s d fin = (rc, s')"
  shows "sc_phase s' = sc_phase s" "sc_esc_phase s' = sc_esc_phase s" "sc_bounded_mode s' = sc_bounded_mode s"
  using assms by (auto simp: emit_def emit_str_bytes_def scratch_append_def sink_call_def split: if_splits prod.splits)

lemma emit_split:
  "same hard (emit is_key s (a @ b) fin) (and_then (emit is_key s a False) (\<lambda>s'. emit is_key s' b fin))"
proof (cases is_key)
  case True
  then show ?thesis
    by (auto simp: emit_def emit_str_bytes_def scratch_append_def same_def and_then_if hard_codes)
next
  case False
  obtain rc k1 where a: "in_value_str_chunk sk (sc_ctx s) (cur_key s) None a False SPAN_SCANNER_SCRATCH = (rc, k1)"
    by fastforce
  have key: "cur_key (s\<lparr>sc_ctx := k\<rparr>) = cur_key s" for k by (simp add: cur_key_def)
  show ?thesis
    using split_chunk [of "sc_ctx s" "cur_key s" None a b fin SPAN_SCANNER_SCRATCH] False
    by (auto simp: emit_def emit_str_bytes_def sink_call_def same_def and_then_if a key split: prod.splits)
qed

lemma emit_open: "emit is_key s d False = (rc, s') \<Longrightarrow> rc = BB_OK \<or> hard rc"
  by (auto simp: emit_def emit_str_bytes_def scratch_append_def sink_call_def hard_codes dest: open_chunk
      split: if_splits prod.splits)

lemma emit_final: "same hard (emit is_key s d True) (and_then (emit is_key s d False) (\<lambda>s'. emit is_key s' [] True))"
  using emit_split [of is_key s d "[]" True] by simp

section \<open>String phases\<close>

definition str_phase :: "bool \<Rightarrow> phase_t" where
  "str_phase is_key = (if is_key then PH_KEY_STR else PH_VAL_STR)"

definition str_done :: "bool \<Rightarrow> 'k scan_state_t \<Rightarrow> 'k scan_state_t" where
  "str_done is_key s =
     (if is_key then s\<lparr>sc_key_len := length (sc_scratch s), sc_phase := PH_OBJ_COLON\<rparr>
      else s\<lparr>sc_phase := after_value_phase s\<rparr>)"

lemma drive_str:
  assumes "sc_phase s = str_phase is_key"
  shows "drive sk len s cs =
    (case scan_string sk len is_key s cs of
       (rc, s1, rest, closed) \<Rightarrow>
         if rc \<noteq> BB_OK then (rc, s1) else if \<not> closed then (BB_OK, s1) else drive sk len (str_done is_key s1) rest)"
proof (cases cs)
  case Nil
  then show ?thesis by (simp add: drive.simps scan_string.simps)
next
  case (Cons c cs1)
  then show ?thesis using assms
    by (subst drive.simps) (auto simp: drive_body_def str_phase_def str_done_def split: prod.splits)
qed

lemma drive_str_escape:
  assumes ph: "sc_phase s = str_phase is_key" and e: "sc_esc_phase s \<noteq> ESC_NONE"
  shows "drive sk len s (c # cs) =
    (case scan_escape_byte s c of
       (rc, s1, decoded) \<Rightarrow>
         if rc \<noteq> BB_OK then (rc, s1)
         else if decoded = [] then drive sk len s1 cs
         else if cs \<noteq> [] \<and> hd cs = CHR 0x22 then
           and_then (emit is_key s1 decoded True) (\<lambda>s2. drive sk len (str_done is_key s2) (tl cs))
         else and_then (emit is_key s1 decoded False) (\<lambda>s2. drive sk len s2 cs))"
proof -
  obtain rc s1 d where esc: "scan_escape_byte s c = (rc, s1, d)" by (cases "scan_escape_byte s c") auto
  have ph1: "sc_phase s1 = str_phase is_key"
    using esc ph by (auto simp: scan_escape_byte_def Let_def split: esc_phase_t.splits option.splits if_splits)
  have ph2: "sc_phase s2 = str_phase is_key" if "emit is_key s1 d fin = (rc', s2)" for fin rc' s2
    using emit_frame(1) [OF that] ph1 by simp
  show ?thesis unfolding drive_str [OF ph]
    by (subst scan_string.simps) (auto simp: e esc emit_any and_then_if drive_str [OF ph1] drive_str [OF ph2] split: prod.splits)
qed

lemma drive_str_plain:
  assumes ph: "sc_phase s = str_phase is_key" and e: "sc_esc_phase s = ESC_NONE" and ne: "cs \<noteq> []"
  shows "drive sk len s cs =
    (case scan_run cs of
       None \<Rightarrow> (BB_ERR_PARSE_GRAMMAR, s)
     | Some (run, cs') \<Rightarrow>
         (case cs' of
            [] \<Rightarrow> emit is_key s run False
          | q # cs'' \<Rightarrow>
              if q = CHR 0x22 then and_then (emit is_key s run True) (\<lambda>s1. drive sk len (str_done is_key s1) cs'')
              else if run \<noteq> [] then
                and_then (emit is_key s run False) (\<lambda>s1. drive sk len (s1\<lparr>sc_esc_phase := ESC_BACKSLASH\<rparr>) cs'')
              else drive sk len (s\<lparr>sc_esc_phase := ESC_BACKSLASH\<rparr>) cs''))"
proof -
  obtain c cs1 where cs: "cs = c # cs1" using ne by (cases cs) auto
  have ph1: "sc_phase (s\<lparr>sc_esc_phase := x\<rparr>) = str_phase is_key" for x using ph by simp
  have ph2: "sc_phase (s2\<lparr>sc_esc_phase := x\<rparr>) = str_phase is_key" if "emit is_key s d fin = (rc', s2)" for d fin rc' s2 x
    using emit_frame(1) [OF that] ph by simp
  have run: "run \<noteq> []" if "scan_run cs = Some (run, [])" for run using scan_run_split [OF that] ne by auto
  show ?thesis
  proof (cases "scan_run cs")
    case None
    then show ?thesis unfolding drive_str [OF ph] by (subst scan_string.simps) (simp add: e cs del: scan_run.simps)
  next
    case (Some r)
    obtain run cs' where r: "r = (run, cs')" by (cases r) auto
    show ?thesis
    proof (cases cs')
      case Nil
      then show ?thesis unfolding drive_str [OF ph] using run Some r
        by (subst scan_string.simps) (auto simp: e cs emit_any simp del: scan_run.simps split: prod.splits)
    next
      case (Cons q cs'')
      then show ?thesis unfolding drive_str [OF ph] using Some r
        by (subst scan_string.simps)
          (auto simp: e cs emit_any and_then_if drive_str [OF ph1] drive_str [OF ph2] simp del: scan_run.simps split: prod.splits)
    qed
  qed
qed

section \<open>One byte at a time\<close>

lemma emit_mode: "emit is_key (set_mode b s) d fin = in_mode b (emit is_key s d fin)"
  by (simp add: emit_def emit_str_bytes_def scratch_append_mode sink_call_mode)

lemma str_done_mode: "str_done is_key (set_mode b s) = set_mode b (str_done is_key s)"
  by (simp add: str_done_def)

text \<open>Neither the mode nor the chunk length show, other than in the mode field itself.\<close>

lemma phase_cases:
  obtains (Token) "token_phase (sc_phase s)" | (Str) is_key where "sc_phase s = str_phase is_key"
    | (Num) "sc_phase s = PH_VAL_NUM" | (Lit) "sc_phase s = PH_VAL_LIT"
proof -
  have "sc_phase s = PH_KEY_STR \<Longrightarrow> sc_phase s = str_phase True" "sc_phase s = PH_VAL_STR \<Longrightarrow> sc_phase s = str_phase False"
    by (simp_all add: str_phase_def)
  then show thesis using that by (cases "sc_phase s") (auto simp: token_phase_def)
qed

lemma drive_mode: "drive sk len (set_mode b s) cs = in_mode b (drive sk len' s cs)"
proof (induction "drive_rank s cs" arbitrary: s cs rule: less_induct)
  case less
  show ?case
  proof (cases cs)
    case Nil
    then show ?thesis by (simp add: drive_nil in_mode_def)
  next
    case (Cons c cs1)
    have IH: "drive sk len (set_mode b s') cs' = in_mode b (drive sk len' s' cs')" if "length cs' \<le> length cs1" for s' cs'
      by (rule less) (use that Cons in \<open>simp add: drive_rank_def\<close>)
    show ?thesis
    proof (cases rule: phase_cases [of s])
      case Token
      show ?thesis
      proof (cases "skip_ws cs")
        case Nil
        then show ?thesis using Token by (simp add: drive_token in_mode_def)
      next
        case (Cons d rest)
        then have "length rest \<le> length cs1" using skip_ws_length [OF Cons] \<open>cs = c # cs1\<close> by simp
        then show ?thesis using Token Cons by (simp add: drive_token token_step_mode in_mode_and_then IH)
      qed
    next
      case (Str is_key)
      show ?thesis
      proof (cases "sc_esc_phase s = ESC_NONE")
        case True
        have "length q \<le> length cs1" if "scan_run cs = Some (run, d # q)" for run d q
          using scan_run_shorter [OF that] Cons by simp
        then show ?thesis
          using Str True Cons
          by (auto simp: drive_str_plain [of _ is_key] emit_mode str_done_mode simp del: scan_run.simps
              intro!: in_mode_and_then IH split: option.splits list.splits)
      next
        case False
        have "length (tl cs1) \<le> length cs1" by simp
        then show ?thesis using Str False Cons
          by (auto simp: drive_str_escape [of _ is_key] scan_escape_byte_mode emit_mode str_done_mode
              intro!: in_mode_and_then IH split: prod.splits)
      qed
    next
      case Num
      have "and_then (finalize_number sk (set_mode b s)) (\<lambda>s'. drive sk len s' cs)
          = in_mode b (and_then (finalize_number sk s) (\<lambda>s'. drive sk len' s' cs))"
        unfolding finalize_number_mode
      proof (rule in_mode_and_then)
        fix x assume "finalize_number sk s = (BB_OK, x)"
        then have "sc_phase x = after_value_phase x"
          by (auto simp: finalize_number_def after_value_phase_def split: prod.splits if_splits)
        then show "drive sk len (set_mode b x) cs = in_mode b (drive sk len' x cs)"
          by (intro less) (simp add: drive_rank_def Num after_value_not_num)
      qed
      then show ?thesis using Num Cons
        by (auto simp: drive_num split: num_step.splits intro!: in_mode_and_then IH)
    next
      case Lit
      show ?thesis using Lit Cons
        by (auto simp: drive_lit Let_def emit_literal_mode intro!: in_mode_and_then IH)
    qed
  qed
qed

lemma drive_cons_token:
  assumes "token_phase (sc_phase s)"
  shows "drive sk len s (c # cs) = and_then (drive sk len s [c]) (\<lambda>s'. drive sk len s' cs)"
proof (cases "is_ws_json c")
  case True
  then have "skip_ws (c # cs) = skip_ws cs" "skip_ws [c] = []" by (simp_all add: skip_ws_def)
  then show ?thesis using assms by (simp add: drive_token)
next
  case False
  then have "skip_ws (c # cs) = c # cs" "skip_ws [c] = [c]" by (simp_all add: skip_ws_def)
  then show ?thesis using assms by (simp add: drive_token drive_nil and_then_ok)
qed

lemma after_value_token: "token_phase (after_value_phase s)"
  by (simp add: after_value_phase_def token_phase_def)

lemma finalize_phase: "finalize_number sk s = (BB_OK, x) \<Longrightarrow> token_phase (sc_phase x)"
  using after_value_token by (auto simp: finalize_number_def split: prod.splits if_splits)

lemma same_then_error:
  assumes "\<And>rc x. q = (rc, x) \<Longrightarrow> rc = BB_OK \<or> hard rc" and "hard e" and "\<And>x. q = (BB_OK, x) \<Longrightarrow> hard (fst (f x))"
  shows "same hard (e, y) (and_then q f)"
  using assms by (cases q) (auto simp: same_def and_then_if)

lemma drive_cons_str_escape:
  assumes ph: "sc_phase s = str_phase is_key" and e: "sc_esc_phase s \<noteq> ESC_NONE"
  shows "same hard (drive sk len s (c # cs)) (and_then (drive sk len s [c]) (\<lambda>s'. drive sk len s' cs))"
proof -
  obtain rc s1 d where esc: "scan_escape_byte s c = (rc, s1, d)" by (cases "scan_escape_byte s c") auto
  show ?thesis
  proof (cases "rc = BB_OK \<and> d \<noteq> [] \<and> cs \<noteq> [] \<and> hd cs = CHR 0x22")
    case False
    then show ?thesis by (auto simp: drive_str_escape [OF ph e] esc drive_nil and_then_ok)
  next
    case True
    then obtain cs1 where cs: "cs = CHR 0x22 # cs1" by (cases cs) auto
    have s1: "sc_phase s1 = str_phase is_key" "sc_esc_phase s1 = ESC_NONE"
      using esc ph True by (auto simp: scan_escape_byte_def Let_def split: esc_phase_t.splits option.splits if_splits)
    have q: "drive sk len x (CHR 0x22 # cs1) = and_then (emit is_key x [] True) (\<lambda>s2. drive sk len (str_done is_key s2) cs1)"
      if "emit is_key s1 d False = (BB_OK, x)" for x
      using drive_str_plain [of x is_key "CHR 0x22 # cs1" len] emit_frame [OF that] s1 by simp
    have "same hard (and_then (emit is_key s1 d True) (\<lambda>s2. drive sk len (str_done is_key s2) cs1))
        (and_then (and_then (emit is_key s1 d False) (\<lambda>x. emit is_key x [] True)) (\<lambda>s2. drive sk len (str_done is_key s2) cs1))"
      by (rule same_and_then [OF emit_final]) (simp_all add: hard_codes)
    also have "same hard \<dots> (and_then (emit is_key s1 d False) (\<lambda>x. drive sk len x (CHR 0x22 # cs1)))"
      unfolding and_then_assoc by (rule same_and_then) (simp_all add: q hard_codes)
    finally show ?thesis using True by (simp add: drive_str_escape [OF ph e] esc cs drive_nil and_then_ok)
  qed
qed

text \<open>A plain byte in a string: taken alone first, or at the head of its run.\<close>

lemma drive_cons_str_plain:
  assumes ph: "sc_phase s = str_phase is_key" and e: "sc_esc_phase s = ESC_NONE"
  shows "same hard (drive sk len s (c # cs)) (and_then (drive sk len s [c]) (\<lambda>s'. drive sk len s' cs))"
proof (cases "c = CHR 0x22 \<or> c = CHR 0x5C \<or> (of_char c :: nat) < 0x20")
  case True
  then show ?thesis
    using drive_str_plain [OF ph e, of "c # cs" len] drive_str_plain [OF ph e, of "[c]" len]
    by (auto simp: drive_nil and_then_ok and_then_assoc)
next
  case False
  then have c: "drive sk len s [c] = emit is_key s [c] False"
    using drive_str_plain [OF ph e, of "[c]" len] by simp
  show ?thesis
  proof (cases cs)
    case Nil
    then show ?thesis by (simp add: drive_nil and_then_ok)
  next
    case (Cons c1 cs1)
    have x: "sc_phase x = str_phase is_key" "sc_esc_phase x = ESC_NONE" if "emit is_key s [c] False = (BB_OK, x)" for x
      using emit_frame [OF that] ph e by simp_all
    have dx: "drive sk len x cs = (case scan_run cs of
         None \<Rightarrow> (BB_ERR_PARSE_GRAMMAR, x)
       | Some (run, cs') \<Rightarrow>
           (case cs' of
              [] \<Rightarrow> emit is_key x run False
            | q # cs'' \<Rightarrow>
                if q = CHR 0x22 then and_then (emit is_key x run True) (\<lambda>s1. drive sk len (str_done is_key s1) cs'')
                else if run \<noteq> [] then
                  and_then (emit is_key x run False) (\<lambda>s1. drive sk len (s1\<lparr>sc_esc_phase := ESC_BACKSLASH\<rparr>) cs'')
                else drive sk len (x\<lparr>sc_esc_phase := ESC_BACKSLASH\<rparr>) cs''))"
      if "emit is_key s [c] False = (BB_OK, x)" for x
      by (rule drive_str_plain [OF x [OF that]]) (simp add: Cons)
    note open_c = emit_open [of is_key s "[c]"]
    show ?thesis
    proof (cases "scan_run cs")
      case None
      have "same hard (BB_ERR_PARSE_GRAMMAR, s) (and_then (emit is_key s [c] False) (\<lambda>s'. drive sk len s' cs))"
        by (rule same_then_error) (use open_c dx None hard_codes in auto)
      then show ?thesis using None False c drive_str_plain [OF ph e, of "c # cs" len] by simp
    next
      case (Some r)
      obtain run cs' where r: "r = (run, cs')" by (cases r) auto
      have whole: "scan_run (c # cs) = Some (c # run, cs')" using Some r False by simp
      show ?thesis
      proof (cases cs')
        case Nil
        have "same hard (emit is_key s ([c] @ run) False) (and_then (emit is_key s [c] False) (\<lambda>x. emit is_key x run False))"
          by (rule emit_split)
        also have "same hard \<dots> (and_then (emit is_key s [c] False) (\<lambda>x. drive sk len x cs))"
          by (rule same_and_then) (simp_all add: dx Some r Nil hard_codes)
        finally show ?thesis using whole c drive_str_plain [OF ph e, of "c # cs" len] Nil by simp
      next
        case (Cons q cs'')
        define fin where "fin = (q = CHR 0x22)"
        define k where "k = (\<lambda>s1. if fin then drive sk len (str_done is_key s1) cs''
                                   else drive sk len (s1\<lparr>sc_esc_phase := ESC_BACKSLASH\<rparr>) cs'')"
        have l: "drive sk len s (c # cs) = and_then (emit is_key s ([c] @ run) fin) k"
          using whole drive_str_plain [OF ph e, of "c # cs" len] Cons by (simp add: fin_def k_def)
        show ?thesis
        proof (cases "run = [] \<and> \<not> fin")
          case True
          then have "drive sk len x cs = k x" if "emit is_key s [c] False = (BB_OK, x)" for x
            using dx [OF that] Some r Cons by (simp add: fin_def k_def)
          then show ?thesis unfolding l c using True
            by (auto intro!: same_and_then simp: hard_codes)
        next
          case False
          have m: "and_then (emit is_key x run fin) k = drive sk len x cs" if "emit is_key s [c] False = (BB_OK, x)" for x
            using dx [OF that] Some r Cons False by (auto simp: fin_def k_def)
          have "same hard (and_then (emit is_key s ([c] @ run) fin) k)
              (and_then (and_then (emit is_key s [c] False) (\<lambda>x. emit is_key x run fin)) k)"
            by (rule same_and_then [OF emit_split]) (simp_all add: hard_codes)
          also have "same hard \<dots> (and_then (emit is_key s [c] False) (\<lambda>x. drive sk len x cs))"
            unfolding and_then_assoc by (rule same_and_then) (simp_all add: m hard_codes)
          finally show ?thesis using l c by simp
        qed
      qed
    qed
  qed
qed

lemma drive_cons: "same hard (drive sk len s (c # cs)) (and_then (drive sk len s [c]) (\<lambda>s'. drive sk len s' cs))"
proof (cases rule: phase_cases [of s])
  case Token
  then show ?thesis by (metis drive_cons_token same_refl)
next
  case (Str is_key)
  then show ?thesis using drive_cons_str_escape drive_cons_str_plain by (cases "sc_esc_phase s = ESC_NONE") auto
next
  case Num
  have "and_then (finalize_number sk s) (\<lambda>s'. drive sk len s' (c # cs)) =
      and_then (and_then (finalize_number sk s) (\<lambda>s'. drive sk len s' [c])) (\<lambda>s'. drive sk len s' cs)"
    unfolding and_then_assoc
  proof (cases "finalize_number sk s")
    case (Pair rc x)
    show "and_then (finalize_number sk s) (\<lambda>s'. drive sk len s' (c # cs)) =
        and_then (finalize_number sk s) (\<lambda>x. and_then (drive sk len x [c]) (\<lambda>s'. drive sk len s' cs))"
    proof (cases "rc = BB_OK")
      case True
      then show ?thesis using drive_cons_token [OF finalize_phase, of s x len c cs] Pair by simp
    qed (simp add: Pair)
  qed
  then show ?thesis using Num
    by (auto simp: drive_num drive_nil and_then_ok and_then_assoc split: num_step.splits)
next
  case Lit
  then show ?thesis by (simp add: drive_lit drive_nil Let_def and_then_ok and_then_assoc)
qed

lemma drive_append: "same hard (drive sk len s (a @ b)) (and_then (drive sk len s a) (\<lambda>s'. drive sk len s' b))"
proof (induction a arbitrary: s)
  case Nil
  then show ?case by (simp add: drive_nil)
next
  case (Cons c a)
  have "same hard (drive sk len s ((c # a) @ b)) (and_then (drive sk len s [c]) (\<lambda>s'. drive sk len s' (a @ b)))"
    using drive_cons by simp
  also have "same hard \<dots> (and_then (drive sk len s [c]) (\<lambda>s'. and_then (drive sk len s' a) (\<lambda>s'. drive sk len s' b)))"
    by (rule same_and_then) (simp_all add: Cons hard_codes)
  also have "same hard \<dots> (and_then (drive sk len s (c # a)) (\<lambda>s'. drive sk len s' b))"
    unfolding and_then_assoc [symmetric]
    by (rule same_and_then [OF same_sym [OF drive_cons]]) (simp_all add: hard_codes)
  finally show ?case .
qed

lemma drive_len: "drive sk len s cs = drive sk len' s cs"
  and drive_keeps: "drive sk len s cs = (rc, s') \<Longrightarrow> sc_err s' = sc_err s \<and> sc_bounded_mode s' = sc_bounded_mode s"
proof -
  let ?b = "(sc_bounded_mode s, sc_err s)"
  have s: "set_mode ?b s = s" by (simp add: set_mode_def)
  have e: "drive sk l s cs = in_mode ?b (drive sk l' s cs)" for l l' using drive_mode [of l ?b s cs l'] s by simp
  show "drive sk len s cs = drive sk len' s cs" using e [of len len'] e [of len' len'] by simp
  show "sc_err s' = sc_err s \<and> sc_bounded_mode s' = sc_bounded_mode s" if d: "drive sk len s cs = (rc, s')"
  proof -
    have x: "s' = set_mode ?b s'" using e [of len len] unfolding d by simp
    show ?thesis using arg_cong [OF x, of sc_err] arg_cong [OF x, of sc_bounded_mode]
      by (simp (no_asm_simp) add: set_mode_def)
  qed
qed

end

section \<open>Whole documents in chunks\<close>

text \<open>Feeding chunks in turn, whatever each feed returns (errors stick), and ending the document.\<close>

fun feed_all :: "'k bb_serialize_json_ingest_t \<Rightarrow> 'k scan_state_t \<Rightarrow> string list \<Rightarrow> 'k scan_state_t" where
  "feed_all sk s [] = s"
| "feed_all sk s (ch # chs) = feed_all sk (snd (bb_serialize_json_scan_feed sk s ch)) chs"

definition scan_chunks :: "'k bb_serialize_json_ingest_t \<Rightarrow> 'k \<Rightarrow> string list \<Rightarrow> bb_err_t \<times> 'k" where
  "scan_chunks sk k chs =
     (case bb_serialize_json_scan_end sk (feed_all sk (snd (bb_serialize_json_scan_begin k)) chs) of
        (rc, s) \<Rightarrow> (rc, sc_ctx s))"

lemma feed_all_sticky: "sc_err s \<noteq> BB_OK \<Longrightarrow> feed_all sk s chs = s"
  by (induction chs) (simp_all add: bb_serialize_json_scan_feed_def)

definition noted :: "bb_err_t \<times> 'k scan_state_t \<Rightarrow> bb_err_t \<times> 'k scan_state_t" where
  "noted r = (fst r, if fst r \<noteq> BB_OK then (snd r)\<lparr>sc_err := fst r\<rparr> else snd r)"

context span_sink
begin

lemma feed_all_drive:
  "sc_err s = BB_OK \<Longrightarrow> same hard (sc_err (feed_all sk s chs), feed_all sk s chs) (noted (drive sk 0 s (concat chs)))"
proof (induction chs arbitrary: s)
  case Nil
  then show ?case by (simp add: noted_def drive_nil)
next
  case (Cons ch chs)
  obtain rc s1 where d: "drive sk 0 s ch = (rc, s1)" by fastforce
  have f: "bb_serialize_json_scan_feed sk s ch = noted (rc, s1)"
    using Cons.prems d drive_len [of "length ch" s ch 0] by (simp add: bb_serialize_json_scan_feed_def noted_def)
  have "same hard (drive sk 0 s (ch @ concat chs)) (and_then (rc, s1) (\<lambda>s'. drive sk 0 s' (concat chs)))"
    using drive_append [of 0 s ch "concat chs"] d by simp
  then have a: "same hard (noted (drive sk 0 s (concat (ch # chs)))) (noted (and_then (rc, s1) (\<lambda>s'. drive sk 0 s' (concat chs))))"
    by (auto simp: same_def noted_def)
  show ?case
  proof (cases "rc = BB_OK")
    case True
    then have "sc_err s1 = BB_OK" using drive_keeps [OF d] Cons.prems by simp
    then have "same hard (sc_err (feed_all sk s (ch # chs)), feed_all sk s (ch # chs)) (noted (drive sk 0 s1 (concat chs)))"
      using Cons.IH [of s1] f True by (simp add: noted_def)
    also have "same hard \<dots> (noted (drive sk 0 s (concat (ch # chs))))" using same_sym [OF a] True by simp
    finally show ?thesis .
  next
    case False
    then have "(sc_err (feed_all sk s (ch # chs)), feed_all sk s (ch # chs)) = noted (rc, s1)"
      using f by (simp add: noted_def feed_all_sticky)
    also have "same hard \<dots> (noted (drive sk 0 s (concat (ch # chs))))" using same_sym [OF a] False by simp
    finally show ?thesis .
  qed
qed

lemma scan_end_mode:
  "sc_err s = BB_OK \<Longrightarrow> fst (bb_serialize_json_scan_end sk (set_mode (b, BB_OK) s)) = fst (bb_serialize_json_scan_end sk s) \<and>
   sc_ctx (snd (bb_serialize_json_scan_end sk (set_mode (b, BB_OK) s))) = sc_ctx (snd (bb_serialize_json_scan_end sk s))"
proof -
  assume "sc_err s = BB_OK"
  moreover have "sc_err (set_mode (b, BB_OK) s) = BB_OK" by (simp add: set_mode_def)
  ultimately show ?thesis
    by (cases "finalize_number sk s") (auto simp: bb_serialize_json_scan_end_def finalize_number_mode)
qed

text \<open>The bounded entry point is a feed of one chunk.\<close>

lemma bounded_one_chunk: "bb_serialize_json_scan_bounded sk k buf = scan_chunks sk k [buf]"
proof -
  have z: "scan_zero k True = set_mode (True, BB_OK) (scan_zero k False)" by (simp add: scan_zero_def set_mode_def)
  obtain rc s1 where d: "drive sk (length buf) (scan_zero k False) buf = (rc, s1)" by fastforce
  have d': "drive sk (length buf) (scan_zero k True) buf = (rc, set_mode (True, BB_OK) s1)"
    unfolding z drive_mode [of _ _ _ _ "length buf"] d by simp
  have e: "sc_err s1 = BB_OK" using drive_keeps [OF d] by (simp add: scan_zero_def)
  have z0: "sc_err (scan_zero k b) = BB_OK" for b by (simp add: scan_zero_def)
  show ?thesis
  proof (cases "rc = BB_OK")
    case True
    then show ?thesis using scan_end_mode [OF e, of True]
      by (auto simp: bb_serialize_json_scan_bounded_def scan_chunks_def bb_serialize_json_scan_begin_def scan_begin_internal_def
          bb_serialize_json_scan_feed_def d d' z0 split: prod.splits)
  next
    case False
    then show ?thesis
      by (simp add: bb_serialize_json_scan_bounded_def scan_chunks_def bb_serialize_json_scan_begin_def scan_begin_internal_def
          bb_serialize_json_scan_feed_def bb_serialize_json_scan_end_def d d' z0)
  qed
qed

lemma chunks_agree:
  assumes "concat chs = concat chs'"
  shows "same hard (scan_chunks sk k chs) (scan_chunks sk k chs')"
proof -
  let ?z = "scan_zero k False"
  have z: "sc_err ?z = BB_OK" by (simp add: scan_zero_def)
  have "same hard (sc_err (feed_all sk ?z chs), feed_all sk ?z chs) (sc_err (feed_all sk ?z chs'), feed_all sk ?z chs')"
    by (rule same_trans [OF feed_all_drive [OF z] same_sym]) (use feed_all_drive [OF z, of chs'] assms in simp)
  then have "feed_all sk ?z chs = feed_all sk ?z chs' \<or> hard (sc_err (feed_all sk ?z chs)) \<and> hard (sc_err (feed_all sk ?z chs'))"
    by (auto simp: same_def)
  then show ?thesis
  proof
    assume "feed_all sk ?z chs = feed_all sk ?z chs'"
    then show ?thesis by (simp add: scan_chunks_def bb_serialize_json_scan_begin_def scan_begin_internal_def)
  next
    assume h: "hard (sc_err (feed_all sk ?z chs)) \<and> hard (sc_err (feed_all sk ?z chs'))"
    then have "sc_err (feed_all sk ?z chs) \<noteq> BB_OK" "sc_err (feed_all sk ?z chs') \<noteq> BB_OK"
      using hard_codes(1) by metis+
    then show ?thesis using h
      by (simp add: same_def scan_chunks_def bb_serialize_json_scan_begin_def scan_begin_internal_def bb_serialize_json_scan_end_def)
  qed
qed

lemma chunks_bounded: "concat chs = buf \<Longrightarrow> same hard (scan_chunks sk k chs) (bb_serialize_json_scan_bounded sk k buf)"
  unfolding bounded_one_chunk by (rule chunks_agree) simp

end

end
