(* ===== verification/BB_Release_Manifest.thy ===== *)
theory BB_Release_Manifest
  imports BB_JSON_Chunks
begin

text \<open>
  The release-manifest parsers of \<^verbatim>\<open>components/bb_release_manifest/src\<close>: the sink that picks the tag and the download
  address of one board's asset out of the events of the JSON scanner, the parser of a buffered response and the one
  of a response that arrives in chunks. C strings of the caller are character lists without the terminator, buffers
  are lists of their size, and the depth counters are integers.
\<close>

section \<open>The sink\<close>

definition BB_RELEASE_MANIFEST_SINK_NAME_MAX :: nat where "BB_RELEASE_MANIFEST_SINK_NAME_MAX = 64"

abbreviation BB_RELEASE_MANIFEST_SINK_DONE :: bb_err_t where "BB_RELEASE_MANIFEST_SINK_DONE \<equiv> BB_ERR_CONFLICT"

record bb_release_manifest_sink_state_t =
  tag_out :: "char list"
  tag_cap :: nat
  tag_len :: nat
  url_out :: "char list"
  url_cap :: nat
  url_len :: nat
  board_name :: "char list"
  board_name_len :: nat
  name_tmp :: "char list"
  name_tmp_len :: nat
  depth :: int
  assets_arr_depth :: int
  assets_elem_depth :: int
  asset_obj_depth :: int
  tag_found :: bool
  url_found :: bool
  in_assets :: bool
  in_asset_obj :: bool
  asset_name_matched :: bool
  assets_invalid_shape :: bool

type_synonym sink_state = bb_release_manifest_sink_state_t

definition sink_append :: "char list \<Rightarrow> nat \<Rightarrow> nat \<Rightarrow> string \<Rightarrow> bb_err_t \<times> char list \<times> nat" where
  "sink_append dst cap len chunk =
     (if chunk = [] then (BB_OK, dst, len)
      else if len + length chunk + 1 > cap then (BB_ERR_NO_SPACE, dst, len)
      else (BB_OK, (blit dst len chunk)[len + length chunk := NUL], len + length chunk))"

definition sink_append_truncate :: "char list \<Rightarrow> nat \<Rightarrow> nat \<Rightarrow> string \<Rightarrow> char list \<times> nat" where
  "sink_append_truncate dst cap len chunk =
     (if len + 1 \<ge> cap then (dst, len)
      else
        let avail = cap - len - 1;
            n = (if length chunk < avail then length chunk else avail)
        in if n > 0 then ((blit dst len (take n chunk))[len + n := NUL], len + n) else (dst, len))"

definition is_toplevel_assets_key :: "int \<Rightarrow> json_key \<Rightarrow> bool" where
  "is_toplevel_assets_key d key \<longleftrightarrow> d = 1 \<and> key = Some ''assets''"

definition sink_begin_obj :: "sink_state \<Rightarrow> json_key \<Rightarrow> bb_err_t \<times> sink_state" where
  "sink_begin_obj s key =
     (let s = (if \<not> in_assets s \<and> is_toplevel_assets_key (depth s) key then s\<lparr>assets_invalid_shape := True\<rparr> else s);
          s = (if in_assets s \<and> \<not> in_asset_obj s \<and> depth s = assets_elem_depth s then
                 s\<lparr>in_asset_obj := True, asset_obj_depth := depth s, asset_name_matched := False, name_tmp_len := 0\<rparr>
               else s)
      in (BB_OK, s\<lparr>depth := depth s + 1\<rparr>))"

definition sink_end_obj :: "sink_state \<Rightarrow> bb_err_t \<times> sink_state" where
  "sink_end_obj s =
     (let s = s\<lparr>depth := depth s - 1\<rparr> in
      (BB_OK, if in_asset_obj s \<and> depth s = asset_obj_depth s then s\<lparr>in_asset_obj := False, asset_name_matched := False\<rparr> else s))"

definition sink_begin_arr :: "sink_state \<Rightarrow> json_key \<Rightarrow> bb_err_t \<times> sink_state" where
  "sink_begin_arr s key =
     (let s = (if \<not> in_assets s \<and> is_toplevel_assets_key (depth s) key then
                 s\<lparr>in_assets := True, assets_arr_depth := depth s, assets_elem_depth := depth s + 1\<rparr>
               else s)
      in (BB_OK, s\<lparr>depth := depth s + 1\<rparr>))"

definition sink_end_arr :: "sink_state \<Rightarrow> bb_err_t \<times> sink_state" where
  "sink_end_arr s =
     (let s = s\<lparr>depth := depth s - 1\<rparr> in
      (BB_OK, if in_assets s \<and> depth s = assets_arr_depth s then s\<lparr>in_assets := False\<rparr> else s))"

definition mark_if_assets_scalar :: "sink_state \<Rightarrow> json_key \<Rightarrow> sink_state" where
  "mark_if_assets_scalar s key =
     (if \<not> in_assets s \<and> is_toplevel_assets_key (depth s) key then s\<lparr>assets_invalid_shape := True\<rparr> else s)"

definition sink_value_num :: "sink_state \<Rightarrow> json_key \<Rightarrow> string \<Rightarrow> bb_err_t \<times> sink_state" where
  "sink_value_num s key num = (BB_OK, mark_if_assets_scalar s key)"

definition sink_value_bool :: "sink_state \<Rightarrow> json_key \<Rightarrow> bool \<Rightarrow> bb_err_t \<times> sink_state" where
  "sink_value_bool s key v = (BB_OK, mark_if_assets_scalar s key)"

definition sink_value_null :: "sink_state \<Rightarrow> json_key \<Rightarrow> bb_err_t \<times> sink_state" where
  "sink_value_null s key = (BB_OK, mark_if_assets_scalar s key)"

definition is_tag_chunk :: "sink_state \<Rightarrow> json_key \<Rightarrow> bool" where
  "is_tag_chunk s key \<longleftrightarrow> \<not> tag_found s \<and> depth s = 1 \<and> key = Some ''tag_name''"

definition is_name_chunk :: "sink_state \<Rightarrow> json_key \<Rightarrow> bool" where
  "is_name_chunk s key \<longleftrightarrow> in_asset_obj s \<and> \<not> asset_name_matched s \<and> depth s = asset_obj_depth s + 1 \<and> key = Some ''name''"

definition is_url_chunk :: "sink_state \<Rightarrow> json_key \<Rightarrow> bool" where
  "is_url_chunk s key \<longleftrightarrow> in_asset_obj s \<and> asset_name_matched s \<and> \<not> url_found s \<and> depth s = asset_obj_depth s + 1 \<and>
     key = Some ''browser_download_url''"

definition sink_value_str_chunk ::
  "sink_state \<Rightarrow> json_key \<Rightarrow> span_ptr \<Rightarrow> string \<Rightarrow> bool \<Rightarrow> bb_serialize_json_span_t \<Rightarrow> bb_err_t \<times> sink_state"
where
  "sink_value_str_chunk s key p chunk is_final prov =
     (let is_tag = is_tag_chunk s key; is_name = is_name_chunk s key; is_url = is_url_chunk s key;
          s = mark_if_assets_scalar s key
      in if is_tag then
           (case sink_append (tag_out s) (tag_cap s) (tag_len s) chunk of
              (rc, out, len) \<Rightarrow>
                if rc \<noteq> BB_OK then (rc, s)
                else let s = s\<lparr>tag_out := out, tag_len := len\<rparr> in
                  if is_final then (if url_found s then BB_RELEASE_MANIFEST_SINK_DONE else BB_OK, s\<lparr>tag_found := True\<rparr>)
                  else (BB_OK, s))
         else if is_name then
           (case sink_append_truncate (name_tmp s) BB_RELEASE_MANIFEST_SINK_NAME_MAX (name_tmp_len s) chunk of
              (tmp, len) \<Rightarrow>
                let s = s\<lparr>name_tmp := tmp, name_tmp_len := len\<rparr> in
                (BB_OK, if is_final then
                   s\<lparr>asset_name_matched := (name_tmp_len s = board_name_len s \<and>
                       take (board_name_len s) (name_tmp s) = take (board_name_len s) (board_name s))\<rparr>
                 else s))
         else if is_url then
           (case sink_append (url_out s) (url_cap s) (url_len s) chunk of
              (rc, out, len) \<Rightarrow>
                if rc \<noteq> BB_OK then (rc, s)
                else let s = s\<lparr>url_out := out, url_len := len\<rparr> in
                  if is_final then (if tag_found s then BB_RELEASE_MANIFEST_SINK_DONE else BB_OK, s\<lparr>url_found := True\<rparr>)
                  else (BB_OK, s))
         else (BB_OK, s))"

text \<open>The cleared state over the caller's buffers; the board's file name is cut to the room there is.\<close>

definition bb_release_manifest_sink_init ::
  "string \<Rightarrow> char list \<Rightarrow> nat \<Rightarrow> char list \<Rightarrow> nat \<Rightarrow> sink_state"
where
  "bb_release_manifest_sink_init board_fallback tag tcap url ucap =
     (let zeros = replicate BB_RELEASE_MANIFEST_SINK_NAME_MAX NUL;
          full_len = length board_fallback + 4;
          full_len = (if full_len \<ge> BB_RELEASE_MANIFEST_SINK_NAME_MAX then BB_RELEASE_MANIFEST_SINK_NAME_MAX - 1 else full_len);
          bl = full_len - 4
      in \<lparr>tag_out = tag[0 := NUL], tag_cap = tcap, tag_len = 0, url_out = url[0 := NUL], url_cap = ucap, url_len = 0,
          board_name = (blit (blit zeros 0 (take bl board_fallback)) bl ''.bin'')[full_len := NUL], board_name_len = full_len,
          name_tmp = zeros, name_tmp_len = 0, depth = 0, assets_arr_depth = 0, assets_elem_depth = 0, asset_obj_depth = 0,
          tag_found = False, url_found = False, in_assets = False, in_asset_obj = False, asset_name_matched = False,
          assets_invalid_shape = False\<rparr>)"

definition bb_release_manifest_sink_ingest :: "sink_state bb_serialize_json_ingest_t" where
  "bb_release_manifest_sink_ingest =
     \<lparr>in_begin_obj = sink_begin_obj, in_end_obj = sink_end_obj, in_begin_arr = sink_begin_arr, in_end_arr = sink_end_arr,
      in_value_num = sink_value_num, in_value_bool = sink_value_bool, in_value_null = sink_value_null,
      in_value_str_chunk = sink_value_str_chunk\<rparr>"

definition bb_release_manifest_sink_finalize :: "sink_state \<Rightarrow> bb_err_t \<Rightarrow> bb_err_t \<times> sink_state" where
  "bb_release_manifest_sink_finalize st scan_result =
     (if scan_result = BB_RELEASE_MANIFEST_SINK_DONE then (BB_OK, st)
      else if scan_result = BB_ERR_NO_SPACE then (BB_ERR_NO_SPACE, st)
      else
        let st = (if \<not> tag_found st then st\<lparr>tag_out := (tag_out st)[0 := NUL]\<rparr> else st);
            st = (if \<not> url_found st then st\<lparr>url_out := (url_out st)[0 := NUL]\<rparr> else st)
        in if scan_result \<noteq> BB_OK then (BB_ERR_NOT_FOUND, st)
           else if assets_invalid_shape st then (BB_ERR_NOT_FOUND, st)
           else (if tag_found st then BB_OK else BB_ERR_NOT_FOUND, st))"

section \<open>The parsers\<close>

text \<open>Both return the code and the two output buffers.\<close>

definition bb_release_manifest_parse_github ::
  "string option \<Rightarrow> string option \<Rightarrow> char list option \<Rightarrow> nat \<Rightarrow> char list option \<Rightarrow> nat
     \<Rightarrow> bb_err_t \<times> char list option \<times> char list option"
where
  "bb_release_manifest_parse_github body board out_tag tag_size out_url url_size =
     (case (body, board, out_tag, out_url) of
        (Some b, Some n, Some t, Some u) \<Rightarrow>
          (if tag_size = 0 \<or> url_size = 0 then (BB_ERR_INVALID_ARG, out_tag, out_url)
           else
             let st = bb_release_manifest_sink_init n t tag_size u url_size in
             (case bb_serialize_json_scan_bounded bb_release_manifest_sink_ingest st b of
                (rc, st) \<Rightarrow> (case bb_release_manifest_sink_finalize st rc of
                              (rc, st) \<Rightarrow> (rc, Some (tag_out st), Some (url_out st)))))
      | _ \<Rightarrow> (BB_ERR_INVALID_ARG, out_tag, out_url))"

text \<open>The stream's context is the scanner with the sink in it.\<close>

type_synonym bb_release_manifest_stream_ctx_t = "sink_state scan_state_t"

definition bb_release_manifest_parse_github_stream_begin ::
  "string option \<Rightarrow> char list option \<Rightarrow> nat \<Rightarrow> char list option \<Rightarrow> nat
     \<Rightarrow> bb_err_t \<times> bb_release_manifest_stream_ctx_t option"
where
  "bb_release_manifest_parse_github_stream_begin board tag tcap url ucap =
     (case (board, tag, url) of
        (Some n, Some t, Some u) \<Rightarrow>
          (if tcap < 2 \<or> ucap < 2 then (BB_ERR_INVALID_ARG, None)
           else (case bb_serialize_json_scan_begin (bb_release_manifest_sink_init n t tcap u ucap) of (rc, s) \<Rightarrow> (rc, Some s)))
      | _ \<Rightarrow> (BB_ERR_INVALID_ARG, None))"

definition bb_release_manifest_parse_github_stream_feed ::
  "bb_release_manifest_stream_ctx_t \<Rightarrow> string \<Rightarrow> bb_err_t \<times> bb_release_manifest_stream_ctx_t"
where
  "bb_release_manifest_parse_github_stream_feed s chunk =
     (case bb_serialize_json_scan_feed bb_release_manifest_sink_ingest s chunk of
        (rc, s) \<Rightarrow> (if rc = BB_ERR_NO_SPACE then BB_ERR_NO_SPACE else BB_OK, s))"

definition bb_release_manifest_parse_github_stream_end ::
  "bb_release_manifest_stream_ctx_t \<Rightarrow> bb_err_t \<times> sink_state"
where
  "bb_release_manifest_parse_github_stream_end s =
     (case bb_serialize_json_scan_end bb_release_manifest_sink_ingest s of
        (rc, s) \<Rightarrow> bb_release_manifest_sink_finalize (sc_ctx s) rc)"

section \<open>The sink takes strings in any pieces\<close>

definition manifest_hard :: "bb_err_t \<Rightarrow> bool" where
  "manifest_hard rc \<longleftrightarrow> rc \<noteq> BB_OK \<and> rc \<noteq> BB_RELEASE_MANIFEST_SINK_DONE"

lemma blit_blit:
  assumes "b \<noteq> []"
  shows "blit ((blit dst len a)[len + length a := NUL]) (len + length a) b = blit dst len (a @ b)"
proof -
  have "take (len + length a) ((blit dst len a)[len + length a := NUL]) = take (len + length a) (blit dst len a)" by simp
  moreover have "drop (len + length a + length b) ((blit dst len a)[len + length a := NUL]) = drop (len + length a + length b) (blit dst len a)"
    using assms by (simp add: drop_update_cancel)
  ultimately show ?thesis by (auto simp: blit_def min_def ac_simps)
qed

lemma sink_append_split:
  "sink_append dst cap len (a @ b) = (BB_ERR_NO_SPACE, dst, len) \<and>
     fst (case sink_append dst cap len a of (rc, d, l) \<Rightarrow> if rc \<noteq> BB_OK then (rc, d, l) else sink_append d cap l b) = BB_ERR_NO_SPACE \<or>
   sink_append dst cap len (a @ b) =
     (case sink_append dst cap len a of (rc, d, l) \<Rightarrow> if rc \<noteq> BB_OK then (rc, d, l) else sink_append d cap l b)"
proof (cases "a = [] \<or> b = []")
  case True
  then show ?thesis by (auto simp: sink_append_def)
next
  case False
  have e: "(blit ((blit dst len a)[len + length a := NUL]) (len + length a) b)[len + length a + length b := NUL] =
      (blit dst len (a @ b))[len + length a + length b := NUL]"
    using False by (simp add: blit_blit)
  show ?thesis using False e by (auto simp: sink_append_def add.assoc)
qed

lemma sink_append_codes: "sink_append dst cap len c = (rc, d, l) \<Longrightarrow> rc = BB_OK \<or> rc = BB_ERR_NO_SPACE"
  by (auto simp: sink_append_def split: if_splits)

lemma sink_append_truncate_min:
  assumes "\<not> len + 1 \<ge> cap"
  shows "sink_append_truncate dst cap len chunk =
    (let n = min (length chunk) (cap - len - 1) in
     if n > 0 then ((blit dst len (take n chunk))[len + n := NUL], len + n) else (dst, len))"
  using assms by (auto simp: sink_append_truncate_def min_def Let_def)

lemma sink_append_truncate_split:
  "sink_append_truncate dst cap len (a @ b) = (case sink_append_truncate dst cap len a of (d, l) \<Rightarrow> sink_append_truncate d cap l b)"
proof (cases "a = [] \<or> b = [] \<or> len + 1 \<ge> cap")
  case True
  then show ?thesis by (auto simp: sink_append_truncate_def Let_def)
next
  case False
  show ?thesis
  proof (cases "length a < cap - len - 1")
    case True
    define n where "n = min (length b) (cap - len - 1 - length a)"
    have n: "0 < n" "take n b \<noteq> []" using True False by (auto simp: n_def)
    have m: "min (length (a @ b)) (cap - len - 1) = length a + n" unfolding n_def length_append using True by linarith
    have l: "\<not> len + 1 \<ge> cap" "\<not> len + length a + 1 \<ge> cap" using False True by simp_all
    have "sink_append_truncate dst cap len a = ((blit dst len a)[len + length a := NUL], len + length a)"
      using True False by (simp add: sink_append_truncate_def Let_def)
    moreover have "sink_append_truncate ((blit dst len a)[len + length a := NUL]) cap (len + length a) b =
        ((blit dst len (a @ take n b))[len + length a + n := NUL], len + length a + n)"
    proof -
      have "min (length b) (cap - (len + length a) - 1) = n" by (simp add: n_def diff_diff_left)
      then show ?thesis using sink_append_truncate_min [OF l(2)] n blit_blit [OF n(2), of dst len a] by (simp add: Let_def)
    qed
    moreover have "sink_append_truncate dst cap len (a @ b) =
        ((blit dst len (a @ take n b))[len + length a + n := NUL], len + length a + n)"
      unfolding sink_append_truncate_min [OF l(1)] m using n by (simp add: Let_def add.assoc)
    ultimately show ?thesis by simp
  next
    case full: False
    then show ?thesis using False by (auto simp: sink_append_truncate_def Let_def)
  qed
qed

lemma chunk_kind_frame:
  "is_tag_chunk (mark_if_assets_scalar s key) key' = is_tag_chunk s key'"
  "is_name_chunk (mark_if_assets_scalar s key) key' = is_name_chunk s key'"
  "is_url_chunk (mark_if_assets_scalar s key) key' = is_url_chunk s key'"
  "mark_if_assets_scalar (mark_if_assets_scalar s key) key = mark_if_assets_scalar s key"
  by (simp_all add: is_tag_chunk_def is_name_chunk_def is_url_chunk_def mark_if_assets_scalar_def)

lemma chunk_kind_updates:
  "is_tag_chunk (s\<lparr>tag_out := x, tag_len := n\<rparr>) key = is_tag_chunk s key"
  "is_tag_chunk (s\<lparr>name_tmp := x, name_tmp_len := n\<rparr>) key = is_tag_chunk s key"
  "is_name_chunk (s\<lparr>name_tmp := x, name_tmp_len := n\<rparr>) key = is_name_chunk s key"
  "is_tag_chunk (s\<lparr>url_out := x, url_len := n\<rparr>) key = is_tag_chunk s key"
  "is_name_chunk (s\<lparr>url_out := x, url_len := n\<rparr>) key = is_name_chunk s key"
  "is_url_chunk (s\<lparr>url_out := x, url_len := n\<rparr>) key = is_url_chunk s key"
  "mark_if_assets_scalar (s\<lparr>tag_out := x, tag_len := n\<rparr>) key = (mark_if_assets_scalar s key)\<lparr>tag_out := x, tag_len := n\<rparr>"
  "mark_if_assets_scalar (s\<lparr>name_tmp := x, name_tmp_len := n\<rparr>) key = (mark_if_assets_scalar s key)\<lparr>name_tmp := x, name_tmp_len := n\<rparr>"
  "mark_if_assets_scalar (s\<lparr>url_out := x, url_len := n\<rparr>) key = (mark_if_assets_scalar s key)\<lparr>url_out := x, url_len := n\<rparr>"
  by (simp_all add: is_tag_chunk_def is_name_chunk_def is_url_chunk_def mark_if_assets_scalar_def)

lemma manifest_split:
  "same manifest_hard (sink_value_str_chunk k key p (a @ b) fin prov)
    (and_then (sink_value_str_chunk k key p a False prov) (\<lambda>k'. sink_value_str_chunk k' key p b fin prov))"
proof -
  let ?m = "mark_if_assets_scalar k key"
  note frame = chunk_kind_frame chunk_kind_updates
  have h: "manifest_hard BB_ERR_NO_SPACE" by (simp add: manifest_hard_def)
  consider (tag) "is_tag_chunk k key" | (name) "\<not> is_tag_chunk k key" "is_name_chunk k key"
    | (url) "\<not> is_tag_chunk k key" "\<not> is_name_chunk k key" "is_url_chunk k key"
    | (other) "\<not> is_tag_chunk k key" "\<not> is_name_chunk k key" "\<not> is_url_chunk k key" by blast
  then show ?thesis
  proof cases
    case tag
    obtain rc d l where e: "sink_append (tag_out ?m) (tag_cap ?m) (tag_len ?m) a = (rc, d, l)" by (metis prod_cases3)
    obtain rc2 d2 l2 where e2: "sink_append d (tag_cap ?m) l b = (rc2, d2, l2)" by (metis prod_cases3)
    show ?thesis using tag sink_append_split [of "tag_out ?m" "tag_cap ?m" "tag_len ?m" a b] sink_append_codes [OF e2]
      by (auto simp: sink_value_str_chunk_def frame e e2 Let_def same_def h and_then_if split: if_splits)
  next
    case name
    obtain d l where e: "sink_append_truncate (name_tmp ?m) BB_RELEASE_MANIFEST_SINK_NAME_MAX (name_tmp_len ?m) a = (d, l)" by fastforce
    show ?thesis using name sink_append_truncate_split [of "name_tmp ?m" BB_RELEASE_MANIFEST_SINK_NAME_MAX "name_tmp_len ?m" a b]
      by (simp add: sink_value_str_chunk_def frame e Let_def split: prod.splits)
  next
    case url
    obtain rc d l where e: "sink_append (url_out ?m) (url_cap ?m) (url_len ?m) a = (rc, d, l)" by (metis prod_cases3)
    obtain rc2 d2 l2 where e2: "sink_append d (url_cap ?m) l b = (rc2, d2, l2)" by (metis prod_cases3)
    show ?thesis using url sink_append_split [of "url_out ?m" "url_cap ?m" "url_len ?m" a b] sink_append_codes [OF e2]
      by (auto simp: sink_value_str_chunk_def frame e e2 Let_def same_def h and_then_if split: if_splits)
  next
    case other
    then show ?thesis by (simp add: sink_value_str_chunk_def frame)
  qed
qed

interpretation manifest: span_sink bb_release_manifest_sink_ingest manifest_hard
proof unfold_locales
  show "in_value_str_chunk bb_release_manifest_sink_ingest k key p d fin prov =
      in_value_str_chunk bb_release_manifest_sink_ingest k key None d fin SPAN_SCANNER_SCRATCH" for k key p d fin prov
    by (simp add: bb_release_manifest_sink_ingest_def sink_value_str_chunk_def)
next
  fix k k' :: sink_state and key p d prov rc
  assume "in_value_str_chunk bb_release_manifest_sink_ingest k key p d False prov = (rc, k')"
  then show "rc = BB_OK \<or> manifest_hard rc"
    by (auto simp: bb_release_manifest_sink_ingest_def sink_value_str_chunk_def sink_append_def manifest_hard_def Let_def
        split: if_splits prod.splits)
next
  fix k :: sink_state and key p a b fin prov
  show "same manifest_hard (in_value_str_chunk bb_release_manifest_sink_ingest k key p (a @ b) fin prov)
      (and_then (in_value_str_chunk bb_release_manifest_sink_ingest k key p a False prov)
        (\<lambda>k'. in_value_str_chunk bb_release_manifest_sink_ingest k' key p b fin prov))"
    using manifest_split by (simp add: bb_release_manifest_sink_ingest_def)
qed (simp_all add: manifest_hard_def)

section \<open>A response in chunks is the response in one buffer\<close>

text \<open>The three calls of the streaming parser over the chunks of a response; what a feed returns is not needed, as an
  error stays in the context.\<close>

definition manifest_stream ::
  "string \<Rightarrow> char list \<Rightarrow> nat \<Rightarrow> char list \<Rightarrow> nat \<Rightarrow> string list \<Rightarrow> bb_err_t \<times> char list option \<times> char list option"
where
  "manifest_stream board tag tcap url ucap chs =
     (case bb_release_manifest_parse_github_stream_begin (Some board) (Some tag) tcap (Some url) ucap of
        (rc, None) \<Rightarrow> (rc, Some tag, Some url)
      | (_, Some s) \<Rightarrow>
          (case bb_release_manifest_parse_github_stream_end
                  (fold (\<lambda>ch s. snd (bb_release_manifest_parse_github_stream_feed s ch)) chs s) of
             (rc, st) \<Rightarrow> (rc, Some (tag_out st), Some (url_out st))))"

lemma stream_feeds: "fold (\<lambda>ch s. snd (bb_release_manifest_parse_github_stream_feed s ch)) chs s =
    feed_all bb_release_manifest_sink_ingest s chs"
  by (induction chs arbitrary: s) (simp_all add: bb_release_manifest_parse_github_stream_feed_def split: prod.splits)

lemma manifest_stream_scan:
  assumes "2 \<le> tcap" "2 \<le> ucap"
  shows "manifest_stream board tag tcap url ucap chs =
    (case scan_chunks bb_release_manifest_sink_ingest (bb_release_manifest_sink_init board tag tcap url ucap) chs of
       (rc, st) \<Rightarrow> (case bb_release_manifest_sink_finalize st rc of (rc, st) \<Rightarrow> (rc, Some (tag_out st), Some (url_out st))))"
  using assms
  by (simp add: manifest_stream_def bb_release_manifest_parse_github_stream_begin_def bb_serialize_json_scan_begin_def
      scan_begin_internal_def stream_feeds bb_release_manifest_parse_github_stream_end_def scan_chunks_def split: prod.splits)

lemma finalize_hard: "manifest_hard rc \<Longrightarrow> fst (bb_release_manifest_sink_finalize st rc) \<noteq> BB_OK"
  by (auto simp: manifest_hard_def bb_release_manifest_sink_finalize_def Let_def)

text \<open>C30: The streaming parser is the buffered one. Whatever the chunks a response arrives in, and wherever they cut
  it (inside a key, an escape, a multi-byte sequence or a number), the stream finds the release exactly when parsing the
  whole response in one buffer does, and then it has written the same tag and the same download address; otherwise
  both report failure.\<close>

theorem manifest_stream_equals_buffered:
  assumes "concat chs = body" and "2 \<le> tcap" and "2 \<le> ucap"
  shows "(let (rs, ts, us) = manifest_stream board tag tcap url ucap chs;
              (rb, tb, ub) = bb_release_manifest_parse_github (Some body) (Some board) (Some tag) tcap (Some url) ucap
          in rs = BB_OK \<and> rb = BB_OK \<and> ts = tb \<and> us = ub \<or> rs \<noteq> BB_OK \<and> rb \<noteq> BB_OK)"
proof -
  let ?sk = bb_release_manifest_sink_ingest and ?st = "bb_release_manifest_sink_init board tag tcap url ucap"
  have "same manifest_hard (scan_chunks ?sk ?st chs) (bb_serialize_json_scan_bounded ?sk ?st body)"
    by (rule manifest.chunks_bounded [OF assms(1)])
  then show ?thesis
    using assms(2,3) finalize_hard
    by (auto simp: manifest_stream_scan bb_release_manifest_parse_github_def same_def split: prod.splits) (metis fst_conv)+
qed

definition sample_manifest :: "string list" where
  "sample_manifest =
     [''{\"tag_na'', ''me\":\"v'' @ [CHR 0x5C] @ ''u00'', ''31\",\"assets\":[{\"name\":\"b.bin\",'', ''\"browser_download_url\":\"http'', ''\"}]}'']"

lemma sample_manifest_parsed:
  "bb_release_manifest_parse_github (Some (concat sample_manifest)) (Some ''b'') (Some (replicate 4 (CHR ''x''))) 4
     (Some (replicate 6 (CHR ''x''))) 6 =
   (BB_OK, Some [CHR ''v'', CHR ''1'', NUL, CHR ''x''], Some (''http'' @ [NUL, CHR ''x'']))"
  by code_simp

theorem manifest_stream_equals_buffered_witness:
  "manifest_stream ''b'' (replicate 4 (CHR ''x'')) 4 (replicate 6 (CHR ''x'')) 6 sample_manifest =
   (BB_OK, Some [CHR ''v'', CHR ''1'', NUL, CHR ''x''], Some (''http'' @ [NUL, CHR ''x'']))"
  using manifest_stream_equals_buffered 
    [where chs = sample_manifest and tcap = 4 and ucap = 6 and board = "''b''" and
      tag = "replicate 4 (CHR ''x'')" and url = "replicate 6 (CHR ''x'')", OF refl]
  by (simp add: sample_manifest_parsed split: prod.splits)

end
