(* ===== verification/BB_Serialize.thy ===== *)
theory BB_Serialize
  imports BB_JSON_Scan
begin

text \<open>
  The descriptor walker of \<^verbatim>\<open>components/bb_serialize\<close>: snapshot structs described by field tables, an emit vtable, and
  \<^verbatim>\<open>bb_serialize_walk\<close>. Memory is a map from addresses to bytes, read little-endian with the 8-byte pointers and sizes of the
  host; address 0 is NULL. Field tables are reached through pointers too, so a table may contain itself.
\<close>

section \<open>Memory\<close>

type_synonym mem = "nat \<Rightarrow> u8"

fun le_nat :: "mem \<Rightarrow> nat \<Rightarrow> nat \<Rightarrow> nat" where
  "le_nat m a 0 = 0"
| "le_nat m a (Suc n) = unat (m a) + 256 * le_nat m (a + 1) n"

definition rd64 :: "mem \<Rightarrow> nat \<Rightarrow> u64" where
  "rd64 m a = of_nat (le_nat m a 8)"

definition rd_bool :: "mem \<Rightarrow> nat \<Rightarrow> bool" where
  "rd_bool m a = (m a \<noteq> 0)"

definition rd_chars :: "mem \<Rightarrow> nat \<Rightarrow> nat \<Rightarrow> string" where
  "rd_chars m a n = map (\<lambda>i. char_of (unat (m (a + i)))) [0..<n]"

fun strnlen :: "mem \<Rightarrow> nat \<Rightarrow> nat \<Rightarrow> nat" where
  "strnlen m a 0 = 0"
| "strnlen m a (Suc n) = (if m a = 0 then 0 else Suc (strnlen m (a + 1) n))"

definition wr_bytes :: "mem \<Rightarrow> nat \<Rightarrow> u8 list \<Rightarrow> mem" where
  "wr_bytes m a bs = (\<lambda>b. if a \<le> b \<and> b < a + length bs then bs ! (b - a) else m b)"

lemma strnlen_le [simp]: "strnlen m a n \<le> n"
  by (induction m a n rule: strnlen.induct) auto

lemma rd_chars_length [simp]: "length (rd_chars m a n) = n"
  by (simp add: rd_chars_def)

section \<open>Descriptors and the emit vtable\<close>

datatype bb_type_t = BB_TYPE_I64 | BB_TYPE_U64 | BB_TYPE_F64 | BB_TYPE_BOOL | BB_TYPE_STR | BB_TYPE_STR_N | BB_TYPE_OBJ | BB_TYPE_ARR | BB_TYPE_REF

datatype bb_serialize_arr_cardinality_t = BB_ARR_FIXED | BB_ARR_STREAM

text \<open>A field; \<^verbatim>\<open>present\<close> is caller code, \<^verbatim>\<open>children\<close> points to a field table.\<close>

record bb_serialize_field_t =
  f_key :: json_key
  f_type :: bb_type_t
  f_offset :: nat
  f_present :: "(mem \<Rightarrow> nat \<Rightarrow> bool) option"
  f_children :: nat
  f_n_children :: nat
  f_max_len :: nat
  f_max_items :: nat
  f_elem_type :: bb_type_t
  f_elem_size :: nat
  f_cardinality :: bb_serialize_arr_cardinality_t
  f_ref_key :: string

record bb_serialize_desc_t =
  d_fields :: nat
  d_n_fields :: nat

record 's bb_serialize_emit_t =
  em_begin_obj :: "json_key \<Rightarrow> 's \<Rightarrow> 's"
  em_end_obj :: "'s \<Rightarrow> 's"
  em_begin_arr :: "json_key \<Rightarrow> 's \<Rightarrow> 's"
  em_end_arr :: "'s \<Rightarrow> 's"
  em_i64 :: "json_key \<Rightarrow> u64 \<Rightarrow> 's \<Rightarrow> 's"
  em_u64 :: "json_key \<Rightarrow> u64 \<Rightarrow> 's \<Rightarrow> 's"
  em_f64 :: "json_key \<Rightarrow> u64 \<Rightarrow> 's \<Rightarrow> 's"
  em_bool :: "json_key \<Rightarrow> bool \<Rightarrow> 's \<Rightarrow> 's"
  em_str :: "json_key \<Rightarrow> string \<Rightarrow> 's \<Rightarrow> 's"
  em_null :: "json_key \<Rightarrow> 's \<Rightarrow> 's"

text \<open>What the walker meets outside the snapshot: the field tables, the rows an iterator yields before it ends (by its \<^verbatim>\<open>next\<close>
  function and context), the address of the row buffer of each level, and the resolver of references.\<close>

record bb_serialize_ref_t =
  rf_desc :: "bb_serialize_desc_t option"
  rf_snap :: nat

record walk_env =
  we_table :: "nat \<Rightarrow> nat \<Rightarrow> bb_serialize_field_t"
  we_rows :: "nat \<Rightarrow> nat \<Rightarrow> u8 list list"
  we_row_buf :: "nat \<Rightarrow> nat"
  we_resolve :: "(string \<Rightarrow> bb_serialize_ref_t option) option"

definition resolved :: "walk_env \<Rightarrow> string \<Rightarrow> (bb_serialize_desc_t \<times> nat) option" where
  "resolved env k =
     (case we_resolve env of None \<Rightarrow> None
      | Some resolve \<Rightarrow> (case resolve k of None \<Rightarrow> None
          | Some ref \<Rightarrow> (case rf_desc ref of None \<Rightarrow> None | Some d \<Rightarrow> if rf_snap ref = 0 then None else Some (d, rf_snap ref))))"

text \<open>The walker reads a string array element through its pointer.\<close>

definition walk_str_elem :: "'s bb_serialize_emit_t \<Rightarrow> mem \<Rightarrow> nat \<Rightarrow> nat \<Rightarrow> 's \<Rightarrow> 's" where
  "walk_str_elem e m maxlen a s =
     (let p = le_nat m a 8
      in if p \<noteq> 0 then em_str e None (rd_chars m p (strnlen m p maxlen)) s else em_null e None s)"

section \<open>The walker\<close>

function walk_fields ::
  "walk_env \<Rightarrow> 's bb_serialize_emit_t \<Rightarrow> nat \<Rightarrow> nat \<Rightarrow> mem \<Rightarrow> nat \<Rightarrow> nat \<Rightarrow> 's \<Rightarrow> 's"
where
  "walk_fields env e fp n m snap depth s =
     fold (\<lambda>i s.
       let f = we_table env fp i; p = snap + f_offset f
       in if (case f_present f of None \<Rightarrow> False | Some present \<Rightarrow> \<not> present m snap) then s
          else case f_type f of
            BB_TYPE_I64 \<Rightarrow> em_i64 e (f_key f) (rd64 m p) s
          | BB_TYPE_U64 \<Rightarrow> em_u64 e (f_key f) (rd64 m p) s
          | BB_TYPE_F64 \<Rightarrow> em_f64 e (f_key f) (rd64 m p) s
          | BB_TYPE_BOOL \<Rightarrow> em_bool e (f_key f) (rd_bool m p) s
          | BB_TYPE_STR \<Rightarrow> em_str e (f_key f) (rd_chars m p (strnlen m p (f_max_len f))) s
          | BB_TYPE_STR_N \<Rightarrow>
              (let q = le_nat m p 8
               in if q \<noteq> 0 then em_str e (f_key f) (rd_chars m q (le_nat m (p + 8) 8)) s else em_null e (f_key f) s)
          | BB_TYPE_OBJ \<Rightarrow>
              if BB_SERIALIZE_MAX_DEPTH \<le> depth then s
              else em_end_obj e (walk_fields env e (f_children f) (f_n_children f) m p (depth + 1) (em_begin_obj e (f_key f) s))
          | BB_TYPE_ARR \<Rightarrow>
              em_end_arr e
                (if f_cardinality f = BB_ARR_STREAM then
                   (let nxt = le_nat m p 8; ctx = le_nat m (p + 8) 8
                    in if nxt \<noteq> 0 \<and> \<not> BB_SERIALIZE_MAX_DEPTH \<le> depth
                       then fold (\<lambda>row s.
                              em_end_obj e (walk_fields env e (f_children f) (f_n_children f)
                                (wr_bytes m (we_row_buf env depth) row) (we_row_buf env depth) (depth + 1) (em_begin_obj e None s)))
                            (we_rows env nxt ctx) (em_begin_arr e (f_key f) s)
                       else em_begin_arr e (f_key f) s)
                 else
                   (let items = le_nat m p 8; count = le_nat m (p + 8) 8
                    in if items = 0 then em_begin_arr e (f_key f) s
                       else if f_elem_type f = BB_TYPE_OBJ then
                         (if BB_SERIALIZE_MAX_DEPTH \<le> depth then em_begin_arr e (f_key f) s
                          else fold (\<lambda>j s.
                                 em_end_obj e (walk_fields env e (f_children f) (f_n_children f) m (items + j * f_elem_size f) (depth + 1)
                                   (em_begin_obj e None s)))
                               [0..<count] (em_begin_arr e (f_key f) s))
                       else case f_elem_type f of
                         BB_TYPE_STR \<Rightarrow> fold (\<lambda>j. walk_str_elem e m (f_max_len f) (items + 8 * j)) [0..<count] (em_begin_arr e (f_key f) s)
                       | BB_TYPE_I64 \<Rightarrow> fold (\<lambda>j. em_i64 e None (rd64 m (items + 8 * j))) [0..<count] (em_begin_arr e (f_key f) s)
                       | BB_TYPE_U64 \<Rightarrow> fold (\<lambda>j. em_u64 e None (rd64 m (items + 8 * j))) [0..<count] (em_begin_arr e (f_key f) s)
                       | BB_TYPE_F64 \<Rightarrow> fold (\<lambda>j. em_f64 e None (rd64 m (items + 8 * j))) [0..<count] (em_begin_arr e (f_key f) s)
                       | BB_TYPE_BOOL \<Rightarrow> fold (\<lambda>j. em_bool e None (rd_bool m (items + j))) [0..<count] (em_begin_arr e (f_key f) s)
                       | _ \<Rightarrow> em_begin_arr e (f_key f) s))
          | BB_TYPE_REF \<Rightarrow>
              if BB_SERIALIZE_MAX_DEPTH \<le> depth then s
              else (case resolved env (f_ref_key f) of
                      None \<Rightarrow> s
                    | Some (d, rsnap) \<Rightarrow>
                        em_end_obj e (walk_fields env e (d_fields d) (d_n_fields d) m rsnap (depth + 1) (em_begin_obj e (f_key f) s))))
       [0..<n] s"
  by pat_completeness auto
termination by (relation "measure (\<lambda>(env, e, fp, n, m, snap, depth, s). BB_SERIALIZE_MAX_DEPTH - depth)") auto

declare walk_fields.simps [simp del]

text \<open>The descriptor and the snapshot of a walk; the vtable is passed beside them, the resolver is in the environment.\<close>

record walk_cfg =
  wc_desc :: "bb_serialize_desc_t option"
  wc_snap :: nat

definition bb_serialize_walk :: "walk_env \<Rightarrow> 's bb_serialize_emit_t option \<Rightarrow> mem \<Rightarrow> walk_cfg option \<Rightarrow> 's \<Rightarrow> 's" where
  "bb_serialize_walk env emit m cfg s =
     (case cfg of None \<Rightarrow> s
      | Some c \<Rightarrow> (case wc_desc c of None \<Rightarrow> s
          | Some d \<Rightarrow> if wc_snap c = 0 then s
                       else (case emit of None \<Rightarrow> s | Some e \<Rightarrow> walk_fields env e (d_fields d) (d_n_fields d) m (wc_snap c) 0 s)))"

definition bb_serialize_desc_find :: "walk_env \<Rightarrow> bb_serialize_desc_t option \<Rightarrow> json_key \<Rightarrow> nat option" where
  "bb_serialize_desc_find env desc key =
     (case (desc, key) of
        (Some d, Some k) \<Rightarrow> find (\<lambda>i. f_key (we_table env (d_fields d) i) = Some k) [0..<d_n_fields d]
      | _ \<Rightarrow> None)"

section \<open>What a snapshot holds\<close>

text \<open>The tree of values that a descriptor shows of a snapshot.\<close>

datatype snap_val =
    SV_I64 u64 | SV_U64 u64 | SV_F64 u64 | SV_bool bool | SV_str string | SV_null
  | SV_obj "(json_key \<times> snap_val) list" | SV_arr "snap_val list"

definition str_elem :: "mem \<Rightarrow> nat \<Rightarrow> nat \<Rightarrow> snap_val" where
  "str_elem m maxlen a = (let p = le_nat m a 8 in if p \<noteq> 0 then SV_str (rd_chars m p (strnlen m p maxlen)) else SV_null)"

function snap_members :: "walk_env \<Rightarrow> nat \<Rightarrow> nat \<Rightarrow> mem \<Rightarrow> nat \<Rightarrow> nat \<Rightarrow> (json_key \<times> snap_val) list" where
  "snap_members env fp n m snap depth =
     concat (map (\<lambda>i.
       let f = we_table env fp i; p = snap + f_offset f
       in if (case f_present f of None \<Rightarrow> False | Some present \<Rightarrow> \<not> present m snap) then []
          else case f_type f of
            BB_TYPE_I64 \<Rightarrow> [(f_key f, SV_I64 (rd64 m p))]
          | BB_TYPE_U64 \<Rightarrow> [(f_key f, SV_U64 (rd64 m p))]
          | BB_TYPE_F64 \<Rightarrow> [(f_key f, SV_F64 (rd64 m p))]
          | BB_TYPE_BOOL \<Rightarrow> [(f_key f, SV_bool (rd_bool m p))]
          | BB_TYPE_STR \<Rightarrow> [(f_key f, SV_str (rd_chars m p (strnlen m p (f_max_len f))))]
          | BB_TYPE_STR_N \<Rightarrow>
              (let q = le_nat m p 8
               in [(f_key f, if q \<noteq> 0 then SV_str (rd_chars m q (le_nat m (p + 8) 8)) else SV_null)])
          | BB_TYPE_OBJ \<Rightarrow>
              if BB_SERIALIZE_MAX_DEPTH \<le> depth then []
              else [(f_key f, SV_obj (snap_members env (f_children f) (f_n_children f) m p (depth + 1)))]
          | BB_TYPE_ARR \<Rightarrow>
              [(f_key f, SV_arr
                (if f_cardinality f = BB_ARR_STREAM then
                   (let nxt = le_nat m p 8; ctx = le_nat m (p + 8) 8
                    in if nxt \<noteq> 0 \<and> \<not> BB_SERIALIZE_MAX_DEPTH \<le> depth
                       then map (\<lambda>row. SV_obj (snap_members env (f_children f) (f_n_children f)
                                (wr_bytes m (we_row_buf env depth) row) (we_row_buf env depth) (depth + 1)))
                            (we_rows env nxt ctx)
                       else [])
                 else
                   (let items = le_nat m p 8; count = le_nat m (p + 8) 8
                    in if items = 0 then []
                       else if f_elem_type f = BB_TYPE_OBJ then
                         (if BB_SERIALIZE_MAX_DEPTH \<le> depth then []
                          else map (\<lambda>j. SV_obj (snap_members env (f_children f) (f_n_children f) m (items + j * f_elem_size f) (depth + 1)))
                               [0..<count])
                       else case f_elem_type f of
                         BB_TYPE_STR \<Rightarrow> map (\<lambda>j. str_elem m (f_max_len f) (items + 8 * j)) [0..<count]
                       | BB_TYPE_I64 \<Rightarrow> map (\<lambda>j. SV_I64 (rd64 m (items + 8 * j))) [0..<count]
                       | BB_TYPE_U64 \<Rightarrow> map (\<lambda>j. SV_U64 (rd64 m (items + 8 * j))) [0..<count]
                       | BB_TYPE_F64 \<Rightarrow> map (\<lambda>j. SV_F64 (rd64 m (items + 8 * j))) [0..<count]
                       | BB_TYPE_BOOL \<Rightarrow> map (\<lambda>j. SV_bool (rd_bool m (items + j))) [0..<count]
                       | _ \<Rightarrow> [])))]
          | BB_TYPE_REF \<Rightarrow>
              if BB_SERIALIZE_MAX_DEPTH \<le> depth then []
              else (case resolved env (f_ref_key f) of
                      None \<Rightarrow> []
                    | Some (d, rsnap) \<Rightarrow> [(f_key f, SV_obj (snap_members env (d_fields d) (d_n_fields d) m rsnap (depth + 1)))]))
       [0..<n])"
  by pat_completeness auto
termination by (relation "measure (\<lambda>(env, fp, n, m, snap, depth). BB_SERIALIZE_MAX_DEPTH - depth)") auto

declare snap_members.simps [simp del]

text \<open>A tree told to an emit vtable.\<close>

fun emit_val :: "'s bb_serialize_emit_t \<Rightarrow> json_key \<Rightarrow> snap_val \<Rightarrow> 's \<Rightarrow> 's" where
  "emit_val e key (SV_I64 v) s = em_i64 e key v s"
| "emit_val e key (SV_U64 v) s = em_u64 e key v s"
| "emit_val e key (SV_F64 v) s = em_f64 e key v s"
| "emit_val e key (SV_bool b) s = em_bool e key b s"
| "emit_val e key (SV_str t) s = em_str e key t s"
| "emit_val e key SV_null s = em_null e key s"
| "emit_val e key (SV_obj ms) s = em_end_obj e (fold (\<lambda>(k, v). emit_val e k v) ms (em_begin_obj e key s))"
| "emit_val e key (SV_arr vs) s = em_end_arr e (fold (emit_val e None) vs (em_begin_arr e key s))"

definition emit_members :: "'s bb_serialize_emit_t \<Rightarrow> (json_key \<times> snap_val) list \<Rightarrow> 's \<Rightarrow> 's" where
  "emit_members e ms s = fold (\<lambda>(k, v). emit_val e k v) ms s"

lemma emit_members_simps [simp]: "emit_members e [] s = s" "emit_members e ((k, v) # ms) s = emit_members e ms (emit_val e k v s)"
  by (simp_all add: emit_members_def)

lemma emit_obj [simp]: "emit_val e key (SV_obj ms) s = em_end_obj e (emit_members e ms (em_begin_obj e key s))"
  by (simp add: emit_members_def)

declare emit_val.simps(7) [simp del]

lemma str_elem_emit: "walk_str_elem e m maxlen a s = emit_val e None (str_elem m maxlen a) s"
  by (simp add: walk_str_elem_def str_elem_def Let_def)

lemma fold_fields: "(\<And>i s. g i s = emit_members e (h i) s) \<Longrightarrow> fold g xs s = emit_members e (concat (map h xs)) s"
  by (induction xs arbitrary: s) (simp_all add: emit_members_def)

lemma fold_elems: "(\<And>j s. g j s = emit_val e None (h j) s) \<Longrightarrow> fold g xs s = fold (emit_val e None) (map h xs) s"
  by (induction xs arbitrary: s) simp_all

lemma fold_tells:
  "fold (\<lambda>j s. em_end_obj e (emit_members e (M j) (em_begin_obj e None s))) xs s = fold (emit_val e None) (map (\<lambda>j. SV_obj (M j)) xs) s"
  "fold (\<lambda>j. walk_str_elem e m l (a j)) xs s = fold (emit_val e None) (map (\<lambda>j. str_elem m l (a j)) xs) s"
  "fold (\<lambda>j. em_i64 e None (w j)) xs s = fold (emit_val e None) (map (\<lambda>j. SV_I64 (w j)) xs) s"
  "fold (\<lambda>j. em_u64 e None (w j)) xs s = fold (emit_val e None) (map (\<lambda>j. SV_U64 (w j)) xs) s"
  "fold (\<lambda>j. em_f64 e None (w j)) xs s = fold (emit_val e None) (map (\<lambda>j. SV_F64 (w j)) xs) s"
  "fold (\<lambda>j. em_bool e None (b j)) xs s = fold (emit_val e None) (map (\<lambda>j. SV_bool (b j)) xs) s"
  by (rule fold_elems; simp add: str_elem_emit)+

text \<open>Walking a snapshot tells the vtable the tree the descriptor shows of it.\<close>

lemma walk_tells: "walk_fields env e fp n m snap depth s = emit_members e (snap_members env fp n m snap depth) s"
proof (induction "BB_SERIALIZE_MAX_DEPTH - depth" arbitrary: fp n m snap depth s rule: less_induct)
  case less
  have IH: "walk_fields env e fp n m snap (Suc depth) s = emit_members e (snap_members env fp n m snap (Suc depth)) s"
    if "\<not> BB_SERIALIZE_MAX_DEPTH \<le> depth" for fp n m snap s
    using that by (intro less) simp
  show ?case
    unfolding walk_fields.simps [of env e fp] snap_members.simps [of env fp]
    apply (rule fold_fields)
    subgoal for i s
      by (cases "f_type (we_table env fp i)"; cases "f_elem_type (we_table env fp i)";
        simp add: Let_def IH fold_tells str_elem_emit split: option.split)
    done
qed

section \<open>Nesting\<close>

text \<open>At most \<^verbatim>\<open>k\<close> containers inside one another.\<close>

fun nested :: "nat \<Rightarrow> snap_val \<Rightarrow> bool" where
  "nested k (SV_obj ms) \<longleftrightarrow> 0 < k \<and> (\<forall>(key, v) \<in> set ms. nested (k - 1) v)"
| "nested k (SV_arr vs) \<longleftrightarrow> 0 < k \<and> (\<forall>v \<in> set vs. nested (k - 1) v)"
| "nested k _ \<longleftrightarrow> True"

lemma nested_str_elem [simp]: "nested k (str_elem m l a)"
  by (simp add: str_elem_def Let_def)

lemma nested_mono: "nested k v \<Longrightarrow> k \<le> l \<Longrightarrow> nested l v"
proof (induction v arbitrary: k l)
  case (SV_obj ms)
  have "nested (l - 1) v" if "(key, v) \<in> set ms" for key v
    using SV_obj.IH [of "(key, v)" v "k - 1" "l - 1"] SV_obj.prems that by auto
  then show ?case using SV_obj.prems by auto
next
  case (SV_arr vs)
  have "nested (l - 1) v" if "v \<in> set vs" for v
    using SV_arr.IH [of v "k - 1" "l - 1"] SV_arr.prems that by auto
  then show ?case using SV_arr.prems by auto
qed simp_all

text \<open>One level of the walker costs two containers at most.\<close>

lemma snap_nested: "\<forall>(key, v) \<in> set (snap_members env fp n m snap depth). nested (2 * (BB_SERIALIZE_MAX_DEPTH - depth) + 1) v"
proof (induction "BB_SERIALIZE_MAX_DEPTH - depth" arbitrary: fp n m snap depth rule: less_induct)
  case less
  have IH: "nested (2 * (BB_SERIALIZE_MAX_DEPTH - depth)) (SV_obj (snap_members env fp n m snap (Suc depth)))" if "\<not> BB_SERIALIZE_MAX_DEPTH \<le> depth" for fp n m snap
  proof -
    have "\<forall>(key, v) \<in> set (snap_members env fp n m snap (Suc depth)). nested (2 * (BB_SERIALIZE_MAX_DEPTH - Suc depth) + 1) v"
      using that by (intro less) simp
    moreover have "2 * (BB_SERIALIZE_MAX_DEPTH - depth) - 1 = 2 * (BB_SERIALIZE_MAX_DEPTH - Suc depth) + 1" using that by simp
    ultimately show ?thesis using that by simp
  qed
  have obj: "nested (Suc (2 * (BB_SERIALIZE_MAX_DEPTH - depth))) (SV_obj (snap_members env fp n m snap (Suc depth)))" if "\<not> BB_SERIALIZE_MAX_DEPTH \<le> depth" for fp n m snap
    by (rule nested_mono [OF IH [OF that]]) simp
  show ?case
    unfolding snap_members.simps [of env fp] set_concat set_map UN_simps ball_UN
    apply (rule ballI)
    subgoal for i
      by (cases "f_type (we_table env fp i)"; cases "f_elem_type (we_table env fp i)";
        auto simp: Let_def obj IH simp del: nested.simps(1) split: option.splits if_splits)
    done
qed

section \<open>Emit back ends\<close>

text \<open>What a back end keeps through each of its callbacks it keeps through a walk of any snapshot by any descriptor.\<close>

locale emit_backend =
  fixes e :: "'s bb_serialize_emit_t" and inv :: "'s \<Rightarrow> bool"
  assumes keeps_begin: "inv s \<Longrightarrow> inv (em_begin_obj e key s)" "inv s \<Longrightarrow> inv (em_begin_arr e key s)"
    and keeps_end: "inv s \<Longrightarrow> inv (em_end_obj e s)" "inv s \<Longrightarrow> inv (em_end_arr e s)"
    and keeps_scalar: "inv s \<Longrightarrow> inv (em_i64 e key w s)" "inv s \<Longrightarrow> inv (em_u64 e key w s)" "inv s \<Longrightarrow> inv (em_f64 e key w s)"
      "inv s \<Longrightarrow> inv (em_bool e key b s)" "inv s \<Longrightarrow> inv (em_str e key t s)" "inv s \<Longrightarrow> inv (em_null e key s)"
begin

lemma fold_keeps: "(\<And>x s. x \<in> set xs \<Longrightarrow> inv s \<Longrightarrow> inv (g x s)) \<Longrightarrow> inv s \<Longrightarrow> inv (fold g xs s)"
  by (induction xs arbitrary: s) simp_all

lemma emit_val_keeps: "inv s \<Longrightarrow> inv (emit_val e key v s)"
proof (induction v arbitrary: key s)
  case (SV_obj ms)
  then show ?case
    unfolding emit_val.simps by (intro keeps_end fold_keeps keeps_begin) (auto split: prod.splits)
qed (auto intro!: keeps_begin keeps_end keeps_scalar fold_keeps)

lemma emit_members_keeps: "inv s \<Longrightarrow> inv (emit_members e ms s)"
  unfolding emit_members_def by (rule fold_keeps) (auto intro: emit_val_keeps)

lemma walk_keeps: "inv s \<Longrightarrow> inv (bb_serialize_walk env (Some e) m cfg s)"
  by (simp add: bb_serialize_walk_def walk_tells emit_members_keeps split: option.split)

end

end
