(* ===== verification/BB_JSON_Contract.thy ===== *)
theory BB_JSON_Contract
  imports BB_JSON_Chunks "HOL-Library.Sublist"
begin

text \<open>
  What the scanner promises whatever it is fed and whatever its sink does: its own state stays within its arrays, and
  every callback gets what the header promises (keys and numbers that fit the scratch buffer, number text of the JSON
  grammar, spans that lie inside the caller's bytes or are one decoded character).
\<close>

section \<open>Number text\<close>

definition digits :: "string \<Rightarrow> bool" where
  "digits ds \<longleftrightarrow> ds \<noteq> [] \<and> (\<forall>d \<in> set ds. is_digit d)"

definition opt_minus :: "string set" where "opt_minus = {[], ''-''}"

definition fraction :: "string set" where "fraction = {[]} \<union> {CHR ''.'' # ds | ds. digits ds}"

definition exp_mark :: "string set" where
  "exp_mark = {[e] | e. e = CHR ''e'' \<or> e = CHR ''E''}"

definition exponent :: "string set" where
  "exponent = {[]} \<union> {m @ g @ ds | m g ds. m \<in> exp_mark \<and> g \<in> {[], ''+'', ''-''} \<and> digits ds}"

text \<open>The grammar of a number, leading zeros allowed.\<close>

definition json_number :: "string \<Rightarrow> bool" where
  "json_number t \<longleftrightarrow> (\<exists>m i f e. t = m @ i @ f @ e \<and> m \<in> opt_minus \<and> digits i \<and> f \<in> fraction \<and> e \<in> exponent)"

text \<open>What has been read of a number in each phase.\<close>

definition int_text :: "string \<Rightarrow> bool" where
  "int_text t \<longleftrightarrow> (\<exists>m i. t = m @ i \<and> m \<in> opt_minus \<and> digits i)"

definition frac_text :: "string \<Rightarrow> bool" where
  "frac_text t \<longleftrightarrow> (\<exists>a f. t = a @ f \<and> int_text a \<and> f \<in> fraction)"

fun num_prefix :: "num_phase_t \<Rightarrow> string \<Rightarrow> bool" where
  "num_prefix NUM_START t = (t = ''-'')"
| "num_prefix NUM_INT_DIGITS t = int_text t"
| "num_prefix NUM_FRAC_START t = (\<exists>a. t = a @ ''.'' \<and> int_text a)"
| "num_prefix NUM_FRAC_DIGITS t = (\<exists>a ds. t = a @ ''.'' @ ds \<and> int_text a \<and> digits ds)"
| "num_prefix NUM_EXP_START t = (\<exists>a m. t = a @ m \<and> frac_text a \<and> m \<in> exp_mark)"
| "num_prefix NUM_EXP_SIGN t = (\<exists>a m g. t = a @ m @ g \<and> frac_text a \<and> m \<in> exp_mark \<and> g \<in> {''+'', ''-''})"
| "num_prefix NUM_EXP_DIGITS t =
     (\<exists>a m g ds. t = a @ m @ g @ ds \<and> frac_text a \<and> m \<in> exp_mark \<and> g \<in> {[], ''+'', ''-''} \<and> digits ds)"

lemma digits_simps [simp]:
  "digits (ds @ [c]) \<longleftrightarrow> is_digit c \<and> (ds = [] \<or> digits ds)"
  "digits [c] \<longleftrightarrow> is_digit c"
  "\<not> digits []"
  by (auto simp: digits_def)

lemma int_textI: "m \<in> opt_minus \<Longrightarrow> digits i \<Longrightarrow> int_text (m @ i)"
  unfolding int_text_def by blast

lemma int_text_snoc: "int_text t \<Longrightarrow> is_digit c \<Longrightarrow> int_text (t @ [c])"
proof -
  assume "int_text t" and c: "is_digit c"
  then obtain m i where "t = m @ i" "m \<in> opt_minus" "digits i" unfolding int_text_def by blast
  then show ?thesis using c int_textI [of m "i @ [c]"] by simp
qed

lemma int_text_first: "is_digit c \<Longrightarrow> int_text [c]" "is_digit c \<Longrightarrow> int_text [CHR ''-'', c]"
  using int_textI [of "[]" "[c]"] int_textI [of "''-''" "[c]"] by (simp_all add: opt_minus_def)

lemma frac_textI: "int_text a \<Longrightarrow> f \<in> fraction \<Longrightarrow> frac_text (a @ f)"
  unfolding frac_text_def by blast

lemma int_is_frac: "int_text t \<Longrightarrow> frac_text t"
  using frac_textI [of t "[]"] by (simp add: fraction_def)

lemma frac_text_frac: "int_text a \<Longrightarrow> digits ds \<Longrightarrow> frac_text (a @ ''.'' @ ds)"
  by (rule frac_textI) (auto simp: fraction_def)

lemma exp_mark_mem: "[c] \<in> exp_mark \<longleftrightarrow> c = CHR ''e'' \<or> c = CHR ''E''"
  by (simp add: exp_mark_def)

lemma prefix_intros:
  "int_text a \<Longrightarrow> digits ds \<Longrightarrow> num_prefix NUM_FRAC_DIGITS (a @ ''.'' @ ds)"
  "frac_text a \<Longrightarrow> m \<in> exp_mark \<Longrightarrow> num_prefix NUM_EXP_START (a @ m)"
  "frac_text a \<Longrightarrow> m \<in> exp_mark \<Longrightarrow> g \<in> {''+'', ''-''} \<Longrightarrow> num_prefix NUM_EXP_SIGN (a @ m @ g)"
  "frac_text a \<Longrightarrow> m \<in> exp_mark \<Longrightarrow> g \<in> {[], ''+'', ''-''} \<Longrightarrow> digits ds \<Longrightarrow> num_prefix NUM_EXP_DIGITS (a @ m @ g @ ds)"
  by (simp, blast)+

lemmas num_prefix_exp [simp del] = num_prefix.simps(4-7)

lemma num_next_prefix:
  assumes "num_prefix p t" and "num_next p c = Num_to p'"
  shows "num_prefix p' (t @ [c])"
proof (cases p)
  case NUM_START
  then show ?thesis using assms by (auto split: if_splits simp: int_text_first)
next
  case NUM_INT_DIGITS
  then consider "p' = NUM_INT_DIGITS" "is_digit c" | "p' = NUM_FRAC_START" "c = CHR ''.''" | "p' = NUM_EXP_START" "[c] \<in> exp_mark"
    using assms by (auto split: if_splits simp: exp_mark_mem)
  then show ?thesis using assms NUM_INT_DIGITS int_text_snoc prefix_intros(2) [OF int_is_frac] by cases auto
next
  case NUM_FRAC_START
  then obtain a where "t = a @ ''.''" "int_text a" "p' = NUM_FRAC_DIGITS" "is_digit c" using assms by (auto split: if_splits)
  then show ?thesis using prefix_intros(1) [of a "[c]"] by simp
next
  case NUM_FRAC_DIGITS
  then obtain a ds where t: "t = a @ ''.'' @ ds" "int_text a" "digits ds" using assms by (auto simp: num_prefix_exp)
  have "p' = NUM_FRAC_DIGITS \<and> is_digit c \<or> p' = NUM_EXP_START \<and> [c] \<in> exp_mark"
    using NUM_FRAC_DIGITS assms by (auto split: if_splits simp: exp_mark_mem)
  then show ?thesis using prefix_intros(1) [of a "ds @ [c]"] prefix_intros(2) [OF frac_text_frac, of a ds "[c]"] t by auto
next
  case NUM_EXP_START
  then obtain a m where t: "t = a @ m" "frac_text a" "m \<in> exp_mark" using assms by (auto simp: num_prefix_exp)
  have "p' = NUM_EXP_SIGN \<and> [c] \<in> {''+'', ''-''} \<or> p' = NUM_EXP_DIGITS \<and> is_digit c"
    using NUM_EXP_START assms by (auto split: if_splits)
  then show ?thesis using prefix_intros(3) [of a m "[c]"] prefix_intros(4) [of a m "[]" "[c]"] t by auto
next
  case NUM_EXP_SIGN
  then obtain a m g where t: "t = a @ m @ g" "frac_text a" "m \<in> exp_mark" "g \<in> {''+'', ''-''}"
    using assms by (auto simp: num_prefix_exp)
  have "p' = NUM_EXP_DIGITS" "is_digit c" using NUM_EXP_SIGN assms by (auto split: if_splits)
  then show ?thesis using prefix_intros(4) [of a m g "[c]"] t by auto
next
  case NUM_EXP_DIGITS
  then obtain a m g ds where t: "t = a @ m @ g @ ds" "frac_text a" "m \<in> exp_mark" "g \<in> {[], ''+'', ''-''}" "digits ds"
    using assms by (auto simp: num_prefix_exp)
  have "p' = NUM_EXP_DIGITS" "is_digit c" using NUM_EXP_DIGITS assms by (auto split: if_splits)
  then show ?thesis using prefix_intros(4) [of a m g "ds @ [c]"] t by auto
qed

lemma json_number_parts: "frac_text a \<Longrightarrow> e \<in> exponent \<Longrightarrow> json_number (a @ e)"
  unfolding json_number_def frac_text_def int_text_def by (elim exE conjE) (intro exI conjI, auto)

lemma num_terminal_json:
  assumes "num_prefix p t" and "num_phase_is_terminal p"
  shows "json_number t"
proof -
  have none: "json_number a" if "frac_text a" for a using json_number_parts [OF that, of "[]"] by (simp add: exponent_def)
  have exp: "json_number t" if p: "num_prefix NUM_EXP_DIGITS t"
  proof -
    obtain a m g ds where t: "t = a @ m @ g @ ds" "frac_text a" "m \<in> exp_mark" "g \<in> {[], ''+'', ''-''}" "digits ds"
      using p unfolding num_prefix.simps by blast
    then have "m @ g @ ds \<in> exponent" unfolding exponent_def by blast
    then show ?thesis using t json_number_parts by simp
  qed
  have frac: "json_number t" if p: "num_prefix NUM_FRAC_DIGITS t"
    using p none [OF frac_text_frac] unfolding num_prefix.simps by blast
  show ?thesis using assms none [OF int_is_frac] frac exp by (cases p) (simp_all add: num_phase_is_terminal_def)
qed

lemma num_end_terminal: "num_next p c = Num_end \<Longrightarrow> num_phase_is_terminal p"
  by (cases p) (auto simp: num_phase_is_terminal_def split: if_splits)

section \<open>Decoded characters\<close>

text \<open>The UTF-8 bytes of a code point, by arithmetic.\<close>

definition utf8_bytes :: "nat \<Rightarrow> string" where
  "utf8_bytes n = map char_of
     (if n < 0x80 then [n]
      else if n < 0x800 then [0xC0 + n div 0x40, 0x80 + n mod 0x40]
      else if n < 0x10000 then [0xE0 + n div 0x1000, 0x80 + n div 0x40 mod 0x40, 0x80 + n mod 0x40]
      else [0xF0 + n div 0x40000, 0x80 + n div 0x1000 mod 0x40, 0x80 + n div 0x40 mod 0x40, 0x80 + n mod 0x40 :: nat])"

definition scalar_value :: "nat \<Rightarrow> bool" where
  "scalar_value n \<longleftrightarrow> n \<le> 0x10FFFF \<and> \<not> (0xD800 \<le> n \<and> n \<le> 0xDFFF)"

lemma or_is_add: "m < 2 ^ k \<Longrightarrow> push_bit k b OR m = push_bit k b + (m :: nat)"
proof -
  assume "m < 2 ^ k"
  then have m: "take_bit k m = m" by (simp add: take_bit_nat_eq_self)
  have "push_bit k b AND take_bit k m = 0" by (rule bit_eqI) (auto simp: bit_simps)
  then show ?thesis unfolding m by (rule disjunctive_add_eq_or [symmetric])
qed

lemma lead_bytes:
  "m < 32 \<Longrightarrow> 192 OR m = 192 + (m :: nat)" "m < 16 \<Longrightarrow> 224 OR m = 224 + (m :: nat)"
  "m < 8 \<Longrightarrow> 240 OR m = 240 + (m :: nat)" "m < 64 \<Longrightarrow> 128 OR m = 128 + (m :: nat)"
  using or_is_add [of m 5 6] or_is_add [of m 4 14] or_is_add [of m 3 30] or_is_add [of m 6 2] by simp_all

lemma unat_low_bits: "unat (x AND 0x3F :: u32) = unat x mod 64"
proof -
  have "unat (x AND 0x3F) = unat x AND 63" by (simp add: unsigned_and_eq)
  also have "\<dots> = unat x AND mask 6" by (simp add: mask_eq_exp_minus_1)
  finally show ?thesis by (simp add: take_bit_eq_mod flip: take_bit_eq_mask)
qed

lemma unat_drop_bit: "unat (drop_bit k x :: u32) = unat x div 2 ^ k"
  using take_bit_nat_eq_self [OF unsigned_less [of x]]
  by (simp only: unsigned_drop_bit_eq) (simp add: drop_bit_eq_div)

lemma utf8_encode_bytes: "unat cp \<le> 0x10FFFF \<Longrightarrow> utf8_encode cp = utf8_bytes (unat cp)"
proof -
  assume b: "unat cp \<le> 0x10FFFF"
  have low: "128 OR m mod 64 = 128 + m mod (64 :: nat)" for m by (rule lead_bytes(4)) simp
  have l: "cp \<le> 0x7F \<longleftrightarrow> unat cp < 0x80" "cp \<le> 0x7FF \<longleftrightarrow> unat cp < 0x800" "cp \<le> 0xFFFF \<longleftrightarrow> unat cp < 0x10000"
    by (auto simp: word_le_nat_alt)
  have d: "unat cp < 2048 \<Longrightarrow> unat cp div 64 < 32" "unat cp < 65536 \<Longrightarrow> unat cp div 4096 < 16" "unat cp div 262144 < 8"
    using b by linarith+
  show ?thesis
    using d by (simp add: utf8_encode_def utf8_bytes_def byte_def l unsigned_or_eq unat_low_bits unat_drop_bit low lead_bytes)
qed

lemma utf8_bytes_length: "utf8_bytes n \<noteq> []" "length (utf8_bytes n) \<le> 4"
  by (simp_all add: utf8_bytes_def)

section \<open>The contract of a callback\<close>

definition key_ok :: "json_key \<Rightarrow> bool" where
  "key_ok key \<longleftrightarrow> (case key of None \<Rightarrow> True | Some k \<Rightarrow> 0 < length k \<and> length k \<le> BB_SERIALIZE_JSON_SCRATCH_MAX_BYTES)"

text \<open>A span is a piece of the bytes at hand, or one decoded character; it is empty only as the last piece of a string
  whose closing quote comes at once, after the opening quote or at the start of a chunk.\<close>

definition span_ok :: "bool \<Rightarrow> string \<Rightarrow> span_ptr \<Rightarrow> string \<Rightarrow> bool \<Rightarrow> bb_serialize_json_span_t \<Rightarrow> bool" where
  "span_ok bounded buf p d fin prov \<longleftrightarrow>
     (case p of
        None \<Rightarrow> prov = SPAN_SCANNER_SCRATCH \<and> (\<exists>n. scalar_value n \<and> d = utf8_bytes n)
      | Some i \<Rightarrow>
          prov = (if bounded then SPAN_CALLER_STABLE else SPAN_CALLER_FEED_SCOPED) \<and>
          i + length d < length buf + (if fin then 0 else 1) \<and> d = take (length d) (drop i buf) \<and>
          (d = [] \<longrightarrow> fin \<and> buf ! i = CHR 0x22 \<and> (i = 0 \<or> buf ! (i - 1) = CHR 0x22)))"

definition guarded ::
  "bool \<Rightarrow> string \<Rightarrow> ('k \<Rightarrow> bb_err_t \<times> 'k) \<Rightarrow> 'k bb_serialize_json_ingest_t \<Rightarrow> 'k bb_serialize_json_ingest_t"
where
  "guarded bounded buf bad sk =
     \<lparr>in_begin_obj = (\<lambda>k key. if key_ok key then in_begin_obj sk k key else bad k), in_end_obj = in_end_obj sk,
      in_begin_arr = (\<lambda>k key. if key_ok key then in_begin_arr sk k key else bad k), in_end_arr = in_end_arr sk,
      in_value_num = (\<lambda>k key num.
        if key_ok key \<and> json_number num \<and> length num \<le> BB_SERIALIZE_JSON_SCRATCH_MAX_BYTES then in_value_num sk k key num
        else bad k),
      in_value_bool = (\<lambda>k key v. if key_ok key then in_value_bool sk k key v else bad k),
      in_value_null = (\<lambda>k key. if key_ok key then in_value_null sk k key else bad k),
      in_value_str_chunk = (\<lambda>k key p d fin prov.
        if key_ok key \<and> span_ok bounded buf p d fin prov then in_value_str_chunk sk k key p d fin prov else bad k)\<rparr>"

section \<open>The scanner's state\<close>

text \<open>Every index stays in its array, at all times.\<close>

definition mem_ok :: "'k scan_state_t \<Rightarrow> bool" where
  "mem_ok s \<longleftrightarrow> length (sc_obj_stack s) = BB_SERIALIZE_MAX_DEPTH \<and> sc_depth s \<le> BB_SERIALIZE_MAX_DEPTH \<and>
     length (sc_scratch s) \<le> BB_SERIALIZE_JSON_SCRATCH_MAX_BYTES \<and> sc_key_len s \<le> length (sc_scratch s)"

definition in_object :: "'k scan_state_t \<Rightarrow> bool" where
  "in_object s \<longleftrightarrow> 0 < sc_depth s \<and> \<not> sc_obj_stack s ! (sc_depth s - 1)"

definition in_array :: "'k scan_state_t \<Rightarrow> bool" where
  "in_array s \<longleftrightarrow> 0 < sc_depth s \<and> sc_obj_stack s ! (sc_depth s - 1)"

definition esc_ok :: "'k scan_state_t \<Rightarrow> bool" where
  "esc_ok s \<longleftrightarrow> (sc_esc_phase s \<in> {ESC_LOW_BACKSLASH, ESC_LOW_U, ESC_LOW_U1, ESC_LOW_U2, ESC_LOW_U3, ESC_LOW_U4} \<longrightarrow>
     0xD800 \<le> unat (sc_esc_high_surrogate s) \<and> unat (sc_esc_high_surrogate s) \<le> 0xDBFF)"

text \<open>What each phase relies on, while no error has been met.\<close>

definition phase_ok :: "'k scan_state_t \<Rightarrow> bool" where
  "phase_ok s \<longleftrightarrow>
     (case sc_phase s of
        PH_ROOT \<Rightarrow> sc_depth s = 0
      | PH_AFTER_ROOT \<Rightarrow> sc_depth s = 0
      | PH_OBJ_KEY_OR_CLOSE \<Rightarrow> in_object s
      | PH_OBJ_KEY_ONLY \<Rightarrow> in_object s
      | PH_KEY_STR \<Rightarrow> in_object s \<and> esc_ok s
      | PH_OBJ_COLON \<Rightarrow> in_object s \<and> sc_key_len s = length (sc_scratch s)
      | PH_OBJ_VALUE \<Rightarrow> in_object s \<and> sc_key_len s = length (sc_scratch s)
      | PH_OBJ_AFTER_VALUE \<Rightarrow> in_object s
      | PH_ARR_ELEM_OR_CLOSE \<Rightarrow> in_array s
      | PH_ARR_ELEM_ONLY \<Rightarrow> in_array s
      | PH_ARR_AFTER_VALUE \<Rightarrow> in_array s
      | PH_VAL_STR \<Rightarrow> esc_ok s
      | PH_VAL_NUM \<Rightarrow> num_prefix (sc_num_phase s) (drop (sc_key_len s) (sc_scratch s))
      | PH_VAL_LIT \<Rightarrow> sc_lit_matched s < length (lit_text (sc_lit_kind s)))"

text \<open>The outcome of a part of the loop: the memory is in order, and so is the phase unless an error ends the scan.\<close>

definition outcome_ok :: "bb_err_t \<times> 'k scan_state_t \<Rightarrow> bool" where
  "outcome_ok r \<longleftrightarrow> mem_ok (snd r) \<and> (fst r = BB_OK \<longrightarrow> phase_ok (snd r))"

lemma key_ok_cur: "mem_ok s \<Longrightarrow> key_ok (cur_key s)"
  by (auto simp: key_ok_def cur_key_def mem_ok_def)

lemma after_value_phase_ok: "phase_ok (s\<lparr>sc_phase := after_value_phase s\<rparr>)"
  by (simp add: phase_ok_def after_value_phase_def in_object_def in_array_def)

lemma mem_ok_updates [simp]:
  "mem_ok (s\<lparr>sc_ctx := x1\<rparr>) = mem_ok s" "mem_ok (s\<lparr>sc_phase := x2\<rparr>) = mem_ok s" "mem_ok (s\<lparr>sc_err := x3\<rparr>) = mem_ok s"
  "mem_ok (s\<lparr>sc_num_phase := x4\<rparr>) = mem_ok s" "mem_ok (s\<lparr>sc_lit_kind := x5\<rparr>) = mem_ok s"
  "mem_ok (s\<lparr>sc_lit_matched := x6\<rparr>) = mem_ok s" "mem_ok (s\<lparr>sc_esc_phase := x7\<rparr>) = mem_ok s"
  "mem_ok (s\<lparr>sc_esc_code_unit := x8\<rparr>) = mem_ok s" "mem_ok (s\<lparr>sc_esc_high_surrogate := x9\<rparr>) = mem_ok s"
  by (simp_all add: mem_ok_def)

lemma finalize_number_contract:
  assumes "mem_ok s" and "json_number (drop (sc_key_len s) (sc_scratch s))"
  shows "finalize_number (guarded bd buf bad sk) s = finalize_number sk s" "outcome_ok (finalize_number sk s)"
  using assms key_ok_cur [OF assms(1)] after_value_phase_ok
  by (auto simp: finalize_number_def guarded_def sink_call_def outcome_ok_def mem_ok_def split: prod.splits)

lemma emit_literal_contract:
  assumes "mem_ok s"
  shows "emit_literal (guarded bd buf bad sk) s = emit_literal sk s" "mem_ok (snd (emit_literal sk s))"
  using assms key_ok_cur [OF assms]
  by (auto simp: emit_literal_def guarded_def sink_call_def split: prod.splits)

lemma close_container_contract:
  assumes "mem_ok s"
  shows "close_container (guarded bd buf bad sk) s = close_container sk s" "outcome_ok (close_container sk s)"
  using assms after_value_phase_ok
  by (auto simp: close_container_def guarded_def sink_call_def outcome_ok_def mem_ok_def Let_def split: prod.splits)

lemma scratch_append_mem: "mem_ok s \<Longrightarrow> mem_ok (snd (scratch_append s d))"
  by (simp add: scratch_append_def mem_ok_def)

section \<open>One byte of structure\<close>

lemma open_container_contract:
  assumes "mem_ok s"
  shows "open_container (in_begin_obj (guarded bd buf bad sk)) a ph s = open_container (in_begin_obj sk) a ph s"
    and "open_container (in_begin_arr (guarded bd buf bad sk)) a ph s = open_container (in_begin_arr sk) a ph s"
    and "outcome_ok (open_container f False PH_OBJ_KEY_OR_CLOSE s)"
    and "outcome_ok (open_container f True PH_ARR_ELEM_OR_CLOSE s)"
  using assms key_ok_cur [OF assms]
  by (auto simp: open_container_def guarded_def sink_call_def outcome_ok_def mem_ok_def phase_ok_def in_object_def in_array_def
      split: prod.splits)

lemma start_number_contract:
  assumes "mem_ok s" and "sc_key_len s = length (sc_scratch s)" and "num_prefix np [c]"
  shows "outcome_ok (start_number np c s)"
  using assms by (auto simp: start_number_def scratch_append_def outcome_ok_def mem_ok_def phase_ok_def)

lemma start_literal_contract: "mem_ok s \<Longrightarrow> outcome_ok (start_literal k s)"
  by (cases k) (simp_all add: start_literal_def outcome_ok_def phase_ok_def)

lemma dispatch_contract:
  assumes "mem_ok s" and "keyed \<Longrightarrow> sc_key_len s = length (sc_scratch s)"
  shows "dispatch_value_start (guarded bd buf bad sk) s c keyed = dispatch_value_start sk s c keyed"
    and "outcome_ok (dispatch_value_start sk s c keyed)"
proof -
  define s1 where "s1 = (if \<not> keyed then s\<lparr>sc_key_len := 0, sc_scratch := []\<rparr> else s)"
  have s1: "mem_ok s1" "sc_key_len s1 = length (sc_scratch s1)" using assms by (auto simp: s1_def mem_ok_def)
  note simps = dispatch_value_start_def Let_def s1_def [symmetric] open_container_contract [OF s1(1)]
  show "dispatch_value_start (guarded bd buf bad sk) s c keyed = dispatch_value_start sk s c keyed" by (simp add: simps)
  have str: "outcome_ok (BB_OK, s1\<lparr>sc_esc_phase := ESC_NONE, sc_phase := PH_VAL_STR\<rparr>)"
    using s1 by (simp add: outcome_ok_def phase_ok_def esc_ok_def)
  have num: "outcome_ok (start_number NUM_START CHR ''-'' s1)" "is_digit c \<Longrightarrow> outcome_ok (start_number NUM_INT_DIGITS c s1)"
    using start_number_contract [OF s1] by (simp_all add: int_text_first)
  have err: "outcome_ok (BB_ERR_PARSE_GRAMMAR, s1)" using s1 by (simp add: outcome_ok_def)
  show "outcome_ok (dispatch_value_start sk s c keyed)"
    using str num err start_literal_contract [OF s1(1)] by (auto simp: simps)
qed

lemma begin_key_contract: "mem_ok s \<Longrightarrow> in_object s \<Longrightarrow> outcome_ok (BB_OK, begin_key s)"
  by (simp add: begin_key_def outcome_ok_def mem_ok_def phase_ok_def in_object_def esc_ok_def)

lemma token_step_contract:
  assumes "mem_ok s" and "phase_ok s"
  shows "token_step (guarded bd buf bad sk) s c = token_step sk s c" and "outcome_ok (token_step sk s c)"
proof -
  note parts = close_container_contract [OF assms(1)] dispatch_contract [OF assms(1)] begin_key_contract [OF assms(1)]
  show "token_step (guarded bd buf bad sk) s c = token_step sk s c"
    using assms(2) by (cases "sc_phase s") (simp_all add: token_step_def parts phase_ok_def)
  have err: "outcome_ok (BB_ERR_PARSE_GRAMMAR, s)" using assms by (simp add: outcome_ok_def)
  show "outcome_ok (token_step sk s c)"
    using assms by (cases "sc_phase s")
      (auto simp: token_step_def parts err phase_ok_def, auto simp: outcome_ok_def phase_ok_def in_object_def in_array_def)
qed

section \<open>Strings\<close>

text \<open>What the string loop leaves alone.\<close>

definition str_frame :: "'k scan_state_t \<Rightarrow> 'k scan_state_t \<Rightarrow> bool" where
  "str_frame s s' \<longleftrightarrow> sc_phase s' = sc_phase s \<and> sc_depth s' = sc_depth s \<and> sc_obj_stack s' = sc_obj_stack s \<and>
     sc_key_len s' = sc_key_len s \<and> sc_bounded_mode s' = sc_bounded_mode s"

lemma str_frame_refl [simp]: "str_frame s s"
  by (simp add: str_frame_def)

lemma str_frame_trans: "str_frame s s' \<Longrightarrow> str_frame s' s'' \<Longrightarrow> str_frame s s''"
  by (simp add: str_frame_def)

lemma str_frame_esc [simp]: "str_frame s (s'\<lparr>sc_esc_phase := x\<rparr>) = str_frame s s'"
  by (simp add: str_frame_def)

lemma utf8_ascii: "n < 0x80 \<Longrightarrow> [char_of n] = utf8_bytes n"
  by (simp add: utf8_bytes_def)

lemma simple_escape_scalar: "simple_escape c = Some x \<Longrightarrow> \<exists>n. scalar_value n \<and> [x] = utf8_bytes n"
proof -
  assume "simple_escape c = Some x"
  then have "(of_char x :: nat) < 0x80" by (auto simp: simple_escape_def split: if_splits)
  then show ?thesis using utf8_ascii [of "of_char x"] by (auto simp: scalar_value_def intro!: exI [of _ "of_char x"])
qed

lemma unat_u16: "unat (u :: u16) < 0x10000"
proof -
  have "unat u < 2 ^ LENGTH(16)" by (rule unsigned_less)
  then show ?thesis by simp
qed

lemma unat_u16_u32: "unat (ucast (u :: u16) :: u32) = unat u"
proof -
  have "unat u < 2 ^ LENGTH(32)" using unat_u16 [of u] by simp
  then show ?thesis unfolding unsigned_ucast_eq by (rule take_bit_nat_eq_self)
qed

lemma unat_of_small: "n < 2 ^ 32 \<Longrightarrow> unat (of_nat n :: u32) = n"
  by (simp add: unat_of_nat)

lemma u32_of_nat: "(ucast (u :: u16) :: u32) = of_nat (unat u)"
proof -
  have "unat (of_nat (unat u) :: u32) = unat u" by (rule unat_of_small) (use unat_u16 [of u] in simp)
  then show ?thesis by (simp only: word_unat_eq_iff unat_u16_u32)
qed

lemma code_unit_scalar:
  fixes u :: u16
  assumes "\<not> (0xD800 \<le> u \<and> u \<le> 0xDBFF)" and "\<not> (0xDC00 \<le> u \<and> u \<le> 0xDFFF)"
  shows "\<exists>n. scalar_value n \<and> utf8_encode (ucast u) = utf8_bytes n"
proof -
  have "unat u < 0x10000" by (rule unat_u16)
  moreover have u: "unat (ucast u :: u32) = unat u" by (rule unat_u16_u32)
  moreover have "\<not> (0xD800 \<le> unat u \<and> unat u \<le> 0xDFFF)" using assms by (auto simp: word_le_nat_alt)
  ultimately have "scalar_value (unat u)" by (simp add: scalar_value_def)
  then show ?thesis using utf8_encode_bytes [of "ucast u"] u by (auto simp: scalar_value_def)
qed

lemma pair_nat: "0xD800 \<le> a \<Longrightarrow> 0xDC00 \<le> b \<Longrightarrow>
    0x10000 + push_bit 10 (of_nat a - 0xD800) + (of_nat b - 0xDC00) = (of_nat (0x10000 + (a - 0xD800) * 1024 + (b - 0xDC00)) :: u32)"
  by (simp add: push_bit_eq_mult of_nat_diff)

lemma pair_scalar:
  fixes h u :: u16
  assumes "0xD800 \<le> unat h" "unat h \<le> 0xDBFF" "0xDC00 \<le> unat u" "unat u \<le> 0xDFFF"
  shows "\<exists>n. scalar_value n \<and> utf8_encode (0x10000 + push_bit 10 (ucast h - 0xD800) + (ucast u - 0xDC00)) = utf8_bytes n"
proof -
  define n where "n = 0x10000 + (unat h - 0xD800) * 1024 + (unat u - 0xDC00)"
  have n: "n \<le> 0x10FFFF" "0x10000 \<le> n" using assms by (auto simp: n_def)
  have "0x10000 + push_bit 10 (ucast h - 0xD800) + (ucast u - 0xDC00) = (of_nat n :: u32)"
    unfolding u32_of_nat n_def using assms by (intro pair_nat)
  moreover have "unat (of_nat n :: u32) = n" using n by (simp add: unat_of_nat)
  moreover have "scalar_value n" using n by (simp add: scalar_value_def)
  ultimately show ?thesis using utf8_encode_bytes [of "of_nat n"] n by auto
qed

lemma escape_frame: "scan_escape_byte s c = (rc, s', d) \<Longrightarrow> mem_ok s' = mem_ok s \<and> str_frame s s' \<and> sc_scratch s' = sc_scratch s"
  by (auto simp: scan_escape_byte_def Let_def str_frame_def split: esc_phase_t.splits option.splits if_splits)

lemma escape_contract:
  assumes "scan_escape_byte s c = (BB_OK, s', d)" and "esc_ok s"
  shows "esc_ok s'" and "if d = [] then sc_esc_phase s' \<noteq> ESC_NONE else sc_esc_phase s' = ESC_NONE \<and> (\<exists>n. scalar_value n \<and> d = utf8_bytes n)"
proof -
  show "esc_ok s'" using assms
    by (auto simp: scan_escape_byte_def Let_def esc_ok_def word_le_nat_alt split: esc_phase_t.splits option.splits if_splits)
  have enc: "utf8_encode x \<noteq> []" for x by (simp add: utf8_encode_def)
  show "if d = [] then sc_esc_phase s' \<noteq> ESC_NONE else sc_esc_phase s' = ESC_NONE \<and> (\<exists>n. scalar_value n \<and> d = utf8_bytes n)"
    using assms simple_escape_scalar code_unit_scalar pair_scalar enc
    by (cases "sc_esc_phase s")
      (auto simp: scan_escape_byte_def Let_def esc_ok_def word_le_nat_alt word_less_nat_alt not_less split: option.splits if_splits)
qed

lemma emit_contract:
  assumes "mem_ok s" and "is_key \<or> span_ok bd buf p d fin prov"
  shows "emit_str_bytes (guarded bd buf bad sk) s p d fin is_key prov = emit_str_bytes sk s p d fin is_key prov"
  using assms key_ok_cur [OF assms(1)] by (auto simp: emit_str_bytes_def guarded_def sink_call_def)

lemma emit_keeps:
  assumes "emit_str_bytes sk s p d fin is_key prov = (rc, s')"
  shows "str_frame s s'" "sc_esc_phase s' = sc_esc_phase s" "esc_ok s' = esc_ok s" "mem_ok s \<Longrightarrow> mem_ok s'"
proof -
  have "(\<exists>k. s' = s\<lparr>sc_ctx := k\<rparr>) \<or> s' = snd (scratch_append s d)"
    using assms by (auto simp: emit_str_bytes_def sink_call_def split: if_splits prod.splits)
  moreover have "snd (scratch_append s d) \<in> {s, s\<lparr>sc_scratch := sc_scratch s @ d\<rparr>}" by (simp add: scratch_append_def)
  moreover have "esc_ok (s\<lparr>sc_ctx := k\<rparr>) = esc_ok s" "esc_ok (s\<lparr>sc_scratch := x\<rparr>) = esc_ok s" for k x
    by (simp_all add: esc_ok_def)
  ultimately have "str_frame s s' \<and> sc_esc_phase s' = sc_esc_phase s \<and> esc_ok s' = esc_ok s \<and> (mem_ok s \<longrightarrow> mem_ok s')"
    using scratch_append_mem [of s d] by (auto simp: str_frame_def)
  then show "str_frame s s'" "sc_esc_phase s' = sc_esc_phase s" "esc_ok s' = esc_ok s" "mem_ok s \<Longrightarrow> mem_ok s'" by simp_all
qed

text \<open>Where the loop may meet a closing quote first.\<close>

definition span_start :: "string \<Rightarrow> string \<Rightarrow> bool" where
  "span_start buf cs \<longleftrightarrow> cs = [] \<or> hd cs \<noteq> CHR 0x22 \<or> cs = buf \<or> (\<exists>zs. buf = zs @ CHR 0x22 # cs)"

lemma span_final:
  assumes "suffix cs buf" and "span_start buf cs" and "scan_run cs = Some (run, CHR 0x22 # rest)"
    and "prov = (if bd then SPAN_CALLER_STABLE else SPAN_CALLER_FEED_SCOPED)"
  shows "span_ok bd buf (Some (length buf - length cs)) run True prov"
proof -
  obtain zs where b: "buf = zs @ cs" using assms(1) by (auto simp: suffix_def)
  have cs: "cs = run @ CHR 0x22 # rest" by (rule scan_run_split [OF assms(3)])
  have "zs = [] \<or> last zs = CHR 0x22" if "run = []"
    using assms(2) that b cs by (auto simp: span_start_def)
  then show ?thesis using assms(4) b cs by (cases "zs = []") (auto simp: span_ok_def nth_append last_conv_nth)
qed

lemma span_open:
  assumes "suffix cs buf" and "scan_run cs = Some (run, rest)" and "run \<noteq> []"
    and "prov = (if bd then SPAN_CALLER_STABLE else SPAN_CALLER_FEED_SCOPED)"
  shows "span_ok bd buf (Some (length buf - length cs)) run False prov"
  using assms scan_run_split [OF assms(2)] by (auto simp: span_ok_def suffix_def)

lemma span_decoded: "scalar_value n \<Longrightarrow> d = utf8_bytes n \<Longrightarrow> span_ok bd buf None d fin SPAN_SCANNER_SCRATCH"
  by (auto simp: span_ok_def)

lemma suffix_steps: "suffix (c # cs) buf \<Longrightarrow> suffix cs buf" "suffix (r @ c # cs) buf \<Longrightarrow> suffix cs buf"
  by (auto simp: suffix_def)

text \<open>The outcome of the string loop.\<close>

definition string_ok :: "'k scan_state_t \<Rightarrow> string \<Rightarrow> 'k scan_result \<Rightarrow> bool" where
  "string_ok s cs r \<longleftrightarrow> (case r of (rc, s', rest, closed) \<Rightarrow>
     mem_ok s' \<and> str_frame s s' \<and> suffix rest cs \<and> (rc = BB_OK \<longrightarrow> esc_ok s') \<and> (closed \<longrightarrow> (\<exists>zs. cs = zs @ CHR 0x22 # rest)))"

lemma string_ok_later:
  assumes "string_ok s' cs' r" "str_frame s s'" "suffix cs' cs"
  shows "string_ok s cs r"
  using assms by (auto simp: string_ok_def str_frame_def suffix_def)

lemma scan_string_contract:
  fixes sk :: "'k bb_serialize_json_ingest_t"
  assumes "suffix cs buf" and "mem_ok s" and "esc_ok s" and "sc_bounded_mode s = bd"
    and "sc_esc_phase s = ESC_NONE \<Longrightarrow> span_start buf cs"
  shows "scan_string (guarded bd buf bad sk) (length buf) is_key s cs = scan_string sk (length buf) is_key s cs \<and>
    string_ok s cs (scan_string sk (length buf) is_key s cs)"
  using assms
proof (induction cs arbitrary: s rule: length_induct)
  case (1 cs)
  let ?g = "guarded bd buf bad sk" and ?n = "length buf"
  note IH = "1.IH" [rule_format]
  note prems = "1.prems"
  show ?case
  proof (cases cs)
    case Nil
    then show ?thesis using prems by (simp add: scan_string.simps string_ok_def)
  next
    case (Cons c rest)
    show ?thesis
    proof (cases "sc_esc_phase s = ESC_NONE")
      case False
      obtain rc s1 d where e: "scan_escape_byte s c = (rc, s1, d)" by (cases "scan_escape_byte s c") auto
      have fr: "mem_ok s1" "str_frame s s1" "sc_bounded_mode s1 = bd"
        using escape_frame [OF e] prems by (auto simp: str_frame_def)
      have suf: "suffix rest buf" "suffix rest cs" using prems(1) Cons suffix_steps by (auto intro: suffix_ConsI)
      have step: "scan_string h ?n is_key s cs =
          (if rc \<noteq> BB_OK then (rc, s1, cs, False)
           else if d = [] then scan_string h ?n is_key s1 rest
           else if rest \<noteq> [] \<and> hd rest = CHR 0x22 then
             (case emit_str_bytes h s1 None d True is_key SPAN_SCANNER_SCRATCH of
                (rc, s2) \<Rightarrow> if rc \<noteq> BB_OK then (rc, s2, tl rest, False) else (BB_OK, s2, tl rest, True))
           else
             (case emit_str_bytes h s1 None d False is_key SPAN_SCANNER_SCRATCH of
                (rc, s2) \<Rightarrow> if rc \<noteq> BB_OK then (rc, s2, rest, False) else scan_string h ?n is_key s2 rest))" for h
        using False by (subst scan_string.simps) (simp add: Cons e)
      show ?thesis
      proof (cases "rc = BB_OK")
        case False
        then show ?thesis using fr by (simp add: step string_ok_def)
      next
        case True
        note ok = escape_contract [OF e [unfolded True] prems(3)]
        show ?thesis
        proof (cases "d = []")
          case d: True
          then have "scan_string ?g ?n is_key s1 rest = scan_string sk ?n is_key s1 rest \<and> string_ok s1 rest (scan_string sk ?n is_key s1 rest)"
            using IH [of rest s1] fr suf ok Cons by simp
          then show ?thesis using True d string_ok_later [OF _ fr(2) suf(2)] by (simp add: step)
        next
          case d: False
          then obtain n where n: "scalar_value n" "d = utf8_bytes n" and none: "sc_esc_phase s1 = ESC_NONE" using ok by auto
          have em: "emit_str_bytes ?g s1 None d fin is_key SPAN_SCANNER_SCRATCH = emit_str_bytes sk s1 None d fin is_key SPAN_SCANNER_SCRATCH"
            for fin using emit_contract [OF fr(1)] span_decoded [OF n] by blast
          define fin where "fin = (rest \<noteq> [] \<and> hd rest = CHR 0x22)"
          obtain rc2 s2 where e2: "emit_str_bytes sk s1 None d fin is_key SPAN_SCANNER_SCRATCH = (rc2, s2)" by fastforce
          note k = emit_keeps [OF e2]
          have fr2: "mem_ok s2" "str_frame s s2" "sc_bounded_mode s2 = bd" "esc_ok s2"
            using k fr ok str_frame_trans by (auto simp: str_frame_def)
          show ?thesis
          proof (cases fin)
            case f: True
            then obtain r where r: "rest = CHR 0x22 # r" by (cases rest) (auto simp: fin_def)
            have *: "scan_string h ?n is_key s cs = (if rc2 \<noteq> BB_OK then (rc2, s2, r, False) else (BB_OK, s2, r, True))"
              if "emit_str_bytes h s1 None d True is_key SPAN_SCANNER_SCRATCH = (rc2, s2)" for h
              using that True d by (simp add: step r)
            let ?y = "if rc2 \<noteq> BB_OK then (rc2, s2, r, False) else (BB_OK, s2, r, True)"
            have "scan_string ?g ?n is_key s cs = ?y" "scan_string sk ?n is_key s cs = ?y" by (intro *; use em e2 f in simp)+
            moreover have "string_ok s cs ?y" using fr2 Cons r by (auto simp: string_ok_def suffix_def)
            ultimately show ?thesis by simp
          next
            case f: False
            have st: "span_start buf rest" using f by (auto simp: fin_def span_start_def)
            have *: "scan_string h ?n is_key s cs = (if rc2 \<noteq> BB_OK then (rc2, s2, rest, False) else scan_string h ?n is_key s2 rest)"
              if "emit_str_bytes h s1 None d False is_key SPAN_SCANNER_SCRATCH = (rc2, s2)" for h
              using that True d f by (auto simp: step fin_def)
            have both: "scan_string ?g ?n is_key s cs = (if rc2 \<noteq> BB_OK then (rc2, s2, rest, False) else scan_string ?g ?n is_key s2 rest)"
              "scan_string sk ?n is_key s cs = (if rc2 \<noteq> BB_OK then (rc2, s2, rest, False) else scan_string sk ?n is_key s2 rest)"
              by (intro *; use em e2 f in simp)+
            have "scan_string ?g ?n is_key s2 rest = scan_string sk ?n is_key s2 rest \<and> string_ok s2 rest (scan_string sk ?n is_key s2 rest)"
              using IH [of rest s2] fr2 suf st Cons by simp
            then show ?thesis using string_ok_later [OF _ fr2(2) suf(2)] fr2 suf by (simp add: both string_ok_def)
          qed
        qed
      qed
    next
      case none: True
      let ?p = "Some (?n - length cs)" and ?prov = "direct_span_provenance s"
      have step: "scan_string h ?n is_key s cs =
          (case scan_run cs of
             None \<Rightarrow> (BB_ERR_PARSE_GRAMMAR, s, cs, False)
           | Some (run, cs') \<Rightarrow>
               (case cs' of
                  [] \<Rightarrow>
                    if run \<noteq> [] then
                      (case emit_str_bytes h s ?p run False is_key ?prov of (rc, s1) \<Rightarrow> (rc, s1, [], False))
                    else (BB_OK, s, [], False)
                | q # cs'' \<Rightarrow>
                    if q = CHR 0x22 then
                      (case emit_str_bytes h s ?p run True is_key ?prov of
                         (rc, s1) \<Rightarrow> if rc \<noteq> BB_OK then (rc, s1, cs'', False) else (BB_OK, s1, cs'', True))
                    else if run \<noteq> [] then
                      (case emit_str_bytes h s ?p run False is_key ?prov of
                         (rc, s1) \<Rightarrow> if rc \<noteq> BB_OK then (rc, s1, cs', False)
                                     else scan_string h ?n is_key (s1\<lparr>sc_esc_phase := ESC_BACKSLASH\<rparr>) cs'')
                    else scan_string h ?n is_key (s\<lparr>sc_esc_phase := ESC_BACKSLASH\<rparr>) cs''))" for h
        using none by (subst scan_string.simps) (simp add: Cons Let_def del: scan_run.simps split: option.split list.split)
      have prov: "?prov = (if bd then SPAN_CALLER_STABLE else SPAN_CALLER_FEED_SCOPED)"
        using prems(4) by (simp add: direct_span_provenance_def)
      show ?thesis
      proof (cases "scan_run cs")
        case None
        then show ?thesis using prems by (simp add: step string_ok_def)
      next
        case (Some r)
        obtain run cs' where r: "scan_run cs = Some (run, cs')" using Some by (cases r) auto
        have split: "cs = run @ cs'" by (rule scan_run_split [OF r])
        have em: "emit_str_bytes ?g s ?p run False is_key ?prov = emit_str_bytes sk s ?p run False is_key ?prov" if "run \<noteq> []"
          using emit_contract [OF prems(2)] span_open [OF prems(1) r that prov] by blast
        show ?thesis
        proof (cases cs')
          case Nil
          have "run \<noteq> []" using split Nil Cons by auto
          moreover obtain rc1 s1 where e1: "emit_str_bytes sk s ?p run False is_key ?prov = (rc1, s1)" by fastforce
          ultimately show ?thesis using emit_keeps [OF e1] em prems(2-4) Nil
            by (simp add: step r string_ok_def)
        next
          case (Cons q cs'')
          have suf: "suffix cs'' cs" "suffix cs'' buf" "length cs'' < length cs"
            using split Cons prems(1) by (auto simp: suffix_def)
          have go: "scan_string ?g ?n is_key x cs'' = scan_string sk ?n is_key x cs'' \<and> string_ok x cs'' (scan_string sk ?n is_key x cs'')"
            if "mem_ok x" "str_frame s x" "sc_esc_phase x = ESC_BACKSLASH" for x
            using IH [of cs'' x] that suf prems by (simp add: str_frame_def esc_ok_def)
          show ?thesis
          proof (cases "q = CHR 0x22")
            case q: True
            have em': "emit_str_bytes ?g s ?p run True is_key ?prov = emit_str_bytes sk s ?p run True is_key ?prov"
              using emit_contract [OF prems(2)] span_final [OF prems(1) prems(5) [OF none] _ prov] r Cons q by blast
            obtain rc1 s1 where e1: "emit_str_bytes sk s ?p run True is_key ?prov = (rc1, s1)" by fastforce
            have "\<exists>zs. cs = zs @ CHR 0x22 # cs''" using split Cons q by blast
            then show ?thesis using emit_keeps [OF e1] em' prems(2-4) Cons q suf e1
              by (simp add: step r string_ok_def)
          next
            case q: False
            show ?thesis
            proof (cases "run = []")
              case True
              then show ?thesis using go [of "s\<lparr>sc_esc_phase := ESC_BACKSLASH\<rparr>"] prems q Cons
                  string_ok_later [of "s\<lparr>sc_esc_phase := ESC_BACKSLASH\<rparr>" cs'' _ s cs, OF _ _ suf(1)]
                by (simp add: step r)
            next
              case False
              obtain rc1 s1 where e1: "emit_str_bytes sk s ?p run False is_key ?prov = (rc1, s1)" by fastforce
              note k = emit_keeps [OF e1]
              let ?x = "s1\<lparr>sc_esc_phase := ESC_BACKSLASH\<rparr>"
              have "suffix cs' cs" using split by (auto simp: suffix_def)
              moreover have x: "mem_ok ?x" "str_frame s ?x" using k prems by simp_all
              ultimately show ?thesis using go [of ?x] k em [OF False] e1 prems(2-4) q Cons False
                  string_ok_later [OF _ x(2) suf(1)] by (simp add: step r) (simp add: string_ok_def)
            qed
          qed
        qed
      qed
    qed
  qed
qed

section \<open>The main loop\<close>

lemma mode_kept:
  assumes "\<And>b. f (set_mode b s) = in_mode b (f s)" and "f s = (rc, s')"
  shows "sc_bounded_mode s' = sc_bounded_mode s" and "sc_err s' = sc_err s"
proof -
  have "set_mode (sc_bounded_mode s, sc_err s) s = s" by (simp add: set_mode_def)
  then have e: "set_mode (sc_bounded_mode s, sc_err s) s' = s'"
    using assms(1) [of "(sc_bounded_mode s, sc_err s)"] assms(2) by simp
  have f: "sc_bounded_mode (set_mode b s') = fst b" "sc_err (set_mode b s') = snd b" for b by (simp_all add: set_mode_def)
  show "sc_bounded_mode s' = sc_bounded_mode s" using f(1) e by (metis fst_conv)
  show "sc_err s' = sc_err s" using f(2) e by (metis snd_conv)
qed

text \<open>A string starts with its quote.\<close>

definition str_ready :: "string \<Rightarrow> 'k scan_state_t \<Rightarrow> string \<Rightarrow> bool" where
  "str_ready buf s cs \<longleftrightarrow> (sc_phase s \<in> {PH_KEY_STR, PH_VAL_STR} \<and> sc_esc_phase s = ESC_NONE \<longrightarrow> span_start buf cs)"

lemma after_value_not_str: "after_value_phase s \<notin> {PH_KEY_STR, PH_VAL_STR}"
  by (simp add: after_value_phase_def)

lemma token_opens_string:
  assumes "token_step sk s c = (BB_OK, s')" and "sc_phase s' \<in> {PH_KEY_STR, PH_VAL_STR}" and "token_phase (sc_phase s)"
  shows "c = CHR 0x22"
proof -
  have avp: "PH_KEY_STR \<noteq> after_value_phase x" "PH_VAL_STR \<noteq> after_value_phase x" for x :: "'a scan_state_t"
    using after_value_not_str [of x] by auto
  have close: "sc_phase s' \<notin> {PH_KEY_STR, PH_VAL_STR}" if "close_container sk s = (BB_OK, s')"
    using that avp by (auto simp: close_container_def Let_def after_value_phase_def split: prod.splits if_splits)
  have dispatch: "c = CHR 0x22" if "dispatch_value_start sk s c k = (BB_OK, s')" for k
    using that assms(2)
    by (auto simp: dispatch_value_start_def Let_def open_container_def start_number_def start_literal_def split: prod.splits if_splits)
  show ?thesis using assms close dispatch
    by (cases "sc_phase s") (auto simp: token_step_def token_phase_def split: if_splits)
qed

definition outcome_in :: "bool \<Rightarrow> bb_err_t \<times> 'k scan_state_t \<Rightarrow> bool" where
  "outcome_in bd r \<longleftrightarrow> outcome_ok r \<and> sc_bounded_mode (snd r) = bd"

lemma drive_contract:
  assumes "suffix cs buf" and "mem_ok s" and "phase_ok s" and "sc_bounded_mode s = bd" and "str_ready buf s cs"
  shows "drive (guarded bd buf bad sk) (length buf) s cs = drive sk (length buf) s cs \<and>
    outcome_in bd (drive sk (length buf) s cs)"
  using assms
proof (induction "drive_rank s cs" arbitrary: s cs rule: less_induct)
  case less
  let ?g = "guarded bd buf bad sk" and ?n = "length buf"
  note prems = less.prems
  have ok: "outcome_in bd (rc, s)" for rc using prems by (simp add: outcome_in_def outcome_ok_def)
  have tail: "and_then r (\<lambda>s'. drive ?g ?n s' rest) = and_then r (\<lambda>s'. drive sk ?n s' rest) \<and>
      outcome_in bd (and_then r (\<lambda>s'. drive sk ?n s' rest))"
    if "outcome_in bd r" "suffix rest buf"
      "\<And>s'. r = (BB_OK, s') \<Longrightarrow> sc_bounded_mode s' = bd \<and> str_ready buf s' rest \<and> drive_rank s' rest < drive_rank s cs" for r rest
    using that less.hyps [of _ rest] by (cases r) (auto simp: and_then_if outcome_in_def outcome_ok_def)
  show ?case
  proof (cases cs)
    case Nil
    then show ?thesis using ok by (simp add: drive_nil)
  next
    case (Cons c cs1)
    consider (Token) "token_phase (sc_phase s)" | (Str) "sc_phase s \<in> {PH_KEY_STR, PH_VAL_STR}" | (Num) "sc_phase s = PH_VAL_NUM"
      | (Lit) "sc_phase s = PH_VAL_LIT" by (auto simp: token_phase_def)
    then show ?thesis
    proof cases
      case Token
      show ?thesis
      proof (cases "skip_ws cs")
        case Nil
        then show ?thesis using ok Token by (simp add: drive_token)
      next
        case (Cons d rest)
        note st = token_step_contract [OF prems(2,3)]
        obtain ws where w: "cs = ws @ d # rest" using Cons unfolding skip_ws_def by (metis takeWhile_dropWhile_id)
        have suf: "suffix rest buf" using prems(1) w suffix_steps(2) by metis
        have "sc_bounded_mode s' = bd \<and> str_ready buf s' rest \<and> drive_rank s' rest < drive_rank s cs"
          if t: "token_step sk s d = (BB_OK, s')" for s'
        proof -
          have "str_ready buf s' rest"
            using token_opens_string [OF t _ Token] prems(1) w by (auto simp: str_ready_def span_start_def suffix_def)
          then show ?thesis using mode_kept(1) [of "\<lambda>s. token_step sk s d", OF token_step_mode t] prems(4) skip_ws_length [OF Cons]
            by (simp add: rank_less)
        qed
        moreover have "outcome_in bd (token_step sk s d)"
          using st(2) [of sk d] mode_kept(1) [of "\<lambda>s. token_step sk s d", OF token_step_mode surjective_pairing] prems(4)
          by (simp add: outcome_in_def)
        ultimately show ?thesis using Token Cons tail [OF _ suf] by (simp add: drive_token st(1))
      qed
    next
      case Str
      define is_key where "is_key = (sc_phase s = PH_KEY_STR)"
      define fin where "fin = (\<lambda>s :: 'a scan_state_t. if is_key then s\<lparr>sc_key_len := length (sc_scratch s), sc_phase := PH_OBJ_COLON\<rparr>
        else s\<lparr>sc_phase := after_value_phase s\<rparr>)"
      obtain rc s1 rest closed where sc: "scan_string sk ?n is_key s cs = (rc, s1, rest, closed)" by (metis prod_cases4)
      have d: "drive h ?n s cs = (if rc \<noteq> BB_OK then (rc, s1) else if \<not> closed then (BB_OK, s1) else drive h ?n (fin s1) rest)"
        if "scan_string h ?n is_key s cs = (rc, s1, rest, closed)" for h
      proof (cases is_key)
        case True
        then have "sc_phase s = PH_KEY_STR" by (simp add: is_key_def)
        then show ?thesis using that True Cons by (simp add: drive.simps [of h ?n s "c # cs1"] drive_body_def fin_def)
      next
        case False
        then have "sc_phase s = PH_VAL_STR" using Str by (simp add: is_key_def)
        then show ?thesis using that False Cons by (simp add: drive.simps [of h ?n s "c # cs1"] drive_body_def fin_def)
      qed
      have "esc_ok s" using prems(3) Str by (auto simp: phase_ok_def)
      then have c: "scan_string ?g ?n is_key s cs = (rc, s1, rest, closed)" "string_ok s cs (rc, s1, rest, closed)"
        using scan_string_contract [OF prems(1,2) _ prems(4), of bad sk is_key] prems(5) Str sc by (auto simp: str_ready_def)
      have keep: "phase_ok s1" if "rc = BB_OK" "\<not> closed"
        using c(2) that prems(3) Str by (auto simp: string_ok_def str_frame_def phase_ok_def in_object_def)
      have fin: "mem_ok (fin s1)" "phase_ok (fin s1)" "sc_bounded_mode (fin s1) = bd" "str_ready buf (fin s1) rest"
        using c(2) prems Str after_value_phase_ok [of s1]
        by (auto simp: string_ok_def str_frame_def phase_ok_def in_object_def is_key_def fin_def mem_ok_def str_ready_def
            after_value_phase_def)
      have suf: "suffix rest buf" using c(2) prems(1) by (auto simp: string_ok_def intro: suffix_order.order_trans)
      have "drive ?g ?n (fin s1) rest = drive sk ?n (fin s1) rest \<and> outcome_in bd (drive sk ?n (fin s1) rest)" if "rc = BB_OK" "closed"
        using less.hyps [OF _ suf fin] scan_string_shorter [OF sc [unfolded that(1) iffD2 [OF eq_True that(2)]]] by (simp add: rank_less)
      then show ?thesis using c keep by (auto simp: d [OF c(1)] d [OF sc] outcome_in_def outcome_ok_def string_ok_def str_frame_def prems(4))
    next
      case Num
      have n: "num_prefix (sc_num_phase s) (drop (sc_key_len s) (sc_scratch s))" using prems(3) Num by (simp add: phase_ok_def)
      show ?thesis
      proof (cases "num_next (sc_num_phase s) c")
        case Num_error
        then show ?thesis using Num ok by (simp add: Cons drive_num)
      next
        case Num_end
        note f = finalize_number_contract [OF prems(2) num_terminal_json [OF n num_end_terminal [OF Num_end]]]
        have "sc_bounded_mode s' = bd \<and> str_ready buf s' cs \<and> drive_rank s' cs < drive_rank s cs"
          if "finalize_number sk s = (BB_OK, s')" for s'
        proof -
          obtain x :: "'a scan_state_t" where x: "sc_phase s' = after_value_phase x"
            using \<open>finalize_number sk s = (BB_OK, s')\<close> by (auto simp: finalize_number_def split: prod.splits if_splits)
          have "sc_phase s' \<notin> {PH_KEY_STR, PH_VAL_STR}" "sc_phase s' \<noteq> PH_VAL_NUM"
            unfolding x by (rule after_value_not_str after_value_not_num)+
          then show ?thesis
            using mode_kept(1) [of "finalize_number sk", OF finalize_number_mode that] prems(4) Num
            by (simp add: str_ready_def drive_rank_def)
        qed
        note later = this
        have "outcome_in bd (finalize_number sk s)"
          using f(2) [of sk] mode_kept(1) [of "finalize_number sk", OF finalize_number_mode surjective_pairing] prems(4)
          by (simp add: outcome_in_def)
        note all = tail [OF this prems(1) later]
        have "drive h ?n s cs = and_then (finalize_number h s) (\<lambda>s'. drive h ?n s' cs)" for h
          using Num Num_end by (simp add: Cons drive_num)
        then show ?thesis using all by (simp only: f(1))
      next
        case (Num_to p)
        have suf: "suffix cs1 buf" by (rule suffix_steps(1) [OF prems(1) [unfolded Cons]])
        obtain rc s1 where a: "scratch_append s [c] = (rc, s1)" by fastforce
        have m: "mem_ok s1" using scratch_append_mem [OF prems(2), of "[c]"] a by simp
        have b: "sc_bounded_mode s1 = bd" using a prems(4) by (auto simp: scratch_append_def split: if_splits)
        have "drive ?g ?n (s1\<lparr>sc_num_phase := p\<rparr>) cs1 = drive sk ?n (s1\<lparr>sc_num_phase := p\<rparr>) cs1 \<and>
            outcome_in bd (drive sk ?n (s1\<lparr>sc_num_phase := p\<rparr>) cs1)" if "rc = BB_OK"
        proof -
          have s1: "s1 = s\<lparr>sc_scratch := sc_scratch s @ [c]\<rparr>" using a that by (auto simp: scratch_append_def split: if_splits)
          have "phase_ok (s1\<lparr>sc_num_phase := p\<rparr>)"
            using num_next_prefix [OF n Num_to] Num prems(2) by (simp add: s1 phase_ok_def mem_ok_def)
          then show ?thesis using less.hyps [of "s1\<lparr>sc_num_phase := p\<rparr>" cs1] m suf prems(4) Num Cons
            by (simp add: s1 str_ready_def drive_rank_def)
        qed
        then show ?thesis using Num Num_to a m b by (auto simp: Cons drive_num and_then_if outcome_in_def outcome_ok_def)
      qed
    next
      case Lit
      let ?s1 = "s\<lparr>sc_lit_matched := sc_lit_matched s + 1\<rparr>"
      have suf: "suffix cs1 buf" by (rule suffix_steps(1) [OF prems(1) [unfolded Cons]])
      have m: "mem_ok ?s1" using prems(2) by simp
      note e = emit_literal_contract [OF m]
      have same: "emit_literal ?g (s\<lparr>sc_lit_matched := n\<rparr>) = emit_literal sk (s\<lparr>sc_lit_matched := n\<rparr>)" for n
        using prems(2) by (intro emit_literal_contract(1)) simp
      obtain rc s2 where em: "emit_literal sk ?s1 = (rc, s2)" by fastforce
      have last: "drive ?g ?n (s2\<lparr>sc_phase := after_value_phase s2\<rparr>) cs1 = drive sk ?n (s2\<lparr>sc_phase := after_value_phase s2\<rparr>) cs1 \<and>
          outcome_in bd (drive sk ?n (s2\<lparr>sc_phase := after_value_phase s2\<rparr>) cs1)"
        using less.hyps [of "s2\<lparr>sc_phase := after_value_phase s2\<rparr>" cs1] after_value_phase_ok [of s2] e(2) [of sk] em suf prems(4)
          mode_kept(1) [of "emit_literal sk", OF emit_literal_mode em] after_value_not_str [of s2]
        by (simp add: Cons str_ready_def rank_less)
      have more: "drive ?g ?n ?s1 cs1 = drive sk ?n ?s1 cs1 \<and> outcome_in bd (drive sk ?n ?s1 cs1)"
        if "sc_lit_matched s + 1 \<noteq> length (lit_text (sc_lit_kind s))"
        using less.hyps [of ?s1 cs1] m suf prems Lit that by (simp add: Cons phase_ok_def str_ready_def rank_less)
      define wrong fin where "wrong \<longleftrightarrow> c \<noteq> lit_text (sc_lit_kind s) ! sc_lit_matched s"
        and "fin \<longleftrightarrow> sc_lit_matched s + 1 = length (lit_text (sc_lit_kind s))"
      have step: "drive h ?n s cs = (if wrong then (BB_ERR_PARSE_GRAMMAR, s)
           else if fin then and_then (emit_literal h ?s1) (\<lambda>s2. drive h ?n (s2\<lparr>sc_phase := after_value_phase s2\<rparr>) cs1)
           else drive h ?n ?s1 cs1)" for h
        using Lit by (simp add: Cons drive_lit Let_def wrong_def fin_def)
      have s2: "outcome_in bd (rc, s2)" if "rc \<noteq> BB_OK"
        using e(2) [of sk] em that mode_kept(1) [of "emit_literal sk", OF emit_literal_mode em] prems(4)
        by (simp add: outcome_in_def outcome_ok_def)
      show ?thesis using last more [folded fin_def] ok s2 em
        by (cases wrong; cases fin; cases "rc = BB_OK") (simp_all add: step same)
    qed
  qed
qed

section \<open>The public functions\<close>

definition scan_inv :: "'k scan_state_t \<Rightarrow> bool" where
  "scan_inv s \<longleftrightarrow> mem_ok s \<and> (sc_err s = BB_OK \<longrightarrow> phase_ok s)"

lemma scan_inv_zero: "scan_inv (scan_zero k b)"
  by (simp add: scan_inv_def scan_zero_def mem_ok_def phase_ok_def BB_SERIALIZE_MAX_DEPTH_def)

lemma feed_contract:
  assumes "scan_inv s"
  shows "bb_serialize_json_scan_feed (guarded (sc_bounded_mode s) chunk bad sk) s chunk = bb_serialize_json_scan_feed sk s chunk"
    and "scan_inv (snd (bb_serialize_json_scan_feed sk s chunk))"
    and "sc_bounded_mode (snd (bb_serialize_json_scan_feed sk s chunk)) = sc_bounded_mode s"
proof -
  have d: "drive (guarded (sc_bounded_mode s) chunk bad sk) (length chunk) s chunk = drive sk (length chunk) s chunk \<and>
      outcome_in (sc_bounded_mode s) (drive sk (length chunk) s chunk)" if "sc_err s = BB_OK"
    by (rule drive_contract) (use assms that in \<open>simp_all add: scan_inv_def str_ready_def span_start_def\<close>)
  then show "bb_serialize_json_scan_feed (guarded (sc_bounded_mode s) chunk bad sk) s chunk = bb_serialize_json_scan_feed sk s chunk"
    by (simp add: bb_serialize_json_scan_feed_def)
  show "scan_inv (snd (bb_serialize_json_scan_feed sk s chunk))"
    using assms d by (auto simp: bb_serialize_json_scan_feed_def scan_inv_def outcome_in_def outcome_ok_def split: prod.splits)
  show "sc_bounded_mode (snd (bb_serialize_json_scan_feed sk s chunk)) = sc_bounded_mode s"
    using d by (auto simp: bb_serialize_json_scan_feed_def outcome_in_def split: prod.splits)
qed

lemma end_contract:
  assumes "scan_inv s"
  shows "bb_serialize_json_scan_end (guarded bd buf bad sk) s = bb_serialize_json_scan_end sk s"
    and "scan_inv (snd (bb_serialize_json_scan_end sk s))"
proof -
  have f: "finalize_number (guarded bd buf bad sk) s = finalize_number sk s \<and> outcome_ok (finalize_number sk s)"
    if "sc_err s = BB_OK" "sc_phase s = PH_VAL_NUM" "num_phase_is_terminal (sc_num_phase s)"
  proof -
    have m: "mem_ok s" and p: "num_prefix (sc_num_phase s) (drop (sc_key_len s) (sc_scratch s))"
      using assms that by (auto simp: scan_inv_def phase_ok_def)
    show ?thesis using finalize_number_contract [OF m num_terminal_json [OF p that(3)]] by blast
  qed
  show "bb_serialize_json_scan_end (guarded bd buf bad sk) s = bb_serialize_json_scan_end sk s"
    using f by (simp add: bb_serialize_json_scan_end_def)
  have ok: "scan_inv s'" if "outcome_ok (rc, s')" "rc \<noteq> BB_OK \<longrightarrow> sc_err s' \<noteq> BB_OK" for rc s'
    using that by (auto simp: outcome_ok_def scan_inv_def)
  show "scan_inv (snd (bb_serialize_json_scan_end sk s))"
    using assms f by (auto simp: bb_serialize_json_scan_end_def scan_inv_def outcome_ok_def split: prod.splits)
qed

lemma feed_all_inv:
  "scan_inv s \<Longrightarrow> scan_inv (feed_all sk s chs) \<and> sc_bounded_mode (feed_all sk s chs) = sc_bounded_mode s"
  by (induction chs arbitrary: s) (simp_all add: feed_contract(2,3))

text \<open>C29: Whatever is fed to the scanner, in whatever chunks, and whatever its sink answers, the scanner's own indices stay
  inside its arrays: the container stack has its eight entries and the depth never exceeds them, the text gathered for a
  key and a number never exceeds the 64 bytes of the scratch buffer, the key lies within what was gathered, and, until
  an error ends the scan, a phase inside a container has one open, of its kind, and a literal is compared within its text.\<close>

theorem scanner_stays_in_its_arrays:
  "(let s = feed_all sk (snd (bb_serialize_json_scan_begin k)) chs;
        e = snd (bb_serialize_json_scan_end sk s)
    in scan_inv s \<and> scan_inv e)"
proof -
  have z: "scan_inv (snd (bb_serialize_json_scan_begin k))"
    by (simp add: bb_serialize_json_scan_begin_def scan_begin_internal_def scan_inv_zero)
  have "scan_inv (feed_all sk (snd (bb_serialize_json_scan_begin k)) chs)" using feed_all_inv [OF z] by blast
  then show ?thesis using end_contract(2) by (simp add: Let_def)
qed


end
