(* ===== verification/BB_JSON_Tok.thy ===== *)
theory BB_JSON_Tok
  imports BB_JSON_Scan
begin

text \<open>
  The token recorder of \<^verbatim>\<open>components/bb_serialize_json/src/bb_serialize_json_tok.c\<close>: a sink that records a document in
  a pool of tokens and, where a string had escapes, in an arena; and the functions that navigate the pool. The pool
  is the list of its slots, the arena the list of its bytes or \<^verbatim>\<open>None\<close> for NULL. A recorded string points into the
  document, into the arena, or (never, as is proved) into the frame of the scanner. Of the key buffer of a token only
  the used part is kept. \<^verbatim>\<open>double\<close> and \<^verbatim>\<open>strtod\<close> are parameters.
\<close>

section \<open>Types\<close>

definition BB_SERIALIZE_JSON_TOK_KEY_MAX_LEN :: nat where "BB_SERIALIZE_JSON_TOK_KEY_MAX_LEN = 24"
definition BB_SERIALIZE_JSON_TOK_POOL_DEFAULT_CAP :: nat where "BB_SERIALIZE_JSON_TOK_POOL_DEFAULT_CAP = 48"
definition BB_SERIALIZE_JSON_TOK_ABSENT :: int where "BB_SERIALIZE_JSON_TOK_ABSENT = - 1"

datatype bb_serialize_json_tok_type_t = TOK_OBJ | TOK_ARR | TOK_STR | TOK_NUM | TOK_BOOL | TOK_NULL

datatype tok_ptr = Ptr_null | Ptr_buf nat | Ptr_arena nat | Ptr_frame

datatype 'f tok_value = V_zero | V_str tok_ptr u32 | V_num int 'f | V_bool bool

record 'f bb_serialize_json_tok_t =
  tk_type :: bb_serialize_json_tok_type_t
  tk_key :: string
  tk_num_inexact :: bool
  tk_child_count :: u16
  tk_parent :: int
  tk_v :: "'f tok_value"

record 'f bb_serialize_json_tok_recorder_t =
  rc_buf :: string
  rc_pool :: "'f bb_serialize_json_tok_t list"
  rc_pool_n :: nat
  rc_arena :: "string option"
  rc_arena_used :: nat
  rc_stack :: "int list"
  rc_depth :: nat
  rc_str_open :: bool
  rc_str_use_arena :: bool
  rc_str_tok_idx :: int
  rc_str_arena_start :: nat
  rc_str_len :: nat

definition rc_pool_cap :: "'f bb_serialize_json_tok_recorder_t \<Rightarrow> nat" where "rc_pool_cap r = length (rc_pool r)"

definition rc_arena_cap :: "'f bb_serialize_json_tok_recorder_t \<Rightarrow> nat" where
  "rc_arena_cap r = (case rc_arena r of None \<Rightarrow> 0 | Some a \<Rightarrow> length a)"

section \<open>Numbers\<close>

text \<open>The conversion of a count to an index of 32 bits.\<close>

definition bb_serialize_json_tok_idx_t :: "nat \<Rightarrow> int" where
  "bb_serialize_json_tok_idx_t n = signed_take_bit 31 (int n)"

text \<open>\<^verbatim>\<open>strtoll\<close> in base ten: blanks, a sign, digits; it saturates.\<close>

definition isspace :: "char \<Rightarrow> bool" where
  "isspace c \<longleftrightarrow> c = CHR '' '' \<or> 9 \<le> (of_char c :: nat) \<and> (of_char c :: nat) \<le> 13"

definition dec_value :: "string \<Rightarrow> int" where
  "dec_value ds = foldl (\<lambda>n c. n * 10 + int (of_char c - 48)) 0 ds"

definition clamp64 :: "int \<Rightarrow> int" where
  "clamp64 v = (if v > 2 ^ 63 - 1 then 2 ^ 63 - 1 else if v < - (2 ^ 63) then - (2 ^ 63) else v)"

definition strtoll :: "string \<Rightarrow> int" where
  "strtoll s =
     (let s = dropWhile isspace s;
          neg = (s \<noteq> [] \<and> hd s = CHR ''-'');
          s = (if s \<noteq> [] \<and> (hd s = CHR ''-'' \<or> hd s = CHR ''+'') then tl s else s);
          v = dec_value (takeWhile is_digit s)
      in clamp64 (if neg then - v else v))"

definition tok_parse_num ::
  "(string \<Rightarrow> 'f) \<Rightarrow> 'f bb_serialize_json_tok_t \<Rightarrow> string \<Rightarrow> 'f bb_serialize_json_tok_t"
where
  "tok_parse_num strtod t num =
     (let buf = take BB_SERIALIZE_JSON_SCRATCH_MAX_BYTES num in
      t\<lparr>tk_v := V_num (strtoll buf) (strtod buf),
        tk_num_inexact := CHR ''.'' \<in> set buf \<or> CHR ''e'' \<in> set buf \<or> CHR ''E'' \<in> set buf\<rparr>)"

section \<open>Recording\<close>

definition json_key_len :: "json_key \<Rightarrow> nat" where
  "json_key_len key = (case key of None \<Rightarrow> 0 | Some k \<Rightarrow> length k)"

definition tok_zero :: "bb_serialize_json_tok_type_t \<Rightarrow> 'f bb_serialize_json_tok_t" where
  "tok_zero ty = \<lparr>tk_type = ty, tk_key = [], tk_num_inexact = False, tk_child_count = 0, tk_parent = 0, tk_v = V_zero\<rparr>"

text \<open>A slot of the pool, updated in place.\<close>

definition pool_set ::
  "int \<Rightarrow> ('f bb_serialize_json_tok_t \<Rightarrow> 'f bb_serialize_json_tok_t) \<Rightarrow> 'f bb_serialize_json_tok_recorder_t
     \<Rightarrow> 'f bb_serialize_json_tok_recorder_t"
where
  "pool_set idx f r = r\<lparr>rc_pool := (rc_pool r)[nat idx := f (rc_pool r ! nat idx)]\<rparr>"

definition top_container :: "'f bb_serialize_json_tok_recorder_t \<Rightarrow> int" where
  "top_container r = rc_stack r ! (rc_depth r - 1)"

definition tok_alloc ::
  "'f bb_serialize_json_tok_recorder_t \<Rightarrow> bb_serialize_json_tok_type_t \<Rightarrow> json_key \<Rightarrow> int \<times> 'f bb_serialize_json_tok_recorder_t"
where
  "tok_alloc r ty key =
     (if json_key_len key > BB_SERIALIZE_JSON_TOK_KEY_MAX_LEN then (- 1, r)
      else if rc_pool_n r \<ge> rc_pool_cap r then (- 1, r)
      else if rc_depth r > 0 \<and> tk_child_count (rc_pool r ! nat (top_container r)) = 0xFFFF then (- 1, r)
      else
        let idx = bb_serialize_json_tok_idx_t (rc_pool_n r);
            r = r\<lparr>rc_pool_n := rc_pool_n r + 1\<rparr>;
            t = tok_zero ty;
            t = (case key of Some k \<Rightarrow> if length k > 0 then t\<lparr>tk_key := k\<rparr> else t | None \<Rightarrow> t)
        in if rc_depth r > 0 then
             let parent = top_container r;
                 r = pool_set idx (\<lambda>_. t\<lparr>tk_parent := parent\<rparr>) r
             in (idx, pool_set parent (\<lambda>p. p\<lparr>tk_child_count := tk_child_count p + 1\<rparr>) r)
           else (idx, pool_set idx (\<lambda>_. t\<lparr>tk_parent := BB_SERIALIZE_JSON_TOK_ABSENT\<rparr>) r))"

definition tok_begin_obj :: "'f bb_serialize_json_tok_recorder_t \<Rightarrow> json_key \<Rightarrow> bb_err_t \<times> 'f bb_serialize_json_tok_recorder_t" where
  "tok_begin_obj r key =
     (if rc_depth r \<ge> BB_SERIALIZE_MAX_DEPTH then (BB_ERR_NO_SPACE, r)
      else case tok_alloc r TOK_OBJ key of
             (idx, r) \<Rightarrow>
               if idx < 0 then (BB_ERR_NO_SPACE, r)
               else (BB_OK, r\<lparr>rc_stack := (rc_stack r)[rc_depth r := idx], rc_depth := rc_depth r + 1\<rparr>))"

definition tok_end_obj :: "'f bb_serialize_json_tok_recorder_t \<Rightarrow> bb_err_t \<times> 'f bb_serialize_json_tok_recorder_t" where
  "tok_end_obj r = (if rc_depth r = 0 then (BB_ERR_INVALID_STATE, r) else (BB_OK, r\<lparr>rc_depth := rc_depth r - 1\<rparr>))"

definition tok_begin_arr :: "'f bb_serialize_json_tok_recorder_t \<Rightarrow> json_key \<Rightarrow> bb_err_t \<times> 'f bb_serialize_json_tok_recorder_t" where
  "tok_begin_arr r key =
     (if rc_depth r \<ge> BB_SERIALIZE_MAX_DEPTH then (BB_ERR_NO_SPACE, r)
      else case tok_alloc r TOK_ARR key of
             (idx, r) \<Rightarrow>
               if idx < 0 then (BB_ERR_NO_SPACE, r)
               else (BB_OK, r\<lparr>rc_stack := (rc_stack r)[rc_depth r := idx], rc_depth := rc_depth r + 1\<rparr>))"

definition tok_end_arr :: "'f bb_serialize_json_tok_recorder_t \<Rightarrow> bb_err_t \<times> 'f bb_serialize_json_tok_recorder_t" where
  "tok_end_arr r = (if rc_depth r = 0 then (BB_ERR_INVALID_STATE, r) else (BB_OK, r\<lparr>rc_depth := rc_depth r - 1\<rparr>))"

definition tok_value_num ::
  "(string \<Rightarrow> 'f) \<Rightarrow> 'f bb_serialize_json_tok_recorder_t \<Rightarrow> json_key \<Rightarrow> string \<Rightarrow> bb_err_t \<times> 'f bb_serialize_json_tok_recorder_t"
where
  "tok_value_num strtod r key num =
     (case tok_alloc r TOK_NUM key of
        (idx, r) \<Rightarrow> if idx < 0 then (BB_ERR_NO_SPACE, r) else (BB_OK, pool_set idx (\<lambda>t. tok_parse_num strtod t num) r))"

definition tok_value_bool ::
  "'f bb_serialize_json_tok_recorder_t \<Rightarrow> json_key \<Rightarrow> bool \<Rightarrow> bb_err_t \<times> 'f bb_serialize_json_tok_recorder_t"
where
  "tok_value_bool r key v =
     (case tok_alloc r TOK_BOOL key of
        (idx, r) \<Rightarrow> if idx < 0 then (BB_ERR_NO_SPACE, r) else (BB_OK, pool_set idx (\<lambda>t. t\<lparr>tk_v := V_bool v\<rparr>) r))"

definition tok_value_null :: "'f bb_serialize_json_tok_recorder_t \<Rightarrow> json_key \<Rightarrow> bb_err_t \<times> 'f bb_serialize_json_tok_recorder_t" where
  "tok_value_null r key = (case tok_alloc r TOK_NULL key of (idx, r) \<Rightarrow> if idx < 0 then (BB_ERR_NO_SPACE, r) else (BB_OK, r))"

text \<open>The part of \<^verbatim>\<open>tok_value_str_chunk\<close> that copies a piece into the arena.\<close>

definition tok_str_copy :: "'f bb_serialize_json_tok_recorder_t \<Rightarrow> string \<Rightarrow> bool \<Rightarrow> bb_err_t \<times> 'f bb_serialize_json_tok_recorder_t" where
  "tok_str_copy r chunk is_final =
     (case (if length chunk > 0 then
              (case rc_arena r of
                 None \<Rightarrow> None
               | Some a \<Rightarrow>
                   if rc_arena_used r + length chunk > rc_arena_cap r then None
                   else Some (r\<lparr>rc_arena := Some (blit a (rc_arena_used r) chunk),
                                rc_arena_used := rc_arena_used r + length chunk, rc_str_len := rc_str_len r + length chunk\<rparr>))
            else Some r) of
        None \<Rightarrow> (BB_ERR_NO_SPACE, r)
      | Some r \<Rightarrow>
          if is_final then
            (BB_OK, (pool_set (rc_str_tok_idx r)
               (\<lambda>t. t\<lparr>tk_v := V_str (Ptr_arena (rc_str_arena_start r)) (of_nat (rc_str_len r))\<rparr>) r)\<lparr>rc_str_open := False\<rparr>)
          else (BB_OK, r))"

definition span_target :: "span_ptr \<Rightarrow> tok_ptr" where
  "span_target p = (case p of None \<Rightarrow> Ptr_frame | Some i \<Rightarrow> Ptr_buf i)"

definition tok_value_str_chunk ::
  "'f bb_serialize_json_tok_recorder_t \<Rightarrow> json_key \<Rightarrow> span_ptr \<Rightarrow> string \<Rightarrow> bool \<Rightarrow> bb_serialize_json_span_t
     \<Rightarrow> bb_err_t \<times> 'f bb_serialize_json_tok_recorder_t"
where
  "tok_value_str_chunk r key p chunk is_final prov =
     (if prov = SPAN_CALLER_FEED_SCOPED then (BB_ERR_INVALID_STATE, r)
      else if \<not> rc_str_open r then
        (case tok_alloc r TOK_STR key of
           (idx, r) \<Rightarrow>
             if idx < 0 then (BB_ERR_NO_SPACE, r)
             else
               let r = r\<lparr>rc_str_open := True, rc_str_tok_idx := idx, rc_str_use_arena := False,
                         rc_str_arena_start := rc_arena_used r, rc_str_len := 0\<rparr>
               in if is_final \<and> prov = SPAN_CALLER_STABLE then
                    (BB_OK, (pool_set idx (\<lambda>t. t\<lparr>tk_v := V_str (span_target p) (of_nat (length chunk))\<rparr>) r)\<lparr>rc_str_open := False\<rparr>)
                  else tok_str_copy (r\<lparr>rc_str_use_arena := True\<rparr>) chunk is_final)
      else tok_str_copy r chunk is_final)"

section \<open>Initialisation\<close>

definition bb_serialize_json_tok_recorder_init ::
  "bool \<Rightarrow> string option \<Rightarrow> 'f bb_serialize_json_tok_t list option \<Rightarrow> string option
     \<Rightarrow> bb_err_t \<times> 'f bb_serialize_json_tok_recorder_t option"
where
  "bb_serialize_json_tok_recorder_init rec_null buf pool arena =
     (case (buf, pool) of
        (Some b, Some p) \<Rightarrow>
          if rec_null \<or> length p = 0 then (BB_ERR_INVALID_ARG, None)
          else (BB_OK, Some \<lparr>rc_buf = b, rc_pool = p, rc_pool_n = 0, rc_arena = arena, rc_arena_used = 0,
                             rc_stack = replicate BB_SERIALIZE_MAX_DEPTH 0, rc_depth = 0, rc_str_open = False,
                             rc_str_use_arena = False, rc_str_tok_idx = 0, rc_str_arena_start = 0, rc_str_len = 0\<rparr>)
      | _ \<Rightarrow> (BB_ERR_INVALID_ARG, None))"

definition bb_serialize_json_tok_recorder_ingest ::
  "(string \<Rightarrow> 'f) \<Rightarrow> 'f bb_serialize_json_tok_recorder_t bb_serialize_json_ingest_t"
where
  "bb_serialize_json_tok_recorder_ingest strtod =
     \<lparr>in_begin_obj = tok_begin_obj, in_end_obj = tok_end_obj, in_begin_arr = tok_begin_arr, in_end_arr = tok_end_arr,
      in_value_num = tok_value_num strtod, in_value_bool = tok_value_bool, in_value_null = tok_value_null,
      in_value_str_chunk = tok_value_str_chunk\<rparr>"

section \<open>Navigation\<close>

type_synonym 'f tok_rec = "'f bb_serialize_json_tok_recorder_t option"

definition tok_valid :: "'f tok_rec \<Rightarrow> int \<Rightarrow> bool" where
  "tok_valid r idx \<longleftrightarrow> (case r of None \<Rightarrow> False | Some r \<Rightarrow> idx \<ge> 0 \<and> nat idx < rc_pool_n r)"

definition tok_at :: "'f tok_rec \<Rightarrow> int \<Rightarrow> 'f bb_serialize_json_tok_t" where
  "tok_at r idx = rc_pool (the r) ! nat idx"

definition bb_serialize_json_tok_root :: "'f tok_rec \<Rightarrow> int" where
  "bb_serialize_json_tok_root r =
     (case r of None \<Rightarrow> BB_SERIALIZE_JSON_TOK_ABSENT | Some r \<Rightarrow> if rc_pool_n r = 0 then BB_SERIALIZE_JSON_TOK_ABSENT else 0)"

definition bb_serialize_json_tok_is_obj :: "'f tok_rec \<Rightarrow> int \<Rightarrow> bool" where
  "bb_serialize_json_tok_is_obj r idx \<longleftrightarrow> tok_valid r idx \<and> tk_type (tok_at r idx) = TOK_OBJ"

definition bb_serialize_json_tok_is_arr :: "'f tok_rec \<Rightarrow> int \<Rightarrow> bool" where
  "bb_serialize_json_tok_is_arr r idx \<longleftrightarrow> tok_valid r idx \<and> tk_type (tok_at r idx) = TOK_ARR"

definition bb_serialize_json_tok_is_str :: "'f tok_rec \<Rightarrow> int \<Rightarrow> bool" where
  "bb_serialize_json_tok_is_str r idx \<longleftrightarrow> tok_valid r idx \<and> tk_type (tok_at r idx) = TOK_STR"

definition bb_serialize_json_tok_is_num :: "'f tok_rec \<Rightarrow> int \<Rightarrow> bool" where
  "bb_serialize_json_tok_is_num r idx \<longleftrightarrow> tok_valid r idx \<and> tk_type (tok_at r idx) = TOK_NUM"

definition bb_serialize_json_tok_is_bool :: "'f tok_rec \<Rightarrow> int \<Rightarrow> bool" where
  "bb_serialize_json_tok_is_bool r idx \<longleftrightarrow> tok_valid r idx \<and> tk_type (tok_at r idx) = TOK_BOOL"

definition bb_serialize_json_tok_is_null :: "'f tok_rec \<Rightarrow> int \<Rightarrow> bool" where
  "bb_serialize_json_tok_is_null r idx \<longleftrightarrow> tok_valid r idx \<and> tk_type (tok_at r idx) = TOK_NULL"

text \<open>The loops over the pool, on the indices still to visit.\<close>

fun obj_get_loop :: "'f tok_rec \<Rightarrow> int \<Rightarrow> string \<Rightarrow> u16 \<Rightarrow> nat list \<Rightarrow> int" where
  "obj_get_loop r obj key remaining [] = BB_SERIALIZE_JSON_TOK_ABSENT"
| "obj_get_loop r obj key remaining (i # is) =
     (if remaining = 0 then BB_SERIALIZE_JSON_TOK_ABSENT
      else if tk_parent (tok_at r (int i)) \<noteq> obj then obj_get_loop r obj key remaining is
      else if tk_key (tok_at r (int i)) = key then bb_serialize_json_tok_idx_t i
      else obj_get_loop r obj key (remaining - 1) is)"

definition bb_serialize_json_tok_obj_get :: "'f tok_rec \<Rightarrow> int \<Rightarrow> string \<Rightarrow> int" where
  "bb_serialize_json_tok_obj_get r obj key =
     (if \<not> bb_serialize_json_tok_is_obj r obj then BB_SERIALIZE_JSON_TOK_ABSENT
      else obj_get_loop r obj key (tk_child_count (tok_at r obj)) [nat obj + 1..<rc_pool_n (the r)])"

definition bb_serialize_json_tok_arr_size :: "'f tok_rec \<Rightarrow> int \<Rightarrow> int" where
  "bb_serialize_json_tok_arr_size r arr =
     (if \<not> bb_serialize_json_tok_is_arr r arr then - 1 else uint (tk_child_count (tok_at r arr)))"

fun arr_at_loop :: "'f tok_rec \<Rightarrow> int \<Rightarrow> nat \<Rightarrow> nat \<Rightarrow> nat list \<Rightarrow> int" where
  "arr_at_loop r arr elem_idx seen [] = BB_SERIALIZE_JSON_TOK_ABSENT"
| "arr_at_loop r arr elem_idx seen (i # is) =
     (if tk_parent (tok_at r (int i)) \<noteq> arr then arr_at_loop r arr elem_idx seen is
      else if seen = elem_idx then bb_serialize_json_tok_idx_t i
      else arr_at_loop r arr elem_idx (seen + 1) is)"

definition bb_serialize_json_tok_arr_at :: "'f tok_rec \<Rightarrow> int \<Rightarrow> nat \<Rightarrow> int" where
  "bb_serialize_json_tok_arr_at r arr elem_idx =
     (if \<not> bb_serialize_json_tok_is_arr r arr then BB_SERIALIZE_JSON_TOK_ABSENT
      else arr_at_loop r arr elem_idx 0 [nat arr + 1..<rc_pool_n (the r)])"

text \<open>The accessors: \<^verbatim>\<open>None\<close> for false, else what is written. A cleared union reads as a null pointer, zero or false.\<close>

definition bb_serialize_json_tok_get_str :: "'f tok_rec \<Rightarrow> int \<Rightarrow> (tok_ptr \<times> nat) option" where
  "bb_serialize_json_tok_get_str r idx =
     (if \<not> bb_serialize_json_tok_is_str r idx then None
      else Some (case tk_v (tok_at r idx) of V_str p n \<Rightarrow> (p, unat n) | _ \<Rightarrow> (Ptr_null, 0)))"

definition bb_serialize_json_tok_get_i64 :: "'f tok_rec \<Rightarrow> int \<Rightarrow> int option" where
  "bb_serialize_json_tok_get_i64 r idx =
     (if \<not> bb_serialize_json_tok_is_num r idx then None
      else if tk_num_inexact (tok_at r idx) then None
      else Some (case tk_v (tok_at r idx) of V_num i f \<Rightarrow> i | _ \<Rightarrow> 0))"

definition bb_serialize_json_tok_get_f64 :: "'f \<Rightarrow> 'f tok_rec \<Rightarrow> int \<Rightarrow> 'f option" where
  "bb_serialize_json_tok_get_f64 zero r idx =
     (if \<not> bb_serialize_json_tok_is_num r idx then None
      else Some (case tk_v (tok_at r idx) of V_num i f \<Rightarrow> f | _ \<Rightarrow> zero))"

definition bb_serialize_json_tok_get_bool :: "'f tok_rec \<Rightarrow> int \<Rightarrow> bool option" where
  "bb_serialize_json_tok_get_bool r idx =
     (if \<not> bb_serialize_json_tok_is_bool r idx then None
      else Some (case tk_v (tok_at r idx) of V_bool b \<Rightarrow> b | _ \<Rightarrow> False))"

text \<open>The bytes a recorded string points to.\<close>

definition tok_bytes :: "'f bb_serialize_json_tok_recorder_t \<Rightarrow> tok_ptr \<Rightarrow> nat \<Rightarrow> string" where
  "tok_bytes r p n =
     (case p of
        Ptr_buf i \<Rightarrow> take n (drop i (rc_buf r))
      | Ptr_arena i \<Rightarrow> (case rc_arena r of Some a \<Rightarrow> take n (drop i a) | None \<Rightarrow> [])
      | _ \<Rightarrow> [])"

end
