(* ===== verification/BB_Num.thy ===== *)
theory BB_Num
  imports BB_JSON_Contract BB_JSON_Tok
begin

text \<open>
  The numeric helpers of \<^verbatim>\<open>platform/host/bb_num/bb_num.c\<close>. A signed 64-bit value is the word that holds it, read by
  \<^verbatim>\<open>sint\<close>. The formatters return the digits they write before the NUL; with a capacity of 0 nothing is written.
\<close>

unbundle bit_operations_syntax

section \<open>Operations\<close>

definition bb_clampi :: "int \<Rightarrow> int \<Rightarrow> int \<Rightarrow> int" where
  "bb_clampi x lo hi = (if x < lo then lo else if x > hi then hi else x)"

definition dec_char :: "nat \<Rightarrow> char" where
  "dec_char d = char_of (48 + d)"

text \<open>The digits, least significant first.\<close>

fun dec_rev :: "nat \<Rightarrow> string" where
  "dec_rev v = dec_char (v mod 10) # (if v div 10 > 0 then dec_rev (v div 10) else [])"

declare dec_rev.simps [simp del]

definition bb_num_u64_to_dec :: "nat \<Rightarrow> u64 \<Rightarrow> string" where
  "bb_num_u64_to_dec cap v =
     (if cap = 0 then []
      else let digits = dec_rev (unat v);
               n = length digits;
               avail = cap - 1;
               written = (if n < avail then n else avail)
           in map (\<lambda>i. digits ! (n - 1 - i)) [0..<written])"

definition bb_num_i64_to_dec :: "nat \<Rightarrow> u64 \<Rightarrow> string" where
  "bb_num_i64_to_dec cap v =
     (if cap = 0 then []
      else if sint v \<ge> 0 then bb_num_u64_to_dec cap v
      else if cap = 1 then []
      else CHR ''-'' # bb_num_u64_to_dec (cap - 1) (- (v + 1) + 1))"

definition bb_num_bswap32 :: "u32 \<Rightarrow> u32" where
  "bb_num_bswap32 v =
     push_bit 24 (v AND 0x000000FF) OR push_bit 8 (v AND 0x0000FF00) OR
     drop_bit 8 (v AND 0x00FF0000) OR drop_bit 24 (v AND 0xFF000000)"

definition bb_num_bswap32_words :: "u8 list \<Rightarrow> nat \<Rightarrow> u8 list" where
  "bb_num_bswap32_words buf len =
     fold (\<lambda>i w. let a = w ! (4 * i); w = w[4 * i := w ! (4 * i + 3), 4 * i + 3 := a];
                     b = w ! (4 * i + 1)
                 in w[4 * i + 1 := w ! (4 * i + 2), 4 * i + 2 := b])
       [0..<len div 4] buf"

definition bb_num_words_to_bytes :: "u32 \<Rightarrow> nat \<Rightarrow> int" where
  "bb_num_words_to_bytes words word_size = uint words * int word_size"

section \<open>Decimal text\<close>

text \<open>All the digits, most significant first.\<close>

definition dec :: "nat \<Rightarrow> string" where
  "dec v = rev (dec_rev v)"

lemma dec_rec: "dec v = (if v < 10 then [dec_char v] else dec (v div 10) @ [dec_char (v mod 10)])"
  by (cases "v < 10") (auto simp: dec_def dec_rev.simps [of v] div_eq_0_iff)

lemma u64_to_dec: "bb_num_u64_to_dec cap v = take (cap - 1) (dec (unat v))"
proof -
  let ?d = "dec_rev (unat v)"
  have "map (\<lambda>i. ?d ! (length ?d - 1 - i)) [0..<min (length ?d) (cap - 1)] = take (cap - 1) (rev ?d)"
    by (rule nth_equalityI) (auto simp: rev_nth)
  then show ?thesis by (auto simp: bb_num_u64_to_dec_def dec_def Let_def min_def split: if_splits)
qed

lemma dec_char_digit: "d < 10 \<Longrightarrow> is_digit (dec_char d)" "d < 10 \<Longrightarrow> (of_char (dec_char d) :: nat) - 48 = d"
  by (simp_all add: is_digit_def dec_char_def)

lemma dec_all_digits: "digits (dec v)"
proof (induction v rule: less_induct)
  case (less v)
  show ?case
  proof (cases "v < 10")
    case False
    then have "digits (dec (v div 10))" by (intro less) simp
    then show ?thesis using False by (simp add: dec_rec [of v] digits_def dec_char_digit)
  qed (simp add: dec_rec [of v] digits_def dec_char_digit)
qed

lemma dec_value_append: "dec_value (ds @ [c]) = dec_value ds * 10 + int (of_char c - 48)"
  by (simp add: dec_value_def)

lemma dec_value_dec: "dec_value (dec v) = int v"
proof (induction v rule: less_induct)
  case (less v)
  show ?case
  proof (cases "v < 10")
    case True
    then show ?thesis by (simp add: dec_rec [of v] dec_value_def dec_char_digit)
  next
    case False
    have "int (v div 10) * 10 + int (v mod 10) = int v" by (simp add: zdiv_int zmod_int)
    then show ?thesis using False less [of "v div 10"] by (simp add: dec_rec [of v] dec_value_append dec_char_digit)
  qed
qed

lemma dec_text_length: "0 < k \<Longrightarrow> v < 10 ^ k \<Longrightarrow> length (dec v) \<le> k"
proof (induction k arbitrary: v)
  case (Suc k)
  show ?case
  proof (cases "v < 10")
    case False
    then have "0 < k" using Suc.prems by (cases k) auto
    moreover have "v div 10 < 10 ^ k" using Suc.prems by (simp add: div_less_iff_less_mult mult.commute)
    ultimately show ?thesis using Suc.IH [of "v div 10"] False by (simp add: dec_rec [of v])
  qed (simp add: dec_rec [of v])
qed simp

lemma dec_u64_length: "length (dec (unat (v :: u64))) \<le> 20"
  by (rule dec_text_length) (use unsigned_less [of v, where ?'a = nat] in simp_all)

lemma uint_signed: "uint (word_of_int k :: u64) = k" if "0 \<le> k" "k \<le> 2 ^ 63"
  using that by (simp add: uint_word_of_int_eq take_bit_int_eq_self)

lemma nonneg: "0 \<le> sint (v :: u64) \<Longrightarrow> int (unat v) = sint v"
  using uint_signed [of "sint v"] sint_less [of v] by (simp add: uint_nat [symmetric])

lemma negated: "sint (v :: u64) < 0 \<Longrightarrow> int (unat (- (v + 1) + 1)) = - sint v"
  using uint_signed [of "- sint v"] sint_greater_eq [of v] by (simp add: uint_nat [symmetric])

lemma negated_length: "sint (v :: u64) < 0 \<Longrightarrow> length (dec (unat (- (v + 1) + 1))) \<le> 19"
proof (rule dec_text_length)
  assume "sint v < 0"
  then have "int (unat (- (v + 1) + 1)) \<le> 2 ^ 63" using negated [of v] sint_greater_eq [of v] by simp
  then have "unat (- (v + 1) + 1) \<le> 2 ^ 63" by (metis of_nat_le_iff of_nat_numeral of_nat_power)
  then show "unat (- (v + 1) + 1) < 10 ^ 19" by (rule le_less_trans) simp
qed simp

lemma sint_range: "- (2 ^ 63) \<le> sint (v :: u64)" "sint v \<le> 2 ^ 63 - 1"
  using sint_greater_eq [of v] sint_less [of v] by simp_all

text \<open>A text of digits with an optional sign, as \<^verbatim>\<open>strtoll\<close> reads it.\<close>

lemma digit_no_blank: "is_digit c \<Longrightarrow> \<not> isspace c \<and> c \<noteq> CHR ''-'' \<and> c \<noteq> CHR ''+''"
  by (auto simp: is_digit_def isspace_def)

lemma strtoll_digits:
  assumes "digits ds"
  shows "strtoll ds = clamp64 (dec_value ds)" "strtoll (CHR ''-'' # ds) = clamp64 (- dec_value ds)"
proof -
  obtain c cs where ds: "ds = c # cs" "is_digit c" using assms by (cases ds) (auto simp: digits_def)
  have tw: "takeWhile is_digit ds = ds" using assms by (simp add: digits_def takeWhile_eq_all_conv)
  have "dropWhile isspace ds = ds" "ds \<noteq> []" "hd ds \<noteq> CHR ''-''" "hd ds \<noteq> CHR ''+''" using ds digit_no_blank by auto
  then show "strtoll ds = clamp64 (dec_value ds)" by (simp add: strtoll_def Let_def tw del: takeWhile_eq_all_conv)
  show "strtoll (CHR ''-'' # ds) = clamp64 (- dec_value ds)" by (simp add: strtoll_def isspace_def tw del: takeWhile_eq_all_conv)
qed

text \<open>A value as the formatter writes it when there is room.\<close>

definition i64_text :: "u64 \<Rightarrow> string" where
  "i64_text v = (if sint v \<ge> 0 then dec (unat v) else CHR ''-'' # dec (unat (- (v + 1) + 1)))"

lemma i64_to_dec: "21 \<le> cap \<Longrightarrow> bb_num_i64_to_dec cap v = i64_text v"
proof -
  assume cap: "21 \<le> cap"
  have "length (dec (unat v)) \<le> 20" by (rule dec_u64_length)
  then show ?thesis using cap negated_length [of v] by (auto simp: bb_num_i64_to_dec_def u64_to_dec i64_text_def)
qed

lemma i64_text_length: "length (i64_text v) \<le> 20"
proof (cases "sint v \<ge> 0")
  case False
  then show ?thesis using negated_length [of v] by (simp add: i64_text_def)
qed (simp add: i64_text_def dec_u64_length)

lemma i64_text_number: "json_number (i64_text v)" "json_number (dec n)"
proof -
  have "int_text (dec n)" "int_text (CHR ''-'' # dec n)" for n
    using int_textI [of "[]" "dec n"] int_textI [of "''-''" "dec n"] dec_all_digits by (simp_all add: opt_minus_def)
  then show "json_number (i64_text v)" "json_number (dec n)"
    using json_number_parts [OF int_is_frac, of _ "[]"] by (auto simp: i64_text_def exponent_def)
qed

lemma i64_text_value: "strtoll (i64_text v) = sint v"
proof (cases "sint v \<ge> 0")
  case True
  then have "dec_value (dec (unat v)) = sint v" unfolding dec_value_dec by (rule nonneg)
  then show ?thesis using True strtoll_digits(1) [OF dec_all_digits] sint_range [of v]
    by (simp add: i64_text_def clamp64_def)
next
  case False
  then have "- dec_value (dec (unat (- (v + 1) + 1))) = sint v" unfolding dec_value_dec by (subst negated) simp_all
  then show ?thesis using False strtoll_digits(2) [OF dec_all_digits] sint_range [of v]
    by (simp add: i64_text_def clamp64_def)
qed

text \<open>The decimal text of any 64-bit signed integer, the most negative one included, is read back by \<^verbatim>\<open>strtoll\<close> as
  the same integer, given the 21 bytes it may need.\<close>

theorem decimal_text_reads_back:
  assumes "21 \<le> cap"
  shows "strtoll (bb_num_i64_to_dec cap v) = sint v"
  using i64_text_value i64_to_dec [OF assms] by simp

theorem decimal_text_reads_back_witness: "strtoll (bb_num_i64_to_dec 22 0x8000000000000000) = - (2 ^ 63)"
  using decimal_text_reads_back [of 22 "0x8000000000000000"] by simp

text \<open>The bytes of a word, reversed.\<close>

lemma byte_masks: "(0x000000FF :: u32) = mask 8" "(0x0000FF00 :: u32) = push_bit 8 (mask 8)" "(0x00FF0000 :: u32) = push_bit 16 (mask 8)"
  "(0xFF000000 :: u32) = push_bit 24 (mask 8)"
  by (simp_all add: mask_eq_exp_minus_1 push_bit_eq_mult)

lemma bswap32_bit: "r < 8 \<Longrightarrow> q < 4 \<Longrightarrow> bit (bb_num_bswap32 v) (8 * q + r) \<longleftrightarrow> bit v (8 * (3 - q) + r)"
proof -
  assume r: "r < 8" and "q < 4"
  then consider "q = 0" | "q = 1" | "q = 2" | "q = 3" by linarith
  then show ?thesis using r unfolding bb_num_bswap32_def byte_masks by cases (auto simp: bit_simps add.commute)
qed

lemma bswap32_involution: "bb_num_bswap32 (bb_num_bswap32 v) = v"
proof (rule bit_word_eqI)
  fix n assume "n < LENGTH(32)"
  then have n: "n div 8 < 4" "n mod 8 < 8" by (simp_all add: less_mult_imp_div_less)
  have "bit (bb_num_bswap32 (bb_num_bswap32 v)) (8 * (n div 8) + n mod 8) = bit v (8 * (n div 8) + n mod 8)"
    using n by (simp only: bswap32_bit [of "n mod 8"] diff_less_Suc) (simp add: bswap32_bit)
  then show "bit (bb_num_bswap32 (bb_num_bswap32 v)) n = bit v n" by simp
qed

end
