(* ===== verification/BB_JSON_Write.thy ===== *)
theory BB_JSON_Write
  imports BB_Serialize BB_Num
begin

text \<open>
  The JSON writer of \<^verbatim>\<open>bb_serialize_json.c\<close>: bounded or flushing writes, escapes, number formats, the level stack, the
  emit callbacks and the render functions. A context holds the bytes written so far instead of buffer and length. A double is its bit
  pattern; the fixed-decimal format is computed exactly, rounding to 53 bits as the FPU does, and the text that \<^verbatim>\<open>snprintf\<close> and \<^verbatim>\<open>strtod\<close>
  settle on in the shortest format is a parameter \<^verbatim>\<open>g\<close>.
\<close>

unbundle bit_operations_syntax

section \<open>The context\<close>

record bb_serialize_json_level_t =
  lv_is_array :: bool
  lv_have_child :: bool

text \<open>\<^verbatim>\<open>jc_flush\<close> is the bound flush function with the caller's abort flag as a predicate of the chunks delivered; \<^verbatim>\<open>jc_out\<close>
  holds these chunks.\<close>

record bb_serialize_json_ctx_t =
  jc_buf :: string
  jc_cap :: nat
  jc_err :: bb_err_t
  jc_depth :: nat
  jc_stack :: "bb_serialize_json_level_t list"
  jc_flush :: "(string list \<Rightarrow> bool) option"
  jc_out :: "string list"
  jc_f64_shortest :: bool

definition JSON_STACK_LEVELS :: nat where "JSON_STACK_LEVELS = 2 * BB_SERIALIZE_MAX_DEPTH + 2"
definition BB_SERIALIZE_JSON_STREAM_FLUSH_BUF_BYTES :: nat where "BB_SERIALIZE_JSON_STREAM_FLUSH_BUF_BYTES = 768"
definition BB_SERIALIZE_JSON_F64_DECIMALS :: nat where "BB_SERIALIZE_JSON_F64_DECIMALS = 6"

section \<open>Bounded writes\<close>

definition bb_json_flush :: "bb_serialize_json_ctx_t \<Rightarrow> bb_serialize_json_ctx_t" where
  "bb_json_flush c =
     (case jc_flush c of
        None \<Rightarrow> c
      | Some failed \<Rightarrow>
          if jc_err c \<noteq> BB_OK \<or> jc_buf c = [] then c
          else let c = c\<lparr>jc_out := jc_out c @ [jc_buf c], jc_buf := []\<rparr>
               in if failed (jc_out c) then c\<lparr>jc_err := BB_ERR_INVALID_STATE\<rparr> else c)"

definition bb_json_put :: "string \<Rightarrow> bb_serialize_json_ctx_t \<Rightarrow> bb_serialize_json_ctx_t" where
  "bb_json_put t c =
     (if jc_err c \<noteq> BB_OK then c
      else if length (jc_buf c) + length t > jc_cap c then
        (if jc_flush c = None then c\<lparr>jc_err := BB_ERR_NO_SPACE\<rparr>
         else let c = bb_json_flush c
              in if jc_err c \<noteq> BB_OK then c
                 else if length t > jc_cap c then c\<lparr>jc_err := BB_ERR_NO_SPACE\<rparr>
                 else c\<lparr>jc_buf := jc_buf c @ t\<rparr>)
      else c\<lparr>jc_buf := jc_buf c @ t\<rparr>)"

definition bb_json_putc :: "char \<Rightarrow> bb_serialize_json_ctx_t \<Rightarrow> bb_serialize_json_ctx_t" where
  "bb_json_putc ch = bb_json_put [ch]"

definition bb_json_hex_nibble :: "nat \<Rightarrow> char" where
  "bb_json_hex_nibble v = (if v < 10 then char_of (48 + v) else char_of (97 + (v - 10)))"

definition bb_json_escape_char :: "char \<Rightarrow> bb_serialize_json_ctx_t \<Rightarrow> bb_serialize_json_ctx_t" where
  "bb_json_escape_char c =
     (let n = of_char c :: nat
      in if n = 0x22 then bb_json_put [CHR 0x5C, CHR 0x22]
         else if n = 0x5C then bb_json_put [CHR 0x5C, CHR 0x5C]
         else if n = 8 then bb_json_put [CHR 0x5C, CHR ''b'']
         else if n = 12 then bb_json_put [CHR 0x5C, CHR ''f'']
         else if n = 10 then bb_json_put [CHR 0x5C, CHR ''n'']
         else if n = 13 then bb_json_put [CHR 0x5C, CHR ''r'']
         else if n = 9 then bb_json_put [CHR 0x5C, CHR ''t'']
         else if n < 0x20 then
           bb_json_put [CHR 0x5C, CHR ''u'', CHR ''0'', CHR ''0'', bb_json_hex_nibble (n div 16 mod 16), bb_json_hex_nibble (n mod 16)]
         else bb_json_putc c)"

definition bb_json_escape_write :: "string \<Rightarrow> bb_serialize_json_ctx_t \<Rightarrow> bb_serialize_json_ctx_t" where
  "bb_json_escape_write s = fold bb_json_escape_char s"

section \<open>Numbers\<close>

definition bb_json_write_u64 :: "u64 \<Rightarrow> bb_serialize_json_ctx_t \<Rightarrow> bb_serialize_json_ctx_t" where
  "bb_json_write_u64 v = bb_json_put (bb_num_u64_to_dec 21 v)"

definition bb_json_write_i64 :: "u64 \<Rightarrow> bb_serialize_json_ctx_t \<Rightarrow> bb_serialize_json_ctx_t" where
  "bb_json_write_i64 v = bb_json_put (bb_num_i64_to_dec 22 v)"

fun frac_digits :: "nat \<Rightarrow> nat \<Rightarrow> string" where
  "frac_digits 0 frac = []"
| "frac_digits (Suc n) frac = frac_digits n (frac div 10) @ [dec_char (frac mod 10)]"

definition bb_json_write_frac_digits :: "nat \<Rightarrow> nat \<Rightarrow> bb_serialize_json_ctx_t \<Rightarrow> bb_serialize_json_ctx_t" where
  "bb_json_write_frac_digits frac n_digits = bb_json_put (frac_digits n_digits frac)"

text \<open>The value of a double: \<^verbatim>\<open>f64_sig v * 2 ^ (f64_exp v)\<close>, with its sign.\<close>

definition f64_nan_or_inf :: "u64 \<Rightarrow> bool" where
  "f64_nan_or_inf v = (unat (drop_bit 52 v AND 0x7FF) = 0x7FF)"

definition f64_sig :: "u64 \<Rightarrow> nat" where
  "f64_sig v = (let man = unat (v AND mask 52) in if unat (drop_bit 52 v AND 0x7FF) = 0 then man else man + 2 ^ 52)"

definition f64_exp :: "u64 \<Rightarrow> int" where
  "f64_exp v = (let ex = int (unat (drop_bit 52 v AND 0x7FF)) in if ex = 0 then - 1074 else ex - 1075)"

definition f64_negative :: "u64 \<Rightarrow> bool" where
  "f64_negative v = (bit v 63 \<and> f64_sig v \<noteq> 0)"

text \<open>The integer part of the magnitude, and its fraction over \<^verbatim>\<open>2 ^ f64_scale v\<close>.\<close>

definition f64_scale :: "u64 \<Rightarrow> nat" where
  "f64_scale v = nat (- f64_exp v)"

definition f64_int :: "u64 \<Rightarrow> nat" where
  "f64_int v = (if 0 \<le> f64_exp v then f64_sig v * 2 ^ nat (f64_exp v) else f64_sig v div 2 ^ f64_scale v)"

definition f64_rest :: "u64 \<Rightarrow> nat" where
  "f64_rest v = f64_sig v mod 2 ^ f64_scale v"

fun bit_length :: "nat \<Rightarrow> nat" where
  "bit_length n = (if n = 0 then 0 else Suc (bit_length (n div 2)))"

declare bit_length.simps [simp del]

text \<open>A numerator rounded to 53 bits, half to even, as each operation on doubles rounds its exact result.\<close>

definition round53 :: "nat \<Rightarrow> nat" where
  "round53 a =
     (let t = bit_length a - 53; q = a div 2 ^ t; r = a mod 2 ^ t
      in (if 2 * r > 2 ^ t \<or> (t > 0 \<and> 2 * r = 2 ^ t \<and> odd q) then q + 1 else q) * 2 ^ t)"

text \<open>\<^verbatim>\<open>(uint64_t)(frac * scale + 0.5)\<close>.\<close>

definition f64_frac_i :: "nat \<Rightarrow> u64 \<Rightarrow> nat" where
  "f64_frac_i decimals v =
     (let k = f64_scale v
      in if k = 0 then 0 else round53 (round53 (f64_rest v * 10 ^ decimals) + 2 ^ (k - 1)) div 2 ^ k)"

definition bb_json_write_f64 :: "u64 \<Rightarrow> bb_serialize_json_ctx_t \<Rightarrow> bb_serialize_json_ctx_t" where
  "bb_json_write_f64 v c =
     (if f64_nan_or_inf v then bb_json_put ''null'' c
      else if f64_int v \<ge> 2 ^ 64 then bb_json_put ''null'' c
      else
        let scale_i = 10 ^ BB_SERIALIZE_JSON_F64_DECIMALS;
            frac_i = f64_frac_i BB_SERIALIZE_JSON_F64_DECIMALS v;
            int_part = of_nat (f64_int v) :: u64;
            (frac_i, int_part) = (if frac_i \<ge> scale_i then (frac_i - scale_i, int_part + 1) else (frac_i, int_part));
            c = (if f64_negative v then bb_json_putc CHR ''-'' c else c);
            c = bb_json_write_u64 int_part c;
            c = bb_json_putc CHR ''.'' c
        in bb_json_write_frac_digits frac_i BB_SERIALIZE_JSON_F64_DECIMALS c)"

text \<open>The value of a double that is a 32-bit integer.\<close>

definition f64_int32 :: "u64 \<Rightarrow> int option" where
  "f64_int32 v =
     (let x = (if bit v 63 then - int (f64_int v) else int (f64_int v))
      in if (f64_exp v < 0 \<and> f64_rest v \<noteq> 0) \<or> x < - (2 ^ 31) \<or> x > 2 ^ 31 - 1 then None else Some x)"

definition bb_json_write_f64_shortest :: "(u64 \<Rightarrow> string) \<Rightarrow> u64 \<Rightarrow> bb_serialize_json_ctx_t \<Rightarrow> bb_serialize_json_ctx_t" where
  "bb_json_write_f64_shortest g v c =
     (if f64_nan_or_inf v then bb_json_put ''null'' c
      else case f64_int32 v of
             Some vi \<Rightarrow> bb_json_put (bb_num_i64_to_dec 32 (word_of_int vi)) c
           | None \<Rightarrow> bb_json_put (g v) c)"

section \<open>The level stack\<close>

definition bb_json_push_level :: "bool \<Rightarrow> bb_serialize_json_ctx_t \<Rightarrow> bb_serialize_json_ctx_t" where
  "bb_json_push_level is_array c =
     (if jc_err c \<noteq> BB_OK then c
      else let nxt = jc_depth c + 1
           in if nxt \<ge> JSON_STACK_LEVELS then c\<lparr>jc_err := BB_ERR_NO_SPACE\<rparr>
              else c\<lparr>jc_depth := nxt, jc_stack := (jc_stack c)[nxt := \<lparr>lv_is_array = is_array, lv_have_child = False\<rparr>]\<rparr>)"

definition bb_json_pop_level :: "bb_serialize_json_ctx_t \<Rightarrow> bb_serialize_json_ctx_t" where
  "bb_json_pop_level c = (if jc_depth c \<noteq> 0 then c\<lparr>jc_depth := jc_depth c - 1\<rparr> else c)"

definition bb_json_pre_value :: "json_key \<Rightarrow> bb_serialize_json_ctx_t \<Rightarrow> bb_serialize_json_ctx_t" where
  "bb_json_pre_value key c =
     (let lvl = jc_stack c ! jc_depth c;
          c = (if lv_have_child lvl then bb_json_putc CHR '','' c
               else c\<lparr>jc_stack := (jc_stack c)[jc_depth c := lvl\<lparr>lv_have_child := True\<rparr>]\<rparr>)
      in if lv_is_array lvl then c
         else let c = bb_json_putc CHR 0x22 c;
                  c = (case key of None \<Rightarrow> c | Some k \<Rightarrow> bb_json_escape_write k c)
              in bb_json_put [CHR 0x22, CHR '':''] c)"

section \<open>Callbacks\<close>

definition bb_json_cb_begin_obj :: "json_key \<Rightarrow> bb_serialize_json_ctx_t \<Rightarrow> bb_serialize_json_ctx_t" where
  "bb_json_cb_begin_obj key c = bb_json_push_level False (bb_json_putc CHR ''{'' (bb_json_pre_value key c))"

definition bb_json_cb_end_obj :: "bb_serialize_json_ctx_t \<Rightarrow> bb_serialize_json_ctx_t" where
  "bb_json_cb_end_obj c = bb_json_pop_level (bb_json_putc CHR ''}'' c)"

definition bb_json_cb_begin_arr :: "json_key \<Rightarrow> bb_serialize_json_ctx_t \<Rightarrow> bb_serialize_json_ctx_t" where
  "bb_json_cb_begin_arr key c = bb_json_push_level True (bb_json_putc CHR ''['' (bb_json_pre_value key c))"

definition bb_json_cb_end_arr :: "bb_serialize_json_ctx_t \<Rightarrow> bb_serialize_json_ctx_t" where
  "bb_json_cb_end_arr c = bb_json_pop_level (bb_json_putc CHR '']'' c)"

definition bb_json_cb_emit_i64 :: "json_key \<Rightarrow> u64 \<Rightarrow> bb_serialize_json_ctx_t \<Rightarrow> bb_serialize_json_ctx_t" where
  "bb_json_cb_emit_i64 key v c = bb_json_write_i64 v (bb_json_pre_value key c)"

definition bb_json_cb_emit_u64 :: "json_key \<Rightarrow> u64 \<Rightarrow> bb_serialize_json_ctx_t \<Rightarrow> bb_serialize_json_ctx_t" where
  "bb_json_cb_emit_u64 key v c = bb_json_write_u64 v (bb_json_pre_value key c)"

definition bb_json_cb_emit_f64 ::
  "(u64 \<Rightarrow> string) \<Rightarrow> json_key \<Rightarrow> u64 \<Rightarrow> bb_serialize_json_ctx_t \<Rightarrow> bb_serialize_json_ctx_t"
where
  "bb_json_cb_emit_f64 g key v c =
     (let c = bb_json_pre_value key c
      in if jc_f64_shortest c then bb_json_write_f64_shortest g v c else bb_json_write_f64 v c)"

definition bb_json_cb_emit_bool :: "json_key \<Rightarrow> bool \<Rightarrow> bb_serialize_json_ctx_t \<Rightarrow> bb_serialize_json_ctx_t" where
  "bb_json_cb_emit_bool key v c = bb_json_put (if v then ''true'' else ''false'') (bb_json_pre_value key c)"

definition bb_json_cb_emit_str :: "json_key \<Rightarrow> string \<Rightarrow> bb_serialize_json_ctx_t \<Rightarrow> bb_serialize_json_ctx_t" where
  "bb_json_cb_emit_str key s c =
     bb_json_putc CHR 0x22 (bb_json_escape_write s (bb_json_putc CHR 0x22 (bb_json_pre_value key c)))"

definition bb_json_cb_emit_null :: "json_key \<Rightarrow> bb_serialize_json_ctx_t \<Rightarrow> bb_serialize_json_ctx_t" where
  "bb_json_cb_emit_null key c = bb_json_put ''null'' (bb_json_pre_value key c)"

definition bb_serialize_json_emit :: "(u64 \<Rightarrow> string) \<Rightarrow> bb_serialize_json_ctx_t bb_serialize_emit_t" where
  "bb_serialize_json_emit g =
     \<lparr>em_begin_obj = bb_json_cb_begin_obj, em_end_obj = bb_json_cb_end_obj,
      em_begin_arr = bb_json_cb_begin_arr, em_end_arr = bb_json_cb_end_arr,
      em_i64 = bb_json_cb_emit_i64, em_u64 = bb_json_cb_emit_u64, em_f64 = bb_json_cb_emit_f64 g,
      em_bool = bb_json_cb_emit_bool, em_str = bb_json_cb_emit_str, em_null = bb_json_cb_emit_null\<rparr>"

section \<open>Rendering\<close>

text \<open>The levels beyond the first are not initialised; they are written before they are read.\<close>

definition bb_serialize_json_ctx_init :: "(nat \<Rightarrow> bb_serialize_json_level_t) \<Rightarrow> nat \<Rightarrow> bb_serialize_json_ctx_t" where
  "bb_serialize_json_ctx_init garbage cap =
     \<lparr>jc_buf = [], jc_cap = cap, jc_err = BB_OK, jc_depth = 0,
      jc_stack = \<lparr>lv_is_array = False, lv_have_child = False\<rparr> # map garbage [1..<JSON_STACK_LEVELS],
      jc_flush = None, jc_out = [], jc_f64_shortest = False\<rparr>"

text \<open>A call's surroundings: the text of \<^verbatim>\<open>snprintf\<close>, the uninitialised levels, the walker's environment and the memory.\<close>

record json_world =
  jw_g :: "u64 \<Rightarrow> string"
  jw_levels :: "nat \<Rightarrow> bb_serialize_json_level_t"
  jw_env :: walk_env
  jw_mem :: mem

text \<open>The result of rendering: error code, text before the NUL, reported length.\<close>

definition bb_json_render_impl ::
  "json_world \<Rightarrow> bb_serialize_desc_t option \<Rightarrow> nat \<Rightarrow> nat \<Rightarrow> bool \<Rightarrow> bb_err_t \<times> (string \<times> nat) option"
where
  "bb_json_render_impl w desc snap cap f64_shortest =
     (if cap = 0 then (BB_ERR_NO_SPACE, None)
      else
        let ctx = bb_serialize_json_ctx_init (jw_levels w) (cap - 1);
            ctx = ctx\<lparr>jc_f64_shortest := f64_shortest\<rparr>;
            emit = bb_serialize_json_emit (jw_g w);
            ctx = bb_json_putc CHR ''{'' ctx;
            ctx = bb_serialize_walk (jw_env w) (Some emit) (jw_mem w) (Some \<lparr>wc_desc = desc, wc_snap = snap\<rparr>) ctx;
            ctx = bb_json_putc CHR ''}'' ctx
        in if jc_err ctx \<noteq> BB_OK then (jc_err ctx, Some ([], 0)) else (BB_OK, Some (jc_buf ctx, length (jc_buf ctx))))"

text \<open>The result of streaming: error code and the chunks given to the flush function.\<close>

definition bb_serialize_json_stream_render ::
  "json_world \<Rightarrow> bb_serialize_desc_t option \<Rightarrow> nat \<Rightarrow> (string list \<Rightarrow> bool) option \<Rightarrow> bool \<Rightarrow> bb_err_t \<times> string list"
where
  "bb_serialize_json_stream_render w desc snap flush f64_shortest =
     (let ctx = bb_serialize_json_ctx_init (jw_levels w) BB_SERIALIZE_JSON_STREAM_FLUSH_BUF_BYTES;
          ctx = ctx\<lparr>jc_flush := flush, jc_f64_shortest := f64_shortest\<rparr>;
          emit = bb_serialize_json_emit (jw_g w);
          ctx = bb_json_putc CHR ''{'' ctx;
          ctx = bb_serialize_walk (jw_env w\<lparr>we_resolve := None\<rparr>) (Some emit) (jw_mem w) (Some \<lparr>wc_desc = desc, wc_snap = snap\<rparr>) ctx;
          ctx = bb_json_putc CHR ''}'' ctx;
          ctx = bb_json_flush ctx
      in (jc_err ctx, jc_out ctx))"

end
