(* ===== verification/BB_JSON_Written.thy ===== *)
theory BB_JSON_Written
  imports BB_JSON_Write
begin

text \<open>
  What the JSON writer writes: the text of a snapshot's tree, or nothing usable when the buffer is too small. The
  bounded writer and the flushing one are treated alike: a step adds its text to what has been delivered and buffered.
\<close>

section \<open>Texts\<close>

definition esc_char :: "char \<Rightarrow> string" where
  "esc_char c =
     (let n = of_char c :: nat
      in if n = 0x22 then [CHR 0x5C, CHR 0x22] else if n = 0x5C then [CHR 0x5C, CHR 0x5C]
         else if n = 8 then [CHR 0x5C, CHR ''b''] else if n = 12 then [CHR 0x5C, CHR ''f'']
         else if n = 10 then [CHR 0x5C, CHR ''n''] else if n = 13 then [CHR 0x5C, CHR ''r'']
         else if n = 9 then [CHR 0x5C, CHR ''t'']
         else if n < 0x20 then [CHR 0x5C, CHR ''u'', CHR ''0'', CHR ''0'', bb_json_hex_nibble (n div 16 mod 16), bb_json_hex_nibble (n mod 16)]
         else [c])"

definition esc_text :: "string \<Rightarrow> string" where
  "esc_text s = concat (map esc_char s)"

definition f64_fixed_text :: "u64 \<Rightarrow> string" where
  "f64_fixed_text v =
     (if f64_nan_or_inf v \<or> f64_int v \<ge> 2 ^ 64 then ''null''
      else
        let frac_i = f64_frac_i BB_SERIALIZE_JSON_F64_DECIMALS v; scale_i = 10 ^ BB_SERIALIZE_JSON_F64_DECIMALS;
            int_part = of_nat (f64_int v) :: u64
        in (if f64_negative v then ''-'' else []) @ dec (unat (if frac_i \<ge> scale_i then int_part + 1 else int_part)) @ ''.'' @
           frac_digits BB_SERIALIZE_JSON_F64_DECIMALS (if frac_i \<ge> scale_i then frac_i - scale_i else frac_i))"

definition f64_text :: "(u64 \<Rightarrow> string) \<Rightarrow> bool \<Rightarrow> u64 \<Rightarrow> string" where
  "f64_text g shortest v =
     (if shortest then
        (if f64_nan_or_inf v then ''null'' else case f64_int32 v of Some vi \<Rightarrow> i64_text (word_of_int vi) | None \<Rightarrow> g v)
      else f64_fixed_text v)"

definition key_out :: "json_key \<Rightarrow> string" where
  "key_out key = CHR 0x22 # (case key of None \<Rightarrow> [] | Some k \<Rightarrow> esc_text k) @ [CHR 0x22, CHR '':'']"

text \<open>Items with commas between them, and before the first one if something stands there already.\<close>

fun items_text :: "bool \<Rightarrow> string list \<Rightarrow> string" where
  "items_text h [] = []"
| "items_text h (x # xs) = (if h then '','' else []) @ x @ items_text True xs"

fun val_text :: "(u64 \<Rightarrow> string) \<Rightarrow> bool \<Rightarrow> snap_val \<Rightarrow> string" where
  "val_text g sh (SV_I64 v) = i64_text v"
| "val_text g sh (SV_U64 v) = dec (unat v)"
| "val_text g sh (SV_F64 v) = f64_text g sh v"
| "val_text g sh (SV_bool b) = (if b then ''true'' else ''false'')"
| "val_text g sh (SV_str s) = CHR 0x22 # esc_text s @ [CHR 0x22]"
| "val_text g sh SV_null = ''null''"
| "val_text g sh (SV_obj ms) = ''{'' @ items_text False (map (\<lambda>(k, v). key_out k @ val_text g sh v) ms) @ ''}''"
| "val_text g sh (SV_arr vs) = ''['' @ items_text False (map (val_text g sh) vs) @ '']''"

section \<open>Writing\<close>

text \<open>A context that can be written to: room for what it holds, and a flush function, if any, that never asks to stop.\<close>

definition json_wf :: "bb_serialize_json_ctx_t \<Rightarrow> bool" where
  "json_wf c \<longleftrightarrow> length (jc_buf c) \<le> jc_cap c \<and>
     (\<forall>failed. jc_flush c = Some failed \<longrightarrow> 32 \<le> jc_cap c \<and> (\<forall>l. \<not> failed l))"

definition written :: "bb_serialize_json_ctx_t \<Rightarrow> string" where
  "written c = concat (jc_out c) @ jc_buf c"

definition room :: "bb_serialize_json_ctx_t \<Rightarrow> string \<Rightarrow> bool" where
  "room c t \<longleftrightarrow> (jc_flush c = None \<longrightarrow> length (jc_buf c) + length t \<le> jc_cap c)"

definition same_sink :: "bb_serialize_json_ctx_t \<Rightarrow> bb_serialize_json_ctx_t \<Rightarrow> bool" where
  "same_sink c c' \<longleftrightarrow> jc_cap c' = jc_cap c \<and> jc_flush c' = jc_flush c \<and> jc_f64_shortest c' = jc_f64_shortest c"

definition stuck :: "bb_serialize_json_ctx_t \<Rightarrow> bb_serialize_json_ctx_t \<Rightarrow> bool" where
  "stuck c c' \<longleftrightarrow> jc_err c \<noteq> BB_OK \<and> jc_err c' = jc_err c \<and> jc_buf c' = jc_buf c \<and> jc_out c' = jc_out c \<and> same_sink c c'"

text \<open>From \<^verbatim>\<open>c\<close>, writing \<^verbatim>\<open>t\<close> leads to \<^verbatim>\<open>c'\<close>.\<close>

definition adv :: "bb_serialize_json_ctx_t \<Rightarrow> string \<Rightarrow> bb_serialize_json_ctx_t \<Rightarrow> bool" where
  "adv c t c' \<longleftrightarrow> json_wf c' \<and> same_sink c c' \<and>
     (if jc_err c \<noteq> BB_OK then stuck c c'
      else if room c t then jc_err c' = BB_OK \<and> written c' = written c @ t \<and> (jc_flush c = None \<longrightarrow> jc_out c' = jc_out c)
      else jc_err c' = BB_ERR_NO_SPACE)"

lemma adv_refl: "json_wf c \<Longrightarrow> adv c [] c"
  by (auto simp: adv_def stuck_def same_sink_def room_def json_wf_def)

lemma adv_levels: "json_wf c \<Longrightarrow> adv c [] (c\<lparr>jc_stack := x\<rparr>)" "json_wf c \<Longrightarrow> adv c [] (c\<lparr>jc_depth := d, jc_stack := x\<rparr>)"
    "json_wf c \<Longrightarrow> adv c [] (c\<lparr>jc_depth := d\<rparr>)"
  by (auto simp: adv_def stuck_def same_sink_def room_def json_wf_def written_def)

lemma adv_trans:
  assumes "adv c t c1" and "adv c1 u c2"
  shows "adv c (t @ u) c2"
proof (cases "jc_err c = BB_OK \<and> room c t")
  case True
  then have c1: "jc_err c1 = BB_OK" "written c1 = written c @ t" "same_sink c c1" "jc_flush c = None \<longrightarrow> jc_out c1 = jc_out c"
    using assms(1) by (simp_all add: adv_def)
  then have "jc_flush c = None \<longrightarrow> jc_buf c1 = jc_buf c @ t" by (auto simp: written_def)
  then have "room c (t @ u) \<longleftrightarrow> room c1 u" using c1(3) by (auto simp: room_def same_sink_def)
  then show ?thesis using assms(2) c1 True by (auto simp: adv_def same_sink_def split: if_splits)
next
  case False
  then have "room c (t @ u) \<longrightarrow> room c t" "jc_err c1 \<noteq> BB_OK" using assms(1) by (auto simp: adv_def room_def stuck_def split: if_splits)
  then show ?thesis using assms False by (auto simp: adv_def stuck_def same_sink_def split: if_splits)
qed

text \<open>A step that leaves the levels alone.\<close>

definition writes :: "bb_serialize_json_ctx_t \<Rightarrow> string \<Rightarrow> bb_serialize_json_ctx_t \<Rightarrow> bool" where
  "writes c t c' \<longleftrightarrow> adv c t c' \<and> jc_depth c' = jc_depth c \<and> jc_stack c' = jc_stack c"

lemma writes_refl: "json_wf c \<Longrightarrow> writes c [] c"
  by (simp add: writes_def adv_refl)

lemma writes_trans: "writes c t c1 \<Longrightarrow> writes c1 u c2 \<Longrightarrow> writes c (t @ u) c2"
  by (auto simp: writes_def intro: adv_trans)

lemma writes_wf: "writes c t c' \<Longrightarrow> json_wf c'"
  by (simp add: writes_def adv_def)

lemma put_writes: "json_wf c \<Longrightarrow> length t \<le> 32 \<Longrightarrow> writes c t (bb_json_put t c)"
  by (cases "jc_flush c")
    (auto simp: writes_def adv_def json_wf_def same_sink_def stuck_def room_def written_def bb_json_put_def bb_json_flush_def Let_def)

lemma putc_writes: "json_wf c \<Longrightarrow> writes c [ch] (bb_json_putc ch c)"
  by (simp add: bb_json_putc_def put_writes)

lemma escape_char_writes: "json_wf c \<Longrightarrow> writes c (esc_char ch) (bb_json_escape_char ch c)"
  by (simp add: bb_json_escape_char_def esc_char_def Let_def put_writes putc_writes)

lemma escape_writes: "json_wf c \<Longrightarrow> writes c (esc_text s) (bb_json_escape_write s c)"
proof (induction s arbitrary: c)
  case (Cons ch s)
  then show ?case using writes_trans [OF escape_char_writes [OF Cons.prems] Cons.IH [OF writes_wf [OF escape_char_writes [OF Cons.prems]]]]
    by (simp add: bb_json_escape_write_def esc_text_def)
qed (simp add: bb_json_escape_write_def esc_text_def writes_refl)

lemma u64_writes: "json_wf c \<Longrightarrow> writes c (dec (unat v)) (bb_json_write_u64 v c)"
  using put_writes [of c "dec (unat v)"] dec_u64_length [of v] by (simp add: bb_json_write_u64_def u64_to_dec)

lemma i64_writes: "json_wf c \<Longrightarrow> writes c (i64_text v) (bb_json_write_i64 v c)"
  using put_writes [of c "i64_text v"] i64_text_length [of v] by (simp add: bb_json_write_i64_def i64_to_dec)

lemma frac_digits_length [simp]: "length (frac_digits n f) = n"
  by (induction n arbitrary: f) simp_all

lemma writes_two: "json_wf c \<Longrightarrow> (\<And>c. json_wf c \<Longrightarrow> writes c t (f c)) \<Longrightarrow> (\<And>c. json_wf c \<Longrightarrow> writes c u (g c)) \<Longrightarrow>
    writes c (t @ u) (g (f c))"
  by (meson writes_trans writes_wf)

lemma frac_writes: "json_wf c \<Longrightarrow> writes c (frac_digits BB_SERIALIZE_JSON_F64_DECIMALS fr) (bb_json_write_frac_digits fr BB_SERIALIZE_JSON_F64_DECIMALS c)"
  unfolding bb_json_write_frac_digits_def by (rule put_writes) (simp_all add: BB_SERIALIZE_JSON_F64_DECIMALS_def)

lemma f64_fixed_writes: "json_wf c \<Longrightarrow> writes c (f64_fixed_text v) (bb_json_write_f64 v c)"
proof -
  assume c: "json_wf c"
  have body: "writes c ((if b then ''-'' else []) @ dec (unat i) @ ''.'' @ frac_digits BB_SERIALIZE_JSON_F64_DECIMALS fr)
      (bb_json_write_frac_digits fr BB_SERIALIZE_JSON_F64_DECIMALS
        (bb_json_putc CHR ''.'' (bb_json_write_u64 i (if b then bb_json_putc CHR ''-'' c else c))))" for b i fr
  proof -
    have "writes c (if b then ''-'' else []) (if b then bb_json_putc CHR ''-'' c else c)" using c by (simp add: putc_writes writes_refl)
    moreover have "writes c' (dec (unat i) @ ''.'' @ frac_digits BB_SERIALIZE_JSON_F64_DECIMALS fr)
        (bb_json_write_frac_digits fr BB_SERIALIZE_JSON_F64_DECIMALS (bb_json_putc CHR ''.'' (bb_json_write_u64 i c')))" if "json_wf c'" for c'
      using writes_two [OF that, OF u64_writes writes_two [OF _ putc_writes frac_writes]] by simp
    ultimately show ?thesis by (meson writes_trans writes_wf)
  qed
  show ?thesis
    using put_writes [OF c, of "''null''"] body
    by (auto simp: bb_json_write_f64_def f64_fixed_text_def Let_def simp del: append.simps)
qed

text \<open>The shortest format relies on \<^verbatim>\<open>snprintf\<close> staying within its 32-byte buffer.\<close>

definition g_fits :: "(u64 \<Rightarrow> string) \<Rightarrow> bool \<Rightarrow> bool" where
  "g_fits g shortest \<longleftrightarrow> (shortest \<longrightarrow> (\<forall>v. length (g v) < 32))"

lemma f64_writes:
  "json_wf c \<Longrightarrow> g_fits g (jc_f64_shortest c) \<Longrightarrow>
    writes c (f64_text g (jc_f64_shortest c) v) (if jc_f64_shortest c then bb_json_write_f64_shortest g v c else bb_json_write_f64 v c)"
proof -
  assume c: "json_wf c" and g: "g_fits g (jc_f64_shortest c)"
  show ?thesis
  proof (cases "jc_f64_shortest c")
    case True
    have "length (i64_text w) \<le> 32" for w using i64_text_length [of w] by simp
    moreover have "length (g v) \<le> 32" using g True by (simp add: g_fits_def less_imp_le)
    ultimately show ?thesis using True c
      by (auto simp: f64_text_def bb_json_write_f64_shortest_def i64_to_dec put_writes split: option.split)
  qed (simp add: f64_text_def f64_fixed_writes c)
qed

section \<open>Levels\<close>

text \<open>What the callbacks keep whatever happens: the buffer within its capacity, the depth within the stack, and the chunks
  delivered neither empty nor larger than the buffer.\<close>

definition json_safe :: "bb_serialize_json_ctx_t \<Rightarrow> bool" where
  "json_safe c \<longleftrightarrow> length (jc_buf c) \<le> jc_cap c \<and> length (jc_stack c) = JSON_STACK_LEVELS \<and> jc_depth c < JSON_STACK_LEVELS \<and>
     (\<forall>x \<in> set (jc_out c). x \<noteq> [] \<and> length x \<le> jc_cap c)"

text \<open>The live levels, the innermost last.\<close>

definition live :: "bb_serialize_json_ctx_t \<Rightarrow> bb_serialize_json_level_t list" where
  "live c = take (jc_depth c + 1) (jc_stack c)"

lemma flush_safe: "json_safe c \<Longrightarrow> json_safe (bb_json_flush c)"
  by (auto simp: json_safe_def bb_json_flush_def Let_def split: option.split)

lemma put_safe: "json_safe c \<Longrightarrow> json_safe (bb_json_put t c)"
  by (auto simp: json_safe_def bb_json_put_def bb_json_flush_def Let_def split: option.split)

lemma putc_safe: "json_safe c \<Longrightarrow> json_safe (bb_json_putc ch c)"
  by (simp add: bb_json_putc_def put_safe)

lemma escape_safe: "json_safe c \<Longrightarrow> json_safe (bb_json_escape_write s c)"
  unfolding bb_json_escape_write_def
  by (induction s arbitrary: c) (simp_all add: bb_json_escape_char_def Let_def put_safe putc_safe)

lemma pre_value_safe: "json_safe c \<Longrightarrow> json_safe (bb_json_pre_value key c)"
proof -
  assume c: "json_safe c"
  have "json_safe (c\<lparr>jc_stack := (jc_stack c)[jc_depth c := l]\<rparr>)" for l using c by (simp add: json_safe_def)
  then show ?thesis using c by (simp add: bb_json_pre_value_def Let_def putc_safe put_safe escape_safe split: option.split)
qed

lemma push_safe: "json_safe c \<Longrightarrow> json_safe (bb_json_push_level b c)"
  by (simp add: json_safe_def bb_json_push_level_def Let_def)

lemma pop_safe: "json_safe c \<Longrightarrow> json_safe (bb_json_pop_level c)"
  by (auto simp: json_safe_def bb_json_pop_level_def)

lemma number_safe:
  "json_safe c \<Longrightarrow> json_safe (bb_json_write_i64 v c)" "json_safe c \<Longrightarrow> json_safe (bb_json_write_u64 v c)"
  "json_safe c \<Longrightarrow> json_safe (bb_json_write_f64 v c)" "json_safe c \<Longrightarrow> json_safe (bb_json_write_f64_shortest g v c)"
  by (simp_all add: bb_json_write_i64_def bb_json_write_u64_def bb_json_write_f64_def bb_json_write_f64_shortest_def bb_json_write_frac_digits_def
    Let_def put_safe putc_safe split: option.split)

lemmas callback_defs = bb_serialize_json_emit_def bb_json_cb_begin_obj_def bb_json_cb_end_obj_def bb_json_cb_begin_arr_def
  bb_json_cb_end_arr_def bb_json_cb_emit_i64_def bb_json_cb_emit_u64_def bb_json_cb_emit_f64_def bb_json_cb_emit_bool_def
  bb_json_cb_emit_str_def bb_json_cb_emit_null_def

interpretation jsafe: emit_backend "bb_serialize_json_emit g" json_safe for g
  by unfold_locales
    (simp_all add: callback_defs Let_def push_safe pop_safe putc_safe put_safe pre_value_safe number_safe escape_safe)

text \<open>After an error nothing more is written.\<close>

lemma stuck_refl: "jc_err c \<noteq> BB_OK \<Longrightarrow> stuck c c"
  by (simp add: stuck_def same_sink_def)

lemma stuck_wf: "json_wf c \<Longrightarrow> stuck c c' \<Longrightarrow> json_wf c'"
  by (auto simp: json_wf_def stuck_def same_sink_def)

lemma stuck_id: "stuck c0 c \<Longrightarrow> bb_json_put t c = c" "stuck c0 c \<Longrightarrow> bb_json_putc ch c = c" "stuck c0 c \<Longrightarrow> bb_json_push_level b c = c"
  by (simp_all add: stuck_def bb_json_put_def bb_json_putc_def bb_json_push_level_def)

lemma stuck_updates [simp]:
  "stuck c0 (c\<lparr>jc_stack := x\<rparr>) = stuck c0 c" "stuck c0 (c\<lparr>jc_depth := d\<rparr>) = stuck c0 c"
  by (simp_all add: stuck_def same_sink_def)

lemma stuck_escape: "stuck c0 c \<Longrightarrow> bb_json_escape_write s c = c"
  unfolding bb_json_escape_write_def by (induction s) (simp_all add: bb_json_escape_char_def Let_def stuck_id)

lemma stuck_number: "stuck c0 c \<Longrightarrow> bb_json_write_i64 v c = c" "stuck c0 c \<Longrightarrow> bb_json_write_u64 v c = c"
  "stuck c0 c \<Longrightarrow> bb_json_write_f64 v c = c" "stuck c0 c \<Longrightarrow> bb_json_write_f64_shortest g v c = c"
  by (simp_all add: bb_json_write_i64_def bb_json_write_u64_def bb_json_write_f64_def bb_json_write_f64_shortest_def bb_json_write_frac_digits_def
    Let_def stuck_id split: option.split)

lemma stuck_pre_value: "stuck c0 c \<Longrightarrow> stuck c0 (bb_json_pre_value key c)"
proof -
  assume c: "stuck c0 c"
  then have "stuck c0 (c\<lparr>jc_stack := x\<rparr>)" for x by simp
  from stuck_id [OF this] stuck_escape [OF this] stuck_id [OF c] stuck_escape [OF c] show ?thesis
    using c by (simp add: bb_json_pre_value_def Let_def split: option.split)
qed

lemma stuck_pop: "stuck c0 c \<Longrightarrow> stuck c0 (bb_json_pop_level c)"
  by (simp add: bb_json_pop_level_def)

interpretation jstuck: emit_backend "bb_serialize_json_emit g" "stuck c0" for g c0
proof unfold_locales
  fix c key w b t assume c: "stuck c0 c"
  note pv = stuck_pre_value [OF c, of key]
  note facts = pv stuck_id [OF pv] stuck_number [OF pv] stuck_escape [OF pv] stuck_id [OF c]
  show "stuck c0 (em_begin_obj (bb_serialize_json_emit g) key c)" "stuck c0 (em_begin_arr (bb_serialize_json_emit g) key c)"
    "stuck c0 (em_i64 (bb_serialize_json_emit g) key w c)" "stuck c0 (em_u64 (bb_serialize_json_emit g) key w c)"
    "stuck c0 (em_f64 (bb_serialize_json_emit g) key w c)" "stuck c0 (em_bool (bb_serialize_json_emit g) key b c)"
    "stuck c0 (em_str (bb_serialize_json_emit g) key t c)" "stuck c0 (em_null (bb_serialize_json_emit g) key c)"
    by (simp_all add: callback_defs Let_def facts)
  show "stuck c0 (em_end_obj (bb_serialize_json_emit g) c)" "stuck c0 (em_end_arr (bb_serialize_json_emit g) c)"
    using stuck_pop [OF c] by (simp_all add: callback_defs stuck_id [OF c])
qed

section \<open>Emitting a tree\<close>

text \<open>From \<^verbatim>\<open>c\<close>, whose levels are live, writing \<^verbatim>\<open>t\<close> leads to \<^verbatim>\<open>c'\<close>, with the live levels \<^verbatim>\<open>L\<close> unless there was no room.\<close>

definition emits :: "bb_serialize_json_ctx_t \<Rightarrow> string \<Rightarrow> bb_serialize_json_level_t list \<Rightarrow> bb_serialize_json_ctx_t \<Rightarrow> bool" where
  "emits c t L c' \<longleftrightarrow> adv c t c' \<and> json_safe c' \<and> (jc_err c' = BB_OK \<longrightarrow> live c' = L)"

definition ready :: "(u64 \<Rightarrow> string) \<Rightarrow> bool \<Rightarrow> bb_serialize_json_ctx_t \<Rightarrow> bb_serialize_json_level_t list \<Rightarrow> bool" where
  "ready g sh c L \<longleftrightarrow> json_wf c \<and> json_safe c \<and> jc_err c = BB_OK \<and> live c = L \<and> jc_f64_shortest c = sh \<and> g_fits g sh"

lemma emits_trans:
  assumes "emits c t L c1" and "jc_err c1 = BB_OK \<Longrightarrow> emits c1 u M (f c1)" and "\<And>c. jc_err c \<noteq> BB_OK \<Longrightarrow> stuck c (f c)"
    and "\<And>c. json_safe c \<Longrightarrow> json_safe (f c)"
  shows "emits c (t @ u) M (f c1)"
proof (cases "jc_err c1 = BB_OK")
  case True
  then show ?thesis using assms(1,2) adv_trans [of c t c1 u "f c1"] by (simp add: emits_def)
next
  case False
  have st: "stuck c1 (f c1)" by (rule assms(3) [OF False])
  have "json_wf (f c1)" using assms(1) stuck_wf [OF _ st] by (simp add: emits_def adv_def)
  then have "adv c1 u (f c1)" using st False by (simp add: adv_def stuck_def)
  then show ?thesis using assms(1,4) st adv_trans [of c t c1 u "f c1"] by (auto simp: emits_def stuck_def)
qed

lemma emits_ready: "ready g sh c L0 \<Longrightarrow> emits c t L c1 \<Longrightarrow> jc_err c1 = BB_OK \<Longrightarrow> ready g sh c1 L"
  by (auto simp: ready_def emits_def adv_def same_sink_def)

lemma writes_emits: "ready g sh c L \<Longrightarrow> writes c t c' \<Longrightarrow> json_safe c' \<Longrightarrow> emits c t L c'"
  by (simp add: emits_def writes_def ready_def live_def)

definition marked :: "bb_serialize_json_level_t \<Rightarrow> bb_serialize_json_level_t" where
  "marked l = l\<lparr>lv_have_child := True\<rparr>"

lemma marked_simps [simp]: "lv_is_array (marked l) = lv_is_array l" "lv_have_child (marked l)" "marked (marked l) = marked l"
  "lv_have_child l \<Longrightarrow> marked l = l"
  by (simp_all add: marked_def)

definition lead :: "bb_serialize_json_level_t \<Rightarrow> json_key \<Rightarrow> string" where
  "lead l key = (if lv_have_child l then '','' else []) @ (if lv_is_array l then [] else key_out key)"

lemma live_top:
  assumes "live c = L @ [l]" and "json_safe c"
  shows "jc_depth c = length L" "jc_stack c ! jc_depth c = l" "live (c\<lparr>jc_stack := (jc_stack c)[jc_depth c := x]\<rparr>) = L @ [x]"
proof -
  have len: "jc_depth c < length (jc_stack c)" using assms(2) by (simp add: json_safe_def)
  then have "live c = take (jc_depth c) (jc_stack c) @ [jc_stack c ! jc_depth c]" by (simp add: live_def take_Suc_conv_app_nth)
  then have *: "take (jc_depth c) (jc_stack c) = L" "jc_stack c ! jc_depth c = l" using assms(1) by simp_all
  from *(1) show "jc_depth c = length L" using len by auto
  show "jc_stack c ! jc_depth c = l" by (rule *(2))
  show "live (c\<lparr>jc_stack := (jc_stack c)[jc_depth c := x]\<rparr>) = L @ [x]" using len *(1) by (simp add: live_def take_Suc_conv_app_nth)
qed

lemma key_writes: "json_wf c \<Longrightarrow>
  writes c (key_out key) (bb_json_put [CHR 0x22, CHR '':''] (case key of None \<Rightarrow> bb_json_putc CHR 0x22 c
    | Some k \<Rightarrow> bb_json_escape_write k (bb_json_putc CHR 0x22 c)))"
proof -
  assume c: "json_wf c"
  have p: "writes c' [CHR 0x22, CHR '':''] (bb_json_put [CHR 0x22, CHR '':''] c')" if "json_wf c'" for c'
    using that by (simp add: put_writes)
  show ?thesis
  proof (cases key)
    case None
    then show ?thesis using writes_two [OF c, OF putc_writes p] by (simp add: key_out_def)
  next
    case (Some k)
    then show ?thesis using writes_two [OF c, OF putc_writes writes_two [OF _ escape_writes p]] by (simp add: key_out_def)
  qed
qed

lemma pre_value_emits:
  assumes r: "ready g sh c (L @ [l])"
  shows "emits c (lead l key) (L @ [marked l]) (bb_json_pre_value key c)"
proof -
  have s: "json_safe c" "json_wf c" "live c = L @ [l]" using r by (simp_all add: ready_def)
  note top = live_top [OF s(3,1)]
  let ?c1 = "if lv_have_child l then bb_json_putc CHR '','' c else c\<lparr>jc_stack := (jc_stack c)[jc_depth c := marked l]\<rparr>"
  let ?k = "\<lambda>c. if lv_is_array l then c else bb_json_put [CHR 0x22, CHR '':''] (case key of None \<Rightarrow> bb_json_putc CHR 0x22 c
    | Some k \<Rightarrow> bb_json_escape_write k (bb_json_putc CHR 0x22 c))"
  have pv: "bb_json_pre_value key c = ?k ?c1"
    by (simp add: bb_json_pre_value_def Let_def top(2) marked_def split: option.split)
  have sep: "emits c (if lv_have_child l then '','' else []) (L @ [marked l]) ?c1"
  proof (cases "lv_have_child l")
    case True
    then show ?thesis using writes_emits [OF r putc_writes [OF s(2)] putc_safe [OF s(1)]] by simp
  next
    case False
    have "adv c [] (c\<lparr>jc_stack := (jc_stack c)[jc_depth c := marked l]\<rparr>)"
      by (rule adv_levels [OF s(2)])
    then show ?thesis using False top(3) [of "marked l"] s(1) by (simp add: emits_def json_safe_def)
  qed
  have "emits c ((if lv_have_child l then '','' else []) @ (if lv_is_array l then [] else key_out key)) (L @ [marked l]) (?k ?c1)"
  proof (rule emits_trans [OF sep])
    assume ok: "jc_err ?c1 = BB_OK"
    then have "ready g sh ?c1 (L @ [marked l])" by (rule emits_ready [OF r sep])
    moreover have "json_wf ?c1" using calculation by (simp only: ready_def)
    moreover have "json_safe (?k ?c1)" using pre_value_safe [OF s(1), of key] pv by simp
    ultimately show "emits ?c1 (if lv_is_array l then [] else key_out key) (L @ [marked l]) (?k ?c1)"
      using writes_emits key_writes [of ?c1 key] writes_refl by (cases "lv_is_array l") auto
  next
    fix c :: bb_serialize_json_ctx_t assume "jc_err c \<noteq> BB_OK"
    from stuck_refl [OF this] show "stuck c (?k c)" by (simp add: stuck_id stuck_escape split: option.split)
  next
    fix c :: bb_serialize_json_ctx_t assume "json_safe c"
    then show "json_safe (?k c)" by (simp add: put_safe putc_safe escape_safe split: option.split)
  qed
  then show ?thesis by (simp only: pv lead_def)
qed

lemma scalar_emits:
  assumes r: "ready g sh c (L @ [l])"
    and w: "\<And>c. ready g sh c (L @ [marked l]) \<Longrightarrow> writes c t (f c)"
    and st: "\<And>c. jc_err c \<noteq> BB_OK \<Longrightarrow> stuck c (f c)" and sf: "\<And>c. json_safe c \<Longrightarrow> json_safe (f c)"
  shows "emits c (lead l key @ t) (L @ [marked l]) (f (bb_json_pre_value key c))"
proof (rule emits_trans [OF pre_value_emits [OF r] _ st sf])
  assume "jc_err (bb_json_pre_value key c) = BB_OK"
  from emits_ready [OF r pre_value_emits [OF r] this] have r': "ready g sh (bb_json_pre_value key c) (L @ [marked l])" .
  then have "json_safe (f (bb_json_pre_value key c))" by (intro sf) (simp add: ready_def)
  then show "emits (bb_json_pre_value key c) t (L @ [marked l]) (f (bb_json_pre_value key c))"
    by (rule writes_emits [OF r' w [OF r']])
qed

lemma begin_emits:
  assumes r: "ready g sh c (L @ [l])" and d: "length L + 2 \<le> JSON_STACK_LEVELS"
  shows "emits c (lead l key @ [ch]) (L @ [marked l, \<lparr>lv_is_array = b, lv_have_child = False\<rparr>])
    (bb_json_push_level b (bb_json_putc ch (bb_json_pre_value key c)))"
proof -
  let ?c1 = "bb_json_putc ch (bb_json_pre_value key c)"
  have w: "emits c (lead l key @ [ch]) (L @ [marked l]) ?c1"
    by (rule scalar_emits [OF r, of _ "bb_json_putc ch"]) (auto simp: ready_def putc_writes putc_safe stuck_id dest: stuck_refl)
  have "emits c ((lead l key @ [ch]) @ []) (L @ [marked l, \<lparr>lv_is_array = b, lv_have_child = False\<rparr>]) (bb_json_push_level b ?c1)"
  proof (rule emits_trans [OF w])
    assume ok: "jc_err ?c1 = BB_OK"
    from emits_ready [OF r w ok] have r1: "json_safe ?c1" "json_wf ?c1" "live ?c1 = L @ [marked l]" by (simp_all add: ready_def)
    have dep: "jc_depth ?c1 = length L" by (rule live_top [OF r1(3,1)])
    have len: "length (jc_stack ?c1) = JSON_STACK_LEVELS" using r1(1) by (simp add: json_safe_def)
    have lv: "live (bb_json_push_level b ?c1) = live ?c1 @ [\<lparr>lv_is_array = b, lv_have_child = False\<rparr>]"
      using ok dep len d by (simp add: bb_json_push_level_def live_def take_Suc_conv_app_nth)
    have "adv ?c1 [] (bb_json_push_level b ?c1)" using adv_levels(2) [OF r1(2)] ok dep d by (simp add: bb_json_push_level_def)
    then show "emits ?c1 [] (L @ [marked l, \<lparr>lv_is_array = b, lv_have_child = False\<rparr>]) (bb_json_push_level b ?c1)"
      using push_safe [OF r1(1)] lv r1(3) by (simp add: emits_def)
  next
    fix c :: bb_serialize_json_ctx_t assume "jc_err c \<noteq> BB_OK"
    from stuck_refl [OF this] show "stuck c (bb_json_push_level b c)" by (simp add: stuck_id)
  qed (rule push_safe)
  then show ?thesis by simp
qed

lemma end_emits:
  assumes r: "ready g sh c ((L @ [l]) @ [x])"
  shows "emits c [ch] (L @ [l]) (bb_json_pop_level (bb_json_putc ch c))"
proof -
  have "emits c [ch] ((L @ [l]) @ [x]) (bb_json_putc ch c)"
    by (rule writes_emits [OF r]) (use r in \<open>simp_all add: ready_def putc_writes putc_safe\<close>)
  then have "emits c ([ch] @ []) (L @ [l]) (bb_json_pop_level (bb_json_putc ch c))"
  proof (rule emits_trans)
    let ?c1 = "bb_json_putc ch c"
    assume "jc_err ?c1 = BB_OK"
    from emits_ready [OF r \<open>emits c [ch] ((L @ [l]) @ [x]) ?c1\<close> this]
    have r1: "json_safe ?c1" "json_wf ?c1" "live ?c1 = (L @ [l]) @ [x]" by (simp_all add: ready_def)
    have dep: "jc_depth ?c1 = length (L @ [l])" by (rule live_top [OF r1(3,1)])
    have "live (bb_json_pop_level ?c1) = take (length (L @ [l])) (live ?c1)"
      using dep by (simp add: bb_json_pop_level_def live_def min_def)
    then have "live (bb_json_pop_level ?c1) = L @ [l]" using r1(3) by simp
    moreover have "adv ?c1 [] (bb_json_pop_level ?c1)" using adv_levels(3) [OF r1(2)] adv_refl [OF r1(2)] by (simp add: bb_json_pop_level_def)
    ultimately show "emits ?c1 [] (L @ [l]) (bb_json_pop_level ?c1)" using pop_safe [OF r1(1)] by (simp add: emits_def)
  qed (simp_all add: stuck_pop stuck_refl pop_safe)
  then show ?thesis by simp
qed

text \<open>The value of a tree that fits the levels left.\<close>

definition tells_val :: "(u64 \<Rightarrow> string) \<Rightarrow> bool \<Rightarrow> snap_val \<Rightarrow> bool" where
  "tells_val g sh v \<longleftrightarrow> (\<forall>c L l key n. ready g sh c (L @ [l]) \<longrightarrow> nested n v \<longrightarrow> length L + 1 + n \<le> JSON_STACK_LEVELS \<longrightarrow>
     emits c (lead l key @ val_text g sh v) (L @ [marked l]) (emit_val (bb_serialize_json_emit g) key v c))"

lemma emit_sticky: "jc_err c \<noteq> BB_OK \<Longrightarrow> stuck c (emit_val (bb_serialize_json_emit g) key v c)"
  "jc_err c \<noteq> BB_OK \<Longrightarrow> stuck c (emit_members (bb_serialize_json_emit g) ms c)"
  by (intro jstuck.emit_val_keeps jstuck.emit_members_keeps stuck_refl; assumption)+

lemma stuck_trans: "stuck a b \<Longrightarrow> stuck b c \<Longrightarrow> stuck a c"
  by (simp add: stuck_def same_sink_def)

lemma stuck_errs: "stuck a b \<Longrightarrow> jc_err b \<noteq> BB_OK"
  by (simp add: stuck_def)

lemma fold_steps: "(\<And>x c. P c \<Longrightarrow> P (f x c)) \<Longrightarrow> P c \<Longrightarrow> P (fold f xs c)"
  by (induction xs arbitrary: c) simp_all

lemma fold_stuck: "(\<And>x c. jc_err c \<noteq> BB_OK \<Longrightarrow> stuck c (f x c)) \<Longrightarrow> stuck c0 c \<Longrightarrow> stuck c0 (fold f xs c)"
proof (rule fold_steps [of "stuck c0"])
  fix x c assume st: "\<And>x c. jc_err c \<noteq> BB_OK \<Longrightarrow> stuck c (f x c)" and c: "stuck c0 c"
  show "stuck c0 (f x c)" by (rule stuck_trans [OF c st [OF stuck_errs [OF c]]])
qed

lemma items_emits:
  assumes val: "\<And>x c L l. x \<in> set xs \<Longrightarrow> ready g sh c (L @ [l]) \<Longrightarrow> length L + 1 + n \<le> JSON_STACK_LEVELS \<Longrightarrow>
        lv_is_array l = arr \<Longrightarrow> emits c ((if lv_have_child l then '','' else []) @ txt x) (L @ [marked l]) (f x c)"
    and st: "\<And>x c. jc_err c \<noteq> BB_OK \<Longrightarrow> stuck c (f x c)" and sf: "\<And>x c. json_safe c \<Longrightarrow> json_safe (f x c)"
    and "ready g sh c (L @ [l])" and "length L + 1 + n \<le> JSON_STACK_LEVELS" and "lv_is_array l = arr"
  shows "emits c (items_text (lv_have_child l) (map txt xs)) (L @ [if xs = [] then l else marked l]) (fold f xs c)"
  using assms(1,4-)
proof (induction xs arbitrary: c l)
  case Nil
  from Nil(2) have "json_wf c" "json_safe c" by (simp_all add: ready_def)
  from writes_emits [OF Nil(2) writes_refl [OF this(1)] this(2)] show ?case by simp
next
  case (Cons x xs)
  note fst = Cons.prems(1) [OF list.set_intros(1) Cons.prems(2-4)]
  have "emits c (((if lv_have_child l then '','' else []) @ txt x) @ items_text True (map txt xs)) (L @ [marked l]) (fold f xs (f x c))"
  proof (rule emits_trans [OF fst])
    assume "jc_err (f x c) = BB_OK"
    note r = emits_ready [OF Cons.prems(2) fst this]
    have "emits (f x c) (items_text (lv_have_child (marked l)) (map txt xs)) (L @ [if xs = [] then marked l else marked (marked l)])
        (fold f xs (f x c))"
    proof (rule Cons.IH [OF _ r Cons.prems(3)])
      show "lv_is_array (marked l) = arr" using Cons.prems(4) by simp
    qed (rule Cons.prems(1), simp_all)
    then show "emits (f x c) (items_text True (map txt xs)) (L @ [marked l]) (fold f xs (f x c))" by (cases "xs = []") simp_all
  next
    fix c :: bb_serialize_json_ctx_t assume "jc_err c \<noteq> BB_OK"
    then show "stuck c (fold f xs c)" by (intro fold_stuck [OF st] stuck_refl)
  qed (rule fold_steps [of json_safe, OF sf])
  then show ?case by simp
qed

lemma container_emits:
  assumes r: "ready g sh c (L @ [l])" and n: "length L + 2 \<le> JSON_STACK_LEVELS"
    and items: "\<And>c. ready g sh c ((L @ [marked l]) @ [\<lparr>lv_is_array = b, lv_have_child = False\<rparr>]) \<Longrightarrow> \<exists>x. emits c t ((L @ [marked l]) @ [x]) (f c)"
    and st: "\<And>c. jc_err c \<noteq> BB_OK \<Longrightarrow> stuck c (f c)" and sf: "\<And>c. json_safe c \<Longrightarrow> json_safe (f c)"
  shows "emits c (lead l key @ [o1] @ t @ [o2]) (L @ [marked l])
    (bb_json_pop_level (bb_json_putc o2 (f (bb_json_push_level b (bb_json_putc o1 (bb_json_pre_value key c))))))"
proof -
  let ?c1 = "bb_json_push_level b (bb_json_putc o1 (bb_json_pre_value key c))"
  let ?g = "\<lambda>c. bb_json_pop_level (bb_json_putc o2 (f c))"
  have b: "emits c (lead l key @ [o1]) ((L @ [marked l]) @ [\<lparr>lv_is_array = b, lv_have_child = False\<rparr>]) ?c1"
    using begin_emits [OF r n] by simp
  have ends: "jc_err c \<noteq> BB_OK \<Longrightarrow> stuck c (bb_json_pop_level (bb_json_putc o2 c))" "json_safe c \<Longrightarrow> json_safe (bb_json_pop_level (bb_json_putc o2 c))" for c
    using stuck_pop [OF stuck_refl [of c]] by (simp_all add: stuck_id [OF stuck_refl] pop_safe putc_safe)
  have "emits c ((lead l key @ [o1]) @ (t @ [o2])) (L @ [marked l]) (?g ?c1)"
  proof (rule emits_trans [OF b])
    assume "jc_err ?c1 = BB_OK"
    note r1 = emits_ready [OF r b this]
    from items [OF this] obtain x where x: "emits ?c1 t ((L @ [marked l]) @ [x]) (f ?c1)" by blast
    show "emits ?c1 (t @ [o2]) (L @ [marked l]) (?g ?c1)"
      by (rule emits_trans [OF x end_emits [OF emits_ready [OF r1 x]] ends])
  next
    fix c :: bb_serialize_json_ctx_t assume "jc_err c \<noteq> BB_OK"
    note s = st [OF this]
    show "stuck c (?g c)" by (rule stuck_trans [OF s ends(1) [OF stuck_errs [OF s]]])
  qed (intro ends sf)
  then show ?thesis by simp
qed

lemma emit_calls [simp]:
  "em_begin_obj (bb_serialize_json_emit g) = bb_json_cb_begin_obj" "em_end_obj (bb_serialize_json_emit g) = bb_json_cb_end_obj"
  "em_begin_arr (bb_serialize_json_emit g) = bb_json_cb_begin_arr" "em_end_arr (bb_serialize_json_emit g) = bb_json_cb_end_arr"
  "em_i64 (bb_serialize_json_emit g) = bb_json_cb_emit_i64" "em_u64 (bb_serialize_json_emit g) = bb_json_cb_emit_u64"
  "em_f64 (bb_serialize_json_emit g) = bb_json_cb_emit_f64 g" "em_bool (bb_serialize_json_emit g) = bb_json_cb_emit_bool"
  "em_str (bb_serialize_json_emit g) = bb_json_cb_emit_str" "em_null (bb_serialize_json_emit g) = bb_json_cb_emit_null"
  by (simp_all add: bb_serialize_json_emit_def)

lemma quoted_writes: "json_wf c \<Longrightarrow> writes c (CHR 0x22 # esc_text t @ [CHR 0x22]) (bb_json_putc CHR 0x22 (bb_json_escape_write t (bb_json_putc CHR 0x22 c)))"
  using writes_two [OF _ putc_writes [of _ "CHR 0x22"] writes_two [OF _ escape_writes [of _ t] putc_writes [of _ "CHR 0x22"]]] by simp

lemma stuck_simps: "jc_err c \<noteq> BB_OK \<Longrightarrow> bb_json_put t c = c" "jc_err c \<noteq> BB_OK \<Longrightarrow> bb_json_putc ch c = c"
  "jc_err c \<noteq> BB_OK \<Longrightarrow> bb_json_escape_write t c = c" "jc_err c \<noteq> BB_OK \<Longrightarrow> bb_json_write_i64 v c = c"
  "jc_err c \<noteq> BB_OK \<Longrightarrow> bb_json_write_u64 v c = c" "jc_err c \<noteq> BB_OK \<Longrightarrow> bb_json_write_f64 v c = c"
  "jc_err c \<noteq> BB_OK \<Longrightarrow> bb_json_write_f64_shortest g v c = c"
  by (simp_all add: stuck_id [OF stuck_refl] stuck_escape [OF stuck_refl] stuck_number [OF stuck_refl])

text \<open>The writer writes the text of any tree, and is back on its level when it has.\<close>

lemma val_tells: "tells_val g sh v"
proof (induction v)
  case (SV_I64 w)
  have "emits c (lead l key @ i64_text w) (L @ [marked l]) (bb_json_write_i64 w (bb_json_pre_value key c))" if "ready g sh c (L @ [l])" for c L l key
    using that by (rule scalar_emits) (simp_all add: ready_def i64_writes stuck_simps stuck_refl number_safe)
  then show ?case by (simp add: tells_val_def bb_json_cb_emit_i64_def)
next
  case (SV_U64 w)
  have "emits c (lead l key @ dec (unat w)) (L @ [marked l]) (bb_json_write_u64 w (bb_json_pre_value key c))" if "ready g sh c (L @ [l])" for c L l key
    using that by (rule scalar_emits) (simp_all add: ready_def u64_writes stuck_simps stuck_refl number_safe)
  then show ?case by (simp add: tells_val_def bb_json_cb_emit_u64_def)
next
  case (SV_F64 w)
  let ?f = "\<lambda>c. if jc_f64_shortest c then bb_json_write_f64_shortest g w c else bb_json_write_f64 w c"
  have "emits c (lead l key @ f64_text g sh w) (L @ [marked l]) (?f (bb_json_pre_value key c))" if "ready g sh c (L @ [l])" for c L l key
    using that
  proof (rule scalar_emits)
    show "writes c (f64_text g sh w) (?f c)" if "ready g sh c (L @ [marked l])" for c
      using that f64_writes [of c g w] by (auto simp: ready_def)
  qed (simp_all add: stuck_simps stuck_refl number_safe)
  then show ?case by (simp add: tells_val_def bb_json_cb_emit_f64_def Let_def)
next
  case (SV_bool b)
  have "emits c (lead l key @ t) (L @ [marked l]) (bb_json_put t (bb_json_pre_value key c))" if "ready g sh c (L @ [l])" "length t \<le> 32" for c L l key t
    using that(1) by (rule scalar_emits) (use that(2) in \<open>simp_all add: ready_def put_writes stuck_simps stuck_refl put_safe\<close>)
  then show ?case by (simp add: tells_val_def bb_json_cb_emit_bool_def)
next
  case (SV_str t)
  let ?f = "\<lambda>c. bb_json_putc CHR 0x22 (bb_json_escape_write t (bb_json_putc CHR 0x22 c))"
  have "emits c (lead l key @ CHR 0x22 # esc_text t @ [CHR 0x22]) (L @ [marked l]) (?f (bb_json_pre_value key c))" if "ready g sh c (L @ [l])" for c L l key
    using that by (rule scalar_emits) (simp_all add: ready_def quoted_writes stuck_simps stuck_refl putc_safe escape_safe)
  then show ?case by (simp add: tells_val_def bb_json_cb_emit_str_def)
next
  case SV_null
  have "emits c (lead l key @ ''null'') (L @ [marked l]) (bb_json_put ''null'' (bb_json_pre_value key c))" if "ready g sh c (L @ [l])" for c L l key
    using that by (rule scalar_emits) (simp_all add: ready_def put_writes stuck_simps stuck_refl put_safe)
  then show ?case by (simp add: tells_val_def bb_json_cb_emit_null_def)
next
  case (SV_obj ms)
  show ?case unfolding tells_val_def
  proof (intro allI impI)
    fix c L l key n assume r: "ready g sh c (L @ [l])" and n: "nested n (SV_obj ms)" "length L + 1 + n \<le> JSON_STACK_LEVELS"
    have "emits c (lead l key @ ''{'' @ items_text False (map (\<lambda>(k, v). key_out k @ val_text g sh v) ms) @ ''}'') (L @ [marked l])
      (bb_json_pop_level (bb_json_putc CHR ''}'' (emit_members (bb_serialize_json_emit g) ms
        (bb_json_push_level False (bb_json_putc CHR ''{'' (bb_json_pre_value key c))))))"
    proof (rule container_emits [OF r])
      fix c assume r1: "ready g sh c ((L @ [marked l]) @ [\<lparr>lv_is_array = False, lv_have_child = False\<rparr>])"
      have "emits c (items_text (lv_have_child \<lparr>lv_is_array = False, lv_have_child = False\<rparr>) (map (\<lambda>(k, v). key_out k @ val_text g sh v) ms))
          ((L @ [marked l]) @ [if ms = [] then \<lparr>lv_is_array = False, lv_have_child = False\<rparr> else marked \<lparr>lv_is_array = False, lv_have_child = False\<rparr>])
          (fold (\<lambda>(k, v). emit_val (bb_serialize_json_emit g) k v) ms c)"
      proof (rule items_emits [OF _ _ _ r1, where n = "n - 1" and arr = False])
        fix x c L l assume x: "x \<in> set ms" "ready g sh c (L @ [l])" "length L + 1 + (n - 1) \<le> JSON_STACK_LEVELS" "lv_is_array l = False"
        obtain k v where kv: "x = (k, v)" by (cases x)
        have "tells_val g sh v" using SV_obj [of x v] x(1) kv by simp
        moreover have "nested (n - 1) v" using n(1) x(1) kv by auto
        ultimately have "emits c (lead l k @ val_text g sh v) (L @ [marked l]) (emit_val (bb_serialize_json_emit g) k v c)"
          using x(2,3) unfolding tells_val_def by blast
        then show "emits c ((if lv_have_child l then '','' else []) @ (case x of (k, v) \<Rightarrow> key_out k @ val_text g sh v)) (L @ [marked l])
            ((case x of (k, v) \<Rightarrow> emit_val (bb_serialize_json_emit g) k v) c)" using x(4) kv by (simp add: lead_def)
      qed (use n in \<open>auto intro: emit_sticky jsafe.emit_val_keeps\<close>)
      then show "\<exists>x. emits c (items_text False (map (\<lambda>(k, v). key_out k @ val_text g sh v) ms)) ((L @ [marked l]) @ [x])
          (emit_members (bb_serialize_json_emit g) ms c)" by (auto simp: emit_members_def)
    qed (use n in \<open>auto intro: emit_sticky jsafe.emit_members_keeps\<close>)
    then show "emits c (lead l key @ val_text g sh (SV_obj ms)) (L @ [marked l]) (emit_val (bb_serialize_json_emit g) key (SV_obj ms) c)"
      by (simp add: bb_json_cb_begin_obj_def bb_json_cb_end_obj_def)
  qed
next
  case (SV_arr vs)
  show ?case unfolding tells_val_def
  proof (intro allI impI)
    fix c L l key n assume r: "ready g sh c (L @ [l])" and n: "nested n (SV_arr vs)" "length L + 1 + n \<le> JSON_STACK_LEVELS"
    have "emits c (lead l key @ ''['' @ items_text False (map (val_text g sh) vs) @ '']'') (L @ [marked l])
      (bb_json_pop_level (bb_json_putc CHR '']'' (fold (emit_val (bb_serialize_json_emit g) None) vs
        (bb_json_push_level True (bb_json_putc CHR ''['' (bb_json_pre_value key c))))))"
    proof (rule container_emits [OF r])
      fix c assume r1: "ready g sh c ((L @ [marked l]) @ [\<lparr>lv_is_array = True, lv_have_child = False\<rparr>])"
      have "emits c (items_text (lv_have_child \<lparr>lv_is_array = True, lv_have_child = False\<rparr>) (map (val_text g sh) vs))
          ((L @ [marked l]) @ [if vs = [] then \<lparr>lv_is_array = True, lv_have_child = False\<rparr> else marked \<lparr>lv_is_array = True, lv_have_child = False\<rparr>])
          (fold (emit_val (bb_serialize_json_emit g) None) vs c)"
      proof (rule items_emits [OF _ _ _ r1, where n = "n - 1" and arr = True])
        fix v c L l assume x: "v \<in> set vs" "ready g sh c (L @ [l])" "length L + 1 + (n - 1) \<le> JSON_STACK_LEVELS" "lv_is_array l = True"
        have "nested (n - 1) v" using n(1) x(1) by auto
        then have "emits c (lead l None @ val_text g sh v) (L @ [marked l]) (emit_val (bb_serialize_json_emit g) None v c)"
          using SV_arr [OF x(1)] x(2,3) unfolding tells_val_def by blast
        then show "emits c ((if lv_have_child l then '','' else []) @ val_text g sh v) (L @ [marked l])
            (emit_val (bb_serialize_json_emit g) None v c)" using x(4) by (simp add: lead_def)
      qed (use n in \<open>auto intro: emit_sticky jsafe.emit_val_keeps\<close>)
      then show "\<exists>x. emits c (items_text False (map (val_text g sh) vs)) ((L @ [marked l]) @ [x]) (fold (emit_val (bb_serialize_json_emit g) None) vs c)" by auto
    qed (use n in \<open>auto intro: fold_steps [of json_safe] jsafe.emit_val_keeps fold_stuck emit_sticky stuck_refl\<close>)
    then show "emits c (lead l key @ val_text g sh (SV_arr vs)) (L @ [marked l]) (emit_val (bb_serialize_json_emit g) key (SV_arr vs) c)"
      by (simp add: bb_json_cb_begin_arr_def bb_json_cb_end_arr_def)
  qed
qed

end
