(* ===== verification/BB_JSON_Text.thy ===== *)
theory BB_JSON_Text
  imports BB_JSON_Contract
begin

text \<open>
  JSON documents as trees, the texts that stand for them, and what the scanner tells its sink about a text: the
  events of the tree, in order, whatever the blanks and however strings are written. A sink is followed by an
  abstract consumer of events; strings reach it in spans.
\<close>

section \<open>Trees and texts\<close>

datatype json = JObj "(string \<times> json) list" | JArr "json list" | JStr string | JNum string | JBool bool | JNull

definition blanks :: "string \<Rightarrow> bool" where
  "blanks w \<longleftrightarrow> (\<forall>c \<in> set w. is_ws_json c)"

definition plain_char :: "char \<Rightarrow> bool" where
  "plain_char c \<longleftrightarrow> c \<noteq> CHR 0x22 \<and> c \<noteq> CHR 0x5C \<and> 0x20 \<le> (of_char c :: nat)"

fun hex4 :: "string \<Rightarrow> nat option" where
  "hex4 [a, b, c, d] =
     (case (hex_val a, hex_val b, hex_val c, hex_val d) of
        (Some w, Some x, Some y, Some z) \<Rightarrow> Some (w * 4096 + x * 256 + y * 16 + z)
      | _ \<Rightarrow> None)"
| "hex4 _ = None"

text \<open>An escape sequence after its backslash, and the bytes it stands for.\<close>

inductive escape_text :: "string \<Rightarrow> string \<Rightarrow> bool" where
  esc_simple: "simple_escape e = Some d \<Longrightarrow> escape_text [e] [d]"
| esc_unit: "hex4 h = Some n \<Longrightarrow> \<not> (0xD800 \<le> n \<and> n \<le> 0xDFFF) \<Longrightarrow> escape_text (CHR ''u'' # h) (utf8_bytes n)"
| esc_pair: "hex4 h = Some n \<Longrightarrow> 0xD800 \<le> n \<Longrightarrow> n \<le> 0xDBFF \<Longrightarrow> hex4 l = Some m \<Longrightarrow> 0xDC00 \<le> m \<Longrightarrow> m \<le> 0xDFFF \<Longrightarrow>
    escape_text (CHR ''u'' # h @ CHR 0x5C # CHR ''u'' # l) (utf8_bytes (0x10000 + (n - 0xD800) * 1024 + (m - 0xDC00)))"

text \<open>The text between the quotes and the string it stands for.\<close>

inductive string_text :: "string \<Rightarrow> string \<Rightarrow> bool" where
  str_end: "string_text [] []"
| str_plain: "plain_char c \<Longrightarrow> string_text b v \<Longrightarrow> string_text (c # b) (c # v)"
| str_escape: "escape_text e d \<Longrightarrow> string_text b v \<Longrightarrow> string_text (CHR 0x5C # e @ b) (d @ v)"

inductive renders :: "json \<Rightarrow> string \<Rightarrow> bool"
  and elements :: "json list \<Rightarrow> string \<Rightarrow> bool"
  and members :: "(string \<times> json) list \<Rightarrow> string \<Rightarrow> bool"
where
  r_str: "string_text b v \<Longrightarrow> renders (JStr v) (CHR 0x22 # b @ [CHR 0x22])"
| r_num: "json_number n \<Longrightarrow> renders (JNum n) n"
| r_true: "renders (JBool True) ''true''"
| r_false: "renders (JBool False) ''false''"
| r_null: "renders JNull ''null''"
| r_arr_empty: "blanks w \<Longrightarrow> renders (JArr []) (CHR ''['' # w @ '']'')"
| r_arr: "elements ts x \<Longrightarrow> renders (JArr ts) (CHR ''['' # x @ '']'')"
| r_obj_empty: "blanks w \<Longrightarrow> renders (JObj []) (CHR ''{'' # w @ ''}'')"
| r_obj: "members ms x \<Longrightarrow> renders (JObj ms) (CHR ''{'' # x @ ''}'')"
| e_last: "blanks w1 \<Longrightarrow> blanks w2 \<Longrightarrow> renders t x \<Longrightarrow> elements [t] (w1 @ x @ w2)"
| e_more: "blanks w1 \<Longrightarrow> blanks w2 \<Longrightarrow> renders t x \<Longrightarrow> elements ts y \<Longrightarrow> elements (t # ts) (w1 @ x @ w2 @ CHR '','' # y)"
| m_last: "blanks w1 \<Longrightarrow> blanks w2 \<Longrightarrow> blanks w3 \<Longrightarrow> blanks w4 \<Longrightarrow> string_text b k \<Longrightarrow> renders t x \<Longrightarrow>
    members [(k, t)] (w1 @ CHR 0x22 # b @ CHR 0x22 # w2 @ CHR '':'' # w3 @ x @ w4)"
| m_more: "blanks w1 \<Longrightarrow> blanks w2 \<Longrightarrow> blanks w3 \<Longrightarrow> blanks w4 \<Longrightarrow> string_text b k \<Longrightarrow> renders t x \<Longrightarrow> members ms y \<Longrightarrow>
    members ((k, t) # ms) (w1 @ CHR 0x22 # b @ CHR 0x22 # w2 @ CHR '':'' # w3 @ x @ w4 @ CHR '','' # y)"

text \<open>A document: a value with blanks around it.\<close>

definition document :: "json \<Rightarrow> string \<Rightarrow> bool" where
  "document t x \<longleftrightarrow> (\<exists>w1 y w2. x = w1 @ y @ w2 \<and> blanks w1 \<and> blanks w2 \<and> renders t y)"

section \<open>Events\<close>

datatype event =
    Ev_begin_obj json_key | Ev_end_obj | Ev_begin_arr json_key | Ev_end_arr
  | Ev_num json_key string | Ev_bool json_key bool | Ev_null json_key | Ev_str json_key string

definition key_of :: "string \<Rightarrow> json_key" where
  "key_of k = (if k = [] then None else Some k)"

fun events :: "json_key \<Rightarrow> json \<Rightarrow> event list" where
  "events key (JObj ms) = Ev_begin_obj key # concat (map (\<lambda>(k, t). events (key_of k) t) ms) @ [Ev_end_obj]"
| "events key (JArr ts) = Ev_begin_arr key # concat (map (events None) ts) @ [Ev_end_arr]"
| "events key (JStr s) = [Ev_str key s]"
| "events key (JNum n) = [Ev_num key n]"
| "events key (JBool b) = [Ev_bool key b]"
| "events key JNull = [Ev_null key]"

text \<open>What the scanner's fixed arrays hold: at depth \<^verbatim>\<open>d\<close>, with \<^verbatim>\<open>n\<close> bytes of key in the scratch buffer.\<close>

fun fits :: "nat \<Rightarrow> nat \<Rightarrow> json \<Rightarrow> bool" where
  "fits d n (JObj ms) \<longleftrightarrow> d < BB_SERIALIZE_MAX_DEPTH \<and>
     (\<forall>(k, t) \<in> set ms. length k \<le> BB_SERIALIZE_JSON_SCRATCH_MAX_BYTES \<and> fits (d + 1) (length k) t)"
| "fits d n (JArr ts) \<longleftrightarrow> d < BB_SERIALIZE_MAX_DEPTH \<and> (\<forall>t \<in> set ts. fits (d + 1) 0 t)"
| "fits d n (JNum x) \<longleftrightarrow> n + length x \<le> BB_SERIALIZE_JSON_SCRATCH_MAX_BYTES"
| "fits d n _ \<longleftrightarrow> True"

section \<open>Strings in spans\<close>

type_synonym span = "span_ptr \<times> string \<times> bool \<times> bb_serialize_json_span_t"

definition span_bytes :: "span \<Rightarrow> string" where "span_bytes sp = fst (snd sp)"
definition span_last :: "span \<Rightarrow> bool" where "span_last sp = fst (snd (snd sp))"

text \<open>The spans of one string: only the last is final, their bytes make up the string, and none is empty unless the
  string is.\<close>

definition span_list :: "bool \<Rightarrow> string \<Rightarrow> span list \<Rightarrow> string \<Rightarrow> bool" where
  "span_list bd buf sps v \<longleftrightarrow>
     sps \<noteq> [] \<and> concat (map span_bytes sps) = v \<and> span_last (last sps) \<and> (\<forall>sp \<in> set (butlast sps). \<not> span_last sp) \<and>
     (\<forall>(p, d, fin, prov) \<in> set sps. span_ok bd buf p d fin prov) \<and>
     (if v = [] then length sps = 1 \<and> fst (hd sps) \<noteq> None else \<forall>sp \<in> set sps. span_bytes sp \<noteq> [])"

fun give :: "('s \<Rightarrow> span \<Rightarrow> bb_err_t \<times> 's) \<Rightarrow> 's \<Rightarrow> span list \<Rightarrow> bb_err_t \<times> 's" where
  "give f s [] = (BB_OK, s)"
| "give f s (sp # sps) = and_then (f s sp) (\<lambda>s'. give f s' sps)"

lemma give_append: "give f s (a @ b) = and_then (give f s a) (\<lambda>s'. give f s' b)"
  by (induction a arbitrary: s) (simp_all add: and_then_assoc)

lemma span_list_simps [simp]:
  "span_list bd buf [(p, d, fin, prov)] v \<longleftrightarrow> fin \<and> d = v \<and> span_ok bd buf p d fin prov \<and> (v = [] \<longrightarrow> p \<noteq> None)"
  by (auto simp: span_list_def span_bytes_def span_last_def)

lemma span_list_Cons:
  assumes "span_list bd buf sps v" and "v \<noteq> []" and "d \<noteq> []" and "span_ok bd buf p d False prov"
  shows "span_list bd buf ((p, d, False, prov) # sps) (d @ v)"
  using assms by (auto simp: span_list_def span_bytes_def span_last_def)

text \<open>Equality of scanner states up to the registers of an escape.\<close>

definition esc_eq :: "'k scan_state_t \<Rightarrow> 'k scan_state_t \<Rightarrow> bool" where
  "esc_eq s t \<longleftrightarrow> t = s\<lparr>sc_esc_phase := sc_esc_phase t, sc_esc_code_unit := sc_esc_code_unit t,
     sc_esc_high_surrogate := sc_esc_high_surrogate t\<rparr>"

lemma esc_eq_refl [simp]: "esc_eq s s"
  by (simp add: esc_eq_def)

lemma esc_eq_updates [simp]:
  "esc_eq s (t\<lparr>sc_esc_phase := x\<rparr>) = esc_eq s t" "esc_eq s (t\<lparr>sc_esc_code_unit := y\<rparr>) = esc_eq s t"
  "esc_eq s (t\<lparr>sc_esc_high_surrogate := z\<rparr>) = esc_eq s t"
  by (cases s; cases t; simp add: esc_eq_def)+

lemma esc_eq_trans: "esc_eq s t \<Longrightarrow> esc_eq t u \<Longrightarrow> esc_eq s u"
  by (cases s; cases t; cases u) (simp add: esc_eq_def)

lemma esc_eq_fields:
  "esc_eq s t \<Longrightarrow> sc_ctx t = sc_ctx s \<and> sc_phase t = sc_phase s \<and> sc_err t = sc_err s \<and> sc_bounded_mode t = sc_bounded_mode s \<and>
     sc_obj_stack t = sc_obj_stack s \<and> sc_depth t = sc_depth s \<and> sc_scratch t = sc_scratch s \<and> sc_key_len t = sc_key_len s"
  by (cases s; cases t) (simp add: esc_eq_def)

definition emit_span :: "'k bb_serialize_json_ingest_t \<Rightarrow> bool \<Rightarrow> 'k scan_state_t \<Rightarrow> span \<Rightarrow> bb_err_t \<times> 'k scan_state_t" where
  "emit_span sk is_key s sp = (case sp of (p, d, fin, prov) \<Rightarrow> emit_str_bytes sk s p d fin is_key prov)"

lemma emit_span_esc:
  assumes "esc_eq s t" and "emit_span sk is_key s sp = (rc, s')"
  shows "\<exists>t'. emit_span sk is_key t sp = (rc, t') \<and> esc_eq s' t' \<and> sc_esc_phase t' = sc_esc_phase t"
  using assms
  by (cases s; cases t; cases sp)
    (auto simp: esc_eq_def emit_span_def emit_str_bytes_def scratch_append_def sink_call_def cur_key_def split: if_splits prod.splits)

lemma emit_span_keeps:
  assumes "emit_span sk is_key s sp = (rc, s')"
  shows "str_frame s s'" "sc_esc_phase s' = sc_esc_phase s"
  using assms emit_keeps by (auto simp: emit_span_def split: prod.splits)

section \<open>Escape sequences\<close>

lemma hex_val_lt: "hex_val c = Some n \<Longrightarrow> n < 16"
  by (auto simp: hex_val_def Let_def split: if_splits)

lemma push_nibble_nat: "h < 16 \<Longrightarrow> push_nibble (of_nat n) h = of_nat (n * 16 + h)"
proof -
  assume h: "h < 16"
  have "take_bit 4 h = h" using h by (simp add: take_bit_nat_eq_self)
  then have "push_bit 4 (of_nat n :: u16) AND of_nat h = 0"
    by (intro bit_eqI) (metis bit_0_eq bit_and_iff bit_of_nat_iff bit_push_bit_iff bit_take_bit_iff bot_apply bot_bool_def linorder_not_less)
  then have "push_nibble (of_nat n) h = push_bit 4 (of_nat n) + of_nat h"
    by (simp add: push_nibble_def disjunctive_add_eq_or)
  then show ?thesis by (simp add: push_bit_eq_mult)
qed

lemma escape_more:
  assumes "scan_escape_byte s c = (BB_OK, s1, [])" and "sc_esc_phase s \<noteq> ESC_NONE"
  shows "scan_string sk len is_key s (c # r) = scan_string sk len is_key s1 r"
  using assms by (simp add: scan_string.simps [of sk len is_key s "c # r"])

text \<open>A digit of a code unit, other than the last.\<close>

definition hex_phase :: "esc_phase_t \<Rightarrow> bool" where
  "hex_phase p \<longleftrightarrow> p \<in> {ESC_U1, ESC_U2, ESC_U3, ESC_LOW_U1, ESC_LOW_U2, ESC_LOW_U3}"

lemma hex_digit_step:
  assumes "hex_phase (sc_esc_phase s)" and "hex_val c = Some h" and "sc_esc_code_unit s = of_nat n"
  shows "scan_string sk len is_key s (c # r) =
    scan_string sk len is_key (s\<lparr>sc_esc_code_unit := of_nat (n * 16 + h), sc_esc_phase := next_hex_phase (sc_esc_phase s)\<rparr>) r"
proof (rule escape_more)
  show "scan_escape_byte s c =
      (BB_OK, s\<lparr>sc_esc_code_unit := of_nat (n * 16 + h), sc_esc_phase := next_hex_phase (sc_esc_phase s)\<rparr>, [])"
    using assms push_nibble_nat [OF hex_val_lt [OF assms(2)], of n]
    by (cases "sc_esc_phase s") (simp_all add: scan_escape_byte_def hex_phase_def)
  show "sc_esc_phase s \<noteq> ESC_NONE" using assms(1) by (auto simp: hex_phase_def)
qed

lemma hex4_cases:
  assumes "hex4 t = Some n"
  obtains a b c d w x y z where "t = [a, b, c, d]" "hex_val a = Some w" "hex_val b = Some x" "hex_val c = Some y" "hex_val d = Some z"
    "n = ((w * 16 + x) * 16 + y) * 16 + z" "n < 65536"
proof -
  obtain a b c d where t: "t = [a, b, c, d]" using assms by (cases t rule: hex4.cases) auto
  then obtain w x y z where v: "hex_val a = Some w" "hex_val b = Some x" "hex_val c = Some y" "hex_val d = Some z"
    and n: "n = w * 4096 + x * 256 + y * 16 + z" using assms by (auto split: option.splits)
  have "w < 16" "x < 16" "y < 16" "z < 16" using v hex_val_lt by blast+
  then show thesis using that [OF t v] n by simp
qed

lemma hex4_step:
  assumes "hex4 t = Some n" and "sc_esc_phase s = p" and "p \<in> {ESC_U1, ESC_LOW_U1}" and "sc_esc_code_unit s = 0"
  shows "\<exists>s' c h m. esc_eq s s' \<and> sc_esc_phase s' = (if p = ESC_U1 then ESC_U4 else ESC_LOW_U4) \<and> hex_val c = Some h \<and> n = m * 16 + h \<and>
    sc_esc_code_unit s' = of_nat m \<and> sc_esc_high_surrogate s' = sc_esc_high_surrogate s \<and>
    (\<forall>sk len is_key r. scan_string sk len is_key s (t @ r) = scan_string sk len is_key s' (c # r))"
proof -
  obtain a b c d w x y z where t: "t = [a, b, c, d]" and v: "hex_val a = Some w" "hex_val b = Some x" "hex_val c = Some y" "hex_val d = Some z"
    and n: "n = ((w * 16 + x) * 16 + y) * 16 + z" using assms(1) by (elim hex4_cases) blast
  define s1 where "s1 = s\<lparr>sc_esc_code_unit := of_nat w, sc_esc_phase := next_hex_phase p\<rparr>"
  define s2 where "s2 = s1\<lparr>sc_esc_code_unit := of_nat (w * 16 + x), sc_esc_phase := next_hex_phase (sc_esc_phase s1)\<rparr>"
  define s3 where "s3 = s2\<lparr>sc_esc_code_unit := of_nat ((w * 16 + x) * 16 + y), sc_esc_phase := next_hex_phase (sc_esc_phase s2)\<rparr>"
  have ph: "hex_phase p" "hex_phase (sc_esc_phase s1)" "hex_phase (sc_esc_phase s2)"
    using assms(3) by (auto simp: hex_phase_def s1_def s2_def)
  have u: "sc_esc_code_unit s1 = of_nat w" "sc_esc_code_unit s2 = of_nat (w * 16 + x)" by (simp_all add: s1_def s2_def)
  have "scan_string sk len is_key s (t @ r) = scan_string sk len is_key s3 (d # r)" for sk :: "'a bb_serialize_json_ingest_t" and len is_key r
  proof -
    have "scan_string sk len is_key s (a # b # c # d # r) = scan_string sk len is_key s1 (b # c # d # r)"
      using hex_digit_step [of s a w 0] assms(2,4) ph(1) v(1) by (simp add: s1_def)
    also have "\<dots> = scan_string sk len is_key s2 (c # d # r)" unfolding s2_def by (rule hex_digit_step [OF ph(2) v(2) u(1)])
    also have "\<dots> = scan_string sk len is_key s3 (d # r)" unfolding s3_def by (rule hex_digit_step [OF ph(3) v(3) u(2)])
    finally show ?thesis by (simp add: t)
  qed
  moreover have "esc_eq s s3" "sc_esc_phase s3 = (if p = ESC_U1 then ESC_U4 else ESC_LOW_U4)"
    "sc_esc_code_unit s3 = of_nat ((w * 16 + x) * 16 + y)" "sc_esc_high_surrogate s3 = sc_esc_high_surrogate s"
    using assms(3) by (auto simp: s3_def s2_def s1_def)
  ultimately show ?thesis using v(4) n by blast
qed

lemma unit_nat: "n < 65536 \<Longrightarrow> unat (of_nat n :: u16) = n"
  by (simp add: unat_of_nat)

lemma unit_le: "n < 65536 \<Longrightarrow> 0xD800 \<le> (of_nat n :: u16) \<longleftrightarrow> 0xD800 \<le> n"
  "n < 65536 \<Longrightarrow> (of_nat n :: u16) \<le> 0xDBFF \<longleftrightarrow> n \<le> 0xDBFF"
  "n < 65536 \<Longrightarrow> 0xDC00 \<le> (of_nat n :: u16) \<longleftrightarrow> 0xDC00 \<le> n"
  "n < 65536 \<Longrightarrow> (of_nat n :: u16) \<le> 0xDFFF \<longleftrightarrow> n \<le> 0xDFFF"
  by (simp_all add: word_le_nat_alt unit_nat)

lemma utf8_encode_unit: "n < 65536 \<Longrightarrow> utf8_encode (ucast (of_nat n :: u16)) = utf8_bytes n"
  using utf8_encode_bytes [of "ucast (of_nat n :: u16)"] unat_u16_u32 [of "of_nat n"] unit_nat [of n] by simp

lemma utf8_encode_pair:
  assumes "0xD800 \<le> n" "n \<le> 0xDBFF" "0xDC00 \<le> m" "m \<le> 0xDFFF"
  shows "utf8_encode (0x10000 + push_bit 10 (ucast (of_nat n :: u16) - 0xD800) + (ucast (of_nat m :: u16) - 0xDC00)) =
    utf8_bytes (0x10000 + (n - 0xD800) * 1024 + (m - 0xDC00))" (is "utf8_encode ?w = utf8_bytes ?c")
proof -
  have "?w = of_nat ?c" unfolding u32_of_nat using assms pair_nat [of n m] by (simp add: unit_nat)
  moreover have "?c < 2 ^ 32" "?c \<le> 0x10FFFF" using assms by auto
  ultimately show ?thesis using utf8_encode_bytes [of "of_nat ?c"] unat_of_small [of ?c] by metis
qed

text \<open>The last digit of a code unit.\<close>

lemma last_digit:
  assumes "hex_val c = Some h" and "n = m * 16 + h" and "sc_esc_code_unit s = of_nat m"
  shows "sc_esc_phase s = ESC_U4 \<Longrightarrow> scan_escape_byte s c =
      (let s = s\<lparr>sc_esc_code_unit := of_nat n\<rparr> in
       if 0xD800 \<le> (of_nat n :: u16) \<and> (of_nat n :: u16) \<le> 0xDBFF then
         (BB_OK, s\<lparr>sc_esc_high_surrogate := of_nat n, sc_esc_phase := ESC_LOW_BACKSLASH\<rparr>, [])
       else if 0xDC00 \<le> (of_nat n :: u16) \<and> (of_nat n :: u16) \<le> 0xDFFF then (BB_ERR_PARSE_GRAMMAR, s, [])
       else (BB_OK, s\<lparr>sc_esc_phase := ESC_NONE\<rparr>, utf8_encode (ucast (of_nat n :: u16))))"
    and "sc_esc_phase s = ESC_LOW_U4 \<Longrightarrow> scan_escape_byte s c =
      (let s = s\<lparr>sc_esc_code_unit := of_nat n\<rparr> in
       if (of_nat n :: u16) < 0xDC00 \<or> (of_nat n :: u16) > 0xDFFF then (BB_ERR_PARSE_GRAMMAR, s, [])
       else (BB_OK, s\<lparr>sc_esc_phase := ESC_NONE\<rparr>,
             utf8_encode (0x10000 + push_bit 10 (ucast (sc_esc_high_surrogate s) - 0xD800) + (ucast (of_nat n :: u16) - 0xDC00))))"
  using push_nibble_nat [OF hex_val_lt [OF assms(1)], of m] assms
  by (simp_all add: scan_escape_byte_def Let_def del: of_nat_add of_nat_mult)

lemma begin_unit:
  assumes "sc_esc_phase s = ESC_BACKSLASH \<and> q = ESC_U1 \<or> sc_esc_phase s = ESC_LOW_U \<and> q = ESC_LOW_U1"
  shows "scan_string sk len is_key s (CHR ''u'' # r) = scan_string sk len is_key (s\<lparr>sc_esc_phase := q, sc_esc_code_unit := 0\<rparr>) r"
  by (rule escape_more) (use assms in \<open>auto simp: scan_escape_byte_def simple_escape_def\<close>)

lemma escape_scan:
  fixes s :: "'k scan_state_t"
  assumes "escape_text e d" and "sc_esc_phase s = ESC_BACKSLASH"
  shows "\<exists>s' c s''. sc_esc_phase s' \<noteq> ESC_NONE \<and> scan_escape_byte s' c = (BB_OK, s'', d) \<and> esc_eq s s'' \<and> sc_esc_phase s'' = ESC_NONE \<and>
    (\<exists>n. scalar_value n \<and> d = utf8_bytes n) \<and>
    (\<forall>sk len is_key r. scan_string sk len is_key s (e @ r) = scan_string sk len is_key s' (c # r))"
  using assms
proof (cases rule: escape_text.cases)
  case (esc_simple e0 d0)
  then have "scan_escape_byte s e0 = (BB_OK, s\<lparr>sc_esc_phase := ESC_NONE\<rparr>, d)" using assms(2) by (simp add: scan_escape_byte_def)
  then show ?thesis using esc_simple simple_escape_scalar assms(2)
    by (intro exI [of _ s] exI [of _ e0] exI [of _ "s\<lparr>sc_esc_phase := ESC_NONE\<rparr>"]) auto
next
  case (esc_unit h n)
  let ?s1 = "s\<lparr>sc_esc_phase := ESC_U1, sc_esc_code_unit := 0\<rparr>"
  obtain s' c hv m where h: "esc_eq ?s1 s'" "sc_esc_phase s' = ESC_U4" "hex_val c = Some hv" "n = m * 16 + hv" "sc_esc_code_unit s' = of_nat m"
    and sc: "\<forall>sk len is_key r. scan_string sk len is_key ?s1 (h @ r) = scan_string sk len is_key s' (c # r)"
    using hex4_step [of h n ?s1 ESC_U1] esc_unit(3) by auto
  have n: "n < 65536" using esc_unit(3) by (elim hex4_cases) simp
  let ?s2 = "s'\<lparr>sc_esc_code_unit := of_nat n, sc_esc_phase := ESC_NONE\<rparr>"
  have no: "\<not> (0xD800 \<le> n \<and> n \<le> 0xDBFF)" "\<not> (0xDC00 \<le> n \<and> n \<le> 0xDFFF)" using esc_unit(4) by auto
  have "scan_escape_byte s' c = (BB_OK, ?s2, d)"
    unfolding last_digit(1) [OF h(3-5,2)] Let_def unit_le [OF n] if_not_P [OF no(1)] if_not_P [OF no(2)] utf8_encode_unit [OF n]
      esc_unit(2) ..
  moreover have "esc_eq s ?s1" by simp
  then have "esc_eq s ?s2" using esc_eq_trans [OF _ h(1)] by simp
  moreover have "scalar_value n" using n esc_unit(4) by (simp add: scalar_value_def)
  moreover have "scan_string sk len is_key s (e @ r) = scan_string sk len is_key s' (c # r)" for sk :: "'k bb_serialize_json_ingest_t" and len is_key r
    using begin_unit [of s ESC_U1] assms(2) sc esc_unit(1) by simp
  ultimately show ?thesis using h(2) esc_unit(2) by (intro exI [of _ s'] exI [of _ c] exI [of _ ?s2]) auto
next
  case (esc_pair h n l m)
  let ?s1 = "s\<lparr>sc_esc_phase := ESC_U1, sc_esc_code_unit := 0\<rparr>"
  obtain s' c hv k where h: "esc_eq ?s1 s'" "sc_esc_phase s' = ESC_U4" "hex_val c = Some hv" "n = k * 16 + hv" "sc_esc_code_unit s' = of_nat k"
    and sc: "\<forall>sk len is_key r. scan_string sk len is_key ?s1 (h @ r) = scan_string sk len is_key s' (c # r)"
    using hex4_step [of h n ?s1 ESC_U1] esc_pair(3) by auto
  have n: "n < 65536" "m < 65536" using esc_pair by auto
  let ?s2 = "s'\<lparr>sc_esc_code_unit := of_nat n, sc_esc_high_surrogate := of_nat n, sc_esc_phase := ESC_LOW_BACKSLASH\<rparr>"
  have e2: "scan_escape_byte s' c = (BB_OK, ?s2, [])"
    using last_digit(1) [OF h(3-5,2)] esc_pair by (simp add: unit_le [OF n(1)] Let_def)
  let ?s3 = "?s2\<lparr>sc_esc_phase := ESC_LOW_U\<rparr>"
  have e3: "scan_escape_byte ?s2 (CHR 0x5C) = (BB_OK, ?s3, [])" by (simp add: scan_escape_byte_def)
  let ?s4 = "?s3\<lparr>sc_esc_phase := ESC_LOW_U1, sc_esc_code_unit := 0\<rparr>"
  obtain s5 c' hv' k' where l: "esc_eq ?s4 s5" "sc_esc_phase s5 = ESC_LOW_U4" "hex_val c' = Some hv'" "m = k' * 16 + hv'"
      "sc_esc_code_unit s5 = of_nat k'" "sc_esc_high_surrogate s5 = of_nat n"
    and sl: "\<forall>sk len is_key r. scan_string sk len is_key ?s4 (l @ r) = scan_string sk len is_key s5 (c' # r)"
    using hex4_step [of l m ?s4 ESC_LOW_U1] esc_pair(6) by auto
  let ?s6 = "s5\<lparr>sc_esc_code_unit := of_nat m, sc_esc_phase := ESC_NONE\<rparr>"
  have "\<not> ((of_nat m :: u16) < 0xDC00 \<or> (of_nat m :: u16) > 0xDFFF)" using unit_le [OF n(2)] esc_pair(7,8) by (simp add: not_less)
  then have "scan_escape_byte s5 c' = (BB_OK, ?s6, d)"
    using last_digit(2) [OF l(3-5,2)] utf8_encode_pair [OF esc_pair(4,5,7,8)] l(6) esc_pair(2) by (simp add: Let_def)
  moreover have "esc_eq s ?s1" by simp
  then have "esc_eq s ?s4" using esc_eq_trans [OF _ h(1)] by simp
  then have "esc_eq s ?s6" using esc_eq_trans [OF _ l(1)] by simp
  moreover have "scalar_value (0x10000 + (n - 0xD800) * 1024 + (m - 0xDC00))" using esc_pair by (auto simp: scalar_value_def)
  moreover have "scan_string sk len is_key s (e @ r) = scan_string sk len is_key s5 (c' # r)" for sk :: "'k bb_serialize_json_ingest_t" and len is_key r
  proof -
    have "scan_string sk len is_key s (e @ r) = scan_string sk len is_key ?s1 (h @ CHR 0x5C # CHR ''u'' # l @ r)"
      using begin_unit [of s ESC_U1] assms(2) esc_pair(1) by simp
    also have "\<dots> = scan_string sk len is_key s' (c # CHR 0x5C # CHR ''u'' # l @ r)" using sc by blast
    also have "\<dots> = scan_string sk len is_key ?s2 (CHR 0x5C # CHR ''u'' # l @ r)" by (rule escape_more [OF e2]) (simp add: h(2))
    also have "\<dots> = scan_string sk len is_key ?s3 (CHR ''u'' # l @ r)" by (rule escape_more [OF e3]) simp
    also have "\<dots> = scan_string sk len is_key ?s4 (l @ r)" by (rule begin_unit) simp
    also have "\<dots> = scan_string sk len is_key s5 (c' # r)" using sl by blast
    finally show ?thesis .
  qed
  ultimately show ?thesis using l(2) esc_pair(2) by (intro exI [of _ s5] exI [of _ c'] exI [of _ ?s6]) auto
qed

section \<open>A string literal\<close>

lemma string_text_run:
  "string_text (run @ b) v \<Longrightarrow> \<forall>c \<in> set run. plain_char c \<Longrightarrow> \<exists>v'. v = run @ v' \<and> string_text b v'"
proof (induction run arbitrary: v)
  case (Cons c run)
  then have "\<exists>w. v = c # w \<and> string_text (run @ b) w"
    by (auto elim: string_text.cases simp: plain_char_def)
  then show ?case using Cons by auto
qed simp

lemma string_text_stop: "string_text b v \<Longrightarrow> b = [] \<or> (\<not> plain_char (hd b) \<longrightarrow> hd b = CHR 0x5C)"
  by (erule string_text.cases) auto

lemma string_text_escape:
  "string_text (CHR 0x5C # b) v \<Longrightarrow> \<exists>e d b' v'. b = e @ b' \<and> v = d @ v' \<and> escape_text e d \<and> string_text b' v'"
  by (erule string_text.cases) (simp, simp add: plain_char_def, blast)

lemma string_text_hd: "string_text b v \<Longrightarrow> b \<noteq> [] \<Longrightarrow> hd b \<noteq> CHR 0x22"
  by (erule string_text.cases) (auto simp: plain_char_def)

lemma escape_text_nonempty: "escape_text e d \<Longrightarrow> e \<noteq> [] \<and> d \<noteq> []"
  by (erule escape_text.cases) (auto simp: utf8_bytes_length utf8_bytes_length(1) [symmetric])

lemma string_text_empty: "string_text b v \<Longrightarrow> v = [] \<longleftrightarrow> b = []"
  by (erule string_text.cases) (auto dest: escape_text_nonempty)

lemma scan_run_plain:
  "\<forall>c \<in> set run. plain_char c \<Longrightarrow> q = CHR 0x22 \<or> q = CHR 0x5C \<Longrightarrow> scan_run (run @ q # r) = Some (run, q # r)"
  by (induction run) (auto simp: plain_char_def)

text \<open>The loop at a plain byte and at the end of an escape.\<close>

lemma scan_closing:
  assumes "sc_esc_phase s = ESC_NONE" and "scan_run cs = Some (run, CHR 0x22 # rest)"
  shows "scan_string sk len is_key s cs =
    (case emit_span sk is_key s (Some (len - length cs), run, True, direct_span_provenance s) of
       (rc, s1) \<Rightarrow> (rc, s1, rest, rc = BB_OK))"
proof -
  have "cs \<noteq> []" using scan_run_split [OF assms(2)] by auto
  then obtain c cs1 where "cs = c # cs1" by (cases cs) auto
  then show ?thesis using assms
    by (subst scan_string.simps) (auto simp: emit_span_def Let_def simp del: scan_run.simps split: prod.splits)
qed

lemma scan_backslash:
  assumes "sc_esc_phase s = ESC_NONE" and "scan_run cs = Some (run, CHR 0x5C # rest)"
  shows "scan_string sk len is_key s cs =
    (if run = [] then scan_string sk len is_key (s\<lparr>sc_esc_phase := ESC_BACKSLASH\<rparr>) rest
     else case emit_span sk is_key s (Some (len - length cs), run, False, direct_span_provenance s) of
       (rc, s1) \<Rightarrow> if rc \<noteq> BB_OK then (rc, s1, CHR 0x5C # rest, False)
                   else scan_string sk len is_key (s1\<lparr>sc_esc_phase := ESC_BACKSLASH\<rparr>) rest)"
proof -
  have "cs \<noteq> []" using scan_run_split [OF assms(2)] by auto
  then obtain c cs1 where "cs = c # cs1" by (cases cs) auto
  then show ?thesis using assms
    by (subst scan_string.simps) (auto simp: emit_span_def Let_def simp del: scan_run.simps split: prod.splits)
qed

lemma scan_escape_end:
  assumes "sc_esc_phase s \<noteq> ESC_NONE" and "scan_escape_byte s c = (BB_OK, s1, d)" and "d \<noteq> []"
  shows "scan_string sk len is_key s (c # r) =
    (if r \<noteq> [] \<and> hd r = CHR 0x22 then
       case emit_span sk is_key s1 (None, d, True, SPAN_SCANNER_SCRATCH) of (rc, s2) \<Rightarrow> (rc, s2, tl r, rc = BB_OK)
     else case emit_span sk is_key s1 (None, d, False, SPAN_SCANNER_SCRATCH) of
       (rc, s2) \<Rightarrow> if rc \<noteq> BB_OK then (rc, s2, r, False) else scan_string sk len is_key s2 r)"
  using assms by (subst scan_string.simps) (auto simp: emit_span_def split: prod.splits)

text \<open>The outcome of a literal: its spans, in turn.\<close>

definition literal_outcome :: "bb_err_t \<times> 'k scan_state_t \<Rightarrow> string \<Rightarrow> 'k scan_result \<Rightarrow> bool" where
  "literal_outcome g rest r \<longleftrightarrow>
     (case r of (rc, t, rest', closed) \<Rightarrow>
        rc = fst g \<and> esc_eq (snd g) t \<and> closed = (rc = BB_OK) \<and> (rc = BB_OK \<longrightarrow> rest' = rest))"

lemma give_esc:
  assumes "esc_eq s t"
  shows "\<exists>t'. give (emit_span sk is_key) t sps = (fst (give (emit_span sk is_key) s sps), t') \<and> esc_eq (snd (give (emit_span sk is_key) s sps)) t'"
  using assms
proof (induction sps arbitrary: s t)
  case (Cons sp sps)
  obtain rc s1 where s1: "emit_span sk is_key s sp = (rc, s1)" by fastforce
  then obtain t1 where t1: "emit_span sk is_key t sp = (rc, t1)" "esc_eq s1 t1" using emit_span_esc [OF Cons.prems s1] by blast
  then show ?case using Cons.IH [OF t1(2)] s1 by (cases "rc = BB_OK") simp_all
qed simp

lemma literal_outcome_esc:
  assumes "esc_eq s t" and "literal_outcome (give (emit_span sk is_key) t sps) rest r"
  shows "literal_outcome (give (emit_span sk is_key) s sps) rest r"
  using give_esc [OF assms(1), of sk is_key sps] assms(2) esc_eq_trans by (auto simp: literal_outcome_def split: prod.splits)

text \<open>What follows a backslash, given what follows the escape.\<close>

lemma escape_outcome:
  fixes s :: "'k scan_state_t"
  assumes e: "escape_text e d" and ph: "sc_esc_phase s = ESC_BACKSLASH" and md: "sc_bounded_mode s = bd"
    and tl: "b \<noteq> [] \<Longrightarrow> hd b \<noteq> CHR 0x22 \<and> (\<forall>t :: 'k scan_state_t. sc_esc_phase t = ESC_NONE \<longrightarrow> sc_bounded_mode t = bd \<longrightarrow>
      literal_outcome (give (emit_span sk is_key) t sps) rest (scan_string sk len is_key t (b @ CHR 0x22 # rest)))"
  shows "literal_outcome
      (give (emit_span sk is_key) s (if b = [] then [(None, d, True, SPAN_SCANNER_SCRATCH)] else (None, d, False, SPAN_SCANNER_SCRATCH) # sps))
      rest (scan_string sk len is_key s (e @ b @ CHR 0x22 # rest))"
proof -
  obtain s1 c s2 where s1: "sc_esc_phase s1 \<noteq> ESC_NONE" "scan_escape_byte s1 c = (BB_OK, s2, d)" "esc_eq s s2" "sc_esc_phase s2 = ESC_NONE"
    and sc: "\<forall>sk len is_key r. scan_string sk len is_key s (e @ r) = scan_string sk len is_key s1 (c # r)"
    using escape_scan [OF e ph] by blast
  have d: "d \<noteq> []" using escape_text_nonempty [OF e] by simp
  note step = scan_escape_end [OF s1(1,2) d, of sk len is_key]
  define fin where "fin = (b = [])"
  obtain rc s3 where s3: "emit_span sk is_key s2 (None, d, fin, SPAN_SCANNER_SCRATCH) = (rc, s3)" by fastforce
  have "literal_outcome
      (give (emit_span sk is_key) s2 (if b = [] then [(None, d, True, SPAN_SCANNER_SCRATCH)] else (None, d, False, SPAN_SCANNER_SCRATCH) # sps))
      rest (scan_string sk len is_key s1 (c # b @ CHR 0x22 # rest))"
  proof (cases "b = []")
    case True
    then show ?thesis using s3 by (simp add: step literal_outcome_def fin_def and_then_if)
  next
    case False
    have "sc_esc_phase s3 = ESC_NONE" "sc_bounded_mode s3 = bd"
      using emit_span_keeps [OF s3] s1(4) esc_eq_fields [OF s1(3)] md by (simp_all add: str_frame_def)
    then have "literal_outcome (give (emit_span sk is_key) s3 sps) rest (scan_string sk len is_key s3 (b @ CHR 0x22 # rest))"
      using tl [OF False] by blast
    then show ?thesis using s3 False tl [OF False] by (auto simp: step fin_def and_then_if literal_outcome_def)
  qed
  then show ?thesis using sc literal_outcome_esc [OF s1(3)] by simp
qed

lemma string_scan:
  assumes "string_text b v" and "suffix (b @ CHR 0x22 # rest) buf" and "b = [] \<Longrightarrow> span_start buf (CHR 0x22 # rest)"
  shows "\<exists>sps. span_list bd buf sps v \<and>
    (\<forall>(sk :: 'k bb_serialize_json_ingest_t) s is_key. sc_esc_phase s = ESC_NONE \<longrightarrow> sc_bounded_mode s = bd \<longrightarrow>
      literal_outcome (give (emit_span sk is_key) s sps) rest (scan_string sk (length buf) is_key s (b @ CHR 0x22 # rest)))"
  using assms
proof (induction "length b" arbitrary: b v rule: less_induct)
  case less
  define run where "run = takeWhile plain_char b"
  define b' where "b' = dropWhile plain_char b"
  let ?cs = "b @ CHR 0x22 # rest"
  let ?p = "Some (length buf - length ?cs)" and ?prov = "if bd then SPAN_CALLER_STABLE else SPAN_CALLER_FEED_SCOPED"
  have b: "b = run @ b'" and plain: "\<forall>c \<in> set run. plain_char c" by (auto simp: run_def b'_def dest: set_takeWhileD)
  obtain v' where v: "v = run @ v'" "string_text b' v'" using string_text_run [of run b' v] less.prems(1) b plain by auto
  have prov: "direct_span_provenance s = ?prov" if "sc_bounded_mode s = bd" for s :: "'k scan_state_t"
    using that by (simp add: direct_span_provenance_def)
  have start: "span_start buf ?cs"
    using less.prems(3) string_text_hd [OF less.prems(1)] by (cases "b = []") (auto simp: span_start_def)
  consider (End) "b' = []" | (Escape) "b' \<noteq> []" by blast
  then show ?case
  proof cases
    case End
    then have r: "scan_run ?cs = Some (run, CHR 0x22 # rest)" using b plain scan_run_plain [of run] by simp
    have "v' = []" using string_text_empty [OF v(2)] End by simp
    then have "span_list bd buf [(?p, run, True, ?prov)] v"
      using span_final [OF less.prems(2) start r refl, of bd] v(1) by simp
    moreover have "literal_outcome (give (emit_span sk is_key) s [(?p, run, True, ?prov)]) rest (scan_string sk (length buf) is_key s ?cs)"
      if "sc_esc_phase s = ESC_NONE" "sc_bounded_mode s = bd" for sk :: "'k bb_serialize_json_ingest_t" and s is_key
      using that by (simp add: scan_closing [OF that(1) r] prov literal_outcome_def and_then_if split: prod.splits)
    ultimately show ?thesis by blast
  next
    case Escape
    have "\<not> plain_char (hd b')" using Escape hd_dropWhile unfolding b'_def by blast
    then obtain b1 where b1: "b' = CHR 0x5C # b1" using string_text_stop [OF v(2)] Escape by (cases b') auto
    obtain e d b2 v2 where e: "b1 = e @ b2" "v' = d @ v2" "escape_text e d" "string_text b2 v2"
      using string_text_escape [OF v(2) [unfolded b1]] by blast
    have r: "scan_run ?cs = Some (run, CHR 0x5C # b1 @ CHR 0x22 # rest)" using b b1 plain scan_run_plain [of run] by simp
    have suf: "suffix (b2 @ CHR 0x22 # rest) buf" using less.prems(2) unfolding b b1 e(1) by (auto simp: suffix_def)
    obtain n where n: "scalar_value n" "d = utf8_bytes n"
      using escape_scan [OF e(3), of "scan_zero () False\<lparr>sc_esc_phase := ESC_BACKSLASH\<rparr>"] by auto
    have d: "d \<noteq> []" using escape_text_nonempty [OF e(3)] by simp
    obtain sps where sps: "b2 \<noteq> [] \<Longrightarrow> span_list bd buf sps v2"
      "b2 \<noteq> [] \<Longrightarrow> (\<forall>(sk :: 'k bb_serialize_json_ingest_t) s is_key. sc_esc_phase s = ESC_NONE \<longrightarrow> sc_bounded_mode s = bd \<longrightarrow>
        literal_outcome (give (emit_span sk is_key) s sps) rest (scan_string sk (length buf) is_key s (b2 @ CHR 0x22 # rest)))"
    proof (cases "b2 = []")
      case False
      have "length b2 < length b" using b b1 e(1) by simp
      then show thesis using less.hyps [OF _ e(4) suf] False that by blast
    qed (use that in blast)
    define T where "T = (if b2 = [] then [(None, d, True, SPAN_SCANNER_SCRATCH)] else (None, d, False, SPAN_SCANNER_SCRATCH) # sps)"
    have T: "span_list bd buf T (d @ v2)"
      using sps(1) string_text_empty [OF e(4)] span_decoded [OF n] span_list_Cons [OF sps(1) _ d] d by (auto simp: T_def)
    have out: "literal_outcome (give (emit_span sk is_key) s T) rest (scan_string sk (length buf) is_key s (b1 @ CHR 0x22 # rest))"
      if "sc_esc_phase s = ESC_BACKSLASH" "sc_bounded_mode s = bd" for sk :: "'k bb_serialize_json_ingest_t" and s is_key
      using escape_outcome [OF e(3) that, of b2 sk is_key sps rest "length buf"] sps(2) string_text_hd [OF e(4)]
      by (auto simp: T_def e(1))
    define S where "S = (if run = [] then T else (?p, run, False, ?prov) # T)"
    have "span_list bd buf S v"
      using T v(1) e(2) d span_list_Cons [OF T _ _ span_open [OF less.prems(2) r _ refl]] by (auto simp: S_def)
    moreover have "literal_outcome (give (emit_span sk is_key) s S) rest (scan_string sk (length buf) is_key s ?cs)"
      if s: "sc_esc_phase s = ESC_NONE" "sc_bounded_mode s = bd" for sk :: "'k bb_serialize_json_ingest_t" and s is_key
    proof (cases "run = []")
      case True
      then show ?thesis using out [of "s\<lparr>sc_esc_phase := ESC_BACKSLASH\<rparr>" sk is_key] s
          literal_outcome_esc [of s "s\<lparr>sc_esc_phase := ESC_BACKSLASH\<rparr>"] by (simp add: scan_backslash [OF s(1) r] S_def)
    next
      case False
      obtain rc s1 where s1: "emit_span sk is_key s (?p, run, False, ?prov) = (rc, s1)" by fastforce
      have "sc_bounded_mode s1 = bd" using emit_span_keeps [OF s1] s(2) by (simp add: str_frame_def)
      then have "literal_outcome (give (emit_span sk is_key) s1 T) rest
          (scan_string sk (length buf) is_key (s1\<lparr>sc_esc_phase := ESC_BACKSLASH\<rparr>) (b1 @ CHR 0x22 # rest))"
        using out [of "s1\<lparr>sc_esc_phase := ESC_BACKSLASH\<rparr>" sk is_key] literal_outcome_esc [of s1 "s1\<lparr>sc_esc_phase := ESC_BACKSLASH\<rparr>"]
        by simp
      then show ?thesis using s1 False s(2) by (simp add: scan_backslash [OF s(1) r] S_def prov and_then_if) (simp add: literal_outcome_def)
    qed
    ultimately show ?thesis by blast
  qed
qed

end
