(* ===== verification/BB_JSON_Events.thy ===== *)
theory BB_JSON_Events
  imports BB_JSON_Text
begin

text \<open>
  From texts to events: an interface for sinks that follow an abstract consumer of events, and the theorem that the
  scanner drives such a sink through exactly the events of the tree, whatever text stands for it.
\<close>

section \<open>Consumers of events\<close>

text \<open>A consumer may stop with a code, or make no promise (\<^verbatim>\<open>None\<close>).\<close>

fun consume :: "('a \<Rightarrow> event \<Rightarrow> (bb_err_t \<times> 'a) option) \<Rightarrow> 'a \<Rightarrow> event list \<Rightarrow> (bb_err_t \<times> 'a) option" where
  "consume f a [] = Some (BB_OK, a)"
| "consume f a (e # es) =
     (case f a e of None \<Rightarrow> None | Some (rc, a') \<Rightarrow> if rc \<noteq> BB_OK then Some (rc, a') else consume f a' es)"

lemma consume_append:
  "consume f a (es @ fs) =
    (case consume f a es of None \<Rightarrow> None | Some (rc, a') \<Rightarrow> if rc \<noteq> BB_OK then Some (rc, a') else consume f a' fs)"
  by (induction es arbitrary: a) (simp_all split: option.split prod.split)

lemma consume_appendD:
  assumes "consume f a (es @ fs) = Some (rc, a')"
  shows "(consume f a es = Some (rc, a') \<and> rc \<noteq> BB_OK) \<or> (\<exists>b. consume f a es = Some (BB_OK, b) \<and> consume f b fs = Some (rc, a'))"
  using assms by (auto simp: consume_append split: option.splits if_splits)

lemma consume_ConsD:
  assumes "consume f a (e # fs) = Some (rc, a')"
  shows "(f a e = Some (rc, a') \<and> rc \<noteq> BB_OK) \<or> (\<exists>b. f a e = Some (BB_OK, b) \<and> consume f b fs = Some (rc, a'))"
  using assms by (auto split: option.splits if_splits)

text \<open>The callback of an event that is not a string, and the callbacks of a string.\<close>

fun call :: "'k bb_serialize_json_ingest_t \<Rightarrow> event \<Rightarrow> 'k \<Rightarrow> bb_err_t \<times> 'k" where
  "call sk (Ev_begin_obj key) k = in_begin_obj sk k key"
| "call sk Ev_end_obj k = in_end_obj sk k"
| "call sk (Ev_begin_arr key) k = in_begin_arr sk k key"
| "call sk Ev_end_arr k = in_end_arr sk k"
| "call sk (Ev_num key n) k = in_value_num sk k key n"
| "call sk (Ev_bool key b) k = in_value_bool sk k key b"
| "call sk (Ev_null key) k = in_value_null sk k key"
| "call sk (Ev_str key s) k = (BB_OK, k)"

fun is_string :: "event \<Rightarrow> bool" where
  "is_string (Ev_str key s) = True"
| "is_string _ = False"

definition value_spans :: "'k bb_serialize_json_ingest_t \<Rightarrow> json_key \<Rightarrow> 'k \<Rightarrow> span list \<Rightarrow> bb_err_t \<times> 'k" where
  "value_spans sk key k sps = give (\<lambda>k (p, d, fin, prov). in_value_str_chunk sk k key p d fin prov) k sps"

lemma emit_value_spans:
  "give (emit_span sk False) s sps = (fst (value_spans sk (cur_key s) (sc_ctx s) sps), s\<lparr>sc_ctx := snd (value_spans sk (cur_key s) (sc_ctx s) sps)\<rparr>)"
proof (induction sps arbitrary: s)
  case (Cons sp sps)
  obtain p d fin prov where sp: "sp = (p, d, fin, prov)" by (cases sp)
  obtain rc k where k: "in_value_str_chunk sk (sc_ctx s) (cur_key s) p d fin prov = (rc, k)" by fastforce
  have key: "cur_key (s\<lparr>sc_ctx := k\<rparr>) = cur_key s" by (simp add: cur_key_def)
  show ?case using Cons [of "s\<lparr>sc_ctx := k\<rparr>"]
    by (cases "rc = BB_OK") (simp_all add: value_spans_def emit_span_def sp emit_str_bytes_def sink_call_def k key)
qed (simp add: value_spans_def)

lemma emit_key_spans:
  assumes "length (sc_scratch s) + length (concat (map span_bytes sps)) \<le> BB_SERIALIZE_JSON_SCRATCH_MAX_BYTES"
  shows "give (emit_span sk True) s sps = (BB_OK, s\<lparr>sc_scratch := sc_scratch s @ concat (map span_bytes sps)\<rparr>)"
  using assms
proof (induction sps arbitrary: s)
  case (Cons sp sps)
  have "emit_span sk True s sp = (BB_OK, s\<lparr>sc_scratch := sc_scratch s @ span_bytes sp\<rparr>)"
    using Cons.prems by (cases sp) (simp add: emit_span_def emit_str_bytes_def scratch_append_def span_bytes_def)
  then show ?case using Cons.IH [of "s\<lparr>sc_scratch := sc_scratch s @ span_bytes sp\<rparr>"] Cons.prems by simp
qed simp

section \<open>Blanks and tokens\<close>

lemma skip_blanks: "blanks w \<Longrightarrow> \<not> is_ws_json c \<Longrightarrow> skip_ws (w @ c # r) = c # r"
  unfolding skip_ws_def blanks_def by (subst dropWhile_append2) auto

lemma skip_all_blanks: "blanks w \<Longrightarrow> skip_ws w = []"
  by (simp add: skip_ws_def blanks_def)

lemma token_at:
  "token_phase (sc_phase s) \<Longrightarrow> blanks w \<Longrightarrow> \<not> is_ws_json c \<Longrightarrow>
    drive sk len s (w @ c # r) = and_then (token_step sk s c) (\<lambda>s'. drive sk len s' r)"
  by (simp add: drive_token skip_blanks)

text \<open>What a value leaves alone.\<close>

definition kept :: "'k scan_state_t \<Rightarrow> 'k scan_state_t \<Rightarrow> bool" where
  "kept s s' \<longleftrightarrow> sc_depth s' = sc_depth s \<and> take (sc_depth s) (sc_obj_stack s') = take (sc_depth s) (sc_obj_stack s) \<and>
     sc_bounded_mode s' = sc_bounded_mode s \<and> sc_err s' = sc_err s \<and> mem_ok s'"

definition finished :: "'k scan_state_t \<Rightarrow> 'k scan_state_t \<Rightarrow> bool" where
  "finished s s' \<longleftrightarrow> kept s s' \<and> sc_phase s' = after_value_phase s"

lemma kept_trans: "kept s s' \<Longrightarrow> kept s' s'' \<Longrightarrow> kept s s''"
  by (simp add: kept_def)

lemma top_kept:
  assumes "kept s s'" and "0 < sc_depth s"
  shows "sc_obj_stack s' ! (sc_depth s - 1) = sc_obj_stack s ! (sc_depth s - 1)"
proof -
  have i: "sc_depth s - 1 < sc_depth s" using assms(2) by simp
  have "take (sc_depth s) (sc_obj_stack s') ! (sc_depth s - 1) = take (sc_depth s) (sc_obj_stack s) ! (sc_depth s - 1)"
    using assms(1) by (simp add: kept_def)
  then show ?thesis by (simp only: nth_take [OF i])
qed

lemma after_value_kept: "kept s s' \<Longrightarrow> after_value_phase s' = after_value_phase s"
  using top_kept [of s s'] by (auto simp: after_value_phase_def kept_def)

lemma in_kept: "kept s s' \<Longrightarrow> in_object s' = in_object s" "kept s s' \<Longrightarrow> in_array s' = in_array s"
  using top_kept [of s s'] by (auto simp: in_object_def in_array_def kept_def)

text \<open>A state that waits for a value under a key.\<close>

definition key_size :: "json_key \<Rightarrow> nat" where
  "key_size key = (case key of None \<Rightarrow> 0 | Some k \<Rightarrow> length k)"

definition awaiting :: "'k scan_state_t \<Rightarrow> json_key \<Rightarrow> bool" where
  "awaiting s key \<longleftrightarrow> mem_ok s \<and>
     (sc_phase s = PH_OBJ_VALUE \<and> sc_key_len s = length (sc_scratch s) \<and> cur_key s = key \<or>
      sc_phase s \<in> {PH_ROOT, PH_ARR_ELEM_OR_CLOSE, PH_ARR_ELEM_ONLY} \<and> key = None)"

text \<open>The state as the first byte of the value finds it.\<close>

definition keyed :: "'k scan_state_t \<Rightarrow> json_key \<Rightarrow> 'k scan_state_t" where
  "keyed s key = (if sc_phase s = PH_OBJ_VALUE then s else s\<lparr>sc_key_len := 0, sc_scratch := []\<rparr>)"

lemma keyed_state:
  assumes "awaiting s key"
  shows "cur_key (keyed s key) = key" "sc_key_len (keyed s key) = length (sc_scratch (keyed s key))"
    "length (sc_scratch (keyed s key)) = key_size key" "kept s (keyed s key)" "sc_ctx (keyed s key) = sc_ctx s" "mem_ok (keyed s key)"
    "sc_obj_stack (keyed s key) = sc_obj_stack s"
  using assms by (auto simp: awaiting_def keyed_def cur_key_def key_size_def kept_def mem_ok_def split: if_splits)

lemma cur_key_phase: "cur_key (s\<lparr>sc_esc_phase := e, sc_phase := p\<rparr>) = cur_key s"
  by (simp add: cur_key_def)

lemma cur_key_more: "sc_key_len t = sc_key_len s \<Longrightarrow> take (sc_key_len s) (sc_scratch t) = take (sc_key_len s) (sc_scratch s) \<Longrightarrow>
  cur_key t = cur_key s"
  by (simp add: cur_key_def)

lemma cur_key_literal: "cur_key (s\<lparr>sc_lit_kind := l, sc_lit_matched := m, sc_phase := p, sc_lit_matched := n\<rparr>) = cur_key s"
  by (simp add: cur_key_def)

lemma dispatch_keyed: "dispatch_value_start sk s c False = dispatch_value_start sk (s\<lparr>sc_key_len := 0, sc_scratch := []\<rparr>) c True"
  by (simp add: dispatch_value_start_def Let_def)

lemma value_token:
  "sc_phase s = PH_OBJ_VALUE \<Longrightarrow> token_step sk s c = dispatch_value_start sk s c True"
  "sc_phase s = PH_ROOT \<Longrightarrow> token_step sk s c = dispatch_value_start sk s c False"
  "sc_phase s = PH_ARR_ELEM_ONLY \<Longrightarrow> token_step sk s c = dispatch_value_start sk s c False"
  "sc_phase s = PH_ARR_ELEM_OR_CLOSE \<Longrightarrow> token_step sk s c =
    (if c = CHR '']'' then close_container sk s else dispatch_value_start sk s c False)"
  by (simp_all only: token_step_def phase_t.case)

lemma object_token:
  "sc_phase s = PH_OBJ_KEY_OR_CLOSE \<Longrightarrow> token_step sk s c = (if c = CHR ''}'' then close_container sk s
    else if c \<noteq> CHR 0x22 then (BB_ERR_PARSE_GRAMMAR, s) else (BB_OK, begin_key s))"
  "sc_phase s = PH_OBJ_KEY_ONLY \<Longrightarrow> token_step sk s c =
    (if c \<noteq> CHR 0x22 then (BB_ERR_PARSE_GRAMMAR, s) else (BB_OK, begin_key s))"
  "sc_phase s = PH_OBJ_COLON \<Longrightarrow> token_step sk s c =
    (if c \<noteq> CHR '':'' then (BB_ERR_PARSE_GRAMMAR, s) else (BB_OK, s\<lparr>sc_phase := PH_OBJ_VALUE\<rparr>))"
  "sc_phase s = PH_OBJ_AFTER_VALUE \<Longrightarrow> token_step sk s c = (if c = CHR '','' then (BB_OK, s\<lparr>sc_phase := PH_OBJ_KEY_ONLY\<rparr>)
    else if c = CHR ''}'' then close_container sk s else (BB_ERR_PARSE_GRAMMAR, s))"
  "sc_phase s = PH_ARR_AFTER_VALUE \<Longrightarrow> token_step sk s c = (if c = CHR '','' then (BB_OK, s\<lparr>sc_phase := PH_ARR_ELEM_ONLY\<rparr>)
    else if c = CHR '']'' then close_container sk s else (BB_ERR_PARSE_GRAMMAR, s))"
  by (simp_all only: token_step_def phase_t.case)

lemma close_token:
  "sc_phase s = PH_OBJ_KEY_OR_CLOSE \<or> sc_phase s = PH_OBJ_AFTER_VALUE \<Longrightarrow>
    token_phase (sc_phase s) \<and> token_step sk s (CHR ''}'') = close_container sk s"
  "sc_phase s = PH_ARR_ELEM_OR_CLOSE \<or> sc_phase s = PH_ARR_AFTER_VALUE \<Longrightarrow>
    token_phase (sc_phase s) \<and> token_step sk s (CHR '']'') = close_container sk s"
  by (elim disjE; simp add: object_token value_token token_phase_def)+

lemma dispatch_number:
  "dispatch_value_start sk s (CHR ''-'') True = start_number NUM_START (CHR ''-'') s"
  "is_digit c \<Longrightarrow> dispatch_value_start sk s c True = start_number NUM_INT_DIGITS c s"
proof -
  show "dispatch_value_start sk s (CHR ''-'') True = start_number NUM_START (CHR ''-'') s"
    by (simp add: dispatch_value_start_def)
  assume d: "is_digit c"
  have "c \<noteq> CHR 0x22 \<and> c \<noteq> CHR ''{'' \<and> c \<noteq> CHR ''['' \<and> c \<noteq> CHR ''-''" using d by (auto simp: is_digit_def)
  then show "dispatch_value_start sk s c True = start_number NUM_INT_DIGITS c s" using d by (simp add: dispatch_value_start_def)
qed

lemma dispatch_literal: "dispatch_value_start sk s (hd (lit_text lk)) True = start_literal lk s"
  by (cases lk) (simp_all add: dispatch_value_start_def is_digit_def)

text \<open>The three words.\<close>

definition lit_event :: "lit_kind_t \<Rightarrow> json_key \<Rightarrow> event" where
  "lit_event lk key = (if lk = LIT_NULL then Ev_null key else Ev_bool key (lk = LIT_TRUE))"

lemma drive_word:
  assumes "sc_phase t = PH_VAL_LIT" and "lit_text (sc_lit_kind t) = take (sc_lit_matched t) (lit_text (sc_lit_kind t)) @ ds" and "ds \<noteq> []"
  shows "drive sk len t (ds @ rest) =
      and_then (emit_literal sk (t\<lparr>sc_lit_matched := length (lit_text (sc_lit_kind t))\<rparr>))
        (\<lambda>s2. drive sk len (s2\<lparr>sc_phase := after_value_phase s2\<rparr>) rest)"
  using assms
proof (induction ds arbitrary: t)
  case (Cons d ds)
  define x where "x = lit_text (sc_lit_kind t)"
  define m where "m = sc_lit_matched t"
  have x: "x = take m x @ d # ds" using Cons.prems(2) unfolding x_def m_def .
  have lt: "m < length x" using arg_cong [OF x, of length] by (simp add: min_def split: if_splits)
  have len: "length x = m + length (d # ds)" using arg_cong [OF x, of length] lt by simp
  have "x ! m = (take m x @ d # ds) ! m" using x by simp
  then have nth: "d = x ! m" using lt by (simp add: nth_append)
  have more: "x = take (m + 1) x @ ds" using x nth lt by (simp add: take_Suc_conv_app_nth)
  show ?case
  proof (cases "ds = []")
    case True
    then show ?thesis using Cons.prems(1) nth len by (simp add: drive_lit Let_def x_def m_def)
  next
    case False
    then have "m + 1 \<noteq> length x" using len by simp
    then show ?thesis using Cons.IH [of "t\<lparr>sc_lit_matched := m + 1\<rparr>"] Cons.prems(1) nth more False
      by (simp add: drive_lit Let_def x_def m_def)
  qed
qed simp

lemma value_at:
  assumes "awaiting s key" and "blanks w" and "\<not> is_ws_json c" and "c \<noteq> CHR '']''"
  shows "drive sk len s (w @ c # r) = and_then (dispatch_value_start sk (keyed s key) c True) (\<lambda>s'. drive sk len s' r)"
proof -
  have "token_phase (sc_phase s)" using assms(1) by (auto simp: awaiting_def token_phase_def)
  moreover have "token_step sk s c = dispatch_value_start sk (keyed s key) c True"
  proof (cases "sc_phase s = PH_OBJ_VALUE")
    case True
    then show ?thesis by (simp add: keyed_def value_token(1))
  next
    case False
    then have "sc_phase s = PH_ROOT \<or> sc_phase s = PH_ARR_ELEM_OR_CLOSE \<or> sc_phase s = PH_ARR_ELEM_ONLY"
      using assms(1) by (simp add: awaiting_def)
    then have "token_step sk s c = dispatch_value_start sk s c False" using assms(4) by (elim disjE) (simp_all add: value_token)
    then show ?thesis using False by (simp add: keyed_def dispatch_keyed)
  qed
  ultimately show ?thesis using token_at assms(2,3) by metis
qed

section \<open>Numbers\<close>

fun num_path :: "num_phase_t \<Rightarrow> string \<Rightarrow> num_phase_t option" where
  "num_path p [] = Some p"
| "num_path p (c # cs) = (case num_next p c of Num_to p' \<Rightarrow> num_path p' cs | _ \<Rightarrow> None)"

lemma num_path_append: "num_path p (a @ b) = (case num_path p a of None \<Rightarrow> None | Some q \<Rightarrow> num_path q b)"
  by (induction p a rule: num_path.induct) (simp_all split: num_step.split)

lemma num_path_digits:
  "\<forall>c \<in> set ds. is_digit c \<Longrightarrow> p \<in> {NUM_INT_DIGITS, NUM_FRAC_DIGITS, NUM_EXP_DIGITS} \<Longrightarrow> num_path p ds = Some p"
  by (induction ds) auto

lemma num_path_first:
  assumes "digits ds"
  shows "num_path NUM_START ds = Some NUM_INT_DIGITS" "num_path NUM_FRAC_START ds = Some NUM_FRAC_DIGITS"
    "num_path NUM_EXP_SIGN ds = Some NUM_EXP_DIGITS" "num_path NUM_EXP_START ds = Some NUM_EXP_DIGITS"
proof -
  obtain c cs where "ds = c # cs" "is_digit c" "\<forall>c \<in> set cs. is_digit c" using assms by (cases ds) (auto simp: digits_def)
  then show "num_path NUM_START ds = Some NUM_INT_DIGITS" "num_path NUM_FRAC_START ds = Some NUM_FRAC_DIGITS"
    "num_path NUM_EXP_SIGN ds = Some NUM_EXP_DIGITS" "num_path NUM_EXP_START ds = Some NUM_EXP_DIGITS"
    using num_path_digits by (auto simp: is_digit_def)
qed

lemma num_path_exponent: "e \<in> exponent \<Longrightarrow> p \<in> {NUM_INT_DIGITS, NUM_FRAC_DIGITS} \<Longrightarrow>
  \<exists>q. num_path p e = Some q \<and> num_phase_is_terminal q"
proof -
  assume e: "e \<in> exponent" and p: "p \<in> {NUM_INT_DIGITS, NUM_FRAC_DIGITS}"
  show ?thesis
  proof (cases "e = []")
    case True
    then show ?thesis using p by (auto simp: num_phase_is_terminal_def)
  next
    case False
    then obtain m g ds where m: "e = m @ g @ ds" "m \<in> exp_mark" "g \<in> {[], ''+'', ''-''}" "digits ds"
      using e unfolding exponent_def by blast
    have "num_path p m = Some NUM_EXP_START" using m(2) p by (auto simp: exp_mark_def is_digit_def)
    moreover have "num_path NUM_EXP_START (g @ ds) = Some NUM_EXP_DIGITS"
      using m(3) num_path_first(3,4) [OF m(4)] by (auto simp: is_digit_def)
    ultimately show ?thesis using m(1) by (simp add: num_path_append num_phase_is_terminal_def)
  qed
qed

lemma number_path:
  assumes "json_number n"
  shows "\<exists>c cs p q. n = c # cs \<and> (c = CHR ''-'' \<and> p = NUM_START \<or> is_digit c \<and> p = NUM_INT_DIGITS) \<and>
    num_path p cs = Some q \<and> num_phase_is_terminal q"
proof -
  obtain m i f e where n: "n = m @ i @ f @ e" "m \<in> opt_minus" "digits i" "f \<in> fraction" "e \<in> exponent"
    using assms unfolding json_number_def by blast
  have "\<exists>q. num_path NUM_INT_DIGITS (f @ e) = Some q \<and> num_phase_is_terminal q"
  proof (cases "f = []")
    case True
    then show ?thesis using num_path_exponent [OF n(5)] by simp
  next
    case False
    then obtain ds where f: "f = CHR ''.'' # ds" "digits ds" using n(4) by (auto simp: fraction_def)
    have "num_path NUM_INT_DIGITS f = Some NUM_FRAC_DIGITS" using f num_path_first(2) by (simp add: is_digit_def)
    then show ?thesis using num_path_exponent [OF n(5), of NUM_FRAC_DIGITS] by (simp add: num_path_append)
  qed
  then obtain q where q: "num_path NUM_INT_DIGITS (f @ e) = Some q" "num_phase_is_terminal q" by blast
  show ?thesis
  proof (cases "m = []")
    case True
    obtain c cs where i: "i = c # cs" "is_digit c" "\<forall>c \<in> set cs. is_digit c" using n(3) by (cases i) (auto simp: digits_def)
    have "num_path NUM_INT_DIGITS (cs @ f @ e) = Some q" using num_path_digits [OF i(3)] q(1) by (simp add: num_path_append)
    then show ?thesis using n(1) i True q(2) by auto
  next
    case False
    then have "m = ''-''" using n(2) by (simp add: opt_minus_def)
    moreover have "num_path NUM_START (i @ f @ e) = Some q" using num_path_first(1) [OF n(3)] q(1) by (simp add: num_path_append)
    ultimately show ?thesis using n(1) q(2) by auto
  qed
qed

lemma drive_num_path:
  assumes "sc_phase s = PH_VAL_NUM" and "num_path (sc_num_phase s) cs = Some q"
    and "length (sc_scratch s) + length cs \<le> BB_SERIALIZE_JSON_SCRATCH_MAX_BYTES"
  shows "drive sk len s (cs @ r) = drive sk len (s\<lparr>sc_scratch := sc_scratch s @ cs, sc_num_phase := q\<rparr>) r"
  using assms
proof (induction cs arbitrary: s)
  case Nil
  then show ?case by (cases s) auto
next
  case (Cons c cs)
  then obtain p where p: "num_next (sc_num_phase s) c = Num_to p" "num_path p cs = Some q" by (auto split: num_step.splits)
  show ?case using Cons.IH [of "s\<lparr>sc_scratch := sc_scratch s @ [c], sc_num_phase := p\<rparr>"] Cons.prems p
    by (simp add: drive_num scratch_append_def)
qed

definition delimiter :: "char \<Rightarrow> bool" where
  "delimiter c \<longleftrightarrow> is_ws_json c \<or> c = CHR '','' \<or> c = CHR '']'' \<or> c = CHR ''}''"

lemma delimiter_ends: "delimiter c \<Longrightarrow> num_phase_is_terminal p \<Longrightarrow> num_next p c = Num_end"
  by (auto simp: delimiter_def is_ws_json_def num_phase_is_terminal_def is_digit_def)

section \<open>Sinks that follow a consumer\<close>

text \<open>The state inside a container just opened.\<close>

definition open_state :: "bool \<Rightarrow> phase_t \<Rightarrow> 'k scan_state_t \<Rightarrow> 'k scan_state_t \<Rightarrow> bool" where
  "open_state arr ph s t \<longleftrightarrow> mem_ok t \<and> sc_phase t = ph \<and> sc_depth t = sc_depth s + 1 \<and>
     take (sc_depth s) (sc_obj_stack t) = take (sc_depth s) (sc_obj_stack s) \<and> sc_obj_stack t ! sc_depth s = arr \<and>
     sc_bounded_mode t = sc_bounded_mode s \<and> sc_err t = sc_err s"

lemma open_container_result:
  assumes "mem_ok s" and "sc_depth s < BB_SERIALIZE_MAX_DEPTH" and "sink_call f s = (rc, s\<lparr>sc_ctx := k'\<rparr>)"
  shows "\<exists>t. open_container (\<lambda>k key. f k) arr ph s = (rc, t) \<and> sc_ctx t = k' \<and> (rc = BB_OK \<longrightarrow> open_state arr ph s t)"
proof -
  have f: "sink_call (\<lambda>k. f k) s = (rc, s\<lparr>sc_ctx := k'\<rparr>)" using assms(3) .
  show ?thesis
  proof (cases "rc = BB_OK")
    case False
    then show ?thesis using assms(2) f by (simp add: open_container_def)
  next
    case True
    let ?t = "s\<lparr>sc_ctx := k', sc_obj_stack := (sc_obj_stack s)[sc_depth s := arr], sc_depth := sc_depth s + 1, sc_phase := ph\<rparr>"
    have "open_container (\<lambda>k key. f k) arr ph s = (rc, ?t)" using assms(2) f True by (simp add: open_container_def)
    moreover have "open_state arr ph s ?t" using assms(1,2) by (simp add: open_state_def mem_ok_def)
    ultimately show ?thesis by (intro exI [of _ ?t]) simp
  qed
qed

locale event_sink =
  fixes sk :: "'k bb_serialize_json_ingest_t" and buf :: string and bd :: bool and R :: "'k \<Rightarrow> 'a \<Rightarrow> bool"
    and astep :: "'a \<Rightarrow> event \<Rightarrow> (bb_err_t \<times> 'a) option"
  assumes follows: "R k a \<Longrightarrow> astep a e = Some (rc, a') \<Longrightarrow> \<not> is_string e \<Longrightarrow> \<exists>k'. call sk e k = (rc, k') \<and> R k' a'"
    and strings: "R k a \<Longrightarrow> astep a (Ev_str key d) = Some (rc, a') \<Longrightarrow> span_list bd buf sps d \<Longrightarrow>
      \<exists>k'. value_spans sk key k sps = (rc, k') \<and> R k' a'"
begin

text \<open>What a piece of text does: the loop reads it, the sink follows the consumer, and what holds afterwards holds.\<close>

definition reads :: "'k scan_state_t \<Rightarrow> string \<Rightarrow> string \<Rightarrow> bb_err_t \<Rightarrow> 'a \<Rightarrow> ('k scan_state_t \<Rightarrow> bool) \<Rightarrow> bool" where
  "reads s x rest rc a' Q \<longleftrightarrow>
     (\<exists>s'. drive sk (length buf) s (x @ rest) = and_then (rc, s') (\<lambda>s'. drive sk (length buf) s' rest) \<and> R (sc_ctx s') a' \<and>
        (rc = BB_OK \<longrightarrow> Q s'))"

lemma readsI:
  assumes "drive sk (length buf) s (x @ rest) = and_then (rc, s') (\<lambda>s'. drive sk (length buf) s' rest)" "R (sc_ctx s') a'"
    and "rc = BB_OK \<Longrightarrow> Q s'"
  shows "reads s x rest rc a' Q"
  using assms unfolding reads_def by blast

text \<open>One text after another.\<close>

lemma reads_then:
  assumes "reads s x (y @ rest) rc a' Q" and "rc = BB_OK \<Longrightarrow> \<exists>rc2 a2. P rc2 a2 \<and> (\<forall>s'. Q s' \<longrightarrow> R (sc_ctx s') a' \<longrightarrow> reads s' y rest rc2 a2 Q2)"
  shows "rc \<noteq> BB_OK \<and> reads s (x @ y) rest rc a' Q2 \<or> rc = BB_OK \<and> (\<exists>rc2 a2. P rc2 a2 \<and> reads s (x @ y) rest rc2 a2 Q2)"
proof -
  obtain s' where s': "drive sk (length buf) s (x @ y @ rest) = and_then (rc, s') (\<lambda>s'. drive sk (length buf) s' (y @ rest))"
    "R (sc_ctx s') a'" "rc = BB_OK \<longrightarrow> Q s'" using assms(1) unfolding reads_def by blast
  show ?thesis
  proof (cases "rc = BB_OK")
    case False
    then show ?thesis using s' by (auto simp: reads_def)
  next
    case True
    then obtain rc2 a2 where "P rc2 a2" "reads s' y rest rc2 a2 Q2" using assms(2) s' by blast
    then show ?thesis using s' True by (auto simp: reads_def)
  qed
qed

lemma call_sink:
  assumes "R (sc_ctx s) a" and "astep a e = Some (rc, a')" and "\<not> is_string e" and "f = (\<lambda>k. call sk e k)"
  shows "\<exists>k'. sink_call f s = (rc, s\<lparr>sc_ctx := k'\<rparr>) \<and> R k' a'"
  using follows [OF assms(1-3)] assms(4) by (auto simp: sink_call_def)

text \<open>A container opens and closes.\<close>

lemma opens:
  assumes aw: "awaiting s key" and w: "blanks w" and d: "sc_depth s < BB_SERIALIZE_MAX_DEPTH" and r: "R (sc_ctx s) a"
    and c: "c = CHR ''{'' \<and> e = Ev_begin_obj key \<and> ph = PH_OBJ_KEY_OR_CLOSE \<and> \<not> arr \<or>
      c = CHR ''['' \<and> e = Ev_begin_arr key \<and> ph = PH_ARR_ELEM_OR_CLOSE \<and> arr"
    and e: "astep a e = Some (rc, a')"
  shows "reads s (w @ [c]) rest rc a' (open_state arr ph s)"
proof -
  let ?s = "keyed s key"
  note k = keyed_state [OF aw]
  have nw: "\<not> is_ws_json c" "c \<noteq> CHR '']''" using c by (auto simp: is_ws_json_def)
  have ns: "\<not> is_string e" using c by auto
  obtain k' where k': "sink_call (\<lambda>k. call sk e k) ?s = (rc, ?s\<lparr>sc_ctx := k'\<rparr>)" "R k' a'"
    using call_sink [of ?s a e rc a', OF _ e ns refl] r k(5) by auto
  have dd: "sc_depth ?s = sc_depth s" using k(4) by (simp add: kept_def)
  obtain t where t: "open_container (\<lambda>k key'. call sk e k) arr ph ?s = (rc, t)" "sc_ctx t = k'"
    and ok: "rc = BB_OK \<Longrightarrow> open_state arr ph ?s t"
    using open_container_result [OF k(6) d [folded dd] k'(1)] by blast
  have "open_container (in_begin_obj sk) arr ph ?s = open_container (\<lambda>k key'. call sk e k) arr ph ?s" if "e = Ev_begin_obj key"
    using k(1) that by (simp add: open_container_def)
  moreover have "open_container (in_begin_arr sk) arr ph ?s = open_container (\<lambda>k key'. call sk e k) arr ph ?s" if "e = Ev_begin_arr key"
    using k(1) that by (simp add: open_container_def)
  ultimately have "dispatch_value_start sk ?s c True = (rc, t)"
    using c unfolding dispatch_value_start_def Let_def t(1) [symmetric] by (elim disjE conjE) simp_all
  then have "drive sk (length buf) s ((w @ [c]) @ rest) = and_then (rc, t) (\<lambda>s'. drive sk (length buf) s' rest)"
    using value_at [OF aw w nw, of sk "length buf" rest] by simp
  moreover have "R (sc_ctx t) a'" using k'(2) t(2) by simp
  moreover have "open_state arr ph s t" if "rc = BB_OK" using ok [OF that] k(4,7) by (simp add: open_state_def kept_def)
  ultimately show ?thesis by (rule readsI)
qed

lemma closes:
  assumes m: "mem_ok s" and w: "blanks w" and r: "R (sc_ctx s) a"
    and c: "c = CHR ''}'' \<and> e = Ev_end_obj \<and> sc_phase s \<in> {PH_OBJ_KEY_OR_CLOSE, PH_OBJ_AFTER_VALUE} \<and> in_object s \<or>
      c = CHR '']'' \<and> e = Ev_end_arr \<and> sc_phase s \<in> {PH_ARR_ELEM_OR_CLOSE, PH_ARR_AFTER_VALUE} \<and> in_array s"
    and e: "astep a e = Some (rc, a')"
  shows "reads s (w @ [c]) rest rc a' (\<lambda>s'. mem_ok s' \<and> sc_depth s' = sc_depth s - 1 \<and> sc_obj_stack s' = sc_obj_stack s \<and>
    sc_bounded_mode s' = sc_bounded_mode s \<and> sc_err s' = sc_err s \<and> sc_phase s' = after_value_phase s')"
proof -
  let ?s = "s\<lparr>sc_depth := sc_depth s - 1\<rparr>"
  have nw: "\<not> is_ws_json c" using c by (auto simp: is_ws_json_def)
  have ns: "\<not> is_string e" using c by auto
  obtain k' where k': "sink_call (\<lambda>k. call sk e k) ?s = (rc, ?s\<lparr>sc_ctx := k'\<rparr>)" "R k' a'"
    using call_sink [of ?s a e rc a', OF _ e ns refl] r by auto
  let ?s1 = "?s\<lparr>sc_ctx := k'\<rparr>"
  let ?s' = "if rc \<noteq> BB_OK then ?s1 else ?s1\<lparr>sc_phase := after_value_phase ?s1\<rparr>"
  have f: "(\<lambda>k. call sk Ev_end_obj k) = in_end_obj sk" "(\<lambda>k. call sk Ev_end_arr k) = in_end_arr sk" by (simp_all add: fun_eq_iff)
  have "close_container sk s = (rc, ?s')"
    using c k'(1) f unfolding close_container_def Let_def in_object_def in_array_def by (elim disjE conjE) simp_all
  moreover have "token_step sk s c = close_container sk s" and ph: "token_phase (sc_phase s)"
    using c close_token [of s sk] by auto
  ultimately have ts: "token_step sk s c = (rc, ?s')" by simp
  have "drive sk (length buf) s ((w @ [c]) @ rest) = and_then (rc, ?s') (\<lambda>s'. drive sk (length buf) s' rest)"
    using token_at [OF ph w nw, of sk "length buf" rest] unfolding ts by simp
  moreover have "R (sc_ctx ?s') a'" using k'(2) by simp
  moreover have "rc = BB_OK \<Longrightarrow> mem_ok ?s' \<and> sc_depth ?s' = sc_depth s - 1 \<and> sc_obj_stack ?s' = sc_obj_stack s \<and>
    sc_bounded_mode ?s' = sc_bounded_mode s \<and> sc_err ?s' = sc_err s \<and> sc_phase ?s' = after_value_phase ?s'"
    using m by (auto simp: mem_ok_def after_value_phase_def)
  ultimately show ?thesis by (rule readsI)
qed

text \<open>A string as a value.\<close>

lemma string_value:
  assumes aw: "awaiting s key" and w: "blanks w" and st: "string_text b v" and md: "sc_bounded_mode s = bd"
    and suf: "suffix (w @ CHR 0x22 # b @ CHR 0x22 # rest) buf" and r: "R (sc_ctx s) a" and e: "astep a (Ev_str key v) = Some (rc, a')"
  shows "reads s (w @ CHR 0x22 # b @ [CHR 0x22]) rest rc a' (finished s)"
proof -
  note k = keyed_state [OF aw]
  let ?s1 = "(keyed s key)\<lparr>sc_esc_phase := ESC_NONE, sc_phase := PH_VAL_STR\<rparr>"
  let ?cs = "b @ CHR 0x22 # rest"
  obtain zs where zs: "buf = zs @ w @ CHR 0x22 # ?cs" using suf by (auto simp: suffix_def)
  have "suffix ?cs buf" unfolding zs by (simp add: suffix_def)
  moreover have "span_start buf (CHR 0x22 # rest)" if "b = []" using zs that by (auto simp: span_start_def intro: exI [of _ "zs @ w"])
  ultimately obtain sps where sps: "span_list bd buf sps v"
    and out: "\<forall>(sk :: 'k bb_serialize_json_ingest_t) s is_key. sc_esc_phase s = ESC_NONE \<longrightarrow> sc_bounded_mode s = bd \<longrightarrow>
      literal_outcome (give (emit_span sk is_key) s sps) rest (scan_string sk (length buf) is_key s ?cs)"
    using string_scan [OF st] by blast
  have key: "cur_key ?s1 = key" "sc_ctx ?s1 = sc_ctx s" "sc_bounded_mode ?s1 = bd"
    using k(1) trans [OF cur_key_phase k(1)] k(4,5) md by (simp_all add: kept_def)
  obtain k' where k': "value_spans sk key (sc_ctx s) sps = (rc, k')" "R k' a'" using strings [OF r e sps] by blast
  have "literal_outcome (rc, ?s1\<lparr>sc_ctx := k'\<rparr>) rest (scan_string sk (length buf) False ?s1 ?cs)"
    using out [rule_format, of ?s1 sk False] k' key emit_value_spans [of sk ?s1 sps] by simp
  then obtain t rest' where t: "scan_string sk (length buf) False ?s1 ?cs = (rc, t, rest', rc = BB_OK)" "esc_eq (?s1\<lparr>sc_ctx := k'\<rparr>) t"
    "rc = BB_OK \<longrightarrow> rest' = rest" by (auto simp: literal_outcome_def split: prod.splits)
  let ?s' = "if rc \<noteq> BB_OK then t else t\<lparr>sc_phase := after_value_phase t\<rparr>"
  have f: "sc_ctx t = k'" "sc_depth t = sc_depth s" "sc_obj_stack t = sc_obj_stack s" "sc_bounded_mode t = sc_bounded_mode s"
    "sc_err t = sc_err s" "mem_ok t"
    using esc_eq_fields [OF t(2)] k(4,6,7) by (simp_all add: kept_def mem_ok_def)
  have "drive sk (length buf) s ((w @ CHR 0x22 # b @ [CHR 0x22]) @ rest) = drive sk (length buf) ?s1 ?cs"
    using value_at [OF aw w, of "CHR 0x22" sk "length buf" ?cs] by (simp add: is_ws_json_def dispatch_value_start_def)
  also have "\<dots> = (case scan_string sk (length buf) False ?s1 ?cs of (rc, s1, rest, closed) \<Rightarrow>
      if rc \<noteq> BB_OK then (rc, s1) else if \<not> closed then (BB_OK, s1)
      else drive sk (length buf) (s1\<lparr>sc_phase := after_value_phase s1\<rparr>) rest)"
    by (subst drive.simps) (simp add: drive_body_def split: list.split prod.split)
  also have "\<dots> = and_then (rc, ?s') (\<lambda>s'. drive sk (length buf) s' rest)" using t(1,3) by simp
  finally show ?thesis
    by (rule readsI) (use f k'(2) in \<open>auto simp: finished_def kept_def after_value_phase_def\<close>)
qed

text \<open>A number: its text first, then its end.\<close>

lemma number_scanned:
  assumes aw: "awaiting s key" and w: "blanks w" and n: "json_number n" and fit: "key_size key + length n \<le> BB_SERIALIZE_JSON_SCRATCH_MAX_BYTES"
  shows "\<exists>t. drive sk (length buf) s (w @ n @ rest) = drive sk (length buf) t rest \<and> sc_phase t = PH_VAL_NUM \<and>
    num_phase_is_terminal (sc_num_phase t) \<and> cur_key t = key \<and> drop (sc_key_len t) (sc_scratch t) = n \<and> kept s t \<and> sc_ctx t = sc_ctx s"
proof -
  let ?s = "keyed s key"
  note k = keyed_state [OF aw]
  obtain c cs p q where c: "n = c # cs" "c = CHR ''-'' \<and> p = NUM_START \<or> is_digit c \<and> p = NUM_INT_DIGITS"
    "num_path p cs = Some q" "num_phase_is_terminal q" using number_path [OF n] by blast
  let ?s1 = "?s\<lparr>sc_scratch := sc_scratch ?s @ [c], sc_num_phase := p, sc_phase := PH_VAL_NUM\<rparr>"
  let ?t = "?s1\<lparr>sc_scratch := (sc_scratch ?s @ [c]) @ cs, sc_num_phase := q\<rparr>"
  have nw: "\<not> is_ws_json c" "c \<noteq> CHR '']''" using c(2) by (auto simp: is_ws_json_def is_digit_def)
  have room: "length (sc_scratch ?s) + length n \<le> BB_SERIALIZE_JSON_SCRATCH_MAX_BYTES" using fit k(3) by simp
  have "start_number p c ?s = (BB_OK, ?s1)" using room c(1) by (simp add: start_number_def scratch_append_def)
  then have d: "dispatch_value_start sk ?s c True = (BB_OK, ?s1)"
    using c(2) dispatch_number by metis
  have "drive sk (length buf) s (w @ n @ rest) = drive sk (length buf) ?s1 (cs @ rest)"
    using value_at [OF aw w nw, of sk "length buf" "cs @ rest"] d c(1) by simp
  also have "\<dots> = drive sk (length buf) ?t rest"
    using drive_num_path [of ?s1 cs q sk "length buf" rest] c(1,3) room by simp
  finally have dr: "drive sk (length buf) s (w @ n @ rest) = drive sk (length buf) ?t rest" .
  have "cur_key ?t = key" "drop (sc_key_len ?t) (sc_scratch ?t) = n"
    using trans [OF cur_key_more [of ?t ?s] k(1)] k(2) c(1) by simp_all
  moreover have "kept s ?t" using k(4,6) room c(1) by (simp add: kept_def mem_ok_def)
  moreover have "sc_phase ?t = PH_VAL_NUM" "sc_num_phase ?t = q" "sc_ctx ?t = sc_ctx s" using k(5) by simp_all
  ultimately show ?thesis using dr c(4) by (intro exI [of _ ?t]) simp
qed

lemma number_finalized:
  assumes "cur_key t = key" and "drop (sc_key_len t) (sc_scratch t) = n" and "mem_ok t" and r: "R (sc_ctx t) a" and e: "astep a (Ev_num key n) = Some (rc, a')"
  shows "\<exists>s'. finalize_number sk t = (rc, s') \<and> R (sc_ctx s') a' \<and> (rc = BB_OK \<longrightarrow> finished t s')"
proof -
  obtain k' where k': "sink_call (\<lambda>k. in_value_num sk k key n) t = (rc, t\<lparr>sc_ctx := k'\<rparr>)" "R k' a'"
    using call_sink [OF r e] by auto
  then show ?thesis using assms(1-3)
    by (auto simp: finalize_number_def finished_def kept_def after_value_phase_def)
qed

lemma number_value:
  assumes aw: "awaiting s key" and w: "blanks w" and n: "json_number n" and fit: "key_size key + length n \<le> BB_SERIALIZE_JSON_SCRATCH_MAX_BYTES"
    and rest: "rest \<noteq> []" "delimiter (hd rest)" and r: "R (sc_ctx s) a" and e: "astep a (Ev_num key n) = Some (rc, a')"
  shows "reads s (w @ n) rest rc a' (finished s)"
proof -
  obtain t where t: "drive sk (length buf) s (w @ n @ rest) = drive sk (length buf) t rest" "sc_phase t = PH_VAL_NUM"
    "num_phase_is_terminal (sc_num_phase t)" "cur_key t = key" "drop (sc_key_len t) (sc_scratch t) = n" "kept s t" "sc_ctx t = sc_ctx s"
    using number_scanned [OF aw w n fit] by blast
  obtain s' where s': "finalize_number sk t = (rc, s')" "R (sc_ctx s') a'" "rc = BB_OK \<longrightarrow> finished t s'"
    using number_finalized [OF t(4,5) _ _ e] t(6,7) r by (auto simp: kept_def)
  obtain d ds where d: "rest = d # ds" using rest(1) by (cases rest) auto
  have "drive sk (length buf) s ((w @ n) @ rest) = and_then (rc, s') (\<lambda>s'. drive sk (length buf) s' rest)"
    using t(1,2) delimiter_ends [OF rest(2) t(3)] s'(1) d by (simp add: drive_num)
  then show ?thesis using s'(2)
    by (rule readsI) (use s'(3) t(6) after_value_kept [OF t(6)] kept_trans in \<open>auto simp: finished_def\<close>)
qed

lemma literal_value:
  assumes aw: "awaiting s key" and w: "blanks w" and r: "R (sc_ctx s) a" and e: "astep a (lit_event lk key) = Some (rc, a')"
  shows "reads s (w @ lit_text lk) rest rc a' (finished s)"
proof -
  let ?s = "keyed s key"
  note k = keyed_state [OF aw]
  let ?c = "hd (lit_text lk)" and ?cs = "tl (lit_text lk)"
  have c: "lit_text lk = ?c # ?cs" "\<not> is_ws_json ?c" "?c \<noteq> CHR '']''" "?cs \<noteq> []" "lit_text lk = take 1 (lit_text lk) @ ?cs"
    by (cases lk; simp add: is_ws_json_def)+
  let ?t = "?s\<lparr>sc_lit_kind := lk, sc_lit_matched := 1, sc_phase := PH_VAL_LIT\<rparr>"
  let ?u = "?t\<lparr>sc_lit_matched := length (lit_text lk)\<rparr>"
  have ctx: "sc_ctx ?u = sc_ctx s" "cur_key ?u = key" using k(5) trans [OF cur_key_literal k(1)] by simp_all
  have ns: "\<not> is_string (lit_event lk key)" by (simp add: lit_event_def)
  obtain k' where k': "sink_call (\<lambda>k. call sk (lit_event lk key) k) ?u = (rc, ?u\<lparr>sc_ctx := k'\<rparr>)" "R k' a'"
    using call_sink [of ?u a _ rc a', OF _ e ns refl] r ctx(1) by auto
  have em: "emit_literal sk ?u = (rc, ?u\<lparr>sc_ctx := k'\<rparr>)"
    using k'(1) ctx(2) by (cases lk) (simp_all add: emit_literal_def lit_event_def)
  let ?v = "?u\<lparr>sc_ctx := k'\<rparr>"
  let ?s' = "if rc \<noteq> BB_OK then ?v else ?v\<lparr>sc_phase := after_value_phase ?v\<rparr>"
  have "drive sk (length buf) s (w @ ?c # ?cs @ rest) = drive sk (length buf) ?t (?cs @ rest)"
    unfolding value_at [OF aw w c(2,3)] dispatch_literal start_literal_def by simp
  also have "\<dots> = and_then (emit_literal sk ?u) (\<lambda>s2. drive sk (length buf) (s2\<lparr>sc_phase := after_value_phase s2\<rparr>) rest)"
    using drive_word [of ?t ?cs sk "length buf" rest] c(4,5) by simp
  also have "\<dots> = and_then (rc, ?s') (\<lambda>s'. drive sk (length buf) s' rest)" unfolding em by (simp add: and_then_if)
  finally have "drive sk (length buf) s ((w @ lit_text lk) @ rest) = and_then (rc, ?s') (\<lambda>s'. drive sk (length buf) s' rest)"
    using c(1) by (metis append.assoc append_Cons)
  moreover have "R (sc_ctx ?s') a'" using k'(2) by simp
  moreover have "finished s ?s'" if "rc = BB_OK"
    using that k(4,6,7) by (simp add: finished_def kept_def after_value_phase_def mem_ok_def)
  ultimately show ?thesis by (rule readsI)
qed

end

end
