(* ===== verification/BB_JSON_Read.thy ===== *)
theory BB_JSON_Read
  imports BB_JSON_Events
begin

text \<open>
  The scanner reads every document: by induction on the text, a sink that follows a consumer is taken through the
  events of the tree, up to the first that fails.
\<close>

section \<open>Parts of a text\<close>

lemma consume_split:
  assumes "consume f a (es @ fs) = Some (rc, a')"
  obtains rc1 a1 where "consume f a es = Some (rc1, a1)" "rc1 \<noteq> BB_OK \<Longrightarrow> rc = rc1 \<and> a' = a1"
    "rc1 = BB_OK \<Longrightarrow> consume f a1 fs = Some (rc, a')"
  using consume_appendD [OF assms] by auto

lemma consume_one: "consume f a [e] = f a e"
  by (simp split: option.split prod.split)

lemma consume_first:
  assumes "consume f a (e # fs) = Some (rc, a')"
  obtains rc1 a1 where "f a e = Some (rc1, a1)" "rc1 \<noteq> BB_OK \<Longrightarrow> rc = rc1 \<and> a' = a1"
    "rc1 = BB_OK \<Longrightarrow> consume f a1 fs = Some (rc, a')"
  using consume_ConsD [OF assms] by auto

lemma consume_last:
  assumes "consume f a (es @ [e]) = Some (rc, a')"
  obtains rc1 a1 where "consume f a es = Some (rc1, a1)" "rc1 \<noteq> BB_OK \<Longrightarrow> rc = rc1 \<and> a' = a1" "rc1 = BB_OK \<Longrightarrow> f a1 e = Some (rc, a')"
  using consume_split [OF assms, unfolded consume_one] by metis

lemma suffix_later: "suffix (x @ y) buf \<Longrightarrow> suffix y buf"
  by (auto simp: suffix_def)

lemma blanks_skipped: "token_phase (sc_phase s) \<Longrightarrow> blanks w \<Longrightarrow> drive sk len s (w @ r) = drive sk len s r"
  by (simp add: drive_token skip_ws_def blanks_def dropWhile_append2)

lemma separator:
  assumes "sc_phase t = PH_ARR_AFTER_VALUE \<and> ph = PH_ARR_ELEM_ONLY \<or> sc_phase t = PH_OBJ_AFTER_VALUE \<and> ph = PH_OBJ_KEY_ONLY"
    and "blanks w"
  shows "drive sk len t ((w @ '','') @ r) = drive sk len (t\<lparr>sc_phase := ph\<rparr>) r"
proof -
  have "token_phase (sc_phase t)" using assms(1) by (auto simp: token_phase_def)
  moreover have "token_step sk t (CHR '','') = (BB_OK, t\<lparr>sc_phase := ph\<rparr>)" using assms(1) by (elim disjE conjE) (simp_all add: object_token)
  ultimately show ?thesis using token_at [of t w "CHR '',''" sk len r] assms(2) by (simp add: is_ws_json_def)
qed

lemma kept_phase: "kept s t \<Longrightarrow> kept s (t\<lparr>sc_phase := ph\<rparr>)"
  by (simp add: kept_def mem_ok_def)

lemma in_phase: "in_array (s\<lparr>sc_phase := ph\<rparr>) = in_array s" "in_object (s\<lparr>sc_phase := ph\<rparr>) = in_object s"
  by (simp_all add: in_array_def in_object_def)

lemma after_value_in: "in_array s \<Longrightarrow> after_value_phase s = PH_ARR_AFTER_VALUE" "in_object s \<Longrightarrow> after_value_phase s = PH_OBJ_AFTER_VALUE"
  by (simp_all add: after_value_phase_def in_array_def in_object_def)

lemma key_of_size [simp]: "key_size (key_of k) = length k"
  by (simp add: key_size_def key_of_def)

text \<open>A key and its colon.\<close>

lemma key_read:
  fixes s :: "'k scan_state_t"
  assumes ph: "sc_phase s = PH_OBJ_KEY_OR_CLOSE \<or> sc_phase s = PH_OBJ_KEY_ONLY" and m: "mem_ok s" and w: "blanks w1" "blanks w2"
    and st: "string_text b v" and len: "length v \<le> BB_SERIALIZE_JSON_SCRATCH_MAX_BYTES"
    and suf: "suffix (w1 @ CHR 0x22 # b @ CHR 0x22 # w2 @ CHR '':'' # rest) buf"
  shows "\<exists>t. drive sk (length buf) s (w1 @ CHR 0x22 # b @ CHR 0x22 # w2 @ CHR '':'' # rest) = drive sk (length buf) t rest \<and>
    awaiting t (key_of v) \<and> kept s t \<and> sc_ctx t = sc_ctx s"
proof -
  let ?s1 = "begin_key s" and ?r = "w2 @ CHR '':'' # rest"
  obtain zs where zs: "buf = zs @ w1 @ CHR 0x22 # b @ CHR 0x22 # ?r" using suf by (auto simp: suffix_def)
  have "suffix (b @ CHR 0x22 # ?r) buf" unfolding zs by (simp add: suffix_def)
  moreover have "span_start buf (CHR 0x22 # ?r)" if "b = []" using zs that by (auto simp: span_start_def intro: exI [of _ "zs @ w1"])
  ultimately obtain sps where sps: "span_list (sc_bounded_mode s) buf sps v"
    and out: "\<forall>(sk :: 'k bb_serialize_json_ingest_t) t is_key. sc_esc_phase t = ESC_NONE \<longrightarrow> sc_bounded_mode t = sc_bounded_mode s \<longrightarrow>
      literal_outcome (give (emit_span sk is_key) t sps) ?r (scan_string sk (length buf) is_key t (b @ CHR 0x22 # ?r))"
    using string_scan [OF st] by blast
  have "concat (map span_bytes sps) = v" using sps by (simp add: span_list_def)
  then have "give (emit_span sk True) ?s1 sps = (BB_OK, ?s1\<lparr>sc_scratch := v\<rparr>)"
    using emit_key_spans [of ?s1 sps sk] len by (simp add: begin_key_def)
  moreover have "sc_esc_phase ?s1 = ESC_NONE" "sc_bounded_mode ?s1 = sc_bounded_mode s" by (simp_all add: begin_key_def)
  ultimately have "literal_outcome (BB_OK, ?s1\<lparr>sc_scratch := v\<rparr>) ?r (scan_string sk (length buf) True ?s1 (b @ CHR 0x22 # ?r))"
    using out by metis
  then obtain t where t: "scan_string sk (length buf) True ?s1 (b @ CHR 0x22 # ?r) = (BB_OK, t, ?r, True)" "esc_eq (?s1\<lparr>sc_scratch := v\<rparr>) t"
    by (auto simp: literal_outcome_def split: prod.splits)
  let ?u = "t\<lparr>sc_key_len := length v, sc_phase := PH_OBJ_COLON\<rparr>"
  let ?v = "?u\<lparr>sc_phase := PH_OBJ_VALUE\<rparr>"
  have f: "sc_ctx t = sc_ctx s" "sc_depth t = sc_depth s" "sc_obj_stack t = sc_obj_stack s" "sc_bounded_mode t = sc_bounded_mode s"
    "sc_err t = sc_err s" "sc_scratch t = v"
    using esc_eq_fields [OF t(2)] by (simp_all add: begin_key_def)
  have q: "token_phase (sc_phase s) \<and> token_step sk s (CHR 0x22) = (BB_OK, ?s1)" using ph by (auto simp: object_token token_phase_def)
  have ph1: "sc_phase ?s1 = PH_KEY_STR" by (simp add: begin_key_def)
  obtain d ds where ds: "b @ CHR 0x22 # ?r = d # ds" by (cases "b @ CHR 0x22 # ?r") auto
  have "drive sk (length buf) s (w1 @ CHR 0x22 # b @ CHR 0x22 # ?r) = drive sk (length buf) ?s1 (b @ CHR 0x22 # ?r)"
    using token_at [of s w1 "CHR 0x22" sk "length buf"] q w(1) by (simp add: is_ws_json_def)
  also have "\<dots> = drive sk (length buf) ?u ?r"
    using t(1) f(6) ph1 unfolding ds by (simp add: drive.simps [of sk "length buf" ?s1 "d # ds"] drive_body_def)
  also have "\<dots> = drive sk (length buf) ?v rest"
    using token_at [of ?u w2 "CHR '':''" sk "length buf" rest] w(2) object_token(3) [of ?u sk "CHR '':''"] by (simp add: is_ws_json_def token_phase_def)
  finally have "drive sk (length buf) s (w1 @ CHR 0x22 # b @ CHR 0x22 # ?r) = drive sk (length buf) ?v rest" .
  moreover have "awaiting ?v (key_of v)" "kept s ?v"
    using m f len by (simp_all add: awaiting_def kept_def mem_ok_def cur_key_def key_of_def)
  ultimately show ?thesis using f(1) by (intro exI [of _ ?v]) simp
qed


lemma zero_awaits: "awaiting (scan_zero k b) None"
  by (simp add: awaiting_def scan_zero_def mem_ok_def)

lemma zero_finished:
  assumes "finished (scan_zero k b) s'"
  shows "sc_err s' = BB_OK" "sc_phase s' = PH_AFTER_ROOT"
  using assms by (simp_all add: finished_def kept_def after_value_phase_def scan_zero_def)

section \<open>Values, elements, members\<close>

context event_sink
begin

lemma reads_seq:
  assumes "reads s x (y @ rest) rc1 a1 Q" and "rc1 \<noteq> BB_OK \<Longrightarrow> rc = rc1 \<and> a' = a1"
    and "\<And>t. rc1 = BB_OK \<Longrightarrow> Q t \<Longrightarrow> R (sc_ctx t) a1 \<Longrightarrow> reads t y rest rc a' Q2"
  shows "reads s (x @ y) rest rc a' Q2"
proof -
  obtain t where t: "drive sk (length buf) s (x @ y @ rest) = and_then (rc1, t) (\<lambda>s'. drive sk (length buf) s' (y @ rest))"
    "R (sc_ctx t) a1" "rc1 = BB_OK \<longrightarrow> Q t" using assms(1) unfolding reads_def by blast
  show ?thesis
  proof (cases "rc1 = BB_OK")
    case False
    then show ?thesis using t assms(2) by (auto simp: reads_def)
  next
    case True
    then have "reads t y rest rc a' Q2" using assms(3) t by blast
    then show ?thesis using t(1) True unfolding reads_def by simp
  qed
qed

lemma reads_before:
  "drive sk (length buf) s (x @ y @ rest) = drive sk (length buf) t (y @ rest) \<Longrightarrow> reads t y rest rc a' Q \<Longrightarrow> reads s (x @ y) rest rc a' Q"
  by (simp add: reads_def)

lemma reads_blanks:
  assumes "reads s x (w @ rest) rc a' Q" and "blanks w" and "\<And>t. Q t \<Longrightarrow> token_phase (sc_phase t)"
  shows "reads s (x @ w) rest rc a' Q"
proof -
  obtain t where t: "drive sk (length buf) s (x @ w @ rest) = and_then (rc, t) (\<lambda>s'. drive sk (length buf) s' (w @ rest))"
    "R (sc_ctx t) a'" "rc = BB_OK \<longrightarrow> Q t" using assms(1) unfolding reads_def by blast
  have "and_then (rc, t) (\<lambda>s'. drive sk (length buf) s' (w @ rest)) = and_then (rc, t) (\<lambda>s'. drive sk (length buf) s' rest)"
    using t(3) blanks_skipped [OF assms(3,2)] by (simp add: and_then_if)
  then show ?thesis using t by (auto simp: reads_def)
qed

lemma reads_mono: "reads s x rest rc a' Q \<Longrightarrow> (\<And>t. Q t \<Longrightarrow> Q' t) \<Longrightarrow> reads s x rest rc a' Q'"
  unfolding reads_def by blast

text \<open>What a text that stands for a value must do, after any blanks; a number ends at the byte after it.\<close>

definition value_reads :: "json \<Rightarrow> string \<Rightarrow> bool" where
  "value_reads t x \<longleftrightarrow>
     (\<forall>s key w rest a rc a'. awaiting s key \<longrightarrow> blanks w \<longrightarrow> sc_bounded_mode s = bd \<longrightarrow> suffix (w @ x @ rest) buf \<longrightarrow>
        rest \<noteq> [] \<and> delimiter (hd rest) \<or> \<not> (\<exists>n. t = JNum n) \<longrightarrow>
        fits (sc_depth s) (key_size key) t \<longrightarrow> R (sc_ctx s) a \<longrightarrow> consume astep a (events key t) = Some (rc, a') \<longrightarrow>
        reads s (w @ x) rest rc a' (finished s))"

definition inside :: "'k scan_state_t \<Rightarrow> phase_t \<Rightarrow> 'k scan_state_t \<Rightarrow> bool" where
  "inside s ph t \<longleftrightarrow> kept s t \<and> sc_phase t = ph"

definition elements_read :: "json list \<Rightarrow> string \<Rightarrow> bool" where
  "elements_read ts x \<longleftrightarrow>
     (\<forall>s rest a rc a'. mem_ok s \<longrightarrow> in_array s \<longrightarrow> sc_phase s \<in> {PH_ARR_ELEM_OR_CLOSE, PH_ARR_ELEM_ONLY} \<longrightarrow>
        sc_bounded_mode s = bd \<longrightarrow> suffix (x @ CHR '']'' # rest) buf \<longrightarrow> (\<forall>t \<in> set ts. fits (sc_depth s) 0 t) \<longrightarrow>
        R (sc_ctx s) a \<longrightarrow> consume astep a (concat (map (events None) ts)) = Some (rc, a') \<longrightarrow>
        reads s x (CHR '']'' # rest) rc a' (inside s PH_ARR_AFTER_VALUE))"

definition members_read :: "(string \<times> json) list \<Rightarrow> string \<Rightarrow> bool" where
  "members_read ms x \<longleftrightarrow>
     (\<forall>s rest a rc a'. mem_ok s \<longrightarrow> in_object s \<longrightarrow> sc_phase s \<in> {PH_OBJ_KEY_OR_CLOSE, PH_OBJ_KEY_ONLY} \<longrightarrow>
        sc_bounded_mode s = bd \<longrightarrow> suffix (x @ CHR ''}'' # rest) buf \<longrightarrow>
        (\<forall>(k, t) \<in> set ms. length k \<le> BB_SERIALIZE_JSON_SCRATCH_MAX_BYTES \<and> fits (sc_depth s) (length k) t) \<longrightarrow>
        R (sc_ctx s) a \<longrightarrow> consume astep a (concat (map (\<lambda>(k, t). events (key_of k) t) ms)) = Some (rc, a') \<longrightarrow>
        reads s x (CHR ''}'' # rest) rc a' (inside s PH_OBJ_AFTER_VALUE))"

text \<open>The scalars.\<close>

lemma string_reads: "string_text b v \<Longrightarrow> value_reads (JStr v) (CHR 0x22 # b @ [CHR 0x22])"
  unfolding value_reads_def using string_value by (simp add: consume_one del: consume.simps)

lemma number_reads: "json_number n \<Longrightarrow> value_reads (JNum n) n"
  unfolding value_reads_def using number_value by (simp add: consume_one del: consume.simps)

lemma word_reads: "value_reads (JBool True) ''true''" "value_reads (JBool False) ''false''" "value_reads JNull ''null''"
  unfolding value_reads_def
  using literal_value [where lk = LIT_TRUE] literal_value [where lk = LIT_FALSE] literal_value [where lk = LIT_NULL]
  by (simp_all add: lit_event_def consume_one del: consume.simps)

text \<open>A container round its contents. Empty contents are blanks.\<close>

lemma container_reads:
  assumes aw: "awaiting s key" and w: "blanks w" and d: "sc_depth s < BB_SERIALIZE_MAX_DEPTH" and r: "R (sc_ctx s) a"
    and c: "opn = CHR ''{'' \<and> cls = CHR ''}'' \<and> e = Ev_begin_obj key \<and> e' = Ev_end_obj \<and> ph = PH_OBJ_KEY_OR_CLOSE \<and> ph' = PH_OBJ_AFTER_VALUE \<and> \<not> arr \<or>
      opn = CHR ''['' \<and> cls = CHR '']'' \<and> e = Ev_begin_arr key \<and> e' = Ev_end_arr \<and> ph = PH_ARR_ELEM_OR_CLOSE \<and> ph' = PH_ARR_AFTER_VALUE \<and> arr"
    and con: "consume astep a (e # es @ [e']) = Some (rc, a')"
    and body: "\<And>t b rc1 a1. open_state arr ph s t \<Longrightarrow> R (sc_ctx t) b \<Longrightarrow> consume astep b es = Some (rc1, a1) \<Longrightarrow>
      reads t y (cls # rest) rc1 a1 (\<lambda>u. kept t u \<and> sc_phase u \<in> {ph, ph'})"
  shows "reads s (w @ opn # y @ [cls]) rest rc a' (finished s)"
proof -
  obtain rc1 a1 where e1: "astep a e = Some (rc1, a1)" "rc1 \<noteq> BB_OK \<Longrightarrow> rc = rc1 \<and> a' = a1"
    and c1: "rc1 = BB_OK \<Longrightarrow> consume astep a1 (es @ [e']) = Some (rc, a')"
    using consume_first [OF con] by metis
  have "reads s ((w @ [opn]) @ y @ [cls]) rest rc a' (finished s)"
  proof (rule reads_seq [OF _ e1(2)])
    show "reads s (w @ [opn]) ((y @ [cls]) @ rest) rc1 a1 (open_state arr ph s)"
      by (rule opens [OF aw w d r _ e1(1)]) (use c in blast)
    fix t assume ok: "rc1 = BB_OK" and t: "open_state arr ph s t" "R (sc_ctx t) a1"
    obtain rc2 a2 where b2: "consume astep a1 es = Some (rc2, a2)" "rc2 \<noteq> BB_OK \<Longrightarrow> rc = rc2 \<and> a' = a2"
      and c2: "rc2 = BB_OK \<Longrightarrow> astep a2 e' = Some (rc, a')"
      using consume_last [OF c1 [OF ok]] by metis
    show "reads t (y @ [cls]) rest rc a' (finished s)"
    proof (rule reads_seq [OF _ b2(2)])
      show "reads t y ([cls] @ rest) rc2 a2 (\<lambda>u. kept t u \<and> sc_phase u \<in> {ph, ph'})" using body [OF t b2(1)] by simp
      fix u assume ok2: "rc2 = BB_OK" and u: "kept t u \<and> sc_phase u \<in> {ph, ph'}" "R (sc_ctx u) a2"
      have in_t: "if arr then in_array t else in_object t" using t(1) by (auto simp: open_state_def in_array_def in_object_def)
      then have in_u: "if arr then in_array u else in_object u" using in_kept u(1) by metis
      have m: "mem_ok u" using u(1) by (simp add: kept_def)
      have "reads u ([] @ [cls]) rest rc a' (\<lambda>v. mem_ok v \<and> sc_depth v = sc_depth u - 1 \<and> sc_obj_stack v = sc_obj_stack u \<and>
          sc_bounded_mode v = sc_bounded_mode u \<and> sc_err v = sc_err u \<and> sc_phase v = after_value_phase v)"
        by (rule closes [OF m _ u(2) _ c2 [OF ok2]]) (use c u(1) in_u in \<open>auto simp: blanks_def\<close>)
      then show "reads u [cls] rest rc a' (finished s)"
      proof (simp only: append_Nil, elim reads_mono)
        fix v :: "'k scan_state_t" assume v: "mem_ok v \<and> sc_depth v = sc_depth u - 1 \<and> sc_obj_stack v = sc_obj_stack u \<and>
          sc_bounded_mode v = sc_bounded_mode u \<and> sc_err v = sc_err u \<and> sc_phase v = after_value_phase v"
        have "take (sc_depth s) (take (sc_depth s + 1) (sc_obj_stack u)) = take (sc_depth s) (take (sc_depth s + 1) (sc_obj_stack t))"
          using u(1) t(1) by (simp add: kept_def open_state_def)
        then have "take (sc_depth s) (sc_obj_stack u) = take (sc_depth s) (sc_obj_stack t)" by (simp add: min_def)
        then have "kept s v" using v u(1) t(1) by (simp add: kept_def open_state_def)
        then show "finished s v" using v after_value_kept by (simp add: finished_def)
      qed
    qed
  qed
  then show ?thesis by simp
qed

lemma empty_body:
  assumes "consume astep b [] = Some (rc1, a1)" and "R (sc_ctx t) b" and "blanks y" and "mem_ok t" and "token_phase (sc_phase t)"
  shows "reads t y rest rc1 a1 (\<lambda>u. kept t u \<and> sc_phase u = sc_phase t)"
proof -
  have "drive sk (length buf) t (y @ rest) = and_then (BB_OK, t) (\<lambda>s'. drive sk (length buf) s' rest)"
    using blanks_skipped [OF assms(5,3)] by simp
  moreover have "kept t t" using assms(4) by (simp add: kept_def)
  ultimately show ?thesis using assms(1,2) unfolding reads_def by auto
qed

lemma array_reads:
  assumes "elements_read ts x"
  shows "value_reads (JArr ts) (CHR ''['' # x @ '']'')"
  unfolding value_reads_def
proof (intro allI impI)
  fix s key w rest a rc a'
  assume aw: "awaiting s key" and w: "blanks w" and md: "sc_bounded_mode s = bd"
    and suf: "suffix (w @ (CHR ''['' # x @ '']'') @ rest) buf" and fit: "fits (sc_depth s) (key_size key) (JArr ts)"
    and r: "R (sc_ctx s) a" and con: "consume astep a (events key (JArr ts)) = Some (rc, a')"
  have suf': "suffix (x @ CHR '']'' # rest) buf" using suffix_later [of "w @ ''[''" "x @ CHR '']'' # rest"] suf by simp
  show "reads s (w @ CHR ''['' # x @ '']'') rest rc a' (finished s)"
  proof (rule container_reads [OF aw w _ r, where arr = True and ph = PH_ARR_ELEM_OR_CLOSE and ph' = PH_ARR_AFTER_VALUE])
    show "sc_depth s < BB_SERIALIZE_MAX_DEPTH" using fit by simp
    show "consume astep a (Ev_begin_arr key # concat (map (events None) ts) @ [Ev_end_arr]) = Some (rc, a')" using con by simp
    fix t b rc1 a1
    assume t: "open_state True PH_ARR_ELEM_OR_CLOSE s t" "R (sc_ctx t) b" "consume astep b (concat (map (events None) ts)) = Some (rc1, a1)"
    have "mem_ok t" "in_array t" "sc_phase t = PH_ARR_ELEM_OR_CLOSE" "sc_bounded_mode t = bd" "sc_depth t = sc_depth s + 1"
      using t(1) md by (simp_all add: open_state_def in_array_def)
    then have "reads t x (CHR '']'' # rest) rc1 a1 (inside t PH_ARR_AFTER_VALUE)"
      using assms [unfolded elements_read_def, rule_format, of t rest b rc1 a1] suf' fit t(2,3) by simp
    then show "reads t x (CHR '']'' # rest) rc1 a1 (\<lambda>u. kept t u \<and> sc_phase u \<in> {PH_ARR_ELEM_OR_CLOSE, PH_ARR_AFTER_VALUE})"
      by (rule reads_mono) (simp add: inside_def)
  qed simp
qed

lemma object_reads:
  assumes "members_read ms x"
  shows "value_reads (JObj ms) (CHR ''{'' # x @ ''}'')"
  unfolding value_reads_def
proof (intro allI impI)
  fix s key w rest a rc a'
  assume aw: "awaiting s key" and w: "blanks w" and md: "sc_bounded_mode s = bd"
    and suf: "suffix (w @ (CHR ''{'' # x @ ''}'') @ rest) buf" and fit: "fits (sc_depth s) (key_size key) (JObj ms)"
    and r: "R (sc_ctx s) a" and con: "consume astep a (events key (JObj ms)) = Some (rc, a')"
  have suf': "suffix (x @ CHR ''}'' # rest) buf" using suffix_later [of "w @ ''{''" "x @ CHR ''}'' # rest"] suf by simp
  show "reads s (w @ CHR ''{'' # x @ ''}'') rest rc a' (finished s)"
  proof (rule container_reads [OF aw w _ r, where arr = False and ph = PH_OBJ_KEY_OR_CLOSE and ph' = PH_OBJ_AFTER_VALUE])
    show "sc_depth s < BB_SERIALIZE_MAX_DEPTH" using fit by simp
    show "consume astep a (Ev_begin_obj key # concat (map (\<lambda>(k, t). events (key_of k) t) ms) @ [Ev_end_obj]) = Some (rc, a')" using con by simp
    fix t b rc1 a1
    assume t: "open_state False PH_OBJ_KEY_OR_CLOSE s t" "R (sc_ctx t) b"
      "consume astep b (concat (map (\<lambda>(k, t). events (key_of k) t) ms)) = Some (rc1, a1)"
    have "mem_ok t" "in_object t" "sc_phase t = PH_OBJ_KEY_OR_CLOSE" "sc_bounded_mode t = bd" "sc_depth t = sc_depth s + 1"
      using t(1) md by (simp_all add: open_state_def in_object_def)
    then have "reads t x (CHR ''}'' # rest) rc1 a1 (inside t PH_OBJ_AFTER_VALUE)"
      using assms [unfolded members_read_def, rule_format, of t rest b rc1 a1] suf' fit t(2,3) by simp
    then show "reads t x (CHR ''}'' # rest) rc1 a1 (\<lambda>u. kept t u \<and> sc_phase u \<in> {PH_OBJ_KEY_OR_CLOSE, PH_OBJ_AFTER_VALUE})"
      by (rule reads_mono) (simp add: inside_def)
  qed simp
qed

lemma empty_array_reads: "blanks x \<Longrightarrow> value_reads (JArr []) (CHR ''['' # x @ '']'')"
  unfolding value_reads_def
proof (intro allI impI)
  fix s key w rest a rc a'
  assume x: "blanks x" and aw: "awaiting s key" and w: "blanks w" and fit: "fits (sc_depth s) (key_size key) (JArr [])"
    and r: "R (sc_ctx s) a" and con: "consume astep a (events key (JArr [])) = Some (rc, a')"
  show "reads s (w @ CHR ''['' # x @ '']'') rest rc a' (finished s)"
  proof (rule container_reads [OF aw w _ r, where arr = True and ph = PH_ARR_ELEM_OR_CLOSE and ph' = PH_ARR_AFTER_VALUE])
    show "sc_depth s < BB_SERIALIZE_MAX_DEPTH" using fit by simp
    show "consume astep a (Ev_begin_arr key # [] @ [Ev_end_arr]) = Some (rc, a')" using con by simp
    fix t b rc1 a1
    assume t: "open_state True PH_ARR_ELEM_OR_CLOSE s t" "R (sc_ctx t) b" "consume astep b [] = Some (rc1, a1)"
    show "reads t x (CHR '']'' # rest) rc1 a1 (\<lambda>u. kept t u \<and> sc_phase u \<in> {PH_ARR_ELEM_OR_CLOSE, PH_ARR_AFTER_VALUE})"
      by (rule reads_mono [OF empty_body [OF t(3,2) x]]) (use t(1) in \<open>simp_all add: open_state_def token_phase_def\<close>)
  qed simp
qed

lemma empty_object_reads: "blanks x \<Longrightarrow> value_reads (JObj []) (CHR ''{'' # x @ ''}'')"
  unfolding value_reads_def
proof (intro allI impI)
  fix s key w rest a rc a'
  assume x: "blanks x" and aw: "awaiting s key" and w: "blanks w" and fit: "fits (sc_depth s) (key_size key) (JObj [])"
    and r: "R (sc_ctx s) a" and con: "consume astep a (events key (JObj [])) = Some (rc, a')"
  show "reads s (w @ CHR ''{'' # x @ ''}'') rest rc a' (finished s)"
  proof (rule container_reads [OF aw w _ r, where arr = False and ph = PH_OBJ_KEY_OR_CLOSE and ph' = PH_OBJ_AFTER_VALUE])
    show "sc_depth s < BB_SERIALIZE_MAX_DEPTH" using fit by simp
    show "consume astep a (Ev_begin_obj key # [] @ [Ev_end_obj]) = Some (rc, a')" using con by simp
    fix t b rc1 a1
    assume t: "open_state False PH_OBJ_KEY_OR_CLOSE s t" "R (sc_ctx t) b" "consume astep b [] = Some (rc1, a1)"
    show "reads t x (CHR ''}'' # rest) rc1 a1 (\<lambda>u. kept t u \<and> sc_phase u \<in> {PH_OBJ_KEY_OR_CLOSE, PH_OBJ_AFTER_VALUE})"
      by (rule reads_mono [OF empty_body [OF t(3,2) x]]) (use t(1) in \<open>simp_all add: open_state_def token_phase_def\<close>)
  qed simp
qed

text \<open>A value with blanks on both sides, up to what ends it.\<close>

lemma value_then_blanks:
  assumes v: "value_reads t x" and aw: "awaiting s key" and w: "blanks w1" "blanks w2" and md: "sc_bounded_mode s = bd"
    and suf: "suffix (w1 @ x @ w2 @ c # rest) buf" and c: "delimiter c" and fit: "fits (sc_depth s) (key_size key) t"
    and r: "R (sc_ctx s) a" and con: "consume astep a (events key t) = Some (rc, a')"
  shows "reads s (w1 @ x @ w2) (c # rest) rc a' (finished s)"
proof -
  have "delimiter (hd (w2 @ c # rest))" using w(2) c by (cases w2) (auto simp: blanks_def delimiter_def)
  then have "reads s (w1 @ x) (w2 @ c # rest) rc a' (finished s)"
    using v [unfolded value_reads_def, rule_format, of s key w1 "w2 @ c # rest" a rc a'] aw w(1) md suf fit r con by simp
  then have "reads s ((w1 @ x) @ w2) (c # rest) rc a' (finished s)"
    by (rule reads_blanks [OF _ w(2)]) (simp add: finished_def after_value_phase_def token_phase_def)
  then show ?thesis by simp
qed

lemma finished_inside: "finished s u \<Longrightarrow> in_array s \<Longrightarrow> inside s PH_ARR_AFTER_VALUE u" "finished s u \<Longrightarrow> in_object s \<Longrightarrow> inside s PH_OBJ_AFTER_VALUE u"
  by (simp_all add: finished_def inside_def after_value_in)

lemma inside_trans: "kept s t \<Longrightarrow> inside t ph u \<Longrightarrow> inside s ph u"
  using kept_trans by (auto simp: inside_def)

lemma awaiting_element: "mem_ok s \<Longrightarrow> sc_phase s \<in> {PH_ARR_ELEM_OR_CLOSE, PH_ARR_ELEM_ONLY} \<Longrightarrow> awaiting s None"
  by (auto simp: awaiting_def)

lemma last_element:
  assumes w: "blanks w1" "blanks w2" and v: "value_reads t x"
  shows "elements_read [t] (w1 @ x @ w2)"
  unfolding elements_read_def
proof (intro allI impI)
  fix s rest a rc a'
  assume s: "mem_ok s" "in_array s" "sc_phase s \<in> {PH_ARR_ELEM_OR_CLOSE, PH_ARR_ELEM_ONLY}" "sc_bounded_mode s = bd"
    and suf: "suffix ((w1 @ x @ w2) @ CHR '']'' # rest) buf" and fit: "\<forall>t \<in> set [t]. fits (sc_depth s) 0 t"
    and r: "R (sc_ctx s) a" "consume astep a (concat (map (events None) [t])) = Some (rc, a')"
  have "reads s (w1 @ x @ w2) (CHR '']'' # rest) rc a' (finished s)"
    using value_then_blanks [OF v awaiting_element [OF s(1,3)] w s(4) _ _ _ r(1)] suf fit r(2)
    by (simp add: delimiter_def key_size_def)
  then show "reads s (w1 @ x @ w2) (CHR '']'' # rest) rc a' (inside s PH_ARR_AFTER_VALUE)"
    by (rule reads_mono) (rule finished_inside(1) [OF _ s(2)])
qed

lemma more_elements:
  assumes w: "blanks w1" "blanks w2" and v: "value_reads t x" and more: "elements_read ts y"
  shows "elements_read (t # ts) (w1 @ x @ w2 @ CHR '','' # y)"
  unfolding elements_read_def
proof (intro allI impI)
  fix s rest a rc a'
  assume s: "mem_ok s" "in_array s" "sc_phase s \<in> {PH_ARR_ELEM_OR_CLOSE, PH_ARR_ELEM_ONLY}" "sc_bounded_mode s = bd"
    and suf: "suffix ((w1 @ x @ w2 @ CHR '','' # y) @ CHR '']'' # rest) buf" and fit: "\<forall>t \<in> set (t # ts). fits (sc_depth s) 0 t"
    and r: "R (sc_ctx s) a" and con: "consume astep a (concat (map (events None) (t # ts))) = Some (rc, a')"
  let ?rest = "y @ CHR '']'' # rest"
  obtain rc1 a1 where c1: "consume astep a (events None t) = Some (rc1, a1)" "rc1 \<noteq> BB_OK \<Longrightarrow> rc = rc1 \<and> a' = a1"
    "rc1 = BB_OK \<Longrightarrow> consume astep a1 (concat (map (events None) ts)) = Some (rc, a')"
    using con by (simp only: list.map concat.simps) (erule consume_split, blast)
  have "reads s ((w1 @ x @ w2) @ (CHR '','' # y)) (CHR '']'' # rest) rc a' (inside s PH_ARR_AFTER_VALUE)"
  proof (rule reads_seq [OF _ c1(2)])
    show "reads s (w1 @ x @ w2) ((CHR '','' # y) @ CHR '']'' # rest) rc1 a1 (finished s)"
      using value_then_blanks [OF v awaiting_element [OF s(1,3)] w s(4) _ _ _ r c1(1), of "CHR '',''" ?rest] suf fit
      by (simp add: delimiter_def key_size_def)
    fix u assume ok: "rc1 = BB_OK" and u: "finished s u" "R (sc_ctx u) a1"
    let ?u = "u\<lparr>sc_phase := PH_ARR_ELEM_ONLY\<rparr>"
    have fu: "inside s PH_ARR_AFTER_VALUE u" by (rule finished_inside(1) [OF u(1) s(2)])
    then have k: "kept s ?u" by (simp add: inside_def kept_phase)
    have "suffix ?rest buf" using suffix_later [of "w1 @ x @ w2 @ '',''" ?rest] suf by simp
    then have "reads ?u y (CHR '']'' # rest) rc a' (inside ?u PH_ARR_AFTER_VALUE)"
      using more [unfolded elements_read_def, rule_format, of ?u rest a1 rc a'] fit u(2) c1(3) [OF ok] in_kept(2) [OF k] s(2,4) k
      by (simp add: kept_def)
    then have "reads ?u y (CHR '']'' # rest) rc a' (inside s PH_ARR_AFTER_VALUE)" by (rule reads_mono) (rule inside_trans [OF k])
    moreover have "drive sk (length buf) u ('','' @ ?rest) = drive sk (length buf) ?u ?rest"
      using separator [of u PH_ARR_ELEM_ONLY "[]" sk "length buf" ?rest] fu by (simp add: inside_def blanks_def)
    ultimately show "reads u (CHR '','' # y) (CHR '']'' # rest) rc a' (inside s PH_ARR_AFTER_VALUE)"
      using reads_before [of u "'',''" y "CHR '']'' # rest" ?u] by simp
  qed
  then show "reads s (w1 @ x @ w2 @ CHR '','' # y) (CHR '']'' # rest) rc a' (inside s PH_ARR_AFTER_VALUE)" by simp
qed

lemma member_read:
  assumes w: "blanks w1" "blanks w2" "blanks w3" "blanks w4" and st: "string_text b k" and v: "value_reads t x"
    and s: "mem_ok s" "in_object s" "sc_phase s \<in> {PH_OBJ_KEY_OR_CLOSE, PH_OBJ_KEY_ONLY}" "sc_bounded_mode s = bd"
    and suf: "suffix (w1 @ CHR 0x22 # b @ CHR 0x22 # w2 @ CHR '':'' # w3 @ x @ w4 @ c # rest) buf" and c: "delimiter c"
    and fit: "length k \<le> BB_SERIALIZE_JSON_SCRATCH_MAX_BYTES" "fits (sc_depth s) (length k) t"
    and r: "R (sc_ctx s) a" and con: "consume astep a (events (key_of k) t) = Some (rc, a')"
  shows "reads s (w1 @ CHR 0x22 # b @ CHR 0x22 # w2 @ CHR '':'' # w3 @ x @ w4) (c # rest) rc a' (inside s PH_OBJ_AFTER_VALUE)"
proof -
  have ph: "sc_phase s = PH_OBJ_KEY_OR_CLOSE \<or> sc_phase s = PH_OBJ_KEY_ONLY" using s(3) by simp
  obtain u where u: "drive sk (length buf) s (w1 @ CHR 0x22 # b @ CHR 0x22 # w2 @ CHR '':'' # w3 @ x @ w4 @ c # rest) =
      drive sk (length buf) u (w3 @ x @ w4 @ c # rest)" "awaiting u (key_of k)" "kept s u" "sc_ctx u = sc_ctx s"
    using key_read [OF ph s(1) w(1,2) st fit(1) suf] by blast
  have "suffix (w3 @ x @ w4 @ c # rest) buf"
    using suffix_later [of "w1 @ CHR 0x22 # b @ CHR 0x22 # w2 @ '':''"] suf by simp
  then have "reads u (w3 @ x @ w4) (c # rest) rc a' (finished u)"
    using value_then_blanks [OF v u(2) w(3,4) _ _ c _ _ con] u(3,4) s(4) fit(2) r by (simp add: kept_def)
  moreover have "inside s PH_OBJ_AFTER_VALUE v" if "finished u v" for v
    using inside_trans [OF u(3) finished_inside(2) [OF that]] in_kept(1) [OF u(3)] s(2) by simp
  ultimately have "reads u (w3 @ x @ w4) (c # rest) rc a' (inside s PH_OBJ_AFTER_VALUE)" by (rule reads_mono)
  then show ?thesis using u(1) by (simp add: reads_def)
qed

lemma last_member:
  assumes w: "blanks w1" "blanks w2" "blanks w3" "blanks w4" and st: "string_text b k" and v: "value_reads t x"
  shows "members_read [(k, t)] (w1 @ CHR 0x22 # b @ CHR 0x22 # w2 @ CHR '':'' # w3 @ x @ w4)"
  unfolding members_read_def
proof (intro allI impI)
  fix s rest a rc a'
  assume s: "mem_ok s" "in_object s" "sc_phase s \<in> {PH_OBJ_KEY_OR_CLOSE, PH_OBJ_KEY_ONLY}" "sc_bounded_mode s = bd"
    and suf: "suffix ((w1 @ CHR 0x22 # b @ CHR 0x22 # w2 @ CHR '':'' # w3 @ x @ w4) @ CHR ''}'' # rest) buf"
    and fit: "\<forall>(k, t) \<in> set [(k, t)]. length k \<le> BB_SERIALIZE_JSON_SCRATCH_MAX_BYTES \<and> fits (sc_depth s) (length k) t"
    and r: "R (sc_ctx s) a" "consume astep a (concat (map (\<lambda>(k, t). events (key_of k) t) [(k, t)])) = Some (rc, a')"
  show "reads s (w1 @ CHR 0x22 # b @ CHR 0x22 # w2 @ CHR '':'' # w3 @ x @ w4) (CHR ''}'' # rest) rc a' (inside s PH_OBJ_AFTER_VALUE)"
    by (rule member_read [OF w st v s _ _ _ _ r(1)]) (use suf fit r(2) in \<open>simp_all add: delimiter_def\<close>)
qed

lemma more_members:
  assumes w: "blanks w1" "blanks w2" "blanks w3" "blanks w4" and st: "string_text b k" and v: "value_reads t x"
    and more: "members_read ms y"
  shows "members_read ((k, t) # ms) (w1 @ CHR 0x22 # b @ CHR 0x22 # w2 @ CHR '':'' # w3 @ x @ w4 @ CHR '','' # y)"
  unfolding members_read_def
proof (intro allI impI)
  fix s rest a rc a'
  let ?m = "w1 @ CHR 0x22 # b @ CHR 0x22 # w2 @ CHR '':'' # w3 @ x @ w4" and ?rest = "y @ CHR ''}'' # rest"
  assume s: "mem_ok s" "in_object s" "sc_phase s \<in> {PH_OBJ_KEY_OR_CLOSE, PH_OBJ_KEY_ONLY}" "sc_bounded_mode s = bd"
    and suf: "suffix ((w1 @ CHR 0x22 # b @ CHR 0x22 # w2 @ CHR '':'' # w3 @ x @ w4 @ CHR '','' # y) @ CHR ''}'' # rest) buf"
    and fit: "\<forall>(k, t) \<in> set ((k, t) # ms). length k \<le> BB_SERIALIZE_JSON_SCRATCH_MAX_BYTES \<and> fits (sc_depth s) (length k) t"
    and r: "R (sc_ctx s) a" and con: "consume astep a (concat (map (\<lambda>(k, t). events (key_of k) t) ((k, t) # ms))) = Some (rc, a')"
  obtain rc1 a1 where c1: "consume astep a (events (key_of k) t) = Some (rc1, a1)" "rc1 \<noteq> BB_OK \<Longrightarrow> rc = rc1 \<and> a' = a1"
    "rc1 = BB_OK \<Longrightarrow> consume astep a1 (concat (map (\<lambda>(k, t). events (key_of k) t) ms)) = Some (rc, a')"
    using con by (simp only: list.map concat.simps prod.case) (erule consume_split, blast)
  have "reads s (?m @ (CHR '','' # y)) (CHR ''}'' # rest) rc a' (inside s PH_OBJ_AFTER_VALUE)"
  proof (rule reads_seq [OF _ c1(2)])
    show "reads s ?m ((CHR '','' # y) @ CHR ''}'' # rest) rc1 a1 (inside s PH_OBJ_AFTER_VALUE)"
      using member_read [OF w st v s _ _ _ _ r c1(1), of "CHR '',''" ?rest] suf fit by (simp add: delimiter_def)
    fix u assume ok: "rc1 = BB_OK" and u: "inside s PH_OBJ_AFTER_VALUE u" "R (sc_ctx u) a1"
    let ?u = "u\<lparr>sc_phase := PH_OBJ_KEY_ONLY\<rparr>"
    have k: "kept s ?u" using u(1) by (simp add: inside_def kept_phase)
    have "suffix ?rest buf" using suffix_later [of "?m @ '',''" ?rest] suf by simp
    then have "reads ?u y (CHR ''}'' # rest) rc a' (inside ?u PH_OBJ_AFTER_VALUE)"
      using more [unfolded members_read_def, rule_format, of ?u rest a1 rc a'] fit u(2) c1(3) [OF ok] in_kept(1) [OF k] s(2,4) k
      by (simp add: kept_def)
    then have "reads ?u y (CHR ''}'' # rest) rc a' (inside s PH_OBJ_AFTER_VALUE)" by (rule reads_mono) (rule inside_trans [OF k])
    moreover have "drive sk (length buf) u ('','' @ ?rest) = drive sk (length buf) ?u ?rest"
      using separator [of u PH_OBJ_KEY_ONLY "[]" sk "length buf" ?rest] u(1) by (simp add: inside_def blanks_def)
    ultimately show "reads u (CHR '','' # y) (CHR ''}'' # rest) rc a' (inside s PH_OBJ_AFTER_VALUE)"
      using reads_before [of u "'',''" y "CHR ''}'' # rest" ?u] by simp
  qed
  then show "reads s (w1 @ CHR 0x22 # b @ CHR 0x22 # w2 @ CHR '':'' # w3 @ x @ w4 @ CHR '','' # y) (CHR ''}'' # rest) rc a'
      (inside s PH_OBJ_AFTER_VALUE)" by simp
qed

lemma text_reads:
  "(renders t x \<longrightarrow> value_reads t x) \<and> (elements ts y \<longrightarrow> elements_read ts y) \<and> (members ms z \<longrightarrow> members_read ms z)"
  by (rule renders_elements_members.induct)
    (assumption | rule string_reads number_reads word_reads empty_array_reads array_reads empty_object_reads object_reads
      last_element more_elements last_member more_members)+

lemmas renders_reads = text_reads [THEN conjunct1, rule_format]

text \<open>A whole document.\<close>

lemma feed_end:
  assumes "drive sk (length buf) (scan_zero k True) buf = and_then (rc, s') (\<lambda>s. (BB_OK, s))" and "R (sc_ctx s') a'"
    and "rc = BB_OK \<Longrightarrow> sc_err s' = BB_OK \<and> sc_phase s' = PH_AFTER_ROOT"
  shows "\<exists>k'. bb_serialize_json_scan_bounded sk k buf = (rc, k') \<and> R k' a'"
  using assms
  by (cases "rc = BB_OK")
    (simp_all add: bb_serialize_json_scan_bounded_def scan_begin_internal_def bb_serialize_json_scan_feed_def
      bb_serialize_json_scan_end_def scan_zero_def)

lemma root_number:
  assumes w: "blanks w" and n: "json_number n" "length n \<le> BB_SERIALIZE_JSON_SCRATCH_MAX_BYTES" and buf: "buf = w @ n"
    and r: "R k a" and e: "astep a (Ev_num None n) = Some (rc, a')"
  shows "\<exists>k'. bb_serialize_json_scan_bounded sk k buf = (rc, k') \<and> R k' a'"
proof -
  let ?s = "scan_zero k True"
  obtain t where t: "drive sk (length buf) ?s (w @ n @ []) = drive sk (length buf) t []" "sc_phase t = PH_VAL_NUM"
    "num_phase_is_terminal (sc_num_phase t)" "cur_key t = None" "drop (sc_key_len t) (sc_scratch t) = n" "kept ?s t" "sc_ctx t = sc_ctx ?s"
    using number_scanned [OF zero_awaits w n(1), of k True "[]"] n(2) by (auto simp: key_size_def)
  have "mem_ok t" "sc_err t = BB_OK" "R (sc_ctx t) a" using t(6,7) r by (simp_all add: kept_def scan_zero_def)
  then obtain s' where s': "finalize_number sk t = (rc, s')" "R (sc_ctx s') a'" "rc = BB_OK \<longrightarrow> finished t s'"
    using number_finalized [OF t(4,5) _ _ e] by blast
  have "finished ?s s'" if "rc = BB_OK" using that s'(3) t(6) after_value_kept [OF t(6)] kept_trans by (auto simp: finished_def)
  then have ok: "sc_err s' = BB_OK \<and> sc_phase s' = PH_AFTER_ROOT" if "rc = BB_OK"
    using zero_finished(1) [of k True s'] zero_finished(2) [of k True s'] that by simp
  have "drive sk (length buf) ?s buf = (BB_OK, t)" using t(1) buf by (simp add: drive_nil)
  then have feed: "bb_serialize_json_scan_feed sk ?s buf = (BB_OK, t)"
    by (simp add: bb_serialize_json_scan_feed_def scan_zero_def)
  show ?thesis using s' ok \<open>sc_err t = BB_OK\<close> t(2,3)
    by (cases "rc = BB_OK") (simp_all add: bb_serialize_json_scan_bounded_def scan_begin_internal_def feed bb_serialize_json_scan_end_def)
qed

lemma document_read:
  assumes bd: "bd" and d: "document t buf" and fit: "fits 0 0 t" and r: "R k a" and con: "consume astep a (events None t) = Some (rc, a')"
  shows "\<exists>k'. bb_serialize_json_scan_bounded sk k buf = (rc, k') \<and> R k' a'"
proof -
  let ?s = "scan_zero k True"
  obtain w1 y w2 where b: "buf = w1 @ y @ w2" and w: "blanks w1" "blanks w2" and t: "renders t y" using d unfolding document_def by blast
  show ?thesis
  proof (cases "w2 = [] \<and> (\<exists>n. t = JNum n)")
    case True
    then obtain n where n: "t = JNum n" "y = n" "json_number n" using t by (auto elim: renders.cases)
    then show ?thesis using root_number [OF w(1) n(3)] fit b True r con by (simp add: consume_one del: consume.simps)
  next
    case False
    have ends: "w2 \<noteq> [] \<and> delimiter (hd w2) \<or> \<not> (\<exists>n. t = JNum n)"
      using False w(2) by (cases w2) (auto simp: blanks_def delimiter_def)
    have z: "sc_bounded_mode ?s = bd" "sc_depth ?s = 0" "sc_ctx ?s = k" "key_size None = 0"
      using bd by (simp_all add: scan_zero_def key_size_def)
    have "reads ?s (w1 @ y) w2 rc a' (finished ?s)"
      using renders_reads [OF t, unfolded value_reads_def, rule_format, OF zero_awaits w(1) z(1) _ ends] b fit r con z by simp
    then obtain s' where s': "drive sk (length buf) ?s buf = and_then (rc, s') (\<lambda>s. drive sk (length buf) s w2)" "R (sc_ctx s') a'"
      "rc = BB_OK \<longrightarrow> finished ?s s'" unfolding reads_def using b by (metis append.assoc)
    have "drive sk (length buf) s' w2 = (BB_OK, s')" if "rc = BB_OK"
      using blanks_skipped [of s' w2 sk "length buf" "[]"] w(2) zero_finished(2) [of k True s'] s'(3) that
      by (simp add: drive_nil token_phase_def)
    then have "drive sk (length buf) ?s buf = and_then (rc, s') (\<lambda>s. (BB_OK, s))" using s'(1) by (simp add: and_then_if)
    then show ?thesis by (rule feed_end [OF _ s'(2)]) (use s'(3) zero_finished(1) [of k True s'] zero_finished(2) [of k True s'] in simp)
  qed
qed

end

end
