(* ===== verification/BB_JSON_Tape.thy ===== *)
theory BB_JSON_Tape
  imports BB_JSON_Read BB_JSON_Tok
begin

text \<open>
  The token recorder as a sink that follows a consumer of events: an abstract tape of nodes, each with its parent, key
  and content. The recorder keeps the tape in its pool, the open containers on its stack, and the bytes of strings in
  the document or in the arena. The budget of arena bytes is that of all strings together; how much of it is used
  depends on the escapes in the text.
\<close>

section \<open>The tape\<close>

datatype payload = P_obj | P_arr | P_str string | P_num string | P_bool bool | P_null

type_synonym node = "nat option \<times> string \<times> payload"

record tape =
  tp_nodes :: "node list"
  tp_stack :: "nat list"
  tp_bytes :: nat

definition key_text :: "json_key \<Rightarrow> string" where
  "key_text key = (case key of None \<Rightarrow> [] | Some k \<Rightarrow> k)"

definition kid_count :: "node list \<Rightarrow> nat \<Rightarrow> nat" where
  "kid_count ns i = length (filter (\<lambda>n. fst n = Some i) ns)"

definition tape_top :: "tape \<Rightarrow> nat option" where
  "tape_top a = (case tp_stack a of [] \<Rightarrow> None | p # ps \<Rightarrow> Some p)"

definition tape_room :: "nat \<Rightarrow> tape \<Rightarrow> json_key \<Rightarrow> bool" where
  "tape_room cap a key \<longleftrightarrow> json_key_len key \<le> BB_SERIALIZE_JSON_TOK_KEY_MAX_LEN \<and> length (tp_nodes a) < cap \<and>
     (tp_stack a \<noteq> [] \<longrightarrow> kid_count (tp_nodes a) (hd (tp_stack a)) < 0xFFFF)"

definition tape_add :: "tape \<Rightarrow> json_key \<Rightarrow> payload \<Rightarrow> tape" where
  "tape_add a key pl = a\<lparr>tp_nodes := tp_nodes a @ [(tape_top a, key_text key, pl)]\<rparr>"

definition tape_open :: "nat \<Rightarrow> tape \<Rightarrow> json_key \<Rightarrow> payload \<Rightarrow> (bb_err_t \<times> tape) option" where
  "tape_open cap a key pl =
     (if length (tp_stack a) \<ge> BB_SERIALIZE_MAX_DEPTH \<or> \<not> tape_room cap a key then Some (BB_ERR_NO_SPACE, a)
      else Some (BB_OK, (tape_add a key pl)\<lparr>tp_stack := length (tp_nodes a) # tp_stack a\<rparr>))"

definition tape_close :: "tape \<Rightarrow> (bb_err_t \<times> tape) option" where
  "tape_close a = (if tp_stack a = [] then Some (BB_ERR_INVALID_STATE, a) else Some (BB_OK, a\<lparr>tp_stack := tl (tp_stack a)\<rparr>))"

definition tape_leaf :: "nat \<Rightarrow> tape \<Rightarrow> json_key \<Rightarrow> payload \<Rightarrow> (bb_err_t \<times> tape) option" where
  "tape_leaf cap a key pl = (if \<not> tape_room cap a key then Some (BB_ERR_NO_SPACE, a) else Some (BB_OK, tape_add a key pl))"

fun tape_step :: "nat \<Rightarrow> nat \<Rightarrow> tape \<Rightarrow> event \<Rightarrow> (bb_err_t \<times> tape) option" where
  "tape_step cap acap a (Ev_begin_obj key) = tape_open cap a key P_obj"
| "tape_step cap acap a (Ev_begin_arr key) = tape_open cap a key P_arr"
| "tape_step cap acap a Ev_end_obj = tape_close a"
| "tape_step cap acap a Ev_end_arr = tape_close a"
| "tape_step cap acap a (Ev_num key n) = (if length n \<le> BB_SERIALIZE_JSON_SCRATCH_MAX_BYTES then tape_leaf cap a key (P_num n) else None)"
| "tape_step cap acap a (Ev_bool key b) = tape_leaf cap a key (P_bool b)"
| "tape_step cap acap a (Ev_null key) = tape_leaf cap a key P_null"
| "tape_step cap acap a (Ev_str key s) =
     (if \<not> tape_room cap a key then Some (BB_ERR_NO_SPACE, a)
      else if tp_bytes a + length s > acap \<or> length s \<ge> 2 ^ 32 then None
      else Some (BB_OK, (tape_add a key (P_str s))\<lparr>tp_bytes := tp_bytes a + length s\<rparr>))"

section \<open>The recorder holds the tape\<close>

definition inexact :: "string \<Rightarrow> bool" where
  "inexact n \<longleftrightarrow> CHR ''.'' \<in> set n \<or> CHR ''e'' \<in> set n \<or> CHR ''E'' \<in> set n"

definition parent_idx :: "nat option \<Rightarrow> int" where
  "parent_idx p = (case p of None \<Rightarrow> BB_SERIALIZE_JSON_TOK_ABSENT | Some i \<Rightarrow> int i)"

definition ptr_ok :: "'f bb_serialize_json_tok_recorder_t \<Rightarrow> tok_ptr \<Rightarrow> nat \<Rightarrow> bool" where
  "ptr_ok r p n \<longleftrightarrow> (case p of Ptr_arena i \<Rightarrow> i + n \<le> rc_arena_used r | Ptr_buf i \<Rightarrow> i + n \<le> length (rc_buf r) | _ \<Rightarrow> False)"

definition payload_rel ::
  "(string \<Rightarrow> 'f) \<Rightarrow> 'f bb_serialize_json_tok_recorder_t \<Rightarrow> payload \<Rightarrow> 'f bb_serialize_json_tok_t \<Rightarrow> bool"
where
  "payload_rel strtod r pl t \<longleftrightarrow>
     (case pl of
        P_obj \<Rightarrow> tk_type t = TOK_OBJ
      | P_arr \<Rightarrow> tk_type t = TOK_ARR
      | P_str s \<Rightarrow> tk_type t = TOK_STR \<and>
          (\<exists>p n. tk_v t = V_str p n \<and> unat n = length s \<and> ptr_ok r p (length s) \<and> tok_bytes r p (length s) = s)
      | P_num s \<Rightarrow> tk_type t = TOK_NUM \<and> tk_v t = V_num (strtoll s) (strtod s) \<and> tk_num_inexact t = inexact s
      | P_bool b \<Rightarrow> tk_type t = TOK_BOOL \<and> tk_v t = V_bool b
      | P_null \<Rightarrow> tk_type t = TOK_NULL)"

definition head_rel :: "node list \<Rightarrow> nat \<Rightarrow> 'f bb_serialize_json_tok_t \<Rightarrow> bool" where
  "head_rel ns i t \<longleftrightarrow> tk_parent t = parent_idx (fst (ns ! i)) \<and> tk_key t = fst (snd (ns ! i)) \<and>
     tk_child_count t = of_nat (kid_count ns i) \<and> kid_count ns i \<le> 0xFFFF"

text \<open>The pool holds the tape, except for the contents of the nodes from \<^verbatim>\<open>m\<close> on.\<close>

definition pool_rel ::
  "(string \<Rightarrow> 'f) \<Rightarrow> nat \<Rightarrow> nat \<Rightarrow> 'f bb_serialize_json_tok_recorder_t \<Rightarrow> node list \<Rightarrow> bool"
where
  "pool_rel strtod cap m r ns \<longleftrightarrow>
     length (rc_pool r) = cap \<and> cap \<le> 2 ^ 31 \<and> rc_pool_n r = length ns \<and> length ns \<le> cap \<and>
     (\<forall>x \<in> set ns. \<forall>p. fst x = Some p \<longrightarrow> p < length ns) \<and>
     (\<forall>i < length ns. head_rel ns i (rc_pool r ! i)) \<and> (\<forall>i < m. payload_rel strtod r (snd (snd (ns ! i))) (rc_pool r ! i))"

definition stack_rel :: "'f bb_serialize_json_tok_recorder_t \<Rightarrow> tape \<Rightarrow> bool" where
  "stack_rel r a \<longleftrightarrow>
     length (rc_stack r) = BB_SERIALIZE_MAX_DEPTH \<and> rc_depth r = length (tp_stack a) \<and> length (tp_stack a) \<le> BB_SERIALIZE_MAX_DEPTH \<and>
     take (rc_depth r) (rc_stack r) = map int (rev (tp_stack a)) \<and> (\<forall>i \<in> set (tp_stack a). i < length (tp_nodes a))"

definition arena_rel :: "string \<Rightarrow> nat \<Rightarrow> 'f bb_serialize_json_tok_recorder_t \<Rightarrow> tape \<Rightarrow> bool" where
  "arena_rel buf acap r a \<longleftrightarrow>
     rc_buf r = buf \<and> rc_arena_cap r = acap \<and> rc_arena_used r \<le> acap \<and> rc_arena_used r \<le> tp_bytes a \<and> \<not> rc_str_open r"

definition tok_rel ::
  "(string \<Rightarrow> 'f) \<Rightarrow> string \<Rightarrow> nat \<Rightarrow> nat \<Rightarrow> 'f bb_serialize_json_tok_recorder_t \<Rightarrow> tape \<Rightarrow> bool"
where
  "tok_rel strtod buf cap acap r a \<longleftrightarrow>
     pool_rel strtod cap (length (tp_nodes a)) r (tp_nodes a) \<and> stack_rel r a \<and> arena_rel buf acap r a"

section \<open>A slot is taken\<close>

lemma idx_small: "n < 2 ^ 31 \<Longrightarrow> bb_serialize_json_tok_idx_t n = int n"
  unfolding bb_serialize_json_tok_idx_t_def by (subst signed_take_bit_int_eq_self) auto

lemma kid_count_snoc: "kid_count (ns @ [(p, k, pl)]) i = kid_count ns i + (if p = Some i then 1 else 0)"
  by (simp add: kid_count_def)

lemma count_full: "c \<le> 0xFFFF \<Longrightarrow> (of_nat c :: u16) = 0xFFFF \<longleftrightarrow> c = 0xFFFF"
proof
  assume "c \<le> 0xFFFF" "(of_nat c :: u16) = 0xFFFF"
  then have "unat (of_nat c :: u16) = unat (0xFFFF :: u16)" by simp
  then show "c = 0xFFFF" using \<open>c \<le> 0xFFFF\<close> by (simp add: unat_of_nat)
qed simp

lemma top_rel:
  assumes "stack_rel r a" and "tp_stack a \<noteq> []"
  shows "top_container r = int (hd (tp_stack a))" "0 < rc_depth r" "hd (tp_stack a) < length (tp_nodes a)"
proof -
  let ?d = "rc_depth r - 1"
  have d: "rc_depth r = length (tp_stack a)" "0 < length (tp_stack a)" using assms by (simp_all add: stack_rel_def)
  have "take (rc_depth r) (rc_stack r) ! ?d = map int (rev (tp_stack a)) ! ?d"
    using assms(1) unfolding stack_rel_def by metis
  then show "top_container r = int (hd (tp_stack a))" using d assms(2) by (simp add: top_container_def rev_nth hd_conv_nth)
  show "0 < rc_depth r" using d by simp
  show "hd (tp_stack a) < length (tp_nodes a)" using assms by (simp add: stack_rel_def)
qed

lemma no_kids_yet: "\<forall>x \<in> set ns. \<forall>p. fst x = Some p \<longrightarrow> p < length ns \<Longrightarrow> kid_count ns (length ns) = 0"
  by (auto simp: kid_count_def filter_empty_conv)

lemma alloc_refused:
  assumes "pool_rel strtod cap m r (tp_nodes a)" and "stack_rel r a" and "\<not> tape_room cap a key"
  shows "tok_alloc r ty key = (- 1, r)"
proof -
  have "tk_child_count (rc_pool r ! nat (top_container r)) = 0xFFFF"
    if "tp_stack a \<noteq> []" "\<not> kid_count (tp_nodes a) (hd (tp_stack a)) < 0xFFFF"
  proof -
    have "head_rel (tp_nodes a) (hd (tp_stack a)) (rc_pool r ! hd (tp_stack a))"
      using assms(1) top_rel(3) [OF assms(2) that(1)] by (simp add: pool_rel_def)
    then show ?thesis using that top_rel(1) [OF assms(2) that(1)] by (simp add: head_rel_def)
  qed
  moreover have "0 < rc_depth r" if "tp_stack a \<noteq> []" using top_rel(2) [OF assms(2) that] .
  ultimately show ?thesis using assms(1,3)
    by (auto simp: tok_alloc_def tape_room_def rc_pool_cap_def pool_rel_def)
qed

lemma payload_rel_cong:
  assumes "rc_buf r' = rc_buf r" "rc_arena r' = rc_arena r" "rc_arena_used r' = rc_arena_used r"
    and "tk_type t' = tk_type t" "tk_v t' = tk_v t" "tk_num_inexact t' = tk_num_inexact t"
  shows "payload_rel strtod r' pl t' = payload_rel strtod r pl t"
  using assms by (simp add: payload_rel_def ptr_ok_def tok_bytes_def cong: payload.case_cong tok_ptr.case_cong)

text \<open>The new token, and the count of its parent.\<close>

definition new_tok :: "bb_serialize_json_tok_type_t \<Rightarrow> json_key \<Rightarrow> nat option \<Rightarrow> 'f bb_serialize_json_tok_t" where
  "new_tok ty key p = (tok_zero ty)\<lparr>tk_key := key_text key, tk_parent := parent_idx p\<rparr>"

definition pool_add ::
  "nat option \<Rightarrow> 'f bb_serialize_json_tok_t \<Rightarrow> nat \<Rightarrow> 'f bb_serialize_json_tok_t list \<Rightarrow> 'f bb_serialize_json_tok_t list"
where
  "pool_add p t n pool =
     (case p of None \<Rightarrow> pool[n := t] | Some i \<Rightarrow> pool[n := t, i := (pool ! i)\<lparr>tk_child_count := tk_child_count (pool ! i) + 1\<rparr>])"

lemma alloc_done:
  assumes pr: "pool_rel strtod cap m r (tp_nodes a)" and sr: "stack_rel r a" and room: "tape_room cap a key"
  shows "tok_alloc r ty key = (int (length (tp_nodes a)),
    r\<lparr>rc_pool := pool_add (tape_top a) (new_tok ty key (tape_top a)) (length (tp_nodes a)) (rc_pool r), rc_pool_n := length (tp_nodes a) + 1\<rparr>)"
proof -
  let ?n = "length (tp_nodes a)"
  have n: "rc_pool_n r = ?n" "length (rc_pool r) = cap" "?n < cap" "cap \<le> 2 ^ 31" "json_key_len key \<le> BB_SERIALIZE_JSON_TOK_KEY_MAX_LEN"
    using pr room by (auto simp: pool_rel_def tape_room_def)
  then have idx: "bb_serialize_json_tok_idx_t ?n = int ?n" by (intro idx_small) simp
  have t: "(case key of Some k \<Rightarrow> if length k > 0 then (tok_zero ty)\<lparr>tk_key := k\<rparr> else tok_zero ty | None \<Rightarrow> tok_zero ty) =
      (tok_zero ty :: 'a bb_serialize_json_tok_t)\<lparr>tk_key := key_text key\<rparr>"
    by (auto simp: tok_zero_def key_text_def split: option.split)
  show ?thesis
  proof (cases "tp_stack a = []")
    case True
    then have "rc_depth r = 0" using sr by (simp add: stack_rel_def)
    then show ?thesis using n idx t True
      by (simp add: tok_alloc_def rc_pool_cap_def Let_def pool_set_def tape_top_def pool_add_def new_tok_def parent_idx_def)
  next
    case False
    let ?p = "hd (tp_stack a)"
    note top = top_rel [OF sr False]
    have "head_rel (tp_nodes a) ?p (rc_pool r ! ?p)" using pr top(3) by (simp add: pool_rel_def)
    then have "tk_child_count (rc_pool r ! ?p) \<noteq> 0xFFFF"
      using count_full [of "kid_count (tp_nodes a) ?p"] room False by (simp add: head_rel_def tape_room_def)
    moreover have "tape_top a = Some ?p" using False by (cases "tp_stack a") (simp_all add: tape_top_def)
    ultimately show ?thesis using n idx t top
      by (simp add: tok_alloc_def rc_pool_cap_def Let_def pool_set_def pool_add_def new_tok_def parent_idx_def top_container_def)
  qed
qed

lemma pool_add_nth:
  assumes "n < length pool" and "case p of None \<Rightarrow> True | Some i \<Rightarrow> i < n"
  shows "pool_add p t n pool ! n = t" "length (pool_add p t n pool) = length pool"
    "i < n \<Longrightarrow> pool_add p t n pool ! i = (if p = Some i then (pool ! i)\<lparr>tk_child_count := tk_child_count (pool ! i) + 1\<rparr> else pool ! i)"
  using assms by (auto simp: pool_add_def split: option.splits)

lemma alloc_pool_rel:
  fixes r :: "'f bb_serialize_json_tok_recorder_t"
  assumes pr: "pool_rel strtod cap (length (tp_nodes a)) r (tp_nodes a)" and sr: "stack_rel r a" and room: "tape_room cap a key"
    and r': "r' = r\<lparr>rc_pool := pool_add (tape_top a) (new_tok ty key (tape_top a)) (length (tp_nodes a)) (rc_pool r), rc_pool_n := length (tp_nodes a) + 1\<rparr>"
  shows "pool_rel strtod cap (length (tp_nodes a)) r' (tp_nodes (tape_add a key pl))"
    "rc_pool r' ! length (tp_nodes a) = new_tok ty key (tape_top a)"
proof -
  let ?ns = "tp_nodes a" and ?p = "tape_top a"
  let ?n = "length ?ns"
  let ?ns' = "?ns @ [(?p, key_text key, pl)]"
  have n: "length (rc_pool r) = cap" "?n < cap" "cap \<le> 2 ^ 31" using pr room by (auto simp: pool_rel_def tape_room_def)
  have below: "\<forall>x \<in> set ?ns. \<forall>p. fst x = Some p \<longrightarrow> p < ?n" using pr by (simp add: pool_rel_def)
  have p: "case ?p of None \<Rightarrow> True | Some i \<Rightarrow> i < ?n \<and> kid_count ?ns i < 0xFFFF"
    using top_rel(3) [OF sr] room by (cases "tp_stack a") (auto simp: tape_top_def tape_room_def)
  then have p': "case ?p of None \<Rightarrow> True | Some i \<Rightarrow> i < ?n" by (simp split: option.splits)
  note nth = pool_add_nth [OF n(2) [folded n(1)] p', where t = "new_tok ty key ?p"]
  show "rc_pool r' ! ?n = new_tok ty key ?p" using nth(1) r' by simp
  have heads: "head_rel ?ns' i (rc_pool r' ! i)" if i: "i < length ?ns'" for i
  proof (cases "i = ?n")
    case True
    have "?p \<noteq> Some ?n" using p' by (auto split: option.splits)
    then show ?thesis using True nth(1) r' no_kids_yet [OF below]
      by (simp add: head_rel_def kid_count_snoc new_tok_def tok_zero_def)
  next
    case False
    then have "i < ?n" using i by simp
    moreover have "head_rel ?ns i (rc_pool r ! i)" using pr \<open>i < ?n\<close> by (simp add: pool_rel_def)
    moreover have "kid_count ?ns i < 0xFFFF" if "?p = Some i" using p that by simp
    ultimately show ?thesis using nth(3) [of i] r' by (auto simp: head_rel_def kid_count_snoc nth_append add.commute)
  qed
  have pays: "payload_rel strtod r' (snd (snd (?ns' ! i))) (rc_pool r' ! i)" if i: "i < ?n" for i
  proof -
    have "payload_rel strtod r (snd (snd (?ns ! i))) (rc_pool r ! i)" using pr i by (simp add: pool_rel_def)
    moreover have "payload_rel strtod r' pl (rc_pool r' ! i) = payload_rel strtod r pl (rc_pool r ! i)" for pl
      by (rule payload_rel_cong) (use nth(3) [OF i] r' in simp_all)
    ultimately show ?thesis using i by (simp add: nth_append)
  qed
  have "\<forall>x \<in> set ?ns'. \<forall>q. fst x = Some q \<longrightarrow> q < length ?ns'" using below p' by (auto simp: less_Suc_eq split: option.splits)
  then show "pool_rel strtod cap ?n r' (tp_nodes (tape_add a key pl))"
    using heads pays n r' nth(2) by (simp add: pool_rel_def tape_add_def)
qed

text \<open>The content of the new token is filled in.\<close>

definition keeps_head :: "('f bb_serialize_json_tok_t \<Rightarrow> 'f bb_serialize_json_tok_t) \<Rightarrow> bool" where
  "keeps_head f \<longleftrightarrow> (\<forall>t. tk_parent (f t) = tk_parent t \<and> tk_key (f t) = tk_key t \<and> tk_child_count (f t) = tk_child_count t)"

lemma fill_pool_rel:
  assumes pr: "pool_rel strtod cap n r ns" and n: "length ns = n + 1" and f: "keeps_head f"
    and pay: "payload_rel strtod r' (snd (snd (ns ! n))) (f (rc_pool r ! n))"
    and r': "rc_pool r' = (rc_pool r)[n := f (rc_pool r ! n)]" "rc_pool_n r' = rc_pool_n r"
    and old: "\<And>i. i < n \<Longrightarrow> payload_rel strtod r' (snd (snd (ns ! i))) (rc_pool r ! i)"
  shows "pool_rel strtod cap (n + 1) r' ns"
proof -
  have "head_rel ns i (rc_pool r' ! i)" if "i < n + 1" for i
    using pr n f r' that by (cases "i = n") (auto simp: pool_rel_def head_rel_def keeps_head_def)
  moreover have "payload_rel strtod r' (snd (snd (ns ! i))) (rc_pool r' ! i)" if "i < n + 1" for i
    using pr n pay r' old that by (cases "i = n") (auto simp: pool_rel_def)
  ultimately show ?thesis using pr n r' by (simp add: pool_rel_def)
qed

lemma leaf_rel:
  fixes r :: "'f bb_serialize_json_tok_recorder_t"
  assumes rel: "tok_rel strtod buf cap acap r a" and room: "tape_room cap a key"
    and al: "tok_alloc r ty key = (idx, r')" and f: "keeps_head f"
    and pay: "\<And>t. tk_type t = ty \<Longrightarrow> payload_rel strtod r pl (f t)"
  shows "idx = int (length (tp_nodes a))" "tok_rel strtod buf cap acap (pool_set idx f r') (tape_add a key pl)"
proof -
  let ?n = "length (tp_nodes a)"
  have pr: "pool_rel strtod cap ?n r (tp_nodes a)" and sr: "stack_rel r a" and ar: "arena_rel buf acap r a"
    using rel by (simp_all add: tok_rel_def)
  note al' = al [unfolded alloc_done [OF pr sr room], unfolded prod.inject]
  show idx: "idx = int ?n" using al' by simp
  have r': "r' = r\<lparr>rc_pool := pool_add (tape_top a) (new_tok ty key (tape_top a)) ?n (rc_pool r), rc_pool_n := ?n + 1\<rparr>" using al' by simp
  note pr' = alloc_pool_rel [OF pr sr room r']
  let ?r = "pool_set idx f r'"
  have same: "payload_rel strtod ?r q t = payload_rel strtod r' q t" "payload_rel strtod ?r q t = payload_rel strtod r q t" for q t
    by (rule payload_rel_cong; simp add: pool_set_def r')+
  have pool: "rc_pool ?r = (rc_pool r')[?n := f (rc_pool r' ! ?n)]" "rc_pool_n ?r = rc_pool_n r'" by (simp_all add: pool_set_def idx)
  have pf: "payload_rel strtod r pl (f (rc_pool r' ! ?n))" by (rule pay) (simp add: pr'(2) new_tok_def tok_zero_def)
  have old: "payload_rel strtod ?r (snd (snd (tp_nodes (tape_add a key pl) ! i))) (rc_pool r' ! i)" if "i < ?n" for i
    using pr'(1) that unfolding same(1) by (simp add: pool_rel_def)
  have "pool_rel strtod cap (?n + 1) ?r (tp_nodes (tape_add a key pl))"
    by (rule fill_pool_rel [OF pr'(1) _ f _ pool old]) (use pf in \<open>simp_all add: tape_add_def same(2)\<close>)
  moreover have "stack_rel ?r (tape_add a key pl)" using sr by (auto simp: stack_rel_def tape_add_def pool_set_def r')
  moreover have "arena_rel buf acap ?r (tape_add a key pl)"
    using ar by (simp add: arena_rel_def tape_add_def pool_set_def r' rc_arena_cap_def)
  ultimately show "tok_rel strtod buf cap acap ?r (tape_add a key pl)" by (simp add: tok_rel_def tape_add_def)
qed

lemma pool_set_id: "pool_set idx (\<lambda>t. t) r = r"
  by (simp add: pool_set_def)

section \<open>Events\<close>

lemma open_follows:
  assumes rel: "tok_rel strtod buf cap acap r a" and e: "tape_open cap a key pl = Some (rc, a')"
    and c: "f = tok_begin_obj \<and> pl = P_obj \<or> f = tok_begin_arr \<and> pl = P_arr"
  shows "\<exists>r'. f r key = (rc, r') \<and> tok_rel strtod buf cap acap r' a'"
proof -
  let ?ty = "if pl = P_obj then TOK_OBJ else TOK_ARR"
  have f: "f r key = (if rc_depth r \<ge> BB_SERIALIZE_MAX_DEPTH then (BB_ERR_NO_SPACE, r)
      else case tok_alloc r ?ty key of
             (idx, r) \<Rightarrow> if idx < 0 then (BB_ERR_NO_SPACE, r)
               else (BB_OK, r\<lparr>rc_stack := (rc_stack r)[rc_depth r := idx], rc_depth := rc_depth r + 1\<rparr>))"
    using c by (auto simp: tok_begin_obj_def tok_begin_arr_def)
  have pr: "pool_rel strtod cap (length (tp_nodes a)) r (tp_nodes a)" and sr: "stack_rel r a" using rel by (simp_all add: tok_rel_def)
  have d: "rc_depth r = length (tp_stack a)" using sr by (simp add: stack_rel_def)
  show ?thesis
  proof (cases "length (tp_stack a) < BB_SERIALIZE_MAX_DEPTH \<and> tape_room cap a key")
    case False
    then show ?thesis using e d rel f alloc_refused [OF pr sr, of key ?ty]
      by (auto simp: tape_open_def)
  next
    case True
    obtain idx r1 where al: "tok_alloc r ?ty key = (idx, r1)" by fastforce
    have "keeps_head (\<lambda>t. t)" by (simp add: keeps_head_def)
    from leaf_rel [OF rel conjunct2 [OF True] al this, of pl]
    have idx: "idx = int (length (tp_nodes a))" and r1: "tok_rel strtod buf cap acap r1 (tape_add a key pl)"
      using c by (auto simp: payload_rel_def pool_set_id)
    let ?r = "r1\<lparr>rc_stack := (rc_stack r1)[rc_depth r1 := idx], rc_depth := rc_depth r1 + 1\<rparr>"
    let ?a = "(tape_add a key pl)\<lparr>tp_stack := length (tp_nodes a) # tp_stack a\<rparr>"
    have "payload_rel strtod ?r q t = payload_rel strtod r1 q t" for q t by (rule payload_rel_cong) simp_all
    then have "pool_rel strtod cap (length (tp_nodes ?a)) ?r (tp_nodes ?a)" using r1 by (simp add: tok_rel_def pool_rel_def)
    moreover have "stack_rel ?r ?a"
      using r1 True idx by (auto simp: tok_rel_def stack_rel_def tape_add_def take_Suc_conv_app_nth)
    moreover have "arena_rel buf acap ?r ?a" using r1 by (simp add: tok_rel_def arena_rel_def tape_add_def rc_arena_cap_def)
    ultimately have "tok_rel strtod buf cap acap ?r ?a" by (simp add: tok_rel_def)
    then show ?thesis using e d f al idx True by (simp add: tape_open_def)
  qed
qed

lemma close_follows:
  assumes rel: "tok_rel strtod buf cap acap r a" and e: "tape_close a = Some (rc, a')" and f: "f = tok_end_obj \<or> f = tok_end_arr"
  shows "\<exists>r'. f r = (rc, r') \<and> tok_rel strtod buf cap acap r' a'"
proof -
  have sr: "stack_rel r a" using rel by (simp add: tok_rel_def)
  have fr: "f r = (if rc_depth r = 0 then (BB_ERR_INVALID_STATE, r) else (BB_OK, r\<lparr>rc_depth := rc_depth r - 1\<rparr>))"
    using f by (auto simp: tok_end_obj_def tok_end_arr_def)
  show ?thesis
  proof (cases "tp_stack a")
    case Nil
    then show ?thesis using e fr rel sr by (auto simp: tape_close_def stack_rel_def)
  next
    case (Cons p ps)
    let ?r = "r\<lparr>rc_depth := rc_depth r - 1\<rparr>" and ?a = "a\<lparr>tp_stack := ps\<rparr>"
    have "payload_rel strtod ?r q t = payload_rel strtod r q t" for q t by (rule payload_rel_cong) simp_all
    then have "pool_rel strtod cap (length (tp_nodes ?a)) ?r (tp_nodes ?a)" using rel by (simp add: tok_rel_def pool_rel_def)
    moreover have d: "rc_depth r = Suc (length ps)" using sr Cons by (simp add: stack_rel_def)
    have "take (rc_depth r) (rc_stack r) = map int (rev ps) @ [int p]" using sr Cons by (auto simp: stack_rel_def)
    from arg_cong [OF this, of "take (length ps)"]
    have "take (length ps) (rc_stack r) = map int (rev ps)" using d by simp
    then have "stack_rel ?r ?a" using sr Cons by (simp add: stack_rel_def)
    moreover have "arena_rel buf acap ?r ?a" using rel by (simp add: tok_rel_def arena_rel_def rc_arena_cap_def)
    ultimately have "tok_rel strtod buf cap acap ?r ?a" by (simp add: tok_rel_def)
    then show ?thesis using e fr Cons sr by (auto simp: tape_close_def stack_rel_def)
  qed
qed

lemma leaf_follows:
  assumes rel: "tok_rel strtod buf cap acap r a" and e: "tape_leaf cap a key pl = Some (rc, a')" and f: "keeps_head f"
    and pay: "\<And>t. tk_type t = ty \<Longrightarrow> payload_rel strtod r pl (f t)"
  shows "\<exists>r'. (case tok_alloc r ty key of (idx, r) \<Rightarrow> if idx < 0 then (BB_ERR_NO_SPACE, r) else (BB_OK, pool_set idx f r)) = (rc, r') \<and>
    tok_rel strtod buf cap acap r' a'"
proof -
  have pr: "pool_rel strtod cap (length (tp_nodes a)) r (tp_nodes a)" and sr: "stack_rel r a" using rel by (simp_all add: tok_rel_def)
  show ?thesis
  proof (cases "tape_room cap a key")
    case False
    then show ?thesis using e rel alloc_refused [OF pr sr False, of ty] by (simp add: tape_leaf_def)
  next
    case True
    obtain idx r1 where al: "tok_alloc r ty key = (idx, r1)" by fastforce
    show ?thesis using leaf_rel [OF rel True al f pay] e al True by (simp add: tape_leaf_def)
  qed
qed

lemma event_follows:
  assumes rel: "tok_rel strtod buf cap acap r a" and e: "tape_step cap acap a ev = Some (rc, a')" and ns: "\<not> is_string ev"
  shows "\<exists>r'. call (bb_serialize_json_tok_recorder_ingest strtod) ev r = (rc, r') \<and> tok_rel strtod buf cap acap r' a'"
proof (cases ev)
  case (Ev_num key n)
  then have "length n \<le> BB_SERIALIZE_JSON_SCRATCH_MAX_BYTES" "tape_leaf cap a key (P_num n) = Some (rc, a')" using e by (simp_all split: if_splits)
  then show ?thesis using leaf_follows [OF rel, of key "P_num n" rc a' "\<lambda>t. tok_parse_num strtod t n" TOK_NUM] Ev_num
    by (simp add: bb_serialize_json_tok_recorder_ingest_def tok_value_num_def tok_parse_num_def keeps_head_def payload_rel_def inexact_def)
next
  case (Ev_bool key b)
  then show ?thesis using leaf_follows [OF rel, of key "P_bool b" rc a' "\<lambda>t. t\<lparr>tk_v := V_bool b\<rparr>" TOK_BOOL] e
    by (simp add: bb_serialize_json_tok_recorder_ingest_def tok_value_bool_def keeps_head_def payload_rel_def)
next
  case (Ev_null key)
  then show ?thesis using leaf_follows [OF rel, of key P_null rc a' "\<lambda>t. t" TOK_NULL] e
    by (cases "tok_alloc r TOK_NULL key") (auto split: if_splits simp add: bb_serialize_json_tok_recorder_ingest_def tok_value_null_def keeps_head_def payload_rel_def pool_set_id)
qed (use open_follows [OF rel] close_follows [OF rel] e ns in \<open>auto simp: bb_serialize_json_tok_recorder_ingest_def\<close>)

section \<open>Strings\<close>

text \<open>The recorder after copying some bytes, and after closing the string.\<close>

definition copied :: "'f bb_serialize_json_tok_recorder_t \<Rightarrow> string \<Rightarrow> 'f bb_serialize_json_tok_recorder_t" where
  "copied r d = r\<lparr>rc_arena := Some (blit (the (rc_arena r)) (rc_arena_used r) d), rc_arena_used := rc_arena_used r + length d,
     rc_str_len := rc_str_len r + length d\<rparr>"

definition closed :: "'f bb_serialize_json_tok_recorder_t \<Rightarrow> 'f bb_serialize_json_tok_recorder_t" where
  "closed r = (pool_set (rc_str_tok_idx r)
     (\<lambda>t. t\<lparr>tk_v := V_str (Ptr_arena (rc_str_arena_start r)) (of_nat (rc_str_len r))\<rparr>) r)\<lparr>rc_str_open := False\<rparr>"

lemma blit_twice:
  assumes "u + length d + length e \<le> length a"
  shows "blit (blit a u d) (u + length d) e = blit a u (d @ e)"
  by (rule nth_equalityI) (use assms in \<open>auto simp: nth_blit nth_append\<close>)

lemma copied_copied:
  assumes "rc_arena r = Some ar" and "rc_arena_used r + length d + length e \<le> length ar"
  shows "copied (copied r d) e = copied r (d @ e)"
  using assms blit_twice [of "rc_arena_used r" d e ar] by (simp add: copied_def)

lemma str_copy:
  assumes "rc_arena r = Some ar" and "rc_arena_used r + length d \<le> length ar"
  shows "tok_str_copy r d fin = (BB_OK, if fin then closed (copied r d) else copied r d)"
proof (cases "d = []")
  case True
  have "copied r [] = r" using assms by (simp add: copied_def blit_def)
  then show ?thesis using True assms by (simp add: tok_str_copy_def closed_def)
next
  case False
  then show ?thesis using assms by (simp add: tok_str_copy_def copied_def closed_def rc_arena_cap_def)
qed

text \<open>All pieces of a string, copied one after the other.\<close>

definition str_chunk :: "json_key \<Rightarrow> 'f bb_serialize_json_tok_recorder_t \<Rightarrow> span \<Rightarrow> bb_err_t \<times> 'f bb_serialize_json_tok_recorder_t" where
  "str_chunk key r sp = (case sp of (p, d, fin, prov) \<Rightarrow> tok_value_str_chunk r key p d fin prov)"

lemma value_spans_tok: "value_spans (bb_serialize_json_tok_recorder_ingest strtod) key r sps = give (str_chunk key) r sps"
proof -
  have eq: "str_chunk key = (\<lambda>r (p, d, fin, prov). tok_value_str_chunk r key p d fin prov)" by (simp add: fun_eq_iff str_chunk_def)
  show ?thesis unfolding eq value_spans_def bb_serialize_json_tok_recorder_ingest_def
    by (simp only: bb_serialize_json_ingest_t.select_convs)
qed

lemma span_prov: "span_ok True buf p d fin prov \<Longrightarrow> prov \<noteq> SPAN_CALLER_FEED_SCOPED"
  by (auto simp: span_ok_def split: option.splits)

lemma chunk_open:
  assumes "rc_str_open r" and "prov \<noteq> SPAN_CALLER_FEED_SCOPED" and "rc_arena r = Some ar" and "rc_arena_used r + length d \<le> length ar"
  shows "str_chunk key r (p, d, fin, prov) = (BB_OK, if fin then closed (copied r d) else copied r d)"
  using assms by (simp add: str_chunk_def tok_value_str_chunk_def str_copy)

lemma give_copies:
  assumes "rc_str_open r" and "\<forall>sp \<in> set sps. snd (snd (snd sp)) \<noteq> SPAN_CALLER_FEED_SCOPED"
    and "sps \<noteq> []" and "span_last (last sps)" and "\<forall>sp \<in> set (butlast sps). \<not> span_last sp"
    and "rc_arena r = Some ar" and "rc_arena_used r + length (concat (map span_bytes sps)) \<le> length ar"
  shows "give (str_chunk key) r sps = (BB_OK, closed (copied r (concat (map span_bytes sps))))"
  using assms
proof (induction sps arbitrary: r ar)
  case (Cons sp sps)
  obtain p d fin prov where sp: "sp = (p, d, fin, prov)" by (cases sp)
  have sb: "span_bytes sp = d" by (simp add: sp span_bytes_def)
  have step: "str_chunk key r sp = (BB_OK, if fin then closed (copied r d) else copied r d)"
    unfolding sp by (rule chunk_open [OF _ _ Cons.prems(6)]) (use Cons.prems sp sb in simp_all)
  show ?case
  proof (cases "sps = []")
    case True
    then show ?thesis using step Cons.prems(4) sp sb by (simp add: span_last_def)
  next
    case False
    then have fin: "\<not> fin" using Cons.prems(5) sp by (simp add: span_last_def)
    let ?r = "copied r d" and ?ar = "blit ar (rc_arena_used r) d"
    have room: "rc_arena_used r + length d + length (concat (map span_bytes sps)) \<le> length ar"
      using Cons.prems(7) by (simp add: sb)
    have "give (str_chunk key) ?r sps = (BB_OK, closed (copied ?r (concat (map span_bytes sps))))"
    proof (rule Cons.IH)
      show "rc_arena ?r = Some ?ar" using Cons.prems(6) by (simp add: copied_def)
      show "rc_arena_used ?r + length (concat (map span_bytes sps)) \<le> length ?ar" using room by (simp add: copied_def)
    qed (use Cons.prems False in \<open>simp_all add: copied_def\<close>)
    then show ?thesis using step fin copied_copied [OF Cons.prems(6) room] by (simp add: sb)
  qed
qed simp

text \<open>The recorder when the string has its token.\<close>

definition str_begun :: "int \<Rightarrow> 'f bb_serialize_json_tok_recorder_t \<Rightarrow> 'f bb_serialize_json_tok_recorder_t" where
  "str_begun idx r = r\<lparr>rc_str_open := True, rc_str_tok_idx := idx, rc_str_use_arena := False,
     rc_str_arena_start := rc_arena_used r, rc_str_len := 0\<rparr>"

lemma chunk_first:
  assumes "\<not> rc_str_open r" and "prov \<noteq> SPAN_CALLER_FEED_SCOPED" and "tok_alloc r TOK_STR key = (idx, r1)" and "0 \<le> idx"
  shows "str_chunk key r (p, d, fin, prov) =
    (if fin \<and> prov = SPAN_CALLER_STABLE then
       (BB_OK, (pool_set idx (\<lambda>t. t\<lparr>tk_v := V_str (span_target p) (of_nat (length d))\<rparr>) (str_begun idx r1))\<lparr>rc_str_open := False\<rparr>)
     else str_chunk key ((str_begun idx r1)\<lparr>rc_str_use_arena := True\<rparr>) (p, d, fin, prov))"
  using assms by (auto simp: str_chunk_def tok_value_str_chunk_def str_begun_def Let_def)

lemma slice_keep: "off + n \<le> u \<Longrightarrow> u + length d \<le> length a \<Longrightarrow> take n (drop off (blit a u d)) = take n (drop off a)"
  using slice_blit_other [of u d a off n] by (simp add: slice_def)

text \<open>Copying to the free part of the arena leaves the recorded strings alone.\<close>

lemma payload_rel_grow:
  assumes "payload_rel strtod r pl t" and "rc_buf r' = rc_buf r" and "rc_arena r = Some ar"
    and "rc_arena r' = Some (blit ar (rc_arena_used r) d)" and "rc_arena_used r' = rc_arena_used r + length d"
    and "rc_arena_used r + length d \<le> length ar"
  shows "payload_rel strtod r' pl t"
proof (cases pl)
  case (P_str s)
  then obtain p n where p: "tk_type t = TOK_STR" "tk_v t = V_str p n" "unat n = length s" "ptr_ok r p (length s)" "tok_bytes r p (length s) = s"
    using assms(1) by (auto simp: payload_rel_def)
  have "ptr_ok r' p (length s)" using p(4) assms by (cases p) (simp_all add: ptr_ok_def)
  moreover have "tok_bytes r' p (length s) = s"
    using p(4,5) assms slice_keep [of _ "length s" "rc_arena_used r" d ar] by (cases p) (auto simp: tok_bytes_def ptr_ok_def)
  ultimately show ?thesis using p P_str by (simp add: payload_rel_def)
qed (use assms in \<open>simp_all add: payload_rel_def\<close>)

lemma tok_rel_fields:
  assumes "tok_rel strtod buf cap acap r a" and "tp_bytes a \<le> b"
  shows "tok_rel strtod buf cap acap (r\<lparr>rc_str_open := False, rc_str_tok_idx := i, rc_str_use_arena := u, rc_str_arena_start := st, rc_str_len := l\<rparr>)
    (a\<lparr>tp_bytes := b\<rparr>)" (is "tok_rel _ _ _ _ ?r ?a")
proof -
  have "payload_rel strtod ?r q t = payload_rel strtod r q t" for q t by (rule payload_rel_cong) simp_all
  then have "pool_rel strtod cap (length (tp_nodes ?a)) ?r (tp_nodes ?a)" using assms by (simp add: tok_rel_def pool_rel_def)
  moreover have "stack_rel ?r ?a" using assms by (auto simp: tok_rel_def stack_rel_def)
  moreover have "arena_rel buf acap ?r ?a" using assms by (simp add: tok_rel_def arena_rel_def rc_arena_cap_def)
  ultimately show ?thesis by (simp add: tok_rel_def)
qed

lemma direct_string:
  assumes rel: "tok_rel strtod buf cap acap r a" and room: "tape_room cap a key" and al: "tok_alloc r TOK_STR key = (idx, r1)"
    and len: "length v < 2 ^ 32" and sp: "span_ok True buf (Some i) v True prov"
  shows "tok_rel strtod buf cap acap
    ((pool_set idx (\<lambda>t. t\<lparr>tk_v := V_str (Ptr_buf i) (of_nat (length v))\<rparr>) (str_begun idx r1))\<lparr>rc_str_open := False\<rparr>)
    ((tape_add a key (P_str v))\<lparr>tp_bytes := tp_bytes a + length v\<rparr>)"
proof -
  let ?f = "\<lambda>t. t\<lparr>tk_v := V_str (Ptr_buf i) (of_nat (length v))\<rparr>"
  have buf: "rc_buf r = buf" using rel by (simp add: tok_rel_def arena_rel_def)
  have f: "keeps_head ?f" by (simp add: keeps_head_def)
  have "unat (of_nat (length v) :: u32) = length v" using len by (simp add: unat_of_nat)
  then have "payload_rel strtod r (P_str v) (?f t)" if "tk_type t = TOK_STR" for t
    using that sp buf by (auto simp: payload_rel_def ptr_ok_def tok_bytes_def span_ok_def)
  from leaf_rel(2) [OF rel room al f this]
  have "tok_rel strtod buf cap acap (pool_set idx ?f r1) (tape_add a key (P_str v))" .
  note tok_rel_fields [OF this, where b = "tp_bytes a + length v" and i = idx and u = False and st = "rc_arena_used r1" and l = 0]
  then show ?thesis by (cases r1) (simp add: pool_set_def str_begun_def tape_add_def)
qed

lemma copied_string:
  fixes r :: "'f bb_serialize_json_tok_recorder_t"
  assumes rel: "tok_rel strtod buf cap acap r a" and room: "tape_room cap a key" and al: "tok_alloc r TOK_STR key = (idx, r1)"
    and len: "length v < 2 ^ 32" and ar: "rc_arena r = Some ar" and fit: "tp_bytes a + length v \<le> acap"
  shows "tok_rel strtod buf cap acap (closed (copied ((str_begun idx r1)\<lparr>rc_str_use_arena := True\<rparr>) v))
    ((tape_add a key (P_str v))\<lparr>tp_bytes := tp_bytes a + length v\<rparr>)" (is "tok_rel _ _ _ _ ?r ?a")
proof -
  let ?n = "length (tp_nodes a)" and ?u = "rc_arena_used r"
  have pr: "pool_rel strtod cap ?n r (tp_nodes a)" and sr: "stack_rel r a" and arr: "arena_rel buf acap r a"
    using rel by (simp_all add: tok_rel_def)
  note al' = al [unfolded alloc_done [OF pr sr room], unfolded prod.inject]
  have r1: "r1 = r\<lparr>rc_pool := pool_add (tape_top a) (new_tok TOK_STR key (tape_top a)) ?n (rc_pool r), rc_pool_n := ?n + 1\<rparr>"
    and idx: "idx = int ?n" using al' by simp_all
  note pr1 = alloc_pool_rel [OF pr sr room r1]
  have cap: "?u + length v \<le> length ar" "length ar = acap" using arr ar fit by (simp_all add: arena_rel_def rc_arena_cap_def)
  let ?f = "\<lambda>t. t\<lparr>tk_v := V_str (Ptr_arena ?u) (of_nat (length v))\<rparr>"
  have r: "rc_buf ?r = rc_buf r1" "rc_arena r1 = Some ar" "rc_arena ?r = Some (blit ar ?u v)" "rc_arena_used r1 = ?u" "rc_arena_used ?r = ?u + length v"
    "rc_pool ?r = (rc_pool r1)[?n := ?f (rc_pool r1 ! ?n)]" "rc_pool_n ?r = rc_pool_n r1"
    using ar by (simp_all add: closed_def copied_def str_begun_def r1 pool_set_def idx)
  have old: "payload_rel strtod ?r (snd (snd (tp_nodes ?a ! i))) (rc_pool r1 ! i)" if "i < ?n" for i
  proof (rule payload_rel_grow [OF _ r(1,2) _ _ _])
    show "payload_rel strtod r1 (snd (snd (tp_nodes ?a ! i))) (rc_pool r1 ! i)"
      using pr1(1) [where pl = "P_str v"] that by (simp add: pool_rel_def)
  qed (use r cap in simp_all)
  have new: "payload_rel strtod ?r (P_str v) (?f (rc_pool r1 ! ?n))"
  proof -
    have "unat (of_nat (length v) :: u32) = length v" using len by (simp add: unat_of_nat)
    moreover have "take (length v) (drop ?u (blit ar ?u v)) = v" using slice_blit_same [OF cap(1)] by (simp add: slice_def)
    moreover have "tk_type (rc_pool r1 ! ?n) = TOK_STR" using pr1(2) by (simp add: new_tok_def tok_zero_def)
    ultimately show ?thesis using r by (simp add: payload_rel_def ptr_ok_def tok_bytes_def)
  qed
  have "pool_rel strtod cap ?n r1 (tp_nodes ?a)" using pr1(1) by simp
  then have "pool_rel strtod cap (?n + 1) ?r (tp_nodes ?a)"
    by (rule fill_pool_rel [where f = ?f, OF _ _ _ _ r(6,7) old]) (use new in \<open>simp_all add: tape_add_def keeps_head_def\<close>)
  moreover have "stack_rel ?r ?a"
    using sr by (auto simp: stack_rel_def tape_add_def closed_def copied_def str_begun_def r1 pool_set_def)
  moreover have "arena_rel buf acap ?r ?a"
    using arr cap r ar by (simp add: arena_rel_def rc_arena_cap_def tape_add_def closed_def r1)
  ultimately show ?thesis by (simp add: tok_rel_def tape_add_def)
qed

lemma string_follows:
  assumes rel: "tok_rel strtod buf cap acap r a" and e: "tape_step cap acap a (Ev_str key v) = Some (rc, a')"
    and sps: "span_list True buf sps v"
  shows "\<exists>r'. value_spans (bb_serialize_json_tok_recorder_ingest strtod) key r sps = (rc, r') \<and> tok_rel strtod buf cap acap r' a'"
  unfolding value_spans_tok
proof -
  have pr: "pool_rel strtod cap (length (tp_nodes a)) r (tp_nodes a)" and sr: "stack_rel r a" and arr: "arena_rel buf acap r a"
    using rel by (simp_all add: tok_rel_def)
  have shut: "\<not> rc_str_open r" using arr by (simp add: arena_rel_def)
  obtain p d fin prov rest where first: "sps = (p, d, fin, prov) # rest" using sps by (cases sps) (auto simp: span_list_def)
  have prov: "\<forall>sp \<in> set sps. snd (snd (snd sp)) \<noteq> SPAN_CALLER_FEED_SCOPED" using sps span_prov by (fastforce simp: span_list_def)
  have bytes: "concat (map span_bytes sps) = v" using sps by (simp add: span_list_def)
  show "\<exists>r'. give (str_chunk key) r sps = (rc, r') \<and> tok_rel strtod buf cap acap r' a'"
  proof (cases "tape_room cap a key")
    case False
    have "str_chunk key r (p, d, fin, prov) = (BB_ERR_NO_SPACE, r)"
      using alloc_refused [OF pr sr False, of TOK_STR] shut prov first by (simp add: str_chunk_def tok_value_str_chunk_def)
    then show ?thesis using e rel False first by simp
  next
    case True
    then have fit: "tp_bytes a + length v \<le> acap" "length v < 2 ^ 32" and rc: "rc = BB_OK"
      and a': "a' = (tape_add a key (P_str v))\<lparr>tp_bytes := tp_bytes a + length v\<rparr>"
      using e by (simp_all split: if_splits)
    obtain idx r1 where al: "tok_alloc r TOK_STR key = (idx, r1)" by fastforce
    then have idx: "0 \<le> idx" and r1: "rc_arena r1 = rc_arena r" "rc_arena_used r1 = rc_arena_used r"
      using alloc_done [OF pr sr True, of TOK_STR] by auto
    note c1 = chunk_first [OF shut _ al idx, of prov p d fin]
    show ?thesis
    proof (cases "fin \<and> prov = SPAN_CALLER_STABLE")
      case fast: True
      have "rest = []" using sps fast first by (cases rest) (auto simp: span_list_def span_last_def)
      then have one: "sps = [(p, v, True, prov)]" and ok: "span_ok True buf p v True prov" using sps fast first by auto
      then obtain i where p: "p = Some i" using fast by (cases p) (auto simp: span_ok_def)
      show ?thesis using c1 prov fast first one rc a' p direct_string [OF rel True al fit(2) ok [unfolded p]]
        by (simp add: span_target_def)
    next
      case slow: False
      let ?r = "(str_begun idx r1)\<lparr>rc_str_use_arena := True\<rparr>"
      have "v \<noteq> []"
      proof
        assume "v = []"
        then have "length sps = 1" "p \<noteq> None" using sps first by (auto simp: span_list_def)
        then show False using sps first slow by (cases p) (auto simp: span_list_def span_last_def span_ok_def)
      qed
      then obtain ar where ar: "rc_arena r = Some ar" "length ar = acap"
        using arr fit by (cases "rc_arena r") (auto simp: arena_rel_def rc_arena_cap_def)
      have "give (str_chunk key) r sps = give (str_chunk key) ?r sps" using c1 slow prov first by simp
      also have "\<dots> = (BB_OK, closed (copied ?r (concat (map span_bytes sps))))"
      proof (rule give_copies [OF _ prov])
        show "sps \<noteq> []" "span_last (last sps)" "\<forall>sp \<in> set (butlast sps). \<not> span_last sp" using sps by (simp_all add: span_list_def)
        show "rc_arena ?r = Some ar" using ar r1 by (simp add: str_begun_def)
        show "rc_arena_used ?r + length (concat (map span_bytes sps)) \<le> length ar"
          unfolding bytes using arr fit ar r1 by (simp add: arena_rel_def str_begun_def)
      qed (simp add: str_begun_def)
      finally show ?thesis using copied_string [OF rel True al fit(2) ar(1) fit(1)] rc a' bytes by simp
    qed
  qed
qed

text \<open>The recorder is a sink that follows the tape.\<close>

interpretation tok: event_sink "bb_serialize_json_tok_recorder_ingest strtod" buf True "tok_rel strtod buf cap acap" "tape_step cap acap"
  for strtod :: "string \<Rightarrow> 'f" and buf cap acap
  using event_follows string_follows by unfold_locales blast+

end
