(* ===== verification/BB_JSON_Tree.thy ===== *)
theory BB_JSON_Tree
  imports BB_JSON_Tape
begin

text \<open>
  What the recorder's pool holds after a document: the nodes of the tree in the order of the text, each with its
  parent; and what navigation reads back: the tree.
\<close>

section \<open>Trees as tapes\<close>

fun kids :: "json \<Rightarrow> (json_key \<times> json) list" where
  "kids (JObj ms) = map (\<lambda>(k, t). (key_of k, t)) ms"
| "kids (JArr ts) = map (Pair None) ts"
| "kids _ = []"

fun payload_of :: "json \<Rightarrow> payload" where
  "payload_of (JObj ms) = P_obj"
| "payload_of (JArr ts) = P_arr"
| "payload_of (JStr s) = P_str s"
| "payload_of (JNum n) = P_num n"
| "payload_of (JBool b) = P_bool b"
| "payload_of JNull = P_null"

lemma kids_smaller [termination_simp]: "(key, t) \<in> set (kids u) \<Longrightarrow> size t < size u"
proof (cases u)
  case (JObj ms)
  assume "(key, t) \<in> set (kids u)"
  then obtain k where "(k, t) \<in> set ms" using JObj by auto
  then have "size t < size (JObj ms)" by (induction ms) auto
  then show ?thesis using JObj by simp
next
  case (JArr ts)
  assume "(key, t) \<in> set (kids u)"
  then have "t \<in> set ts" using JArr by auto
  then have "size t < size (JArr ts)" by (induction ts) auto
  then show ?thesis using JArr by simp
qed simp_all

fun tree_size :: "json \<Rightarrow> nat" where
  "tree_size t = Suc (sum_list (map (\<lambda>(key, u). tree_size u) (kids t)))"

declare tree_size.simps [simp del]

definition forest_size :: "(json_key \<times> json) list \<Rightarrow> nat" where
  "forest_size cs = sum_list (map (\<lambda>(key, u). tree_size u) cs)"

lemma forest_size_simps [simp]: "forest_size [] = 0" "forest_size ((key, t) # cs) = tree_size t + forest_size cs"
  by (simp_all add: forest_size_def)

lemma tree_size_kids: "tree_size t = Suc (forest_size (kids t))"
  by (simp add: tree_size.simps [of t] forest_size_def)

function flat :: "nat option \<Rightarrow> nat \<Rightarrow> json_key \<Rightarrow> json \<Rightarrow> node list"
  and flats :: "nat option \<Rightarrow> nat \<Rightarrow> (json_key \<times> json) list \<Rightarrow> node list"
where
  "flat p n key t = (p, key_text key, payload_of t) # flats (Some n) (n + 1) (kids t)"
| "flats p n [] = []"
| "flats p n ((key, t) # cs) = flat p n key t @ flats p (n + tree_size t) cs"
  by pat_completeness auto
termination
  by (relation "measure (\<lambda>x. case x of Inl (p, n, key, t) \<Rightarrow> 2 * tree_size t | Inr (p, n, cs) \<Rightarrow> 2 * forest_size cs + 1)")
    (simp_all add: tree_size_kids)

declare flat.simps [simp del]

lemma flat_length: "length (flat p n key t) = tree_size t" "length (flats p n cs) = forest_size cs"
  by (induction p n key t and p n cs rule: flat_flats.induct) (simp_all add: flat.simps tree_size_kids)

text \<open>Inside a tree every parent is a node of the tree.\<close>

lemma flat_parents:
  "x \<in> set (tl (flat p n key t)) \<Longrightarrow> \<exists>i. fst x = Some i \<and> n \<le> i \<and> i < n + tree_size t"
  "x \<in> set (flats p n cs) \<Longrightarrow> fst x = p \<or> (\<exists>i. fst x = Some i \<and> n \<le> i \<and> i < n + forest_size cs)"
proof (induction p n key t and p n cs rule: flat_flats.induct)
  case (1 p n key t)
  then show ?case by (auto simp: flat.simps tree_size_kids)
next
  case (3 p n key t cs)
  from "3.prems" consider "x = hd (flat p n key t)" | "x \<in> set (tl (flat p n key t))" | "x \<in> set (flats p (n + tree_size t) cs)"
    by (auto simp: flat.simps)
  then show ?case
  proof cases
    case 1
    then show ?thesis by (simp add: flat.simps)
  qed (use 3 in fastforce)+
qed simp

lemma kid_count_nil: "kid_count [] i = 0"
  by (simp add: kid_count_def)

lemma kid_count_append: "kid_count (a @ b) i = kid_count a i + kid_count b i"
  by (simp add: kid_count_def)

lemma kid_count_Cons: "kid_count (x # b) i = (if fst x = Some i then 1 else 0) + kid_count b i"
  by (simp add: kid_count_def)

lemma kid_count_flat: "i < n \<Longrightarrow> kid_count (flat p n key t) i = (if p = Some i then 1 else 0)"
proof -
  assume i: "i < n"
  have "kid_count (tl (flat p n key t)) i = 0"
    using flat_parents(1) i by (fastforce simp: kid_count_def filter_empty_conv)
  then show ?thesis by (simp add: flat.simps kid_count_Cons)
qed

lemma kid_count_flats: "i < n \<Longrightarrow> kid_count (flats (Some i) n cs) i = length cs"
  by (induction cs arbitrary: n) (auto simp: kid_count_append kid_count_flat kid_count_nil)

section \<open>Recording a tree\<close>

fun recordable :: "json \<Rightarrow> bool" where
  "recordable t \<longleftrightarrow> length (kids t) \<le> 0xFFFF \<and>
     (\<forall>(key, u) \<in> set (kids t). json_key_len key \<le> BB_SERIALIZE_JSON_TOK_KEY_MAX_LEN \<and> recordable u) \<and>
     (case t of JStr s \<Rightarrow> length s < 2 ^ 32 | _ \<Rightarrow> True)"

declare recordable.simps [simp del]

fun str_bytes :: "json \<Rightarrow> nat" where
  "str_bytes t = (case t of JStr s \<Rightarrow> length s | _ \<Rightarrow> 0) + sum_list (map (\<lambda>(key, u). str_bytes u) (kids t))"

declare str_bytes.simps [simp del]

definition strs_bytes :: "(json_key \<times> json) list \<Rightarrow> nat" where
  "strs_bytes cs = sum_list (map (\<lambda>(key, u). str_bytes u) cs)"

lemma strs_bytes_simps [simp]: "strs_bytes [] = 0" "strs_bytes ((key, t) # cs) = str_bytes t + strs_bytes cs"
  by (simp_all add: strs_bytes_def)

lemma str_bytes_kids: "str_bytes t = (case t of JStr s \<Rightarrow> length s | _ \<Rightarrow> 0) + strs_bytes (kids t)"
  by (simp add: str_bytes.simps [of t] strs_bytes_def)

text \<open>The tape after a tree.\<close>

definition grown :: "tape \<Rightarrow> node list \<Rightarrow> nat \<Rightarrow> tape" where
  "grown a ns b = a\<lparr>tp_nodes := tp_nodes a @ ns, tp_bytes := tp_bytes a + b\<rparr>"

definition forest_events :: "(json_key \<times> json) list \<Rightarrow> event list" where
  "forest_events cs = concat (map (\<lambda>(key, t). events key t) cs)"

lemma events_kids:
  "events key (JObj ms) = Ev_begin_obj key # forest_events (kids (JObj ms)) @ [Ev_end_obj]"
  "events key (JArr ts) = Ev_begin_arr key # forest_events (kids (JArr ts)) @ [Ev_end_arr]"
  by (simp_all add: forest_events_def comp_def case_prod_unfold)

definition tape_ok :: "tape \<Rightarrow> bool" where
  "tape_ok a \<longleftrightarrow> length (tp_stack a) \<le> BB_SERIALIZE_MAX_DEPTH \<and> (\<forall>i \<in> set (tp_stack a). i < length (tp_nodes a)) \<and>
     (\<forall>x \<in> set (tp_nodes a). \<forall>i. fst x = Some i \<longrightarrow> i < length (tp_nodes a))"

definition top_has_room :: "tape \<Rightarrow> nat \<Rightarrow> bool" where
  "top_has_room a m \<longleftrightarrow> (\<forall>i. tape_top a = Some i \<longrightarrow> kid_count (tp_nodes a) i + m \<le> 0xFFFF)"

lemma room_iff: "tape_room cap a key \<longleftrightarrow> json_key_len key \<le> BB_SERIALIZE_JSON_TOK_KEY_MAX_LEN \<and> length (tp_nodes a) < cap \<and> top_has_room a 1"
  by (cases "tp_stack a") (auto simp: tape_room_def top_has_room_def tape_top_def)

lemma key_len_size: "json_key_len key = key_size key"
  by (simp add: json_key_len_def key_size_def)

lemma fits_kids: "fits d m t \<Longrightarrow> (key, u) \<in> set (kids t) \<Longrightarrow> fits (d + 1) (key_size key) u"
  by (cases t) (fastforce simp: key_size_def key_of_def)+

lemma top_below: "tape_ok a \<Longrightarrow> tape_top a = Some i \<Longrightarrow> i < length (tp_nodes a)"
  by (cases "tp_stack a") (auto simp: tape_top_def tape_ok_def)

lemma grown_simps [simp]:
  "tp_stack (grown a ns b) = tp_stack a" "tp_nodes (grown a ns b) = tp_nodes a @ ns" "tp_bytes (grown a ns b) = tp_bytes a + b"
  "tape_top (grown a ns b) = tape_top a"
  by (simp_all add: grown_def tape_top_def)

lemma grown_grown: "grown (grown a x b) y c = grown a (x @ y) (b + c)"
  by (simp add: grown_def add.assoc)

lemma grown_ok:
  assumes "tape_ok a"
  shows "tape_ok (grown a (flat (tape_top a) (length (tp_nodes a)) key t) b)"
proof -
  let ?n = "length (tp_nodes a)"
  have "i < ?n + tree_size t" if "x \<in> set (flat (tape_top a) ?n key t)" "fst x = Some i" for x i
  proof (cases "x \<in> set (tl (flat (tape_top a) ?n key t))")
    case True
    then show ?thesis using flat_parents(1) that(2) by fastforce
  next
    case False
    then have "fst x = tape_top a" using that(1) by (simp add: flat.simps)
    then show ?thesis using top_below [OF assms, of i] that(2) by simp
  qed
  then show ?thesis using assms by (fastforce simp: tape_ok_def flat_length)
qed

lemma consume_one_ok: "f a e = Some (BB_OK, b) \<Longrightarrow> consume f a (e # es) = consume f b es"
  by simp

lemma container_consumed:
  fixes cap acap
  defines "step \<equiv> tape_step cap acap"
  assumes ok: "tape_ok a" and room: "tape_room cap a key" and d: "length (tp_stack a) < BB_SERIALIZE_MAX_DEPTH"
    and c: "opn = Ev_begin_obj key \<and> cls = Ev_end_obj \<and> payload_of t = P_obj \<or> opn = Ev_begin_arr key \<and> cls = Ev_end_arr \<and> payload_of t = P_arr"
    and few: "length (kids t) \<le> 0xFFFF" and b: "str_bytes t = strs_bytes (kids t)"
    and inner: "\<And>a1. tape_ok a1 \<Longrightarrow> length (tp_stack a1) = length (tp_stack a) + 1 \<Longrightarrow> length (tp_nodes a1) = length (tp_nodes a) + 1 \<Longrightarrow>
      tape_top a1 = Some (length (tp_nodes a)) \<Longrightarrow> tp_bytes a1 = tp_bytes a \<Longrightarrow> top_has_room a1 (length (kids t)) \<Longrightarrow>
      consume step a1 es = Some (BB_OK, grown a1 (flats (Some (length (tp_nodes a))) (length (tp_nodes a) + 1) (kids t)) (strs_bytes (kids t)))"
  shows "consume step a (opn # es @ [cls]) = Some (BB_OK, grown a (flat (tape_top a) (length (tp_nodes a)) key t) (str_bytes t))"
proof -
  let ?n = "length (tp_nodes a)"
  let ?a1 = "(tape_add a key (payload_of t))\<lparr>tp_stack := ?n # tp_stack a\<rparr>"
  have o: "step a opn = Some (BB_OK, ?a1)" using c room d by (auto simp: step_def tape_open_def)
  have "kid_count (tp_nodes a) ?n = 0" using ok by (intro no_kids_yet) (simp add: tape_ok_def)
  moreover have "tape_top a \<noteq> Some ?n" using top_below [OF ok] by fastforce
  ultimately have room1: "top_has_room ?a1 (length (kids t))"
    using few by (simp add: top_has_room_def tape_top_def tape_add_def kid_count_append kid_count_Cons kid_count_nil)
  have ok1: "tape_ok ?a1" using ok d top_below [OF ok] by (auto simp: tape_ok_def tape_add_def less_Suc_eq)
  let ?a2 = "grown ?a1 (flats (Some ?n) (?n + 1) (kids t)) (strs_bytes (kids t))"
  have "consume step ?a1 es = Some (BB_OK, ?a2)"
    by (rule inner [OF ok1 _ _ _ _ room1]) (simp_all add: tape_add_def tape_top_def)
  then have "consume step a (opn # es @ [cls]) = step ?a2 cls"
    unfolding consume_one_ok [of step a opn, OF o] by (simp add: consume_append consume_one del: consume.simps)
  also have "\<dots> = Some (BB_OK, ?a2\<lparr>tp_stack := tp_stack a\<rparr>)" using c by (auto simp: step_def tape_close_def)
  also have "?a2\<lparr>tp_stack := tp_stack a\<rparr> = grown a (flat (tape_top a) ?n key t) (str_bytes t)"
    unfolding b by (cases a) (simp add: grown_def tape_add_def flat.simps tape_top_def)
  finally show ?thesis .
qed

lemma leaf_consumed:
  assumes "tape_leaf cap a key pl = Some (BB_OK, a')" "pl = payload_of t" "kids t = []" "str_bytes t = 0"
  shows "a' = grown a (flat (tape_top a) (length (tp_nodes a)) key t) (str_bytes t)"
  using assms by (cases a) (auto simp: tape_leaf_def grown_def tape_add_def flat.simps split: if_splits)

lemma consume_tree:
  "n = length (tp_nodes a) \<Longrightarrow> p = tape_top a \<Longrightarrow> tape_ok a \<Longrightarrow> json_key_len key \<le> BB_SERIALIZE_JSON_TOK_KEY_MAX_LEN \<Longrightarrow>
    top_has_room a 1 \<Longrightarrow> n + tree_size t \<le> cap \<Longrightarrow> fits (length (tp_stack a)) (key_size key) t \<Longrightarrow> recordable t \<Longrightarrow>
    tp_bytes a + str_bytes t \<le> acap \<Longrightarrow>
    consume (tape_step cap acap) a (events key t) = Some (BB_OK, grown a (flat p n key t) (str_bytes t))"
  "n = length (tp_nodes a) \<Longrightarrow> p = tape_top a \<Longrightarrow> tape_ok a \<Longrightarrow> top_has_room a (length cs) \<Longrightarrow> n + forest_size cs \<le> cap \<Longrightarrow>
    \<forall>(key, u) \<in> set cs. json_key_len key \<le> BB_SERIALIZE_JSON_TOK_KEY_MAX_LEN \<and> fits (length (tp_stack a)) (key_size key) u \<and> recordable u \<Longrightarrow>
    tp_bytes a + strs_bytes cs \<le> acap \<Longrightarrow>
    consume (tape_step cap acap) a (forest_events cs) = Some (BB_OK, grown a (flats p n cs) (strs_bytes cs))"
proof (induction p n key t and p n cs arbitrary: a and a rule: flat_flats.induct)
  case (1 p n key t)
  have room: "tape_room cap a key" using "1.prems" by (simp add: room_iff tree_size_kids)
  have rec: "length (kids t) \<le> 0xFFFF" "\<forall>(key, u) \<in> set (kids t). json_key_len key \<le> BB_SERIALIZE_JSON_TOK_KEY_MAX_LEN \<and> recordable u"
    "case t of JStr s \<Rightarrow> length s < 2 ^ 32 | _ \<Rightarrow> True"
    using "1.prems"(8) by (simp_all add: recordable.simps [of t])
  have leaf: "?case" if "consume (tape_step cap acap) a (events key t) = tape_leaf cap a key (payload_of t)" "kids t = []" "str_bytes t = 0"
    using leaf_consumed [OF _ refl that(2,3), of cap a key] room that(1) "1.prems"(1,2) by (auto simp: tape_leaf_def)
  have inner: "consume (tape_step cap acap) a1 (forest_events (kids t)) = Some (BB_OK, grown a1 (flats (Some n) (n + 1) (kids t)) (strs_bytes (kids t)))"
    if "tape_ok a1" "length (tp_stack a1) = length (tp_stack a) + 1" "length (tp_nodes a1) = n + 1"
      "tape_top a1 = Some n" "tp_bytes a1 = tp_bytes a" "top_has_room a1 (length (kids t))" for a1
    by (rule "1.IH" [OF _ _ that(1,6)])
      (use that "1.prems" rec fits_kids [OF "1.prems"(7)] in \<open>auto simp: tree_size_kids str_bytes_kids [of t]\<close>)
  have b: "str_bytes t = strs_bytes (kids t)" if "\<forall>s. t \<noteq> JStr s"
    using str_bytes_kids [of t] that by (cases t) simp_all
  show ?case
  proof (cases t)
    case (JObj ms)
    show ?thesis unfolding JObj events_kids unfolding JObj [symmetric] "1.prems"(1,2)
      by (rule container_consumed [OF "1.prems"(3) room _ _ rec(1) b inner [unfolded "1.prems"(1)]]) (use "1.prems"(1,7) JObj in simp_all)
  next
    case (JArr ts)
    show ?thesis unfolding JArr events_kids unfolding JArr [symmetric] "1.prems"(1,2)
      by (rule container_consumed [OF "1.prems"(3) room _ _ rec(1) b inner [unfolded "1.prems"(1)]]) (use "1.prems"(1,7) JArr in simp_all)
  next
    case (JStr s)
    then show ?thesis using "1.prems" room rec(3)
      by (cases a) (auto simp: str_bytes_kids grown_def tape_add_def flat.simps)
  next
    case (JNum n)
    then show ?thesis using leaf "1.prems"(7) by (simp add: consume_one str_bytes_kids del: consume.simps)
  qed (use leaf in \<open>simp_all add: consume_one str_bytes_kids del: consume.simps\<close>)
next
  case (2 p n)
  then show ?case by (simp add: forest_events_def grown_def)
next
  case (3 p n key t cs)
  let ?a = "grown a (flat p n key t) (str_bytes t)"
  have "consume (tape_step cap acap) a (events key t) = Some (BB_OK, ?a)"
    using "3.prems" by (intro "3.IH"(1)) (auto simp: top_has_room_def)
  moreover have "consume (tape_step cap acap) ?a (forest_events cs) = Some (BB_OK, grown ?a (flats p (n + tree_size t) cs) (strs_bytes cs))"
  proof (rule "3.IH"(2))
    show "tape_ok ?a" using grown_ok [OF "3.prems"(3)] "3.prems"(1,2) by simp
    show "top_has_room ?a (length cs)"
      using "3.prems"(4) top_below [OF "3.prems"(3)] "3.prems"(1,2) by (auto simp: top_has_room_def kid_count_append kid_count_flat)
  qed (use "3.prems" in \<open>auto simp: flat_length\<close>)
  ultimately show ?case by (simp add: forest_events_def consume_append grown_grown)
qed

section \<open>Navigation\<close>

definition child_idxs :: "node list \<Rightarrow> nat \<Rightarrow> nat list" where
  "child_idxs ns i = filter (\<lambda>j. fst (ns ! j) = Some i) [i + 1..<length ns]"

lemma kid_count_idxs: "length (child_idxs ns i) \<le> kid_count ns i"
proof -
  have "length (child_idxs ns i) = card (set (child_idxs ns i))" by (rule distinct_card [symmetric]) (simp add: child_idxs_def)
  also have "\<dots> \<le> card {j. j < length ns \<and> fst (ns ! j) = Some i}" by (rule card_mono) (auto simp: child_idxs_def)
  finally show ?thesis by (simp add: kid_count_def length_filter_conv_card)
qed

abbreviation holds :: "(string \<Rightarrow> 'f) \<Rightarrow> 'f bb_serialize_json_tok_recorder_t \<Rightarrow> node list \<Rightarrow> bool" where
  "holds strtod r ns \<equiv> pool_rel strtod (length (rc_pool r)) (length ns) r ns"

lemma nav_valid: "holds strtod r ns \<Longrightarrow> tok_valid (Some r) (int j) \<longleftrightarrow> j < length ns"
  by (simp add: tok_valid_def pool_rel_def)

lemma nav_node:
  assumes rel: "holds strtod r ns" and "j < length ns"
  shows "head_rel ns j (tok_at (Some r) (int j))" "payload_rel strtod r (snd (snd (ns ! j))) (tok_at (Some r) (int j))"
    "bb_serialize_json_tok_idx_t j = int j"
  using assms by (auto simp: tok_at_def pool_rel_def intro: idx_small)

lemma nav_parent: "holds strtod r ns \<Longrightarrow> j < length ns \<Longrightarrow> tk_parent (tok_at (Some r) (int j)) = int i \<longleftrightarrow> fst (ns ! j) = Some i"
  using nav_node(1) [of strtod r ns j] by (auto simp: head_rel_def parent_idx_def BB_SERIALIZE_JSON_TOK_ABSENT_def split: option.splits)

lemma nav_arr_loop:
  assumes rel: "holds strtod r ns" and "\<forall>j \<in> set js. j < length ns" and "seen \<le> e"
  shows "arr_at_loop (Some r) (int i) e seen js =
    (let ks = filter (\<lambda>j. fst (ns ! j) = Some i) js in
     if e - seen < length ks then int (ks ! (e - seen)) else BB_SERIALIZE_JSON_TOK_ABSENT)"
  using assms(2-)
proof (induction js arbitrary: seen)
  case (Cons j js)
  then show ?case using Cons.IH [of seen] Cons.IH [of "seen + 1"] nav_parent [OF rel, of j i] nav_node(3) [OF rel, of j]
    by (cases "seen = e") (auto simp: Let_def nth_Cons' Suc_diff_le)
qed simp

lemma nav_obj_loop:
  assumes rel: "holds strtod r ns" and "\<forall>j \<in> set js. j < length ns" and "length (filter (\<lambda>j. fst (ns ! j) = Some i) js) \<le> unat n"
  shows "obj_get_loop (Some r) (int i) key n js =
    (case find (\<lambda>j. fst (snd (ns ! j)) = key) (filter (\<lambda>j. fst (ns ! j) = Some i) js) of
       None \<Rightarrow> BB_SERIALIZE_JSON_TOK_ABSENT | Some j \<Rightarrow> int j)"
  using assms(2-)
proof (induction js arbitrary: n)
  case (Cons j js)
  have key: "tk_key (tok_at (Some r) (int j)) = fst (snd (ns ! j))" using nav_node(1) [OF rel, of j] Cons.prems by (simp add: head_rel_def)
  show ?case
  proof (cases "fst (ns ! j) = Some i")
    case True
    then have n: "n \<noteq> 0" using Cons.prems(2) by auto
    moreover have "unat (n - 1) = unat n - 1" by (rule unat_minus_one [OF n])
    ultimately show ?thesis using Cons True key nav_parent [OF rel, of j i] nav_node(3) [OF rel, of j] by auto
  next
    case False
    then have "n = 0 \<Longrightarrow> filter (\<lambda>j. fst (ns ! j) = Some i) js = []" using Cons.prems(2) by simp
    then show ?thesis using Cons False nav_parent [OF rel, of j i] by auto
  qed
qed simp

text \<open>What navigation answers, in terms of the tape.\<close>

lemma nav_kind:
  assumes rel: "holds strtod r ns" and i: "i < length ns"
  shows "bb_serialize_json_tok_is_obj (Some r) (int i) \<longleftrightarrow> snd (snd (ns ! i)) = P_obj"
    "bb_serialize_json_tok_is_arr (Some r) (int i) \<longleftrightarrow> snd (snd (ns ! i)) = P_arr"
    "bb_serialize_json_tok_is_null (Some r) (int i) \<longleftrightarrow> snd (snd (ns ! i)) = P_null"
  using nav_valid [OF rel, of i] i nav_node(2) [OF rel i]
  by (cases "snd (snd (ns ! i))"; auto simp: bb_serialize_json_tok_is_obj_def bb_serialize_json_tok_is_arr_def
    bb_serialize_json_tok_is_null_def payload_rel_def)+

lemma nav_arr_at:
  assumes rel: "holds strtod r ns" and i: "i < length ns" and arr: "snd (snd (ns ! i)) = P_arr"
  shows "bb_serialize_json_tok_arr_at (Some r) (int i) e =
    (if e < length (child_idxs ns i) then int (child_idxs ns i ! e) else BB_SERIALIZE_JSON_TOK_ABSENT)"
proof -
  have "rc_pool_n r = length ns" using rel by (simp add: pool_rel_def)
  then show ?thesis using nav_kind(2) [OF rel i] arr nav_arr_loop [OF rel, of "[i + 1..<length ns]" 0 e i]
    by (simp add: bb_serialize_json_tok_arr_at_def child_idxs_def Let_def)
qed

lemma nav_child_count:
  assumes rel: "holds strtod r ns" and i: "i < length ns"
  shows "unat (tk_child_count (tok_at (Some r) (int i))) = kid_count ns i"
  using nav_node(1) [OF rel i] by (simp add: head_rel_def unat_of_nat)

lemma nav_arr_size:
  assumes rel: "holds strtod r ns" and i: "i < length ns" and arr: "snd (snd (ns ! i)) = P_arr"
  shows "bb_serialize_json_tok_arr_size (Some r) (int i) = int (kid_count ns i)"
  using nav_kind(2) [OF rel i] arr nav_child_count [OF rel i] by (simp add: bb_serialize_json_tok_arr_size_def uint_nat)

lemma nav_obj_get:
  assumes rel: "holds strtod r ns" and i: "i < length ns" and obj: "snd (snd (ns ! i)) = P_obj"
  shows "bb_serialize_json_tok_obj_get (Some r) (int i) key =
    (case find (\<lambda>j. fst (snd (ns ! j)) = key) (child_idxs ns i) of None \<Rightarrow> BB_SERIALIZE_JSON_TOK_ABSENT | Some j \<Rightarrow> int j)"
proof -
  have "rc_pool_n r = length ns" using rel by (simp add: pool_rel_def)
  moreover have "length (filter (\<lambda>j. fst (ns ! j) = Some i) [i + 1..<length ns]) \<le> unat (tk_child_count (tok_at (Some r) (int i)))"
    using kid_count_idxs [of ns i] nav_child_count [OF rel i] by (simp add: child_idxs_def)
  ultimately show ?thesis using nav_kind(1) [OF rel i] obj nav_obj_loop [OF rel, of "[i + 1..<length ns]" i _ key]
    by (simp add: bb_serialize_json_tok_obj_get_def child_idxs_def)
qed

section \<open>Positions of children\<close>

fun kid_pos :: "nat \<Rightarrow> (json_key \<times> json) list \<Rightarrow> nat list" where
  "kid_pos m [] = []"
| "kid_pos m ((key, t) # cs) = m # kid_pos (m + tree_size t) cs"

lemma kid_pos_length [simp]: "length (kid_pos m cs) = length cs"
  by (induction m cs rule: kid_pos.induct) simp_all

lemma flat_inner_parent:
  assumes "0 < k" and "k < tree_size t"
  shows "\<exists>i. fst (flat p n key t ! k) = Some i \<and> n \<le> i \<and> i < n + tree_size t"
proof (rule flat_parents(1))
  have "flat p n key t ! k = tl (flat p n key t) ! (k - 1)" using assms(1) by (simp add: flat.simps nth_Cons')
  then show "flat p n key t ! k \<in> set (tl (flat p n key t))" using assms flat_length(1) [of p n key t] by (metis One_nat_def diff_less_mono length_tl nth_mem Suc_leI)
qed

lemma tree_size_pos: "0 < tree_size t"
  by (simp add: tree_size_kids)

lemma filter_flats:
  "ns = pre @ flats (Some i) m cs @ post \<Longrightarrow> length pre = m \<Longrightarrow> i < m \<Longrightarrow>
    filter (\<lambda>j. fst (ns ! j) = Some i) [m..<m + forest_size cs] = kid_pos m cs"
proof (induction cs arbitrary: pre m)
  case (Cons c cs)
  obtain key t where c: "c = (key, t)" by (cases c)
  let ?x = "flat (Some i) m key t"
  have ns: "ns = (pre @ ?x) @ flats (Some i) (m + tree_size t) cs @ post" using Cons.prems(1) c by simp
  have nth: "ns ! (m + k) = ?x ! k" if "k < tree_size t" for k
    using ns Cons.prems(2) that by (simp add: nth_append flat_length)
  have "fst (ns ! j) \<noteq> Some i" if "j \<in> set [m + 1..<m + tree_size t]" for j
  proof -
    have j: "0 < j - m" "j - m < tree_size t" "m + (j - m) = j" using that by auto
    then show ?thesis using nth [OF j(2)] flat_inner_parent [OF j(1,2), of "Some i" m key] Cons.prems(3) by auto
  qed
  then have inner: "filter (\<lambda>j. fst (ns ! j) = Some i) [m + 1..<m + tree_size t] = []" by (simp add: filter_empty_conv)
  have "fst (ns ! m) = Some i" using nth [of 0] tree_size_pos [of t] by (simp add: flat.simps)
  moreover have "[m..<m + forest_size ((key, t) # cs)] = m # [m + 1..<m + tree_size t] @ [m + tree_size t..<m + tree_size t + forest_size cs]"
    using tree_size_pos [of t] upt_add_eq_append [of m "m + tree_size t" "forest_size cs"] by (simp add: upt_conv_Cons add.assoc)
  moreover have "filter (\<lambda>j. fst (ns ! j) = Some i) [m + tree_size t..<m + tree_size t + forest_size cs] = kid_pos (m + tree_size t) cs"
    by (rule Cons.IH [OF ns]) (use Cons.prems in \<open>simp_all add: flat_length\<close>)
  ultimately show ?case using inner c by simp
qed simp

text \<open>The nodes of a tree, with what comes before and after: no parent of a node before or after it lies inside.\<close>

definition tree_at :: "node list \<Rightarrow> nat \<Rightarrow> json_key \<Rightarrow> json \<Rightarrow> bool" where
  "tree_at ns n key t \<longleftrightarrow>
     (\<exists>pre p post. ns = pre @ flat p n key t @ post \<and> length pre = n \<and>
        (\<forall>i. p = Some i \<longrightarrow> i < n) \<and> (\<forall>x \<in> set pre. \<forall>i. fst x = Some i \<longrightarrow> i < n) \<and>
        (\<forall>x \<in> set post. \<forall>i. fst x = Some i \<longrightarrow> \<not> (n \<le> i \<and> i < n + tree_size t)))"

lemma tree_at_node:
  assumes "tree_at ns n key t"
  shows "n < length ns" "fst (snd (ns ! n)) = key_text key" "snd (snd (ns ! n)) = payload_of t"
  using assms tree_size_pos [of t] by (auto simp: tree_at_def flat_length flat.simps nth_append)

lemma child_positions:
  assumes "tree_at ns n key t"
  shows "child_idxs ns n = kid_pos (n + 1) (kids t)" "kid_count ns n = length (kids t)"
proof -
  obtain pre p post where ns: "ns = pre @ flat p n key t @ post" and n: "length pre = n"
    and pre: "\<forall>i. p = Some i \<longrightarrow> i < n" "\<forall>x \<in> set pre. \<forall>i. fst x = Some i \<longrightarrow> i < n"
    and post: "\<forall>x \<in> set post. \<forall>i. fst x = Some i \<longrightarrow> \<not> (n \<le> i \<and> i < n + tree_size t)" using assms unfolding tree_at_def by blast
  let ?h = "(p, key_text key, payload_of t)"
  have ns': "ns = (pre @ [?h]) @ flats (Some n) (n + 1) (kids t) @ post" using ns by (simp add: flat.simps)
  have "filter (\<lambda>j. fst (ns ! j) = Some n) [n + 1..<n + 1 + forest_size (kids t)] = kid_pos (n + 1) (kids t)"
    by (rule filter_flats [OF ns']) (use n in simp_all)
  moreover have "filter (\<lambda>j. fst (ns ! j) = Some n) [n + tree_size t..<length ns] = []"
  proof -
    have "fst (ns ! j) \<noteq> Some n" if "n + tree_size t \<le> j" "j < length ns" for j
    proof -
      have "ns ! j \<in> set post" using ns n that by (auto simp: nth_append flat_length)
      then show ?thesis using post tree_size_pos [of t] by fastforce
    qed
    then show ?thesis by (simp add: filter_empty_conv)
  qed
  moreover have "[n + 1..<length ns] = [n + 1..<n + tree_size t] @ [n + tree_size t..<length ns]"
    using upt_add_eq_append [of "n + 1" "n + tree_size t" "length post"] ns n tree_size_pos [of t] by (simp add: flat_length add.assoc)
  ultimately show "child_idxs ns n = kid_pos (n + 1) (kids t)" by (simp add: child_idxs_def tree_size_kids)
  have "kid_count pre n = 0" "kid_count post n = 0" "p \<noteq> Some n"
    using pre post tree_size_pos [of t] by (fastforce simp: kid_count_def filter_empty_conv)+
  then show "kid_count ns n = length (kids t)" using ns by (simp add: kid_count_append kid_count_Cons flat.simps kid_count_flats)
qed

lemma flats_nth:
  assumes "j < length cs"
  shows "\<exists>A B. flats p m cs = A @ flat p (kid_pos m cs ! j) (fst (cs ! j)) (snd (cs ! j)) @ B \<and> m + length A = kid_pos m cs ! j \<and>
    kid_pos m cs ! j + tree_size (snd (cs ! j)) \<le> m + forest_size cs \<and>
    (\<forall>x \<in> set A. fst x = p \<or> (\<exists>i. fst x = Some i \<and> i < kid_pos m cs ! j)) \<and>
    (\<forall>x \<in> set B. fst x = p \<or> (\<exists>i. fst x = Some i \<and> kid_pos m cs ! j + tree_size (snd (cs ! j)) \<le> i))"
  using assms
proof (induction cs arbitrary: m j)
  case (Cons c cs)
  obtain key t where c: "c = (key, t)" by (cases c)
  show ?case
  proof (cases j)
    case 0
    have "\<forall>x \<in> set (flats p (m + tree_size t) cs). fst x = p \<or> (\<exists>i. fst x = Some i \<and> m + tree_size t \<le> i)"
      using flat_parents(2) by fastforce
    then show ?thesis using 0 c by (intro exI [of _ "[]"] exI [of _ "flats p (m + tree_size t) cs"]) auto
  next
    case (Suc i)
    then have "i < length cs" using Cons.prems by simp
    from Cons.IH [OF this, of "m + tree_size t"] obtain A B where
      *: "flats p (m + tree_size t) cs = A @ flat p (kid_pos (m + tree_size t) cs ! i) (fst (cs ! i)) (snd (cs ! i)) @ B"
        "m + tree_size t + length A = kid_pos (m + tree_size t) cs ! i"
        "kid_pos (m + tree_size t) cs ! i + tree_size (snd (cs ! i)) \<le> m + tree_size t + forest_size cs"
        "\<forall>x \<in> set A. fst x = p \<or> (\<exists>k. fst x = Some k \<and> k < kid_pos (m + tree_size t) cs ! i)"
        "\<forall>x \<in> set B. fst x = p \<or> (\<exists>k. fst x = Some k \<and> kid_pos (m + tree_size t) cs ! i + tree_size (snd (cs ! i)) \<le> k)" by blast
    have "fst x = p \<or> (\<exists>k. fst x = Some k \<and> k < kid_pos (m + tree_size t) cs ! i)" if "x \<in> set (flat p m key t)" for x
    proof (cases "x \<in> set (tl (flat p m key t))")
      case True
      then show ?thesis using flat_parents(1) *(2) by fastforce
    next
      case False
      then show ?thesis using that by (simp add: flat.simps)
    qed
    then show ?thesis using Suc c *
      by (intro exI [of _ "flat p m key t @ A"] exI [of _ B]) (auto simp: flat_length)
  qed
qed simp

lemma tree_at_kid:
  assumes at: "tree_at ns n key t" and j: "j < length (kids t)"
  shows "tree_at ns (kid_pos (n + 1) (kids t) ! j) (fst (kids t ! j)) (snd (kids t ! j))"
proof -
  obtain pre p post where ns: "ns = pre @ flat p n key t @ post" and n: "length pre = n"
    and pre: "\<forall>i. p = Some i \<longrightarrow> i < n" "\<forall>x \<in> set pre. \<forall>i. fst x = Some i \<longrightarrow> i < n"
    and post: "\<forall>x \<in> set post. \<forall>i. fst x = Some i \<longrightarrow> \<not> (n \<le> i \<and> i < n + tree_size t)" using at unfolding tree_at_def by blast
  let ?m = "kid_pos (n + 1) (kids t) ! j" and ?u = "snd (kids t ! j)"
  obtain A B where ab: "flats (Some n) (n + 1) (kids t) = A @ flat (Some n) ?m (fst (kids t ! j)) ?u @ B" "n + 1 + length A = ?m"
    "?m + tree_size ?u \<le> n + 1 + forest_size (kids t)" "\<forall>x \<in> set A. fst x = Some n \<or> (\<exists>i. fst x = Some i \<and> i < ?m)"
    "\<forall>x \<in> set B. fst x = Some n \<or> (\<exists>i. fst x = Some i \<and> ?m + tree_size ?u \<le> i)"
    using flats_nth [OF j, of "Some n" "n + 1"] by blast
  have "ns = (pre @ (p, key_text key, payload_of t) # A) @ flat (Some n) ?m (fst (kids t ! j)) ?u @ (B @ post)"
    using ns ab(1) by (simp add: flat.simps [of p n key t])
  moreover have "length (pre @ (p, key_text key, payload_of t) # A) = ?m" using n ab(2) by simp
  moreover have "\<forall>x \<in> set (B @ post). \<forall>i. fst x = Some i \<longrightarrow> \<not> (?m \<le> i \<and> i < ?m + tree_size ?u)"
    using ab(2,3,5) post by (fastforce simp: tree_size_kids [of t])
  moreover have "\<forall>x \<in> set (pre @ (p, key_text key, payload_of t) # A). \<forall>i. fst x = Some i \<longrightarrow> i < ?m"
    using ab(2,4) pre by fastforce
  moreover have "\<forall>i. Some n = Some i \<longrightarrow> i < ?m" using ab(2) by simp
  ultimately show ?thesis unfolding tree_at_def by blast
qed

section \<open>What the pool represents\<close>

text \<open>Reading a tree back through the accessors. A key leads to the first member that has it.\<close>

inductive represents :: "(string \<Rightarrow> 'f) \<Rightarrow> 'f bb_serialize_json_tok_recorder_t \<Rightarrow> int \<Rightarrow> json \<Rightarrow> bool"
  for strtod r
where
  rep_obj: "bb_serialize_json_tok_is_obj (Some r) i \<Longrightarrow>
    (\<And>k t. map_of ms k = Some t \<Longrightarrow> represents strtod r (bb_serialize_json_tok_obj_get (Some r) i k) t) \<Longrightarrow>
    (\<And>k. map_of ms k = None \<Longrightarrow> bb_serialize_json_tok_obj_get (Some r) i k = BB_SERIALIZE_JSON_TOK_ABSENT) \<Longrightarrow>
    represents strtod r i (JObj ms)"
| rep_arr: "bb_serialize_json_tok_is_arr (Some r) i \<Longrightarrow> bb_serialize_json_tok_arr_size (Some r) i = int (length ts) \<Longrightarrow>
    (\<And>j. j < length ts \<Longrightarrow> represents strtod r (bb_serialize_json_tok_arr_at (Some r) i j) (ts ! j)) \<Longrightarrow>
    (\<And>j. length ts \<le> j \<Longrightarrow> bb_serialize_json_tok_arr_at (Some r) i j = BB_SERIALIZE_JSON_TOK_ABSENT) \<Longrightarrow>
    represents strtod r i (JArr ts)"
| rep_str: "bb_serialize_json_tok_get_str (Some r) i = Some (p, length s) \<Longrightarrow> tok_bytes r p (length s) = s \<Longrightarrow>
    represents strtod r i (JStr s)"
| rep_num: "bb_serialize_json_tok_get_f64 zero (Some r) i = Some (strtod n) \<Longrightarrow>
    bb_serialize_json_tok_get_i64 (Some r) i = (if inexact n then None else Some (strtoll n)) \<Longrightarrow> represents strtod r i (JNum n)"
| rep_bool: "bb_serialize_json_tok_get_bool (Some r) i = Some b \<Longrightarrow> represents strtod r i (JBool b)"
| rep_null: "bb_serialize_json_tok_is_null (Some r) i \<Longrightarrow> represents strtod r i JNull"

lemma map_of_first: "map_of ms k = Some t \<Longrightarrow> \<exists>i < length ms. ms ! i = (k, t) \<and> (\<forall>j < i. fst (ms ! j) \<noteq> k)"
proof (induction ms)
  case (Cons m ms)
  show ?case
  proof (cases "fst m = k")
    case True
    then show ?thesis using Cons.prems by (intro exI [of _ 0]) (cases m, simp)
  next
    case False
    then obtain i where "i < length ms" "ms ! i = (k, t)" "\<forall>j < i. fst (ms ! j) \<noteq> k" using Cons by (cases m) auto
    then show ?thesis using False by (intro exI [of _ "Suc i"]) (auto simp: nth_Cons')
  qed
qed simp

lemma tree_represented:
  assumes rel: "holds strtod r ns" and at: "tree_at ns n key t"
  shows "represents strtod r (int n) t"
  using at
proof (induction "size t" arbitrary: t n key rule: less_induct)
  case less
  note node = tree_at_node [OF less.prems] and kp = child_positions [OF less.prems]
  have kid: "represents strtod r (int (kid_pos (n + 1) (kids t) ! j)) (snd (kids t ! j))" if "j < length (kids t)" for j
    using less.hyps [OF kids_smaller tree_at_kid [OF less.prems that]] that by (metis nth_mem prod.collapse)
  have pay: "payload_rel strtod r (payload_of t) (tok_at (Some r) (int n))" using nav_node(2) [OF rel node(1)] node(3) by simp
  have valid: "tok_valid (Some r) (int n)" using nav_valid [OF rel] node(1) by simp
  show ?case
  proof (cases t)
    case (JObj ms)
    have obj: "snd (snd (ns ! n)) = P_obj" using node(3) JObj by simp
    have kidkey: "fst (snd (ns ! (kid_pos (n + 1) (kids t) ! j))) = fst (ms ! j)" if "j < length ms" for j
      using tree_at_node(2) [OF tree_at_kid [OF less.prems, of j]] that JObj
      by (cases "ms ! j") (simp add: key_text_def key_of_def)
    show ?thesis unfolding JObj
    proof (rule rep_obj)
      show "bb_serialize_json_tok_is_obj (Some r) (int n)" using nav_kind(1) [OF rel node(1)] obj by simp
    next
      fix k u assume "map_of ms k = Some u"
      from map_of_first [OF this] obtain i where i: "i < length ms" "ms ! i = (k, u)" "\<forall>j < i. fst (ms ! j) \<noteq> k" by blast
      have "find (\<lambda>j. fst (snd (ns ! j)) = k) (kid_pos (n + 1) (kids t)) = Some (kid_pos (n + 1) (kids t) ! i)"
        unfolding find_Some_iff using i kidkey JObj by (intro exI [of _ i]) auto
      then show "represents strtod r (bb_serialize_json_tok_obj_get (Some r) (int n) k) u"
        using kid [of i] i JObj nav_obj_get [OF rel node(1) obj] kp(1) by simp
    next
      fix k assume "map_of ms k = None"
      then have "\<forall>j < length ms. fst (ms ! j) \<noteq> k" by (metis domIff dom_map_of_conv_image_fst imageI nth_mem)
      then have "find (\<lambda>j. fst (snd (ns ! j)) = k) (kid_pos (n + 1) (kids t)) = None"
        using kidkey JObj by (auto simp: find_None_iff in_set_conv_nth)
      then show "bb_serialize_json_tok_obj_get (Some r) (int n) k = BB_SERIALIZE_JSON_TOK_ABSENT"
        using nav_obj_get [OF rel node(1) obj] kp(1) by simp
    qed
  next
    case (JArr ts)
    have arr: "snd (snd (ns ! n)) = P_arr" using node(3) JArr by simp
    note nav = nav_arr_at [OF rel node(1) arr] nav_arr_size [OF rel node(1) arr]
    show ?thesis unfolding JArr
      by (rule rep_arr) (use nav_kind(2) [OF rel node(1)] arr nav kp kid JArr in \<open>auto split: if_splits\<close>)
  next
    case (JStr s)
    then obtain p m where "tk_type (tok_at (Some r) (int n)) = TOK_STR" "tk_v (tok_at (Some r) (int n)) = V_str p m" "unat m = length s"
      "tok_bytes r p (length s) = s" using pay by (auto simp: payload_rel_def)
    then show ?thesis unfolding JStr using valid
      by (intro rep_str [of _ _ p]) (simp_all add: bb_serialize_json_tok_get_str_def bb_serialize_json_tok_is_str_def)
  next
    case (JNum m)
    then show ?thesis using pay valid
      by (auto intro!: rep_num simp: payload_rel_def bb_serialize_json_tok_get_f64_def bb_serialize_json_tok_get_i64_def bb_serialize_json_tok_is_num_def)
  next
    case (JBool b)
    then show ?thesis using pay valid
      by (auto intro!: rep_bool simp: payload_rel_def bb_serialize_json_tok_get_bool_def bb_serialize_json_tok_is_bool_def)
  next
    case JNull
    then show ?thesis using pay valid by (auto intro!: rep_null simp: payload_rel_def bb_serialize_json_tok_is_null_def)
  qed
qed

section \<open>A recorded document\<close>

definition tape_empty :: tape where
  "tape_empty = \<lparr>tp_nodes = [], tp_stack = [], tp_bytes = 0\<rparr>"

lemma init_rel:
  assumes "bb_serialize_json_tok_recorder_init False (Some x) (Some pool) arena = (BB_OK, Some r)" and "length pool \<le> 2 ^ 31"
  shows "tok_rel strtod x (length pool) (case arena of None \<Rightarrow> 0 | Some a \<Rightarrow> length a) r tape_empty"
  using assms by (auto simp: bb_serialize_json_tok_recorder_init_def tok_rel_def pool_rel_def stack_rel_def arena_rel_def
    tape_empty_def rc_arena_cap_def split: if_splits)

lemma rel_holds: "tok_rel strtod buf cap acap r a \<Longrightarrow> holds strtod r (tp_nodes a)"
  by (auto simp: tok_rel_def pool_rel_def)

lemma recorded_reads_back:
  assumes "document t x" and "fits 0 0 t" and "recordable t"
    and "bb_serialize_json_tok_recorder_init False (Some x) (Some pool) arena = (BB_OK, Some r)"
    and "tree_size t \<le> length pool" and "length pool \<le> 2 ^ 31" and "str_bytes t \<le> (case arena of None \<Rightarrow> 0 | Some a \<Rightarrow> length a)"
  shows "\<exists>r'. bb_serialize_json_scan_bounded (bb_serialize_json_tok_recorder_ingest strtod) r x = (BB_OK, r') \<and>
    represents strtod r' (bb_serialize_json_tok_root (Some r')) t"
proof -
  let ?acap = "case arena of None \<Rightarrow> 0 | Some a \<Rightarrow> length a"
  let ?a = "grown tape_empty (flat None 0 None t) (str_bytes t)"
  have "consume (tape_step (length pool) ?acap) tape_empty (events None t) = Some (BB_OK, ?a)"
    by (rule consume_tree(1))
      (use assms in \<open>simp_all add: tape_empty_def tape_ok_def tape_top_def top_has_room_def json_key_len_def key_size_def\<close>)
  from tok.document_read [OF TrueI assms(1,2) init_rel [OF assms(4,6)] this]
  obtain r' where r': "bb_serialize_json_scan_bounded (bb_serialize_json_tok_recorder_ingest strtod) r x = (BB_OK, r')"
    "tok_rel strtod x (length pool) ?acap r' ?a" by blast
  have ns: "tp_nodes ?a = flat None 0 None t" by (simp add: tape_empty_def)
  have "tree_at (tp_nodes ?a) 0 None t" unfolding ns tree_at_def by (intro exI [of _ "[]"] exI [of _ None]) simp
  then have "represents strtod r' (int 0) t" by (rule tree_represented [OF rel_holds [OF r'(2)]])
  moreover have "bb_serialize_json_tok_root (Some r') = 0"
    using r'(2) tree_size_pos [of t] ns by (simp add: bb_serialize_json_tok_root_def tok_rel_def pool_rel_def flat_length)
  ultimately show ?thesis using r'(1) by auto
qed

text \<open>C31: a document whose tree fits the pool, the arena and the fixed arrays, whatever its blanks and escapes, is
  recorded without error, and the accessors read its tree back from the root.\<close>

theorem recorded_document_reads_back:
  assumes "document t x" and "fits 0 0 t" and "recordable t"
    and "bb_serialize_json_tok_recorder_init False (Some x) (Some pool) arena = (BB_OK, Some r)"
    and "tree_size t \<le> length pool" and "length pool \<le> 2 ^ 31" and "str_bytes t \<le> (case arena of None \<Rightarrow> 0 | Some a \<Rightarrow> length a)"
  shows "\<exists>r'. bb_serialize_json_scan_bounded (bb_serialize_json_tok_recorder_ingest strtod) r x = (BB_OK, r') \<and>
    represents strtod r' (bb_serialize_json_tok_root (Some r')) t"
  by (rule recorded_reads_back [OF assms])

lemmas tree_shapes = recordable.simps [of "JObj ms" for ms] recordable.simps [of "JStr s" for s]
  tree_size.simps [of "JObj ms" for ms] tree_size.simps [of "JStr s" for s]
  str_bytes.simps [of "JObj ms" for ms] str_bytes.simps [of "JStr s" for s]

definition sample_json :: json where "sample_json = JObj [(''a'', JStr [CHR 0x0A])]"

definition sample_doc :: string where
  "sample_doc = ''{'' @ [CHR 0x22] @ ''a'' @ [CHR 0x22] @ '': '' @ [CHR 0x22, CHR 0x5C] @ ''n'' @ [CHR 0x22] @ ''}''"

definition sample_recorder :: "nat bb_serialize_json_tok_recorder_t" where
  "sample_recorder =
     the (snd (bb_serialize_json_tok_recorder_init False (Some sample_doc) (Some (replicate 2 (tok_zero TOK_NULL))) (Some ''....'')))"

lemma sample_text: "document sample_json sample_doc"
proof -
  have n: "string_text [CHR 0x5C, CHR ''n''] [CHR 0x0A]"
    using str_escape [OF esc_simple [of "CHR ''n''" "CHR 0x0A"] str_end] by (simp add: simple_escape_def)
  have a: "string_text ''a'' ''a''" by (intro str_plain str_end) (simp add: plain_char_def)
  have e: "blanks []" "blanks '' ''" by (simp_all add: blanks_def is_ws_json_def)
  show ?thesis unfolding document_def sample_json_def sample_doc_def
    using r_obj [OF m_last [OF e(1) e(1) e(2) e(1) a r_str [OF n]]] e by (intro exI [of _ "[]"] exI) (auto intro: exI [of _ "[]"])
qed

theorem recorded_document_reads_back_witness:
  "\<exists>r'. bb_serialize_json_scan_bounded (bb_serialize_json_tok_recorder_ingest length) sample_recorder sample_doc = (BB_OK, r') \<and>
    represents length r' (bb_serialize_json_tok_root (Some r')) sample_json"
proof (rule recorded_document_reads_back [OF sample_text])
  show "bb_serialize_json_tok_recorder_init False (Some sample_doc) (Some (replicate 2 (tok_zero TOK_NULL))) (Some ''....'') =
      (BB_OK, Some sample_recorder)"
    by (simp add: bb_serialize_json_tok_recorder_init_def sample_recorder_def)
qed (simp_all add: sample_json_def BB_SERIALIZE_MAX_DEPTH_def BB_SERIALIZE_JSON_SCRATCH_MAX_BYTES_def BB_SERIALIZE_JSON_TOK_KEY_MAX_LEN_def
    tree_shapes json_key_len_def key_of_def)

end
