(* ===== verification/BB_JSON_Bound.thy ===== *)
theory BB_JSON_Bound
  imports BB_JSON_Render
begin

text \<open>
  The static size bound of \<^verbatim>\<open>bb_serialize_json_bound\<close>: its computation on \<^verbatim>\<open>size_t\<close>, with \<^verbatim>\<open>SIZE_MAX\<close> for no bound, what it
  promises to the render functions, and the arrays for which it does not keep that promise.
\<close>

section \<open>The code\<close>

definition SIZE_MAX :: u64 where "SIZE_MAX = - 1"

definition key_len :: "bb_serialize_field_t \<Rightarrow> nat" where
  "key_len f = (case f_key f of None \<Rightarrow> 0 | Some k \<Rightarrow> length k)"

text \<open>The functions below take the bound \<^verbatim>\<open>c\<close> of the children, one level deeper.\<close>

definition bb_json_bound_elem :: "bb_serialize_field_t \<Rightarrow> nat \<Rightarrow> u64 \<Rightarrow> u64" where
  "bb_json_bound_elem f depth c =
     (if f_elem_type f = BB_TYPE_STR then (if f_max_len f = 0 then SIZE_MAX else 6 * of_nat (f_max_len f) + 2)
      else if BB_SERIALIZE_MAX_DEPTH \<le> depth then 2
      else if c = SIZE_MAX then SIZE_MAX
      else 2 + c)"

definition bb_json_bound_value :: "bb_serialize_field_t \<Rightarrow> nat \<Rightarrow> u64 \<Rightarrow> u64" where
  "bb_json_bound_value f depth c =
     (case f_type f of
        BB_TYPE_I64 \<Rightarrow> 20
      | BB_TYPE_U64 \<Rightarrow> 20
      | BB_TYPE_F64 \<Rightarrow> 24 + of_nat BB_SERIALIZE_JSON_F64_DECIMALS
      | BB_TYPE_BOOL \<Rightarrow> 5
      | BB_TYPE_STR \<Rightarrow> if f_max_len f = 0 then SIZE_MAX else 6 * of_nat (f_max_len f) + 2
      | BB_TYPE_STR_N \<Rightarrow> if f_max_len f = 0 then SIZE_MAX else 6 * of_nat (f_max_len f) + 2
      | BB_TYPE_OBJ \<Rightarrow> if BB_SERIALIZE_MAX_DEPTH \<le> depth then 2 else if c = SIZE_MAX then SIZE_MAX else 2 + c
      | BB_TYPE_ARR \<Rightarrow>
          if f_cardinality f = BB_ARR_STREAM then SIZE_MAX
          else if f_max_items f = 0 then SIZE_MAX
          else let eb = bb_json_bound_elem f depth c
               in if eb = SIZE_MAX then SIZE_MAX else 2 + of_nat (f_max_items f) * (eb + 1)
      | BB_TYPE_REF \<Rightarrow> SIZE_MAX)"

definition bb_json_bound_field :: "bb_serialize_field_t \<Rightarrow> nat \<Rightarrow> u64 \<Rightarrow> u64" where
  "bb_json_bound_field f depth c =
     (let vmax = bb_json_bound_value f depth c
      in if vmax = SIZE_MAX then SIZE_MAX else (6 * of_nat (key_len f) + 3) + vmax + 1)"

fun bound_sum :: "u64 \<Rightarrow> u64 list \<Rightarrow> u64" where
  "bound_sum acc [] = acc"
| "bound_sum acc (c # cs) = (if c = SIZE_MAX then SIZE_MAX else bound_sum (acc + c) cs)"

function bb_json_bound_fields :: "walk_env \<Rightarrow> nat \<Rightarrow> nat \<Rightarrow> nat \<Rightarrow> u64" where
  "bb_json_bound_fields env fp n depth =
     bound_sum 0 (map (\<lambda>i. let f = we_table env fp i
                         in bb_json_bound_field f depth
                              (if BB_SERIALIZE_MAX_DEPTH \<le> depth then 0
                               else bb_json_bound_fields env (f_children f) (f_n_children f) (depth + 1))) [0..<n])"
  by pat_completeness auto
termination by (relation "measure (\<lambda>(env, fp, n, depth). BB_SERIALIZE_MAX_DEPTH - depth)") auto

declare bb_json_bound_fields.simps [simp del]

definition bb_serialize_json_bound :: "walk_env \<Rightarrow> bb_serialize_desc_t option \<Rightarrow> u64" where
  "bb_serialize_json_bound env desc =
     (case desc of None \<Rightarrow> 0
      | Some d \<Rightarrow> (let tot = bb_json_bound_fields env (d_fields d) (d_n_fields d) 0
                   in if tot = SIZE_MAX then SIZE_MAX else 2 + tot + 1))"

section \<open>The same without wrap-around\<close>

definition worst_elem :: "bb_serialize_field_t \<Rightarrow> nat \<Rightarrow> nat option \<Rightarrow> nat option" where
  "worst_elem f depth c =
     (if f_elem_type f = BB_TYPE_STR then (if f_max_len f = 0 then None else Some (6 * f_max_len f + 2))
      else if BB_SERIALIZE_MAX_DEPTH \<le> depth then Some 2 else map_option ((+) 2) c)"

definition worst_value :: "bb_serialize_field_t \<Rightarrow> nat \<Rightarrow> nat option \<Rightarrow> nat option" where
  "worst_value f depth c =
     (case f_type f of
        BB_TYPE_F64 \<Rightarrow> Some (24 + BB_SERIALIZE_JSON_F64_DECIMALS)
      | BB_TYPE_BOOL \<Rightarrow> Some 5
      | BB_TYPE_STR \<Rightarrow> if f_max_len f = 0 then None else Some (6 * f_max_len f + 2)
      | BB_TYPE_STR_N \<Rightarrow> if f_max_len f = 0 then None else Some (6 * f_max_len f + 2)
      | BB_TYPE_OBJ \<Rightarrow> if BB_SERIALIZE_MAX_DEPTH \<le> depth then Some 2 else map_option ((+) 2) c
      | BB_TYPE_ARR \<Rightarrow>
          if f_cardinality f = BB_ARR_STREAM \<or> f_max_items f = 0 then None
          else map_option (\<lambda>eb. 2 + f_max_items f * (eb + 1)) (worst_elem f depth c)
      | BB_TYPE_REF \<Rightarrow> None
      | _ \<Rightarrow> Some 20)"

definition worst_field :: "bb_serialize_field_t \<Rightarrow> nat \<Rightarrow> nat option \<Rightarrow> nat option" where
  "worst_field f depth c = map_option (\<lambda>v. (6 * key_len f + 3) + v + 1) (worst_value f depth c)"

fun opt_sum :: "nat option list \<Rightarrow> nat option" where
  "opt_sum [] = Some 0"
| "opt_sum (None # cs) = None"
| "opt_sum (Some c # cs) = map_option ((+) c) (opt_sum cs)"

function worst_fields :: "walk_env \<Rightarrow> nat \<Rightarrow> nat \<Rightarrow> nat \<Rightarrow> nat option" where
  "worst_fields env fp n depth =
     opt_sum (map (\<lambda>i. let f = we_table env fp i
                    in worst_field f depth
                         (if BB_SERIALIZE_MAX_DEPTH \<le> depth then Some 0
                          else worst_fields env (f_children f) (f_n_children f) (depth + 1))) [0..<n])"
  by pat_completeness auto
termination by (relation "measure (\<lambda>(env, fp, n, depth). BB_SERIALIZE_MAX_DEPTH - depth)") auto

declare worst_fields.simps [simp del]

text \<open>A bound that fits \<^verbatim>\<open>size_t\<close> is computed exactly.\<close>

definition exact :: "u64 \<Rightarrow> nat option \<Rightarrow> bool" where
  "exact b k \<longleftrightarrow> (case k of None \<Rightarrow> True | Some k \<Rightarrow> k < 2 ^ 64 - 1 \<longrightarrow> b = of_nat k)"

lemma exact_simps [simp]: "exact b None" "exact b (Some k) \<longleftrightarrow> (k < 2 ^ 64 - 1 \<longrightarrow> b = of_nat k)"
  by (simp_all add: exact_def)

lemma not_size_max: "k < 2 ^ 64 - 1 \<Longrightarrow> of_nat k \<noteq> SIZE_MAX"
proof
  assume k: "k < 2 ^ 64 - 1" and "of_nat k = SIZE_MAX"
  then have "unat (of_nat k :: u64) = unat (- 1 :: u64)" by (simp add: SIZE_MAX_def)
  moreover have "unat (of_nat k :: u64) = k" using k by (simp add: unat_of_nat take_bit_nat_eq_self)
  moreover have "unat (- 1 :: u64) = 2 ^ 64 - 1" by (simp add: unsigned_minus_1_eq_mask mask_eq_exp_minus_1)
  ultimately show False using k by simp
qed

lemma exact_map:
  assumes "exact b k" and "\<And>j. k = Some j \<Longrightarrow> j \<le> f j" and "\<And>j. k = Some j \<Longrightarrow> g (of_nat j) = of_nat (f j)"
  shows "exact (if b = SIZE_MAX then SIZE_MAX else g b) (map_option f k)"
proof (cases k)
  case (Some j)
  then show ?thesis using assms not_size_max [of j] by (auto simp: exact_def dest: le_less_trans)
qed (simp add: exact_def)

lemma exact_sum:
  assumes "list_all2 exact bs ks"
  shows "case opt_sum ks of None \<Rightarrow> True | Some k \<Rightarrow> k < 2 ^ 64 - 1 \<longrightarrow> bound_sum t bs = t + of_nat k"
  using assms
proof (induction arbitrary: t rule: list_all2_induct)
  case (Cons b bs k ks)
  show ?case
  proof (cases "k = None \<or> opt_sum ks = None")
    case True
    then show ?thesis by (cases k) auto
  next
    case False
    then obtain i j where ij: "k = Some i" "opt_sum ks = Some j" by auto
    then show ?thesis using Cons.IH [of "t + b"] Cons.hyps not_size_max [of i] by (auto simp: exact_def)
  qed
qed simp

lemma exact_total: "list_all2 exact bs ks \<Longrightarrow> exact (bound_sum 0 bs) (opt_sum ks)"
  using exact_sum [of bs ks 0] by (cases "opt_sum ks") simp_all

lemma elem_exact: "exact b k \<Longrightarrow> exact (bb_json_bound_elem f depth b) (worst_elem f depth k)"
  using exact_map [of b k "(+) 2" "(+) 2"] by (auto simp: bb_json_bound_elem_def worst_elem_def exact_def)

lemma value_exact: "exact b k \<Longrightarrow> exact (bb_json_bound_value f depth b) (worst_value f depth k)"
proof -
  assume b: "exact b k"
  have obj: "exact (if b = SIZE_MAX then SIZE_MAX else 2 + b) (map_option ((+) 2) k)" by (rule exact_map [OF b]) simp_all
  have arr: "exact (if bb_json_bound_elem f depth b = SIZE_MAX then SIZE_MAX else 2 + of_nat (f_max_items f) * (bb_json_bound_elem f depth b + 1))
      (map_option (\<lambda>eb. 2 + f_max_items f * (eb + 1)) (worst_elem f depth k))" if "f_max_items f \<noteq> 0"
  proof (rule exact_map [OF elem_exact [OF b]])
    show "j \<le> 2 + f_max_items f * (j + 1)" for j
    proof -
      have "1 * (j + 1) \<le> f_max_items f * (j + 1)" using that by (intro mult_le_mono1) simp
      then show ?thesis by simp
    qed
  qed (simp add: algebra_simps)
  show ?thesis unfolding bb_json_bound_value_def worst_value_def Let_def using obj arr by (cases "f_type f") simp_all
qed

lemma field_exact: "exact b k \<Longrightarrow> exact (bb_json_bound_field f depth b) (worst_field f depth k)"
  unfolding bb_json_bound_field_def worst_field_def Let_def by (rule exact_map [OF value_exact]) simp_all

lemma fields_exact: "exact (bb_json_bound_fields env fp n depth) (worst_fields env fp n depth)"
proof (induction "BB_SERIALIZE_MAX_DEPTH - depth" arbitrary: fp n depth rule: less_induct)
  case less
  have f: "exact (bb_json_bound_field f depth (if BB_SERIALIZE_MAX_DEPTH \<le> depth then 0 else bb_json_bound_fields env fp n (depth + 1)))
     (worst_field f depth (if BB_SERIALIZE_MAX_DEPTH \<le> depth then Some 0 else worst_fields env fp n (depth + 1)))" for f fp n
  proof (rule field_exact)
    show "exact (if BB_SERIALIZE_MAX_DEPTH \<le> depth then 0 else bb_json_bound_fields env fp n (depth + 1))
      (if BB_SERIALIZE_MAX_DEPTH \<le> depth then Some 0 else worst_fields env fp n (depth + 1))"
    proof (cases "BB_SERIALIZE_MAX_DEPTH \<le> depth")
      case False
      have "exact (bb_json_bound_fields env fp n (depth + 1)) (worst_fields env fp n (depth + 1))" by (rule less) (use False in simp)
      then show ?thesis using False by simp
    qed (simp add: exact_def)
  qed
  show ?case
    unfolding bb_json_bound_fields.simps [of env fp] worst_fields.simps [of env fp] Let_def
    by (rule exact_total) (use f in \<open>simp add: list_all2_map1 list_all2_map2 list_all2_same\<close>)
qed

section \<open>What the bound promises\<close>

text \<open>A snapshot within the hints of its descriptor, and no array of scalars.\<close>

function conforms :: "walk_env \<Rightarrow> nat \<Rightarrow> nat \<Rightarrow> mem \<Rightarrow> nat \<Rightarrow> nat \<Rightarrow> bool" where
  "conforms env fp n m snap depth \<longleftrightarrow>
     (\<forall>i \<in> set [0..<n]. let f = we_table env fp i; p = snap + f_offset f
       in (case f_present f of None \<Rightarrow> True | Some present \<Rightarrow> present m snap) \<longrightarrow>
          (case f_type f of
             BB_TYPE_STR_N \<Rightarrow> le_nat m p 8 \<noteq> 0 \<longrightarrow> le_nat m (p + 8) 8 \<le> f_max_len f
           | BB_TYPE_OBJ \<Rightarrow> \<not> BB_SERIALIZE_MAX_DEPTH \<le> depth \<longrightarrow> conforms env (f_children f) (f_n_children f) m p (depth + 1)
           | BB_TYPE_ARR \<Rightarrow>
               f_cardinality f = BB_ARR_FIXED \<longrightarrow> f_elem_type f \<in> {BB_TYPE_STR, BB_TYPE_OBJ} \<and>
                (le_nat m p 8 \<noteq> 0 \<longrightarrow> le_nat m (p + 8) 8 \<le> f_max_items f \<and>
                   (f_elem_type f = BB_TYPE_OBJ \<and> \<not> BB_SERIALIZE_MAX_DEPTH \<le> depth \<longrightarrow>
                      (\<forall>j \<in> set [0..<le_nat m (p + 8) 8].
                         conforms env (f_children f) (f_n_children f) m (le_nat m p 8 + j * f_elem_size f) (depth + 1))))
           | _ \<Rightarrow> True))"
  by pat_completeness auto
termination by (relation "measure (\<lambda>(env, fp, n, m, snap, depth). BB_SERIALIZE_MAX_DEPTH - depth)") auto

declare conforms.simps [simp del]

definition g_short :: "(u64 \<Rightarrow> string) \<Rightarrow> bool \<Rightarrow> bool" where
  "g_short g sh \<longleftrightarrow> (sh \<longrightarrow> (\<forall>v. length (g v) \<le> 24))"

lemma g_short_fits: "g_short g sh \<Longrightarrow> g_fits g sh"
  by (auto simp: g_short_def g_fits_def intro: le_less_trans)

lemma esc_text_length: "length (esc_text s) \<le> 6 * length s"
  by (induction s) (auto simp: esc_text_def esc_char_def Let_def)

lemma key_out_length: "length (key_out key) \<le> 6 * (case key of None \<Rightarrow> 0 | Some k \<Rightarrow> length k) + 3"
  using esc_text_length by (auto simp: key_out_def split: option.split)

lemma f64_text_length: "g_short g sh \<Longrightarrow> length (f64_text g sh v) \<le> 30"
proof -
  assume "g_short g sh"
  then have "sh \<Longrightarrow> length (g v) \<le> 24" by (simp add: g_short_def)
  then show ?thesis
    by (auto simp: f64_text_def f64_fixed_text_def Let_def BB_SERIALIZE_JSON_F64_DECIMALS_def
      intro: le_trans [OF dec_u64_length] le_trans [OF i64_text_length] split: option.split)
qed

text \<open>The length of items with a comma counted after each.\<close>

definition items_cost :: "string list \<Rightarrow> nat" where
  "items_cost xs = sum_list (map (\<lambda>x. length x + 1) xs)"

lemma items_length: "length (items_text h xs) \<le> items_cost xs"
proof (induction xs arbitrary: h)
  case (Cons x xs)
  show ?case using Cons.IH [of True] by (cases h) (simp_all add: items_cost_def)
qed (simp add: items_cost_def)

lemma items_cost_simps [simp]: "items_cost [] = 0" "items_cost (x # xs) = length x + 1 + items_cost xs" "items_cost (xs @ ys) = items_cost xs + items_cost ys"
  by (simp_all add: items_cost_def)

lemma opt_sum_bounds:
  "opt_sum (map F xs) = Some k \<Longrightarrow> (\<And>x c. x \<in> set xs \<Longrightarrow> F x = Some c \<Longrightarrow> items_cost (h x) \<le> c) \<Longrightarrow> items_cost (concat (map h xs)) \<le> k"
proof (induction xs arbitrary: k)
  case (Cons x xs)
  from Cons.prems(1) obtain c j where cj: "F x = Some c" "opt_sum (map F xs) = Some j" "k = c + j" by (cases "F x") auto
  have "items_cost (concat (map h xs)) \<le> j" by (rule Cons.IH [OF cj(2)]) (use Cons.prems(2) in auto)
  moreover have "items_cost (h x) \<le> c" by (rule Cons.prems(2) [OF _ cj(1)]) simp
  ultimately show ?case using cj(3) by simp
qed simp

lemma items_cost_all: "(\<And>x. x \<in> set xs \<Longrightarrow> length x \<le> b) \<Longrightarrow> items_cost xs \<le> length xs * (b + 1)"
proof (induction xs)
  case (Cons x xs)
  from Cons.IH Cons.prems have "items_cost xs \<le> length xs * (b + 1)" "length x \<le> b" by simp_all
  then show ?case by simp
qed simp

lemma arr_text_length:
  assumes "\<And>v. v \<in> set vs \<Longrightarrow> length (val_text g sh v) \<le> b" and "length vs \<le> n"
  shows "length (val_text g sh (SV_arr vs)) \<le> 2 + n * (b + 1)"
proof -
  have "length (items_text False (map (val_text g sh) vs)) \<le> length vs * (b + 1)"
    using items_length [of False "map (val_text g sh) vs"] items_cost_all [of "map (val_text g sh) vs" b] assms(1) by force
  also have "\<dots> \<le> n * (b + 1)" using assms(2) by (rule mult_le_mono1)
  finally show ?thesis by simp
qed

lemma str_text_length: "length s \<le> k \<Longrightarrow> length (val_text g sh (SV_str s)) \<le> 6 * k + 2"
  using esc_text_length [of s] by simp

lemma str_elem_length: "0 < k \<Longrightarrow> length (val_text g sh (str_elem m k a)) \<le> 6 * k + 2"
  using str_text_length [of "rd_chars m (le_nat m a 8) (strnlen m (le_nat m a 8) k)" k g sh] by (simp add: str_elem_def Let_def)

definition member_text :: "(u64 \<Rightarrow> string) \<Rightarrow> bool \<Rightarrow> json_key \<times> snap_val \<Rightarrow> string" where
  "member_text g sh = (\<lambda>(k, v). key_out k @ val_text g sh v)"

lemma obj_text_length: "length (val_text g sh (SV_obj ms)) \<le> 2 + items_cost (map (member_text g sh) ms)"
  using items_length [of False "map (member_text g sh) ms"] by (simp add: member_text_def)

text \<open>A field's member, if it is there.\<close>

lemma member_cost:
  assumes "worst_field f depth c = Some k" and "\<And>b. worst_value f depth c = Some b \<Longrightarrow> length (val_text g sh v) \<le> b"
  shows "items_cost (map (member_text g sh) [(f_key f, v)]) \<le> k"
proof -
  obtain b where b: "worst_value f depth c = Some b" "k = (6 * key_len f + 3) + b + 1" using assms(1) by (auto simp: worst_field_def)
  have "length (val_text g sh v) \<le> b" by (rule assms(2) [OF b(1)])
  then show ?thesis using b(2) key_out_length [of "f_key f"] by (simp add: member_text_def key_len_def)
qed

lemma members_length:
  assumes g: "g_short g sh"
  shows "conforms env fp n m snap depth \<Longrightarrow> worst_fields env fp n depth = Some k \<Longrightarrow>
    items_cost (map (member_text g sh) (snap_members env fp n m snap depth)) \<le> k"
proof (induction "BB_SERIALIZE_MAX_DEPTH - depth" arbitrary: fp n m snap depth k rule: less_induct)
  case less
  have IH: "length (val_text g sh (SV_obj (snap_members env fp n m snap (depth + 1)))) \<le> 2 + c"
    if "\<not> BB_SERIALIZE_MAX_DEPTH \<le> depth" "conforms env fp n m snap (depth + 1)" "worst_fields env fp n (depth + 1) = Some c" for fp n m snap c
    using less.hyps [OF _ that(2,3)] that(1) obj_text_length [of g sh "snap_members env fp n m snap (depth + 1)"] by fastforce
  show ?case
    unfolding snap_members.simps [of env fp] map_concat map_map
    apply (rule opt_sum_bounds [OF less.prems(2) [unfolded worst_fields.simps [of env fp]]])
    subgoal premises prems for i c
    proof -
      let ?f = "we_table env fp i" 
      let ?p = "snap + f_offset ?f" and ?c = "if BB_SERIALIZE_MAX_DEPTH \<le> depth then Some 0 else worst_fields env (f_children ?f) (f_n_children ?f) (depth + 1)"
      have w: "worst_field ?f depth ?c = Some c" using prems(2) by (simp add: Let_def)
      note cost = member_cost [OF w]
      note conf = less.prems(1) [unfolded conforms.simps [of env fp], rule_format, OF prems(1), unfolded Let_def]
      show ?thesis
      proof (cases "case f_present ?f of None \<Rightarrow> True | Some present \<Rightarrow> present m snap")
        case False
        then show ?thesis by (auto split: option.splits)
      next
        case True
        then have here: "\<not> (case f_present ?f of None \<Rightarrow> False | Some present \<Rightarrow> \<not> present m snap)" by (auto split: option.splits)
        show ?thesis
        proof (cases "f_type ?f")
          case BB_TYPE_I64
          then show ?thesis using here cost [of g sh "SV_I64 (rd64 m ?p)"] i64_text_length by (simp add: Let_def worst_value_def)
        next
          case BB_TYPE_U64
          then show ?thesis using here cost [of g sh "SV_U64 (rd64 m ?p)"] dec_u64_length by (simp add: Let_def worst_value_def)
        next
          case BB_TYPE_F64
          then show ?thesis using here cost [of g sh "SV_F64 (rd64 m ?p)"] f64_text_length [OF g]
            by (simp add: Let_def worst_value_def BB_SERIALIZE_JSON_F64_DECIMALS_def)
        next
          case BB_TYPE_BOOL
          then show ?thesis using here cost [of g sh "SV_bool (rd_bool m ?p)"] by (simp add: Let_def worst_value_def)
        next
          case BB_TYPE_STR
          have "items_cost (map (member_text g sh) [(f_key ?f, SV_str (rd_chars m ?p (strnlen m ?p (f_max_len ?f))))]) \<le> c"
            by (rule cost) (use BB_TYPE_STR str_text_length [of "rd_chars m ?p (strnlen m ?p (f_max_len ?f))" "f_max_len ?f"] in
              \<open>auto simp: worst_value_def split: if_splits\<close>)
          then show ?thesis using here BB_TYPE_STR by (simp add: Let_def)
        next
          case BB_TYPE_STR_N
          have len: "le_nat m ?p 8 \<noteq> 0 \<Longrightarrow> le_nat m (?p + 8) 8 \<le> f_max_len ?f" using conf True BB_TYPE_STR_N by simp
          have "items_cost (map (member_text g sh) [(f_key ?f, if le_nat m ?p 8 \<noteq> 0 then SV_str (rd_chars m (le_nat m ?p 8) (le_nat m (?p + 8) 8)) else SV_null)]) \<le> c"
            by (rule cost) (use BB_TYPE_STR_N len str_text_length [of "rd_chars m (le_nat m ?p 8) (le_nat m (?p + 8) 8)" "f_max_len ?f"] in
              \<open>auto simp: worst_value_def split: if_splits\<close>)
          then show ?thesis using here BB_TYPE_STR_N by (simp add: Let_def)
        next
          case BB_TYPE_OBJ
          show ?thesis
          proof (cases "BB_SERIALIZE_MAX_DEPTH \<le> depth")
            case False
            have "items_cost (map (member_text g sh) [(f_key ?f, SV_obj (snap_members env (f_children ?f) (f_n_children ?f) m ?p (depth + 1)))]) \<le> c"
              by (rule cost) (use BB_TYPE_OBJ False True conf IH [OF False] in \<open>auto simp: worst_value_def\<close>)
            then show ?thesis using here BB_TYPE_OBJ False by (simp add: Let_def)
          qed (use here BB_TYPE_OBJ in \<open>simp add: Let_def\<close>)
        next
          case BB_TYPE_ARR
          let ?items = "le_nat m ?p 8" and ?count = "le_nat m (?p + 8) 8"
          obtain b where b: "worst_elem ?f depth ?c = Some b" "f_cardinality ?f = BB_ARR_FIXED"
            using w BB_TYPE_ARR by (cases "f_cardinality ?f") (auto simp: worst_field_def worst_value_def split: if_splits)
          have cf: "f_elem_type ?f \<in> {BB_TYPE_STR, BB_TYPE_OBJ}" "?items \<noteq> 0 \<Longrightarrow> ?count \<le> f_max_items ?f"
            "?items \<noteq> 0 \<Longrightarrow> f_elem_type ?f = BB_TYPE_OBJ \<Longrightarrow> \<not> BB_SERIALIZE_MAX_DEPTH \<le> depth \<Longrightarrow> j < ?count \<Longrightarrow>
               conforms env (f_children ?f) (f_n_children ?f) m (?items + j * f_elem_size ?f) (depth + 1)" for j
            using conf True BB_TYPE_ARR b(2) by simp_all
          have arr: "items_cost (map (member_text g sh) [(f_key ?f, SV_arr vs)]) \<le> c"
            if "\<And>v. v \<in> set vs \<Longrightarrow> length (val_text g sh v) \<le> b" "length vs \<le> f_max_items ?f" for vs
            by (rule cost) (use arr_text_length [OF that] BB_TYPE_ARR b in \<open>auto simp: worst_value_def split: if_splits\<close>)
          show ?thesis
          proof (cases "?items = 0 \<or> f_elem_type ?f = BB_TYPE_OBJ \<and> BB_SERIALIZE_MAX_DEPTH \<le> depth")
            case True
            then show ?thesis using here BB_TYPE_ARR b(2) arr [of "[]"] by (auto simp: Let_def)
          next
            case live: False
            show ?thesis
            proof (cases "f_elem_type ?f = BB_TYPE_OBJ")
              case True
              let ?row = "\<lambda>j. SV_obj (snap_members env (f_children ?f) (f_n_children ?f) m (?items + j * f_elem_size ?f) (depth + 1))"
              from live True have d: "\<not> BB_SERIALIZE_MAX_DEPTH \<le> depth" "?items \<noteq> 0" by simp_all
              obtain e where e: "worst_fields env (f_children ?f) (f_n_children ?f) (depth + 1) = Some e" "b = 2 + e"
                using b(1) d(1) True by (auto simp: worst_elem_def)
              have "length (val_text g sh (?row j)) \<le> b" if "j < ?count" for j
                using IH [OF d(1) cf(3) [OF d(2) True d(1) that] e(1)] e(2) by simp
              then have "items_cost (map (member_text g sh) [(f_key ?f, SV_arr (map ?row [0..<?count]))]) \<le> c"
                using cf(2) [OF d(2)] by (intro arr) auto
              then show ?thesis using here BB_TYPE_ARR b(2) True d by (simp add: Let_def)
            next
              case False
              then have el: "f_elem_type ?f = BB_TYPE_STR" "?items \<noteq> 0" using cf(1) live by auto
              then have b6: "b = 6 * f_max_len ?f + 2" "0 < f_max_len ?f" using b(1) by (auto simp: worst_elem_def split: if_splits)
              then have "items_cost (map (member_text g sh) [(f_key ?f, SV_arr (map (\<lambda>j. str_elem m (f_max_len ?f) (?items + 8 * j)) [0..<?count]))]) \<le> c"
                using cf(2) [OF el(2)] str_elem_length [OF b6(2), of g sh m] by (intro arr) auto
              then show ?thesis using here BB_TYPE_ARR b(2) el by (simp add: Let_def)
            qed
          qed
        next
          case BB_TYPE_REF
          then show ?thesis using w by (simp add: worst_field_def worst_value_def)
        qed
      qed
    qed
    done
qed

text \<open>C37: a buffer of the size that the static bound gives is enough for any snapshot within the hints of its descriptor,
  whatever the values, as long as the bound does not exceed \<^verbatim>\<open>size_t\<close> and no array holds scalars.\<close>

theorem bound_is_enough:
  assumes "g_short (jw_g w) sh" and "conforms (jw_env w) (d_fields d) (d_n_fields d) (jw_mem w) snap 0"
    and "worst_fields (jw_env w) (d_fields d) (d_n_fields d) 0 = Some k" and "k + 3 < 2 ^ 64 - 1"
    and "unat (bb_serialize_json_bound (jw_env w) (Some d)) \<le> cap"
  shows "\<exists>x. bb_json_render_impl w (Some d) snap cap sh = (BB_OK, Some (x, length x)) \<and>
    length x < unat (bb_serialize_json_bound (jw_env w) (Some d))"
proof -
  let ?b = "bb_serialize_json_bound (jw_env w) (Some d)" and ?x = "doc_text w (Some d) snap sh"
  have "bb_json_bound_fields (jw_env w) (d_fields d) (d_n_fields d) 0 = of_nat k"
    using fields_exact [of "jw_env w" "d_fields d" "d_n_fields d" 0] assms(3,4) by simp
  then have "?b = of_nat (2 + k + 1)" using not_size_max [of k] assms(4) by (simp add: bb_serialize_json_bound_def Let_def)
  moreover have "unat (of_nat (2 + k + 1) :: u64) = 2 + k + 1" unfolding unat_of_nat by (rule mod_less) (use assms(4) in simp)
  ultimately have b: "unat ?b = 2 + k + 1" by simp
  have "length ?x \<le> 2 + k"
  proof (cases "snap = 0")
    case True
    then show ?thesis by (simp add: doc_text_def shown_def)
  next
    case False
    then show ?thesis using members_length [OF assms(1-3)]
        obj_text_length [of "jw_g w" sh "snap_members (jw_env w) (d_fields d) (d_n_fields d) (jw_mem w) snap 0"]
      by (simp add: doc_text_def shown_def)
  qed
  then show ?thesis using render_result [OF g_short_fits [OF assms(1)], of "Some d" snap cap] b assms(5) by auto
qed

lemma indices_2: "[0..<2] = [0, Suc 0]"
  by (simp add: numeral_2_eq_2)

theorem bound_is_enough_witness:
  "unat (bb_serialize_json_bound sample_env (Some sample_desc)) = 69 \<and>
   (\<exists>x. bb_json_render_impl sample_world (Some sample_desc) 100 69 True = (BB_OK, Some (x, length x)))"
proof -
  have w: "jw_env sample_world = sample_env" "jw_mem sample_world = sample_mem" by (simp_all add: sample_world_def)
  have b: "bb_serialize_json_bound sample_env (Some sample_desc) = 69"
    by (simp add: bb_serialize_json_bound_def sample_desc_def bb_json_bound_fields.simps indices_2 sample_env_def sample_field_def
      bb_json_bound_field_def bb_json_bound_value_def key_len_def SIZE_MAX_def Let_def)
  have f: "worst_fields sample_env (d_fields sample_desc) (d_n_fields sample_desc) 0 = Some 66"
    by (simp add: sample_desc_def worst_fields.simps indices_2 sample_env_def sample_field_def worst_field_def worst_value_def key_len_def Let_def)
  have c: "conforms sample_env (d_fields sample_desc) (d_n_fields sample_desc) sample_mem 100 0"
    by (simp add: sample_desc_def conforms.simps indices_2 sample_env_def sample_field_def Let_def)
  have "g_short (jw_g sample_world) True" by (simp add: g_short_def sample_world_def)
  from bound_is_enough [OF this, of sample_desc 100 66 69] show ?thesis by (auto simp: w b f c)
qed

section \<open>Arrays of scalars\<close>

text \<open>A descriptor of one array of at most one 64-bit integer, and a snapshot of it.\<close>

definition scalar_env :: walk_env where
  "scalar_env = \<lparr>we_table = (\<lambda>p i. \<lparr>f_key = Some ''a'', f_type = BB_TYPE_ARR, f_offset = 0, f_present = None, f_children = 0, f_n_children = 0,
     f_max_len = 0, f_max_items = 1, f_elem_type = BB_TYPE_I64, f_elem_size = 0, f_cardinality = BB_ARR_FIXED, f_ref_key = []\<rparr>),
     we_rows = (\<lambda>_ _. []), we_row_buf = (\<lambda>_. 0), we_resolve = None\<rparr>"

definition scalar_mem :: mem where
  "scalar_mem = (\<lambda>a. if a = 100 then 200 else if a = 108 then 1 else if a = 207 then 128 else 0)"

definition scalar_world :: json_world where
  "scalar_world = \<lparr>jw_g = (\<lambda>_. ''0''), jw_levels = (\<lambda>_. \<lparr>lv_is_array = True, lv_have_child = True\<rparr>), jw_env = scalar_env, jw_mem = scalar_mem\<rparr>"

definition scalar_desc :: bb_serialize_desc_t where
  "scalar_desc = \<lparr>d_fields = 1, d_n_fields = 1\<rparr>"

lemma scalar_shown: "shown scalar_world (Some scalar_desc) 100 = SV_obj [(Some ''a'', SV_arr [SV_I64 0x8000000000000000])]"
  by (simp add: shown_def scalar_desc_def scalar_world_def scalar_env_def snap_members.simps Let_def rd64_def scalar_mem_def memory_numeral)

text \<open>C38: the static bound is too small for an array of scalars: it counts two bytes for an element that the walker writes with
  up to twenty, and a buffer of that size is refused for a snapshot within the descriptor's hints.\<close>

theorem scalar_array_exceeds_bound:
  "bb_serialize_json_bound scalar_env (Some scalar_desc) = 18 \<and>
   bb_json_render_impl scalar_world (Some scalar_desc) 100 18 False = (BB_ERR_NO_SPACE, Some ([], 0))"
proof
  show "bb_serialize_json_bound scalar_env (Some scalar_desc) = 18"
    by (simp add: bb_serialize_json_bound_def bb_json_bound_fields.simps scalar_desc_def scalar_env_def bb_json_bound_field_def
      bb_json_bound_value_def bb_json_bound_elem_def key_len_def SIZE_MAX_def BB_SERIALIZE_MAX_DEPTH_def Let_def)
  have "length (i64_text 0x8000000000000000) = 20"
    by (simp add: i64_text_def dec_rec)
  then have "\<not> length (doc_text scalar_world (Some scalar_desc) 100 False) < 18"
    by (simp add: doc_text_def scalar_shown)
  then show "bb_json_render_impl scalar_world (Some scalar_desc) 100 18 False = (BB_ERR_NO_SPACE, Some ([], 0))"
    using render_result [of scalar_world False "Some scalar_desc" 100 18] by (simp add: g_fits_def)
qed

end
