(* ===== verification/BB_Populate.thy ===== *)
theory BB_Populate
  imports BB_JSON_Render
begin

text \<open>
  The scatter direction: \<^verbatim>\<open>bb_serialize_populate\<close> of \<^verbatim>\<open>components/bb_serialize\<close>, which writes a struct from a pull source by the
  same descriptors the walker reads, and the source over a recorded JSON document of \<^verbatim>\<open>bb_serialize_json_populate.c\<close>. A source
  is a record of functions on its own state; a getter that finds nothing answers \<^verbatim>\<open>None\<close>.
\<close>

section \<open>Scattering\<close>

record 's bb_serialize_populate_t =
  po_i64 :: "'s \<Rightarrow> json_key \<Rightarrow> u64 option \<times> 's"
  po_u64 :: "'s \<Rightarrow> json_key \<Rightarrow> u64 option \<times> 's"
  po_f64 :: "'s \<Rightarrow> json_key \<Rightarrow> u64 option \<times> 's"
  po_bool :: "'s \<Rightarrow> json_key \<Rightarrow> bool option \<times> 's"
  po_str :: "'s \<Rightarrow> json_key \<Rightarrow> nat \<Rightarrow> string option \<times> 's"
  po_begin_obj :: "'s \<Rightarrow> json_key \<Rightarrow> bool \<times> 's"
  po_end_obj :: "'s \<Rightarrow> 's"
  po_begin_arr :: "'s \<Rightarrow> json_key \<Rightarrow> nat option \<times> 's"
  po_end_arr :: "'s \<Rightarrow> 's"

fun le_bytes :: "nat \<Rightarrow> nat \<Rightarrow> u8 list" where
  "le_bytes 0 v = []"
| "le_bytes (Suc n) v = of_nat (v mod 256) # le_bytes n (v div 256)"

definition wr64 :: "mem \<Rightarrow> nat \<Rightarrow> u64 \<Rightarrow> mem" where
  "wr64 m a v = wr_bytes m a (le_bytes 8 (unat v))"

definition wr_bool :: "mem \<Rightarrow> nat \<Rightarrow> bool \<Rightarrow> mem" where
  "wr_bool m a b = wr_bytes m a [if b then 1 else 0]"

definition wr_chars :: "mem \<Rightarrow> nat \<Rightarrow> string \<Rightarrow> mem" where
  "wr_chars m a s = wr_bytes m a (map (\<lambda>c. of_nat (of_char c)) s)"

text \<open>A loop that returns the first error.\<close>

fun first_err :: "('a \<Rightarrow> bb_err_t) \<Rightarrow> 'a list \<Rightarrow> bb_err_t" where
  "first_err f [] = BB_OK"
| "first_err f (x # xs) = (let rc = f x in if rc \<noteq> BB_OK then rc else first_err f xs)"

fun each :: "('a \<Rightarrow> 'st \<Rightarrow> bb_err_t \<times> 'st) \<Rightarrow> 'a list \<Rightarrow> 'st \<Rightarrow> bb_err_t \<times> 'st" where
  "each f [] st = (BB_OK, st)"
| "each f (x # xs) st = (case f x st of (rc, st) \<Rightarrow> if rc \<noteq> BB_OK then (rc, st) else each f xs st)"

text \<open>A loop over elements that counts them and may end early.\<close>

fun elems :: "('a \<Rightarrow> 'st \<Rightarrow> (bb_err_t \<times> bool) \<times> 'st) \<Rightarrow> 'a list \<Rightarrow> nat \<Rightarrow> 'st \<Rightarrow> bb_err_t \<times> nat \<times> 'st" where
  "elems f [] w st = (BB_OK, w, st)"
| "elems f (x # xs) w st =
     (case f x st of ((rc, going), st) \<Rightarrow> if rc \<noteq> BB_OK then (rc, w, st) else if \<not> going then (BB_OK, w, st) else elems f xs (w + 1) st)"

lemma first_err_cong [fundef_cong]: "xs = ys \<Longrightarrow> (\<And>x. x \<in> set ys \<Longrightarrow> f x = g x) \<Longrightarrow> first_err f xs = first_err g ys"
proof (induction ys arbitrary: xs)
  case (Cons y ys)
  have "first_err f ys = first_err g ys" by (rule Cons.IH [OF refl]) (simp add: Cons.prems(2))
  then show ?case using Cons.prems by (simp add: Let_def)
qed simp

lemma each_cong [fundef_cong]: "xs = ys \<Longrightarrow> st = st' \<Longrightarrow> (\<And>x st. x \<in> set ys \<Longrightarrow> f x st = g x st) \<Longrightarrow> each f xs st = each g ys st'"
proof (induction ys arbitrary: xs st st')
  case (Cons y ys)
  have "each f ys st = each g ys st" for st by (rule Cons.IH [OF refl refl]) (simp add: Cons.prems(3))
  then show ?case using Cons.prems by (simp split: prod.split)
qed simp

lemma elems_cong [fundef_cong]:
  "xs = ys \<Longrightarrow> w = w' \<Longrightarrow> st = st' \<Longrightarrow> (\<And>x st. x \<in> set ys \<Longrightarrow> f x st = g x st) \<Longrightarrow> elems f xs w st = elems g ys w' st'"
proof (induction ys arbitrary: xs w w' st st')
  case (Cons y ys)
  have "elems f ys w st = elems g ys w st" for w st by (rule Cons.IH [OF refl refl refl]) (simp add: Cons.prems(4))
  then show ?case using Cons.prems by (simp split: prod.split)
qed simp

function populate_check_fields :: "walk_env \<Rightarrow> nat \<Rightarrow> nat \<Rightarrow> nat \<Rightarrow> bb_err_t" where
  "populate_check_fields env fp n depth =
     first_err (\<lambda>i. let f = we_table env fp i in
       case f_type f of
         BB_TYPE_STR_N \<Rightarrow> BB_ERR_UNSUPPORTED
       | BB_TYPE_REF \<Rightarrow> BB_ERR_UNSUPPORTED
       | BB_TYPE_OBJ \<Rightarrow>
           if BB_SERIALIZE_MAX_DEPTH \<le> depth then BB_ERR_NO_SPACE
           else populate_check_fields env (f_children f) (f_n_children f) (depth + 1)
       | BB_TYPE_ARR \<Rightarrow>
           if BB_SERIALIZE_MAX_DEPTH \<le> depth then BB_ERR_NO_SPACE
           else if f_cardinality f = BB_ARR_STREAM then BB_ERR_UNSUPPORTED
           else if f_max_items f = 0 then BB_ERR_INVALID_ARG
           else if f_elem_type f = BB_TYPE_OBJ then populate_check_fields env (f_children f) (f_n_children f) (depth + 1)
           else BB_OK
       | _ \<Rightarrow> BB_OK) [0..<n]"
  by pat_completeness auto
termination by (relation "measure (\<lambda>(env, fp, n, depth). BB_SERIALIZE_MAX_DEPTH - depth)") auto

declare populate_check_fields.simps [simp del]

text \<open>A scalar: written when the source has it.\<close>

definition put_scalar :: "(mem \<Rightarrow> nat \<Rightarrow> 'v \<Rightarrow> mem) \<Rightarrow> nat \<Rightarrow> mem \<Rightarrow> 'v option \<times> 's \<Rightarrow> bb_err_t \<times> mem \<times> 's" where
  "put_scalar wr p m g = (case g of (None, s) \<Rightarrow> (BB_OK, m, s) | (Some v, s) \<Rightarrow> (BB_OK, wr m p v, s))"

definition put_str_elem :: "'s bb_serialize_populate_t \<Rightarrow> nat \<Rightarrow> nat \<Rightarrow> mem \<times> 's \<Rightarrow> (bb_err_t \<times> bool) \<times> mem \<times> 's" where
  "put_str_elem src maxlen a = (\<lambda>(m, s).
     case po_str src s None maxlen of
       (None, s) \<Rightarrow> ((BB_OK, False), m, s)
     | (Some t, s) \<Rightarrow> ((BB_OK, True), wr_chars m (le_nat m a 8) t, s))"

function populate_fields ::
  "walk_env \<Rightarrow> 's bb_serialize_populate_t \<Rightarrow> nat \<Rightarrow> nat \<Rightarrow> nat \<Rightarrow> nat \<Rightarrow> mem \<times> 's \<Rightarrow> bb_err_t \<times> mem \<times> 's"
where
  "populate_fields env src fp n dst depth st =
     each (\<lambda>i (m, s). let f = we_table env fp i; p = dst + f_offset f in
       case f_type f of
         BB_TYPE_I64 \<Rightarrow> put_scalar wr64 p m (po_i64 src s (f_key f))
       | BB_TYPE_U64 \<Rightarrow> put_scalar wr64 p m (po_u64 src s (f_key f))
       | BB_TYPE_F64 \<Rightarrow> put_scalar wr64 p m (po_f64 src s (f_key f))
       | BB_TYPE_BOOL \<Rightarrow> put_scalar wr_bool p m (po_bool src s (f_key f))
       | BB_TYPE_STR \<Rightarrow> put_scalar wr_chars p m (po_str src s (f_key f) (f_max_len f))
       | BB_TYPE_STR_N \<Rightarrow> (BB_OK, m, s)
       | BB_TYPE_REF \<Rightarrow> (BB_OK, m, s)
       | BB_TYPE_OBJ \<Rightarrow>
           if BB_SERIALIZE_MAX_DEPTH \<le> depth then (BB_ERR_NO_SPACE, m, s)
           else (case po_begin_obj src s (f_key f) of
                   (False, s) \<Rightarrow> (BB_OK, m, s)
                 | (True, s) \<Rightarrow>
                     (case populate_fields env src (f_children f) (f_n_children f) p (depth + 1) (m, s) of
                        (rc, m, s) \<Rightarrow> (rc, m, po_end_obj src s)))
       | BB_TYPE_ARR \<Rightarrow>
           if BB_SERIALIZE_MAX_DEPTH \<le> depth then (BB_ERR_NO_SPACE, m, s)
           else (case po_begin_arr src s (f_key f) of
                   (None, s) \<Rightarrow> (BB_OK, m, s)
                 | (Some count, s) \<Rightarrow>
                     let items = le_nat m p 8; cap = f_max_items f; n = (if count < cap then count else cap);
                         (rc, written, m, s) =
                           (if items = 0 then (BB_OK, 0, m, s)
                            else if f_elem_type f = BB_TYPE_OBJ then
                              elems (\<lambda>j (m, s).
                                case po_begin_obj src s None of
                                  (False, s) \<Rightarrow> ((BB_OK, False), m, s)
                                | (True, s) \<Rightarrow>
                                    (case populate_fields env src (f_children f) (f_n_children f) (items + j * f_elem_size f) (depth + 1) (m, s) of
                                       (rc, m, s) \<Rightarrow> ((rc, True), m, po_end_obj src s))) [0..<n] 0 (m, s)
                            else elems (\<lambda>j. put_str_elem src (f_max_len f) (items + 8 * j)) [0..<n] 0 (m, s))
                     in if rc \<noteq> BB_OK then (rc, m, po_end_arr src s)
                        else (BB_OK, wr64 (wr64 m p (of_nat items)) (p + 8) (of_nat written), po_end_arr src s))) [0..<n] st"
  by pat_completeness auto
termination by (relation "measure (\<lambda>(env, src, fp, n, dst, depth, st). BB_SERIALIZE_MAX_DEPTH - depth)") auto

declare populate_fields.simps [simp del]

definition bb_serialize_populate ::
  "walk_env \<Rightarrow> bb_serialize_desc_t option \<Rightarrow> nat \<Rightarrow> 's bb_serialize_populate_t option \<Rightarrow> mem \<times> 's \<Rightarrow> bb_err_t \<times> mem \<times> 's"
where
  "bb_serialize_populate env desc dst src st =
     (case (desc, src) of
        (Some d, Some src) \<Rightarrow>
          if dst = 0 then (BB_ERR_INVALID_ARG, st)
          else (let rc = populate_check_fields env (d_fields d) (d_n_fields d) 0
                in if rc \<noteq> BB_OK then (rc, st) else populate_fields env src (d_fields d) (d_n_fields d) dst 0 st)
      | _ \<Rightarrow> (BB_ERR_INVALID_ARG, st))"

section \<open>The source over a recorded document\<close>

record populate_frame_t =
  pf_idx :: int
  pf_next_elem :: nat

record populate_state_t =
  ps_rec :: "u64 bb_serialize_json_tok_recorder_t"
  ps_stack :: "populate_frame_t list"
  ps_depth :: nat

definition top_of :: "populate_state_t \<Rightarrow> populate_frame_t" where
  "top_of st = ps_stack st ! ps_depth st"

definition member_tok :: "populate_state_t \<Rightarrow> json_key \<Rightarrow> int" where
  "member_tok st key = bb_serialize_json_tok_obj_get (Some (ps_rec st)) (pf_idx (top_of st)) (case key of None \<Rightarrow> [] | Some k \<Rightarrow> k)"

text \<open>A member by its key, or the next element of the array in scope.\<close>

definition next_tok :: "populate_state_t \<Rightarrow> json_key \<Rightarrow> int \<times> populate_state_t" where
  "next_tok st key =
     (if key \<noteq> None then (member_tok st key, st)
      else let t = top_of st
           in (bb_serialize_json_tok_arr_at (Some (ps_rec st)) (pf_idx t) (pf_next_elem t),
               st\<lparr>ps_stack := (ps_stack st)[ps_depth st := t\<lparr>pf_next_elem := pf_next_elem t + 1\<rparr>]\<rparr>))"

definition populate_get_i64 :: "populate_state_t \<Rightarrow> json_key \<Rightarrow> u64 option \<times> populate_state_t" where
  "populate_get_i64 st key = (map_option word_of_int (bb_serialize_json_tok_get_i64 (Some (ps_rec st)) (member_tok st key)), st)"

definition populate_get_u64 :: "populate_state_t \<Rightarrow> json_key \<Rightarrow> u64 option \<times> populate_state_t" where
  "populate_get_u64 st key =
     (case bb_serialize_json_tok_get_i64 (Some (ps_rec st)) (member_tok st key) of
        None \<Rightarrow> (None, st)
      | Some v \<Rightarrow> (Some (word_of_int v), st))"

definition populate_get_f64 :: "populate_state_t \<Rightarrow> json_key \<Rightarrow> u64 option \<times> populate_state_t" where
  "populate_get_f64 st key = (bb_serialize_json_tok_get_f64 0 (Some (ps_rec st)) (member_tok st key), st)"

definition populate_get_bool :: "populate_state_t \<Rightarrow> json_key \<Rightarrow> bool option \<times> populate_state_t" where
  "populate_get_bool st key = (bb_serialize_json_tok_get_bool (Some (ps_rec st)) (member_tok st key), st)"

definition populate_get_str :: "populate_state_t \<Rightarrow> json_key \<Rightarrow> nat \<Rightarrow> string option \<times> populate_state_t" where
  "populate_get_str st key cap =
     (case next_tok st key of (tok, st) \<Rightarrow>
        (case bb_serialize_json_tok_get_str (Some (ps_rec st)) tok of
           None \<Rightarrow> (None, st)
         | Some (ptr, len) \<Rightarrow> let n = (if len < cap then len else cap) in (Some (take n (tok_bytes (ps_rec st) ptr len)), st)))"

definition push_frame :: "int \<Rightarrow> populate_state_t \<Rightarrow> populate_state_t" where
  "push_frame tok st = st\<lparr>ps_depth := ps_depth st + 1,
     ps_stack := (ps_stack st)[ps_depth st + 1 := \<lparr>pf_idx = tok, pf_next_elem = 0\<rparr>]\<rparr>"

definition populate_begin_obj :: "populate_state_t \<Rightarrow> json_key \<Rightarrow> bool \<times> populate_state_t" where
  "populate_begin_obj st key =
     (case next_tok st key of (tok, st) \<Rightarrow>
        if \<not> bb_serialize_json_tok_is_obj (Some (ps_rec st)) tok then (False, st)
        else if ps_depth st \<ge> BB_SERIALIZE_MAX_DEPTH then (False, st)
        else (True, push_frame tok st))"

definition populate_end :: "populate_state_t \<Rightarrow> populate_state_t" where
  "populate_end st = (if ps_depth st = 0 then st else st\<lparr>ps_depth := ps_depth st - 1\<rparr>)"

definition populate_begin_arr :: "populate_state_t \<Rightarrow> json_key \<Rightarrow> nat option \<times> populate_state_t" where
  "populate_begin_arr st key =
     (let tok = member_tok st key
      in if \<not> bb_serialize_json_tok_is_arr (Some (ps_rec st)) tok then (None, st)
         else if ps_depth st \<ge> BB_SERIALIZE_MAX_DEPTH then (None, st)
         else (Some (nat (bb_serialize_json_tok_arr_size (Some (ps_rec st)) tok)), push_frame tok st))"

text \<open>Binding a source; only the first frame of its storage is initialised.\<close>

definition bb_serialize_json_populate_state :: "(nat \<Rightarrow> populate_frame_t) \<Rightarrow> u64 bb_serialize_json_tok_recorder_t \<Rightarrow> populate_state_t" where
  "bb_serialize_json_populate_state garbage r =
     \<lparr>ps_rec = r, ps_stack = \<lparr>pf_idx = bb_serialize_json_tok_root (Some r), pf_next_elem = 0\<rparr> # map garbage [1..<BB_SERIALIZE_MAX_DEPTH + 1],
      ps_depth = 0\<rparr>"

definition bb_serialize_json_populate_from_tok :: "populate_state_t bb_serialize_populate_t" where
  "bb_serialize_json_populate_from_tok =
     \<lparr>po_i64 = populate_get_i64, po_u64 = populate_get_u64, po_f64 = populate_get_f64, po_bool = populate_get_bool,
      po_str = populate_get_str, po_begin_obj = populate_begin_obj, po_end_obj = populate_end,
      po_begin_arr = populate_begin_arr, po_end_arr = populate_end\<rparr>"

section \<open>Errors come before the first write\<close>

lemma first_err_ok: "first_err f xs = BB_OK \<longleftrightarrow> (\<forall>x \<in> set xs. f x = BB_OK)"
  by (induction xs) (auto simp: Let_def)

lemma each_ok: "(\<And>x st. x \<in> set xs \<Longrightarrow> fst (f x st) = BB_OK) \<Longrightarrow> fst (each f xs st) = BB_OK"
proof (induction xs arbitrary: st)
  case (Cons x xs)
  have "fst (each f xs st) = BB_OK" for st by (rule Cons.IH) (simp add: Cons.prems)
  then show ?case using Cons.prems [of x st] by (cases "f x st") simp
qed simp

lemma elems_ok: "(\<And>x st. x \<in> set xs \<Longrightarrow> fst (fst (f x st)) = BB_OK) \<Longrightarrow> fst (elems f xs w st) = BB_OK"
proof (induction xs arbitrary: w st)
  case (Cons x xs)
  have "fst (elems f xs w st) = BB_OK" for w st by (rule Cons.IH) (simp add: Cons.prems)
  then show ?case using Cons.prems [of x st] by (auto split: prod.split)
qed simp

lemma put_scalar_ok [simp]: "fst (put_scalar wr p m g) = BB_OK"
  by (simp add: put_scalar_def split: prod.split option.split)

lemma put_str_elem_ok [simp]: "fst (fst (put_str_elem src l a st)) = BB_OK"
  by (simp add: put_str_elem_def split: prod.split option.split)

lemma check_field:
  assumes "populate_check_fields env fp n depth = BB_OK" and "i < n"
  shows "f_type (we_table env fp i) = BB_TYPE_OBJ \<Longrightarrow> \<not> BB_SERIALIZE_MAX_DEPTH \<le> depth \<and>
      populate_check_fields env (f_children (we_table env fp i)) (f_n_children (we_table env fp i)) (Suc depth) = BB_OK"
    and "f_type (we_table env fp i) = BB_TYPE_ARR \<Longrightarrow> \<not> BB_SERIALIZE_MAX_DEPTH \<le> depth \<and>
      (f_elem_type (we_table env fp i) = BB_TYPE_OBJ \<longrightarrow>
        populate_check_fields env (f_children (we_table env fp i)) (f_n_children (we_table env fp i)) (Suc depth) = BB_OK)"
  using assms(1) [unfolded populate_check_fields.simps [of env fp] first_err_ok, rule_format, of i] assms(2)
  by (auto simp: Let_def split: if_splits)

lemma arr_done: "fst r = BB_OK \<Longrightarrow> fst (case r of (rc, w, m, s) \<Rightarrow> if rc \<noteq> BB_OK then (rc, a m s) else (BB_OK, b w m s)) = BB_OK"
  by (auto split: prod.split)

text \<open>The check looks at the descriptor only, and foresees every error of the scatter.\<close>

lemma check_foresees: "populate_check_fields env fp n depth = BB_OK \<Longrightarrow> fst (populate_fields env src fp n dst depth st) = BB_OK"
proof (induction "BB_SERIALIZE_MAX_DEPTH - depth" arbitrary: fp n dst depth st rule: less_induct)
  case less
  have IH: "fst (populate_fields env src fp n dst (Suc depth) st) = BB_OK"
    if "\<not> BB_SERIALIZE_MAX_DEPTH \<le> depth" "populate_check_fields env fp n (Suc depth) = BB_OK" for fp n dst st
    by (rule less.hyps [OF _ that(2)]) (use that(1) in simp)
  have rows: "fst (elems (\<lambda>j (m, s). case po_begin_obj src s None of
         (False, s) \<Rightarrow> ((BB_OK, False), m, s)
       | (True, s) \<Rightarrow> (case populate_fields env src fp n (items + j * size) (depth + 1) (m, s) of
            (rc, m, s) \<Rightarrow> ((rc, True), m, po_end_obj src s))) xs w st) = BB_OK"
    if "\<not> BB_SERIALIZE_MAX_DEPTH \<le> depth" "populate_check_fields env fp n (Suc depth) = BB_OK" for fp n items size xs w st
  proof (rule elems_ok)
    fix j :: nat and st
    show "fst (fst (case st of (m, s) \<Rightarrow> case po_begin_obj src s None of
         (False, s) \<Rightarrow> ((BB_OK, False), m, s)
       | (True, s) \<Rightarrow> (case populate_fields env src fp n (items + j * size) (depth + 1) (m, s) of
            (rc, m, s) \<Rightarrow> ((rc, True), m, po_end_obj src s)))) = BB_OK"
    proof (cases st)
      case (Pair m s)
      obtain b s' where "po_begin_obj src s None = (b, s')" by (cases "po_begin_obj src s None")
      then show ?thesis using Pair IH [OF that, of "items + j * size" "(m, s')"] by (cases b) (auto split: prod.split)
    qed
  qed
  show ?case
    unfolding populate_fields.simps [of env src fp]
    apply (rule each_ok)
    subgoal premises prems for i st
    proof -
      from prems have i: "i < n" by simp
      note ck = check_field [OF less.prems i]
      obtain m s where st: "st = (m, s)" by (cases st)
      let ?f = "we_table env fp i"
      obtain b s1 where b: "po_begin_obj src s (f_key ?f) = (b, s1)" by (cases "po_begin_obj src s (f_key ?f)")
      obtain c s2 where c: "po_begin_arr src s (f_key ?f) = (c, s2)" by (cases "po_begin_arr src s (f_key ?f)")
      have strs: "fst (elems (\<lambda>j. put_str_elem src l (a + 8 * j)) xs w st) = BB_OK" for l a xs w st by (rule elems_ok) simp
      show ?thesis
      proof (cases "f_type ?f")
        case BB_TYPE_OBJ
        note d = ck(1) [OF this]
        show ?thesis using BB_TYPE_OBJ d IH [of "f_children ?f" "f_n_children ?f" "dst + f_offset ?f" "(m, s1)"]
          by (cases b) (auto simp: st b Let_def split: prod.split)
      next
        case BB_TYPE_ARR
        note d = ck(2) [OF this]
        show ?thesis
        proof (cases c)
          case None
          then show ?thesis using BB_TYPE_ARR d by (simp add: st c Let_def)
        next
          case (Some count)
          show ?thesis using BB_TYPE_ARR d Some
            by (auto simp: st c Let_def strs intro!: arr_done rows)
        qed
      qed (simp_all add: st Let_def)
    qed
    done
qed

text \<open>C40: a populate that reports an error has written nothing and has not touched its source: whatever is wrong with a
  descriptor is found before the first write.\<close>

theorem populate_errors_write_nothing:
  assumes "bb_serialize_populate env desc dst src st = (rc, st')" and "rc \<noteq> BB_OK"
  shows "st' = st"
proof (cases "\<exists>d e. desc = Some d \<and> src = Some e \<and> dst \<noteq> 0 \<and> populate_check_fields env (d_fields d) (d_n_fields d) 0 = BB_OK")
  case True
  then obtain d e where d: "desc = Some d" "src = Some e" "dst \<noteq> 0" "populate_check_fields env (d_fields d) (d_n_fields d) 0 = BB_OK" by blast
  then have "rc = BB_OK" using assms(1) check_foresees [OF d(4), of e dst st] by (simp add: bb_serialize_populate_def Let_def)
  then show ?thesis using assms(2) by simp
next
  case False
  then show ?thesis using assms by (auto simp: bb_serialize_populate_def Let_def split: option.splits if_splits)
qed

definition bad_env :: walk_env where
  "bad_env = sample_env\<lparr>we_table := (\<lambda>p i. if i = 0 then sample_field ''n'' BB_TYPE_U64 0 else sample_field ''r'' BB_TYPE_REF 8)\<rparr>"

definition bad_source :: populate_state_t where
  "bad_source = bb_serialize_json_populate_state (\<lambda>_. \<lparr>pf_idx = 0, pf_next_elem = 0\<rparr>)
     (the (snd (bb_serialize_json_tok_recorder_init False (Some []) (Some [tok_zero TOK_NULL]) None)))"

theorem populate_errors_write_nothing_witness:
  "bb_serialize_populate bad_env (Some sample_desc) 100 (Some bb_serialize_json_populate_from_tok) (sample_mem, bad_source) =
    (BB_ERR_UNSUPPORTED, sample_mem, bad_source)"
proof -
  obtain rc st' where r: "bb_serialize_populate bad_env (Some sample_desc) 100 (Some bb_serialize_json_populate_from_tok) (sample_mem, bad_source) = (rc, st')"
    by (cases "bb_serialize_populate bad_env (Some sample_desc) 100 (Some bb_serialize_json_populate_from_tok) (sample_mem, bad_source)")
  have "[0..<2] = [0, Suc 0]" by (simp add: numeral_2_eq_2)
  then have "rc = BB_ERR_UNSUPPORTED" using r
    by (simp add: bb_serialize_populate_def sample_desc_def populate_check_fields.simps bad_env_def sample_env_def sample_field_def Let_def)
  then show ?thesis using populate_errors_write_nothing [OF r] r by simp
qed

section \<open>Memory\<close>

lemma wr_bytes_out: "\<not> (a \<le> b \<and> b < a + length bs) \<Longrightarrow> wr_bytes m a bs b = m b"
  by (auto simp: wr_bytes_def)

lemma wr_bytes_in: "i < length bs \<Longrightarrow> wr_bytes m a bs (a + i) = bs ! i"
  by (simp add: wr_bytes_def)

lemma le_nat_cong: "(\<And>i. i < n \<Longrightarrow> m1 (a + i) = m2 (b + i)) \<Longrightarrow> le_nat m1 a n = le_nat m2 b n"
proof (induction n arbitrary: a b)
  case (Suc n)
  have "le_nat m1 (a + 1) n = le_nat m2 (b + 1) n" by (rule Suc.IH) (use Suc.prems [of "Suc _"] in simp)
  then show ?case using Suc.prems [of 0] by simp
qed simp

lemma strnlen_cong: "(\<And>i. i < n \<Longrightarrow> m1 (a + i) = m2 (b + i)) \<Longrightarrow> strnlen m1 a n = strnlen m2 b n"
proof (induction n arbitrary: a b)
  case (Suc n)
  have "strnlen m1 (a + 1) n = strnlen m2 (b + 1) n" by (rule Suc.IH) (use Suc.prems [of "Suc _"] in simp)
  then show ?case using Suc.prems [of 0] by simp
qed simp

lemma le_bytes_length [simp]: "length (le_bytes n v) = n"
  by (induction n arbitrary: v) simp_all

lemma le_nat_written: "(\<And>i. i < n \<Longrightarrow> m (a + i) = le_bytes n v ! i) \<Longrightarrow> le_nat m a n = v mod 256 ^ n"
proof (induction n arbitrary: a v)
  case (Suc n)
  have "le_nat m (a + 1) n = v div 256 mod 256 ^ n" by (rule Suc.IH) (use Suc.prems [of "Suc _"] in simp)
  moreover have "unat (m a) = v mod 256" using Suc.prems [of 0] by (simp add: unat_of_nat take_bit_nat_def)
  ultimately show ?case by (simp add: mod_mult2_eq)
qed simp

lemma rd64_written: "rd64 (wr64 m a v) a = v"
proof -
  have "le_nat (wr64 m a v) a 8 = unat v mod 256 ^ 8" by (rule le_nat_written) (simp add: wr64_def wr_bytes_in)
  moreover have "unat v < 256 ^ 8" using unsigned_less [of v, where ?'a = nat] by simp
  ultimately show ?thesis by (simp add: rd64_def)
qed

lemma rd_bool_written: "rd_bool (wr_bool m a b) a = b"
  by (simp add: rd_bool_def wr_bool_def wr_bytes_def)

lemma strnlen_is: "k \<le> n \<Longrightarrow> (\<And>i. i < k \<Longrightarrow> m (a + i) \<noteq> 0) \<Longrightarrow> (k < n \<Longrightarrow> m (a + k) = 0) \<Longrightarrow> strnlen m a n = k"
proof (induction n arbitrary: a k)
  case (Suc n)
  show ?case
  proof (cases k)
    case 0
    then show ?thesis using Suc.prems(3) by simp
  next
    case (Suc l)
    have "strnlen m (a + 1) n = l"
      by (rule Suc.IH) (use Suc.prems(1) Suc.prems(2) [of "Suc _"] Suc.prems(3) Suc in simp_all)
    then show ?thesis using Suc.prems(2) [of 0] Suc by simp
  qed
qed simp

lemma strnlen_nonzero: "i < strnlen m a n \<Longrightarrow> m (a + i) \<noteq> 0"
proof (induction n arbitrary: a i)
  case (Suc n)
  then show ?case using Suc.IH [of "i - 1" "a + 1"] by (cases i) (auto split: if_splits)
qed simp

text \<open>A string without NUL written over zeros reads back.\<close>

lemma rd_chars_written:
  assumes zero: "\<And>i. i < n \<Longrightarrow> m (a + i) = 0" and len: "length s \<le> n" and s: "\<forall>c \<in> set s. of_char c \<noteq> (0 :: nat)"
  shows "rd_chars (wr_chars m a s) a (strnlen (wr_chars m a s) a n) = s"
proof -
  have byte: "wr_chars m a s (a + i) = of_nat (of_char (s ! i))" if "i < length s" for i
    using that by (simp add: wr_chars_def wr_bytes_in)
  have small: "unat (of_nat (of_char c) :: u8) = of_char c" for c by (simp add: unat_of_nat take_bit_nat_def)
  have "strnlen (wr_chars m a s) a n = length s"
  proof (rule strnlen_is [OF len])
    fix i assume i: "i < length s"
    then have "unat (wr_chars m a s (a + i)) \<noteq> 0" unfolding byte [OF i] small using s by simp
    then show "wr_chars m a s (a + i) \<noteq> 0" by auto
  next
    assume "length s < n"
    then show "wr_chars m a s (a + length s) = 0" using zero by (simp add: wr_chars_def wr_bytes_def)
  qed
  then show ?thesis by (intro nth_equalityI) (simp_all add: rd_chars_def byte small)
qed

lemma rd_chars_no_nul: "\<forall>c \<in> set (rd_chars m a (strnlen m a n)). of_char c \<noteq> (0 :: nat)"
proof
  fix c assume "c \<in> set (rd_chars m a (strnlen m a n))"
  then obtain i where i: "i < strnlen m a n" "c = char_of (unat (m (a + i)))" by (auto simp: rd_chars_def)
  have "unat (m (a + i)) < 256" using unsigned_less [of "m (a + i)", where ?'a = nat] by simp
  then have "of_char c = unat (m (a + i))" using i(2) by simp
  then show "of_char c \<noteq> (0 :: nat)" using strnlen_nonzero [OF i(1)] by (simp add: unat_eq_0)
qed

end
