(* ===== verification/BB_Populate_Laws.thy ===== *)
theory BB_Populate_Laws
  imports BB_Populate
begin

text \<open>
  Populate as the inverse of render: a struct populated from the recorded text of a snapshot shows the same values as the
  snapshot. The descriptors are those whose fields both directions treat alike: integers, booleans, strings and nested
  structs, with keys of their own and storage of their own.
\<close>

section \<open>Descriptors that both directions treat alike\<close>















section \<open>A loop and its invariant\<close>



section \<open>One field\<close>



text \<open>The source is where it was, but for the frames above its depth.\<close>

definition same_place :: "populate_state_t \<Rightarrow> populate_state_t \<Rightarrow> bool" where
  "same_place s s' \<longleftrightarrow> ps_rec s' = ps_rec s \<and> ps_depth s' = ps_depth s \<and> length (ps_stack s') = length (ps_stack s) \<and>
     take (Suc (ps_depth s)) (ps_stack s') = take (Suc (ps_depth s)) (ps_stack s)"

lemma same_place_refl [simp]: "same_place s s"
  by (simp add: same_place_def)









section \<open>All fields\<close>







section \<open>The round trip\<close>






end
