(* ===== verification/Spec2Isabelle.thy ===== *)
theory Spec2Isabelle
  imports BB_Registry BB_Queue BB_Bqueue BB_Lifecycle_Async BB_Wifi BB_Str BB_Pool_Slots BB_Pool_Ring
    BB_Storage_RTC BB_Budget_Laws BB_Release_Manifest BB_JSON_Bound BB_Populate_Laws
begin

text \<open>
  Verification library for the breadboard firmware framework (C, \<^verbatim>\<open>src/\<close>).

  \<^bold>\<open>The program.\<close> breadboard is a set of components, each with a portable core and a platform back
  end: \<^verbatim>\<open>components/\<close> holds the portable sources and headers, \<^verbatim>\<open>platform/host\<close> the host build that the
  repository's own tests run, \<^verbatim>\<open>platform/espidf\<close> and \<^verbatim>\<open>platform/arduino\<close> the device builds. The components
  keep their state in file-scope statics of a fixed size or in caller-owned structs; there is no
  garbage and almost no heap. The cores modelled here are used by all the rest: registries and
  queues by every service, the state machine by the Wi-Fi manager and the clients, the pools and
  arenas by the servers, the lifecycle authority by every service that can be started, stopped and
  paused, the storage facade by whatever persists something, the reboot budget by whatever may restart
  the device.

  \<^bold>\<open>Conventions.\<close> Each definition has the name of the C function, type or constant it translates; a name
  that C has no name for belongs to a part of a function (a loop, a guard, an address computation) or to
  a specification. Machine integers keep their width (\<^verbatim>\<open>u8\<close>, \<^verbatim>\<open>u16\<close>, \<^verbatim>\<open>u32\<close>, \<^verbatim>\<open>u64\<close> of \<^verbatim>\<open>BB_Prelude\<close>), with
  the wrap-around C has; \<^verbatim>\<open>size_t\<close> is a natural number where the code never lets it wrap, and reduced modulo
  \<^verbatim>\<open>2^64\<close> where it computes sizes (\<^verbatim>\<open>BB_Mem_Arena\<close>, \<^verbatim>\<open>BB_Pool\<close>: an LP64 target). A pointer that may be NULL is
  an option; what is undefined in C (a call through NULL, a copy from NULL) has no result (\<^verbatim>\<open>None\<close>), so
  that a theorem that states a result excludes it. C strings are character lists without the
  terminator, character arrays are lists of their full size, and \<^verbatim>\<open>cstr\<close> reads one as the other. Buffers and
  out-parameters are returned. Result codes are \<^verbatim>\<open>bb_err_t\<close>. Build-time constants have the defaults of
  the host build. Logging is left out. A mutex makes the operation it protects one step; where the
  order of steps of several tasks matters (\<^verbatim>\<open>BB_Bqueue\<close>, \<^verbatim>\<open>BB_Lifecycle_Async\<close>), each critical
  section is a step of its own and the theorems range over all interleavings.

  \<^bold>\<open>Theories.\<close>

  \<^item> \<^verbatim>\<open>BB_Prelude\<close>: result codes, C strings, buffers, list lemmas, and the interface \<^verbatim>\<open>keyed_table\<close> of
    tables that behave as finite maps. \<^verbatim>\<open>BB_Ring\<close>: circular buffers and the interface \<^verbatim>\<open>bounded_fifo\<close>, which
    the blocking queue, the ring pools and the entry rings interpret. \<^verbatim>\<open>BB_Table\<close>: slot arrays as finite maps.

  \<^item> \<^verbatim>\<open>BB_Registry\<close> (\<^verbatim>\<open>platform/host/bb_registry\<close>): registration, removal, lookup, iteration and freezing, by
    name or by pointer. Runs of operations refine a finite map with a capacity (\<^verbatim>\<open>registry_run_refines_map\<close>).

  \<^item> \<^verbatim>\<open>BB_Queue\<close> (\<^verbatim>\<open>platform/host/bb_queue\<close>): the ring of variable-length entries with its overflow policies,
    byte budget and age limits, the list of live rings, and the age classifier. A push does what the list
    specification says on every branch; the bounds hold after any sequence of operations.

  \<^item> \<^verbatim>\<open>BB_Fsm\<close> (\<^verbatim>\<open>components/bb_fsm\<close>): transition rows with guards, actions and timers. Guards and actions
    are parameters with the client state they change. Row resolution, the reachable states, finality of terminal
    states, and the timer slots as a map.

  \<^item> \<^verbatim>\<open>BB_Bqueue\<close> (\<^verbatim>\<open>components/bb_bqueue\<close>, \<^verbatim>\<open>platform/host/bb_bqueue\<close>): the blocking queue on one mutex and two
    condition variables. The step relation interleaves any number of threads with spurious wake-ups and
    time-outs; no wake-up is lost, an overwrite reaches every blocked peeker, waits are bounded.

  \<^item> \<^verbatim>\<open>BB_Lifecycle\<close> and \<^verbatim>\<open>BB_Lifecycle_Async\<close> (\<^verbatim>\<open>components/bb_lifecycle\<close>): start, stop and reason-counted pause of
    named services, observers, the event of each transition, and the queue and worker of the asynchronous
    observers. The tables refine a started flag and a set of reasons for each service.

  \<^item> \<^verbatim>\<open>BB_Wifi\<close> (\<^verbatim>\<open>platform/host/bb_wifi/bb_wifi_emit.c\<close>, \<^verbatim>\<open>components/bb_wifi/wifi_reconn_*.c\<close>): classification of
    disconnect reasons, the backoff ladder, and the reconnect manager as rows of the state machine of
    \<^verbatim>\<open>BB_Fsm\<close>. Every waiting state has its timer, except after the race of \<^verbatim>\<open>window_race_strands_backoff\<close>.

  \<^item> \<^verbatim>\<open>BB_Mem_Arena\<close>, \<^verbatim>\<open>BB_Pool\<close>, \<^verbatim>\<open>BB_Pool_Slots\<close>, \<^verbatim>\<open>BB_Pool_Ring\<close> (\<^verbatim>\<open>platform/host/bb_mem_arena\<close>,
    \<^verbatim>\<open>platform/host/bb_pool\<close>): the bump allocator and the three kinds of pools carved from it. Blocks are
    disjoint; each slot is in one of three places; callbacks are balanced; a ring pool is a bounded list.

  \<^item> \<^verbatim>\<open>BB_Str\<close> (\<^verbatim>\<open>platform/host/bb_str\<close>): copies, key-value lists, hexadecimal, event envelopes and hashing. Round
    trips against reference printers, and bounds for inputs of any shape.

  \<^item> \<^verbatim>\<open>BB_Storage\<close>, \<^verbatim>\<open>BB_Storage_Laws\<close> (\<^verbatim>\<open>platform/host/bb_storage\<close>): the facade that dispatches to registered
    back ends, with typed access and staged transactions. A back end is a record of optional functions
    on the state of all back ends. The contracts are the locales \<^verbatim>\<open>safe_backends\<close> (nothing called is NULL),
    \<^verbatim>\<open>readback_backend\<close>, \<^verbatim>\<open>kv_backend\<close> (a store reads back what it was given) and \<^verbatim>\<open>staging_backend\<close> (a commit
    is all or nothing).

  \<^item> \<^verbatim>\<open>BB_Storage_RAM\<close> (\<^verbatim>\<open>platform/host/bb_storage_ram\<close>), \<^verbatim>\<open>BB_RTC_Region\<close> and \<^verbatim>\<open>BB_Storage_RTC\<close>
    (\<^verbatim>\<open>components/storage/bb_storage_rtc\<close>, \<^verbatim>\<open>platform/host/bb_storage_rtc\<close>): the two back ends, which interpret
    those locales, and the checksummed region of credentials.

  \<^item> \<^verbatim>\<open>BB_Reboot_Budget\<close>, \<^verbatim>\<open>BB_Budget_Laws\<close> (\<^verbatim>\<open>components/bb_system/src/bb_system_reboot_budget.c\<close>): cooldown and daily
    cap per cause, the text form of the history, its persistence through the facade and the cache. The limits
    hold over any run with restarts, proved in the locale \<^verbatim>\<open>budget_store\<close> over any store that keeps
    the contract \<^verbatim>\<open>kv_backend\<close>, and interpreted on the RAM store.

  \<^item> \<^verbatim>\<open>BB_JSON_Scan\<close> (\<^verbatim>\<open>components/bb_serialize_json/src/bb_serialize_json_scan.c\<close>): the event scanner, byte by byte, with its
    sink as a record of functions. \<^verbatim>\<open>BB_JSON_Chunks\<close>: what a feed does does not depend on how the text is cut.
    \<^verbatim>\<open>BB_JSON_Contract\<close>: the state stays in its arrays and every call keeps the contract with the sink.
    \<^verbatim>\<open>BB_JSON_Text\<close>: JSON texts as a grammar over trees, and the events of a tree. \<^verbatim>\<open>BB_JSON_Events\<close>,
    \<^verbatim>\<open>BB_JSON_Read\<close>: the locale \<^verbatim>\<open>event_sink\<close> of a sink that follows an abstract consumer of events; over any text of the
    grammar the scanner drives it through exactly the events of the tree.

  \<^item> \<^verbatim>\<open>BB_Release_Manifest\<close> (\<^verbatim>\<open>components/bb_release_manifest\<close>): the sink that extracts a release, and its buffered and
    streaming parsers, which agree.

  \<^item> \<^verbatim>\<open>BB_JSON_Tok\<close> (\<^verbatim>\<open>bb_serialize_json_tok.c\<close>): the token recorder and its accessors. \<^verbatim>\<open>BB_JSON_Tape\<close> interprets
    \<^verbatim>\<open>event_sink\<close> on it; \<^verbatim>\<open>BB_JSON_Tree\<close> shows that the accessors read a recorded document back.

  \<^item> \<^verbatim>\<open>BB_Num\<close> (\<^verbatim>\<open>platform/host/bb_num\<close>): decimal text, byte swaps, clamping.

  \<^item> \<^verbatim>\<open>BB_Serialize\<close> (\<^verbatim>\<open>components/bb_serialize\<close>): snapshots as bytes of memory, descriptors as field tables behind pointers,
    and the walker. A walk tells its vtable the tree of the snapshot, and what a vtable's callbacks keep, a walk keeps (locale
    \<^verbatim>\<open>emit_backend\<close>).

  \<^item> \<^verbatim>\<open>BB_JSON_Write\<close>, \<^verbatim>\<open>BB_JSON_Written\<close>, \<^verbatim>\<open>BB_JSON_Render\<close>, \<^verbatim>\<open>BB_JSON_Bound\<close> (\<^verbatim>\<open>bb_serialize_json.c\<close>): the JSON back end,
    which interprets \<^verbatim>\<open>emit_backend\<close> three times (memory safety, the sticky error, the abort flag). Rendering is all or
    nothing, streaming delivers the same text, the text is a document, the recorder reads it back, and the static size
    bound is enough except for arrays of scalars.

  \<^item> \<^verbatim>\<open>BB_Populate\<close>, \<^verbatim>\<open>BB_Populate_Laws\<close> (\<^verbatim>\<open>bb_serialize_populate.c\<close>, \<^verbatim>\<open>bb_serialize_json_populate.c\<close>): the scatter direction, from any source
    and from a recorded JSON document. The check of the descriptor foresees every error, so that a populate that fails has
    written nothing. For descriptors of integers, booleans, strings and nested structs (\<^verbatim>\<open>plain\<close>, \<^verbatim>\<open>laid_out\<close>) a struct
    populated from the rendered text of a snapshot shows what the snapshot shows.

  \<^bold>\<open>Termination and fuel.\<close> Every loop of the modelled code is bounded by the length of a list or the size of a table
  and is a structural recursion, a fold or a scan, or a recursive function with a measure: the driver of the scanner by the bytes
  left and the rank of its phase, the walker and the size bound by the levels left below \<^verbatim>\<open>BB_SERIALIZE_MAX_DEPTH\<close>, so that
  they end on circular field tables too. No definition takes fuel. The waits of the blocking
  queue, which may never return, are a step relation, and the theorem about finite waits bounds them.

  \<^bold>\<open>Parameters.\<close> \<^verbatim>\<open>strtod\<close>, and the text that \<^verbatim>\<open>snprintf\<close> and \<^verbatim>\<open>strtod\<close> settle on for a double in the shortest
  format (assumed to be a number of fewer than 32 bytes); the rows an array iterator yields and the sibling a reference
  resolver answers; guards, actions, callbacks, observers and flush functions, which are code of the caller.

  \<^bold>\<open>Not modelled.\<close> The device back ends that are wrappers of vendor calls (FreeRTOS queues, the Wi-Fi driver, NVS, TLS,
  sockets, HTTP server, displays, sensors); the drawing code; the other serializers (logfmt, console, metadata); the tests and
  examples. The ESP-IDF copy of the RTC back end is the host file over another memory section. Floats other than the
  fixed-decimal format of the JSON writer are not computed with.
\<close>

end
